(* ===== verification/Prelude.thy ===== *)
theory Prelude
  imports Complex_Main "HOL-Library.List_Lexorder" "HOL-Library.Char_ord"
begin

text \<open>
  Shared vocabulary of the development: the Python primitives the modelled modules use
  (strings, integers and floats read from text, formatting of numbers, slicing, ordered
  dictionaries, datetimes), the error type their exceptions become, the named collections
  the component proofs draw from, and the generic lemmas on lists, dictionaries and options.

  Conventions. A Python \<^verbatim>\<open>str\<close> is a \<^typ>\<open>string\<close> holding its UTF-8 bytes (concatenation, search,
  splitting and comparison agree on the bytes; \<open>text_take\<close> and \<open>text_len\<close> count code points; case
  conversion and white space are those of ASCII);
  an \<^verbatim>\<open>int\<close> is an \<^typ>\<open>int\<close>; a \<^verbatim>\<open>float\<close> is a \<open>pyfloat\<close>, an exact rational or one of the
  three special values, so that comparisons with NaN behave as in IEEE arithmetic while the
  rounding of decimal literals is not modelled; a naive UTC \<^verbatim>\<open>datetime\<close> is the number of
  microseconds since 1970-01-01 and a \<^verbatim>\<open>timedelta\<close> a number of microseconds.
\<close>

section \<open>Named collections\<close>

named_theorems dict_simps \<open>lookup, membership and keys of dictionaries after an update\<close>
named_theorems state_defs \<open>definitions unfolded together by the state-machine proofs\<close>

section \<open>Errors and results\<close>

datatype py_error =
    ValueError string
  | KeyError string
  | IndexError
  | TypeError
  | AttributeError
  | OverflowError
  | PermissionError string
  | RuntimeError string
  | HTTPError int string

type_synonym 'a result = "py_error + 'a"

fun bind_result :: "'a result \<Rightarrow> ('a \<Rightarrow> 'b result) \<Rightarrow> 'b result" where
  "bind_result (Inl e) f = Inl e"
| "bind_result (Inr x) f = f x"

fun is_ok :: "'a result \<Rightarrow> bool" where
  "is_ok (Inl _) = False"
| "is_ok (Inr _) = True"

fun map_result :: "('a \<Rightarrow> 'b result) \<Rightarrow> 'a list \<Rightarrow> 'b list result" where
  "map_result f [] = Inr []"
| "map_result f (x # xs) = bind_result (f x) (\<lambda>y. bind_result (map_result f xs) (\<lambda>ys. Inr (y # ys)))"

fun fold_result :: "('x \<Rightarrow> 's \<Rightarrow> 's result) \<Rightarrow> 'x list \<Rightarrow> 's \<Rightarrow> 's result" where
  "fold_result f [] s = Inr s"
| "fold_result f (x # xs) s = bind_result (f x s) (fold_result f xs)"

lemma bind_result_Inr_iff: "bind_result r f = Inr y \<longleftrightarrow> (\<exists>x. r = Inr x \<and> f x = Inr y)"
  by (cases r) auto

text \<open>An invariant every step of a fallible fold keeps holds for its result.\<close>

lemma fold_result_invariant:
  assumes "fold_result f xs s = Inr t" and "P s"
    and "\<And>x s s'. x \<in> set xs \<Longrightarrow> P s \<Longrightarrow> f x s = Inr s' \<Longrightarrow> P s'"
  shows "P t"
  using assms
proof (induction xs arbitrary: s)
  case (Cons x xs)
  then obtain s' where "f x s = Inr s'" and "fold_result f xs s' = Inr t"
    by (auto simp: bind_result_Inr_iff)
  with Cons show ?case by (meson list.set_intros)
qed simp

section \<open>Characters and strings\<close>

definition ascii :: "nat \<Rightarrow> char" where
  "ascii n = char_of n"

definition is_digit :: "char \<Rightarrow> bool" where
  "is_digit c \<longleftrightarrow> 48 \<le> (of_char c :: nat) \<and> (of_char c :: nat) \<le> 57"

definition digit_val :: "char \<Rightarrow> nat" where
  "digit_val c = of_char c - 48"

definition digit_char :: "nat \<Rightarrow> char" where
  "digit_char d = char_of (48 + d)"

definition is_upper :: "char \<Rightarrow> bool" where
  "is_upper c \<longleftrightarrow> 65 \<le> (of_char c :: nat) \<and> (of_char c :: nat) \<le> 90"

definition is_lower :: "char \<Rightarrow> bool" where
  "is_lower c \<longleftrightarrow> 97 \<le> (of_char c :: nat) \<and> (of_char c :: nat) \<le> 122"

definition is_space :: "char \<Rightarrow> bool" where
  "is_space c \<longleftrightarrow> (of_char c :: nat) = 32 \<or> (9 \<le> (of_char c :: nat) \<and> (of_char c :: nat) \<le> 13)
     \<or> (28 \<le> (of_char c :: nat) \<and> (of_char c :: nat) \<le> 31)"

definition lower_char :: "char \<Rightarrow> char" where
  "lower_char c = (if is_upper c then char_of ((of_char c :: nat) + 32) else c)"

definition upper_char :: "char \<Rightarrow> char" where
  "upper_char c = (if is_lower c then char_of ((of_char c :: nat) - 32) else c)"

definition str_lower :: "string \<Rightarrow> string" where
  "str_lower = map lower_char"

definition str_upper :: "string \<Rightarrow> string" where
  "str_upper = map upper_char"

definition lstrip :: "string \<Rightarrow> string" where
  "lstrip = dropWhile is_space"

definition rstrip :: "string \<Rightarrow> string" where
  "rstrip s = rev (dropWhile is_space (rev s))"

definition strip :: "string \<Rightarrow> string" where
  "strip s = rstrip (lstrip s)"

text \<open>\<^verbatim>\<open>s[:n]\<close> and \<^verbatim>\<open>len(s)\<close>: a continuation byte belongs to the code point before it.\<close>

definition is_cont :: "char \<Rightarrow> bool" where
  "is_cont c \<longleftrightarrow> 128 \<le> (of_char c :: nat) \<and> (of_char c :: nat) < 192"

fun text_take :: "nat \<Rightarrow> string \<Rightarrow> string" where
  "text_take n [] = []"
| "text_take n (c # s) =
     (if is_cont c then c # text_take n s else (case n of 0 \<Rightarrow> [] | Suc m \<Rightarrow> c # text_take m s))"

declare text_take.simps(2) [simp del]

definition text_len :: "string \<Rightarrow> nat" where
  "text_len s = length (filter (\<lambda>c. \<not> is_cont c) s)"

text \<open>\<^verbatim>\<open>str.isdigit\<close> on ASCII text: at least one character, all digits.\<close>

definition isdigit :: "string \<Rightarrow> bool" where
  "isdigit s \<longleftrightarrow> s \<noteq> [] \<and> list_all is_digit s"

fun startswith :: "string \<Rightarrow> string \<Rightarrow> bool" where
  "startswith s [] = True"
| "startswith [] (p # ps) = False"
| "startswith (c # s) (p # ps) = (c = p \<and> startswith s ps)"

text \<open>\<^verbatim>\<open>sub in s\<close>.\<close>

fun contains :: "string \<Rightarrow> string \<Rightarrow> bool" where
  "contains sub [] = (sub = [])"
| "contains sub (c # s) = (startswith (c # s) sub \<or> contains sub s)"

text \<open>\<^verbatim>\<open>s.split(sep)\<close> for a one-character separator: always at least one part.\<close>

fun split_on :: "char \<Rightarrow> string \<Rightarrow> string list" where
  "split_on sep [] = [[]]"
| "split_on sep (c # s) =
     (if c = sep then [] # split_on sep s
      else (case split_on sep s of [] \<Rightarrow> [[c]] | p # ps \<Rightarrow> (c # p) # ps))"

text \<open>\<^verbatim>\<open>sep.join(parts)\<close>.\<close>

fun join :: "string \<Rightarrow> string list \<Rightarrow> string" where
  "join sep [] = []"
| "join sep [p] = p"
| "join sep (p # ps) = p @ sep @ join sep ps"

text \<open>\<^verbatim>\<open>s.replace(old, new)\<close> with a non-empty pattern, left to right without overlap.\<close>

function str_replace :: "string \<Rightarrow> string \<Rightarrow> string \<Rightarrow> string" where
  "str_replace old new s =
     (if old = [] \<or> s = [] then s
      else if startswith s old then new @ str_replace old new (drop (length old) s)
      else hd s # str_replace old new (tl s))"
  by pat_completeness auto
termination
  by (relation "measure (\<lambda>(old, new, s). length s)") (auto simp: neq_Nil_conv)

declare str_replace.simps [simp del]

text \<open>\<^verbatim>\<open>s[lo:hi]\<close> for non-negative bounds.\<close>

definition slice :: "nat \<Rightarrow> nat \<Rightarrow> 'a list \<Rightarrow> 'a list" where
  "slice lo hi s = drop lo (take hi s)"

section \<open>Integers as text\<close>

fun show_nat :: "nat \<Rightarrow> string" where
  "show_nat n = (if n < 10 then [digit_char n] else show_nat (n div 10) @ [digit_char (n mod 10)])"

declare show_nat.simps [simp del]

definition show_int :: "int \<Rightarrow> string" where
  "show_int i = (if i < 0 then CHR ''-'' # show_nat (nat (- i)) else show_nat (nat i))"

definition nat_of_digits :: "string \<Rightarrow> nat" where
  "nat_of_digits s = foldl (\<lambda>acc c. 10 * acc + digit_val c) 0 s"

text \<open>The digits of a numeric literal: single underscores may stand between two digits.\<close>

fun digits_us :: "string \<Rightarrow> string option" where
  "digits_us [] = Some []"
| "digits_us [c] = (if is_digit c then Some [c] else None)"
| "digits_us (c # d # s) =
     (if \<not> is_digit c then None
      else if d = CHR ''_'' then (if s = [] then None else map_option ((#) c) (digits_us s))
      else map_option ((#) c) (digits_us (d # s)))"

fun split_sign :: "string \<Rightarrow> bool \<times> string" where
  "split_sign (c # s) = (if c = CHR ''-'' then (True, s) else if c = CHR ''+'' then (False, s) else (False, c # s))"
| "split_sign [] = (False, [])"

text \<open>\<^verbatim>\<open>int(s)\<close> on a string, \<open>None\<close> where it raises ValueError.\<close>

definition parse_int :: "string \<Rightarrow> int option" where
  "parse_int s = (case split_sign (strip s) of (neg, t) \<Rightarrow>
     (case digits_us t of None \<Rightarrow> None
      | Some ds \<Rightarrow> if ds = [] then None
                  else Some ((if neg then - 1 else 1) * int (nat_of_digits ds))))"

section \<open>Floats\<close>

datatype pyfloat = Fin rat | PosInf | NegInf | NaN

fun flt_less :: "pyfloat \<Rightarrow> pyfloat \<Rightarrow> bool" where
  "flt_less NaN _ = False"
| "flt_less _ NaN = False"
| "flt_less (Fin a) (Fin b) = (a < b)"
| "flt_less NegInf NegInf = False"
| "flt_less NegInf _ = True"
| "flt_less _ NegInf = False"
| "flt_less PosInf _ = False"
| "flt_less _ PosInf = True"

fun flt_le :: "pyfloat \<Rightarrow> pyfloat \<Rightarrow> bool" where
  "flt_le NaN _ = False"
| "flt_le _ NaN = False"
| "flt_le a b = (flt_less a b \<or> a = b)"

lemma flt_less_NaN [simp]: "\<not> flt_less a NaN" "\<not> flt_less NaN a"
  by (cases a; simp)+

lemma flt_le_NaN [simp]: "\<not> flt_le a NaN" "\<not> flt_le NaN a"
  by (cases a; simp)+

lemma flt_le_iff_not_less:
  "a \<noteq> NaN \<Longrightarrow> b \<noteq> NaN \<Longrightarrow> flt_le a b \<longleftrightarrow> \<not> flt_less b a"
  by (cases a; cases b) auto

text \<open>A signed decimal literal \<open>digits[.digits][e[sign]digits]\<close>, as \<^verbatim>\<open>float(s)\<close> reads it.\<close>

definition split_first :: "(char \<Rightarrow> bool) \<Rightarrow> string \<Rightarrow> string \<times> string option" where
  "split_first P s = (case dropWhile (\<lambda>c. \<not> P c) s of
     [] \<Rightarrow> (s, None) | _ # rest \<Rightarrow> (takeWhile (\<lambda>c. \<not> P c) s, Some rest))"

definition pow10 :: "int \<Rightarrow> rat" where
  "pow10 e = (if e < 0 then 1 / 10 ^ nat (- e) else 10 ^ nat e)"

definition parse_exponent :: "string option \<Rightarrow> int option" where
  "parse_exponent e = (case e of None \<Rightarrow> Some 0
     | Some t \<Rightarrow> (case split_sign t of (neg, ds) \<Rightarrow>
         (case digits_us ds of None \<Rightarrow> None
          | Some d \<Rightarrow> if d = [] then None
                     else Some ((if neg then - 1 else 1) * int (nat_of_digits d)))))"

definition parse_decimal :: "string \<Rightarrow> rat option" where
  "parse_decimal t =
     (case split_first (\<lambda>c. c = CHR ''e'' \<or> c = CHR ''E'') t of (mant, ex) \<Rightarrow>
        (case split_first (\<lambda>c. c = CHR ''.'') mant of (ip, fp) \<Rightarrow>
           (case (digits_us ip, digits_us (case fp of None \<Rightarrow> [] | Some f \<Rightarrow> f), parse_exponent ex) of
              (Some i, Some f, Some e) \<Rightarrow>
                if i = [] \<and> f = [] then None
                else Some (of_nat (nat_of_digits (i @ f)) * pow10 (e - int (length f)))
            | _ \<Rightarrow> None)))"

definition parse_float :: "string \<Rightarrow> pyfloat option" where
  "parse_float s = (case split_sign (strip s) of (neg, t) \<Rightarrow>
     (if str_lower t \<in> {''inf'', ''infinity''} then Some (if neg then NegInf else PosInf)
      else if str_lower t = ''nan'' then Some NaN
      else map_option (\<lambda>q. Fin (if neg then - q else q)) (parse_decimal t)))"

section \<open>Formatting numbers\<close>

text \<open>\<^verbatim>\<open>round\<close> to the nearest integer, halves to the even neighbour.\<close>

definition round_half_even :: "rat \<Rightarrow> int" where
  "round_half_even q = (let f = \<lfloor>q\<rfloor>; d = q - of_int f in
     if d < 1 / 2 then f else if d > 1 / 2 then f + 1 else if even f then f else f + 1)"

lemma round_half_even_le: "q \<le> of_int n \<Longrightarrow> round_half_even q \<le> n"
proof -
  assume q: "q \<le> of_int n"
  then have "\<lfloor>q\<rfloor> \<le> n" by (metis floor_mono floor_of_int)
  moreover have "q = of_int n" if "\<lfloor>q\<rfloor> = n" using q that of_int_floor_le [of q] by simp
  ultimately show ?thesis by (cases "\<lfloor>q\<rfloor> = n") (auto simp: round_half_even_def Let_def)
qed

lemma round_half_even_ge: "of_int n \<le> q \<Longrightarrow> n \<le> round_half_even q"
proof -
  assume "of_int n \<le> q"
  then have "n \<le> \<lfloor>q\<rfloor>" by (simp add: le_floor_iff)
  then show ?thesis by (auto simp: round_half_even_def Let_def)
qed

lemma round_half_even_gt: "q > of_int n + 1 / 2 \<Longrightarrow> n < round_half_even q"
proof -
  assume q: "q > of_int n + 1 / 2"
  then have "n \<le> \<lfloor>q\<rfloor>" by (simp add: le_floor_iff)
  then show ?thesis using q by (cases "\<lfloor>q\<rfloor> = n") (auto simp: round_half_even_def Let_def)
qed

text \<open>\<^verbatim>\<open>int(x)\<close> of a finite float truncates towards zero.\<close>

definition trunc :: "rat \<Rightarrow> int" where
  "trunc q = (if q < 0 then - \<lfloor>- q\<rfloor> else \<lfloor>q\<rfloor>)"

definition pad_left :: "nat \<Rightarrow> char \<Rightarrow> string \<Rightarrow> string" where
  "pad_left n c s = replicate (n - length s) c @ s"

text \<open>\<^verbatim>\<open>f"{n:0wd}"\<close> for a non-negative \<open>n\<close>.\<close>

definition zpad :: "nat \<Rightarrow> int \<Rightarrow> string" where
  "zpad w n = pad_left w CHR ''0'' (show_nat (nat n))"

definition sign_str :: "rat \<Rightarrow> string" where
  "sign_str q = (if q < 0 then ''-'' else [])"

text \<open>\<^verbatim>\<open>f"{x:.1f}"\<close>.\<close>

fun fmt_1f :: "pyfloat \<Rightarrow> string" where
  "fmt_1f (Fin q) = (let n = round_half_even (\<bar>q\<bar> * 10) in
     sign_str q @ show_int (n div 10) @ ''.'' @ show_int (n mod 10))"
| "fmt_1f PosInf = ''inf''"
| "fmt_1f NegInf = ''-inf''"
| "fmt_1f NaN = ''nan''"

text \<open>The decimal exponent of a non-zero magnitude: \<open>10 ^ e \<le> q < 10 ^ (e + 1)\<close>.\<close>

definition dec_exponent :: "rat \<Rightarrow> int" where
  "dec_exponent q = (if 1 \<le> q then int (length (show_nat (nat \<lfloor>q\<rfloor>))) - 1
     else - int (length (show_nat (nat (\<lceil>1 / q\<rceil> - 1)))))"

definition rstrip_zeros :: "string \<Rightarrow> string" where
  "rstrip_zeros s = (let t = rev (dropWhile (\<lambda>c. c = CHR ''0'') (rev s)) in
     if t \<noteq> [] \<and> last t = CHR ''.'' then butlast t else t)"

text \<open>\<^verbatim>\<open>f"{x:g}"\<close>: six significant digits, trailing zeros removed.\<close>

fun fmt_g :: "pyfloat \<Rightarrow> string" where
  "fmt_g (Fin q) = (if q = 0 then ''0'' else
     (let a = \<bar>q\<bar>; e0 = dec_exponent a; m0 = round_half_even (a * pow10 (5 - e0));
          e = (if m0 = 1000000 then e0 + 1 else e0); m = (if m0 = 1000000 then 100000 else m0)
      in sign_str q @
         (if - 4 \<le> e \<and> e < 6 then
            (let k = nat (5 - e); p = 10 ^ k in
             rstrip_zeros (show_int (m div p) @ ''.'' @ zpad k (m mod p)))
          else rstrip_zeros (show_int (m div 100000) @ ''.'' @ zpad 5 (m mod 100000)) @ ''e'' @
               (if e < 0 then ''-'' else ''+'') @ zpad 2 \<bar>e\<bar>)))"
| "fmt_g PosInf = ''inf''"
| "fmt_g NegInf = ''-inf''"
| "fmt_g NaN = ''nan''"

section \<open>Dictionaries\<close>

text \<open>
  A Python dict keeps insertion order: an association list with distinct keys. Assigning an
  existing key keeps its position, a new key goes to the end.
\<close>

type_synonym ('k, 'v) dict = "('k \<times> 'v) list"

definition dget :: "('k, 'v) dict \<Rightarrow> 'k \<Rightarrow> 'v option" where
  "dget d k = map_of d k"

fun dset :: "('k, 'v) dict \<Rightarrow> 'k \<Rightarrow> 'v \<Rightarrow> ('k, 'v) dict" where
  "dset [] k v = [(k, v)]"
| "dset ((k', v') # d) k v = (if k' = k then (k, v) # d else (k', v') # dset d k v)"

definition ddel :: "('k, 'v) dict \<Rightarrow> 'k \<Rightarrow> ('k, 'v) dict" where
  "ddel d k = filter (\<lambda>p. fst p \<noteq> k) d"

definition dkeys :: "('k, 'v) dict \<Rightarrow> 'k list" where
  "dkeys d = map fst d"

definition dget_or :: "('k, 'v) dict \<Rightarrow> 'k \<Rightarrow> 'v \<Rightarrow> 'v" where
  "dget_or d k v = (case dget d k of None \<Rightarrow> v | Some x \<Rightarrow> x)"

definition dict_ok :: "('k, 'v) dict \<Rightarrow> bool" where
  "dict_ok d \<longleftrightarrow> distinct (dkeys d)"

lemma dget_Nil [simp]: "dget [] k = None"
  by (simp add: dget_def)

lemma dget_Cons: "dget ((k', v) # d) k = (if k' = k then Some v else dget d k)"
  by (simp add: dget_def)

lemma dget_dset [dict_simps]: "dget (dset d k v) k' = (if k' = k then Some v else dget d k')"
  by (induction d k v rule: dset.induct) (auto simp: dget_Cons)

lemma dget_ddel [dict_simps]: "dget (ddel d k) k' = (if k' = k then None else dget d k')"
  by (induction d) (auto simp: ddel_def dget_def)

lemma set_dkeys_dset [dict_simps]: "set (dkeys (dset d k v)) = insert k (set (dkeys d))"
  by (induction d k v rule: dset.induct) (auto simp: dkeys_def)

lemma set_dkeys_ddel [dict_simps]: "set (dkeys (ddel d k)) = set (dkeys d) - {k}"
  by (auto simp: dkeys_def ddel_def)

lemma dget_eq_None_iff: "dget d k = None \<longleftrightarrow> k \<notin> set (dkeys d)"
  by (simp add: dget_def dkeys_def map_of_eq_None_iff)

lemma dict_ok_Nil [simp]: "dict_ok []"
  by (simp add: dict_ok_def dkeys_def)

lemma dict_ok_dset [intro]: "dict_ok d \<Longrightarrow> dict_ok (dset d k v)"
proof (induction d k v rule: dset.induct)
  case (2 k' v' d k v)
  then show ?case using set_dkeys_dset [of d k v] by (auto simp: dict_ok_def dkeys_def)
qed (simp add: dict_ok_def dkeys_def)

lemma dict_ok_ddel [intro]: "dict_ok d \<Longrightarrow> dict_ok (ddel d k)"
  by (auto simp: dict_ok_def dkeys_def ddel_def distinct_map intro: inj_on_subset)

lemma dget_or_dset [dict_simps]: "dget_or (dset d k v) k' x = (if k' = k then v else dget_or d k' x)"
  by (simp add: dget_or_def dict_simps)

lemma dget_filter: "dget (filter (\<lambda>(k, _). P k) d) k = (if P k then dget d k else None)"
  by (induction d) (auto simp: dget_def)

lemma dget_filter_pair:
  "dict_ok d \<Longrightarrow> dget (filter (\<lambda>(k, v). P v) d) k = (case dget d k of None \<Rightarrow> None | Some v \<Rightarrow> if P v then Some v else None)"
proof (induction d)
  case (Cons kv d)
  obtain k' v where kv: "kv = (k', v)" by fastforce
  have "dget d k' = None" using Cons.prems kv by (simp add: dict_ok_def dkeys_def dget_eq_None_iff)
  with Cons kv show ?case by (auto simp: dget_Cons dict_ok_def dkeys_def)
qed simp

lemma dict_ok_filter: "dict_ok d \<Longrightarrow> dict_ok (filter P d)"
  by (simp add: dict_ok_def dkeys_def distinct_map_filter)

lemma set_dset: "set (dset d k v) \<subseteq> insert (k, v) (set d)"
  by (induction d k v rule: dset.induct) auto

section \<open>Datetimes\<close>

type_synonym datetime = int

abbreviation us_per_second :: int where "us_per_second \<equiv> 1000000"
abbreviation us_per_minute :: int where "us_per_minute \<equiv> 60000000"
abbreviation us_per_day :: int where "us_per_day \<equiv> 86400000000"

definition seconds :: "int \<Rightarrow> int" where "seconds n = n * us_per_second"
definition minutes :: "int \<Rightarrow> int" where "minutes n = n * us_per_minute"
definition days :: "int \<Rightarrow> int" where "days n = n * us_per_day"

definition total_seconds :: "int \<Rightarrow> rat" where
  "total_seconds d = of_int d / 1000000"

text \<open>Day number (days since 1970-01-01) and microseconds into the day.\<close>

definition day_of :: "datetime \<Rightarrow> int" where "day_of t = t div us_per_day"
definition tod_of :: "datetime \<Rightarrow> int" where "tod_of t = t mod us_per_day"

text \<open>\<^verbatim>\<open>date.weekday()\<close>: Monday is 0; 1970-01-01 was a Thursday.\<close>

definition weekday :: "int \<Rightarrow> int" where "weekday d = (d + 3) mod 7"

text \<open>Civil date of a day number in the proleptic Gregorian calendar.\<close>

definition civil_of_day :: "int \<Rightarrow> int \<times> int \<times> int" where
  "civil_of_day d =
     (let z = d + 719468; era = z div 146097; doe = z mod 146097;
          yoe = (doe - doe div 1460 + doe div 36524 - doe div 146096) div 365;
          doy = doe - (365 * yoe + yoe div 4 - yoe div 100);
          mp = (5 * doy + 2) div 153;
          dd = doy - (153 * mp + 2) div 5 + 1;
          m = (if mp < 10 then mp + 3 else mp - 9);
          y = yoe + era * 400 + (if m \<le> 2 then 1 else 0)
      in (y, m, dd))"

definition iso_date :: "int \<Rightarrow> string" where
  "iso_date d = (case civil_of_day d of (y, m, dd) \<Rightarrow> zpad 4 y @ ''-'' @ zpad 2 m @ ''-'' @ zpad 2 dd)"

definition hh_mm :: "datetime \<Rightarrow> string" where
  "hh_mm t = zpad 2 (tod_of t div 3600000000) @ '':'' @ zpad 2 (tod_of t div us_per_minute mod 60)"

text \<open>\<^verbatim>\<open>datetime.isoformat()\<close> of a naive datetime.\<close>

definition isoformat :: "datetime \<Rightarrow> string" where
  "isoformat t = iso_date (day_of t) @ ''T'' @ hh_mm t @ '':'' @ zpad 2 (tod_of t div us_per_second mod 60)
     @ (if t mod us_per_second = 0 then [] else ''.'' @ zpad 6 (t mod us_per_second))"

section \<open>Generic lemmas\<close>

lemma str_lower_append [simp]: "str_lower (a @ b) = str_lower a @ str_lower b"
  by (simp add: str_lower_def)

lemma length_str_lower [simp]: "length (str_lower s) = length s"
  by (simp add: str_lower_def)

lemma startswith_iff: "startswith s p \<longleftrightarrow> take (length p) s = p"
  by (induction s p rule: startswith.induct) auto

lemma contains_iff: "contains sub s \<longleftrightarrow> (\<exists>a b. s = a @ sub @ b)"
proof (induction sub s rule: contains.induct)
  case (2 sub c s)
  show ?case
  proof
    assume "contains sub (c # s)"
    then consider "startswith (c # s) sub" | "contains sub s" by auto
    then show "\<exists>a b. c # s = a @ sub @ b"
    proof cases
      case 1
      then have "c # s = [] @ sub @ drop (length sub) (c # s)"
        using append_take_drop_id [of "length sub" "c # s"] by (simp add: startswith_iff)
      then show ?thesis by blast
    next
      case 2
      with "2.IH" obtain a b where "s = a @ sub @ b" by blast
      then have "c # s = (c # a) @ sub @ b" by simp
      then show ?thesis by blast
    qed
  next
    assume "\<exists>a b. c # s = a @ sub @ b"
    then obtain a b where ab: "c # s = a @ sub @ b" by blast
    show "contains sub (c # s)"
    proof (cases a)
      case Nil
      with ab have "startswith (c # s) sub" by (simp add: startswith_iff)
      then show ?thesis by simp
    next
      case (Cons x xs)
      with ab have "s = xs @ sub @ b" by simp
      with "2.IH" show ?thesis by auto
    qed
  qed
qed auto

lemma split_on_ne [simp]: "split_on sep s \<noteq> []"
  by (induction sep s rule: split_on.induct) (auto split: list.splits)

lemma join_Cons: "ps \<noteq> [] \<Longrightarrow> join sep (p # ps) = p @ sep @ join sep ps"
  by (cases ps) auto

lemma join_split_on: "join [sep] (split_on sep s) = s"
proof (induction sep s rule: split_on.induct)
  case (2 sep c s)
  obtain p ps where ps: "split_on sep s = p # ps"
    using split_on_ne [of sep s] by (cases "split_on sep s") auto
  have "join [sep] ((c # p) # ps) = c # join [sep] (p # ps)"
    by (cases ps) auto
  with 2 ps show ?case by (auto simp: join_Cons)
qed simp

lemma split_on_parts: "p \<in> set (split_on sep s) \<Longrightarrow> sep \<notin> set p"
  by (induction sep s arbitrary: p rule: split_on.induct) (auto split: if_splits list.splits)

lemma split_on_join:
  "ps \<noteq> [] \<Longrightarrow> \<forall>p \<in> set ps. sep \<notin> set p \<Longrightarrow> split_on sep (join [sep] ps) = ps"
proof (induction ps)
  case (Cons p ps)
  have one: "sep \<notin> set q \<Longrightarrow> split_on sep q = [q]" for q
    by (induction q) auto
  have two: "sep \<notin> set q \<Longrightarrow> split_on sep (q @ sep # r) = q # split_on sep r" for q r
    by (induction q) auto
  from Cons show ?case by (cases "ps = []") (auto simp: join_Cons one two)
qed simp

section \<open>Printed numbers read back\<close>

lemma of_char_digit_char [simp]: "d < 10 \<Longrightarrow> (of_char (digit_char d) :: nat) = 48 + d"
  by (simp add: digit_char_def)

lemma is_digit_digit_char [simp]: "d < 10 \<Longrightarrow> is_digit (digit_char d)"
  by (simp add: is_digit_def)

lemma digit_val_digit_char [simp]: "d < 10 \<Longrightarrow> digit_val (digit_char d) = d"
  by (simp add: digit_val_def)

lemma nat_of_digits_snoc: "nat_of_digits (s @ [c]) = 10 * nat_of_digits s + digit_val c"
  by (simp add: nat_of_digits_def)

lemma show_nat_digits: "list_all is_digit (show_nat n)"
  by (induction n rule: show_nat.induct) (subst show_nat.simps, simp)

lemma show_nat_ne [simp]: "show_nat n \<noteq> []"
  by (subst show_nat.simps) simp

lemma nat_of_digits_show_nat [simp]: "nat_of_digits (show_nat n) = n"
proof (induction n rule: show_nat.induct)
  case (1 n)
  show ?case
  proof (cases "n < 10")
    case True
    then show ?thesis by (subst show_nat.simps) (simp add: nat_of_digits_def)
  next
    case False
    with 1 show ?thesis by (subst show_nat.simps) (simp add: nat_of_digits_snoc)
  qed
qed

lemma show_nat_hd: "0 < n \<Longrightarrow> hd (show_nat n) \<noteq> CHR ''0''"
proof (induction n rule: show_nat.induct)
  case (1 n)
  show ?case
  proof (cases "n < 10")
    case True
    have "(of_char (digit_char n) :: nat) \<noteq> of_char CHR ''0''" using True "1.prems" by simp
    then have "digit_char n \<noteq> CHR ''0''" by metis
    with True show ?thesis by (subst show_nat.simps) simp
  next
    case False
    with 1 have "hd (show_nat (n div 10)) \<noteq> CHR ''0''" by simp
    with False show ?thesis by (subst show_nat.simps) simp
  qed
qed

lemma show_nat_0 [simp]: "show_nat 0 = ''0''"
  by code_simp

lemma is_digit_set_show_nat: "c \<in> set (show_nat n) \<Longrightarrow> is_digit c"
  using show_nat_digits [of n] by (simp add: list_all_iff)

lemma digits_us_digits: "list_all is_digit s \<Longrightarrow> digits_us s = Some s"
proof (induction s rule: digits_us.induct)
  case (3 c d s)
  then have "d \<noteq> CHR ''_''" by (auto simp: is_digit_def)
  with 3 show ?case by simp
qed auto

lemma strip_id:
  assumes "s \<noteq> []" "\<not> is_space (hd s)" "\<not> is_space (last s)"
  shows "strip s = s"
proof -
  have "lstrip s = s" using assms by (cases s) (simp_all add: lstrip_def)
  moreover have "rstrip s = s"
    using assms by (cases s rule: rev_cases) (simp_all add: rstrip_def)
  ultimately show ?thesis by (simp add: strip_def)
qed

lemma digit_not_space: "is_digit c \<Longrightarrow> \<not> is_space c"
  by (auto simp: is_digit_def is_space_def)

lemma digit_not_sign: "is_digit c \<Longrightarrow> c \<noteq> CHR ''-'' \<and> c \<noteq> CHR ''+''"
  by (auto simp: is_digit_def)

lemma show_nat_hd_digit: "is_digit (hd (show_nat n))"
  using show_nat_digits [of n] by (cases "show_nat n") auto

lemma show_nat_last_digit: "is_digit (last (show_nat n))"
  by (rule is_digit_set_show_nat [of _ n]) simp

lemma show_int_ne [simp]: "show_int i \<noteq> []"
  by (simp add: show_int_def)

lemma parse_int_show_int [simp]: "parse_int (show_int i) = Some i"
proof -
  have st: "strip (show_int i) = show_int i"
  proof (rule strip_id)
    show "\<not> is_space (hd (show_int i))"
      using digit_not_space [OF show_nat_hd_digit [of "nat i"]]
      by (simp add: show_int_def) (simp add: is_space_def)
    show "\<not> is_space (last (show_int i))"
      using show_nat_last_digit by (auto simp: show_int_def digit_not_space)
  qed simp
  have sp: "split_sign (show_nat n) = (False, show_nat n)" for n
    using digit_not_sign [OF show_nat_hd_digit [of n]] by (cases "show_nat n") auto
  show ?thesis
    by (simp add: parse_int_def st) (auto simp: show_int_def sp digits_us_digits [OF show_nat_digits])
qed

end
