(* ===== verification/Json.thy ===== *)
theory Json
  imports Prelude
begin

text \<open>
  The values of Python's \<^verbatim>\<open>json\<close> module and the part of it the program calls:
  \<^verbatim>\<open>json.loads\<close> on text from a database column (every grammar rule of the standard decoder,
  the \<open>NaN\<close> and \<open>Infinity\<close> extensions included; a duplicate key keeps the position of its
  first and the value of its last occurrence) and \<^verbatim>\<open>json.dumps\<close> of a list of integers.
  The decoder is a \<^theory_text>\<open>function\<close> with a termination proof: each recursive call is guarded by
  the input having become shorter.
\<close>

datatype json =
    JNull
  | JBool bool
  | JInt int
  | JFloat pyfloat
  | JStr string
  | JList "json list"
  | JDict "(string \<times> json) list"

section \<open>Lexical structure\<close>

definition ws_char :: "char \<Rightarrow> bool" where
  "ws_char c \<longleftrightarrow> (of_char c :: nat) \<in> {9, 10, 13, 32}"

definition skip_ws :: "string \<Rightarrow> string" where
  "skip_ws = dropWhile ws_char"

definition hex_val :: "char \<Rightarrow> nat option" where
  "hex_val c = (let n = of_char c :: nat in
     if 48 \<le> n \<and> n \<le> 57 then Some (n - 48)
     else if 97 \<le> n \<and> n \<le> 102 then Some (n - 87)
     else if 65 \<le> n \<and> n \<le> 70 then Some (n - 55) else None)"

definition utf8 :: "nat \<Rightarrow> string" where
  "utf8 n = map char_of
     (if n < 128 then [n]
      else if n < 2048 then [192 + n div 64, 128 + n mod 64]
      else if n < 65536 then [224 + n div 4096, 128 + n div 64 mod 64, 128 + n mod 64]
      else [240 + n div 262144, 128 + n div 4096 mod 64, 128 + n div 64 mod 64, 128 + n mod 64])"

definition hex4 :: "string \<Rightarrow> (nat \<times> string) option" where
  "hex4 s = (case s of
     a # b # c # d # r \<Rightarrow>
       (case (hex_val a, hex_val b, hex_val c, hex_val d) of
          (Some w, Some x, Some y, Some z) \<Rightarrow> Some (4096 * w + 256 * x + 16 * y + z, r)
        | _ \<Rightarrow> None)
   | _ \<Rightarrow> None)"

definition simple_escape :: "char \<Rightarrow> char option" where
  "simple_escape e =
     (if e = CHR 0x22 \<or> e = CHR 0x5C \<or> e = CHR ''/'' then Some e
      else if e = CHR ''b'' then Some (CHR 0x08)
      else if e = CHR ''f'' then Some (CHR 0x0C)
      else if e = CHR ''n'' then Some (CHR 0x0A)
      else if e = CHR ''r'' then Some (CHR 0x0D)
      else if e = CHR ''t'' then Some (CHR 0x09) else None)"

text \<open>A unicode escape after its \<open>u\<close>: a surrogate pair is one code point.\<close>

definition unicode_escape :: "string \<Rightarrow> (string \<times> string) option" where
  "unicode_escape s = (case hex4 s of None \<Rightarrow> None
     | Some (u, r) \<Rightarrow>
         (if 0xD800 \<le> u \<and> u < 0xDC00 then
            (case r of
               b # v # r' \<Rightarrow>
                 (if b = CHR 0x5C \<and> v = CHR ''u'' then
                    (case hex4 r' of
                       Some (w, r'') \<Rightarrow>
                         (if 0xDC00 \<le> w \<and> w < 0xE000
                          then Some (utf8 (65536 + (u - 0xD800) * 1024 + (w - 0xDC00)), r'')
                          else Some (utf8 u, r))
                     | None \<Rightarrow> Some (utf8 u, r))
                  else Some (utf8 u, r))
             | _ \<Rightarrow> Some (utf8 u, r))
          else Some (utf8 u, r)))"

text \<open>The rest of a string literal after its opening quote.\<close>

function parse_str :: "string \<Rightarrow> (string \<times> string) option" where
  "parse_str s = (case s of
     [] \<Rightarrow> None
   | c # r \<Rightarrow>
       (if c = CHR 0x22 then Some ([], r)
        else if (of_char c :: nat) < 32 then None
        else if c \<noteq> CHR 0x5C then map_option (\<lambda>(t, q). (c # t, q)) (parse_str r)
        else (case r of
                [] \<Rightarrow> None
              | e # r' \<Rightarrow>
                  (if e = CHR ''u'' then
                     (case unicode_escape r' of
                        None \<Rightarrow> None
                      | Some (t, q) \<Rightarrow>
                          (if length q < length s
                           then map_option (\<lambda>(t', q'). (t @ t', q')) (parse_str q) else None))
                   else (case simple_escape e of
                           None \<Rightarrow> None
                         | Some x \<Rightarrow> map_option (\<lambda>(t, q). (x # t, q)) (parse_str r'))))))"
  by pat_completeness auto
termination
  by (relation "measure length") auto

declare parse_str.simps [simp del]

text \<open>A number: the longest prefix of the decoder's number pattern.\<close>

definition int_part :: "string \<Rightarrow> (string \<times> string) option" where
  "int_part s = (case s of [] \<Rightarrow> None
     | c # r \<Rightarrow> if c = CHR ''0'' then Some ([c], r)
               else if is_digit c then Some (takeWhile is_digit s, dropWhile is_digit s) else None)"

definition frac_part :: "string \<Rightarrow> string \<times> string" where
  "frac_part s = (case s of
     d # c # r \<Rightarrow> if d = CHR ''.'' \<and> is_digit c
                  then (takeWhile is_digit (c # r), dropWhile is_digit (c # r)) else ([], s)
   | _ \<Rightarrow> ([], s))"

definition exp_part :: "string \<Rightarrow> int option \<times> string" where
  "exp_part s = (case s of
     c # r \<Rightarrow> if c = CHR ''e'' \<or> c = CHR ''E''
              then (case split_sign r of (neg, t) \<Rightarrow>
                      (if t \<noteq> [] \<and> is_digit (hd t)
                       then (Some ((if neg then - 1 else 1) * int (nat_of_digits (takeWhile is_digit t))),
                             dropWhile is_digit t)
                       else (None, s)))
              else (None, s)
   | [] \<Rightarrow> (None, s))"

definition parse_num :: "string \<Rightarrow> (json \<times> string) option" where
  "parse_num s =
     (let neg = (s \<noteq> [] \<and> hd s = CHR ''-''); t = (if neg then tl s else s) in
      case int_part t of None \<Rightarrow> None
      | Some (ip, r1) \<Rightarrow>
          (case frac_part r1 of (fp, r2) \<Rightarrow>
             (case exp_part r2 of (ex, r3) \<Rightarrow>
                (if fp = [] \<and> ex = None
                 then Some (JInt ((if neg then - 1 else 1) * int (nat_of_digits ip)), r3)
                 else Some (JFloat (Fin ((if neg then - 1 else 1) * of_nat (nat_of_digits (ip @ fp))
                        * pow10 ((case ex of None \<Rightarrow> 0 | Some e \<Rightarrow> e) - int (length fp)))), r3)))))"

definition literals :: "(string \<times> json) list" where
  "literals = [(''null'', JNull), (''true'', JBool True), (''false'', JBool False),
     (''NaN'', JFloat NaN), (''Infinity'', JFloat PosInf), (''-Infinity'', JFloat NegInf)]"

definition parse_literal :: "string \<Rightarrow> (json \<times> string) option" where
  "parse_literal s = (case find (\<lambda>(w, _). startswith s w) literals of
     None \<Rightarrow> None | Some (w, v) \<Rightarrow> Some (v, drop (length w) s))"

section \<open>The decoder\<close>

text \<open>
  \<open>parse_val\<close> reads one value, \<open>parse_elems\<close> the elements of an array after its bracket or a
  comma, \<open>parse_members\<close> the members of an object after its brace or a comma.
\<close>

function (sequential)
  parse_val :: "string \<Rightarrow> (json \<times> string) option" and
  parse_elems :: "string \<Rightarrow> (json list \<times> string) option" and
  parse_members :: "string \<Rightarrow> ((string \<times> json) list \<times> string) option"
where
  "parse_val s = (case s of
     [] \<Rightarrow> None
   | c # r \<Rightarrow>
       (if c = CHR 0x22 then map_option (\<lambda>(t, q). (JStr t, q)) (parse_str r)
        else if c = CHR ''['' then
          (let r' = skip_ws r in
           if r' \<noteq> [] \<and> hd r' = CHR '']'' then Some (JList [], tl r')
           else if length r' < length s
             then map_option (\<lambda>(xs, q). (JList xs, q)) (parse_elems r') else None)
        else if c = CHR 0x7B then
          (let r' = skip_ws r in
           if r' \<noteq> [] \<and> hd r' = CHR 0x7D then Some (JDict [], tl r')
           else if length r' < length s
             then map_option (\<lambda>(ms, q). (JDict (foldl (\<lambda>d (k, v). dset d k v) [] ms), q))
                    (parse_members r') else None)
        else (case parse_literal s of Some x \<Rightarrow> Some x | None \<Rightarrow> parse_num s)))"
| "parse_elems s = (case parse_val s of
     None \<Rightarrow> None
   | Some (v, r) \<Rightarrow>
       (case skip_ws r of
          [] \<Rightarrow> None
        | c # q \<Rightarrow>
            (if c = CHR '']'' then Some ([v], q)
             else if c = CHR '','' \<and> length (skip_ws q) < length s
             then map_option (\<lambda>(vs, q'). (v # vs, q')) (parse_elems (skip_ws q))
             else None)))"
| "parse_members s = (case s of
     [] \<Rightarrow> None
   | c # r \<Rightarrow>
       (if c \<noteq> CHR 0x22 then None
        else (case parse_str r of
                None \<Rightarrow> None
              | Some (k, r1) \<Rightarrow>
                  (case skip_ws r1 of
                     [] \<Rightarrow> None
                   | d # r2 \<Rightarrow>
                       (if d = CHR '':'' \<and> length (skip_ws r2) < length s then
                          (case parse_val (skip_ws r2) of
                             None \<Rightarrow> None
                           | Some (v, r3) \<Rightarrow>
                               (case skip_ws r3 of
                                  [] \<Rightarrow> None
                                | e # r4 \<Rightarrow>
                                    (if e = CHR 0x7D then Some ([(k, v)], r4)
                                     else if e = CHR '','' \<and> length (skip_ws r4) < length s
                                     then map_option (\<lambda>(ms, q). ((k, v) # ms, q))
                                            (parse_members (skip_ws r4))
                                     else None)))
                        else None)))))"
  by pat_completeness auto
termination
  by (relation "measure (\<lambda>x. case x of Inl s \<Rightarrow> 2 * length s
        | Inr (Inl s) \<Rightarrow> 2 * length s + 1 | Inr (Inr s) \<Rightarrow> 2 * length s + 1)") auto

declare parse_val.simps [simp del] parse_elems.simps [simp del] parse_members.simps [simp del]

definition loads :: "string \<Rightarrow> json option" where
  "loads s = (case parse_val (skip_ws s) of
     None \<Rightarrow> None
   | Some (v, r) \<Rightarrow> if skip_ws r = [] then Some v else None)"

text \<open>\<^verbatim>\<open>json.dumps(xs, separators=(sep, ...))\<close> of a list of integers.\<close>

definition dumps_ints :: "string \<Rightarrow> int list \<Rightarrow> string" where
  "dumps_ints sep xs = ''['' @ join sep (map show_int xs) @ '']''"

section \<open>Truth values and conversions\<close>

fun flt_truthy :: "pyfloat \<Rightarrow> bool" where
  "flt_truthy (Fin q) = (q \<noteq> 0)"
| "flt_truthy _ = True"

text \<open>\<^verbatim>\<open>bool(v)\<close>.\<close>

fun truthy :: "json \<Rightarrow> bool" where
  "truthy JNull = False"
| "truthy (JBool b) = b"
| "truthy (JInt i) = (i \<noteq> 0)"
| "truthy (JFloat f) = flt_truthy f"
| "truthy (JStr s) = (s \<noteq> [])"
| "truthy (JList xs) = (xs \<noteq> [])"
| "truthy (JDict d) = (d \<noteq> [])"

text \<open>\<^verbatim>\<open>int(v)\<close>: \<open>None\<close> where it raises TypeError, ValueError or OverflowError.\<close>

fun to_int :: "json \<Rightarrow> int option" where
  "to_int (JBool b) = Some (if b then 1 else 0)"
| "to_int (JInt i) = Some i"
| "to_int (JFloat (Fin q)) = Some (trunc q)"
| "to_int (JStr s) = parse_int s"
| "to_int _ = None"

text \<open>\<^verbatim>\<open>float(v)\<close>: \<open>None\<close> where it raises TypeError or ValueError.\<close>

fun to_float :: "json \<Rightarrow> pyfloat option" where
  "to_float (JBool b) = Some (Fin (if b then 1 else 0))"
| "to_float (JInt i) = Some (Fin (of_int i))"
| "to_float (JFloat f) = Some f"
| "to_float (JStr s) = parse_float s"
| "to_float _ = None"

text \<open>\<^verbatim>\<open>v.get(k)\<close> and \<^verbatim>\<open>v.get(k, default)\<close>: only a dict has the attribute.\<close>

fun jget :: "json \<Rightarrow> string \<Rightarrow> json \<Rightarrow> json result" where
  "jget (JDict d) k dflt = Inr (dget_or d k dflt)"
| "jget _ k dflt = Inl AttributeError"

text \<open>\<^verbatim>\<open>(v.get(k) or "").strip()\<close>.\<close>

definition str_field :: "json \<Rightarrow> string \<Rightarrow> string result" where
  "str_field v k = bind_result (jget v k JNull) (\<lambda>x.
     if \<not> truthy x then Inr []
     else case x of JStr s \<Rightarrow> Inr (strip s) | _ \<Rightarrow> Inl AttributeError)"

text \<open>\<^verbatim>\<open>for x in v\<close>: a list yields its elements, a dict its keys, a string its characters.\<close>

fun json_iter :: "json \<Rightarrow> json list result" where
  "json_iter (JList xs) = Inr xs"
| "json_iter (JDict d) = Inr (map JStr (dkeys d))"
| "json_iter (JStr s) = Inr (map (\<lambda>c. JStr [c]) s)"
| "json_iter _ = Inl TypeError"

text \<open>\<^verbatim>\<open>a + b\<close> where the code concatenates lists.\<close>

fun list_plus :: "json \<Rightarrow> json \<Rightarrow> json list result" where
  "list_plus (JList xs) (JList ys) = Inr (xs @ ys)"
| "list_plus _ _ = Inl TypeError"

section \<open>Text of a value\<close>

text \<open>
  \<^verbatim>\<open>repr\<close> and \<^verbatim>\<open>str\<close>. The shortest decimal of a binary float is a property of its rounding,
  which \<open>pyfloat\<close> does not carry, so the text of a float is the parameter \<open>frepr\<close>.
\<close>

definition hex_digit :: "nat \<Rightarrow> char" where
  "hex_digit d = (if d < 10 then digit_char d else char_of (87 + d))"

definition repr_char :: "char \<Rightarrow> char \<Rightarrow> string" where
  "repr_char quote c =
     (if c = quote \<or> c = CHR 0x5C then [CHR 0x5C, c]
      else if c = CHR 0x0A then [CHR 0x5C, CHR ''n'']
      else if c = CHR 0x0D then [CHR 0x5C, CHR ''r'']
      else if c = CHR 0x09 then [CHR 0x5C, CHR ''t'']
      else if (of_char c :: nat) < 32 \<or> (of_char c :: nat) = 127
        then [CHR 0x5C, CHR ''x'', hex_digit (of_char c div 16), hex_digit (of_char c mod 16)]
      else [c])"

definition repr_str :: "string \<Rightarrow> string" where
  "repr_str s = (let q = (if CHR 0x27 \<in> set s \<and> CHR 0x22 \<notin> set s then CHR 0x22 else CHR 0x27)
     in q # concat (map (repr_char q) s) @ [q])"

fun py_repr :: "(pyfloat \<Rightarrow> string) \<Rightarrow> json \<Rightarrow> string" where
  "py_repr frepr JNull = ''None''"
| "py_repr frepr (JBool b) = (if b then ''True'' else ''False'')"
| "py_repr frepr (JInt i) = show_int i"
| "py_repr frepr (JFloat f) = frepr f"
| "py_repr frepr (JStr s) = repr_str s"
| "py_repr frepr (JList xs) = ''['' @ join '', '' (map (py_repr frepr) xs) @ '']''"
| "py_repr frepr (JDict d) =
     [CHR 0x7B] @ join '', '' (map (\<lambda>(k, v). repr_str k @ '': '' @ py_repr frepr v) d) @ [CHR 0x7D]"

fun py_str :: "(pyfloat \<Rightarrow> string) \<Rightarrow> json \<Rightarrow> string" where
  "py_str frepr (JStr s) = s"
| "py_str frepr v = py_repr frepr v"

section \<open>Integer lists read back\<close>

text \<open>The text after a number: it does not extend the literal.\<close>

definition ends_number :: "string \<Rightarrow> bool" where
  "ends_number r \<longleftrightarrow> (case r of [] \<Rightarrow> True
     | c # _ \<Rightarrow> \<not> is_digit c \<and> c \<noteq> CHR ''.'' \<and> c \<noteq> CHR ''e'' \<and> c \<noteq> CHR ''E'')"

lemma int_part_show_nat:
  assumes "ends_number r"
  shows "int_part (show_nat n @ r) = Some (show_nat n, r)"
proof (cases "n = 0")
  case True
  then show ?thesis by (simp add: int_part_def)
next
  case False
  have tw: "takeWhile is_digit (show_nat n @ r) = show_nat n"
    and dw: "dropWhile is_digit (show_nat n @ r) = r"
    using assms is_digit_set_show_nat
    by (auto simp: takeWhile_append dropWhile_append ends_number_def split: list.splits)
  from False show ?thesis
    using show_nat_hd [of n] show_nat_hd_digit [of n] tw dw
    by (cases "show_nat n") (simp_all add: int_part_def)
qed

lemma parse_num_show_int:
  assumes "ends_number r"
  shows "parse_num (show_int i @ r) = Some (JInt i, r)"
proof -
  have fr: "frac_part r = ([], r)" and ex: "exp_part r = (None, r)"
    using assms by (auto simp: ends_number_def frac_part_def exp_part_def split: list.splits)
  have nm: "hd (show_nat n) \<noteq> CHR ''-''" for n
    using digit_not_sign [OF show_nat_hd_digit [of n]] by simp
  show ?thesis
    by (auto simp: parse_num_def show_int_def Let_def nm int_part_show_nat [OF assms] fr ex)
qed

lemma literal_free: "c # s = show_int i @ r \<Longrightarrow> parse_literal (c # s) = None"
proof -
  assume a: "c # s = show_int i @ r"
  have d: "is_digit c \<or> (c = CHR ''-'' \<and> s \<noteq> [] \<and> is_digit (hd s))"
  proof (cases "i < 0")
    case True
    with a show ?thesis using show_nat_hd_digit [of "nat (- i)"]
      by (auto simp: show_int_def hd_append)
  next
    case False
    with a show ?thesis using show_nat_hd_digit [of "nat i"]
      by (cases "show_nat (nat i)") (auto simp: show_int_def)
  qed
  then have ne: "c \<notin> {CHR ''n'', CHR ''t'', CHR ''f'', CHR ''N'', CHR ''I''}"
    and mi: "c = CHR ''-'' \<Longrightarrow> s \<noteq> [] \<and> hd s \<noteq> CHR ''I''"
    by (auto simp: is_digit_def)
  have "\<not> startswith (c # s) ''-Infinity''" using mi by (cases s) auto
  with ne show ?thesis by (simp add: parse_literal_def literals_def)
qed

lemma parse_val_show_int:
  assumes "ends_number r"
  shows "parse_val (show_int i @ r) = Some (JInt i, r)"
proof -
  obtain c s where cs: "show_int i @ r = c # s" by (cases "show_int i @ r") auto
  then have "is_digit c \<or> c = CHR ''-''"
    using show_nat_hd_digit [of "nat i"]
    by (cases "show_nat (nat i)") (auto simp: show_int_def split: if_splits)
  then have "c \<noteq> CHR 0x22 \<and> c \<noteq> CHR ''['' \<and> c \<noteq> CHR 0x7B" by (auto simp: is_digit_def)
  then show ?thesis
    using parse_num_show_int [OF assms, of i] literal_free [OF cs [symmetric]] cs
    by (simp add: parse_val.simps)
qed

lemma skip_ws_show_int: "skip_ws (show_int i @ r) = show_int i @ r"
proof -
  obtain c s where cs: "show_int i = c # s" by (cases "show_int i") auto
  then have "is_digit c \<or> c = CHR ''-''"
    using show_nat_hd_digit [of "nat i"]
    by (cases "show_nat (nat i)") (auto simp: show_int_def split: if_splits)
  then have "\<not> ws_char c" by (auto simp: is_digit_def ws_char_def)
  with cs show ?thesis by (simp add: skip_ws_def)
qed

lemma parse_elems_ints:
  "xs \<noteq> [] \<Longrightarrow> parse_elems (join '','' (map show_int xs) @ '']'' @ r) = Some (map JInt xs, r)"
proof (induction xs)
  case (Cons x xs)
  show ?case
  proof (cases xs)
    case Nil
    have "ends_number ('']'' @ r)" by (simp add: ends_number_def is_digit_def)
    from parse_val_show_int [OF this, of x] Nil show ?thesis
      by (simp add: parse_elems.simps skip_ws_def ws_char_def)
  next
    case (Cons y ys)
    let ?t = "join '','' (map show_int xs) @ '']'' @ r"
    have "ends_number ('','' @ ?t)" by (simp add: ends_number_def is_digit_def)
    from parse_val_show_int [OF this, of x]
    have v: "parse_val (show_int x @ '','' @ ?t) = Some (JInt x, '','' @ ?t)" .
    have sk: "skip_ws ?t = ?t"
      using skip_ws_show_int [of y] Cons by (cases ys) auto
    have "parse_elems (show_int x @ '','' @ ?t) = Some (JInt x # map JInt xs, r)"
      using v sk Cons Cons.IH
      by (subst parse_elems.simps) (simp add: skip_ws_def ws_char_def)
    with Cons show ?thesis by (simp add: join_Cons)
  qed
qed simp

lemma loads_dumps_ints: "loads (dumps_ints '','' xs) = Some (JList (map JInt xs))"
proof (cases xs)
  case Nil
  then show ?thesis
    by (simp add: loads_def dumps_ints_def skip_ws_def ws_char_def parse_val.simps)
next
  case (Cons y ys)
  let ?t = "join '','' (map show_int xs) @ '']''"
  have sk: "skip_ws ?t = ?t" using skip_ws_show_int [of y] Cons by (cases ys) auto
  have el: "parse_elems ?t = Some (map JInt xs, [])"
    using parse_elems_ints [of xs "[]"] Cons by simp
  have hd: "hd ?t \<noteq> CHR '']''"
  proof -
    obtain c s where cs: "show_int y = c # s" by (cases "show_int y") auto
    then have "c \<noteq> CHR '']''"
      using is_digit_set_show_nat [of c "nat y"]
      by (auto simp: show_int_def is_digit_def split: if_splits)
    then show ?thesis using cs Cons by (cases ys) auto
  qed
  have "parse_val (''['' @ ?t) = Some (JList (map JInt xs), [])"
    using sk el hd by (simp add: parse_val.simps Let_def)
  then show ?thesis by (simp add: loads_def dumps_ints_def skip_ws_def ws_char_def)
qed

end
