(* ===== verification/Models.thy ===== *)
theory Models
  imports Json
begin

text \<open>
  The database rows the modelled services read and write (\<^verbatim>\<open>backend/models/\<close>): monitored
  hosts, integration configurations with their snapshots, incidents with their events, and
  the alert rules. A nullable column is an \<open>option\<close>; a text column holding JSON is a string.
\<close>

record ping_host =
  host_id :: int
  host_name :: string
  hostname :: string
  enabled :: bool
  latency_threshold_ms :: "pyfloat option"
  maintenance :: bool
  maintenance_until :: "datetime option"
  port_error :: bool
  check_detail :: "string option"
  check_errors :: "string option"
  mac_address :: "string option"
  parent_id :: "int option"
  probe_id :: "int option"

record integration_config =
  cfg_id :: int
  cfg_type :: string
  cfg_name :: string
  cfg_enabled :: bool

record snapshot =
  snap_ok :: bool
  data_json :: "string option"

record incident =
  inc_id :: int
  inc_tenant :: int
  inc_rule :: string
  inc_title :: string
  inc_severity :: string
  inc_status :: string
  host_ids_hash :: "string option"
  inc_host_ids :: "string option"
  updated_at :: datetime
  resolved_at :: "datetime option"
  precursor_template :: "string option"

record incident_event =
  ev_id :: int
  ev_incident_id :: int
  ev_timestamp :: datetime
  event_type :: string
  ev_summary :: string
  ev_detail :: "string option"

record alert_rule =
  ar_id :: int
  ar_name :: string
  ar_enabled :: bool
  source_type :: string
  source_id :: "int option"
  field_path :: string
  operator :: string
  threshold :: "string option"
  ar_severity :: string
  notify_channels :: "string option"
  message_template :: "string option"
  cooldown_minutes :: int
  required_consecutive :: int
  last_triggered_at :: "datetime option"

text \<open>A host as the tests build it: enabled, core-checked, nothing wrong.\<close>

definition plain_host :: "int \<Rightarrow> string \<Rightarrow> ping_host" where
  "plain_host i n = \<lparr>host_id = i, host_name = n, hostname = n, enabled = True,
     latency_threshold_ms = None, maintenance = False, maintenance_until = None,
     port_error = False, check_detail = None, check_errors = None, mac_address = None,
     parent_id = None, probe_id = None\<rparr>"

text \<open>\<^verbatim>\<open>a or b\<close> on ids: an absent id and 0 are both false.\<close>

definition id_ok :: "int option \<Rightarrow> bool" where
  "id_ok i \<longleftrightarrow> i \<noteq> None \<and> i \<noteq> Some 0"

definition or_id :: "int option \<Rightarrow> int option \<Rightarrow> int option" where
  "or_id a b = (if id_ok a then a else b)"

end
