(* ===== verification/Interfaces.thy ===== *)
theory Interfaces
  imports Prelude
begin

text \<open>
  Contracts shared by several components, as locales: a cache keyed by tenant and a
  step system with an invariant. Each is interpreted in the
  theory of the component whose definitions provide the operations.
\<close>

section \<open>Keyed caches\<close>

text \<open>
  A cache returns for a key what was last stored under it, or nothing once it was evicted;
  it never answers one key with another key's value.
\<close>

locale keyed_cache =
  fixes lookup :: "'c \<Rightarrow> 'k \<Rightarrow> 'e option"
    and store :: "'c \<Rightarrow> 'k \<Rightarrow> 'e \<Rightarrow> 'c"
    and inv :: "'c \<Rightarrow> bool"
  assumes inv_store: "inv c \<Longrightarrow> inv (store c k e)"
    and lookup_same: "inv c \<Longrightarrow> lookup (store c k e) k = Some e"
    and lookup_other: "inv c \<Longrightarrow> k' \<noteq> k \<Longrightarrow> lookup (store c k e) k' = Some e' \<Longrightarrow> lookup c k' = Some e'"
begin

abbreviation run :: "'c \<Rightarrow> ('k \<times> 'e) list \<Rightarrow> 'c" where
  "run c ws \<equiv> foldl (\<lambda>c (k, e). store c k e) c ws"

lemma inv_run: "inv c \<Longrightarrow> inv (run c ws)"
  by (induction ws arbitrary: c) (auto simp: inv_store)

lemma lookup_run:
  assumes "inv c" and "lookup (run c ws) k = Some e"
  shows "lookup c k = Some e \<or> (k, e) \<in> set ws"
  using assms
proof (induction ws arbitrary: c)
  case (Cons w ws)
  obtain k' e' where w: "w = (k', e')" by (cases w)
  from Cons.prems w have "lookup (store c k' e') k = Some e \<or> (k, e) \<in> set ws"
    by (intro Cons.IH) (auto simp: inv_store)
  then show ?case
    using Cons.prems(1) w by (cases "k = k'") (auto simp: lookup_same dest: lookup_other)
qed simp

text \<open>From an empty cache every answer was stored under exactly the key that is asked.\<close>

lemma no_foreign_answer:
  assumes "inv c" and "\<And>k. lookup c k = None" and "lookup (run c ws) k = Some e"
  shows "(k, e) \<in> set ws"
  using lookup_run [OF assms(1,3)] assms(2) by auto

end

section \<open>Invariants of step systems\<close>

text \<open>
  A deterministic machine: whatever sequence of inputs it is given, a property of the initial
  state that every step keeps holds throughout.
\<close>

locale step_system =
  fixes step :: "'i \<Rightarrow> 's \<Rightarrow> 's"
    and good :: "'s \<Rightarrow> bool"
  assumes step_good: "good s \<Longrightarrow> good (step i s)"
begin

lemma run_good: "good s \<Longrightarrow> good (fold step is s)"
  by (induction "is" arbitrary: s) (auto simp: step_good)

lemma run_prefix_good: "good s \<Longrightarrow> good (fold step (take n is) s)"
  by (rule run_good)

end

end
