(* ===== verification/Topology.thy ===== *)
theory Topology
  imports Models Interfaces
begin

text \<open>
  \<^verbatim>\<open>backend/services/topology.py\<close>: the parent relation between hosts, built from the manual
  parent of each host and from the Proxmox and UniFi snapshots (\<open>build_topology\<close>), its
  transitive queries (\<open>get_ancestors\<close>, \<open>get_descendants\<close>), the split of offline hosts into
  primary failures and hosts behind a failed one (\<open>filter_upstream_failures\<close>), and the
  bounded per-tenant cache (\<open>cached_topology\<close>). The loops that follow parents carry a
  termination proof; their results are characterised by the transitive closure of the parent
  relation, for cyclic inputs too.
\<close>

type_synonym topology = "(int, int option) dict"

section \<open>Building the tree\<close>

record topo_state =
  topo :: topology
  provenance :: "(int, string) dict"
  gateways :: "int set"

record host_maps =
  name_map :: "(string, int) dict"
  ip_map :: "(string, int) dict"

text \<open>\<open>if topology.get(child) is None: topology[child] = parent; provenance[child] = tag\<close>\<close>

definition set_parent :: "int \<Rightarrow> int \<Rightarrow> string \<Rightarrow> topo_state \<Rightarrow> topo_state" where
  "set_parent child parent tag st =
     (if dget_or (topo st) child None = None
      then st\<lparr>topo := dset (topo st) child (Some parent),
              provenance := dset (provenance st) child tag\<rparr>
      else st)"

definition bare_host :: "string \<Rightarrow> string" where
  "bare_host raw =
     (let r = (if startswith raw ''https://'' then drop 8 raw
               else if startswith raw ''http://'' then drop 7 raw else raw)
      in hd (split_on CHR '':'' (hd (split_on CHR ''/'' r))))"

definition add_host :: "ping_host \<Rightarrow> topo_state \<times> host_maps \<Rightarrow> topo_state \<times> host_maps" where
  "add_host h sm = (case sm of (st, m) \<Rightarrow>
     (st\<lparr>topo := dset (topo st) (host_id h) (parent_id h),
         provenance := (if parent_id h \<noteq> None then dset (provenance st) (host_id h) ''manual''
                        else provenance st)\<rparr>,
      m\<lparr>name_map := dset (name_map m) (str_lower (host_name h)) (host_id h),
        ip_map := dset (dset (ip_map m) (bare_host (hostname h)) (host_id h))
                    (host_name h) (host_id h)\<rparr>))"

definition load_hosts :: "ping_host list \<Rightarrow> topo_state \<times> host_maps" where
  "load_hosts hosts =
     fold add_host hosts (\<lparr>topo = [], provenance = [], gateways = {}\<rparr>, \<lparr>name_map = [], ip_map = []\<rparr>)"

definition proxmox_guest :: "host_maps \<Rightarrow> json \<Rightarrow> topo_state \<Rightarrow> topo_state result" where
  "proxmox_guest m g st =
     bind_result (str_field g ''name'') (\<lambda>name.
     bind_result (str_field g ''node'') (\<lambda>node.
       (let guest_name = str_lower name; node_name = str_lower node in
        if guest_name = [] \<or> node_name = [] then Inr st
        else (let guest_id = dget (name_map m) guest_name; node_id = dget (name_map m) node_name in
              if id_ok guest_id \<and> id_ok node_id \<and> guest_id \<noteq> node_id
              then Inr (set_parent (the guest_id) (the node_id) ''proxmox'' st)
              else Inr st))))"

definition proxmox_links :: "host_maps \<Rightarrow> json \<Rightarrow> topo_state \<Rightarrow> topo_state result" where
  "proxmox_links m data st =
     bind_result (jget data ''vms'' (JList [])) (\<lambda>vms.
     bind_result (jget data ''containers'' (JList [])) (\<lambda>cts.
     bind_result (list_plus vms cts) (\<lambda>gs. fold_result (proxmox_guest m) gs st)))"

record unifi_scan =
  gw_id :: "int option"
  sw_ids :: "int list"
  ap_ids :: "int list"
  dev_mac_to_ph :: "(string, int) dict"

definition gateway_types :: "json set" where
  "gateway_types = {JStr ''ugw'', JStr ''usg'', JStr ''udm'', JStr ''udmpro'', JStr ''uxg''}"

definition device_host :: "host_maps \<Rightarrow> string \<Rightarrow> string \<Rightarrow> int option" where
  "device_host m dev_ip dev_name =
     or_id (or_id (dget (ip_map m) dev_ip) (dget (ip_map m) dev_name))
       (dget (name_map m) (str_lower dev_name))"

definition note_mac :: "string \<Rightarrow> int \<Rightarrow> unifi_scan \<Rightarrow> unifi_scan" where
  "note_mac dev_mac ph sc =
     (if dev_mac \<noteq> [] then sc\<lparr>dev_mac_to_ph := dset (dev_mac_to_ph sc) dev_mac ph\<rparr> else sc)"

definition note_kind :: "json \<Rightarrow> int \<Rightarrow> unifi_scan \<Rightarrow> unifi_scan" where
  "note_kind dtype ph sc =
     (if dtype \<in> gateway_types then sc\<lparr>gw_id := Some ph\<rparr>
      else if dtype = JStr ''usw'' then sc\<lparr>sw_ids := sw_ids sc @ [ph]\<rparr>
      else if dtype = JStr ''uap'' then sc\<lparr>ap_ids := ap_ids sc @ [ph]\<rparr>
      else sc)"

definition scan_device :: "host_maps \<Rightarrow> json \<Rightarrow> unifi_scan \<Rightarrow> unifi_scan result" where
  "scan_device m dev sc =
     bind_result (str_field dev ''ip'') (\<lambda>dev_ip.
     bind_result (str_field dev ''name'') (\<lambda>dev_name.
     bind_result (str_field dev ''mac'') (\<lambda>mac.
     bind_result (jget dev ''type'' (JStr [])) (\<lambda>dtype.
       (let ph_id = device_host m dev_ip dev_name in
        if \<not> id_ok ph_id then Inr sc
        else Inr (note_kind dtype (the ph_id) (note_mac (str_lower mac) (the ph_id) sc)))))))"

definition link_devices :: "unifi_scan \<Rightarrow> topo_state \<Rightarrow> topo_state" where
  "link_devices sc st =
     (if \<not> id_ok (gw_id sc) then st
      else (let gw = the (gw_id sc);
                st1 = st\<lparr>gateways := insert gw (gateways st)\<rparr>;
                st2 = fold (\<lambda>sw. set_parent sw gw ''unifi'') (sw_ids sc) st1;
                ap_parent = (case sw_ids sc of [] \<Rightarrow> gw | s # _ \<Rightarrow> s)
            in fold (\<lambda>ap. set_parent ap ap_parent ''unifi'') (ap_ids sc) st2))"

definition mac_map :: "ping_host list \<Rightarrow> (string, int) dict" where
  "mac_map hosts = fold (\<lambda>h d. case mac_address h of
     None \<Rightarrow> d | Some mac \<Rightarrow> if mac = [] then d else dset d (str_lower mac) (host_id h)) hosts []"

definition link_client ::
    "host_maps \<Rightarrow> (string, int) dict \<Rightarrow> unifi_scan \<Rightarrow> json \<Rightarrow> topo_state \<Rightarrow> topo_state result" where
  "link_client m macs sc cl st =
     bind_result (str_field cl ''ip'') (\<lambda>cl_ip.
     bind_result (str_field cl ''mac'') (\<lambda>mac.
     bind_result (str_field cl ''sw_mac'') (\<lambda>swm.
       (let sw_mac = str_lower swm in
        if sw_mac = [] then Inr st
        else
          (let by_addr = or_id (dget (ip_map m) cl_ip) (dget macs (str_lower mac)) in
           bind_result
             (if id_ok by_addr then Inr by_addr
              else bind_result (str_field cl ''hostname'')
                     (\<lambda>hn. Inr (dget (name_map m) (str_lower hn))))
             (\<lambda>cl_host_id.
                if \<not> id_ok cl_host_id then Inr st
                else (let sw_host_id = dget (dev_mac_to_ph sc) sw_mac in
                      if \<not> id_ok sw_host_id \<or> sw_host_id = cl_host_id then Inr st
                      else Inr (set_parent (the cl_host_id) (the sw_host_id) ''unifi'' st))))))))"

definition unifi_links :: "ping_host list \<Rightarrow> host_maps \<Rightarrow> json \<Rightarrow> topo_state \<Rightarrow> topo_state result" where
  "unifi_links hosts m data st =
     bind_result (jget data ''devices'' (JList [])) (\<lambda>dv.
     bind_result (jget data ''clients'' (JList [])) (\<lambda>cl.
     bind_result (json_iter dv) (\<lambda>devices.
     bind_result (fold_result (scan_device m) devices
        \<lparr>gw_id = None, sw_ids = [], ap_ids = [], dev_mac_to_ph = []\<rparr>) (\<lambda>sc.
     bind_result (json_iter cl) (\<lambda>clients.
       fold_result (link_client m (mac_map hosts) sc) clients (link_devices sc st))))))"

text \<open>One enabled Proxmox or UniFi configuration with its latest snapshot.\<close>

definition config_links ::
    "ping_host list \<Rightarrow> host_maps \<Rightarrow> (string \<Rightarrow> int \<Rightarrow> snapshot option) \<Rightarrow> integration_config
     \<Rightarrow> topo_state \<Rightarrow> topo_state result" where
  "config_links hosts m get_latest cfg st =
     (case get_latest (cfg_type cfg) (cfg_id cfg) of
        None \<Rightarrow> Inr st
      | Some snap \<Rightarrow>
          (if \<not> snap_ok snap then Inr st
           else case data_json snap of
                  None \<Rightarrow> Inr st
                | Some raw \<Rightarrow>
                    (if raw = [] then Inr st
                     else case loads raw of
                            None \<Rightarrow> Inr st
                          | Some data \<Rightarrow>
                              (if cfg_type cfg = ''proxmox'' then proxmox_links m data st
                               else if cfg_type cfg = ''unifi'' then unifi_links hosts m data st
                               else Inr st))))"

definition build_topology ::
    "ping_host list \<Rightarrow> integration_config list \<Rightarrow> (string \<Rightarrow> int \<Rightarrow> snapshot option)
     \<Rightarrow> topo_state result" where
  "build_topology hosts configs get_latest =
     (case load_hosts hosts of (st, m) \<Rightarrow>
        fold_result (config_links hosts m get_latest)
          (filter (\<lambda>c. cfg_enabled c \<and> cfg_type c \<in> {''proxmox'', ''unifi''}) configs) st)"

section \<open>Ancestors, descendants, cascades\<close>

definition parents_in :: "topology \<Rightarrow> int set" where
  "parents_in t = {p. Some p \<in> snd ` set t}"

lemma finite_parents_in [simp]: "finite (parents_in t)"
proof -
  have "parents_in t = (\<lambda>x. the x) ` (snd ` set t - {None})"
    by (force simp: parents_in_def image_iff)
  then show ?thesis by simp
qed

lemma dget_parent_in: "dget t c = Some (Some p) \<Longrightarrow> p \<in> parents_in t"
  by (force simp: dget_def parents_in_def dest: map_of_SomeD)

text \<open>The while loop of \<open>get_ancestors\<close>; the \<open>seen\<close> set is the set of collected ancestors.\<close>

function ancestors_loop :: "topology \<Rightarrow> int \<Rightarrow> int list \<Rightarrow> int list" where
  "ancestors_loop t current ancestors =
     (case dget t current of
        None \<Rightarrow> ancestors
      | Some None \<Rightarrow> ancestors
      | Some (Some parent) \<Rightarrow>
          if parent \<in> set ancestors then ancestors
          else ancestors_loop t parent (ancestors @ [parent]))"
  by pat_completeness auto
termination
proof (relation "measure (\<lambda>(t, c, a). card (parents_in t - set a))", goal_cases)
  case (2 t c a x p)
  then have "p \<in> parents_in t - set a" by (simp add: dget_parent_in)
  then have "card (parents_in t - set (a @ [p])) < card (parents_in t - set a)"
    by (intro psubset_card_mono) auto
  then show ?case by simp
qed simp

declare ancestors_loop.simps [simp del]

definition get_ancestors :: "topology \<Rightarrow> int \<Rightarrow> int list" where
  "get_ancestors t hid = ancestors_loop t hid []"

text \<open>The inner loop over \<open>topology.items()\<close>: the children of \<open>current\<close> not seen yet.\<close>

fun scan_children :: "topology \<Rightarrow> int \<Rightarrow> int list \<Rightarrow> int list" where
  "scan_children [] current seen = []"
| "scan_children ((hid, parent) # items) current seen =
     (if parent = Some current \<and> hid \<notin> set seen
      then hid # scan_children items current (hid # seen)
      else scan_children items current seen)"

lemma scan_children_set:
  "set (scan_children items cur seen) = {h. (h, Some cur) \<in> set items} - set seen"
  by (induction items cur seen rule: scan_children.induct) auto

lemma scan_children_distinct: "distinct (scan_children items cur seen)"
  by (induction items cur seen rule: scan_children.induct) (auto simp: scan_children_set)

function descendants_loop :: "topology \<Rightarrow> int list \<Rightarrow> int list \<Rightarrow> int list \<Rightarrow> int list" where
  "descendants_loop t queue seen descendants =
     (case queue of
        [] \<Rightarrow> descendants
      | current # q \<Rightarrow>
          (let new = scan_children t current seen
           in descendants_loop t (q @ new) (new @ seen) (descendants @ new)))"
  by pat_completeness auto
termination
proof (relation "measure (\<lambda>(t, q, s, d). card (fst ` set t - set s) + length q)", goal_cases)
  case (2 t q s d c q' new)
  have sub: "set new \<subseteq> fst ` set t - set s" using 2 by (force simp: scan_children_set)
  have "fst ` set t - set (new @ s) = (fst ` set t - set s) - set new" by auto
  then have "card (fst ` set t - set (new @ s)) = card (fst ` set t - set s) - card (set new)"
    using sub by (simp add: card_Diff_subset)
  moreover have "card (set new) \<le> card (fst ` set t - set s)"
    using sub by (intro card_mono) auto
  moreover have "card (set new) = length new"
    using 2 by (simp add: distinct_card scan_children_distinct)
  ultimately show ?case using 2 by simp
qed simp

declare descendants_loop.simps [simp del]

definition get_descendants :: "topology \<Rightarrow> int \<Rightarrow> int list" where
  "get_descendants t hid = descendants_loop t [hid] [hid] []"

definition filter_upstream_failures :: "int set \<Rightarrow> topology \<Rightarrow> int set \<times> int set" where
  "filter_upstream_failures offline t =
     ({h \<in> offline. \<not> list_ex (\<lambda>a. a \<in> offline) (get_ancestors t h)},
      {h \<in> offline. list_ex (\<lambda>a. a \<in> offline) (get_ancestors t h)})"

section \<open>The cache\<close>

text \<open>
  \<open>_topology_cache\<close>: an ordered dict from (engine, tenant) to the engine, the time of the
  build and its result, oldest entry first. The engine is an object identity.
\<close>

type_synonym cache_key = "int \<times> int"
type_synonym topo_cache = "(cache_key, int \<times> rat \<times> topo_state) dict"

definition TOPOLOGY_CACHE_TTL :: rat where "TOPOLOGY_CACHE_TTL = 60"
definition TOPOLOGY_CACHE_MAX :: nat where "TOPOLOGY_CACHE_MAX = 512"

text \<open>\<open>while len(cache) > MAX: cache.popitem(last=False)\<close>\<close>

fun evict :: "topo_cache \<Rightarrow> topo_cache" where
  "evict [] = []"
| "evict (e # c) = (if length (e # c) > TOPOLOGY_CACHE_MAX then evict c else e # c)"

definition cache_store :: "topo_cache \<Rightarrow> cache_key \<Rightarrow> int \<times> rat \<times> topo_state \<Rightarrow> topo_cache" where
  "cache_store c key e = evict (ddel c key @ [(key, e)])"

definition cached_topology ::
    "topo_cache \<Rightarrow> int option \<Rightarrow> int \<Rightarrow> rat \<Rightarrow> rat \<Rightarrow> topo_state result
     \<Rightarrow> topo_state result \<times> topo_cache" where
  "cached_topology c bind_opt tenant now ttl build =
     (let hit = (case bind_opt of None \<Rightarrow> None
                 | Some b \<Rightarrow> (case dget c (b, tenant) of
                     None \<Rightarrow> None
                   | Some (b', ts, st) \<Rightarrow> if b' = b \<and> now - ts < ttl then Some st else None))
      in case hit of
           Some st \<Rightarrow> (Inr st, c)
         | None \<Rightarrow>
             (case build of
                Inl e \<Rightarrow> (Inl e, c)
              | Inr st \<Rightarrow> (Inr st, case bind_opt of None \<Rightarrow> c
                             | Some b \<Rightarrow> cache_store c (b, tenant) (b, now, st))))"

definition invalidate_topology_cache :: "topo_cache \<Rightarrow> topo_cache" where
  "invalidate_topology_cache c = []"

text \<open>A sequence of requests (engine, tenant, time, what a build would give) to one process.\<close>

type_synonym topo_request = "int option \<times> int \<times> rat \<times> topo_state result"

fun cached_run :: "rat \<Rightarrow> topo_cache \<Rightarrow> topo_request list \<Rightarrow> topo_state result list \<times> topo_cache" where
  "cached_run ttl c [] = ([], c)"
| "cached_run ttl c ((b, tn, now, build) # rqs) =
     (case cached_topology c b tn now ttl build of (r, c') \<Rightarrow>
        (case cached_run ttl c' rqs of (rs, c'') \<Rightarrow> (r # rs, c'')))"

section \<open>The parent relation\<close>

definition parent_rel :: "topology \<Rightarrow> (int \<times> int) set" where
  "parent_rel t = {(c, p). dget t c = Some (Some p)}"

lemma parent_relI [intro]: "dget t c = Some (Some p) \<Longrightarrow> (c, p) \<in> parent_rel t"
  by (simp add: parent_rel_def)

lemma finite_parent_rel [simp]: "finite (parent_rel t)"
proof (rule finite_subset)
  show "parent_rel t \<subseteq> (\<lambda>(c, p). (c, the p)) ` set t"
    by (force simp: parent_rel_def dget_def image_iff dest: map_of_SomeD)
qed simp

lemma ancestors_loop_sound:
  assumes "set anc \<subseteq> (parent_rel t)\<^sup>+ `` {h}" and "(h, cur) \<in> (parent_rel t)\<^sup>*"
  shows "set (ancestors_loop t cur anc) \<subseteq> (parent_rel t)\<^sup>+ `` {h}"
  using assms
proof (induction t cur anc rule: ancestors_loop.induct)
  case (1 t cur anc)
  show ?case
  proof (cases "\<exists>p. dget t cur = Some (Some p) \<and> p \<notin> set anc")
    case False
    then have "ancestors_loop t cur anc = anc"
      by (subst ancestors_loop.simps) (auto split: option.splits)
    with "1.prems" show ?thesis by simp
  next
    case True
    then obtain p where p: "dget t cur = Some (Some p)" "p \<notin> set anc" by blast
    then have "(h, p) \<in> (parent_rel t)\<^sup>+" using "1.prems"(2) by (meson parent_relI rtrancl_into_trancl1)
    then have "set (ancestors_loop t p (anc @ [p])) \<subseteq> (parent_rel t)\<^sup>+ `` {h}"
      using "1.prems"(1) p by (intro "1.IH") auto
    with p show ?thesis by (simp add: ancestors_loop.simps [of t cur])
  qed
qed

lemma ancestors_loop_closed:
  assumes "\<forall>x \<in> insert h (set anc). x \<noteq> cur \<longrightarrow> parent_rel t `` {x} \<subseteq> set anc"
    and "cur \<in> insert h (set anc)"
  shows "parent_rel t `` (insert h (set (ancestors_loop t cur anc))) \<subseteq> set (ancestors_loop t cur anc)"
  using assms
proof (induction t cur anc rule: ancestors_loop.induct)
  case (1 t cur anc)
  show ?case
  proof (cases "\<exists>p. dget t cur = Some (Some p) \<and> p \<notin> set anc")
    case False
    then have eq: "ancestors_loop t cur anc = anc" and "parent_rel t `` {cur} \<subseteq> set anc"
      by (subst ancestors_loop.simps, auto split: option.splits simp: parent_rel_def)
    with "1.prems" show ?thesis by (auto simp: eq)
  next
    case True
    then obtain p where p: "dget t cur = Some (Some p)" "p \<notin> set anc" by blast
    have "\<forall>x \<in> insert h (set (anc @ [p])). x \<noteq> p \<longrightarrow> parent_rel t `` {x} \<subseteq> set (anc @ [p])"
      using "1.prems"(1) p by (force simp: parent_rel_def)
    then have "parent_rel t `` (insert h (set (ancestors_loop t p (anc @ [p]))))
        \<subseteq> set (ancestors_loop t p (anc @ [p]))"
      using p by (intro "1.IH") auto
    with p show ?thesis by (simp add: ancestors_loop.simps [of t cur])
  qed
qed

lemma ancestors_loop_distinct: "distinct anc \<Longrightarrow> distinct (ancestors_loop t cur anc)"
  by (induction t cur anc rule: ancestors_loop.induct)
     (subst ancestors_loop.simps, auto split: option.splits)

lemma set_get_ancestors: "set (get_ancestors t h) = {a. (h, a) \<in> (parent_rel t)\<^sup>+}"
proof
  show "set (get_ancestors t h) \<subseteq> {a. (h, a) \<in> (parent_rel t)\<^sup>+}"
    using ancestors_loop_sound [of "[]" t h h] by (auto simp: get_ancestors_def)
next
  have cl: "parent_rel t `` (insert h (set (get_ancestors t h))) \<subseteq> set (get_ancestors t h)"
    unfolding get_ancestors_def by (rule ancestors_loop_closed) auto
  have "(h, a) \<in> (parent_rel t)\<^sup>+ \<Longrightarrow> a \<in> set (get_ancestors t h)" for a
    by (induction rule: trancl_induct) (use cl in auto)
  then show "{a. (h, a) \<in> (parent_rel t)\<^sup>+} \<subseteq> set (get_ancestors t h)" by blast
qed

lemma distinct_get_ancestors: "distinct (get_ancestors t h)"
  by (simp add: get_ancestors_def ancestors_loop_distinct)

text \<open>The breadth-first search of \<open>get_descendants\<close>.\<close>

lemma scan_children_rel:
  "dict_ok t \<Longrightarrow> set (scan_children t c seen) = {d. (d, c) \<in> parent_rel t} - set seen"
  by (auto simp: scan_children_set parent_rel_def dget_def dict_ok_def dkeys_def)

lemma descendants_loop_set:
  assumes "dict_ok t" and "set seen = insert h (set desc)" and "set queue \<subseteq> set seen"
    and "\<forall>x \<in> set seen - set queue. (parent_rel t)\<inverse> `` {x} \<subseteq> set seen"
    and "set desc \<subseteq> {d. (d, h) \<in> (parent_rel t)\<^sup>+}" and "h \<notin> set desc"
  shows "set (descendants_loop t queue seen desc) = {d. (d, h) \<in> (parent_rel t)\<^sup>+} - {h}"
  using assms
proof (induction t queue seen desc rule: descendants_loop.induct)
  case (1 t queue seen desc)
  show ?case
  proof (cases queue)
    case Nil
    have "(d, h) \<in> (parent_rel t)\<^sup>+ \<Longrightarrow> d \<in> set seen" for d
      by (induction rule: converse_trancl_induct) (use "1.prems"(2,4) Nil in auto)
    with "1.prems"(2,5,6) Nil show ?thesis
      by (subst descendants_loop.simps) auto
  next
    case (Cons c q)
    let ?new = "scan_children t c seen"
    have new: "set ?new = {d. (d, c) \<in> parent_rel t} - set seen"
      by (rule scan_children_rel [OF "1.prems"(1)])
    have hc: "c = h \<or> (c, h) \<in> (parent_rel t)\<^sup>+"
      using "1.prems"(2,3,5) Cons by auto
    have reach: "(d, h) \<in> (parent_rel t)\<^sup>+" if "d \<in> set ?new" for d
    proof -
      have "(d, c) \<in> parent_rel t" using that new by simp
      with hc show ?thesis by (meson r_into_trancl' trancl_into_trancl2)
    qed
    have "set (descendants_loop t (q @ ?new) (?new @ seen) (desc @ ?new))
        = {d. (d, h) \<in> (parent_rel t)\<^sup>+} - {h}"
    proof (rule "1.IH" [OF Cons refl "1.prems"(1)])
      show "set (?new @ seen) = insert h (set (desc @ ?new))" using "1.prems"(2) by auto
      show "set (q @ ?new) \<subseteq> set (?new @ seen)" using "1.prems"(3) Cons by auto
      show "\<forall>x \<in> set (?new @ seen) - set (q @ ?new). (parent_rel t)\<inverse> `` {x} \<subseteq> set (?new @ seen)"
        using "1.prems"(4) Cons new by auto
      show "set (desc @ ?new) \<subseteq> {d. (d, h) \<in> (parent_rel t)\<^sup>+}"
        using "1.prems"(5) reach by auto
      show "h \<notin> set (desc @ ?new)" using "1.prems"(2,6) new by auto
    qed
    with Cons show ?thesis by (subst descendants_loop.simps) (simp add: Let_def)
  qed
qed

lemma set_get_descendants:
  "dict_ok t \<Longrightarrow> set (get_descendants t h) = {d. (d, h) \<in> (parent_rel t)\<^sup>+} - {h}"
  unfolding get_descendants_def by (rule descendants_loop_set) auto

text \<open>Cascades: a host is cascaded when some offline host is above it.\<close>

lemma filter_upstream_eq:
  "filter_upstream_failures off t =
     ({h \<in> off. \<forall>a \<in> off. (h, a) \<notin> (parent_rel t)\<^sup>+}, {h \<in> off. \<exists>a \<in> off. (h, a) \<in> (parent_rel t)\<^sup>+})"
  by (auto simp: filter_upstream_failures_def list_ex_iff set_get_ancestors)

lemma primary_above:
  assumes "acyclic (parent_rel t)" and "h \<in> snd (filter_upstream_failures off t)"
  obtains a where "a \<in> fst (filter_upstream_failures off t)" and "(h, a) \<in> (parent_rel t)\<^sup>+"
proof -
  let ?R = "parent_rel t"
  have wf: "wf ((?R\<inverse>)\<^sup>+)"
    by (intro wf_trancl finite_acyclic_wf_converse assms(1)) simp
  obtain x where x: "x \<in> {a \<in> off. (h, a) \<in> ?R\<^sup>+}"
    using assms(2) by (auto simp: filter_upstream_eq)
  obtain a where a: "a \<in> off" "(h, a) \<in> ?R\<^sup>+"
    and mn: "\<And>b. (b, a) \<in> (?R\<inverse>)\<^sup>+ \<Longrightarrow> b \<notin> {a \<in> off. (h, a) \<in> ?R\<^sup>+}"
    using wfE_min [OF wf x] by blast
  have "b \<notin> off" if "(a, b) \<in> ?R\<^sup>+" for b
    using mn [of b] that a(2) by (auto simp: trancl_converse intro: trancl_trans)
  with a that show ?thesis by (auto simp: filter_upstream_eq)
qed

section \<open>Links the build keeps and adds\<close>

text \<open>
  The state of the build: the keys are the host ids, a link is recorded in the provenance
  exactly when there is one, and every detected link points at a known host.
\<close>

definition topo_wf :: "int set \<Rightarrow> topo_state \<Rightarrow> bool" where
  "topo_wf ids st \<longleftrightarrow>
     dict_ok (topo st) \<and> set (dkeys (topo st)) = ids
     \<and> (\<forall>c. (\<exists>p. dget (topo st) c = Some (Some p)) \<longleftrightarrow> dget (provenance st) c \<noteq> None)
     \<and> (\<forall>c p. dget (topo st) c = Some (Some p) \<longrightarrow> dget (provenance st) c \<noteq> Some ''manual'' \<longrightarrow> p \<in> ids)"

definition manual_kept :: "ping_host list \<Rightarrow> topo_state \<Rightarrow> bool" where
  "manual_kept hosts st \<longleftrightarrow> (\<forall>h \<in> set hosts. \<forall>p. parent_id h = Some p \<longrightarrow>
     dget (topo st) (host_id h) = Some (Some p) \<and> dget (provenance st) (host_id h) = Some ''manual'')"

definition maps_ok :: "int set \<Rightarrow> host_maps \<Rightarrow> bool" where
  "maps_ok ids m \<longleftrightarrow> (\<forall>k i. dget (name_map m) k = Some i \<longrightarrow> i \<in> ids)
     \<and> (\<forall>k i. dget (ip_map m) k = Some i \<longrightarrow> i \<in> ids)"

definition scan_ok :: "int set \<Rightarrow> unifi_scan \<Rightarrow> bool" where
  "scan_ok ids sc \<longleftrightarrow> (\<forall>g. gw_id sc = Some g \<longrightarrow> g \<in> ids) \<and> set (sw_ids sc) \<subseteq> ids
     \<and> set (ap_ids sc) \<subseteq> ids \<and> (\<forall>k i. dget (dev_mac_to_ph sc) k = Some i \<longrightarrow> i \<in> ids)"

definition build_inv :: "ping_host list \<Rightarrow> int set \<Rightarrow> topo_state \<Rightarrow> bool" where
  "build_inv hosts ids st \<longleftrightarrow> topo_wf ids st \<and> manual_kept hosts st"

lemma set_parent_inv:
  assumes "build_inv hosts ids st" and "c \<in> ids" and "p \<in> ids" and "tag \<noteq> ''manual''"
  shows "build_inv hosts ids (set_parent c p tag st)"
proof (cases "dget_or (topo st) c None = None")
  case False
  then have "set_parent c p tag st = st" by (simp only: set_parent_def if_False)
  with assms(1) show ?thesis by simp
next
  case True
  then have nolink: "dget (topo st) c \<noteq> Some (Some q)" for q by (auto simp: dget_or_def)
  have "topo_wf ids (set_parent c p tag st)"
    using assms True
    by (auto simp: build_inv_def topo_wf_def set_parent_def dict_simps split: if_splits)
  moreover have "manual_kept hosts (set_parent c p tag st)"
    using assms True nolink by (auto simp: build_inv_def manual_kept_def set_parent_def dict_simps)
  ultimately show ?thesis by (simp add: build_inv_def)
qed

lemma fold_set_parent_inv:
  "build_inv hosts ids st \<Longrightarrow> set cs \<subseteq> ids \<Longrightarrow> p \<in> ids \<Longrightarrow> tag \<noteq> ''manual'' \<Longrightarrow>
   build_inv hosts ids (fold (\<lambda>c. set_parent c p tag) cs st)"
  by (induction cs arbitrary: st) (auto simp: set_parent_inv)

lemma or_id_in: "or_id a b = Some i \<Longrightarrow> a = Some i \<or> b = Some i"
  by (auto simp: or_id_def split: if_splits)

lemma the_id_in: "id_ok a \<Longrightarrow> (\<And>i. a = Some i \<Longrightarrow> i \<in> ids) \<Longrightarrow> the a \<in> ids"
  by (auto simp: id_ok_def)

lemma proxmox_guest_inv:
  assumes m: "maps_ok ids m" and "build_inv hosts ids st" and "proxmox_guest m g st = Inr st'"
  shows "build_inv hosts ids st'"
proof -
  have "id_ok (dget (name_map m) x) \<Longrightarrow> the (dget (name_map m) x) \<in> ids" for x
    using m by (intro the_id_in) (auto simp: maps_ok_def)
  with assms show ?thesis
    by (auto simp: proxmox_guest_def bind_result_Inr_iff Let_def intro!: set_parent_inv split: if_splits)
qed

lemma note_ok:
  "scan_ok ids sc \<Longrightarrow> ph \<in> ids \<Longrightarrow> scan_ok ids (note_mac mac ph sc)"
  "scan_ok ids sc \<Longrightarrow> ph \<in> ids \<Longrightarrow> scan_ok ids (note_kind ty ph sc)"
  by (auto simp: scan_ok_def note_mac_def note_kind_def dict_simps split: if_splits)

lemma device_host_in:
  "maps_ok ids m \<Longrightarrow> id_ok (device_host m ip nm) \<Longrightarrow> the (device_host m ip nm) \<in> ids"
  by (erule the_id_in) (auto simp: device_host_def maps_ok_def dest!: or_id_in)

lemma scan_device_ok:
  assumes "maps_ok ids m" and "scan_ok ids sc" and "scan_device m dev sc = Inr sc'"
  shows "scan_ok ids sc'"
  using assms device_host_in [OF assms(1)]
  by (auto simp: scan_device_def bind_result_Inr_iff Let_def note_ok split: if_splits)

lemma link_devices_inv:
  assumes "scan_ok ids sc" and "build_inv hosts ids st"
  shows "build_inv hosts ids (link_devices sc st)"
proof (cases "gw_id sc")
  case None
  with assms show ?thesis by (simp add: link_devices_def id_ok_def)
next
  case (Some g)
  have g: "g \<in> ids" using Some assms(1) by (simp add: scan_ok_def)
  have st1: "build_inv hosts ids (st\<lparr>gateways := insert g (gateways st)\<rparr>)"
    using assms(2) by (simp add: build_inv_def topo_wf_def manual_kept_def)
  have ap: "(case sw_ids sc of [] \<Rightarrow> g | s # _ \<Rightarrow> s) \<in> ids"
    using g assms(1) by (auto simp: scan_ok_def split: list.splits)
  show ?thesis
    using Some assms g ap
    by (auto simp: link_devices_def Let_def scan_ok_def intro!: fold_set_parent_inv st1)
qed

lemma mac_map_ids: "dget (mac_map hosts) k = Some i \<Longrightarrow> i \<in> host_id ` set hosts"
proof -
  have "dget (fold (\<lambda>h d. case mac_address h of None \<Rightarrow> d
          | Some mac \<Rightarrow> if mac = [] then d else dset d (str_lower mac) (host_id h)) hs d) k = Some i
        \<Longrightarrow> i \<in> host_id ` set hs \<or> dget d k = Some i" for hs :: "ping_host list" and d
    by (induction hs arbitrary: d) (force simp: dict_simps split: option.splits if_splits)+
  then show "dget (mac_map hosts) k = Some i \<Longrightarrow> i \<in> host_id ` set hosts"
    by (fastforce simp: mac_map_def)
qed

lemma link_client_inv:
  assumes m: "maps_ok ids m" and sc: "scan_ok ids sc"
    and macs: "\<And>k i. dget macs k = Some i \<Longrightarrow> i \<in> ids"
    and st: "build_inv hosts ids st" and ok: "link_client m macs sc cl st = Inr st'"
  shows "build_inv hosts ids st'"
proof -
  have a: "id_ok (or_id (dget (ip_map m) x) (dget macs y)) \<Longrightarrow>
      the (or_id (dget (ip_map m) x) (dget macs y)) \<in> ids" for x y
    using m macs by (intro the_id_in) (auto simp: maps_ok_def dest!: or_id_in)
  have b: "id_ok (dget (name_map m) x) \<Longrightarrow> the (dget (name_map m) x) \<in> ids" for x
    using m by (intro the_id_in) (auto simp: maps_ok_def)
  have c: "id_ok (dget (dev_mac_to_ph sc) x) \<Longrightarrow> the (dget (dev_mac_to_ph sc) x) \<in> ids" for x
    using sc by (intro the_id_in) (auto simp: scan_ok_def)
  from ok st a b c show ?thesis
    by (auto simp: link_client_def bind_result_Inr_iff Let_def intro!: set_parent_inv split: if_splits)
qed

lemma fold_links_inv:
  assumes "fold_result f xs st = Inr st'" and "build_inv hosts ids st"
    and "\<And>x s s'. build_inv hosts ids s \<Longrightarrow> f x s = Inr s' \<Longrightarrow> build_inv hosts ids s'"
  shows "build_inv hosts ids st'"
  using assms by (rule fold_result_invariant [where P = "build_inv hosts ids"]) auto

lemma unifi_links_inv:
  assumes m: "maps_ok (host_id ` set hosts) m" and st: "build_inv hosts (host_id ` set hosts) st"
    and ok: "unifi_links hosts m data st = Inr st'"
  shows "build_inv hosts (host_id ` set hosts) st'"
proof -
  let ?ids = "host_id ` set hosts"
  obtain devices sc clients where
    sc: "fold_result (scan_device m) devices
           \<lparr>gw_id = None, sw_ids = [], ap_ids = [], dev_mac_to_ph = []\<rparr> = Inr sc"
    and cl: "fold_result (link_client m (mac_map hosts) sc) clients (link_devices sc st) = Inr st'"
    using ok by (auto simp: unifi_links_def bind_result_Inr_iff)
  from sc have "scan_ok ?ids sc"
    by (rule fold_result_invariant [where P = "scan_ok ?ids"])
       (auto simp: scan_ok_def [of _ "\<lparr>gw_id = None, sw_ids = [], ap_ids = [], dev_mac_to_ph = []\<rparr>"]
          intro: scan_device_ok [OF m])
  with cl st show ?thesis
    by (elim fold_links_inv) (auto intro: link_devices_inv link_client_inv [OF m] mac_map_ids)
qed

lemma config_links_inv:
  assumes m: "maps_ok (host_id ` set hosts) m" and st: "build_inv hosts (host_id ` set hosts) st"
    and ok: "config_links hosts m gl cfg st = Inr st'"
  shows "build_inv hosts (host_id ` set hosts) st'"
proof -
  have "proxmox_links m data st = Inr st' \<Longrightarrow> build_inv hosts (host_id ` set hosts) st'" for data
    using st by (auto simp: proxmox_links_def bind_result_Inr_iff
        elim!: fold_links_inv intro: proxmox_guest_inv [OF m])
  with ok st unifi_links_inv [OF m st] show ?thesis
    by (auto simp: config_links_def split: option.splits if_splits)
qed

lemma load_hosts_inv:
  "distinct (map host_id hosts) \<Longrightarrow>
   build_inv hosts (host_id ` set hosts) (fst (load_hosts hosts))
   \<and> maps_ok (host_id ` set hosts) (snd (load_hosts hosts))"
proof (induction hosts rule: rev_induct)
  case Nil
  then show ?case
    by (simp add: load_hosts_def build_inv_def topo_wf_def manual_kept_def maps_ok_def dkeys_def)
next
  case (snoc h hs)
  obtain st m where sm: "load_hosts hs = (st, m)" by (cases "load_hosts hs")
  have step: "load_hosts (hs @ [h]) = add_host h (st, m)" using sm by (simp add: load_hosts_def)
  have new: "host_id h \<notin> host_id ` set hs" using snoc.prems by auto
  have wf: "topo_wf (host_id ` set hs) st" and mk: "manual_kept hs st"
    and mo: "maps_ok (host_id ` set hs) m"
    using snoc sm by (auto simp: build_inv_def)
  have noprov: "dget (provenance st) (host_id h) = None"
  proof -
    have "dget (topo st) (host_id h) = None" using wf new by (simp add: topo_wf_def dget_eq_None_iff)
    then show ?thesis using wf unfolding topo_wf_def by (metis not_Some_eq option.distinct(1))
  qed
  have "topo_wf (host_id ` set (hs @ [h])) (fst (add_host h (st, m)))"
    using wf new noprov
    by (auto simp: topo_wf_def add_host_def dict_simps split: if_splits)
  moreover have "manual_kept (hs @ [h]) (fst (add_host h (st, m)))"
  proof -
    have "ha \<in> set hs \<Longrightarrow> host_id ha \<noteq> host_id h" for ha using new by (metis imageI)
    with mk show ?thesis by (auto simp: manual_kept_def add_host_def dict_simps)
  qed
  moreover have "maps_ok (host_id ` set (hs @ [h])) (snd (add_host h (st, m)))"
    using mo by (auto simp: maps_ok_def add_host_def dict_simps split: if_splits)
  ultimately show ?case by (simp add: build_inv_def step)
qed

lemma build_topology_inv:
  assumes "distinct (map host_id hosts)" and "build_topology hosts configs gl = Inr st"
  shows "build_inv hosts (host_id ` set hosts) st"
proof -
  obtain st0 m where lh: "load_hosts hosts = (st0, m)" by (cases "load_hosts hosts")
  have "build_inv hosts (host_id ` set hosts) st0" and m: "maps_ok (host_id ` set hosts) m"
    using load_hosts_inv [OF assms(1)] lh by auto
  with assms(2) lh show ?thesis
    by (auto simp: build_topology_def elim!: fold_links_inv intro: config_links_inv [OF m])
qed

section \<open>The cache keeps its contract\<close>

lemma evict_drop: "evict c = drop (length c - TOPOLOGY_CACHE_MAX) c"
  by (induction c) (auto simp: Suc_diff_le)

definition cache_ok :: "topo_cache \<Rightarrow> bool" where
  "cache_ok c \<longleftrightarrow> dict_ok c \<and> length c \<le> TOPOLOGY_CACHE_MAX"

lemma dict_ok_drop: "dict_ok c \<Longrightarrow> dict_ok (drop n c)"
  by (simp add: dict_ok_def dkeys_def drop_map [symmetric])

lemma dict_ok_move: "dict_ok c \<Longrightarrow> dict_ok (ddel c k @ [(k, e)])"
  using dict_ok_ddel [of c k] set_dkeys_ddel [of c k] by (auto simp: dict_ok_def dkeys_def)

lemma dict_ok_store: "dict_ok c \<Longrightarrow> dict_ok (cache_store c k e)"
  unfolding cache_store_def evict_drop by (intro dict_ok_drop dict_ok_move)

lemma length_store: "length (cache_store c k e) \<le> TOPOLOGY_CACHE_MAX"
  unfolding cache_store_def evict_drop by simp

lemma dget_drop: "dict_ok c \<Longrightarrow> dget (drop n c) k = Some e \<Longrightarrow> dget c k = Some e"
  by (metis dict_ok_def dget_def dkeys_def in_set_dropD map_of_SomeD map_of_is_SomeI)

lemma cache_store_same: "dict_ok c \<Longrightarrow> dget (cache_store c k e) k = Some e"
proof -
  assume "dict_ok c"
  then have "distinct (map fst (cache_store c k e))"
    using dict_ok_store [of c k e] by (simp add: dict_ok_def dkeys_def)
  moreover have "(k, e) \<in> set (cache_store c k e)"
    by (auto simp: cache_store_def evict_drop TOPOLOGY_CACHE_MAX_def)
  ultimately show ?thesis by (simp add: dget_def map_of_is_SomeI)
qed

lemma cache_store_other:
  assumes "dict_ok c" and "k' \<noteq> k" and "dget (cache_store c k e) k' = Some e'"
  shows "dget c k' = Some e'"
proof -
  have "dget (ddel c k @ [(k, e)]) k' = Some e'"
    using assms(3) unfolding cache_store_def evict_drop by (rule dget_drop [OF dict_ok_move [OF assms(1)]])
  then have "dget (ddel c k) k' = Some e'"
    using assms(2) by (auto simp: dget_def map_add_def split: option.splits)
  with assms(2) show ?thesis by (simp add: dict_simps)
qed

interpretation tcache: keyed_cache dget cache_store cache_ok
proof
  show "cache_ok c \<Longrightarrow> cache_ok (cache_store c k e)" for c k e
    by (simp add: cache_ok_def dict_ok_store length_store)
qed (auto simp: cache_ok_def intro: cache_store_same cache_store_other)

text \<open>A request leaves the cache as it was or stores its own build under its own key.\<close>

lemma cached_topology_cache:
  assumes "cached_topology c b tn now ttl build = (r, c')"
  shows "c' = c \<or> (\<exists>e st. b = Some e \<and> build = Inr st \<and> c' = cache_store c (e, tn) (e, now, st))"
  using assms by (auto simp: cached_topology_def Let_def split: option.splits sum.splits prod.splits if_splits)

lemma cached_topology_answer:
  assumes "cached_topology c b tn now ttl build = (Inr st, c')"
  shows "build = Inr st \<or> (\<exists>e ts. b = Some e \<and> dget c (e, tn) = Some (e, ts, st) \<and> now - ts < ttl)"
  using assms by (auto simp: cached_topology_def Let_def split: option.splits sum.splits prod.splits if_splits)

text \<open>Every entry of the cache was built by a request under that entry's key.\<close>

definition built_by :: "topo_request list \<Rightarrow> cache_key \<times> int \<times> rat \<times> topo_state \<Rightarrow> bool" where
  "built_by rqs w \<longleftrightarrow> (case w of ((e, tn), (e', ts, st)) \<Rightarrow> (Some e, tn, ts, Inr st) \<in> set rqs)"

definition cache_from :: "topo_request list \<Rightarrow> topo_cache \<Rightarrow> bool" where
  "cache_from rqs c \<longleftrightarrow> (\<exists>ws. c = tcache.run [] ws \<and> list_all (built_by rqs) ws)"

lemma cache_from_Nil: "cache_from rqs []"
  unfolding cache_from_def by (rule exI [of _ "[]"]) simp

lemma built_by_mono: "list_all (built_by rqs) ws \<Longrightarrow> list_all (built_by (rqs @ rqs')) ws"
  by (auto simp: list_all_iff built_by_def)

lemma cache_from_step:
  assumes "cache_from rqs c" and "cached_topology c b tn now ttl build = (r, c')"
  shows "cache_from (rqs @ [(b, tn, now, build)]) c'"
proof -
  from assms(1) obtain ws where ws: "c = tcache.run [] ws" "list_all (built_by rqs) ws"
    by (auto simp: cache_from_def)
  note ws' = built_by_mono [OF ws(2), of "[(b, tn, now, build)]"]
  from cached_topology_cache [OF assms(2)] show ?thesis
  proof
    assume "c' = c"
    with ws(1) ws' show ?thesis unfolding cache_from_def by blast
  next
    assume "\<exists>e st. b = Some e \<and> build = Inr st \<and> c' = cache_store c (e, tn) (e, now, st)"
    then obtain e st where e: "b = Some e" "build = Inr st" "c' = cache_store c (e, tn) (e, now, st)"
      by blast
    let ?w = "((e, tn), (e, now, st))"
    have "c' = tcache.run [] (ws @ [?w])" using e ws(1) by simp
    moreover have "list_all (built_by (rqs @ [(b, tn, now, build)])) (ws @ [?w])"
      using ws' e by (simp add: built_by_def)
    ultimately show ?thesis unfolding cache_from_def by blast
  qed
qed

lemma cache_ok_Nil: "cache_ok []"
  by (simp add: cache_ok_def)

lemma cache_from_lookup:
  assumes "cache_from rqs c" and "dget c (e, tn) = Some (e', ts, st)"
  shows "(Some e, tn, ts, Inr st) \<in> set rqs"
proof -
  from assms(1) obtain ws where ws: "c = tcache.run [] ws" "list_all (built_by rqs) ws"
    by (auto simp: cache_from_def)
  have "((e, tn), (e', ts, st)) \<in> set ws"
    by (rule tcache.no_foreign_answer [OF cache_ok_Nil]) (use assms(2) ws(1) in auto)
  with ws(2) show ?thesis by (auto simp: list_all_iff built_by_def)
qed

lemma cache_from_ok: "cache_from rqs c \<Longrightarrow> cache_ok c"
  by (auto simp: cache_from_def intro: tcache.inv_run [OF cache_ok_Nil])

text \<open>An answer is justified by the request itself or by an earlier one with its key.\<close>

definition justified :: "rat \<Rightarrow> topo_request list \<Rightarrow> topo_request \<Rightarrow> topo_state result \<Rightarrow> bool" where
  "justified ttl before rq r \<longleftrightarrow> (\<forall>st. r = Inr st \<longrightarrow> (case rq of (b, tn, now, build) \<Rightarrow>
     build = Inr st \<or> (\<exists>ts. (b, tn, ts, Inr st) \<in> set before \<and> now - ts < ttl)))"

lemma cached_run_answers:
  assumes "cached_run ttl c rqs = (rs, c')" and "cache_from pre c"
  shows "length rs = length rqs \<and> cache_from (pre @ rqs) c' \<and>
    (\<forall>i < length rqs. justified ttl (pre @ take i rqs) (rqs ! i) (rs ! i))"
  using assms
proof (induction rqs arbitrary: c pre rs c')
  case Nil
  then show ?case by simp
next
  case (Cons rq rqs)
  obtain b tn now build where rq: "rq = (b, tn, now, build)" by (cases rq) auto
  obtain r c1 where r: "cached_topology c b tn now ttl build = (r, c1)" by fastforce
  obtain rs' c2 where rs': "cached_run ttl c1 rqs = (rs', c2)" by fastforce
  have split: "rs = r # rs'" "c' = c2" using Cons.prems(1) rq r rs' by auto
  have c1: "cache_from (pre @ [rq]) c1" using cache_from_step [OF Cons.prems(2) r] rq by simp
  note IH = Cons.IH [OF rs' c1]
  have first: "justified ttl pre rq r"
  proof -
    have "build = Inr st \<or> (\<exists>ts. (b, tn, ts, Inr st) \<in> set pre \<and> now - ts < ttl)"
      if "r = Inr st" for st
      using cached_topology_answer [of c b tn now ttl build st c1] r that
        cache_from_lookup [OF Cons.prems(2)] by auto
    then show ?thesis by (simp add: justified_def rq)
  qed
  have "justified ttl (pre @ take i (rq # rqs)) ((rq # rqs) ! i) (rs ! i)"
    if "i < length (rq # rqs)" for i
    using that IH first split by (cases i) auto
  with IH split show ?case by simp
qed

section \<open>Properties\<close>

text \<open>
  C35. \<open>get_ancestors\<close> always terminates and returns, without repetition, exactly the hosts
  reachable from the host by following parents one or more times, on cyclic topologies too
  (a host in a cycle is then its own ancestor).
\<close>

theorem ancestors_are_closure:
  "distinct (get_ancestors t h) \<and> set (get_ancestors t h) = {a. (h, a) \<in> (parent_rel t)\<^sup>+}"
  by (simp add: distinct_get_ancestors set_get_ancestors)

text \<open>
  \<open>get_descendants\<close> (a breadth-first search over the children) and \<open>get_ancestors\<close> (a walk up
  the parents) answer the same question: a host other than the root is among its descendants
  exactly when the root is among that host's ancestors.
\<close>

theorem descendants_dual:
  assumes "dict_ok t"
  shows "d \<in> set (get_descendants t h) \<longleftrightarrow> d \<noteq> h \<and> h \<in> set (get_ancestors t d)"
  using assms by (auto simp: set_get_descendants set_get_ancestors)

theorem descendants_dual_witness:
  "dict_ok [(1 :: int, None :: int option), (2, Some 1), (3, Some 2)] \<and>
   (3 \<in> set (get_descendants [(1, None), (2, Some 1), (3, Some 2)] 1) \<longleftrightarrow>
     3 \<noteq> (1 :: int) \<and> 1 \<in> set (get_ancestors [(1, None), (2, Some 1), (3, Some 2)] 3))"
proof -
  have ok: "dict_ok [(1 :: int, None :: int option), (2, Some 1), (3, Some 2)]"
    by (simp add: dict_ok_def dkeys_def)
  show ?thesis using ok descendants_dual [OF ok, of 3 1] by simp
qed

text \<open>
  C32. On an acyclic topology \<open>filter_upstream_failures\<close> splits the offline hosts into two disjoint
  groups that cover them, and every cascaded host has a primary failure among its ancestors: a
  cascade always has a root cause that is reported on its own.
\<close>

theorem cascade_has_primary:
  assumes "acyclic (parent_rel t)"
  shows "case filter_upstream_failures off t of (primary, cascaded) \<Rightarrow>
     primary \<union> cascaded = off \<and> primary \<inter> cascaded = {} \<and>
     (\<forall>h \<in> cascaded. \<exists>a \<in> primary. a \<in> set (get_ancestors t h))"
proof -
  have part: "fst (filter_upstream_failures off t) \<union> snd (filter_upstream_failures off t) = off"
    "fst (filter_upstream_failures off t) \<inter> snd (filter_upstream_failures off t) = {}"
    by (auto simp: filter_upstream_failures_def)
  have "\<exists>a \<in> fst (filter_upstream_failures off t). a \<in> set (get_ancestors t h)"
    if "h \<in> snd (filter_upstream_failures off t)" for h
    using primary_above [OF assms that] by (auto simp: set_get_ancestors)
  with part show ?thesis by (simp add: case_prod_unfold)
qed

theorem cascade_has_primary_witness:
  "acyclic (parent_rel [(1, None), (2, Some 1), (3, Some 2)]) \<and>
   filter_upstream_failures {2, 3} [(1, None), (2, Some 1), (3, Some 2)] = ({2}, {3}) \<and>
   (case filter_upstream_failures {2, 3} [(1, None), (2, Some 1), (3, Some 2)] of (primary, cascaded) \<Rightarrow>
     primary \<union> cascaded = {2, 3} \<and> primary \<inter> cascaded = {} \<and>
     (\<forall>h \<in> cascaded. \<exists>a \<in> primary. a \<in> set (get_ancestors [(1, None), (2, Some 1), (3, Some 2)] h)))"
proof -
  let ?t = "[(1 :: int, None :: int option), (2, Some 1), (3, Some 2)]"
  have ac: "acyclic (parent_rel ?t)"
    by (rule acyclicI_order [where f = nat]) (auto simp: parent_rel_def dget_Cons split: if_splits)
  have ev: "filter_upstream_failures {2, 3} ?t = ({2}, {3})"
    by (auto simp: filter_upstream_failures_def get_ancestors_def ancestors_loop.simps dget_Cons)
  show ?thesis using ac ev cascade_has_primary [OF ac, of "{2, 3}"] by simp
qed

text \<open>
  The acyclicity is needed: with two hosts that are each other's parent, which the host form
  accepts (it only refuses a host as its own parent), both offline hosts count as cascaded and no
  primary failure is left.
\<close>

theorem cycle_hides_primary:
  "filter_upstream_failures {1, 2} [(1, Some 2), (2, Some 1)] = ({}, {1, 2})"
  by (auto simp: filter_upstream_failures_def get_ancestors_def ancestors_loop.simps dget_Cons)

text \<open>
  \<open>build_topology\<close>: the result has exactly the hosts as keys; a manual parent is kept, with
  provenance \<open>manual\<close>, whatever the Proxmox and UniFi snapshots say; a link is recorded in the
  provenance exactly when there is one, and every detected link points at an existing host.
\<close>

theorem build_topology_links:
  assumes "distinct (map host_id hosts)" and "build_topology hosts configs get_latest = Inr st"
  shows "set (dkeys (topo st)) = host_id ` set hosts \<and>
    (\<forall>h \<in> set hosts. \<forall>p. parent_id h = Some p \<longrightarrow>
       dget (topo st) (host_id h) = Some (Some p) \<and> dget (provenance st) (host_id h) = Some ''manual'') \<and>
    (\<forall>c. (\<exists>p. dget (topo st) c = Some (Some p)) \<longleftrightarrow> dget (provenance st) c \<noteq> None) \<and>
    (\<forall>c p. dget (topo st) c = Some (Some p) \<longrightarrow> dget (provenance st) c \<noteq> Some ''manual'' \<longrightarrow>
       p \<in> host_id ` set hosts)"
  using build_topology_inv [OF assms] by (simp add: build_inv_def topo_wf_def manual_kept_def)

definition demo_hosts :: "ping_host list" where
  "demo_hosts = [plain_host 1 ''pve1'', plain_host 2 ''web'', (plain_host 3 ''db'')\<lparr>parent_id := Some 2\<rparr>]"

definition demo_proxmox :: string where
  "demo_proxmox = ''{'' @ [CHR 0x22] @ ''vms'' @ [CHR 0x22] @ '':[{'' @
     [CHR 0x22] @ ''name'' @ [CHR 0x22, CHR '':'', CHR 0x22] @ ''web'' @ [CHR 0x22, CHR '','', CHR 0x22] @
     ''node'' @ [CHR 0x22, CHR '':'', CHR 0x22] @ ''pve1'' @ [CHR 0x22] @ ''}]}''"

definition demo_latest :: "string \<Rightarrow> int \<Rightarrow> snapshot option" where
  "demo_latest ty i = Some \<lparr>snap_ok = True, data_json = Some demo_proxmox\<rparr>"

definition demo_configs :: "integration_config list" where
  "demo_configs = [\<lparr>cfg_id = 7, cfg_type = ''proxmox'', cfg_name = ''pve'', cfg_enabled = True\<rparr>]"

lemma demo_build:
  "map_option topo (case build_topology demo_hosts demo_configs demo_latest of Inl _ \<Rightarrow> None | Inr s \<Rightarrow> Some s)
   = Some [(1, None), (2, Some 1), (3, Some 2)]"
  by code_simp

theorem build_topology_links_witness:
  "\<exists>st. distinct (map host_id demo_hosts) \<and> build_topology demo_hosts demo_configs demo_latest = Inr st \<and>
    topo st = [(1, None), (2, Some 1), (3, Some 2)] \<and>
    dget (provenance st) 3 = Some ''manual''"
proof -
  have d: "distinct (map host_id demo_hosts)" by (simp add: demo_hosts_def plain_host_def)
  obtain st where st: "build_topology demo_hosts demo_configs demo_latest = Inr st"
    and t: "topo st = [(1, None), (2, Some 1), (3, Some 2)]"
    using demo_build by (auto split: sum.splits)
  have "dget (provenance st) 3 = Some ''manual''"
    using build_topology_links [OF d st] by (simp add: demo_hosts_def plain_host_def)
  with d st t show ?thesis by blast
qed

text \<open>
  \<open>cached_topology\<close>: in any sequence of requests to one process, an answer is either what the
  request itself built, or what an earlier request of the same engine and the same tenant built
  less than the time-to-live before; never another tenant's topology. The cache never holds more
  than \<open>TOPOLOGY_CACHE_MAX\<close> entries.
\<close>

theorem cached_topology_isolated:
  assumes "cached_run ttl [] rqs = (rs, c)" and "i < length rqs" and "rs ! i = Inr st"
    and "rqs ! i = (b, tn, now, build)"
  shows "(build = Inr st \<or> (\<exists>ts. (b, tn, ts, Inr st) \<in> set (take i rqs) \<and> now - ts < ttl))
     \<and> length c \<le> TOPOLOGY_CACHE_MAX"
proof -
  note ans = cached_run_answers [OF assms(1) cache_from_Nil [of "[]"]]
  have "justified ttl (take i rqs) (rqs ! i) (rs ! i)" using ans assms(2) by simp
  moreover have "cache_ok c" using ans cache_from_ok by blast
  ultimately show ?thesis using assms(3,4) by (simp add: cache_ok_def justified_def)
qed

definition demo_requests :: "topo_request list" where
  "demo_requests =
     [(Some 9, 1, 0, Inr \<lparr>topo = [(1, None)], provenance = [], gateways = {}\<rparr>),
      (Some 9, 1, 30, Inr \<lparr>topo = [], provenance = [], gateways = {}\<rparr>)]"

theorem cached_topology_isolated_witness:
  "\<exists>c. cached_run 60 [] demo_requests =
      ([Inr \<lparr>topo = [(1, None)], provenance = [], gateways = {}\<rparr>,
        Inr \<lparr>topo = [(1, None)], provenance = [], gateways = {}\<rparr>], c)
    \<and> (\<exists>ts. (Some 9, 1, ts, Inr \<lparr>topo = [(1, None)], provenance = [], gateways = {}\<rparr>)
          \<in> set (take 1 demo_requests) \<and> 30 - ts < 60) \<and> length c \<le> TOPOLOGY_CACHE_MAX"
proof -
  let ?st = "\<lparr>topo = [(1, None)], provenance = [], gateways = {}\<rparr>"
  obtain c where run: "cached_run 60 [] demo_requests = ([Inr ?st, Inr ?st], c)"
    by (simp add: demo_requests_def cached_topology_def cache_store_def ddel_def
        TOPOLOGY_CACHE_MAX_def dget_Cons Let_def)
  have "length c \<le> TOPOLOGY_CACHE_MAX \<and> (\<exists>ts. (Some 9, 1, ts, Inr ?st) \<in> set (take 1 demo_requests) \<and> 30 - ts < 60)"
    using cached_topology_isolated [OF run, of 1 ?st "Some 9" 1 30] by (simp add: demo_requests_def)
  with run show ?thesis by blast
qed

end
