(* ===== verification/Probes.thy ===== *)
theory Probes
  imports Models
begin

text \<open>
  \<^verbatim>\<open>backend/services/probes.py\<close>: remote probes, the windows after which what they watched counts
  as unobserved, and the status of a host given its newest result. Times are seconds, as the
  code's floats; the conversion of a naive datetime to such a time is the parameter \<open>posix\<close>
  (\<^verbatim>\<open>datetime.timestamp()\<close> reads the process's local zone).
\<close>

definition PROBE_GRACE_FACTOR :: rat where "PROBE_GRACE_FACTOR = 3"
definition DEFAULT_PROBE_INTERVAL_SECONDS :: int where "DEFAULT_PROBE_INTERVAL_SECONDS = 60"
definition MIN_STALENESS_WINDOW_SECONDS :: rat where "MIN_STALENESS_WINDOW_SECONDS = 120"

record probe_state =
  ps_id :: int
  ps_name :: string
  interval_seconds :: "int option"
  last_report :: "rat option"

text \<open>The newest row of a host in the check table.\<close>

record check_row =
  row_success :: "int option"
  row_latency :: "pyfloat option"
  row_timestamp :: "datetime option"

text \<open>\<open>interval_seconds or DEFAULT\<close>: NULL and 0 both take the default.\<close>

definition interval_or :: "int option \<Rightarrow> int \<Rightarrow> int" where
  "interval_or i d = (case i of None \<Rightarrow> d | Some n \<Rightarrow> if n = 0 then d else n)"

definition staleness_window :: "int option \<Rightarrow> rat" where
  "staleness_window i =
     max MIN_STALENESS_WINDOW_SECONDS (of_int (interval_or i DEFAULT_PROBE_INTERVAL_SECONDS) * PROBE_GRACE_FACTOR)"

definition result_window :: "int option \<Rightarrow> rat" where
  "result_window i = staleness_window i + of_int (interval_or i DEFAULT_PROBE_INTERVAL_SECONDS)"

definition is_stale :: "probe_state \<Rightarrow> rat \<Rightarrow> bool" where
  "is_stale p now = (case last_report p of None \<Rightarrow> True
     | Some t \<Rightarrow> now - t > staleness_window (interval_seconds p))"

definition host_status :: "bool option \<Rightarrow> rat option \<Rightarrow> probe_state option \<Rightarrow> rat \<Rightarrow> string" where
  "host_status success age probe now =
     (case probe of
        None \<Rightarrow> (case success of None \<Rightarrow> ''unknown'' | Some b \<Rightarrow> if b then ''up'' else ''down'')
      | Some p \<Rightarrow>
          (case success of
             None \<Rightarrow> ''unknown''
           | Some b \<Rightarrow>
               if is_stale p now then ''unknown''
               else if (case age of None \<Rightarrow> False | Some a \<Rightarrow> a > result_window (interval_seconds p))
                 then ''unknown''
               else if b then ''up'' else ''down''))"

record problem =
  pb_key :: string
  pb_title :: string
  pb_severity :: string
  pb_summary :: string

definition quoted :: "string \<Rightarrow> string" where
  "quoted s = [CHR 0x27] @ s @ [CHR 0x27]"

definition em_dash :: string where
  "em_dash = [CHR 0xE2, CHR 0x80, CHR 0x94]"

definition probe_problem :: "probe_state \<Rightarrow> int \<Rightarrow> rat \<Rightarrow> problem" where
  "probe_problem p watched now =
     \<lparr>pb_key = ''probe:'' @ show_int (ps_id p), pb_title = ''Probe not reporting: '' @ ps_name p,
      pb_severity = ''critical'',
      pb_summary =
        (case last_report p of
           None \<Rightarrow> ''Probe '' @ quoted (ps_name p) @ '' has '' @ show_int watched @
             '' host(s) assigned but has never reported. Those hosts are not being checked by anything.''
         | Some t \<Rightarrow> ''Probe '' @ quoted (ps_name p) @ '' last reported '' @ show_int (trunc (now - t)) @
             ''s ago and watches '' @ show_int watched @ '' host(s). Their status is unknown, not healthy '' @
             em_dash @ '' nothing is checking them while the probe is silent.'')\<rparr>"

fun problems_for :: "probe_state list \<Rightarrow> (int, int) dict \<Rightarrow> rat \<Rightarrow> problem list" where
  "problems_for [] counts now = []"
| "problems_for (p # ps) counts now =
     (let watched = dget_or counts (ps_id p) 0 in
      if watched = 0 then problems_for ps counts now
      else if \<not> is_stale p now then problems_for ps counts now
      else probe_problem p watched now # problems_for ps counts now)"

definition core_checked :: "ping_host list \<Rightarrow> ping_host list" where
  "core_checked hosts = filter (\<lambda>h. probe_id h = None) hosts"

record probe_agent =
  agent_id :: int
  agent_name :: "string option"
  agent_hostname :: "string option"
  probe_interval_seconds :: "int option"
  last_seen :: "datetime option"

definition agent_label :: "probe_agent \<Rightarrow> string" where
  "agent_label a =
     (case agent_name a of Some n \<Rightarrow> (if n \<noteq> [] then n else
        (case agent_hostname a of Some h \<Rightarrow> if h \<noteq> [] then h else ''agent-'' @ show_int (agent_id a)
         | None \<Rightarrow> ''agent-'' @ show_int (agent_id a)))
      | None \<Rightarrow>
        (case agent_hostname a of Some h \<Rightarrow> if h \<noteq> [] then h else ''agent-'' @ show_int (agent_id a)
         | None \<Rightarrow> ''agent-'' @ show_int (agent_id a)))"

definition agent_probe :: "(datetime \<Rightarrow> rat) \<Rightarrow> probe_agent \<Rightarrow> probe_state" where
  "agent_probe posix a = \<lparr>ps_id = agent_id a, ps_name = agent_label a,
     interval_seconds = probe_interval_seconds a, last_report = map_option posix (last_seen a)\<rparr>"

text \<open>The probes of the given hosts: the agents whose id some host names.\<close>

definition probes_of :: "(datetime \<Rightarrow> rat) \<Rightarrow> ping_host list \<Rightarrow> probe_agent list \<Rightarrow> (int, probe_state) dict" where
  "probes_of posix hosts agents =
     map (\<lambda>a. (agent_id a, agent_probe posix a))
       (filter (\<lambda>a. \<exists>h \<in> set hosts. id_ok (probe_id h) \<and> probe_id h = Some (agent_id a)) agents)"

definition statuses_for ::
    "(datetime \<Rightarrow> rat) \<Rightarrow> (int, check_row) dict \<Rightarrow> probe_agent list \<Rightarrow> ping_host list \<Rightarrow> rat \<Rightarrow> (int, string) dict" where
  "statuses_for posix latest agents hosts now =
     (let probes = probes_of posix hosts agents in
      foldl (\<lambda>out h.
         let row = dget latest (host_id h);
             success = (case row of None \<Rightarrow> None | Some r \<Rightarrow> map_option (\<lambda>n. n \<noteq> 0) (row_success r));
             age = (case row of None \<Rightarrow> None | Some r \<Rightarrow> map_option (\<lambda>t. now - posix t) (row_timestamp r));
             probe = (case probe_id h of None \<Rightarrow> None | Some i \<Rightarrow> dget probes i)
         in dset out (host_id h) (host_status success age probe now)) [] hosts)"

section \<open>Windows\<close>

lemma staleness_window_lower:
  "120 \<le> staleness_window i" "3 * of_int (interval_or i 60) \<le> staleness_window i"
  by (simp_all add: staleness_window_def MIN_STALENESS_WINDOW_SECONDS_def PROBE_GRACE_FACTOR_def
      DEFAULT_PROBE_INTERVAL_SECONDS_def)

lemma host_status_observed:
  "host_status success age (Some p) now \<noteq> ''unknown'' \<longleftrightarrow>
   success \<noteq> None \<and> \<not> is_stale p now \<and> (\<forall>a. age = Some a \<longrightarrow> a \<le> result_window (interval_seconds p))"
  by (auto simp: host_status_def split: option.splits)

section \<open>Properties\<close>

text \<open>
  A host behind a probe is reported up or down exactly when there is a result, the probe has
  reported within its staleness window, and the result is no older than the result window; and
  then it is up exactly when the result was a success. A silent probe never yields a stale green.
\<close>

theorem probe_status_honest:
  "(host_status success age (Some p) now = ''up'' \<longleftrightarrow>
     success = Some True \<and> (\<exists>t. last_report p = Some t \<and> now - t \<le> staleness_window (interval_seconds p))
     \<and> (case age of None \<Rightarrow> True | Some a \<Rightarrow> a \<le> result_window (interval_seconds p))) \<and>
   (host_status success age (Some p) now = ''down'' \<longleftrightarrow>
     success = Some False \<and> (\<exists>t. last_report p = Some t \<and> now - t \<le> staleness_window (interval_seconds p))
     \<and> (case age of None \<Rightarrow> True | Some a \<Rightarrow> a \<le> result_window (interval_seconds p))) \<and>
   host_status success age (Some p) now \<in> {''up'', ''down'', ''unknown''}"
  by (auto simp: host_status_def is_stale_def not_less split: option.splits)

text \<open>
  The windows leave a healthy probe room: a probe whose last heartbeat is at most three of its
  intervals old is not stale, and a result at most one interval older than that heartbeat still
  counts, so a probe reporting at its cadence never turns its hosts unknown.
\<close>

theorem healthy_probe_observed:
  assumes "last_report p = Some t" and "now - t \<le> 3 * of_int (interval_or (interval_seconds p) 60)"
    and "age \<le> (now - t) + of_int (interval_or (interval_seconds p) 60)"
  shows "host_status (Some b) (Some age) (Some p) now = (if b then ''up'' else ''down'')"
proof -
  have "now - t \<le> staleness_window (interval_seconds p)"
    using assms(2) staleness_window_lower(2) [of "interval_seconds p"] by linarith
  moreover have "age \<le> result_window (interval_seconds p)"
    using assms(2,3) staleness_window_lower(2) [of "interval_seconds p"]
    by (simp add: result_window_def DEFAULT_PROBE_INTERVAL_SECONDS_def)
  ultimately show ?thesis using assms(1) by (simp add: host_status_def is_stale_def not_less)
qed

definition demo_probe :: probe_state where
  "demo_probe = \<lparr>ps_id = 5, ps_name = ''zh'', interval_seconds = Some 30, last_report = Some 1000\<rparr>"

theorem healthy_probe_observed_witness:
  "last_report demo_probe = Some 1000 \<and> host_status (Some True) (Some 110) (Some demo_probe) 1090 = ''up''"
proof -
  have lr: "last_report demo_probe = Some 1000" by (simp add: demo_probe_def)
  show ?thesis using healthy_probe_observed [OF lr, of 1090 110 True] lr
    by (simp add: demo_probe_def interval_or_def)
qed

text \<open>
  \<open>problems_for\<close> raises one problem, in order, for exactly the stale probes that watch at least
  one host, each keyed by its probe id; an enrolled but unused probe is never alarmed on.
\<close>

theorem problems_for_exact:
  "map pb_key (problems_for ps counts now) =
   map (\<lambda>p. ''probe:'' @ show_int (ps_id p))
     (filter (\<lambda>p. dget_or counts (ps_id p) 0 \<noteq> 0 \<and> is_stale p now) ps)"
  by (induction ps counts now rule: problems_for.induct) (auto simp: Let_def probe_problem_def)

end
