(* ===== verification/Maintenance.thy ===== *)
theory Maintenance
  imports Models
begin

text \<open>
  \<^verbatim>\<open>backend/services/maintenance.py\<close>: is a host in maintenance at a given moment. A window is a
  \<open>window_spec\<close>; weekly windows are resolved per local day in their time zone. The time-zone
  database is a parameter (\<open>tzdb\<close>): which names exist, the local date of an instant, and the
  instant of a wall-clock time. Instants are naive UTC microseconds.
\<close>

record tzdb =
  zone_exists :: "string \<Rightarrow> bool"
  local_date :: "string \<Rightarrow> datetime \<Rightarrow> int"
  to_utc :: "string \<Rightarrow> int \<Rightarrow> int \<Rightarrow> datetime"

record window_spec =
  w_id :: int
  w_name :: string
  w_kind :: string
  w_enabled :: bool
  w_weekdays :: "int set"
  w_start_time :: "int option"
  w_duration_minutes :: int
  w_starts_at :: "datetime option"
  w_ends_at :: "datetime option"
  w_tz :: string
  w_all_hosts :: bool
  w_host_ids :: "int set"

definition MAX_HOST_IDS :: nat where "MAX_HOST_IDS = 5000"
definition MAX_OCCURRENCE_SPAN_DAYS :: int where "MAX_OCCURRENCE_SPAN_DAYS = 62"

definition covers :: "window_spec \<Rightarrow> int \<Rightarrow> bool" where
  "covers w hid \<longleftrightarrow> w_all_hosts w \<or> hid \<in> w_host_ids w"

section \<open>Parsing\<close>

definition weekday_item :: "(pyfloat \<Rightarrow> string) \<Rightarrow> json \<Rightarrow> int set \<Rightarrow> int set result" where
  "weekday_item frepr item acc =
     (let s = strip (py_str frepr item) in
      if s = [] then Inr acc
      else if \<not> isdigit s \<or> \<not> int (nat_of_digits s) \<le> 6
        then Inl (ValueError ''weekdays must be numbers 0 (Monday) to 6 (Sunday)'')
      else Inr (insert (int (nat_of_digits s)) acc))"

definition parse_weekdays :: "(pyfloat \<Rightarrow> string) \<Rightarrow> json \<Rightarrow> int set result" where
  "parse_weekdays frepr value =
     (if value = JNull \<or> value = JStr [] then Inr {}
      else bind_result
             (case value of JStr s \<Rightarrow> Inr (map JStr (split_on CHR '','' s)) | v \<Rightarrow> json_iter v)
             (\<lambda>items. fold_result (weekday_item frepr) items {}))"

definition time_error :: py_error where
  "time_error = ValueError ''start_time must be HH:MM (24h)''"

text \<open>The time of day in microseconds.\<close>

definition parse_start_time :: "(pyfloat \<Rightarrow> string) \<Rightarrow> json \<Rightarrow> int result" where
  "parse_start_time frepr value =
     (let s = strip (if truthy value then py_str frepr value else []) in
      case split_on CHR '':'' s of
        [hh, mm] \<Rightarrow>
          (if length hh \<notin> {1, 2} \<or> length mm \<noteq> 2 then Inl time_error
           else case (parse_int hh, parse_int mm) of
                  (Some h, Some m) \<Rightarrow>
                    (if 0 \<le> h \<and> h \<le> 23 \<and> 0 \<le> m \<and> m \<le> 59 then Inr ((h * 60 + m) * us_per_minute)
                     else Inl time_error)
                | _ \<Rightarrow> Inl time_error)
      | _ \<Rightarrow> Inl time_error)"

definition parse_tz :: "tzdb \<Rightarrow> string option \<Rightarrow> string result" where
  "parse_tz db value =
     (let s = strip (case value of None \<Rightarrow> [] | Some v \<Rightarrow> v); name = (if s = [] then ''UTC'' else s) in
      if zone_exists db name then Inr name
      else Inl (ValueError (''unknown time zone '' @ [CHR 0x27] @ name @ [CHR 0x27])))"

definition host_ids_error :: py_error where
  "host_ids_error = ValueError ''host_ids must be a list of host ids''"

fun host_id_item :: "json \<Rightarrow> int set \<Rightarrow> int set result" where
  "host_id_item (JInt i) acc = (if i < 0 then Inl host_ids_error else Inr (insert i acc))"
| "host_id_item (JStr s) acc =
     (if isdigit (strip s) then Inr (insert (int (nat_of_digits (strip s))) acc) else Inl host_ids_error)"
| "host_id_item _ acc = Inl host_ids_error"

definition parse_host_ids_list :: "json \<Rightarrow> int set result" where
  "parse_host_ids_list value =
     (case value of
        JList vs \<Rightarrow>
          bind_result (fold_result host_id_item vs {}) (\<lambda>out.
            if card out > MAX_HOST_IDS then Inl (ValueError ''at most 5000 hosts per window'') else Inr out)
      | _ \<Rightarrow> Inl host_ids_error)"

definition parse_host_ids :: "json \<Rightarrow> int set result" where
  "parse_host_ids value =
     (if value = JNull \<or> value = JStr [] then Inr {}
      else case value of
             JStr s \<Rightarrow> (case loads s of None \<Rightarrow> Inl host_ids_error | Some v \<Rightarrow> parse_host_ids_list v)
           | v \<Rightarrow> parse_host_ids_list v)"

record window_row =
  r_id :: int
  r_name :: "string option"
  r_kind :: "string option"
  r_enabled :: bool
  r_weekdays :: "string option"
  r_start_time :: "string option"
  r_duration_minutes :: "int option"
  r_starts_at :: "datetime option"
  r_ends_at :: "datetime option"
  r_timezone :: "string option"
  r_all_hosts :: bool
  r_host_ids :: "string option"

definition or_str :: "string option \<Rightarrow> string \<Rightarrow> string" where
  "or_str v d = (case v of None \<Rightarrow> d | Some s \<Rightarrow> if s = [] then d else s)"

definition text_json :: "string option \<Rightarrow> json" where
  "text_json v = (case v of None \<Rightarrow> JNull | Some s \<Rightarrow> JStr s)"

definition inert_spec :: "int \<Rightarrow> string \<Rightarrow> window_spec" where
  "inert_spec i n = \<lparr>w_id = i, w_name = n, w_kind = ''invalid'', w_enabled = False, w_weekdays = {},
     w_start_time = None, w_duration_minutes = 0, w_starts_at = None, w_ends_at = None,
     w_tz = ''UTC'', w_all_hosts = False, w_host_ids = {}\<rparr>"

definition try_spec :: "(pyfloat \<Rightarrow> string) \<Rightarrow> tzdb \<Rightarrow> window_row \<Rightarrow> window_spec result" where
  "try_spec frepr db row =
     bind_result (parse_weekdays frepr (text_json (r_weekdays row))) (\<lambda>wd.
     bind_result (if or_str (r_start_time row) [] \<noteq> []
                  then bind_result (parse_start_time frepr (text_json (r_start_time row))) (\<lambda>t. Inr (Some t))
                  else Inr None) (\<lambda>st.
     bind_result (parse_tz db (r_timezone row)) (\<lambda>tz.
     bind_result (parse_host_ids (text_json (r_host_ids row))) (\<lambda>hids.
       Inr \<lparr>w_id = r_id row, w_name = or_str (r_name row) [], w_kind = or_str (r_kind row) ''weekly'',
            w_enabled = r_enabled row, w_weekdays = wd, w_start_time = st,
            w_duration_minutes = (case r_duration_minutes row of None \<Rightarrow> 0 | Some n \<Rightarrow> n),
            w_starts_at = r_starts_at row, w_ends_at = r_ends_at row, w_tz = tz,
            w_all_hosts = r_all_hosts row, w_host_ids = hids\<rparr>))))"

definition spec_from_row :: "(pyfloat \<Rightarrow> string) \<Rightarrow> tzdb \<Rightarrow> window_row \<Rightarrow> window_spec" where
  "spec_from_row frepr db row =
     (case try_spec frepr db row of Inl e \<Rightarrow> inert_spec (r_id row) (or_str (r_name row) []) | Inr w \<Rightarrow> w)"

section \<open>Evaluation\<close>

text \<open>The guard every weekly evaluation starts with.\<close>

definition weekly_ready :: "window_spec \<Rightarrow> bool" where
  "weekly_ready w \<longleftrightarrow> w_kind w = ''weekly'' \<and> w_weekdays w \<noteq> {} \<and> w_start_time w \<noteq> None
     \<and> w_duration_minutes w > 0"

definition slot_start :: "tzdb \<Rightarrow> window_spec \<Rightarrow> int \<Rightarrow> datetime" where
  "slot_start db w day = to_utc db (w_tz w) day (the (w_start_time w))"

definition slot_end :: "tzdb \<Rightarrow> window_spec \<Rightarrow> int \<Rightarrow> datetime" where
  "slot_end db w day = slot_start db w day + minutes (w_duration_minutes w)"

fun weekly_scan :: "tzdb \<Rightarrow> window_spec \<Rightarrow> datetime \<Rightarrow> int list \<Rightarrow> (datetime \<times> datetime) option" where
  "weekly_scan db w now [] = None"
| "weekly_scan db w now (day # ds) =
     (if weekday day \<notin> w_weekdays w then weekly_scan db w now ds
      else if slot_start db w day \<le> now \<and> now < slot_end db w day
        then Some (slot_start db w day, slot_end db w day)
      else weekly_scan db w now ds)"

definition occurrence_at :: "tzdb \<Rightarrow> window_spec \<Rightarrow> datetime \<Rightarrow> (datetime \<times> datetime) option" where
  "occurrence_at db w now =
     (if \<not> w_enabled w then None
      else if w_kind w = ''once'' then
        (case (w_starts_at w, w_ends_at w) of
           (Some s, Some e) \<Rightarrow> if s \<le> now \<and> now < e then Some (s, e) else None
         | _ \<Rightarrow> None)
      else if \<not> weekly_ready w then None
      else (let local_today = local_date db (w_tz w) now;
                lookback = w_duration_minutes w div (24 * 60) + 1
            in weekly_scan db w now (map (\<lambda>back. local_today - back) [0..lookback])))"

fun next_scan :: "tzdb \<Rightarrow> window_spec \<Rightarrow> datetime \<Rightarrow> int list \<Rightarrow> (datetime \<times> datetime) option" where
  "next_scan db w now [] = None"
| "next_scan db w now (day # ds) =
     (if weekday day \<notin> w_weekdays w then next_scan db w now ds
      else if slot_start db w day > now then Some (slot_start db w day, slot_end db w day)
      else next_scan db w now ds)"

definition next_occurrence :: "tzdb \<Rightarrow> window_spec \<Rightarrow> datetime \<Rightarrow> (datetime \<times> datetime) option" where
  "next_occurrence db w now =
     (if \<not> w_enabled w then None
      else if w_kind w = ''once'' then
        (case (w_starts_at w, w_ends_at w) of
           (Some s, Some e) \<Rightarrow> if s > now then Some (s, e) else None
         | _ \<Rightarrow> None)
      else if \<not> weekly_ready w then None
      else (let local_today = local_date db (w_tz w) now in
            next_scan db w now (map (\<lambda>ahead. local_today + ahead) [0..7])))"

definition occurrences_between ::
    "tzdb \<Rightarrow> window_spec \<Rightarrow> datetime \<Rightarrow> datetime \<Rightarrow> (datetime \<times> datetime) list" where
  "occurrences_between db w start0 stop =
     (if \<not> w_enabled w \<or> stop \<le> start0 then []
      else
        (let start = max start0 (stop - days MAX_OCCURRENCE_SPAN_DAYS) in
         if w_kind w = ''once'' then
           (case (w_starts_at w, w_ends_at w) of
              (Some s, Some e) \<Rightarrow> if start \<le> s \<and> s < stop then [(s, e)] else []
            | _ \<Rightarrow> [])
         else if \<not> weekly_ready w then []
         else
           (let first = local_date db (w_tz w) start - 1; last = local_date db (w_tz w) stop + 1 in
            map (\<lambda>day. (slot_start db w day, slot_end db w day))
              (filter (\<lambda>day. weekday day \<in> w_weekdays w
                         \<and> start \<le> slot_start db w day \<and> slot_start db w day < stop) [first..last]))))"

definition is_window_active :: "tzdb \<Rightarrow> window_spec \<Rightarrow> datetime \<Rightarrow> bool" where
  "is_window_active db w now \<longleftrightarrow> occurrence_at db w now \<noteq> None"

definition manual_maintenance :: "ping_host \<Rightarrow> datetime \<Rightarrow> bool" where
  "manual_maintenance h now \<longleftrightarrow> maintenance h \<and>
     (case maintenance_until h of None \<Rightarrow> True | Some until \<Rightarrow> until > now)"

fun active_window_for :: "tzdb \<Rightarrow> ping_host \<Rightarrow> datetime \<Rightarrow> window_spec list \<Rightarrow> window_spec option" where
  "active_window_for db h now [] = None"
| "active_window_for db h now (w # ws) =
     (if covers w (host_id h) \<and> occurrence_at db w now \<noteq> None then Some w
      else active_window_for db h now ws)"

definition is_in_maintenance :: "tzdb \<Rightarrow> ping_host \<Rightarrow> datetime \<Rightarrow> window_spec list \<Rightarrow> bool" where
  "is_in_maintenance db h now ws \<longleftrightarrow>
     manual_maintenance h now \<or> active_window_for db h now ws \<noteq> None"

record maint_window =
  mw_id :: int
  mw_name :: string
  mw_ends_at :: "string option"

record maint_fields =
  mf_maintenance :: bool
  mf_manual :: bool
  mf_window :: "maint_window option"

definition api_fields :: "tzdb \<Rightarrow> ping_host \<Rightarrow> datetime \<Rightarrow> window_spec list \<Rightarrow> maint_fields" where
  "api_fields db h now ws =
     (let manual = manual_maintenance h now; window = active_window_for db h now ws in
      \<lparr>mf_maintenance = manual \<or> window \<noteq> None, mf_manual = manual,
       mf_window = (case window of None \<Rightarrow> None
         | Some w \<Rightarrow> Some \<lparr>mw_id = w_id w, mw_name = w_name w,
             mw_ends_at = (case occurrence_at db w now of None \<Rightarrow> None
               | Some occ \<Rightarrow> Some (isoformat (snd occ) @ ''Z''))\<rparr>)\<rparr>)"

definition load_windows :: "(pyfloat \<Rightarrow> string) \<Rightarrow> tzdb \<Rightarrow> window_row list \<Rightarrow> window_spec list" where
  "load_windows frepr db rows = map (spec_from_row frepr db) (filter r_enabled rows)"

definition maintenance_ids :: "tzdb \<Rightarrow> ping_host list \<Rightarrow> datetime \<Rightarrow> window_spec list \<Rightarrow> int set" where
  "maintenance_ids db hosts now ws = host_id ` {h \<in> set hosts. is_in_maintenance db h now ws}"

definition without_maintenance ::
    "tzdb \<Rightarrow> ping_host list \<Rightarrow> datetime \<Rightarrow> window_spec list \<Rightarrow> ping_host list" where
  "without_maintenance db hosts now ws =
     filter (\<lambda>h. host_id h \<notin> maintenance_ids db hosts now ws) hosts"

section \<open>Well-formed specifications\<close>

definition spec_wf :: "window_spec \<Rightarrow> bool" where
  "spec_wf w \<longleftrightarrow> w_weekdays w \<subseteq> {0..6} \<and> finite (w_host_ids w) \<and> card (w_host_ids w) \<le> MAX_HOST_IDS
     \<and> (\<forall>i \<in> w_host_ids w. 0 \<le> i)
     \<and> (\<forall>t. w_start_time w = Some t \<longrightarrow> 0 \<le> t \<and> t < us_per_day)"

lemma parse_weekdays_range: "parse_weekdays frepr v = Inr wd \<Longrightarrow> wd \<subseteq> {0..6}"
proof -
  have step: "acc' \<subseteq> {0..6}" if "acc \<subseteq> {0..6}" "weekday_item frepr x acc = Inr acc'" for x acc acc'
    using that by (auto simp: weekday_item_def Let_def split: if_splits)
  have "fold_result (weekday_item frepr) items {} = Inr wd \<Longrightarrow> wd \<subseteq> {0..6}" for items wd
    by (erule fold_result_invariant [where P = "\<lambda>s. s \<subseteq> {0..6}"]) (auto dest: step)
  then show "parse_weekdays frepr v = Inr wd \<Longrightarrow> wd \<subseteq> {0..6}"
    by (auto simp: parse_weekdays_def bind_result_Inr_iff split: if_splits)
qed

lemma parse_start_time_range: "parse_start_time frepr v = Inr t \<Longrightarrow> 0 \<le> t \<and> t < us_per_day"
  by (auto simp: parse_start_time_def Let_def split: list.splits if_splits option.splits)

lemma parse_host_ids_range:
  "parse_host_ids v = Inr ids \<Longrightarrow> finite ids \<and> card ids \<le> MAX_HOST_IDS \<and> (\<forall>i \<in> ids. 0 \<le> i)"
proof -
  have step: "finite acc' \<and> (\<forall>i \<in> acc'. 0 \<le> i)"
    if "finite acc \<and> (\<forall>i \<in> acc. 0 \<le> i)" "host_id_item x acc = Inr acc'" for x acc acc'
    using that by (cases x) (auto split: if_splits)
  have "fold_result host_id_item vs {} = Inr ids \<Longrightarrow> finite ids \<and> (\<forall>i \<in> ids. 0 \<le> i)" for vs ids
    by (erule fold_result_invariant [where P = "\<lambda>s. finite s \<and> (\<forall>i \<in> s. 0 \<le> i)"]) (simp, rule step)
  then have "parse_host_ids_list j = Inr ids \<Longrightarrow> finite ids \<and> card ids \<le> MAX_HOST_IDS \<and> (\<forall>i \<in> ids. 0 \<le> i)"
    for j ids
    by (auto simp: parse_host_ids_list_def bind_result_Inr_iff split: json.splits if_splits)
  then show "parse_host_ids v = Inr ids \<Longrightarrow> finite ids \<and> card ids \<le> MAX_HOST_IDS \<and> (\<forall>i \<in> ids. 0 \<le> i)"
    by (auto simp: parse_host_ids_def split: if_splits json.splits option.splits)
qed

lemma try_spec_wf: "try_spec frepr db row = Inr w \<Longrightarrow> spec_wf w"
proof -
  assume "try_spec frepr db row = Inr w"
  then obtain wd st tz hids where
    wd: "parse_weekdays frepr (text_json (r_weekdays row)) = Inr wd" and
    st: "(if or_str (r_start_time row) [] \<noteq> []
          then bind_result (parse_start_time frepr (text_json (r_start_time row))) (\<lambda>t. Inr (Some t))
          else Inr None) = Inr st" and
    hids: "parse_host_ids (text_json (r_host_ids row)) = Inr hids" and
    w: "w_weekdays w = wd" "w_start_time w = st" "w_host_ids w = hids"
    by (auto simp: try_spec_def bind_result_Inr_iff)
  have "\<forall>t. st = Some t \<longrightarrow> 0 \<le> t \<and> t < us_per_day"
    using st parse_start_time_range by (auto simp: bind_result_Inr_iff split: if_splits)
  with wd hids w show ?thesis
    by (simp add: spec_wf_def parse_weekdays_range parse_host_ids_range)
qed

section \<open>Scans\<close>

definition in_slot :: "tzdb \<Rightarrow> window_spec \<Rightarrow> datetime \<Rightarrow> int \<Rightarrow> bool" where
  "in_slot db w now day \<longleftrightarrow> weekday day \<in> w_weekdays w \<and> slot_start db w day \<le> now \<and> now < slot_end db w day"

lemma weekly_scan_Some:
  "weekly_scan db w now ds = Some occ \<Longrightarrow>
   \<exists>day \<in> set ds. in_slot db w now day \<and> occ = (slot_start db w day, slot_end db w day)"
  by (induction db w now ds rule: weekly_scan.induct) (auto simp: in_slot_def split: if_splits)

lemma weekly_scan_None: "weekly_scan db w now ds = None \<longleftrightarrow> (\<forall>day \<in> set ds. \<not> in_slot db w now day)"
  by (induction db w now ds rule: weekly_scan.induct) (auto simp: in_slot_def)

lemma lookback_reaches:
  assumes tod: "0 \<le> tod" "tod < us_per_day" and d: "0 < m"
    and s: "s + off = day * us_per_day + tod" and now: "s \<le> now" "now < s + minutes m"
  shows "\<exists>back \<in> {0..m div (24 * 60) + 1}. day = (now + off) div us_per_day - back"
proof -
  let ?today = "(now + off) div us_per_day"
  have lo: "day \<le> ?today" using assms by (simp add: zdiv_mono1 [of "day * us_per_day" _ us_per_day, simplified])
  have m: "m = 1440 * (m div 1440) + m mod 1440" by simp
  have r: "m mod 1440 \<le> 1439" using pos_mod_bound [of 1440 m] by simp
  have "now + off < day * us_per_day + tod + minutes m" using s now by linarith
  also have "minutes m = (m div 1440) * us_per_day + (m mod 1440) * us_per_minute"
    unfolding minutes_def using m by linarith
  also have "day * us_per_day + tod + ((m div 1440) * us_per_day + (m mod 1440) * us_per_minute)
      < (day + m div 1440 + 2) * us_per_day"
    using tod r by (simp add: algebra_simps)
  finally have "?today < day + m div 1440 + 2" by (simp add: div_less_iff_less_mult)
  then have "?today - day \<in> {0..m div (24 * 60) + 1}" using lo by simp
  then show ?thesis by (intro bexI [of _ "?today - day"]) auto
qed

text \<open>A zone whose offset from UTC is constant.\<close>

definition fixed_zone :: "tzdb \<Rightarrow> string \<Rightarrow> int \<Rightarrow> bool" where
  "fixed_zone db z off \<longleftrightarrow> (\<forall>t. local_date db z t = (t + off) div us_per_day)
     \<and> (\<forall>d tod. to_utc db z d tod = d * us_per_day + tod - off)"

lemma next_scan_first:
  "next_scan db w now ds = Some occ \<Longrightarrow>
   \<exists>pre day post. ds = pre @ day # post \<and> weekday day \<in> w_weekdays w \<and> now < slot_start db w day
     \<and> occ = (slot_start db w day, slot_end db w day)
     \<and> (\<forall>d \<in> set pre. weekday d \<in> w_weekdays w \<longrightarrow> slot_start db w d \<le> now)"
proof (induction db w now ds rule: next_scan.induct)
  case (2 db w now day ds)
  show ?case
  proof (cases "weekday day \<in> w_weekdays w \<and> slot_start db w day > now")
    case True
    with "2.prems" show ?thesis by (intro exI [of _ "[]"] exI [of _ day] exI [of _ ds]) auto
  next
    case False
    with 2 obtain pre d post where
      "ds = pre @ d # post \<and> weekday d \<in> w_weekdays w \<and> now < slot_start db w d
       \<and> occ = (slot_start db w d, slot_end db w d)
       \<and> (\<forall>x \<in> set pre. weekday x \<in> w_weekdays w \<longrightarrow> slot_start db w x \<le> now)"
      by (auto split: if_splits)
    with False show ?thesis by (intro exI [of _ "day # pre"] exI [of _ d] exI [of _ post]) auto
  qed
qed simp

lemma next_scan_None:
  "next_scan db w now ds = None \<longleftrightarrow>
   (\<forall>d \<in> set ds. weekday d \<in> w_weekdays w \<longrightarrow> slot_start db w d \<le> now)"
  by (induction db w now ds rule: next_scan.induct) auto

lemma active_window_iff:
  "active_window_for db h now ws \<noteq> None \<longleftrightarrow>
   (\<exists>w \<in> set ws. covers w (host_id h) \<and> is_window_active db w now)"
  by (induction db h now ws rule: active_window_for.induct) (auto simp: is_window_active_def)

lemma weekday_hits:
  assumes "wd \<in> {0..6}"
  obtains k where "0 \<le> k" and "k < 7" and "weekday (d + k) = wd"
proof -
  let ?k = "(wd - (d + 3)) mod 7"
  have "weekday (d + ?k) = (d + 3 + ?k) mod 7" by (simp add: weekday_def algebra_simps)
  also have "\<dots> = (d + 3 + (wd - (d + 3))) mod 7" by (rule mod_add_right_eq)
  also have "\<dots> = wd" using assms by simp
  finally have "weekday (d + ?k) = wd" .
  then show ?thesis using that [of ?k] by simp
qed

lemma weekday_period: "weekday (d + 7) = weekday d"
  unfolding weekday_def by presburger

section \<open>Properties\<close>

text \<open>
  Every specification read from a table row is well formed: weekdays within 0..6, a start
  time within the day, at most \<open>MAX_HOST_IDS\<close> non-negative host ids; and a row that does not
  parse becomes a window that is never active.
\<close>

theorem spec_from_row_wf:
  "spec_wf (spec_from_row frepr db row) \<and>
   (\<not> is_ok (try_spec frepr db row) \<longrightarrow> (\<forall>now. \<not> is_window_active db (spec_from_row frepr db row) now))"
proof (cases "try_spec frepr db row")
  case (Inl e)
  then show ?thesis
    by (simp add: spec_from_row_def spec_wf_def inert_spec_def is_window_active_def occurrence_at_def
        MAX_HOST_IDS_def)
next
  case (Inr w)
  then show ?thesis by (simp add: spec_from_row_def try_spec_wf)
qed

definition bad_row :: window_row where
  "bad_row = \<lparr>r_id = 4, r_name = Some ''broken'', r_kind = Some ''weekly'', r_enabled = True,
     r_weekdays = Some ''1,9'', r_start_time = Some ''02:00'', r_duration_minutes = Some 60,
     r_starts_at = None, r_ends_at = None, r_timezone = None, r_all_hosts = True, r_host_ids = None\<rparr>"

definition utc_only :: tzdb where
  "utc_only = \<lparr>zone_exists = (\<lambda>z. z = ''UTC''), local_date = (\<lambda>z t. t div us_per_day),
     to_utc = (\<lambda>z d tod. d * us_per_day + tod)\<rparr>"

theorem spec_from_row_wf_witness:
  "\<not> is_ok (try_spec fmt_g utc_only bad_row) \<and> \<not> is_window_active utc_only (spec_from_row fmt_g utc_only bad_row) 0"
proof -
  have bad: "\<not> is_ok (try_spec fmt_g utc_only bad_row)" by code_simp
  with spec_from_row_wf [of fmt_g utc_only bad_row] show ?thesis by blast
qed

text \<open>
  \<open>occurrence_at\<close> only reports real occurrences: the window is enabled, the reported span
  contains the moment asked about, and it is the one-off span, or starts on a configured weekday
  at the configured wall-clock time and lasts exactly the configured duration.
\<close>

theorem occurrence_at_sound:
  assumes "occurrence_at db w now = Some (s, e)"
  shows "w_enabled w \<and> s \<le> now \<and> now < e \<and>
    (w_kind w = ''once'' \<and> w_starts_at w = Some s \<and> w_ends_at w = Some e \<or>
     weekly_ready w \<and> (\<exists>day. weekday day \<in> w_weekdays w
       \<and> s = to_utc db (w_tz w) day (the (w_start_time w)) \<and> e = s + minutes (w_duration_minutes w)))"
  using assms
  by (auto simp: occurrence_at_def Let_def in_slot_def slot_start_def slot_end_def
      dest!: weekly_scan_Some split: if_splits option.splits)

definition sunday_window :: window_spec where
  "sunday_window = \<lparr>w_id = 1, w_name = ''patch'', w_kind = ''weekly'', w_enabled = True, w_weekdays = {6},
     w_start_time = Some (120 * us_per_minute), w_duration_minutes = 60, w_starts_at = None, w_ends_at = None,
     w_tz = ''UTC'', w_all_hosts = True, w_host_ids = {}\<rparr>"

text \<open>Sunday 2026-03-29 02:30 UTC.\<close>

definition sunday_0230 :: datetime where
  "sunday_0230 = 20541 * us_per_day + 150 * us_per_minute"

lemma sunday_active:
  "occurrence_at utc_only sunday_window sunday_0230
     = Some (20541 * us_per_day + 120 * us_per_minute, 20541 * us_per_day + 180 * us_per_minute)"
  by code_simp

theorem occurrence_at_sound_witness:
  "occurrence_at utc_only sunday_window sunday_0230
     = Some (20541 * us_per_day + 120 * us_per_minute, 20541 * us_per_day + 180 * us_per_minute)
   \<and> weekly_ready sunday_window"
  using occurrence_at_sound [OF sunday_active] sunday_active by (simp add: sunday_window_def)

text \<open>
  C16. \<open>occurrence_at\<close> misses no running occurrence while the zone's offset is the same at its start
  and now: a weekly window whose slot on some configured day contains the moment is reported
  active, for overnight and multi-day durations too (the lookback is long enough).
\<close>

theorem occurrence_at_complete:
  assumes "w_enabled w" and "weekly_ready w" and "spec_wf w"
    and "weekday day \<in> w_weekdays w"
    and "slot_start db w day \<le> now" and "now < slot_end db w day"
    and start: "slot_start db w day + off = day * us_per_day + the (w_start_time w)"
    and today: "local_date db (w_tz w) now = (now + off) div us_per_day"
  shows "is_window_active db w now"
proof -
  obtain tod where tod: "w_start_time w = Some tod" "0 \<le> tod" "tod < us_per_day" "0 < w_duration_minutes w"
    and wk: "w_kind w = ''weekly''"
    using assms(2,3) by (auto simp: weekly_ready_def spec_wf_def)
  have "slot_start db w day + off = day * us_per_day + tod" using start tod by simp
  from lookback_reaches [OF tod(2,3,4) this assms(5)] assms(6)
  obtain bk where "bk \<in> {0..w_duration_minutes w div (24 * 60) + 1}"
    and "day = (now + off) div us_per_day - bk"
    by (auto simp: slot_end_def)
  then have "day \<in> set (map (\<lambda>b. local_date db (w_tz w) now - b) [0..w_duration_minutes w div (24 * 60) + 1])"
    using today by auto
  moreover have "in_slot db w now day" using assms(4-6) by (simp add: in_slot_def)
  ultimately have "weekly_scan db w now
      (map (\<lambda>b. local_date db (w_tz w) now - b) [0..w_duration_minutes w div (24 * 60) + 1]) \<noteq> None"
    unfolding weekly_scan_None by blast
  with assms(1,2) wk show ?thesis by (simp add: is_window_active_def occurrence_at_def Let_def)
qed

theorem occurrence_at_complete_witness:
  "weekly_ready sunday_window \<and> spec_wf sunday_window \<and> is_window_active utc_only sunday_window sunday_0230"
proof -
  have "weekly_ready sunday_window" "spec_wf sunday_window" "w_enabled sunday_window"
    by (auto simp: sunday_window_def weekly_ready_def spec_wf_def MAX_HOST_IDS_def)
  then show ?thesis
    using occurrence_at_complete [of sunday_window 20541 utc_only sunday_0230 0]
    by (simp add: sunday_window_def weekday_def slot_start_def slot_end_def utc_only_def sunday_0230_def
        minutes_def)
qed

definition spring_forward :: tzdb where
  "spring_forward =
     (let change = 20541 * us_per_day + 60 * us_per_minute; hour = 60 * us_per_minute in
      \<lparr>zone_exists = (\<lambda>z. True),
       local_date = (\<lambda>z t. (t + (if t < change then hour else 2 * hour)) div us_per_day),
       to_utc = (\<lambda>z d tod. let wall = d * us_per_day + tod in
         if wall - hour < change then wall - hour
         else if change \<le> wall - 2 * hour then wall - 2 * hour else wall - hour)\<rparr>)"

definition long_window :: window_spec where
  "long_window = sunday_window\<lparr>w_weekdays := {5}, w_start_time := Some (1410 * us_per_minute),
     w_duration_minutes := 1430\<rparr>"

definition monday_0015 :: datetime where
  "monday_0015 = 20541 * us_per_day + 1335 * us_per_minute"

text \<open>
  Across a spring-forward change the lookback is one day short: a window of 23 h 50 min that
  starts Saturday 23:30 is still running on Monday 00:15 local time, two local days later, but
  only today and yesterday are searched, so the last minutes of the window are reported inactive.
\<close>

theorem dst_tail_missed:
  "weekday 20540 \<in> w_weekdays long_window \<and>
   slot_start spring_forward long_window 20540 \<le> monday_0015 \<and>
   monday_0015 < slot_end spring_forward long_window 20540 \<and>
   occurrence_at spring_forward long_window monday_0015 = None"
proof (intro conjI)
  show "occurrence_at spring_forward long_window monday_0015 = None" by code_simp
qed (simp_all add: long_window_def sunday_window_def weekday_def slot_start_def slot_end_def
      spring_forward_def monday_0015_def minutes_def Let_def)

text \<open>
  \<open>next_occurrence\<close> of an enabled weekly window in a zone with a constant offset always exists,
  starts strictly after the moment, and is the earliest: no configured slot starts in between.
\<close>

theorem next_occurrence_earliest:
  assumes zone: "fixed_zone db (w_tz w) off" and "w_enabled w" and ready: "weekly_ready w" and wf: "spec_wf w"
  shows "\<exists>s e. next_occurrence db w now = Some (s, e) \<and> now < s \<and>
    (\<forall>day. weekday day \<in> w_weekdays w \<longrightarrow> \<not> (now < slot_start db w day \<and> slot_start db w day < s))"
proof -
  obtain tod where tod: "w_start_time w = Some tod" "0 \<le> tod" "tod < us_per_day"
    and wk: "w_kind w = ''weekly''" and ne: "w_weekdays w \<noteq> {}"
    using ready wf by (auto simp: weekly_ready_def spec_wf_def)
  define today where "today = (now + off) div us_per_day"
  have start: "slot_start db w d = d * us_per_day + tod - off" for d
    using zone tod by (simp add: slot_start_def fixed_zone_def)
  have next_eq: "next_occurrence db w now = next_scan db w now (map (\<lambda>k. today + k) [0..7])"
    using assms(2) wk ready zone by (simp add: next_occurrence_def fixed_zone_def today_def Let_def)
  have bounds: "today * us_per_day \<le> now + off" "now + off < (today + 1) * us_per_day"
    using div_mult_mod_eq [of "now + off" us_per_day] pos_mod_bound [of us_per_day "now + off"]
      pos_mod_sign [of us_per_day "now + off"] unfolding today_def by (auto simp: algebra_simps)
  obtain wd where wd: "wd \<in> w_weekdays w" "wd \<in> {0..6}" using ne wf unfolding spec_wf_def by blast
  obtain k where k: "0 \<le> k" "k < 7" "weekday (today + 1 + k) = wd"
    using weekday_hits [OF wd(2), of "today + 1"] by blast
  have "(today + 1) * us_per_day \<le> (today + 1 + k) * us_per_day" using k(1) by simp
  then have "now < slot_start db w (today + 1 + k)"
    unfolding start using bounds(2) tod(2) by linarith
  moreover have "today + 1 + k \<in> set (map (\<lambda>k. today + k) [0..7])"
    using k(1,2) by (auto intro!: image_eqI [of _ _ "1 + k"])
  ultimately have "next_scan db w now (map (\<lambda>k. today + k) [0..7]) \<noteq> None"
    using wd(1) k(3) by (auto simp: next_scan_None not_le)
  then obtain occ where occ: "next_scan db w now (map (\<lambda>k. today + k) [0..7]) = Some occ" by blast
  from next_scan_first [OF occ] obtain pre day post where
    split: "map (\<lambda>k. today + k) [0..7] = pre @ day # post"
    and day: "weekday day \<in> w_weekdays w" "now < slot_start db w day"
      "occ = (slot_start db w day, slot_end db w day)"
    and pre: "\<forall>d \<in> set pre. weekday d \<in> w_weekdays w \<longrightarrow> slot_start db w d \<le> now"
    by blast
  have before: "d \<in> set pre" if "today \<le> d" "d < day" for d
  proof -
    have len: "length pre < length [0..7 :: int]"
      by (metis split length_map length_append length_Cons less_add_Suc1 add_Suc_right)
    have nth: "(map (\<lambda>k. today + k) [0..7]) ! i = today + int i" if "i < length [0..7 :: int]" for i
      using that by (simp add: nth_upto)
    have "day = today + int (length pre)" using nth [OF len] split by simp
    then have i: "nat (d - today) < length pre" using that by linarith
    then have "pre ! nat (d - today) = today + int (nat (d - today))"
      using nth [of "nat (d - today)"] len split by (simp add: nth_append)
    with that i show ?thesis by (metis nth_mem diff_add_cancel add.commute int_nat_eq le_diff_iff' diff_ge_0_iff_ge)
  qed
  have "\<not> (now < slot_start db w d \<and> slot_start db w d < slot_start db w day)"
    if "weekday d \<in> w_weekdays w" for d
  proof
    assume a: "now < slot_start db w d \<and> slot_start db w d < slot_start db w day"
    have "d < day" using a start by simp
    moreover have "today \<le> d"
    proof -
      have "today * us_per_day < (d + 1) * us_per_day"
        using a start bounds(1) tod by (simp add: algebra_simps)
      then show ?thesis by simp
    qed
    ultimately show False using before pre that a by auto
  qed
  with occ day next_eq show ?thesis by auto
qed

theorem next_occurrence_earliest_witness:
  "\<exists>s e. next_occurrence utc_only sunday_window sunday_0230 = Some (s, e) \<and> sunday_0230 < s"
proof -
  have "fixed_zone utc_only (w_tz sunday_window) 0" by (simp add: fixed_zone_def utc_only_def)
  moreover have "weekly_ready sunday_window" "spec_wf sunday_window" "w_enabled sunday_window"
    by (auto simp: sunday_window_def weekly_ready_def spec_wf_def MAX_HOST_IDS_def)
  ultimately show ?thesis using next_occurrence_earliest [of utc_only sunday_window 0 sunday_0230] by blast
qed

text \<open>
  The consumers agree: the API's \<open>maintenance\<close> field is \<open>is_in_maintenance\<close>, which is the manual
  flag (not past its end) or an active window covering the host, and \<open>without_maintenance\<close> keeps, in
  order, exactly the hosts for which it is false.
\<close>

theorem maintenance_consistent:
  assumes "distinct (map host_id hosts)"
  shows "mf_maintenance (api_fields db h now ws) = is_in_maintenance db h now ws \<and>
    (is_in_maintenance db h now ws \<longleftrightarrow> manual_maintenance h now \<or>
       (\<exists>w \<in> set ws. covers w (host_id h) \<and> is_window_active db w now)) \<and>
    without_maintenance db hosts now ws = filter (\<lambda>h. \<not> is_in_maintenance db h now ws) hosts"
proof -
  have "without_maintenance db hosts now ws = filter (\<lambda>h. \<not> is_in_maintenance db h now ws) hosts"
    unfolding without_maintenance_def
  proof (rule filter_cong [OF refl])
    fix x assume "x \<in> set hosts"
    then show "(host_id x \<notin> maintenance_ids db hosts now ws) = (\<not> is_in_maintenance db x now ws)"
      using assms by (auto simp: maintenance_ids_def distinct_map inj_on_def)
  qed
  then show ?thesis
    by (simp add: api_fields_def is_in_maintenance_def active_window_iff [symmetric] Let_def)
qed

theorem maintenance_consistent_witness:
  "distinct (map host_id [plain_host 1 ''a'', (plain_host 2 ''b'')\<lparr>maintenance := True\<rparr>]) \<and>
   map host_id (without_maintenance utc_only [plain_host 1 ''a'', (plain_host 2 ''b'')\<lparr>maintenance := True\<rparr>]
      sunday_0230 []) = [1]"
proof -
  let ?hs = "[plain_host 1 ''a'', (plain_host 2 ''b'')\<lparr>maintenance := True\<rparr>]"
  have d: "distinct (map host_id ?hs)" by (simp add: plain_host_def)
  have "without_maintenance utc_only ?hs sunday_0230 [] = filter (\<lambda>h. \<not> is_in_maintenance utc_only h sunday_0230 []) ?hs"
    using maintenance_consistent [OF d, of utc_only "plain_host 1 ''a''" sunday_0230 "[]"] by blast
  with d show ?thesis by (simp add: is_in_maintenance_def manual_maintenance_def plain_host_def)
qed

end
