(* ===== verification/Host_State.thy ===== *)
theory Host_State
  imports Topology Probes Maintenance
begin

text \<open>
  \<^verbatim>\<open>backend/services/host_state.py\<close>: the one answer to "what state is this host in".
  \<open>evaluate\<close> is the rule for one host, \<open>host_states\<close> the batch over all hosts with its inputs
  (check rows, windows, agents, settings, incidents, topology) passed in; \<open>worst\<close>, \<open>counts\<close> and
  \<open>reasons_by_state\<close> summarise states for lists and cards.
\<close>

section \<open>States\<close>

definition STATES :: "string list" where
  "STATES = [''down'', ''warning'', ''degraded'', ''unknown'', ''maintenance'', ''up'', ''disabled'']"

definition OBSERVED_STATES :: "string set" where
  "OBSERVED_STATES = {''up'', ''degraded'', ''warning'', ''down''}"

definition SERVICE_RULES :: "string set" where
  "SERVICE_RULES = {''agent_service'', ''port_error''}"

definition non_degrading :: "string \<Rightarrow> bool" where
  "non_degrading r \<longleftrightarrow> startswith r ''learned_precursor'' \<or> startswith r ''self_check''"

definition CORE_GRACE_FACTOR :: rat where "CORE_GRACE_FACTOR = 3"
definition MIN_CORE_WINDOW_SECONDS :: rat where "MIN_CORE_WINDOW_SECONDS = 180"
definition DEFAULT_PING_INTERVAL_SECONDS :: int where "DEFAULT_PING_INTERVAL_SECONDS = 60"

record host_state =
  hs_state :: string
  hs_reason :: string
  observed_at :: "datetime option"
  reason_group :: "string option"

definition mk :: "string \<Rightarrow> string \<Rightarrow> datetime option \<Rightarrow> string \<Rightarrow> host_state" where
  "mk s r obs g = \<lparr>hs_state = s, hs_reason = r, observed_at = obs, reason_group = Some g\<rparr>"

definition iso :: "datetime option \<Rightarrow> string option" where
  "iso v = map_option (\<lambda>t. isoformat t @ ''Z'') v"

record host_fields =
  f_state :: string
  f_state_reason :: string
  f_observed_at :: "string option"

definition state_fields :: "host_state \<Rightarrow> host_fields" where
  "state_fields s = \<lparr>f_state = hs_state s, f_state_reason = hs_reason s, f_observed_at = iso (observed_at s)\<rparr>"

definition rank :: "string \<Rightarrow> nat" where
  "rank s = length (takeWhile (\<lambda>x. x \<noteq> s) STATES)"

definition worst :: "string list \<Rightarrow> string option" where
  "worst states = (case sort_key rank states of [] \<Rightarrow> None | s # _ \<Rightarrow> Some s)"

definition legacy_status :: "string \<Rightarrow> string" where
  "legacy_status s = (if s \<in> {''up'', ''degraded'', ''warning''} then ''online''
     else if s = ''down'' then ''offline'' else s)"

definition core_window_seconds :: "int option \<Rightarrow> rat" where
  "core_window_seconds ping_interval =
     max MIN_CORE_WINDOW_SECONDS
       (of_int (interval_or ping_interval DEFAULT_PING_INTERVAL_SECONDS) * CORE_GRACE_FACTOR)"

definition fmt_age :: "rat \<Rightarrow> string" where
  "fmt_age x = (let s = max 0 (trunc x) in
     if s < 120 then show_int s @ '' s''
     else if s < 7200 then show_int (s div 60) @ '' min''
     else if s < 172800 then show_int (s div 3600) @ '' h''
     else show_int (s div 86400) @ '' d'')"

definition json_dict :: "string option \<Rightarrow> (string \<times> json) list" where
  "json_dict raw = (case raw of None \<Rightarrow> [] | Some t \<Rightarrow>
     if t = [] then [] else (case loads t of Some (JDict d) \<Rightarrow> d | _ \<Rightarrow> []))"

section \<open>The rule for one host\<close>

record open_inc =
  oi_id :: int
  oi_rule :: string
  oi_title :: string
  oi_severity :: string

definition maintenance_state :: "ping_host \<Rightarrow> maint_fields \<Rightarrow> datetime option \<Rightarrow> host_state" where
  "maintenance_state h m obs =
     (case mf_window m of
        Some w \<Rightarrow>
          (let until = (case mw_ends_at w of None \<Rightarrow> []
                        | Some ends \<Rightarrow> if ends = [] then [] else '' until '' @ slice 11 16 ends @ '' UTC'');
               name = (if mw_name w = [] then ''maintenance window'' else mw_name w)
           in mk ''maintenance'' (''Maintenance window '' @ quoted name @ until) obs (''window '' @ name))
      | None \<Rightarrow>
          mk ''maintenance''
            (case maintenance_until h of
               Some u \<Rightarrow> ''Maintenance (manual) until '' @ iso_date (day_of u) @ '' '' @ hh_mm u @ '' UTC''
             | None \<Rightarrow> ''Maintenance (manual)'') obs ''manual maintenance'')"

definition stale_probe_state :: "probe_state \<Rightarrow> rat \<Rightarrow> datetime option \<Rightarrow> host_state" where
  "stale_probe_state p now_ts obs =
     (case last_report p of
        None \<Rightarrow> mk ''unknown'' (''Probe '' @ ps_name p @ '' has never reported'') obs
                  (''probe '' @ ps_name p @ '' never reported'')
      | Some t \<Rightarrow>
          (let silent = fmt_age (now_ts - t) in
           mk ''unknown'' (''Probe '' @ ps_name p @ '' silent '' @ silent @ '' (threshold ''
                @ fmt_age (staleness_window (interval_seconds p)) @ '')'') obs
              (''probe '' @ ps_name p @ '' silent '' @ silent)))"

text \<open>The state of a host with a fresh successful check.\<close>

definition answering_state ::
    "(pyfloat \<Rightarrow> string) \<Rightarrow> ping_host \<Rightarrow> pyfloat option \<Rightarrow> datetime option \<Rightarrow> pyfloat option
     \<Rightarrow> open_inc list \<Rightarrow> host_state" where
  "answering_state frepr h latency obs global_threshold incidents =
     (let errors = json_dict (check_errors h) in
      case sort_key fst errors of
        (label, why) # _ \<Rightarrow>
          (let more = (if length errors > 1 then '' (+'' @ show_int (int (length errors) - 1) @ '' more)'' else [])
           in mk ''warning'' (str_upper label @ '' check: '' @ py_str frepr why @ more) obs
                (str_upper label @ '' check failing''))
      | [] \<Rightarrow>
          (if port_error h then mk ''warning'' ''Service check failed'' obs ''service check failing''
           else case find (\<lambda>i. oi_rule i \<in> SERVICE_RULES) incidents of
             Some i \<Rightarrow> mk ''warning'' (if oi_title i = [] then ''Service failing'' else oi_title i) obs ''service failing''
           | None \<Rightarrow>
               (let limit = (case latency_threshold_ms h of None \<Rightarrow> global_threshold | Some t \<Rightarrow> Some t) in
                if (case (latency, limit) of (Some l, Some t) \<Rightarrow> flt_less t l | _ \<Rightarrow> False)
                then mk ''degraded'' (''Latency '' @ fmt_1f (the latency) @ '' ms > '' @ fmt_g (the limit) @ '' ms'')
                       obs ''latency over threshold''
                else case find (\<lambda>i. oi_rule i \<notin> SERVICE_RULES \<and> \<not> non_degrading (oi_rule i)) incidents of
                  Some i \<Rightarrow>
                    mk ''degraded'' (strip (''In incident #'' @ show_int (oi_id i) @ '': '' @ oi_title i)) obs
                       (''incident #'' @ show_int (oi_id i))
                | None \<Rightarrow>
                    \<lparr>hs_state = ''up'',
                     hs_reason = ''Check OK'' @ (case latency of None \<Rightarrow> []
                       | Some l \<Rightarrow> [CHR '' '', CHR 0xC2, CHR 0xB7, CHR '' ''] @ fmt_1f l @ '' ms''),
                     observed_at = obs, reason_group = None\<rparr>)))"

definition judge_result ::
    "(pyfloat \<Rightarrow> string) \<Rightarrow> ping_host \<Rightarrow> bool option \<Rightarrow> pyfloat option \<Rightarrow> datetime option \<Rightarrow> rat option
     \<Rightarrow> rat \<Rightarrow> string \<Rightarrow> pyfloat option \<Rightarrow> open_inc list \<Rightarrow> string option \<Rightarrow> host_state" where
  "judge_result frepr h success latency obs age window checker global_threshold incidents upstream =
     (if success = None \<or> obs = None
      then mk ''unknown'' ''No check result yet'' obs ''no check result yet''
      else if (case age of None \<Rightarrow> False | Some a \<Rightarrow> a > window)
      then mk ''unknown'' (''No check result for '' @ fmt_age (the age) @ '' ('' @ checker @ '', threshold ''
             @ fmt_age window @ '')'') obs ''no recent check result''
      else if success = Some False
      then (case upstream of
              Some u \<Rightarrow> (if u \<noteq> [] then mk ''down'' (''Not responding, behind '' @ u @ '' (down)'') obs (''behind '' @ u)
                         else mk ''down'' ''Last check failed'' obs ''check failed'')
            | None \<Rightarrow> mk ''down'' ''Last check failed'' obs ''check failed'')
      else answering_state frepr h latency obs global_threshold incidents)"

definition evaluate ::
    "(pyfloat \<Rightarrow> string) \<Rightarrow> ping_host \<Rightarrow> check_row option \<Rightarrow> datetime \<Rightarrow> maint_fields option
     \<Rightarrow> probe_state option \<Rightarrow> bool \<Rightarrow> int option \<Rightarrow> pyfloat option \<Rightarrow> open_inc list \<Rightarrow> string option
     \<Rightarrow> host_state" where
  "evaluate frepr h latest now maint probe probe_missing ping_interval global_threshold incidents upstream =
     (let obs = (case latest of None \<Rightarrow> None | Some r \<Rightarrow> row_timestamp r);
          success = (case latest of None \<Rightarrow> None | Some r \<Rightarrow> map_option (\<lambda>n. n \<noteq> 0) (row_success r));
          latency = (case latest of None \<Rightarrow> None | Some r \<Rightarrow> row_latency r);
          now_ts = total_seconds now;
          age = map_option (\<lambda>t. total_seconds (now - t)) obs
      in if \<not> enabled h then mk ''disabled'' ''Monitoring disabled'' obs ''monitoring disabled''
         else if (case maint of None \<Rightarrow> False | Some m \<Rightarrow> mf_maintenance m)
           then maintenance_state h (the maint) obs
         else if probe_id h \<noteq> None then
           (case probe of
              None \<Rightarrow> mk ''unknown'' ''Assigned probe no longer exists'' obs ''probe missing''
            | Some p \<Rightarrow>
                (if probe_missing then mk ''unknown'' ''Assigned probe no longer exists'' obs ''probe missing''
                 else if is_stale p now_ts then stale_probe_state p now_ts obs
                 else judge_result frepr h success latency obs age (result_window (interval_seconds p))
                        (''probe '' @ ps_name p) global_threshold incidents upstream))
         else judge_result frepr h success latency obs age (core_window_seconds ping_interval) ''core''
                global_threshold incidents upstream)"

section \<open>Batch evaluation\<close>

fun inc_host_item :: "json \<Rightarrow> int list \<Rightarrow> int list result" where
  "inc_host_item (JBool b) out = Inr out"
| "inc_host_item (JFloat PosInf) out = Inl OverflowError"
| "inc_host_item (JFloat NegInf) out = Inl OverflowError"
| "inc_host_item v out =
     Inr (case to_int v of None \<Rightarrow> out | Some i \<Rightarrow> if i > 0 then out @ [i] else out)"

text \<open>\<open>parse_host_ids\<close> of this module: \<open>Incident.host_ids\<close> to ids, \<open>None\<close> is unknown.\<close>

definition incident_host_ids :: "string option \<Rightarrow> int list option result" where
  "incident_host_ids raw =
     (case raw of None \<Rightarrow> Inr None
      | Some t \<Rightarrow>
          (if t = [] then Inr None
           else case loads t of
                  Some (JList vs) \<Rightarrow> bind_result (fold_result inc_host_item vs []) (\<lambda>out. Inr (Some out))
                | _ \<Rightarrow> Inr None))"

definition note_incident :: "incident \<Rightarrow> (int, open_inc list) dict \<Rightarrow> (int, open_inc list) dict result" where
  "note_incident i out =
     bind_result (incident_host_ids (inc_host_ids i)) (\<lambda>ids.
       Inr (foldl (\<lambda>d hid. dset d hid (dget_or d hid [] @
              [\<lparr>oi_id = inc_id i, oi_rule = inc_rule i, oi_title = inc_title i, oi_severity = inc_severity i\<rparr>]))
            out (case ids of None \<Rightarrow> [] | Some xs \<Rightarrow> xs)))"

definition open_incidents_by_host :: "incident list \<Rightarrow> (int, open_inc list) dict result" where
  "open_incidents_by_host rows =
     fold_result note_incident
       (filter (\<lambda>i. inc_status i \<in> {''open'', ''acknowledged''} \<and> inc_host_ids i \<noteq> None) rows) []"

definition probe_state_of :: "probe_agent \<Rightarrow> probe_state" where
  "probe_state_of a = agent_probe total_seconds a"

definition load_probes :: "ping_host list \<Rightarrow> probe_agent list \<Rightarrow> (int, probe_state) dict" where
  "load_probes hosts agents = probes_of total_seconds hosts agents"

definition thresholds :: "string \<Rightarrow> string \<Rightarrow> int \<times> pyfloat option" where
  "thresholds ping_interval_setting latency_setting =
     ((if ping_interval_setting = [] then 60
       else case parse_int ping_interval_setting of None \<Rightarrow> DEFAULT_PING_INTERVAL_SECONDS | Some n \<Rightarrow> n),
      (let raw = strip latency_setting in if raw = [] then None else parse_float raw))"

fun first_down :: "int list \<Rightarrow> int set \<Rightarrow> (int, string) dict \<Rightarrow> string option" where
  "first_down [] down names = None"
| "first_down (a # as) down names =
     (if a \<in> down then Some (dget_or names a (''host '' @ show_int a)) else first_down as down names)"

definition upstream_down :: "int \<Rightarrow> topology \<Rightarrow> int set \<Rightarrow> (int, string) dict \<Rightarrow> string option" where
  "upstream_down hid t down names = (if t = [] then None else first_down (get_ancestors t hid) down names)"

datatype topo_arg = NoTopology | Auto "topology result" | Given topology

record batch =
  b_now :: datetime
  b_latest :: "(int, check_row) dict"
  b_windows :: "window_spec list"
  b_incidents :: "(int, open_inc list) dict"
  b_agents :: "probe_agent list"
  b_ping_interval :: int
  b_global_latency :: "pyfloat option"

definition first_pass :: "(pyfloat \<Rightarrow> string) \<Rightarrow> tzdb \<Rightarrow> batch \<Rightarrow> (int, probe_state) dict \<Rightarrow> ping_host \<Rightarrow> host_state" where
  "first_pass frepr db b probes h =
     evaluate frepr h (dget (b_latest b) (host_id h)) (b_now b) (Some (api_fields db h (b_now b) (b_windows b)))
       (if id_ok (probe_id h) then dget probes (the (probe_id h)) else None)
       (id_ok (probe_id h) \<and> dget probes (the (probe_id h)) = None)
       (Some (b_ping_interval b)) (b_global_latency b) (dget_or (b_incidents b) (host_id h) []) None"

definition name_upstream ::
    "topology \<Rightarrow> int set \<Rightarrow> (int, string) dict \<Rightarrow> int \<times> host_state \<Rightarrow> int \<times> host_state" where
  "name_upstream t down names e = (case e of (hid, st) \<Rightarrow>
     (if hid \<notin> down then (hid, st)
      else case upstream_down hid t down names of
             None \<Rightarrow> (hid, st)
           | Some n \<Rightarrow> (if n = [] then (hid, st)
                        else (hid, mk ''down'' (''Not responding, behind '' @ n @ '' (down)'') (observed_at st)
                                      (''behind '' @ n)))))"

definition host_states ::
    "(pyfloat \<Rightarrow> string) \<Rightarrow> tzdb \<Rightarrow> batch \<Rightarrow> topo_arg \<Rightarrow> ping_host list \<Rightarrow> (int, host_state) dict" where
  "host_states frepr db b targ hosts =
     (if hosts = [] then []
      else
        (let probes = load_probes hosts (b_agents b);
             names = foldl (\<lambda>d h. dset d (host_id h) (host_name h)) [] hosts;
             first = foldl (\<lambda>d h. dset d (host_id h) (first_pass frepr db b probes h)) [] hosts;
             down = fst ` set (filter (\<lambda>(_, st). hs_state st = ''down'') first)
         in case targ of
              NoTopology \<Rightarrow> first
            | Given t \<Rightarrow> (if t = [] then first else map (name_upstream t down names) first)
            | Auto r \<Rightarrow> (case r of Inl e \<Rightarrow> first | Inr t \<Rightarrow> map (name_upstream t down names) first)))"

definition counts :: "host_state list \<Rightarrow> (string, nat) dict" where
  "counts states = map (\<lambda>s. (s, count_list (map hs_state states) s)) STATES"

definition bump :: "(string, nat) dict \<Rightarrow> string \<Rightarrow> (string, nat) dict" where
  "bump c k = dset c k (dget_or c k 0 + 1)"

definition reason_groups :: "host_state list \<Rightarrow> (string, (string, nat) dict) dict" where
  "reason_groups states =
     foldl (\<lambda>g s. case reason_group s of None \<Rightarrow> g
        | Some t \<Rightarrow> if t = [] then g else dset g (hs_state s) (bump (dget_or g (hs_state s) []) t)) [] states"

definition most_common :: "nat \<Rightarrow> (string, nat) dict \<Rightarrow> (string \<times> nat) list" where
  "most_common n c = take n (sort_key (\<lambda>(_, k). - int k) c)"

definition reasons_by_state :: "host_state list \<Rightarrow> nat \<Rightarrow> (string, (string \<times> nat) list) dict" where
  "reasons_by_state states n = map (\<lambda>(st, c). (st, most_common n c)) (reason_groups states)"

section \<open>The documented rule table\<close>

text \<open>
  The specification of \<open>evaluate\<close> in the words of the module's documentation: a list of
  conditions, first match wins. \<open>observation\<close> is what a current observation of the host says:
  nothing when nobody observes it now, otherwise whether the newest check succeeded.
\<close>

definition observer_window :: "ping_host \<Rightarrow> probe_state option \<Rightarrow> bool \<Rightarrow> int option \<Rightarrow> datetime \<Rightarrow> rat option" where
  "observer_window h probe probe_missing ping_interval now =
     (if probe_id h = None then Some (core_window_seconds ping_interval)
      else case probe of
             None \<Rightarrow> None
           | Some p \<Rightarrow> (if probe_missing \<or> is_stale p (total_seconds now) then None
                        else Some (result_window (interval_seconds p))))"

definition observation :: "check_row option \<Rightarrow> datetime \<Rightarrow> rat option \<Rightarrow> bool option" where
  "observation latest now window =
     (case (window, latest) of
        (Some w, Some r) \<Rightarrow>
          (case (row_success r, row_timestamp r) of
             (Some s, Some t) \<Rightarrow> (if total_seconds (now - t) \<le> w then Some (s \<noteq> 0) else None)
           | _ \<Rightarrow> None)
      | _ \<Rightarrow> None)"

definition service_failing :: "ping_host \<Rightarrow> open_inc list \<Rightarrow> bool" where
  "service_failing h incidents \<longleftrightarrow>
     json_dict (check_errors h) \<noteq> [] \<or> port_error h \<or> (\<exists>i \<in> set incidents. oi_rule i \<in> SERVICE_RULES)"

definition too_slow :: "ping_host \<Rightarrow> check_row option \<Rightarrow> pyfloat option \<Rightarrow> bool" where
  "too_slow h latest global_threshold \<longleftrightarrow>
     (\<exists>r l t. latest = Some r \<and> row_latency r = Some l \<and>
        (if latency_threshold_ms h = None then global_threshold else latency_threshold_ms h) = Some t \<and>
        flt_less t l)"

definition in_degrading_incident :: "open_inc list \<Rightarrow> bool" where
  "in_degrading_incident incidents \<longleftrightarrow>
     (\<exists>i \<in> set incidents. oi_rule i \<notin> SERVICE_RULES \<and> \<not> non_degrading (oi_rule i))"

definition rule_table ::
    "ping_host \<Rightarrow> check_row option \<Rightarrow> bool \<Rightarrow> bool option \<Rightarrow> pyfloat option \<Rightarrow> open_inc list \<Rightarrow> (bool \<times> string) list" where
  "rule_table h latest in_maint seen global_threshold incidents =
     [(\<not> enabled h, ''disabled''), (in_maint, ''maintenance''), (seen = None, ''unknown''),
      (seen = Some False, ''down''), (service_failing h incidents, ''warning''),
      (too_slow h latest global_threshold \<or> in_degrading_incident incidents, ''degraded''), (True, ''up'')]"

definition first_match :: "(bool \<times> string) list \<Rightarrow> string" where
  "first_match rules = snd (hd (filter fst rules))"

lemma mk_fields [simp]: "hs_state (mk s r obs g) = s" "hs_reason (mk s r obs g) = r"
    "observed_at (mk s r obs g) = obs" "reason_group (mk s r obs g) = Some g"
  by (simp_all add: mk_def)

lemma sort_key_Nil_iff: "sort_key f xs = [] \<longleftrightarrow> xs = []"
  by (metis length_0_conv length_sort)

lemma find_None_alt: "find P xs = None \<longleftrightarrow> (\<forall>x \<in> set xs. \<not> P x)"
  by (auto simp: find_None_iff)

lemma answering_state_cases:
  "hs_state (answering_state frepr h latency obs global_threshold incidents) =
   (if sort_key fst (json_dict (check_errors h)) \<noteq> [] \<or> port_error h \<or> find (\<lambda>i. oi_rule i \<in> SERVICE_RULES) incidents \<noteq> None
    then ''warning''
    else if (case (latency, case latency_threshold_ms h of None \<Rightarrow> global_threshold | Some t \<Rightarrow> Some t) of
               (Some l, Some t) \<Rightarrow> flt_less t l | _ \<Rightarrow> False)
       \<or> find (\<lambda>i. oi_rule i \<notin> SERVICE_RULES \<and> \<not> non_degrading (oi_rule i)) incidents \<noteq> None
    then ''degraded'' else ''up'')"
  unfolding answering_state_def Let_def
  by (simp split: list.split option.split prod.split)

lemma answering_state_state:
  "hs_state (answering_state frepr h latency obs global_threshold incidents) =
   (if service_failing h incidents then ''warning''
    else if (\<exists>l t. latency = Some l \<and>
         (if latency_threshold_ms h = None then global_threshold else latency_threshold_ms h) = Some t \<and> flt_less t l)
       \<or> in_degrading_incident incidents then ''degraded'' else ''up'')"
proof -
  have lat: "(case (latency, case latency_threshold_ms h of None \<Rightarrow> global_threshold | Some t \<Rightarrow> Some t) of
       (Some l, Some t) \<Rightarrow> flt_less t l | _ \<Rightarrow> False) \<longleftrightarrow>
     (\<exists>l t. latency = Some l \<and>
         (if latency_threshold_ms h = None then global_threshold else latency_threshold_ms h) = Some t \<and> flt_less t l)"
    by (cases latency; cases "latency_threshold_ms h"; cases global_threshold) auto
  show ?thesis
    unfolding answering_state_cases lat
    by (simp add: service_failing_def in_degrading_incident_def sort_key_Nil_iff find_None_alt Bex_def) blast
qed

lemma judge_result_state:
  "hs_state (judge_result frepr h success latency obs age window checker global_threshold incidents upstream) =
   (if success = None \<or> obs = None \<or> (\<exists>a. age = Some a \<and> a > window) then ''unknown''
    else if success = Some False then ''down''
    else hs_state (answering_state frepr h latency obs global_threshold incidents))"
  by (auto simp: judge_result_def split: option.splits)

lemma answering_observed_at:
  "observed_at (answering_state frepr h latency obs global_threshold incidents) = obs"
  unfolding answering_state_def Let_def by (simp split: list.split option.split prod.split)

lemma evaluate_observed_at:
  "observed_at (evaluate frepr h latest now maint probe pm iv gt incidents upstream) =
   (case latest of None \<Rightarrow> None | Some r \<Rightarrow> row_timestamp r)"
proof -
  have "observed_at (judge_result frepr h s l obs a w c gt incidents upstream) = obs" for s l obs a w c
    by (simp add: judge_result_def answering_observed_at split: option.split)
  moreover have "observed_at (maintenance_state h m obs) = obs" for m obs
    by (simp add: maintenance_state_def Let_def split: option.split)
  moreover have "observed_at (stale_probe_state p n obs) = obs" for p n obs
    by (simp add: stale_probe_state_def Let_def split: option.split)
  ultimately show ?thesis by (simp add: evaluate_def Let_def split: option.split)
qed

lemma evaluate_state:
  "hs_state (evaluate frepr h latest now maint probe probe_missing ping_interval global_threshold incidents upstream) =
   first_match (rule_table h latest (case maint of None \<Rightarrow> False | Some m \<Rightarrow> mf_maintenance m)
     (observation latest now (observer_window h probe probe_missing ping_interval now)) global_threshold incidents)"
proof (cases "enabled h \<and> \<not> (case maint of None \<Rightarrow> False | Some m \<Rightarrow> mf_maintenance m)")
  case False
  then show ?thesis
    by (auto simp: evaluate_def first_match_def rule_table_def maintenance_state_def Let_def split: option.splits)
next
  case True
  have judged: "hs_state (judge_result frepr h (case latest of None \<Rightarrow> None | Some r \<Rightarrow> map_option (\<lambda>n. n \<noteq> 0) (row_success r))
      (case latest of None \<Rightarrow> None | Some r \<Rightarrow> row_latency r) (case latest of None \<Rightarrow> None | Some r \<Rightarrow> row_timestamp r)
      (map_option (\<lambda>t. total_seconds (now - t)) (case latest of None \<Rightarrow> None | Some r \<Rightarrow> row_timestamp r))
      w c global_threshold incidents upstream) =
    first_match (rule_table h latest False (observation latest now (Some w)) global_threshold incidents)" for w c
    using True
    by (cases latest)
       (auto simp: judge_result_state answering_state_state first_match_def rule_table_def observation_def too_slow_def
         split: option.splits)
  have gone: "first_match (rule_table h latest False (observation latest now None) global_threshold incidents) = ''unknown''"
    using True by (simp add: first_match_def rule_table_def observation_def)
  from True have m: "(case maint of None \<Rightarrow> False | Some m \<Rightarrow> mf_maintenance m) = False" by simp
  show ?thesis
    unfolding m using True
    by (auto simp: evaluate_def judged gone observer_window_def stale_probe_state_def Let_def split: option.splits)
qed

text \<open>C3. Refinement: whatever the inputs, the state that \<open>evaluate\<close> returns is the first match of the
  documented rule table (disabled, maintenance, unknown, down, warning, degraded, up).\<close>

theorem evaluate_first_match:
  "hs_state (evaluate frepr h latest now maint probe probe_missing ping_interval global_threshold incidents upstream) =
   first_match (rule_table h latest (case maint of None \<Rightarrow> False | Some m \<Rightarrow> mf_maintenance m)
     (observation latest now (observer_window h probe probe_missing ping_interval now)) global_threshold incidents)"
  by (rule evaluate_state)

text \<open>C1. No false green: a host is shown in an observed state (up, degraded, warning, down) exactly when it is
  monitored, not in maintenance, its probe (if it has one) exists and is not stale, and the newest check
  has a known outcome no older than the window of whoever checks it; it is then down exactly when
  that check failed.\<close>

theorem no_false_green:
  "let s = evaluate frepr h latest now maint probe probe_missing ping_interval global_threshold incidents upstream in
    (hs_state s \<in> OBSERVED_STATES \<longleftrightarrow>
      enabled h \<and> \<not> (\<exists>m. maint = Some m \<and> mf_maintenance m) \<and>
      (\<exists>r n t. latest = Some r \<and> row_success r = Some n \<and> row_timestamp r = Some t \<and>
        (if probe_id h = None then total_seconds (now - t) \<le> core_window_seconds ping_interval
         else \<not> probe_missing \<and> (\<exists>p. probe = Some p \<and> \<not> is_stale p (total_seconds now) \<and>
           total_seconds (now - t) \<le> result_window (interval_seconds p))))) \<and>
    (hs_state s = ''down'' \<longleftrightarrow> hs_state s \<in> OBSERVED_STATES \<and> (\<exists>r. latest = Some r \<and> row_success r = Some 0))"
proof -
  define s where "s = evaluate frepr h latest now maint probe probe_missing ping_interval global_threshold incidents upstream"
  let ?m = "case maint of None \<Rightarrow> False | Some m \<Rightarrow> mf_maintenance m"
  let ?seen = "observation latest now (observer_window h probe probe_missing ping_interval now)"
  have m: "?m \<longleftrightarrow> (\<exists>m. maint = Some m \<and> mf_maintenance m)" by (auto split: option.splits)
  have st: "hs_state s = first_match (rule_table h latest ?m ?seen global_threshold incidents)"
    unfolding s_def by (rule evaluate_state)
  have obs: "hs_state s \<in> OBSERVED_STATES \<longleftrightarrow> enabled h \<and> \<not> ?m \<and> ?seen \<noteq> None"
    and down: "hs_state s = ''down'' \<longleftrightarrow> enabled h \<and> \<not> ?m \<and> ?seen = Some False"
    unfolding st by (auto simp: first_match_def rule_table_def OBSERVED_STATES_def)
  have seen: "?seen = Some b \<longleftrightarrow> (\<exists>r n t. latest = Some r \<and> row_success r = Some n \<and> row_timestamp r = Some t \<and> b = (n \<noteq> 0) \<and>
        (if probe_id h = None then total_seconds (now - t) \<le> core_window_seconds ping_interval
         else \<not> probe_missing \<and> (\<exists>p. probe = Some p \<and> \<not> is_stale p (total_seconds now) \<and>
           total_seconds (now - t) \<le> result_window (interval_seconds p))))" for b
    by (auto simp: observation_def observer_window_def split: option.splits if_splits)
  have "(hs_state s = ''down'') = (hs_state s \<in> OBSERVED_STATES \<and> (\<exists>r. latest = Some r \<and> row_success r = Some 0))"
    unfolding obs down by (auto simp: observation_def split: option.splits if_splits)
  moreover have "?seen \<noteq> None \<longleftrightarrow> (\<exists>b. ?seen = Some b)" by simp
  ultimately show ?thesis unfolding s_def [symmetric] Let_def obs m seen by (simp only:) blast
qed

section \<open>The batch\<close>

lemma evaluate_in_STATES: "hs_state (evaluate frepr h latest now maint probe pm iv gt incidents upstream) \<in> set STATES"
  unfolding evaluate_state by (simp add: first_match_def rule_table_def STATES_def)

lemma dget_fold_dset:
  assumes "distinct (map k xs)" "x \<in> set xs"
  shows "dget (foldl (\<lambda>d x. dset d (k x) (v x)) d xs) (k x) = Some (v x)"
proof -
  have other: "i \<notin> set (map k ys) \<Longrightarrow> dget (foldl (\<lambda>d x. dset d (k x) (v x)) d ys) i = dget d i" for i ys d
    by (induction ys arbitrary: d) (auto simp: dict_simps)
  from assms show ?thesis
    by (induction xs arbitrary: d) (auto simp: dict_simps other)
qed

lemma fold_dset_values:
  "(i, y) \<in> set (foldl (\<lambda>d x. dset d (k x) (v x)) d xs) \<Longrightarrow> (i, y) \<in> set d \<or> (\<exists>x \<in> set xs. i = k x \<and> y = v x)"
proof (induction xs arbitrary: d)
  case (Cons x xs)
  have "(i, y) \<in> set (dset d (k x) (v x)) \<Longrightarrow> (i, y) \<in> set d \<or> i = k x \<and> y = v x" for d
    by (induction d "k x" "v x" rule: dset.induct) (auto split: if_splits)
  with Cons show ?case by fastforce
qed simp

lemma first_down_Some:
  "first_down as down names = Some n \<Longrightarrow> \<exists>a \<in> set as. a \<in> down \<and> n = dget_or names a (''host '' @ show_int a)"
  by (induction "as" down names rule: first_down.induct) (auto split: if_splits)

lemma dget_map_snd: "dget (map (\<lambda>e. f e) d) i = map_option (\<lambda>v. snd (f (i, v))) (dget d i)"
  if "\<And>e. fst (f e) = fst e"
proof (induction d)
  case (Cons e d)
  obtain k v where e: "e = (k, v)" by (cases e)
  obtain k' v' where f: "f (k, v) = (k', v')" by (cases "f (k, v)")
  with that [of "(k, v)"] have "k' = k" by simp
  then show ?case using Cons e f by (auto simp: dget_Cons)
qed simp

lemma name_upstream_fst [simp]: "fst (name_upstream t down names e) = fst e"
  by (auto simp: name_upstream_def split: prod.splits option.splits)

lemma name_upstream_snd:
  assumes "hid \<in> down \<longrightarrow> hs_state st = ''down''"
  shows "snd (name_upstream t down names (hid, st)) = st \<or>
    hs_state st = ''down'' \<and> (\<exists>a \<in> set (get_ancestors t hid). a \<in> down \<and>
      snd (name_upstream t down names (hid, st)) =
        mk ''down'' (''Not responding, behind '' @ dget_or names a (''host '' @ show_int a) @ '' (down)'')
          (observed_at st) (''behind '' @ dget_or names a (''host '' @ show_int a)))"
  using assms first_down_Some [of "get_ancestors t hid" down names]
  by (auto simp: name_upstream_def upstream_down_def split: option.splits if_splits)

definition verdict :: "(pyfloat \<Rightarrow> string) \<Rightarrow> tzdb \<Rightarrow> batch \<Rightarrow> ping_host list \<Rightarrow> ping_host \<Rightarrow> host_state" where
  "verdict frepr db b hosts h = first_pass frepr db b (load_probes hosts (b_agents b)) h"

text \<open>C18. The second pass only explains: for every host of the batch the topology leaves state and
  observation time exactly as \<open>evaluate\<close> decided them; where it changes the reason, the host is down and
  the reason names a host of its ancestor chain that is itself down in this batch.\<close>

theorem upstream_only_explains:
  assumes "distinct (map host_id hosts)" and "h \<in> set hosts"
  shows "\<exists>st. dget (host_states frepr db b (Given t) hosts) (host_id h) = Some st \<and>
    hs_state st = hs_state (verdict frepr db b hosts h) \<and> observed_at st = observed_at (verdict frepr db b hosts h) \<and>
    (st = verdict frepr db b hosts h \<or>
     hs_state (verdict frepr db b hosts h) = ''down'' \<and>
     (\<exists>u \<in> set hosts. host_id u \<in> set (get_ancestors t (host_id h)) \<and> hs_state (verdict frepr db b hosts u) = ''down'' \<and>
        hs_reason st = ''Not responding, behind '' @ host_name u @ '' (down)''))"
proof -
  let ?f = "verdict frepr db b hosts"
  let ?first = "foldl (\<lambda>d h. dset d (host_id h) (?f h)) [] hosts"
  let ?names = "foldl (\<lambda>d h. dset d (host_id h) (host_name h)) [] hosts"
  let ?down = "fst ` set (filter (\<lambda>(_, st). hs_state st = ''down'') ?first)"
  have first: "dget ?first (host_id u) = Some (?f u)" if "u \<in> set hosts" for u
    using dget_fold_dset [OF assms(1) that] .
  have name: "dget_or ?names (host_id u) x = host_name u" if "u \<in> set hosts" for u x
    using dget_fold_dset [OF assms(1) that, of host_name "[]"] by (simp add: dget_or_def)
  have down: "\<exists>u \<in> set hosts. a = host_id u \<and> hs_state (?f u) = ''down''" if "a \<in> ?down" for a
  proof -
    from that obtain st where "(a, st) \<in> set ?first" "hs_state st = ''down''" by auto
    with fold_dset_values [of a st host_id ?f "[]" hosts] show ?thesis by auto
  qed
  have same: "host_id h \<in> ?down \<longrightarrow> hs_state (?f h) = ''down''"
  proof
    assume "host_id h \<in> ?down"
    from down [OF this] obtain u where "u \<in> set hosts" "host_id h = host_id u" "hs_state (?f u) = ''down''" by blast
    with assms show "hs_state (?f h) = ''down''" by (auto simp: distinct_map dest: inj_onD)
  qed
  have res: "host_states frepr db b (Given t) hosts =
      (if t = [] then ?first else map (name_upstream t ?down ?names) ?first)"
    using assms(2) by (auto simp: host_states_def verdict_def Let_def)
  show ?thesis
  proof (cases "t = []")
    case True
    then show ?thesis using first [OF assms(2)] res by simp
  next
    case False
    then have "dget (host_states frepr db b (Given t) hosts) (host_id h) =
        Some (snd (name_upstream t ?down ?names (host_id h, ?f h)))"
      using res first [OF assms(2)] by (simp add: dget_map_snd)
    moreover have "snd (name_upstream t ?down ?names (host_id h, ?f h)) = ?f h \<or>
        hs_state (?f h) = ''down'' \<and> (\<exists>u \<in> set hosts. host_id u \<in> set (get_ancestors t (host_id h)) \<and>
          hs_state (?f u) = ''down'' \<and> snd (name_upstream t ?down ?names (host_id h, ?f h)) =
            mk ''down'' (''Not responding, behind '' @ host_name u @ '' (down)'') (observed_at (?f h)) (''behind '' @ host_name u))"
    proof -
      have named: "\<exists>u \<in> set hosts. a = host_id u \<and> hs_state (?f u) = ''down'' \<and> dget_or ?names a x = host_name u"
        if "a \<in> ?down" for a x using down [OF that] name by blast
      show ?thesis using name_upstream_snd [OF same, of t ?names]
      proof (elim disjE conjE bexE)
        fix a assume a: "a \<in> set (get_ancestors t (host_id h))" "a \<in> ?down" and d: "hs_state (?f h) = ''down''"
          and st: "snd (name_upstream t ?down ?names (host_id h, ?f h)) =
            mk ''down'' (''Not responding, behind '' @ dget_or ?names a (''host '' @ show_int a) @ '' (down)'')
              (observed_at (?f h)) (''behind '' @ dget_or ?names a (''host '' @ show_int a))"
        from named [OF a(2), of "''host '' @ show_int a"] obtain u where "u \<in> set hosts" "a = host_id u"
          "hs_state (?f u) = ''down''" "dget_or ?names a (''host '' @ show_int a) = host_name u" by blast
        with a(1) d st show ?thesis by auto
      qed simp
    qed
    ultimately show ?thesis by (elim disjE conjE bexE) (simp_all, blast)
  qed
qed

definition two_hosts :: "ping_host list" where
  "two_hosts = [plain_host 1 ''core-switch'', plain_host 2 ''server'']"

definition failed_row :: check_row where
  "failed_row = \<lparr>row_success = Some 0, row_latency = None, row_timestamp = Some (seconds 100)\<rparr>"

definition outage :: batch where
  "outage = \<lparr>b_now = seconds 160, b_latest = [(1, failed_row), (2, failed_row)], b_windows = [], b_incidents = [],
     b_agents = [], b_ping_interval = 60, b_global_latency = None\<rparr>"

lemmas evaluate_simps = evaluate_def judge_result_def answering_state_def first_pass_def core_window_seconds_def
  interval_or_def MIN_CORE_WINDOW_SECONDS_def CORE_GRACE_FACTOR_def DEFAULT_PING_INTERVAL_SECONDS_def
  api_fields_def manual_maintenance_def total_seconds_def seconds_def dget_or_def dget_def

theorem upstream_only_explains_witness:
  "distinct (map host_id two_hosts) \<and> plain_host 2 ''server'' \<in> set two_hosts \<and>
   hs_state (verdict fmt_g utc_only outage two_hosts (plain_host 2 ''server'')) = ''down'' \<and>
   (\<exists>st. dget (host_states fmt_g utc_only outage (Given [(2, Some 1), (1, None)]) two_hosts) 2 = Some st \<and>
     hs_state st = ''down'')"
proof -
  have d: "distinct (map host_id two_hosts)" and m: "plain_host 2 ''server'' \<in> set two_hosts"
    by (simp_all add: two_hosts_def plain_host_def)
  have v: "hs_state (verdict fmt_g utc_only outage two_hosts (plain_host 2 ''server'')) = ''down''"
    by (simp add: verdict_def evaluate_simps outage_def plain_host_def failed_row_def Let_def)
  have "host_id (plain_host 2 ''server'') = 2" by (simp add: plain_host_def)
  with upstream_only_explains [OF d m, of fmt_g utc_only outage "[(2, Some 1), (1, None)]"] d m v show ?thesis by auto
qed

section \<open>Agreement with the probe module\<close>

text \<open>One answer: for a monitored host outside maintenance that a probe checks, and whose newest row
  carries a time, the probe module's status and the unified state agree: unknown together, down together, and
  \<open>up\<close> there exactly for up, degraded and warning here.\<close>

theorem host_status_agrees:
  assumes "enabled h" and "\<not> mf_maintenance m" and "probe_id h \<noteq> None" and "latest = Some r" and "row_timestamp r = Some t"
  shows "host_status (map_option (\<lambda>n. n \<noteq> 0) (row_success r)) (Some (total_seconds (now - t))) (Some p) (total_seconds now) =
    (let s = hs_state (evaluate frepr h latest now (Some m) (Some p) False iv gt incidents upstream) in
     if legacy_status s = ''online'' then ''up'' else if legacy_status s = ''offline'' then ''down'' else s)"
proof -
  have "observation latest now (observer_window h (Some p) False iv now) =
      (if host_status (map_option (\<lambda>n. n \<noteq> 0) (row_success r)) (Some (total_seconds (now - t))) (Some p) (total_seconds now) = ''unknown''
       then None else map_option (\<lambda>n. n \<noteq> 0) (row_success r))"
    using assms by (auto simp: observation_def observer_window_def host_status_def split: option.splits)
  then show ?thesis
    using assms(1,2) unfolding evaluate_state
    by (auto simp: first_match_def rule_table_def legacy_status_def host_status_def split: option.splits)
qed

text \<open>A probe that reported 30 seconds ago and its host, checked 50 seconds ago.\<close>

definition live_probe :: probe_state where
  "live_probe = \<lparr>ps_id = 4, ps_name = ''zurich'', interval_seconds = Some 60, last_report = Some 970\<rparr>"

definition good_row :: check_row where
  "good_row = \<lparr>row_success = Some 1, row_latency = Some (Fin 2), row_timestamp = Some (seconds 950)\<rparr>"

theorem host_status_agrees_witness:
  "host_status (Some True) (Some 50) (Some live_probe) 1000 = ''up'' \<and>
   legacy_status (hs_state (evaluate fmt_g ((plain_host 1 ''a'')\<lparr>probe_id := Some 4\<rparr>) (Some good_row) (seconds 1000)
     (Some \<lparr>mf_maintenance = False, mf_manual = False, mf_window = None\<rparr>) (Some live_probe) False None None [] None)) = ''online''"
  using host_status_agrees [of "(plain_host 1 ''a'')\<lparr>probe_id := Some 4\<rparr>"
      "\<lparr>mf_maintenance = False, mf_manual = False, mf_window = None\<rparr>" "Some good_row" good_row "seconds 950" "seconds 1000"
      live_probe fmt_g None None "[]" None]
  by (simp add: evaluate_simps live_probe_def good_row_def plain_host_def host_status_def is_stale_def
      staleness_window_def MIN_STALENESS_WINDOW_SECONDS_def result_window_def PROBE_GRACE_FACTOR_def json_dict_def
      legacy_status_def Let_def)

section \<open>Summaries\<close>

lemma counts_total:
  "(\<And>x. x \<in> set ss \<Longrightarrow> hs_state x \<in> set STATES) \<Longrightarrow> sum_list (map snd (counts ss)) = length ss"
  by (induction ss) (fastforce simp: counts_def STATES_def)+

lemma count_list_filter: "count_list (map f xs) y = length (filter (\<lambda>x. f x = y) xs)"
  by (induction xs) auto

lemma dget_counts: "s \<in> set STATES \<Longrightarrow> dget (counts ss) s = Some (length (filter (\<lambda>x. hs_state x = s) ss))"
  by (auto simp: counts_def dget_def map_of_map_restrict restrict_map_def count_list_filter)

lemma worst_least:
  "case worst states of None \<Rightarrow> states = []
   | Some w \<Rightarrow> w \<in> set states \<and> (\<forall>s \<in> set states. rank w \<le> rank s)"
proof (cases "sort_key rank states")
  case Nil
  then show ?thesis by (simp add: worst_def sort_key_Nil_iff)
next
  case (Cons w ws)
  have "sorted (map rank (w # ws))" by (metis Cons sorted_sort_key)
  moreover have "set states = set (w # ws)" by (metis Cons set_sort)
  ultimately show ?thesis using Cons by (auto simp: worst_def)
qed

lemma first_pass_known: "hs_state (first_pass frepr db b probes h) \<in> set STATES"
  unfolding first_pass_def by (rule evaluate_in_STATES)

lemma host_states_known: "e \<in> set (host_states frepr db b targ hosts) \<Longrightarrow> hs_state (snd e) \<in> set STATES"
proof -
  assume e: "e \<in> set (host_states frepr db b targ hosts)"
  let ?first = "foldl (\<lambda>d h. dset d (host_id h) (first_pass frepr db b (load_probes hosts (b_agents b)) h)) [] hosts"
  have first: "hs_state (snd x) \<in> set STATES" if "x \<in> set ?first" for x
    using fold_dset_values [of "fst x" "snd x" host_id "first_pass frepr db b (load_probes hosts (b_agents b))" "[]" hosts]
      that first_pass_known by auto
  have named: "hs_state (snd (name_upstream t d n x)) \<in> set STATES" if "x \<in> set ?first" for t d n x
    using first [OF that] by (auto simp: name_upstream_def STATES_def split: prod.splits option.splits)
  from e show ?thesis
    by (auto simp: host_states_def Let_def first named split: topo_arg.splits sum.splits if_splits)
qed

text \<open>The dashboard's counters are complete and exact: for every batch the counts over all states sum
  to the number of hosts, each counter is the number of hosts in that state, and the worst state of the
  batch is the state of some host that no host's state outranks.\<close>

theorem summaries_exact:
  "let ss = map snd (host_states frepr db b targ hosts) in
     sum_list (map snd (counts ss)) = length ss \<and>
     (\<forall>s \<in> set STATES. dget (counts ss) s = Some (length (filter (\<lambda>x. hs_state x = s) ss))) \<and>
     (case worst (map hs_state ss) of
        None \<Rightarrow> ss = []
      | Some w \<Rightarrow> w \<in> hs_state ` set ss \<and> (\<forall>x \<in> set ss. rank w \<le> rank (hs_state x)))"
proof -
  let ?ss = "map snd (host_states frepr db b targ hosts)"
  have known: "hs_state x \<in> set STATES" if "x \<in> set ?ss" for x
    using that host_states_known by auto
  have "sum_list (map snd (counts ?ss)) = length ?ss"
    using counts_total known by blast
  moreover have "\<forall>s \<in> set STATES. dget (counts ?ss) s = Some (length (filter (\<lambda>x. hs_state x = s) ?ss))"
    using dget_counts by blast
  ultimately show ?thesis unfolding Let_def using worst_least [of "map hs_state ?ss"] by (auto split: option.splits)
qed

theorem summaries_exact_witness:
  "dget (counts (map snd (host_states fmt_g utc_only outage NoTopology two_hosts))) ''down'' =
     Some (length (filter (\<lambda>x. hs_state x = ''down'') (map snd (host_states fmt_g utc_only outage NoTopology two_hosts)))) \<and>
   map (hs_state \<circ> snd) (host_states fmt_g utc_only outage NoTopology two_hosts) = [''down'', ''down'']"
  using summaries_exact [of fmt_g utc_only outage NoTopology two_hosts]
  by (simp add: host_states_def two_hosts_def evaluate_simps outage_def plain_host_def failed_row_def Let_def STATES_def)

end
