(* ===== verification/Incidents.thy ===== *)
theory Incidents
  imports Host_State Interfaces
begin

text \<open>
  The incident store and the operations every incident source shares
  (\<^verbatim>\<open>backend/services/correlation.py\<close>): the dedup hash, the recorded host ids, finding or creating
  the incident of a dedup key, resolving, and the pruning of old events. A \<open>store\<close> is the
  tenant's view of the two tables with their id sequences. SHA-256 is the parameter \<open>sha\<close>
  (from the hashed text to the hexadecimal digest).
\<close>

section \<open>Store\<close>

record store =
  st_tenant :: int
  st_incidents :: "incident list"
  st_events :: "incident_event list"
  next_incident :: int
  next_event :: int

record notice =
  n_title :: string
  n_body :: string
  n_severity :: string
  n_link :: "string option"

definition is_open :: "incident \<Rightarrow> bool" where
  "is_open i \<longleftrightarrow> inc_status i \<in> {''open'', ''acknowledged''}"

definition open_matches :: "string \<Rightarrow> string \<Rightarrow> store \<Rightarrow> incident list" where
  "open_matches rl h st = filter (\<lambda>i. inc_rule i = rl \<and> host_ids_hash i = Some h \<and> is_open i) (st_incidents st)"

definition update_incident :: "int \<Rightarrow> (incident \<Rightarrow> incident) \<Rightarrow> store \<Rightarrow> store" where
  "update_incident iid f st =
     st\<lparr>st_incidents := map (\<lambda>i. if inc_id i = iid then f i else i) (st_incidents st)\<rparr>"

definition add_event :: "datetime \<Rightarrow> int \<Rightarrow> string \<Rightarrow> string \<Rightarrow> string option \<Rightarrow> store \<Rightarrow> store" where
  "add_event now iid etype summary detail st =
     st\<lparr>st_events := st_events st @ [\<lparr>ev_id = next_event st, ev_incident_id = iid, ev_timestamp = now,
          event_type = etype, ev_summary = summary, ev_detail = detail\<rparr>],
        next_event := next_event st + 1\<rparr>"

section \<open>Keys and recorded hosts\<close>

definition hash_host_ids :: "(string \<Rightarrow> string) \<Rightarrow> int list \<Rightarrow> string" where
  "hash_host_ids sha ids = take 16 (sha (join '','' (map show_int (sort ids))))"

definition affected_host_ids_json :: "int list option \<Rightarrow> string option" where
  "affected_host_ids_json ids =
     (case ids of None \<Rightarrow> None
      | Some xs \<Rightarrow> Some (dumps_ints '','' (sorted_list_of_set {h \<in> set xs. h > 0})))"

section \<open>Find or create\<close>

definition red_circle :: string where "red_circle = [CHR 0xF0, CHR 0x9F, CHR 0x94, CHR 0xB4]"
definition check_mark :: string where "check_mark = [CHR 0xE2, CHR 0x9C, CHR 0x85]"

definition incident_link :: "int \<Rightarrow> string option" where
  "incident_link iid = Some (''/incidents/'' @ show_int iid)"

record incident_spec =
  sp_rule :: string
  sp_title :: string
  sp_severity :: string
  sp_host_ids :: "int list"
  sp_event_type :: string
  sp_summary :: string
  sp_detail :: "string option"
  sp_key_hash :: "string option"
  sp_notify :: bool
  sp_affected :: "int list option"

text \<open>The call with its keyword defaults.\<close>

definition host_incident ::
    "string \<Rightarrow> string \<Rightarrow> string \<Rightarrow> int list \<Rightarrow> string \<Rightarrow> string \<Rightarrow> incident_spec" where
  "host_incident rl title severity ids etype summary =
     \<lparr>sp_rule = rl, sp_title = title, sp_severity = severity, sp_host_ids = ids, sp_event_type = etype,
      sp_summary = summary, sp_detail = None, sp_key_hash = None, sp_notify = True, sp_affected = None\<rparr>"

definition dedup_key :: "(string \<Rightarrow> string) \<Rightarrow> incident_spec \<Rightarrow> string" where
  "dedup_key sha sp = (case sp_key_hash sp of
     Some k \<Rightarrow> if k = [] then hash_host_ids sha (sp_host_ids sp) else k
   | None \<Rightarrow> hash_host_ids sha (sp_host_ids sp))"

definition recorded_hosts :: "incident_spec \<Rightarrow> string option" where
  "recorded_hosts sp =
     (if sp_affected sp \<noteq> None then affected_host_ids_json (sp_affected sp)
      else if sp_key_hash sp = None then affected_host_ids_json (Some (sp_host_ids sp))
      else None)"

definition extend_incident :: "string option \<Rightarrow> datetime \<Rightarrow> incident \<Rightarrow> incident" where
  "extend_incident recorded now i =
     (if recorded \<noteq> None \<and> inc_host_ids i \<noteq> recorded then i\<lparr>inc_host_ids := recorded, updated_at := now\<rparr>
      else i\<lparr>updated_at := now\<rparr>)"

definition new_incident :: "(string \<Rightarrow> string) \<Rightarrow> datetime \<Rightarrow> incident_spec \<Rightarrow> store \<Rightarrow> incident" where
  "new_incident sha now sp st =
     \<lparr>inc_id = next_incident st, inc_tenant = st_tenant st, inc_rule = sp_rule sp, inc_title = sp_title sp,
      inc_severity = sp_severity sp, inc_status = ''open'', host_ids_hash = Some (dedup_key sha sp),
      inc_host_ids = recorded_hosts sp, updated_at = now, resolved_at = None, precursor_template = None\<rparr>"

text \<open>
  \<open>_find_or_create_incident\<close>: the store afterwards, the incident's id and the notification it
  sends; two open incidents of one key make \<^verbatim>\<open>scalar_one_or_none\<close> raise.
\<close>

definition find_or_create_incident ::
    "(string \<Rightarrow> string) \<Rightarrow> datetime \<Rightarrow> incident_spec \<Rightarrow> store \<Rightarrow> (store \<times> int \<times> notice list) result" where
  "find_or_create_incident sha now sp st =
     (case open_matches (sp_rule sp) (dedup_key sha sp) st of
        [] \<Rightarrow>
          (let i = new_incident sha now sp st;
               st1 = st\<lparr>st_incidents := st_incidents st @ [i], next_incident := next_incident st + 1\<rparr>;
               st2 = add_event now (inc_id i) ''created'' (sp_summary sp) (sp_detail sp) st1
           in Inr (st2, inc_id i,
                if sp_notify sp
                then [\<lparr>n_title = red_circle @ '' Incident: '' @ sp_title sp, n_body = sp_summary sp,
                       n_severity = sp_severity sp, n_link = incident_link (inc_id i)\<rparr>]
                else []))
      | [i] \<Rightarrow>
          Inr (add_event now (inc_id i) (sp_event_type sp) (sp_summary sp) (sp_detail sp)
                 (update_incident (inc_id i) (extend_incident (recorded_hosts sp) now) st), inc_id i, [])
      | _ \<Rightarrow> Inl (RuntimeError ''MultipleResultsFound''))"

section \<open>Resolving\<close>

text \<open>
  Setting an incident's status to resolved with its event; any update of the row sets
  \<open>updated_at\<close> (the column's \<^verbatim>\<open>onupdate\<close>).
\<close>

definition resolve_incident :: "datetime \<Rightarrow> int \<Rightarrow> string \<Rightarrow> store \<Rightarrow> store" where
  "resolve_incident now iid summary st =
     add_event now iid ''resolved'' summary None
       (update_incident iid (\<lambda>i. i\<lparr>inc_status := ''resolved'', resolved_at := Some now, updated_at := now\<rparr>) st)"

definition resolved_note :: "incident \<Rightarrow> string \<Rightarrow> notice" where
  "resolved_note i summary =
     \<lparr>n_title = check_mark @ '' Resolved: '' @ inc_title i, n_body = summary, n_severity = ''info'',
      n_link = incident_link (inc_id i)\<rparr>"

section \<open>Pruning events\<close>

definition meaningful :: "incident_event \<Rightarrow> bool" where
  "meaningful e \<longleftrightarrow> event_type e \<notin> {''acknowledged'', ''resolved''}"

definition latest_meaningful :: "store \<Rightarrow> int set" where
  "latest_meaningful st =
     (\<lambda>e. Max (ev_id ` {e' \<in> set (st_events st). meaningful e' \<and> ev_incident_id e' = ev_incident_id e}))
       ` {e \<in> set (st_events st). meaningful e}"

definition prunable :: "datetime \<Rightarrow> store \<Rightarrow> incident_event \<Rightarrow> bool" where
  "prunable cutoff st e \<longleftrightarrow> ev_timestamp e < cutoff \<and> ev_id e \<notin> latest_meaningful st"

definition cleanup_incident_events :: "datetime \<Rightarrow> int \<Rightarrow> store \<Rightarrow> store \<times> nat" where
  "cleanup_incident_events now retention_days st =
     (if retention_days \<le> 0 then (st, 0)
      else (let cutoff = now - days retention_days in
            (st\<lparr>st_events := filter (\<lambda>e. \<not> prunable cutoff st e) (st_events st)\<rparr>,
             length (filter (prunable cutoff st) (st_events st)))))"

section \<open>Invariant\<close>

text \<open>
  Row ids are the sequence numbers handed out so far; every event belongs to an incident; at
  most one incident of a rule and dedup key is open; exactly the resolved incidents carry a
  resolution time.
\<close>

definition open_unique :: "incident list \<Rightarrow> bool" where
  "open_unique xs \<longleftrightarrow> (\<forall>i \<in> set xs. \<forall>j \<in> set xs.
     is_open i \<and> is_open j \<and> inc_rule i = inc_rule j \<and> host_ids_hash i = host_ids_hash j \<and> host_ids_hash i \<noteq> None
       \<longrightarrow> inc_id i = inc_id j)"

definition store_ok :: "store \<Rightarrow> bool" where
  "store_ok st \<longleftrightarrow>
     distinct (map inc_id (st_incidents st)) \<and> (\<forall>i \<in> set (st_incidents st). inc_id i < next_incident st) \<and>
     distinct (map ev_id (st_events st)) \<and> (\<forall>e \<in> set (st_events st). ev_id e < next_event st) \<and>
     ev_incident_id ` set (st_events st) \<subseteq> inc_id ` set (st_incidents st) \<and>
     open_unique (st_incidents st) \<and>
     (\<forall>i \<in> set (st_incidents st). is_open i \<longleftrightarrow> resolved_at i = None)"

definition empty_store :: "int \<Rightarrow> store" where
  "empty_store tid = \<lparr>st_tenant = tid, st_incidents = [], st_events = [], next_incident = 1, next_event = 1\<rparr>"

lemma store_fields [simp]:
  "st_incidents (add_event now iid et s d st) = st_incidents st"
  "next_incident (add_event now iid et s d st) = next_incident st"
  "st_events (update_incident iid f st) = st_events st"
  "next_event (update_incident iid f st) = next_event st"
  "next_incident (update_incident iid f st) = next_incident st"
  "st_tenant (update_incident iid f st) = st_tenant st" "st_tenant (add_event now iid et s d st) = st_tenant st"
  by (simp_all add: add_event_def update_incident_def)

lemma store_ok_add_event:
  "store_ok st \<Longrightarrow> iid \<in> inc_id ` set (st_incidents st) \<Longrightarrow> store_ok (add_event now iid et s d st)"
  by (fastforce simp: store_ok_def add_event_def)

text \<open>Updates of one row that keep its key, never reopen it, and keep status and resolution time in step.\<close>

definition row_update :: "(incident \<Rightarrow> incident) \<Rightarrow> bool" where
  "row_update f \<longleftrightarrow> (\<forall>i. inc_id (f i) = inc_id i \<and> inc_rule (f i) = inc_rule i \<and> host_ids_hash (f i) = host_ids_hash i
     \<and> (is_open (f i) \<longrightarrow> is_open i) \<and> ((is_open i \<longleftrightarrow> resolved_at i = None) \<longrightarrow> (is_open (f i) \<longleftrightarrow> resolved_at (f i) = None)))"

lemma row_updateD:
  assumes "row_update f"
  shows "inc_id (f i) = inc_id i" "inc_rule (f i) = inc_rule i" "host_ids_hash (f i) = host_ids_hash i"
    "is_open (f i) \<Longrightarrow> is_open i"
    "(is_open i \<longleftrightarrow> resolved_at i = None) \<Longrightarrow> (is_open (f i) \<longleftrightarrow> resolved_at (f i) = None)"
  using assms [unfolded row_update_def, THEN spec, of i] by simp_all

lemma ids_update: "row_update f \<Longrightarrow> map inc_id (st_incidents (update_incident iid f st)) = map inc_id (st_incidents st)"
  by (auto simp: update_incident_def row_updateD)

lemma ids_update_set: "row_update f \<Longrightarrow> inc_id ` set (st_incidents (update_incident iid f st)) = inc_id ` set (st_incidents st)"
  by (metis ids_update list.set_map)

lemma open_uniqueD:
  "open_unique xs \<Longrightarrow> i \<in> set xs \<Longrightarrow> j \<in> set xs \<Longrightarrow> is_open i \<Longrightarrow> is_open j \<Longrightarrow> inc_rule i = inc_rule j
   \<Longrightarrow> host_ids_hash i = host_ids_hash j \<Longrightarrow> host_ids_hash i \<noteq> None \<Longrightarrow> inc_id i = inc_id j"
  unfolding open_unique_def by blast

lemma open_unique_map:
  assumes "open_unique xs"
    and g: "\<And>i. inc_id (g i) = inc_id i" "\<And>i. inc_rule (g i) = inc_rule i" "\<And>i. host_ids_hash (g i) = host_ids_hash i"
      "\<And>i. is_open (g i) \<Longrightarrow> is_open i"
  shows "open_unique (map g xs)"
  using assms(1) unfolding open_unique_def by (auto simp: g(1-3) dest: g(4))

lemma store_ok_update:
  assumes "store_ok st" and f: "row_update f"
  shows "store_ok (update_incident iid f st)"
proof -
  define g where "g i = (if inc_id i = iid then f i else i)" for i
  have g: "inc_id (g i) = inc_id i" "inc_rule (g i) = inc_rule i" "host_ids_hash (g i) = host_ids_hash i"
    "is_open (g i) \<Longrightarrow> is_open i" "(is_open i \<longleftrightarrow> resolved_at i = None) \<Longrightarrow> (is_open (g i) \<longleftrightarrow> resolved_at (g i) = None)" for i
    unfolding g_def by (cases "inc_id i = iid"; use row_updateD [OF f, of i] in \<open>simp only: if_True if_False\<close>)+
  have sts: "st_incidents (update_incident iid f st) = map g (st_incidents st)"
    by (simp add: update_incident_def g_def)
  have "open_unique (map g (st_incidents st))"
    by (rule open_unique_map [OF _ g(1-4)]) (use assms(1) in \<open>simp add: store_ok_def\<close>)
  moreover have "\<forall>i \<in> set (map g (st_incidents st)). is_open i \<longleftrightarrow> resolved_at i = None"
    unfolding list.set_map ball_simps(9)
    by (intro ballI g(5)) (use assms(1) in \<open>simp add: store_ok_def\<close>)
  moreover have "map inc_id (map g (st_incidents st)) = map inc_id (st_incidents st)" using g(1) by simp
  moreover have "inc_id ` set (map g (st_incidents st)) = inc_id ` set (st_incidents st)"
    using g(1) by (simp add: image_image)
  moreover have "\<forall>i \<in> set (map g (st_incidents st)). inc_id i < next_incident st"
    using assms(1) g(1) by (simp add: store_ok_def)
  ultimately show ?thesis using assms(1) by (simp only: store_ok_def sts store_fields simp_thms) blast
qed

lemma row_update_extend [simp]: "row_update (extend_incident r now)"
  by (auto simp: row_update_def extend_incident_def is_open_def)

lemma row_update_resolve [simp]: "row_update (\<lambda>i. i\<lparr>inc_status := ''resolved'', resolved_at := Some now, updated_at := now\<rparr>)"
  by (auto simp: row_update_def is_open_def)

lemma distinct_map_unique: "distinct (map f xs) \<Longrightarrow> x \<in> set xs \<Longrightarrow> y \<in> set xs \<Longrightarrow> f x = f y \<Longrightarrow> x = y"
  by (auto simp: distinct_map dest: inj_onD)

lemma filter_le_one:
  assumes "distinct xs" and "\<And>x y. x \<in> set xs \<Longrightarrow> y \<in> set xs \<Longrightarrow> P x \<Longrightarrow> P y \<Longrightarrow> x = y"
  shows "filter P xs = [] \<or> (\<exists>x. filter P xs = [x])"
proof (cases "filter P xs")
  case (Cons a as)
  have "as = []"
  proof (cases as)
    case (Cons b bs)
    with \<open>filter P xs = a # as\<close> have f: "filter P xs = a # b # bs" by simp
    then have "{a, b} \<subseteq> set (filter P xs)" by simp
    then have "a = b" using assms(2) by auto
    with f assms(1) show ?thesis using distinct_filter [of xs P] by simp
  qed simp
  with Cons show ?thesis by simp
qed simp

lemma open_matches_le_one: "store_ok st \<Longrightarrow> open_matches rl h st = [] \<or> (\<exists>i. open_matches rl h st = [i])"
  unfolding open_matches_def
proof (rule filter_le_one)
  assume ok: "store_ok st"
  then show "distinct (st_incidents st)" by (simp add: store_ok_def distinct_map)
  fix x y assume "x \<in> set (st_incidents st)" "y \<in> set (st_incidents st)"
    and "inc_rule x = rl \<and> host_ids_hash x = Some h \<and> is_open x" "inc_rule y = rl \<and> host_ids_hash y = Some h \<and> is_open y"
  with ok show "x = y" unfolding store_ok_def open_unique_def by (metis distinct_map_unique option.distinct(1))
qed

lemma store_ok_new:
  assumes "store_ok st" and none: "open_matches (sp_rule sp) (dedup_key sha sp) st = []"
  shows "store_ok (st\<lparr>st_incidents := st_incidents st @ [new_incident sha now sp st], next_incident := next_incident st + 1\<rparr>)"
proof -
  let ?i = "new_incident sha now sp st"
  have i: "inc_id ?i = next_incident st" "inc_rule ?i = sp_rule sp" "host_ids_hash ?i = Some (dedup_key sha sp)"
    "is_open ?i" "resolved_at ?i = None"
    by (simp_all add: new_incident_def is_open_def)
  have fresh: "j \<in> set (st_incidents st) \<Longrightarrow> is_open j \<Longrightarrow> inc_rule j = sp_rule sp \<Longrightarrow> host_ids_hash j \<noteq> Some (dedup_key sha sp)" for j
    using none by (auto simp: open_matches_def filter_empty_conv)
  have uniq: "open_unique (st_incidents st)" using assms(1) by (simp add: store_ok_def)
  have "open_unique (st_incidents st @ [?i])"
    unfolding open_unique_def
  proof (intro ballI impI)
    fix a b assume a: "a \<in> set (st_incidents st @ [?i])" and b: "b \<in> set (st_incidents st @ [?i])"
      and k: "is_open a \<and> is_open b \<and> inc_rule a = inc_rule b \<and> host_ids_hash a = host_ids_hash b \<and> host_ids_hash a \<noteq> None"
    from a b consider "a = ?i" "b = ?i" | "a = ?i" "b \<in> set (st_incidents st)" | "a \<in> set (st_incidents st)" "b = ?i"
      | "a \<in> set (st_incidents st)" "b \<in> set (st_incidents st)" by auto
    then show "inc_id a = inc_id b"
      using k i fresh [of a] fresh [of b] open_uniqueD [OF uniq, of a b] by cases force+
  qed
  moreover have "distinct (map inc_id (st_incidents st @ [?i]))"
    using assms(1) i(1) by (auto simp: store_ok_def)
  moreover have "\<forall>j \<in> set (st_incidents st @ [?i]). inc_id j < next_incident st + 1"
    using assms(1) i(1) by (auto simp: store_ok_def)
  moreover have "\<forall>j \<in> set (st_incidents st @ [?i]). is_open j \<longleftrightarrow> resolved_at j = None"
    using assms(1) i(4,5) by (auto simp: store_ok_def)
  moreover have "ev_incident_id ` set (st_events st) \<subseteq> inc_id ` set (st_incidents st @ [?i])"
    using assms(1) by (auto simp: store_ok_def)
  ultimately show ?thesis using assms(1) by (simp add: store_ok_def)
qed

lemma update_other:
  "row_update f \<Longrightarrow> filter (\<lambda>i. inc_id i \<noteq> iid) (st_incidents (update_incident iid f st)) = filter (\<lambda>i. inc_id i \<noteq> iid) (st_incidents st)"
  by (auto simp: update_incident_def filter_map o_def row_update_def if_distrib [of inc_id] cong: if_cong intro!: map_idI filter_cong)

section \<open>Properties\<close>

lemma open_matches_new:
  assumes "store_ok st" and "open_matches (sp_rule sp) (dedup_key sha sp) st = []"
  shows "map inc_id (open_matches (sp_rule sp) (dedup_key sha sp)
    (st\<lparr>st_incidents := st_incidents st @ [new_incident sha now sp st], next_incident := n\<rparr>)) = [next_incident st]"
  using assms(2) by (simp add: open_matches_def new_incident_def is_open_def)

lemma open_matches_update:
  assumes "open_matches rl h st = [i]"
  shows "map inc_id (open_matches rl h (update_incident iid (extend_incident r now) st)) = [inc_id i]"
proof -
  have "inc_rule (extend_incident r now j) = inc_rule j" "host_ids_hash (extend_incident r now j) = host_ids_hash j"
    "is_open (extend_incident r now j) = is_open j" "inc_id (extend_incident r now j) = inc_id j" for j
    by (simp_all add: extend_incident_def is_open_def)
  then have "map inc_id (open_matches rl h (update_incident iid (extend_incident r now) st)) = map inc_id (open_matches rl h st)"
    by (simp add: open_matches_def update_incident_def filter_map o_def if_distrib [of inc_rule] if_distrib [of host_ids_hash]
        if_distrib [of is_open] if_distrib [of inc_id] cong: if_cong)
  with assms show ?thesis by simp
qed

lemma find_or_create_cases:
  assumes "store_ok st"
  obtains (created) "open_matches (sp_rule sp) (dedup_key sha sp) st = []"
      "find_or_create_incident sha now sp st =
         Inr (add_event now (next_incident st) ''created'' (sp_summary sp) (sp_detail sp)
                (st\<lparr>st_incidents := st_incidents st @ [new_incident sha now sp st], next_incident := next_incident st + 1\<rparr>),
              next_incident st,
              if sp_notify sp then [\<lparr>n_title = red_circle @ '' Incident: '' @ sp_title sp, n_body = sp_summary sp,
                n_severity = sp_severity sp, n_link = incident_link (next_incident st)\<rparr>] else [])"
    | (extended) i where "open_matches (sp_rule sp) (dedup_key sha sp) st = [i]"
      "find_or_create_incident sha now sp st =
         Inr (add_event now (inc_id i) (sp_event_type sp) (sp_summary sp) (sp_detail sp)
               (update_incident (inc_id i) (extend_incident (recorded_hosts sp) now) st), inc_id i, [])"
  using open_matches_le_one [OF assms, of "sp_rule sp" "dedup_key sha sp"]
  by (auto simp: find_or_create_incident_def Let_def new_incident_def)

lemma open_match_member: "open_matches rl h st = [i] \<Longrightarrow> i \<in> set (st_incidents st)"
  unfolding open_matches_def by (metis filter_is_subset list.set_intros(1) subset_iff)

lemma find_or_create_ok:
  assumes "store_ok st"
  shows "\<exists>st' iid ns. find_or_create_incident sha now sp st = Inr (st', iid, ns) \<and> store_ok st'"
  using assms
proof (cases rule: find_or_create_cases [where sp = sp and sha = sha and now = now])
  case created
  then show ?thesis using store_ok_new [OF assms created(1)]
    by (auto simp: new_incident_def intro!: store_ok_add_event)
next
  case (extended i)
  then show ?thesis
    using store_ok_update [OF assms row_update_extend] open_match_member [OF extended(1)]
    by (auto simp: ids_update_set intro!: store_ok_add_event)
qed

section \<open>The abstract view: which keys have an open incident\<close>

definition open_keys_of :: "store \<Rightarrow> (string \<times> string) set" where
  "open_keys_of st = {(inc_rule i, h) | i h. i \<in> set (st_incidents st) \<and> is_open i \<and> host_ids_hash i = Some h}"

lemma mem_open_keys:
  "(rl, h) \<in> open_keys_of st \<longleftrightarrow> (\<exists>i \<in> set (st_incidents st). is_open i \<and> inc_rule i = rl \<and> host_ids_hash i = Some h)"
  by (auto simp: open_keys_of_def)

lemma open_keys_iff: "(rl, h) \<in> open_keys_of st \<longleftrightarrow> open_matches rl h st \<noteq> []"
  by (auto simp: open_keys_of_def open_matches_def filter_empty_conv)

lemma open_keys_add_event [simp]: "open_keys_of (add_event now iid et s d st) = open_keys_of st"
  by (simp add: open_keys_of_def)

lemma store_ok_resolve:
  assumes "store_ok st" and "iid \<in> inc_id ` set (st_incidents st)"
  shows "store_ok (resolve_incident now iid summary st)"
  unfolding resolve_incident_def
  using store_ok_update [OF assms(1) row_update_resolve] assms(2)
  by (intro store_ok_add_event) (simp_all add: ids_update_set)

text \<open>The same view with row ids: which incident is open for which key.\<close>

definition open_rows :: "store \<Rightarrow> (int \<times> string \<times> string) set" where
  "open_rows st = {(inc_id i, inc_rule i, h) | i h. i \<in> set (st_incidents st) \<and> is_open i \<and> host_ids_hash i = Some h}"

lemma mem_open_rows:
  "(x, rl, h) \<in> open_rows st \<longleftrightarrow>
   (\<exists>i \<in> set (st_incidents st). is_open i \<and> inc_id i = x \<and> inc_rule i = rl \<and> host_ids_hash i = Some h)"
  by (auto simp: open_rows_def)

lemma open_keys_rows: "open_keys_of st = snd ` open_rows st"
  by (auto simp: open_keys_of_def open_rows_def image_iff)

lemma open_rows_add_event [simp]: "open_rows (add_event now iid et s d st) = open_rows st"
  by (simp add: open_rows_def)

lemma open_rows_id:
  "store_ok st \<Longrightarrow> (x, a) \<in> open_rows st \<Longrightarrow> (x, b) \<in> open_rows st \<Longrightarrow> a = b"
  by (auto simp: open_rows_def store_ok_def dest: distinct_map_unique)

lemma open_rows_key:
  assumes "store_ok st" "(x, k) \<in> open_rows st" "(y, k) \<in> open_rows st" shows "x = y"
proof -
  obtain rl h where k: "k = (rl, h)" by (cases k)
  with assms(2,3) obtain i j where "i \<in> set (st_incidents st)" "is_open i" "inc_id i = x" "inc_rule i = rl" "host_ids_hash i = Some h"
    "j \<in> set (st_incidents st)" "is_open j" "inc_id j = y" "inc_rule j = rl" "host_ids_hash j = Some h"
    by (auto simp: mem_open_rows)
  with assms(1) show ?thesis using open_uniqueD [of "st_incidents st" i j] by (simp add: store_ok_def)
qed

lemma resolve_rows: "open_rows (resolve_incident now iid summary st) = {r \<in> open_rows st. fst r \<noteq> iid}"
proof -
  define g where "g j = (if inc_id j = iid then j\<lparr>inc_status := ''resolved'', resolved_at := Some now, updated_at := now\<rparr> else j)" for j :: incident
  have g: "inc_id (g j) = inc_id j" "inc_rule (g j) = inc_rule j" "host_ids_hash (g j) = host_ids_hash j"
    "is_open (g j) \<longleftrightarrow> is_open j \<and> inc_id j \<noteq> iid" for j
    by (auto simp: g_def is_open_def)
  have "st_incidents (resolve_incident now iid summary st) = map g (st_incidents st)"
    by (simp add: resolve_incident_def update_incident_def g_def)
  then have "(x, rl, h) \<in> open_rows (resolve_incident now iid summary st) \<longleftrightarrow> (x, rl, h) \<in> {r \<in> open_rows st. fst r \<noteq> iid}" for x rl h
    by (auto simp: mem_open_rows g)
  then show ?thesis by auto
qed

lemma find_or_create_rows:
  assumes "store_ok st" and "find_or_create_incident sha now sp st = Inr (st', iid, ns)"
  shows "open_rows st' = insert (iid, sp_rule sp, dedup_key sha sp) (open_rows st)"
  using assms(1)
proof (cases rule: find_or_create_cases [where sp = sp and sha = sha and now = now])
  case created
  let ?i = "new_incident sha now sp st"
  have i: "is_open ?i" "inc_id ?i = next_incident st" "inc_rule ?i = sp_rule sp" "host_ids_hash ?i = Some (dedup_key sha sp)"
    by (simp_all add: new_incident_def is_open_def)
  from created(2) assms(2) have "st_incidents st' = st_incidents st @ [?i]" "iid = next_incident st" by auto
  then have "(x, rl, k) \<in> open_rows st' \<longleftrightarrow> (x, rl, k) \<in> insert (iid, sp_rule sp, dedup_key sha sp) (open_rows st)" for x rl k
    by (auto simp: mem_open_rows i)
  then show ?thesis by auto
next
  case (extended i)
  define g where "g j = (if inc_id j = inc_id i then extend_incident (recorded_hosts sp) now j else j)" for j
  have g: "inc_id (g j) = inc_id j" "inc_rule (g j) = inc_rule j" "host_ids_hash (g j) = host_ids_hash j" "is_open (g j) = is_open j" for j
    by (simp_all add: g_def extend_incident_def is_open_def)
  from extended(2) assms(2) have "st_incidents st' = map g (st_incidents st)" and iid: "iid = inc_id i"
    by (auto simp: update_incident_def g_def)
  then have "(x, rl, k) \<in> open_rows st' \<longleftrightarrow> (x, rl, k) \<in> open_rows st" for x rl k
    by (simp add: mem_open_rows g)
  moreover have "(iid, sp_rule sp, dedup_key sha sp) \<in> open_rows st"
    using extended(1) open_match_member [OF extended(1)] iid by (auto simp: mem_open_rows open_matches_def filter_eq_Cons_iff)
  ultimately show ?thesis by auto
qed

text \<open>Resolving every open incident of a key closes exactly that key.\<close>

lemma resolve_matches:
  assumes "store_ok st"
  shows "store_ok (fold (\<lambda>i. resolve_incident now (inc_id i) summary) (open_matches rl h st) st)"
    and "open_keys_of (fold (\<lambda>i. resolve_incident now (inc_id i) summary) (open_matches rl h st) st) = open_keys_of st - {(rl, h)}"
proof -
  let ?st = "fold (\<lambda>i. resolve_incident now (inc_id i) summary) (open_matches rl h st) st"
  have "store_ok ?st \<and> open_keys_of ?st = open_keys_of st - {(rl, h)}"
  proof (cases "open_matches rl h st = []")
    case True
    then have "(rl, h) \<notin> open_keys_of st" by (simp add: open_keys_iff)
    with True assms show ?thesis by simp
  next
    case False
    with open_matches_le_one [OF assms] obtain i where i: "open_matches rl h st = [i]" by blast
    have row: "(inc_id i, rl, h) \<in> open_rows st"
      using i open_match_member [OF i] by (auto simp: mem_open_rows open_matches_def filter_eq_Cons_iff)
    have "x \<noteq> inc_id i \<longleftrightarrow> k \<noteq> (rl, h)" if "(x, k) \<in> open_rows st" for x k
      using open_rows_id [OF assms] open_rows_key [OF assms] row that by blast
    then have "snd ` {r \<in> open_rows st. fst r \<noteq> inc_id i} = snd ` open_rows st - {(rl, h)}" by force
    then show ?thesis
      using i open_match_member [OF i] store_ok_resolve [OF assms] by (simp add: open_keys_rows resolve_rows)
  qed
  then show "store_ok ?st" "open_keys_of ?st = open_keys_of st - {(rl, h)}" by blast+
qed

text \<open>C6. Dedup: on a well-formed store \<open>_find_or_create_incident\<close> never raises, keeps the store well formed
  (unique ids, no dangling event, at most one open incident per rule and key), leaves exactly the
  returned incident open for the key, touches no other incident, appends exactly one event, to that
  incident, and notifies exactly when it created the incident and was asked to.\<close>

theorem find_or_create_dedup:
  assumes "store_ok st"
  shows "\<exists>st' iid ns. find_or_create_incident sha now sp st = Inr (st', iid, ns) \<and> store_ok st' \<and>
    map inc_id (open_matches (sp_rule sp) (dedup_key sha sp) st') = [iid] \<and>
    filter (\<lambda>i. inc_id i \<noteq> iid) (st_incidents st') = filter (\<lambda>i. inc_id i \<noteq> iid) (st_incidents st) \<and>
    (\<exists>e. st_events st' = st_events st @ [e] \<and> ev_incident_id e = iid \<and> ev_summary e = sp_summary sp) \<and>
    (ns = [] \<longleftrightarrow> \<not> sp_notify sp \<or> open_matches (sp_rule sp) (dedup_key sha sp) st \<noteq> [])"
  using assms
proof (cases rule: find_or_create_cases [where sp = sp and sha = sha and now = now])
  case created
  note find_or_create_ok [OF assms, of sha now sp]
  then show ?thesis
    using created open_matches_new [OF assms created(1)]
    by (simp add: add_event_def open_matches_def new_incident_def)
next
  case (extended i)
  from find_or_create_ok [OF assms, of sha now sp] show ?thesis
    using extended open_matches_update [OF extended(1)] update_other [OF row_update_extend]
    by (simp add: add_event_def open_matches_def)
qed

text \<open>The recorded hosts survive storage: what \<open>affected_host_ids_json\<close> writes for a list of host ids,
  \<open>parse_host_ids\<close> of the host-state module reads back as its positive members, sorted, each once.\<close>

theorem recorded_hosts_roundtrip:
  "incident_host_ids (affected_host_ids_json (Some ids)) = Inr (Some (sorted_list_of_set {h \<in> set ids. h > 0}))"
proof -
  let ?xs = "sorted_list_of_set {h \<in> set ids. h > 0}"
  have pos: "\<forall>x \<in> set ?xs. x > 0" by simp
  have "fold_result inc_host_item (map JInt xs) acc = Inr (acc @ xs)" if "\<forall>x \<in> set xs. x > 0" for xs acc
    using that by (induction xs arbitrary: acc) auto
  from this [OF pos] show ?thesis
    by (simp add: incident_host_ids_def affected_host_ids_json_def loads_dumps_ints dumps_ints_def [symmetric])
       (simp add: dumps_ints_def)
qed

lemma store_ok_empty [simp]: "store_ok (empty_store tid)"
  by (simp add: store_ok_def empty_store_def open_unique_def)

theorem find_or_create_dedup_witness:
  "store_ok (empty_store 1) \<and>
   (\<exists>st' iid ns. find_or_create_incident id 0 (host_incident ''port_error'' ''web: HTTP failed'' ''warning'' [7] ''port_error'' ''down'')
      (empty_store 1) = Inr (st', iid, ns) \<and> store_ok st' \<and> ns \<noteq> [])"
  using find_or_create_dedup [of "empty_store 1" id 0
      "host_incident ''port_error'' ''web: HTTP failed'' ''warning'' [7] ''port_error'' ''down''"]
  by (auto simp: host_incident_def open_matches_def empty_store_def store_ok_def open_unique_def)

text \<open>The dedup hash depends only on which hosts are affected, not on their order; and as long as the
  digest separates the two texts it separates the host lists.\<close>

theorem host_hash_exact:
  assumes "take 16 (sha (join '','' (map show_int (sort xs)))) = take 16 (sha (join '','' (map show_int (sort ys))))
    \<longrightarrow> join '','' (map show_int (sort xs)) = join '','' (map show_int (sort ys))"
  shows "hash_host_ids sha xs = hash_host_ids sha ys \<longleftrightarrow> sort xs = sort ys"
proof -
  have comma: "CHR '','' \<notin> set (show_int i)" for i
    using is_digit_set_show_nat [of "CHR '',''" "nat i"] is_digit_set_show_nat [of "CHR '',''" "nat (- i)"]
    by (auto simp: show_int_def is_digit_def)
  have inj: "inj show_int" by (metis injI option.inject parse_int_show_int)
  have "map show_int as = map show_int bs" if "join '','' (map show_int as) = join '','' (map show_int bs)" for as bs
  proof (cases "as = [] \<or> bs = []")
    case True
    have "join '','' (map show_int cs) \<noteq> []" if "cs \<noteq> []" for cs
      using that by (cases cs; cases "tl cs") auto
    with True that show ?thesis by force
  next
    case False
    have "split_on CHR '','' (join '','' (map show_int cs)) = map show_int cs" if "cs \<noteq> []" for cs
      using that comma by (intro split_on_join) auto
    with False that show ?thesis by metis
  qed
  with assms inj show ?thesis by (auto simp: hash_host_ids_def inj_map_eq_map)
qed

theorem host_hash_exact_witness:
  "hash_host_ids id [3, 1, 2] = hash_host_ids id [2, 3, 1] \<and> hash_host_ids id [1] \<noteq> hash_host_ids id [2]"
  using host_hash_exact [of id "[3, 1, 2]" "[2, 3, 1]"] host_hash_exact [of id "[1]" "[2]"]
  by (simp add: show_int_def) (simp add: show_nat.simps digit_char_def)

text \<open>Pruning is safe: it keeps the store well formed, removes only events older than the retention, and
  never the newest meaningful event of an incident, so every incident that had a summary keeps it.\<close>

theorem cleanup_keeps_summary:
  assumes "store_ok st" and "e \<in> set (st_events st)" and "meaningful e"
    and newest: "\<forall>e' \<in> set (st_events st). meaningful e' \<and> ev_incident_id e' = ev_incident_id e \<longrightarrow> ev_id e' \<le> ev_id e"
  shows "store_ok (fst (cleanup_incident_events now r st)) \<and>
    e \<in> set (st_events (fst (cleanup_incident_events now r st))) \<and>
    (\<forall>x \<in> set (st_events st). now - days r \<le> ev_timestamp x \<longrightarrow>
       x \<in> set (st_events (fst (cleanup_incident_events now r st)))) \<and>
    length (st_events (fst (cleanup_incident_events now r st))) + snd (cleanup_incident_events now r st) = length (st_events st)"
proof -
  let ?S = "{e' \<in> set (st_events st). meaningful e' \<and> ev_incident_id e' = ev_incident_id e}"
  have "Max (ev_id ` ?S) = ev_id e"
    using assms(2,3) newest by (intro Max_eqI) auto
  then have "ev_id e \<in> latest_meaningful st"
    using assms(2,3) unfolding latest_meaningful_def by (intro image_eqI [of _ _ e]) auto
  then have keep: "\<not> prunable c st e" for c by (simp add: prunable_def)
  have len: "length (filter (\<lambda>x. \<not> P x) xs) + length (filter P xs) = length xs" for P and xs :: "incident_event list"
    using sum_length_filter_compl [of P xs] by simp
  have "store_ok (st\<lparr>st_events := filter P (st_events st)\<rparr>)" for P
    using assms(1) by (auto simp: store_ok_def distinct_map_filter)
  moreover have "\<not> prunable (now - days r) st x" if "now - days r \<le> ev_timestamp x" for x
    using that by (simp add: prunable_def)
  ultimately show ?thesis
    using assms(1,2) keep len [of "prunable (now - days r) st"] by (simp add: cleanup_incident_events_def Let_def)
qed

definition old_event :: incident_event where
  "old_event = \<lparr>ev_id = 1, ev_incident_id = 1, ev_timestamp = 0, event_type = ''created'', ev_summary = ''s'', ev_detail = None\<rparr>"

definition one_incident :: store where
  "one_incident = (empty_store 1)\<lparr>st_incidents := [\<lparr>inc_id = 1, inc_tenant = 1, inc_rule = ''port_error'', inc_title = ''t'',
      inc_severity = ''warning'', inc_status = ''open'', host_ids_hash = Some ''h'', inc_host_ids = None, updated_at = 0,
      resolved_at = None, precursor_template = None\<rparr>], st_events := [old_event], next_incident := 2, next_event := 2\<rparr>"

theorem cleanup_keeps_summary_witness:
  "old_event \<in> set (st_events (fst (cleanup_incident_events (days 400) 90 one_incident)))"
  using cleanup_keeps_summary [of one_incident old_event "days 400" 90]
  by (simp add: one_incident_def old_event_def empty_store_def store_ok_def open_unique_def is_open_def meaningful_def)

end
