(* ===== verification/Streaks.thy ===== *)
theory Streaks
  imports Incidents
begin

text \<open>
  The consecutive-cycle counters of the correlation engine (\<^verbatim>\<open>backend/services/correlation.py\<close>):
  \<open>_rule_hit_counts\<close> and \<open>_current_cycle_hits\<close>, counted per tenant, rule and host hash, pruned
  at the end of a tenant's complete cycle. The current tenant comes from the tenancy context, else
  from the session.
\<close>

type_synonym hit_key = "int option \<times> string \<times> string"

record hits =
  hit_counts :: "(hit_key, nat) dict"
  cycle_hits :: "hit_key set"

record tenant_ctx =
  ctx_tenant :: "int option"
  ctx_system :: bool
  session_tenant :: "int option"

definition hit_tenant :: "tenant_ctx \<Rightarrow> bool \<Rightarrow> int option" where
  "hit_tenant c with_db =
     (if ctx_tenant c \<noteq> None \<and> \<not> ctx_system c then ctx_tenant c
      else if with_db then session_tenant c else None)"

definition track_key :: "hit_key \<Rightarrow> hits \<Rightarrow> hits" where
  "track_key key h = h\<lparr>hit_counts := dset (hit_counts h) key (dget_or (hit_counts h) key 0 + 1),
     cycle_hits := insert key (cycle_hits h)\<rparr>"

definition track_rule_hit ::
    "(string \<Rightarrow> string) \<Rightarrow> tenant_ctx \<Rightarrow> string \<Rightarrow> int list \<Rightarrow> int \<Rightarrow> hits \<Rightarrow> hits \<times> bool" where
  "track_rule_hit sha c rl ids min_cycles h =
     (let key = (hit_tenant c True, rl, hash_host_ids sha ids); h' = track_key key h in
      (h', int (dget_or (hit_counts h') key 0) \<ge> min_cycles))"

definition clear_cycle_hits :: "int option \<Rightarrow> hits \<Rightarrow> hits" where
  "clear_cycle_hits tid h =
     h\<lparr>cycle_hits := (if tid = None then {} else {k \<in> cycle_hits h. fst k \<noteq> tid})\<rparr>"

definition prune_stale_hits :: "tenant_ctx \<Rightarrow> hits \<Rightarrow> hits" where
  "prune_stale_hits c h =
     (let tid = hit_tenant c False in
      clear_cycle_hits tid
        (h\<lparr>hit_counts := filter (\<lambda>(k, _). \<not> ((tid = None \<or> fst k = tid) \<and> k \<notin> cycle_hits h)) (hit_counts h)\<rparr>))"

section \<open>Cycles\<close>

text \<open>
  One tenant's cycle as the counters see it: the keys its rules hit, and whether every part of the
  cycle ran (only then stale counters are pruned).
\<close>

record cycle =
  cyc_tenant :: int
  cyc_keys :: "(string \<times> string) list"
  cyc_complete :: bool

definition tenant_context :: "int \<Rightarrow> tenant_ctx" where
  "tenant_context t = \<lparr>ctx_tenant = Some t, ctx_system = False, session_tenant = Some t\<rparr>"

definition run_cycle :: "cycle \<Rightarrow> hits \<Rightarrow> hits" where
  "run_cycle c h =
     (let h' = fold (\<lambda>k. track_key (Some (cyc_tenant c), k)) (cyc_keys c) h in
      if cyc_complete c then prune_stale_hits (tenant_context (cyc_tenant c)) h'
      else clear_cycle_hits (Some (cyc_tenant c)) h')"

text \<open>
  The specification: counting back from the newest cycle of the tenant, the hits on the key, stopping at the first complete
  cycle that did not hit it; and the number of those cycles.
\<close>

fun hits_since :: "int \<Rightarrow> string \<times> string \<Rightarrow> cycle list \<Rightarrow> nat" where
  "hits_since t k [] = 0"
| "hits_since t k (c # older) =
     (if cyc_tenant c \<noteq> t then hits_since t k older
      else if k \<in> set (cyc_keys c) then count_list (cyc_keys c) k + hits_since t k older
      else if cyc_complete c then 0
      else hits_since t k older)"

fun streak :: "int \<Rightarrow> string \<times> string \<Rightarrow> cycle list \<Rightarrow> nat" where
  "streak t k [] = 0"
| "streak t k (c # older) =
     (if cyc_tenant c \<noteq> t then streak t k older
      else if k \<in> set (cyc_keys c) then Suc (streak t k older)
      else if cyc_complete c then 0
      else streak t k older)"

definition no_hits :: hits where
  "no_hits = \<lparr>hit_counts = [], cycle_hits = {}\<rparr>"

lemma fold_track_counts:
  "dget_or (hit_counts (fold (\<lambda>k. track_key (t, k)) ks h)) key 0 =
    dget_or (hit_counts h) key 0 + (if fst key = t then count_list ks (snd key) else 0)"
  by (cases key; induction ks arbitrary: h) (auto simp: track_key_def dict_simps)

lemma fold_track_cycle:
  "cycle_hits (fold (\<lambda>k. track_key (t, k)) ks h) = cycle_hits h \<union> Pair t ` set ks"
  by (induction ks arbitrary: h) (auto simp: track_key_def)

lemma run_cycle_hits: "cycle_hits h = {} \<Longrightarrow> cycle_hits (run_cycle c h) = {}"
  by (auto simp: run_cycle_def prune_stale_hits_def clear_cycle_hits_def hit_tenant_def tenant_context_def
      fold_track_cycle Let_def)

lemma run_cycle_counts:
  assumes "cycle_hits h = {}"
  shows "dget_or (hit_counts (run_cycle c h)) (Some t, k) 0 =
    (if cyc_tenant c \<noteq> t then dget_or (hit_counts h) (Some t, k) 0
     else if k \<in> set (cyc_keys c) then count_list (cyc_keys c) k + dget_or (hit_counts h) (Some t, k) 0
     else if cyc_complete c then 0 else dget_or (hit_counts h) (Some t, k) 0)"
proof -
  let ?h = "fold (\<lambda>k. track_key (Some (cyc_tenant c), k)) (cyc_keys c) h"
  note counts = fold_track_counts [of "Some (cyc_tenant c)" "cyc_keys c" h "(Some t, k)"]
  have hits: "cycle_hits ?h = Pair (Some (cyc_tenant c)) ` set (cyc_keys c)"
    using assms by (simp add: fold_track_cycle)
  show ?thesis
  proof (cases "cyc_complete c")
    case True
    have "dget (hit_counts (run_cycle c h)) (Some t, k) =
        (if t = cyc_tenant c \<and> k \<notin> set (cyc_keys c) then None else dget (hit_counts ?h) (Some t, k))"
      using True by (auto simp: run_cycle_def prune_stale_hits_def clear_cycle_hits_def hit_tenant_def tenant_context_def
          Let_def dget_filter hits)
    with True counts show ?thesis by (auto simp: dget_or_def count_list_0_iff)
  next
    case False
    with counts show ?thesis by (auto simp: run_cycle_def clear_cycle_hits_def Let_def count_list_0_iff)
  qed
qed

lemma runs_hits: "cycle_hits (fold run_cycle cs no_hits) = {}"
  by (induction cs rule: rev_induct) (simp_all add: no_hits_def run_cycle_hits)

lemma hits_refine: "dget_or (hit_counts (fold run_cycle cs no_hits)) (Some t, k) 0 = hits_since t k (rev cs)"
proof (induction cs rule: rev_induct)
  case (snoc c cs)
  then show ?case using run_cycle_counts [OF runs_hits [of cs], of c t k] by simp
qed (simp add: no_hits_def dget_or_def)

lemma hits_are_cycles: "\<forall>c \<in> set cs. cyc_tenant c = t \<longrightarrow> count_list (cyc_keys c) k \<le> 1 \<Longrightarrow> hits_since t k cs = streak t k cs"
  by (induction cs) (auto simp: le_Suc_eq count_list_0_iff)

lemma streak_refines:
  assumes "\<forall>c \<in> set cs. distinct (cyc_keys c)"
  shows "dget_or (hit_counts (fold run_cycle cs no_hits)) (Some t, k) 0 = streak t k (rev cs)"
proof -
  have "count_list xs k \<le> 1" if "distinct xs" for xs :: "(string \<times> string) list"
    using that by (induction xs) (auto simp: count_list_0_iff)
  then show ?thesis using assms hits_are_cycles [of "rev cs" t k] by (simp add: hits_refine)
qed

lemma hits_of_tenant: "hits_since t k cs = hits_since t k (filter (\<lambda>c. cyc_tenant c = t) cs)"
  by (induction cs) auto

text \<open>C19. The counters, exactly: whatever tenants' cycles are interleaved, complete or partial, the counter of a tenant's key is the
  number of hits on it in that tenant's latest cycles that hit it, back to the last complete cycle that missed it. It is the number
  of those cycles exactly as long as none of the tenant's cycles hits the key twice. Other tenants' cycles never change it.\<close>

theorem counters_are_streaks:
  "dget_or (hit_counts (fold run_cycle cs no_hits)) (Some t, k) 0 = hits_since t k (rev cs) \<and>
   ((\<forall>c \<in> set cs. cyc_tenant c = t \<longrightarrow> count_list (cyc_keys c) k \<le> 1) \<longrightarrow> hits_since t k (rev cs) = streak t k (rev cs)) \<and>
   hits_since t k (rev cs) = hits_since t k (rev (filter (\<lambda>c. cyc_tenant c = t) cs))"
  using hits_refine [of cs t k] hits_are_cycles [of "rev cs" t k] hits_of_tenant [of t k "rev cs"] by (simp add: rev_filter)

theorem counters_are_streaks_witness:
  "let c1 = \<lparr>cyc_tenant = 1, cyc_keys = [(''port_error'', ''h'')], cyc_complete = True\<rparr>;
       c2 = \<lparr>cyc_tenant = 2, cyc_keys = [], cyc_complete = True\<rparr>
   in dget_or (hit_counts (fold run_cycle [c1, c2, c1] no_hits)) (Some 1, (''port_error'', ''h'')) 0 = 2 \<and>
      hits_since 1 (''port_error'', ''h'') (rev [c1, c2, c1]) = streak 1 (''port_error'', ''h'') (rev [c1, c2, c1])"
  using counters_are_streaks [of "[\<lparr>cyc_tenant = 1, cyc_keys = [(''port_error'', ''h'')], cyc_complete = True\<rparr>,
      \<lparr>cyc_tenant = 2, cyc_keys = [], cyc_complete = True\<rparr>,
      \<lparr>cyc_tenant = 1, cyc_keys = [(''port_error'', ''h'')], cyc_complete = True\<rparr>]" 1 "(''port_error'', ''h'')"]
  by simp

text \<open>A key that one cycle hits twice has a counter of two after that single cycle.\<close>

lemma double_hit_counts_twice:
  "dget_or (hit_counts (run_cycle \<lparr>cyc_tenant = t, cyc_keys = [k, k], cyc_complete = b\<rparr> no_hits)) (Some t, k) 0 = 2"
  using run_cycle_counts [of no_hits "\<lparr>cyc_tenant = t, cyc_keys = [k, k], cyc_complete = b\<rparr>" t k] by (simp add: no_hits_def dget_or_def)

end
