(* ===== verification/Integration_Alerts.thy ===== *)
theory Integration_Alerts
  imports Incidents
begin

text \<open>
  \<^verbatim>\<open>backend/services/integration_alerts.py\<close>: incidents from integration snapshots. The session's
  state is the incident store, the in-process streaks and the queue of notifications to send after
  the commit; the rows the functions read (hosts, windows, snapshots, configurations) are arguments.
  \<open>parse_alerts\<close> of the individual integrations is an argument (the list of alerts), as is the
  validity check of a bracketed IPv6 literal in a URL.
\<close>

definition ALERT_RULE :: string where "ALERT_RULE = ''integration_alert''"
definition FAILED_RULE :: string where "FAILED_RULE = ''integration_failed''"
definition RULES :: "string list" where "RULES = [ALERT_RULE, FAILED_RULE]"
definition ALERT_MIN_CYCLES :: nat where "ALERT_MIN_CYCLES = 2"
definition FAILED_MIN_SNAPSHOTS :: nat where "FAILED_MIN_SNAPSHOTS = 2"
definition FAILED_MIN_MINUTES :: int where "FAILED_MIN_MINUTES = 10"
definition INCIDENT_SEVERITIES :: "string set" where "INCIDENT_SEVERITIES = {''critical'', ''warning''}"
definition ENDPOINT_KEYS :: "string list" where
  "ENDPOINT_KEYS = [''host'', ''hostname'', ''url'', ''base_url'', ''api_url'', ''endpoint'', ''server'', ''address'']"

record alert_config = integration_config +
  cfg_cluster_group :: "string option"
  cfg_tenant :: "int option"

record alert =
  al_severity :: string
  al_title :: string
  al_detail :: string
  al_entity :: string
  al_host :: string

record full_host = ping_host +
  ip_address :: "string option"
  host_source :: "string option"

record session =
  ss_store :: store
  ss_streaks :: "(int option \<times> string, nat) dict"
  ss_pending :: "notice list"

section \<open>Keys\<close>

definition source :: "(string \<Rightarrow> string) \<Rightarrow> alert_config \<Rightarrow> string" where
  "source sha cfg =
     (case cfg_cluster_group cfg of
        Some g \<Rightarrow> (if g \<noteq> [] then ''g'' @ take 12 (sha (cfg_type cfg @ ''/'' @ g)) else show_int (cfg_id cfg))
      | None \<Rightarrow> show_int (cfg_id cfg))"

definition alert_prefix :: "(string \<Rightarrow> string) \<Rightarrow> alert_config \<Rightarrow> string" where
  "alert_prefix sha cfg = ''ia:'' @ source sha cfg @ '':''"

definition alert_key :: "(string \<Rightarrow> string) \<Rightarrow> alert_config \<Rightarrow> alert \<Rightarrow> string" where
  "alert_key sha cfg a = ''ia:'' @ source sha cfg @ '':'' @ take 16 (sha (al_title a @ ''|'' @ al_entity a))"

definition failed_key :: "alert_config \<Rightarrow> string" where
  "failed_key cfg = ''if:'' @ show_int (cfg_id cfg)"

definition alert_title :: "alert_config \<Rightarrow> alert \<Rightarrow> string" where
  "alert_title cfg a = text_take 256 (cfg_name cfg @ '': '' @ al_title a @
     (if al_entity a \<noteq> [] then '' '' @ [CHR 0xE2, CHR 0x80, CHR 0x93] @ '' '' @ al_entity a else []))"

section \<open>Hosts\<close>

text \<open>\<^verbatim>\<open>urlsplit(v).hostname\<close> on lower-case text; \<open>None\<close> where it raises or there is no host.\<close>

definition scheme_char :: "char \<Rightarrow> bool" where
  "scheme_char c \<longleftrightarrow> is_lower c \<or> is_upper c \<or> is_digit c \<or> c \<in> set ''+-.''"

definition url_rest :: "string \<Rightarrow> string" where
  "url_rest v =
     (let u = filter (\<lambda>c. c \<notin> {CHR 0x09, CHR 0x0A, CHR 0x0D}) v; s = takeWhile (\<lambda>c. c \<noteq> CHR '':'') u in
      if s \<noteq> u \<and> s \<noteq> [] \<and> (is_lower (hd s) \<or> is_upper (hd s)) \<and> list_all scheme_char s
      then drop (length s + 1) u else u)"

definition url_netloc :: "string \<Rightarrow> string" where
  "url_netloc v = (let r = url_rest v in
     if startswith r ''//'' then takeWhile (\<lambda>c. c \<notin> set ''/?#'') (drop 2 r) else [])"

definition after_at :: "string \<Rightarrow> string" where
  "after_at s = rev (takeWhile (\<lambda>c. c \<noteq> CHR ''@'') (rev s))"

definition url_hostname :: "(string \<Rightarrow> bool) \<Rightarrow> string \<Rightarrow> string option" where
  "url_hostname bracket_ok v =
     (let n = url_netloc v; h = after_at n in
      if (CHR ''['' \<in> set n) \<noteq> (CHR '']'' \<in> set n) then None
      else if CHR ''['' \<in> set n then
        (let inner = takeWhile (\<lambda>c. c \<noteq> CHR '']'') (tl (dropWhile (\<lambda>c. c \<noteq> CHR ''['') h)) in
         if bracket_ok n \<and> inner \<noteq> [] then Some inner else None)
      else (let p = takeWhile (\<lambda>c. c \<noteq> CHR '':'') h in if p = [] then None else Some p))"

definition strip_dots :: "string \<Rightarrow> string" where
  "strip_dots s = rev (dropWhile (\<lambda>c. c = CHR ''.'') (rev (dropWhile (\<lambda>c. c = CHR ''.'') s)))"

definition bare :: "(string \<Rightarrow> bool) \<Rightarrow> string \<Rightarrow> string" where
  "bare bracket_ok value =
     (let v = str_lower (strip value) in
      if v = [] then []
      else (case url_hostname bracket_ok (if contains ''://'' v then v else ''//'' @ v) of
              None \<Rightarrow> [] | Some h \<Rightarrow> strip_dots h))"

definition endpoint_of :: "(string \<Rightarrow> bool) \<Rightarrow> (string, json) dict \<Rightarrow> string" where
  "endpoint_of bracket_ok config =
     (case filter (\<lambda>h. h \<noteq> []) (map (\<lambda>k. case dget config k of Some (JStr s) \<Rightarrow> bare bracket_ok s | _ \<Rightarrow> []) ENDPOINT_KEYS) of
        [] \<Rightarrow> [] | h # _ \<Rightarrow> h)"

definition setdefault :: "('k, 'v) dict \<Rightarrow> 'k \<Rightarrow> 'v \<Rightarrow> ('k, 'v) dict" where
  "setdefault d k v = (if dget d k = None then dset d k v else d)"

definition opt_str :: "string option \<Rightarrow> string" where
  "opt_str v = (case v of None \<Rightarrow> [] | Some s \<Rightarrow> s)"

definition index_names :: "(string \<Rightarrow> bool) \<Rightarrow> full_host \<Rightarrow> (string, full_host) dict \<Rightarrow> (string, full_host) dict" where
  "index_names bracket_ok h d =
     fold (\<lambda>v d. let key = bare bracket_ok v in if key \<noteq> [] then setdefault d key h else d)
       [hostname h, opt_str (ip_address h), host_name h] d"

definition short_label :: "(string \<Rightarrow> bool) \<Rightarrow> full_host \<Rightarrow> string" where
  "short_label bracket_ok h = hd (split_on CHR ''.'' (bare bracket_ok (hostname h)))"

definition index_short :: "(string \<Rightarrow> bool) \<Rightarrow> full_host list \<Rightarrow> (string, full_host list) dict" where
  "index_short bracket_ok hosts =
     foldl (\<lambda>d h. let l = short_label bracket_ok h in if l \<noteq> [] then dset d l (dget_or d l [] @ [h]) else d) [] hosts"

definition host_index :: "(string \<Rightarrow> bool) \<Rightarrow> full_host list \<Rightarrow> (string, full_host) dict" where
  "host_index bracket_ok hosts =
     foldl (\<lambda>d (label, found). case found of [h] \<Rightarrow> setdefault d label h | _ \<Rightarrow> d)
       (fold (index_names bracket_ok) hosts []) (index_short bracket_ok hosts)"

definition index_find :: "(string \<Rightarrow> bool) \<Rightarrow> (string, full_host) dict \<Rightarrow> string \<Rightarrow> full_host option" where
  "index_find bracket_ok idx value =
     (let key = bare bracket_ok value in
      if key = [] then None
      else case dget idx key of Some h \<Rightarrow> Some h | None \<Rightarrow> dget idx (hd (split_on CHR ''.'' key)))"

definition in_maintenance :: "tzdb \<Rightarrow> datetime \<Rightarrow> window_spec list \<Rightarrow> full_host option list \<Rightarrow> bool" where
  "in_maintenance tz now ws hs =
     list_ex (\<lambda>h. case h of None \<Rightarrow> False | Some x \<Rightarrow> is_in_maintenance tz (ping_host.truncate x) now ws) hs"

section \<open>Notifications\<close>

definition pending_count :: "session \<Rightarrow> nat" where
  "pending_count s = length (ss_pending s)"

definition drop_since :: "nat \<Rightarrow> session \<Rightarrow> session" where
  "drop_since n s = s\<lparr>ss_pending := take n (ss_pending s)\<rparr>"

definition take_notifications :: "session \<Rightarrow> notice list \<times> session" where
  "take_notifications s = (ss_pending s, s\<lparr>ss_pending := []\<rparr>)"

section \<open>Incident steps\<close>

definition open_exact :: "string \<Rightarrow> string \<Rightarrow> store \<Rightarrow> incident list" where
  "open_exact rl key st = open_matches rl key st"

definition open_like :: "string \<Rightarrow> string \<Rightarrow> store \<Rightarrow> incident list" where
  "open_like rl key st = filter (\<lambda>i. inc_rule i = rl \<and> is_open i \<and>
     (case host_ids_hash i of None \<Rightarrow> False | Some h \<Rightarrow> startswith h key)) (st_incidents st)"

definition keyed_incident ::
    "string \<Rightarrow> string \<Rightarrow> string \<Rightarrow> string \<Rightarrow> string \<Rightarrow> string \<Rightarrow> int list \<Rightarrow> incident_spec" where
  "keyed_incident rl title severity etype summary key ids =
     \<lparr>sp_rule = rl, sp_title = title, sp_severity = severity, sp_host_ids = [], sp_event_type = etype, sp_summary = summary,
      sp_detail = None, sp_key_hash = Some key, sp_notify = False, sp_affected = Some ids\<rparr>"

definition open_or_extend :: "(string \<Rightarrow> string) \<Rightarrow> datetime \<Rightarrow> incident_spec \<Rightarrow> session \<Rightarrow> session result" where
  "open_or_extend sha now sp s =
     (let existed = open_exact (sp_rule sp) (opt_str (sp_key_hash sp)) (ss_store s) \<noteq> [] in
      bind_result (find_or_create_incident sha now sp (ss_store s)) (\<lambda>(st, iid, _).
        Inr (s\<lparr>ss_store := st, ss_pending := ss_pending s @
          (if existed then []
           else [\<lparr>n_title = red_circle @ '' Incident: '' @ sp_title sp, n_body = sp_summary sp,
                  n_severity = sp_severity sp, n_link = incident_link iid\<rparr>])\<rparr>)))"

definition resolve :: "datetime \<Rightarrow> string \<Rightarrow> incident \<Rightarrow> session \<Rightarrow> session" where
  "resolve now summary i s =
     s\<lparr>ss_store := resolve_incident now (inc_id i) summary (ss_store s), ss_pending := ss_pending s @ [resolved_note i summary]\<rparr>"

record site =
  si_sha :: "string \<Rightarrow> string"
  si_bracket :: "string \<Rightarrow> bool"
  si_tz :: tzdb
  si_now :: datetime
  si_windows :: "window_spec list"
  si_hosts :: "full_host list"

definition current_alerts :: "(string \<Rightarrow> string) \<Rightarrow> alert_config \<Rightarrow> alert list \<Rightarrow> (string, alert) dict" where
  "current_alerts sha cfg alerts =
     foldl (\<lambda>d a. setdefault d (alert_key sha cfg a) a) [] (filter (\<lambda>a. al_severity a \<in> INCIDENT_SEVERITIES) alerts)"

definition end_streaks :: "int option \<Rightarrow> string \<Rightarrow> (string, alert) dict \<Rightarrow> session \<Rightarrow> session" where
  "end_streaks tenant prefix current s =
     s\<lparr>ss_streaks := filter (\<lambda>(k, _). \<not> (fst k = tenant \<and> startswith (snd k) prefix \<and> dget current (snd k) = None)) (ss_streaks s)\<rparr>"

text \<open>The device an alert names, and the integration's own endpoint.\<close>

definition alert_hosts :: "site \<Rightarrow> (string, json) dict \<Rightarrow> alert \<Rightarrow> full_host option \<times> full_host option" where
  "alert_hosts si config a =
     (let idx = host_index (si_bracket si) (si_hosts si) in
      (if al_host a \<noteq> [] then index_find (si_bracket si) idx (al_host a) else None,
       index_find (si_bracket si) idx (endpoint_of (si_bracket si) config)))"

definition alert_quiet :: "site \<Rightarrow> (string, json) dict \<Rightarrow> alert \<Rightarrow> bool" where
  "alert_quiet si config a = (case alert_hosts si config a of (device, own) \<Rightarrow>
     in_maintenance (si_tz si) (si_now si) (si_windows si) [device, own])"

definition alert_affected :: "site \<Rightarrow> (string, json) dict \<Rightarrow> alert \<Rightarrow> int list" where
  "alert_affected si config a = (case alert_hosts si config a of (device, own) \<Rightarrow>
     (case device of Some h \<Rightarrow> [host_id h] | None \<Rightarrow> (case own of Some h \<Rightarrow> [host_id h] | None \<Rightarrow> [])))"

definition alert_step ::
    "site \<Rightarrow> alert_config \<Rightarrow> (string, json) dict \<Rightarrow> (string, incident) dict \<Rightarrow> string \<times> alert \<Rightarrow> session \<Rightarrow> session result" where
  "alert_step si cfg config open_keys ka s = (case ka of (key, a) \<Rightarrow>
     (let n = dget_or (ss_streaks s) (cfg_tenant cfg, key) 0 + 1;
          s1 = s\<lparr>ss_streaks := dset (ss_streaks s) (cfg_tenant cfg, key) n\<rparr>;
          fresh = (dget open_keys key = None)
      in if fresh \<and> n < ALERT_MIN_CYCLES then Inr s1
         else if fresh \<and> alert_quiet si config a then Inr s1
         else open_or_extend (si_sha si) (si_now si)
                (keyed_incident ALERT_RULE (alert_title cfg a) (al_severity a) ''integration_alert''
                   (if al_detail a \<noteq> [] then al_detail a else al_title a) key (alert_affected si config a)) s1))"

definition open_by_key :: "string \<Rightarrow> store \<Rightarrow> (string, incident) dict" where
  "open_by_key prefix st = foldl (\<lambda>d i. dset d (the (host_ids_hash i)) i) [] (open_like ALERT_RULE prefix st)"

definition evaluate_alerts :: "site \<Rightarrow> alert_config \<Rightarrow> (string, json) dict \<Rightarrow> alert list option \<Rightarrow> session \<Rightarrow> session result" where
  "evaluate_alerts si cfg config parsed s =
     (case parsed of
        None \<Rightarrow> Inr s
      | Some alerts \<Rightarrow>
          (let prefix = alert_prefix (si_sha si) cfg; current = current_alerts (si_sha si) cfg alerts;
               s1 = end_streaks (cfg_tenant cfg) prefix current s;
               open_keys = open_by_key prefix (ss_store s1)
           in bind_result (fold_result (alert_step si cfg config open_keys) current s1) (\<lambda>s2.
                Inr (fold (\<lambda>(key, i) s. if dget current key = None
                       then resolve (si_now si) (''Resolved: '' @ cfg_name cfg @ '' no longer reports this'') i s else s)
                     open_keys s2))))"

record snap_row =
  sr_ok :: bool
  sr_timestamp :: datetime

text \<open>The snapshots of the configuration, newest first.\<close>

definition failing_long :: "datetime \<Rightarrow> snap_row list \<Rightarrow> bool" where
  "failing_long now snaps \<longleftrightarrow>
     (let recent = take FAILED_MIN_SNAPSHOTS snaps in
      \<not> (length recent < FAILED_MIN_SNAPSHOTS \<or> list_ex sr_ok recent) \<and>
      (case find sr_ok snaps of None \<Rightarrow> True | Some r \<Rightarrow> \<not> now - sr_timestamp r < minutes FAILED_MIN_MINUTES))"

definition failure_host :: "site \<Rightarrow> (string, json) dict \<Rightarrow> full_host option" where
  "failure_host si config =
     index_find (si_bracket si) (host_index (si_bracket si) (si_hosts si)) (endpoint_of (si_bracket si) config)"

definition failure_text :: "alert_config \<Rightarrow> string option \<Rightarrow> string" where
  "failure_text cfg err = cfg_type cfg @ '' integration '' @ quoted (cfg_name cfg) @ '' failed: ''
     @ (case err of None \<Rightarrow> ''unknown error'' | Some m \<Rightarrow> if m = [] then ''unknown error'' else m)"

definition record_failure ::
    "site \<Rightarrow> alert_config \<Rightarrow> string option \<Rightarrow> (string, json) dict \<Rightarrow> snap_row list \<Rightarrow> session \<Rightarrow> session result" where
  "record_failure si cfg err config snaps s =
     (if \<not> failing_long (si_now si) snaps then Inr s
      else
        (let key = failed_key cfg; host = failure_host si config in
         if open_exact FAILED_RULE key (ss_store s) = [] \<and> in_maintenance (si_tz si) (si_now si) (si_windows si) [host] then Inr s
         else open_or_extend (si_sha si) (si_now si)
                (keyed_incident FAILED_RULE (text_take 256 (cfg_name cfg @ '': integration cannot collect'')) ''warning'' ''integration_error''
                   (failure_text cfg err) key (case host of None \<Rightarrow> [] | Some h \<Rightarrow> [host_id h])) s))"

definition record_success :: "datetime \<Rightarrow> alert_config \<Rightarrow> session \<Rightarrow> session" where
  "record_success now cfg s =
     fold (resolve now (''Resolved: '' @ cfg_name cfg @ '' collects again'')) (open_exact FAILED_RULE (failed_key cfg) (ss_store s)) s"

definition open_incidents_for :: "(string \<Rightarrow> string) \<Rightarrow> alert_config \<Rightarrow> store \<Rightarrow> incident list" where
  "open_incidents_for sha cfg st = open_like ALERT_RULE (alert_prefix sha cfg) st @ open_exact FAILED_RULE (failed_key cfg) st"

definition belongs :: "(string \<Rightarrow> string) \<Rightarrow> alert_config \<Rightarrow> incident \<Rightarrow> bool" where
  "belongs sha cfg i =
     (let key = opt_str (host_ids_hash i) in
      if inc_rule i = FAILED_RULE then key = failed_key cfg
      else inc_rule i = ALERT_RULE \<and> startswith key (alert_prefix sha cfg))"

definition open_counts :: "(string \<Rightarrow> string) \<Rightarrow> alert_config list \<Rightarrow> store \<Rightarrow> (int, nat) dict" where
  "open_counts sha configs st =
     foldl (\<lambda>d c. dset d (cfg_id c) (length (filter (belongs sha c)
        (filter (\<lambda>i. inc_rule i \<in> set RULES \<and> is_open i) (st_incidents st))))) [] configs"

text \<open>\<^verbatim>\<open>key.rsplit(":", 1)[0] + ":"\<close>.\<close>

definition key_prefix :: "string \<Rightarrow> string" where
  "key_prefix key = (let r = dropWhile (\<lambda>c. c \<noteq> CHR '':'') (rev key) in (if r = [] then key else rev (tl r)) @ '':'')"

definition live_keys :: "(string \<Rightarrow> string) \<Rightarrow> alert_config list \<Rightarrow> string set" where
  "live_keys sha configs = alert_prefix sha ` set (filter cfg_enabled configs) \<union> failed_key ` set (filter cfg_enabled configs)"

definition orphan_key :: "(string \<Rightarrow> string) \<Rightarrow> alert_config list \<Rightarrow> string \<Rightarrow> string \<Rightarrow> bool" where
  "orphan_key sha configs rl key \<longleftrightarrow> (if rl = FAILED_RULE then key else key_prefix key) \<notin> live_keys sha configs"

definition orphaned :: "(string \<Rightarrow> string) \<Rightarrow> alert_config list \<Rightarrow> string \<Rightarrow> incident \<Rightarrow> bool" where
  "orphaned sha configs rl i = orphan_key sha configs rl (opt_str (host_ids_hash i))"

definition orphan_step :: "(string \<Rightarrow> string) \<Rightarrow> datetime \<Rightarrow> alert_config list \<Rightarrow> string \<Rightarrow> session \<times> nat \<Rightarrow> session \<times> nat" where
  "orphan_step sha now configs rl sn =
     fold (\<lambda>i (s, n). if orphaned sha configs rl i
             then (resolve now ''Resolved: the integration was removed or disabled'' i s, n + 1) else (s, n))
       (open_like rl [] (ss_store (fst sn))) sn"

definition resolve_orphans :: "(string \<Rightarrow> string) \<Rightarrow> datetime \<Rightarrow> alert_config list \<Rightarrow> session \<Rightarrow> session \<times> nat" where
  "resolve_orphans sha now configs s = fold (orphan_step sha now configs) RULES (s, 0)"

section \<open>Steps on the abstract view\<close>

lemma keyed_fields [simp]:
  "sp_rule (keyed_incident rl ti sv et su key ids) = rl"
  "key \<noteq> [] \<Longrightarrow> dedup_key sha (keyed_incident rl ti sv et su key ids) = key"
  by (simp_all add: keyed_incident_def dedup_key_def)

lemma open_or_extend_ok:
  assumes "store_ok (ss_store s)" and "key \<noteq> []"
  shows "\<exists>s' iid. open_or_extend sha now (keyed_incident rl ti sv et su key ids) s = Inr s' \<and> store_ok (ss_store s') \<and>
    open_rows (ss_store s') = insert (iid, rl, key) (open_rows (ss_store s)) \<and> ss_streaks s' = ss_streaks s"
proof -
  let ?sp = "keyed_incident rl ti sv et su key ids"
  obtain st' iid ns where f: "find_or_create_incident sha now ?sp (ss_store s) = Inr (st', iid, ns)" and "store_ok st'"
    using find_or_create_ok [OF assms(1), of sha now ?sp] by blast
  moreover have "open_rows st' = insert (iid, rl, key) (open_rows (ss_store s))"
    using find_or_create_rows [OF assms(1) f] assms(2) by simp
  ultimately show ?thesis by (auto simp: open_or_extend_def Let_def)
qed

lemma alert_key_ne [simp]: "alert_key sha cfg a \<noteq> []" "startswith (alert_key sha cfg a) (alert_prefix sha cfg)"
  by (simp_all add: alert_key_def alert_prefix_def startswith_iff)

lemma current_alerts_keys: "(k, a) \<in> set (current_alerts sha cfg alerts) \<Longrightarrow> k = alert_key sha cfg a"
proof -
  have "set (foldl (\<lambda>d a. setdefault d (alert_key sha cfg a) a) d xs) \<subseteq> set d \<union> (\<lambda>a. (alert_key sha cfg a, a)) ` set xs" for d xs
  proof (induction xs arbitrary: d)
    case (Cons x xs)
    have "set (setdefault d (alert_key sha cfg x) x) \<subseteq> insert (alert_key sha cfg x, x) (set d)"
      using set_dset [of d] by (auto simp: setdefault_def)
    with Cons.IH [of "setdefault d (alert_key sha cfg x) x"] show ?case by auto
  qed simp
  from this [of "[]"] show "(k, a) \<in> set (current_alerts sha cfg alerts) \<Longrightarrow> k = alert_key sha cfg a"
    unfolding current_alerts_def by fastforce
qed

lemma current_alerts_ok: "dict_ok (current_alerts sha cfg alerts)"
proof -
  have "dict_ok d \<Longrightarrow> dict_ok (foldl (\<lambda>d a. setdefault d (alert_key sha cfg a) a) d xs)" for d xs
    by (induction xs arbitrary: d) (auto simp: setdefault_def)
  then show ?thesis by (simp add: current_alerts_def)
qed

lemma dget_current:
  "dget (current_alerts sha cfg alerts) k \<noteq> None \<longleftrightarrow> (\<exists>a. (k, a) \<in> set (current_alerts sha cfg alerts))"
  by (force simp: dget_def map_of_eq_None_iff)

text \<open>Whether an alert opens (or continues) an incident in this snapshot.\<close>

definition opens :: "site \<Rightarrow> alert_config \<Rightarrow> (string, json) dict \<Rightarrow> (string, incident) dict
    \<Rightarrow> (int option \<times> string, nat) dict \<Rightarrow> string \<times> alert \<Rightarrow> bool" where
  "opens si cfg config open_keys streaks ka = (case ka of (key, a) \<Rightarrow>
     dget open_keys key \<noteq> None \<or> dget_or streaks (cfg_tenant cfg, key) 0 \<ge> 1 \<and> \<not> alert_quiet si config a)"

lemma alert_step_ok:
  assumes "store_ok (ss_store s)" and "key \<noteq> []"
  shows "\<exists>s'. alert_step si cfg config open_keys (key, a) s = Inr s' \<and> store_ok (ss_store s') \<and>
    ss_streaks s' = dset (ss_streaks s) (cfg_tenant cfg, key) (dget_or (ss_streaks s) (cfg_tenant cfg, key) 0 + 1) \<and>
    (if opens si cfg config open_keys (ss_streaks s) (key, a)
     then \<exists>iid. open_rows (ss_store s') = insert (iid, ALERT_RULE, key) (open_rows (ss_store s))
     else ss_store s' = ss_store s)"
proof -
  let ?s = "s\<lparr>ss_streaks := dset (ss_streaks s) (cfg_tenant cfg, key) (dget_or (ss_streaks s) (cfg_tenant cfg, key) 0 + 1)\<rparr>"
  have ok: "store_ok (ss_store ?s)" using assms(1) by simp
  show ?thesis
  proof (cases "opens si cfg config open_keys (ss_streaks s) (key, a)")
    case True
    then have "alert_step si cfg config open_keys (key, a) s = open_or_extend (si_sha si) (si_now si)
        (keyed_incident ALERT_RULE (alert_title cfg a) (al_severity a) ''integration_alert''
           (if al_detail a \<noteq> [] then al_detail a else al_title a) key (alert_affected si config a)) ?s"
      by (auto simp: alert_step_def opens_def ALERT_MIN_CYCLES_def Let_def)
    with True open_or_extend_ok [OF ok assms(2), of "si_sha si" "si_now si" ALERT_RULE] show ?thesis by fastforce
  next
    case False
    then show ?thesis using assms(1) by (auto simp: alert_step_def opens_def ALERT_MIN_CYCLES_def Let_def)
  qed
qed

lemma alert_steps_ok:
  assumes "store_ok (ss_store s)" and "distinct (map fst kas)" and "[] \<notin> fst ` set kas"
  shows "\<exists>s' N. fold_result (alert_step si cfg config open_keys) kas s = Inr s' \<and> store_ok (ss_store s') \<and>
    open_rows (ss_store s') = open_rows (ss_store s) \<union> N \<and>
    snd ` N = {(ALERT_RULE, k) | k a. (k, a) \<in> set kas \<and> opens si cfg config open_keys (ss_streaks s) (k, a)}"
  using assms
proof (induction kas arbitrary: s)
  case (Cons ka kas)
  obtain key a where ka: "ka = (key, a)" by (cases ka)
  from Cons.prems ka have "key \<noteq> []" by auto
  from alert_step_ok [OF Cons.prems(1) this, of si cfg config open_keys a] ka obtain s1 where
    s1: "alert_step si cfg config open_keys ka s = Inr s1" "store_ok (ss_store s1)"
      "ss_streaks s1 = dset (ss_streaks s) (cfg_tenant cfg, key) (dget_or (ss_streaks s) (cfg_tenant cfg, key) 0 + 1)"
      "if opens si cfg config open_keys (ss_streaks s) (key, a)
       then \<exists>iid. open_rows (ss_store s1) = insert (iid, ALERT_RULE, key) (open_rows (ss_store s))
       else ss_store s1 = ss_store s" by auto
  from Cons.IH [OF s1(2)] Cons.prems obtain s2 N where
    s2: "fold_result (alert_step si cfg config open_keys) kas s1 = Inr s2" "store_ok (ss_store s2)"
      "open_rows (ss_store s2) = open_rows (ss_store s1) \<union> N"
      "snd ` N = {(ALERT_RULE, k) | k a. (k, a) \<in> set kas \<and> opens si cfg config open_keys (ss_streaks s1) (k, a)}" by auto
  have same: "opens si cfg config open_keys (ss_streaks s1) (k, b) = opens si cfg config open_keys (ss_streaks s) (k, b)"
    if "(k, b) \<in> set kas" for k b
    using Cons.prems(2) that ka s1(3) by (force simp: opens_def dict_simps)
  have N: "snd ` N = {(ALERT_RULE, k) | k b. (k, b) \<in> set kas \<and> opens si cfg config open_keys (ss_streaks s) (k, b)}"
    unfolding s2(4) using same by blast
  show ?case
  proof (cases "opens si cfg config open_keys (ss_streaks s) (key, a)")
    case True
    with s1(4) obtain iid where "open_rows (ss_store s1) = insert (iid, ALERT_RULE, key) (open_rows (ss_store s))" by auto
    with s2(3) have "open_rows (ss_store s2) = open_rows (ss_store s) \<union> insert (iid, ALERT_RULE, key) N" by auto
    moreover have "snd ` insert (iid, ALERT_RULE, key) N =
        {(ALERT_RULE, k) | k b. (k, b) \<in> set (ka # kas) \<and> opens si cfg config open_keys (ss_streaks s) (k, b)}"
      unfolding image_insert N using True ka by auto
    ultimately show ?thesis using s1(1) s2(1,2) by (intro exI [of _ s2] exI [of _ "insert (iid, ALERT_RULE, key) N"]) simp
  next
    case False
    then have "{(ALERT_RULE, k) | k b. (k, b) \<in> set kas \<and> opens si cfg config open_keys (ss_streaks s) (k, b)} =
        {(ALERT_RULE, k) | k b. (k, b) \<in> set (ka # kas) \<and> opens si cfg config open_keys (ss_streaks s) (k, b)}"
      using ka by auto
    with False s1(1,4) s2(1-3) N show ?thesis by (intro exI [of _ s2] exI [of _ N]) simp
  qed
qed auto

lemma open_like_iff:
  "i \<in> set (open_like rl p st) \<longleftrightarrow>
   i \<in> set (st_incidents st) \<and> inc_rule i = rl \<and> is_open i \<and> (\<exists>h. host_ids_hash i = Some h \<and> startswith h p)"
  by (auto simp: open_like_def split: option.splits)

lemma open_by_key_iff:
  assumes "store_ok st"
  shows "(k, i) \<in> set (open_by_key p st) \<longleftrightarrow> i \<in> set (open_like ALERT_RULE p st) \<and> host_ids_hash i = Some k"
proof
  assume "(k, i) \<in> set (open_by_key p st)"
  then have "i \<in> set (open_like ALERT_RULE p st)" "k = the (host_ids_hash i)"
    using fold_dset_values [of k i "\<lambda>i. the (host_ids_hash i)" "\<lambda>i. i" "[]" "open_like ALERT_RULE p st"]
    by (auto simp: open_by_key_def)
  then show "i \<in> set (open_like ALERT_RULE p st) \<and> host_ids_hash i = Some k" by (auto simp: open_like_iff)
next
  assume i: "i \<in> set (open_like ALERT_RULE p st) \<and> host_ids_hash i = Some k"
  have uniq: "open_unique (st_incidents st)" "distinct (map inc_id (st_incidents st))" using assms by (simp_all add: store_ok_def)
  have "inj_on (\<lambda>i. the (host_ids_hash i)) (set (open_like ALERT_RULE p st))"
  proof (rule inj_onI)
    fix x y assume x: "x \<in> set (open_like ALERT_RULE p st)" and y: "y \<in> set (open_like ALERT_RULE p st)"
      and "the (host_ids_hash x) = the (host_ids_hash y)"
    then have "inc_id x = inc_id y" using open_uniqueD [OF uniq(1), of x y] by (auto simp: open_like_iff)
    with x y uniq(2) show "x = y" by (auto simp: open_like_iff dest: distinct_map_unique)
  qed
  moreover have "distinct (open_like ALERT_RULE p st)" using uniq(2) by (simp add: open_like_def distinct_map)
  ultimately have "dget (open_by_key p st) (the (host_ids_hash i)) = Some i"
    unfolding open_by_key_def using i by (intro dget_fold_dset [of "\<lambda>i. the (host_ids_hash i)"]) (auto simp: distinct_map)
  with i show "(k, i) \<in> set (open_by_key p st)" by (auto simp: dget_def dest: map_of_SomeD)
qed

lemma open_by_key_rows:
  assumes "store_ok st"
  shows "{inc_id i | k i. (k, i) \<in> set (open_by_key p st) \<and> P k} = {x. \<exists>k. (x, ALERT_RULE, k) \<in> open_rows st \<and> startswith k p \<and> P k}"
  unfolding open_by_key_iff [OF assms] by (auto simp: open_like_iff mem_open_rows)

lemma dget_open_by_key:
  assumes "store_ok st"
  shows "dget (open_by_key p st) k \<noteq> None \<longleftrightarrow> (ALERT_RULE, k) \<in> open_keys_of st \<and> startswith k p"
proof -
  have "dget (open_by_key p st) k \<noteq> None \<longleftrightarrow> (\<exists>i. (k, i) \<in> set (open_by_key p st))"
    by (force simp: dget_def map_of_eq_None_iff)
  then show ?thesis unfolding open_by_key_iff [OF assms] by (auto simp: open_like_iff mem_open_keys)
qed

lemma ids_resolve: "inc_id ` set (st_incidents (resolve_incident now iid su st)) = inc_id ` set (st_incidents st)"
  by (simp add: resolve_incident_def ids_update_set)

lemma open_rows_ids: "(x, k) \<in> open_rows st \<Longrightarrow> x \<in> inc_id ` set (st_incidents st)"
  by (cases k) (auto simp: mem_open_rows)

lemma fold_resolve:
  assumes "store_ok (ss_store s)" and "\<forall>(k, i) \<in> set kis. P k \<longrightarrow> inc_id i \<in> inc_id ` set (st_incidents (ss_store s))"
  shows "store_ok (ss_store (fold (\<lambda>(k, i) s. if P k then resolve now su i s else s) kis s)) \<and>
    open_rows (ss_store (fold (\<lambda>(k, i) s. if P k then resolve now su i s else s) kis s)) =
      {r \<in> open_rows (ss_store s). fst r \<notin> {inc_id i | k i. (k, i) \<in> set kis \<and> P k}}"
  using assms
proof (induction kis arbitrary: s)
  case (Cons ki kis)
  obtain k i where ki: "ki = (k, i)" by (cases ki)
  let ?s = "if P k then resolve now su i s else s"
  have ok: "store_ok (ss_store ?s)"
    using Cons.prems ki by (auto simp: resolve_def intro!: store_ok_resolve)
  have "inc_id ` set (st_incidents (ss_store ?s)) = inc_id ` set (st_incidents (ss_store s))"
    by (simp add: resolve_def ids_resolve)
  then have "store_ok (ss_store (fold (\<lambda>(k, i) s. if P k then resolve now su i s else s) kis ?s)) \<and>
      open_rows (ss_store (fold (\<lambda>(k, i) s. if P k then resolve now su i s else s) kis ?s)) =
        {r \<in> open_rows (ss_store ?s). fst r \<notin> {inc_id i | k i. (k, i) \<in> set kis \<and> P k}}"
    using Cons.prems(2) by (intro Cons.IH [OF ok]) auto
  moreover have "open_rows (ss_store ?s) = {r \<in> open_rows (ss_store s). \<not> (P k \<and> fst r = inc_id i)}"
    by (auto simp: resolve_def resolve_rows)
  ultimately show ?case using ki by auto
qed simp

lemma kept_rows:
  assumes "store_ok st2" and "open_rows st2 = rows \<union> N"
    and R: "R = {x. \<exists>k. (x, rl0, k) \<in> rows \<and> Q k}" and "\<And>k. k \<in> snd ` N \<Longrightarrow> \<not> Q (snd k)"
  shows "snd ` {r \<in> rows \<union> N. fst r \<notin> R} = {(rl, k) \<in> snd ` rows. \<not> (rl = rl0 \<and> Q k)} \<union> snd ` N"
proof (rule set_eqI)
  fix y :: "string \<times> string"
  obtain rl k where y: "y = (rl, k)" by (cases y)
  have row: "a = b" if "(x, a) \<in> rows \<union> N" "(x, b) \<in> rows \<union> N" for x a b
    using open_rows_id [OF assms(1)] assms(2) that by blast
  show "y \<in> snd ` {r \<in> rows \<union> N. fst r \<notin> R} \<longleftrightarrow> y \<in> {(rl, k) \<in> snd ` rows. \<not> (rl = rl0 \<and> Q k)} \<union> snd ` N"
  proof
    assume "y \<in> snd ` {r \<in> rows \<union> N. fst r \<notin> R}"
    then obtain x where "(x, rl, k) \<in> rows \<union> N" "x \<notin> R" using y by force
    then show "y \<in> {(rl, k) \<in> snd ` rows. \<not> (rl = rl0 \<and> Q k)} \<union> snd ` N" using y R by force
  next
    assume "y \<in> {(rl, k) \<in> snd ` rows. \<not> (rl = rl0 \<and> Q k)} \<union> snd ` N"
    then have "(rl, k) \<in> snd ` (rows \<union> N)" and nq: "\<not> (rl = rl0 \<and> Q k)"
      using y assms(4) [of y] by (auto simp: image_Un)
    then obtain x where x: "(x, rl, k) \<in> rows \<union> N" by force
    have "x \<notin> R"
    proof
      assume "x \<in> R"
      then obtain k' where "(x, rl0, k') \<in> rows" "Q k'" using R by blast
      with row [OF x, of "(rl0, k')"] nq show False by simp
    qed
    with x y show "y \<in> snd ` {r \<in> rows \<union> N. fst r \<notin> R}" by force
  qed
qed

lemma end_streaks_current:
  "dget current k \<noteq> None \<Longrightarrow> dget_or (ss_streaks (end_streaks tenant p current s)) (tenant, k) 0 = dget_or (ss_streaks s) (tenant, k) 0"
  using dget_filter [of "\<lambda>k. \<not> (fst k = tenant \<and> startswith (snd k) p \<and> dget current (snd k) = None)" "ss_streaks s" "(tenant, k)"]
  by (simp add: end_streaks_def dget_or_def)

section \<open>Properties\<close>

text \<open>Refinement of one snapshot's evaluation, on a well-formed store: it never raises and keeps the store well
  formed, and on the set of keys with an open incident it does exactly this: keys of this source that
  are no longer reported close; a reported key opens if the previous snapshot reported it too and neither
  its device nor the integration's endpoint is in maintenance; everything else is untouched.\<close>

theorem evaluate_alerts_refines:
  assumes "store_ok (ss_store s)"
  shows "\<exists>s'. evaluate_alerts si cfg config (Some alerts) s = Inr s' \<and> store_ok (ss_store s') \<and>
    open_keys_of (ss_store s') =
      {(rl, k) \<in> open_keys_of (ss_store s). \<not> (rl = ALERT_RULE \<and> startswith k (alert_prefix (si_sha si) cfg) \<and>
         dget (current_alerts (si_sha si) cfg alerts) k = None)} \<union>
      {(ALERT_RULE, k) | k a. (k, a) \<in> set (current_alerts (si_sha si) cfg alerts) \<and>
         dget_or (ss_streaks s) (cfg_tenant cfg, k) 0 \<ge> 1 \<and> \<not> alert_quiet si config a}"
proof -
  let ?cur = "current_alerts (si_sha si) cfg alerts" and ?p = "alert_prefix (si_sha si) cfg" and ?st = "ss_store s"
  let ?s1 = "end_streaks (cfg_tenant cfg) ?p ?cur s" and ?ok = "open_by_key ?p ?st"
  let ?gone = "\<lambda>k. dget ?cur k = None"
  have st1: "ss_store ?s1 = ?st" by (simp add: end_streaks_def)
  have ne: "[] \<notin> fst ` set ?cur"
    using current_alerts_keys [of _ _ "si_sha si" cfg alerts] by (force simp del: alert_key_ne simp: alert_key_def)
  have dist: "distinct (map fst ?cur)" using current_alerts_ok by (simp add: dict_ok_def dkeys_def)
  obtain s2 N where s2: "fold_result (alert_step si cfg config ?ok) ?cur ?s1 = Inr s2" "store_ok (ss_store s2)"
    "open_rows (ss_store s2) = open_rows ?st \<union> N"
    "snd ` N = {(ALERT_RULE, k) | k a. (k, a) \<in> set ?cur \<and> opens si cfg config ?ok (ss_streaks ?s1) (k, a)}"
    using alert_steps_ok [OF _ dist ne, of ?s1 si cfg config ?ok] assms st1 by auto
  let ?R = "{x. \<exists>k. (x, ALERT_RULE, k) \<in> open_rows ?st \<and> startswith k ?p \<and> ?gone k}"
  define s' where "s' = fold (\<lambda>(key, i) s. if ?gone key
      then resolve (si_now si) (''Resolved: '' @ cfg_name cfg @ '' no longer reports this'') i s else s) ?ok s2"
  have ids: "inc_id i \<in> inc_id ` set (st_incidents (ss_store s2))" if "(k, i) \<in> set ?ok" "?gone k" for k i
  proof -
    have "inc_id i \<in> ?R" using open_by_key_rows [OF assms, of ?p ?gone] that by blast
    then show ?thesis using s2(3) open_rows_ids by blast
  qed
  then have "\<forall>(k, i) \<in> set ?ok. ?gone k \<longrightarrow> inc_id i \<in> inc_id ` set (st_incidents (ss_store s2))" by auto
  from fold_resolve [OF s2(2) this] open_by_key_rows [OF assms, of ?p ?gone]
  have fin: "store_ok (ss_store s')" "open_rows (ss_store s') = {r \<in> open_rows (ss_store s2). fst r \<notin> ?R}"
    unfolding s'_def by auto
  have "evaluate_alerts si cfg config (Some alerts) s = Inr s'"
    using s2(1) st1 by (simp add: evaluate_alerts_def Let_def s'_def)
  moreover have "open_keys_of (ss_store s') = {(rl, k) \<in> open_keys_of ?st. \<not> (rl = ALERT_RULE \<and> startswith k ?p \<and> ?gone k)} \<union> snd ` N"
  proof -
    have "\<not> (startswith (snd y) ?p \<and> ?gone (snd y))" if "y \<in> snd ` N" for y
      using that dget_current [of "si_sha si" cfg alerts] unfolding s2(4) by auto
    then show ?thesis
      using kept_rows [OF s2(2,3), of ?R ALERT_RULE "\<lambda>k. startswith k ?p \<and> ?gone k"] fin(2) s2(3) by (simp add: open_keys_rows)
  qed
  moreover have "{(rl, k) \<in> open_keys_of ?st. \<not> (rl = ALERT_RULE \<and> startswith k ?p \<and> ?gone k)} \<union> snd ` N =
      {(rl, k) \<in> open_keys_of ?st. \<not> (rl = ALERT_RULE \<and> startswith k ?p \<and> ?gone k)} \<union>
      {(ALERT_RULE, k) | k a. (k, a) \<in> set ?cur \<and> dget_or (ss_streaks s) (cfg_tenant cfg, k) 0 \<ge> 1 \<and> \<not> alert_quiet si config a}"
  proof -
    have "opens si cfg config ?ok (ss_streaks ?s1) (k, a) \<longleftrightarrow> (ALERT_RULE, k) \<in> open_keys_of ?st \<or>
        dget_or (ss_streaks s) (cfg_tenant cfg, k) 0 \<ge> 1 \<and> \<not> alert_quiet si config a"
      and "\<not> ?gone k" if "(k, a) \<in> set ?cur" for k a
    proof -
      from that show ng: "\<not> ?gone k" using dget_current [of "si_sha si" cfg alerts k] by auto
      have "startswith k ?p" using current_alerts_keys [OF that] by simp
      with ng show "opens si cfg config ?ok (ss_streaks ?s1) (k, a) \<longleftrightarrow> (ALERT_RULE, k) \<in> open_keys_of ?st \<or>
        dget_or (ss_streaks s) (cfg_tenant cfg, k) 0 \<ge> 1 \<and> \<not> alert_quiet si config a"
        using dget_open_by_key [OF assms, of ?p k] by (simp add: opens_def end_streaks_current)
    qed
    then show ?thesis unfolding s2(4) by blast
  qed
  ultimately show ?thesis using fin(1) by auto
qed

section \<open>Sources do not mix\<close>

definition digest_ok :: "(string \<Rightarrow> string) \<Rightarrow> bool" where
  "digest_ok sha \<longleftrightarrow> (\<forall>x. CHR '':'' \<notin> set (sha x))"

lemma colon_show_int: "CHR '':'' \<notin> set (show_int i)"
  using is_digit_set_show_nat [of "CHR '':''" "nat i"] is_digit_set_show_nat [of "CHR '':''" "nat (- i)"]
  by (auto simp: show_int_def is_digit_def)

lemma colon_source: "digest_ok sha \<Longrightarrow> CHR '':'' \<notin> set (source sha cfg)"
  using colon_show_int by (auto simp: source_def digest_ok_def dest: in_set_takeD split: option.splits)

lemma append_colon_eq:
  "CHR '':'' \<notin> set a \<Longrightarrow> CHR '':'' \<notin> set b \<Longrightarrow> a @ CHR '':'' # x = b @ CHR '':'' # y \<longleftrightarrow> a = b \<and> x = y"
proof (induction a arbitrary: b)
  case (Cons c a)
  then show ?case by (cases b) auto
qed (auto simp: Cons_eq_append_conv)

lemma key_of_source:
  assumes "digest_ok sha"
  shows "startswith (alert_key sha c a) (alert_prefix sha c') \<longleftrightarrow> source sha c' = source sha c"
proof
  assume "startswith (alert_key sha c a) (alert_prefix sha c')"
  then obtain r where "alert_key sha c a = alert_prefix sha c' @ r"
    unfolding startswith_iff by (metis append_take_drop_id)
  then show "source sha c' = source sha c"
    using append_colon_eq [OF colon_source [OF assms, of c] colon_source [OF assms, of c']]
    by (auto simp: alert_key_def alert_prefix_def)
qed (simp add: alert_key_def alert_prefix_def startswith_iff)

lemma key_prefix_alert_key:
  assumes "digest_ok sha"
  shows "key_prefix (alert_key sha c a) = alert_prefix sha c"
proof -
  have d: "CHR '':'' \<notin> set (take 16 (sha x))" for x using assms by (auto simp: digest_ok_def dest: in_set_takeD)
  have "dropWhile (\<lambda>c. c \<noteq> CHR '':'') (rev (p @ CHR '':'' # q)) = CHR '':'' # rev p" if "CHR '':'' \<notin> set q" for p q :: string
    using that by (auto simp: dropWhile_append3 dropWhile_append)
  from this [OF d, of "''ia:'' @ source sha c" "al_title a @ ''|'' @ al_entity a"]
  show ?thesis by (simp add: key_prefix_def alert_key_def alert_prefix_def)
qed

text \<open>Where the keys of integration incidents come from.\<close>

definition keys_from :: "(string \<Rightarrow> string) \<Rightarrow> store \<Rightarrow> bool" where
  "keys_from sha st \<longleftrightarrow> (\<forall>i \<in> set (st_incidents st). is_open i \<longrightarrow>
     (inc_rule i = ALERT_RULE \<longrightarrow> (\<exists>c a. host_ids_hash i = Some (alert_key sha c a))) \<and>
     (inc_rule i = FAILED_RULE \<longrightarrow> (\<exists>c. host_ids_hash i = Some (failed_key c))))"

lemma rules_differ [simp]: "ALERT_RULE \<noteq> FAILED_RULE" "FAILED_RULE \<noteq> ALERT_RULE"
  by (simp_all add: ALERT_RULE_def FAILED_RULE_def)

lemma last_failed_key: "last (failed_key c) \<noteq> CHR '':''" "failed_key c \<noteq> alert_prefix sha c'"
proof -
  show l: "last (failed_key c) \<noteq> CHR '':''"
  proof -
    have "last (failed_key c) = last (show_int (cfg_id c))" by (simp add: failed_key_def)
    then show ?thesis using colon_show_int [of "cfg_id c"] last_in_set [OF show_int_ne [of "cfg_id c"]] by metis
  qed
  have "last (alert_prefix sha c') = CHR '':''" by (simp add: alert_prefix_def)
  with l show "failed_key c \<noteq> alert_prefix sha c'" by metis
qed

lemma orphaned_iff:
  assumes "digest_ok sha" and "keys_from sha st" and "i \<in> set (st_incidents st)" and "is_open i" and "inc_rule i \<in> set RULES"
  shows "orphaned sha configs (inc_rule i) i \<longleftrightarrow> \<not> (\<exists>c \<in> set configs. cfg_enabled c \<and> belongs sha c i)"
proof (cases "inc_rule i = FAILED_RULE")
  case True
  with assms(2-4) obtain c where "host_ids_hash i = Some (failed_key c)" by (auto simp: keys_from_def)
  with True last_failed_key(2) show ?thesis
    by (auto simp: orphaned_def orphan_key_def belongs_def opt_str_def live_keys_def image_iff)
next
  case False
  with assms(5) have r: "inc_rule i = ALERT_RULE" by (auto simp: RULES_def)
  with assms(2-4) obtain c a where k: "host_ids_hash i = Some (alert_key sha c a)" by (auto simp: keys_from_def)
  have "alert_prefix sha c = alert_prefix sha c' \<longleftrightarrow> source sha c' = source sha c" for c'
    by (auto simp: alert_prefix_def)
  with r k last_failed_key(2) [of _ sha c] show ?thesis
    unfolding orphaned_def orphan_key_def belongs_def opt_str_def live_keys_def
    by (auto simp: key_prefix_alert_key [OF assms(1)] key_of_source [OF assms(1)] image_iff) metis+
qed

lemma orphan_step_rows:
  assumes "store_ok (ss_store (fst sn))"
  shows "store_ok (ss_store (fst (orphan_step sha now configs rl sn))) \<and>
    open_rows (ss_store (fst (orphan_step sha now configs rl sn))) =
      {r \<in> open_rows (ss_store (fst sn)). fst r \<notin> inc_id ` {i \<in> set (open_like rl [] (ss_store (fst sn))). orphaned sha configs rl i}}"
proof -
  let ?su = "''Resolved: the integration was removed or disabled''"
  have "fst (fold (\<lambda>i (s, n). if orphaned sha configs rl i then (resolve now ?su i s, n + 1) else (s, n)) xs sn) =
      fold (\<lambda>(k, i) s. if orphaned sha configs rl k then resolve now ?su i s else s) (map (\<lambda>i. (i, i)) xs) (fst sn)" for xs and sn :: "session \<times> nat"
    by (induction xs arbitrary: sn) (auto split: prod.splits)
  moreover have "\<forall>(k, i) \<in> set (map (\<lambda>i. (i, i)) (open_like rl [] (ss_store (fst sn)))). orphaned sha configs rl k \<longrightarrow>
      inc_id i \<in> inc_id ` set (st_incidents (ss_store (fst sn)))" by (auto simp: open_like_iff)
  from fold_resolve [OF assms this, of now ?su]
  have "store_ok (ss_store (fold (\<lambda>(k, i) s. if orphaned sha configs rl k then resolve now ?su i s else s)
        (map (\<lambda>i. (i, i)) (open_like rl [] (ss_store (fst sn)))) (fst sn))) \<and>
    open_rows (ss_store (fold (\<lambda>(k, i) s. if orphaned sha configs rl k then resolve now ?su i s else s)
        (map (\<lambda>i. (i, i)) (open_like rl [] (ss_store (fst sn)))) (fst sn))) =
      {r \<in> open_rows (ss_store (fst sn)). fst r \<notin> inc_id ` {i \<in> set (open_like rl [] (ss_store (fst sn))). orphaned sha configs rl i}}"
    by (auto simp: image_iff)
  ultimately show ?thesis by (simp add: orphan_step_def)
qed

lemma orphan_ids:
  assumes "store_ok st" and "(x, rl', h) \<in> open_rows st"
  shows "x \<in> inc_id ` {i \<in> set (open_like rl [] st). orphaned sha configs rl i} \<longleftrightarrow> rl' = rl \<and> orphan_key sha configs rl h"
proof -
  from assms(2) obtain j where j: "j \<in> set (st_incidents st)" "is_open j" "inc_id j = x" "inc_rule j = rl'" "host_ids_hash j = Some h"
    by (auto simp: mem_open_rows)
  have same: "i = j" if "i \<in> set (st_incidents st)" "inc_id i = x" for i
    using assms(1) that j by (auto simp: store_ok_def dest: distinct_map_unique)
  have like: "j \<in> set (open_like rl [] st) \<longleftrightarrow> rl' = rl" using j by (auto simp: open_like_iff)
  have orph: "orphaned sha configs rl j \<longleftrightarrow> orphan_key sha configs rl h" using j(5) by (simp add: orphaned_def opt_str_def)
  have "x \<in> inc_id ` {i \<in> set (open_like rl [] st). orphaned sha configs rl i} \<longleftrightarrow> j \<in> {i \<in> set (open_like rl [] st). orphaned sha configs rl i}"
  proof
    assume "x \<in> inc_id ` {i \<in> set (open_like rl [] st). orphaned sha configs rl i}"
    then obtain i where i: "i \<in> set (open_like rl [] st)" "orphaned sha configs rl i" "x = inc_id i" by blast
    then have "i = j" by (intro same) (simp_all add: open_like_iff)
    with i show "j \<in> {i \<in> set (open_like rl [] st). orphaned sha configs rl i}" by blast
  qed (use j(3) in blast)
  with like orph show ?thesis by simp
qed

lemma orphan_step_keys:
  assumes "store_ok (ss_store (fst sn))"
  shows "open_rows (ss_store (fst (orphan_step sha now configs rl sn))) =
      {(x, rl', h) \<in> open_rows (ss_store (fst sn)). \<not> (rl' = rl \<and> orphan_key sha configs rl h)}"
proof (rule set_eqI)
  fix r :: "int \<times> string \<times> string"
  obtain x rl' h where r: "r = (x, rl', h)" by (cases r) auto
  show "r \<in> open_rows (ss_store (fst (orphan_step sha now configs rl sn))) \<longleftrightarrow>
      r \<in> {(x, rl', h) \<in> open_rows (ss_store (fst sn)). \<not> (rl' = rl \<and> orphan_key sha configs rl h)}"
    using orphan_step_rows [OF assms, of sha now configs rl] orphan_ids [OF assms, of x rl' h rl sha configs] r by (cases "r \<in> open_rows (ss_store (fst sn))") simp_all
qed

lemma resolve_orphans_rows:
  assumes "store_ok (ss_store s)"
  shows "store_ok (ss_store (fst (resolve_orphans sha now configs s))) \<and>
    open_rows (ss_store (fst (resolve_orphans sha now configs s))) =
      {(x, rl, h) \<in> open_rows (ss_store s). \<not> (rl \<in> set RULES \<and> orphan_key sha configs rl h)}"
proof -
  have s: "store_ok (ss_store (fst (s, 0 :: nat)))" using assms by simp
  let ?s1 = "orphan_step sha now configs ALERT_RULE (s, 0)"
  have s1: "store_ok (ss_store (fst ?s1))" using orphan_step_rows [OF s] by blast
  have "store_ok (ss_store (fst (orphan_step sha now configs FAILED_RULE ?s1)))" using orphan_step_rows [OF s1] by blast
  with orphan_step_keys [OF s, of sha now configs ALERT_RULE] orphan_step_keys [OF s1, of sha now configs FAILED_RULE]
  show ?thesis by (auto simp: resolve_orphans_def RULES_def)
qed

text \<open>Orphans: on a well-formed store whose integration keys were made by these functions, \<open>resolve_orphans\<close>
  leaves an integration incident open exactly when it belongs to an enabled configuration, and touches
  no other open incident.\<close>

theorem resolve_orphans_exact:
  assumes "store_ok (ss_store s)" and "digest_ok sha" and "keys_from sha (ss_store s)"
    and "i \<in> set (st_incidents (ss_store s))" and "is_open i" and "host_ids_hash i = Some h"
  shows "(inc_id i, inc_rule i, h) \<in> open_rows (ss_store (fst (resolve_orphans sha now configs s))) \<longleftrightarrow>
    (if inc_rule i \<in> set RULES then \<exists>c \<in> set configs. cfg_enabled c \<and> belongs sha c i else True)"
proof -
  have row: "(inc_id i, inc_rule i, h) \<in> open_rows (ss_store s)" using assms(4-6) by (auto simp: mem_open_rows)
  have "orphan_key sha configs (inc_rule i) h = orphaned sha configs (inc_rule i) i"
    using assms(6) by (simp add: orphaned_def opt_str_def)
  with row orphaned_iff [OF assms(2,3,4,5)] resolve_orphans_rows [OF assms(1), of sha now configs] show ?thesis by auto
qed

lemma failing_long_iff:
  "failing_long now snaps \<longleftrightarrow> 2 \<le> length snaps \<and> \<not> sr_ok (snaps ! 0) \<and> \<not> sr_ok (snaps ! 1) \<and>
     (case find sr_ok snaps of None \<Rightarrow> True | Some r \<Rightarrow> sr_timestamp r + minutes 10 \<le> now)"
proof -
  have "\<not> (length (take 2 snaps) < 2 \<or> list_ex sr_ok (take 2 snaps)) \<longleftrightarrow> 2 \<le> length snaps \<and> \<not> sr_ok (snaps ! 0) \<and> \<not> sr_ok (snaps ! 1)"
    by (cases snaps; cases "tl snaps") auto
  then show ?thesis
    unfolding failing_long_def Let_def FAILED_MIN_SNAPSHOTS_def FAILED_MIN_MINUTES_def by (auto split: option.splits)
qed

lemma record_success_keys:
  assumes "store_ok (ss_store s)"
  shows "open_keys_of (ss_store (record_success now cfg s)) = open_keys_of (ss_store s) - {(FAILED_RULE, failed_key cfg)}"
proof -
  have "ss_store (fold (resolve now msg) is s) = fold (\<lambda>i. resolve_incident now (inc_id i) msg) is (ss_store s)" for msg "is"
    by (induction "is" arbitrary: s) (simp_all add: resolve_def)
  then show ?thesis using resolve_matches(2) [OF assms] by (simp add: record_success_def open_exact_def)
qed

text \<open>The failure incident of an integration, on a well-formed store: \<open>record_failure\<close> never raises and opens
  (or continues) exactly the configuration's own key, and only when the last two collections failed,
  the last success (if any) is ten minutes old, and the incident is already open or its host is not in
  maintenance; \<open>record_success\<close> closes exactly that key.\<close>

theorem failure_lifecycle:
  assumes "store_ok (ss_store s)"
  shows "(\<exists>s'. record_failure si cfg err config snaps s = Inr s' \<and> store_ok (ss_store s') \<and>
     open_keys_of (ss_store s') = open_keys_of (ss_store s) \<union>
       (if 2 \<le> length snaps \<and> \<not> sr_ok (snaps ! 0) \<and> \<not> sr_ok (snaps ! 1) \<and>
           (case find sr_ok snaps of None \<Rightarrow> True | Some r \<Rightarrow> sr_timestamp r + minutes 10 \<le> si_now si) \<and>
           ((FAILED_RULE, failed_key cfg) \<in> open_keys_of (ss_store s) \<or>
            \<not> in_maintenance (si_tz si) (si_now si) (si_windows si) [failure_host si config])
        then {(FAILED_RULE, failed_key cfg)} else {})) \<and>
    open_keys_of (ss_store (record_success now cfg s)) = open_keys_of (ss_store s) - {(FAILED_RULE, failed_key cfg)}"
proof
  have ne: "failed_key cfg \<noteq> []" by (simp add: failed_key_def)
  let ?quiet = "open_exact FAILED_RULE (failed_key cfg) (ss_store s) = [] \<and>
    in_maintenance (si_tz si) (si_now si) (si_windows si) [failure_host si config]"
  have quiet: "((FAILED_RULE, failed_key cfg) \<in> open_keys_of (ss_store s) \<or>
      \<not> in_maintenance (si_tz si) (si_now si) (si_windows si) [failure_host si config]) \<longleftrightarrow> \<not> ?quiet"
    by (auto simp: open_keys_iff open_exact_def)
  show "\<exists>s'. record_failure si cfg err config snaps s = Inr s' \<and> store_ok (ss_store s') \<and>
     open_keys_of (ss_store s') = open_keys_of (ss_store s) \<union>
       (if 2 \<le> length snaps \<and> \<not> sr_ok (snaps ! 0) \<and> \<not> sr_ok (snaps ! 1) \<and>
           (case find sr_ok snaps of None \<Rightarrow> True | Some r \<Rightarrow> sr_timestamp r + minutes 10 \<le> si_now si) \<and>
           ((FAILED_RULE, failed_key cfg) \<in> open_keys_of (ss_store s) \<or>
            \<not> in_maintenance (si_tz si) (si_now si) (si_windows si) [failure_host si config])
        then {(FAILED_RULE, failed_key cfg)} else {})"
  proof -
    have cond: "(2 \<le> length snaps \<and> \<not> sr_ok (snaps ! 0) \<and> \<not> sr_ok (snaps ! 1) \<and>
           (case find sr_ok snaps of None \<Rightarrow> True | Some r \<Rightarrow> sr_timestamp r + minutes 10 \<le> si_now si) \<and>
           ((FAILED_RULE, failed_key cfg) \<in> open_keys_of (ss_store s) \<or>
            \<not> in_maintenance (si_tz si) (si_now si) (si_windows si) [failure_host si config]))
        \<longleftrightarrow> failing_long (si_now si) snaps \<and> \<not> ?quiet"
      unfolding failing_long_iff quiet by blast
    show ?thesis
    proof (cases "failing_long (si_now si) snaps \<and> \<not> ?quiet")
      case True
      then obtain s' iid where "record_failure si cfg err config snaps s = Inr s'" "store_ok (ss_store s')"
        "open_rows (ss_store s') = insert (iid, FAILED_RULE, failed_key cfg) (open_rows (ss_store s))"
        using open_or_extend_ok [OF assms ne, of "si_sha si" "si_now si" FAILED_RULE] unfolding record_failure_def Let_def
        by (metis (no_types, lifting))
      then show ?thesis unfolding cond if_P [OF True] by (simp add: open_keys_rows)
    next
      case False
      then have "record_failure si cfg err config snaps s = Inr s" by (auto simp: record_failure_def Let_def)
      then show ?thesis using assms unfolding cond if_not_P [OF False] by simp
    qed
  qed
  show "open_keys_of (ss_store (record_success now cfg s)) = open_keys_of (ss_store s) - {(FAILED_RULE, failed_key cfg)}"
    by (rule record_success_keys [OF assms])
qed

section \<open>Concrete runs\<close>

definition demo_sha :: "string \<Rightarrow> string" where "demo_sha x = ''0f'' @ filter (\<lambda>c. c \<noteq> CHR '':'') x"

definition demo_cfg :: alert_config where
  "demo_cfg = \<lparr>cfg_id = 3, cfg_type = ''truenas'', cfg_name = ''nas'', cfg_enabled = True, cfg_cluster_group = None, cfg_tenant = Some 1\<rparr>"

definition disk_alert :: alert where
  "disk_alert = \<lparr>al_severity = ''critical'', al_title = ''Disk failed'', al_detail = [], al_entity = ''sda'', al_host = []\<rparr>"

definition demo_site :: site where
  "demo_site = \<lparr>si_sha = demo_sha, si_bracket = (\<lambda>_. False), si_tz = utc_only, si_now = 0, si_windows = [], si_hosts = []\<rparr>"

definition demo_session :: session where
  "demo_session = \<lparr>ss_store = empty_store 1, ss_streaks = [((Some 1, alert_key demo_sha demo_cfg disk_alert), 1)], ss_pending = []\<rparr>"

lemma demo_quiet: "\<not> alert_quiet demo_site [] disk_alert"
  by (simp add: alert_quiet_def alert_hosts_def in_maintenance_def demo_site_def disk_alert_def host_index_def index_short_def
      index_find_def dget_def Let_def)

theorem evaluate_alerts_refines_witness:
  "store_ok (ss_store demo_session) \<and>
   (\<exists>s'. evaluate_alerts demo_site demo_cfg [] (Some [disk_alert]) demo_session = Inr s' \<and>
      (ALERT_RULE, alert_key demo_sha demo_cfg disk_alert) \<in> open_keys_of (ss_store s'))"
proof -
  have ok: "store_ok (ss_store demo_session)" by (simp add: demo_session_def)
  have cur: "current_alerts (si_sha demo_site) demo_cfg [disk_alert] = [(alert_key demo_sha demo_cfg disk_alert, disk_alert)]"
    by (simp add: current_alerts_def demo_site_def disk_alert_def INCIDENT_SEVERITIES_def setdefault_def)
  have "dget_or (ss_streaks demo_session) (cfg_tenant demo_cfg, alert_key demo_sha demo_cfg disk_alert) 0 = 1"
    by (simp add: demo_session_def demo_cfg_def dget_or_def dget_def)
  with evaluate_alerts_refines [OF ok, of demo_site demo_cfg "[]" "[disk_alert]"] ok demo_quiet show ?thesis
    unfolding cur by auto
qed

definition orphan_session :: session where
  "orphan_session = demo_session\<lparr>ss_store := one_incident\<lparr>st_incidents := [(hd (st_incidents one_incident))
     \<lparr>inc_rule := ALERT_RULE, host_ids_hash := Some (alert_key demo_sha demo_cfg disk_alert)\<rparr>]\<rparr>\<rparr>"

theorem resolve_orphans_exact_witness:
  "(1, ALERT_RULE, alert_key demo_sha demo_cfg disk_alert) \<in> open_rows (ss_store orphan_session) \<and>
   (1, ALERT_RULE, alert_key demo_sha demo_cfg disk_alert) \<notin> open_rows (ss_store (fst (resolve_orphans demo_sha 5 [] orphan_session)))"
proof -
  let ?i = "(hd (st_incidents one_incident))\<lparr>inc_rule := ALERT_RULE, host_ids_hash := Some (alert_key demo_sha demo_cfg disk_alert)\<rparr>"
  have st: "st_incidents (ss_store orphan_session) = [?i]" by (simp add: orphan_session_def)
  have i: "inc_id ?i = 1" "inc_rule ?i = ALERT_RULE" "is_open ?i" by (simp_all add: one_incident_def is_open_def)
  have ok: "store_ok (ss_store orphan_session)"
    by (simp add: orphan_session_def one_incident_def old_event_def empty_store_def store_ok_def open_unique_def is_open_def)
  have d: "digest_ok demo_sha" by (simp add: digest_ok_def demo_sha_def)
  have k: "keys_from demo_sha (ss_store orphan_session)" using st i by (auto simp: keys_from_def)
  from resolve_orphans_exact [OF ok d k, of ?i _ 5 "[]"] st i show ?thesis by (auto simp: mem_open_rows RULES_def)
qed

theorem failure_lifecycle_witness:
  "store_ok (ss_store demo_session) \<and>
   open_keys_of (ss_store (record_success 0 demo_cfg demo_session)) = open_keys_of (ss_store demo_session) - {(FAILED_RULE, failed_key demo_cfg)} \<and>
   (\<exists>s'. record_failure demo_site demo_cfg None [] [\<lparr>sr_ok = False, sr_timestamp = 0\<rparr>, \<lparr>sr_ok = False, sr_timestamp = 0\<rparr>] demo_session = Inr s' \<and>
      (FAILED_RULE, failed_key demo_cfg) \<in> open_keys_of (ss_store s'))"
proof -
  have ok: "store_ok (ss_store demo_session)" by (simp add: demo_session_def)
  have "\<not> in_maintenance (si_tz demo_site) (si_now demo_site) (si_windows demo_site) [failure_host demo_site []]"
    by (simp add: in_maintenance_def failure_host_def demo_site_def host_index_def index_short_def index_find_def dget_def Let_def)
  with failure_lifecycle [OF ok, of demo_site demo_cfg None "[]" "[\<lparr>sr_ok = False, sr_timestamp = 0\<rparr>, \<lparr>sr_ok = False, sr_timestamp = 0\<rparr>]" 0] ok
  show ?thesis by auto
qed

end
