(* ===== verification/Json_Print.thy ===== *)
theory Json_Print
  imports Json
begin

text \<open>
  The printer \<^verbatim>\<open>json.dumps\<close> with its defaults (separators, \<^verbatim>\<open>ensure_ascii\<close>), and the round trip
  through \<open>loads\<close> for values without floats. Text is UTF-8 bytes, so the
  printer first decodes the code points.
\<close>

section \<open>Strings\<close>

definition cont_bits :: "char \<Rightarrow> nat" where
  "cont_bits c = of_char c mod 64"

fun utf8_decode :: "string \<Rightarrow> nat list" where
  "utf8_decode [] = []"
| "utf8_decode (c # s) =
     (let n = of_char c :: nat in
      if n < 192 then n # utf8_decode s
      else if n < 224 then (n mod 32 * 64 + sum_list (map2 (\<lambda>w b. w * cont_bits b) [1] (take 1 s))) # utf8_decode (drop 1 s)
      else if n < 240 then (n mod 16 * 4096 + sum_list (map2 (\<lambda>w b. w * cont_bits b) [64, 1] (take 2 s))) # utf8_decode (drop 2 s)
      else (n mod 8 * 262144 + sum_list (map2 (\<lambda>w b. w * cont_bits b) [4096, 64, 1] (take 3 s))) # utf8_decode (drop 3 s))"

definition u_escape :: "nat \<Rightarrow> string" where
  "u_escape n = [CHR 0x5C, CHR ''u''] @ map hex_digit [n div 4096 mod 16, n div 256 mod 16, n div 16 mod 16, n mod 16]"

definition json_cp :: "nat \<Rightarrow> string" where
  "json_cp n =
     (if n = 34 then [CHR 0x5C, CHR 0x22] else if n = 92 then [CHR 0x5C, CHR 0x5C]
      else if n = 10 then [CHR 0x5C, CHR ''n''] else if n = 13 then [CHR 0x5C, CHR ''r'']
      else if n = 9 then [CHR 0x5C, CHR ''t''] else if n = 8 then [CHR 0x5C, CHR ''b'']
      else if n = 12 then [CHR 0x5C, CHR ''f'']
      else if 32 \<le> n \<and> n < 127 then [char_of n]
      else if n < 65536 then u_escape n
      else u_escape (0xD800 + (n - 65536) div 1024) @ u_escape (0xDC00 + (n - 65536) mod 1024))"

definition dumps_str :: "string \<Rightarrow> string" where
  "dumps_str s = [CHR 0x22] @ concat (map json_cp (utf8_decode s)) @ [CHR 0x22]"

section \<open>Values\<close>

fun dumps_float :: "(pyfloat \<Rightarrow> string) \<Rightarrow> pyfloat \<Rightarrow> string" where
  "dumps_float frepr NaN = ''NaN''"
| "dumps_float frepr PosInf = ''Infinity''"
| "dumps_float frepr NegInf = ''-Infinity''"
| "dumps_float frepr f = frepr f"

fun dumps :: "(pyfloat \<Rightarrow> string) \<Rightarrow> json \<Rightarrow> string" where
  "dumps frepr JNull = ''null''"
| "dumps frepr (JBool b) = (if b then ''true'' else ''false'')"
| "dumps frepr (JInt i) = show_int i"
| "dumps frepr (JFloat f) = dumps_float frepr f"
| "dumps frepr (JStr s) = dumps_str s"
| "dumps frepr (JList xs) = ''['' @ join '', '' (map (dumps frepr) xs) @ '']''"
| "dumps frepr (JDict d) =
     [CHR 0x7B] @ join '', '' (map (\<lambda>(k, v). dumps_str k @ '': '' @ dumps frepr v) d) @ [CHR 0x7D]"

section \<open>Round trip\<close>

text \<open>Text as Python holds it: a sequence of code points that are not surrogates, here in UTF-8.\<close>

definition scalar :: "nat \<Rightarrow> bool" where
  "scalar n \<longleftrightarrow> n < 0x110000 \<and> \<not> (0xD800 \<le> n \<and> n < 0xE000)"

definition text_ok :: "string \<Rightarrow> bool" where
  "text_ok s \<longleftrightarrow> (\<exists>cps. list_all scalar cps \<and> s = concat (map utf8 cps))"

fun plain_json :: "json \<Rightarrow> bool" where
  "plain_json (JStr s) = text_ok s"
| "plain_json (JFloat f) = False"
| "plain_json (JList xs) = (\<forall>x \<in> set xs. plain_json x)"
| "plain_json (JDict d) = (dict_ok d \<and> (\<forall>(k, v) \<in> set d. text_ok k \<and> plain_json v))"
| "plain_json _ = True"

lemma utf8_ascii: "n < 128 \<Longrightarrow> utf8 n = [char_of n]"
  by (simp add: utf8_def)

lemma ascii_text_ok: "(\<forall>c \<in> set s. (of_char c :: nat) < 128) \<Longrightarrow> text_ok s"
  unfolding text_ok_def
  by (rule exI [of _ "map of_char s"], induction s) (auto simp: utf8_ascii scalar_def)

lemma base_split: "(n :: nat) div a = n div (a * b) * b + n div a mod b"
  by (simp add: div_mult2_eq)

lemma digits3:
  "(n :: nat) = a * m + w \<Longrightarrow> a = b * m + x \<Longrightarrow> b = c * m + y \<Longrightarrow> n = c * (m * m * m) + y * (m * m) + x * m + w"
  by (simp add: algebra_simps)

lemma mod_small: "q < b \<Longrightarrow> (b * c + q) mod b = (q :: nat)"
  by simp

lemma cont_bits_of: "cont_bits (char_of (128 + m mod 64)) = m mod 64"
proof -
  have "128 + m mod 64 < 256" using mod_less_divisor [of 64 m] by linarith
  moreover have "(128 + m mod 64) mod 64 = m mod 64" using mod_mult_self2 [of "m mod 64" 64 2] by (simp add: add.commute)
  ultimately show ?thesis by (simp add: cont_bits_def take_bit_eq_mod)
qed

lemma byte_of: "k < 256 \<Longrightarrow> (of_char (char_of k :: char) :: nat) = k"
  by (simp add: take_bit_eq_mod)

lemma decode_utf8:
  assumes "scalar n"
  shows "utf8_decode (utf8 n @ r) = n # utf8_decode r"
proof -
  have n: "n < 0x110000" using assms by (simp add: scalar_def)
  consider "n < 128" | "128 \<le> n" "n < 2048" | "2048 \<le> n" "n < 65536" | "65536 \<le> n" by linarith
  then show ?thesis
  proof cases
    case 1
    then show ?thesis by (simp add: utf8_ascii Let_def take_bit_eq_mod)
  next
    case 2
    define q where "q = n div 64"
    have q: "q < 32" using 2 by (simp add: q_def)
    have "(192 + q) mod 32 = q" "n = q * 64 + n mod 64" using mod_small [OF q, of 6] by (simp_all add: q_def)
    with 2 q show ?thesis
      by (simp add: utf8_def Let_def cont_bits_of q_def [symmetric] byte_of take_bit_eq_mod)
  next
    case 3
    define q where "q = n div 4096"
    have q: "q < 16" using 3 by (simp add: q_def)
    have "(224 + q) mod 16 = q" using mod_small [OF q, of 14] by simp
    moreover have "n = q * 4096 + n div 64 mod 64 * 64 + n mod 64"
      using digits3 [OF div_mult_mod_eq [of n 64, symmetric] base_split [of n 64 64, simplified], of 0] by (simp add: q_def)
    moreover note q
    ultimately show ?thesis
      using 3 q by (simp add: utf8_def Let_def cont_bits_of q_def [symmetric] take_bit_eq_mod)
  next
    case 4
    define q where "q = n div 262144"
    have q: "q < 8" using 4 n by (simp add: q_def)
    have "(240 + q) mod 8 = q" using mod_small [OF q, of 30] by simp
    moreover have "n = q * 262144 + n div 4096 mod 64 * 4096 + n div 64 mod 64 * 64 + n mod 64"
      using digits3 [OF div_mult_mod_eq [of n 64, symmetric] base_split [of n 64 64, simplified] base_split [of n 4096 64, simplified]]
      by (simp add: q_def)
    ultimately show ?thesis
      using 4 q by (simp add: utf8_def Let_def cont_bits_of q_def [symmetric] take_bit_eq_mod)
  qed
qed

lemma decode_text: "list_all scalar cps \<Longrightarrow> utf8_decode (concat (map utf8 cps)) = cps"
  by (induction cps) (simp_all add: decode_utf8)

text \<open>Slices and lengths of text count its code points.\<close>

lemma utf8_bytes:
  assumes "scalar n"
  shows "\<exists>c bs. utf8 n = c # bs \<and> \<not> is_cont c \<and> list_all is_cont bs"
proof -
  have n: "n < 0x110000" using assms by (simp add: scalar_def)
  consider "n < 128" | "128 \<le> n" "n < 2048" | "2048 \<le> n" "n < 65536" | "65536 \<le> n" by linarith
  then show ?thesis
    by cases (use n in \<open>auto simp: utf8_def is_cont_def byte_of\<close>)
qed

lemma text_take_bytes: "list_all is_cont bs \<Longrightarrow> text_take n (bs @ r) = bs @ text_take n r"
  by (induction bs) (auto simp: text_take.simps)

lemma text_take_text: "list_all scalar cps \<Longrightarrow> text_take n (concat (map utf8 cps)) = concat (map utf8 (take n cps))"
proof (induction cps arbitrary: n)
  case (Cons k cps)
  then obtain c bs where c: "utf8 k = c # bs" "\<not> is_cont c" "list_all is_cont bs" using utf8_bytes [of k] by auto
  with Cons show ?case by (cases n) (auto simp: text_take_bytes text_take.simps)
qed simp

lemma text_len_text: "list_all scalar cps \<Longrightarrow> text_len (concat (map utf8 cps)) = length cps"
proof (induction cps)
  case (Cons k cps)
  then obtain c bs where c: "utf8 k = c # bs" "\<not> is_cont c" "list_all is_cont bs" using utf8_bytes [of k] by auto
  moreover from c(3) have "filter (\<lambda>x. \<not> is_cont x) bs = []" by (auto simp: list_all_iff filter_empty_conv)
  ultimately show ?case using Cons by (simp add: text_len_def)
qed (simp add: text_len_def)

lemma hex_val_digit: "d < 16 \<Longrightarrow> hex_val (hex_digit d) = Some d"
  by (auto simp: hex_val_def hex_digit_def digit_char_def Let_def)

lemma hex4_digits:
  assumes "n < 65536"
  shows "hex4 (map hex_digit [n div 4096 mod 16, n div 256 mod 16, n div 16 mod 16, n mod 16] @ r) = Some (n, r)"
proof -
  have "n = n div 4096 mod 16 * 4096 + n div 256 mod 16 * 256 + n div 16 mod 16 * 16 + n mod 16"
    using assms digits3 [OF div_mult_mod_eq [of n 16, symmetric] base_split [of n 16 16, simplified] base_split [of n 256 16, simplified]]
    by simp
  then have e: "4096 * (n div 4096 mod 16) + 256 * (n div 256 mod 16) + 16 * (n div 16 mod 16) + n mod 16 = n" by linarith
  have d: "hex_val (hex_digit (k mod 16)) = Some (k mod 16)" for k by (rule hex_val_digit) simp
  show ?thesis unfolding hex4_def by (simp only: list.map append.simps list.case d option.case prod.case e)
qed

lemma unicode_escape_low:
  assumes "n < 65536" "scalar n"
  shows "unicode_escape (drop 2 (u_escape n) @ r) = Some (utf8 n, r)"
proof -
  have "hex4 (drop 2 (u_escape n) @ r) = Some (n, r)" using hex4_digits [OF assms(1)] by (simp add: u_escape_def)
  with assms show ?thesis by (auto simp: unicode_escape_def scalar_def)
qed

lemma unicode_escape_high:
  assumes "65536 \<le> n" "n < 0x110000"
  shows "unicode_escape (drop 2 (u_escape (0xD800 + (n - 65536) div 1024)) @ u_escape (0xDC00 + (n - 65536) mod 1024) @ r) = Some (utf8 n, r)"
proof -
  define h l where "h = (n - 65536) div 1024" and "l = (n - 65536) mod 1024"
  have hl: "h < 1024" "l < 1024" "65536 + h * 1024 + l = n" using assms by (auto simp: h_def l_def)
  have h: "hex4 (drop 2 (u_escape (0xD800 + h)) @ q) = Some (0xD800 + h, q)" for q
    using hex4_digits [of "0xD800 + h" q] hl(1) by (simp add: u_escape_def)
  have l: "hex4 (drop 2 (u_escape (0xDC00 + l)) @ q) = Some (0xDC00 + l, q)" for q
    using hex4_digits [of "0xDC00 + l" q] hl(2) by (simp add: u_escape_def)
  have u: "u_escape k = CHR 0x5C # CHR ''u'' # drop 2 (u_escape k)" for k by (simp add: u_escape_def)
  show ?thesis unfolding h_def [symmetric] l_def [symmetric]
    using h l hl by (subst (2) u) (simp add: unicode_escape_def)
qed

lemma parse_str_cp:
  assumes "scalar n"
  shows "parse_str (json_cp n @ r) = map_option (\<lambda>(t, q). (utf8 n @ t, q)) (parse_str r)"
proof -
  have raw: ?thesis if "32 \<le> n" "n < 127" "n \<noteq> 34" "n \<noteq> 92"
  proof -
    have "char_of n \<noteq> CHR 0x22" "char_of n \<noteq> CHR 0x5C" "(of_char (char_of n :: char) :: nat) = n"
      using that by (auto simp: char_of_eq_iff take_bit_eq_mod)
    with that show ?thesis by (subst parse_str.simps) (simp add: json_cp_def utf8_ascii)
  qed
  have esc: ?thesis if "json_cp n = [CHR 0x5C, e]" "e \<noteq> CHR ''u''" "simple_escape e = Some x" "of_char x = n" "n < 128" for e x
    using that by (subst parse_str.simps) (auto simp: utf8_ascii)
  have uni: ?thesis if "json_cp n = CHR 0x5C # CHR ''u'' # s" "unicode_escape (s @ r) = Some (utf8 n, r)" for s
    using that by (subst parse_str.simps) simp
  have u: "u_escape k = CHR 0x5C # CHR ''u'' # drop 2 (u_escape k)" for k by (simp add: u_escape_def)
  consider "n = 34" | "n = 92" | "n = 10" | "n = 13" | "n = 9" | "n = 8" | "n = 12" | "32 \<le> n" "n < 127" "n \<noteq> 34" "n \<noteq> 92"
    | "n \<notin> {34, 92, 10, 13, 9, 8, 12}" "\<not> (32 \<le> n \<and> n < 127)" "n < 65536" | "65536 \<le> n" by auto linarith
  then show ?thesis
  proof cases
    case 1
    show ?thesis by (rule esc [of "CHR 0x22" "CHR 0x22"]) (simp_all add: 1 json_cp_def simple_escape_def)
  next
    case 2
    show ?thesis by (rule esc [of "CHR 0x5C" "CHR 0x5C"]) (simp_all add: 2 json_cp_def simple_escape_def)
  next
    case 3
    show ?thesis by (rule esc [of "CHR ''n''" "CHR 0x0A"]) (simp_all add: 3 json_cp_def simple_escape_def)
  next
    case 4
    show ?thesis by (rule esc [of "CHR ''r''" "CHR 0x0D"]) (simp_all add: 4 json_cp_def simple_escape_def)
  next
    case 5
    show ?thesis by (rule esc [of "CHR ''t''" "CHR 0x09"]) (simp_all add: 5 json_cp_def simple_escape_def)
  next
    case 6
    show ?thesis by (rule esc [of "CHR ''b''" "CHR 0x08"]) (simp_all add: 6 json_cp_def simple_escape_def)
  next
    case 7
    show ?thesis by (rule esc [of "CHR ''f''" "CHR 0x0C"]) (simp_all add: 7 json_cp_def simple_escape_def)
  next
    case 8
    then show ?thesis by (rule raw)
  next
    case 9
    then have "json_cp n = u_escape n" by (auto simp: json_cp_def)
    then show ?thesis using unicode_escape_low [OF 9(3) assms] u [of n] by (intro uni) auto
  next
    case 10
    let ?h = "0xD800 + (n - 65536) div 1024" and ?l = "0xDC00 + (n - 65536) mod 1024"
    have "json_cp n = CHR 0x5C # CHR ''u'' # drop 2 (u_escape ?h) @ u_escape ?l"
      using 10 u [of ?h] by (simp add: json_cp_def)
    then show ?thesis
      using unicode_escape_high [OF 10, of r] assms by (intro uni) (auto simp: scalar_def)
  qed
qed

lemma parse_str_dumps:
  assumes "text_ok s"
  shows "parse_str (concat (map json_cp (utf8_decode s)) @ [CHR 0x22] @ r) = Some (s, r)"
proof -
  obtain cps where cps: "list_all scalar cps" "s = concat (map utf8 cps)" using assms by (auto simp: text_ok_def)
  have "parse_str (concat (map json_cp cps) @ [CHR 0x22] @ r) = Some (concat (map utf8 cps), r)"
    using cps(1) by (induction cps) (simp_all add: parse_str_cp parse_str.simps [of "CHR 0x22 # _"])
  then show ?thesis by (simp add: cps decode_text)
qed

text \<open>The first character of a printed value is neither white space nor a closing bracket.\<close>

definition opens_value :: "string \<Rightarrow> bool" where
  "opens_value s \<longleftrightarrow> s \<noteq> [] \<and> \<not> ws_char (hd s) \<and> hd s \<noteq> CHR '']'' \<and> hd s \<noteq> CHR 0x7D"

lemma opens_value_skip: "opens_value s \<Longrightarrow> skip_ws (s @ r) = s @ r"
  by (cases s) (auto simp: opens_value_def skip_ws_def)

lemma opens_show_int: "opens_value (show_int i)"
proof -
  have "is_digit (hd (show_int i)) \<or> hd (show_int i) = CHR ''-''"
    using show_nat_hd_digit [of "nat i"] by (simp add: show_int_def)
  then show ?thesis by (auto simp: opens_value_def is_digit_def ws_char_def)
qed

lemma opens_dumps: "plain_json v \<Longrightarrow> opens_value (dumps frepr v)"
  by (cases v) (auto simp: opens_show_int opens_value_def [of "_ # _"] dumps_str_def ws_char_def)

lemma ends_number_sep [simp]: "ends_number (CHR '','' # r)" "ends_number (CHR '']'' # r)" "ends_number (CHR 0x7D # r)" "ends_number []"
  by (simp_all add: ends_number_def is_digit_def)

lemma skip_ws_sep [simp]:
  "skip_ws (CHR '','' # r) = CHR '','' # r" "skip_ws (CHR '']'' # r) = CHR '']'' # r" "skip_ws (CHR 0x7D # r) = CHR 0x7D # r"
  "skip_ws (CHR '':'' # r) = CHR '':'' # r" "skip_ws (CHR '' '' # r) = skip_ws r" "skip_ws [] = []"
  by (simp_all add: skip_ws_def ws_char_def)

lemma parse_elems_list:
  assumes "xs \<noteq> []" and "\<forall>x \<in> set xs. opens_value (f x) \<and> (\<forall>r. ends_number r \<longrightarrow> parse_val (f x @ r) = Some (x, r))"
  shows "parse_elems (join '', '' (map f xs) @ '']'' @ r) = Some (xs, r)"
  using assms
proof (induction xs)
  case (Cons x xs)
  show ?case
  proof (cases xs)
    case Nil
    with Cons.prems show ?thesis by (subst parse_elems.simps) simp
  next
    case (Cons y ys)
    let ?t = "join '', '' (map f xs) @ '']'' @ r"
    have sk: "skip_ws ?t = ?t" using Cons.prems(2) Cons opens_value_skip [of "f y"] by (cases ys) auto
    have "parse_elems (f x @ '', '' @ ?t) = Some (x # xs, r)"
      using Cons.prems(2) Cons Cons.IH sk by (subst parse_elems.simps) simp
    with Cons show ?thesis by simp
  qed
qed simp

lemma parse_members_list:
  assumes "d \<noteq> []" and "\<forall>(k, v) \<in> set d. text_ok k \<and> opens_value (f v) \<and> (\<forall>r. ends_number r \<longrightarrow> parse_val (f v @ r) = Some (v, r))"
  shows "parse_members (join '', '' (map (\<lambda>(k, v). dumps_str k @ '': '' @ f v) d) @ [CHR 0x7D] @ r) = Some (d, r)"
  using assms
proof (induction d)
  case (Cons kv d)
  obtain k v where kv: "kv = (k, v)" by fastforce
  with Cons.prems(2) have kv_ok: "text_ok k" "opens_value (f v)" "\<And>r. ends_number r \<Longrightarrow> parse_val (f v @ r) = Some (v, r)" by auto
  have key: "parse_str (concat (map json_cp (utf8_decode k)) @ CHR 0x22 # q) = Some (k, q)" for q
    using parse_str_dumps [OF kv_ok(1), of q] by simp
  have sk: "skip_ws (f v @ q) = f v @ q" for q using opens_value_skip [OF kv_ok(2)] .
  show ?case
  proof (cases d)
    case Nil
    then show ?thesis
      using kv kv_ok(3) [of "CHR 0x7D # r"] by (subst parse_members.simps) (simp add: dumps_str_def key sk)
  next
    case (Cons kv' d')
    let ?t = "join '', '' (map (\<lambda>(k, v). dumps_str k @ '': '' @ f v) d) @ [CHR 0x7D] @ r"
    have st: "skip_ws ?t = ?t" using Cons by (cases d') (auto simp: dumps_str_def skip_ws_def ws_char_def split: prod.splits)
    have "parse_members (dumps_str k @ '': '' @ f v @ '', '' @ ?t) = Some ((k, v) # d, r)"
      using Cons.prems(2) Cons Cons.IH kv_ok(3) [of "'', '' @ ?t"] st
      by (subst parse_members.simps) (simp add: dumps_str_def key sk)
    with Cons kv show ?thesis by simp
  qed
qed simp

lemma foldl_dset_id: "distinct (map fst (d0 @ d)) \<Longrightarrow> foldl (\<lambda>d (k, v). dset d k v) d0 d = d0 @ d"
proof (induction d arbitrary: d0)
  case (Cons kv d)
  obtain k v where kv: "kv = (k, v)" by fastforce
  with Cons.prems have "k \<notin> fst ` set d0" by auto
  then have "dset d0 k v = d0 @ [(k, v)]" by (induction d0) auto
  with Cons.IH [of "d0 @ [(k, v)]"] Cons.prems kv show ?case by simp
qed simp

lemma parse_val_dumps: "plain_json v \<Longrightarrow> ends_number r \<Longrightarrow> parse_val (dumps frepr v @ r) = Some (v, r)"
proof (induction v arbitrary: r)
  case (JInt i)
  then show ?case by (simp add: parse_val_show_int)
next
  case (JStr s)
  then have "parse_str (concat (map json_cp (utf8_decode s)) @ [CHR 0x22] @ r) = Some (s, r)" by (intro parse_str_dumps) simp
  then show ?case by (subst parse_val.simps) (simp add: dumps_str_def)
next
  case (JList xs)
  show ?case
  proof (cases "xs = []")
    case True
    then show ?thesis by (subst parse_val.simps) simp
  next
    case False
    let ?t = "join '', '' (map (dumps frepr) xs) @ '']'' @ r"
    have "parse_elems ?t = Some (xs, r)"
      using JList False opens_dumps by (intro parse_elems_list) auto
    moreover have "opens_value (dumps frepr (hd xs))" using JList.prems False by (intro opens_dumps) simp
    then have "skip_ws ?t = ?t" "hd ?t \<noteq> CHR '']''" using False opens_value_skip [of "dumps frepr (hd xs)"]
      by (cases xs; cases "tl xs"; auto simp: opens_value_def hd_append)+
    ultimately show ?thesis by (subst parse_val.simps) simp
  qed
next
  case (JDict d)
  show ?case
  proof (cases "d = []")
    case True
    then show ?thesis by (subst parse_val.simps) simp
  next
    case False
    let ?t = "join '', '' (map (\<lambda>(k, v). dumps_str k @ '': '' @ dumps frepr v) d) @ [CHR 0x7D] @ r"
    have "\<forall>(k, v) \<in> set d. text_ok k \<and> opens_value (dumps frepr v) \<and> (\<forall>r. ends_number r \<longrightarrow> parse_val (dumps frepr v @ r) = Some (v, r))"
      using JDict opens_dumps by (fastforce simp: snds.simps)
    then have "parse_members ?t = Some (d, r)" using False by (intro parse_members_list) auto
    moreover have "skip_ws ?t = ?t" "hd ?t \<noteq> CHR 0x7D" using False
      by (cases d; cases "tl d"; auto simp: dumps_str_def skip_ws_def ws_char_def split: prod.splits)+
    ultimately show ?thesis using foldl_dset_id [of "[]" d] JDict.prems(1)
      by (subst parse_val.simps) (simp add: dict_ok_def dkeys_def)
  qed
qed (subst parse_val.simps; simp add: parse_literal_def literals_def)+

text \<open>What \<open>json.dumps\<close> writes, \<open>json.loads\<close> reads back: for every value without floats,
  parsing the printed text gives the value.\<close>

lemma loads_dumps:
  assumes "plain_json v"
  shows "loads (dumps frepr v) = Some v"
proof -
  have "skip_ws (dumps frepr v) = dumps frepr v"
    using opens_value_skip [OF opens_dumps [OF assms], of frepr "[]"] by simp
  with parse_val_dumps [OF assms, of "[]" frepr] show ?thesis by (simp add: loads_def)
qed

end
