(* ===== verification/Correlation_Rules.thy ===== *)
theory Correlation_Rules
  imports Streaks Integration_Alerts Json_Print
begin

text \<open>
  The ten correlation rules of \<^verbatim>\<open>backend/services/correlation.py\<close>. The engine's state is the
  incident store (one transaction per rule), the in-memory streak counters, the per-tenant topology
  cache and the notifications handed out. What the rules read from PostgreSQL and ClickHouse in one
  cycle is the record \<open>cycle_env\<close>; a query that can fail is a \<open>result\<close>. An action returns the engine
  and the error that ended it, if any.
\<close>

section \<open>Engine\<close>

record engine =
  eng_store :: store
  eng_hits :: hits
  eng_topo :: "(int option, datetime \<times> topology) dict"
  eng_sent :: "notice list"

type_synonym act = "engine \<Rightarrow> engine \<times> py_error option"

record host_baseline =
  bl_key :: string
  bl_avg :: "rat option"
  bl_std :: "rat option"

record fleet_issue =
  fi_hash :: string
  fi_host_count :: int
  fi_hosts :: "string list"

record log_template =
  tp_hash :: string
  tp_text :: string
  tp_trend :: string
  tp_score :: "rat option"
  tp_severity :: "int option"

datatype anomaly =
    DiversitySpike "int option" string int int pyfloat
  | SeverityUpgrade string string int int int
  | OtherAnomaly

record precursor =
  pp_event :: string
  pp_confidence :: rat
  pp_count :: int
  pp_lead :: "int option"
  pp_hash :: string
  pp_text :: "string option"

record cycle_env =
  env_sha :: "string \<Rightarrow> string"
  env_frepr :: "pyfloat \<Rightarrow> string"
  env_ctx :: tenant_ctx
  env_now :: datetime
  env_tz :: tzdb
  env_windows :: "window_spec list"
  env_hosts :: "ping_host list"
  env_offline_since :: "int list \<Rightarrow> int \<Rightarrow> int list result"
  env_build :: "topology result"
  env_syslog_errors :: "int list \<Rightarrow> (int, int) dict result"
  env_set_order :: "string set \<Rightarrow> string list"
  env_configs :: "integration_config list"
  env_snaps :: "(string \<times> int, snapshot) dict result"
  env_config_dict :: "int \<Rightarrow> json result"
  env_errors_5m :: "int option result"
  env_errors_1h :: "int option result"
  env_baselines :: "host_baseline list result"
  env_received :: "string list \<Rightarrow> (string, int) dict result"
  env_fleet :: "fleet_issue list result"
  env_templates :: "log_template list"
  env_anomalies :: "anomaly list result"
  env_min_confidence :: rat
  env_min_occurrences :: int
  env_blacklisted :: "string \<Rightarrow> bool"
  env_observed :: "(string \<times> int option) list result"
  env_precursors :: "precursor list result"
  env_alert_configs :: "alert_config list result"

definition ok :: act where "ok e = (e, None)"

definition seq :: "act \<Rightarrow> act \<Rightarrow> act" where
  "seq a b e = (case a e of (e', None) \<Rightarrow> b e' | (e', Some x) \<Rightarrow> (e', Some x))"

definition with_input :: "'a result \<Rightarrow> ('a \<Rightarrow> act) \<Rightarrow> act" where
  "with_input r k e = (case r of Inl x \<Rightarrow> (e, Some x) | Inr v \<Rightarrow> k v e)"

fun for_each :: "('x \<Rightarrow> act) \<Rightarrow> 'x list \<Rightarrow> act" where
  "for_each f [] e = (e, None)"
| "for_each f (x # xs) e = seq (f x) (for_each f xs) e"

definition incident_act :: "cycle_env \<Rightarrow> incident_spec \<Rightarrow> act" where
  "incident_act env sp e =
     (case find_or_create_incident (env_sha env) (env_now env) sp (eng_store e) of
        Inl x \<Rightarrow> (e, Some x)
      | Inr (st, iid, ns) \<Rightarrow> (e\<lparr>eng_store := st, eng_sent := eng_sent e @ ns\<rparr>, None))"

text \<open>\<open>if not _track_rule_hit(...): continue\<close> (or \<open>return\<close>), else the body.\<close>

definition when_hit :: "cycle_env \<Rightarrow> string \<Rightarrow> int list \<Rightarrow> int \<Rightarrow> act \<Rightarrow> act" where
  "when_hit env rl ids mc body e =
     (case track_rule_hit (env_sha env) (env_ctx env) rl ids mc (eng_hits e) of (h, fired) \<Rightarrow>
        (if fired then body (e\<lparr>eng_hits := h\<rparr>) else (e\<lparr>eng_hits := h\<rparr>, None)))"

section \<open>Inputs shared by the rules\<close>

definition get_offline_hosts :: "cycle_env \<Rightarrow> int \<Rightarrow> ping_host list result" where
  "get_offline_hosts env mf =
     (let hosts = without_maintenance (env_tz env) (filter enabled (env_hosts env)) (env_now env) (env_windows env) in
      if hosts = [] then Inr []
      else bind_result (env_offline_since env (map host_id hosts) mf)
             (\<lambda>ids. Inr (filter (\<lambda>h. host_id h \<in> set ids) hosts)))"

definition get_topology :: "cycle_env \<Rightarrow> engine \<Rightarrow> topology \<times> engine" where
  "get_topology env e =
     (let tid = hit_tenant (env_ctx env) True; hit = dget (eng_topo e) tid in
      case hit of
        Some (t, topology) \<Rightarrow>
          (if total_seconds (env_now env - t) < 60 then (topology, e)
           else (case env_build env of
                   Inr topology' \<Rightarrow> (topology', e\<lparr>eng_topo := dset (eng_topo e) tid (env_now env, topology')\<rparr>)
                 | Inl _ \<Rightarrow> (topology, e)))
      | None \<Rightarrow>
          (case env_build env of
             Inr topology' \<Rightarrow> (topology', e\<lparr>eng_topo := dset (eng_topo e) tid (env_now env, topology')\<rparr>)
           | Inl _ \<Rightarrow> ([], e)))"

definition name_list :: "ping_host list \<Rightarrow> string" where
  "name_list hosts = join '', '' (map host_name (take 5 hosts)) @
     (if length hosts > 5 then '' (+'' @ show_int (int (length hosts) - 5) @ '' more)'' else [])"

section \<open>Rule 1: host down with syslog errors, and upstream failures\<close>

definition host_down_hit :: "cycle_env \<Rightarrow> int \<Rightarrow> (int, int) dict \<Rightarrow> ping_host \<Rightarrow> act" where
  "host_down_hit env mc nums h =
     (let n = dget_or nums (host_id h) 0 in
      if n > 0 then
        when_hit env ''host_down_syslog'' [host_id h] mc
          (incident_act env (host_incident ''host_down_syslog'' (host_name h @ '' offline with syslog errors'') ''critical''
             [host_id h] ''host_down''
             (host_name h @ '' ('' @ hostname h @ '') is offline with '' @ show_int n @ '' syslog errors in the last 5min'')))
      else ok)"

definition root_name :: "topology \<Rightarrow> int set \<Rightarrow> ping_host list \<Rightarrow> int \<Rightarrow> string option" where
  "root_name t primary offline hid =
     (case find (\<lambda>a. a \<in> primary) (get_ancestors t hid) of
        None \<Rightarrow> None
      | Some a \<Rightarrow> map_option host_name (find (\<lambda>h. host_id h = a) offline))"

definition upstream_label :: "cycle_env \<Rightarrow> topology \<Rightarrow> int set \<Rightarrow> int set \<Rightarrow> ping_host list \<Rightarrow> string" where
  "upstream_label env t primary cascaded offline =
     (let parents = {n. \<exists>hid \<in> cascaded. root_name t primary offline hid = Some n} in
      if parents = {} then ''upstream device'' else join '', '' (env_set_order env parents))"

definition upstream_failure :: "cycle_env \<Rightarrow> int \<Rightarrow> topology \<Rightarrow> ping_host list \<Rightarrow> act" where
  "upstream_failure env mc t offline =
     (let (primary, cascaded) = filter_upstream_failures (host_id ` set offline) t in
      if cascaded = {} then ok
      else
        (let cascade_hosts = filter (\<lambda>h. host_id h \<in> cascaded) offline;
             n = show_int (int (card cascaded)); ids = sorted_list_of_set cascaded
         in when_hit env ''upstream_failure'' ids mc
              (incident_act env (host_incident ''upstream_failure'' (''Upstream failure: '' @ n @ '' hosts affected'') ''warning''
                 ids ''host_down''
                 (n @ '' hosts offline due to upstream failure ('' @ upstream_label env t primary cascaded offline
                   @ ''): '' @ name_list cascade_hosts)))))"

definition rule_host_down_syslog :: "cycle_env \<Rightarrow> int \<Rightarrow> ping_host list \<Rightarrow> act" where
  "rule_host_down_syslog env mc offline e =
     (if offline = [] then (e, None)
      else
        (let (t, e1) = get_topology env e;
             cascaded = snd (filter_upstream_failures (host_id ` set offline) t);
             candidates = filter (\<lambda>h. host_id h \<notin> cascaded) offline
         in with_input (if candidates = [] then Inr [] else env_syslog_errors env (map host_id candidates))
              (\<lambda>nums. seq (for_each (host_down_hit env mc nums) candidates) (upstream_failure env mc t offline)) e1))"

section \<open>Rule 2: many hosts down\<close>

definition subnet_of :: "ping_host \<Rightarrow> string" where
  "subnet_of h =
     (let parts = split_on CHR ''.'' (strip (hostname h)) in
      if length parts = 4 \<and> list_all isdigit parts then join ''.'' (take 3 parts) @ ''.0/24'' else ''unknown'')"

definition group_subnets :: "ping_host list \<Rightarrow> (string, ping_host list) dict" where
  "group_subnets hosts = foldl (\<lambda>d h. dset d (subnet_of h) (dget_or d (subnet_of h) [] @ [h])) [] hosts"

definition subnet_down :: "cycle_env \<Rightarrow> int \<Rightarrow> string \<times> ping_host list \<Rightarrow> act" where
  "subnet_down env mc g = (case g of (subnet, hosts) \<Rightarrow>
     (if length hosts \<ge> 3 then
        (let ids = map host_id hosts; n = show_int (int (length hosts)) in
         when_hit env ''multi_host_down'' ids mc
           (incident_act env (host_incident ''multi_host_down'' (''Network issue: '' @ n @ '' hosts down in '' @ subnet) ''critical''
              ids ''host_down'' (n @ '' hosts offline in '' @ subnet @ '': '' @ name_list hosts))))
      else ok))"

definition rule_multi_host_down :: "cycle_env \<Rightarrow> int \<Rightarrow> ping_host list \<Rightarrow> act" where
  "rule_multi_host_down env mc offline e =
     (if length offline < 3 then (e, None)
      else
        (let (t, e1) = get_topology env e;
             primary = fst (filter_upstream_failures (host_id ` set offline) t);
             primary_hosts = filter (\<lambda>h. host_id h \<in> primary) offline
         in if length primary_hosts < 3 then (e1, None)
            else
              (let subnets = group_subnets primary_hosts;
                   covered = sum_list (map (length \<circ> snd) (filter (\<lambda>g. length (snd g) \<ge> 3) subnets));
                   remaining = int (length primary_hosts) - int covered;
                   uncovered = concat (map snd (filter (\<lambda>g. length (snd g) < 3) subnets));
                   ids = map host_id uncovered; n = show_int (int (length uncovered))
               in seq (for_each (subnet_down env mc) subnets)
                    (if remaining \<ge> 3 then
                       when_hit env ''multi_host_down'' ids mc
                         (incident_act env (host_incident ''multi_host_down''
                            (''Multiple hosts down ('' @ n @ '' across subnets)'') ''warning'' ids ''host_down''
                            (n @ '' hosts offline across multiple subnets: '' @ name_list uncovered)))
                     else ok) e1)))"

section \<open>Rule 3: integration and host\<close>

definition host_key :: "ping_host \<Rightarrow> string" where
  "host_key h = strip (str_lower (hostname h))"

definition endpoint_host :: "string \<Rightarrow> string" where
  "endpoint_host s = hd (split_on CHR ''/'' (hd (split_on CHR '':''
     (str_replace ''http://'' [] (str_replace ''https://'' [] (strip (str_lower s)))))))"

text \<open>The host text of a decrypted configuration; \<open>None\<close> where reading it raises.\<close>

definition config_host :: "json result \<Rightarrow> string option" where
  "config_host r =
     (case r of
        Inl _ \<Rightarrow> None
      | Inr d \<Rightarrow>
          (case jget d ''host'' JNull of
             Inl _ \<Rightarrow> None
           | Inr v \<Rightarrow> (if \<not> truthy v then Some (endpoint_host [])
                       else case v of JStr s \<Rightarrow> Some (endpoint_host s) | _ \<Rightarrow> None)))"

definition en_dash :: string where "en_dash = [CHR 0xE2, CHR 0x80, CHR 0x93]"

definition integration_down :: "cycle_env \<Rightarrow> int \<Rightarrow> (string \<times> int, snapshot) dict \<Rightarrow> ping_host list \<Rightarrow> integration_config \<Rightarrow> act" where
  "integration_down env mc snaps offline cfg =
     (case dget snaps (cfg_type cfg, cfg_id cfg) of
        None \<Rightarrow> ok
      | Some s \<Rightarrow>
          (if snap_ok s then ok
           else
             (case config_host (env_config_dict env (cfg_id cfg)) of
                None \<Rightarrow> ok
              | Some k \<Rightarrow>
                  (case find (\<lambda>h. host_key h = k) (rev offline) of
                     None \<Rightarrow> ok
                   | Some h \<Rightarrow>
                       (if k = [] then ok
                        else
                          when_hit env ''integration_host'' [host_id h] mc
                            (incident_act env (host_incident ''integration_host''
                               (cfg_name cfg @ '' unreachable '' @ en_dash @ '' host '' @ host_name h @ '' offline'') ''warning''
                               [host_id h] ''integration_error''
                               (''Integration '' @ quoted (cfg_name cfg) @ '' ('' @ cfg_type cfg @ '') is unreachable and its host ''
                                 @ host_name h @ '' ('' @ k @ '') is also offline'')))))))
     )"

definition rule_integration_host :: "cycle_env \<Rightarrow> int \<Rightarrow> ping_host list \<Rightarrow> act" where
  "rule_integration_host env mc offline e =
     (if offline = [] then (e, None)
      else with_input (env_snaps env)
             (\<lambda>snaps. for_each (integration_down env mc snaps offline) (filter cfg_enabled (env_configs env))) e)"

section \<open>Rule 6: service checks\<close>

definition json_items :: "string option \<Rightarrow> (string \<times> json) list" where
  "json_items raw = (case raw of None \<Rightarrow> []
     | Some t \<Rightarrow> if t = [] then [] else (case loads t of Some (JDict d) \<Rightarrow> d | _ \<Rightarrow> []))"

definition failed_checks :: "ping_host \<Rightarrow> string list" where
  "failed_checks h = map (str_upper \<circ> fst) (filter (\<lambda>(_, v). \<not> truthy v) (json_items (check_detail h)))"

definition check_reasons :: "ping_host \<Rightarrow> (string, json) dict" where
  "check_reasons h = foldl (\<lambda>d (k, v). dset d (str_upper k) v) [] (json_items (check_errors h))"

definition port_error_why :: "(pyfloat \<Rightarrow> string) \<Rightarrow> ping_host \<Rightarrow> string" where
  "port_error_why frepr h =
     join ''; '' (map (\<lambda>k. k @ '': '' @ py_str frepr (the (dget (check_reasons h) k)))
       (filter (\<lambda>k. case dget (check_reasons h) k of None \<Rightarrow> False | Some v \<Rightarrow> truthy v) (failed_checks h)))"

definition port_error_hit :: "cycle_env \<Rightarrow> int \<Rightarrow> ping_host \<Rightarrow> act" where
  "port_error_hit env mc h =
     (let failed = failed_checks h; label = (if failed = [] then ''service check'' else join '', '' failed);
          why = port_error_why (env_frepr env) h
      in when_hit env ''port_error'' [host_id h] mc
           (incident_act env (host_incident ''port_error'' (host_name h @ '': '' @ label @ '' failed'') ''warning'' [host_id h] ''port_error''
              (host_name h @ '' ('' @ hostname h @ '') is online but '' @ label @
                (if why \<noteq> [] then '' failed ('' @ why @ '')'' else '' is unreachable'')))))"

definition rule_port_error :: "cycle_env \<Rightarrow> int \<Rightarrow> act" where
  "rule_port_error env mc =
     for_each (port_error_hit env mc)
       (without_maintenance (env_tz env) (filter (\<lambda>h. enabled h \<and> port_error h) (env_hosts env)) (env_now env) (env_windows env))"

section \<open>Rules 4 and 5: log volume\<close>

definition or_zero :: "int option \<Rightarrow> int" where
  "or_zero v = (case v of None \<Rightarrow> 0 | Some n \<Rightarrow> n)"

definition spike_baseline :: "int \<Rightarrow> int \<Rightarrow> rat" where
  "spike_baseline recent hourly = max 1 (of_int (max 0 (hourly - recent)) / 11)"

definition rule_syslog_spike :: "cycle_env \<Rightarrow> int \<Rightarrow> act" where
  "rule_syslog_spike env mc =
     with_input (env_errors_5m env) (\<lambda>r.
       let recent = or_zero r in
       if recent < 10 then ok
       else with_input (env_errors_1h env) (\<lambda>hr.
         let base = spike_baseline recent (or_zero hr) in
         if of_int recent \<ge> base * 5 then
           when_hit env ''syslog_spike'' [0] mc
             (incident_act env (host_incident ''syslog_spike''
                (''Syslog error spike: '' @ show_int recent @ '' errors in 5min'') ''warning'' [0] ''syslog_error''
                (show_int recent @ '' syslog errors in last 5min (baseline: ~'' @ show_int (trunc base) @ ''/5min)'')))
         else ok))"

definition rate_or0 :: "rat option \<Rightarrow> rat" where
  "rate_or0 r = (case r of None \<Rightarrow> 0 | Some x \<Rightarrow> x)"

text \<open>The host id of a baseline key: \<open>None\<close> skips it, \<open>Some None\<close> is a source address.\<close>

definition key_host :: "string \<Rightarrow> int option option" where
  "key_host k = (if startswith k ''host:''
     then (if isdigit (drop 5 k) then Some (Some (int (nat_of_digits (drop 5 k)))) else None)
     else Some None)"

definition volume_threshold :: "host_baseline \<Rightarrow> rat" where
  "volume_threshold b = rate_or0 (bl_avg b) + 3 * max (rate_or0 (bl_std b)) (rate_or0 (bl_avg b) * (3 / 10))"

definition plus_minus :: string where "plus_minus = [CHR 0xC2, CHR 0xB1]"

definition or_id0 :: "int option \<Rightarrow> int" where
  "or_id0 i = (case i of None \<Rightarrow> 0 | Some n \<Rightarrow> n)"

definition log_anomaly_hit :: "cycle_env \<Rightarrow> int \<Rightarrow> (string, int) dict \<Rightarrow> host_baseline \<Rightarrow> act" where
  "log_anomaly_hit env mc nums b =
     (case key_host (bl_key b) of
        None \<Rightarrow> ok
      | Some hid \<Rightarrow>
          (let count = dget_or nums (bl_key b) 0; current_rate = count * 6 in
           if \<not> (of_int current_rate > volume_threshold b \<and> count \<ge> 20) then ok
           else
             when_hit env (''log_anomaly_'' @ bl_key b) [or_id0 hid] mc
               (let host = (case hid of None \<Rightarrow> None | Some i \<Rightarrow> find (\<lambda>h. host_id h = i) (env_hosts env));
                    label = (case host of None \<Rightarrow> bl_key b | Some h \<Rightarrow> host_name h);
                    ids = (case host of None \<Rightarrow> [0] | Some h \<Rightarrow> [host_id h])
                in incident_act env ((host_incident ''log_anomaly'' (''Log volume anomaly: '' @ label) ''warning'' ids ''syslog_error''
                     (label @ '': '' @ show_int current_rate @ ''/hr (baseline: '' @ show_int (trunc (rate_or0 (bl_avg b))) @ ''/hr ''
                       @ plus_minus @ '' '' @ show_int (trunc (rate_or0 (bl_std b))) @ '')''))
                     \<lparr>sp_detail := Some (show_int count @ '' messages in last 10min, expected ~''
                        @ show_int (trunc (rate_or0 (bl_avg b) / 6)))\<rparr>))))"

definition rule_log_anomaly :: "cycle_env \<Rightarrow> int \<Rightarrow> act" where
  "rule_log_anomaly env mc =
     with_input (env_baselines env) (\<lambda>all.
       let baselines = filter (\<lambda>b. rate_or0 (bl_avg b) > 0) all in
       if baselines = [] then ok
       else with_input (env_received env (map bl_key baselines))
              (\<lambda>nums. for_each (log_anomaly_hit env mc nums) baselines))"

section \<open>Rules 7 to 9: templates\<close>

definition hosts_detail :: "string list \<Rightarrow> string" where
  "hosts_detail hs = ''{'' @ dumps_str ''hosts'' @ '': ['' @ join '', '' (map dumps_str hs) @ '']}''"

definition template_text :: "cycle_env \<Rightarrow> string \<Rightarrow> string" where
  "template_text env th = (case find (\<lambda>t. tp_hash t = th) (env_templates env) of
     None \<Rightarrow> th | Some t \<Rightarrow> if tp_text t = [] then th else tp_text t)"

definition fleet_hit :: "cycle_env \<Rightarrow> int \<Rightarrow> fleet_issue \<Rightarrow> act" where
  "fleet_hit env mc f =
     (let txt = text_take 80 (template_text env (fi_hash f)); n = show_int (fi_host_count f) in
      when_hit env (''fleet_wide_issue_'' @ take 8 (fi_hash f)) [0] mc
        (incident_act env ((host_incident ''fleet_wide_issue'' (''Fleet-wide: '' @ txt @ '' ('' @ n @ '' hosts)'')
           (if fi_host_count f > 5 then ''critical'' else ''warning'') [0] ''fleet_pattern''
           (''Template detected on '' @ n @ '' hosts simultaneously: '' @ txt))
           \<lparr>sp_detail := Some (hosts_detail (take 10 (fi_hosts f)))\<rparr>)))"

definition rule_fleet_wide :: "cycle_env \<Rightarrow> int \<Rightarrow> act" where
  "rule_fleet_wide env mc = with_input (env_fleet env) (for_each (fleet_hit env mc))"

definition rising :: "log_template \<Rightarrow> bool" where
  "rising t \<longleftrightarrow> tp_trend t = ''rising'' \<and> (\<exists>s. tp_score t = Some s \<and> s > 1 / 10) \<and> (\<exists>v. tp_severity t = Some v \<and> v \<le> 3)"

definition trend_hit :: "cycle_env \<Rightarrow> int \<Rightarrow> log_template \<Rightarrow> act" where
  "trend_hit env mc t =
     when_hit env (''severity_trend_'' @ take 8 (tp_hash t)) [0] mc
       (incident_act env (host_incident ''severity_trend'' (''Rising error trend: '' @ text_take 60 (tp_text t)) ''warning'' [0] ''syslog_trend''
          (''Template is trending up (+'' @ show_int (round_half_even (rate_or0 (tp_score t) * 100)) @ ''%/hr): '' @ text_take 100 (tp_text t))))"

definition rule_severity_trend :: "cycle_env \<Rightarrow> int \<Rightarrow> act" where
  "rule_severity_trend env mc = for_each (trend_hit env mc) (filter rising (env_templates env))"

fun anomaly_hit :: "cycle_env \<Rightarrow> int \<Rightarrow> anomaly \<Rightarrow> act" where
  "anomaly_hit env mc (DiversitySpike hid src current fresh base) =
     when_hit env (''content_anomaly_diversity_'' @ src) [or_id0 hid] mc
       (let host = (if id_ok hid then find (\<lambda>h. host_id h = the hid) (env_hosts env) else None);
            label = (case host of None \<Rightarrow> src | Some h \<Rightarrow> host_name h)
        in incident_act env (host_incident ''content_anomaly'' (''Template diversity spike: '' @ label) ''warning''
             (case host of None \<Rightarrow> [0] | Some h \<Rightarrow> [host_id h]) ''content_anomaly''
             (label @ '': '' @ show_int current @ '' distinct templates, '' @ show_int fresh
               @ '' not seen in the past week (baseline: '' @ env_frepr env base @ '')'')))"
| "anomaly_hit env mc (SeverityUpgrade th txt normal current n) =
     when_hit env (''content_anomaly_severity_'' @ take 8 th) [0] mc
       (incident_act env (host_incident ''content_anomaly'' (''Severity upgrade: '' @ text_take 60 txt) ''warning'' [0] ''severity_upgrade''
          (''Template normally at severity '' @ show_int normal @ '' now at severity '' @ show_int current
            @ '' ('' @ show_int n @ '' occurrences)'')))"
| "anomaly_hit env mc OtherAnomaly = ok"

definition rule_content_anomaly :: "cycle_env \<Rightarrow> int \<Rightarrow> act" where
  "rule_content_anomaly env mc = with_input (env_anomalies env) (for_each (anomaly_hit env mc))"

section \<open>Rule 10: learned precursors\<close>

text \<open>\<^verbatim>\<open>str.title()\<close>: a letter after a non-letter is upper case, every other letter lower case.\<close>

fun title_case :: "bool \<Rightarrow> string \<Rightarrow> string" where
  "title_case _ [] = []"
| "title_case in_word (c # s) =
     (if is_upper c \<or> is_lower c
      then (if in_word then lower_char c else upper_char c) # title_case True s
      else c # title_case False s)"

definition lead_text :: "(pyfloat \<Rightarrow> string) \<Rightarrow> int option \<Rightarrow> string" where
  "lead_text frepr lead =
     (let mins = of_int (round_half_even (of_int (or_zero lead) / 60 * 10)) / 10 in
      if or_zero lead = 0 \<or> mins = 0 then ''unknown lead time''
      else ''~'' @ frepr (Fin mins) @ ''min lead time'')"

definition note_template :: "cycle_env \<Rightarrow> int \<Rightarrow> string option \<Rightarrow> store \<Rightarrow> store" where
  "note_template env iid txt st =
     (case txt of None \<Rightarrow> st
      | Some s \<Rightarrow>
          (if s = [] then st
           else update_incident iid (\<lambda>i. if precursor_template i \<in> {None, Some []}
                  then i\<lparr>precursor_template := Some s, updated_at := env_now env\<rparr> else i) st))"

definition precursor_incident :: "cycle_env \<Rightarrow> int \<Rightarrow> precursor \<Rightarrow> incident_spec" where
  "precursor_incident env dedup_id p =
     (let pct = show_int (round_half_even (pp_confidence p * 100));
          label = title_case False (str_replace ''_'' '' '' (pp_event p));
          preview = text_take 80 (case pp_text p of None \<Rightarrow> [] | Some t \<Rightarrow> t)
      in host_incident (if dedup_id \<noteq> 0 then ''learned_precursor'' else ''learned_precursor_'' @ pp_event p)
           (''Predicted: '' @ label @ '' ('' @ pct @ ''% confidence)'') ''warning''
           (if dedup_id \<noteq> 0 then [dedup_id] else []) ''predicted_incident''
           (''Learned precursor template fired: '' @ [CHR 0x22] @ preview @ [CHR 0x22] @ '' '' @ em_dash @ '' '' @ label
             @ '' typically follows in '' @ lead_text (env_frepr env) (pp_lead p) @ '' ('' @ show_int (pp_count p)
             @ '' historical observations, '' @ pct @ ''% confidence).''))"

definition precursor_hit :: "cycle_env \<Rightarrow> int \<Rightarrow> string \<Rightarrow> int option \<Rightarrow> precursor \<Rightarrow> act" where
  "precursor_hit env mc observed hid p =
     when_hit env (''precursor_'' @ pp_event p @ ''_'' @ take 8 observed) [or_id0 hid] mc
       (\<lambda>e. case find_or_create_incident (env_sha env) (env_now env) (precursor_incident env (or_id0 hid) p) (eng_store e) of
              Inl x \<Rightarrow> (e, Some x)
            | Inr (st, iid, ns) \<Rightarrow>
                (e\<lparr>eng_store := note_template env iid (pp_text p) st, eng_sent := eng_sent e @ ns\<rparr>, None))"

definition usable_precursors :: "cycle_env \<Rightarrow> precursor list \<Rightarrow> precursor list" where
  "usable_precursors env ps =
     filter (\<lambda>p. \<not> env_blacklisted env (case pp_text p of None \<Rightarrow> [] | Some t \<Rightarrow> t))
       (filter (\<lambda>p. pp_confidence p \<ge> env_min_confidence env \<and> pp_count p \<ge> env_min_occurrences env) ps)"

definition observed_row :: "cycle_env \<Rightarrow> int \<Rightarrow> precursor list \<Rightarrow> string \<times> int option \<Rightarrow> act" where
  "observed_row env mc ps row = (case row of (observed, hid) \<Rightarrow>
     (if observed = [] then ok
      else for_each (precursor_hit env mc observed hid) (filter (\<lambda>p. pp_hash p = observed) ps)))"

definition rule_precursor_observed :: "cycle_env \<Rightarrow> int \<Rightarrow> act" where
  "rule_precursor_observed env mc =
     (case env_observed env of
        Inl _ \<Rightarrow> ok
      | Inr rows \<Rightarrow>
          (if rows = [] then ok
           else with_input (env_precursors env) (\<lambda>ps. for_each (observed_row env mc (usable_precursors env ps)) rows)))"

section \<open>What an action adds\<close>

text \<open>
  The effect of an action on a well-formed store: it keeps the store well formed, closes nothing,
  and opens at most keys of \<open>K\<close>. Every rule is built from the combinators below.
\<close>

definition adds :: "(string \<times> string) set \<Rightarrow> act \<Rightarrow> bool" where
  "adds K a \<longleftrightarrow> (\<forall>e. store_ok (eng_store e) \<longrightarrow>
     store_ok (eng_store (fst (a e))) \<and> open_rows (eng_store e) \<subseteq> open_rows (eng_store (fst (a e))) \<and>
     open_keys_of (eng_store (fst (a e))) \<subseteq> open_keys_of (eng_store e) \<union> K)"

lemma addsD:
  assumes "adds K a" and "store_ok (eng_store e)"
  shows "store_ok (eng_store (fst (a e)))" "open_rows (eng_store e) \<subseteq> open_rows (eng_store (fst (a e)))"
    "open_keys_of (eng_store (fst (a e))) \<subseteq> open_keys_of (eng_store e) \<union> K"
  using assms unfolding adds_def by blast+

named_theorems adds_intros \<open>effects of the combinators\<close>

lemma adds_mono: "adds K a \<Longrightarrow> K \<subseteq> L \<Longrightarrow> adds L a"
  unfolding adds_def by blast

lemma adds_same_store: "(\<And>e. eng_store (fst (a e)) = eng_store e) \<Longrightarrow> adds K a"
  by (simp add: adds_def)

lemma adds_ok [adds_intros]: "adds K ok"
  by (rule adds_same_store) (simp add: ok_def)

lemma adds_seq [adds_intros]:
  assumes "adds K a" and "adds K b"
  shows "adds K (seq a b)"
  unfolding adds_def
proof (intro allI impI)
  fix e :: engine assume e: "store_ok (eng_store e)"
  obtain e1 r where ae: "a e = (e1, r)" by (cases "a e")
  show "store_ok (eng_store (fst (seq a b e))) \<and> open_rows (eng_store e) \<subseteq> open_rows (eng_store (fst (seq a b e))) \<and>
      open_keys_of (eng_store (fst (seq a b e))) \<subseteq> open_keys_of (eng_store e) \<union> K"
    using addsD [OF assms(1) e] addsD [OF assms(2), of e1] ae by (cases r) (auto simp: seq_def)
qed

lemma adds_for_each [adds_intros]: "(\<And>x. x \<in> set xs \<Longrightarrow> adds K (f x)) \<Longrightarrow> adds K (for_each f xs)"
proof (induction xs)
  case Nil
  then show ?case by (intro adds_same_store) simp
next
  case (Cons x xs)
  then have "adds K (seq (f x) (for_each f xs))" by (intro adds_seq) auto
  moreover have "for_each f (x # xs) = seq (f x) (for_each f xs)" by (rule ext) simp
  ultimately show ?case by simp
qed

lemma adds_with_input [adds_intros]: "(\<And>v. r = Inr v \<Longrightarrow> adds K (k v)) \<Longrightarrow> adds K (with_input r k)"
  by (cases r) (auto simp: adds_def with_input_def)

lemma adds_when_hit [adds_intros]:
  assumes "adds K body" shows "adds K (when_hit env rl ids mc body)"
  unfolding adds_def
proof (intro allI impI)
  fix e :: engine assume e: "store_ok (eng_store e)"
  obtain h f where "track_rule_hit (env_sha env) (env_ctx env) rl ids mc (eng_hits e) = (h, f)" by fastforce
  then show "store_ok (eng_store (fst (when_hit env rl ids mc body e))) \<and>
      open_rows (eng_store e) \<subseteq> open_rows (eng_store (fst (when_hit env rl ids mc body e))) \<and>
      open_keys_of (eng_store (fst (when_hit env rl ids mc body e))) \<subseteq> open_keys_of (eng_store e) \<union> K"
    using addsD [OF assms, of "e\<lparr>eng_hits := h\<rparr>"] e by (auto simp: when_hit_def)
qed

lemma adds_incident:
  assumes "(sp_rule sp, dedup_key (env_sha env) sp) \<in> K"
  shows "adds K (incident_act env sp)"
  unfolding adds_def
proof (intro allI impI)
  fix e :: engine assume e: "store_ok (eng_store e)"
  obtain st iid ns where f: "find_or_create_incident (env_sha env) (env_now env) sp (eng_store e) = Inr (st, iid, ns)" and "store_ok st"
    using find_or_create_ok [OF e] by blast
  with find_or_create_rows [OF e f] assms show "store_ok (eng_store (fst (incident_act env sp e))) \<and>
      open_rows (eng_store e) \<subseteq> open_rows (eng_store (fst (incident_act env sp e))) \<and>
      open_keys_of (eng_store (fst (incident_act env sp e))) \<subseteq> open_keys_of (eng_store e) \<union> K"
    by (auto simp: incident_act_def open_keys_rows)
qed

lemma adds_host_incident [adds_intros]:
  "(rl, hash_host_ids (env_sha env) ids) \<in> K \<Longrightarrow> adds K (incident_act env (host_incident rl ti sv ids et su))"
  by (rule adds_incident) (simp add: host_incident_def dedup_key_def)

lemma adds_host_incident_detail [adds_intros]:
  "(rl, hash_host_ids (env_sha env) ids) \<in> K \<Longrightarrow> adds K (incident_act env ((host_incident rl ti sv ids et su)\<lparr>sp_detail := d\<rparr>))"
  by (rule adds_incident) (simp add: host_incident_def dedup_key_def)

lemma adds_if [adds_intros]: "(c \<Longrightarrow> adds K a) \<Longrightarrow> (\<not> c \<Longrightarrow> adds K b) \<Longrightarrow> adds K (if c then a else b)"
  by simp

lemma get_topology_store [simp]: "eng_store (snd (get_topology env e)) = eng_store e"
  by (auto simp: get_topology_def Let_def split: option.splits sum.splits)

lemma adds_topology:
  assumes "\<And>t. adds K (f t)"
  shows "adds K (\<lambda>e. case get_topology env e of (t, e1) \<Rightarrow> f t e1)"
  unfolding adds_def
proof (intro allI impI)
  fix e :: engine assume e: "store_ok (eng_store e)"
  obtain t e1 where te: "get_topology env e = (t, e1)" by (cases "get_topology env e")
  then have "eng_store e1 = eng_store e" using get_topology_store [of env e] by simp
  with addsD [OF assms, of e1 t] e te show "store_ok (eng_store (fst (case get_topology env e of (t, e1) \<Rightarrow> f t e1))) \<and>
      open_rows (eng_store e) \<subseteq> open_rows (eng_store (fst (case get_topology env e of (t, e1) \<Rightarrow> f t e1))) \<and>
      open_keys_of (eng_store (fst (case get_topology env e of (t, e1) \<Rightarrow> f t e1))) \<subseteq> open_keys_of (eng_store e) \<union> K"
    by auto
qed

section \<open>What each rule can open\<close>

definition host_keys :: "cycle_env \<Rightarrow> string \<Rightarrow> ping_host set \<Rightarrow> (string \<times> string) set" where
  "host_keys env rl hs = {(rl, hash_host_ids (env_sha env) [host_id h]) | h. h \<in> hs}"

lemma host_keysI [adds_intros]: "h \<in> hs \<Longrightarrow> (rl, hash_host_ids (env_sha env) [host_id h]) \<in> host_keys env rl hs"
  by (auto simp: host_keys_def)

lemma adds_host_down_syslog:
  "adds (host_keys env ''host_down_syslog'' {h \<in> set offline. \<exists>ids nums. host_id h \<in> set ids \<and> env_syslog_errors env ids = Inr nums \<and> dget_or nums (host_id h) 0 > 0}
     \<union> {''upstream_failure''} \<times> UNIV) (rule_host_down_syslog env mc offline)"
  (is "adds ?K _")
proof -
  have cand: "adds ?K (host_down_hit env mc nums h)"
    if "h \<in> set offline" "host_id h \<in> set ids" "env_syslog_errors env ids = Inr nums" for nums h ids
    unfolding host_down_hit_def Let_def
    by (intro adds_intros) (use that in \<open>auto simp: host_keys_def\<close>)
  have up: "adds ?K (upstream_failure env mc t offline)" for t
    unfolding upstream_failure_def Let_def by (auto intro!: adds_intros split: prod.splits)
  define f where "f t = (let cascaded = snd (filter_upstream_failures (host_id ` set offline) t);
             candidates = filter (\<lambda>h. host_id h \<notin> cascaded) offline
         in with_input (if candidates = [] then Inr [] else env_syslog_errors env (map host_id candidates))
              (\<lambda>nums. seq (for_each (host_down_hit env mc nums) candidates) (upstream_failure env mc t offline)))" for t
  have "adds ?K (f t)" for t
    unfolding f_def Let_def
  proof (intro adds_intros up)
    let ?c = "filter (\<lambda>h. host_id h \<notin> snd (filter_upstream_failures (host_id ` set offline) t)) offline"
    fix v h assume "(if ?c = [] then Inr [] else env_syslog_errors env (map host_id ?c)) = Inr v" and h: "h \<in> set ?c"
    moreover from h have "?c \<noteq> []" by (auto simp: filter_empty_conv)
    ultimately have "env_syslog_errors env (map host_id ?c) = Inr v" by (simp only: if_False)
    with h show "adds ?K (host_down_hit env mc v h)" by (intro cand) auto
  qed
  then have "adds ?K (\<lambda>e. case get_topology env e of (t, e1) \<Rightarrow> f t e1)" by (rule adds_topology)
  moreover have "rule_host_down_syslog env mc offline =
      (if offline = [] then ok else (\<lambda>e. case get_topology env e of (t, e1) \<Rightarrow> f t e1))"
    by (rule ext) (auto simp: rule_host_down_syslog_def f_def ok_def Let_def split: prod.splits)
  ultimately show ?thesis by (simp add: adds_ok)
qed

lemma adds_multi_host_down:
  "adds (if length offline \<ge> 3 then {''multi_host_down''} \<times> UNIV else {}) (rule_multi_host_down env mc offline)"
proof (cases "length offline < 3")
  case True
  then show ?thesis by (intro adds_same_store) (simp add: rule_multi_host_down_def)
next
  case False
  let ?K = "{''multi_host_down''} \<times> UNIV"
  have sub: "adds ?K (subnet_down env mc g)" for g
    unfolding subnet_down_def Let_def by (cases g) (auto intro!: adds_intros)
  define f where "f t = (let primary = fst (filter_upstream_failures (host_id ` set offline) t);
             primary_hosts = filter (\<lambda>h. host_id h \<in> primary) offline
         in if length primary_hosts < 3 then ok
            else
              (let subnets = group_subnets primary_hosts;
                   covered = sum_list (map (length \<circ> snd) (filter (\<lambda>g. length (snd g) \<ge> 3) subnets));
                   remaining = int (length primary_hosts) - int covered;
                   uncovered = concat (map snd (filter (\<lambda>g. length (snd g) < 3) subnets));
                   ids = map host_id uncovered; n = show_int (int (length uncovered))
               in seq (for_each (subnet_down env mc) subnets)
                    (if remaining \<ge> 3 then
                       when_hit env ''multi_host_down'' ids mc
                         (incident_act env (host_incident ''multi_host_down''
                            (''Multiple hosts down ('' @ n @ '' across subnets)'') ''warning'' ids ''host_down''
                            (n @ '' hosts offline across multiple subnets: '' @ name_list uncovered)))
                     else ok)))" for t
  have "adds ?K (f t)" for t
    unfolding f_def Let_def by (intro adds_intros sub) auto
  then have "adds ?K (\<lambda>e. case get_topology env e of (t, e1) \<Rightarrow> f t e1)" by (rule adds_topology)
  moreover have "rule_multi_host_down env mc offline = (\<lambda>e. case get_topology env e of (t, e1) \<Rightarrow> f t e1)"
    using False by (intro ext) (auto simp: rule_multi_host_down_def f_def ok_def Let_def split: prod.splits)
  ultimately show ?thesis using False by simp
qed

lemma find_mem: "find P xs = Some x \<Longrightarrow> x \<in> set xs \<and> P x"
  by (auto simp: find_Some_iff)

lemma adds_integration_host:
  "adds (host_keys env ''integration_host'' (set offline)) (rule_integration_host env mc offline)"
proof -
  have "adds (host_keys env ''integration_host'' (set offline)) (integration_down env mc snaps offline cfg)" for snaps cfg
    unfolding integration_down_def
    by (auto intro!: adds_intros dest!: find_mem split: option.splits)
  then have "adds (host_keys env ''integration_host'' (set offline)) (if offline = [] then ok else with_input (env_snaps env)
      (\<lambda>snaps. for_each (integration_down env mc snaps offline) (filter cfg_enabled (env_configs env))))"
    by (intro adds_intros)
  moreover have "rule_integration_host env mc offline = (if offline = [] then ok else with_input (env_snaps env)
      (\<lambda>snaps. for_each (integration_down env mc snaps offline) (filter cfg_enabled (env_configs env))))"
    by (rule ext) (simp add: rule_integration_host_def ok_def)
  ultimately show ?thesis by simp
qed

lemma adds_port_error:
  "adds (host_keys env ''port_error'' (set (without_maintenance (env_tz env) (filter (\<lambda>h. enabled h \<and> port_error h) (env_hosts env))
      (env_now env) (env_windows env)))) (rule_port_error env mc)"
  unfolding rule_port_error_def port_error_hit_def Let_def by (intro adds_intros)

lemma adds_syslog_spike: "adds ({''syslog_spike''} \<times> UNIV) (rule_syslog_spike env mc)"
  unfolding rule_syslog_spike_def Let_def by (intro adds_intros) auto

lemma adds_log_anomaly: "adds ({''log_anomaly''} \<times> UNIV) (rule_log_anomaly env mc)"
proof -
  have "adds ({''log_anomaly''} \<times> UNIV) (log_anomaly_hit env mc nums b)" for nums b
    unfolding log_anomaly_hit_def Let_def by (auto intro!: adds_intros split: option.splits)
  then show ?thesis unfolding rule_log_anomaly_def Let_def by (intro adds_intros)
qed

lemma adds_fleet_wide: "adds ({''fleet_wide_issue''} \<times> UNIV) (rule_fleet_wide env mc)"
  unfolding rule_fleet_wide_def fleet_hit_def Let_def by (intro adds_intros) auto

lemma adds_severity_trend: "adds ({''severity_trend''} \<times> UNIV) (rule_severity_trend env mc)"
  unfolding rule_severity_trend_def trend_hit_def by (intro adds_intros) auto

lemma adds_content_anomaly: "adds ({''content_anomaly''} \<times> UNIV) (rule_content_anomaly env mc)"
proof -
  have "adds ({''content_anomaly''} \<times> UNIV) (anomaly_hit env mc a)" for a
    by (cases a) (auto simp: Let_def intro!: adds_intros)
  then show ?thesis unfolding rule_content_anomaly_def by (intro adds_intros)
qed

lemma note_template_ok:
  assumes "store_ok st"
  shows "store_ok (note_template env iid txt st)" "open_rows (note_template env iid txt st) = open_rows st"
proof -
  define f where "f s i = (if precursor_template i \<in> {None, Some []}
      then i\<lparr>precursor_template := Some s, updated_at := env_now env\<rparr> else i)" for s and i :: incident
  have fs: "f s = (\<lambda>i. if precursor_template i \<in> {None, Some []}
      then i\<lparr>precursor_template := Some s, updated_at := env_now env\<rparr> else i)" for s
    by (rule ext) (simp only: f_def)
  have f: "row_update (f s)" for s by (auto simp: row_update_def f_def is_open_def)
  have keep: "inc_id (f s i) = inc_id i" "inc_rule (f s i) = inc_rule i" "host_ids_hash (f s i) = host_ids_hash i" "is_open (f s i) = is_open i" for s i
    by (auto simp: f_def is_open_def)
  have nt: "note_template env iid txt st = (case txt of None \<Rightarrow> st | Some s \<Rightarrow> if s = [] then st else update_incident iid (f s) st)"
    unfolding note_template_def fs by (rule refl)
  show "store_ok (note_template env iid txt st)"
    unfolding nt using assms store_ok_update [OF assms f] by (simp split: option.split)
  have "open_rows (update_incident iid (f s) st) = open_rows st" for s
  proof -
    define g where "g i = (if inc_id i = iid then f s i else i)" for i
    have g: "inc_id (g i) = inc_id i" "inc_rule (g i) = inc_rule i" "host_ids_hash (g i) = host_ids_hash i" "is_open (g i) = is_open i" for i
      by (simp_all add: g_def keep)
    have "st_incidents (update_incident iid (f s) st) = map g (st_incidents st)" by (simp add: update_incident_def g_def)
    then have "(x, rl, h) \<in> open_rows (update_incident iid (f s) st) \<longleftrightarrow> (x, rl, h) \<in> open_rows st" for x rl h
      by (simp add: mem_open_rows g)
    then show ?thesis by auto
  qed
  then show "open_rows (note_template env iid txt st) = open_rows st" unfolding nt by (simp split: option.split)
qed

definition precursor_rules :: "string set" where
  "precursor_rules = {rl. startswith rl ''learned_precursor''}"

lemma adds_precursor_hit: "adds (precursor_rules \<times> UNIV) (precursor_hit env mc observed hid p)"
proof -
  let ?sp = "precursor_incident env (or_id0 hid) p"
  have rl: "sp_rule ?sp \<in> precursor_rules"
    by (simp add: precursor_incident_def host_incident_def precursor_rules_def startswith_iff Let_def)
  show ?thesis
    unfolding precursor_hit_def
  proof (rule adds_when_hit, unfold adds_def, intro allI impI)
    fix e :: engine assume e: "store_ok (eng_store e)"
    obtain st iid ns where f: "find_or_create_incident (env_sha env) (env_now env) ?sp (eng_store e) = Inr (st, iid, ns)" and st: "store_ok st"
      using find_or_create_ok [OF e] by blast
    let ?a = "\<lambda>e. case find_or_create_incident (env_sha env) (env_now env) ?sp (eng_store e) of Inl x \<Rightarrow> (e, Some x)
      | Inr (st, iid, ns) \<Rightarrow> (e\<lparr>eng_store := note_template env iid (pp_text p) st, eng_sent := eng_sent e @ ns\<rparr>, None)"
    show "store_ok (eng_store (fst (?a e))) \<and> open_rows (eng_store e) \<subseteq> open_rows (eng_store (fst (?a e))) \<and>
        open_keys_of (eng_store (fst (?a e))) \<subseteq> open_keys_of (eng_store e) \<union> precursor_rules \<times> UNIV"
      using f note_template_ok [OF st] find_or_create_rows [OF e f] rl by (auto simp: open_keys_rows)
  qed
qed

lemma adds_precursor_observed: "adds (precursor_rules \<times> UNIV) (rule_precursor_observed env mc)"
proof -
  have "adds (precursor_rules \<times> UNIV) (observed_row env mc ps row)" for ps row
    unfolding observed_row_def by (cases row) (auto intro!: adds_intros adds_precursor_hit)
  then show ?thesis unfolding rule_precursor_observed_def by (auto intro!: adds_intros split: sum.splits)
qed

end
