(* ===== verification/Correlation.thy ===== *)
theory Correlation
  imports Correlation_Rules
begin

text \<open>
  The correlation cycle of \<^verbatim>\<open>backend/services/correlation.py\<close>: auto-resolution of open incidents and
  \<open>run_correlation\<close>, which runs every rule in its own transaction, resolves, and prunes the streak
  counters. One cycle reads the clock once (\<open>env_now\<close>).
\<close>

section \<open>Auto-resolve\<close>

definition TIMEOUT_RESOLVE_REASONS :: "(string, string) dict" where
  "TIMEOUT_RESOLVE_REASONS =
     [(''syslog_spike'', ''Auto-resolved: error rate returned to normal''),
      (''log_anomaly'', ''Auto-resolved: log volume back within its baseline''),
      (''fleet_wide_issue'', ''Auto-resolved: pattern no longer seen across hosts''),
      (''severity_trend'', ''Auto-resolved: severity trend no longer rising''),
      (''content_anomaly'', ''Auto-resolved: log content back to normal'')]"

definition timeout_resolve_reason :: "string \<Rightarrow> string option" where
  "timeout_resolve_reason rl =
     (if dget TIMEOUT_RESOLVE_REASONS rl \<noteq> None then dget TIMEOUT_RESOLVE_REASONS rl
      else if startswith rl ''learned_precursor'' then Some ''Auto-resolved: precursor not seen again for 10 minutes''
      else if startswith rl ''alert_rule_'' then Some ''Auto-resolved: rule condition no longer met''
      else None)"

definition port_error_hashes :: "cycle_env \<Rightarrow> string set" where
  "port_error_hashes env =
     (\<lambda>h. hash_host_ids (env_sha env) [host_id h]) ` set (filter (\<lambda>h. enabled h \<and> port_error h) (env_hosts env))"

text \<open>Whether the condition behind a host incident still holds; \<open>Inl\<close> when its query fails.\<close>

definition still_failing :: "cycle_env \<Rightarrow> ping_host list \<Rightarrow> incident \<Rightarrow> bool result" where
  "still_failing env offline i =
     (if inc_rule i = ''host_down_syslog'' then
        bind_result (if offline = [] then Inr [] else env_syslog_errors env (map host_id offline)) (\<lambda>nums.
          Inr (list_ex (\<lambda>h. Some (hash_host_ids (env_sha env) [host_id h]) = host_ids_hash i \<and> dget_or nums (host_id h) 0 > 0) offline))
      else if inc_rule i = ''multi_host_down'' then Inr (length offline \<ge> 3)
      else if inc_rule i = ''integration_host'' then
        Inr (list_ex (\<lambda>h. Some (hash_host_ids (env_sha env) [host_id h]) = host_ids_hash i) offline)
      else if inc_rule i = ''port_error'' then
        Inr (case host_ids_hash i of None \<Rightarrow> False | Some k \<Rightarrow> k \<in> port_error_hashes env)
      else Inr False)"

definition resolve_act :: "cycle_env \<Rightarrow> incident \<Rightarrow> string \<Rightarrow> engine \<times> int list \<Rightarrow> engine \<times> int list" where
  "resolve_act env i why ep = (case ep of (e, ids) \<Rightarrow>
     (e\<lparr>eng_store := resolve_incident (env_now env) (inc_id i) why (eng_store e),
        eng_sent := eng_sent e @ [resolved_note i why]\<rparr>, ids @ [inc_id i]))"

definition self_managed :: "incident \<Rightarrow> bool" where
  "self_managed i \<longleftrightarrow> inc_rule i = ''self_check'' \<or> inc_rule i = ''agent_service'' \<or> inc_rule i \<in> set RULES \<or>
     host_ids_hash i \<in> {None, Some []}"

definition back_online :: string where
  "back_online = ''Auto-resolved: affected hosts are back online''"

definition auto_resolve_one ::
    "cycle_env \<Rightarrow> ping_host list \<Rightarrow> incident \<Rightarrow> engine \<times> int list \<Rightarrow> (engine \<times> int list) \<times> py_error option" where
  "auto_resolve_one env offline i ep =
     (case timeout_resolve_reason (inc_rule i) of
        Some why \<Rightarrow>
          (if updated_at i < env_now env - minutes 10 then (resolve_act env i why ep, None) else (ep, None))
      | None \<Rightarrow>
          (if self_managed i then (ep, None)
           else (case still_failing env offline i of
                   Inl x \<Rightarrow> (ep, Some x)
                 | Inr failing \<Rightarrow> (if failing then (ep, None) else (resolve_act env i back_online ep, None)))))"

fun auto_resolve_loop ::
    "cycle_env \<Rightarrow> ping_host list \<Rightarrow> incident list \<Rightarrow> engine \<times> int list \<Rightarrow> (engine \<times> int list) \<times> py_error option" where
  "auto_resolve_loop env offline [] ep = (ep, None)"
| "auto_resolve_loop env offline (i # is) ep =
     (case auto_resolve_one env offline i ep of
        (ep', None) \<Rightarrow> auto_resolve_loop env offline is ep'
      | (ep', Some x) \<Rightarrow> (ep', Some x))"

definition auto_resolve :: "cycle_env \<Rightarrow> ping_host list \<Rightarrow> engine \<Rightarrow> (engine \<times> int list) \<times> py_error option" where
  "auto_resolve env offline e = auto_resolve_loop env offline (filter is_open (st_incidents (eng_store e))) (e, [])"

section \<open>The cycle\<close>

definition load_correlation_settings :: "string option \<Rightarrow> string option \<Rightarrow> int \<times> int" where
  "load_correlation_settings mf mc =
     ((case mf of None \<Rightarrow> 3 | Some s \<Rightarrow> (case parse_int s of None \<Rightarrow> 3 | Some n \<Rightarrow> max 1 n)),
      (case mc of None \<Rightarrow> 2 | Some s \<Rightarrow> (case parse_int s of None \<Rightarrow> 2 | Some n \<Rightarrow> max 1 n)))"

definition run_rule :: "act \<Rightarrow> engine \<Rightarrow> engine \<times> bool" where
  "run_rule a e = (case a e of (e', None) \<Rightarrow> (e', True) | (e', Some _) \<Rightarrow> (e'\<lparr>eng_store := eng_store e\<rparr>, False))"

definition cycle_rules :: "cycle_env \<Rightarrow> int \<Rightarrow> ping_host list result \<Rightarrow> act list" where
  "cycle_rules env mc offline =
     (case offline of
        Inl _ \<Rightarrow> []
      | Inr hs \<Rightarrow> [rule_host_down_syslog env mc hs, rule_multi_host_down env mc hs, rule_integration_host env mc hs])
     @ [rule_port_error env mc, rule_syslog_spike env mc, rule_log_anomaly env mc, rule_fleet_wide env mc,
        rule_severity_trend env mc, rule_content_anomaly env mc, rule_precursor_observed env mc]"

fun run_rules :: "act list \<Rightarrow> engine \<times> bool \<Rightarrow> engine \<times> bool" where
  "run_rules [] eb = eb"
| "run_rules (a # as) (e, all_ok) = (case run_rule a e of (e', fine) \<Rightarrow> run_rules as (e', all_ok \<and> fine))"

definition orphans_act :: "cycle_env \<Rightarrow> engine \<times> bool \<Rightarrow> engine \<times> bool" where
  "orphans_act env eb = (case eb of (e, all_ok) \<Rightarrow>
     (case env_alert_configs env of
        Inl _ \<Rightarrow> (e, False)
      | Inr configs \<Rightarrow>
          (let s = fst (resolve_orphans (env_sha env) (env_now env) configs \<lparr>ss_store = eng_store e, ss_streaks = [], ss_pending = []\<rparr>) in
           (e\<lparr>eng_store := ss_store s, eng_sent := eng_sent e @ ss_pending s\<rparr>, all_ok))))"

definition resolve_phase :: "cycle_env \<Rightarrow> ping_host list result \<Rightarrow> engine \<times> bool \<Rightarrow> engine \<times> bool \<times> int list" where
  "resolve_phase env offline eb = (case eb of (e, all_ok) \<Rightarrow>
     (case offline of
        Inl _ \<Rightarrow> (e, all_ok, [])
      | Inr hs \<Rightarrow>
          (case auto_resolve env hs e of
             ((e', ids), None) \<Rightarrow> (e', all_ok, ids)
           | ((e', ids), Some _) \<Rightarrow> (e'\<lparr>eng_store := eng_store e\<rparr>, False, []))))"

text \<open>\<open>run_correlation\<close>: the engine after the cycle and the ids handed to the incident-resolved hooks.\<close>

definition run_correlation :: "cycle_env \<Rightarrow> (int \<times> int) result \<Rightarrow> engine \<Rightarrow> engine \<times> int list" where
  "run_correlation env settings e =
     (case settings of
        Inl _ \<Rightarrow> (e\<lparr>eng_hits := clear_cycle_hits (hit_tenant (env_ctx env) False) (eng_hits e)\<rparr>, [])
      | Inr (mf, mc) \<Rightarrow>
          (let offline = get_offline_hosts env mf;
               (e2, ok2) = orphans_act env (run_rules (cycle_rules env mc offline) (e, is_ok offline));
               (e3, all_ok, ids) = resolve_phase env offline (e2, ok2)
           in (e3\<lparr>eng_hits := (if all_ok then prune_stale_hits (env_ctx env) (eng_hits e3)
                                 else clear_cycle_hits (hit_tenant (env_ctx env) False) (eng_hits e3))\<rparr>, ids)))"

section \<open>Auto-resolve, exactly\<close>

definition resolves :: "cycle_env \<Rightarrow> ping_host list \<Rightarrow> incident \<Rightarrow> bool" where
  "resolves env offline i =
     (case timeout_resolve_reason (inc_rule i) of
        Some _ \<Rightarrow> updated_at i < env_now env - minutes 10
      | None \<Rightarrow> \<not> self_managed i \<and> still_failing env offline i = Inr False)"

lemma resolve_act_simps [simp]:
  "eng_store (fst (resolve_act env i why ep)) = resolve_incident (env_now env) (inc_id i) why (eng_store (fst ep))"
  "snd (resolve_act env i why ep) = snd ep @ [inc_id i]"
  by (simp_all add: resolve_act_def split: prod.split)

lemma auto_resolve_one_cases:
  assumes "auto_resolve_one env offline i ep = (ep', r)"
  obtains (kept) "ep' = ep" "\<not> resolves env offline i" | (resolved) why where "ep' = resolve_act env i why ep" "resolves env offline i"
  using assms by (auto simp: auto_resolve_one_def resolves_def split: option.splits if_splits sum.splits)

lemma auto_resolve_one_rows:
  assumes "auto_resolve_one env offline i ep = (ep', r)"
  shows "open_rows (eng_store (fst ep')) = {x \<in> open_rows (eng_store (fst ep)). \<not> (fst x = inc_id i \<and> resolves env offline i)}"
    "inc_id ` set (st_incidents (eng_store (fst ep'))) = inc_id ` set (st_incidents (eng_store (fst ep)))"
    "inc_id i \<in> inc_id ` set (st_incidents (eng_store (fst ep))) \<Longrightarrow> store_ok (eng_store (fst ep)) \<Longrightarrow> store_ok (eng_store (fst ep'))"
  using assms
  by (cases rule: auto_resolve_one_cases; simp add: resolve_rows ids_resolve store_ok_resolve)+

lemma auto_resolve_loop_rows:
  assumes "auto_resolve_loop env offline is ep = (ep', None)"
  shows "open_rows (eng_store (fst ep')) =
    {x \<in> open_rows (eng_store (fst ep)). fst x \<notin> inc_id ` {i \<in> set is. resolves env offline i}}"
  using assms
proof (induction env offline "is" ep rule: auto_resolve_loop.induct)
  case (2 env offline i "is" ep)
  obtain ep1 r where one: "auto_resolve_one env offline i ep = (ep1, r)" by fastforce
  with "2.prems" have r: "r = None" "auto_resolve_loop env offline is ep1 = (ep', None)" by (auto split: option.splits)
  from "2.IH" [OF one [unfolded r(1), symmetric] refl r(2)] auto_resolve_one_rows(1) [OF one] show ?case by auto
qed simp

lemma auto_resolve_loop_ok:
  assumes "store_ok (eng_store (fst ep))" and "inc_id ` set is \<subseteq> inc_id ` set (st_incidents (eng_store (fst ep)))"
  shows "store_ok (eng_store (fst (fst (auto_resolve_loop env offline is ep))))"
  using assms
proof (induction env offline "is" ep rule: auto_resolve_loop.induct)
  case (2 env offline i "is" ep)
  obtain ep1 r where one: "auto_resolve_one env offline i ep = (ep1, r)" by fastforce
  from auto_resolve_one_rows(2,3) [OF one] "2.prems"
  have "store_ok (eng_store (fst ep1))" "inc_id ` set is \<subseteq> inc_id ` set (st_incidents (eng_store (fst ep1)))" by auto
  note inv = this
  show ?case
  proof (cases r)
    case None
    from "2.IH" [OF one [unfolded None, symmetric] refl inv] one None show ?thesis by simp
  qed (use one inv in simp)
qed simp

lemma auto_resolve_row:
  assumes "store_ok (eng_store e)" and "auto_resolve env offline e = ((e', ids), None)"
    and "i \<in> set (st_incidents (eng_store e))" and "is_open i" and "host_ids_hash i = Some h"
  shows "(inc_id i, inc_rule i, h) \<in> open_rows (eng_store e') \<longleftrightarrow> \<not> resolves env offline i"
proof -
  have same: "j = i" if "j \<in> set (st_incidents (eng_store e))" "inc_id j = inc_id i" for j
    using assms(1,3) that by (auto simp: store_ok_def dest: distinct_map_unique)
  have "(inc_id i, inc_rule i, h) \<in> open_rows (eng_store e)" using assms(3-5) by (auto simp: mem_open_rows)
  moreover have "open_rows (eng_store e') =
      {x \<in> open_rows (eng_store e). fst x \<notin> inc_id ` {i \<in> set (filter is_open (st_incidents (eng_store e))). resolves env offline i}}"
    using auto_resolve_loop_rows [of env offline _ "(e, [])" "(e', ids)"] assms(2) by (simp add: auto_resolve_def)
  moreover have "inc_id i \<in> inc_id ` {i \<in> set (filter is_open (st_incidents (eng_store e))). resolves env offline i} \<longleftrightarrow> resolves env offline i"
  proof
    assume "inc_id i \<in> inc_id ` {i \<in> set (filter is_open (st_incidents (eng_store e))). resolves env offline i}"
    then obtain j where "j \<in> set (st_incidents (eng_store e))" "inc_id j = inc_id i" "resolves env offline j" by auto
    with same show "resolves env offline i" by metis
  qed (use assms(3,4) in auto)
  ultimately show ?thesis by simp
qed

section \<open>The cycle keeps the store well formed\<close>

lemma run_rule_ok:
  assumes "adds K a" and "store_ok (eng_store e)"
  shows "store_ok (eng_store (fst (run_rule a e)))" "open_rows (eng_store e) \<subseteq> open_rows (eng_store (fst (run_rule a e)))"
  using addsD [OF assms] assms(2) by (auto simp: run_rule_def split: prod.splits option.splits)

lemma run_rules_ok:
  assumes "\<And>a. a \<in> set as \<Longrightarrow> \<exists>K. adds K a" and "store_ok (eng_store (fst eb))"
  shows "store_ok (eng_store (fst (run_rules as eb))) \<and> open_rows (eng_store (fst eb)) \<subseteq> open_rows (eng_store (fst (run_rules as eb)))"
  using assms
proof (induction "as" eb rule: run_rules.induct)
  case (2 a "as" e all_ok)
  obtain e1 fine where r: "run_rule a e = (e1, fine)" by fastforce
  from "2.prems" obtain K where "adds K a" by auto
  from run_rule_ok [OF this, of e] r "2.prems"(2) have "store_ok (eng_store e1)" "open_rows (eng_store e) \<subseteq> open_rows (eng_store e1)" by auto
  with "2.IH" [OF r [symmetric]] r "2.prems"(1) show ?case by auto
qed simp

lemma cycle_rules_add: "a \<in> set (cycle_rules env mc offline) \<Longrightarrow> \<exists>K. adds K a"
  by (auto simp: cycle_rules_def split: sum.splits
      intro: adds_host_down_syslog adds_multi_host_down adds_integration_host adds_port_error adds_syslog_spike adds_log_anomaly
        adds_fleet_wide adds_severity_trend adds_content_anomaly adds_precursor_observed)

lemma orphans_act_ok:
  assumes "store_ok (eng_store (fst eb))"
  shows "store_ok (eng_store (fst (orphans_act env eb)))"
    "open_rows (eng_store (fst (orphans_act env eb))) =
       {(x, rl, h) \<in> open_rows (eng_store (fst eb)). \<not> (rl \<in> set RULES \<and> (\<exists>cs. env_alert_configs env = Inr cs \<and> orphan_key (env_sha env) cs rl h))}"
  using resolve_orphans_rows [of "\<lparr>ss_store = eng_store (fst eb), ss_streaks = [], ss_pending = []\<rparr>" "env_sha env" "env_now env"] assms
  by (auto simp: orphans_act_def Let_def split: prod.splits sum.splits)

lemma resolve_phase_ok:
  assumes "store_ok (eng_store (fst eb))"
  shows "store_ok (eng_store (fst (resolve_phase env offline eb)))"
proof (cases offline)
  case (Inr hs)
  have "store_ok (eng_store (fst (fst (auto_resolve env hs (fst eb)))))"
    unfolding auto_resolve_def using assms by (intro auto_resolve_loop_ok) auto
  with Inr assms show ?thesis by (auto simp: resolve_phase_def split: prod.splits option.splits)
qed (use assms in \<open>auto simp: resolve_phase_def split: prod.splits\<close>)

lemma run_correlation_ok: "store_ok (eng_store e) \<Longrightarrow> store_ok (eng_store (fst (run_correlation env settings e)))"
proof (cases settings)
  case (Inr ms)
  assume e: "store_ok (eng_store e)"
  obtain mf mc where ms: "ms = (mf, mc)" by (cases ms)
  let ?off = "get_offline_hosts env mf"
  have "store_ok (eng_store (fst (run_rules (cycle_rules env mc ?off) (e, is_ok ?off))))"
    using run_rules_ok [of "cycle_rules env mc ?off" "(e, is_ok ?off)"] cycle_rules_add e by auto
  then have "store_ok (eng_store (fst (orphans_act env (run_rules (cycle_rules env mc ?off) (e, is_ok ?off)))))"
    by (rule orphans_act_ok)
  then have "store_ok (eng_store (fst (resolve_phase env ?off (orphans_act env (run_rules (cycle_rules env mc ?off) (e, is_ok ?off))))))"
    by (rule resolve_phase_ok)
  then show ?thesis using Inr ms by (auto simp: run_correlation_def Let_def split: prod.splits)
qed (auto simp: run_correlation_def)

definition cycle_step :: "cycle_env \<times> (int \<times> int) result \<Rightarrow> engine \<Rightarrow> engine" where
  "cycle_step inp e = fst (run_correlation (fst inp) (snd inp) e)"

definition fresh_engine :: "int \<Rightarrow> engine" where
  "fresh_engine t = \<lparr>eng_store = empty_store t, eng_hits = no_hits, eng_topo = [], eng_sent = []\<rparr>"

interpretation cycles: step_system cycle_step "\<lambda>e. store_ok (eng_store e)"
  by unfold_locales (simp add: cycle_step_def run_correlation_ok)

text \<open>C4. Invariant of the running engine: after any sequence of correlation cycles, whatever the database and
  ClickHouse return or fail to return in each, the incident tables are well formed: ids are unique, no
  event dangles, at most one incident per rule and dedup key is open, and exactly the resolved ones
  carry a resolution time.\<close>

theorem cycles_keep_store: "store_ok (eng_store (fold cycle_step inputs (fresh_engine t)))"
  by (rule cycles.run_good) (simp add: fresh_engine_def)

text \<open>C9. An unknown offline set resolves nothing but orphans: when the offline-host lookup fails, every open incident is still
  open after the cycle, unless it is an integration incident, the configurations could be read, and its key is made from none of the
  enabled ones.\<close>

theorem unknown_offline_resolves_nothing:
  assumes "store_ok (eng_store e)" and "get_offline_hosts env mf = Inl err"
  shows "{(x, rl, h) \<in> open_rows (eng_store e).
      rl \<in> {ALERT_RULE, FAILED_RULE} \<longrightarrow>
        (case env_alert_configs env of
           Inl _ \<Rightarrow> True
         | Inr cs \<Rightarrow> \<exists>c \<in> set cs. cfg_enabled c \<and>
             (if rl = FAILED_RULE then h else key_prefix h) \<in> {alert_prefix (env_sha env) c, failed_key c})}
    \<subseteq> open_rows (eng_store (fst (run_correlation env (Inr (mf, mc)) e)))"
proof -
  let ?r = "run_rules (cycle_rules env mc (Inl err)) (e, False)"
  have r: "store_ok (eng_store (fst ?r))" "open_rows (eng_store e) \<subseteq> open_rows (eng_store (fst ?r))"
    using run_rules_ok [of "cycle_rules env mc (Inl err)" "(e, False)"] cycle_rules_add assms(1) by auto
  have st: "eng_store (fst (run_correlation env (Inr (mf, mc)) e)) = eng_store (fst (orphans_act env ?r))"
    using assms(2) by (auto simp: run_correlation_def resolve_phase_def Let_def split: prod.splits)
  have live: "\<not> orphan_key (env_sha env) cs rl h"
    if "\<exists>c \<in> set cs. cfg_enabled c \<and> (if rl = FAILED_RULE then h else key_prefix h) \<in> {alert_prefix (env_sha env) c, failed_key c}" for cs rl h
    using that by (auto simp: orphan_key_def live_keys_def)
  have keep: "\<not> (rl \<in> set RULES \<and> (\<exists>cs. env_alert_configs env = Inr cs \<and> orphan_key (env_sha env) cs rl h))"
    if "rl \<in> {ALERT_RULE, FAILED_RULE} \<longrightarrow>
        (case env_alert_configs env of
           Inl _ \<Rightarrow> True
         | Inr cs \<Rightarrow> \<exists>c \<in> set cs. cfg_enabled c \<and>
             (if rl = FAILED_RULE then h else key_prefix h) \<in> {alert_prefix (env_sha env) c, failed_key c})" for rl h
  proof (cases "env_alert_configs env")
    case (Inr cs)
    have "\<not> orphan_key (env_sha env) cs rl h" if "rl \<in> set RULES"
      by (rule live) (use \<open>rl \<in> {ALERT_RULE, FAILED_RULE} \<longrightarrow> _\<close> that Inr in \<open>simp add: RULES_def; blast\<close>)
    then show ?thesis using Inr by simp
  qed simp
  show ?thesis
  proof (rule subsetI, clarify)
    fix x rl h assume "(x, rl, h) \<in> open_rows (eng_store e)" and c: "rl \<in> {ALERT_RULE, FAILED_RULE} \<longrightarrow>
        (case env_alert_configs env of
           Inl _ \<Rightarrow> True
         | Inr cs \<Rightarrow> \<exists>c \<in> set cs. cfg_enabled c \<and>
             (if rl = FAILED_RULE then h else key_prefix h) \<in> {alert_prefix (env_sha env) c, failed_key c})"
    then have "(x, rl, h) \<in> open_rows (eng_store (fst ?r))" using r(2) by blast
    then show "(x, rl, h) \<in> open_rows (eng_store (fst (run_correlation env (Inr (mf, mc)) e)))"
      unfolding st orphans_act_ok(2) [OF r(1)] using keep [OF c] by blast
  qed
qed

text \<open>A site with one offline host, where every other query returns nothing.\<close>

definition demo_env :: cycle_env where
  "demo_env = \<lparr>env_sha = id, env_frepr = fmt_g, env_ctx = tenant_context 1, env_now = minutes 1000, env_tz = utc_only, env_windows = [],
     env_hosts = [plain_host 7 ''10.0.0.7''], env_offline_since = (\<lambda>ids _. Inr ids), env_build = Inr [],
     env_syslog_errors = (\<lambda>ids. Inr (map (\<lambda>i. (i, 4)) ids)), env_set_order = (\<lambda>_. []), env_configs = [], env_snaps = Inr [],
     env_config_dict = (\<lambda>_. Inl TypeError), env_errors_5m = Inr None, env_errors_1h = Inr None, env_baselines = Inr [],
     env_received = (\<lambda>_. Inr []), env_fleet = Inr [], env_templates = [], env_anomalies = Inr [], env_min_confidence = 1,
     env_min_occurrences = 20, env_blacklisted = (\<lambda>_. False), env_observed = Inr [], env_precursors = Inr [],
     env_alert_configs = Inr []\<rparr>"

definition blind_env :: cycle_env where
  "blind_env = demo_env\<lparr>env_offline_since := (\<lambda>_ _. Inl (RuntimeError ''ClickHouse unreachable''))\<rparr>"

definition demo_engine :: engine where
  "demo_engine = (fresh_engine 1)\<lparr>eng_store := one_incident\<rparr>"

lemma demo_engine_ok: "store_ok (eng_store demo_engine)"
  by (simp add: demo_engine_def one_incident_def old_event_def empty_store_def store_ok_def open_unique_def is_open_def)

lemma demo_engine_row: "(1, ''port_error'', ''h'') \<in> open_rows (eng_store demo_engine)"
  by (simp add: demo_engine_def one_incident_def mem_open_rows is_open_def)

lemma demo_offline: "get_offline_hosts demo_env n = Inr [plain_host 7 ''10.0.0.7'']"
  by (auto simp: get_offline_hosts_def demo_env_def without_maintenance_def maintenance_ids_def is_in_maintenance_def
      manual_maintenance_def plain_host_def)

theorem unknown_offline_resolves_nothing_witness:
  "store_ok (eng_store demo_engine) \<and> \<not> is_ok (get_offline_hosts blind_env 3) \<and>
   (1, ''port_error'', ''h'') \<in> open_rows (eng_store (fst (run_correlation blind_env (Inr (3, 2)) demo_engine)))"
proof -
  have f: "get_offline_hosts blind_env 3 = Inl (RuntimeError ''ClickHouse unreachable'')"
    by (auto simp: get_offline_hosts_def blind_env_def demo_env_def without_maintenance_def maintenance_ids_def is_in_maintenance_def
        manual_maintenance_def plain_host_def)
  have "''port_error'' \<notin> set RULES" by (simp add: RULES_def ALERT_RULE_def FAILED_RULE_def)
  then have "(1, ''port_error'', ''h'') \<in> open_rows (eng_store (fst (run_correlation blind_env (Inr (3, 2)) demo_engine)))"
    using demo_engine_row by (intro subsetD [OF unknown_offline_resolves_nothing [OF demo_engine_ok f, of 2]]) (simp add: RULES_def)
  then show ?thesis using demo_engine_ok f by simp
qed

section \<open>Auto-resolve policy\<close>

text \<open>C28. Auto-resolve does exactly what its policy says. After a pass that did not fail, an open incident is still open
  exactly if: for rules that resolve on inactivity, it was updated in the last ten minutes; it belongs to a source
  that resolves its own incidents or has no dedup key; or the condition of its rule still holds (an
  offline host of its key still logs errors; three hosts are offline; the host of its key is offline;
  the host of its key still fails a service check). An incident of any other rule is closed.\<close>

theorem auto_resolve_policy:
  assumes "store_ok (eng_store e)" and "auto_resolve env offline e = ((e', ids), None)"
    and "i \<in> set (st_incidents (eng_store e))" and "is_open i" and "host_ids_hash i = Some h"
  shows "(inc_id i, inc_rule i, h) \<in> open_rows (eng_store e') \<longleftrightarrow>
    (if timeout_resolve_reason (inc_rule i) \<noteq> None then env_now env - minutes 10 \<le> updated_at i
     else if inc_rule i \<in> {''self_check'', ''agent_service'', ''integration_alert'', ''integration_failed''} \<or> h = [] then True
     else if inc_rule i = ''host_down_syslog'' then
       (case env_syslog_errors env (map host_id offline) of
          Inl _ \<Rightarrow> offline \<noteq> []
        | Inr nums \<Rightarrow> \<exists>x \<in> set offline. h = hash_host_ids (env_sha env) [host_id x] \<and> dget_or nums (host_id x) 0 > 0)
     else if inc_rule i = ''multi_host_down'' then 3 \<le> length offline
     else if inc_rule i = ''integration_host'' then \<exists>x \<in> set offline. h = hash_host_ids (env_sha env) [host_id x]
     else if inc_rule i = ''port_error'' then
       \<exists>x \<in> set (env_hosts env). enabled x \<and> port_error x \<and> h = hash_host_ids (env_sha env) [host_id x]
     else False)"
proof -
  have sm: "self_managed i \<longleftrightarrow> inc_rule i \<in> {''self_check'', ''agent_service'', ''integration_alert'', ''integration_failed''} \<or> h = []"
    using assms(5) by (auto simp: self_managed_def RULES_def ALERT_RULE_def FAILED_RULE_def)
  have p: "(case host_ids_hash i of None \<Rightarrow> False | Some k \<Rightarrow> k \<in> port_error_hashes env) \<longleftrightarrow>
      (\<exists>x \<in> set (env_hosts env). enabled x \<and> port_error x \<and> h = hash_host_ids (env_sha env) [host_id x])"
    using assms(5) by (auto simp: port_error_hashes_def)
  have m: "list_ex (\<lambda>x. Some (hash_host_ids (env_sha env) [host_id x]) = host_ids_hash i) offline \<longleftrightarrow>
      (\<exists>x \<in> set offline. h = hash_host_ids (env_sha env) [host_id x])"
    using assms(5) by (auto simp: list_ex_iff)
  have s: "inc_rule i = ''host_down_syslog'' \<Longrightarrow> still_failing env offline i \<noteq> Inr False \<longleftrightarrow>
      (case env_syslog_errors env (map host_id offline) of
          Inl _ \<Rightarrow> offline \<noteq> []
        | Inr nums \<Rightarrow> \<exists>x \<in> set offline. h = hash_host_ids (env_sha env) [host_id x] \<and> dget_or nums (host_id x) 0 > 0)"
    using assms(5) by (auto simp: still_failing_def list_ex_iff split: sum.splits)
  show ?thesis
  proof (cases "timeout_resolve_reason (inc_rule i)")
    case None
    have "\<not> resolves env offline i \<longleftrightarrow> self_managed i \<or> still_failing env offline i \<noteq> Inr False"
      using None by (simp add: resolves_def)
    then show ?thesis
      unfolding auto_resolve_row [OF assms] sm using None s by (auto simp: still_failing_def p m)
  next
    case (Some why)
    then show ?thesis unfolding auto_resolve_row [OF assms] by (simp add: resolves_def not_less)
  qed
qed

lemma auto_resolve_total: "(\<And>ids. is_ok (env_syslog_errors env ids)) \<Longrightarrow> snd (auto_resolve env offline e) = None"
proof -
  assume q: "\<And>ids. is_ok (env_syslog_errors env ids)"
  have "is_ok (still_failing env offline i)" for i
    using q [of "map host_id offline"] by (cases "env_syslog_errors env (map host_id offline)") (simp_all add: still_failing_def)
  then have one: "snd (auto_resolve_one env offline i ep) = None" for i ep
    by (simp add: auto_resolve_one_def split: option.split sum.split) (metis is_ok.simps(1))
  have "snd (auto_resolve_loop env offline is ep) = None" for "is" ep
  proof (induction "is" arbitrary: ep)
    case (Cons i xs)
    obtain ep1 r where r: "auto_resolve_one env offline i ep = (ep1, r)" by fastforce
    with one [of i ep] have "r = None" by simp
    with r Cons.IH show ?case by simp
  qed simp
  then show ?thesis by (simp add: auto_resolve_def)
qed

theorem auto_resolve_policy_witness:
  "(inc_id (hd (st_incidents one_incident)), ''port_error'', ''h'') \<in> open_rows (eng_store demo_engine) \<and>
   (inc_id (hd (st_incidents one_incident)), ''port_error'', ''h'') \<notin> open_rows (eng_store (fst (fst (auto_resolve demo_env [] demo_engine))))"
proof -
  let ?i = "hd (st_incidents one_incident)"
  have i: "?i \<in> set (st_incidents (eng_store demo_engine))" "is_open ?i" "host_ids_hash ?i = Some ''h''" "inc_rule ?i = ''port_error''"
    by (simp_all add: demo_engine_def one_incident_def is_open_def)
  obtain e' ids where r: "auto_resolve demo_env [] demo_engine = ((e', ids), None)"
    using auto_resolve_total [of demo_env "[]" demo_engine] by (cases "auto_resolve demo_env [] demo_engine") (auto simp: demo_env_def)
  have t: "timeout_resolve_reason ''port_error'' = None"
    by (simp add: timeout_resolve_reason_def TIMEOUT_RESOLVE_REASONS_def dget_def)
  have "(inc_id ?i, inc_rule ?i, ''h'') \<notin> open_rows (eng_store e')"
    using auto_resolve_policy [OF demo_engine_ok r i(1-3)] i(4) t by (simp add: demo_env_def plain_host_def)
  with i r show ?thesis by (auto simp: mem_open_rows)
qed

section \<open>Opening and resolving in one cycle\<close>

lemma dget_or_map_const: "x \<in> set ids \<Longrightarrow> dget_or (map (\<lambda>i. (i, c)) ids) x d = c"
  by (induction ids) (auto simp: dget_or_def dget_def)

definition counts_stable :: "cycle_env \<Rightarrow> bool" where
  "counts_stable env \<longleftrightarrow> (\<forall>ids ids' n n' x. env_syslog_errors env ids = Inr n \<and> env_syslog_errors env ids' = Inr n' \<and>
     x \<in> set ids \<and> x \<in> set ids' \<longrightarrow> dget_or n x 0 = dget_or n' x 0)"

lemma counts_stableD:
  "counts_stable env \<Longrightarrow> env_syslog_errors env ids = Inr n \<Longrightarrow> env_syslog_errors env ids' = Inr n' \<Longrightarrow> x \<in> set ids \<Longrightarrow> x \<in> set ids'
    \<Longrightarrow> dget_or n x 0 = dget_or n' x 0"
  unfolding counts_stable_def by blast

definition host_rules :: "cycle_env \<Rightarrow> int \<Rightarrow> ping_host list \<Rightarrow> act set" where
  "host_rules env mc offline =
     {rule_host_down_syslog env mc offline, rule_multi_host_down env mc offline, rule_integration_host env mc offline, rule_port_error env mc}"

text \<open>The keys a host rule can open are keys whose condition holds.\<close>

definition syslog_down :: "cycle_env \<Rightarrow> ping_host \<Rightarrow> bool" where
  "syslog_down env x \<longleftrightarrow> (\<exists>ids nums. host_id x \<in> set ids \<and> env_syslog_errors env ids = Inr nums \<and> dget_or nums (host_id x) 0 > 0)"

definition port_down :: "cycle_env \<Rightarrow> ping_host \<Rightarrow> bool" where
  "port_down env x \<longleftrightarrow> x \<in> set (env_hosts env) \<and> enabled x \<and> port_error x \<and>
     \<not> is_in_maintenance (env_tz env) x (env_now env) (env_windows env)"

definition opening_key :: "cycle_env \<Rightarrow> ping_host list \<Rightarrow> (string \<times> string) set" where
  "opening_key env offline =
     host_keys env ''host_down_syslog'' {x \<in> set offline. syslog_down env x} \<union>
     {''upstream_failure''} \<times> UNIV \<union> {k. fst k = ''multi_host_down'' \<and> length offline \<ge> 3} \<union>
     host_keys env ''integration_host'' (set offline) \<union> host_keys env ''port_error'' {x. port_down env x}"

lemma opening_key_parts:
  "host_keys env ''host_down_syslog'' {x \<in> set offline. syslog_down env x} \<subseteq> opening_key env offline"
  "{''upstream_failure''} \<times> UNIV \<subseteq> opening_key env offline"
  "{k. fst k = ''multi_host_down'' \<and> length offline \<ge> 3} \<subseteq> opening_key env offline"
  "host_keys env ''integration_host'' (set offline) \<subseteq> opening_key env offline"
  "host_keys env ''port_error'' {x. port_down env x} \<subseteq> opening_key env offline"
  unfolding opening_key_def by blast+

lemma without_maintenance_port_down:
  "set (without_maintenance (env_tz env) (filter (\<lambda>h. enabled h \<and> port_error h) (env_hosts env)) (env_now env) (env_windows env))
     \<subseteq> {x. port_down env x}"
  by (auto simp: port_down_def without_maintenance_def maintenance_ids_def)

lemma host_keys_mono: "A \<subseteq> B \<Longrightarrow> host_keys env rl A \<subseteq> host_keys env rl B"
  unfolding host_keys_def by blast

lemma host_rule_keys:
  assumes "a \<in> host_rules env mc offline"
  shows "adds (opening_key env offline) a"
proof -
  consider "a = rule_host_down_syslog env mc offline" | "a = rule_multi_host_down env mc offline"
    | "a = rule_integration_host env mc offline" | "a = rule_port_error env mc"
    using assms unfolding host_rules_def by blast
  then show ?thesis
  proof cases
    case 1
    show ?thesis unfolding 1
      by (rule adds_mono [OF adds_host_down_syslog])
         (use opening_key_parts(1,2) [where env = env and offline = offline] in \<open>simp add: syslog_down_def\<close>)
  next
    case 2
    show ?thesis unfolding 2 by (rule adds_mono [OF adds_multi_host_down]) (use opening_key_parts(2,3) [where env = env and offline = offline] in auto)
  next
    case 3
    show ?thesis unfolding 3 by (rule adds_mono [OF adds_integration_host]) (use opening_key_parts(4) [where env = env and offline = offline] in auto)
  next
    case 4
    show ?thesis unfolding 4
      by (rule adds_mono [OF adds_port_error]) (rule subset_trans [OF host_keys_mono [OF without_maintenance_port_down] opening_key_parts(5)])
  qed
qed

lemma host_rule_timeout:
  "rl \<in> {''host_down_syslog'', ''multi_host_down'', ''integration_host'', ''port_error'', ''upstream_failure''} \<Longrightarrow> timeout_resolve_reason rl = None"
  by (elim insertE emptyE; simp only:) (simp_all add: timeout_resolve_reason_def TIMEOUT_RESOLVE_REASONS_def dget_def)

lemma host_keysD: "(rl, h) \<in> host_keys env rl' hs \<Longrightarrow> rl = rl' \<and> (\<exists>x \<in> hs. h = hash_host_ids (env_sha env) [host_id x])"
  unfolding host_keys_def by blast

lemma opening_keyE:
  assumes "(rl, h) \<in> opening_key env offline"
  obtains (syslog) x where "rl = ''host_down_syslog''" "x \<in> set offline" "syslog_down env x" "h = hash_host_ids (env_sha env) [host_id x]"
    | (upstream) "rl = ''upstream_failure''"
    | (multi) "rl = ''multi_host_down''" "length offline \<ge> 3"
    | (integration) x where "rl = ''integration_host''" "x \<in> set offline" "h = hash_host_ids (env_sha env) [host_id x]"
    | (port) x where "rl = ''port_error''" "port_down env x" "h = hash_host_ids (env_sha env) [host_id x]"
proof -
  consider "(rl, h) \<in> host_keys env ''host_down_syslog'' {x \<in> set offline. syslog_down env x}" | "(rl, h) \<in> {''upstream_failure''} \<times> UNIV"
    | "(rl, h) \<in> {k. fst k = ''multi_host_down'' \<and> length offline \<ge> 3}" | "(rl, h) \<in> host_keys env ''integration_host'' (set offline)"
    | "(rl, h) \<in> host_keys env ''port_error'' {x. port_down env x}"
    using assms unfolding opening_key_def by (elim UnE)
  then show thesis
  proof cases
    case 1
    from host_keysD [OF this] show thesis by (elim conjE bexE CollectE) (rule syslog)
  next
    case 2
    then show thesis by (intro upstream) simp
  next
    case 3
    then show thesis by (intro multi) simp_all
  next
    case 4
    from host_keysD [OF this] show thesis by (elim conjE bexE) (rule integration)
  next
    case 5
    from host_keysD [OF this] show thesis by (elim conjE bexE CollectE) (rule port)
  qed
qed

lemma new_key_opening:
  assumes "store_ok (eng_store e)" and "a \<in> host_rules env mc offline"
    and "(rl, h) \<in> open_keys_of (eng_store (fst (a e)))" "(rl, h) \<notin> open_keys_of (eng_store e)"
  shows "(rl, h) \<in> opening_key env offline"
  using addsD(3) [OF host_rule_keys [OF assms(2)] assms(1)] assms(3,4) by blast

lemma still_failing_rules:
  "inc_rule i = ''multi_host_down'' \<Longrightarrow> still_failing env offline i = Inr (length offline \<ge> 3)"
  "inc_rule i = ''integration_host'' \<Longrightarrow> x \<in> set offline \<Longrightarrow> host_ids_hash i = Some (hash_host_ids (env_sha env) [host_id x])
     \<Longrightarrow> still_failing env offline i = Inr True"
  "inc_rule i = ''port_error'' \<Longrightarrow> x \<in> set (env_hosts env) \<Longrightarrow> enabled x \<Longrightarrow> port_error x
     \<Longrightarrow> host_ids_hash i = Some (hash_host_ids (env_sha env) [host_id x]) \<Longrightarrow> still_failing env offline i = Inr True"
  "inc_rule i = ''host_down_syslog'' \<Longrightarrow> x \<in> set offline \<Longrightarrow> host_ids_hash i = Some (hash_host_ids (env_sha env) [host_id x])
     \<Longrightarrow> \<forall>nums. env_syslog_errors env (map host_id offline) = Inr nums \<longrightarrow> dget_or nums (host_id x) 0 > 0
     \<Longrightarrow> still_failing env offline i \<noteq> Inr False"
proof -
  assume "inc_rule i = ''host_down_syslog''" "x \<in> set offline" "host_ids_hash i = Some (hash_host_ids (env_sha env) [host_id x])"
    "\<forall>nums. env_syslog_errors env (map host_id offline) = Inr nums \<longrightarrow> dget_or nums (host_id x) 0 > 0"
  then show "still_failing env offline i \<noteq> Inr False"
    by (cases "env_syslog_errors env (map host_id offline)") (auto simp: still_failing_def list_ex_iff)
qed (auto simp: still_failing_def list_ex_iff port_error_hashes_def)

text \<open>No flapping, for one rule followed by an auto-resolve that does not fail: an incident that a host rule opens is still open
  after it, given that the two queries for the syslog errors agree; the only exception are upstream failures.\<close>

theorem no_flapping:
  assumes "store_ok (eng_store e)" and "a \<in> host_rules env mc offline" and "counts_stable env"
    and "auto_resolve env offline (fst (a e)) = ((e2, ids), None)"
    and new: "(rl, h) \<in> open_keys_of (eng_store (fst (a e)))" "(rl, h) \<notin> open_keys_of (eng_store e)" and "rl \<noteq> ''upstream_failure''"
  shows "(rl, h) \<in> open_keys_of (eng_store e2)"
proof -
  let ?e1 = "fst (a e)"
  note A = addsD [OF host_rule_keys [OF assms(2)] assms(1)]
  obtain i where i: "i \<in> set (st_incidents (eng_store ?e1))" "is_open i" "inc_rule i = rl" "host_ids_hash i = Some h"
    using new(1) by (auto simp: mem_open_keys)
  note key = new_key_opening [OF assms(1,2) new]
  have t: "timeout_resolve_reason rl = None"
    by (rule host_rule_timeout) (rule opening_keyE [OF key], simp_all)
  from key have "still_failing env offline i \<noteq> Inr False"
  proof (cases rule: opening_keyE)
    case (syslog x)
    then obtain qs nums where x: "host_id x \<in> set qs" "env_syslog_errors env qs = Inr nums" "dget_or nums (host_id x) 0 > 0"
      unfolding syslog_down_def by blast
    show ?thesis
    proof (rule still_failing_rules(4))
      show "\<forall>n. env_syslog_errors env (map host_id offline) = Inr n \<longrightarrow> dget_or n (host_id x) 0 > 0"
      proof (intro allI impI)
        fix n assume "env_syslog_errors env (map host_id offline) = Inr n"
        then have "dget_or n (host_id x) 0 = dget_or nums (host_id x) 0"
          by (rule counts_stableD [OF assms(3) _ x(2) _ x(1)]) (use syslog(2) in simp)
        with x(3) show "dget_or n (host_id x) 0 > 0" by simp
      qed
    qed (use syslog i in simp_all)
  next
    case upstream
    with assms(7) show ?thesis by blast
  next
    case multi
    then show ?thesis using still_failing_rules(1) [of i env offline] i(3) by simp
  next
    case (integration x)
    then show ?thesis using still_failing_rules(2) [of i x offline env] i(3,4) by simp
  next
    case (port x)
    then show ?thesis using still_failing_rules(3) [of i x env offline] i(3,4) unfolding port_down_def by simp
  qed
  with t i(3) have "\<not> resolves env offline i" by (simp add: resolves_def)
  then have "(inc_id i, inc_rule i, h) \<in> open_rows (eng_store e2)"
    using auto_resolve_row [OF A(1) assms(4) i(1,2,4)] by simp
  with i(3) show ?thesis by (force simp: open_keys_rows)
qed

definition port_env :: cycle_env where
  "port_env = demo_env\<lparr>env_hosts := [(plain_host 7 ''10.0.0.7'')\<lparr>port_error := True\<rparr>]\<rparr>"

lemma hash_seven: "hash_host_ids id [7] = ''7''"
  by code_simp

lemma port_env_opens:
  "(''port_error'', ''7'') \<in> open_keys_of (eng_store (fst (rule_port_error port_env 1 (fresh_engine 1))))"
  "(''port_error'', ''7'') \<notin> open_keys_of (eng_store (fresh_engine 1))"
proof -
  note k = hash_seven
  have w: "without_maintenance utc_only [h] (minutes 1000) [] = [h]" if "\<not> maintenance h" for h
    using that by (auto simp: without_maintenance_def maintenance_ids_def is_in_maintenance_def manual_maintenance_def)
  show "(''port_error'', ''7'') \<in> open_keys_of (eng_store (fst (rule_port_error port_env 1 (fresh_engine 1))))"
    by (simp add: rule_port_error_def port_env_def demo_env_def plain_host_def w port_error_hit_def when_hit_def seq_def
        track_rule_hit_def track_key_def no_hits_def fresh_engine_def incident_act_def find_or_create_incident_def
        open_matches_def empty_store_def new_incident_def host_incident_def dedup_key_def k mem_open_keys add_event_def is_open_def
        dget_or_def dget_def Let_def)
  show "(''port_error'', ''7'') \<notin> open_keys_of (eng_store (fresh_engine 1))"
    by (simp add: fresh_engine_def empty_store_def mem_open_keys)
qed

theorem no_flapping_witness:
  "(''port_error'', ''7'') \<in> open_keys_of (eng_store (fst (fst (auto_resolve port_env [] (fst (rule_port_error port_env 1 (fresh_engine 1)))))))"
proof -
  let ?e = "fst (rule_port_error port_env 1 (fresh_engine 1))"
  have s: "store_ok (eng_store (fresh_engine 1))" by (simp add: fresh_engine_def)
  have a: "rule_port_error port_env 1 \<in> host_rules port_env 1 []" by (simp add: host_rules_def)
  have c: "counts_stable port_env"
    by (auto simp: counts_stable_def port_env_def demo_env_def dget_or_map_const)
  obtain e' ids where r: "auto_resolve port_env [] ?e = ((e', ids), None)"
    using auto_resolve_total [of port_env "[]" ?e] by (cases "auto_resolve port_env [] ?e") (auto simp: port_env_def demo_env_def)
  show ?thesis using no_flapping [OF s a c r port_env_opens] r by simp
qed

definition upstream_engine :: engine where
  "upstream_engine = (fresh_engine 1)\<lparr>eng_store := one_incident\<lparr>st_incidents :=
     [(hd (st_incidents one_incident))\<lparr>inc_rule := ''upstream_failure''\<rparr>]\<rparr>\<rparr>"

text \<open>Upstream failures flap: auto-resolve has no case for the rule \<open>upstream_failure\<close>, so every open incident of
  that rule is resolved as "affected hosts are back online" in every pass, however many hosts are offline.\<close>

theorem upstream_failure_always_resolved:
  assumes "store_ok (eng_store e)" and "auto_resolve env offline e = ((e', ids), None)"
    and "i \<in> set (st_incidents (eng_store e))" and "is_open i" and "host_ids_hash i = Some h" and "h \<noteq> []"
    and "inc_rule i = ''upstream_failure''"
  shows "(inc_id i, ''upstream_failure'', h) \<notin> open_rows (eng_store e')"
proof -
  have "resolves env offline i"
    using assms(5-7) host_rule_timeout [of "''upstream_failure''"]
    by (simp add: resolves_def self_managed_def still_failing_def RULES_def ALERT_RULE_def FAILED_RULE_def)
  with auto_resolve_row [OF assms(1-5)] assms(7) show ?thesis by simp
qed

theorem upstream_failure_always_resolved_witness:
  "(1, ''upstream_failure'', ''h'') \<in> open_rows (eng_store upstream_engine) \<and>
   (1, ''upstream_failure'', ''h'') \<notin> open_rows (eng_store (fst (fst (auto_resolve demo_env [plain_host 7 ''10.0.0.7''] upstream_engine))))"
proof -
  let ?i = "(hd (st_incidents one_incident))\<lparr>inc_rule := ''upstream_failure''\<rparr>" and ?off = "[plain_host 7 ''10.0.0.7'']"
  have s: "store_ok (eng_store upstream_engine)"
    by (simp add: upstream_engine_def fresh_engine_def one_incident_def old_event_def empty_store_def store_ok_def open_unique_def is_open_def)
  have i: "?i \<in> set (st_incidents (eng_store upstream_engine))" "is_open ?i" "host_ids_hash ?i = Some ''h''" "inc_rule ?i = ''upstream_failure''" "inc_id ?i = 1"
    by (simp_all add: upstream_engine_def one_incident_def is_open_def)
  obtain e' ids where r: "auto_resolve demo_env ?off upstream_engine = ((e', ids), None)"
    using auto_resolve_total [of demo_env ?off upstream_engine] by (cases "auto_resolve demo_env ?off upstream_engine") (auto simp: demo_env_def)
  have "(inc_id ?i, ''upstream_failure'', ''h'') \<notin> open_rows (eng_store e')"
    by (rule upstream_failure_always_resolved [OF s r i(1-3) _ i(4)]) simp
  with i r show ?thesis by (auto simp: mem_open_rows)
qed

text \<open>C33. Maintenance suppresses host incidents: in a cycle, an incident that a rule about single hosts
  (down with errors, integration host, service check) opens is about an enabled host that is not in
  maintenance at that moment.\<close>

theorem maintenance_suppresses:
  assumes "store_ok (eng_store e)" and "get_offline_hosts env mf = Inr offline" and "a \<in> host_rules env mc offline"
    and "(rl, h) \<in> open_keys_of (eng_store (fst (a e)))" "(rl, h) \<notin> open_keys_of (eng_store e)"
    and "rl \<in> {''host_down_syslog'', ''integration_host'', ''port_error''}"
  shows "\<exists>x \<in> set (env_hosts env). enabled x \<and> \<not> is_in_maintenance (env_tz env) x (env_now env) (env_windows env) \<and>
    h = hash_host_ids (env_sha env) [host_id x]"
proof -
  have off: "x \<in> set (env_hosts env) \<and> enabled x \<and> \<not> is_in_maintenance (env_tz env) x (env_now env) (env_windows env)"
    if "x \<in> set offline" for x
  proof -
    have "x \<in> set (without_maintenance (env_tz env) (filter enabled (env_hosts env)) (env_now env) (env_windows env))"
      using assms(2) that by (auto simp: get_offline_hosts_def Let_def bind_result_Inr_iff split: if_splits)
    then show ?thesis by (auto simp: without_maintenance_def maintenance_ids_def)
  qed
  from new_key_opening [OF assms(1,3,4,5)] show ?thesis
  proof (cases rule: opening_keyE)
    case (syslog x)
    with off [of x] show ?thesis by blast
  next
    case (integration x)
    with off [of x] show ?thesis by blast
  next
    case (port x)
    then show ?thesis unfolding port_down_def by blast
  qed (use assms(6) in simp_all)
qed

theorem maintenance_suppresses_witness:
  "\<exists>x \<in> set (env_hosts port_env). enabled x \<and> \<not> is_in_maintenance (env_tz port_env) x (env_now port_env) (env_windows port_env) \<and>
    ''7'' = hash_host_ids (env_sha port_env) [host_id x]"
proof -
  have "is_ok (get_offline_hosts port_env 3)"
    by (simp add: get_offline_hosts_def port_env_def demo_env_def Let_def)
  then obtain offline where off: "get_offline_hosts port_env 3 = Inr offline"
    by (cases "get_offline_hosts port_env 3") simp_all
  have s: "store_ok (eng_store (fresh_engine 1))" by (simp add: fresh_engine_def)
  have a: "rule_port_error port_env 1 \<in> host_rules port_env 1 offline" by (simp add: host_rules_def)
  show ?thesis by (rule maintenance_suppresses [OF s off a port_env_opens]) simp
qed

text \<open>
  A streak of two cycles in one: two failing integrations of one offline host call
  \<open>track_rule_hit\<close> twice in the same cycle, so the first cycle already opens the incident although the
  rule asks for two consecutive cycles.
\<close>

definition twice_env :: cycle_env where
  "twice_env = demo_env\<lparr>env_configs := [\<lparr>cfg_id = 1, cfg_type = ''t'', cfg_name = ''a'', cfg_enabled = True\<rparr>,
       \<lparr>cfg_id = 2, cfg_type = ''t'', cfg_name = ''b'', cfg_enabled = True\<rparr>],
     env_snaps := Inr [((''t'', 1), \<lparr>snap_ok = False, data_json = None\<rparr>), ((''t'', 2), \<lparr>snap_ok = False, data_json = None\<rparr>)],
     env_config_dict := (\<lambda>_. Inr (JDict [(''host'', JStr ''x'')]))\<rparr>"

lemma integration_host_double_hit:
  "(''integration_host'', ''7'') \<in> open_keys_of (eng_store (fst (rule_integration_host twice_env 2 [plain_host 7 ''x''] (fresh_engine 1))))"
proof -
  have h: "host_key (plain_host 7 ''x'') = ''x''" by code_simp
  have i: "host_id (plain_host 7 ''x'') = 7" by (simp add: plain_host_def)
  have c: "config_host (Inr (JDict [(''host'', JStr ''x'')])) = Some ''x''" by code_simp
  show ?thesis
    by (simp add: rule_integration_host_def twice_env_def demo_env_def with_input_def seq_def integration_down_def h c
        when_hit_def track_rule_hit_def track_key_def no_hits_def fresh_engine_def incident_act_def find_or_create_incident_def
        open_matches_def empty_store_def new_incident_def host_incident_def dedup_key_def hash_seven mem_open_keys add_event_def is_open_def
        i dget_or_def dget_def Let_def)
qed

end
