(* ===== verification/Alert_Rules.thy ===== *)
theory Alert_Rules
  imports Incidents Probes
begin

text \<open>
  The user-defined alert rules (\<^verbatim>\<open>backend/services/rules.py\<close>): operators, field extraction by
  dotted path, field discovery, the data sources, the consecutive-match counters and cooldown of
  \<^verbatim>\<open>evaluate_rules\<close>, and what a firing rule writes and sends. Regular expressions
  (\<^verbatim>\<open>re.search\<close>), \<^verbatim>\<open>str.format\<close> on a user's template, the ClickHouse queries and \<^verbatim>\<open>notify\<close> are fields of the
  record \<open>rule_env\<close>; each may raise, and so may every use of the database session.
\<close>

section \<open>Operators\<close>

definition num :: "json \<Rightarrow> pyfloat" where
  "num v = (case to_float v of None \<Rightarrow> Fin 0 | Some f \<Rightarrow> f)"

fun truthy_val :: "json \<Rightarrow> bool" where
  "truthy_val (JBool b) = b"
| "truthy_val (JStr s) = (str_lower s \<in> {''true'', ''1'', ''yes'', ''on''})"
| "truthy_val v = truthy v"

text \<open>
  The rules of one evaluation share a database session. A statement that fails aborts its transaction: every later statement
  of the session raises too, as nothing rolls it back. A flush or a commit that fails rolls it back, which expires the loaded
  rows; the handler of the loop then raises itself when it reads \<^verbatim>\<open>rule.id\<close> for its log line, and the evaluation ends.
  \<open>re_db\<close> says how the session stands after a rule's use of it.
\<close>

datatype db_session = Live | Aborted | Rolled_back

datatype db_use = Read_source | Read_label | Write_incident | Write_trigger

record rule_env =
  re_now :: datetime
  re_tz :: tzdb
  re_windows :: "window_spec list"
  re_frepr :: "pyfloat \<Rightarrow> string"
  re_sha :: "string \<Rightarrow> string"
  re_search :: "string \<Rightarrow> string \<Rightarrow> bool result"
  re_format :: "string \<Rightarrow> (string \<times> json) list \<Rightarrow> string result"
  re_count :: "string \<Rightarrow> json \<Rightarrow> int option result"
  re_latest_ping :: "int list \<Rightarrow> (int, (string, json) dict) dict result"
  re_notify :: "notice \<Rightarrow> string list option \<Rightarrow> py_error option"
  re_read_rules :: bool
  re_db :: "int \<Rightarrow> db_use \<Rightarrow> db_session"

definition op_labels :: "(string, string) dict" where
  "op_labels = [(''gt'', ''greater than''), (''lt'', ''less than''), (''gte'', ''greater or equal''),
     (''lte'', ''less or equal''), (''eq'', ''equals''), (''ne'', ''not equals''), (''contains'', ''contains''),
     (''not_contains'', ''not contains''), (''regex'', ''matches regex''), (''not_regex'', ''not matches regex''),
     (''is_true'', ''is true''), (''is_false'', ''is false'')]"

definition op_label :: "string \<Rightarrow> string" where
  "op_label name = dget_or op_labels name ''?''"

text \<open>The table \<^verbatim>\<open>OPERATORS\<close>: nothing for an unknown operator.\<close>

definition OPERATORS :: "rule_env \<Rightarrow> string \<Rightarrow> (json \<Rightarrow> json \<Rightarrow> bool result) option" where
  "OPERATORS env name =
     (let text = (\<lambda>v. py_str (re_frepr env) v); low = (\<lambda>v. str_lower (text v)) in
      if name = ''gt'' then Some (\<lambda>v t. Inr (flt_less (num t) (num v)))
      else if name = ''lt'' then Some (\<lambda>v t. Inr (flt_less (num v) (num t)))
      else if name = ''gte'' then Some (\<lambda>v t. Inr (flt_le (num t) (num v)))
      else if name = ''lte'' then Some (\<lambda>v t. Inr (flt_le (num v) (num t)))
      else if name = ''eq'' then Some (\<lambda>v t. Inr (low v = low t))
      else if name = ''ne'' then Some (\<lambda>v t. Inr (low v \<noteq> low t))
      else if name = ''contains'' then Some (\<lambda>v t. Inr (contains (low t) (low v)))
      else if name = ''not_contains'' then Some (\<lambda>v t. Inr (\<not> contains (low t) (low v)))
      else if name = ''regex'' then Some (\<lambda>v t. re_search env (text t) (text v))
      else if name = ''not_regex'' then Some (\<lambda>v t. bind_result (re_search env (text t) (text v)) (\<lambda>b. Inr (\<not> b)))
      else if name = ''is_true'' then Some (\<lambda>v _. Inr (truthy_val v))
      else if name = ''is_false'' then Some (\<lambda>v _. Inr (\<not> truthy_val v))
      else None)"

section \<open>Field extraction\<close>

text \<open>A list indexed the way Python does: negative indices count from the end.\<close>

definition py_index :: "'a list \<Rightarrow> int \<Rightarrow> 'a option" where
  "py_index xs i = (let j = (if i < 0 then i + int (length xs) else i) in
     if 0 \<le> j \<and> j < int (length xs) then Some (xs ! nat j) else None)"

fun first_found :: "json list \<Rightarrow> json" where
  "first_found [] = JNull"
| "first_found (v # vs) = (if v \<noteq> JNull then v else first_found vs)"

fun is_dict :: "json \<Rightarrow> bool" where
  "is_dict (JDict _) = True"
| "is_dict _ = False"

text \<open>\<^verbatim>\<open>".".join(parts[parts.index(part) + 1:])\<close>, split again by the recursive call.\<close>

definition after_star :: "string list \<Rightarrow> string list" where
  "after_star parts = split_on CHR ''.'' (join ''.'' (tl (dropWhile (\<lambda>p. p \<noteq> ''*'') parts)))"

lemma dget_or_size: "size (dget_or d p JNull) < size (JDict d)"
proof (cases "dget d p")
  case (Some v)
  then have "(p, v) \<in> set d" by (auto simp: dget_def dest: map_of_SomeD)
  then have "size v < Suc (size_list (size_prod (\<lambda>x. 0) size) d)"
    by (induction d) auto
  with Some show ?thesis by (simp add: dget_or_def)
qed (simp add: dget_or_def)

lemma py_index_mem: "py_index xs i = Some v \<Longrightarrow> v \<in> set xs"
  by (auto simp: py_index_def Let_def split: if_splits)

lemma py_index_size: "py_index xs i = Some v \<Longrightarrow> size v < size (JList xs)"
  using size_list_estimation' [of v xs "size v" size] by (simp add: py_index_mem)

text \<open>The loop of \<^verbatim>\<open>extract_field\<close>: all parts of the path, those left, and the value reached. Python's
  \<^verbatim>\<open>None\<close> is \<open>JNull\<close>.\<close>

function extract_loop :: "string list \<Rightarrow> string list \<Rightarrow> json \<Rightarrow> json" where
  "extract_loop parts ps cur =
     (case ps of [] \<Rightarrow> cur
      | p # rest \<Rightarrow>
          (case cur of
             JDict d \<Rightarrow> extract_loop parts rest (dget_or d p JNull)
           | JList xs \<Rightarrow>
               (if p = ''*'' then
                  first_found (map (\<lambda>x. if is_dict x then extract_loop (after_star parts) (after_star parts) x else JNull) xs)
                else
                  (case parse_int p of None \<Rightarrow> JNull
                   | Some i \<Rightarrow> (case py_index xs i of None \<Rightarrow> JNull | Some v \<Rightarrow> extract_loop parts rest v)))
           | _ \<Rightarrow> JNull))"
  by pat_completeness auto
termination
proof (relation "measure (\<lambda>(parts, ps, cur). size cur)", goal_cases)
  case (2 parts ps cur p rest xs x)
  then show ?case using size_list_estimation' [of x xs "size x" size] by simp
next
  case (3 parts ps cur p rest xs i v)
  then show ?case using py_index_size by simp
next
  case (4 parts ps cur p rest d)
  then show ?case using dget_or_size [of d p] by simp
qed simp

declare extract_loop.simps [simp del]

definition extract_field :: "json \<Rightarrow> string \<Rightarrow> json" where
  "extract_field data path = (let parts = split_on CHR ''.'' path in extract_loop parts parts data)"

section \<open>Field discovery\<close>

record discovered =
  fd_path :: string
  fd_value :: json
  fd_type :: string

text \<open>The type of a leaf; \<^verbatim>\<open>bool\<close> is a subclass of \<^verbatim>\<open>int\<close>, so it is tested by the first check.\<close>

fun field_type :: "json \<Rightarrow> string" where
  "field_type (JInt _) = ''number''"
| "field_type (JFloat _) = ''number''"
| "field_type (JBool _) = ''number''"
| "field_type _ = ''string''"

definition sub_path :: "string \<Rightarrow> string \<Rightarrow> string" where
  "sub_path prefix key = (if prefix \<noteq> [] then prefix @ ''.'' @ key else key)"

lemma member_size: "(k, v) \<in> set d \<Longrightarrow> size v < size (JDict d)"
  by (induction d) auto

lemma hd_size: "xs \<noteq> [] \<Longrightarrow> size (hd xs) < size (JList xs)"
  by (cases xs) auto

function discover_fields :: "(pyfloat \<Rightarrow> string) \<Rightarrow> json \<Rightarrow> string \<Rightarrow> discovered list" where
  "discover_fields frepr data prefix =
     (case data of
        JDict d \<Rightarrow> concat (map (\<lambda>(key, v).
          let path = sub_path prefix key in
          (case v of
             JDict _ \<Rightarrow> discover_fields frepr v path
           | JList xs \<Rightarrow>
               (if xs \<noteq> [] \<and> is_dict (hd xs) then discover_fields frepr (hd xs) (path @ ''.*'')
                else [\<lparr>fd_path = path, fd_value = JStr (text_take 100 (py_str frepr v)), fd_type = ''list''\<rparr>])
           | _ \<Rightarrow> [\<lparr>fd_path = path, fd_value = v, fd_type = field_type v\<rparr>])) d)
      | _ \<Rightarrow> [])"
  by pat_completeness auto

termination
proof (relation "measure (\<lambda>(frepr, data, prefix). size data)", goal_cases)
  case (2 frepr data prefix d kv key v path xs)
  then have "size (hd xs) < size (JList xs)" "size v < size (JDict d)"
    using hd_size [of xs] member_size [of key v d] by auto
  with 2 show ?case by simp
next
  case (3 frepr data prefix d kv key v path ys)
  then show ?case using member_size [of key v d] by simp
qed simp

declare discover_fields.simps [simp del]

section \<open>Data sources\<close>

record rule_snapshot =
  rsn_type :: string
  rsn_entity :: int
  rsn_ok :: bool
  rsn_at :: datetime
  rsn_data :: "string option"

record rule_db =
  rd_snapshots :: "rule_snapshot list"
  rd_hosts :: "ping_host list"
  rd_configs :: "integration_config list"

definition or_empty :: "string option \<Rightarrow> string" where
  "or_empty s = (case s of None \<Rightarrow> [] | Some t \<Rightarrow> t)"

definition syslog_field :: "string \<Rightarrow> string" where
  "syslog_field path = (if path \<in> {''message'', ''app_name'', ''hostname'', ''severity''} then path else ''message'')"

definition sql_ops :: "(string, string) dict" where
  "sql_ops = [(''gt'', ''>''), (''lt'', ''<''), (''gte'', ''>=''), (''lte'', ''<=''), (''eq'', ''=''), (''ne'', ''!='')]"

text \<open>The condition and the parameter of the ClickHouse count; nothing where the function returns 0 at once.\<close>

definition syslog_condition :: "alert_rule \<Rightarrow> (string \<times> json) option result" where
  "syslog_condition r =
     (let f = syslog_field (field_path r); pat = JStr (or_empty (threshold r)); o_p = operator r;
          position = ''positionCaseInsensitive('' @ f @ '', {pat:String}) '' in
      if o_p \<in> {''contains'', ''not_contains''} then
        (if f = ''severity'' then Inr None
         else Inr (Some (position @ (if o_p = ''not_contains'' then ''= 0'' else ''> 0''), pat)))
      else if o_p \<in> {''regex'', ''not_regex''} then
        (if f = ''severity'' then Inr None
         else Inr (Some ((if o_p = ''not_regex'' then ''NOT '' else []) @ ''match('' @ f @ '', {pat:String})'', pat)))
      else
        (case dget sql_ops o_p of
           Some sql_op \<Rightarrow>
             (if f = ''severity'' then
                (if or_empty (threshold r) = [] then Inr (Some (''severity '' @ sql_op @ '' {thr:Int8}'', JInt 0))
                 else (case parse_int (or_empty (threshold r)) of
                         None \<Rightarrow> Inl (ValueError ''invalid literal for int() with base 10'')
                       | Some n \<Rightarrow> Inr (Some (''severity '' @ sql_op @ '' {thr:Int8}'', JInt n))))
              else Inr (Some (''lower('' @ f @ '') '' @ sql_op @ '' lower({pat:String})'', pat)))
         | None \<Rightarrow> Inr (Some (position @ ''> 0'', pat))))"

definition evaluate_syslog_rule :: "rule_env \<Rightarrow> alert_rule \<Rightarrow> int result" where
  "evaluate_syslog_rule env r =
     bind_result (syslog_condition r) (\<lambda>c. case c of None \<Rightarrow> Inr 0
       | Some (condition, param) \<Rightarrow> bind_result (re_count env condition param) (\<lambda>n. case n of None \<Rightarrow> Inr 0 | Some k \<Rightarrow> Inr k))"

definition ping_ok :: "(string, json) dict \<Rightarrow> bool" where
  "ping_ok r \<longleftrightarrow> truthy (dget_or r ''success'' JNull)"

definition get_ping_data :: "rule_env \<Rightarrow> rule_db \<Rightarrow> int option \<Rightarrow> json result" where
  "get_ping_data env db sid =
     (let hosts = without_maintenance (re_tz env)
            (case or_id sid None of None \<Rightarrow> rd_hosts db | Some i \<Rightarrow> filter (\<lambda>h. host_id h = i) (rd_hosts db))
            (re_now env) (re_windows env) in
      if hosts = [] then Inr JNull
      else bind_result (re_latest_ping env (map host_id hosts)) (\<lambda>results.
        case or_id sid None of
          Some i \<Rightarrow>
            (case dget results i of
               None \<Rightarrow> Inr JNull
             | Some r \<Rightarrow> if r = [] then Inr JNull
                 else Inr (JDict [(''host'', JStr (host_name (hd hosts))), (''hostname'', JStr (hostname (hd hosts))),
                        (''success'', JBool (ping_ok r)), (''latency_ms'', dget_or r ''latency_ms'' JNull)]))
        | None \<Rightarrow>
            (let total = int (length hosts);
                 online = int (length (filter (\<lambda>h. case dget results (host_id h) of None \<Rightarrow> False | Some r \<Rightarrow> r \<noteq> [] \<and> ping_ok r) hosts))
             in Inr (JDict [(''total_hosts'', JInt total), (''online'', JInt online), (''offline'', JInt (total - online)),
                    (''offline_pct'', JFloat (Fin (of_int (round_half_even (of_int (total - online) / of_int total * 100 * 10)) / 10)))]))))"

text \<open>The newest row first; rows of one timestamp in table order.\<close>

definition newest :: "rule_snapshot list \<Rightarrow> rule_snapshot option" where
  "newest rows = (case sort_key (\<lambda>s. - rsn_at s) rows of [] \<Rightarrow> None | s # _ \<Rightarrow> Some s)"

definition of_source :: "string \<Rightarrow> int option \<Rightarrow> rule_snapshot \<Rightarrow> bool" where
  "of_source ty sid s \<longleftrightarrow> rsn_type s = ty \<and> (case or_id sid None of None \<Rightarrow> True | Some i \<Rightarrow> rsn_entity s = i)"

definition snapshot_json :: "rule_snapshot option \<Rightarrow> json" where
  "snapshot_json s = (case s of None \<Rightarrow> JNull
     | Some r \<Rightarrow> if or_empty (rsn_data r) = [] then JNull
         else (case loads (or_empty (rsn_data r)) of None \<Rightarrow> JNull | Some v \<Rightarrow> v))"

definition get_source_data :: "rule_env \<Rightarrow> rule_db \<Rightarrow> alert_rule \<Rightarrow> json result" where
  "get_source_data env db r =
     (if source_type r = ''ping'' then get_ping_data env db (source_id r)
      else Inr (snapshot_json (newest (filter (of_source (source_type r) (source_id r)) (rd_snapshots db)))))"

section \<open>Evaluation\<close>

text \<open>
  The rules and the incidents as committed: a firing either commits all it writes or nothing. \<open>rs_sent\<close> lists the calls of
  \<^verbatim>\<open>notify\<close> that returned.
\<close>

record rules_state =
  rs_rules :: "alert_rule list"
  rs_matches :: "(int, nat) dict"
  rs_store :: store
  rs_sent :: "(notice \<times> string list option) list"
  rs_session :: db_session

definition session_after :: "rule_env \<Rightarrow> alert_rule \<Rightarrow> db_use \<Rightarrow> db_session \<Rightarrow> db_session" where
  "session_after env r use s = (if s = Live then re_db env (ar_id r) use else s)"

definition in_cooldown :: "datetime \<Rightarrow> alert_rule \<Rightarrow> bool" where
  "in_cooldown now r \<longleftrightarrow> (case last_triggered_at r of None \<Rightarrow> False | Some t \<Rightarrow> now < t + minutes (cooldown_minutes r))"

definition min_consecutive :: "alert_rule \<Rightarrow> int" where
  "min_consecutive r = max 1 (if required_consecutive r = 0 then 2 else required_consecutive r)"

text \<open>
  What one evaluation finds: \<open>None\<close> where the loop body leaves the rule alone (an exception before the
  counter is touched, or an operator that does not exist), \<open>Some None\<close> where the condition does not
  hold, \<open>Some (Some v)\<close> where it holds for the value \<open>v\<close>.
\<close>

definition rule_match :: "rule_env \<Rightarrow> rule_db \<Rightarrow> alert_rule \<Rightarrow> json option option" where
  "rule_match env db r =
     (if source_type r = ''syslog'' then
        (case evaluate_syslog_rule env r of Inl _ \<Rightarrow> None | Inr n \<Rightarrow> Some (if n > 0 then Some (JInt n) else None))
      else
        (case get_source_data env db r of
           Inl _ \<Rightarrow> None
         | Inr data \<Rightarrow>
             (let value = (if data = JNull then JNull else extract_field data (field_path r)) in
              if value = JNull then Some None
              else
                (case OPERATORS env (operator r) of
                   None \<Rightarrow> None
                 | Some f \<Rightarrow>
                     (case f value (case threshold r of None \<Rightarrow> JNull | Some t \<Rightarrow> JStr t) of
                        Inl _ \<Rightarrow> None
                      | Inr b \<Rightarrow> Some (if b then Some value else None))))))"

definition threshold_text :: "alert_rule \<Rightarrow> string" where
  "threshold_text r = (case threshold r of None \<Rightarrow> ''None'' | Some t \<Rightarrow> t)"

definition template_fields :: "alert_rule \<Rightarrow> json \<Rightarrow> string \<Rightarrow> (string \<times> json) list" where
  "template_fields r value src =
     [(''value'', value), (''field'', JStr (field_path r)), (''source'', JStr src), (''name'', JStr (ar_name r)),
      (''threshold'', case threshold r of None \<Rightarrow> JNull | Some t \<Rightarrow> JStr t)]"

definition source_label :: "rule_db \<Rightarrow> alert_rule \<Rightarrow> string" where
  "source_label db r =
     (case or_id (source_id r) None of
        None \<Rightarrow> source_type r
      | Some i \<Rightarrow>
          (case find (\<lambda>c. cfg_id c = i) (rd_configs db) of
             None \<Rightarrow> source_type r
           | Some c \<Rightarrow> if cfg_name c = [] then source_type r else source_type r @ ''/'' @ cfg_name c))"

text \<open>The message of a firing rule, from its template or the default text.\<close>

definition rule_message :: "rule_env \<Rightarrow> rule_db \<Rightarrow> alert_rule \<Rightarrow> json \<Rightarrow> string result" where
  "rule_message env db r value =
     (let text = py_str (re_frepr env) value in
      if source_type r = ''syslog'' then
        (if or_empty (message_template r) \<noteq> [] then re_format env (or_empty (message_template r)) (template_fields r value ''syslog'')
         else Inr (''Rule '' @ quoted (ar_name r) @ '': '' @ text @ '' log messages matching '' @ field_path r @ '' ''
                @ op_label (operator r) @ '' '' @ quoted (threshold_text r)))
      else
        (if or_empty (message_template r) \<noteq> [] then re_format env (or_empty (message_template r)) (template_fields r value (source_label db r))
         else Inr (''Rule '' @ quoted (ar_name r) @ '' triggered: '' @ field_path r @ '' = '' @ text
                @ '' ('' @ op_label (operator r) @ '' '' @ or_empty (threshold r) @ '') on '' @ source_label db r)))"

definition triggered_now :: "datetime \<Rightarrow> int \<Rightarrow> rules_state \<Rightarrow> rules_state" where
  "triggered_now now rid st =
     st\<lparr>rs_rules := map (\<lambda>x. if ar_id x = rid then x\<lparr>last_triggered_at := Some now\<rparr> else x) (rs_rules st)\<rparr>"

definition syslog_incident :: "alert_rule \<Rightarrow> json \<Rightarrow> string \<Rightarrow> (pyfloat \<Rightarrow> string) \<Rightarrow> incident_spec" where
  "syslog_incident r value summary frepr =
     (host_incident (''alert_rule_'' @ show_int (ar_id r)) (''Rule: '' @ ar_name r) (ar_severity r) [0] ''syslog_error'' summary)
       \<lparr>sp_detail := Some (field_path r @ '' '' @ op_label (operator r) @ '' '' @ quoted (threshold_text r) @ '' '' @ em_dash @ '' ''
          @ py_str frepr value @ '' matches in 60s'')\<rparr>"

definition db_error :: py_error where
  "db_error = RuntimeError ''DBAPIError''"

definition set_session :: "db_session \<Rightarrow> rules_state \<Rightarrow> rules_state" where
  "set_session s st = st\<lparr>rs_session := s\<rparr>"

definition add_sent :: "rule_env \<Rightarrow> (notice \<times> string list option) list \<Rightarrow> rules_state \<Rightarrow> rules_state" where
  "add_sent env calls st = st\<lparr>rs_sent := rs_sent st @ filter (\<lambda>(n, cs). re_notify env n cs = None) calls\<rparr>"

text \<open>The update of the rule's row and the commit, which makes the firing's writes \<open>st'\<close> permanent.\<close>

definition commit_firing :: "rule_env \<Rightarrow> alert_rule \<Rightarrow> rules_state \<Rightarrow> rules_state \<Rightarrow> rules_state \<times> py_error option" where
  "commit_firing env r st st' =
     (let s = session_after env r Write_trigger (rs_session st) in
      if s = Live then (triggered_now (re_now env) (ar_id r) st', None) else (set_session s st, Some db_error))"

text \<open>The incident's notification is sent after its flush; what that raises is caught.\<close>

definition fire_syslog_rule :: "rule_env \<Rightarrow> rule_db \<Rightarrow> alert_rule \<Rightarrow> json \<Rightarrow> rules_state \<Rightarrow> rules_state \<times> py_error option" where
  "fire_syslog_rule env db r value st =
     (case rule_message env db r value of
        Inl e \<Rightarrow> (st, Some e)
      | Inr summary \<Rightarrow>
          (let s = session_after env r Write_incident (rs_session st) in
           if s \<noteq> Live then (set_session s st, Some db_error)
           else (case find_or_create_incident (re_sha env) (re_now env) (syslog_incident r value summary (re_frepr env)) (rs_store st) of
                   Inl e \<Rightarrow> (st, Some e)
                 | Inr (store', _, ns) \<Rightarrow>
                     (let st1 = add_sent env (map (\<lambda>n. (n, None)) ns) st in commit_firing env r st1 (st1\<lparr>rs_store := store'\<rparr>)))))"

definition channel_list :: "alert_rule \<Rightarrow> string list option" where
  "channel_list r =
     (if or_empty (notify_channels r) = [] then None
      else Some (filter (\<lambda>c. c \<noteq> []) (map strip (split_on CHR '','' (or_empty (notify_channels r))))))"

definition rule_notice :: "alert_rule \<Rightarrow> string \<Rightarrow> notice" where
  "rule_notice r message = \<lparr>n_title = ''Rule: '' @ ar_name r, n_body = message, n_severity = ar_severity r, n_link = Some ''/rules''\<rparr>"

text \<open>The source's name is read only for a rule with a source; what \<^verbatim>\<open>notify\<close> raises goes to the loop's handler, before the update.\<close>

definition label_read :: "rule_env \<Rightarrow> alert_rule \<Rightarrow> db_session \<Rightarrow> bool" where
  "label_read env r s \<longleftrightarrow> or_id (source_id r) None = None \<or> session_after env r Read_label s = Live"

definition fire_rule :: "rule_env \<Rightarrow> rule_db \<Rightarrow> alert_rule \<Rightarrow> json \<Rightarrow> rules_state \<Rightarrow> rules_state \<times> py_error option" where
  "fire_rule env db r value st =
     (if \<not> label_read env r (rs_session st) then (set_session (session_after env r Read_label (rs_session st)) st, Some db_error)
      else (case rule_message env db r value of
              Inl e \<Rightarrow> (st, Some e)
            | Inr message \<Rightarrow>
                (let n = rule_notice r message in
                 case re_notify env n (channel_list r) of
                   Some e \<Rightarrow> (st, Some e)
                 | None \<Rightarrow> (let st1 = add_sent env [(n, channel_list r)] st in commit_firing env r st1 st1))))"

definition fire :: "rule_env \<Rightarrow> rule_db \<Rightarrow> alert_rule \<Rightarrow> json \<Rightarrow> rules_state \<Rightarrow> rules_state \<times> py_error option" where
  "fire env db r = (if source_type r = ''syslog'' then fire_syslog_rule env db r else fire_rule env db r)"

text \<open>One more match of a rule: the counter, and the firing once it is due; a firing that raises leaves the counter.\<close>

definition count_match :: "rule_env \<Rightarrow> rule_db \<Rightarrow> alert_rule \<Rightarrow> json \<Rightarrow> rules_state \<Rightarrow> rules_state \<times> nat" where
  "count_match env db r value st =
     (let n = dget_or (rs_matches st) (ar_id r) 0 + 1; st1 = st\<lparr>rs_matches := dset (rs_matches st) (ar_id r) n\<rparr> in
      if int n \<ge> min_consecutive r then
        (case fire env db r value st1 of
           (st2, Some _) \<Rightarrow> (st2, 1)
         | (st2, None) \<Rightarrow> (st2\<lparr>rs_matches := dset (rs_matches st2) (ar_id r) 0\<rparr>, 1))
      else (st1, 0))"

text \<open>A syslog rule reads ClickHouse only.\<close>

definition source_session :: "rule_env \<Rightarrow> alert_rule \<Rightarrow> db_session \<Rightarrow> db_session" where
  "source_session env r s = (if source_type r = ''syslog'' then s else session_after env r Read_source s)"

definition source_read :: "rule_env \<Rightarrow> alert_rule \<Rightarrow> db_session \<Rightarrow> bool" where
  "source_read env r s \<longleftrightarrow> source_type r = ''syslog'' \<or> session_after env r Read_source s = Live"

definition rule_step :: "rule_env \<Rightarrow> rule_db \<Rightarrow> alert_rule \<Rightarrow> rules_state \<times> nat \<Rightarrow> rules_state \<times> nat" where
  "rule_step env db r stn = (case stn of (st, triggered) \<Rightarrow>
     if rs_session st = Rolled_back \<or> in_cooldown (re_now env) r then (st, triggered)
     else
       (let st0 = set_session (source_session env r (rs_session st)) st in
        case (if source_read env r (rs_session st) then rule_match env db r else None) of
          None \<Rightarrow> (st0, triggered)
        | Some None \<Rightarrow> (st0\<lparr>rs_matches := ddel (rs_matches st) (ar_id r)\<rparr>, triggered)
        | Some (Some value) \<Rightarrow> (case count_match env db r value st0 of (st', k) \<Rightarrow> (st', triggered + k))))"

text \<open>The scheduler gives every evaluation a session of its own, and closes it.\<close>

definition evaluate_rules :: "rule_env \<Rightarrow> rule_db \<Rightarrow> rules_state \<Rightarrow> rules_state \<times> nat result" where
  "evaluate_rules env db st =
     (if \<not> re_read_rules env then (st, Inl db_error)
      else (case fold (rule_step env db) (filter ar_enabled (rs_rules st)) (set_session Live st, 0) of
              (st', n) \<Rightarrow> (set_session Live st', if rs_session st' = Rolled_back then Inl db_error else Inr n)))"

section \<open>Management\<close>

definition get_rule :: "rules_state \<Rightarrow> int \<Rightarrow> alert_rule option" where
  "get_rule st rid = find (\<lambda>r. ar_id r = rid) (rs_rules st)"

definition delete_rule :: "rules_state \<Rightarrow> int \<Rightarrow> rules_state \<times> bool" where
  "delete_rule st rid =
     (st\<lparr>rs_rules := filter (\<lambda>r. ar_id r \<noteq> rid) (rs_rules st)\<rparr>, list_ex (\<lambda>r. ar_id r = rid) (rs_rules st))"

record source_option =
  so_type :: string
  so_label :: string
  so_instances :: "(int \<times> string) list"

text \<open>The rule builder's sources; \<open>display\<close> is the integration registry.\<close>

definition get_source_options :: "(string \<Rightarrow> string option) \<Rightarrow> rule_db \<Rightarrow> source_option list" where
  "get_source_options display db =
     (let groups = foldl (\<lambda>g c. dset g (cfg_type c) (dget_or g (cfg_type c) [] @ [(cfg_id c, cfg_name c)])) []
            (filter cfg_enabled (rd_configs db));
          hosts = sort_key host_name (filter enabled (rd_hosts db)) in
      map (\<lambda>(ty, instances). \<lparr>so_type = ty, so_label = (case display ty of None \<Rightarrow> ty | Some l \<Rightarrow> l), so_instances = instances\<rparr>) groups
      @ [\<lparr>so_type = ''syslog'', so_label = ''Syslog'', so_instances = []\<rparr>]
      @ (if hosts = [] then [] else [\<lparr>so_type = ''ping'', so_label = ''Ping'', so_instances = map (\<lambda>h. (host_id h, host_name h)) hosts\<rparr>]))"

definition leaf :: "string \<Rightarrow> json \<Rightarrow> string \<Rightarrow> discovered" where
  "leaf p v ty = \<lparr>fd_path = p, fd_value = v, fd_type = ty\<rparr>"

definition get_fields_for_source :: "(pyfloat \<Rightarrow> string) \<Rightarrow> rule_db \<Rightarrow> string \<Rightarrow> int option \<Rightarrow> discovered list" where
  "get_fields_for_source frepr db ty sid =
     (if ty = ''syslog'' then
        [leaf ''message'' (JStr ''log message text'') ''string'', leaf ''hostname'' (JStr ''source hostname'') ''string'',
         leaf ''app_name'' (JStr ''application name'') ''string'', leaf ''severity'' (JInt 6) ''number'']
      else if ty = ''ping'' then
        [leaf ''success'' (JBool True) ''boolean'', leaf ''latency_ms'' (JFloat (Fin (25 / 2))) ''number'',
         leaf ''host'' (JStr ''example'') ''string'']
      else discover_fields frepr (snapshot_json (newest (filter (\<lambda>s. of_source ty sid s \<and> rsn_ok s) (rd_snapshots db)))) [])"

section \<open>What one evaluation does to one rule\<close>

text \<open>
  The rule engine as a machine per rule: its row and its counter, with the state \<open>s\<close> the earlier rules left the session in.
  The evaluation of all rules is exactly this machine for each of them.
\<close>

definition fires :: "rule_env \<Rightarrow> rule_db \<Rightarrow> db_session \<Rightarrow> alert_rule \<Rightarrow> json \<Rightarrow> bool" where
  "fires env db s r v \<longleftrightarrow> s = Live \<and> re_db env (ar_id r) Write_trigger = Live \<and>
     (case rule_message env db r v of
        Inl _ \<Rightarrow> False
      | Inr m \<Rightarrow>
          (if source_type r = ''syslog'' then re_db env (ar_id r) Write_incident = Live
           else (or_id (source_id r) None = None \<or> re_db env (ar_id r) Read_label = Live) \<and> re_notify env (rule_notice r m) (channel_list r) = None))"

definition rule_outcome :: "rule_env \<Rightarrow> rule_db \<Rightarrow> db_session \<Rightarrow> alert_rule \<Rightarrow> nat option \<Rightarrow> alert_rule \<times> nat option" where
  "rule_outcome env db s r n =
     (if \<not> ar_enabled r \<or> s = Rolled_back \<or> in_cooldown (re_now env) r \<or> \<not> source_read env r s then (r, n)
      else
        (case rule_match env db r of
           None \<Rightarrow> (r, n)
         | Some None \<Rightarrow> (r, None)
         | Some (Some v) \<Rightarrow>
             (let k = (case n of None \<Rightarrow> 1 | Some m \<Rightarrow> m + 1) in
              if int k < min_consecutive r then (r, Some k)
              else if fires env db s r v then (r\<lparr>last_triggered_at := Some (re_now env)\<rparr>, Some 0)
              else (r, Some k))))"

lemma rule_outcome_id [simp]: "ar_id (fst (rule_outcome env db s r n)) = ar_id r"
  by (simp add: rule_outcome_def Let_def split: option.split)

lemma get_rule_triggered:
  "get_rule (triggered_now now rid st) i =
     (if i = rid then map_option (\<lambda>r. r\<lparr>last_triggered_at := Some now\<rparr>) (get_rule st i) else get_rule st i)"
proof -
  have "find (\<lambda>r. ar_id r = i) (map (\<lambda>x. if ar_id x = rid then x\<lparr>last_triggered_at := Some now\<rparr> else x) rs) =
     (if i = rid then map_option (\<lambda>r. r\<lparr>last_triggered_at := Some now\<rparr>) (find (\<lambda>r. ar_id r = i) rs)
      else find (\<lambda>r. ar_id r = i) rs)" for rs
    by (induction rs) auto
  from this [of "rs_rules st"] show ?thesis unfolding get_rule_def triggered_now_def by simp
qed

lemma get_rule_cong [simp]:
  "get_rule (st\<lparr>rs_matches := m\<rparr>) i = get_rule st i" "get_rule (st\<lparr>rs_store := s\<rparr>) i = get_rule st i"
  "get_rule (set_session ss st) i = get_rule st i" "get_rule (add_sent env calls st) i = get_rule st i"
  by (simp_all add: get_rule_def set_session_def add_sent_def)

lemma session_simps [simp]:
  "rs_store (set_session s st) = rs_store st" "rs_matches (set_session s st) = rs_matches st" "rs_session (set_session s st) = s"
  "rs_store (add_sent env calls st) = rs_store st" "rs_matches (add_sent env calls st) = rs_matches st"
  "rs_session (add_sent env calls st) = rs_session st" "rs_rules (set_session s st) = rs_rules st"
  "rs_store (triggered_now now rid st) = rs_store st" "rs_matches (triggered_now now rid st) = rs_matches st"
  "rs_session (triggered_now now rid st) = rs_session st"
  by (simp_all add: set_session_def add_sent_def triggered_now_def)

lemma session_after_Live: "session_after env r use s = Live \<longleftrightarrow> s = Live \<and> re_db env (ar_id r) use = Live"
  by (simp add: session_after_def)

text \<open>\<open>sess_step\<close>: a rule takes the session from one state to another.\<close>

definition sess_step :: "rule_env \<Rightarrow> alert_rule \<Rightarrow> db_session \<Rightarrow> db_session \<Rightarrow> bool" where
  "sess_step env r s s' \<longleftrightarrow> (s = Live \<and> s' \<noteq> Live \<longrightarrow> (\<exists>u. re_db env (ar_id r) u \<noteq> Live))"

lemma commit_effect:
  assumes "commit_firing env r st st' = (st2, e)" and "rs_matches st' = rs_matches st" and "\<And>i. get_rule st' i = get_rule st i"
    and "rs_session st' = rs_session st" and "store_ok (rs_store st)" and "store_ok (rs_store st')"
  shows "(e = None \<longleftrightarrow> rs_session st = Live \<and> re_db env (ar_id r) Write_trigger = Live) \<and> store_ok (rs_store st2) \<and>
    rs_matches st2 = rs_matches st \<and> sess_step env r (rs_session st) (rs_session st2) \<and>
    (\<forall>i. get_rule st2 i = (if e = None then get_rule (triggered_now (re_now env) (ar_id r) st) i else get_rule st i))"
  using assms by (auto simp: commit_firing_def Let_def session_after_Live get_rule_triggered sess_step_def session_after_def split: if_splits)

lemma fire_effect:
  assumes "store_ok (rs_store st)" and "fire env db r v st = (st', e)"
  shows "(e = None \<longleftrightarrow> fires env db (rs_session st) r v) \<and> store_ok (rs_store st') \<and> rs_matches st' = rs_matches st \<and>
    sess_step env r (rs_session st) (rs_session st') \<and>
    (\<forall>i. get_rule st' i = (if e = None then get_rule (triggered_now (re_now env) (ar_id r) st) i else get_rule st i))"
proof (cases "rule_message env db r v")
  case (Inl x)
  with assms show ?thesis
    by (auto simp: fire_def fire_syslog_rule_def fire_rule_def fires_def sess_step_def label_read_def session_after_def split: if_splits)
next
  case (Inr m)
  show ?thesis
  proof (cases "source_type r = ''syslog''")
    case True
    obtain s' iid ns where s: "find_or_create_incident (re_sha env) (re_now env) (syslog_incident r v m (re_frepr env)) (rs_store st) = Inr (s', iid, ns)"
      "store_ok s'" using find_or_create_ok [OF assms(1)] by blast
    let ?st1 = "add_sent env (map (\<lambda>n. (n, None)) ns) st"
    show ?thesis
    proof (cases "session_after env r Write_incident (rs_session st) = Live")
      case live: True
      then have "commit_firing env r ?st1 (?st1\<lparr>rs_store := s'\<rparr>) = (st', e)"
        using assms(2) Inr True s by (simp add: fire_def fire_syslog_rule_def Let_def)
      from commit_effect [OF this] assms(1) s(2) live True Inr show ?thesis
        by (simp add: fires_def session_after_Live get_rule_triggered cong: conj_cong)
    next
      case False
      then have "st' = set_session (session_after env r Write_incident (rs_session st)) st" "e = Some db_error"
        using assms(2) Inr True by (auto simp: fire_def fire_syslog_rule_def Let_def)
      with False assms(1) True Inr show ?thesis
        by (auto simp: fires_def sess_step_def session_after_def split: if_splits)
    qed
  next
    case False
    let ?n = "rule_notice r m"
    show ?thesis
    proof (cases "label_read env r (rs_session st) \<and> re_notify env ?n (channel_list r) = None")
      case True
      then have "commit_firing env r (add_sent env [(?n, channel_list r)] st) (add_sent env [(?n, channel_list r)] st) = (st', e)"
        using assms(2) Inr False by (simp add: fire_def fire_rule_def Let_def)
      from commit_effect [OF this] assms(1) False True Inr show ?thesis
        by (auto simp: fires_def session_after_Live get_rule_triggered label_read_def)
    next
      case nf: False
      then have "e \<noteq> None" "st' = st \<or> \<not> label_read env r (rs_session st) \<and> st' = set_session (session_after env r Read_label (rs_session st)) st"
        using assms(2) Inr False by (auto simp: fire_def fire_rule_def Let_def split: if_splits option.splits) metis
      with nf assms(1) False Inr show ?thesis
        by (auto simp: fires_def sess_step_def session_after_def label_read_def split: if_splits)
    qed
  qed
qed

lemma count_effect:
  assumes "store_ok (rs_store st)" and "get_rule st (ar_id q) = Some q" and "count_match env db q v st = (st', j)"
  defines "k \<equiv> (case dget (rs_matches st) (ar_id q) of None \<Rightarrow> 1 | Some m \<Rightarrow> m + 1)"
  shows "store_ok (rs_store st') \<and> sess_step env q (rs_session st) (rs_session st') \<and>
    (let o' = (if int k < min_consecutive q then (q, Some k)
       else if fires env db (rs_session st) q v then (q\<lparr>last_triggered_at := Some (re_now env)\<rparr>, Some 0) else (q, Some k)) in
     (\<forall>i. get_rule st' i = (if i = ar_id q then Some (fst o') else get_rule st i)) \<and>
     (\<forall>i. dget (rs_matches st') i = (if i = ar_id q then snd o' else dget (rs_matches st) i)))"
proof -
  define st1 where "st1 = st\<lparr>rs_matches := dset (rs_matches st) (ar_id q) k\<rparr>"
  have k: "dget_or (rs_matches st) (ar_id q) 0 + 1 = k" by (simp add: k_def dget_or_def split: option.split)
  have st1: "store_ok (rs_store st1)" "rs_session st1 = rs_session st" "get_rule st1 i = get_rule st i"
    "dget (rs_matches st1) i = (if i = ar_id q then Some k else dget (rs_matches st) i)" for i
    using assms(1) by (simp_all add: st1_def dict_simps)
  obtain st2 e where f: "fire env db q v st1 = (st2, e)" by fastforce
  note fe = fire_effect [OF st1(1) f, unfolded st1(2)]
  have cm: "st' = (if int k \<ge> min_consecutive q then if e = None then st2\<lparr>rs_matches := dset (rs_matches st2) (ar_id q) 0\<rparr> else st2 else st1)"
    using assms(3) f unfolding count_match_def k Let_def st1_def [symmetric] by (auto split: if_splits option.splits)
  show ?thesis
  proof (cases "int k < min_consecutive q")
    case True
    then have "st' = st1" using cm by simp
    with True st1 assms(1,2) show ?thesis by (simp add: sess_step_def)
  next
    case False
    then show ?thesis using fe st1 assms(2) cm by (auto simp: get_rule_triggered dict_simps Let_def)
  qed
qed

lemma rule_step_effect:
  assumes "store_ok (rs_store st)" and "get_rule st (ar_id q) = Some q" and "ar_enabled q"
    and "rule_step env db q (st, n) = (st', n')"
  defines "o' \<equiv> rule_outcome env db (rs_session st) q (dget (rs_matches st) (ar_id q))"
  shows "store_ok (rs_store st') \<and> sess_step env q (rs_session st) (rs_session st') \<and>
    (\<forall>i. get_rule st' i = (if i = ar_id q then Some (fst o') else get_rule st i)) \<and>
    (\<forall>i. dget (rs_matches st') i = (if i = ar_id q then snd o' else dget (rs_matches st) i))"
proof (cases "rs_session st = Rolled_back \<or> in_cooldown (re_now env) q")
  case True
  with assms show ?thesis by (auto simp: rule_step_def rule_outcome_def sess_step_def)
next
  case False
  let ?s0 = "source_session env q (rs_session st)" let ?st0 = "set_session ?s0 st"
  have ss: "sess_step env q (rs_session st) ?s0" by (auto simp: sess_step_def source_session_def session_after_def)
  show ?thesis
  proof (cases "source_read env q (rs_session st) \<and> (\<exists>v. rule_match env db q = Some (Some v))")
    case True
    then obtain v where v: "rule_match env db q = Some (Some v)" by blast
    have s0: "?s0 = rs_session st" using True by (auto simp: source_read_def source_session_def session_after_Live)
    have st0: "store_ok (rs_store ?st0)" "get_rule ?st0 (ar_id q) = Some q" using assms(1,2) by simp_all
    obtain j where j: "count_match env db q v ?st0 = (st', j)" using assms(4) False True v by (auto simp: rule_step_def Let_def split: prod.splits)
    show ?thesis using count_effect [OF st0 j] False True v assms(3) unfolding o'_def rule_outcome_def Let_def s0 by (simp add: s0)
  next
    case nm: False
    then show ?thesis using assms(1-4) False ss
      by (auto simp: rule_step_def Let_def o'_def rule_outcome_def dict_simps split: if_splits option.splits)
  qed
qed

text \<open>The session as the rules before \<open>r\<close> leave it.\<close>

definition session_at :: "rule_env \<Rightarrow> rule_db \<Rightarrow> alert_rule list \<Rightarrow> rules_state \<Rightarrow> alert_rule \<Rightarrow> db_session" where
  "session_at env db qs st r = rs_session (fst (fold (rule_step env db) (takeWhile (\<lambda>q. ar_id q \<noteq> ar_id r) qs) (st, 0)))"

lemma rule_step_shift: "rule_step env db q (st, n) = (fst (rule_step env db q (st, 0)), n + snd (rule_step env db q (st, 0)))"
  by (simp add: rule_step_def Let_def split: option.split prod.split)

lemma fold_shift: "fst (fold (rule_step env db) qs (st, n)) = fst (fold (rule_step env db) qs (st, 0))"
proof (induction qs arbitrary: st n)
  case (Cons q qs)
  obtain s k where "rule_step env db q (st, 0) = (s, k)" by fastforce
  then show ?case using rule_step_shift [of env db q st n] Cons.IH [of s "n + k"] Cons.IH [of s k] by simp
qed simp

lemma session_at_Cons:
  "session_at env db (q # qs) st r = (if ar_id q = ar_id r then rs_session st else session_at env db qs (fst (rule_step env db q (st, 0))) r)"
proof -
  obtain s k where "rule_step env db q (st, 0) = (s, k)" by fastforce
  then show ?thesis using fold_shift [of env db _ s k] by (simp add: session_at_def)
qed

lemma evaluate_fold:
  fixes env :: rule_env and db :: rule_db and n :: nat
  assumes "store_ok (rs_store st)" and "distinct (map ar_id qs)" and "\<forall>q \<in> set qs. get_rule st (ar_id q) = Some q \<and> ar_enabled q"
  defines "st' \<equiv> fst (fold (rule_step env db) qs (st, n))"
  shows "store_ok (rs_store st') \<and>
    (\<forall>i. i \<notin> ar_id ` set qs \<longrightarrow> get_rule st' i = get_rule st i \<and> dget (rs_matches st') i = dget (rs_matches st) i) \<and>
    (\<forall>q \<in> set qs. let o' = rule_outcome env db (session_at env db qs st q) q (dget (rs_matches st) (ar_id q)) in
       get_rule st' (ar_id q) = Some (fst o') \<and> dget (rs_matches st') (ar_id q) = snd o' \<and>
       (rs_session st = Live \<and> session_at env db qs st q \<noteq> Live \<longrightarrow>
         (\<exists>p \<in> set (takeWhile (\<lambda>p. ar_id p \<noteq> ar_id q) qs). \<exists>u. re_db env (ar_id p) u \<noteq> Live)))"
  using assms(1-3) unfolding st'_def
proof (induction qs arbitrary: st n)
  case (Cons q qs)
  obtain st1 k where s: "rule_step env db q (st, 0) = (st1, k)" by fastforce
  have q: "get_rule st (ar_id q) = Some q" "ar_enabled q" using Cons.prems(3) by auto
  note e = rule_step_effect [OF Cons.prems(1) q s]
  have d: "ar_id p \<noteq> ar_id q" if "p \<in> set qs" for p using Cons.prems(2) imageI [OF that, of ar_id] by auto
  have fs: "fst (fold (rule_step env db) (q # qs) (st, n)) = fst (fold (rule_step env db) qs (st1, n + k))"
    using rule_step_shift [of env db q st n] s by simp
  have "\<forall>p \<in> set qs. get_rule st1 (ar_id p) = Some p \<and> ar_enabled p" using Cons.prems(3) d e by auto
  note ih = Cons.IH [of st1 "n + k", OF _ _ this, folded fs]
  have sa: "session_at env db (q # qs) st p = session_at env db qs st1 p" if "p \<in> set qs" for p using d [OF that] s by (simp add: session_at_Cons)
  show ?case (is "_ \<and> _ \<and> (\<forall>p \<in> set (q # qs). ?P p)")
  proof (intro conjI ballI)
    show "store_ok (rs_store (fst (fold (rule_step env db) (q # qs) (st, n))))" using ih e Cons.prems(2) by simp
    show "\<forall>i. i \<notin> ar_id ` set (q # qs) \<longrightarrow> get_rule (fst (fold (rule_step env db) (q # qs) (st, n))) i = get_rule st i \<and>
        dget (rs_matches (fst (fold (rule_step env db) (q # qs) (st, n)))) i = dget (rs_matches st) i"
      using ih e Cons.prems(2) by simp
    fix p assume "p \<in> set (q # qs)"
    then consider "p = q" | "p \<in> set qs" "p \<noteq> q" by auto
    then show "?P p"
    proof cases
      case 1
      have "ar_id q \<notin> ar_id ` set qs" using Cons.prems(2) by simp
      then show ?thesis using ih e Cons.prems(2) 1 by (simp add: session_at_Cons Let_def)
    next
      case 2
      have "rs_session st1 \<noteq> Live \<Longrightarrow> rs_session st = Live \<Longrightarrow> \<exists>u. re_db env (ar_id q) u \<noteq> Live" using e by (auto simp: sess_step_def)
      then show ?thesis using ih e Cons.prems(2) 2 d [OF 2(1)] sa [OF 2(1)] by (auto simp: Let_def)
    qed
  qed
qed simp

text \<open>
  C36. The rule engine refines one small machine per rule: a disabled rule, a rule in cooldown and a rule whose evaluation raised
  keep their state; a condition that does not hold resets the counter; a condition that holds increments it, and once it
  reaches the required number of consecutive matches the rule fires (its trigger time becomes now, its counter 0) exactly if
  its message can be built, \<^verbatim>\<open>notify\<close> returns (a log rule's notification may fail) and the database takes the writes; until
  then it tries again at every evaluation. Of the other rules only a failure of the database for an earlier one matters.
\<close>

theorem evaluate_rules_refines:
  fixes env :: rule_env and db :: rule_db
  assumes "store_ok (rs_store st)" and "distinct (map ar_id (rs_rules st))" and "r \<in> set (rs_rules st)" and "re_read_rules env"
  defines "qs \<equiv> filter ar_enabled (rs_rules st)" and "st' \<equiv> fst (evaluate_rules env db st)"
  shows "get_rule st' (ar_id r) = Some (fst (rule_outcome env db (session_at env db qs (set_session Live st) r) r (dget (rs_matches st) (ar_id r)))) \<and>
    dget (rs_matches st') (ar_id r) = snd (rule_outcome env db (session_at env db qs (set_session Live st) r) r (dget (rs_matches st) (ar_id r))) \<and>
    store_ok (rs_store st') \<and>
    (ar_enabled r \<and> session_at env db qs (set_session Live st) r \<noteq> Live \<longrightarrow>
      (\<exists>q \<in> set (takeWhile (\<lambda>q. ar_id q \<noteq> ar_id r) qs). \<exists>u. re_db env (ar_id q) u \<noteq> Live))"
proof -
  let ?st = "set_session Live st"
  have find: "find (\<lambda>x. ar_id x = ar_id q) rs = Some q" if "distinct (map ar_id rs)" "q \<in> set rs" for q rs
    using that by (induction rs) (auto simp: image_iff)
  have g: "\<forall>q \<in> set qs. get_rule ?st (ar_id q) = Some q \<and> ar_enabled q"
    using find [OF assms(2)] by (simp add: get_rule_def qs_def set_session_def)
  have d: "distinct (map ar_id qs)" using assms(2) by (simp add: distinct_map_filter qs_def)
  have s: "store_ok (rs_store ?st)" using assms(1) by simp
  have st': "st' = set_session Live (fst (fold (rule_step env db) qs (?st, 0)))"
    using assms(4) by (simp add: st'_def evaluate_rules_def qs_def case_prod_unfold)
  note f = evaluate_fold [OF s d g, of env db 0]
  show ?thesis
  proof (cases "ar_enabled r")
    case True
    then have "r \<in> set qs" using assms(3) by (simp add: qs_def)
    with f show ?thesis by (simp add: st' Let_def)
  next
    case False
    then have "ar_id r \<notin> ar_id ` set qs" using assms(2,3) by (auto simp: distinct_map inj_on_def qs_def)
    with f False find [OF assms(2,3)] show ?thesis by (simp add: rule_outcome_def st') (simp add: get_rule_def)
  qed
qed

definition demo_rule :: alert_rule where
  "demo_rule = \<lparr>ar_id = 4, ar_name = ''auth'', ar_enabled = True, source_type = ''syslog'', source_id = None, field_path = ''message'',
     operator = ''contains'', threshold = Some ''denied'', ar_severity = ''warning'', notify_channels = None, message_template = None,
     cooldown_minutes = 5, required_consecutive = 2, last_triggered_at = Some 0\<rparr>"

definition demo_rules :: "rules_state" where
  "demo_rules = \<lparr>rs_rules = [demo_rule], rs_matches = [(4, 1)], rs_store = empty_store 1, rs_sent = [], rs_session = Live\<rparr>"

definition demo_rule_env :: rule_env where
  "demo_rule_env = \<lparr>re_now = minutes 6, re_tz = utc_only, re_windows = [], re_frepr = fmt_g, re_sha = id, re_search = (\<lambda>_ _. Inr False),
     re_format = (\<lambda>s _. Inr s), re_count = (\<lambda>_ _. Inr (Some 3)), re_latest_ping = (\<lambda>_. Inr []),
     re_notify = (\<lambda>_ _. None), re_read_rules = True, re_db = (\<lambda>_ _. Live)\<rparr>"

theorem evaluate_rules_refines_witness:
  "get_rule (fst (evaluate_rules demo_rule_env \<lparr>rd_snapshots = [], rd_hosts = [], rd_configs = []\<rparr> demo_rules)) 4 =
     Some (demo_rule\<lparr>last_triggered_at := Some (minutes 6)\<rparr>)"
proof -
  let ?db = "\<lparr>rd_snapshots = [], rd_hosts = [], rd_configs = []\<rparr>"
  have m: "rule_match demo_rule_env ?db demo_rule = Some (Some (JInt 3))"
    by (simp add: rule_match_def demo_rule_def demo_rule_env_def evaluate_syslog_rule_def syslog_condition_def syslog_field_def Let_def)
  have t: "fires demo_rule_env ?db Live demo_rule (JInt 3)" "source_read demo_rule_env demo_rule Live"
    by (simp_all add: fires_def source_read_def rule_message_def demo_rule_def demo_rule_env_def or_empty_def)
  have "fst (rule_outcome demo_rule_env ?db Live demo_rule (Some 1)) = demo_rule\<lparr>last_triggered_at := Some (minutes 6)\<rparr>"
    using m t by (simp add: rule_outcome_def Let_def)
      (simp add: in_cooldown_def min_consecutive_def demo_rule_def demo_rule_env_def minutes_def)
  moreover have "session_at demo_rule_env ?db (filter ar_enabled (rs_rules demo_rules)) (set_session Live demo_rules) demo_rule = Live"
    by (simp add: session_at_def demo_rules_def demo_rule_def)
  ultimately show ?thesis using evaluate_rules_refines [of demo_rules demo_rule demo_rule_env ?db]
    by (simp add: demo_rules_def dget_def) (simp add: demo_rule_def demo_rule_env_def)
qed

text \<open>While \<^verbatim>\<open>notify\<close> raises, a rule that is due stays due: it is tried again at every evaluation, without its cooldown.\<close>

lemma refires_until_sent:
  assumes "source_type r \<noteq> ''syslog''" "rule_match env db r = Some (Some v)" "rule_message env db r v = Inr m"
    and "re_notify env (rule_notice r m) (channel_list r) = Some e" "ar_enabled r" "\<not> in_cooldown (re_now env) r"
    and "source_read env r s" "s \<noteq> Rolled_back" "int (k + 1) \<ge> min_consecutive r"
  shows "rule_outcome env db s r (Some k) = (r, Some (k + 1))"
  using assms by (simp add: rule_outcome_def fires_def)

section \<open>Discovered fields can be extracted\<close>

text \<open>
  Keys a path can name: not empty, without a dot and not the wildcard; the keys of one object are distinct.
\<close>

fun keys_ok :: "json \<Rightarrow> bool" where
  "keys_ok (JDict d) = (dict_ok d \<and> (\<forall>(k, v) \<in> set d. k \<noteq> [] \<and> CHR ''.'' \<notin> set k \<and> k \<noteq> ''*'' \<and> keys_ok v))"
| "keys_ok (JList xs) = (\<forall>x \<in> set xs. keys_ok x)"
| "keys_ok _ = True"

lemma extract_Nil: "extract_loop parts [] v = v"
  by (simp add: extract_loop.simps)

lemma extract_key: "dict_ok d \<Longrightarrow> (k, v) \<in> set d \<Longrightarrow> extract_loop parts (k # ps) (JDict d) = extract_loop parts ps v"
  by (subst extract_loop.simps) (simp add: dget_or_def dget_def dict_ok_def dkeys_def)

lemma extract_star:
  assumes "''*'' \<notin> set pre" and "ps \<noteq> []" and "\<forall>p \<in> set ps. CHR ''.'' \<notin> set p"
    and "xs \<noteq> []" and "is_dict (hd xs)" and "extract_loop ps ps (hd xs) = v" and "v \<noteq> JNull"
  shows "extract_loop (pre @ ''*'' # ps) (''*'' # ps) (JList xs) = v"
proof -
  have "dropWhile (\<lambda>p. p \<noteq> ''*'') (pre @ ''*'' # ps) = ''*'' # ps"
    using assms(1) by (induction pre) auto
  then have a: "after_star (pre @ ''*'' # ps) = ps"
    using split_on_join [OF assms(2,3)] by (simp add: after_star_def)
  obtain x ys where "xs = x # ys" using assms(4) by (cases xs) auto
  with assms(5-7) show ?thesis by (subst extract_loop.simps) (simp add: a)
qed

text \<open>What a discovered field says of the value under its path.\<close>

definition field_of :: "(pyfloat \<Rightarrow> string) \<Rightarrow> discovered \<Rightarrow> json \<Rightarrow> bool" where
  "field_of frepr f v \<longleftrightarrow>
     (if fd_type f = ''list'' then \<exists>xs. v = JList xs \<and> fd_value f = JStr (text_take 100 (py_str frepr v)) else v = fd_value f)"

lemma sub_path_ne: "key \<noteq> [] \<Longrightarrow> sub_path prefix key \<noteq> []"
  by (simp add: sub_path_def)

lemma sub_path_Cons: "key \<noteq> [] \<Longrightarrow> ps \<noteq> [] \<Longrightarrow> sub_path (sub_path prefix key) (join ''.'' ps) = sub_path prefix (join ''.'' (key # ps))"
  by (cases ps) (simp_all add: sub_path_def)

lemma field_type_list: "field_type v \<noteq> ''list''"
  by (cases v rule: field_type.cases) auto

lemma discover_extract:
  assumes "f \<in> set (discover_fields frepr data prefix)" and "keys_ok data" and "fd_value f \<noteq> JNull"
  shows "\<exists>ps. ps \<noteq> [] \<and> (\<forall>p \<in> set ps. CHR ''.'' \<notin> set p) \<and> fd_path f = sub_path prefix (join ''.'' ps) \<and>
    (\<forall>pre. ''*'' \<notin> set pre \<longrightarrow> field_of frepr f (extract_loop (pre @ ps) ps data))"
  using assms
proof (induction frepr data prefix rule: discover_fields.induct)
  case (1 frepr data prefix)
  from 1(3) obtain d where d: "data = JDict d" by (cases data) (auto simp: discover_fields.simps)
  from 1(3) d obtain key v where kv: "(key, v) \<in> set d" and f: "f \<in> set (case v of
             JDict _ \<Rightarrow> discover_fields frepr v (sub_path prefix key)
           | JList xs \<Rightarrow>
               (if xs \<noteq> [] \<and> is_dict (hd xs) then discover_fields frepr (hd xs) (sub_path prefix key @ ''.*'')
                else [\<lparr>fd_path = sub_path prefix key, fd_value = JStr (text_take 100 (py_str frepr v)), fd_type = ''list''\<rparr>])
           | _ \<Rightarrow> [\<lparr>fd_path = sub_path prefix key, fd_value = v, fd_type = field_type v\<rparr>])"
    by (subst (asm) discover_fields.simps) (auto simp: Let_def)
  have ok: "dict_ok d" "key \<noteq> []" "CHR ''.'' \<notin> set key" "key \<noteq> ''*''" "keys_ok v" using 1(4) d kv by auto
  have leaf: ?case if "fd_path f = sub_path prefix key" "field_of frepr f v"
    using that ok by (intro exI [of _ "[key]"]) (simp add: d extract_key [OF ok(1) kv] extract_Nil)
  show ?case
  proof (cases v)
    case (JDict e)
    from 1(2) [OF d kv refl refl JDict] f JDict ok(5) 1(5) obtain ps where ps: "ps \<noteq> []" "\<forall>p \<in> set ps. CHR ''.'' \<notin> set p"
      "fd_path f = sub_path (sub_path prefix key) (join ''.'' ps)"
      "\<And>pre. ''*'' \<notin> set pre \<Longrightarrow> field_of frepr f (extract_loop (pre @ ps) ps v)" by auto
    show ?thesis
    proof (intro exI [of _ "key # ps"] conjI allI impI)
      fix pre :: "string list" assume "''*'' \<notin> set pre"
      then show "field_of frepr f (extract_loop (pre @ key # ps) (key # ps) data)"
        using ps(4) [of "pre @ [key]"] ok by (simp add: d extract_key [OF ok(1) kv])
    qed (use ps ok sub_path_Cons in auto)
  next
    case (JList xs)
    show ?thesis
    proof (cases "xs \<noteq> [] \<and> is_dict (hd xs)")
      case True
      with ok(5) JList have "keys_ok (hd xs)" by simp
      with 1(1) [OF d kv refl refl JList True] f JList True 1(5) obtain ps where ps: "ps \<noteq> []" "\<forall>p \<in> set ps. CHR ''.'' \<notin> set p"
        "fd_path f = sub_path (sub_path prefix key @ ''.*'') (join ''.'' ps)"
        "\<And>pre. ''*'' \<notin> set pre \<Longrightarrow> field_of frepr f (extract_loop (pre @ ps) ps (hd xs))" by auto
      have nn: "extract_loop ps ps (hd xs) \<noteq> JNull"
        using ps(4) [of "[]"] 1(5) by (auto simp: field_of_def split: if_splits)
      show ?thesis
      proof (intro exI [of _ "key # ''*'' # ps"] conjI allI impI)
        fix pre :: "string list" assume "''*'' \<notin> set pre"
        then have "extract_loop ((pre @ [key]) @ ''*'' # ps) (''*'' # ps) (JList xs) = extract_loop ps ps (hd xs)"
          using True ps(1,2) nn ok(4) by (intro extract_star) auto
        then show "field_of frepr f (extract_loop (pre @ key # ''*'' # ps) (key # ''*'' # ps) data)"
          using ps(4) [of "[]"] JList by (simp add: d extract_key [OF ok(1) kv])
      next
        show "fd_path f = sub_path prefix (join ''.'' (key # ''*'' # ps))"
          using ps(1,3) ok(2) by (cases ps) (auto simp: sub_path_def)
      qed (use ps ok in auto)
    next
      case False
      with f JList have "f = \<lparr>fd_path = sub_path prefix key, fd_value = JStr (text_take 100 (py_str frepr v)), fd_type = ''list''\<rparr>"
        by (auto split: if_splits)
      with JList show ?thesis by (intro leaf) (simp_all add: field_of_def)
    qed
  qed (use f in \<open>intro leaf; simp add: field_of_def field_type_list\<close>)+
qed

text \<open>What the rule builder offers is what the rule engine reads: every field that \<open>discover_fields\<close> lists for a
  snapshot is found by \<open>extract_field\<close> under the listed path, with the listed value (a list of plain
  values is listed by its text), as long as the snapshot's keys can be named in a path and the listed
  value is not null.\<close>

theorem discover_extract_roundtrip:
  assumes "f \<in> set (discover_fields frepr data [])" and "keys_ok data" and "fd_value f \<noteq> JNull"
  shows "if fd_type f = ''list''
    then \<exists>xs. extract_field data (fd_path f) = JList xs \<and> fd_value f = JStr (text_take 100 (py_str frepr (JList xs)))
    else extract_field data (fd_path f) = fd_value f"
proof -
  from discover_extract [OF assms] obtain ps where ps: "ps \<noteq> []" "\<forall>p \<in> set ps. CHR ''.'' \<notin> set p"
    "fd_path f = sub_path [] (join ''.'' ps)" "\<forall>pre. ''*'' \<notin> set pre \<longrightarrow> field_of frepr f (extract_loop (pre @ ps) ps data)"
    by blast
  from ps(4) [rule_format, of "[]"] have v: "field_of frepr f (extract_loop ps ps data)" by simp
  from ps(3) split_on_join [OF ps(1,2)] have "extract_field data (fd_path f) = extract_loop ps ps data"
    by (simp add: extract_field_def sub_path_def)
  with v show ?thesis by (auto simp: field_of_def)
qed

definition demo_snapshot :: json where
  "demo_snapshot = JDict [(''disks'', JList [JDict [(''temp'', JInt 41)], JDict [(''temp'', JInt 55)]])]"

theorem discover_extract_roundtrip_witness: "extract_field demo_snapshot ''disks.*.temp'' = JInt 41"
proof -
  let ?f = "\<lparr>fd_path = ''disks.*.temp'', fd_value = JInt 41, fd_type = ''number''\<rparr>"
  have "?f \<in> set (discover_fields fmt_g demo_snapshot [])"
    by (simp add: demo_snapshot_def discover_fields.simps sub_path_def)
  moreover have "keys_ok demo_snapshot" by (simp add: demo_snapshot_def dict_ok_def dkeys_def)
  ultimately show ?thesis using discover_extract_roundtrip [of ?f fmt_g demo_snapshot] by simp
qed

end
