(* ===== verification/Agent_Services.thy ===== *)
theory Agent_Services
  imports Integration_Alerts Json_Print
begin

text \<open>
  Watched services on agents (\<^verbatim>\<open>backend/services/agent_services.py\<close>): the watch list and its
  validation, the merge of one heartbeat report into the stored state, and the incidents it opens and
  resolves. The state is kept as JSON text on the agent row, as in the code, so a step reads back
  what the previous one wrote. SHA-256 and the text of a float are parameters.
\<close>

definition RULE :: string where "RULE = ''agent_service''"
definition SERVICE_STATES :: "string list" where "SERVICE_STATES = [''running'', ''stopped'', ''not_found'', ''unknown'']"
definition FAILING_STATES :: "string list" where "FAILING_STATES = [''stopped'', ''not_found'']"
definition MAX_WATCHED_SERVICES :: nat where "MAX_WATCHED_SERVICES = 50"
definition MAX_NAME_LEN :: nat where "MAX_NAME_LEN = 256"
definition DEFAULT_FAIL_REPORTS :: int where "DEFAULT_FAIL_REPORTS = 3"

record agent =
  ag_id :: int
  ag_name :: string
  ag_hostname :: "string option"
  watched_services :: "string option"
  service_states :: "string option"

section \<open>Watch list\<close>

definition name_char :: "char \<Rightarrow> bool" where
  "name_char c \<longleftrightarrow> is_digit c \<or> is_upper c \<or> is_lower c \<or> c \<in> set ''_.@:$ -'' \<or> c = CHR 0x5C"

text \<open>\<^verbatim>\<open>_NAME_RE.match\<close>: the anchor \<^verbatim>\<open>$\<close> also matches before a final line break.\<close>

definition name_re :: "string \<Rightarrow> bool" where
  "name_re s = (let t = (if s \<noteq> [] \<and> last s = CHR 0x0A then butlast s else s) in t \<noteq> [] \<and> list_all name_char t)"

definition is_valid_service_name :: "string \<Rightarrow> bool" where
  "is_valid_service_name name \<longleftrightarrow> name \<noteq> [] \<and> length name \<le> MAX_NAME_LEN \<and> \<not> startswith name ''-'' \<and> name_re name"

definition watch_item :: "json \<Rightarrow> string list \<Rightarrow> string list result" where
  "watch_item item out =
     (case item of
        JStr s \<Rightarrow>
          (let name = strip s in
           if name = [] then Inr out
           else if \<not> is_valid_service_name name then Inl (ValueError (''invalid service name: '' @ repr_str name))
           else if name \<in> set out then Inr out else Inr (out @ [name]))
      | _ \<Rightarrow> Inl (ValueError ''service names must be strings''))"

definition normalize_watch_list :: "json \<Rightarrow> string list result" where
  "normalize_watch_list raw =
     (case raw of
        JNull \<Rightarrow> Inr []
      | JList items \<Rightarrow>
          bind_result (fold_result watch_item items []) (\<lambda>out.
            if length out > MAX_WATCHED_SERVICES
            then Inl (ValueError (''at most '' @ show_int (int MAX_WATCHED_SERVICES) @ '' services can be watched''))
            else Inr out)
      | _ \<Rightarrow> Inl (ValueError ''services must be a list of service names''))"

fun name_item :: "json \<Rightarrow> string list" where
  "name_item (JStr s) = (if s = [] then [] else [s])"
| "name_item _ = []"

definition watched_list :: "agent \<Rightarrow> string list" where
  "watched_list a =
     (if opt_str (watched_services a) = [] then []
      else (case loads (opt_str (watched_services a)) of Some (JList xs) \<Rightarrow> concat (map name_item xs) | _ \<Rightarrow> []))"

definition load_states :: "agent \<Rightarrow> (string, json) dict option" where
  "load_states a =
     (if opt_str (service_states a) = [] then None
      else (case loads (opt_str (service_states a)) of Some (JDict d) \<Rightarrow> Some d | _ \<Rightarrow> None))"

definition incident_hash :: "(string \<Rightarrow> string) \<Rightarrow> int \<Rightarrow> string \<Rightarrow> string" where
  "incident_hash sha aid name = take 16 (sha (''agent:'' @ show_int aid @ '':service:'' @ str_lower name))"

section \<open>Merging a report\<close>

record svc =
  svc_name :: string
  svc_state :: string
  svc_start :: json
  svc_since :: json
  svc_fail :: int
  svc_alerted :: bool

definition svc_fields :: "svc \<Rightarrow> (string, json) dict" where
  "svc_fields s = [(''name'', JStr (svc_name s)), (''state'', JStr (svc_state s)), (''start_type'', svc_start s),
     (''since'', svc_since s), (''fail_count'', JInt (svc_fail s)), (''alerted'', JBool (svc_alerted s))]"

definition index_item :: "(string, (string, json) dict) dict \<Rightarrow> json \<Rightarrow> (string, (string, json) dict) dict" where
  "index_item out r =
     (case r of
        JDict e \<Rightarrow> (case dget e ''name'' of Some (JStr n) \<Rightarrow> if n = [] then out else setdefault out n e | _ \<Rightarrow> out)
      | _ \<Rightarrow> out)"

definition index_reported :: "json \<Rightarrow> (string, (string, json) dict) dict" where
  "index_reported reported = (case reported of JList rs \<Rightarrow> foldl index_item [] rs | _ \<Rightarrow> [])"

definition prev_item :: "(string, (string, json) dict) dict \<Rightarrow> json \<Rightarrow> (string, (string, json) dict) dict" where
  "prev_item out s = (case s of JDict e \<Rightarrow> (case dget e ''name'' of Some (JStr n) \<Rightarrow> dset out n e | _ \<Rightarrow> out) | _ \<Rightarrow> out)"

text \<open>\<^verbatim>\<open>(previous or {}).get("services", [])\<close>, iterated.\<close>

definition previous_services :: "(string, json) dict option \<Rightarrow> json list result" where
  "previous_services previous =
     json_iter (case previous of None \<Rightarrow> JList [] | Some d \<Rightarrow> dget_or d ''services'' (JList []))"

definition find_report :: "(string, (string, json) dict) dict \<Rightarrow> string \<Rightarrow> (string, json) dict option" where
  "find_report by_name name =
     (case dget by_name name of
        Some r \<Rightarrow> Some r
      | None \<Rightarrow> dget (foldl (\<lambda>d (k, v). dset d (str_lower k) v) [] by_name) (str_lower name))"

definition reported_state :: "(string, json) dict option \<Rightarrow> string" where
  "reported_state rep =
     (case rep of None \<Rightarrow> ''unknown''
      | Some r \<Rightarrow> (case dget_or r ''state'' JNull of JStr s \<Rightarrow> if s \<in> set SERVICE_STATES then s else ''unknown'' | _ \<Rightarrow> ''unknown''))"

definition prev_count :: "(string, json) dict \<Rightarrow> int" where
  "prev_count prev = (case dget_or prev ''fail_count'' JNull of JInt n \<Rightarrow> n | JBool b \<Rightarrow> (if b then 1 else 0) | _ \<Rightarrow> 0)"

definition merge_start :: "(string, json) dict option \<Rightarrow> (string, json) dict \<Rightarrow> json" where
  "merge_start rep prev =
     (case rep of
        Some r \<Rightarrow> (case dget_or r ''start_type'' JNull of JStr s \<Rightarrow> JStr s | _ \<Rightarrow> JNull)
      | None \<Rightarrow> dget_or prev ''start_type'' JNull)"

definition merge_one ::
    "(string, (string, json) dict) dict \<Rightarrow> (string, (string, json) dict) dict \<Rightarrow> datetime \<Rightarrow> string \<Rightarrow> svc" where
  "merge_one prev_by_name by_name now name =
     (let rep = find_report by_name name; prev = dget_or prev_by_name name []; state = reported_state rep in
      \<lparr>svc_name = name, svc_state = state, svc_start = merge_start rep prev,
       svc_since = (if dget_or prev ''state'' JNull = JStr state \<and> truthy (dget_or prev ''since'' JNull)
                    then dget_or prev ''since'' JNull else JStr (isoformat now)),
       svc_fail = (if state = ''running'' then 0 else if state \<in> set FAILING_STATES then prev_count prev + 1 else prev_count prev),
       svc_alerted = truthy (dget_or prev ''alerted'' JNull)\<rparr>)"

definition merge_report :: "(string, json) dict option \<Rightarrow> string list \<Rightarrow> json \<Rightarrow> datetime \<Rightarrow> svc list result" where
  "merge_report previous watched reported now =
     bind_result (previous_services previous) (\<lambda>ss.
       Inr (map (merge_one (foldl prev_item [] ss) (index_reported reported) now) watched))"

section \<open>Incidents\<close>

record svc_env =
  se_now :: datetime
  se_sha :: "string \<Rightarrow> string"
  se_frepr :: "pyfloat \<Rightarrow> string"
  se_hosts :: "full_host list"
  se_setting :: "string option"

definition fail_threshold :: "string option \<Rightarrow> int" where
  "fail_threshold setting =
     (let v = (case setting of None \<Rightarrow> DEFAULT_FAIL_REPORTS
                 | Some t \<Rightarrow> (case parse_int t of None \<Rightarrow> DEFAULT_FAIL_REPORTS | Some n \<Rightarrow> n))
      in max 1 (min v 1000))"

definition agent_host :: "agent \<Rightarrow> full_host \<Rightarrow> bool" where
  "agent_host a h \<longleftrightarrow> host_source h = Some ''agent'' \<and>
     (str_lower (hostname h) = str_lower (opt_str (ag_hostname a)) \<or> str_lower (host_name h) = str_lower (opt_str (ag_hostname a)))"

definition host_in_maintenance :: "full_host list \<Rightarrow> agent \<Rightarrow> bool" where
  "host_in_maintenance hosts a \<longleftrightarrow> opt_str (ag_hostname a) \<noteq> [] \<and> list_ex maintenance (filter (agent_host a) hosts)"

definition agent_ping_host_ids :: "full_host list \<Rightarrow> agent \<Rightarrow> int list" where
  "agent_ping_host_ids hosts a = (if opt_str (ag_hostname a) = [] then [] else map host_id (filter (agent_host a) hosts))"

text \<open>Notifications as the caller sends them after its commit: title, message, severity.\<close>

type_synonym note3 = "string \<times> string \<times> string"

definition resolve_service :: "svc_env \<Rightarrow> int \<Rightarrow> string \<Rightarrow> string \<Rightarrow> store \<Rightarrow> store \<times> incident option" where
  "resolve_service env aid name summary st =
     (let found = open_matches RULE (incident_hash (se_sha env) aid name) st in
      (fold (\<lambda>i. resolve_incident (se_now env) (inc_id i) summary) found st, case found of [] \<Rightarrow> None | i # _ \<Rightarrow> Some i))"

definition resolved_message :: "incident option \<Rightarrow> string \<Rightarrow> note3 list" where
  "resolved_message i summary =
     (case i of None \<Rightarrow> [] | Some x \<Rightarrow> [(check_mark @ '' Resolved: '' @ inc_title x, summary, ''info'')])"

definition describe :: "string \<Rightarrow> string" where
  "describe state = (if state = ''not_found'' then ''not installed'' else ''not running'')"

definition service_title :: "agent \<Rightarrow> svc \<Rightarrow> string" where
  "service_title a s = ag_name a @ '': service '' @ svc_name s @ '' '' @ describe (svc_state s)"

definition service_incident :: "svc_env \<Rightarrow> agent \<Rightarrow> svc \<Rightarrow> incident_spec" where
  "service_incident env a s =
     \<lparr>sp_rule = RULE, sp_title = service_title a s,
      sp_severity = ''warning'', sp_host_ids = [], sp_event_type = ''service_down'',
      sp_summary = ''Service '' @ quoted (svc_name s) @ '' on agent '' @ ag_name a @ '' ('' @
        (if opt_str (ag_hostname a) = [] then ''?'' else opt_str (ag_hostname a)) @ '') is '' @
        str_replace ''_'' '' '' (svc_state s) @ '' for '' @ show_int (svc_fail s) @ '' consecutive reports'',
      sp_detail = None, sp_key_hash = Some (incident_hash (se_sha env) (ag_id a) (svc_name s)), sp_notify = False,
      sp_affected = Some (agent_ping_host_ids (se_hosts env) a)\<rparr>"

text \<open>One merged service: the incident it opens or resolves, and its \<open>alerted\<close> flag afterwards.\<close>

definition service_step ::
    "svc_env \<Rightarrow> agent \<Rightarrow> int \<Rightarrow> svc \<Rightarrow> svc list \<times> store \<times> note3 list \<Rightarrow> (svc list \<times> store \<times> note3 list) result" where
  "service_step env a thr s acc = (case acc of (out, st, notes) \<Rightarrow>
     if svc_fail s \<ge> thr \<and> \<not> svc_alerted s then
       (if host_in_maintenance (se_hosts env) a then Inr (out @ [s], st, notes)
        else bind_result (find_or_create_incident (se_sha env) (se_now env) (service_incident env a s) st) (\<lambda>(st', _, _).
          Inr (out @ [s\<lparr>svc_alerted := True\<rparr>], st',
               notes @ [(red_circle @ '' Incident: '' @ service_title a s, sp_summary (service_incident env a s), ''warning'')])))
     else if svc_state s = ''running'' \<and> svc_alerted s then
       (let summary = ''Service '' @ quoted (svc_name s) @ '' on agent '' @ ag_name a @ '' is running again'';
            (st', i) = resolve_service env (ag_id a) (svc_name s) summary st
        in Inr (out @ [s\<lparr>svc_alerted := False\<rparr>], st', notes @ resolved_message i summary))
     else Inr (out @ [s], st, notes))"

definition resolve_unwatched :: "svc_env \<Rightarrow> agent \<Rightarrow> string \<Rightarrow> store \<times> note3 list \<Rightarrow> store \<times> note3 list" where
  "resolve_unwatched env a name acc = (case acc of (st, notes) \<Rightarrow>
     (let summary = ''Service '' @ quoted name @ '' on agent '' @ ag_name a @ '' is no longer watched'';
          (st', i) = resolve_service env (ag_id a) name summary st
      in (st', notes @ resolved_message i summary)))"

text \<open>One stored entry that may have left the watch list; an entry that is alerted but carries no usable name raises.\<close>

definition unwatched_step ::
    "svc_env \<Rightarrow> agent \<Rightarrow> string list \<Rightarrow> json \<Rightarrow> store \<times> note3 list \<Rightarrow> (store \<times> note3 list) result" where
  "unwatched_step env a names old acc =
     (case old of
        JDict e \<Rightarrow>
          (if \<not> truthy (dget_or e ''alerted'' JNull) then Inr acc
           else (case dget e ''name'' of
                   None \<Rightarrow> Inl (KeyError ''name'')
                 | Some (JStr n) \<Rightarrow> (if n \<in> set names then Inr acc else Inr (resolve_unwatched env a n acc))
                 | Some (JList _) \<Rightarrow> Inl TypeError
                 | Some (JDict _) \<Rightarrow> Inl TypeError
                 | Some _ \<Rightarrow> Inl AttributeError))
      | _ \<Rightarrow> Inr acc)"

definition states_json :: "datetime \<Rightarrow> svc list \<Rightarrow> json" where
  "states_json now ss = JDict [(''reported_at'', JStr (isoformat now)), (''services'', JList (map (JDict \<circ> svc_fields) ss))]"

definition apply_service_report :: "svc_env \<Rightarrow> json \<Rightarrow> agent \<Rightarrow> store \<Rightarrow> (agent \<times> store \<times> note3 list) result" where
  "apply_service_report env reported a st =
     (let watched = watched_list a; previous = load_states a in
      bind_result (merge_report previous watched reported (se_now env)) (\<lambda>merged.
        let thr = (if merged \<noteq> [] then fail_threshold (se_setting env) else DEFAULT_FAIL_REPORTS) in
        bind_result (fold_result (service_step env a thr) merged ([], st, [])) (\<lambda>(done, st1, notes1).
          bind_result (previous_services previous) (\<lambda>olds.
            bind_result (fold_result (unwatched_step env a (map svc_name done)) olds (st1, notes1)) (\<lambda>(st2, notes2).
              Inr (a\<lparr>service_states := Some (dumps (se_frepr env) (states_json (se_now env) done))\<rparr>, st2, notes2))))))"

section \<open>Changing the watch list\<close>

definition keep_step ::
    "svc_env \<Rightarrow> agent \<Rightarrow> string list \<Rightarrow> json \<Rightarrow> json list \<times> store \<times> note3 list \<Rightarrow> (json list \<times> store \<times> note3 list) result" where
  "keep_step env a keep s acc = (case acc of (remaining, st, notes) \<Rightarrow>
     (case s of
        JDict e \<Rightarrow>
          (let alerted = truthy (dget_or e ''alerted'' JNull) in
           case dget e ''name'' of
             Some (JStr n) \<Rightarrow>
               (if n \<in> set keep then Inr (remaining @ [s], st, notes)
                else if alerted then (case resolve_unwatched env a n (st, notes) of (st', notes') \<Rightarrow> Inr (remaining, st', notes'))
                else Inr acc)
           | None \<Rightarrow> (if alerted then Inl (KeyError ''name'') else Inr acc)
           | Some (JList _) \<Rightarrow> Inl TypeError
           | Some (JDict _) \<Rightarrow> Inl TypeError
           | Some _ \<Rightarrow> (if alerted then Inl AttributeError else Inr acc))
      | _ \<Rightarrow> Inr acc))"

definition store_watch_list :: "(pyfloat \<Rightarrow> string) \<Rightarrow> string list \<Rightarrow> string option" where
  "store_watch_list frepr new_list = (if new_list = [] then None else Some (dumps frepr (JList (map JStr new_list))))"

definition apply_watch_list_change :: "svc_env \<Rightarrow> string list \<Rightarrow> agent \<Rightarrow> store \<Rightarrow> (agent \<times> store \<times> note3 list) result" where
  "apply_watch_list_change env new_list a st =
     (case load_states a of
        None \<Rightarrow> Inr (a\<lparr>watched_services := store_watch_list (se_frepr env) new_list\<rparr>, st, [])
      | Some d \<Rightarrow>
          bind_result (previous_services (Some d)) (\<lambda>ss.
            bind_result (fold_result (keep_step env a new_list) ss ([], st, [])) (\<lambda>(remaining, st', notes).
              Inr (a\<lparr>service_states := Some (dumps (se_frepr env) (JDict (dset d ''services'' (JList remaining)))),
                     watched_services := store_watch_list (se_frepr env) new_list\<rparr>, st', notes))))"

section \<open>The API view\<close>

record service_row =
  vr_name :: string
  vr_state :: json
  vr_start :: json
  vr_since :: json
  vr_fail :: json
  vr_alerted :: bool

definition view_row :: "(string, (string, json) dict) dict \<Rightarrow> string \<Rightarrow> service_row" where
  "view_row by_name name =
     (case dget by_name name of
        None \<Rightarrow> \<lparr>vr_name = name, vr_state = JNull, vr_start = JNull, vr_since = JNull, vr_fail = JInt 0, vr_alerted = False\<rparr>
      | Some s \<Rightarrow> \<lparr>vr_name = name, vr_state = dget_or s ''state'' (JStr ''unknown''), vr_start = dget_or s ''start_type'' JNull,
          vr_since = dget_or s ''since'' JNull, vr_fail = dget_or s ''fail_count'' (JInt 0),
          vr_alerted = truthy (dget_or s ''alerted'' JNull)\<rparr>)"

definition service_view :: "agent \<Rightarrow> (string list \<times> json \<times> service_row list) result" where
  "service_view a =
     (let watched = watched_list a; states = load_states a in
      bind_result (previous_services states) (\<lambda>ss.
        Inr (watched, (case states of None \<Rightarrow> JNull | Some d \<Rightarrow> dget_or d ''reported_at'' JNull),
             map (view_row (foldl prev_item [] ss)) watched)))"

section \<open>What one report does\<close>

definition svcs_ok :: "svc list \<Rightarrow> bool" where
  "svcs_ok ss \<longleftrightarrow> distinct (map svc_name ss) \<and>
     (\<forall>s \<in> set ss. text_ok (svc_name s) \<and> text_ok (svc_state s) \<and> plain_json (svc_start s) \<and> plain_json (svc_since s))"

text \<open>The stored text of an agent: nothing yet, or what an earlier report wrote.\<close>

definition stored :: "(pyfloat \<Rightarrow> string) \<Rightarrow> agent \<Rightarrow> svc list \<Rightarrow> bool" where
  "stored frepr a ss \<longleftrightarrow> svcs_ok ss \<and>
     (service_states a = None \<and> ss = [] \<or> (\<exists>t. service_states a = Some (dumps frepr (states_json t ss))))"

lemma ascii_digits: "is_digit c \<Longrightarrow> (of_char c :: nat) < 128"
  by (simp add: is_digit_def)

lemma isoformat_text: "text_ok (isoformat t)"
proof -
  have z: "\<forall>c \<in> set (zpad w n). (of_char c :: nat) < 128" for w n
    using is_digit_set_show_nat ascii_digits by (fastforce simp: zpad_def pad_left_def)
  show ?thesis
    by (rule ascii_text_ok) (auto simp: isoformat_def iso_date_def hh_mm_def z split: prod.splits dest: z [rule_format])
qed

lemma svc_fields_plain:
  "text_ok (svc_name s) \<Longrightarrow> text_ok (svc_state s) \<Longrightarrow> plain_json (svc_start s) \<Longrightarrow> plain_json (svc_since s) \<Longrightarrow> plain_json (JDict (svc_fields s))"
  by (simp add: svc_fields_def dict_ok_def dkeys_def) (intro conjI ascii_text_ok; simp)

lemma states_json_plain:
  assumes "svcs_ok ss"
  shows "plain_json (states_json t ss)"
proof -
  have "plain_json (JDict (svc_fields s))" if "s \<in> set ss" for s
    using assms that by (intro svc_fields_plain) (auto simp: svcs_ok_def)
  then have "\<forall>x \<in> set (map (JDict \<circ> svc_fields) ss). plain_json x" by (simp del: plain_json.simps)
  moreover have "text_ok ''reported_at''" "text_ok ''services''" by (rule ascii_text_ok, simp)+
  ultimately show ?thesis by (simp add: states_json_def dict_ok_def dkeys_def isoformat_text)
qed

lemma load_stored:
  assumes "stored frepr a ss"
  shows "previous_services (load_states a) = Inr (map (JDict \<circ> svc_fields) ss)"
proof -
  have ne: "dumps frepr (states_json t ss) \<noteq> []" for t by (simp add: states_json_def)
  show ?thesis
    using assms loads_dumps [OF states_json_plain, of ss frepr] ne
    by (auto simp: stored_def load_states_def opt_str_def previous_services_def)
       (auto simp: states_json_def dget_or_def dget_def)
qed

lemma prev_index:
  "distinct (map svc_name ss) \<Longrightarrow> dget (foldl prev_item d (map (JDict \<circ> svc_fields) ss)) n =
     (case find (\<lambda>s. svc_name s = n) ss of None \<Rightarrow> dget d n | Some s \<Rightarrow> Some (svc_fields s))"
proof (induction ss arbitrary: d)
  case (Cons s ss)
  have "prev_item d (JDict (svc_fields s)) = dset d (svc_name s) (svc_fields s)"
    by (simp add: prev_item_def svc_fields_def dget_def)
  moreover have "find (\<lambda>x. svc_name x = svc_name s) ss = None"
    using Cons.prems by (simp add: find_None_iff) (metis image_eqI)
  ultimately show ?case using Cons by (auto simp: dict_simps split: option.split)
qed simp

definition next_count :: "string \<Rightarrow> int \<Rightarrow> int" where
  "next_count state c = (if state = ''running'' then 0 else if state \<in> {''stopped'', ''not_found''} then c + 1 else c)"

definition next_alert :: "int \<Rightarrow> bool \<Rightarrow> string \<Rightarrow> int \<Rightarrow> bool \<Rightarrow> bool" where
  "next_alert thr quiet state c al =
     (if c \<ge> thr \<and> \<not> al then \<not> quiet else if state = ''running'' \<and> al then False else al)"

definition alert_of :: "svc_env \<Rightarrow> agent \<Rightarrow> int \<Rightarrow> svc \<Rightarrow> svc" where
  "alert_of env a thr s =
     s\<lparr>svc_alerted := next_alert thr (host_in_maintenance (se_hosts env) a) (svc_state s) (svc_fail s) (svc_alerted s)\<rparr>"

abbreviation svc_key :: "svc_env \<Rightarrow> agent \<Rightarrow> string \<Rightarrow> string \<times> string" where
  "svc_key env a n \<equiv> (RULE, incident_hash (se_sha env) (ag_id a) n)"

definition newly :: "svc_env \<Rightarrow> agent \<Rightarrow> int \<Rightarrow> svc \<Rightarrow> bool" where
  "newly env a thr s \<longleftrightarrow> svc_alerted (alert_of env a thr s) \<and> \<not> svc_alerted s"

definition recovered :: "svc_env \<Rightarrow> agent \<Rightarrow> int \<Rightarrow> svc \<Rightarrow> bool" where
  "recovered env a thr s \<longleftrightarrow> \<not> svc_alerted (alert_of env a thr s) \<and> svc_alerted s"

lemma service_step_effect:
  assumes "store_ok st" and "incident_hash (se_sha env) (ag_id a) (svc_name s) \<noteq> []"
  shows "\<exists>st' msgs'. service_step env a thr s (out, st, msgs) = Inr (out @ [alert_of env a thr s], st', msgs') \<and> store_ok st' \<and>
    open_keys_of st' = (open_keys_of st \<union> (if newly env a thr s then {svc_key env a (svc_name s)} else {}))
       - (if recovered env a thr s then {svc_key env a (svc_name s)} else {})"
proof -
  let ?sp = "service_incident env a s"
  obtain st1 iid ns where f: "find_or_create_incident (se_sha env) (se_now env) ?sp st = Inr (st1, iid, ns)" "store_ok st1"
    using find_or_create_ok [OF assms(1)] by blast
  have k1: "open_keys_of st1 = insert (svc_key env a (svc_name s)) (open_keys_of st)"
    using find_or_create_rows [OF assms(1) f(1)] assms(2) by (simp add: open_keys_rows dedup_key_def service_incident_def)
  have r: "store_ok (fst (resolve_service env (ag_id a) n msg st))"
    "open_keys_of (fst (resolve_service env (ag_id a) n msg st)) = open_keys_of st - {svc_key env a n}" for n msg
    using resolve_matches [OF assms(1)] by (simp_all add: resolve_service_def Let_def)
  show ?thesis
  proof (cases "svc_fail s \<ge> thr \<and> \<not> svc_alerted s")
    case True
    then show ?thesis
      using f k1 assms(1) by (auto simp: service_step_def alert_of_def next_alert_def newly_def recovered_def)
  next
    case False
    show ?thesis
    proof (cases "svc_state s = ''running'' \<and> svc_alerted s")
      case True
      obtain st2 i where r2: "resolve_service env (ag_id a) (svc_name s)
          (''Service '' @ quoted (svc_name s) @ '' on agent '' @ ag_name a @ '' is running again'') st = (st2, i)" by fastforce
      with r [of "svc_name s" "''Service '' @ quoted (svc_name s) @ '' on agent '' @ ag_name a @ '' is running again''"]
      have "store_ok st2" "open_keys_of st2 = open_keys_of st - {svc_key env a (svc_name s)}" by simp_all
      with True r2 show ?thesis
        by (simp add: service_step_def alert_of_def next_alert_def newly_def recovered_def Let_def)
    next
      case no: False
      have "alert_of env a thr s = s" using False no by (auto simp: alert_of_def next_alert_def)
      with False no assms(1) show ?thesis by (auto simp: service_step_def newly_def recovered_def)
    qed
  qed
qed


definition keys_of :: "svc_env \<Rightarrow> agent \<Rightarrow> (svc \<Rightarrow> bool) \<Rightarrow> svc list \<Rightarrow> (string \<times> string) set" where
  "keys_of env a P ss = {svc_key env a (svc_name s) | s. s \<in> set ss \<and> P s}"

lemma keys_of_Nil [simp]: "keys_of env a P [] = {}"
  by (simp add: keys_of_def)

lemma keys_of_Cons [simp]: "keys_of env a P (s # ss) = (if P s then {svc_key env a (svc_name s)} else {}) \<union> keys_of env a P ss"
  by (auto simp: keys_of_def)

lemma keys_of_map:
  assumes "\<And>s. svc_name (f s) = svc_name s" and "\<And>s. s \<in> set ss \<Longrightarrow> P (f s) = Q s"
  shows "keys_of env a P (map f ss) = keys_of env a Q ss"
  using assms(2) by (induction ss) (simp_all add: assms(1))

lemma service_steps_effect:
  assumes "store_ok st" and "\<forall>n. incident_hash (se_sha env) (ag_id a) n \<noteq> []"
    and "inj_on (svc_key env a) (svc_name ` set ss)" and "distinct (map svc_name ss)"
  shows "\<exists>st' msgs'. fold_result (service_step env a thr) ss (out, st, msgs) = Inr (out @ map (alert_of env a thr) ss, st', msgs') \<and>
    store_ok st' \<and> open_keys_of st' = (open_keys_of st \<union> keys_of env a (newly env a thr) ss) - keys_of env a (recovered env a thr) ss"
  using assms
proof (induction ss arbitrary: out st msgs)
  case (Cons s ss)
  obtain st1 msgs1 where s1: "service_step env a thr s (out, st, msgs) = Inr (out @ [alert_of env a thr s], st1, msgs1)" "store_ok st1"
    "open_keys_of st1 = (open_keys_of st \<union> (if newly env a thr s then {svc_key env a (svc_name s)} else {}))
       - (if recovered env a thr s then {svc_key env a (svc_name s)} else {})"
    using service_step_effect [OF Cons.prems(1), of env a s thr out msgs] Cons.prems(2) by auto
  have inj: "inj_on (svc_key env a) (svc_name ` set ss)" using Cons.prems(3) by (rule inj_on_subset) auto
  obtain st2 msgs2 where s2: "fold_result (service_step env a thr) ss (out @ [alert_of env a thr s], st1, msgs1) =
      Inr ((out @ [alert_of env a thr s]) @ map (alert_of env a thr) ss, st2, msgs2)" "store_ok st2"
    "open_keys_of st2 = (open_keys_of st1 \<union> keys_of env a (newly env a thr) ss) - keys_of env a (recovered env a thr) ss"
    using Cons.IH [OF s1(2) Cons.prems(2) inj] Cons.prems(4) by fastforce
  have fresh: "svc_key env a (svc_name s) \<notin> keys_of env a P ss" for P
  proof
    assume "svc_key env a (svc_name s) \<in> keys_of env a P ss"
    then obtain x where x: "x \<in> set ss" "svc_key env a (svc_name s) = svc_key env a (svc_name x)" by (auto simp: keys_of_def)
    with Cons.prems(3) have "svc_name s = svc_name x" by (auto dest: inj_onD)
    with x(1) Cons.prems(4) show False by auto
  qed
  have excl: "\<not> (newly env a thr s \<and> recovered env a thr s)" by (auto simp: newly_def recovered_def)
  have "open_keys_of st2 = (open_keys_of st \<union> keys_of env a (newly env a thr) (s # ss)) - keys_of env a (recovered env a thr) (s # ss)"
    unfolding s2(3) s1(3) keys_of_Cons using fresh excl by auto
  with s1(1) s2 show ?case by simp
qed simp

lemma unwatched_effect:
  assumes "store_ok st"
  shows "\<exists>st' msgs'. fold_result (unwatched_step env a names) (map (JDict \<circ> svc_fields) ss) (st, msgs) = Inr (st', msgs') \<and> store_ok st' \<and>
    open_keys_of st' = open_keys_of st - keys_of env a (\<lambda>s. svc_alerted s \<and> svc_name s \<notin> set names) ss"
  using assms
proof (induction ss arbitrary: st msgs)
  case (Cons s ss)
  let ?gone = "svc_alerted s \<and> svc_name s \<notin> set names"
  have f: "dget_or (svc_fields s) ''alerted'' JNull = JBool (svc_alerted s)" "dget (svc_fields s) ''name'' = Some (JStr (svc_name s))"
    by (simp_all add: svc_fields_def dget_or_def dget_def)
  obtain st1 msgs1 where r: "resolve_unwatched env a (svc_name s) (st, msgs) = (st1, msgs1)" by fastforce
  then have "store_ok st1" "open_keys_of st1 = open_keys_of st - {svc_key env a (svc_name s)}"
    using resolve_matches [OF Cons.prems] by (auto simp: resolve_unwatched_def resolve_service_def Let_def)
  moreover have "unwatched_step env a names (JDict (svc_fields s)) (st, msgs) = Inr (if ?gone then (st1, msgs1) else (st, msgs))"
    using r by (simp add: unwatched_step_def f)
  ultimately have "\<exists>st1 msgs1. unwatched_step env a names (JDict (svc_fields s)) (st, msgs) = Inr (st1, msgs1) \<and> store_ok st1 \<and>
      open_keys_of st1 = open_keys_of st - (if ?gone then {svc_key env a (svc_name s)} else {})"
    using Cons.prems by auto
  then obtain st1 msgs1 where s1: "unwatched_step env a names (JDict (svc_fields s)) (st, msgs) = Inr (st1, msgs1)" "store_ok st1"
      "open_keys_of st1 = open_keys_of st - (if ?gone then {svc_key env a (svc_name s)} else {})" by blast
  from Cons.IH [OF s1(2), of msgs1] s1 show ?case by (auto simp: Un_Diff Diff_Un)
qed simp

text \<open>The entry of one watched service before a report: its streak and whether an incident was raised for it.\<close>

definition before :: "svc list \<Rightarrow> string \<Rightarrow> int \<times> bool" where
  "before ss n = (case find (\<lambda>s. svc_name s = n) ss of None \<Rightarrow> (0, False) | Some s \<Rightarrow> (svc_fail s, svc_alerted s))"

definition report_ok :: "json \<Rightarrow> bool" where
  "report_ok reported \<longleftrightarrow> (\<forall>n r s. find_report (index_reported reported) n = Some r \<longrightarrow> dget r ''start_type'' = Some (JStr s) \<longrightarrow> text_ok s)"

lemma merge_one_fields:
  assumes "distinct (map svc_name ss)"
  shows "svc_name (merge_one (foldl prev_item [] (map (JDict \<circ> svc_fields) ss)) bn now n) = n"
    and "svc_state (merge_one (foldl prev_item [] (map (JDict \<circ> svc_fields) ss)) bn now n) = reported_state (find_report bn n)"
    and "svc_fail (merge_one (foldl prev_item [] (map (JDict \<circ> svc_fields) ss)) bn now n) =
      next_count (reported_state (find_report bn n)) (fst (before ss n))"
    and "svc_alerted (merge_one (foldl prev_item [] (map (JDict \<circ> svc_fields) ss)) bn now n) = snd (before ss n)"
  using prev_index [OF assms, of "[]" n]
  by (auto simp: merge_one_def Let_def before_def next_count_def FAILING_STATES_def dget_or_def [of _ n] prev_count_def split: option.split)
     (auto simp: svc_fields_def dget_or_def dget_def)

lemma reported_state_text: "text_ok (reported_state rep)"
  by (rule ascii_text_ok) (auto simp: reported_state_def SERVICE_STATES_def split: option.split json.split)

lemma merge_one_ok:
  assumes "svcs_ok ss" and "report_ok reported" and "text_ok n"
  shows "\<forall>s. s = merge_one (foldl prev_item [] (map (JDict \<circ> svc_fields) ss)) (index_reported reported) now n \<longrightarrow>
    text_ok (svc_name s) \<and> text_ok (svc_state s) \<and> plain_json (svc_start s) \<and> plain_json (svc_since s)"
proof -
  let ?prev = "dget_or (foldl prev_item [] (map (JDict \<circ> svc_fields) ss)) n []"
  have "?prev = [] \<or> (\<exists>s \<in> set ss. ?prev = svc_fields s)"
    using prev_index [of ss "[]" n] assms(1) by (auto simp: svcs_ok_def dget_or_def find_Some_iff split: option.split)
  then have "plain_json (dget_or ?prev ''start_type'' JNull) \<and> plain_json (dget_or ?prev ''since'' JNull)"
    using assms(1) by (auto simp: svcs_ok_def svc_fields_def dget_or_def dget_def)
  moreover have "plain_json (merge_start rep ?prev)" if "rep = find_report (index_reported reported) n" "plain_json (dget_or ?prev ''start_type'' JNull)" for rep
    using assms(2) that by (auto simp: merge_start_def report_ok_def dget_or_def split: option.split json.split)
  ultimately show ?thesis
    using assms(3) by (simp add: merge_one_def Let_def reported_state_text isoformat_text)
qed

text \<open>What one heartbeat does. For an agent whose stored text is what an earlier report wrote, the step never
  raises and writes a text that the next step reads back as exactly one entry per watched service:
  its streak (reset by "running", extended by "stopped" and "not_found", held otherwise) and its alert
  flag. The open incidents afterwards are those before, plus the services whose streak reached the
  threshold outside maintenance and were not alerted yet, minus the alerted services that run again or
  are no longer watched.\<close>

theorem service_report_refines:
  assumes "stored (se_frepr env) a ss" and "store_ok st" and "report_ok reported"
    and "distinct (watched_list a)" and "\<forall>n \<in> set (watched_list a). text_ok n"
    and "\<forall>n. incident_hash (se_sha env) (ag_id a) n \<noteq> []"
    and "inj_on (incident_hash (se_sha env) (ag_id a)) (set (watched_list a) \<union> svc_name ` set ss)"
  shows "\<exists>a' st' msgs ss'. apply_service_report env reported a st = Inr (a', st', msgs) \<and> stored (se_frepr env) a' ss' \<and> store_ok st' \<and>
    map svc_name ss' = watched_list a \<and>
    (\<forall>s \<in> set ss'. svc_state s = reported_state (find_report (index_reported reported) (svc_name s)) \<and>
       svc_fail s = next_count (svc_state s) (fst (before ss (svc_name s))) \<and>
       svc_alerted s = next_alert (fail_threshold (se_setting env)) (host_in_maintenance (se_hosts env) a) (svc_state s) (svc_fail s)
         (snd (before ss (svc_name s)))) \<and>
    open_keys_of st' =
      (open_keys_of st \<union> keys_of env a (\<lambda>s. svc_alerted s \<and> \<not> snd (before ss (svc_name s))) ss')
      - keys_of env a (\<lambda>s. \<not> svc_alerted s \<and> snd (before ss (svc_name s))) ss'
      - keys_of env a (\<lambda>s. svc_alerted s \<and> svc_name s \<notin> set (watched_list a)) ss"
proof -
  let ?W = "watched_list a" and ?bn = "index_reported reported" and ?thr = "fail_threshold (se_setting env)"
  let ?prev = "foldl prev_item [] (map (JDict \<circ> svc_fields) ss)"
  define ms where "ms = map (merge_one ?prev ?bn (se_now env)) ?W"
  have ok: "svcs_ok ss" "distinct (map svc_name ss)" using assms(1) by (simp_all add: stored_def svcs_ok_def)
  note mf = merge_one_fields [OF ok(2), of ?bn "se_now env"]
  have names: "map svc_name ms = ?W" by (simp add: ms_def map_idI mf(1))
  have merged: "merge_report (load_states a) ?W reported (se_now env) = Inr ms"
    by (simp add: merge_report_def load_stored [OF assms(1)] ms_def)
  let ?al = "alert_of env a ?thr"
  define ss' where "ss' = map ?al ms"
  have al: "svc_name (?al s) = svc_name s" "svc_state (?al s) = svc_state s" "svc_fail (?al s) = svc_fail s"
    "svc_start (?al s) = svc_start s" "svc_since (?al s) = svc_since s" for s by (simp_all add: alert_of_def)
  have inj: "inj_on (svc_key env a) (svc_name ` set ms)"
    using assms(7) names by (intro inj_onI) (auto dest: inj_onD simp: image_set simp del: set_map)
  have thr: "(if ms \<noteq> [] then ?thr else DEFAULT_FAIL_REPORTS) = ?thr \<or> ms = []" by simp
  obtain st1 m1 where f1: "fold_result (service_step env a ?thr) ms ([], st, []) = Inr (ss', st1, m1)" "store_ok st1"
    "open_keys_of st1 = (open_keys_of st \<union> keys_of env a (newly env a ?thr) ms) - keys_of env a (recovered env a ?thr) ms"
    using service_steps_effect [OF assms(2,6) inj, of ?thr "[]" "[]"] names assms(4) by (auto simp: ss'_def)
  obtain st2 m2 where f2: "fold_result (unwatched_step env a (map svc_name ss')) (map (JDict \<circ> svc_fields) ss) (st1, m1) = Inr (st2, m2)"
    "store_ok st2" "open_keys_of st2 = open_keys_of st1 - keys_of env a (\<lambda>s. svc_alerted s \<and> svc_name s \<notin> set (map svc_name ss')) ss"
    using unwatched_effect [OF f1(2), of env a "map svc_name ss'" ss m1] by blast
  have names': "map svc_name ss' = ?W" using names by (simp add: ss'_def comp_def al)
  let ?a' = "a\<lparr>service_states := Some (dumps (se_frepr env) (states_json (se_now env) ss'))\<rparr>"
  have run: "apply_service_report env reported a st = Inr (?a', st2, m2)"
    using merged f1(1) f2(1) thr load_stored [OF assms(1)]
    by (cases "ms = []") (simp_all add: apply_service_report_def Let_def ss'_def)
  have "svcs_ok ss'"
    unfolding svcs_ok_def names'
    using assms(4,5) merge_one_ok [OF ok(1) assms(3)] by (auto simp: ss'_def ms_def al)
  then have st': "stored (se_frepr env) ?a' ss'" by (auto simp: stored_def)
  have spec: "svc_state s = reported_state (find_report ?bn (svc_name s)) \<and> svc_fail s = next_count (svc_state s) (fst (before ss (svc_name s))) \<and>
       svc_alerted s = next_alert ?thr (host_in_maintenance (se_hosts env) a) (svc_state s) (svc_fail s) (snd (before ss (svc_name s)))"
    if "s \<in> set ss'" for s using that by (auto simp: ss'_def ms_def al mf) (simp_all add: alert_of_def mf)
  have prior: "svc_alerted s = snd (before ss (svc_name s))" if "s \<in> set ms" for s using that by (auto simp: ms_def mf)
  have k1: "keys_of env a (\<lambda>s. svc_alerted s \<and> \<not> snd (before ss (svc_name s))) ss' = keys_of env a (newly env a ?thr) ms"
    unfolding ss'_def by (rule keys_of_map) (simp_all add: al(1) newly_def prior)
  have k2: "keys_of env a (\<lambda>s. \<not> svc_alerted s \<and> snd (before ss (svc_name s))) ss' = keys_of env a (recovered env a ?thr) ms"
    unfolding ss'_def by (rule keys_of_map) (simp_all add: al(1) recovered_def prior)
  show ?thesis
    using run st' f2(2,3) f1(3) names' spec k1 k2 by (intro exI conjI) auto
qed

definition demo_agent :: agent where
  "demo_agent = \<lparr>ag_id = 5, ag_name = ''web'', ag_hostname = Some ''web01'',
     watched_services = Some ([CHR ''['', CHR 0x22] @ ''nginx'' @ [CHR 0x22, CHR '']'']), service_states = None\<rparr>"

definition demo_svc_env :: svc_env where
  "demo_svc_env = \<lparr>se_now = 0, se_sha = (\<lambda>_. ''k''), se_frepr = fmt_g, se_hosts = [], se_setting = Some ''1''\<rparr>"

definition demo_report :: json where
  "demo_report = JList [JDict [(''name'', JStr ''nginx''), (''state'', JStr ''stopped'')]]"

theorem service_report_refines_witness:
  "\<exists>a' st' msgs. apply_service_report demo_svc_env demo_report demo_agent (empty_store 1) = Inr (a', st', msgs) \<and>
     (RULE, ''k'') \<in> open_keys_of st'"
proof -
  have w: "watched_list demo_agent = [''nginx'']" by code_simp
  have r: "reported_state (find_report (index_reported demo_report) ''nginx'') = ''stopped''" by code_simp
  have fr: "find_report (index_reported demo_report) n = Some e \<Longrightarrow> dget e ''start_type'' = None" for n e
    by (auto simp: find_report_def index_reported_def demo_report_def index_item_def setdefault_def dget_def split: if_splits)
  have thr: "fail_threshold (Some ''1'') = 1" by code_simp
  have pre: "stored (se_frepr demo_svc_env) demo_agent []" "report_ok demo_report"
    by (simp_all add: stored_def svcs_ok_def demo_agent_def report_ok_def fr)
  have hyp: "distinct (watched_list demo_agent)" "\<forall>n \<in> set (watched_list demo_agent). text_ok n"
    "\<forall>n. incident_hash (se_sha demo_svc_env) (ag_id demo_agent) n \<noteq> []"
    "inj_on (incident_hash (se_sha demo_svc_env) (ag_id demo_agent)) (set (watched_list demo_agent) \<union> svc_name ` set [])"
    by (simp_all add: w ascii_text_ok demo_svc_env_def incident_hash_def)
  obtain a' st' msgs ss' where
    "apply_service_report demo_svc_env demo_report demo_agent (empty_store 1) = Inr (a', st', msgs)" and ss': "map svc_name ss' = [''nginx'']"
    and spec: "\<forall>s \<in> set ss'. svc_state s = reported_state (find_report (index_reported demo_report) (svc_name s)) \<and>
       svc_fail s = next_count (svc_state s) (fst (before [] (svc_name s))) \<and>
       svc_alerted s = next_alert (fail_threshold (se_setting demo_svc_env)) (host_in_maintenance (se_hosts demo_svc_env) demo_agent)
         (svc_state s) (svc_fail s) (snd (before [] (svc_name s)))"
    and k: "open_keys_of st' = (open_keys_of (empty_store 1) \<union> keys_of demo_svc_env demo_agent (\<lambda>s. svc_alerted s \<and> \<not> snd (before [] (svc_name s))) ss')
      - keys_of demo_svc_env demo_agent (\<lambda>s. \<not> svc_alerted s \<and> snd (before [] (svc_name s))) ss'
      - keys_of demo_svc_env demo_agent (\<lambda>s. svc_alerted s \<and> svc_name s \<notin> set [''nginx'']) []"
    using service_report_refines [OF pre(1) store_ok_empty [of 1] pre(2) hyp, unfolded w] by (elim exE conjE) (rule that)
  moreover obtain s where s: "ss' = [s]" "svc_name s = ''nginx''" using ss' by (cases ss'; cases "tl ss'") auto
  moreover have "svc_state s = ''stopped''" "svc_fail s = 1" "svc_alerted s"
    using spec s r by (simp_all add: before_def next_count_def next_alert_def demo_svc_env_def thr host_in_maintenance_def)
  ultimately show ?thesis by (auto simp: before_def demo_svc_env_def incident_hash_def)
qed

section \<open>Watch lists\<close>

lemma valid_name_text: "is_valid_service_name n \<Longrightarrow> text_ok n"
proof (rule ascii_text_ok, rule ballI)
  fix c assume v: "is_valid_service_name n" and c: "c \<in> set n"
  have nc: "(of_char x :: nat) < 128" if "name_char x" for x
    using that by (auto simp: name_char_def is_digit_def is_upper_def is_lower_def)
  show "(of_char c :: nat) < 128"
  proof (cases "last n = CHR 0x0A")
    case True
    have "n = butlast n @ [last n]" using v by (simp add: is_valid_service_name_def)
    with c True have "c \<in> set (butlast n) \<or> c = CHR 0x0A" by (metis Un_iff set_ConsD set_append empty_iff empty_set)
    with v True nc show ?thesis by (auto simp: is_valid_service_name_def name_re_def Let_def list_all_iff)
  next
    case False
    with v c nc show ?thesis by (auto simp: is_valid_service_name_def name_re_def Let_def list_all_iff)
  qed
qed

lemma watch_item_ok:
  "distinct out \<and> list_all is_valid_service_name out \<Longrightarrow> watch_item item out = Inr out' \<Longrightarrow> distinct out' \<and> list_all is_valid_service_name out'"
  by (cases item) (auto simp: watch_item_def Let_def split: if_splits)

lemma normalize_ok:
  assumes "normalize_watch_list raw = Inr names"
  shows "length names \<le> 50 \<and> distinct names \<and> list_all is_valid_service_name names"
proof (cases raw)
  case (JList items)
  with assms have f: "fold_result watch_item items [] = Inr names" and l: "length names \<le> 50"
    by (auto simp: normalize_watch_list_def MAX_WATCHED_SERVICES_def bind_result_Inr_iff split: if_splits)
  from f have "distinct names \<and> list_all is_valid_service_name names"
    by (rule fold_result_invariant [where P = "\<lambda>out. distinct out \<and> list_all is_valid_service_name out"])
       (simp, rule watch_item_ok)
  with l show ?thesis by blast
qed (use assms in \<open>simp_all add: normalize_watch_list_def\<close>)

lemma stored_names: "list_all is_valid_service_name xs \<Longrightarrow> concat (map name_item (map JStr xs)) = xs"
  by (induction xs) (simp_all add: is_valid_service_name_def)

text \<open>C34. A watch list that the API accepts is well formed, and it survives storage: at most fifty distinct, valid
  names, and reading the stored column back gives exactly the list.\<close>

theorem watch_list_wf:
  assumes "normalize_watch_list raw = Inr names"
  shows "length names \<le> 50 \<and> distinct names \<and> list_all is_valid_service_name names \<and>
    watched_list (a\<lparr>watched_services := store_watch_list frepr names\<rparr>) = names"
proof -
  note ok = normalize_ok [OF assms]
  have "watched_list (a\<lparr>watched_services := store_watch_list frepr names\<rparr>) = names"
  proof (cases "names = []")
    case True
    then show ?thesis by (simp add: watched_list_def store_watch_list_def opt_str_def)
  next
    case False
    have "plain_json (JList (map JStr names))" using ok valid_name_text by (simp add: list_all_iff)
    from loads_dumps [OF this] False ok stored_names [of names] show ?thesis
      by (simp add: watched_list_def store_watch_list_def opt_str_def)
  qed
  with ok show ?thesis by blast
qed

theorem watch_list_wf_witness:
  "watched_list (demo_agent\<lparr>watched_services := store_watch_list fmt_g [''nginx'']\<rparr>) = [''nginx'']"
proof -
  have "normalize_watch_list (JList [JStr '' nginx '', JStr ''nginx'']) = Inr [''nginx'']" by code_simp
  from watch_list_wf [OF this, of fmt_g demo_agent] show ?thesis by simp
qed

end
