(* ===== verification/Rate_Limit.thy ===== *)
theory Rate_Limit
  imports Interfaces
begin

text \<open>
  The rate limiter (\<^verbatim>\<open>backend/ratelimit.py\<close>) on the sliding-window counters of
  \<^verbatim>\<open>backend/services/shared_state.py\<close>. The in-memory backend is modelled completely, with its
  periodic cleanup; Redis is the argument \<open>redis\<close> of the public operations: nothing where it is not
  configured, or what the operation returned or raised. The clock is an argument, in seconds.
\<close>

section \<open>In-memory windows\<close>

record windows =
  w_hits :: "(string, rat list) dict"
  last_cleanup :: rat

definition no_windows :: windows where
  "no_windows = \<lparr>w_hits = [], last_cleanup = 0\<rparr>"

definition stale_key :: "rat \<Rightarrow> rat list \<Rightarrow> bool" where
  "stale_key cutoff v \<longleftrightarrow> v = [] \<or> last v < cutoff"

definition cleanup_locked :: "rat \<Rightarrow> rat \<Rightarrow> windows \<Rightarrow> windows" where
  "cleanup_locked now default_window w =
     w\<lparr>last_cleanup := now, w_hits := filter (\<lambda>(k, v). \<not> stale_key (now - default_window * 2) v) (w_hits w)\<rparr>"

definition in_window :: "rat \<Rightarrow> rat \<Rightarrow> rat list \<Rightarrow> rat list" where
  "in_window now window v = filter (\<lambda>t. t > now - window) v"

definition mem_incr :: "rat \<Rightarrow> string \<Rightarrow> rat \<Rightarrow> windows \<Rightarrow> windows \<times> nat" where
  "mem_incr now key window w =
     (let w1 = (if now - last_cleanup w > 300 then cleanup_locked now window w else w);
          hits = in_window now window (dget_or (w_hits w1) key []) @ [now]
      in (w1\<lparr>w_hits := dset (w_hits w1) key hits\<rparr>, length hits))"

definition mem_count :: "rat \<Rightarrow> string \<Rightarrow> rat \<Rightarrow> windows \<Rightarrow> windows \<times> nat" where
  "mem_count now key window w =
     (let hits = in_window now window (dget_or (w_hits w) key []) in
      (if dget (w_hits w) key \<noteq> None then w\<lparr>w_hits := dset (w_hits w) key hits\<rparr> else w, length hits))"

section \<open>Public operations\<close>

text \<open>Redis first, when it is configured; any error falls back to memory.\<close>

definition incr_window :: "nat result option \<Rightarrow> rat \<Rightarrow> string \<Rightarrow> rat \<Rightarrow> windows \<Rightarrow> windows \<times> nat" where
  "incr_window redis now key window w =
     (case redis of Some (Inr n) \<Rightarrow> (w, n) | _ \<Rightarrow> mem_incr now key window w)"

definition window_count :: "nat result option \<Rightarrow> rat \<Rightarrow> string \<Rightarrow> rat \<Rightarrow> windows \<Rightarrow> windows \<times> nat" where
  "window_count redis now key window w =
     (case redis of Some (Inr n) \<Rightarrow> (w, n) | _ \<Rightarrow> mem_count now key window w)"

text \<open>The key of the fixed window that stands for the sliding one in Redis.\<close>

definition redis_key :: "rat \<Rightarrow> string \<Rightarrow> rat \<Rightarrow> string" where
  "redis_key now key window = ''sw:'' @ key @ '':'' @ show_int \<lfloor>now / window\<rfloor>"

text \<open>
  \<open>is_limited\<close>: check, then record; a rejected attempt is not recorded. The arguments are what Redis
  answered to the count and to the increment.
\<close>

definition is_limited ::
    "nat result option \<Rightarrow> nat result option \<Rightarrow> rat \<Rightarrow> string \<Rightarrow> nat \<Rightarrow> rat \<Rightarrow> windows \<Rightarrow> windows \<times> bool" where
  "is_limited r1 r2 now key max_requests window w =
     (case window_count r1 now key window w of (w1, n) \<Rightarrow>
        (if n \<ge> max_requests then (w1, True)
         else (fst (incr_window r2 now key window w1), False)))"

definition FAILED_AUTH_MAX_ATTEMPTS :: nat where "FAILED_AUTH_MAX_ATTEMPTS = 20"
definition FAILED_AUTH_WINDOW_SECONDS :: rat where "FAILED_AUTH_WINDOW_SECONDS = 300"

definition get_client_ip :: "string option \<Rightarrow> string" where
  "get_client_ip client = (case client of None \<Rightarrow> ''unknown'' | Some h \<Rightarrow> h)"

definition failed_auth_throttled :: "rat \<Rightarrow> string option \<Rightarrow> windows \<Rightarrow> windows \<times> bool" where
  "failed_auth_throttled now client w =
     is_limited None None now (''failed_auth:'' @ get_client_ip client) FAILED_AUTH_MAX_ATTEMPTS FAILED_AUTH_WINDOW_SECONDS w"

text \<open>The decorator: the route runs, or answers 429.\<close>

definition rate_limit :: "rat \<Rightarrow> string \<Rightarrow> string option \<Rightarrow> nat \<Rightarrow> rat \<Rightarrow> windows \<Rightarrow> windows \<times> bool" where
  "rate_limit now route client max_requests window w =
     (case window_count None now (route @ '':'' @ get_client_ip client) window w of (w1, n) \<Rightarrow>
        (if n \<ge> max_requests then (w1, True)
         else (fst (incr_window None now (route @ '':'' @ get_client_ip client) window w1), False)))"

lemma rate_limit_is_limited:
  "rate_limit now route client m window w = is_limited None None now (route @ '':'' @ get_client_ip client) m window w"
  unfolding rate_limit_def is_limited_def ..

section \<open>Runs\<close>

text \<open>One call of the limiter: when, for which key, with which limit and window.\<close>

record call =
  c_now :: rat
  c_key :: string
  c_max :: nat
  c_window :: rat

definition serve :: "call \<Rightarrow> windows \<times> (string \<times> rat) list \<Rightarrow> windows \<times> (string \<times> rat) list" where
  "serve c s = (case s of (w, admitted) \<Rightarrow>
     (case is_limited None None (c_now c) (c_key c) (c_max c) (c_window c) w of (w', limited) \<Rightarrow>
        (w', if limited then admitted else admitted @ [(c_key c, c_now c)])))"

definition serve_all :: "call list \<Rightarrow> windows \<times> (string \<times> rat) list" where
  "serve_all cs = fold serve cs (no_windows, [])"

definition admitted_times :: "string \<Rightarrow> (string \<times> rat) list \<Rightarrow> rat list" where
  "admitted_times key lg = map snd (filter (\<lambda>(k, _). k = key) lg)"

text \<open>
  The limiter remembers: the in-memory list of a key holds every admission of the key in the window,
  and it is in order of time.
\<close>

definition hits_of :: "windows \<Rightarrow> string \<Rightarrow> rat list" where
  "hits_of w key = dget_or (w_hits w) key []"

definition keeps :: "rat \<Rightarrow> rat \<Rightarrow> rat list \<Rightarrow> rat list \<Rightarrow> bool" where
  "keeps window now v adm \<longleftrightarrow> in_window now window v = in_window now window adm \<and> sorted v \<and> (\<forall>t \<in> set v \<union> set adm. t \<le> now)"

definition remembers :: "string \<Rightarrow> rat \<Rightarrow> rat \<Rightarrow> windows \<times> (string \<times> rat) list \<Rightarrow> bool" where
  "remembers key window now s \<longleftrightarrow>
     dict_ok (w_hits (fst s)) \<and> keeps window now (hits_of (fst s) key) (admitted_times key (snd s))"

lemma in_window_later: "now \<le> now' \<Longrightarrow> in_window now' w (in_window now w v) = in_window now' w v"
  by (auto simp: in_window_def intro: filter_cong)

lemma in_window_append: "in_window now w (v @ v') = in_window now w v @ in_window now w v'"
  by (simp add: in_window_def)

lemma set_in_window: "set (in_window now w v) \<subseteq> set v"
  by (auto simp: in_window_def)

lemma sorted_in_window: "sorted v \<Longrightarrow> sorted (in_window now w v)"
  by (simp add: in_window_def sorted_wrt_filter)

lemma sorted_le_last: "sorted v \<Longrightarrow> t \<in> set v \<Longrightarrow> t \<le> last v"
  by (induction v) auto

lemma stale_empty:
  assumes "sorted v" and "stale_key (now - w' * 2) v" and "w \<le> 2 * w'"
  shows "in_window now w v = []"
proof -
  have "\<not> now - w < t" if "t \<in> set v" for t
    using sorted_le_last [OF assms(1) that] assms(2,3) that by (auto simp: stale_key_def)
  then show ?thesis by (simp add: in_window_def filter_empty_conv)
qed

lemma keeps_later:
  assumes "keeps w now v adm" and "now \<le> now'"
  shows "keeps w now' v adm"
proof -
  have "in_window now' w v = in_window now' w (in_window now w v)" using in_window_later [OF assms(2)] by simp
  also have "\<dots> = in_window now' w adm" using assms(1) in_window_later [OF assms(2)] by (simp add: keeps_def)
  finally show ?thesis using assms unfolding keeps_def by (metis order_trans)
qed

lemma keeps_window: "keeps w now v adm \<Longrightarrow> keeps w now (in_window now w v) adm"
  using set_in_window [of now w v] sorted_in_window [of v now w] in_window_later [OF order_refl, of now w v]
  unfolding keeps_def by (intro conjI) (metis, blast, blast)

lemma keeps_stale: "keeps w now v adm \<Longrightarrow> stale_key (now - w' * 2) v \<Longrightarrow> w \<le> 2 * w' \<Longrightarrow> keeps w now [] adm"
  using stale_empty [of v now w' w] by (auto simp: keeps_def) (simp_all add: in_window_def)

lemma keeps_snoc: "keeps w now v adm \<Longrightarrow> keeps w now (v @ [now]) (adm @ [now])"
  by (auto simp: keeps_def in_window_append sorted_append)

lemma hits_cleanup:
  "dict_ok (w_hits ws) \<Longrightarrow> hits_of (cleanup_locked now w' ws) key = (if stale_key (now - w' * 2) (hits_of ws key) then [] else hits_of ws key)"
  by (simp add: hits_of_def cleanup_locked_def dget_or_def dget_filter_pair stale_key_def split: option.split)

lemma hits_set: "hits_of (ws\<lparr>w_hits := dset (w_hits ws) k v\<rparr>) key = (if key = k then v else hits_of ws key)"
  by (simp add: hits_of_def dict_simps)

lemma hits_count: "hits_of (fst (mem_count now k w' ws)) key = (if key = k then in_window now w' (hits_of ws key) else hits_of ws key)"
proof (cases "dget (w_hits ws) k")
  case None
  then show ?thesis by (simp add: mem_count_def Let_def) (simp add: hits_of_def dget_or_def in_window_def)
next
  case (Some v)
  then show ?thesis by (simp add: mem_count_def Let_def hits_set) (simp add: hits_of_def)
qed

text \<open>Pruning, counting and cleaning up forget nothing that is still in the window.\<close>

lemma later_remembers: "remembers key w now s \<Longrightarrow> now \<le> now' \<Longrightarrow> remembers key w now' s"
  unfolding remembers_def using keeps_later by blast

lemma count_remembers:
  assumes "remembers key w now (ws, lg)" and "key' = key \<Longrightarrow> w' = w"
  shows "remembers key w now (fst (mem_count now key' w' ws), lg)"
proof -
  have "dict_ok (w_hits (fst (mem_count now key' w' ws)))"
    using assms(1) by (auto simp: remembers_def mem_count_def Let_def)
  with assms keeps_window show ?thesis by (auto simp: remembers_def hits_count)
qed

lemma incr_remembers:
  assumes "remembers key w now (ws, lg)" and "key' = key \<Longrightarrow> w' = w" and "w \<le> 2 * w'"
  shows "remembers key w now (fst (mem_incr now key' w' ws), lg @ [(key', now)])"
proof -
  define w1 where "w1 = (if now - last_cleanup ws > 300 then cleanup_locked now w' ws else ws)"
  have d: "dict_ok (w_hits w1)"
    using assms(1) by (simp add: w1_def remembers_def cleanup_locked_def dict_ok_filter)
  have k: "keeps w now (hits_of w1 key) (admitted_times key lg)"
    using assms(1,3) keeps_stale [of w now "hits_of ws key" "admitted_times key lg" w'] by (simp add: w1_def remembers_def hits_cleanup)
  have i: "fst (mem_incr now key' w' ws) = w1\<lparr>w_hits := dset (w_hits w1) key' (in_window now w' (hits_of w1 key') @ [now])\<rparr>"
    unfolding mem_incr_def Let_def w1_def hits_of_def by simp
  have a: "admitted_times key (lg @ [(key', now)]) = admitted_times key lg @ (if key' = key then [now] else [])"
    by (simp add: admitted_times_def)
  show ?thesis
    using d k assms(2) keeps_snoc [OF keeps_window [OF k]]
    by (auto simp: remembers_def i a hits_set)
qed

lemma serve_bound:
  assumes "remembers key w now (ws, lg)" and "length (in_window now w (admitted_times key lg)) \<le> m" and "now \<le> c_now c"
    and "c_key c = key \<Longrightarrow> c_max c = m \<and> c_window c = w" and "w \<le> 2 * c_window c"
  shows "remembers key w (c_now c) (serve c (ws, lg))"
    and "length (in_window (c_now c) w (admitted_times key (snd (serve c (ws, lg))))) \<le> m"
proof -
  let ?n = "c_now c"
  have r0: "remembers key w ?n (ws, lg)" by (rule later_remembers [OF assms(1,3)])
  define ws1 where "ws1 = fst (mem_count ?n (c_key c) (c_window c) ws)"
  have r1: "remembers key w ?n (ws1, lg)" unfolding ws1_def using r0 assms(4) by (intro count_remembers) auto
  have n: "snd (mem_count ?n (c_key c) (c_window c) ws) = length (in_window ?n w (admitted_times key lg))" if "c_key c = key"
    using r0 assms(4) that by (simp add: mem_count_def Let_def remembers_def keeps_def hits_of_def)
  have s: "serve c (ws, lg) = (if snd (mem_count ?n (c_key c) (c_window c) ws) \<ge> c_max c then (ws1, lg)
      else (fst (mem_incr ?n (c_key c) (c_window c) ws1), lg @ [(c_key c, ?n)]))"
    by (simp add: serve_def is_limited_def window_count_def incr_window_def ws1_def split: prod.split)
  show "remembers key w ?n (serve c (ws, lg))"
    unfolding s using r1 incr_remembers [OF r1, of "c_key c" "c_window c"] assms(4,5) by simp
  have le: "length (in_window ?n w (admitted_times key lg)) \<le> m"
  proof -
    have "in_window ?n w (admitted_times key lg) = in_window ?n w (in_window now w (admitted_times key lg))"
      by (rule in_window_later [OF assms(3), symmetric])
    also have "length \<dots> \<le> length (in_window now w (admitted_times key lg))" unfolding in_window_def by (rule length_filter_le)
    finally show ?thesis using assms(2) by simp
  qed
  show "length (in_window ?n w (admitted_times key (snd (serve c (ws, lg))))) \<le> m"
  proof (cases "snd (mem_count ?n (c_key c) (c_window c) ws) \<ge> c_max c \<or> c_key c \<noteq> key")
    case True
    with le show ?thesis by (auto simp: s admitted_times_def)
  next
    case False
    with n assms(4) have "length (in_window ?n w (admitted_times key lg)) < m" by auto
    with False show ?thesis by (simp add: s admitted_times_def in_window_append) (simp add: in_window_def)
  qed
qed

text \<open>The limit holds: whatever the other keys do, at the moment of every call no more than the allowed number of
  requests of a key was admitted within its window, as long as every call's window is at least half of
  the key's window (so that the periodic cleanup, which uses the caller's window, keeps the key).\<close>

theorem rate_limit_bound:
  assumes "sorted (map c_now cs)" and "cs \<noteq> []"
    and "\<forall>c \<in> set cs. (c_key c = key \<longrightarrow> c_max c = m \<and> c_window c = w) \<and> w \<le> 2 * c_window c"
  shows "length (in_window (c_now (last cs)) w (admitted_times key (snd (serve_all cs)))) \<le> m"
proof -
  have "remembers key w (c_now (last cs)) (serve_all cs) \<and>
      length (in_window (c_now (last cs)) w (admitted_times key (snd (serve_all cs)))) \<le> m"
    using assms
  proof (induction cs rule: rev_induct)
    case (snoc c cs)
    obtain ws lg where wl: "serve_all cs = (ws, lg)" by fastforce
    have s: "serve_all (cs @ [c]) = serve c (ws, lg)" using wl by (simp add: serve_all_def)
    have c: "c_key c = key \<Longrightarrow> c_max c = m \<and> c_window c = w" "w \<le> 2 * c_window c" using snoc.prems(3) by auto
    show ?case
    proof (cases "cs = []")
      case True
      then have "remembers key w (c_now c) (ws, lg)" "length (in_window (c_now c) w (admitted_times key lg)) \<le> m"
        using wl by (auto simp: serve_all_def no_windows_def remembers_def keeps_def hits_of_def admitted_times_def in_window_def dict_ok_def dkeys_def dget_or_def)
      from serve_bound [OF this order_refl c] s show ?thesis by simp
    next
      case False
      then have "c_now (last cs) \<le> c_now c" using snoc.prems(1) by (auto simp: sorted_append)
      from serve_bound [OF _ _ this c, of key ws lg] snoc False wl s show ?thesis by (auto simp: sorted_append)
    qed
  qed simp
  then show ?thesis by blast
qed

theorem rate_limit_bound_witness:
  "length (in_window 10 60 (admitted_times ''k'' (snd (serve_all
     [\<lparr>c_now = 0, c_key = ''k'', c_max = 1, c_window = 60\<rparr>, \<lparr>c_now = 10, c_key = ''k'', c_max = 1, c_window = 60\<rparr>])))) \<le> 1"
  using rate_limit_bound [of "[\<lparr>c_now = 0, c_key = ''k'', c_max = 1, c_window = 60\<rparr>, \<lparr>c_now = 10, c_key = ''k'', c_max = 1, c_window = 60\<rparr>]" "''k''" 1 60]
  by simp

text \<open>Without that condition the limit does not hold: the cleanup uses the window of whichever call triggers it, so
  a request of a route with a one-minute window forgets the failed logins of an address whose last
  attempt is two minutes old, and the address gets twenty new attempts within its five-minute window.\<close>

theorem cleanup_forgets_failed_auth:
  "let attempt = (\<lambda>t. \<lparr>c_now = t, c_key = ''failed_auth:10.0.0.1'', c_max = FAILED_AUTH_MAX_ATTEMPTS, c_window = FAILED_AUTH_WINDOW_SECONDS\<rparr>);
       other = (\<lambda>t. \<lparr>c_now = t, c_key = ''routers.auth.login:10.0.0.2'', c_max = 10, c_window = 60\<rparr>);
       run = serve_all ([other 1000] @ replicate 21 (attempt 1180) @ [other 1301] @ replicate 21 (attempt 1302))
   in length (in_window 1302 FAILED_AUTH_WINDOW_SECONDS (admitted_times ''failed_auth:10.0.0.1'' (snd run))) = 2 * FAILED_AUTH_MAX_ATTEMPTS"
  by code_simp

end
