(* ===== verification/Notifications.thy ===== *)
theory Notifications
  imports Interfaces Json_Print
begin

text \<open>
  Notification dispatch (\<^verbatim>\<open>backend/notifications.py\<close>) and the Teams, Slack and ntfy channels
  (\<^verbatim>\<open>backend/notification_channels.py\<close>): the cooldown per tenant and title, severity filters,
  payloads, retries, redaction of errors, secrets that do not decrypt, and which channels a
  notification is sent to and logged for. Deliveries are values of the datatype \<open>request\<close>; what the
  network answers and the tenant cipher are parameters. A settings row is always present or takes the
  default of the call.
\<close>

section \<open>Cooldown\<close>

definition COOLDOWN_SECONDS :: rat where "COOLDOWN_SECONDS = 300"

definition is_rate_limited ::
    "rat \<Rightarrow> string \<Rightarrow> int \<Rightarrow> (int \<times> string, rat) dict \<Rightarrow> (int \<times> string, rat) dict \<times> bool" where
  "is_rate_limited now title tenant recent =
     (let recent1 = filter (\<lambda>(k, v). \<not> now - v > COOLDOWN_SECONDS * 2) recent;
          key = (tenant, str_lower (strip title)) in
      case dget recent1 key of
        Some t \<Rightarrow> if now - t < COOLDOWN_SECONDS then (recent1, True) else (dset recent1 key now, False)
      | None \<Rightarrow> (dset recent1 key now, False))"

section \<open>Severity\<close>

definition SEVERITY_LEVELS :: "(string, int) dict" where
  "SEVERITY_LEVELS = [(''critical'', 2), (''error'', 3), (''warning'', 4), (''info'', 7), (''all'', 7)]"

definition severity_passes :: "string \<Rightarrow> string \<Rightarrow> bool" where
  "severity_passes severity min_severity \<longleftrightarrow>
     min_severity = [] \<or> min_severity = ''all'' \<or>
     dget_or SEVERITY_LEVELS severity 7 \<le> dget_or SEVERITY_LEVELS min_severity 7"

record style =
  st_emoji :: string
  st_label :: string
  st_container :: string
  st_color :: string
  ntfy_priority :: int
  ntfy_tag :: string

definition SEVERITY_STYLE :: "(string, style) dict" where
  "SEVERITY_STYLE =
     [(''critical'', \<lparr>st_emoji = utf8 0x1F534, st_label = ''CRITICAL'', st_container = ''attention'', st_color = ''Attention'',
         ntfy_priority = 5, ntfy_tag = ''rotating_light''\<rparr>),
      (''error'', \<lparr>st_emoji = utf8 0x1F7E0, st_label = ''ERROR'', st_container = ''attention'', st_color = ''Attention'',
         ntfy_priority = 4, ntfy_tag = ''x''\<rparr>),
      (''warning'', \<lparr>st_emoji = utf8 0x1F7E1, st_label = ''WARNING'', st_container = ''warning'', st_color = ''Warning'',
         ntfy_priority = 4, ntfy_tag = ''warning''\<rparr>),
      (''info'', \<lparr>st_emoji = utf8 0x1F535, st_label = ''INFO'', st_container = ''accent'', st_color = ''Accent'',
         ntfy_priority = 3, ntfy_tag = ''information_source''\<rparr>)]"

definition severity_style :: "string \<Rightarrow> style" where
  "severity_style severity =
     (case dget SEVERITY_STYLE (str_lower severity) of Some s \<Rightarrow> s | None \<Rightarrow> the (dget SEVERITY_STYLE ''info''))"

lemma text_take_ascii: "list_all (\<lambda>c. (of_char c :: nat) < 128) s \<Longrightarrow> text_take n s = take n s"
proof (induction s arbitrary: n)
  case (Cons c s)
  then show ?case by (cases n) (auto simp: is_cont_def text_take.simps)
qed simp

definition truncate_text :: "string \<Rightarrow> nat \<Rightarrow> string" where
  "truncate_text text limit = (if text_len text \<le> limit then text else text_take (limit - 1) text @ utf8 0x2026)"

definition rstrip_slash :: "string \<Rightarrow> string" where
  "rstrip_slash s = rev (dropWhile (\<lambda>c. c = CHR ''/'') (rev s))"

definition build_link :: "string \<Rightarrow> string option \<Rightarrow> string option" where
  "build_link public_url link_path =
     (let base = rstrip_slash (strip public_url) in
      if base = [] then None
      else (case link_path of
              None \<Rightarrow> Some base
            | Some p \<Rightarrow> if p = [] then Some base else Some (base @ ''/'' @ dropWhile (\<lambda>c. c = CHR ''/'') p)))"

section \<open>Payloads\<close>

text \<open>\<^verbatim>\<open>re.sub(r"\n+", "\n\n", text)\<close>.\<close>

fun blank_lines :: "bool \<Rightarrow> string \<Rightarrow> string" where
  "blank_lines prev [] = []"
| "blank_lines prev (c # s) =
     (if c = CHR 0x0A then (if prev then [] else [c, c]) @ blank_lines True s else c # blank_lines False s)"

definition card_line :: "string \<Rightarrow> string \<Rightarrow> string \<Rightarrow> string \<Rightarrow> json" where
  "card_line text weight sz colour =
     JDict [(''type'', JStr ''TextBlock''), (''text'', JStr text), (''weight'', JStr weight), (''size'', JStr sz), (''color'', JStr colour)]"

definition teams_body :: "style \<Rightarrow> string \<Rightarrow> string \<Rightarrow> json" where
  "teams_body s title message = JList
     [JDict [(''type'', JStr ''Container''), (''style'', JStr (st_container s)), (''bleed'', JBool True),
        (''items'', JList [card_line (st_emoji s @ '' '' @ st_label s) ''Bolder'' ''Small'' (st_color s)])],
      JDict [(''type'', JStr ''TextBlock''), (''text'', JStr (truncate_text title 400)), (''weight'', JStr ''Bolder''),
        (''size'', JStr ''Medium''), (''wrap'', JBool True)],
      JDict [(''type'', JStr ''TextBlock''), (''text'', JStr (blank_lines False (truncate_text message 3000))), (''wrap'', JBool True)],
      JDict [(''type'', JStr ''TextBlock''), (''text'', JStr ''Nodeglow''), (''isSubtle'', JBool True), (''size'', JStr ''Small''),
        (''spacing'', JStr ''Medium'')]]"

definition opt_list :: "string option \<Rightarrow> (string \<Rightarrow> 'a) \<Rightarrow> 'a list" where
  "opt_list link f = (case link of None \<Rightarrow> [] | Some u \<Rightarrow> if u = [] then [] else [f u])"

definition build_teams_payload :: "string \<Rightarrow> string \<Rightarrow> string \<Rightarrow> string option \<Rightarrow> json" where
  "build_teams_payload title message severity link =
     (let card = JDict ([(''type'', JStr ''AdaptiveCard''), (''$schema'', JStr ''http://adaptivecards.io/schemas/adaptive-card.json''),
            (''version'', JStr ''1.4''), (''msteams'', JDict [(''width'', JStr ''Full'')]),
            (''body'', teams_body (severity_style severity) title message)]
          @ opt_list link (\<lambda>u. (''actions'', JList [JDict [(''type'', JStr ''Action.OpenUrl''), (''title'', JStr ''Open in Nodeglow''), (''url'', JStr u)]])))
      in JDict [(''type'', JStr ''message''), (''attachments'', JList [JDict
           [(''contentType'', JStr ''application/vnd.microsoft.card.adaptive''), (''contentUrl'', JNull), (''content'', card)]])])"

definition slack_escape :: "string \<Rightarrow> string" where
  "slack_escape text = str_replace ''>'' ''&gt;'' (str_replace ''<'' ''&lt;'' (str_replace ''&'' ''&amp;'' text))"

definition or_text :: "string \<Rightarrow> string \<Rightarrow> string" where
  "or_text a b = (if a = [] then b else a)"

definition plain_text :: "string \<Rightarrow> json" where
  "plain_text t = JDict [(''type'', JStr ''plain_text''), (''text'', JStr t), (''emoji'', JBool True)]"

definition mrkdwn :: "string \<Rightarrow> json" where
  "mrkdwn t = JDict [(''type'', JStr ''mrkdwn''), (''text'', JStr t)]"

definition build_slack_payload :: "string \<Rightarrow> string \<Rightarrow> string \<Rightarrow> string option \<Rightarrow> json" where
  "build_slack_payload title message severity link =
     (let s = severity_style severity;
          fallback = st_emoji s @ '' ['' @ st_label s @ ''] '' @ title @ '': '' @ message;
          blocks = [JDict [(''type'', JStr ''header''), (''text'', plain_text (truncate_text title 150))],
              JDict [(''type'', JStr ''section''), (''text'', mrkdwn (or_text (truncate_text (slack_escape message) 3000) '' ''))]]
            @ opt_list link (\<lambda>u. JDict [(''type'', JStr ''actions''), (''elements'', JList [JDict [(''type'', JStr ''button''),
                (''text'', plain_text ''Open in Nodeglow''), (''url'', JStr u)]])])
            @ [JDict [(''type'', JStr ''context''), (''elements'', JList [mrkdwn (st_emoji s @ '' *'' @ st_label s @ ''* '' @ utf8 0xB7 @ '' Nodeglow'')])]]
      in JDict [(''text'', JStr (truncate_text (slack_escape fallback) 3000)), (''blocks'', JList blocks)])"

definition build_ntfy_payload :: "string \<Rightarrow> string \<Rightarrow> string \<Rightarrow> string \<Rightarrow> string option \<Rightarrow> json" where
  "build_ntfy_payload topic title message severity link =
     (let s = severity_style severity;
          tag = (if contains ''resolved'' (str_lower title) then ''white_check_mark'' else ntfy_tag s)
      in JDict ([(''topic'', JStr topic), (''title'', JStr (truncate_text title 250)),
           (''message'', JStr (or_text (truncate_text message 4000) title)), (''priority'', JInt (ntfy_priority s)),
           (''tags'', JList [JStr tag, JStr (str_lower (or_text severity ''info'')), JStr ''nodeglow''])]
         @ opt_list link (\<lambda>u. (''click'', JStr u))))"

section \<open>Transport\<close>

definition b64_char :: "nat \<Rightarrow> char" where
  "b64_char n = char_of (if n < 26 then 65 + n else if n < 52 then 71 + n else if n < 62 then n - 4 else if n = 62 then 43 else 47)"

fun b64encode :: "string \<Rightarrow> string" where
  "b64encode [] = []"
| "b64encode [a] = (let x = of_char a * 65536 :: nat in map b64_char [x div 262144, x div 4096 mod 64] @ ''=='')"
| "b64encode [a, b] = (let x = of_char a * 65536 + of_char b * 256 :: nat in
     map b64_char [x div 262144, x div 4096 mod 64, x div 64 mod 64] @ ''='')"
| "b64encode (a # b # c # s) = (let x = of_char a * 65536 + of_char b * 256 + of_char c :: nat in
     map b64_char [x div 262144, x div 4096 mod 64, x div 64 mod 64, x mod 64] @ b64encode s)"

definition ntfy_auth_header :: "string \<Rightarrow> (string, string) dict" where
  "ntfy_auth_header token =
     (let t = strip token in
      if t = [] then []
      else if CHR '':'' \<in> set t \<and> \<not> startswith t ''tk_'' then [(''Authorization'', ''Basic '' @ b64encode t)]
      else [(''Authorization'', ''Bearer '' @ t)])"

definition redact1 :: "string \<Rightarrow> string \<Rightarrow> string" where
  "redact1 text secret = (if secret = [] then text else str_replace secret ''<redacted>'' text)"

definition redact :: "string \<Rightarrow> string list \<Rightarrow> string" where
  "redact text secrets = foldl redact1 text secrets"

text \<open>What one POST gives: a status with its body text and \<^verbatim>\<open>Retry-After\<close> header, a timeout, or another error of
  the HTTP client with its class and text.\<close>

datatype reply = Response int string "string option" | Timeout | HttpError string string

record net =
  net_safe :: "string \<Rightarrow> bool"
  net_post :: "nat \<Rightarrow> string \<Rightarrow> json \<Rightarrow> (string, string) dict \<Rightarrow> reply"

definition MAX_RETRIES :: nat where "MAX_RETRIES = 2"

text \<open>The attempts of \<open>_post_json\<close>: the error text, or nothing on success. \<open>n\<close> attempts are left.\<close>

fun post_attempts :: "net \<Rightarrow> string \<Rightarrow> json \<Rightarrow> (string, string) dict \<Rightarrow> string \<Rightarrow> nat \<Rightarrow> nat \<Rightarrow> string option" where
  "post_attempts net url payload headers label attempt 0 = None"
| "post_attempts net url payload headers label attempt (Suc n) =
     (case net_post net attempt url payload headers of
        Timeout \<Rightarrow> Some (label @ '': timed out after 10s'')
      | HttpError kind text \<Rightarrow> Some (label @ '': '' @ kind @ '': '' @ redact text [url])
      | Response status body retry \<Rightarrow>
          (if status = 429 \<and> attempt < MAX_RETRIES then post_attempts net url payload headers label (attempt + 1) n
           else if status \<ge> 400 then
             (let b = redact (strip (text_take 200 body)) [url] in
              Some (label @ '': HTTP '' @ show_int status @ (if b = [] then [] else '' '' @ b)))
           else None))"

definition post_json :: "net \<Rightarrow> string \<Rightarrow> json \<Rightarrow> (string, string) dict \<Rightarrow> string \<Rightarrow> string option" where
  "post_json net url payload headers label =
     (if \<not> net_safe net url then Some (label @ '': URL rejected by safety check'')
      else post_attempts net url payload headers label 0 (MAX_RETRIES + 1))"

definition send_teams :: "net \<Rightarrow> string \<Rightarrow> string \<Rightarrow> string \<Rightarrow> string \<Rightarrow> string option \<Rightarrow> string option" where
  "send_teams net url title message severity link = post_json net url (build_teams_payload title message severity link) [] ''Teams''"

definition send_slack :: "net \<Rightarrow> string \<Rightarrow> string \<Rightarrow> string \<Rightarrow> string \<Rightarrow> string option \<Rightarrow> string option" where
  "send_slack net url title message severity link = post_json net url (build_slack_payload title message severity link) [] ''Slack''"

definition DEFAULT_NTFY_SERVER :: string where "DEFAULT_NTFY_SERVER = ''https://ntfy.sh''"

text \<open>\<^verbatim>\<open>NTFY_TOPIC_RE.match\<close>; the anchor \<^verbatim>\<open>$\<close> also matches before a final line break.\<close>

definition topic_ok :: "string \<Rightarrow> bool" where
  "topic_ok s = (let t = (if s \<noteq> [] \<and> last s = CHR 0x0A then butlast s else s) in
     t \<noteq> [] \<and> length t \<le> 64 \<and> list_all (\<lambda>c. is_digit c \<or> is_upper c \<or> is_lower c \<or> c = CHR ''-'' \<or> c = CHR ''_'') t)"

definition send_ntfy :: "net \<Rightarrow> string \<Rightarrow> string \<Rightarrow> string \<Rightarrow> string \<Rightarrow> string \<Rightarrow> string \<Rightarrow> string option \<Rightarrow> string option" where
  "send_ntfy net server topic token title message severity link =
     (if \<not> topic_ok topic then Some ''ntfy: invalid topic''
      else map_option (\<lambda>e. redact e [strip token])
        (post_json net (rstrip_slash (strip (or_text server DEFAULT_NTFY_SERVER)))
           (build_ntfy_payload topic title message severity link) (ntfy_auth_header token) ''ntfy''))"

section \<open>Configuration\<close>

record extra_config =
  public_url :: string
  teams_enabled :: bool
  teams_webhook_url :: string
  teams_min_severity :: string
  slack_enabled :: bool
  slack_webhook_url :: string
  slack_min_severity :: string
  ntfy_enabled :: bool
  ntfy_server_url :: string
  ntfy_topic :: string
  ntfy_token :: string
  ntfy_min_severity :: string

definition CHANNELS :: "string list" where "CHANNELS = [''teams'', ''slack'', ''ntfy'']"

definition configured :: "extra_config \<Rightarrow> string \<Rightarrow> bool" where
  "configured cfg channel =
     (if channel = ''teams'' then teams_webhook_url cfg \<noteq> []
      else if channel = ''slack'' then slack_webhook_url cfg \<noteq> []
      else if channel = ''ntfy'' then ntfy_topic cfg \<noteq> [] else False)"

definition channel_enabled :: "extra_config \<Rightarrow> string \<Rightarrow> bool" where
  "channel_enabled cfg channel =
     (if channel = ''teams'' then teams_enabled cfg else if channel = ''slack'' then slack_enabled cfg else ntfy_enabled cfg)"

definition channel_min_severity :: "extra_config \<Rightarrow> string \<Rightarrow> string" where
  "channel_min_severity cfg channel =
     (if channel = ''teams'' then teams_min_severity cfg else if channel = ''slack'' then slack_min_severity cfg else ntfy_min_severity cfg)"

text \<open>The tenant's cipher: \<open>ci_reveal\<close> gives nothing where it raises \<^verbatim>\<open>TenantKeyError\<close>.\<close>

record cipher =
  ci_reveal :: "string \<Rightarrow> string option"
  ci_decrypt :: "string \<Rightarrow> string result"

type_synonym secret_errors = "(string, string) dict"

definition secret_value :: "cipher \<Rightarrow> string \<Rightarrow> string" where
  "secret_value ci v = (if v = [] then [] else (case ci_reveal ci v of Some s \<Rightarrow> s | None \<Rightarrow> []))"

definition unreadable :: "cipher \<Rightarrow> string \<Rightarrow> bool" where
  "unreadable ci v \<longleftrightarrow> v \<noteq> [] \<and> ci_reveal ci v = None"

definition note_error :: "cipher \<Rightarrow> secret_errors \<Rightarrow> string \<times> string \<Rightarrow> secret_errors" where
  "note_error ci errs cv = (case cv of (channel, v) \<Rightarrow>
     if unreadable ci v \<and> dget errs channel = None
     then dset errs channel (channel @ '': the stored secret does not decrypt (TenantKeyError)'') else errs)"

text \<open>\<open>ChannelSecrets.get\<close>: the text, and the channels that failed so far.\<close>

definition secrets_get :: "cipher \<Rightarrow> string \<Rightarrow> string \<Rightarrow> secret_errors \<Rightarrow> string \<times> secret_errors" where
  "secrets_get ci channel v errs = (secret_value ci v, note_error ci errs (channel, v))"

text \<open>\<open>reveal\<close>: legacy plaintext is tolerated, a \<^verbatim>\<open>v2:\<close> value is not.\<close>

definition reveal :: "cipher \<Rightarrow> string \<Rightarrow> string result" where
  "reveal ci v =
     (if v = [] then Inr []
      else (case ci_decrypt ci v of Inr s \<Rightarrow> Inr s | Inl e \<Rightarrow> if startswith v ''v2:'' then Inl e else Inr v))"

definition extra_value :: "cipher \<Rightarrow> string \<Rightarrow> string" where
  "extra_value ci v =
     (if startswith v ''v2:'' then secret_value ci v else (case reveal ci v of Inr s \<Rightarrow> s | Inl _ \<Rightarrow> []))"

definition get_setting :: "(string, string) dict \<Rightarrow> string \<Rightarrow> string \<Rightarrow> string" where
  "get_setting settings key dflt = dget_or settings key dflt"

definition setting_or :: "(string, string) dict \<Rightarrow> string \<Rightarrow> string \<Rightarrow> string" where
  "setting_or settings key dflt = or_text (get_setting settings key dflt) dflt"

text \<open>The secrets of Teams, Slack and ntfy; only a \<^verbatim>\<open>v2:\<close> value can fail.\<close>

definition extra_reads :: "(string, string) dict \<Rightarrow> (string \<times> string) list" where
  "extra_reads settings = filter (\<lambda>(_, v). startswith v ''v2:'')
     [(''teams'', setting_or settings ''teams_webhook_url'' []), (''slack'', setting_or settings ''slack_webhook_url'' []),
      (''ntfy'', setting_or settings ''ntfy_token'' [])]"

definition load_config :: "cipher \<Rightarrow> (string, string) dict \<Rightarrow> secret_errors \<Rightarrow> extra_config \<times> secret_errors" where
  "load_config ci settings errs =
     (let g = setting_or settings in
      (\<lparr>public_url = rstrip_slash (strip (g ''public_url'' [])),
        teams_enabled = (g ''teams_enabled'' ''0'' = ''1''), teams_webhook_url = extra_value ci (g ''teams_webhook_url'' []),
        teams_min_severity = g ''notify_teams_min_severity'' ''all'',
        slack_enabled = (g ''slack_enabled'' ''0'' = ''1''), slack_webhook_url = extra_value ci (g ''slack_webhook_url'' []),
        slack_min_severity = g ''notify_slack_min_severity'' ''all'',
        ntfy_enabled = (g ''ntfy_enabled'' ''0'' = ''1''),
        ntfy_server_url = or_text (strip (g ''ntfy_server_url'' DEFAULT_NTFY_SERVER)) DEFAULT_NTFY_SERVER,
        ntfy_topic = strip (g ''ntfy_topic'' []), ntfy_token = extra_value ci (g ''ntfy_token'' []),
        ntfy_min_severity = g ''notify_ntfy_min_severity'' ''all''\<rparr>,
       foldl (note_error ci) errs (extra_reads settings)))"

section \<open>Dispatch\<close>

text \<open>A coroutine that was built and not yet awaited, by its channel and arguments.\<close>

datatype request =
    Telegram string string string
  | Discord string string string int
  | Webhook string string string string string
  | Email string int string string string string string string string
  | Teams string string string string "string option"
  | Slack string string string string "string option"
  | Ntfy string string string string string string "string option"

fun channel_of :: "request \<Rightarrow> string" where
  "channel_of (Telegram _ _ _) = ''telegram''"
| "channel_of (Discord _ _ _ _) = ''discord''"
| "channel_of (Webhook _ _ _ _ _) = ''webhook''"
| "channel_of (Email _ _ _ _ _ _ _ _ _) = ''email''"
| "channel_of (Teams _ _ _ _ _) = ''teams''"
| "channel_of (Slack _ _ _ _ _) = ''slack''"
| "channel_of (Ntfy _ _ _ _ _ _ _) = ''ntfy''"

definition make_send :: "extra_config \<Rightarrow> string \<Rightarrow> string \<Rightarrow> string \<Rightarrow> string \<Rightarrow> string option \<Rightarrow> string + request" where
  "make_send cfg channel title message severity link =
     (if \<not> configured cfg channel then Inl (channel @ '': not configured'')
      else if channel = ''teams'' then Inr (Teams (teams_webhook_url cfg) title message severity link)
      else if channel = ''slack'' then Inr (Slack (slack_webhook_url cfg) title message severity link)
      else if channel = ''ntfy'' then Inr (Ntfy (ntfy_server_url cfg) (ntfy_topic cfg) (ntfy_token cfg) title message severity link)
      else Inl (''unknown channel '' @ repr_str channel))"

definition build_sends ::
    "extra_config \<Rightarrow> string \<Rightarrow> string \<Rightarrow> string \<Rightarrow> string option \<Rightarrow> string list option \<Rightarrow> request list" where
  "build_sends cfg title message severity link_path channels =
     (let link = build_link (public_url cfg) link_path;
          chosen = filter (\<lambda>n. (case channels of None \<Rightarrow> True | Some cs \<Rightarrow> cs = [] \<or> n \<in> set cs) \<and> channel_enabled cfg n \<and>
            configured cfg n \<and> severity_passes severity (channel_min_severity cfg n)) CHANNELS
      in concat (map (\<lambda>n. case make_send cfg n title message severity link of Inl _ \<Rightarrow> [] | Inr r \<Rightarrow> [r]) chosen))"

text \<open>Delivery of the requests of this module; the argument \<open>other\<close> stands for the remaining senders.\<close>

fun deliver :: "net \<Rightarrow> (request \<Rightarrow> string option) \<Rightarrow> request \<Rightarrow> string option" where
  "deliver net other (Teams url title message severity link) = send_teams net url title message severity link"
| "deliver net other (Slack url title message severity link) = send_slack net url title message severity link"
| "deliver net other (Ntfy server topic token title message severity link) = send_ntfy net server topic token title message severity link"
| "deliver net other r = other r"

definition send_to_selected ::
    "net \<Rightarrow> extra_config \<Rightarrow> string list \<Rightarrow> string \<Rightarrow> string \<Rightarrow> string \<Rightarrow> string option \<Rightarrow> secret_errors \<Rightarrow> (string \<times> string option) list" where
  "send_to_selected net cfg selected title message severity link_path failed =
     concat (map (\<lambda>n.
       if n \<notin> set selected \<or> \<not> channel_enabled cfg n then []
       else (case dget failed n of
               Some e \<Rightarrow> [(n, Some e)]
             | None \<Rightarrow>
                 (if \<not> configured cfg n then []
                  else (case make_send cfg n title message severity (build_link (public_url cfg) link_path) of
                          Inl e \<Rightarrow> [(n, Some e)]
                        | Inr r \<Rightarrow> [(n, deliver net (\<lambda>_. None) r)])))) CHANNELS)"

definition html_char :: "char \<Rightarrow> string" where
  "html_char c =
     (if c = CHR ''&'' then ''&amp;'' else if c = CHR ''<'' then ''&lt;'' else if c = CHR ''>'' then ''&gt;''
      else if c = CHR 0x22 then ''&quot;'' else if c = CHR 0x27 then ''&#x27;'' else [c])"

definition html_escape :: "string \<Rightarrow> string" where
  "html_escape s = concat (map html_char s)"

text \<open>The styled body of an e-mail; the severity is the only part that is not escaped.\<close>

definition email_colors :: "string \<Rightarrow> string \<times> string" where
  "email_colors severity = dget_or
     [(''critical'', (''#FB7185'', ''#1a0a0e'')), (''warning'', (''#FBBF24'', ''#1a1408'')), (''info'', (''#38BDF8'', ''#0a1628''))]
     severity (''#38BDF8'', ''#0a1628'')"

definition build_html_email :: "string \<Rightarrow> string \<Rightarrow> string \<Rightarrow> string" where
  "build_html_email title message severity = (case email_colors severity of (accent, bg_tint) \<Rightarrow>
     ''<div style=\"font-family:-apple-system,BlinkMacSystemFont,'' @ [CHR 0x27] @ ''Segoe UI'' @ [CHR 0x27] @ '',Roboto,sans-serif;max-width:560px;margin:0 auto;padding:0\">'' @ [CHR 0x0A] @
     ''  <div style=\"background:#0B1120;border-radius:12px;overflow:hidden;border:1px solid #1E293B\">'' @ [CHR 0x0A] @
     ''    <div style=\"padding:24px 28px;border-bottom:1px solid #1E293B;background:'' @ bg_tint @ ''\">'' @ [CHR 0x0A] @
     ''      <div style=\"display:flex;align-items:center;gap:10px;margin-bottom:12px\">'' @ [CHR 0x0A] @
     ''        <span style=\"display:inline-block;width:10px;height:10px;border-radius:50%;background:'' @ accent @ ''\"></span>'' @ [CHR 0x0A] @
     ''        <span style=\"color:'' @ accent @ '';font-size:11px;font-weight:600;text-transform:uppercase;letter-spacing:2px\">'' @ severity @ ''</span>'' @ [CHR 0x0A] @
     ''      </div>'' @ [CHR 0x0A] @
     ''      <h1 style=\"color:#E2E8F0;font-size:18px;font-weight:600;margin:0;line-height:1.4\">'' @ html_escape title @ ''</h1>'' @ [CHR 0x0A] @
     ''    </div>'' @ [CHR 0x0A] @
     ''    <div style=\"padding:20px 28px\">'' @ [CHR 0x0A] @
     ''      <p style=\"color:#94A3B8;font-size:14px;line-height:1.6;margin:0;white-space:pre-line\">'' @ html_escape message @ ''</p>'' @ [CHR 0x0A] @
     ''    </div>'' @ [CHR 0x0A] @
     ''    <div style=\"padding:16px 28px;border-top:1px solid #1E293B;text-align:center\">'' @ [CHR 0x0A] @
     ''      <span style=\"color:#475569;font-size:11px;letter-spacing:3px;font-weight:500\">NODEGLOW</span>'' @ [CHR 0x0A] @
     ''    </div>'' @ [CHR 0x0A] @
     ''  </div>'' @ [CHR 0x0A] @
     ''</div>'')"

definition discord_color :: "string \<Rightarrow> int" where
  "discord_color severity = dget_or [(''critical'', 0xe74c3c), (''warning'', 0xf39c12), (''info'', 0x2ecc71)] severity 0x2ecc71"

text \<open>The built-in channels, each from its own settings; the e-mail password is read only when a mail is due.\<close>

definition min_passes :: "(string, string) dict \<Rightarrow> string \<Rightarrow> string \<Rightarrow> bool" where
  "min_passes settings severity key = severity_passes severity (get_setting settings key ''all'')"

definition telegram_requests :: "cipher \<Rightarrow> (string, string) dict \<Rightarrow> string \<Rightarrow> string \<Rightarrow> string \<Rightarrow> request list" where
  "telegram_requests ci settings title message severity =
     (let token = secret_value ci (get_setting settings ''telegram_bot_token'' []); chat = get_setting settings ''telegram_chat_id'' [] in
      if token \<noteq> [] \<and> chat \<noteq> [] \<and> min_passes settings severity ''notify_telegram_min_severity''
      then [Telegram token chat (''<b>'' @ html_escape title @ ''</b>'' @ [CHR 0x0A] @ html_escape message)] else [])"

definition discord_requests :: "cipher \<Rightarrow> (string, string) dict \<Rightarrow> string \<Rightarrow> string \<Rightarrow> string \<Rightarrow> request list" where
  "discord_requests ci settings title message severity =
     (let url = secret_value ci (get_setting settings ''discord_webhook_url'' []) in
      if url \<noteq> [] \<and> min_passes settings severity ''notify_discord_min_severity''
      then [Discord url title message (discord_color severity)] else [])"

definition webhook_requests ::
    "cipher \<Rightarrow> (string, string) dict \<Rightarrow> secret_errors \<Rightarrow> string \<Rightarrow> string \<Rightarrow> string \<Rightarrow> request list" where
  "webhook_requests ci settings errs title message severity =
     (let url = secret_value ci (get_setting settings ''webhook_url'' []) in
      if url \<noteq> [] \<and> dget errs ''webhook'' = None \<and> min_passes settings severity ''notify_webhook_min_severity''
      then [Webhook url (secret_value ci (get_setting settings ''webhook_secret'' [])) title message severity] else [])"

definition mail_due :: "(string, string) dict \<Rightarrow> string \<Rightarrow> bool" where
  "mail_due settings severity \<longleftrightarrow> get_setting settings ''smtp_host'' [] \<noteq> [] \<and> get_setting settings ''smtp_user'' [] \<noteq> [] \<and>
     get_setting settings ''smtp_password'' [] \<noteq> [] \<and> get_setting settings ''smtp_to'' [] \<noteq> [] \<and>
     min_passes settings severity ''notify_email_min_severity''"

definition email_requests ::
    "cipher \<Rightarrow> (string, string) dict \<Rightarrow> secret_errors \<Rightarrow> string \<Rightarrow> string \<Rightarrow> string \<Rightarrow> request list result" where
  "email_requests ci settings errs title message severity =
     (let get = (\<lambda>k. get_setting settings k []) in
      if mail_due settings severity \<and> dget errs ''email'' = None then
        (case parse_int (get_setting settings ''smtp_port'' ''587'') of
           None \<Rightarrow> Inl (ValueError ''invalid literal for int() with base 10'')
         | Some port \<Rightarrow>
             Inr [Email (get ''smtp_host'') port (get ''smtp_user'') (secret_value ci (get ''smtp_password''))
                    (or_text (get ''smtp_from'') (get ''smtp_user'')) (get ''smtp_to'')
                    (''[Nodeglow] '' @ title) (title @ [CHR 0x0A] @ message) (build_html_email title message severity)])
      else Inr [])"

text \<open>The secrets in the order they are read.\<close>

definition builtin_reads :: "(string, string) dict \<Rightarrow> (string \<times> string) list" where
  "builtin_reads settings =
     [(''telegram'', get_setting settings ''telegram_bot_token'' []), (''discord'', get_setting settings ''discord_webhook_url'' []),
      (''webhook'', get_setting settings ''webhook_url'' []), (''webhook'', get_setting settings ''webhook_secret'' [])]"

definition mail_reads :: "(string, string) dict \<Rightarrow> string \<Rightarrow> (string \<times> string) list" where
  "mail_reads settings severity =
     (if mail_due settings severity then [(''email'', get_setting settings ''smtp_password'' [])] else [])"

definition all_requests ::
    "cipher \<Rightarrow> (string, string) dict \<Rightarrow> string \<Rightarrow> string \<Rightarrow> string \<Rightarrow> string list option
      \<Rightarrow> string option \<Rightarrow> (request list \<times> secret_errors) result" where
  "all_requests ci settings title message severity channels link_path =
     (let errs1 = foldl (note_error ci) [] (builtin_reads settings);
          (cfg, errs2) = load_config ci settings errs1;
          errs3 = foldl (note_error ci) errs2 (mail_reads settings severity)
      in bind_result (email_requests ci settings errs3 title message severity) (\<lambda>mails.
           Inr (telegram_requests ci settings title message severity @ discord_requests ci settings title message severity
                @ webhook_requests ci settings errs2 title message severity @ mails
                @ build_sends cfg title message severity link_path channels, errs3)))"

record notification_row =
  lr_channel :: string
  lr_status :: string
  lr_error :: "string option"

definition wanted :: "string list option \<Rightarrow> string \<Rightarrow> bool" where
  "wanted channels name \<longleftrightarrow> (case channels of None \<Rightarrow> True | Some cs \<Rightarrow> cs = [] \<or> name \<in> set cs)"

definition result_row :: "request \<Rightarrow> string option \<Rightarrow> notification_row" where
  "result_row r e = (case e of
     None \<Rightarrow> \<lparr>lr_channel = channel_of r, lr_status = ''sent'', lr_error = None\<rparr>
   | Some x \<Rightarrow> \<lparr>lr_channel = channel_of r, lr_status = ''failed'', lr_error = Some x\<rparr>)"

record notify_out =
  no_sent :: "request list"
  no_log :: "notification_row list"

text \<open>\<open>_notify_tenant_channels\<close>: the cooldown table afterwards, which a call that raises has changed too, and what was sent and logged.\<close>

definition notify_tenant_channels ::
    "cipher \<Rightarrow> (request \<Rightarrow> string option) \<Rightarrow> rat \<Rightarrow> (string, string) dict \<Rightarrow> int
      \<Rightarrow> string \<Rightarrow> string \<Rightarrow> string \<Rightarrow> string list option \<Rightarrow> string option \<Rightarrow> (int \<times> string, rat) dict
      \<Rightarrow> (int \<times> string, rat) dict \<times> notify_out result" where
  "notify_tenant_channels ci dlv now settings tenant title message severity channels link_path recent =
     (case is_rate_limited now title tenant recent of (recent', limited) \<Rightarrow>
        (recent',
         if limited \<or> get_setting settings ''notify_enabled'' ''0'' \<noteq> ''1'' then Inr \<lparr>no_sent = [], no_log = []\<rparr>
         else bind_result (all_requests ci settings title message severity channels link_path) (\<lambda>(reqs, errs).
           let built = filter (\<lambda>r. dget errs (channel_of r) = None) reqs;
               failed = map (\<lambda>(n, e). \<lparr>lr_channel = n, lr_status = ''failed'', lr_error = Some e\<rparr>)
                 (filter (\<lambda>(n, _). wanted channels n) errs);
               sent = filter (\<lambda>r. wanted channels (channel_of r)) built
           in Inr \<lparr>no_sent = sent, no_log = failed @ map (\<lambda>r. result_row r (dlv r)) sent\<rparr>)))"

section \<open>Errors name no secret\<close>

lemma startswith_before: "startswith (a @ c # b) s \<Longrightarrow> c \<notin> set s \<Longrightarrow> startswith a s"
proof (induction a arbitrary: s)
  case Nil
  then show ?case by (cases s) auto
next
  case (Cons x a)
  then show ?case by (cases s) auto
qed

lemma contains_split:
  assumes "contains s (a @ c # b)" and "c \<notin> set s" and "s \<noteq> []"
  shows "contains s a \<or> contains s b"
  using assms(1)
proof (induction a)
  case Nil
  then show ?case using assms(2,3) startswith_before [of "[]" c b s] by (cases s) auto
next
  case (Cons x a)
  then show ?case using startswith_before [of "x # a" c b s] assms(2) by auto
qed

lemma contains_prefix_free:
  "contains (c # s) (p @ r) \<Longrightarrow> c \<notin> set p \<Longrightarrow> contains (c # s) r"
  by (induction p) auto

lemma contains_drop: "contains s (drop n t) \<Longrightarrow> s \<noteq> [] \<Longrightarrow> contains s t"
  by (induction n arbitrary: t) (auto simp: drop_Suc drop_Suc_Cons split: list.splits, case_tac t, auto)

text \<open>A secret that the marker cannot imitate.\<close>

definition clean :: "string \<Rightarrow> bool" where
  "clean s \<longleftrightarrow> s \<noteq> [] \<and> CHR ''<'' \<notin> set s \<and> CHR ''>'' \<notin> set s \<and> \<not> contains s ''redacted''"

lemma clean_marker:
  assumes "clean s" and "contains s (''<redacted>'' @ r)"
  shows "contains s r"
proof -
  have s: "s \<noteq> []" "CHR ''<'' \<notin> set s" "CHR ''>'' \<notin> set s" "\<not> contains s ''redacted''" using assms(1) by (auto simp: clean_def)
  have "\<not> contains s ''<redacted''"
    using contains_split [of s "[]" "CHR ''<''" "''redacted''"] s by auto
  with contains_split [of s "''<redacted''" "CHR ''>''" r] assms(2) s show ?thesis by auto
qed

lemma startswith_replace:
  assumes "CHR ''<'' \<notin> set u" and "startswith (str_replace old ''<redacted>'' t) u"
  shows "startswith t u"
  using assms
proof (induction t arbitrary: u rule: length_induct)
  case (1 t)
  show ?case
  proof (cases "old = [] \<or> t = [] \<or> u = []")
    case True
    with 1(3) show ?thesis by (auto simp: str_replace.simps [of old _ t])
  next
    case False
    then obtain c t' x u' where cu: "t = c # t'" "u = x # u'" by (cases t; cases u) auto
    show ?thesis
    proof (cases "startswith t old")
      case True
      with False 1(2,3) cu show ?thesis by (subst (asm) str_replace.simps) auto
    next
      case nm: False
      with False 1(3) cu have "c = x" "startswith (str_replace old ''<redacted>'' t') u'"
        by (subst (asm) str_replace.simps; auto)+
      with 1(1,2) cu show ?thesis by auto
    qed
  qed
qed

lemma redact_keeps_absent:
  assumes "clean s" and "\<not> contains s t \<or> s = old" and "old \<noteq> []"
  shows "\<not> contains s (str_replace old ''<redacted>'' t)"
  using assms(2)
proof (induction t rule: length_induct)
  case (1 t)
  have s: "s \<noteq> []" "CHR ''<'' \<notin> set s" using assms(1) by (auto simp: clean_def)
  show ?case
  proof (cases "t = []")
    case True
    with s show ?thesis by (subst str_replace.simps) auto
  next
    case False
    then obtain c t' where t: "t = c # t'" by (cases t) auto
    show ?thesis
    proof (cases "startswith t old")
      case True
      let ?t = "drop (length old) t"
      have "length ?t < length t" using assms(3) False by simp
      moreover have "\<not> contains s ?t \<or> s = old" using 1(2) contains_drop [of s "length old" t] s(1) by blast
      ultimately have "\<not> contains s (str_replace old ''<redacted>'' ?t)" using 1(1) by blast
      with clean_marker [OF assms(1)] True False assms(3) show ?thesis by (subst str_replace.simps) auto
    next
      case nm: False
      have ih: "\<not> contains s (str_replace old ''<redacted>'' t')" using 1 t by auto
      have r: "str_replace old ''<redacted>'' t = c # str_replace old ''<redacted>'' t'"
        using nm False assms(3) t by (subst str_replace.simps) auto
      have "\<not> startswith (str_replace old ''<redacted>'' t) s"
        using startswith_replace [OF s(2), of old t] 1(2) nm t by auto
      with ih r show ?thesis by simp
    qed
  qed
qed

lemma redact_removes: "clean s \<Longrightarrow> \<not> contains s (redact t [s])"
  using redact_keeps_absent [of s t s] by (simp add: redact_def redact1_def clean_def)

lemma redact_keeps: "clean s \<Longrightarrow> \<not> contains s t \<Longrightarrow> \<not> contains s (redact t [u])"
  using redact_keeps_absent [of s t u] by (simp add: redact_def redact1_def)

text \<open>A web address as the settings accept it, and error classes of the HTTP client without the letter h.\<close>

definition web_url :: "string \<Rightarrow> bool" where
  "web_url u \<longleftrightarrow> startswith u ''http'' \<and> CHR ''<'' \<notin> set u \<and> CHR ''>'' \<notin> set u"

definition kinds_ok :: "net \<Rightarrow> bool" where
  "kinds_ok net \<longleftrightarrow> (\<forall>n u p h kind text. net_post net n u p h = HttpError kind text \<longrightarrow> CHR ''h'' \<notin> set kind)"

lemma web_url_clean: "web_url u \<Longrightarrow> clean u"
proof -
  assume u: "web_url u"
  then obtain r where r: "u = ''http'' @ r" unfolding web_url_def
    by (cases u; cases "tl u"; cases "tl (tl u)"; cases "tl (tl (tl u))") auto
  with u show ?thesis by (auto simp: clean_def web_url_def)
qed

lemma url_in_message:
  assumes "web_url u" and "CHR ''h'' \<notin> set p" and "contains u (p @ r)"
  shows "contains u r"
proof -
  obtain s where "u = CHR ''h'' # s" using assms(1) unfolding web_url_def by (cases u) auto
  with contains_prefix_free assms(2,3) show ?thesis by blast
qed

lemma show_int_no_h: "CHR ''h'' \<notin> set (show_int i)"
  using is_digit_set_show_nat [of "CHR ''h''"] by (auto simp: show_int_def is_digit_def)

lemma post_attempts_redacted:
  assumes "web_url u" and "kinds_ok net" and "CHR ''h'' \<notin> set label"
  shows "post_attempts net u payload headers label k n = Some e \<Longrightarrow> \<not> contains u e"
proof (induction n arbitrary: k)
  case (Suc n)
  have u: "u \<noteq> []" and hd: "\<exists>s. u = CHR ''h'' # s" using assms(1) unfolding web_url_def by (cases u; auto)+
  have msg: "\<not> contains u (p @ q)" if "CHR ''h'' \<notin> set p" "\<not> contains u q" for p q
    using url_in_message [OF assms(1) that(1)] that(2) by blast
  have empty: "\<not> contains u []" using u by simp
  show ?case
  proof (cases "net_post net k u payload headers")
    case Timeout
    with Suc.prems have "e = (label @ '': timed out after 10s'') @ []" by simp
    then show ?thesis using msg [of "label @ '': timed out after 10s''" "[]"] assms(3) empty by simp
  next
    case (HttpError kind tx)
    with assms(2) have "CHR ''h'' \<notin> set kind" unfolding kinds_ok_def by blast
    moreover have "e = (label @ '': '' @ kind @ '': '') @ redact tx [u]" using HttpError Suc.prems by simp
    ultimately show ?thesis
      using msg [of "label @ '': '' @ kind @ '': ''" "redact tx [u]"] assms(3) redact_removes [OF web_url_clean [OF assms(1)], of tx] by simp
  next
    case (Response status body retry)
    let ?b = "redact (strip (text_take 200 body)) [u]"
    have b: "\<not> contains u ?b" by (rule redact_removes [OF web_url_clean [OF assms(1)]])
    show ?thesis
    proof (cases "status = 429 \<and> k < MAX_RETRIES")
      case True
      with Response Suc show ?thesis by simp
    next
      case False
      with Response Suc.prems have "e = (label @ '': HTTP '' @ show_int status @ (if ?b = [] then [] else '' '')) @ ?b"
        by (auto simp: Let_def split: if_splits)
      then show ?thesis
        using msg [of "label @ '': HTTP '' @ show_int status @ (if ?b = [] then [] else '' '')" ?b] assms(3) b show_int_no_h by auto
    qed
  qed
qed simp

lemma post_json_redacted:
  assumes "web_url u" and "kinds_ok net" and "CHR ''h'' \<notin> set label" and "post_json net u payload headers label = Some e"
  shows "\<not> contains u e"
proof (cases "net_safe net u")
  case True
  with assms show ?thesis using post_attempts_redacted [OF assms(1-3)] by (simp add: post_json_def del: post_attempts.simps)
next
  case False
  with assms(4) have e: "e = (label @ '': URL rejected by safety c'') @ ''heck''" by (simp add: post_json_def)
  have "\<not> contains u ''heck''" using assms(1) unfolding web_url_def
    by (cases u; cases "tl u") auto
  with url_in_message [OF assms(1), of "label @ '': URL rejected by safety c''" "''heck''"] assms(3) e show ?thesis by auto
qed

text \<open>Error texts name no secret: whatever the remote end answers, the error that a Teams, Slack or ntfy delivery
  leaves in the log does not contain the webhook address, and for ntfy not the access token either.\<close>

theorem channel_errors_redacted:
  assumes "kinds_ok net" and "deliver net other r = Some e"
  shows "case r of
      Teams url _ _ _ _ \<Rightarrow> web_url url \<longrightarrow> \<not> contains url e
    | Slack url _ _ _ _ \<Rightarrow> web_url url \<longrightarrow> \<not> contains url e
    | Ntfy server _ token _ _ _ _ \<Rightarrow>
        (clean (strip token) \<and> \<not> contains (strip token) ''ntfy: invalid topic'' \<longrightarrow> \<not> contains (strip token) e) \<and>
        (web_url (rstrip_slash (strip server)) \<longrightarrow> \<not> contains (rstrip_slash (strip server)) e)
    | _ \<Rightarrow> True"
proof (cases r)
  case (Teams url title message severity link)
  have "\<not> contains url e" if "web_url url"
    using assms(2) Teams by (intro post_json_redacted [OF that assms(1)]) (auto simp: send_teams_def)
  with Teams show ?thesis by simp
next
  case (Slack url title message severity link)
  have "\<not> contains url e" if "web_url url"
    using assms(2) Slack by (intro post_json_redacted [OF that assms(1)]) (auto simp: send_slack_def)
  with Slack show ?thesis by simp
next
  case (Ntfy server topic token title message severity link)
  let ?s = "rstrip_slash (strip server)"
  have url: "\<not> contains ?s ''ntfy: invalid topic''" if "web_url ?s"
    using that url_in_message [OF that, of "''ntfy: invalid topic''" "[]"] by (auto simp: web_url_def)
  have tok: "\<not> contains (strip token) e" if "clean (strip token)" "\<not> contains (strip token) ''ntfy: invalid topic''"
    using assms(2) Ntfy that redact_removes [OF that(1)] by (auto simp: send_ntfy_def split: if_splits)
  have "\<not> contains ?s e" if w: "web_url ?s"
  proof -
    have ne: "server \<noteq> []" using w by (auto simp: web_url_def rstrip_slash_def strip_def lstrip_def rstrip_def)
    show ?thesis
    proof (cases "topic_ok topic")
      case True
      with assms(2) Ntfy ne obtain e' where e': "post_json net ?s (build_ntfy_payload topic title message severity link) (ntfy_auth_header token) ''ntfy'' = Some e'"
        "e = redact e' [strip token]" by (auto simp: send_ntfy_def or_text_def)
      have "\<not> contains ?s e'" by (rule post_json_redacted [OF w assms(1) _ e'(1)]) simp
      with e'(2) redact_keeps [OF web_url_clean [OF w]] show ?thesis by simp
    next
      case False
      with assms(2) Ntfy url [OF w] show ?thesis by (auto simp: send_ntfy_def)
    qed
  qed
  with tok Ntfy show ?thesis by simp
qed (use assms in simp_all)

definition echo_net :: net where
  "echo_net = \<lparr>net_safe = (\<lambda>_. True), net_post = (\<lambda>_ u _ _. Response 400 (''no workflow at '' @ u) None)\<rparr>"

theorem channel_errors_redacted_witness:
  "deliver echo_net (\<lambda>_. None) (Teams ''http://t/key'' ''a'' ''b'' ''info'' None) = Some ''Teams: HTTP 400 no workflow at <redacted>'' \<and>
   \<not> contains ''http://t/key'' ''Teams: HTTP 400 no workflow at <redacted>''"
proof -
  have "text_take 200 (''no workflow at '' @ ''http://t/key'') = ''no workflow at http://t/key''" by (simp add: text_take_ascii)
  moreover have "redact (strip ''no workflow at http://t/key'') [''http://t/key''] = ''no workflow at <redacted>''" by code_simp
  moreover have "show_int 400 = ''400''" by code_simp
  ultimately have d: "deliver echo_net (\<lambda>_. None) (Teams ''http://t/key'' ''a'' ''b'' ''info'' None) = Some ''Teams: HTTP 400 no workflow at <redacted>''"
    by (simp add: send_teams_def post_json_def echo_net_def Let_def)
  have "kinds_ok echo_net" by (simp add: kinds_ok_def echo_net_def)
  from channel_errors_redacted [OF this d] show ?thesis using d by (simp add: web_url_def)
qed

text \<open>
  The body is cut to 200 characters before the address is redacted: an answer that repeats the address
  across the cut leaves all of it but the last character in the error.
\<close>

lemma truncation_leaks_prefix:
  "let net = \<lparr>net_safe = (\<lambda>_. True), net_post = (\<lambda>_ u _ _. Response 400 (replicate 189 CHR ''x'' @ u) None)\<rparr>
   in \<exists>p. deliver net (\<lambda>_. None) (Teams ''http://t/key'' ''a'' ''b'' ''info'' None) = Some (p @ ''http://t/ke'')"
proof -
  let ?b = "replicate 189 CHR ''x'' @ ''http://t/key''"
  have "list_all (\<lambda>c. (of_char c :: nat) < 128) ?b" by (simp add: list_all_iff)
  then have "text_take 200 ?b = replicate 189 CHR ''x'' @ ''http://t/ke''" by (simp add: text_take_ascii)
  moreover have "redact (strip (replicate 189 CHR ''x'' @ ''http://t/ke'')) [''http://t/key''] = replicate 189 CHR ''x'' @ ''http://t/ke''"
    by code_simp
  ultimately show ?thesis by (simp add: send_teams_def post_json_def Let_def)
qed

section \<open>Which channels get a notification\<close>

text \<open>When a channel is due, from the stored settings, the severity and the cipher alone.\<close>

definition due :: "cipher \<Rightarrow> (string, string) dict \<Rightarrow> string \<Rightarrow> string \<Rightarrow> bool" where
  "due ci settings severity c =
     (let get = (\<lambda>k. get_setting settings k []); g = (\<lambda>k. setting_or settings k []);
          extra = (\<lambda>on k. setting_or settings on ''0'' = ''1'' \<and> severity_passes severity (setting_or settings k ''all''));
          lost = (\<lambda>k. startswith (g k) ''v2:'' \<and> unreadable ci (g k))
      in if c = ''telegram'' then min_passes settings severity ''notify_telegram_min_severity'' \<and> get ''telegram_chat_id'' \<noteq> [] \<and>
           secret_value ci (get ''telegram_bot_token'') \<noteq> []
      else if c = ''discord'' then min_passes settings severity ''notify_discord_min_severity'' \<and> secret_value ci (get ''discord_webhook_url'') \<noteq> []
      else if c = ''webhook'' then min_passes settings severity ''notify_webhook_min_severity'' \<and> secret_value ci (get ''webhook_url'') \<noteq> [] \<and>
           \<not> unreadable ci (get ''webhook_secret'')
      else if c = ''email'' then mail_due settings severity \<and> \<not> unreadable ci (get ''smtp_password'')
      else if c = ''teams'' then extra ''teams_enabled'' ''notify_teams_min_severity'' \<and> \<not> lost ''teams_webhook_url'' \<and> extra_value ci (g ''teams_webhook_url'') \<noteq> []
      else if c = ''slack'' then extra ''slack_enabled'' ''notify_slack_min_severity'' \<and> \<not> lost ''slack_webhook_url'' \<and> extra_value ci (g ''slack_webhook_url'') \<noteq> []
      else if c = ''ntfy'' then extra ''ntfy_enabled'' ''notify_ntfy_min_severity'' \<and> \<not> lost ''ntfy_token'' \<and> strip (g ''ntfy_topic'') \<noteq> []
      else False)"

lemma note_error_None: "dget (note_error ci errs (ch, v)) c = None \<longleftrightarrow> dget errs c = None \<and> \<not> (c = ch \<and> unreadable ci v)"
  by (auto simp: note_error_def dict_simps)

lemma note_errors_None:
  "dget (foldl (note_error ci) errs rs) c = None \<longleftrightarrow> dget errs c = None \<and> (\<forall>(ch, v) \<in> set rs. \<not> (c = ch \<and> unreadable ci v))"
proof (induction rs arbitrary: errs)
  case (Cons r rs)
  obtain ch v where r: "r = (ch, v)" by fastforce
  show ?case by (simp add: Cons r note_error_None)
qed simp

lemma unreadable_empty: "unreadable ci v \<Longrightarrow> secret_value ci v = []"
  by (simp add: unreadable_def secret_value_def)

lemma note_errors_simps:
  "dget (foldl (note_error ci) [] (builtin_reads settings)) c = None \<longleftrightarrow>
     \<not> (c = ''telegram'' \<and> unreadable ci (get_setting settings ''telegram_bot_token'' [])) \<and>
     \<not> (c = ''discord'' \<and> unreadable ci (get_setting settings ''discord_webhook_url'' [])) \<and>
     \<not> (c = ''webhook'' \<and> unreadable ci (get_setting settings ''webhook_url'' [])) \<and>
     \<not> (c = ''webhook'' \<and> unreadable ci (get_setting settings ''webhook_secret'' []))"
  "dget (foldl (note_error ci) errs (mail_reads settings severity)) c = None \<longleftrightarrow>
     dget errs c = None \<and> \<not> (c = ''email'' \<and> mail_due settings severity \<and> unreadable ci (get_setting settings ''smtp_password'' []))"
  "dget (foldl (note_error ci) errs (extra_reads settings)) c = None \<longleftrightarrow> dget errs c = None \<and>
     \<not> (c = ''teams'' \<and> startswith (setting_or settings ''teams_webhook_url'' []) ''v2:'' \<and> unreadable ci (setting_or settings ''teams_webhook_url'' [])) \<and>
     \<not> (c = ''slack'' \<and> startswith (setting_or settings ''slack_webhook_url'' []) ''v2:'' \<and> unreadable ci (setting_or settings ''slack_webhook_url'' [])) \<and>
     \<not> (c = ''ntfy'' \<and> startswith (setting_or settings ''ntfy_token'' []) ''v2:'' \<and> unreadable ci (setting_or settings ''ntfy_token'' []))"
  unfolding note_errors_None by (auto simp: builtin_reads_def mail_reads_def extra_reads_def)

lemma builtin_channels:
  "channel_of ` set (telegram_requests ci settings title message severity) = {c. c = ''telegram'' \<and> due ci settings severity c}"
  "channel_of ` set (discord_requests ci settings title message severity) = {c. c = ''discord'' \<and> due ci settings severity c}"
  "channel_of ` set (webhook_requests ci settings errs title message severity)
     = {c. c = ''webhook'' \<and> dget errs ''webhook'' = None \<and> secret_value ci (get_setting settings ''webhook_url'' []) \<noteq> [] \<and>
           min_passes settings severity ''notify_webhook_min_severity''}"
  by (auto simp: telegram_requests_def discord_requests_def webhook_requests_def due_def Let_def)

lemma email_channels:
  "email_requests ci settings errs title message severity = Inr ms \<Longrightarrow>
   channel_of ` set ms = {c. c = ''email'' \<and> mail_due settings severity \<and> dget errs c = None}"
  by (auto simp: email_requests_def Let_def split: if_splits option.splits)

lemma extra_channels:
  "channel_of ` set (build_sends cfg title message severity link_path channels)
     = {c \<in> set CHANNELS. wanted channels c \<and> channel_enabled cfg c \<and> configured cfg c \<and> severity_passes severity (channel_min_severity cfg c)}"
proof -
  have "set (case make_send cfg n title message severity link of Inl _ \<Rightarrow> [] | Inr r \<Rightarrow> [r]) = {r. make_send cfg n title message severity link = Inr r}"
    for n link by (auto split: sum.splits)
  moreover have "channel_of ` {r. make_send cfg n title message severity link = Inr r} = {n}"
    if "n \<in> set CHANNELS" "configured cfg n" for n link
    using that by (auto simp: make_send_def CHANNELS_def image_def)
  ultimately show ?thesis
    unfolding build_sends_def Let_def set_concat image_UN set_map wanted_def [symmetric] by (auto simp: image_image)
qed

lemma due_email: "due ci settings severity ''email'' \<longleftrightarrow> mail_due settings severity \<and> \<not> unreadable ci (get_setting settings ''smtp_password'' [])"
  by (simp add: due_def)

lemma due_webhook:
  "due ci settings severity ''webhook'' \<longleftrightarrow> min_passes settings severity ''notify_webhook_min_severity'' \<and>
     secret_value ci (get_setting settings ''webhook_url'' []) \<noteq> [] \<and> \<not> unreadable ci (get_setting settings ''webhook_secret'' [])"
  by (simp add: due_def)

lemma due_extra:
  assumes "load_config ci settings errs = (cfg, errs')" and "dget errs c = None" and "c \<in> set CHANNELS"
  shows "due ci settings severity c \<longleftrightarrow>
    channel_enabled cfg c \<and> configured cfg c \<and> severity_passes severity (channel_min_severity cfg c) \<and> dget errs' c = None"
proof -
  have cfg: "cfg = fst (load_config ci settings errs)" and e: "errs' = foldl (note_error ci) errs (extra_reads settings)"
    using assms(1) by (auto simp: load_config_def Let_def)
  from assms(3) consider "c = ''teams''" | "c = ''slack''" | "c = ''ntfy''" by (auto simp: CHANNELS_def)
  then show ?thesis
    by cases (use assms(2) in \<open>auto simp: cfg e note_errors_simps due_def load_config_def Let_def channel_enabled_def configured_def channel_min_severity_def\<close>)
qed

lemma due_channel:
  "due ci settings severity c \<Longrightarrow> c \<in> {''telegram'', ''discord'', ''webhook'', ''email''} \<union> set CHANNELS"
  by (auto simp: due_def Let_def CHANNELS_def split: if_splits)

lemma all_requests_channels:
  assumes "all_requests ci settings title message severity channels link_path = Inr (reqs, errs)"
  shows "{c \<in> channel_of ` set reqs. dget errs c = None \<and> wanted channels c} = {c. due ci settings severity c \<and> wanted channels c}"
proof -
  define errs1 where "errs1 = foldl (note_error ci) [] (builtin_reads settings)"
  obtain cfg errs2 where lc: "load_config ci settings errs1 = (cfg, errs2)" by fastforce
  from assms lc obtain ms where ms: "email_requests ci settings errs title message severity = Inr ms"
    and e3: "errs = foldl (note_error ci) errs2 (mail_reads settings severity)"
    and reqs: "reqs = telegram_requests ci settings title message severity @ discord_requests ci settings title message severity
      @ webhook_requests ci settings errs2 title message severity @ ms @ build_sends cfg title message severity link_path channels"
    unfolding all_requests_def Let_def errs1_def [symmetric] by (clarsimp simp: bind_result_Inr_iff)
  have e2: "errs2 = foldl (note_error ci) errs1 (extra_reads settings)" using lc by (auto simp: load_config_def Let_def)
  note errs = e3 e2 errs1_def note_errors_simps
  have c_in: "c \<in> channel_of ` set reqs \<longleftrightarrow>
      c = ''telegram'' \<and> due ci settings severity c \<or> c = ''discord'' \<and> due ci settings severity c \<or>
      c = ''webhook'' \<and> dget errs2 ''webhook'' = None \<and> secret_value ci (get_setting settings ''webhook_url'' []) \<noteq> [] \<and>
        min_passes settings severity ''notify_webhook_min_severity'' \<or>
      c = ''email'' \<and> mail_due settings severity \<and> dget errs c = None \<or>
      c \<in> set CHANNELS \<and> wanted channels c \<and> channel_enabled cfg c \<and> configured cfg c \<and> severity_passes severity (channel_min_severity cfg c)" for c
    unfolding reqs set_append image_Un Un_iff builtin_channels email_channels [OF ms] extra_channels mem_Collect_eq by (simp only: conj_assoc disj_assoc)
  have "c \<in> channel_of ` set reqs \<and> dget errs c = None \<and> wanted channels c \<longleftrightarrow> due ci settings severity c \<and> wanted channels c" for c
  proof (cases "c \<in> set CHANNELS")
    case True
    then have n: "dget errs1 c = None" "c \<notin> {''telegram'', ''discord'', ''webhook'', ''email''}"
      by (auto simp: errs1_def note_errors_simps CHANNELS_def)
    then have "(dget errs c = None \<longleftrightarrow> dget errs2 c = None)" by (simp add: e3 note_errors_simps)
    with due_extra [OF lc n(1) True, of severity] n(2) True show ?thesis unfolding c_in by blast
  next
    case False
    have other: ?thesis if c: "c \<notin> {''telegram'', ''discord'', ''webhook'', ''email''}"
    proof -
      from c False have "\<not> due ci settings severity c" using due_channel by blast
      moreover from c False have "c \<notin> channel_of ` set reqs" unfolding c_in by simp
      ultimately show ?thesis by simp
    qed
    have tg: "due ci settings severity ''telegram'' \<Longrightarrow> dget errs ''telegram'' = None"
      "due ci settings severity ''discord'' \<Longrightarrow> dget errs ''discord'' = None"
      using unreadable_empty [of ci] by (auto simp: errs due_def)
    have wh: "due ci settings severity ''webhook'' \<longleftrightarrow> min_passes settings severity ''notify_webhook_min_severity'' \<and>
        secret_value ci (get_setting settings ''webhook_url'' []) \<noteq> [] \<and> dget errs2 ''webhook'' = None"
      "dget errs ''webhook'' = None \<longleftrightarrow> dget errs2 ''webhook'' = None"
      using unreadable_empty [of ci] by (auto simp: errs due_webhook)
    have em: "due ci settings severity ''email'' \<longleftrightarrow> mail_due settings severity \<and> dget errs ''email'' = None"
      by (auto simp: errs due_email)
    consider "c = ''telegram''" | "c = ''discord''" | "c = ''webhook''" | "c = ''email''"
      | "c \<notin> {''telegram'', ''discord'', ''webhook'', ''email''}" by blast
    then show ?thesis
    proof cases
      case 5
      then show ?thesis by (rule other)
    next
      case 1
      with tg(1) False show ?thesis unfolding c_in by auto
    next
      case 2
      with tg(2) False show ?thesis unfolding c_in by auto
    next
      case 3
      with wh False show ?thesis unfolding c_in by auto
    next
      case 4
      with em False show ?thesis unfolding c_in by auto
    qed
  qed
  then show ?thesis by blast
qed

lemma all_requests_raise:
  "all_requests ci settings title message severity channels link_path \<in> range Inl \<longleftrightarrow>
     due ci settings severity ''email'' \<and> parse_int (get_setting settings ''smtp_port'' ''587'') = None"
proof -
  define errs1 where "errs1 = foldl (note_error ci) [] (builtin_reads settings)"
  obtain cfg errs2 where lc: "load_config ci settings errs1 = (cfg, errs2)" by fastforce
  define errs3 where "errs3 = foldl (note_error ci) errs2 (mail_reads settings severity)"
  have e2: "errs2 = foldl (note_error ci) errs1 (extra_reads settings)" using lc by (auto simp: load_config_def Let_def)
  have "dget errs3 ''email'' = None \<longleftrightarrow> \<not> (mail_due settings severity \<and> unreadable ci (get_setting settings ''smtp_password'' []))"
    by (simp add: errs3_def e2 errs1_def note_errors_simps)
  moreover have "all_requests ci settings title message severity channels link_path \<in> range Inl \<longleftrightarrow>
      email_requests ci settings errs3 title message severity \<in> range Inl"
    unfolding all_requests_def Let_def errs1_def [symmetric] lc prod.case errs3_def [symmetric]
    by (cases "email_requests ci settings errs3 title message severity") auto
  moreover have "email_requests ci settings errs3 title message severity \<in> range Inl \<longleftrightarrow>
      mail_due settings severity \<and> dget errs3 ''email'' = None \<and> parse_int (get_setting settings ''smtp_port'' ''587'') = None"
    by (auto simp: email_requests_def Let_def split: option.split)
  ultimately show ?thesis by (auto simp: due_email)
qed

text \<open>C37. Dispatch: a call sends nothing where the title is cooling down or notifications are off. Otherwise it raises exactly if
  a mail is due and the stored port is not a number (also where mail is not among the wanted channels; nothing is sent then), and else it
  sends to exactly the wanted channels that are due: configured, enabled, at or below the severity of the event and with every stored
  secret readable. One channel whose secret does not decrypt stops no other channel.\<close>

theorem notify_exact:
  "case snd (notify_tenant_channels ci dlv now settings tenant title message severity channels link_path recent) of
     Inl _ \<Rightarrow> \<not> snd (is_rate_limited now title tenant recent) \<and> get_setting settings ''notify_enabled'' ''0'' = ''1'' \<and>
       due ci settings severity ''email'' \<and> parse_int (get_setting settings ''smtp_port'' ''587'') = None
   | Inr out \<Rightarrow>
       (if snd (is_rate_limited now title tenant recent) \<or> get_setting settings ''notify_enabled'' ''0'' \<noteq> ''1'' then no_sent out = []
        else \<not> (due ci settings severity ''email'' \<and> parse_int (get_setting settings ''smtp_port'' ''587'') = None) \<and>
          channel_of ` set (no_sent out) = {c. due ci settings severity c \<and> wanted channels c})"
proof (cases "snd (is_rate_limited now title tenant recent) \<or> get_setting settings ''notify_enabled'' ''0'' \<noteq> ''1''")
  case True
  then show ?thesis by (simp add: notify_tenant_channels_def case_prod_unfold)
next
  case False
  show ?thesis
  proof (cases "all_requests ci settings title message severity channels link_path")
    case (Inl e)
    then show ?thesis using False all_requests_raise [of ci settings title message severity channels link_path]
      by (simp add: notify_tenant_channels_def case_prod_unfold)
  next
    case (Inr re)
    obtain reqs errs where re: "re = (reqs, errs)" by fastforce
    have "channel_of ` set (filter (\<lambda>r. wanted channels (channel_of r)) (filter (\<lambda>r. dget errs (channel_of r) = None) reqs)) =
        {c \<in> channel_of ` set reqs. dget errs c = None \<and> wanted channels c}" by auto
    moreover have "\<not> (due ci settings severity ''email'' \<and> parse_int (get_setting settings ''smtp_port'' ''587'') = None)"
      using Inr all_requests_raise [of ci settings title message severity channels link_path] by auto
    ultimately show ?thesis using Inr re False all_requests_channels [of ci settings title message severity channels link_path reqs errs]
      by (simp add: notify_tenant_channels_def case_prod_unfold Let_def)
  qed
qed

text \<open>A tenant with a webhook, and a Discord address whose key is gone: the webhook still gets the alert. With a mail whose port is
  not a number nobody gets it, and the title is cooling down all the same.\<close>

definition lost_key :: cipher where
  "lost_key = \<lparr>ci_reveal = (\<lambda>v. if startswith v ''v2:'' then None else Some v), ci_decrypt = (\<lambda>v. Inl (ValueError v))\<rparr>"

definition tenant_settings :: "(string, string) dict" where
  "tenant_settings = [(''notify_enabled'', ''1''), (''discord_webhook_url'', ''v2:x''), (''webhook_url'', ''http://h'')]"

lemma webhook_still_sent:
  "case snd (notify_tenant_channels lost_key (\<lambda>_. None) 0 tenant_settings 1 ''t'' ''m'' ''critical'' None None []) of
     Inl _ \<Rightarrow> False | Inr out \<Rightarrow> map channel_of (no_sent out) = [''webhook''] \<and> map lr_channel (no_log out) = [''discord'', ''webhook'']"
  by code_simp

theorem notify_exact_witness:
  "(case snd (notify_tenant_channels lost_key (\<lambda>_. None) 0 tenant_settings 1 ''t'' ''m'' ''critical'' None None []) of
      Inl _ \<Rightarrow> {} | Inr out \<Rightarrow> channel_of ` set (no_sent out)) = {''webhook''} \<and>
   {c. due lost_key tenant_settings ''critical'' c \<and> wanted None c} = {''webhook''}"
proof (cases "snd (notify_tenant_channels lost_key (\<lambda>_. None) 0 tenant_settings 1 ''t'' ''m'' ''critical'' None None [])")
  case (Inl e)
  then show ?thesis using webhook_still_sent by simp
next
  case (Inr out)
  then have "map channel_of (no_sent out) = [''webhook'']" using webhook_still_sent by simp
  then have s: "channel_of ` set (no_sent out) = {''webhook''}" by (metis list.set(1) list.simps(15) set_map)
  have "\<not> snd (is_rate_limited 0 ''t'' 1 [])" "get_setting tenant_settings ''notify_enabled'' ''0'' = ''1''" by code_simp+
  then show ?thesis
    using notify_exact [where ci = lost_key and dlv = "\<lambda>_. None" and now = 0 and settings = tenant_settings and tenant = 1 and title = "''t''"
      and message = "''m''" and severity = "''critical''" and channels = None and link_path = None and recent = "[]"] Inr s by simp
qed

definition bad_port :: "(string, string) dict" where
  "bad_port = tenant_settings @ [(''smtp_host'', ''m''), (''smtp_user'', ''u''), (''smtp_password'', ''p''), (''smtp_to'', ''t''), (''smtp_port'', ''smtp'')]"

lemma bad_port_silences_all:
  "case notify_tenant_channels lost_key (\<lambda>_. None) 0 bad_port 1 ''t'' ''m'' ''critical'' (Some [''webhook'']) None [] of
     (recent, Inl _) \<Rightarrow> snd (is_rate_limited 60 ''t'' 1 recent) | (_, Inr _) \<Rightarrow> False"
  by code_simp

end
