(* ===== verification/Ingest.thy ===== *)
theory Ingest
  imports Integration_Alerts Json_Print
begin

text \<open>
  Integration results: the snapshot table (\<^verbatim>\<open>backend/services/snapshot.py\<close>) and the one write path of
  collection results (\<^verbatim>\<open>backend/services/integration_ingest.py\<close>): the stamp check, the choice of a primary
  per cluster group, the snapshot, and the incident steps of \<open>Integration_Alerts\<close>, each in a savepoint.
  What an integration parses out of its data, and where the database fails in the middle of an incident
  step, are arguments; the bandwidth series and the snapshot hook are calls in the output.
\<close>

section \<open>Snapshots\<close>

record snap =
  sn_id :: int
  sn_type :: string
  sn_entity :: int
  sn_time :: datetime
  sn_ok :: bool
  sn_data :: "string option"
  sn_error :: "string option"
  sn_by :: "int option"
  sn_at :: "datetime option"

record snap_table =
  tb_rows :: "snap list"
  tb_next :: int

text \<open>\<open>save\<close>: \<^verbatim>\<open>None\<close> data is no data; the time of a row defaults to now.\<close>

definition save ::
    "(pyfloat \<Rightarrow> string) \<Rightarrow> datetime \<Rightarrow> string \<Rightarrow> int \<Rightarrow> bool \<Rightarrow> json \<Rightarrow> string option \<Rightarrow> datetime option \<Rightarrow> int option
      \<Rightarrow> snap_table \<Rightarrow> snap_table" where
  "save frepr now ty eid ok data err at_time by tb =
     tb\<lparr>tb_rows := tb_rows tb @
          [\<lparr>sn_id = tb_next tb, sn_type = ty, sn_entity = eid, sn_time = (case at_time of None \<Rightarrow> now | Some t \<Rightarrow> t), sn_ok = ok,
            sn_data = (if data = JNull then None else Some (dumps frepr data)), sn_error = err, sn_by = by, sn_at = at_time\<rparr>],
        tb_next := tb_next tb + 1\<rparr>"

definition rows_of :: "string \<Rightarrow> int \<Rightarrow> snap_table \<Rightarrow> snap list" where
  "rows_of ty eid tb = filter (\<lambda>r. sn_type r = ty \<and> sn_entity r = eid) (tb_rows tb)"

text \<open>\<^verbatim>\<open>ORDER BY ... DESC LIMIT 1\<close> for an order of rows.\<close>

definition first_by :: "(snap \<Rightarrow> snap \<Rightarrow> bool) \<Rightarrow> snap list \<Rightarrow> snap option" where
  "first_by before rs = fold (\<lambda>r best. case best of None \<Rightarrow> Some r | Some b \<Rightarrow> if before b r then Some r else best) rs None"

definition older :: "snap \<Rightarrow> snap \<Rightarrow> bool" where
  "older a b \<longleftrightarrow> sn_time a < sn_time b \<or> sn_time a = sn_time b \<and> sn_id a < sn_id b"

definition smaller_id :: "snap \<Rightarrow> snap \<Rightarrow> bool" where
  "smaller_id a b \<longleftrightarrow> sn_id a < sn_id b"

definition last_timestamp :: "string \<Rightarrow> int \<Rightarrow> snap_table \<Rightarrow> datetime option" where
  "last_timestamp ty eid tb = map_option sn_time (first_by (\<lambda>a b. sn_time a < sn_time b) (rows_of ty eid tb))"

definition get_latest :: "string \<Rightarrow> int \<Rightarrow> snap_table \<Rightarrow> snap option" where
  "get_latest ty eid tb = first_by older (rows_of ty eid tb)"

definition get_latest_data :: "string \<Rightarrow> int \<Rightarrow> snap_table \<Rightarrow> snap option" where
  "get_latest_data ty eid tb = first_by older (filter (\<lambda>r. sn_ok r \<and> sn_data r \<noteq> None) (rows_of ty eid tb))"

definition get_latest_batch :: "string \<Rightarrow> snap_table \<Rightarrow> (int, snap) dict" where
  "get_latest_batch ty tb =
     foldl (\<lambda>d e. case first_by smaller_id (rows_of ty e tb) of None \<Rightarrow> d | Some r \<Rightarrow> dset d e r) []
       (map sn_entity (filter (\<lambda>r. sn_type r = ty) (tb_rows tb)))"

definition get_latest_batch_all :: "snap_table \<Rightarrow> (string, (int, snap) dict) dict" where
  "get_latest_batch_all tb = foldl (\<lambda>d ty. dset d ty (get_latest_batch ty tb)) [] (map sn_type (tb_rows tb))"

definition get_previous :: "string \<Rightarrow> int \<Rightarrow> datetime \<Rightarrow> snap_table \<Rightarrow> snap option" where
  "get_previous ty eid before tb =
     first_by (\<lambda>a b. sn_time a < sn_time b) (filter (\<lambda>r. sn_time r < before) (rows_of ty eid tb))"

definition cleanup :: "datetime \<Rightarrow> string \<Rightarrow> int \<Rightarrow> snap_table \<Rightarrow> snap_table \<times> nat" where
  "cleanup now ty retention_days tb =
     (let gone = (\<lambda>r. sn_type r = ty \<and> sn_time r < now - days retention_days) in
      (tb\<lparr>tb_rows := filter (\<lambda>r. \<not> gone r) (tb_rows tb)\<rparr>, length (filter gone (tb_rows tb))))"

definition cleanup_all :: "datetime \<Rightarrow> int \<Rightarrow> snap_table \<Rightarrow> snap_table \<times> nat" where
  "cleanup_all now retention_days tb =
     (let gone = (\<lambda>r. sn_time r < now - days retention_days) in
      (tb\<lparr>tb_rows := filter (\<lambda>r. \<not> gone r) (tb_rows tb)\<rparr>, length (filter gone (tb_rows tb))))"

section \<open>The stamp of a collection\<close>

definition COLLECTOR_CORE :: string where "COLLECTOR_CORE = ''core''"
definition COLLECTOR_PROBE :: string where "COLLECTOR_PROBE = ''probe''"
definition STANDBY_MARKER :: string where "STANDBY_MARKER = ''[standby:duplicate-of-primary]''"

record ingest_config = alert_config +
  cfg_rev :: "int option"
  cfg_collector :: "string option"
  cfg_probe :: "int option"

record collect_stamp =
  cs_rev :: int
  cs_collector :: string
  cs_probe :: "int option"

definition stamp_of :: "ingest_config \<Rightarrow> collect_stamp" where
  "stamp_of cfg =
     \<lparr>cs_rev = (case cfg_rev cfg of None \<Rightarrow> 1 | Some r \<Rightarrow> r),
      cs_collector = (case cfg_collector cfg of None \<Rightarrow> COLLECTOR_CORE | Some c \<Rightarrow> if c = [] then COLLECTOR_CORE else c),
      cs_probe = cfg_probe cfg\<rparr>"

datatype outcome = STORED | FAILED | STANDBY | DELETED | STALE_CONFIG_REV | NOT_ASSIGNED

definition written :: "outcome \<Rightarrow> bool" where
  "written r \<longleftrightarrow> r \<in> {STORED, FAILED, STANDBY}"

definition check_stamp :: "ingest_config option \<Rightarrow> collect_stamp \<Rightarrow> outcome option" where
  "check_stamp cfg stamp =
     (case cfg of
        None \<Rightarrow> Some DELETED
      | Some c \<Rightarrow>
          (let current = stamp_of c in
           if cs_rev current \<noteq> cs_rev stamp then Some STALE_CONFIG_REV
           else if cs_collector current \<noteq> cs_collector stamp \<or> cs_probe current \<noteq> cs_probe stamp then Some NOT_ASSIGNED
           else if cs_collector stamp = COLLECTOR_PROBE \<and> cs_probe stamp = None then Some NOT_ASSIGNED
           else None))"

section \<open>Ingest\<close>

text \<open>The collector's answer, or the text of the exception the collection raised.\<close>

datatype collected = Raised string | Failure "string option" | Success json

datatype effect = Bandwidth string int json | Hook int json

record db =
  db_configs :: "(int, ingest_config) dict"
  db_snaps :: snap_table
  db_session :: session

text \<open>A database error inside an incident step: what the in-memory streaks then hold, and what was queued.\<close>

type_synonym fault = "((int option \<times> string, nat) dict \<times> notice list) option"

record ingest_env =
  en_site :: site
  en_frepr :: "pyfloat \<Rightarrow> string"
  en_parse :: "(json \<Rightarrow> alert list) option"
  en_fail_fault :: fault
  en_success_fault :: fault
  en_alert_fault :: fault

text \<open>\<open>_alerting\<close>: the savepoint takes back what the step wrote, and its queued notifications go with it.\<close>

definition alerting :: "fault \<Rightarrow> (session \<Rightarrow> session result) \<Rightarrow> session \<Rightarrow> session" where
  "alerting flt step s =
     (case flt of
        Some (torn, queued) \<Rightarrow> drop_since (pending_count s) (s\<lparr>ss_streaks := torn, ss_pending := ss_pending s @ queued\<rparr>)
      | None \<Rightarrow> (case step s of Inr s' \<Rightarrow> s' | Inl _ \<Rightarrow> s))"

definition snap_rows :: "alert_config \<Rightarrow> snap_table \<Rightarrow> snap_row list" where
  "snap_rows cfg tb = map (\<lambda>r. \<lparr>sr_ok = sn_ok r, sr_timestamp = sn_time r\<rparr>) (rev (rows_of (cfg_type cfg) (cfg_id cfg) tb))"

text \<open>Auto-grouping of a Proxmox cluster on its first successful poll.\<close>

definition auto_group :: "(pyfloat \<Rightarrow> string) \<Rightarrow> string \<Rightarrow> json \<Rightarrow> ingest_config \<Rightarrow> ingest_config" where
  "auto_group frepr ty data cfg =
     (case data of
        JDict d \<Rightarrow>
          (let name = dget_or d ''cluster_name'' JNull in
           if ty = ''proxmox'' \<and> opt_str (cfg_cluster_group cfg) = [] \<and> truthy name
           then cfg\<lparr>cfg_cluster_group := Some (py_str frepr name)\<rparr> else cfg)
      | _ \<Rightarrow> cfg)"

definition group_key :: "string \<Rightarrow> ingest_config \<Rightarrow> (string \<times> string) option" where
  "group_key ty cfg = (let g = opt_str (cfg_cluster_group cfg) in if g = [] then None else Some (ty, g))"

definition owned :: "(string \<times> string) option \<Rightarrow> (string \<times> string) list \<Rightarrow> bool" where
  "owned grp owners = (case grp of None \<Rightarrow> False | Some g \<Rightarrow> g \<in> set owners)"

definition bandwidth_calls :: "string \<Rightarrow> int \<Rightarrow> json \<Rightarrow> effect list" where
  "bandwidth_calls ty eid data = (if ty \<in> {''proxmox'', ''unifi''} then [Bandwidth ty eid data] else [])"

definition with_failure ::
    "ingest_env \<Rightarrow> string \<Rightarrow> ingest_config \<Rightarrow> string option \<Rightarrow> (string, json) dict \<Rightarrow> datetime option \<Rightarrow> int option \<Rightarrow> db \<Rightarrow> db" where
  "with_failure env ty cfg err config at_time by d =
     (let tb = save (en_frepr env) (si_now (en_site env)) ty (cfg_id cfg) False JNull err at_time by (db_snaps d) in
      d\<lparr>db_snaps := tb,
        db_session := alerting (en_fail_fault env)
          (record_failure (en_site env) (alert_config.truncate cfg) err config (snap_rows (alert_config.truncate cfg) tb)) (db_session d)\<rparr>)"

definition with_success :: "ingest_env \<Rightarrow> ingest_config \<Rightarrow> session \<Rightarrow> session" where
  "with_success env cfg = alerting (en_success_fault env) (\<lambda>s. Inr (record_success (si_now (en_site env)) (alert_config.truncate cfg) s))"

definition parsed_alerts :: "ingest_env \<Rightarrow> json \<Rightarrow> alert list option" where
  "parsed_alerts env data = (case en_parse env of None \<Rightarrow> None | Some parse \<Rightarrow> (case data of JDict _ \<Rightarrow> Some (parse data) | _ \<Rightarrow> None))"

definition with_alerts :: "ingest_env \<Rightarrow> ingest_config \<Rightarrow> (string, json) dict \<Rightarrow> json \<Rightarrow> session \<Rightarrow> session" where
  "with_alerts env cfg config data =
     alerting (en_alert_fault env) (evaluate_alerts (en_site env) (alert_config.truncate cfg) config (parsed_alerts env data))"

text \<open>
  \<open>ingest\<close>: the outcome, the cluster groups that have their primary in this pass, the database and the calls.
\<close>

definition ingest ::
    "ingest_env \<Rightarrow> string \<Rightarrow> int \<Rightarrow> collect_stamp \<Rightarrow> collected \<Rightarrow> (string, json) dict \<Rightarrow> datetime option
      \<Rightarrow> (string \<times> string) list \<Rightarrow> db \<Rightarrow> outcome \<times> (string \<times> string) list \<times> db \<times> effect list" where
  "ingest env ty eid stamp result config at_time owners d =
     (case check_stamp (dget (db_configs d) eid) stamp of
        Some rejected \<Rightarrow> (rejected, owners, d, [])
      | None \<Rightarrow>
          (let cfg = the (dget (db_configs d) eid);
               by = (if cs_collector stamp = COLLECTOR_PROBE then cs_probe stamp else None);
               snapshot_row = (\<lambda>data err. save (en_frepr env) (si_now (en_site env)) ty (cfg_id cfg) True data err at_time by (db_snaps d))
           in case result of
                Raised e \<Rightarrow> (FAILED, owners, with_failure env ty cfg (Some e) config at_time by d, [])
              | Failure err \<Rightarrow> (FAILED, owners, with_failure env ty cfg err config at_time by d, [])
              | Success data \<Rightarrow>
                  (let cfg1 = auto_group (en_frepr env) ty data cfg;
                       d1 = d\<lparr>db_configs := dset (db_configs d) eid cfg1\<rparr>;
                       grp = group_key ty cfg1
                   in if owned grp owners then
                        (STANDBY, owners,
                         d1\<lparr>db_snaps := snapshot_row JNull (Some STANDBY_MARKER), db_session := with_success env cfg1 (db_session d)\<rparr>, [])
                      else
                        (STORED, (case grp of None \<Rightarrow> owners | Some g \<Rightarrow> g # owners),
                         d1\<lparr>db_snaps := snapshot_row data None,
                            db_session := with_alerts env cfg1 config data (with_success env cfg1 (db_session d))\<rparr>,
                         bandwidth_calls ty eid data @ (if en_parse env = None then [] else [Hook eid data])))))"

section \<open>What a result writes\<close>

lemma alerting_fault: "alerting (Some f) step s = s\<lparr>ss_streaks := fst f\<rparr>"
  by (cases f) (simp add: alerting_def drop_since_def pending_count_def)

lemma check_stamp_drop: "check_stamp cfg stamp = Some r \<Longrightarrow> \<not> written r"
  by (auto simp: check_stamp_def Let_def written_def split: option.splits if_splits)

lemma check_stamp_keep:
  "check_stamp cfg stamp = None \<longleftrightarrow> (\<exists>c. cfg = Some c \<and> stamp_of c = stamp \<and> \<not> (cs_collector stamp = COLLECTOR_PROBE \<and> cs_probe stamp = None))"
proof -
  have "stamp_of c = stamp \<longleftrightarrow> cs_rev (stamp_of c) = cs_rev stamp \<and> cs_collector (stamp_of c) = cs_collector stamp \<and> cs_probe (stamp_of c) = cs_probe stamp" for c
    by (auto intro: collect_stamp.equality)
  then show ?thesis by (auto simp: check_stamp_def Let_def split: option.splits)
qed

lemma ingest_rejected:
  assumes "check_stamp (dget (db_configs d) eid) stamp = Some r"
  shows "ingest env ty eid stamp result config at_time owners d = (r, owners, d, [])"
  using assms by (simp add: ingest_def)

lemma ingest_written:
  assumes "check_stamp (dget (db_configs d) eid) stamp = None"
    and "ingest env ty eid stamp result config at_time owners d = (out, owners', d', calls)"
  shows "written out"
  using assms by (auto simp: ingest_def Let_def written_def split: collected.splits if_splits)

text \<open>The row an accepted result adds.\<close>

definition row_ok :: "ingest_env \<Rightarrow> collected \<Rightarrow> outcome \<Rightarrow> snap \<Rightarrow> bool" where
  "row_ok env result out r = (case result of
     Raised e \<Rightarrow> out = FAILED \<and> \<not> sn_ok r \<and> sn_data r = None \<and> sn_error r = Some e
   | Failure err \<Rightarrow> out = FAILED \<and> \<not> sn_ok r \<and> sn_data r = None \<and> sn_error r = err
   | Success data \<Rightarrow> sn_ok r \<and>
       (if out = STANDBY then sn_data r = None \<and> sn_error r = Some STANDBY_MARKER
        else out = STORED \<and> sn_error r = None \<and> sn_data r = (if data = JNull then None else Some (dumps (en_frepr env) data))))"

lemma ingest_row:
  assumes "check_stamp (dget (db_configs d) eid) stamp = None"
    and "ingest env ty eid stamp result config at_time owners d = (out, owners', d', calls)"
    and "dget (db_configs d) eid = Some c" and "cfg_id c = eid"
  shows "\<exists>r. tb_rows (db_snaps d') = tb_rows (db_snaps d) @ [r] \<and> sn_type r = ty \<and> sn_entity r = eid \<and>
    sn_by r = (if cs_collector stamp = COLLECTOR_PROBE then cs_probe stamp else None) \<and> row_ok env result out r"
  using assms
  by (cases result) (auto simp: ingest_def row_ok_def Let_def with_failure_def save_def split: if_splits)

text \<open>C14. A result is accepted exactly when the configuration still exists and its revision and collector are those
  the collection was started with. A rejected result changes nothing. An accepted one adds exactly one
  snapshot, of the right entity and probe: failed with the error, health only for a standby, with the data
  for a primary, whatever happens to the incident steps.\<close>

theorem ingest_writes:
  assumes "ingest env ty eid stamp result config at_time owners d = (out, owners', d', calls)"
    and "\<And>c. dget (db_configs d) eid = Some c \<Longrightarrow> cfg_id c = eid"
  shows "(written out \<longleftrightarrow> (\<exists>c. dget (db_configs d) eid = Some c \<and> stamp_of c = stamp \<and>
      \<not> (cs_collector stamp = COLLECTOR_PROBE \<and> cs_probe stamp = None))) \<and>
    (if written out then \<exists>r. tb_rows (db_snaps d') = tb_rows (db_snaps d) @ [r] \<and> sn_type r = ty \<and> sn_entity r = eid \<and>
      sn_by r = (if cs_collector stamp = COLLECTOR_PROBE then cs_probe stamp else None) \<and> row_ok env result out r
     else d' = d \<and> owners' = owners \<and> calls = [])"
proof (cases "check_stamp (dget (db_configs d) eid) stamp")
  case None
  then obtain c where "dget (db_configs d) eid = Some c" by (auto simp: check_stamp_keep)
  with ingest_row [OF None assms(1)] ingest_written [OF None assms(1)] assms(2) None show ?thesis by (simp add: check_stamp_keep)
next
  case (Some r)
  then have "\<not> (\<exists>c. dget (db_configs d) eid = Some c \<and> stamp_of c = stamp \<and> \<not> (cs_collector stamp = COLLECTOR_PROBE \<and> cs_probe stamp = None))"
    using check_stamp_keep [of "dget (db_configs d) eid" stamp] by auto
  with ingest_rejected [OF Some] assms(1) check_stamp_drop [OF Some] show ?thesis by auto
qed

section \<open>One primary per cluster group\<close>

text \<open>A pass of the scheduler: results are ingested one after the other and share the set of decided groups.\<close>

record collection =
  cn_env :: ingest_env
  cn_type :: string
  cn_id :: int
  cn_stamp :: collect_stamp
  cn_result :: collected
  cn_config :: "(string, json) dict"
  cn_at :: "datetime option"

type_synonym pass_state = "(outcome \<times> (string \<times> string) option) list \<times> (string \<times> string) list \<times> db"

definition ingest_one :: "collection \<Rightarrow> pass_state \<Rightarrow> pass_state" where
  "ingest_one c s = (case s of (outs, owners, d) \<Rightarrow>
     (case ingest (cn_env c) (cn_type c) (cn_id c) (cn_stamp c) (cn_result c) (cn_config c) (cn_at c) owners d of (out, owners', d', _) \<Rightarrow>
        (outs @ [(out, Option.bind (dget (db_configs d') (cn_id c)) (group_key (cn_type c)))], owners', d')))"

definition ingest_pass :: "collection list \<Rightarrow> db \<Rightarrow> pass_state" where
  "ingest_pass cs d = fold ingest_one cs ([], [], d)"

definition primaries :: "string \<times> string \<Rightarrow> (outcome \<times> (string \<times> string) option) list \<Rightarrow> nat" where
  "primaries k outs = length (filter (\<lambda>(r, g). r = STORED \<and> g = Some k) outs)"

definition pass_ok :: "pass_state \<Rightarrow> bool" where
  "pass_ok s = (case s of (outs, owners, d) \<Rightarrow>
     (\<forall>k. primaries k outs = (if k \<in> set owners then 1 else 0)) \<and> (\<forall>k. (STANDBY, Some k) \<in> set outs \<longrightarrow> k \<in> set owners))"

lemma ingest_owners:
  assumes "ingest env ty eid stamp result config at_time owners d = (out, owners', d', calls)"
    and "g = Option.bind (dget (db_configs d') eid) (group_key ty)"
  shows "(out = STORED \<longrightarrow> (case g of None \<Rightarrow> owners' = owners | Some k \<Rightarrow> k \<notin> set owners \<and> owners' = k # owners)) \<and>
    (out \<noteq> STORED \<longrightarrow> owners' = owners) \<and> (out = STANDBY \<longrightarrow> (\<exists>k. g = Some k \<and> k \<in> set owners))"
proof (cases "check_stamp (dget (db_configs d) eid) stamp")
  case None
  then show ?thesis using assms
    by (cases result) (auto simp: ingest_def Let_def owned_def dict_simps split: if_splits option.splits)
next
  case (Some r)
  with ingest_rejected [OF Some] assms(1) check_stamp_drop [OF Some] show ?thesis by (auto simp: written_def)
qed

lemma pass_ok_step: "pass_ok s \<Longrightarrow> pass_ok (ingest_one c s)"
proof -
  assume ok: "pass_ok s"
  obtain outs owners d where s: "s = (outs, owners, d)" by (cases s)
  obtain out owners' d' calls where i:
    "ingest (cn_env c) (cn_type c) (cn_id c) (cn_stamp c) (cn_result c) (cn_config c) (cn_at c) owners d = (out, owners', d', calls)"
    by (metis prod_cases4)
  define g where "g = Option.bind (dget (db_configs d') (cn_id c)) (group_key (cn_type c))"
  have s': "ingest_one c s = (outs @ [(out, g)], owners', d')" by (simp add: ingest_one_def s i g_def)
  have p: "primaries k outs = (if k \<in> set owners then 1 else 0)" and sb: "(STANDBY, Some k) \<in> set outs \<Longrightarrow> k \<in> set owners" for k
    using ok unfolding s pass_ok_def prod.case by blast+
  have app: "primaries k (outs @ [(out, g)]) = primaries k outs + (if out = STORED \<and> g = Some k then 1 else 0)" for k
    by (simp add: primaries_def)
  from ingest_owners [OF i g_def] show ?thesis
    unfolding s' pass_ok_def prod.case app p by (intro conjI allI impI) (auto dest!: sb split: option.splits)
qed

interpretation ingest_passes: step_system ingest_one pass_ok
  by unfold_locales (rule pass_ok_step)

text \<open>One primary per cluster group: in a pass over any collection results, a group has exactly one stored snapshot
  with data if any of its members delivered a result, and none otherwise; the other members that
  delivered are standbys.\<close>

theorem one_primary:
  "primaries k (fst (ingest_pass cs d)) =
     (if (STORED, Some k) \<in> set (fst (ingest_pass cs d)) \<or> (STANDBY, Some k) \<in> set (fst (ingest_pass cs d)) then 1 else 0)"
proof -
  obtain outs owners d' where p: "ingest_pass cs d = (outs, owners, d')" by (cases "ingest_pass cs d")
  have "pass_ok (ingest_pass cs d)"
    unfolding ingest_pass_def by (rule ingest_passes.run_good) (simp add: pass_ok_def primaries_def)
  then have "primaries k outs = (if k \<in> set owners then 1 else 0)" "(STANDBY, Some k) \<in> set outs \<Longrightarrow> k \<in> set owners"
    unfolding p pass_ok_def prod.case by blast+
  moreover have "(STORED, Some k) \<in> set outs \<longleftrightarrow> primaries k outs \<noteq> 0" by (auto simp: primaries_def filter_empty_conv)
  ultimately show ?thesis by (auto simp: p)
qed

section \<open>Incidents after a result\<close>

text \<open>The policy for the keys with an open incident.\<close>

definition alert_policy ::
    "site \<Rightarrow> alert_config \<Rightarrow> (string, json) dict \<Rightarrow> (int option \<times> string, nat) dict \<Rightarrow> alert list \<Rightarrow> (string \<times> string) set \<Rightarrow> (string \<times> string) set" where
  "alert_policy si cfg config streaks alerts K =
     {(rl, k) \<in> K. \<not> (rl = ALERT_RULE \<and> startswith k (alert_prefix (si_sha si) cfg) \<and> dget (current_alerts (si_sha si) cfg alerts) k = None)} \<union>
     {(ALERT_RULE, k) | k a. (k, a) \<in> set (current_alerts (si_sha si) cfg alerts) \<and> dget_or streaks (cfg_tenant cfg, k) 0 \<ge> 1 \<and> \<not> alert_quiet si config a}"

definition failure_policy ::
    "site \<Rightarrow> alert_config \<Rightarrow> (string, json) dict \<Rightarrow> snap_row list \<Rightarrow> (string \<times> string) set \<Rightarrow> (string \<times> string) set" where
  "failure_policy si cfg config snaps K = K \<union>
     (if failing_long (si_now si) snaps \<and> ((FAILED_RULE, failed_key cfg) \<in> K \<or>
         \<not> in_maintenance (si_tz si) (si_now si) (si_windows si) [failure_host si config])
      then {(FAILED_RULE, failed_key cfg)} else {})"

lemma with_success_keys:
  assumes "store_ok (ss_store s)" and "en_success_fault env = None"
  shows "store_ok (ss_store (with_success env cfg s))" and "ss_streaks (with_success env cfg s) = ss_streaks s"
    and "open_keys_of (ss_store (with_success env cfg s)) = open_keys_of (ss_store s) - {(FAILED_RULE, failed_key (alert_config.truncate cfg))}"
proof -
  have f: "ss_store (fold (resolve now msg) is s) = fold (\<lambda>i. resolve_incident now (inc_id i) msg) is (ss_store s)"
    "ss_streaks (fold (resolve now msg) is s) = ss_streaks s" for now msg "is"
    by (induction "is" arbitrary: s) (simp_all add: resolve_def)
  show "store_ok (ss_store (with_success env cfg s))" "ss_streaks (with_success env cfg s) = ss_streaks s"
    using resolve_matches(1) [OF assms(1)] assms(2) by (simp_all add: with_success_def alerting_def record_success_def open_exact_def f)
  show "open_keys_of (ss_store (with_success env cfg s)) = open_keys_of (ss_store s) - {(FAILED_RULE, failed_key (alert_config.truncate cfg))}"
    using record_success_keys [OF assms(1)] assms(2) by (simp add: with_success_def alerting_def)
qed

lemma with_alerts_keys:
  assumes "store_ok (ss_store s)" and "en_alert_fault env = None"
  shows "store_ok (ss_store (with_alerts env cfg config data s)) \<and>
    open_keys_of (ss_store (with_alerts env cfg config data s)) = (case parsed_alerts env data of
       None \<Rightarrow> open_keys_of (ss_store s)
     | Some alerts \<Rightarrow> alert_policy (en_site env) (alert_config.truncate cfg) config (ss_streaks s) alerts (open_keys_of (ss_store s)))"
proof (cases "parsed_alerts env data")
  case None
  with assms show ?thesis by (simp add: with_alerts_def alerting_def evaluate_alerts_def)
next
  case (Some alerts)
  with assms evaluate_alerts_refines [OF assms(1), of "en_site env" "alert_config.truncate cfg" config alerts]
  show ?thesis by (auto simp: with_alerts_def alerting_def alert_policy_def)
qed

lemma failure_keys:
  assumes "store_ok (ss_store s)"
  shows "\<exists>s'. record_failure si cfg err config snaps s = Inr s' \<and> store_ok (ss_store s') \<and>
    open_keys_of (ss_store s') = failure_policy si cfg config snaps (open_keys_of (ss_store s))"
  using failure_lifecycle [OF assms, of si cfg err config snaps] by (simp add: failure_policy_def failing_long_iff conj_assoc)

text \<open>C10. The composition of one accepted result with the incident store, when no database error interrupts it: the store stays
  well formed, and the keys with an open incident are those of the policy. A failure opens or continues only
  the configuration's failure key, judged on the snapshots including the failed one; a success closes that
  key; the primary's success also closes and opens the alerts of its source by the alert policy, under the
  cluster group the result itself may have introduced.\<close>

theorem ingest_refines:
  assumes "ingest env ty eid stamp result config at_time owners d = (out, owners', d', calls)"
    and "check_stamp (Some c) stamp = None" and "dget (db_configs d) eid = Some c" and "store_ok (ss_store (db_session d))"
    and "en_fail_fault env = None" and "en_success_fault env = None" and "en_alert_fault env = None"
  shows "let K = open_keys_of (ss_store (db_session d)); si = en_site env in
    store_ok (ss_store (db_session d')) \<and>
    open_keys_of (ss_store (db_session d')) =
      (case result of
         Success data \<Rightarrow>
           (let cfg = alert_config.truncate (auto_group (en_frepr env) ty data c); K1 = K - {(FAILED_RULE, failed_key cfg)} in
            if out = STANDBY then K1
            else (case parsed_alerts env data of None \<Rightarrow> K1
                  | Some alerts \<Rightarrow> alert_policy si cfg config (ss_streaks (db_session d)) alerts K1))
       | _ \<Rightarrow> failure_policy si (alert_config.truncate c) config (snap_rows (alert_config.truncate c) (db_snaps d')) K)"
proof -
  have failure: "store_ok (ss_store (db_session d')) \<and> open_keys_of (ss_store (db_session d')) =
      failure_policy (en_site env) (alert_config.truncate c) config (snap_rows (alert_config.truncate c) (db_snaps d')) (open_keys_of (ss_store (db_session d)))"
    if "d' = with_failure env ty c err config at_time prb d" for err prb
  proof -
    let ?c = "alert_config.truncate c" and ?tb = "db_snaps d'"
    obtain s' where s': "record_failure (en_site env) ?c err config (snap_rows ?c ?tb) (db_session d) = Inr s'" "store_ok (ss_store s')"
      "open_keys_of (ss_store s') = failure_policy (en_site env) ?c config (snap_rows ?c ?tb) (open_keys_of (ss_store (db_session d)))"
      using failure_keys [OF assms(4)] by blast
    have "db_session d' = alerting None (record_failure (en_site env) ?c err config (snap_rows ?c ?tb)) (db_session d)"
      unfolding that with_failure_def Let_def assms(5) by simp
    also have "\<dots> = s'" unfolding alerting_def using s'(1) by simp
    finally show ?thesis using s'(2,3) by simp
  qed
  show ?thesis
  proof (cases result)
    case (Success data)
    let ?cfg = "auto_group (en_frepr env) ty data c" and ?s = "db_session d"
    have st: "check_stamp (dget (db_configs d) eid) stamp = None" "the (dget (db_configs d) eid) = c" using assms(2,3) by simp_all
    note k = with_success_keys [OF assms(4,6), of ?cfg]
    show ?thesis
    proof (cases "owned (group_key ty ?cfg) owners")
      case True
      with assms(1) have "out = STANDBY" "db_session d' = with_success env ?cfg ?s"
        unfolding ingest_def st Let_def Success by auto
      with k show ?thesis unfolding Let_def Success by simp
    next
      case False
      with assms(1) have "out = STORED" "db_session d' = with_alerts env ?cfg config data (with_success env ?cfg ?s)"
        unfolding ingest_def st Let_def Success by auto
      with with_alerts_keys [OF k(1) assms(7), of ?cfg config data, unfolded k(2,3)] show ?thesis unfolding Let_def Success by simp
    qed
  next
    case (Raised e)
    with assms(1-3) have "d' = with_failure env ty c (Some e) config at_time (if cs_collector stamp = COLLECTOR_PROBE then cs_probe stamp else None) d"
      unfolding ingest_def Let_def Raised by simp
    from failure [OF this] show ?thesis unfolding Let_def Raised by simp
  next
    case (Failure err)
    with assms(1-3) have "d' = with_failure env ty c err config at_time (if cs_collector stamp = COLLECTOR_PROBE then cs_probe stamp else None) d"
      unfolding ingest_def Let_def Failure by simp
    from failure [OF this] show ?thesis unfolding Let_def Failure by simp
  qed
qed

section \<open>Newest snapshot\<close>

lemma first_by_last:
  assumes "sorted_wrt before rs"
  shows "first_by before rs = (if rs = [] then None else Some (last rs))"
  using assms
proof (induction rs rule: rev_induct)
  case (snoc r rs)
  then have "before (last rs) r" if "rs \<noteq> []" using that by (simp add: sorted_wrt_append)
  with snoc show ?case by (auto simp: first_by_def sorted_wrt_append)
qed (simp add: first_by_def)

lemma batch_lookup:
  "dget (get_latest_batch ty tb) e = first_by smaller_id (rows_of ty e tb)"
proof -
  let ?f = "\<lambda>e. first_by smaller_id (rows_of ty e tb)"
  have fold: "dget (foldl (\<lambda>d e. case ?f e of None \<Rightarrow> d | Some r \<Rightarrow> dset d e r) d es) e
      = (if e \<in> set es \<and> ?f e \<noteq> None then ?f e else dget d e)" for d es
    by (induction es arbitrary: d) (auto simp: dict_simps split: option.splits)
  have "rows_of ty e tb = []" if "e \<notin> set (map sn_entity (filter (\<lambda>r. sn_type r = ty) (tb_rows tb)))"
    using that by (auto simp: rows_of_def filter_empty_conv)
  then show ?thesis unfolding get_latest_batch_def fold by (auto simp: first_by_def dget_def)
qed

text \<open>The two ways to ask for the newest snapshot agree on an entity as long as its snapshots were stored in order of
  their time: the one for a single entity orders by time, the one for all entities by id.\<close>

theorem latest_agree:
  assumes "sorted_wrt (\<lambda>a b. sn_id a < sn_id b \<and> sn_time a \<le> sn_time b) (rows_of ty e tb)"
  shows "dget (get_latest_batch ty tb) e = get_latest ty e tb"
proof -
  have "sorted_wrt smaller_id (rows_of ty e tb)" "sorted_wrt older (rows_of ty e tb)"
    using assms by (auto simp: smaller_id_def older_def elim!: sorted_wrt_mono_rel [rotated])
  then show ?thesis by (simp add: batch_lookup get_latest_def first_by_last)
qed

text \<open>A late result of an earlier time: the two answers differ.\<close>

lemma late_result_differs:
  "let row = (\<lambda>i tm. \<lparr>sn_id = i, sn_type = ''nut'', sn_entity = 1, sn_time = tm, sn_ok = True, sn_data = None, sn_error = None, sn_by = Some 4, sn_at = Some tm\<rparr>);
       tb = \<lparr>tb_rows = [row 1 100, row 2 50], tb_next = 3\<rparr>
   in map_option sn_id (get_latest ''nut'' 1 tb) = Some 1 \<and> map_option sn_id (dget (get_latest_batch ''nut'' tb) 1) = Some 2"
  by code_simp

section \<open>Concrete runs\<close>

definition demo_ingest :: ingest_config where
  "demo_ingest = alert_config.extend demo_cfg \<lparr>cfg_rev = Some 7, cfg_collector = Some ''core'', cfg_probe = None\<rparr>"

definition demo_env :: ingest_env where
  "demo_env = \<lparr>en_site = demo_site, en_frepr = (\<lambda>_. []), en_parse = Some (\<lambda>_. [disk_alert]), en_fail_fault = None, en_success_fault = None, en_alert_fault = None\<rparr>"

definition demo_db :: db where
  "demo_db = \<lparr>db_configs = [(3, demo_ingest)], db_snaps = \<lparr>tb_rows = [], tb_next = 1\<rparr>, db_session = demo_session\<rparr>"

definition demo_stamp :: collect_stamp where
  "demo_stamp = \<lparr>cs_rev = 7, cs_collector = ''core'', cs_probe = None\<rparr>"

lemma demo_lookup: "dget (db_configs demo_db) 3 = Some demo_ingest" "dget (db_configs demo_db) 3 = Some c \<Longrightarrow> cfg_id c = 3"
  by (simp_all add: demo_db_def demo_ingest_def demo_cfg_def dget_def alert_config.defs)
     (auto simp: demo_ingest_def demo_cfg_def alert_config.defs)

lemma demo_accepted: "check_stamp (Some demo_ingest) demo_stamp = None"
  by (simp add: check_stamp_def stamp_of_def demo_ingest_def demo_cfg_def demo_stamp_def COLLECTOR_CORE_def COLLECTOR_PROBE_def alert_config.defs)

theorem ingest_writes_witness:
  "\<exists>owners' d' calls. ingest demo_env ''truenas'' 3 demo_stamp (Success (JDict [])) [] None [] demo_db = (STORED, owners', d', calls) \<and>
     (\<exists>r. tb_rows (db_snaps d') = [r] \<and> sn_entity r = 3 \<and> sn_ok r)"
proof -
  obtain out owners' d' calls where i: "ingest demo_env ''truenas'' 3 demo_stamp (Success (JDict [])) [] None [] demo_db = (out, owners', d', calls)"
    by (metis prod_cases4)
  have "out = STORED" using i demo_lookup(1) demo_accepted by (simp add: ingest_def Let_def owned_def split: if_splits option.splits)
  moreover from this have "written out" by (simp add: written_def)
  ultimately show ?thesis using ingest_writes [OF i demo_lookup(2)] i by (auto simp: row_ok_def demo_db_def)
qed

theorem ingest_refines_witness:
  "\<exists>out owners' d' calls. ingest demo_env ''truenas'' 3 demo_stamp (Success (JDict [])) [] None [] demo_db = (out, owners', d', calls) \<and>
     store_ok (ss_store (db_session d')) \<and> (ALERT_RULE, alert_key demo_sha demo_cfg disk_alert) \<in> open_keys_of (ss_store (db_session d'))"
proof -
  obtain out owners' d' calls where i: "ingest demo_env ''truenas'' 3 demo_stamp (Success (JDict [])) [] None [] demo_db = (out, owners', d', calls)"
    by (metis prod_cases4)
  have cfg: "alert_config.truncate (auto_group (en_frepr demo_env) ''truenas'' (JDict []) demo_ingest) = demo_cfg"
    by (simp add: auto_group_def Let_def demo_ingest_def demo_cfg_def alert_config.defs)
  have stored: "out = STORED" using i demo_lookup(1) demo_accepted
    by (auto simp: ingest_def Let_def owned_def group_key_def auto_group_def demo_ingest_def demo_cfg_def alert_config.defs opt_str_def split: if_splits)
  have ok: "store_ok (ss_store (db_session demo_db))" by (simp add: demo_db_def demo_session_def)
  have cur: "current_alerts demo_sha demo_cfg [disk_alert] = [(alert_key demo_sha demo_cfg disk_alert, disk_alert)]"
    by (simp add: current_alerts_def disk_alert_def INCIDENT_SEVERITIES_def setdefault_def)
  have streak: "dget_or (ss_streaks (db_session demo_db)) (cfg_tenant demo_cfg, alert_key demo_sha demo_cfg disk_alert) 0 = 1"
    by (simp add: demo_db_def demo_session_def demo_cfg_def dget_or_def dget_def)
  have env: "en_fail_fault demo_env = None" "en_success_fault demo_env = None" "en_alert_fault demo_env = None"
      "parsed_alerts demo_env (JDict []) = Some [disk_alert]" "en_site demo_env = demo_site" "si_sha demo_site = demo_sha"
    by (simp_all add: demo_env_def parsed_alerts_def demo_site_def)
  from ingest_refines [OF i demo_accepted demo_lookup(1) ok env(1-3)] i stored show ?thesis
    unfolding Let_def by (auto simp: cfg env(4-6) alert_policy_def cur streak demo_quiet)
qed

end
