(* ===== verification/Leader_Election.thy ===== *)
theory Leader_Election
  imports Interfaces
begin

text \<open>
  Leader election of the scheduler (\<^verbatim>\<open>ee/backend/nodeglow_ee/ha/leader_lock.py\<close> and
  \<^verbatim>\<open>coordinator.py\<close>): a lease that one instance holds for a limited time, and the loop by which every
  instance acquires or renews it and resumes or pauses its scheduler. A cluster is a step relation over
  the lease table and the instances: time passes, an instance starts, its loop runs with an answer of the
  lock, or its call of the lock fails.
\<close>

section \<open>The lease\<close>

type_synonym leases = "(string, string \<times> rat) dict"

definition mem_acquire_leader :: "rat \<Rightarrow> string \<Rightarrow> string \<Rightarrow> rat \<Rightarrow> leases \<Rightarrow> leases \<times> bool" where
  "mem_acquire_leader now lock_name instance_id ttl leases =
     (case dget leases lock_name of
        None \<Rightarrow> (dset leases lock_name (instance_id, now + ttl), True)
      | Some (holder, expiry) \<Rightarrow>
          (if expiry \<le> now \<or> holder = instance_id then (dset leases lock_name (instance_id, now + ttl), True)
           else (leases, False)))"

definition mem_release_leader :: "string \<Rightarrow> string \<Rightarrow> leases \<Rightarrow> leases" where
  "mem_release_leader lock_name instance_id leases =
     (case dget leases lock_name of
        Some (holder, _) \<Rightarrow> (if holder = instance_id then ddel leases lock_name else leases)
      | None \<Rightarrow> leases)"

text \<open>The first argument is what Redis answers, if it is configured; an error is not a lease.\<close>

definition try_acquire_leader ::
    "bool result option \<Rightarrow> rat \<Rightarrow> string \<Rightarrow> string \<Rightarrow> rat \<Rightarrow> leases \<Rightarrow> (leases \<times> bool) result" where
  "try_acquire_leader redis now lock_name instance_id ttl leases =
     (case redis of
        Some (Inl e) \<Rightarrow> Inl e
      | Some (Inr leader) \<Rightarrow> Inr (leases, leader)
      | None \<Rightarrow> Inr (mem_acquire_leader now lock_name instance_id ttl leases))"

definition release_leader :: "bool \<Rightarrow> string \<Rightarrow> string \<Rightarrow> leases \<Rightarrow> leases" where
  "release_leader redis lock_name instance_id leases =
     (if redis then leases else mem_release_leader lock_name instance_id leases)"

section \<open>The coordinator of an instance\<close>

definition SCHEDULER_LEADER_LOCK :: string where "SCHEDULER_LEADER_LOCK = ''nodeglow:scheduler:leader''"
definition LEADER_TTL_SECONDS :: rat where "LEADER_TTL_SECONDS = 30"
definition LEADER_RENEW_SECONDS :: rat where "LEADER_RENEW_SECONDS = 10"

record coordinator =
  is_leader :: bool
  jobs_running :: bool

text \<open>Without Redis or without the license the core starts the scheduler on its own.\<close>

definition wants_control :: "string \<Rightarrow> bool \<Rightarrow> bool" where
  "wants_control redis_url ha_licensed \<longleftrightarrow> redis_url \<noteq> [] \<and> ha_licensed"

text \<open>\<open>start\<close>: the scheduler starts paused.\<close>

definition coordinator_start :: coordinator where
  "coordinator_start = \<lparr>is_leader = False, jobs_running = False\<rparr>"

definition apply_leadership :: "bool \<Rightarrow> coordinator \<Rightarrow> coordinator" where
  "apply_leadership leader c =
     (if leader \<and> \<not> is_leader c then \<lparr>is_leader = True, jobs_running = True\<rparr>
      else if \<not> leader \<and> is_leader c then \<lparr>is_leader = False, jobs_running = False\<rparr>
      else c)"

text \<open>One pass of the loop: an error keeps the current state.\<close>

definition loop_pass :: "bool result \<Rightarrow> coordinator \<Rightarrow> coordinator" where
  "loop_pass answer c = (case answer of Inl _ \<Rightarrow> c | Inr leader \<Rightarrow> apply_leadership leader c)"

section \<open>A cluster\<close>

text \<open>The lease table all instances share, the instances, the time, and when each last got the lease.\<close>

record cluster =
  cl_leases :: leases
  cl_nodes :: "string \<rightharpoonup> coordinator"
  cl_now :: rat
  cl_renewed :: "string \<Rightarrow> rat"

definition no_cluster :: cluster where
  "no_cluster = \<lparr>cl_leases = [], cl_nodes = Map.empty, cl_now = 0, cl_renewed = (\<lambda>_. 0)\<rparr>"

datatype event = Wait rat | Start string | Pass string | Failed_Pass string

definition lock_pass :: "string \<Rightarrow> cluster \<Rightarrow> coordinator \<Rightarrow> cluster" where
  "lock_pass n s c =
     (case mem_acquire_leader (cl_now s) SCHEDULER_LEADER_LOCK n LEADER_TTL_SECONDS (cl_leases s) of (ls, leader) \<Rightarrow>
        s\<lparr>cl_leases := ls, cl_nodes := (cl_nodes s)(n \<mapsto> loop_pass (Inr leader) c),
          cl_renewed := (if leader then (cl_renewed s)(n := cl_now s) else cl_renewed s)\<rparr>)"

inductive step :: "cluster \<Rightarrow> event \<Rightarrow> cluster \<Rightarrow> bool" where
  wait: "0 \<le> d \<Longrightarrow> step s (Wait d) (s\<lparr>cl_now := cl_now s + d\<rparr>)"
| start: "step s (Start n) (s\<lparr>cl_nodes := (cl_nodes s)(n \<mapsto> coordinator_start)\<rparr>)"
| pass: "cl_nodes s n = Some c \<Longrightarrow> step s (Pass n) (lock_pass n s c)"
| failed_pass: "cl_nodes s n = Some c \<Longrightarrow> step s (Failed_Pass n) (s\<lparr>cl_nodes := (cl_nodes s)(n \<mapsto> loop_pass (Inl (RuntimeError e)) c)\<rparr>)"

inductive_cases stepE: "step s e s'"

inductive run :: "cluster \<Rightarrow> event list \<Rightarrow> cluster \<Rightarrow> bool" where
  none: "run s [] s"
| next_step: "step s e s' \<Longrightarrow> run s' es s'' \<Longrightarrow> run s (e # es) s''"

definition leader :: "cluster \<Rightarrow> string \<Rightarrow> bool" where
  "leader s n \<longleftrightarrow> (\<exists>c. cl_nodes s n = Some c \<and> is_leader c)"

definition runs_jobs :: "cluster \<Rightarrow> string \<Rightarrow> bool" where
  "runs_jobs s n \<longleftrightarrow> (\<exists>c. cl_nodes s n = Some c \<and> jobs_running c)"

section \<open>The contract of a lease\<close>

text \<open>
  What the loop relies on: at one time at most one instance holds the lease, who acquires it holds it for
  the time to live, and an attempt of another instance does not take a lease that is still held.
\<close>

locale lease =
  fixes acquire :: "rat \<Rightarrow> string \<Rightarrow> 's \<Rightarrow> 's \<times> bool"
    and held :: "'s \<Rightarrow> rat \<Rightarrow> string \<Rightarrow> bool"
    and ttl :: rat
  assumes one_holder: "held s t a \<Longrightarrow> held s t b \<Longrightarrow> a = b"
    and acquired: "snd (acquire t a s) \<Longrightarrow> t \<le> t' \<Longrightarrow> t' < t + ttl \<Longrightarrow> held (fst (acquire t a s)) t' a"
    and not_taken: "held s t' b \<Longrightarrow> t \<le> t' \<Longrightarrow> a \<noteq> b \<Longrightarrow> held (fst (acquire t a s)) t' b"
begin

lemma refused_while_held: "held s t b \<Longrightarrow> a \<noteq> b \<Longrightarrow> 0 < ttl \<Longrightarrow> \<not> snd (acquire t a s)"
  using acquired [of t a s t] not_taken [of s t b t a] one_holder by auto

text \<open>A set of instances, each with the time of its last acquisition, whose leases are all still recorded.\<close>

definition backed :: "'s \<Rightarrow> rat \<Rightarrow> (string \<Rightarrow> rat) \<Rightarrow> string set \<Rightarrow> bool" where
  "backed s now renewed L \<longleftrightarrow> (\<forall>a \<in> L. \<forall>t. now \<le> t \<longrightarrow> t < renewed a + ttl \<longrightarrow> held s t a)"

lemma backed_later: "backed s now renewed L \<Longrightarrow> now \<le> now' \<Longrightarrow> backed s now' renewed L"
  by (auto simp: backed_def)

lemma backed_subset: "backed s now renewed L \<Longrightarrow> L' \<subseteq> L \<Longrightarrow> backed s now renewed L'"
  by (auto simp: backed_def)

lemma backed_acquire:
  assumes "backed s now renewed L"
  shows "backed (fst (acquire now a s)) now (if snd (acquire now a s) then renewed(a := now) else renewed)
    (if snd (acquire now a s) then insert a L else L - {a})"
  using assms acquired [of now a s] not_taken [of s _ _ now a] by (auto simp: backed_def)

lemma backed_exclusive:
  assumes "backed s now renewed L" and "a \<in> L" and "b \<in> L" and "now < renewed a + ttl" and "now < renewed b + ttl"
  shows "a = b"
  using assms one_holder [of s now a b] by (auto simp: backed_def)

end

definition lease_held :: "leases \<Rightarrow> rat \<Rightarrow> string \<Rightarrow> bool" where
  "lease_held ls t n \<longleftrightarrow> (\<exists>expiry. dget ls SCHEDULER_LEADER_LOCK = Some (n, expiry) \<and> t < expiry)"

interpretation scheduler_lease: lease "\<lambda>t n. mem_acquire_leader t SCHEDULER_LEADER_LOCK n LEADER_TTL_SECONDS" lease_held LEADER_TTL_SECONDS
  by unfold_locales (auto simp: lease_held_def mem_acquire_leader_def dict_simps split: option.splits)

section \<open>No split brain while leases are renewed\<close>

abbreviation backed_cluster :: "cluster \<Rightarrow> bool" where
  "backed_cluster s \<equiv> scheduler_lease.backed (cl_leases s) (cl_now s) (cl_renewed s) {n. leader s n}"

lemma leader_loop: "is_leader (loop_pass (Inr l) c) = l"
  by (simp add: loop_pass_def apply_leadership_def)

lemma lock_pass_backed:
  assumes "backed_cluster s" and "cl_nodes s n = Some c"
  shows "backed_cluster (lock_pass n s c)"
proof -
  obtain ls l where a: "mem_acquire_leader (cl_now s) SCHEDULER_LEADER_LOCK n LEADER_TTL_SECONDS (cl_leases s) = (ls, l)" by fastforce
  have "{m. leader (lock_pass n s c) m} = (if l then insert n {m. leader s m} else {m. leader s m} - {n})"
    using a by (auto simp: lock_pass_def leader_def leader_loop split: if_splits)
  with scheduler_lease.backed_acquire [OF assms(1), of n] a show ?thesis by (simp add: lock_pass_def split: if_splits)
qed

lemma step_backed: "step s e s' \<Longrightarrow> backed_cluster s \<Longrightarrow> backed_cluster s'"
proof (induction rule: step.induct)
  case (wait d s)
  then show ?case using scheduler_lease.backed_later [of "cl_leases s" "cl_now s"] by (simp add: leader_def)
next
  case (start s n)
  have "{m. leader (s\<lparr>cl_nodes := (cl_nodes s)(n \<mapsto> coordinator_start)\<rparr>) m} \<subseteq> {m. leader s m}"
    by (auto simp: leader_def coordinator_start_def)
  with start show ?case using scheduler_lease.backed_subset by simp
next
  case (pass s n c)
  then show ?case by (simp add: lock_pass_backed)
next
  case (failed_pass s n c e)
  then have "(cl_nodes s)(n \<mapsto> loop_pass (Inl (RuntimeError e)) c) = cl_nodes s" by (auto simp: loop_pass_def)
  with failed_pass show ?case by simp
qed

lemma run_backed: "run s es s' \<Longrightarrow> backed_cluster s \<Longrightarrow> backed_cluster s'"
  by (induction rule: run.induct) (auto dest: step_backed)

lemma jobs_iff_leader:
  "run s es s' \<Longrightarrow> (\<And>n. runs_jobs s n = leader s n) \<Longrightarrow> runs_jobs s' n = leader s' n"
proof (induction rule: run.induct)
  case (next_step s e s' es s'')
  have eq: "(cl_nodes s n = Some c \<Longrightarrow> jobs_running c = is_leader c)" for n c
    using next_step.prems [of n] by (auto simp: runs_jobs_def leader_def)
  from next_step.hyps(1) have "runs_jobs s' m = leader s' m" for m
    by (cases rule: step.cases)
       (use next_step.prems [of m] eq in \<open>auto simp: runs_jobs_def leader_def lock_pass_def loop_pass_def apply_leadership_def coordinator_start_def split: prod.splits\<close>)
  then show ?case by (rule next_step.IH)
qed

text \<open>C22. No split brain while leases are renewed: whatever instances start, wait, renew and fail in whatever order, two instances
  run the scheduled jobs at the same time only if one of them got the lease for the last time a full
  time to live ago.\<close>

theorem single_leader:
  assumes "run no_cluster es s" and "runs_jobs s a" and "runs_jobs s b" and "a \<noteq> b"
  shows "cl_renewed s a + LEADER_TTL_SECONDS \<le> cl_now s \<or> cl_renewed s b + LEADER_TTL_SECONDS \<le> cl_now s"
proof -
  have "backed_cluster no_cluster" by (simp add: no_cluster_def leader_def scheduler_lease.backed_def)
  with run_backed [OF assms(1)] have "backed_cluster s" .
  moreover have "leader s a" "leader s b"
    using jobs_iff_leader [OF assms(1)] assms(2,3) by (auto simp: no_cluster_def runs_jobs_def leader_def)
  ultimately show ?thesis
    using scheduler_lease.backed_exclusive [of "cl_leases s" "cl_now s" "cl_renewed s" "{n. leader s n}" a b] assms(4) by fastforce
qed

text \<open>
  The schedule of an instance that is cut off from the lock: it gets the lease, its renewals fail, the lease
  runs out and a second instance gets it.
\<close>

definition cut_off :: "event list" where
  "cut_off = [Start ''a'', Start ''b'', Pass ''a'', Wait 20, Failed_Pass ''a'', Wait 20, Pass ''b'']"

text \<open>The relation as a function, for runs of concrete schedules.\<close>

fun exec :: "event \<Rightarrow> cluster \<Rightarrow> cluster option" where
  "exec (Wait d) s = (if 0 \<le> d then Some (s\<lparr>cl_now := cl_now s + d\<rparr>) else None)"
| "exec (Start n) s = Some (s\<lparr>cl_nodes := (cl_nodes s)(n \<mapsto> coordinator_start)\<rparr>)"
| "exec (Pass n) s = map_option (lock_pass n s) (cl_nodes s n)"
| "exec (Failed_Pass n) s = map_option (\<lambda>c. s\<lparr>cl_nodes := (cl_nodes s)(n \<mapsto> loop_pass (Inl (RuntimeError [])) c)\<rparr>) (cl_nodes s n)"

fun exec_all :: "event list \<Rightarrow> cluster \<Rightarrow> cluster option" where
  "exec_all [] s = Some s"
| "exec_all (e # es) s = Option.bind (exec e s) (exec_all es)"

lemma exec_step: "exec e s = Some s' \<Longrightarrow> step s e s'"
  by (cases e) (auto intro: step.intros split: if_splits)

lemma exec_run: "exec_all es s = Some s' \<Longrightarrow> run s es s'"
  by (induction es arbitrary: s) (auto intro: run.intros exec_step simp: bind_eq_Some_conv)

lemma cut_off_run:
  "\<exists>s. run no_cluster cut_off s \<and> runs_jobs s ''a'' \<and> runs_jobs s ''b'' \<and> cl_now s - cl_renewed s ''a'' = 40 \<and> cl_now s = cl_renewed s ''b''"
proof -
  have "case exec_all cut_off no_cluster of None \<Rightarrow> False
    | Some s \<Rightarrow> map_option jobs_running (cl_nodes s ''a'') = Some True \<and> map_option jobs_running (cl_nodes s ''b'') = Some True \<and>
        cl_now s - cl_renewed s ''a'' = 40 \<and> cl_now s = cl_renewed s ''b''"
    by code_simp
  then show ?thesis
    by (cases "exec_all cut_off no_cluster") (auto simp: runs_jobs_def intro!: exI [of _ "the (exec_all cut_off no_cluster)"] exec_run)
qed

theorem single_leader_witness:
  "\<exists>s. run no_cluster cut_off s \<and> runs_jobs s ''a'' \<and> runs_jobs s ''b'' \<and>
     (cl_renewed s ''a'' + LEADER_TTL_SECONDS \<le> cl_now s \<or> cl_renewed s ''b'' + LEADER_TTL_SECONDS \<le> cl_now s)"
proof -
  obtain s where s: "run no_cluster cut_off s" "runs_jobs s ''a''" "runs_jobs s ''b''" using cut_off_run by blast
  with single_leader [OF this] show ?thesis by auto
qed

text \<open>An instance that cannot reach the lock does not stop: twenty seconds after its lease ran out it still runs the scheduled
  jobs beside the instance that now holds the lease.\<close>

theorem cut_off_leader_keeps_running:
  "\<exists>s. run no_cluster cut_off s \<and> runs_jobs s ''a'' \<and> runs_jobs s ''b'' \<and>
     cl_renewed s ''a'' + LEADER_TTL_SECONDS < cl_now s \<and> lease_held (cl_leases s) (cl_now s) ''b'' \<and> \<not> lease_held (cl_leases s) (cl_now s) ''a''"
proof -
  obtain s where s: "run no_cluster cut_off s" "runs_jobs s ''a''" "runs_jobs s ''b''"
      "cl_now s - cl_renewed s ''a'' = 40" "cl_now s = cl_renewed s ''b''" using cut_off_run by blast
  have ttl: "0 < LEADER_TTL_SECONDS" by (simp add: LEADER_TTL_SECONDS_def)
  have "backed_cluster s" by (rule run_backed [OF s(1)]) (simp add: no_cluster_def leader_def scheduler_lease.backed_def)
  moreover have "leader s ''b''" using jobs_iff_leader [OF s(1)] s(3) by (auto simp: no_cluster_def runs_jobs_def leader_def)
  ultimately have b: "lease_held (cl_leases s) (cl_now s) ''b''" using s(5) ttl unfolding scheduler_lease.backed_def by auto
  then have "\<not> lease_held (cl_leases s) (cl_now s) ''a''" using scheduler_lease.one_holder by fastforce
  with s b show ?thesis by (auto simp: LEADER_TTL_SECONDS_def)
qed

text \<open>The lease in the table ends when the last acquisition of its holder does.\<close>

lemma lease_ends:
  "run s es s' \<Longrightarrow> (\<And>h t. dget (cl_leases s) SCHEDULER_LEADER_LOCK = Some (h, t) \<Longrightarrow> t = cl_renewed s h + LEADER_TTL_SECONDS) \<Longrightarrow>
   dget (cl_leases s') SCHEDULER_LEADER_LOCK = Some (h, t) \<Longrightarrow> t = cl_renewed s' h + LEADER_TTL_SECONDS"
proof (induction arbitrary: h t rule: run.induct)
  case (next_step s e s' es s'')
  from next_step.hyps(1) have "t = cl_renewed s' h + LEADER_TTL_SECONDS" if "dget (cl_leases s') SCHEDULER_LEADER_LOCK = Some (h, t)" for h t
    by (cases rule: step.cases)
       (use next_step.prems(1) that in \<open>auto simp: lock_pass_def mem_acquire_leader_def dict_simps split: option.splits if_splits\<close>)
  then show ?case using next_step.IH next_step.prems(2) by blast
qed blast

text \<open>A standby takes over: once every other instance's last acquisition is a time to live ago, the next pass of an instance's
  loop makes it the holder of the lease and it runs the scheduled jobs.\<close>

theorem standby_takes_over:
  assumes "run no_cluster es s" and "cl_nodes s n = Some c"
    and "\<And>m. m \<noteq> n \<Longrightarrow> cl_renewed s m + LEADER_TTL_SECONDS \<le> cl_now s"
  shows "\<exists>s'. step s (Pass n) s' \<and> runs_jobs s' n \<and> lease_held (cl_leases s') (cl_now s') n"
proof -
  have ends: "t = cl_renewed s h + LEADER_TTL_SECONDS" if "dget (cl_leases s) SCHEDULER_LEADER_LOCK = Some (h, t)" for h t
    using lease_ends [OF assms(1) _ that] by (simp add: no_cluster_def)
  have "snd (mem_acquire_leader (cl_now s) SCHEDULER_LEADER_LOCK n LEADER_TTL_SECONDS (cl_leases s))"
    using assms(3) ends by (auto simp: mem_acquire_leader_def split: option.splits)
  moreover have "runs_jobs s n = leader s n" using jobs_iff_leader [OF assms(1)] by (auto simp: no_cluster_def runs_jobs_def leader_def)
  ultimately have "runs_jobs (lock_pass n s c) n \<and> lease_held (cl_leases (lock_pass n s c)) (cl_now (lock_pass n s c)) n"
    using scheduler_lease.acquired [of "cl_now s" n "cl_leases s" "cl_now s"] assms(2)
    by (auto simp: lock_pass_def runs_jobs_def leader_def loop_pass_def apply_leadership_def LEADER_TTL_SECONDS_def split: prod.splits)
  with step.pass [of s n c] assms(2) show ?thesis by blast
qed

theorem standby_takes_over_witness:
  "\<exists>s. run no_cluster [Start ''a'', Start ''b'', Pass ''a'', Wait 30] s \<and>
     (\<exists>s'. step s (Pass ''b'') s' \<and> runs_jobs s' ''b'' \<and> lease_held (cl_leases s') (cl_now s') ''b'')"
proof -
  let ?es = "[Start ''a'', Start ''b'', Pass ''a'', Wait 30]"
  define s where "s = the (exec_all ?es no_cluster)"
  have x: "exec_all ?es no_cluster = Some s" and r: "cl_renewed s = (\<lambda>_. 0)(''a'' := 0)" "cl_now s = 30" and b: "cl_nodes s ''b'' = Some coordinator_start"
    by (simp_all add: s_def no_cluster_def lock_pass_def mem_acquire_leader_def)
  from exec_run [OF x] have run: "run no_cluster ?es s" .
  have "cl_renewed s m + LEADER_TTL_SECONDS \<le> cl_now s" for m by (simp add: r LEADER_TTL_SECONDS_def)
  with standby_takes_over [OF run b] run show ?thesis by blast
qed

end
