(* ===== verification/Ip_Address.thy ===== *)
theory Ip_Address
  imports Json_Print "HOL-Library.Word"
begin

text \<open>
  The part of Python's \<^verbatim>\<open>ipaddress\<close> that the program uses, at the width of the addresses: parsing of IPv4 and
  IPv6 literals as in Python 3.12 and the membership of an address in a network.
\<close>

unbundle bit_operations_syntax

datatype ip = V4 "32 word" | V6 "128 word"

section \<open>Literals\<close>

definition octet :: "string \<Rightarrow> int option" where
  "octet s =
     (if s \<noteq> [] \<and> list_all is_digit s \<and> length s \<le> 3 \<and> (s = ''0'' \<or> hd s \<noteq> CHR ''0'') \<and> nat_of_digits s \<le> 255
      then Some (int (nat_of_digits s)) else None)"

definition parse_ipv4 :: "string \<Rightarrow> 32 word option" where
  "parse_ipv4 s =
     (case map octet (split_on CHR ''.'' s) of
        [Some a, Some b, Some c, Some d] \<Rightarrow> Some (word_of_int (((a * 256 + b) * 256 + c) * 256 + d))
      | _ \<Rightarrow> None)"

definition hextet :: "string \<Rightarrow> int option" where
  "hextet s =
     (if s \<noteq> [] \<and> length s \<le> 4 \<and> list_all (\<lambda>c. hex_val c \<noteq> None) s
      then Some (foldl (\<lambda>n c. n * 16 + int (the (hex_val c))) 0 s) else None)"

definition show_hextet :: "int \<Rightarrow> string" where
  "show_hextet n = map (\<lambda>k. hex_digit (nat (n div 16 ^ k mod 16))) [3, 2, 1, 0]"

text \<open>The parts of the text between colons; a dotted quad at the end stands for two of them.\<close>

definition v6_parts :: "string \<Rightarrow> string list option" where
  "v6_parts s =
     (let parts = split_on CHR '':'' s in
      if length parts < 3 then None
      else if CHR ''.'' \<in> set (last parts) then
        (case parse_ipv4 (last parts) of
           None \<Rightarrow> None
         | Some v \<Rightarrow> Some (butlast parts @ [show_hextet (uint v div 65536), show_hextet (uint v mod 65536)]))
      else Some parts)"

definition join_hextets :: "string list \<Rightarrow> nat \<Rightarrow> string list \<Rightarrow> 128 word option" where
  "join_hextets hi skipped lo =
     (let hs = map hextet hi @ replicate skipped (Some 0) @ map hextet lo in
      if None \<in> set hs then None else Some (word_of_int (foldl (\<lambda>n h. n * 65536 + the h) 0 hs)))"

definition parse_ipv6 :: "string \<Rightarrow> 128 word option" where
  "parse_ipv6 s =
     (case v6_parts s of
        None \<Rightarrow> None
      | Some parts \<Rightarrow>
          (if length parts > 9 then None
           else (case filter (\<lambda>i. parts ! i = []) [1 ..< length parts - 1] of
                   [] \<Rightarrow> (if length parts \<noteq> 8 \<or> hd parts = [] \<or> last parts = [] then None else join_hextets parts 0 [])
                 | [i] \<Rightarrow>
                     (if hd parts = [] \<and> i \<noteq> 1 \<or> last parts = [] \<and> length parts - i - 1 \<noteq> 1 then None
                      else (let hi = (if hd parts = [] then [] else take i parts);
                                lo = (if last parts = [] then [] else drop (i + 1) parts) in
                            if length hi + length lo \<ge> 8 then None else join_hextets hi (8 - (length hi + length lo)) lo))
                 | _ \<Rightarrow> None)))"

definition ip_address :: "string \<Rightarrow> ip option" where
  "ip_address s =
     (case parse_ipv4 s of Some a \<Rightarrow> Some (V4 a) | None \<Rightarrow> map_option V6 (parse_ipv6 s))"

section \<open>Text of an address\<close>

definition show_ipv4 :: "32 word \<Rightarrow> string" where
  "show_ipv4 a = join ''.'' (map (\<lambda>k. show_int (uint a div 256 ^ k mod 256)) [3, 2, 1, 0])"

text \<open>\<^verbatim>\<open>'%x'\<close> of a 16-bit number.\<close>

definition hex_text :: "int \<Rightarrow> string" where
  "hex_text n = (let d = dropWhile (\<lambda>c. c = CHR ''0'') (show_hextet n) in if d = [] then ''0'' else d)"

text \<open>The longest run of zero hextets, the first of several: its start and length.\<close>

definition best_run :: "string list \<Rightarrow> nat \<times> nat" where
  "best_run hs =
     (case fold (\<lambda>(i, h) (best_start, best_len, cur_len).
        if h = ''0'' then (if cur_len + 1 > best_len then (i - cur_len, cur_len + 1, cur_len + 1) else (best_start, best_len, cur_len + 1))
        else (best_start, best_len, 0)) (enumerate 0 hs) (0, 0, 0) of (s, l, _) \<Rightarrow> (s, l))"

definition compress_hextets :: "string list \<Rightarrow> string list" where
  "compress_hextets hs =
     (case best_run hs of (s, l) \<Rightarrow>
        (if l \<le> 1 then hs
         else (if s = 0 then [[]] else []) @ take s hs @ [[]] @ drop (s + l) hs @ (if s + l = length hs then [[]] else [])))"

definition show_ip :: "ip \<Rightarrow> string" where
  "show_ip a = (case a of
     V4 w \<Rightarrow> show_ipv4 w
   | V6 w \<Rightarrow> join '':'' (compress_hextets (map (\<lambda>k. hex_text (uint w div 65536 ^ k mod 65536)) [7, 6, 5, 4, 3, 2, 1, 0])))"

section \<open>Networks\<close>

text \<open>\<^verbatim>\<open>address in network\<close>: the address under the netmask is the network's address.\<close>

definition in_net :: "'a::len word \<Rightarrow> 'a word \<Rightarrow> nat \<Rightarrow> bool" where
  "in_net a net prefix \<longleftrightarrow> a AND NOT (mask (LENGTH('a) - prefix)) = net"

lemma and_not_mask_eq:
  fixes a net :: "'a::len word"
  assumes "net AND mask m = 0"
  shows "a AND NOT (mask m) = net \<longleftrightarrow> drop_bit m a = drop_bit m net"
proof
  assume "a AND NOT (mask m) = net"
  then have "drop_bit m net = drop_bit m (a AND NOT (mask m))" by simp
  also have "\<dots> = drop_bit m a" by (rule bit_eqI) (auto simp: bit_simps dest: bit_imp_le_length)
  finally show "drop_bit m a = drop_bit m net" by simp
next
  assume d: "drop_bit m a = drop_bit m net"
  show "a AND NOT (mask m) = net"
  proof (rule bit_eqI)
    fix n assume n: "possible_bit TYPE('a word) n"
    show "bit (a AND NOT (mask m)) n = bit net n"
    proof (cases "n < m")
      case True
      have "\<not> bit net n" using arg_cong [OF assms, of "\<lambda>x. bit x n"] True n by (auto simp: bit_simps)
      with True n show ?thesis by (simp add: bit_simps)
    next
      case False
      then obtain k where k: "n = m + k" using le_Suc_ex not_less by blast
      have "bit (drop_bit m a) k = bit (drop_bit m net) k" using d by simp
      with False n k show ?thesis by (auto simp: bit_simps add.commute)
    qed
  qed
qed

lemma in_net_div:
  fixes a net :: "'a::len word"
  assumes "net AND mask (LENGTH('a) - prefix) = 0"
  shows "in_net a net prefix \<longleftrightarrow> unat a div 2 ^ (LENGTH('a) - prefix) = unat net div 2 ^ (LENGTH('a) - prefix)"
  unfolding in_net_def and_not_mask_eq [OF assms] by (simp add: word_unat_eq_iff unat_drop_bit_eq) (simp add: drop_bit_eq_div)

section \<open>Public addresses\<close>

text \<open>An IPv6 literal may carry a zone after a percent sign: the address and the zone with its sign.\<close>

definition ip_scoped :: "string \<Rightarrow> (ip \<times> string) option" where
  "ip_scoped s =
     (let r = dropWhile (\<lambda>c. c \<noteq> CHR ''%'') s in
      if r = [] then map_option (\<lambda>a. (a, [])) (ip_address s)
      else if tl r \<noteq> [] \<and> CHR ''%'' \<notin> set (tl r)
      then map_option (\<lambda>w. (V6 w, r)) (parse_ipv6 (takeWhile (\<lambda>c. c \<noteq> CHR ''%'') s)) else None)"

definition v4 :: "int \<Rightarrow> int \<Rightarrow> int \<Rightarrow> int \<Rightarrow> 32 word" where
  "v4 a b c d = word_of_int (((a * 256 + b) * 256 + c) * 256 + d)"

definition ipv4_mapped :: "128 word \<Rightarrow> 32 word option" where
  "ipv4_mapped w = (if drop_bit 32 w = 0xFFFF then Some (ucast w) else None)"

definition private4 :: "32 word \<Rightarrow> bool" where
  "private4 w \<longleftrightarrow>
     list_ex (\<lambda>(net, prefix). in_net w net prefix)
       [(v4 0 0 0 0, 8), (v4 10 0 0 0, 8), (v4 127 0 0 0, 8), (v4 169 254 0 0, 16), (v4 172 16 0 0, 12), (v4 192 0 0 0, 24),
        (v4 192 0 0 170, 31), (v4 192 0 2 0, 24), (v4 192 168 0 0, 16), (v4 198 18 0 0, 15), (v4 198 51 100 0, 24), (v4 203 0 113 0, 24),
        (v4 240 0 0 0, 4), (v4 255 255 255 255, 32)] \<and>
     w \<notin> {v4 192 0 0 9, v4 192 0 0 10}"

definition private6 :: "128 word \<Rightarrow> bool" where
  "private6 w \<longleftrightarrow>
     list_ex (\<lambda>(net, prefix). in_net w net prefix)
       [(1, 128), (0, 128), (push_bit 32 0xFFFF, 96), (push_bit 80 0x64ff9b0001, 48), (push_bit 64 0x0100000000000000, 64),
        (push_bit 96 0x20010000, 23), (push_bit 96 0x20010db8, 32), (push_bit 112 0x2002, 16), (push_bit 112 0xfc00, 7), (push_bit 112 0xfe80, 10)] \<and>
     \<not> list_ex (\<lambda>(net, prefix). in_net w net prefix)
       [(push_bit 96 0x20010001 + 1, 128), (push_bit 96 0x20010001 + 2, 128), (push_bit 96 0x20010003, 32), (push_bit 80 0x200100040112, 48),
        (push_bit 96 0x20010020, 28), (push_bit 96 0x20010030, 28)]"

definition is_global :: "ip \<Rightarrow> bool" where
  "is_global a = (case a of
     V4 w \<Rightarrow> \<not> in_net w (v4 100 64 0 0) 10 \<and> \<not> private4 w
   | V6 w \<Rightarrow> (case ipv4_mapped w of Some m \<Rightarrow> \<not> private4 m | None \<Rightarrow> \<not> private6 w))"

section \<open>IPv4 text is read back\<close>

lemma length_show_nat: "n < 10 ^ Suc k \<Longrightarrow> length (show_nat n) \<le> Suc k"
proof (induction k arbitrary: n)
  case 0
  then show ?case by (subst show_nat.simps) simp
next
  case (Suc k)
  have "length (show_nat (n div 10)) \<le> Suc k" by (rule Suc.IH) (use Suc.prems in \<open>simp add: less_mult_imp_div_less\<close>)
  then show ?case by (subst show_nat.simps) simp
qed

lemma octet_show: "0 \<le> n \<Longrightarrow> n < 256 \<Longrightarrow> octet (show_int n) = Some n"
  using length_show_nat [of "nat n" 2] show_nat_hd [of "nat n"] show_nat_digits [of "nat n"]
  nat_of_digits_show_nat [of 0]
  by (cases "n = 0") (auto simp: octet_def show_int_def )

lemma base256:
  fixes u :: int
  assumes "0 \<le> u" and "u < 2 ^ 32"
  shows "((u div 16777216 mod 256 * 256 + u div 65536 mod 256) * 256 + u div 256 mod 256) * 256 + u mod 256 = u"
proof -
  have "u div 65536 = u div 256 div 256" "u div 16777216 = u div 256 div 256 div 256" by (simp_all add: zdiv_zmult2_eq [symmetric])
  moreover have "u div 16777216 mod 256 = u div 16777216" using assms by (intro mod_pos_pos_trivial) (auto simp: pos_imp_zdiv_nonneg_iff)
  moreover have "x div 256 * 256 + x mod 256 = x" for x :: int by simp
  ultimately show ?thesis by metis
qed

lemma parse_show_ipv4: "parse_ipv4 (show_ipv4 a) = Some a"
proof -
  let ?o = "\<lambda>k. uint a div 256 ^ k mod 256"
  have dot: "CHR ''.'' \<notin> set (show_int (?o k))" for k
    using is_digit_set_show_nat [of "CHR ''.''"] by (auto simp: show_int_def is_digit_def)
  have "split_on CHR ''.'' (show_ipv4 a) = map (\<lambda>k. show_int (?o k)) [3, 2, 1, 0]"
    unfolding show_ipv4_def by (rule split_on_join) (use dot [of 0] dot [of 1] dot [of 2] dot [of 3] in auto)
  then have s: "split_on CHR ''.'' (show_ipv4 a) = [show_int (?o 3), show_int (?o 2), show_int (?o 1), show_int (?o 0)]" by simp
  have oc: "octet (show_int (?o k)) = Some (?o k)" for k by (rule octet_show) auto
  have pow: "(256 :: int) ^ 3 = 16777216" "(256 :: int) ^ 2 = 65536" "(256 :: int) ^ 1 = 256" "(256 :: int) ^ 0 = 1" by simp_all
  have eq: "((?o 3 * 256 + ?o 2) * 256 + ?o 1) * 256 + ?o 0 = uint a"
    unfolding pow div_by_1 by (rule base256) (use uint_lt2p [of a] in simp_all)
  show ?thesis unfolding parse_ipv4_def s list.map oc list.case option.case eq by simp
qed

end
