(* ===== verification/Net_Safety.thy ===== *)
theory Net_Safety
  imports Integration_Alerts Ip_Address
begin

text \<open>
  The guards for outbound connections (\<^verbatim>\<open>backend/utils/net_safety.py\<close>): which addresses and names are never a
  target, the check of a host or URL when it is saved and before a request, and the check at connect time
  that also holds against a name whose address changes in between. Name resolution and whether a connection
  succeeds are arguments.
\<close>

section \<open>Addresses and names\<close>

definition METADATA_IPS :: "ip list" where
  "METADATA_IPS = [V4 (v4 169 254 169 254), V4 (v4 168 63 129 16), V4 (v4 100 100 100 200), V6 0xfd000ec2000000000000000000000254]"

definition METADATA_HOSTS :: "string list" where
  "METADATA_HOSTS = [''metadata.google.internal'', ''metadata'', ''instance-data'', ''metadata.internal'', ''kubernetes.default.svc'', ''kubernetes.default'']"

definition INTERNAL_HOSTS :: "string list" where
  "INTERNAL_HOSTS = [''localhost'', ''localhost.localdomain'', ''ip6-localhost'', ''ip6-loopback'', ''db'', ''postgres'', ''clickhouse'', ''nodeglow-ch'',
     ''updater'', ''nodeglow-updater'', ''nodeglow'', ''frontend'', ''nodeglow-frontend'']"

text \<open>Properties of \<^verbatim>\<open>ipaddress\<close> objects.\<close>

definition unmap :: "ip \<Rightarrow> ip" where
  "unmap a = (case a of V4 w \<Rightarrow> V4 w | V6 w \<Rightarrow> (case ipv4_mapped w of None \<Rightarrow> V6 w | Some m \<Rightarrow> V4 m))"

definition is_loopback :: "ip \<Rightarrow> bool" where
  "is_loopback a = (case a of V4 w \<Rightarrow> in_net w (v4 127 0 0 0) 8 | V6 w \<Rightarrow> w = 1)"

definition is_unspecified :: "ip \<Rightarrow> bool" where
  "is_unspecified a = (case a of V4 w \<Rightarrow> w = 0 | V6 w \<Rightarrow> w = 0)"

definition in_zero_net :: "ip \<Rightarrow> bool" where
  "in_zero_net a = (case a of V4 w \<Rightarrow> in_net w 0 8 | V6 _ \<Rightarrow> False)"

definition is_link_local :: "ip \<Rightarrow> bool" where
  "is_link_local a = (case a of V4 w \<Rightarrow> in_net w (v4 169 254 0 0) 16 | V6 w \<Rightarrow> in_net w (push_bit 118 0x3FA) 10)"

definition is_multicast :: "ip \<Rightarrow> bool" where
  "is_multicast a = (case a of V4 w \<Rightarrow> in_net w (v4 224 0 0 0) 4 | V6 w \<Rightarrow> in_net w (push_bit 120 0xFF) 8)"

definition blocked_ip_reason :: "ip \<Rightarrow> string option" where
  "blocked_ip_reason addr =
     (let a = unmap addr in
      if a \<in> set METADATA_IPS then Some ''Cloud metadata endpoints are not allowed''
      else if is_loopback a then Some ''Loopback addresses are not allowed''
      else if is_unspecified a \<or> in_zero_net a then Some ''Unspecified addresses (0.0.0.0) are not allowed''
      else if is_link_local a then Some ''Link-local addresses are not allowed (cloud metadata risk)''
      else if is_multicast a then Some ''Multicast addresses are not allowed''
      else None)"

definition rstrip_dots :: "string \<Rightarrow> string" where
  "rstrip_dots s = rev (dropWhile (\<lambda>c. c = CHR ''.'') (rev s))"

definition blocked_name_reason :: "string \<Rightarrow> string option" where
  "blocked_name_reason host =
     (let h = str_lower (rstrip_dots (strip host)) in
      if h \<in> set INTERNAL_HOSTS then Some ''Internal service names are not allowed''
      else if h \<in> set METADATA_HOSTS then Some ''Cloud metadata endpoints are not allowed''
      else None)"

section \<open>Hosts and URLs\<close>

definition before_percent :: "string \<Rightarrow> string" where
  "before_percent s = takeWhile (\<lambda>c. c \<noteq> CHR ''%'') s"

definition parse_ip :: "string \<Rightarrow> ip option" where
  "parse_ip value = ip_address (before_percent value)"

text \<open>
  \<^verbatim>\<open>urlsplit\<close>: leading blanks and control characters are dropped, the scheme is the text before the first
  colon if it is one; a bracketed host is an IPv6 literal or a later version.
\<close>

definition url_clean :: "string \<Rightarrow> string" where
  "url_clean u = dropWhile (\<lambda>c. (of_char c :: nat) \<le> 32) u"

definition url_scheme :: "string \<Rightarrow> string" where
  "url_scheme u =
     (let v = filter (\<lambda>c. c \<notin> {CHR 0x09, CHR 0x0A, CHR 0x0D}) (url_clean u); s = takeWhile (\<lambda>c. c \<noteq> CHR '':'') v in
      if s \<noteq> v \<and> s \<noteq> [] \<and> (is_lower (hd s) \<or> is_upper (hd s)) \<and> list_all scheme_char s then str_lower s else [])"

definition scope_ok :: "string \<Rightarrow> bool" where
  "scope_ok s = (let r = dropWhile (\<lambda>c. c \<noteq> CHR ''%'') s in r = [] \<or> tl r \<noteq> [] \<and> CHR ''%'' \<notin> set (tl r))"

definition bracket_ok :: "string \<Rightarrow> bool" where
  "bracket_ok netloc =
     (let inner = takeWhile (\<lambda>c. c \<noteq> CHR '']'') (tl (dropWhile (\<lambda>c. c \<noteq> CHR ''['') netloc)) in
      if startswith inner ''v'' then
        (let digits = takeWhile (\<lambda>c. hex_val c \<noteq> None) (tl inner); r = drop (length digits) (tl inner) in
         digits \<noteq> [] \<and> startswith r ''.'' \<and> tl r \<noteq> [])
      else scope_ok inner \<and> (case ip_address (before_percent inner) of Some (V6 _) \<Rightarrow> True | _ \<Rightarrow> False))"

definition hostname_of :: "string \<Rightarrow> string option" where
  "hostname_of u = url_hostname bracket_ok (url_clean u)"

definition netloc_malformed :: "string \<Rightarrow> bool" where
  "netloc_malformed u \<longleftrightarrow>
     (let n = url_netloc (url_clean u) in
      (CHR ''['' \<in> set n) \<noteq> (CHR '']'' \<in> set n) \<or> CHR ''['' \<in> set n \<and> \<not> bracket_ok n)"

definition extract_host :: "string \<Rightarrow> string" where
  "extract_host value =
     (let raw = strip value in
      if raw = [] then []
      else (case ip_address (before_percent raw) of
              Some a \<Rightarrow> show_ip a
            | None \<Rightarrow>
                (case hostname_of (if contains ''://'' raw then raw else ''//'' @ raw) of
                   None \<Rightarrow> []
                 | Some h \<Rightarrow> str_lower (rstrip_dots (strip h)))))"

text \<open>\<open>resolve_all\<close>: a name that does not resolve has no addresses.\<close>

definition resolve_all :: "(string \<Rightarrow> string list result) \<Rightarrow> string \<Rightarrow> ip list" where
  "resolve_all dns host = (case dns host of Inl _ \<Rightarrow> [] | Inr texts \<Rightarrow> List.map_filter parse_ip texts)"

fun first_reason :: "string \<Rightarrow> ip list \<Rightarrow> string option" where
  "first_reason host [] = None"
| "first_reason host (a # as) =
     (case blocked_ip_reason a of
        Some r \<Rightarrow> Some (r @ '' ('' @ host @ '' resolves to '' @ show_ip a @ '')'')
      | None \<Rightarrow> first_reason host as)"

definition validate_host :: "(string \<Rightarrow> string list result) \<Rightarrow> string \<Rightarrow> bool \<Rightarrow> string option" where
  "validate_host dns value with_dns =
     (if value = [] then None
      else (let host = extract_host value in
            if host = [] then None
            else (case blocked_name_reason host of
                    Some r \<Rightarrow> Some r
                  | None \<Rightarrow>
                      (case parse_ip host of
                         Some a \<Rightarrow> blocked_ip_reason a
                       | None \<Rightarrow> if with_dns then first_reason host (resolve_all dns host) else None))))"

definition url_error :: "(string \<Rightarrow> string list result) \<Rightarrow> string \<Rightarrow> bool \<Rightarrow> string option" where
  "url_error dns url with_dns =
     (if netloc_malformed url then Some ''Malformed URL''
      else if url_scheme url \<notin> {''http'', ''https''} then Some ''Only http:// and https:// URLs are allowed''
      else (case hostname_of url of
              None \<Rightarrow> Some ''URL has no host''
            | Some _ \<Rightarrow> validate_host dns url with_dns))"

definition is_safe_url :: "(string \<Rightarrow> string list result) \<Rightarrow> string \<Rightarrow> bool \<Rightarrow> bool" where
  "is_safe_url dns url with_dns \<longleftrightarrow> url_error dns url with_dns = None"

section \<open>Connect time\<close>

definition strip_brackets :: "string \<Rightarrow> string" where
  "strip_brackets s = (let b = (\<lambda>c. c = CHR ''['' \<or> c = CHR '']'') in rev (dropWhile b (rev (dropWhile b s))))"

definition add_new :: "ip \<Rightarrow> ip list \<Rightarrow> ip list" where
  "add_new a as = (if a \<in> set as then as else as @ [a])"

definition checked_addresses :: "(string \<Rightarrow> string list result) \<Rightarrow> string \<Rightarrow> ip list result" where
  "checked_addresses dns host =
     (let name = strip_brackets (strip host) in
      case blocked_name_reason name of
        Some r \<Rightarrow> Inl (RuntimeError (''Blocked outbound connection to '' @ host @ '': '' @ r))
      | None \<Rightarrow>
          bind_result
            (case parse_ip name of
               Some a \<Rightarrow> Inr [a]
             | None \<Rightarrow>
                 (case dns name of
                    Inl e \<Rightarrow> Inl (RuntimeError (''Could not resolve '' @ host))
                  | Inr texts \<Rightarrow> Inr (fold add_new (List.map_filter parse_ip texts) [])))
            (\<lambda>addrs. case List.find (\<lambda>a. blocked_ip_reason a \<noteq> None) addrs of
               None \<Rightarrow> Inr addrs
             | Some a \<Rightarrow> Inl (RuntimeError (''Blocked outbound connection to '' @ host @ '' ('' @ show_ip a @ ''): '' @ the (blocked_ip_reason a)))))"

text \<open>\<open>connect_tcp\<close>: the addresses that were tried, and the one that answered.\<close>

fun try_addresses :: "(ip \<Rightarrow> bool) \<Rightarrow> ip list \<Rightarrow> ip list \<times> ip option" where
  "try_addresses up [] = ([], None)"
| "try_addresses up (a # as) =
     (if up a then ([a], Some a) else (case try_addresses up as of (tried, r) \<Rightarrow> (a # tried, r)))"

definition connect_tcp :: "(string \<Rightarrow> string list result) \<Rightarrow> (ip \<Rightarrow> bool) \<Rightarrow> string \<Rightarrow> ip list \<times> ip result" where
  "connect_tcp dns up host =
     (case checked_addresses dns host of
        Inl e \<Rightarrow> ([], Inl e)
      | Inr addrs \<Rightarrow>
          (case try_addresses up addrs of
             (tried, Some a) \<Rightarrow> (tried, Inr a)
           | (tried, None) \<Rightarrow> (tried, Inl (RuntimeError (if tried = [] then ''Could not resolve '' @ host else ''All connection attempts failed'')))))"

section \<open>What is blocked\<close>

text \<open>The forbidden addresses by their numbers.\<close>

definition forbidden4 :: "nat \<Rightarrow> bool" where
  "forbidden4 n \<longleftrightarrow> n div 2 ^ 24 = 0 \<or> n div 2 ^ 24 = 127 \<or> n div 2 ^ 16 = 169 * 256 + 254 \<or> n div 2 ^ 28 = 14 \<or>
     n = ((168 * 256 + 63) * 256 + 129) * 256 + 16 \<or> n = ((100 * 256 + 100) * 256 + 100) * 256 + 200"

definition forbidden :: "ip \<Rightarrow> bool" where
  "forbidden a = (case a of
     V4 w \<Rightarrow> forbidden4 (unat w)
   | V6 w \<Rightarrow>
       (let n = unat w in
        if n div 2 ^ 32 = 0xFFFF then forbidden4 (n mod 2 ^ 32)
        else n = 0 \<or> n = 1 \<or> n div 2 ^ 118 = 0x3FA \<or> n div 2 ^ 120 = 0xFF \<or> n = 0xfd000ec2000000000000000000000254))"

lemma blocked_v4: "blocked_ip_reason (V4 w) \<noteq> None \<longleftrightarrow> forbidden4 (unat w)"
proof -
  have nets: "in_net w (v4 127 0 0 0) 8 \<longleftrightarrow> unat w div 2 ^ 24 = 127" "in_net w 0 8 \<longleftrightarrow> unat w div 2 ^ 24 = 0"
    "in_net w (v4 169 254 0 0) 16 \<longleftrightarrow> unat w div 2 ^ 16 = 43518" "in_net w (v4 224 0 0 0) 4 \<longleftrightarrow> unat w div 2 ^ 28 = 14"
    by (subst in_net_div; simp add: v4_def mask_eq_exp_minus_1)+
  have meta: "w = v4 169 254 169 254 \<longleftrightarrow> unat w = 2852039166" "w = v4 168 63 129 16 \<longleftrightarrow> unat w = 2822734096"
    "w = v4 100 100 100 200 \<longleftrightarrow> unat w = 1684301000" "w = 0 \<longleftrightarrow> unat w = 0"
    by (simp_all add: word_unat_eq_iff v4_def)
  have "blocked_ip_reason (V4 w) \<noteq> None \<longleftrightarrow>
      w = v4 169 254 169 254 \<or> w = v4 168 63 129 16 \<or> w = v4 100 100 100 200 \<or> in_net w (v4 127 0 0 0) 8 \<or> w = 0 \<or> in_net w 0 8 \<or>
      in_net w (v4 169 254 0 0) 16 \<or> in_net w (v4 224 0 0 0) 4"
    by (auto simp: blocked_ip_reason_def unmap_def Let_def METADATA_IPS_def is_loopback_def is_unspecified_def in_zero_net_def
        is_link_local_def is_multicast_def)
  also have "\<dots> \<longleftrightarrow> forbidden4 (unat w)" unfolding nets meta forbidden4_def by auto
  finally show ?thesis .
qed

lemma blocked_v6:
  assumes "ipv4_mapped w = None"
  shows "blocked_ip_reason (V6 w) \<noteq> None \<longleftrightarrow>
    unat w = 0 \<or> unat w = 1 \<or> unat w div 2 ^ 118 = 0x3FA \<or> unat w div 2 ^ 120 = 0xFF \<or> unat w = 0xfd000ec2000000000000000000000254"
proof -
  have nets: "in_net w (push_bit 118 0x3FA) 10 \<longleftrightarrow> unat w div 2 ^ 118 = 0x3FA" "in_net w (push_bit 120 0xFF) 8 \<longleftrightarrow> unat w div 2 ^ 120 = 0xFF"
    by (subst in_net_div; simp add: mask_eq_exp_minus_1 push_bit_eq_mult)+
  have num: "w = 0 \<longleftrightarrow> unat w = 0" "w = 1 \<longleftrightarrow> unat w = 1" "w = 0xfd000ec2000000000000000000000254 \<longleftrightarrow> unat w = 0xfd000ec2000000000000000000000254"
    by (simp_all add: word_unat_eq_iff)
  have "blocked_ip_reason (V6 w) \<noteq> None \<longleftrightarrow>
      w = 0xfd000ec2000000000000000000000254 \<or> w = 1 \<or> w = 0 \<or> in_net w (push_bit 118 0x3FA) 10 \<or> in_net w (push_bit 120 0xFF) 8"
    using assms by (auto simp: blocked_ip_reason_def unmap_def Let_def METADATA_IPS_def is_loopback_def is_unspecified_def in_zero_net_def
        is_link_local_def is_multicast_def)
  then show ?thesis unfolding nets num by auto
qed

lemma mapped_iff:
  "ipv4_mapped w = (if unat w div 2 ^ 32 = 0xFFFF then Some (ucast w) else None)"
proof -
  have "drop_bit 32 w = 0xFFFF \<longleftrightarrow> unat w div 2 ^ 32 = 0xFFFF"
    by (simp add: word_unat_eq_iff unat_drop_bit_eq) (simp add: drop_bit_eq_div)
  then show ?thesis by (simp add: ipv4_mapped_def)
qed

lemma blocked_iff: "blocked_ip_reason a \<noteq> None \<longleftrightarrow> forbidden a"
proof (cases a)
  case (V4 w)
  then show ?thesis by (simp add: blocked_v4 forbidden_def del: not_None_eq)
next
  case (V6 w)
  show ?thesis
  proof (cases "ipv4_mapped w")
    case None
    with V6 blocked_v6 [OF None] mapped_iff [of w] show ?thesis by (auto simp: forbidden_def Let_def split: if_splits)
  next
    case (Some m)
    then have m: "unat w div 2 ^ 32 = 0xFFFF" "m = ucast w" using mapped_iff [of w] by (auto split: if_splits)
    have "blocked_ip_reason (V6 w) = blocked_ip_reason (V4 m)" using Some by (simp add: blocked_ip_reason_def unmap_def)
    moreover have "unat m = unat w mod 2 ^ 32" unfolding m(2) by (simp add: unsigned_ucast_eq take_bit_eq_mod)
    ultimately show ?thesis using V6 m(1) blocked_v4 [of m] by (simp add: forbidden_def Let_def)
  qed
qed

section \<open>The guards\<close>

definition own_name :: "string \<Rightarrow> bool" where
  "own_name host \<longleftrightarrow> str_lower (rstrip_dots (strip host)) \<in> set INTERNAL_HOSTS \<union> set METADATA_HOSTS"

text \<open>The addresses a host stands for: itself if it is a literal, else what it resolves to.\<close>

definition addresses_of :: "(string \<Rightarrow> string list result) \<Rightarrow> string \<Rightarrow> ip list" where
  "addresses_of dns host = (case parse_ip host of Some a \<Rightarrow> [a] | None \<Rightarrow> resolve_all dns host)"

lemma own_name_iff: "blocked_name_reason host \<noteq> None \<longleftrightarrow> own_name host"
  by (simp add: blocked_name_reason_def own_name_def Let_def)

lemma first_reason_None: "first_reason host as = None \<longleftrightarrow> (\<forall>a \<in> set as. \<not> forbidden a)"
proof (induction as)
  case (Cons a as)
  have "blocked_ip_reason a = None \<longleftrightarrow> \<not> forbidden a" using blocked_iff [of a] by blast
  with Cons show ?case by (auto split: option.splits)
qed simp

lemma validate_host_None:
  "validate_host dns value True = None \<longleftrightarrow>
     (value = [] \<or> extract_host value = [] \<or>
      \<not> own_name (extract_host value) \<and> (\<forall>a \<in> set (addresses_of dns (extract_host value)). \<not> forbidden a))"
proof -
  have b: "blocked_ip_reason a = None \<longleftrightarrow> \<not> forbidden a" for a using blocked_iff [of a] by blast
  show ?thesis
  proof (cases "blocked_name_reason (extract_host value)")
    case None
    then have "\<not> own_name (extract_host value)" using own_name_iff [of "extract_host value"] by simp
    with None show ?thesis by (auto simp: validate_host_def addresses_of_def Let_def first_reason_None b split: option.splits)
  next
    case (Some r)
    then have "own_name (extract_host value)" using own_name_iff [of "extract_host value"] by simp
    with Some show ?thesis by (auto simp: validate_host_def Let_def)
  qed
qed

lemma tried_subset: "set (fst (try_addresses up as)) \<subseteq> set as"
  by (induction as) (auto split: prod.splits)

lemma checked_unblocked:
  assumes "checked_addresses dns host = Inr as"
  shows "\<not> own_name (strip_brackets (strip host))" and "\<forall>a \<in> set as. \<not> forbidden a"
proof -
  show "\<not> own_name (strip_brackets (strip host))"
    using assms own_name_iff [of "strip_brackets (strip host)"] by (auto simp: checked_addresses_def Let_def split: option.splits)
  have "List.find (\<lambda>a. blocked_ip_reason a \<noteq> None) as = None"
    using assms by (auto simp: checked_addresses_def Let_def bind_result_Inr_iff split: option.splits)
  then show "\<forall>a \<in> set as. \<not> forbidden a" unfolding find_None_iff blocked_iff by blast
qed

text \<open>C29. The guard for outbound requests. A URL that passes the check is an http or https URL, its host is none of the
  installation's own or metadata names, and no address it stood for at the check is forbidden: loopback,
  unspecified, link-local, multicast or a metadata endpoint, also in IPv4-mapped form. And whatever the name
  resolves to later, a connection is only tried to addresses that are not forbidden.\<close>

theorem outbound_guard:
  assumes "is_safe_url dns url True"
  shows "url_scheme url \<in> {''http'', ''https''} \<and>
    (extract_host url \<noteq> [] \<longrightarrow> \<not> own_name (extract_host url) \<and> (\<forall>a \<in> set (addresses_of dns (extract_host url)). \<not> forbidden a)) \<and>
    (\<forall>a \<in> set (fst (connect_tcp dns' up host)). \<not> forbidden a \<and> \<not> own_name (strip_brackets (strip host)))"
proof (intro conjI)
  have e: "url_error dns url True = None" using assms by (simp add: is_safe_url_def)
  then show "url_scheme url \<in> {''http'', ''https''}" by (auto simp: url_error_def split: if_splits)
  have "validate_host dns url True = None" "url \<noteq> []"
    using e by (auto simp: url_error_def url_scheme_def url_clean_def split: if_splits option.splits)
  then show "extract_host url \<noteq> [] \<longrightarrow> \<not> own_name (extract_host url) \<and> (\<forall>a \<in> set (addresses_of dns (extract_host url)). \<not> forbidden a)"
    by (auto simp: validate_host_None)
  show "\<forall>a \<in> set (fst (connect_tcp dns' up host)). \<not> forbidden a \<and> \<not> own_name (strip_brackets (strip host))"
  proof (cases "checked_addresses dns' host")
    case (Inr as)
    have "set (fst (connect_tcp dns' up host)) \<subseteq> set as"
      using Inr tried_subset [of up as] by (auto simp: connect_tcp_def split: prod.splits option.splits)
    with checked_unblocked [OF Inr] show ?thesis by blast
  qed (simp add: connect_tcp_def)
qed

text \<open>A name that is public when it is checked and loopback when it is used.\<close>

definition rebinding :: "bool \<Rightarrow> string \<Rightarrow> string list result" where
  "rebinding later host = Inr [if later then ''127.0.0.1'' else ''203.0.113.7'']"

theorem outbound_guard_witness:
  "is_safe_url (rebinding False) ''http://hook.example/x'' True \<and> extract_host ''http://hook.example/x'' = ''hook.example'' \<and>
   filter forbidden (addresses_of (rebinding False) ''hook.example'') = [] \<and>
   fst (connect_tcp (rebinding False) (\<lambda>_. True) ''hook.example'') = [V4 (v4 203 0 113 7)] \<and>
   fst (connect_tcp (rebinding True) (\<lambda>_. True) ''hook.example'') = []"
proof -
  have safe: "is_safe_url (rebinding False) ''http://hook.example/x'' True" by code_simp
  have host: "extract_host ''http://hook.example/x'' = ''hook.example''" by code_simp
  have "fst (connect_tcp (rebinding False) (\<lambda>_. True) ''hook.example'') = [V4 (v4 203 0 113 7)]"
    "fst (connect_tcp (rebinding True) (\<lambda>_. True) ''hook.example'') = []" by code_simp+
  with outbound_guard [OF safe, of "rebinding True" "\<lambda>_. True" "''hook.example''"] safe host show ?thesis by (simp add: filter_empty_conv)
qed

end
