(* ===== verification/Syslog_Rate.thy ===== *)
theory Syslog_Rate
  imports Prelude
begin

text \<open>
  The rate limits of the syslog listeners (\<^verbatim>\<open>backend/services/syslog.py\<close>): a fixed window per source address and one
  over all addresses. Times are readings of the monotonic clock.
\<close>

record rate_cfg =
  rc_window :: int
  rc_ip_max :: int
  rc_global_max :: int

record rate_state =
  rs_ip :: "(string, int \<times> int) dict"
  rs_dropped :: "(string, int) dict"
  rs_global :: "int \<times> int"
  rs_drops :: "(string, int) dict"

definition RATE_CACHE_MAX :: int where "RATE_CACHE_MAX = 10000"

definition count_drop :: "string \<Rightarrow> int \<Rightarrow> (string, int) dict \<Rightarrow> (string, int) dict" where
  "count_drop reason n drops = dset drops reason (dget_or drops reason 0 + n)"

text \<open>Addresses whose window began at least six windows ago, removed once too many are tracked.\<close>

definition evict_stale :: "rate_cfg \<Rightarrow> int \<Rightarrow> rate_state \<Rightarrow> rate_state" where
  "evict_stale cfg now st =
     (if int (length (rs_ip st)) > RATE_CACHE_MAX then
        (let stale = map fst (filter (\<lambda>(ip, v). now - snd v \<ge> rc_window cfg * 6) (rs_ip st)) in
         st\<lparr>rs_ip := filter (\<lambda>(ip, v). \<not> now - snd v \<ge> rc_window cfg * 6) (rs_ip st),
            rs_dropped := filter (\<lambda>(ip, _). ip \<notin> set stale) (rs_dropped st)\<rparr>)
      else st)"

definition syslog_rate_ok :: "rate_cfg \<Rightarrow> int \<Rightarrow> string \<Rightarrow> rate_state \<Rightarrow> bool \<times> rate_state" where
  "syslog_rate_ok cfg now source_ip st =
     (let fresh = (True, evict_stale cfg now
            (st\<lparr>rs_ip := dset (rs_ip st) source_ip (1, now), rs_dropped := ddel (rs_dropped st) source_ip\<rparr>))
      in case dget (rs_ip st) source_ip of
           None \<Rightarrow> fresh
         | Some (n, start) \<Rightarrow>
             (if now - start \<ge> rc_window cfg then fresh
              else (let st1 = st\<lparr>rs_ip := dset (rs_ip st) source_ip (n + 1, start)\<rparr> in
                    if n + 1 > rc_ip_max cfg
                    then (False, st1\<lparr>rs_dropped := dset (rs_dropped st) source_ip (dget_or (rs_dropped st) source_ip 0 + 1),
                                    rs_drops := count_drop ''rate_limit_ip'' 1 (rs_drops st)\<rparr>)
                    else (True, st1))))"

definition global_rate_ok :: "rate_cfg \<Rightarrow> int \<Rightarrow> rate_state \<Rightarrow> bool \<times> rate_state" where
  "global_rate_ok cfg now st =
     (case rs_global st of (n, start) \<Rightarrow>
        (if now - start \<ge> rc_window cfg then (True, st\<lparr>rs_global := (1, now)\<rparr>)
         else if n + 1 \<le> rc_global_max cfg then (True, st\<lparr>rs_global := (n + 1, start)\<rparr>)
         else (False, st\<lparr>rs_global := (n + 1, start), rs_drops := count_drop ''rate_limit_global'' 1 (rs_drops st)\<rparr>)))"

text \<open>
  A receiver asks both, the limit of the address first. The log lists the messages that passed, with their time.
\<close>

definition rate_step :: "rate_cfg \<Rightarrow> int \<times> string \<Rightarrow> rate_state \<times> (int \<times> string) list \<Rightarrow> rate_state \<times> (int \<times> string) list" where
  "rate_step cfg ev s =
     (case ev of (now, ip) \<Rightarrow>
        (case syslog_rate_ok cfg now ip (fst s) of
           (False, st) \<Rightarrow> (st, snd s)
         | (True, st) \<Rightarrow>
             (case global_rate_ok cfg now st of
                (ok, st') \<Rightarrow> (st', if ok then snd s @ [ev] else snd s))))"

definition start_rates :: rate_state where
  "start_rates = \<lparr>rs_ip = [], rs_dropped = [], rs_global = (0, 0), rs_drops = []\<rparr>"

section \<open>Fixed windows\<close>

text \<open>
  The times that passed for one address (or over all of them), against the window that is open now: those of the
  window, those of the window before, and every interval as long as a window.
\<close>

definition between :: "int \<Rightarrow> int \<Rightarrow> int list \<Rightarrow> int" where
  "between a b ts = int (length (filter (\<lambda>t. a \<le> t \<and> t < b) ts))"

definition window_inv :: "int \<Rightarrow> int \<Rightarrow> int \<Rightarrow> int \<Rightarrow> int \<Rightarrow> int list \<Rightarrow> bool" where
  "window_inv w m n start now ts \<longleftrightarrow>
     start \<le> now \<and> (\<forall>t \<in> set ts. t \<le> now \<and> t < start + w) \<and> between start (now + 1) ts \<le> min n m \<and>
     (\<forall>a. start - w < a \<longrightarrow> between a start ts \<le> m) \<and> (\<forall>a. between a (a + w) ts \<le> 2 * m)"

text \<open>Nothing passed for a whole window.\<close>

definition quiet_inv :: "int \<Rightarrow> int \<Rightarrow> int \<Rightarrow> int list \<Rightarrow> bool" where
  "quiet_inv w m now ts \<longleftrightarrow> (\<forall>t \<in> set ts. t \<le> now - w) \<and> (\<forall>a. between a (a + w) ts \<le> 2 * m)"

lemma between_snoc: "between a b (ts @ [t]) = between a b ts + (if a \<le> t \<and> t < b then 1 else 0)"
  by (simp add: between_def)

lemma between_mono: "a' \<le> a \<Longrightarrow> b \<le> b' \<Longrightarrow> between a b ts \<le> between a' b' ts"
  unfolding between_def by (induction ts) auto

lemma between_split: "a \<le> c \<Longrightarrow> c \<le> b \<Longrightarrow> between a b ts = between a c ts + between c b ts"
  unfolding between_def by (induction ts) auto

lemma between_cut: "\<forall>t \<in> set ts. t \<le> now \<Longrightarrow> now < b \<Longrightarrow> between a b ts = between a (now + 1) ts"
  unfolding between_def by (induction ts) auto

lemma between_none: "\<forall>t \<in> set ts. t < a \<Longrightarrow> between a b ts = 0"
  unfolding between_def by (induction ts) auto

lemma between_nonneg [simp]: "0 \<le> between a b ts"
  by (simp add: between_def)

text \<open>Later readings of the clock change nothing.\<close>

lemma window_later:
  assumes "window_inv w m n start now ts" and "now \<le> now'"
  shows "window_inv w m n start now' ts"
proof -
  have "between start (now' + 1) ts = between start (now + 1) ts"
    using assms by (intro between_cut) (auto simp: window_inv_def)
  with assms show ?thesis by (auto simp: window_inv_def)
qed

lemma window_quiet:
  assumes "window_inv w m n start now ts" and "now' \<ge> start + 2 * w"
  shows "quiet_inv w m now' ts"
  using assms unfolding window_inv_def quiet_inv_def by force

text \<open>A new window opens with the message that passes.\<close>

lemma open_window:
  assumes old: "\<forall>t \<in> set ts. t \<le> now" and recent: "\<And>a. now - w < a \<Longrightarrow> between a now ts \<le> m"
    and cur: "between now (now + 1) ts = 0" and all: "\<And>a. between a (a + w) ts \<le> 2 * m" and pos: "1 \<le> m" "0 < w"
  shows "window_inv w m 1 now now (ts @ [now])"
proof -
  have "between a (a + w) (ts @ [now]) \<le> 2 * m" for a
  proof (cases "a \<le> now \<and> now < a + w")
    case True
    then have "between a (a + w) ts = between a now ts + between now (now + 1) ts"
      using between_split [of a now "a + w" ts] between_cut [OF old, of "a + w" now] by simp
    with True recent [of a] cur pos show ?thesis by (simp add: between_snoc)
  qed (use all [of a] in \<open>auto simp: between_snoc\<close>)
  with assms show ?thesis by (auto simp: window_inv_def between_snoc)
qed

lemma reopen_window:
  assumes inv: "window_inv w m n start now0 ts" and "now0 \<le> now" "now - start \<ge> w" "1 \<le> m" "0 < w"
  shows "window_inv w m 1 now now (ts @ [now])"
proof (rule open_window)
  have inv': "window_inv w m n start now ts" using window_later [OF inv] assms(2) by simp
  show "\<forall>t \<in> set ts. t \<le> now" "\<And>a. between a (a + w) ts \<le> 2 * m" using inv' by (auto simp: window_inv_def)
  show "between a now ts \<le> m" if "now - w < a" for a
    using between_mono [of start a now "now + 1" ts] that assms(3) inv' by (auto simp: window_inv_def)
  show "between now (now + 1) ts = 0" using inv assms(3) by (intro between_none) (auto simp: window_inv_def)
qed (use assms in auto)

lemma start_window:
  assumes "quiet_inv w m now ts" "1 \<le> m" "0 < w"
  shows "window_inv w m 1 now now (ts @ [now])"
proof (rule open_window)
  show "\<forall>t \<in> set ts. t \<le> now" "\<And>a. between a (a + w) ts \<le> 2 * m" using assms by (auto simp: quiet_inv_def)
  show "between a now ts \<le> m" if "now - w < a" for a
    using assms that between_none [of ts a now] by (fastforce simp: quiet_inv_def)
  show "between now (now + 1) ts = 0" using assms by (intro between_none) (auto simp: quiet_inv_def)
qed (use assms in auto)

text \<open>A message in an open window.\<close>

lemma same_window:
  assumes inv: "window_inv w m n start now0 ts" and "now0 \<le> now" "now - start < w" "n + 1 \<le> m" "0 < w"
  shows "window_inv w m (n + 1) start now (ts @ [now])"
proof -
  have i: "window_inv w m n start now ts" using window_later [OF inv] assms(2) by simp
  have "between a (a + w) (ts @ [now]) \<le> 2 * m" for a
  proof (cases "a \<le> now \<and> now < a + w")
    case True
    have "between a (a + w) ts = between a (now + 1) ts" using i True by (intro between_cut) (auto simp: window_inv_def)
    also have "\<dots> \<le> between (min a start) (now + 1) ts" by (intro between_mono) auto
    also have "\<dots> = between (min a start) start ts + between start (now + 1) ts"
      using i by (intro between_split) (auto simp: window_inv_def)
    also have "\<dots> \<le> m + n"
    proof -
      have "start - w < min a start" using True assms(3,5) i by (auto simp: window_inv_def)
      with i show ?thesis unfolding window_inv_def by (metis add_mono min.boundedE)
    qed
    finally show ?thesis using True assms(4) by (simp add: between_snoc)
  qed (use i in \<open>auto simp: between_snoc window_inv_def\<close>)
  with i assms(3,4) show ?thesis by (auto simp: window_inv_def between_snoc)
qed

text \<open>A message that passes one limit but not the other is counted and not logged.\<close>

lemma window_drop:
  assumes "window_inv w m n start now (ts @ [t])"
  shows "window_inv w m n start now ts"
proof -
  have le: "between a b ts \<le> between a b (ts @ [t])" for a b by (simp add: between_snoc)
  with assms show ?thesis unfolding window_inv_def by (auto intro: order.trans [OF le])
qed

lemma window_count: "window_inv w m n start now ts \<Longrightarrow> window_inv w m (n + 1) start now ts"
  by (auto simp: window_inv_def)

lemma quiet_later: "quiet_inv w m now ts \<Longrightarrow> now \<le> now' \<Longrightarrow> quiet_inv w m now' ts"
  unfolding quiet_inv_def by force

section \<open>Both limits\<close>

definition times_of :: "string \<Rightarrow> (int \<times> string) list \<Rightarrow> int list" where
  "times_of ip lg = map fst (filter (\<lambda>e. snd e = ip) lg)"

definition slot_inv :: "rate_cfg \<Rightarrow> int \<Rightarrow> (int \<times> int) option \<Rightarrow> int list \<Rightarrow> bool" where
  "slot_inv cfg now slot ts = (case slot of
     None \<Rightarrow> quiet_inv (rc_window cfg) (rc_ip_max cfg) now ts
   | Some (n, start) \<Rightarrow> window_inv (rc_window cfg) (rc_ip_max cfg) n start now ts)"

definition ips_inv :: "rate_cfg \<Rightarrow> int \<Rightarrow> rate_state \<Rightarrow> (string \<Rightarrow> int list) \<Rightarrow> bool" where
  "ips_inv cfg now st ts \<longleftrightarrow> dict_ok (rs_ip st) \<and> (\<forall>ip. slot_inv cfg now (dget (rs_ip st) ip) (ts ip))"

definition global_inv :: "rate_cfg \<Rightarrow> int \<Rightarrow> rate_state \<Rightarrow> int list \<Rightarrow> bool" where
  "global_inv cfg now st ts = (case rs_global st of (n, start) \<Rightarrow> window_inv (rc_window cfg) (rc_global_max cfg) n start now ts)"

definition cfg_ok :: "rate_cfg \<Rightarrow> bool" where
  "cfg_ok cfg \<longleftrightarrow> 1 \<le> rc_window cfg \<and> 1 \<le> rc_ip_max cfg \<and> 1 \<le> rc_global_max cfg"

lemma slot_later: "slot_inv cfg now slot ts \<Longrightarrow> now \<le> now' \<Longrightarrow> slot_inv cfg now' slot ts"
  by (auto simp: slot_inv_def quiet_later window_later split: option.splits)

lemma slot_drop: "slot_inv cfg now (Some v) (ts @ [t]) \<Longrightarrow> slot_inv cfg now (Some v) ts"
  by (auto simp: slot_inv_def window_drop split: prod.splits)

text \<open>Removing old addresses keeps what is known of them: nothing passed for a window.\<close>

lemma evict_inv:
  assumes "ips_inv cfg now st ts" and "cfg_ok cfg"
  shows "ips_inv cfg now (evict_stale cfg now st) ts"
proof -
  let ?P = "\<lambda>v. \<not> now - snd v \<ge> rc_window cfg * 6"
  have "slot_inv cfg now (case dget (rs_ip st) ip of None \<Rightarrow> None | Some v \<Rightarrow> if ?P v then Some v else None) (ts ip)" for ip
  proof (cases "dget (rs_ip st) ip")
    case (Some v)
    with assms have w: "window_inv (rc_window cfg) (rc_ip_max cfg) (fst v) (snd v) now (ts ip)"
      by (auto simp: ips_inv_def slot_inv_def split: option.splits prod.splits dest: spec [of _ ip])
    from window_quiet [OF w, of now] w Some assms(2) show ?thesis
      by (cases v) (auto simp: slot_inv_def cfg_ok_def)
  qed (use assms(1) in \<open>auto simp: ips_inv_def dest: spec [of _ ip]\<close>)
  with assms(1) show ?thesis
    by (simp add: ips_inv_def evict_stale_def dict_ok_filter dget_filter_pair Let_def)
qed

text \<open>One question to the limit of an address: if it passes, the message may be logged.\<close>

lemma rate_ok_inv:
  assumes inv: "ips_inv cfg now0 st ts" and "now0 \<le> now" "cfg_ok cfg" and r: "syslog_rate_ok cfg now ip st = (ok, st')"
  shows "ips_inv cfg now st' ts" and "ok \<Longrightarrow> ips_inv cfg now st' (ts(ip := ts ip @ [now]))"
    and "rs_global st' = rs_global st"
proof -
  let ?w = "rc_window cfg" and ?m = "rc_ip_max cfg"
  have pos: "1 \<le> ?m" "0 < ?w" using assms(3) by (auto simp: cfg_ok_def)
  have sl: "slot_inv cfg now (dget (rs_ip st) i) (ts i)" and dk: "dict_ok (rs_ip st)" for i
    using inv slot_later [OF _ assms(2)] by (simp_all add: ips_inv_def)
  have put: "ips_inv cfg now s (ts(ip := x))" if "rs_ip s = dset (rs_ip st) ip v" "slot_inv cfg now (Some v) x" for s v x
    using that sl dk by (auto simp: ips_inv_def dict_simps)
  have keep: "ips_inv cfg now s ts" if "rs_ip s = dset (rs_ip st) ip v" "slot_inv cfg now (Some v) (ts ip)" for s v
    using put [OF that] by (simp add: fun_upd_idem)
  have g: "rs_global (evict_stale cfg now s) = rs_global s" for s by (simp add: evict_stale_def Let_def)
  have new: "slot_inv cfg now (Some (1, now)) (ts ip @ [now])"
    if "dget (rs_ip st) ip = None \<or> (\<exists>n start. dget (rs_ip st) ip = Some (n, start) \<and> now - start \<ge> ?w)"
    using that sl [of ip] pos start_window [of ?w ?m now "ts ip"] reopen_window [of ?w ?m _ _ now "ts ip" now]
    by (auto simp: slot_inv_def)
  have "ips_inv cfg now st' ts \<and> (ok \<longrightarrow> ips_inv cfg now st' (ts(ip := ts ip @ [now]))) \<and> rs_global st' = rs_global st"
  proof (cases "dget (rs_ip st) ip = None \<or> (\<exists>n start. dget (rs_ip st) ip = Some (n, start) \<and> now - start \<ge> ?w)")
    case True
    then have st': "ok" "st' = evict_stale cfg now (st\<lparr>rs_ip := dset (rs_ip st) ip (1, now), rs_dropped := ddel (rs_dropped st) ip\<rparr>)"
      using r by (auto simp: syslog_rate_ok_def Let_def)
    show ?thesis
      unfolding st'(2) g using new [OF True] slot_drop [OF new [OF True]]
      by (auto intro!: evict_inv [OF _ assms(3)] put keep)
  next
    case False
    then obtain n start where d: "dget (rs_ip st) ip = Some (n, start)" and lt: "now - start < ?w" by (cases "dget (rs_ip st) ip") fastforce+
    have w: "window_inv ?w ?m n start now (ts ip)" using sl [of ip] d by (simp add: slot_inv_def)
    have c: "slot_inv cfg now (Some (n + 1, start)) (ts ip)" using window_count [OF w] by (simp add: slot_inv_def)
    have p: "slot_inv cfg now (Some (n + 1, start)) (ts ip @ [now])" if "n + 1 \<le> ?m"
      using same_window [OF w _ lt that] pos by (simp add: slot_inv_def)
    show ?thesis
      using r d lt c p by (auto simp: syslog_rate_ok_def Let_def split: if_splits intro!: put keep)
  qed
  then show "ips_inv cfg now st' ts" "ok \<Longrightarrow> ips_inv cfg now st' (ts(ip := ts ip @ [now]))" "rs_global st' = rs_global st" by auto
qed

lemma global_ok_inv:
  assumes "global_inv cfg now0 st ts" and "now0 \<le> now" "cfg_ok cfg" and r: "global_rate_ok cfg now st = (ok, st')"
  shows "global_inv cfg now st' (if ok then ts @ [now] else ts)" and "rs_ip st' = rs_ip st"
proof -
  obtain n start where g: "rs_global st = (n, start)" by fastforce
  have w: "window_inv (rc_window cfg) (rc_global_max cfg) n start now ts"
    using assms(1,2) g by (auto simp: global_inv_def intro: window_later)
  have "0 < rc_window cfg" "1 \<le> rc_global_max cfg" using assms(3) by (auto simp: cfg_ok_def)
  then have "now - start \<ge> rc_window cfg \<Longrightarrow> window_inv (rc_window cfg) (rc_global_max cfg) 1 now now (ts @ [now])"
    and "now - start < rc_window cfg \<Longrightarrow> n + 1 \<le> rc_global_max cfg \<Longrightarrow> window_inv (rc_window cfg) (rc_global_max cfg) (n + 1) start now (ts @ [now])"
    using reopen_window [OF w] same_window [OF w] by auto
  with r g window_count [OF w] show "global_inv cfg now st' (if ok then ts @ [now] else ts)"
    by (auto simp: global_rate_ok_def global_inv_def split: if_splits)
  show "rs_ip st' = rs_ip st" using r g by (auto simp: global_rate_ok_def split: if_splits)
qed

definition rates_inv :: "rate_cfg \<Rightarrow> int \<Rightarrow> rate_state \<times> (int \<times> string) list \<Rightarrow> bool" where
  "rates_inv cfg now s \<longleftrightarrow> ips_inv cfg now (fst s) (\<lambda>ip. times_of ip (snd s)) \<and> global_inv cfg now (fst s) (map fst (snd s))"

lemma times_of_snoc: "(\<lambda>i. times_of i (lg @ [(now, ip)])) = (\<lambda>i. times_of i lg)(ip := times_of ip lg @ [now])"
  by (auto simp: times_of_def)

lemma rate_step_inv:
  assumes "rates_inv cfg now0 s" and "now0 \<le> now" "cfg_ok cfg"
  shows "rates_inv cfg now (rate_step cfg (now, ip) s)"
proof -
  obtain st lg where s: "s = (st, lg)" by fastforce
  let ?ts = "\<lambda>ip. times_of ip lg"
  have i: "ips_inv cfg now0 st ?ts" and g: "global_inv cfg now0 st (map fst lg)" using assms(1) s by (auto simp: rates_inv_def)
  obtain ok st1 where r: "syslog_rate_ok cfg now ip st = (ok, st1)" by fastforce
  note i1 = rate_ok_inv [OF i assms(2,3) r]
  have g1: "global_inv cfg now0 st1 (map fst lg)" using g i1(3) by (simp add: global_inv_def)
  have gl: "global_inv cfg now st1 (map fst lg)" using g1 assms(2) by (auto simp: global_inv_def intro: window_later split: prod.splits)
  show ?thesis
  proof (cases ok)
    case False
    with s r i1(1) gl show ?thesis by (simp add: rates_inv_def rate_step_def)
  next
    case True
    obtain ok2 st2 where r2: "global_rate_ok cfg now st1 = (ok2, st2)" by fastforce
    note g2 = global_ok_inv [OF g1 assms(2,3) r2]
    have "ips_inv cfg now st2 ts" if "ips_inv cfg now st1 ts" for ts using that g2(2) by (simp add: ips_inv_def)
    with True s r r2 i1 g2(1) show ?thesis
      by (cases ok2) (auto simp: rates_inv_def rate_step_def times_of_snoc)
  qed
qed

lemma rates_run:
  assumes "cfg_ok cfg" "rates_inv cfg now s" "sorted (map fst evs)" "\<forall>e \<in> set evs. now \<le> fst e"
  shows "\<exists>now'. rates_inv cfg now' (fold (rate_step cfg) evs s)"
  using assms(2-)
proof (induction evs arbitrary: now s)
  case (Cons e evs)
  have "rates_inv cfg (fst e) (rate_step cfg e s)" using rate_step_inv [OF Cons.prems(1) _ assms(1), of "fst e" "snd e"] Cons.prems(3) by simp
  with Cons show ?case by (auto intro: Cons.IH)
qed auto

text \<open>Whatever arrives, in any interval as long as the window at most twice the limit passes, for every address and
  over all of them; forgetting addresses that were silent for long does not change that.\<close>

theorem syslog_rate_bound:
  assumes "cfg_ok cfg" and "sorted (map fst evs)" and "\<forall>e \<in> set evs. 0 \<le> fst e"
  shows "between a (a + rc_window cfg) (times_of ip (snd (fold (rate_step cfg) evs (start_rates, [])))) \<le> 2 * rc_ip_max cfg \<and>
    between a (a + rc_window cfg) (map fst (snd (fold (rate_step cfg) evs (start_rates, [])))) \<le> 2 * rc_global_max cfg"
proof -
  have "rates_inv cfg 0 (start_rates, [])"
    using assms(1) by (simp add: rates_inv_def start_rates_def ips_inv_def slot_inv_def global_inv_def quiet_inv_def window_inv_def
        times_of_def between_def cfg_ok_def)
  then obtain now' where inv: "rates_inv cfg now' (fold (rate_step cfg) evs (start_rates, []))"
    using rates_run [OF assms(1) _ assms(2,3)] by blast
  define s where "s = fold (rate_step cfg) evs (start_rates, [])"
  have "slot_inv cfg now' (dget (rs_ip (fst s)) ip) (times_of ip (snd s))"
    using inv by (simp add: rates_inv_def ips_inv_def s_def)
  then have "between a (a + rc_window cfg) (times_of ip (snd s)) \<le> 2 * rc_ip_max cfg"
    by (auto simp: slot_inv_def window_inv_def quiet_inv_def split: option.splits)
  moreover have "between a (a + rc_window cfg) (map fst (snd s)) \<le> 2 * rc_global_max cfg"
    using inv by (auto simp: rates_inv_def global_inv_def window_inv_def s_def split: prod.splits)
  ultimately show ?thesis by (simp add: s_def)
qed

text \<open>Two messages in ten seconds per address: a burst at the end of one window and at the start of the next.\<close>

theorem syslog_rate_bound_witness:
  "map fst (snd (fold (rate_step \<lparr>rc_window = 10, rc_ip_max = 2, rc_global_max = 9\<rparr>)
     [(100, ''a''), (108, ''a''), (109, ''a''), (110, ''a''), (111, ''a''), (112, ''a'')] (start_rates, []))) = [100, 108, 110, 111] \<and>
   between 102 112 (times_of ''a'' (snd (fold (rate_step \<lparr>rc_window = 10, rc_ip_max = 2, rc_global_max = 9\<rparr>)
     [(100, ''a''), (108, ''a''), (109, ''a''), (110, ''a''), (111, ''a''), (112, ''a'')] (start_rates, [])))) \<le> 4"
proof -
  let ?cfg = "\<lparr>rc_window = 10, rc_ip_max = 2, rc_global_max = 9\<rparr>"
  let ?evs = "[(100 :: int, ''a''), (108, ''a''), (109, ''a''), (110, ''a''), (111, ''a''), (112, ''a'')]"
  have "map fst (snd (fold (rate_step ?cfg) ?evs (start_rates, []))) = [100, 108, 110, 111]" by code_simp
  moreover have "cfg_ok ?cfg" "sorted (map fst ?evs)" "\<forall>e \<in> set ?evs. 0 \<le> fst e" by (simp_all add: cfg_ok_def)
  ultimately show ?thesis using syslog_rate_bound [of ?cfg ?evs 102 "''a''"] by simp
qed

end
