(* ===== verification/Syslog_Parse.thy ===== *)
theory Syslog_Parse
  imports Prelude
begin

text \<open>
  The syslog parser (\<^verbatim>\<open>backend/services/syslog.py\<close>): RFC 5424, RFC 3164 with and without priority, the bare
  priority and plain text. The regular expressions are scanners: every quantified group is followed by
  something it cannot contain, so the greedy match is the only one. Digits, letters and white space are those
  of ASCII.
\<close>

section \<open>Scanners\<close>

definition is_word :: "char \<Rightarrow> bool" where
  "is_word c \<longleftrightarrow> is_lower c \<or> is_upper c \<or> is_digit c \<or> c = CHR ''_''"

text \<open>\<^verbatim>\<open><(\d{1,3})>\<close>\<close>

definition scan_pri :: "string \<Rightarrow> (int \<times> string) option" where
  "scan_pri s =
     (if startswith s ''<'' then
        (let ds = takeWhile is_digit (tl s); r = dropWhile is_digit (tl s) in
         if ds \<noteq> [] \<and> length ds \<le> 3 \<and> startswith r ''>'' then Some (int (nat_of_digits ds), tl r) else None)
      else None)"

text \<open>\<^verbatim>\<open>(\S+)\s+\<close>\<close>

definition scan_field :: "string \<Rightarrow> (string \<times> string) option" where
  "scan_field s =
     (let t = takeWhile (\<lambda>c. \<not> is_space c) s; r = dropWhile (\<lambda>c. \<not> is_space c) s in
      if t = [] \<or> r = [] then None else Some (t, dropWhile is_space r))"

text \<open>Digits of a run with a length between two bounds, and their number.\<close>

definition scan_digits :: "nat \<Rightarrow> nat \<Rightarrow> string \<Rightarrow> (string \<times> string) option" where
  "scan_digits lo hi s =
     (let ds = takeWhile is_digit s in
      if lo \<le> length ds \<and> length ds \<le> hi then Some (ds, dropWhile is_digit s) else None)"

definition scan_char :: "char \<Rightarrow> string \<Rightarrow> string option" where
  "scan_char c s = (case s of [] \<Rightarrow> None | x # r \<Rightarrow> if x = c then Some r else None)"

text \<open>The part up to the end of the line: \<^verbatim>\<open>.\<close> matches no line break.\<close>

definition first_line :: "string \<Rightarrow> string" where
  "first_line s = takeWhile (\<lambda>c. c \<noteq> CHR 0x0A) s"

section \<open>Timestamps\<close>

definition day_of_civil :: "int \<Rightarrow> int \<Rightarrow> int \<Rightarrow> int" where
  "day_of_civil y m d =
     (let y' = (if m \<le> 2 then y - 1 else y); era = y' div 400; yoe = y' mod 400;
          doy = (153 * (if m > 2 then m - 3 else m + 9) + 2) div 5 + d - 1
      in era * 146097 + (yoe * 365 + yoe div 4 - yoe div 100 + doy) - 719468)"

definition leap :: "int \<Rightarrow> bool" where
  "leap y \<longleftrightarrow> y mod 4 = 0 \<and> (y mod 100 \<noteq> 0 \<or> y mod 400 = 0)"

definition days_in_month :: "int \<Rightarrow> int \<Rightarrow> int" where
  "days_in_month y m = (if m = 2 then (if leap y then 29 else 28) else if m \<in> {4, 6, 9, 11} then 30 else 31)"

text \<open>\<^verbatim>\<open>datetime(...)\<close>: nothing where it raises.\<close>

definition mk_datetime :: "int \<Rightarrow> int \<Rightarrow> int \<Rightarrow> int \<Rightarrow> int \<Rightarrow> int \<Rightarrow> int \<Rightarrow> datetime option" where
  "mk_datetime y mo d h mi s us =
     (if 1 \<le> y \<and> y \<le> 9999 \<and> 1 \<le> mo \<and> mo \<le> 12 \<and> 1 \<le> d \<and> d \<le> days_in_month y mo \<and> h \<le> 23 \<and> mi \<le> 59 \<and> s \<le> 59
      then Some (day_of_civil y mo d * us_per_day + ((h * 60 + mi) * 60 + s) * us_per_second + us) else None)"

definition months :: "string list" where
  "months = [''jan'', ''feb'', ''mar'', ''apr'', ''may'', ''jun'', ''jul'', ''aug'', ''sep'', ''oct'', ''nov'', ''dec'']"

definition month_number :: "string \<Rightarrow> int option" where
  "month_number s = dget (zip months [1..12]) (str_lower s)"

definition num2 :: "string \<Rightarrow> int" where
  "num2 ds = foldl (\<lambda>n c. 10 * n + int (digit_val c)) 0 ds"

text \<open>
  \<^verbatim>\<open>\w{3}\s+\d{1,2}\s+\d{2}:\d{2}:\d{2}\<close>: the parts of the time and the rest.
\<close>

record bsd_time =
  bt_month :: string
  bt_day :: int
  bt_hour :: int
  bt_minute :: int
  bt_second :: int

definition spaces1 :: "string \<Rightarrow> string option" where
  "spaces1 s = (case s of [] \<Rightarrow> None | c # r \<Rightarrow> if is_space c then Some (dropWhile is_space r) else None)"

definition scan_hms :: "string \<Rightarrow> (int \<times> int \<times> int \<times> string) option" where
  "scan_hms s =
     Option.bind (scan_digits 2 2 s) (\<lambda>(h, r1). Option.bind (scan_char CHR '':'' r1) (\<lambda>r2.
     Option.bind (scan_digits 2 2 r2) (\<lambda>(mi, r3). Option.bind (scan_char CHR '':'' r3) (\<lambda>r4.
     let ss = take 2 r4 in
     if length ss = 2 \<and> list_all is_digit ss then Some (num2 h, num2 mi, num2 ss, drop 2 r4) else None))))"

definition scan_bsd_time :: "string \<Rightarrow> (bsd_time \<times> string) option" where
  "scan_bsd_time s =
     (if length (take 3 s) = 3 \<and> list_all is_word (take 3 s) then
        Option.bind (spaces1 (drop 3 s)) (\<lambda>r1. Option.bind (scan_digits 1 2 r1) (\<lambda>(d, r2). Option.bind (spaces1 r2) (\<lambda>r3.
        Option.bind (scan_hms r3) (\<lambda>(h, mi, sec, r4).
          Some (\<lparr>bt_month = take 3 s, bt_day = num2 d, bt_hour = h, bt_minute = mi, bt_second = sec\<rparr>, r4)))))
      else None)"

text \<open>\<open>_parse_3164_ts\<close>: the time is first read in the year 1900, then moved to the current year.\<close>

definition year_of :: "datetime \<Rightarrow> int" where
  "year_of t = (case civil_of_day (day_of t) of (y, _, _) \<Rightarrow> y)"

definition parse_3164_ts :: "datetime \<Rightarrow> bsd_time \<Rightarrow> datetime" where
  "parse_3164_ts now b =
     (case month_number (bt_month b) of
        None \<Rightarrow> now
      | Some mo \<Rightarrow>
          (case mk_datetime 1900 mo (bt_day b) (bt_hour b) (bt_minute b) (bt_second b) 0 of
             None \<Rightarrow> now
           | Some _ \<Rightarrow> the (mk_datetime (year_of now) mo (bt_day b) (bt_hour b) (bt_minute b) (bt_second b) 0)))"

text \<open>
  \<open>_parse_5424_ts\<close>: a naive time, or one with its offset from UTC in microseconds.
\<close>

definition scan_num :: "nat \<Rightarrow> int \<Rightarrow> int \<Rightarrow> string \<Rightarrow> (int \<times> string) option" where
  "scan_num width lo hi s =
     Option.bind (scan_digits 1 width s) (\<lambda>(ds, r). if lo \<le> num2 ds \<and> num2 ds \<le> hi then Some (num2 ds, r) else None)"

definition scan_t :: "string \<Rightarrow> string option" where
  "scan_t s = (case s of [] \<Rightarrow> None | c # r \<Rightarrow> if c = CHR ''T'' \<or> c = CHR ''t'' then Some r else None)"

definition scan_offset :: "string \<Rightarrow> int option" where
  "scan_offset s =
     (case s of
        sg # h1 # h2 # r \<Rightarrow>
          (if (sg = CHR ''+'' \<or> sg = CHR ''-'') \<and> is_digit h1 \<and> is_digit h2 then
             (let colon = startswith r '':''; r1 = (if colon then tl r else r); mm = take 2 r1; r2 = drop 2 r1;
                  r3 = (if colon then (if startswith r2 '':'' then tl r2 else []) else r2); ss = take 2 r3; frac = drop 2 r3;
                  ok2 = (\<lambda>x. length x = 2 \<and> list_all is_digit x \<and> num2 x \<le> 59);
                  off = (num2 [h1, h2] * 60 + num2 mm) * 60 * us_per_second;
                  sgn = (if sg = CHR ''-'' then - 1 else 1 :: int)
              in if \<not> ok2 mm then None
                 else if r2 = [] then (if off < us_per_day then Some (sgn * off) else None)
                 else if ok2 ss \<and> (frac = [] \<or> startswith frac ''.'' \<and> tl frac \<noteq> [] \<and> length (tl frac) \<le> 6 \<and> list_all is_digit (tl frac)) then
                   (let us = (if frac = [] then 0 else num2 (take 6 (tl frac @ ''000000''))); all = off + num2 ss * us_per_second + us in
                    if all < us_per_day then Some (sgn * all) else None)
                 else None)
           else None)
      | _ \<Rightarrow> None)"

definition scan_zone :: "string \<Rightarrow> int option option" where
  "scan_zone s = (if s = ''Z'' \<or> s = ''z'' then Some None else map_option Some (scan_offset s))"

text \<open>\<^verbatim>\<open>%Y-%m-%dT%H:%M:%S\<close>: the date and time for a number of microseconds, and the rest.\<close>

definition scan_date_time :: "string \<Rightarrow> ((int \<Rightarrow> datetime option) \<times> string) option" where
  "scan_date_time s =
     Option.bind (scan_digits 4 4 s) (\<lambda>(y, r1). Option.bind (scan_char CHR ''-'' r1) (\<lambda>r2.
     Option.bind (scan_num 2 1 12 r2) (\<lambda>(mo, r3). Option.bind (scan_char CHR ''-'' r3) (\<lambda>r4.
     Option.bind (scan_num 2 1 31 r4) (\<lambda>(d, r5). Option.bind (scan_t r5) (\<lambda>r6.
     Option.bind (scan_num 2 0 23 r6) (\<lambda>(h, r7). Option.bind (scan_char CHR '':'' r7) (\<lambda>r8.
     Option.bind (scan_num 2 0 59 r8) (\<lambda>(mi, r9). Option.bind (scan_char CHR '':'' r9) (\<lambda>r10.
     map_option (\<lambda>(sec, r11). (mk_datetime (num2 y) mo d h mi sec, r11)) (scan_num 2 0 61 r10)))))))))))"

definition scan_fraction :: "string \<Rightarrow> (int \<times> string) option" where
  "scan_fraction s =
     (if startswith s ''.'' then map_option (\<lambda>(f, r). (num2 (take 6 (f @ ''000000'')), r)) (scan_digits 1 6 (tl s)) else Some (0, s))"

definition parse_5424_ts :: "datetime \<Rightarrow> string \<Rightarrow> datetime \<times> int option" where
  "parse_5424_ts now s =
     (let parsed =
        Option.bind (scan_date_time s) (\<lambda>(at_us, r1). Option.bind (scan_fraction r1) (\<lambda>(us, r2).
        Option.bind (scan_zone r2) (\<lambda>zone. map_option (\<lambda>t. (t, zone)) (at_us us))))
      in if s = ''-'' then (now, None) else (case parsed of None \<Rightarrow> (now, None) | Some p \<Rightarrow> p))"

section \<open>Messages\<close>

record syslog_msg =
  sy_time :: "datetime \<times> int option"
  sy_source :: string
  sy_hostname :: "string option"
  sy_facility :: "int option"
  sy_severity :: int
  sy_app :: "string option"
  sy_message :: string

text \<open>\<^verbatim>\<open>(\S+?)(?:\[\d+\])?:\s*(.*)\<close>: the shortest name that is followed by a colon, or by a process number and a colon.\<close>

definition after_name :: "string \<Rightarrow> string option" where
  "after_name r =
     (let ds = takeWhile is_digit (tl r); q = dropWhile is_digit (tl r) in
      if startswith r ''['' \<and> ds \<noteq> [] \<and> startswith q '']:'' then Some (drop 2 q)
      else if startswith r '':'' then Some (tl r) else None)"

fun scan_app :: "string \<Rightarrow> string \<Rightarrow> (string \<times> string) option" where
  "scan_app name [] = None"
| "scan_app name (c # r) =
     (if is_space c then None
      else (case after_name r of
              Some q \<Rightarrow> Some (name @ [c], dropWhile is_space q)
            | None \<Rightarrow> scan_app (name @ [c]) r))"

definition split_app_message :: "string \<Rightarrow> string option \<times> string" where
  "split_app_message rest = (case scan_app [] rest of None \<Rightarrow> (None, rest) | Some (app, m) \<Rightarrow> (Some app, m))"

definition not_dash :: "string \<Rightarrow> string option" where
  "not_dash s = (if s = ''-'' then None else Some s)"

definition clamp_pri :: "int \<Rightarrow> int" where
  "clamp_pri pri = min pri 191"

text \<open>\<^verbatim>\<open>_RFC5424_RE\<close>\<close>

definition skip_structured :: "string \<Rightarrow> string" where
  "skip_structured r =
     (if startswith r ''['' \<and> CHR '']'' \<in> set (first_line r)
      then dropWhile is_space (tl (dropWhile (\<lambda>c. c \<noteq> CHR '']'') r)) else r)"

definition scan_5424 :: "string \<Rightarrow> (int \<times> string \<times> string \<times> string \<times> string) option" where
  "scan_5424 raw =
     Option.bind (scan_pri raw) (\<lambda>(pri, r0). Option.bind (scan_field r0) (\<lambda>(ver, r1).
     if \<not> list_all is_digit ver then None
     else Option.bind (scan_field r1) (\<lambda>(ts, r2). Option.bind (scan_field r2) (\<lambda>(host, r3).
       Option.bind (scan_field r3) (\<lambda>(app, r4). Option.bind (scan_field r4) (\<lambda>(_, r5).
       let msgid = takeWhile (\<lambda>c. \<not> is_space c) r5; r6 = dropWhile is_space (dropWhile (\<lambda>c. \<not> is_space c) r5)
       in if msgid = [] then None else Some (pri, ts, host, app, first_line (skip_structured r6))))))))"

text \<open>\<^verbatim>\<open>_RFC3164_RE\<close> after the priority; \<open>dotall\<close> tells whether the rest may span lines.\<close>

definition scan_3164 :: "bool \<Rightarrow> string \<Rightarrow> (bsd_time \<times> string \<times> string) option" where
  "scan_3164 dotall s =
     Option.bind (scan_bsd_time s) (\<lambda>(b, r1). Option.bind (spaces1 r1) (\<lambda>r2. Option.bind (scan_field r2) (\<lambda>(host, r3).
       let rest = (if dotall then r3 else first_line r3) in if rest = [] then None else Some (b, host, rest))))"

text \<open>The host slot may hold an ISO timestamp (UniFi): then the host is the next word.\<close>

definition iso_prefix :: "string \<Rightarrow> bool" where
  "iso_prefix s \<longleftrightarrow> length s \<ge> 11 \<and> list_all is_digit (take 4 s) \<and> s ! 4 = CHR ''-'' \<and> list_all is_digit (take 2 (drop 5 s)) \<and>
     s ! 7 = CHR ''-'' \<and> list_all is_digit (take 2 (drop 8 s)) \<and> s ! 10 = CHR ''T''"

definition dual_timestamp :: "string \<Rightarrow> string \<Rightarrow> string \<times> string" where
  "dual_timestamp host rest =
     (let r = dropWhile is_space rest; w = takeWhile (\<lambda>c. \<not> is_space c) r in
      if iso_prefix host \<and> w \<noteq> [] then (w, dropWhile is_space (dropWhile (\<lambda>c. \<not> is_space c) r)) else (host, rest))"

definition bsd_message :: "datetime \<Rightarrow> string \<Rightarrow> int option \<Rightarrow> int \<Rightarrow> bsd_time \<Rightarrow> string \<Rightarrow> string \<Rightarrow> syslog_msg" where
  "bsd_message now source facility severity b host rest =
     (case dual_timestamp host rest of (host1, rest1) \<Rightarrow>
        (case split_app_message rest1 of (app, m) \<Rightarrow>
           \<lparr>sy_time = (parse_3164_ts now b, None), sy_source = source, sy_hostname = Some host1, sy_facility = facility,
            sy_severity = severity, sy_app = app, sy_message = strip m\<rparr>))"

definition plain_message :: "datetime \<Rightarrow> string \<Rightarrow> int option \<Rightarrow> int \<Rightarrow> string \<Rightarrow> syslog_msg" where
  "plain_message now source facility severity m =
     \<lparr>sy_time = (now, None), sy_source = source, sy_hostname = None, sy_facility = facility, sy_severity = severity,
      sy_app = None, sy_message = m\<rparr>"

definition parse_syslog :: "datetime \<Rightarrow> string \<Rightarrow> string \<Rightarrow> syslog_msg option" where
  "parse_syslog now text source =
     (let raw = strip text in
      if raw = [] then None
      else Some (case scan_5424 raw of
        Some (pri0, ts, host, app, m) \<Rightarrow>
          (let pri = clamp_pri pri0 in
           \<lparr>sy_time = parse_5424_ts now ts, sy_source = source, sy_hostname = not_dash host, sy_facility = Some (pri div 8),
            sy_severity = pri mod 8, sy_app = not_dash app, sy_message = strip m\<rparr>)
      | None \<Rightarrow>
          (case scan_pri raw of
             Some (pri0, r) \<Rightarrow>
               (case scan_3164 False r of
                  Some (b, host, rest) \<Rightarrow> (let pri = clamp_pri pri0 in bsd_message now source (Some (pri div 8)) (pri mod 8) b host rest)
                | None \<Rightarrow> plain_message now source (Some (pri0 div 8)) (pri0 mod 8) (strip r))
           | None \<Rightarrow>
               (case scan_3164 True raw of
                  Some (b, host, rest) \<Rightarrow> bsd_message now source None 6 b host rest
                | None \<Rightarrow> plain_message now source None 6 raw))))"

section \<open>What the parser reads back\<close>

text \<open>An RFC 5424 message and its text: tokens without white space, one structured element or none.\<close>

record rfc5424 =
  r5_pri :: nat
  r5_time :: string
  r5_host :: string
  r5_app :: string
  r5_procid :: string
  r5_msgid :: string
  r5_sd :: "string option"
  r5_msg :: string

definition sd_text :: "string option \<Rightarrow> string" where
  "sd_text sd = (case sd of None \<Rightarrow> ''-'' | Some body \<Rightarrow> ''['' @ body @ '']'')"

definition print_5424 :: "rfc5424 \<Rightarrow> string" where
  "print_5424 r = ''<'' @ show_nat (r5_pri r) @ ''>1 '' @ r5_time r @ '' '' @ r5_host r @ '' '' @ r5_app r @ '' '' @
     r5_procid r @ '' '' @ r5_msgid r @ '' '' @ sd_text (r5_sd r) @ '' '' @ r5_msg r"

definition token :: "string \<Rightarrow> bool" where
  "token s \<longleftrightarrow> s \<noteq> [] \<and> list_all (\<lambda>c. \<not> is_space c) s"

definition text_line :: "string \<Rightarrow> bool" where
  "text_line s \<longleftrightarrow> s \<noteq> [] \<and> \<not> is_space (hd s) \<and> \<not> is_space (last s) \<and> CHR 0x0A \<notin> set s"

definition rfc5424_ok :: "rfc5424 \<Rightarrow> bool" where
  "rfc5424_ok r \<longleftrightarrow> r5_pri r < 1000 \<and> token (r5_time r) \<and> token (r5_host r) \<and> token (r5_app r) \<and> token (r5_procid r) \<and>
     token (r5_msgid r) \<and> text_line (r5_msg r) \<and>
     (case r5_sd r of None \<Rightarrow> True | Some body \<Rightarrow> CHR '']'' \<notin> set body \<and> CHR 0x0A \<notin> set body)"

lemma takeWhile_stop: "list_all P s \<Longrightarrow> \<not> P c \<Longrightarrow> takeWhile P (s @ c # r) = s"
  by (induction s) auto

lemma dropWhile_stop: "list_all P s \<Longrightarrow> \<not> P c \<Longrightarrow> dropWhile P (s @ c # r) = c # r"
  by (induction s) auto

lemmas while_stop = takeWhile_stop dropWhile_stop

lemma show_nat_lt_1000: "n < 1000 \<Longrightarrow> length (show_nat n) \<le> 3"
  by (subst show_nat.simps, subst show_nat.simps, subst show_nat.simps) auto

lemma scan_pri_print:
  assumes "n < 1000"
  shows "scan_pri (CHR ''<'' # show_nat n @ CHR ''>'' # r) = Some (int n, r)"
proof -
  have "\<not> is_digit CHR ''>''" by code_simp
  with assms show ?thesis
    by (simp add: scan_pri_def Let_def while_stop [OF show_nat_digits] show_nat_lt_1000)
qed

lemma space_char: "is_space CHR '' ''"
  by code_simp

lemma drop_space: "token s \<Longrightarrow> dropWhile is_space (CHR '' '' # s @ r) = s @ r"
  by (cases s) (simp_all add: token_def space_char)

lemma scan_field_token:
  assumes "token s" "r \<noteq> []" "\<not> is_space (hd r)"
  shows "scan_field (s @ CHR '' '' # r) = Some (s, r)"
  using assms by (cases r) (simp_all add: scan_field_def Let_def token_def while_stop space_char)

lemma token_hd: "token s \<Longrightarrow> s @ r \<noteq> [] \<and> \<not> is_space (hd (s @ r))"
  by (cases s) (simp_all add: token_def)

lemma first_line_id: "CHR 0x0A \<notin> set s \<Longrightarrow> first_line s = s"
  by (simp add: first_line_def takeWhile_eq_all_conv, auto)

lemma skip_nil: "skip_structured (CHR ''-'' # r) = CHR ''-'' # r"
  by (simp add: skip_structured_def)

lemma skip_element:
  assumes "CHR '']'' \<notin> set body" "CHR 0x0A \<notin> set body" "m \<noteq> []" "\<not> is_space (hd m)"
  shows "skip_structured (CHR ''['' # body @ CHR '']'' # CHR '' '' # m) = m"
proof -
  have "CHR '']'' \<in> set (first_line (CHR ''['' # body @ CHR '']'' # CHR '' '' # m))"
    using assms(2) by (simp add: first_line_def takeWhile_append)
  moreover have "dropWhile (\<lambda>c. c \<noteq> CHR '']'') (body @ CHR '']'' # CHR '' '' # m) = CHR '']'' # CHR '' '' # m"
    using assms(1) by (intro dropWhile_stop) (auto simp: list_all_iff)
  ultimately show ?thesis
    using assms(3,4) by (cases m) (simp_all add: skip_structured_def space_char)
qed

lemma token_1: "token ''1''"
  by code_simp

lemma rest_5424:
  assumes "rfc5424_ok r"
  shows "first_line (skip_structured (sd_text (r5_sd r) @ CHR '' '' # r5_msg r)) = (if r5_sd r = None then ''- '' else []) @ r5_msg r"
  using assms by (cases "r5_sd r")
    (simp_all add: rfc5424_ok_def text_line_def sd_text_def skip_nil skip_element first_line_id)

lemma scan_tokens: "token s \<Longrightarrow> token s' \<Longrightarrow> scan_field (s @ CHR '' '' # s' @ r) = Some (s, s' @ r)"
  using scan_field_token [of s "s' @ r"] token_hd [of s' r] by simp

lemma scan_version: "token s \<Longrightarrow> scan_field (CHR ''1'' # CHR '' '' # s @ r) = Some (''1'', s @ r)"
  using scan_tokens [OF token_1, of s r] by simp

lemma sd_hd: "dropWhile is_space (CHR '' '' # sd_text x @ y) = sd_text x @ y"
proof -
  have "\<not> is_space CHR ''-''" "\<not> is_space CHR ''[''" by code_simp+
  then show ?thesis by (cases x) (simp_all add: sd_text_def space_char)
qed

lemma scan_5424_print:
  assumes "rfc5424_ok r"
  shows "scan_5424 (print_5424 r) =
    Some (int (r5_pri r), r5_time r, r5_host r, r5_app r, (if r5_sd r = None then ''- '' else []) @ r5_msg r)"
proof -
  have t: "token (r5_time r)" "token (r5_host r)" "token (r5_app r)" "token (r5_procid r)" "token (r5_msgid r)"
    and p: "r5_pri r < 1000"
    using assms by (simp_all add: rfc5424_ok_def)
  have m: "takeWhile (\<lambda>c. \<not> is_space c) (r5_msgid r @ CHR '' '' # x) = r5_msgid r"
    "dropWhile (\<lambda>c. \<not> is_space c) (r5_msgid r @ CHR '' '' # x) = CHR '' '' # x" for x
    using t(5) by (simp_all add: token_def while_stop space_char)
  have ne: "r5_msgid r \<noteq> []" and one: "list_all is_digit ''1''"
    using t(5) by (simp add: token_def) code_simp
  show ?thesis
    using rest_5424 [OF assms] one
    by (simp add: scan_5424_def print_5424_def scan_pri_print p scan_version scan_tokens t m ne sd_hd Let_def del: dropWhile.simps split del: if_split)
qed

lemma strip_5424:
  assumes "rfc5424_ok r"
  shows "strip (print_5424 r) = print_5424 r"
proof (rule strip_id)
  have m: "r5_msg r \<noteq> []" "\<not> is_space (last (r5_msg r))" using assms by (simp_all add: rfc5424_ok_def text_line_def)
  show "\<not> is_space (last (print_5424 r))" using m by (simp add: print_5424_def)
  have "\<not> is_space CHR ''<''" by code_simp
  then show "print_5424 r \<noteq> []" "\<not> is_space (hd (print_5424 r))" by (simp_all add: print_5424_def)
qed

text \<open>The text of an RFC 5424 message with a structured element is read back field by field: the priority as facility
  and severity (above 191 as 191), the time, the host and the application (a dash as absent) and the message.
  Without structured data the dash that stands for it stays in front of the message.\<close>

theorem rfc5424_roundtrip:
  assumes "rfc5424_ok r"
  shows "parse_syslog now (print_5424 r) source = Some
    \<lparr>sy_time = parse_5424_ts now (r5_time r), sy_source = source,
     sy_hostname = (if r5_host r = ''-'' then None else Some (r5_host r)),
     sy_facility = Some (int (min (r5_pri r) 191 div 8)), sy_severity = int (min (r5_pri r) 191 mod 8),
     sy_app = (if r5_app r = ''-'' then None else Some (r5_app r)),
     sy_message = (if r5_sd r = None then ''- '' else []) @ r5_msg r\<rparr>"
proof -
  have m: "r5_msg r \<noteq> []" "\<not> is_space (hd (r5_msg r))" "\<not> is_space (last (r5_msg r))"
    using assms by (simp_all add: rfc5424_ok_def text_line_def)
  have dash: "\<not> is_space CHR ''-''" by code_simp
  have "strip ((if r5_sd r = None then ''- '' else []) @ r5_msg r) = (if r5_sd r = None then ''- '' else []) @ r5_msg r"
    using m dash by (intro strip_id) simp_all
  moreover have "print_5424 r \<noteq> []" by (simp add: print_5424_def)
  ultimately show ?thesis
    by (simp add: parse_syslog_def strip_5424 [OF assms] scan_5424_print [OF assms] not_dash_def clamp_pri_def Let_def
        of_nat_min zdiv_int zmod_int split del: if_split)
qed

definition sample_5424 :: "string option \<Rightarrow> rfc5424" where
  "sample_5424 sd = \<lparr>r5_pri = 165, r5_time = ''2026-03-07T10:30:15.123Z'', r5_host = ''fw1'', r5_app = ''-'', r5_procid = ''123'',
     r5_msgid = ''ID47'', r5_sd = sd, r5_msg = ''blocked packet''\<rparr>"

theorem rfc5424_roundtrip_witness:
  "rfc5424_ok (sample_5424 (Some ''meta k=v'')) \<and> rfc5424_ok (sample_5424 None) \<and>
   map_option sy_message (parse_syslog 0 (print_5424 (sample_5424 (Some ''meta k=v''))) ''10.0.0.1'') = Some ''blocked packet'' \<and>
   map_option sy_time (parse_syslog 0 (print_5424 (sample_5424 (Some ''meta k=v''))) ''10.0.0.1'') = Some (1772879415123000, None) \<and>
   map_option sy_severity (parse_syslog 0 (print_5424 (sample_5424 None)) ''10.0.0.1'') = Some 5 \<and>
   map_option sy_message (parse_syslog 0 (print_5424 (sample_5424 None)) ''10.0.0.1'') = Some ''- blocked packet''"
proof -
  have ok: "rfc5424_ok (sample_5424 (Some ''meta k=v''))" "rfc5424_ok (sample_5424 None)" by code_simp+
  have ts: "parse_5424_ts 0 (r5_time (sample_5424 sd)) = (1772879415123000, None)" for sd
    unfolding sample_5424_def by (simp only: rfc5424.select_convs) code_simp
  have f: "r5_sd (sample_5424 sd) = sd" "r5_msg (sample_5424 sd) = ''blocked packet''" "r5_pri (sample_5424 sd) = 165" for sd
    by (simp_all add: sample_5424_def)
  show ?thesis
    unfolding rfc5424_roundtrip [OF ok(1)] rfc5424_roundtrip [OF ok(2)] ts f using ok by simp
qed

text \<open>Every branch of the parser but one limits the priority to 191. A message that is neither of the two formats
  keeps the priority as it is, so facilities that do not exist reach the store.\<close>

theorem bare_priority_unclamped:
  "map_option sy_facility (parse_syslog 0 ''<999>link down'' ''10.0.0.1'') = Some (Some 124) \<and>
   map_option sy_facility (parse_syslog 0 ''<999>Mar  7 07:26:58 gw kernel: link down'' ''10.0.0.1'') = Some (Some 23) \<and>
   map_option sy_facility (parse_syslog 0 ''<999>1 - gw kernel - - - link down'' ''10.0.0.1'') = Some (Some 23)"
  by code_simp

text \<open>A message of December that is read in January is dated almost a year ahead.\<close>

lemma december_read_in_january:
  "map_option (fst \<circ> sy_time) (parse_syslog (the (mk_datetime 2026 1 1 0 0 5 0)) ''<13>Dec 31 23:59:58 gw kernel: up'' ''10.0.0.1'') =
   mk_datetime 2026 12 31 23 59 58 0"
  by code_simp

end
