(* ===== verification/Syslog_Hosts.thy ===== *)
theory Syslog_Hosts
  imports Ip_Address Interfaces
begin

text \<open>
  Which host a syslog message belongs to (\<^verbatim>\<open>backend/services/syslog.py\<close>): the host caches per tenant and site
  with their keys (names, addresses, short names, resolved addresses), the lookup of a message, the
  allowlist of sources and the modes of the direct listener. Forward and reverse name resolution are arguments.
\<close>

section \<open>Hosts and their keys\<close>

record sys_host =
  sh_id :: int
  sh_tenant :: int
  sh_site :: "int option"
  sh_name :: string
  sh_hostname :: string

definition drop_prefix :: "string \<Rightarrow> string \<Rightarrow> string" where
  "drop_prefix p s = (if startswith s p then drop (length p) s else s)"

definition raw_host :: "string \<Rightarrow> string" where
  "raw_host hostname =
     (let raw = drop_prefix ''http://'' (drop_prefix ''https://'' hostname) in
      hd (split_on CHR '':'' (hd (split_on CHR ''/'' raw))))"

text \<open>The site of a host: its own, else the tenant's default.\<close>

definition host_site :: "(int \<Rightarrow> int option) \<Rightarrow> sys_host \<Rightarrow> int option" where
  "host_site default_site h = (case sh_site h of Some s \<Rightarrow> Some s | None \<Rightarrow> default_site (sh_tenant h))"

definition ip_or_none :: "string \<Rightarrow> ip option" where
  "ip_or_none value = map_option fst (ip_scoped value)"

text \<open>\<^verbatim>\<open>socket.inet_aton\<close>: one to four numbers in C notation, the last one fills the remaining bytes.\<close>

definition digits_in :: "int \<Rightarrow> string \<Rightarrow> int option" where
  "digits_in base s =
     (if s \<noteq> [] \<and> list_all (\<lambda>c. case hex_val c of None \<Rightarrow> False | Some d \<Rightarrow> int d < base) s
      then Some (foldl (\<lambda>n c. n * base + int (the (hex_val c))) 0 s) else None)"

definition c_number :: "string \<Rightarrow> int option" where
  "c_number s =
     (if startswith (str_lower s) ''0x'' then digits_in 16 (drop 2 s)
      else if startswith s ''0'' \<and> s \<noteq> ''0'' then digits_in 8 (tl s)
      else digits_in 10 s)"

definition inet_aton_ok :: "string \<Rightarrow> bool" where
  "inet_aton_ok s =
     (let parts = map c_number (split_on CHR ''.'' (takeWhile (\<lambda>c. \<not> is_space c) s)) in
      length parts \<le> 4 \<and> None \<notin> set parts \<and> list_all (\<lambda>p. the p \<le> 255) (butlast parts) \<and>
      the (last parts) < 256 ^ (5 - length parts))"

section \<open>The caches\<close>

text \<open>One call of \<open>_file\<close>: tenant, site, key and host.\<close>

type_synonym filing = "int \<times> int option \<times> string \<times> int"

record caches =
  hc_cache :: "(int, (string, int) dict) dict"
  hc_site :: "(int \<times> int, (string, int) dict) dict"
  hc_key_sites :: "(int \<times> string, int option list) dict"

definition file_key :: "filing \<Rightarrow> caches \<Rightarrow> caches" where
  "file_key f c = (case f of (tenant, site, key, hid) \<Rightarrow>
     c\<lparr>hc_cache := dset (hc_cache c) tenant (dset (dget_or (hc_cache c) tenant []) key hid),
       hc_key_sites := dset (hc_key_sites c) (tenant, key) (site # dget_or (hc_key_sites c) (tenant, key) []),
       hc_site := (case site of None \<Rightarrow> hc_site c
         | Some s \<Rightarrow> dset (hc_site c) (tenant, s) (dset (dget_or (hc_site c) (tenant, s) []) key hid))\<rparr>)"

definition empty_caches :: "int list \<Rightarrow> caches" where
  "empty_caches tenants = \<lparr>hc_cache = map (\<lambda>t. (t, [])) tenants, hc_site = [], hc_key_sites = []\<rparr>"

text \<open>The names and the raw host of every host.\<close>

definition host_filings :: "(int \<Rightarrow> int option) \<Rightarrow> sys_host list \<Rightarrow> filing list" where
  "host_filings default_site hosts = concat (map (\<lambda>h.
     let f = (\<lambda>key. (sh_tenant h, host_site default_site h, key, sh_id h)) in
     [f (str_lower (sh_hostname h))] @ (if sh_name h = [] then [] else [f (str_lower (sh_name h))]) @ [f (str_lower (raw_host (sh_hostname h)))]) hosts)"

text \<open>
  Short names: the first label of a full name, unless two hosts of the tenant share it or it is a key already.
\<close>

definition name_short_label :: "string \<Rightarrow> string option" where
  "name_short_label name =
     (if name = [] \<or> CHR ''.'' \<notin> set name \<or> list_ex (\<lambda>c. c \<in> set name) '' /:'' \<or> ip_or_none name \<noteq> None then None
      else (let l = str_lower (hd (split_on CHR ''.'' name)) in if l = [] then None else Some l))"

definition add_short :: "(int \<Rightarrow> int option) \<Rightarrow> sys_host \<Rightarrow> string \<Rightarrow> (int \<times> string, (int option \<times> int) list) dict
    \<Rightarrow> (int \<times> string, (int option \<times> int) list) dict" where
  "add_short default_site h name d = (case name_short_label name of
       None \<Rightarrow> d
     | Some l \<Rightarrow> dset d (sh_tenant h, l) (dget_or d (sh_tenant h, l) [] @ [(host_site default_site h, sh_id h)]))"

definition shorts :: "(int \<Rightarrow> int option) \<Rightarrow> sys_host list \<Rightarrow> (int \<times> string, (int option \<times> int) list) dict" where
  "shorts default_site hosts = fold (\<lambda>h. fold (add_short default_site h) [raw_host (sh_hostname h), sh_name h]) hosts []"

definition short_filings :: "(int \<Rightarrow> int option) \<Rightarrow> sys_host list \<Rightarrow> caches \<Rightarrow> filing list" where
  "short_filings default_site hosts c = concat (map (\<lambda>((tenant, l), owners).
     if dget (dget_or (hc_cache c) tenant []) l \<noteq> None \<or> length (remdups (map snd owners)) \<noteq> 1 then []
     else map (\<lambda>(site, hid). (tenant, site, l, hid)) owners) (shorts default_site hosts))"

text \<open>Addresses the raw hosts resolve to.\<close>

definition dns_filings :: "(string \<Rightarrow> string option) \<Rightarrow> (int \<Rightarrow> int option) \<Rightarrow> sys_host list \<Rightarrow> filing list" where
  "dns_filings dns default_site hosts = concat (map (\<lambda>h. case dns (raw_host (sh_hostname h)) of
       None \<Rightarrow> []
     | Some a \<Rightarrow> if a = [] then [] else [(sh_tenant h, host_site default_site h, a, sh_id h)]) hosts)"

definition refresh_caches :: "(string \<Rightarrow> string option) \<Rightarrow> (int \<Rightarrow> int option) \<Rightarrow> int list \<Rightarrow> sys_host list \<Rightarrow> caches" where
  "refresh_caches dns default_site tenants hosts =
     (let c1 = fold file_key (host_filings default_site hosts) (empty_caches tenants);
          c2 = fold file_key (short_filings default_site hosts c1) c1
      in fold file_key (dns_filings dns default_site hosts) c2)"

text \<open>Keys of a tenant that name hosts in more than one site.\<close>

definition cross_site :: "caches \<Rightarrow> int \<Rightarrow> string \<Rightarrow> bool" where
  "cross_site c tenant key \<longleftrightarrow> length (remdups (dget_or (hc_key_sites c) (tenant, key) [])) > 1"

definition allowed_ips :: "(string \<Rightarrow> string option) \<Rightarrow> (int \<Rightarrow> int option) \<Rightarrow> sys_host list \<Rightarrow> (int \<times> int option \<times> string) list" where
  "allowed_ips dns default_site hosts = concat (map (\<lambda>h.
     (let raw = raw_host (sh_hostname h); a = (\<lambda>ip. (sh_tenant h, host_site default_site h, ip)) in
      (if inet_aton_ok raw then [a raw] else []) @
      (case dns raw of None \<Rightarrow> [] | Some ip \<Rightarrow> if ip = [] then [] else [a ip]))) hosts)"

section \<open>Lookup\<close>

definition hit :: "(string, int) dict \<Rightarrow> (string \<Rightarrow> bool) \<Rightarrow> string option \<Rightarrow> int option" where
  "hit cache accept key = (case key of
     None \<Rightarrow> None
   | Some k \<Rightarrow> if k = [] \<or> \<not> accept k then None else dget cache k)"

text \<open>\<^verbatim>\<open>a if a is not None else b\<close>.\<close>

definition or_else :: "'a option \<Rightarrow> 'a option \<Rightarrow> 'a option" where
  "or_else a b = (case a of None \<Rightarrow> b | Some x \<Rightarrow> Some x)"

definition full_key :: "string option \<Rightarrow> string option" where
  "full_key s = (case s of None \<Rightarrow> None | Some x \<Rightarrow> if x = [] then None else Some x)"

definition rdns_keys :: "(string, string option) dict \<Rightarrow> string \<Rightarrow> string list" where
  "rdns_keys rdns_cache source_ip = (case full_key (dget_or rdns_cache source_ip None) of
     None \<Rightarrow> []
   | Some n \<Rightarrow> str_lower n # (if CHR ''.'' \<in> set n then [str_lower (hd (split_on CHR ''.'' n))] else []))"

definition lookup_keys :: "(string, string option) dict \<Rightarrow> string option \<Rightarrow> string option \<Rightarrow> bool \<Rightarrow> string list" where
  "lookup_keys rdns_cache source_ip hostname rdns =
     (case full_key hostname of None \<Rightarrow> [] | Some h \<Rightarrow> [str_lower h]) @
     (case full_key source_ip of None \<Rightarrow> [] | Some ip \<Rightarrow> [ip, str_lower ip] @ (if rdns then rdns_keys rdns_cache ip else []))"

text \<open>\<open>_lookup\<close>: the first of these keys that hits.\<close>

definition lookup_host :: "(string, int) dict \<Rightarrow> (string, string option) dict \<Rightarrow> string option \<Rightarrow> string option \<Rightarrow> bool \<Rightarrow> (string \<Rightarrow> bool) \<Rightarrow> int option" where
  "lookup_host cache rdns_cache source_ip hostname rdns accept =
     foldr (\<lambda>k r. or_else (hit cache accept (Some k)) r) (lookup_keys rdns_cache source_ip hostname rdns) None"

definition site_fallback_ok :: "caches \<Rightarrow> int \<Rightarrow> string \<Rightarrow> bool" where
  "site_fallback_ok c tenant key \<longleftrightarrow>
     \<not> cross_site c tenant key \<and> (case ip_or_none key of None \<Rightarrow> True | Some a \<Rightarrow> is_global a)"

definition resolve_host_id ::
    "caches \<Rightarrow> (string, string option) dict \<Rightarrow> string option \<Rightarrow> string option \<Rightarrow> int \<Rightarrow> int option \<Rightarrow> bool \<Rightarrow> int option" where
  "resolve_host_id c rdns_cache source_ip hostname tenant site rdns =
     (let all = dget_or (hc_cache c) tenant [] in
      case site of
        None \<Rightarrow> lookup_host all rdns_cache source_ip hostname rdns (\<lambda>_. True)
      | Some s \<Rightarrow>
          or_else (lookup_host (dget_or (hc_site c) (tenant, s) []) rdns_cache source_ip hostname rdns (\<lambda>_. True))
            (lookup_host all rdns_cache source_ip hostname rdns (site_fallback_ok c tenant)))"

definition resolve_agent_host_id :: "caches \<Rightarrow> string option \<Rightarrow> string option \<Rightarrow> int \<Rightarrow> int option \<Rightarrow> int option" where
  "resolve_agent_host_id c client_ip hostname tenant site =
     or_else (resolve_host_id c [] None hostname tenant site False)
       (case (full_key client_ip, site) of
          (Some ip, Some s) \<Rightarrow>
            (case ip_or_none ip of
               None \<Rightarrow> None
             | Some a \<Rightarrow>
                 (if is_global a \<and> length (remdups (filter (\<lambda>(t, _). t = tenant) (dkeys (hc_site c)))) > 1 then None
                  else lookup_host (dget_or (hc_site c) (tenant, s) []) [] (Some ip) None False (\<lambda>_. True)))
        | _ \<Rightarrow> None)"

section \<open>Sources and the listener\<close>

definition is_allowed_source ::
    "caches \<Rightarrow> (int, bool) dict \<Rightarrow> (int \<times> int option \<times> string) list \<Rightarrow> string \<Rightarrow> int \<Rightarrow> int option \<Rightarrow> bool" where
  "is_allowed_source c allowlist_only allowed source_ip tenant site =
     (let anywhere = list_ex (\<lambda>(t, _, ip). t = tenant \<and> ip = source_ip) allowed in
      if \<not> dget_or allowlist_only tenant False then True
      else (case site of
              None \<Rightarrow> anywhere
            | Some s \<Rightarrow> (tenant, Some s, source_ip) \<in> set allowed \<or> site_fallback_ok c tenant source_ip \<and> anywhere))"

definition LISTENER_MODES :: "string list" where "LISTENER_MODES = [''auto'', ''on'', ''off'']"

definition listener_mode :: "string option \<Rightarrow> string" where
  "listener_mode env =
     (let raw = str_lower (strip (case full_key env of None \<Rightarrow> ''auto'' | Some v \<Rightarrow> v));
          mode = dget_or [(''1'', ''on''), (''true'', ''on''), (''yes'', ''on''), (''0'', ''off''), (''false'', ''off''), (''no'', ''off'')] raw raw
      in if mode \<in> set LISTENER_MODES then mode else ''auto'')"

definition listener_accepts :: "string \<Rightarrow> nat option \<Rightarrow> bool" where
  "listener_accepts mode active_tenants \<longleftrightarrow>
     mode = ''on'' \<or> mode = ''auto'' \<and> (case active_tenants of None \<Rightarrow> False | Some n \<Rightarrow> n \<le> 1)"

section \<open>Messages stay with their tenant and site\<close>

text \<open>What the caches hold after a set of filings.\<close>

definition filed :: "filing set \<Rightarrow> caches \<Rightarrow> bool" where
  "filed F c \<longleftrightarrow>
     (\<forall>t k hid. dget (dget_or (hc_cache c) t []) k = Some hid \<longrightarrow> (\<exists>s. (t, s, k, hid) \<in> F)) \<and>
     (\<forall>t s k hid. dget (dget_or (hc_site c) (t, s) []) k = Some hid \<longrightarrow> (t, Some s, k, hid) \<in> F) \<and>
     (\<forall>t k. set (dget_or (hc_key_sites c) (t, k) []) = {s. \<exists>hid. (t, s, k, hid) \<in> F})"

lemma filed_empty: "filed {} (empty_caches tenants)"
proof -
  have "dget_or (map (\<lambda>t. (t, [])) tenants) t [] = []" for t :: int
    by (induction tenants) (auto simp: dget_or_def dget_Cons)
  then have "dget_or (hc_cache (empty_caches tenants)) t [] = []" "dget_or (hc_site (empty_caches tenants)) p [] = []"
      "dget_or (hc_key_sites (empty_caches tenants)) q [] = []" for t p q
    by (simp_all add: empty_caches_def) (simp_all add: dget_or_def)
  then show ?thesis by (simp add: filed_def)
qed

lemma filed_key: "filed F c \<Longrightarrow> filed (insert f F) (file_key f c)"
proof -
  assume c: "filed F c"
  obtain t s k hid where f: "f = (t, s, k, hid)" by (cases f)
  have "\<exists>s'. (t', s', k', hid') \<in> insert f F" if "dget (dget_or (hc_cache (file_key f c)) t' []) k' = Some hid'" for t' k' hid'
    using that c f by (auto simp: file_key_def filed_def dict_simps split: if_splits)
  moreover have "(t', Some s', k', hid') \<in> insert f F" if "dget (dget_or (hc_site (file_key f c)) (t', s') []) k' = Some hid'" for t' s' k' hid'
    using that c f by (cases s) (auto simp: file_key_def filed_def dict_simps split: if_splits)
  moreover have "set (dget_or (hc_key_sites (file_key f c)) (t', k') []) = {s'. \<exists>hid'. (t', s', k', hid') \<in> insert f F}" for t' k'
    using c f by (auto simp: file_key_def filed_def dict_simps)
  ultimately show "filed (insert f F) (file_key f c)" unfolding filed_def by blast
qed

lemma filed_fold: "filed F c \<Longrightarrow> filed (F \<union> set fs) (fold file_key fs c)"
proof (induction fs arbitrary: F c)
  case (Cons f fs)
  from Cons.IH [OF filed_key [OF Cons.prems]] show ?case by simp
qed simp

text \<open>Every filing is for a host of its tenant and site.\<close>

definition of_hosts :: "(int \<Rightarrow> int option) \<Rightarrow> sys_host list \<Rightarrow> filing \<Rightarrow> bool" where
  "of_hosts ds hosts f = (case f of (t, s, _, hid) \<Rightarrow> \<exists>h \<in> set hosts. sh_id h = hid \<and> sh_tenant h = t \<and> host_site ds h = s)"

lemma host_filings_of: "f \<in> set (host_filings ds hosts) \<Longrightarrow> of_hosts ds hosts f"
  by (auto simp: host_filings_def of_hosts_def Let_def split: if_splits)

lemma dns_filings_of: "f \<in> set (dns_filings dns ds hosts) \<Longrightarrow> of_hosts ds hosts f"
  by (auto simp: dns_filings_def of_hosts_def split: option.splits if_splits)

definition owners_of :: "(int \<Rightarrow> int option) \<Rightarrow> sys_host list \<Rightarrow> (int \<times> string, (int option \<times> int) list) dict \<Rightarrow> bool" where
  "owners_of ds hosts d \<longleftrightarrow> (\<forall>t l os. ((t, l), os) \<in> set d \<longrightarrow> (\<forall>(s, hid) \<in> set os. of_hosts ds hosts (t, s, l, hid)))"

lemma owners_of_add:
  assumes "owners_of ds hosts d" and "h \<in> set hosts"
  shows "owners_of ds hosts (dset d (sh_tenant h, l) (dget_or d (sh_tenant h, l) [] @ [(host_site ds h, sh_id h)]))"
proof -
  have old: "\<forall>(s, hid) \<in> set (dget_or d (t, l') []). of_hosts ds hosts (t, s, l', hid)" for t l'
  proof (cases "dget d (t, l')")
    case (Some os)
    then have "((t, l'), os) \<in> set d" by (simp add: dget_def map_of_SomeD)
    with assms(1) Some show ?thesis unfolding owners_of_def dget_or_def by simp
  qed (simp add: dget_or_def)
  have new: "of_hosts ds hosts (sh_tenant h, host_site ds h, l, sh_id h)" using assms(2) by (auto simp: of_hosts_def)
  show ?thesis unfolding owners_of_def using assms(1) old new set_dset [of d "(sh_tenant h, l)"] by (fastforce simp: owners_of_def)
qed

lemma shorts_of: "owners_of ds hosts (shorts ds hosts)"
proof -
  have names: "owners_of ds hosts d \<Longrightarrow> h \<in> set hosts \<Longrightarrow> owners_of ds hosts (fold (add_short ds h) ns d)" for d h ns
    by (induction ns arbitrary: d) (auto simp: add_short_def owners_of_add split: option.splits)
  have "set hs \<subseteq> set hosts \<Longrightarrow> owners_of ds hosts d \<Longrightarrow>
      owners_of ds hosts (fold (\<lambda>h. fold (add_short ds h) [raw_host (sh_hostname h), sh_name h]) hs d)" for hs d
  proof (induction hs arbitrary: d)
    case (Cons h hs)
    from Cons.prems have "owners_of ds hosts (fold (add_short ds h) [raw_host (sh_hostname h), sh_name h] d)" by (intro names) auto
    with Cons.IH Cons.prems(1) show ?case by simp
  qed simp
  from this [of hosts "[]"] show ?thesis unfolding shorts_def owners_of_def by simp
qed

lemma short_filings_of: "f \<in> set (short_filings ds hosts c) \<Longrightarrow> of_hosts ds hosts f"
  using shorts_of [of ds hosts] unfolding short_filings_def owners_of_def by (fastforce split: if_splits)

text \<open>The filings of a refresh.\<close>

definition all_filings :: "(string \<Rightarrow> string option) \<Rightarrow> (int \<Rightarrow> int option) \<Rightarrow> int list \<Rightarrow> sys_host list \<Rightarrow> filing set" where
  "all_filings dns ds tenants hosts =
     set (host_filings ds hosts) \<union> set (short_filings ds hosts (fold file_key (host_filings ds hosts) (empty_caches tenants))) \<union>
     set (dns_filings dns ds hosts)"

lemma refresh_filed: "filed (all_filings dns ds tenants hosts) (refresh_caches dns ds tenants hosts)"
  unfolding refresh_caches_def all_filings_def Let_def
  using filed_fold [OF filed_fold [OF filed_fold [OF filed_empty]]] by simp

lemma all_filings_of: "f \<in> all_filings dns ds tenants hosts \<Longrightarrow> of_hosts ds hosts f"
  unfolding all_filings_def using host_filings_of short_filings_of dns_filings_of by blast

lemma lookup_key:
  "lookup_host cache rdns_cache source_ip hostname rdns accept = Some hid \<Longrightarrow>
   \<exists>k \<in> set (lookup_keys rdns_cache source_ip hostname rdns). accept k \<and> dget cache k = Some hid"
proof -
  have "foldr (\<lambda>k r. or_else (hit cache accept (Some k)) r) ks None = Some hid \<Longrightarrow> \<exists>k \<in> set ks. accept k \<and> dget cache k = Some hid" for ks
    by (induction ks) (auto simp: or_else_def hit_def split: option.splits if_splits)
  then show "lookup_host cache rdns_cache source_ip hostname rdns accept = Some hid \<Longrightarrow>
   \<exists>k \<in> set (lookup_keys rdns_cache source_ip hostname rdns). accept k \<and> dget cache k = Some hid"
    unfolding lookup_host_def .
qed

lemma one_site:
  assumes "filed F c" and "\<not> cross_site c t k" and "(t, s, k, hid) \<in> F" and "(t, s', k, hid') \<in> F"
  shows "s' = s"
proof -
  have "s \<in> set (dget_or (hc_key_sites c) (t, k) [])" "s' \<in> set (dget_or (hc_key_sites c) (t, k) [])"
    using assms(1,3,4) unfolding filed_def by blast+
  moreover have "card (set (dget_or (hc_key_sites c) (t, k) [])) \<le> 1"
    using assms(2) by (simp add: cross_site_def length_remdups_card_conv)
  ultimately show ?thesis using card_le_Suc0_iff_eq [of "set (dget_or (hc_key_sites c) (t, k) [])"] by auto
qed

text \<open>Whatever the caches answer for a tenant is a host of the tenant.\<close>

definition host_of_tenant :: "sys_host list \<Rightarrow> int \<Rightarrow> int \<Rightarrow> bool" where
  "host_of_tenant hosts tenant hid \<longleftrightarrow> (\<exists>h \<in> set hosts. sh_id h = hid \<and> sh_tenant h = tenant)"

lemma filing_host:
  "(tenant, s, k, hid) \<in> all_filings dns ds tenants hosts \<Longrightarrow> \<exists>h \<in> set hosts. sh_id h = hid \<and> sh_tenant h = tenant \<and> host_site ds h = s"
  using all_filings_of [of "(tenant, s, k, hid)"] by (auto simp: of_hosts_def)

lemma tenant_lookup:
  assumes "lookup_host (dget_or (hc_cache (refresh_caches dns ds tenants hosts)) tenant []) rdns_cache source_ip hostname rdns accept = Some hid"
  shows "host_of_tenant hosts tenant hid"
proof -
  from lookup_key [OF assms] obtain s k where "(tenant, s, k, hid) \<in> all_filings dns ds tenants hosts"
    using refresh_filed [of dns ds tenants hosts] unfolding filed_def by blast
  from filing_host [OF this] show ?thesis by (auto simp: host_of_tenant_def)
qed

lemma site_lookup:
  assumes "lookup_host (dget_or (hc_site (refresh_caches dns ds tenants hosts)) (tenant, s) []) rdns_cache source_ip hostname rdns accept = Some hid"
  shows "host_of_tenant hosts tenant hid"
proof -
  from lookup_key [OF assms] obtain k where "(tenant, Some s, k, hid) \<in> all_filings dns ds tenants hosts"
    using refresh_filed [of dns ds tenants hosts] unfolding filed_def by blast
  from filing_host [OF this] show ?thesis by (auto simp: host_of_tenant_def)
qed

lemma resolve_own_tenant:
  assumes "resolve_host_id (refresh_caches dns ds tenants hosts) rdns_cache source_ip hostname tenant site rdns = Some hid"
  shows "host_of_tenant hosts tenant hid"
  using assms by (auto simp: resolve_host_id_def Let_def or_else_def dest: tenant_lookup site_lookup split: option.splits)

lemma resolve_agent_own_tenant:
  assumes "resolve_agent_host_id (refresh_caches dns ds tenants hosts) client_ip hostname tenant site = Some hid"
  shows "host_of_tenant hosts tenant hid"
  using assms by (auto simp: resolve_agent_host_id_def or_else_def dest: resolve_own_tenant site_lookup split: option.splits if_splits)

text \<open>C30. A message is never attributed to another tenant's host, and a message that a probe relayed from its site only
  to a host of that site, except by a key that is not a private address and that no other site of the tenant
  uses: 192.168.1.1 in one branch office is never 192.168.1.1 in another.\<close>

theorem attribution_isolated:
  assumes "resolve_host_id (refresh_caches dns ds tenants hosts) rdns_cache source_ip hostname tenant site rdns = Some hid"
  shows "\<exists>h \<in> set hosts. sh_id h = hid \<and> sh_tenant h = tenant \<and>
    (case site of None \<Rightarrow> True
     | Some s \<Rightarrow> host_site ds h = Some s \<or>
         (\<exists>k \<in> set (lookup_keys rdns_cache source_ip hostname rdns).
            (case ip_or_none k of None \<Rightarrow> True | Some a \<Rightarrow> is_global a) \<and>
            (\<forall>s' hid'. (tenant, s', k, hid') \<in> all_filings dns ds tenants hosts \<longrightarrow> s' = host_site ds h)))"
proof -
  let ?c = "refresh_caches dns ds tenants hosts" and ?F = "all_filings dns ds tenants hosts"
  have F: "filed ?F ?c" by (rule refresh_filed)
  have host: "\<exists>h \<in> set hosts. sh_id h = hid \<and> sh_tenant h = tenant \<and> host_site ds h = s" if "(tenant, s, k, hid) \<in> ?F" for s k
    by (rule filing_host [OF that])
  have wide: "\<exists>s k. k \<in> set (lookup_keys rdns_cache source_ip hostname rdns) \<and> accept k \<and> (tenant, s, k, hid) \<in> ?F"
    if "lookup_host (dget_or (hc_cache ?c) tenant []) rdns_cache source_ip hostname rdns accept = Some hid" for accept
    using lookup_key [OF that] F unfolding filed_def by blast
  show ?thesis
  proof (cases site)
    case None
    with assms wide [of "\<lambda>_. True"] host show ?thesis by (auto simp: resolve_host_id_def Let_def)
  next
    case (Some s)
    show ?thesis
    proof (cases "lookup_host (dget_or (hc_site ?c) (tenant, s) []) rdns_cache source_ip hostname rdns (\<lambda>_. True)")
      case None
      with assms Some have "lookup_host (dget_or (hc_cache ?c) tenant []) rdns_cache source_ip hostname rdns (site_fallback_ok ?c tenant) = Some hid"
        by (simp add: resolve_host_id_def Let_def or_else_def)
      then obtain s' k where k: "k \<in> set (lookup_keys rdns_cache source_ip hostname rdns)" "site_fallback_ok ?c tenant k" "(tenant, s', k, hid) \<in> ?F"
        using wide by blast
      from host [OF k(3)] obtain h where h: "h \<in> set hosts" "sh_id h = hid" "sh_tenant h = tenant" "host_site ds h = s'" by blast
      from k(2) have "\<not> cross_site ?c tenant k" "case ip_or_none k of None \<Rightarrow> True | Some a \<Rightarrow> is_global a" by (auto simp: site_fallback_ok_def)
      with one_site [OF F _ k(3)] k(1) h Some show ?thesis by (intro bexI [of _ h]) auto
    next
      case found: (Some hid')
      with assms Some have "hid' = hid" by (simp add: resolve_host_id_def Let_def or_else_def)
      with lookup_key [OF found] F obtain k where "(tenant, Some s, k, hid) \<in> ?F" unfolding filed_def by blast
      from host [OF this] Some show ?thesis by auto
    qed
  qed
qed

text \<open>Two branch offices of tenant 1 with a gateway of the same private address.\<close>

definition two_branches :: "sys_host list" where
  "two_branches =
     [\<lparr>sh_id = 1, sh_tenant = 1, sh_site = Some 10, sh_name = ''gw-a'', sh_hostname = ''192.168.1.1''\<rparr>,
      \<lparr>sh_id = 2, sh_tenant = 1, sh_site = Some 20, sh_name = ''gw-b'', sh_hostname = ''192.168.1.1''\<rparr>,
      \<lparr>sh_id = 3, sh_tenant = 2, sh_site = None, sh_name = ''mail'', sh_hostname = ''mail.example.com''\<rparr>]"

abbreviation branches :: caches where
  "branches \<equiv> refresh_caches (\<lambda>_. None) (\<lambda>_. None) [1, 2] two_branches"

theorem attribution_isolated_witness:
  "resolve_host_id branches [] (Some ''192.168.1.1'') None 1 (Some 20) False = Some 2 \<and>
   (\<exists>h \<in> set two_branches. sh_id h = 2 \<and> sh_tenant h = 1) \<and>
   resolve_host_id branches [] (Some ''192.168.1.1'') None 1 (Some 30) False = None \<and>
   resolve_host_id branches [] (Some ''10.9.9.9'') (Some ''MAIL'') 2 None False = Some 3 \<and>
   resolve_host_id branches [] (Some ''10.9.9.9'') (Some ''mail'') 1 None False = None"
proof -
  have r: "resolve_host_id branches [] (Some ''192.168.1.1'') None 1 (Some 20) False = Some 2" by code_simp
  have "resolve_host_id branches [] (Some ''192.168.1.1'') None 1 (Some 30) False = None"
    "resolve_host_id branches [] (Some ''10.9.9.9'') (Some ''MAIL'') 2 None False = Some 3"
    "resolve_host_id branches [] (Some ''10.9.9.9'') (Some ''mail'') 1 None False = None" by code_simp+
  with r attribution_isolated [OF r] show ?thesis by blast
qed

end
