(* ===== verification/Syslog_Pipeline.thy ===== *)
theory Syslog_Pipeline
  imports Syslog_Rate Syslog_Parse Syslog_Hosts Json "HOL-Library.Sublist"
begin

text \<open>
  The way of a log message from the listeners, the probes and the agents to the store
  (\<^verbatim>\<open>backend/services/syslog.py\<close>, \<^verbatim>\<open>_handle_logs\<close> of \<^verbatim>\<open>backend/routers/agents.py\<close>): the live tail of the tenants, the
  bounded buffer and the writer that takes batches from it while messages keep arriving. The answers of the
  template miner and of the GeoIP lookup come with the event that uses them.
\<close>

section \<open>Messages\<close>

record enrichment =
  en_hash :: string
  en_tags :: "string list"
  en_noise :: int
  en_fields :: "(string, string) dict"

text \<open>A message on its way; what an agent sends as facility, severity and application is kept as it is.\<close>

record queued =
  qm_time :: "datetime \<times> int option"
  qm_received :: "datetime option"
  qm_source :: string
  qm_hostname :: "string option"
  qm_facility :: json
  qm_severity :: json
  qm_app :: json
  qm_message :: string
  qm_host :: "int option"
  qm_site :: "int option"
  qm_tenant :: "int option"
  qm_relayed :: bool
  qm_enriched :: "enrichment option"
  qm_geo :: "(string \<times> string) option"

definition of_parsed :: "syslog_msg \<Rightarrow> queued" where
  "of_parsed m = \<lparr>qm_time = sy_time m, qm_received = None, qm_source = sy_source m, qm_hostname = sy_hostname m,
     qm_facility = (case sy_facility m of None \<Rightarrow> JNull | Some f \<Rightarrow> JInt f), qm_severity = JInt (sy_severity m),
     qm_app = (case sy_app m of None \<Rightarrow> JNull | Some a \<Rightarrow> JStr a), qm_message = sy_message m, qm_host = None, qm_site = None,
     qm_tenant = None, qm_relayed = False, qm_enriched = None, qm_geo = None\<rparr>"

text \<open>The row of the store, after \<open>_clean_rows\<close> and \<open>insert_batch\<close>.\<close>

record log_row =
  lr_tenant :: int
  lr_site :: int
  lr_time :: "datetime \<times> int option"
  lr_received :: datetime
  lr_source :: string
  lr_hostname :: string
  lr_host :: "int option"
  lr_facility :: json
  lr_severity :: json
  lr_app :: json
  lr_message :: string
  lr_hash :: string
  lr_tags :: string
  lr_noise :: int
  lr_fields :: "(string, string) dict"
  lr_country :: string
  lr_city :: string

definition clean_row :: "datetime \<Rightarrow> queued \<Rightarrow> log_row option" where
  "clean_row now m = map_option (\<lambda>tenant.
     \<lparr>lr_tenant = tenant, lr_site = (case qm_site m of None \<Rightarrow> 0 | Some s \<Rightarrow> s), lr_time = qm_time m,
      lr_received = (case qm_received m of None \<Rightarrow> now | Some t \<Rightarrow> t), lr_source = qm_source m,
      lr_hostname = (case qm_hostname m of None \<Rightarrow> [] | Some h \<Rightarrow> h), lr_host = qm_host m, lr_facility = qm_facility m,
      lr_severity = (if qm_severity m = JNull then JInt 6 else qm_severity m), lr_app = (if truthy (qm_app m) then qm_app m else JStr []),
      lr_message = qm_message m,
      lr_hash = (case qm_enriched m of None \<Rightarrow> [] | Some e \<Rightarrow> en_hash e),
      lr_tags = (case qm_enriched m of None \<Rightarrow> [] | Some e \<Rightarrow> join '','' (en_tags e)),
      lr_noise = (case qm_enriched m of None \<Rightarrow> 50 | Some e \<Rightarrow> en_noise e),
      lr_fields = (case qm_enriched m of None \<Rightarrow> [] | Some e \<Rightarrow> en_fields e),
      lr_country = (case qm_geo m of None \<Rightarrow> [] | Some g \<Rightarrow> fst g), lr_city = (case qm_geo m of None \<Rightarrow> [] | Some g \<Rightarrow> snd g)\<rparr>)
     (qm_tenant m)"

definition clean_rows :: "datetime \<Rightarrow> queued list \<Rightarrow> log_row list" where
  "clean_rows now batch = List.map_filter (clean_row now) batch"

text \<open>\<open>insert_batch\<close> refuses a batch with a row of no tenant (\<open>_row_tenant\<close>) before anything is sent.\<close>

definition row_tenant_ok :: "log_row \<Rightarrow> bool" where
  "row_tenant_ok r \<longleftrightarrow> lr_tenant r > 0"

section \<open>The pipeline\<close>

record pipe_cfg =
  pc_batch :: nat
  pc_max :: nat
  pc_udp :: nat

text \<open>
  A subscriber is its tenant, the identity of its queue and what the queue holds. \<open>pi_inflight\<close> is the batch of the
  writer that holds the insert lock; \<open>pi_wake\<close> is the event of the flusher task, if it runs.
\<close>

record pipe =
  pi_buffer :: "queued list"
  pi_inflight :: "queued list option"
  pi_store :: "log_row list"
  pi_subs :: "(int \<times> nat \<times> queued list) list"
  pi_next :: nat
  pi_udp :: "queued list option"
  pi_wake :: "bool option"
  pi_drops :: "(string, int) dict"

definition LIVE_TAIL_MAX :: nat where "LIVE_TAIL_MAX = 200"

definition subscribe :: "int option \<Rightarrow> pipe \<Rightarrow> (nat \<times> pipe) result" where
  "subscribe tenant p = (case tenant of
     None \<Rightarrow> Inl (ValueError ''subscribe() needs the subscriber's tenant'')
   | Some t \<Rightarrow> Inr (pi_next p, p\<lparr>pi_subs := pi_subs p @ [(t, pi_next p, [])], pi_next := Suc (pi_next p)\<rparr>))"

definition unsubscribe :: "nat \<Rightarrow> pipe \<Rightarrow> pipe" where
  "unsubscribe q p = p\<lparr>pi_subs := filter (\<lambda>(_, i, _). i \<noteq> q) (pi_subs p)\<rparr>"

definition trim_buffer :: "pipe_cfg \<Rightarrow> pipe \<Rightarrow> pipe" where
  "trim_buffer cfg p =
     (let dropped = length (pi_buffer p) - pc_max cfg in
      if length (pi_buffer p) > pc_max cfg
      then p\<lparr>pi_buffer := drop dropped (pi_buffer p), pi_drops := count_drop ''buffer_overflow'' (int dropped) (pi_drops p)\<rparr>
      else p)"

text \<open>\<open>put_nowait\<close> into the queues of the message's tenant; a full queue misses the message.\<close>

definition broadcast :: "int \<Rightarrow> queued \<Rightarrow> (int \<times> nat \<times> queued list) list \<Rightarrow> (int \<times> nat \<times> queued list) list" where
  "broadcast tenant m subs =
     map (\<lambda>(t, i, q). (t, i, if t = tenant \<and> length q < LIVE_TAIL_MAX then q @ [m] else q)) subs"

definition prepare :: "datetime \<Rightarrow> enrichment option \<Rightarrow> (string \<times> string) option \<Rightarrow> queued \<Rightarrow> queued" where
  "prepare now enriched geo msg = msg\<lparr>qm_enriched := enriched, qm_geo := geo,
     qm_received := (case qm_received msg of None \<Rightarrow> Some now | Some t \<Rightarrow> Some t)\<rparr>"

definition enqueue :: "pipe_cfg \<Rightarrow> datetime \<Rightarrow> enrichment option \<Rightarrow> (string \<times> string) option \<Rightarrow> queued \<Rightarrow> pipe \<Rightarrow> pipe" where
  "enqueue cfg now enriched geo msg p =
     (case qm_tenant msg of
        None \<Rightarrow> p\<lparr>pi_drops := count_drop ''no_tenant'' 1 (pi_drops p)\<rparr>
      | Some tenant \<Rightarrow>
          (let m = prepare now enriched geo msg;
               p1 = p\<lparr>pi_subs := broadcast tenant m (pi_subs p)\<rparr>;
               p2 = trim_buffer cfg (p1\<lparr>pi_buffer := pi_buffer p1 @ [m]\<rparr>)
           in if length (pi_buffer p2) \<ge> pc_batch cfg then p2\<lparr>pi_wake := map_option (\<lambda>_. True) (pi_wake p2)\<rparr> else p2))"

text \<open>
  \<open>_flush_buffer\<close> in two steps, since messages arrive while the insert runs: the whole buffer is taken under the lock,
  then the batch is written, or put back in front of what arrived meanwhile.
\<close>

definition flush_take :: "pipe \<Rightarrow> pipe" where
  "flush_take p =
     (if pi_inflight p = None \<and> pi_buffer p \<noteq> [] then p\<lparr>pi_inflight := Some (pi_buffer p), pi_buffer := []\<rparr> else p)"

definition write_batch :: "pipe_cfg \<Rightarrow> datetime \<Rightarrow> bool \<Rightarrow> pipe \<Rightarrow> pipe" where
  "write_batch cfg now written p =
     (case pi_inflight p of
        None \<Rightarrow> p
      | Some batch \<Rightarrow>
          (let rows = clean_rows now batch in
           if written \<and> list_all row_tenant_ok rows
           then p\<lparr>pi_inflight := None, pi_store := pi_store p @ rows\<rparr>
           else trim_buffer cfg (p\<lparr>pi_inflight := None, pi_buffer := batch @ pi_buffer p\<rparr>)))"

text \<open>The queue between the UDP callback and its worker.\<close>

definition udp_put :: "pipe_cfg \<Rightarrow> queued \<Rightarrow> pipe \<Rightarrow> pipe" where
  "udp_put cfg m p = (case pi_udp p of
     None \<Rightarrow> p
   | Some q \<Rightarrow> if length q < pc_udp cfg then p\<lparr>pi_udp := Some (q @ [m])\<rparr>
              else p\<lparr>pi_drops := count_drop ''queue_full'' 1 (pi_drops p)\<rparr>)"

definition udp_worker :: "pipe_cfg \<Rightarrow> datetime \<Rightarrow> enrichment option \<Rightarrow> (string \<times> string) option \<Rightarrow> pipe \<Rightarrow> pipe" where
  "udp_worker cfg now enriched geo p = (case pi_udp p of
     Some (m # q) \<Rightarrow> enqueue cfg now enriched geo m (p\<lparr>pi_udp := Some q\<rparr>)
   | _ \<Rightarrow> p)"

text \<open>The flusher clears its event before it flushes.\<close>

definition flusher_wakes :: "pipe \<Rightarrow> pipe" where
  "flusher_wakes p = flush_take (p\<lparr>pi_wake := map_option (\<lambda>_. False) (pi_wake p)\<rparr>)"

text \<open>
  \<open>stop_syslog_server\<close>: the tasks are cancelled, also in the middle of an insert (\<open>written\<close> tells whether the rows had
  been sent by then); what waits in the UDP queue goes through the pipeline, and the buffer is written once more.
\<close>

text \<open>Without the flusher a producer that fills a batch writes it itself.\<close>

definition flush_inline :: "pipe_cfg \<Rightarrow> datetime \<Rightarrow> bool \<Rightarrow> pipe \<Rightarrow> pipe" where
  "flush_inline cfg now written p =
     (if pi_wake p = None \<and> length (pi_buffer p) \<ge> pc_batch cfg then write_batch cfg now written (flush_take p) else p)"

fun drain_udp :: "pipe_cfg \<Rightarrow> datetime \<Rightarrow> (queued \<Rightarrow> enrichment option) \<Rightarrow> (queued \<Rightarrow> (string \<times> string) option) \<Rightarrow> bool \<Rightarrow> queued list \<Rightarrow> pipe \<Rightarrow> pipe" where
  "drain_udp cfg now mine geo written [] p = p"
| "drain_udp cfg now mine geo written (m # q) p =
     drain_udp cfg now mine geo written q (flush_inline cfg now written (enqueue cfg now (mine m) (geo m) m p))"

definition cancel_insert :: "datetime \<Rightarrow> bool \<Rightarrow> pipe \<Rightarrow> pipe" where
  "cancel_insert now written p = (case pi_inflight p of
     None \<Rightarrow> p
   | Some batch \<Rightarrow> p\<lparr>pi_inflight := None,
       pi_store := (if written \<and> list_all row_tenant_ok (clean_rows now batch) then pi_store p @ clean_rows now batch else pi_store p)\<rparr>)"

definition stop_server ::
    "pipe_cfg \<Rightarrow> datetime \<Rightarrow> (queued \<Rightarrow> enrichment option) \<Rightarrow> (queued \<Rightarrow> (string \<times> string) option) \<Rightarrow> bool \<Rightarrow> bool \<Rightarrow> pipe \<Rightarrow> pipe" where
  "stop_server cfg now mine geo sent written p =
     (let p1 = cancel_insert now sent p; q = (case pi_udp p1 of None \<Rightarrow> [] | Some q \<Rightarrow> q);
          p2 = drain_udp cfg now mine geo written q (p1\<lparr>pi_udp := None, pi_wake := None\<rparr>)
      in write_batch cfg now written (flush_take p2))"

section \<open>Receivers\<close>

text \<open>
  \<^verbatim>\<open>bytes.decode("utf-8", errors="replace")\<close>: a byte that begins no sequence, or the part of a sequence that is cut short,
  becomes the replacement character.
\<close>

definition byte :: "char \<Rightarrow> nat" where
  "byte c = of_char c"

definition utf8_tail :: "char \<Rightarrow> (nat \<times> nat) list option" where
  "utf8_tail c =
     (let b = byte c; any = (0x80, 0xBF) in
      if b < 0x80 then Some []
      else if 0xC2 \<le> b \<and> b \<le> 0xDF then Some [any]
      else if b = 0xE0 then Some [(0xA0, 0xBF), any]
      else if b = 0xED then Some [(0x80, 0x9F), any]
      else if 0xE1 \<le> b \<and> b \<le> 0xEF then Some [any, any]
      else if b = 0xF0 then Some [(0x90, 0xBF), any, any]
      else if 0xF1 \<le> b \<and> b \<le> 0xF3 then Some [any, any, any]
      else if b = 0xF4 then Some [(0x80, 0x8F), any, any]
      else None)"

fun tail_match :: "(nat \<times> nat) list \<Rightarrow> string \<Rightarrow> nat" where
  "tail_match ((lo, hi) # rs) (c # s) = (if lo \<le> byte c \<and> byte c \<le> hi then Suc (tail_match rs s) else 0)"
| "tail_match _ _ = 0"

definition REPLACEMENT :: string where
  "REPLACEMENT = [CHR 0xEF, CHR 0xBF, CHR 0xBD]"

function decode_replace :: "string \<Rightarrow> string" where
  "decode_replace [] = []"
| "decode_replace (c # s) =
     (case utf8_tail c of
        None \<Rightarrow> REPLACEMENT @ decode_replace s
      | Some rs \<Rightarrow>
          (let n = tail_match rs s in
           (if n = length rs then c # take n s else REPLACEMENT) @ decode_replace (drop n s)))"
  by pat_completeness auto
termination
  by (relation "measure length") auto

definition MAX_MSG_SIZE :: int where "MAX_MSG_SIZE = 65536"

definition LISTENER_TENANT_ID :: int where "LISTENER_TENANT_ID = 1"

text \<open>What the listeners read: the host caches, the allow list, the reverse names and the mode.\<close>

record listener =
  li_caches :: caches
  li_allow_only :: "(int, bool) dict"
  li_allowed :: "(int \<times> int option \<times> string) list"
  li_rdns :: "(string, string option) dict"
  li_mode :: string
  li_tenants :: "nat option"

record receiver =
  re_rate :: rate_state
  re_pipe :: pipe
  re_tcp :: nat

definition drop_reason :: "string \<Rightarrow> receiver \<Rightarrow> receiver" where
  "drop_reason reason r = r\<lparr>re_pipe := (re_pipe r)\<lparr>pi_drops := count_drop reason 1 (pi_drops (re_pipe r))\<rparr>\<rparr>"

text \<open>\<open>_syslog_rate_ok\<close> and then \<open>_global_rate_ok\<close>.\<close>

definition rates_ok :: "rate_cfg \<Rightarrow> int \<Rightarrow> string \<Rightarrow> rate_state \<Rightarrow> bool \<times> rate_state" where
  "rates_ok cfg tick ip st = (case syslog_rate_ok cfg tick ip st of
     (False, st1) \<Rightarrow> (False, st1)
   | (True, st1) \<Rightarrow> global_rate_ok cfg tick st1)"

text \<open>The message of a direct listener: the default tenant, and the host the caches know.\<close>

definition direct_message :: "listener \<Rightarrow> datetime \<Rightarrow> string \<Rightarrow> string \<Rightarrow> queued option" where
  "direct_message li now raw source_ip = map_option (\<lambda>m.
     (of_parsed m)\<lparr>qm_tenant := Some LISTENER_TENANT_ID,
        qm_host := resolve_host_id (li_caches li) (li_rdns li) (Some source_ip) (sy_hostname m) LISTENER_TENANT_ID None True\<rparr>)
     (parse_syslog now raw source_ip)"

definition datagram_received ::
    "pipe_cfg \<Rightarrow> rate_cfg \<Rightarrow> listener \<Rightarrow> int \<Rightarrow> datetime \<Rightarrow> string \<Rightarrow> string \<Rightarrow> receiver \<Rightarrow> receiver" where
  "datagram_received cfg rcfg li tick now data source_ip r =
     (if int (length data) > MAX_MSG_SIZE then r
      else if \<not> listener_accepts (li_mode li) (li_tenants li) then drop_reason ''listener_disabled'' r
      else if \<not> is_allowed_source (li_caches li) (li_allow_only li) (li_allowed li) source_ip LISTENER_TENANT_ID None then r
      else (case rates_ok rcfg tick source_ip (re_rate r) of
              (False, st) \<Rightarrow> r\<lparr>re_rate := st\<rparr>
            | (True, st) \<Rightarrow>
                (case direct_message li now (decode_replace data) source_ip of
                   None \<Rightarrow> r\<lparr>re_rate := st\<rparr>
                 | Some m \<Rightarrow> r\<lparr>re_rate := st, re_pipe := udp_put cfg (m\<lparr>qm_received := Some now\<rparr>) (re_pipe r)\<rparr>)))"

text \<open>A TCP connection: the limit on connections, one line at a time, and the end.\<close>

datatype tcp_result = Tcp_next receiver | Tcp_closed receiver

definition tcp_open :: "nat \<Rightarrow> listener \<Rightarrow> string \<Rightarrow> receiver \<Rightarrow> tcp_result" where
  "tcp_open max_connections li source_ip r =
     (if \<not> listener_accepts (li_mode li) (li_tenants li) then Tcp_closed (drop_reason ''listener_disabled'' r)
      else if \<not> is_allowed_source (li_caches li) (li_allow_only li) (li_allowed li) source_ip LISTENER_TENANT_ID None then Tcp_closed r
      else if re_tcp r \<ge> max_connections then Tcp_closed r
      else Tcp_next (r\<lparr>re_tcp := Suc (re_tcp r)\<rparr>))"

definition tcp_close :: "receiver \<Rightarrow> receiver" where
  "tcp_close r = r\<lparr>re_tcp := re_tcp r - 1\<rparr>"

text \<open>
  \<^verbatim>\<open>StreamReader.readline\<close> raises where the text before the line break is longer than its limit, the 64 KiB of
  \<^verbatim>\<open>asyncio.start_server\<close>; the handler catches none of its errors but ends the connection.
\<close>

definition STREAM_LIMIT :: int where "STREAM_LIMIT = 65536"

definition tcp_line ::
    "pipe_cfg \<Rightarrow> rate_cfg \<Rightarrow> listener \<Rightarrow> int \<Rightarrow> datetime \<Rightarrow> enrichment option \<Rightarrow> (string \<times> string) option \<Rightarrow> string \<Rightarrow> string \<Rightarrow> receiver \<Rightarrow> tcp_result" where
  "tcp_line cfg rcfg li tick now enriched geo line source_ip r =
     (if line = [] then Tcp_closed (tcp_close r)
      else if int (length (first_line line)) > STREAM_LIMIT then Tcp_closed (tcp_close r)
      else if int (length line) > MAX_MSG_SIZE then Tcp_next r
      else (let raw = strip (decode_replace line) in
            if raw = [] then Tcp_next r
            else if \<not> listener_accepts (li_mode li) (li_tenants li) then Tcp_closed (tcp_close (drop_reason ''listener_disabled'' r))
            else (case rates_ok rcfg tick source_ip (re_rate r) of
                    (False, st) \<Rightarrow> Tcp_next (r\<lparr>re_rate := st\<rparr>)
                  | (True, st) \<Rightarrow>
                      (case direct_message li now raw source_ip of
                         None \<Rightarrow> Tcp_next (r\<lparr>re_rate := st\<rparr>)
                       | Some m \<Rightarrow> Tcp_next (r\<lparr>re_rate := st, re_pipe := enqueue cfg now enriched geo m (re_pipe r)\<rparr>)))))"

section \<open>Relayed and agent messages\<close>

text \<open>\<open>_relay_received_at\<close>: \<open>fromiso\<close> is \<^verbatim>\<open>datetime.fromisoformat\<close>. A time that leaves the calendar in UTC raises.\<close>

definition in_calendar :: "datetime \<Rightarrow> bool" where
  "in_calendar t \<longleftrightarrow> day_of_civil 1 1 1 * us_per_day \<le> t \<and> t < day_of_civil 10000 1 1 * us_per_day"

definition relay_received_at :: "(string \<Rightarrow> (datetime \<times> int option) option) \<Rightarrow> json \<Rightarrow> datetime \<Rightarrow> datetime result" where
  "relay_received_at fromiso value now =
     (case value of
        JStr s \<Rightarrow>
          (if s = [] then Inr now
           else (case fromiso (str_replace ''Z'' ''+00:00'' s) of
                   None \<Rightarrow> Inr now
                 | Some (t, zone) \<Rightarrow>
                     (let ts = (case zone of None \<Rightarrow> t | Some off \<Rightarrow> t - off) in
                      if \<not> in_calendar ts then Inl OverflowError
                      else if ts - now > 300 * us_per_second \<or> now - ts > 7 * 24 * 3600 * us_per_second then Inr now
                      else Inr ts)))
      | _ \<Rightarrow> Inr now)"

definition show_scoped :: "ip \<times> string \<Rightarrow> string" where
  "show_scoped a = show_ip (fst a) @ snd a"

text \<open>\<open>parse_relayed_entry\<close>: a message of the probe's tenant and site, or the reason to drop the entry.\<close>

definition parse_relayed_entry ::
    "listener \<Rightarrow> (pyfloat \<Rightarrow> string) \<Rightarrow> (string \<Rightarrow> (datetime \<times> int option) option) \<Rightarrow> (string, json) dict \<Rightarrow> int \<Rightarrow> int option \<Rightarrow> datetime \<Rightarrow> (string + queued) result" where
  "parse_relayed_entry li frepr fromiso entry tenant site now =
     (case dget_or entry ''raw'' JNull of
        JStr raw \<Rightarrow>
          (case ip_scoped (py_str frepr (dget_or entry ''source_ip'' JNull)) of
             None \<Rightarrow> Inr (Inl ''relay_invalid'')
           | Some a \<Rightarrow>
               (let source_ip = show_scoped a in
                if int (length raw) > MAX_MSG_SIZE then Inr (Inl ''relay_oversized'')
                else if \<not> is_allowed_source (li_caches li) (li_allow_only li) (li_allowed li) source_ip tenant site then Inr (Inl ''relay_not_allowed'')
                else (case parse_syslog now raw source_ip of
                        None \<Rightarrow> Inr (Inl ''relay_empty'')
                      | Some m \<Rightarrow>
                          bind_result (relay_received_at fromiso (dget_or entry ''received_at'' JNull) now) (\<lambda>t.
                            Inr (Inr ((of_parsed m)\<lparr>qm_received := Some t,
                              qm_host := resolve_host_id (li_caches li) [] (Some source_ip) (sy_hostname m) tenant site False,
                              qm_site := Some (case site of None \<Rightarrow> 0 | Some s \<Rightarrow> s), qm_tenant := Some tenant, qm_relayed := True\<rparr>))))))
      | _ \<Rightarrow> Inr (Inl ''relay_invalid''))"

record log_agent =
  la_tenant :: int
  la_site :: "int option"
  la_hostname :: "string option"
  la_probe :: bool
  la_relay :: bool

definition agent_name :: "log_agent \<Rightarrow> string" where
  "agent_name a = (case full_key (la_hostname a) of None \<Rightarrow> ''unknown'' | Some h \<Rightarrow> h)"

definition reported_name :: "log_agent \<Rightarrow> (string, json) dict \<Rightarrow> string" where
  "reported_name a body = (case dget_or body ''hostname'' (JStr (agent_name a)) of JStr h \<Rightarrow> h | _ \<Rightarrow> agent_name a)"

text \<open>\<^verbatim>\<open>datetime.strptime(ts_str, "%Y-%m-%dT%H:%M:%SZ")\<close>, or the time of the request.\<close>

definition agent_time :: "datetime \<Rightarrow> json \<Rightarrow> datetime" where
  "agent_time now v = (case v of
     JStr s \<Rightarrow> (case Option.bind (scan_date_time s) (\<lambda>(at_us, r). if r = ''Z'' \<or> r = ''z'' then at_us 0 else None) of
                 None \<Rightarrow> now | Some t \<Rightarrow> t)
   | _ \<Rightarrow> now)"

definition own_message :: "(pyfloat \<Rightarrow> string) \<Rightarrow> log_agent \<Rightarrow> string \<Rightarrow> string \<Rightarrow> int option \<Rightarrow> int option \<Rightarrow> datetime \<Rightarrow> (string, json) dict \<Rightarrow> queued" where
  "own_message frepr a hostname client_ip own_host site now entry =
     \<lparr>qm_time = (agent_time now (dget_or entry ''timestamp'' (JStr [])), None), qm_received = Some now, qm_source = client_ip,
      qm_hostname = Some hostname, qm_facility = dget_or entry ''facility'' JNull, qm_severity = dget_or entry ''severity'' (JInt 6),
      qm_app = dget_or entry ''app_name'' (JStr []), qm_message = text_take 2000 (py_str frepr (dget_or entry ''message'' (JStr []))),
      qm_host = own_host, qm_site = Some (case site of None \<Rightarrow> 0 | Some s \<Rightarrow> s), qm_tenant = Some (la_tenant a), qm_relayed = False,
      qm_enriched = None, qm_geo = None\<rparr>"

text \<open>One entry of a request: a message for the pipeline, or the reason it is dropped.\<close>

definition agent_entry ::
    "listener \<Rightarrow> (pyfloat \<Rightarrow> string) \<Rightarrow> (string \<Rightarrow> (datetime \<times> int option) option) \<Rightarrow> log_agent \<Rightarrow> string \<Rightarrow> string \<Rightarrow> int option \<Rightarrow> int option \<Rightarrow> datetime
       \<Rightarrow> json \<Rightarrow> (string + queued) result" where
  "agent_entry li frepr fromiso a hostname client_ip own_host site now entry =
     (case entry of
        JDict d \<Rightarrow>
          (if dget d ''raw'' \<noteq> None then
             (if \<not> la_probe a then Inr (Inl ''relay_not_a_probe'')
              else if \<not> la_relay a then Inr (Inl ''relay_disabled'')
              else parse_relayed_entry li frepr fromiso d (la_tenant a) site now)
           else Inr (Inr (own_message frepr a hostname client_ip own_host site now d)))
      | _ \<Rightarrow> Inr (Inl ''invalid''))"

definition RELAY_MAX_ENTRIES :: nat where "RELAY_MAX_ENTRIES = 500"

text \<open>
  \<open>_handle_logs\<close>: the answer holds the number of messages passed on and the number dropped. An error in one entry
  ends the request; what was passed on before stays.
\<close>

record logs_answer =
  an_count :: nat
  an_dropped :: nat

fun handle_entries ::
    "pipe_cfg \<Rightarrow> datetime \<Rightarrow> (queued \<Rightarrow> enrichment option) \<Rightarrow> (queued \<Rightarrow> (string \<times> string) option) \<Rightarrow> (json \<Rightarrow> (string + queued) result)
       \<Rightarrow> json list \<Rightarrow> logs_answer \<Rightarrow> pipe \<Rightarrow> logs_answer result \<times> pipe" where
  "handle_entries cfg now mine geo entry_of [] ans p = (Inr ans, p)"
| "handle_entries cfg now mine geo entry_of (e # es) ans p =
     (case entry_of e of
        Inl err \<Rightarrow> (Inl err, p)
      | Inr (Inl reason) \<Rightarrow>
          handle_entries cfg now mine geo entry_of es (ans\<lparr>an_dropped := Suc (an_dropped ans)\<rparr>)
            (if reason = ''invalid'' then p else p\<lparr>pi_drops := count_drop reason 1 (pi_drops p)\<rparr>)
      | Inr (Inr m) \<Rightarrow>
          handle_entries cfg now mine geo entry_of es (ans\<lparr>an_count := Suc (an_count ans)\<rparr>) (enqueue cfg now (mine m) (geo m) m p))"

definition handle_logs ::
    "pipe_cfg \<Rightarrow> listener \<Rightarrow> (int \<Rightarrow> int option) \<Rightarrow> (pyfloat \<Rightarrow> string) \<Rightarrow> (string \<Rightarrow> (datetime \<times> int option) option) \<Rightarrow> datetime
       \<Rightarrow> (queued \<Rightarrow> enrichment option) \<Rightarrow> (queued \<Rightarrow> (string \<times> string) option) \<Rightarrow> log_agent \<Rightarrow> string \<Rightarrow> (string, json) dict \<Rightarrow> pipe \<Rightarrow> logs_answer result \<times> pipe" where
  "handle_logs cfg li default_site frepr fromiso now mine geo a client_ip body p =
     (let hostname = reported_name a body; none = \<lparr>an_count = 0, an_dropped = 0\<rparr>;
          site = (case la_site a of None \<Rightarrow> default_site (la_tenant a) | Some s \<Rightarrow> Some s);
          own_host = resolve_agent_host_id (li_caches li) (Some client_ip) (Some hostname) (la_tenant a) site
      in case dget_or body ''logs'' (JList []) of
           JList logs \<Rightarrow>
             (if logs = [] then (Inr none, p)
              else handle_entries cfg now mine geo (agent_entry li frepr fromiso a hostname client_ip own_host site now)
                     (take RELAY_MAX_ENTRIES logs) none p)
         | _ \<Rightarrow> (Inr none, p))"

text \<open>One round of \<open>_rdns_resolve_loop\<close>: the addresses of waiting direct messages that no host matched.\<close>

definition rdns_round :: "(string \<Rightarrow> string option) \<Rightarrow> queued list \<Rightarrow> (string, string option) dict \<Rightarrow> (string, string option) dict" where
  "rdns_round resolver buffer cache =
     (let cache1 = (if int (length cache) > 5000 then [] else cache);
          ips = map qm_source (filter (\<lambda>m. \<not> qm_relayed m \<and> (qm_host m = None \<or> qm_host m = Some 0) \<and> qm_source m \<noteq> []) buffer);
          todo = filter (\<lambda>ip. dget cache1 ip = None) ips
      in fold (\<lambda>ip c. dset c ip (resolver ip)) todo cache1)"

section \<open>Nothing is lost or reordered but by overflow\<close>

text \<open>
  The steps of the running server in any order. \<open>accepts\<close> is what the columns of the store take; a write also fails
  while the store is down.
\<close>

datatype pipe_event =
    Arrive datetime "enrichment option" "(string \<times> string) option" queued
  | Udp_in queued
  | Udp_work datetime "enrichment option" "(string \<times> string) option"
  | Wake
  | Flush
  | Written datetime bool
  | Subscribe "int option"
  | Unsubscribe nat
  | Tail_read nat

fun pipe_step :: "pipe_cfg \<Rightarrow> (log_row list \<Rightarrow> bool) \<Rightarrow> pipe_event \<Rightarrow> pipe \<Rightarrow> pipe" where
  "pipe_step cfg accepts (Arrive now enr geo m) p = enqueue cfg now enr geo m p"
| "pipe_step cfg accepts (Udp_in m) p = udp_put cfg m p"
| "pipe_step cfg accepts (Udp_work now enr geo) p = udp_worker cfg now enr geo p"
| "pipe_step cfg accepts Wake p = flusher_wakes p"
| "pipe_step cfg accepts Flush p = flush_take p"
| "pipe_step cfg accepts (Written now up) p =
     write_batch cfg now (up \<and> accepts (clean_rows now (case pi_inflight p of None \<Rightarrow> [] | Some b \<Rightarrow> b))) p"
| "pipe_step cfg accepts (Subscribe t) p = (case subscribe t p of Inl _ \<Rightarrow> p | Inr (_, p') \<Rightarrow> p')"
| "pipe_step cfg accepts (Unsubscribe q) p = unsubscribe q p"
| "pipe_step cfg accepts (Tail_read q) p =
     p\<lparr>pi_subs := map (\<lambda>(t, i, ms). (t, i, if i = q then tl ms else ms)) (pi_subs p)\<rparr>"

text \<open>The messages a step appends to the buffer.\<close>

definition admitted :: "datetime \<Rightarrow> enrichment option \<Rightarrow> (string \<times> string) option \<Rightarrow> queued \<Rightarrow> queued list" where
  "admitted now enr geo m = (if qm_tenant m = None then [] else [prepare now enr geo m])"

fun arrivals :: "pipe_event \<Rightarrow> pipe \<Rightarrow> queued list" where
  "arrivals (Arrive now enr geo m) p = admitted now enr geo m"
| "arrivals (Udp_work now enr geo) p = (case pi_udp p of Some (m # q) \<Rightarrow> admitted now enr geo m | _ \<Rightarrow> [])"
| "arrivals _ p = []"

definition logged_step :: "pipe_cfg \<Rightarrow> (log_row list \<Rightarrow> bool) \<Rightarrow> pipe_event \<Rightarrow> pipe \<times> queued list \<Rightarrow> pipe \<times> queued list" where
  "logged_step cfg accepts ev s = (pipe_step cfg accepts ev (fst s), snd s @ arrivals ev (fst s))"

definition batch_of :: "pipe \<Rightarrow> queued list" where
  "batch_of p = (case pi_inflight p of None \<Rightarrow> [] | Some b \<Rightarrow> b)"

definition waiting :: "pipe \<Rightarrow> queued list" where
  "waiting p = batch_of p @ pi_buffer p"

definition overflowed :: "pipe \<Rightarrow> int" where
  "overflowed p = dget_or (pi_drops p) ''buffer_overflow'' 0"

definition row_of :: "queued \<Rightarrow> log_row" where
  "row_of m = the (clean_row 0 m)"

definition stamped :: "queued \<Rightarrow> bool" where
  "stamped m \<longleftrightarrow> qm_tenant m \<noteq> None \<and> qm_received m \<noteq> None"

fun tail_ok :: "int \<times> nat \<times> queued list \<Rightarrow> bool" where
  "tail_ok (t, i, q) \<longleftrightarrow> length q \<le> LIVE_TAIL_MAX \<and> list_all (\<lambda>m. qm_tenant m = Some t) q"

definition tails_ok :: "pipe \<Rightarrow> bool" where
  "tails_ok p \<longleftrightarrow> list_all tail_ok (pi_subs p)"

definition flow_ok :: "pipe \<Rightarrow> queued list \<Rightarrow> bool" where
  "flow_ok p lg \<longleftrightarrow> (\<exists>st. pi_store p = map row_of st \<and> subseq (st @ waiting p) lg \<and>
     int (length lg) = int (length st) + int (length (waiting p)) + overflowed p)"

definition pipe_ok :: "pipe_cfg \<Rightarrow> pipe \<times> queued list \<Rightarrow> bool" where
  "pipe_ok cfg s \<longleftrightarrow> length (pi_buffer (fst s)) \<le> pc_max cfg \<and> (\<forall>q. pi_udp (fst s) = Some q \<longrightarrow> length q \<le> pc_udp cfg) \<and>
     list_all stamped (waiting (fst s)) \<and> tails_ok (fst s) \<and> flow_ok (fst s) (snd s)"

lemma clean_row_stamped: "stamped m \<Longrightarrow> clean_row now m = Some (row_of m)"
  by (auto simp: stamped_def clean_row_def row_of_def)

lemma clean_rows_stamped: "list_all stamped ms \<Longrightarrow> clean_rows now ms = map row_of ms"
  by (induction ms) (simp_all add: clean_rows_def List.map_filter_def clean_row_stamped)

lemma overflowed_count: "dget_or (count_drop r n d) ''buffer_overflow'' 0 = dget_or d ''buffer_overflow'' 0 + (if r = ''buffer_overflow'' then n else 0)"
  by (simp add: count_drop_def dict_simps)

lemma trim_fields [simp]:
  "pi_inflight (trim_buffer cfg p) = pi_inflight p" "pi_store (trim_buffer cfg p) = pi_store p" "pi_subs (trim_buffer cfg p) = pi_subs p"
  "pi_udp (trim_buffer cfg p) = pi_udp p" "batch_of (trim_buffer cfg p) = batch_of p"
  by (simp_all add: trim_buffer_def Let_def batch_of_def)

lemma trim_buffer_eq:
  "pi_buffer (trim_buffer cfg p) = drop (length (pi_buffer p) - pc_max cfg) (pi_buffer p)"
  "overflowed (trim_buffer cfg p) = overflowed p + int (length (pi_buffer p) - pc_max cfg)"
  by (simp_all add: trim_buffer_def Let_def overflowed_def overflowed_count)

text \<open>Trimming drops from the front and counts what it drops.\<close>

lemma trim_flow:
  assumes "flow_ok p lg"
  shows "flow_ok (trim_buffer cfg p) lg"
proof -
  let ?n = "length (pi_buffer p) - pc_max cfg"
  obtain st where st: "pi_store p = map row_of st" "subseq (st @ waiting p) lg"
    "int (length lg) = int (length st) + int (length (waiting p)) + overflowed p"
    using assms by (auto simp: flow_ok_def)
  have w: "waiting (trim_buffer cfg p) = batch_of p @ drop ?n (pi_buffer p)"
    by (simp add: waiting_def batch_of_def trim_buffer_eq)
  have "subseq (drop ?n (pi_buffer p)) (pi_buffer p)" by (simp add: suffix_drop suffix_imp_subseq)
  then have "subseq (st @ waiting (trim_buffer cfg p)) (st @ waiting p)"
    unfolding w by (simp add: waiting_def subseq_append')
  with st(2) have "subseq (st @ waiting (trim_buffer cfg p)) lg" by (rule subseq_order.trans [rotated])
  with st show ?thesis
    unfolding flow_ok_def by (intro exI [of _ st]) (auto simp: w waiting_def trim_buffer_eq)
qed

lemma trim_stamped: "list_all stamped (waiting p) \<Longrightarrow> list_all stamped (waiting (trim_buffer cfg p))"
  by (auto simp: waiting_def trim_buffer_eq list_all_iff dest: in_set_dropD)

lemma trim_bounded: "length (pi_buffer (trim_buffer cfg p)) \<le> pc_max cfg"
  by (simp add: trim_buffer_eq)

lemma flow_cong:
  "pi_store p' = pi_store p \<Longrightarrow> waiting p' = waiting p \<Longrightarrow> overflowed p' = overflowed p \<Longrightarrow> flow_ok p' lg = flow_ok p lg"
  by (simp add: flow_ok_def)

lemma flow_append:
  assumes "flow_ok p lg" "pi_store p' = pi_store p" "waiting p' = waiting p @ [m]" "overflowed p' = overflowed p"
  shows "flow_ok p' (lg @ [m])"
proof -
  obtain st where "pi_store p = map row_of st" "subseq (st @ waiting p) lg"
    "int (length lg) = int (length st) + int (length (waiting p)) + overflowed p"
    using assms(1) by (auto simp: flow_ok_def)
  moreover from this have "subseq ((st @ waiting p) @ [m]) (lg @ [m])" by (intro list_emb_append_mono) simp_all
  ultimately show ?thesis using assms(2-) by (auto simp: flow_ok_def)
qed

lemma list_all_mapI: "list_all P xs \<Longrightarrow> (\<And>x. P x \<Longrightarrow> P (f x)) \<Longrightarrow> list_all P (map f xs)"
  by (induction xs) auto

lemma broadcast_ok:
  assumes "tails_ok p" "qm_tenant m = Some t"
  shows "tails_ok (p\<lparr>pi_subs := broadcast t m (pi_subs p)\<rparr>)"
  using assms by (auto simp: tails_ok_def broadcast_def intro!: list_all_mapI)

lemma prepare_stamped: "qm_tenant m \<noteq> None \<Longrightarrow> stamped (prepare now enr geo m)"
  by (auto simp: stamped_def prepare_def split: option.splits)

lemma prepare_tenant [simp]: "qm_tenant (prepare now enr geo m) = qm_tenant m"
  by (simp add: prepare_def)

lemma wake_ok: "pipe_ok cfg (p\<lparr>pi_wake := w\<rparr>, lg) = pipe_ok cfg (p, lg)"
  by (simp add: pipe_ok_def tails_ok_def flow_ok_def waiting_def batch_of_def overflowed_def)

lemma enqueue_ok:
  assumes "pipe_ok cfg (p, lg)"
  shows "pipe_ok cfg (enqueue cfg now enr geo m p, lg @ admitted now enr geo m)"
proof (cases "qm_tenant m")
  case None
  with assms show ?thesis
    by (simp add: enqueue_def admitted_def pipe_ok_def tails_ok_def flow_ok_def waiting_def batch_of_def overflowed_def overflowed_count)
next
  case (Some t)
  let ?m = "prepare now enr geo m"
  let ?p1 = "p\<lparr>pi_subs := broadcast t ?m (pi_subs p)\<rparr>"
  let ?p2 = "?p1\<lparr>pi_buffer := pi_buffer p @ [?m]\<rparr>"
  have w: "waiting ?p2 = waiting p @ [?m]" by (simp add: waiting_def batch_of_def)
  have "flow_ok ?p2 (lg @ [?m])"
    using assms by (intro flow_append [of p]) (simp_all add: pipe_ok_def w overflowed_def)
  moreover have "tails_ok ?p1" using assms Some by (intro broadcast_ok) (simp_all add: pipe_ok_def)
  moreover have "list_all stamped (waiting ?p2)" using assms Some prepare_stamped by (auto simp: w pipe_ok_def)
  ultimately have "pipe_ok cfg (trim_buffer cfg ?p2, lg @ [?m])"
    using assms by (auto simp: pipe_ok_def tails_ok_def trim_flow trim_stamped trim_bounded)
  with Some show ?thesis by (simp add: enqueue_def admitted_def Let_def wake_ok)
qed

lemma flush_ok: "pipe_ok cfg (p, lg) \<Longrightarrow> pipe_ok cfg (flush_take p, lg)"
  by (auto simp: flush_take_def pipe_ok_def tails_ok_def flow_ok_def waiting_def batch_of_def overflowed_def)

lemma write_ok:
  assumes "pipe_ok cfg (p, lg)"
  shows "pipe_ok cfg (write_batch cfg now written p, lg)"
proof (cases "pi_inflight p")
  case (Some batch)
  then have w: "waiting p = batch @ pi_buffer p" by (simp add: waiting_def batch_of_def)
  have st: "list_all stamped batch" using assms w by (simp add: pipe_ok_def)
  show ?thesis
  proof (cases "written \<and> list_all row_tenant_ok (clean_rows now batch)")
    case True
    with Some have p': "write_batch cfg now written p = p\<lparr>pi_inflight := None, pi_store := pi_store p @ map row_of batch\<rparr>" (is "_ = ?p'")
      by (simp add: write_batch_def clean_rows_stamped [OF st])
    have "flow_ok ?p' lg"
    proof -
      obtain s where s: "pi_store p = map row_of s" "subseq (s @ waiting p) lg"
        "int (length lg) = int (length s) + int (length (waiting p)) + overflowed p"
        using assms by (auto simp: pipe_ok_def flow_ok_def)
      then show ?thesis
        unfolding flow_ok_def by (intro exI [of _ "s @ batch"]) (simp add: w, simp add: waiting_def batch_of_def overflowed_def)
    qed
    then show ?thesis using assms w unfolding p' by (auto simp: pipe_ok_def tails_ok_def waiting_def batch_of_def)
  next
    case False
    let ?p' = "p\<lparr>pi_inflight := None, pi_buffer := batch @ pi_buffer p\<rparr>"
    have "waiting ?p' = waiting p" by (simp add: w) (simp add: waiting_def batch_of_def)
    then have "flow_ok ?p' lg" "list_all stamped (waiting ?p')"
      using assms flow_cong [of ?p' p lg] by (auto simp: pipe_ok_def overflowed_def)
    with Some False assms show ?thesis
      by (auto simp: write_batch_def pipe_ok_def tails_ok_def trim_flow trim_stamped trim_bounded)
  qed
qed (use assms in \<open>simp add: write_batch_def\<close>)

text \<open>Steps that touch neither the buffer nor the store.\<close>

lemma side_ok:
  assumes "pipe_ok cfg (p, lg)" "pi_buffer p' = pi_buffer p" "pi_inflight p' = pi_inflight p" "pi_store p' = pi_store p"
    "overflowed p' = overflowed p" "tails_ok p'" "\<forall>q. pi_udp p' = Some q \<longrightarrow> length q \<le> pc_udp cfg"
  shows "pipe_ok cfg (p', lg)"
  using assms by (simp add: pipe_ok_def flow_ok_def waiting_def batch_of_def)

lemma udp_put_ok:
  assumes "pipe_ok cfg (p, lg)"
  shows "pipe_ok cfg (udp_put cfg m p, lg)"
  using assms by (intro side_ok [OF assms])
    (auto simp: udp_put_def pipe_ok_def tails_ok_def overflowed_def overflowed_count split: option.splits)

lemma udp_worker_ok:
  assumes "pipe_ok cfg (p, lg)"
  shows "pipe_ok cfg (udp_worker cfg now enr geo p, lg @ arrivals (Udp_work now enr geo) p)"
proof (cases "pi_udp p")
  case (Some ms)
  show ?thesis
  proof (cases ms)
    case (Cons m q)
    have "pipe_ok cfg (p\<lparr>pi_udp := Some q\<rparr>, lg)"
      using assms Some Cons by (intro side_ok [OF assms]) (auto simp: pipe_ok_def tails_ok_def overflowed_def)
    from enqueue_ok [OF this] Some Cons show ?thesis by (simp add: udp_worker_def)
  qed (use assms Some in \<open>simp add: udp_worker_def\<close>)
qed (use assms in \<open>simp add: udp_worker_def\<close>)

lemma tail_tl: "tail_ok (t, i, ms) \<Longrightarrow> tail_ok (t, i, tl ms)"
  by (cases ms) auto

lemma tails_step:
  assumes "pipe_ok cfg (p, lg)"
  shows "pipe_ok cfg (pipe_step cfg accepts (Subscribe t) p, lg)" "pipe_ok cfg (pipe_step cfg accepts (Unsubscribe q) p, lg)"
    "pipe_ok cfg (pipe_step cfg accepts (Tail_read q) p, lg)"
proof -
  have u: "\<forall>q. pi_udp p = Some q \<longrightarrow> length q \<le> pc_udp cfg" and t: "tails_ok p" using assms by (auto simp: pipe_ok_def)
  show "pipe_ok cfg (pipe_step cfg accepts (Subscribe t) p, lg)"
    using u t by (intro side_ok [OF assms]) (auto simp: subscribe_def tails_ok_def overflowed_def split: option.splits)
  show "pipe_ok cfg (pipe_step cfg accepts (Unsubscribe q) p, lg)"
    using u t by (intro side_ok [OF assms]) (auto simp: unsubscribe_def tails_ok_def overflowed_def list_all_iff)
  have "tails_ok (p\<lparr>pi_subs := map (\<lambda>(t, i, ms). (t, i, if i = q then tl ms else ms)) (pi_subs p)\<rparr>)"
    using t by (auto simp: tails_ok_def tail_tl intro!: list_all_mapI simp del: tail_ok.simps)
  with u show "pipe_ok cfg (pipe_step cfg accepts (Tail_read q) p, lg)"
    by (intro side_ok [OF assms]) (auto simp: overflowed_def)
qed

lemma step_ok: "pipe_ok cfg s \<Longrightarrow> pipe_ok cfg (logged_step cfg accepts ev s)"
  by (cases s; cases ev)
    (auto simp: logged_step_def enqueue_ok udp_put_ok udp_worker_ok flush_ok write_ok flusher_wakes_def wake_ok tails_step simp del: arrivals.simps(2) pipe_step.simps(7-9) intro: flush_ok)

interpretation pipeline: step_system "logged_step cfg accepts" "pipe_ok cfg" for cfg accepts
  by unfold_locales (rule step_ok)

definition start_pipe :: pipe where
  "start_pipe = \<lparr>pi_buffer = [], pi_inflight = None, pi_store = [], pi_subs = [], pi_next = 0, pi_udp = Some [], pi_wake = Some False,
     pi_drops = []\<rparr>"

lemma start_ok: "pipe_ok cfg (start_pipe, [])"
  by (simp add: pipe_ok_def start_pipe_def tails_ok_def flow_ok_def waiting_def batch_of_def overflowed_def dget_or_def)

text \<open>C12. In every run of the server, with messages arriving while batches are written, written batches, the batch in
  flight and the buffer hold the accepted messages in their order, each once; what is missing is exactly what the
  counter of buffer overflows says. The buffer and the queues keep their bounds, and a live tail only ever holds
  messages of its subscriber's tenant.\<close>

theorem pipeline_conserves:
  "case fold (logged_step cfg accepts) evs (start_pipe, []) of (p, lg) \<Rightarrow>
     (\<exists>st. pi_store p = map row_of st \<and> subseq (st @ waiting p) lg \<and>
        int (length lg) = int (length st) + int (length (waiting p)) + overflowed p) \<and>
     length (pi_buffer p) \<le> pc_max cfg \<and> list_all tail_ok (pi_subs p)"
proof -
  have "pipe_ok cfg (fold (logged_step cfg accepts) evs (start_pipe, []))"
    by (rule pipeline.run_good) (rule start_ok)
  then show ?thesis by (auto simp: pipe_ok_def flow_ok_def tails_ok_def split: prod.splits)
qed

section \<open>One row that the store refuses\<close>

text \<open>The message is in the batch that is being written, or waits for the next one.\<close>

definition stuck :: "queued \<Rightarrow> pipe \<Rightarrow> bool" where
  "stuck m p \<longleftrightarrow> m \<in> set (batch_of p) \<or> pi_inflight p = None \<and> m \<in> set (pi_buffer p)"

text \<open>A step that does not overflow keeps the message stuck and the store as it is.\<close>

definition held_back :: "queued \<Rightarrow> pipe \<Rightarrow> pipe \<Rightarrow> bool" where
  "held_back m p p' \<longleftrightarrow> overflowed p \<le> overflowed p' \<and> (overflowed p' = overflowed p \<longrightarrow> stuck m p' \<and> pi_store p' = pi_store p)"

lemma trim_held:
  assumes "stuck m p"
  shows "held_back m p (trim_buffer cfg p)"
  using assms by (auto simp: held_back_def stuck_def trim_buffer_eq)

lemma held_eq:
  "held_back m p p' \<Longrightarrow> overflowed p = overflowed q \<Longrightarrow> pi_store p = pi_store q \<Longrightarrow> held_back m q p'"
  by (simp add: held_back_def)

lemma held_wake: "held_back m p (p'\<lparr>pi_wake := w\<rparr>) = held_back m p p'"
  by (simp add: held_back_def overflowed_def stuck_def batch_of_def)

lemma enqueue_held:
  assumes "stuck m p"
  shows "held_back m p (enqueue cfg now enr geo x p)"
proof (cases "qm_tenant x")
  case None
  with assms show ?thesis by (simp add: enqueue_def held_back_def stuck_def batch_of_def overflowed_def overflowed_count)
next
  case (Some t)
  let ?m = "prepare now enr geo x"
  let ?p2 = "p\<lparr>pi_subs := broadcast t ?m (pi_subs p), pi_buffer := pi_buffer p @ [?m]\<rparr>"
  have "stuck m ?p2" using assms by (auto simp: stuck_def batch_of_def)
  from held_eq [OF trim_held [OF this, of cfg]] have "held_back m p (trim_buffer cfg ?p2)" by (simp add: overflowed_def)
  with Some show ?thesis by (simp add: enqueue_def Let_def held_wake)
qed

lemma stuck_udp: "stuck m (p\<lparr>pi_udp := q\<rparr>) = stuck m p"
  by (simp add: stuck_def batch_of_def)

lemma worker_held:
  assumes "stuck m p"
  shows "held_back m p (udp_worker cfg now enr geo p)"
proof -
  have "held_back m p (enqueue cfg now enr geo x (p\<lparr>pi_udp := q\<rparr>))" for x q
    using held_eq [OF enqueue_held [of m "p\<lparr>pi_udp := q\<rparr>" cfg now enr geo x]] assms by (simp add: stuck_udp overflowed_def)
  moreover have "held_back m p p" using assms by (simp add: held_back_def)
  ultimately show ?thesis by (auto simp: udp_worker_def split: option.splits list.splits)
qed

definition refuses :: "(log_row list \<Rightarrow> bool) \<Rightarrow> queued \<Rightarrow> bool" where
  "refuses accepts m \<longleftrightarrow> (\<forall>rows. row_of m \<in> set rows \<longrightarrow> \<not> accepts rows)"

lemma write_held:
  assumes "stuck m p" "list_all stamped (waiting p)" "refuses accepts m"
  shows "held_back m p (write_batch cfg now (up \<and> accepts (clean_rows now (batch_of p))) p)"
proof (cases "pi_inflight p")
  case None
  with assms(1) show ?thesis by (simp add: write_batch_def held_back_def)
next
  case (Some batch)
  then have b: "batch_of p = batch" and m: "m \<in> set batch" using assms(1) by (auto simp: batch_of_def stuck_def)
  let ?p' = "p\<lparr>pi_inflight := None, pi_buffer := batch @ pi_buffer p\<rparr>"
  have "clean_rows now batch = map row_of batch" using assms(2) by (intro clean_rows_stamped) (simp add: waiting_def b)
  then have "\<not> accepts (clean_rows now batch)" using m assms(3) by (simp add: refuses_def)
  then have "write_batch cfg now (up \<and> accepts (clean_rows now (batch_of p))) p = trim_buffer cfg ?p'"
    using Some b by (simp add: write_batch_def)
  moreover have "stuck m ?p'" using m by (simp add: stuck_def)
  from held_eq [OF trim_held [OF this, of cfg]] have "held_back m p (trim_buffer cfg ?p')" by (simp add: overflowed_def)
  ultimately show ?thesis by simp
qed

lemma step_held:
  assumes "stuck m p" "list_all stamped (waiting p)" "refuses accepts m"
  shows "held_back m p (pipe_step cfg accepts ev p)"
proof (cases ev)
  case (Written now up)
  with write_held [OF assms, of cfg now up] show ?thesis by (simp add: batch_of_def)
next
  case (Arrive now enr geo x)
  with enqueue_held [OF assms(1)] show ?thesis by simp
next
  case (Udp_work now enr geo)
  with worker_held [OF assms(1)] show ?thesis by simp
qed (use assms(1) in \<open>auto simp: held_back_def udp_put_def flusher_wakes_def flush_take_def subscribe_def unsubscribe_def
    stuck_def batch_of_def overflowed_def overflowed_count split: option.splits\<close>)

lemma enqueue_overflow: "overflowed p \<le> overflowed (enqueue cfg now enr geo x p)"
  by (auto simp: enqueue_def Let_def overflowed_def overflowed_count trim_buffer_def split: option.splits)

lemma step_overflow: "overflowed p \<le> overflowed (pipe_step cfg accepts ev p)"
proof (cases ev)
  case (Udp_work now enr geo)
  have "overflowed p \<le> overflowed (enqueue cfg now enr geo x (p\<lparr>pi_udp := q\<rparr>))" for x q
    using enqueue_overflow [of "p\<lparr>pi_udp := q\<rparr>" cfg now enr geo x] by (simp add: overflowed_def)
  with Udp_work show ?thesis by (auto simp: udp_worker_def split: option.splits list.splits)
next
  case (Arrive now enr geo x)
  then show ?thesis by (simp add: enqueue_overflow)
qed (auto simp: udp_put_def flusher_wakes_def flush_take_def write_batch_def Let_def subscribe_def unsubscribe_def
    overflowed_def overflowed_count trim_buffer_def split: option.splits)

lemma run_overflow: "overflowed p \<le> overflowed (fold (pipe_step cfg accepts) evs p)"
  by (induction evs arbitrary: p) (auto intro: order.trans [OF step_overflow])

lemma run_held:
  assumes "pipe_ok cfg (p, lg)" "stuck m p" "refuses accepts m"
  shows "held_back m p (fold (pipe_step cfg accepts) evs p)"
  using assms(1,2)
proof (induction evs arbitrary: p lg)
  case (Cons ev evs)
  let ?p' = "pipe_step cfg accepts ev p"
  have h: "held_back m p ?p'" using Cons.prems assms(3) by (intro step_held) (simp_all add: pipe_ok_def)
  have ok: "pipe_ok cfg (?p', lg @ arrivals ev p)" using step_ok [OF Cons.prems(1), of accepts ev] by (simp add: logged_step_def)
  show ?case
  proof (cases "overflowed ?p' = overflowed p")
    case True
    with h have "stuck m ?p'" "pi_store ?p' = pi_store p" by (auto simp: held_back_def)
    with Cons.IH [OF ok] True show ?thesis by (auto intro: held_eq)
  next
    case False
    have "overflowed ?p' \<le> overflowed (fold (pipe_step cfg accepts) evs ?p')" by (rule run_overflow)
    with False h show ?thesis by (simp add: held_back_def)
  qed
qed (simp add: held_back_def)

text \<open>A message whose row the store cannot take, because an agent sent a severity that is no number, stops the store for
  everybody: with every batch written as a whole and put back as a whole, whatever arrives and however often it is
  retried, not one message of any tenant is stored until the buffer overflows.\<close>

theorem refused_row_blocks_store:
  assumes "refuses accepts m" and "fold (logged_step cfg accepts) evs0 (start_pipe, []) = (p, lg)"
    and "stuck m p" and "overflowed (fold (pipe_step cfg accepts) evs p) = overflowed p"
  shows "pi_store (fold (pipe_step cfg accepts) evs p) = pi_store p \<and> stuck m (fold (pipe_step cfg accepts) evs p)"
proof -
  have "pipe_ok cfg (p, lg)"
    using pipeline.run_good [OF start_ok, of cfg accepts evs0] assms(2) by simp
  from run_held [OF this assms(3,1), of evs] assms(4) show ?thesis by (simp add: held_back_def)
qed

text \<open>The columns for facility and severity take small numbers.\<close>

definition small_number :: "json \<Rightarrow> bool" where
  "small_number v = (case v of JInt i \<Rightarrow> 0 \<le> i \<and> i \<le> 255 | _ \<Rightarrow> False)"

definition columns_accept :: "log_row list \<Rightarrow> bool" where
  "columns_accept rows = list_all (\<lambda>r. (lr_facility r = JNull \<or> small_number (lr_facility r)) \<and> small_number (lr_severity r)) rows"

definition bad_agent :: log_agent where
  "bad_agent = \<lparr>la_tenant = 2, la_site = None, la_hostname = Some ''web1'', la_probe = False, la_relay = False\<rparr>"

abbreviation bad_entry :: queued where
  "bad_entry \<equiv> own_message (\<lambda>_. []) bad_agent ''web1'' ''10.0.0.9'' None None 0 [(''severity'', JStr ''high''), (''message'', JStr ''disk'')]"

abbreviation good_entry :: queued where
  "good_entry \<equiv> own_message (\<lambda>_. []) (bad_agent\<lparr>la_tenant := 3\<rparr>) ''db1'' ''10.0.0.8'' None None 0 [(''message'', JStr ''ok'')]"

abbreviation small_cfg :: pipe_cfg where
  "small_cfg \<equiv> \<lparr>pc_batch = 2, pc_max = 9, pc_udp = 9\<rparr>"

theorem refused_row_blocks_store_witness:
  "let p = fold (pipe_step small_cfg columns_accept) [Arrive 0 None None bad_entry] start_pipe;
       p' = fold (pipe_step small_cfg columns_accept) [Arrive 0 None None good_entry, Flush, Written 1 True, Wake, Written 2 True] p
   in pi_store p' = [] \<and> stuck (prepare 0 None None bad_entry) p' \<and>
      map qm_tenant (pi_buffer p') = [Some 2, Some 3] \<and>
      pi_store (fold (pipe_step small_cfg columns_accept) [Arrive 0 None None good_entry, Flush, Written 1 True] start_pipe) \<noteq> []"
proof -
  let ?m = "prepare 0 None None bad_entry"
  let ?p = "fold (pipe_step small_cfg columns_accept) [Arrive 0 None None bad_entry] start_pipe"
  let ?evs = "[Arrive 0 None None good_entry, Flush, Written 1 True, Wake, Written 2 True]"
  have "lr_severity (row_of ?m) = JStr ''high''" by code_simp
  then have refused: "refuses columns_accept ?m" by (force simp: refuses_def columns_accept_def list_all_iff small_number_def)
  have run: "fold (logged_step small_cfg columns_accept) [Arrive 0 None None bad_entry] (start_pipe, []) = (?p, [?m])" by code_simp
  have s: "stuck ?m ?p" and o: "overflowed (fold (pipe_step small_cfg columns_accept) ?evs ?p) = overflowed ?p" by code_simp+
  have e: "pi_store ?p = []" by code_simp
  have "map qm_tenant (pi_buffer (fold (pipe_step small_cfg columns_accept) ?evs ?p)) = [Some 2, Some 3]"
    "pi_store (fold (pipe_step small_cfg columns_accept) [Arrive 0 None None good_entry, Flush, Written 1 True] start_pipe) \<noteq> []"
    by code_simp+
  with refused_row_blocks_store [OF refused run s o] e show ?thesis unfolding Let_def by metis
qed

section \<open>Agents and probes speak for their own tenant\<close>

text \<open>C31. Every message an agent or probe sends is filed under the sender's own tenant and site, whatever the entry says, and
  attributed to a host of that tenant or to none; only a probe with its relay switched on sends for other devices.\<close>

theorem agent_entry_isolated:
  assumes "li_caches li = refresh_caches dns ds tenants hosts"
    and "agent_entry li frepr fromiso a hostname client_ip
           (resolve_agent_host_id (li_caches li) (Some client_ip) (Some hostname) (la_tenant a) site) site now e = Inr (Inr m)"
  shows "qm_tenant m = Some (la_tenant a) \<and> qm_site m = Some (case site of None \<Rightarrow> 0 | Some s \<Rightarrow> s) \<and>
    (qm_relayed m \<longrightarrow> la_probe a \<and> la_relay a) \<and>
    (\<forall>hid. qm_host m = Some hid \<longrightarrow> host_of_tenant hosts (la_tenant a) hid)"
proof (cases e)
  case (JDict d)
  show ?thesis
  proof (cases "dget d ''raw'' = None")
    case True
    with JDict assms show ?thesis
      by (auto simp: agent_entry_def own_message_def dest: resolve_agent_own_tenant)
  next
    case False
    with JDict assms(2) have "la_probe a" "la_relay a" and r: "parse_relayed_entry li frepr fromiso d (la_tenant a) site now = Inr (Inr m)"
      by (auto simp: agent_entry_def split: if_splits)
    from r assms(1) have "qm_tenant m = Some (la_tenant a)" "qm_site m = Some (case site of None \<Rightarrow> 0 | Some s \<Rightarrow> s)"
      "\<forall>hid. qm_host m = Some hid \<longrightarrow> host_of_tenant hosts (la_tenant a) hid"
      by (auto simp: parse_relayed_entry_def Let_def bind_result_Inr_iff dest: resolve_own_tenant split: json.splits option.splits if_splits)
    with \<open>la_probe a\<close> \<open>la_relay a\<close> show ?thesis by blast
  qed
qed (use assms(2) in \<open>simp_all add: agent_entry_def\<close>)

definition relay_probe :: log_agent where
  "relay_probe = \<lparr>la_tenant = 1, la_site = Some 20, la_hostname = Some ''probe-b'', la_probe = True, la_relay = True\<rparr>"

definition branch_listener :: listener where
  "branch_listener = \<lparr>li_caches = branches, li_allow_only = [], li_allowed = [], li_rdns = [], li_mode = ''off'', li_tenants = Some 2\<rparr>"

definition relayed_line :: json where
  "relayed_line = JDict [(''raw'', JStr ''<13>Mar  7 07:26:58 gw kernel: link down''), (''source_ip'', JStr ''192.168.1.1''), (''tenant_id'', JInt 2)]"

theorem agent_entry_isolated_witness:
  "\<exists>m. agent_entry branch_listener (\<lambda>_. []) (\<lambda>_. None) relay_probe ''probe-b'' ''10.0.0.2''
     (resolve_agent_host_id branches (Some ''10.0.0.2'') (Some ''probe-b'') 1 (Some 20)) (Some 20) 0 relayed_line = Inr (Inr m) \<and>
     qm_host m = Some 2 \<and> qm_tenant m = Some 1 \<and> qm_site m = Some 20 \<and> host_of_tenant two_branches 1 2"
proof -
  let ?r = "agent_entry branch_listener (\<lambda>_. []) (\<lambda>_. None) relay_probe ''probe-b'' ''10.0.0.2''
    (resolve_agent_host_id branches (Some ''10.0.0.2'') (Some ''probe-b'') 1 (Some 20)) (Some 20) 0 relayed_line"
  have "case ?r of Inr (Inr m) \<Rightarrow> qm_host m = Some 2 | _ \<Rightarrow> False" by code_simp
  then obtain m where m: "?r = Inr (Inr m)" "qm_host m = Some 2" by (auto split: sum.splits)
  have c: "li_caches branch_listener = branches" "la_tenant relay_probe = 1" by (simp_all add: branch_listener_def relay_probe_def)
  from agent_entry_isolated [of branch_listener "\<lambda>_. None" "\<lambda>_. None" "[1, 2]" two_branches "\<lambda>_. []" "\<lambda>_. None" relay_probe
      "''probe-b''" "''10.0.0.2''" "Some 20" 0 relayed_line m] m c
  show ?thesis by auto
qed

section \<open>Edges\<close>

text \<open>A line longer than the limit of the stream reader ends the TCP connection, although the handler means to skip
  messages that are too long; only a line of exactly that length is skipped.\<close>

lemma long_line_ends_connection:
  assumes "CHR 0x0A \<notin> set text"
  shows "(length text > 65536 \<longrightarrow> tcp_line cfg rcfg li tick now enr geo (text @ [CHR 0x0A]) source_ip r = Tcp_closed (tcp_close r)) \<and>
    (length text = 65536 \<longrightarrow> tcp_line cfg rcfg li tick now enr geo (text @ [CHR 0x0A]) source_ip r = Tcp_next r)"
proof -
  have "first_line (text @ [CHR 0x0A]) = text"
    using assms unfolding first_line_def by (intro takeWhile_stop) (auto simp: list_all_iff)
  then show ?thesis by (simp add: tcp_line_def STREAM_LIMIT_def MAX_MSG_SIZE_def)
qed

text \<open>A batch that is being written when the server stops is gone if the rows had not been sent: it is in neither the
  store nor the buffer, although the shutdown means to write what is left.\<close>

lemma stop_loses_batch:
  assumes "pi_inflight p = Some batch" and "pi_buffer p = []" and "pi_udp p = Some []"
  shows "pi_store (stop_server cfg now mine geo False written p) = pi_store p \<and> waiting (stop_server cfg now mine geo False written p) = []"
  using assms by (simp add: stop_server_def cancel_insert_def Let_def flush_take_def write_batch_def waiting_def batch_of_def)

end
