(* ===== verification/Log_Baselines.thy ===== *)
theory Log_Baselines
  imports Interfaces
begin

text \<open>
  Message-rate baselines of the log sources (\<^verbatim>\<open>backend/services/log_intelligence.py\<close>): which completed hours are folded in,
  the weighted mean and variance per source, hour of the day and weekday, the choice between the weekday slot and
  the slot of every day, the anomalies against them, and the template diversity kept in the same rows. The answers of
  ClickHouse are arguments. Rates are real numbers; the rounding of floats is not modelled.
\<close>

section \<open>Hours\<close>

abbreviation us_per_hour :: int where "us_per_hour \<equiv> 3600000000"

definition floor_hour :: "datetime \<Rightarrow> datetime" where
  "floor_hour t = t - t mod us_per_hour"

definition hour_of :: "datetime \<Rightarrow> int" where
  "hour_of t = tod_of t div us_per_hour"

definition weekday_of :: "datetime \<Rightarrow> int" where
  "weekday_of t = weekday (day_of t)"

definition BASELINE_ANY_DAY :: int where "BASELINE_ANY_DAY = 7"
definition BASELINE_MIN_SAMPLES :: int where "BASELINE_MIN_SAMPLES = 3"
definition BASELINE_ALPHA_MIN :: real where "BASELINE_ALPHA_MIN = 1 / 5"
definition BASELINE_BACKFILL_HOURS :: int where "BASELINE_BACKFILL_HOURS = 24"
definition BASELINE_SETTLE_SECONDS :: int where "BASELINE_SETTLE_SECONDS = 120"

function hours_until :: "datetime \<Rightarrow> datetime \<Rightarrow> datetime list" where
  "hours_until h latest = (if h \<le> latest then h # hours_until (h + us_per_hour) latest else [])"
  by pat_completeness auto
termination
  by (relation "measure (\<lambda>(h, latest). nat (latest - h + 1))") auto

declare hours_until.simps [simp del]

definition latest_hour :: "datetime \<Rightarrow> datetime" where
  "latest_hour now = floor_hour (now - BASELINE_SETTLE_SECONDS * us_per_second) - us_per_hour"

definition baseline_hours_due :: "datetime option \<Rightarrow> datetime \<Rightarrow> datetime list" where
  "baseline_hours_due done_through now =
     (let latest = latest_hour now; earliest = latest - (BASELINE_BACKFILL_HOURS - 1) * us_per_hour;
          start = (case done_through of None \<Rightarrow> earliest | Some d \<Rightarrow> max (d + us_per_hour) earliest)
      in hours_until start latest)"

section \<open>The running estimate\<close>

definition ewma_update :: "real \<Rightarrow> real \<Rightarrow> int \<Rightarrow> real \<Rightarrow> real \<times> real \<times> int" where
  "ewma_update mean var n x =
     (let n' = n + 1; a = max (1 / real_of_int n') BASELINE_ALPHA_MIN; diff = x - mean in
      (mean + a * diff, (1 - a) * (var + a * diff * diff), n'))"

record baseline =
  bl_avg :: real
  bl_std :: real
  bl_n :: int
  bl_tavg :: real
  bl_tstd :: real
  bl_updated :: datetime

type_synonym slot = "string \<times> int \<times> int"

definition empty_baseline :: "datetime \<Rightarrow> baseline" where
  "empty_baseline now = \<lparr>bl_avg = 0, bl_std = 0, bl_n = 0, bl_tavg = 0, bl_tstd = 0, bl_updated = now\<rparr>"

text \<open>One sample for a slot: the rate columns of the row are replaced, the template columns kept.\<close>

definition fold_sample :: "datetime \<Rightarrow> real \<Rightarrow> slot \<Rightarrow> (slot, baseline) dict \<Rightarrow> (slot, baseline) dict" where
  "fold_sample now x k rows =
     (let prev = dget_or rows k (empty_baseline now) in
      case ewma_update (bl_avg prev) ((bl_std prev)\<^sup>2) (bl_n prev) x of
        (mean, var, n) \<Rightarrow> dset rows k (prev\<lparr>bl_avg := mean, bl_std := sqrt var, bl_n := n, bl_updated := now\<rparr>))"

text \<open>The answer of ClickHouse: source, start of the hour and number of messages.\<close>

type_synonym hour_counts = "(string \<times> datetime \<times> int) list"

definition count_of :: "hour_counts \<Rightarrow> datetime \<Rightarrow> string \<Rightarrow> int" where
  "count_of rows h key = sum_list (map (\<lambda>(_, _, n). n) (filter (\<lambda>(k, t, _). k = key \<and> t = h) rows))"

text \<open>Sources with a row, and those first seen by this hour.\<close>

definition known_sources :: "(slot, baseline) dict \<Rightarrow> string list" where
  "known_sources rows = filter (\<lambda>k. k \<noteq> []) (map (\<lambda>((k, _, _), _). k) rows)"

definition hour_sources :: "hour_counts \<Rightarrow> datetime \<Rightarrow> string list \<Rightarrow> string list" where
  "hour_sources counts h known =
     sort (remdups (known @ map (\<lambda>(k, _, _). k) (filter (\<lambda>(k, t, _). k \<noteq> [] \<and> t \<le> h) counts)))"

definition source_slots :: "datetime \<Rightarrow> string \<Rightarrow> slot list" where
  "source_slots h key = [(key, hour_of h, weekday_of h), (key, hour_of h, BASELINE_ANY_DAY)]"

definition fold_hour :: "datetime \<Rightarrow> hour_counts \<Rightarrow> datetime \<Rightarrow> string list \<times> (slot, baseline) dict \<Rightarrow> string list \<times> (slot, baseline) dict" where
  "fold_hour now counts h s =
     (let sources = hour_sources counts h (fst s) in
      (remdups (fst s @ sources),
       fold (\<lambda>key. fold (fold_sample now (real_of_int (count_of counts h key))) (source_slots h key)) sources (snd s)))"

text \<open>
  \<open>compute_baselines\<close>. The progress is stored with the rows in one transaction; every instance mirrors it in memory. A
  failing query leaves everything as it was.
\<close>

record baseline_state =
  bs_rows :: "(slot, baseline) dict"
  bs_done :: "datetime option"

definition restart_rates :: "(slot, baseline) dict \<Rightarrow> (slot, baseline) dict" where
  "restart_rates rows = map (\<lambda>(k, b). (k, b\<lparr>bl_avg := 0, bl_std := 0, bl_n := 0\<rparr>)) rows"

definition compute_baselines ::
    "(datetime \<Rightarrow> datetime \<Rightarrow> hour_counts result) \<Rightarrow> datetime \<Rightarrow> datetime option \<times> baseline_state \<Rightarrow> datetime list \<times> datetime option \<times> baseline_state" where
  "compute_baselines query now s =
     (case s of (mirror, st) \<Rightarrow>
        (if mirror \<noteq> None \<and> baseline_hours_due mirror now = [] then ([], mirror, st)
         else
           (let hours = baseline_hours_due (bs_done st) now in
            if hours = [] then ([], (if bs_done st \<noteq> None then bs_done st else mirror), st)
            else (case query (hd hours) (last hours + us_per_hour) of
                    Inl _ \<Rightarrow> ([], mirror, st)
                  | Inr counts \<Rightarrow>
                      (let rows = (if bs_done st = None then restart_rates (bs_rows st) else bs_rows st);
                           known = known_sources rows;
                           rows' = snd (fold (fold_hour now counts) hours (known, rows))
                       in (hours, Some (last hours), \<lparr>bs_rows = rows', bs_done = Some (last hours)\<rparr>))))))"

section \<open>Using the baselines\<close>

definition usable :: "baseline option \<Rightarrow> baseline option" where
  "usable b = (case b of None \<Rightarrow> None | Some x \<Rightarrow> if bl_n x \<ge> BASELINE_MIN_SAMPLES then Some x else None)"

definition pick_baseline :: "baseline option \<Rightarrow> baseline option \<Rightarrow> baseline option" where
  "pick_baseline weekday_slot any_day_slot =
     (case usable weekday_slot of Some b \<Rightarrow> Some b | None \<Rightarrow> usable any_day_slot)"

definition slot_row :: "bool \<Rightarrow> (slot, baseline) dict \<Rightarrow> slot \<Rightarrow> baseline option" where
  "slot_row require_templates rows k =
     (case dget rows k of None \<Rightarrow> None | Some b \<Rightarrow> if require_templates \<and> \<not> bl_tavg b > 0 then None else Some b)"

definition effective_baseline :: "bool \<Rightarrow> (slot, baseline) dict \<Rightarrow> datetime \<Rightarrow> string \<Rightarrow> baseline option" where
  "effective_baseline require_templates rows now key =
     pick_baseline (slot_row require_templates rows (key, hour_of now, weekday_of now))
       (slot_row require_templates rows (key, hour_of now, BASELINE_ANY_DAY))"

definition load_effective_baselines :: "bool \<Rightarrow> (slot, baseline) dict \<Rightarrow> datetime \<Rightarrow> (string, baseline) dict" where
  "load_effective_baselines require_templates rows now =
     List.map_filter (\<lambda>key. map_option (\<lambda>b. (key, b)) (effective_baseline require_templates rows now key))
       (remdups (map (\<lambda>((k, _, _), _). k) rows))"

datatype anomaly_kind = Rate_spike | Silent

definition spike_score :: "baseline \<Rightarrow> int \<Rightarrow> real option" where
  "spike_score b cnt =
     (if bl_std b > 0 then Some ((real_of_int cnt - bl_avg b) / bl_std b)
      else if real_of_int cnt > bl_avg b * 3 then Some 5 else None)"

definition is_silent :: "datetime \<Rightarrow> baseline \<Rightarrow> int \<Rightarrow> bool" where
  "is_silent now b current \<longleftrightarrow>
     (let elapsed = max 1 (real_of_int (now mod us_per_hour div us_per_minute) + real_of_int (now mod us_per_minute div us_per_second) / 60) in
      bl_avg b > 10 \<and> real_of_int current * (60 / elapsed) < bl_avg b / 10)"

definition detect_baseline_anomalies :: "(slot, baseline) dict \<Rightarrow> (string, int) dict \<Rightarrow> datetime \<Rightarrow> (string \<times> anomaly_kind) list" where
  "detect_baseline_anomalies rows current now =
     (let bases = load_effective_baselines False rows now in
      if bases = [] then []
      else List.map_filter (\<lambda>(key, cnt). case dget bases key of
               None \<Rightarrow> None
             | Some b \<Rightarrow> (case spike_score b cnt of None \<Rightarrow> None | Some z \<Rightarrow> if z \<ge> 3 then Some (key, Rate_spike) else None)) current
           @ List.map_filter (\<lambda>(key, b). if is_silent now b (dget_or current key 0) then Some (key, Silent) else None) bases)"

section \<open>Template diversity\<close>

definition diversity_alpha :: real where "diversity_alpha = 3 / 10"

definition add_missing :: "datetime \<Rightarrow> slot \<Rightarrow> (slot, baseline) dict \<Rightarrow> (slot, baseline) dict" where
  "add_missing now k rows = (if dget rows k = None then dset rows k (empty_baseline now) else rows)"

definition count_sample :: "datetime \<Rightarrow> slot \<Rightarrow> (slot, baseline) dict \<Rightarrow> (slot, baseline) dict" where
  "count_sample now k rows = (case dget rows k of None \<Rightarrow> rows | Some b \<Rightarrow> dset rows k (b\<lparr>bl_n := bl_n b + 1, bl_updated := now\<rparr>))"

definition fold_diversity :: "real \<Rightarrow> slot \<Rightarrow> (slot, baseline) dict \<Rightarrow> (slot, baseline) dict" where
  "fold_diversity d k rows = (case dget rows k of
     None \<Rightarrow> rows
   | Some b \<Rightarrow>
       (let avg = diversity_alpha * d + (1 - diversity_alpha) * bl_tavg b in
        dset rows k (b\<lparr>bl_tavg := avg, bl_tstd := max 1 ((1 - diversity_alpha) * bl_tstd b + diversity_alpha * \<bar>d - avg\<bar>)\<rparr>)))"

definition host_slots :: "datetime \<Rightarrow> string \<Rightarrow> (slot, baseline) dict \<Rightarrow> (slot, baseline) dict" where
  "host_slots now key rows =
     (if startswith key ''host:''
      then fold (count_sample now) (source_slots now key) (fold (add_missing now) (source_slots now key) rows)
      else rows)"

definition compute_template_diversity :: "datetime \<Rightarrow> (string \<times> int) list \<Rightarrow> (slot, baseline) dict \<Rightarrow> (slot, baseline) dict" where
  "compute_template_diversity now found rows =
     (let keys = map fst (filter (\<lambda>(k, _). k \<noteq> []) found);
          rows1 = fold (host_slots now) keys rows
      in fold (\<lambda>(key, d). fold (fold_diversity (real_of_int d)) (source_slots now key)) (filter (\<lambda>(k, _). k \<noteq> []) found) rows1)"

section \<open>Every hour is folded in once\<close>

definition on_hour :: "datetime \<Rightarrow> bool" where
  "on_hour t \<longleftrightarrow> us_per_hour dvd t"

lemma aligned_floor: "on_hour (floor_hour t)"
  by (simp add: floor_hour_def on_hour_def minus_mod_eq_mult_div)

lemma aligned_next: "on_hour x \<Longrightarrow> on_hour h \<Longrightarrow> h < x \<Longrightarrow> h + us_per_hour \<le> x"
  using zdvd_imp_le [of us_per_hour "x - h"] dvd_diff [of us_per_hour x h] by (simp add: on_hour_def)

lemma set_hours_until: "on_hour h \<Longrightarrow> set (hours_until h latest) = {x. on_hour x \<and> h \<le> x \<and> x \<le> latest}"
proof (induction h latest rule: hours_until.induct)
  case (1 h latest)
  show ?case
  proof (cases "h \<le> latest")
    case True
    have "on_hour (h + us_per_hour)" using 1(2) by (simp add: on_hour_def)
    with True 1 have "set (hours_until h latest) = insert h {x. on_hour x \<and> h + us_per_hour \<le> x \<and> x \<le> latest}"
      by (subst hours_until.simps) simp
    also have "\<dots> = {x. on_hour x \<and> h \<le> x \<and> x \<le> latest}"
      using True 1(2) by (auto dest: aligned_next [of _ h] simp: order_le_less)
    finally show ?thesis .
  qed (subst hours_until.simps, auto)
qed

lemma sorted_hours_until: "sorted_wrt (<) (hours_until h latest) \<and> (\<forall>x \<in> set (hours_until h latest). h \<le> x)"
proof (induction h latest rule: hours_until.induct)
  case (1 h latest)
  then show ?case by (subst (1 2) hours_until.simps) fastforce
qed

lemma last_hours_until: "on_hour h \<Longrightarrow> on_hour latest \<Longrightarrow> h \<le> latest \<Longrightarrow> last (hours_until h latest) = latest"
proof (induction h latest rule: hours_until.induct)
  case (1 h latest)
  have e: "hours_until h latest = h # hours_until (h + us_per_hour) latest" using 1(4) by (subst hours_until.simps) simp
  show ?case
  proof (cases "h = latest")
    case True
    then show ?thesis using e by (simp add: hours_until.simps [of "latest + us_per_hour"])
  next
    case False
    with 1 aligned_next [of latest h] have "h + us_per_hour \<le> latest" by simp
    moreover have "hours_until (h + us_per_hour) latest \<noteq> []" using calculation by (subst hours_until.simps) simp
    moreover have "on_hour (h + us_per_hour)" using 1(2) by (simp add: on_hour_def)
    ultimately show ?thesis using 1 e by simp
  qed
qed

lemma aligned_latest: "on_hour (latest_hour now)"
  using aligned_floor [of "now - BASELINE_SETTLE_SECONDS * us_per_second"] by (simp add: latest_hour_def on_hour_def)

lemma latest_settled: "latest_hour now + us_per_hour + BASELINE_SETTLE_SECONDS * us_per_second \<le> now"
proof -
  have "floor_hour t \<le> t" for t by (simp add: floor_hour_def)
  from this [of "now - BASELINE_SETTLE_SECONDS * us_per_second"] show ?thesis by (simp add: latest_hour_def)
qed

text \<open>What is due: the completed hours after the progress, at most a day back.\<close>

lemma due_hours:
  assumes "\<forall>d. done_through = Some d \<longrightarrow> on_hour d"
  shows "set (baseline_hours_due done_through now) =
      {h. on_hour h \<and> (\<forall>d. done_through = Some d \<longrightarrow> d < h) \<and> latest_hour now - 23 * us_per_hour \<le> h \<and> h \<le> latest_hour now}"
    and "sorted_wrt (<) (baseline_hours_due done_through now)"
    and "baseline_hours_due done_through now \<noteq> [] \<Longrightarrow> last (baseline_hours_due done_through now) = latest_hour now"
proof -
  define e where "e = latest_hour now - 23 * us_per_hour"
  define start where "start = (case done_through of None \<Rightarrow> e | Some d \<Rightarrow> max (d + us_per_hour) e)"
  have d: "baseline_hours_due done_through now = hours_until start (latest_hour now)"
    unfolding baseline_hours_due_def Let_def start_def e_def BASELINE_BACKFILL_HOURS_def by (cases done_through) simp_all
  have "on_hour e" unfolding e_def using aligned_latest [of now] dvd_diff [of us_per_hour "latest_hour now" "23 * us_per_hour"] by (simp add: on_hour_def)
  then have a: "on_hour start" using assms by (auto simp: start_def max_def on_hour_def split: option.splits)
  have "d + us_per_hour \<le> h \<longleftrightarrow> d < h" if "done_through = Some d" "on_hour h" for d h
    using assms that aligned_next [of h d] by auto
  then show "set (baseline_hours_due done_through now) =
      {h. on_hour h \<and> (\<forall>d. done_through = Some d \<longrightarrow> d < h) \<and> latest_hour now - 23 * us_per_hour \<le> h \<and> h \<le> latest_hour now}"
    unfolding d set_hours_until [OF a] by (auto simp: start_def e_def split: option.splits)
  show "sorted_wrt (<) (baseline_hours_due done_through now)" unfolding d using sorted_hours_until by blast
  show "last (baseline_hours_due done_through now) = latest_hour now" if "baseline_hours_due done_through now \<noteq> []"
  proof -
    have "start \<le> latest_hour now" using that unfolding d by (metis hours_until.simps)
    then show ?thesis unfolding d by (rule last_hours_until [OF a aligned_latest])
  qed
qed

text \<open>
  The passes of any instances, each with whatever its mirror of the progress holds, on the shared table. The log
  lists the hours folded in, with the time of the pass.
\<close>

type_synonym baseline_pass = "(datetime \<Rightarrow> datetime \<Rightarrow> hour_counts result) \<times> datetime \<times> datetime option"

definition pass_step :: "baseline_pass \<Rightarrow> (datetime \<times> datetime) list \<times> baseline_state \<Rightarrow> (datetime \<times> datetime) list \<times> baseline_state" where
  "pass_step i s = (case i of (query, now, mirror) \<Rightarrow>
     (case compute_baselines query now (mirror, snd s) of (hs, _, st) \<Rightarrow> (fst s @ map (\<lambda>h. (h, now)) hs, st)))"

definition progress_ok :: "(datetime \<times> datetime) list \<times> baseline_state \<Rightarrow> bool" where
  "progress_ok s \<longleftrightarrow>
     sorted_wrt (<) (map fst (fst s)) \<and>
     (\<forall>(h, now) \<in> set (fst s). h + us_per_hour + BASELINE_SETTLE_SECONDS * us_per_second \<le> now) \<and>
     (case bs_done (snd s) of
        None \<Rightarrow> fst s = []
      | Some d \<Rightarrow> on_hour d \<and> (\<forall>h \<in> set (map fst (fst s)). h \<le> d) \<and>
          (\<forall>h. on_hour h \<and> d - 23 * us_per_hour \<le> h \<and> h \<le> d \<longrightarrow> h \<in> set (map fst (fst s))))"

lemma compute_cases:
  assumes "compute_baselines query now (mirror, st) = (hs, mirror', st')"
  shows "hs = [] \<and> st' = st \<or> hs = baseline_hours_due (bs_done st) now \<and> hs \<noteq> [] \<and> bs_done st' = Some (last hs)"
  using assms by (auto simp: compute_baselines_def Let_def split: if_splits sum.splits)

lemma pass_ok:
  assumes "progress_ok s"
  shows "progress_ok (pass_step i s)"
proof -
  obtain query now mirror where i: "i = (query, now, mirror)" by (cases i)
  obtain lg st where s: "s = (lg, st)" by fastforce
  obtain hs m' st' where c: "compute_baselines query now (mirror, st) = (hs, m', st')" by (metis prod_cases3)
  have p: "pass_step i s = (lg @ map (\<lambda>h. (h, now)) hs, st')" by (simp add: pass_step_def i s c)
  from compute_cases [OF c] show ?thesis
  proof
    assume "hs = [] \<and> st' = st"
    with p assms s show ?thesis by simp
  next
    assume h: "hs = baseline_hours_due (bs_done st) now \<and> hs \<noteq> [] \<and> bs_done st' = Some (last hs)"
    have al: "\<forall>d. bs_done st = Some d \<longrightarrow> on_hour d" using assms s by (auto simp: progress_ok_def)
    note due = due_hours [OF al, of now]
    have l: "last hs = latest_hour now" using h due(3) by blast
    have S: "set hs = {h. on_hour h \<and> (\<forall>d. bs_done st = Some d \<longrightarrow> d < h) \<and> latest_hour now - 23 * us_per_hour \<le> h \<and> h \<le> latest_hour now}"
      using h due(1) by simp
    have below: "\<forall>x \<in> set (map fst lg). \<forall>h \<in> set hs. x < h"
      using assms s S unfolding progress_ok_def by (cases "bs_done st") force+
    have sorted: "sorted_wrt (<) (map fst lg @ hs)"
      using assms s h due(2) below by (auto simp: progress_ok_def sorted_wrt_append)
    have settled: "h + us_per_hour + BASELINE_SETTLE_SECONDS * us_per_second \<le> now" if "h \<in> set hs" for h
      using that S latest_settled [of now] by force
    have low: "x \<le> latest_hour now" if "x \<in> set (map fst lg)" for x
    proof -
      have "latest_hour now \<in> set hs" using h l last_in_set [of hs] by metis
      with below that show ?thesis by fastforce
    qed
    have old: "x \<in> set (map fst lg)" if "on_hour x" "latest_hour now - 23 * us_per_hour \<le> x" "x \<le> latest_hour now" "x \<notin> set hs" for x
    proof -
      from that S obtain d where d: "bs_done st = Some d" "x \<le> d" by force
      have "latest_hour now \<in> set hs" using h l last_in_set [of hs] by metis
      with S d have "d < latest_hour now" by simp
      with that d assms s show ?thesis by (auto simp: progress_ok_def)
    qed
    show ?thesis
      unfolding p progress_ok_def using assms s h l sorted settled low old S aligned_latest [of now]
      by (auto simp: progress_ok_def o_def)
  qed
qed

interpretation baseline_passes: step_system pass_step progress_ok
  by unfold_locales (rule pass_ok)

text \<open>C20. Whatever instances run the baseline pass, whenever they run and whatever they remember, with failing queries and
  restarts in between: no hour is folded in twice, none before it is complete and its last messages are written,
  and none of the last day is left out.\<close>

theorem hours_folded_once:
  assumes "fold pass_step passes ([], \<lparr>bs_rows = rows, bs_done = None\<rparr>) = (lg, st)"
  shows "sorted_wrt (<) (map fst lg) \<and>
    (\<forall>(h, now) \<in> set lg. h + us_per_hour + BASELINE_SETTLE_SECONDS * us_per_second \<le> now) \<and>
    (\<forall>d. bs_done st = Some d \<longrightarrow> (\<forall>h. on_hour h \<and> d - 23 * us_per_hour \<le> h \<and> h \<le> d \<longrightarrow> h \<in> set (map fst lg)))"
proof -
  have "progress_ok ([], \<lparr>bs_rows = rows, bs_done = None\<rparr>)" by (simp add: progress_ok_def)
  from baseline_passes.run_good [OF this, of passes] assms have "progress_ok (lg, st)" by simp
  then show ?thesis by (auto simp: progress_ok_def)
qed

text \<open>A pass whose query fails, and one that folds in the day before the hundred and first hour.\<close>

definition two_passes :: "baseline_pass list" where
  "two_passes =
     [(\<lambda>_ _. Inl (RuntimeError []), 101 * us_per_hour + 300 * us_per_second, Some 0),
      (\<lambda>_ _. Inr [(''10.0.0.1'', 100 * us_per_hour, 7)], 102 * us_per_hour + 300 * us_per_second, None)]"

lemma first_pass:
  "\<exists>rows'. pass_step (\<lambda>_ _. Inr counts, now, None) ([], \<lparr>bs_rows = rows, bs_done = None\<rparr>) =
     (map (\<lambda>h. (h, now)) (baseline_hours_due None now), \<lparr>bs_rows = rows', bs_done = Some (latest_hour now)\<rparr>)"
proof -
  have "latest_hour now \<in> set (baseline_hours_due None now)" using due_hours(1) [of None now] aligned_latest [of now] by simp
  then have "baseline_hours_due None now \<noteq> []" by auto
  with due_hours(3) [of None now] show ?thesis by (auto simp: pass_step_def compute_baselines_def Let_def)
qed

theorem hours_folded_once_witness:
  "\<exists>lg st. fold pass_step two_passes ([], \<lparr>bs_rows = [], bs_done = None\<rparr>) = (lg, st) \<and>
     bs_done st = Some (101 * us_per_hour) \<and> sorted_wrt (<) (map fst lg) \<and> 78 * us_per_hour \<in> set (map fst lg) \<and> 101 * us_per_hour \<in> set (map fst lg)"
proof -
  let ?now = "102 * us_per_hour + 300 * us_per_second"
  have fails: "pass_step (\<lambda>_ _. Inl (RuntimeError []), 101 * us_per_hour + 300 * us_per_second, Some 0) ([], \<lparr>bs_rows = [], bs_done = None\<rparr>) =
    ([], \<lparr>bs_rows = [], bs_done = None\<rparr>)"
    by (simp add: pass_step_def compute_baselines_def Let_def)
  obtain lg st where r: "fold pass_step two_passes ([], \<lparr>bs_rows = [], bs_done = None\<rparr>) = (lg, st)" "bs_done st = Some (latest_hour ?now)"
    using first_pass [of "[(''10.0.0.1'', 100 * us_per_hour, 7)]" ?now "[]"] fails by (auto simp: two_passes_def)
  have l: "latest_hour ?now = 101 * us_per_hour" by (simp add: latest_hour_def floor_hour_def BASELINE_SETTLE_SECONDS_def)
  from hours_folded_once [OF r(1)] r(2) l have "sorted_wrt (<) (map fst lg)"
    "78 * us_per_hour \<in> set (map fst lg)" "101 * us_per_hour \<in> set (map fst lg)"
    by (simp_all add: on_hour_def)
  with r l show ?thesis by auto
qed

section \<open>The first samples\<close>

definition mean :: "real list \<Rightarrow> real" where
  "mean xs = sum_list xs / real (length xs)"

definition variance :: "real list \<Rightarrow> real" where
  "variance xs = sum_list (map (\<lambda>x. (x - mean xs)\<^sup>2) xs) / real (length xs)"

lemma variance_moments:
  assumes "xs \<noteq> []"
  shows "variance xs = sum_list (map (\<lambda>x. x\<^sup>2) xs) / real (length xs) - (mean xs)\<^sup>2"
proof -
  have "sum_list (map (\<lambda>x. (x - m)\<^sup>2) xs) = sum_list (map (\<lambda>x. x\<^sup>2) xs) - 2 * m * sum_list xs + real (length xs) * m\<^sup>2" for m
    by (induction xs) (simp_all add: power2_eq_square algebra_simps)
  from this [of "mean xs"] assms show ?thesis
    by (simp add: variance_def mean_def field_simps power2_eq_square)
qed

lemma mean_step: "0 < (n :: real) \<Longrightarrow> S / n + 1 / (n + 1) * (x - S / n) = (S + x) / (n + 1)"
  by (simp add: divide_simps) algebra

lemma variance_step:
  "0 < (n :: real) \<Longrightarrow>
   (1 - 1 / (n + 1)) * ((Q / n - (S / n)\<^sup>2) + 1 / (n + 1) * (x - S / n) * (x - S / n)) = (Q + x\<^sup>2) / (n + 1) - ((S + x) / (n + 1))\<^sup>2"
  by (simp add: divide_simps power2_eq_square) algebra

lemma ewma_exact:
  assumes "length xs < 5"
  shows "ewma_update (mean xs) (variance xs) (int (length xs)) x = (mean (xs @ [x]), variance (xs @ [x]), int (length (xs @ [x])))"
proof -
  let ?n = "real (length xs)"
  have a: "max (1 / real_of_int (int (length xs) + 1)) BASELINE_ALPHA_MIN = 1 / (?n + 1)"
    using assms by (simp add: BASELINE_ALPHA_MIN_def field_simps max_def)
  have m: "mean xs + 1 / (?n + 1) * (x - mean xs) = mean (xs @ [x])"
  proof (cases "xs = []")
    case False
    define S where "S = sum_list xs"
    have "?n > 0" using False by simp
    from mean_step [OF this, of S x] show ?thesis by (simp add: mean_def S_def add.commute)
  qed (simp add: mean_def)
  have v: "(1 - 1 / (?n + 1)) * (variance xs + 1 / (?n + 1) * (x - mean xs) * (x - mean xs)) = variance (xs @ [x])"
  proof (cases "xs = []")
    case True
    then show ?thesis by (simp add: variance_def mean_def)
  next
    case False
    define S where "S = sum_list xs"
    define Q where "Q = sum_list (map (\<lambda>x. x\<^sup>2) xs)"
    have n: "?n > 0" using False by simp
    have vm: "variance xs = Q / ?n - (S / ?n)\<^sup>2" "mean xs = S / ?n"
      using variance_moments [OF False] by (simp_all add: mean_def S_def Q_def)
    have "variance (xs @ [x]) = (Q + x\<^sup>2) / (?n + 1) - ((S + x) / (?n + 1))\<^sup>2"
      using variance_moments [of "xs @ [x]"] by (simp add: mean_def S_def Q_def add.commute)
    then show ?thesis unfolding vm variance_step [OF n] by simp
  qed
  show ?thesis unfolding ewma_update_def Let_def a m v by simp
qed

lemma variance_nonneg: "0 \<le> variance xs"
  unfolding variance_def by (intro divide_nonneg_nonneg sum_list_nonneg) auto

definition samples_row :: "datetime \<Rightarrow> real list \<Rightarrow> slot \<Rightarrow> (slot, baseline) dict \<Rightarrow> (slot, baseline) dict" where
  "samples_row now xs k rows = fold (\<lambda>x. fold_sample now x k) xs rows"

text \<open>A slot that has seen at most five samples holds their exact mean, the exact standard deviation and their number,
  although every sample goes through the stored, weighted estimate; other slots are untouched.\<close>

theorem first_samples_exact:
  assumes "xs \<noteq> []" and "length xs \<le> 5" and "dget rows k = None"
  shows "\<exists>b. dget (samples_row now xs k rows) k = Some b \<and> bl_avg b = mean xs \<and> bl_std b = sqrt (variance xs) \<and> bl_n b = int (length xs) \<and>
    (\<forall>k'. k' \<noteq> k \<longrightarrow> dget (samples_row now xs k rows) k' = dget rows k')"
  using assms
proof (induction xs rule: rev_induct)
  case (snoc x xs)
  let ?rows = "samples_row now xs k rows"
  have step: "samples_row now (xs @ [x]) k rows = fold_sample now x k ?rows" by (simp add: samples_row_def)
  obtain b where b: "dget_or ?rows k (empty_baseline now) = b" "bl_avg b = mean xs" "bl_std b = sqrt (variance xs)" "bl_n b = int (length xs)"
    and other: "\<forall>k'. k' \<noteq> k \<longrightarrow> dget ?rows k' = dget rows k'"
  proof (cases "xs = []")
    case True
    then show thesis
      using that snoc.prems(3) by (simp add: samples_row_def dget_or_def empty_baseline_def mean_def variance_def)
  next
    case False
    with snoc obtain c where "dget ?rows k = Some c" "bl_avg c = mean xs" "bl_std c = sqrt (variance xs)" "bl_n c = int (length xs)"
      "\<forall>k'. k' \<noteq> k \<longrightarrow> dget ?rows k' = dget rows k'" by auto
    then show thesis using that by (simp add: dget_or_def)
  qed
  have "ewma_update (bl_avg b) ((bl_std b)\<^sup>2) (bl_n b) x = (mean (xs @ [x]), variance (xs @ [x]), int (length (xs @ [x])))"
    using ewma_exact [of xs x] snoc.prems(2) b by (simp add: variance_nonneg)
  then show ?case
    using other b(1) unfolding step fold_sample_def Let_def by (simp add: dict_simps)
qed simp

theorem first_samples_exact_witness:
  "\<exists>b. dget (samples_row 0 [10, 14, 12] (''10.0.0.1'', 3, 7) []) (''10.0.0.1'', 3, 7) = Some b \<and> bl_avg b = 12 \<and> (bl_std b)\<^sup>2 = 8 / 3 \<and> bl_n b = 3"
  using first_samples_exact [of "[10, 14, 12]" "[]" "(''10.0.0.1'', 3, 7)" 0]
  by (auto simp: mean_def variance_def power2_eq_square)

section \<open>Samples counted twice\<close>

text \<open>The diversity pass runs every fifteen minutes and counts a sample for the slots of a host although it adds no
  rate. After three passes in one hour a new host has a baseline that counts as learned and expects no messages at
  all, so that any message is reported as a spike.\<close>

lemma slots_differ: "weekday_of t \<noteq> BASELINE_ANY_DAY"
proof -
  have "weekday_of t < 7" by (simp add: weekday_of_def weekday_def)
  then show ?thesis by (simp add: BASELINE_ANY_DAY_def)
qed

lemma dget_add_missing: "dget (add_missing now k rows) k' = (if k' = k then Some (dget_or rows k (empty_baseline now)) else dget rows k')"
  by (auto simp: add_missing_def dict_simps dget_or_def)

lemma dget_or_add_missing:
  "dget_or (add_missing now k rows) k' x = (if k' = k then dget_or rows k (empty_baseline now) else dget_or rows k' x)"
  unfolding dget_or_def [of "add_missing now k rows"] dget_add_missing by (simp add: dget_or_def)

lemma dget_map_filter:
  "dget (List.map_filter (\<lambda>k. map_option (\<lambda>b. (k, b)) (f k)) ks) k = (if k \<in> set ks then f k else None)"
  by (induction ks) (auto simp: List.map_filter_def dget_Cons split: option.splits)

lemma dget_count_sample:
  "dget (count_sample now k rows) k' = (if k' = k then map_option (\<lambda>b. b\<lparr>bl_n := bl_n b + 1, bl_updated := now\<rparr>) (dget rows k) else dget rows k')"
  by (auto simp: count_sample_def dict_simps split: option.splits)

definition rate_part :: "baseline \<Rightarrow> real \<times> real \<times> int" where
  "rate_part b = (bl_avg b, bl_std b, bl_n b)"

lemma dget_fold_diversity: "map_option rate_part (dget (fold_diversity d k rows) k') = map_option rate_part (dget rows k')"
  by (auto simp: fold_diversity_def dict_simps rate_part_def Let_def split: option.splits)

text \<open>One pass for a host: a sample more in both slots, the rate as it was.\<close>

lemma diversity_pass:
  assumes "k \<in> set (source_slots now ''host:7'')"
  shows "map_option rate_part (dget (compute_template_diversity now [(''host:7'', d)] rows) k) =
    (case rate_part (dget_or rows k (empty_baseline now)) of (avg, std, n) \<Rightarrow> Some (avg, std, n + 1))"
proof -
  have h: "startswith ''host:7'' ''host:''" by code_simp
  have "map_option rate_part (dget (compute_template_diversity now [(''host:7'', d)] rows) k) =
    map_option rate_part (dget (host_slots now ''host:7'' rows) k)"
    by (simp add: compute_template_diversity_def source_slots_def dget_fold_diversity)
  also have "\<dots> = (case rate_part (dget_or rows k (empty_baseline now)) of (avg, std, n) \<Rightarrow> Some (avg, std, n + 1))"
    using assms slots_differ [of now] unfolding host_slots_def if_P [OF h]
    by (auto simp: source_slots_def dget_count_sample dget_add_missing dget_or_add_missing rate_part_def)
  finally show ?thesis .
qed

theorem diversity_makes_false_spike:
  assumes "cnt > 0"
  shows "(''host:7'', Rate_spike) \<in> set (detect_baseline_anomalies
    ((compute_template_diversity now [(''host:7'', d)] ^^ 3) []) [(''host:7'', cnt)] now)"
proof -
  let ?p = "compute_template_diversity now [(''host:7'', d)]" and ?k = "(''host:7'', hour_of now, weekday_of now)"
  have k: "?k \<in> set (source_slots now ''host:7'')" by (simp add: source_slots_def)
  have step: "map_option rate_part (dget (?p rows) ?k) = Some (0, 0, n + 1)"
    if "rate_part (dget_or rows ?k (empty_baseline now)) = (0, 0, n)" for rows n
    using diversity_pass [OF k, of d rows] that by simp
  have more: "rate_part (dget_or (?p rows) ?k (empty_baseline now)) = (0, 0, n + 1)"
    if "rate_part (dget_or rows ?k (empty_baseline now)) = (0, 0, n)" for rows n
    using step [OF that] by (auto simp: dget_or_def)
  have "rate_part (dget_or [] ?k (empty_baseline now)) = (0, 0, 0)" by (simp add: dget_or_def empty_baseline_def rate_part_def)
  from step [OF more [OF more [OF this]]] have "map_option rate_part (dget ((?p ^^ 3) []) ?k) = Some (0, 0, 3)"
    by (simp add: numeral_3_eq_3)
  then obtain b where b: "dget ((?p ^^ 3) []) ?k = Some b" "bl_avg b = 0" "bl_std b = 0" "bl_n b = 3" by (auto simp: rate_part_def)
  then have e: "effective_baseline False ((?p ^^ 3) []) now ''host:7'' = Some b"
    by (simp add: effective_baseline_def slot_row_def pick_baseline_def usable_def BASELINE_MIN_SAMPLES_def)
  have "?k \<in> set (dkeys ((?p ^^ 3) []))" using b(1) dget_eq_None_iff [of "(?p ^^ 3) []" ?k] by auto
  then have m: "''host:7'' \<in> set (map (\<lambda>((x, _, _), _). x) ((?p ^^ 3) []))" by (force simp: dkeys_def)
  have l: "dget (load_effective_baselines False ((?p ^^ 3) []) now) ''host:7'' = Some b"
    using m e by (simp add: load_effective_baselines_def dget_map_filter)
  have "spike_score b cnt = Some 5" using b assms by (simp add: spike_score_def)
  with l show ?thesis by (auto simp: detect_baseline_anomalies_def Let_def List.map_filter_def)
qed

theorem diversity_makes_false_spike_witness:
  "(''host:7'', Rate_spike) \<in> set (detect_baseline_anomalies
    ((compute_template_diversity 0 [(''host:7'', 4)] ^^ 3) []) [(''host:7'', 1)] 0)"
  by (rule diversity_makes_false_spike) simp

end
