(* ===== verification/Log_Templates.thy ===== *)
theory Log_Templates
  imports Interfaces
begin

text \<open>
  Log templates of a tenant (\<^verbatim>\<open>backend/services/log_intelligence.py\<close>): what every message does to the in-process state
  (counts, new templates, bursts), the periodic flush that writes them while messages keep arriving, the noise score,
  trends and retention. The extraction of a template with its hash and the tags of a message are arguments.
\<close>

section \<open>State\<close>

record tpl_state =
  ts_cache :: "(string, int) dict"
  ts_counts :: "(string, int) dict"
  ts_new :: "(string, string \<times> string \<times> string list) dict"
  ts_bursts :: "(string, int list) dict"
  ts_active :: "string list"
  ts_cleanup :: int

definition new_state :: tpl_state where
  "new_state = \<lparr>ts_cache = [], ts_counts = [], ts_new = [], ts_bursts = [], ts_active = [], ts_cleanup = 0\<rparr>"

definition BURST_WINDOW :: int where "BURST_WINDOW = 300"
definition BURST_THRESHOLD :: nat where "BURST_THRESHOLD = 50"
definition BURST_CLEANUP_INTERVAL :: int where "BURST_CLEANUP_INTERVAL = 600"
definition BURST_MAXLEN :: nat where "BURST_MAXLEN = 200"

text \<open>A \<^verbatim>\<open>deque(maxlen=200)\<close> drops from the left when it is full.\<close>

definition deque_append :: "int list \<Rightarrow> int \<Rightarrow> int list" where
  "deque_append dq t = (let dq' = dq @ [t] in drop (length dq' - BURST_MAXLEN) dq')"

definition burst_cleanup :: "int \<Rightarrow> tpl_state \<Rightarrow> tpl_state" where
  "burst_cleanup now st =
     (if now - ts_cleanup st > BURST_CLEANUP_INTERVAL then
        (let stale = map fst (filter (\<lambda>(_, v). v = [] \<or> last v < now - BURST_WINDOW) (ts_bursts st)) in
         st\<lparr>ts_cleanup := now, ts_bursts := filter (\<lambda>(k, _). k \<notin> set stale) (ts_bursts st),
            ts_active := filter (\<lambda>k. k \<notin> set stale) (ts_active st)\<rparr>)
      else st)"

definition check_burst :: "tpl_state \<Rightarrow> string \<Rightarrow> int \<Rightarrow> bool \<times> tpl_state" where
  "check_burst st h now =
     (let dq = dropWhile (\<lambda>t. t < now - BURST_WINDOW) (deque_append (dget_or (ts_bursts st) h []) now);
          st1 = st\<lparr>ts_bursts := dset (ts_bursts st) h dq\<rparr>
      in if length dq \<ge> BURST_THRESHOLD \<and> h \<notin> set (ts_active st) then (True, st1\<lparr>ts_active := h # ts_active st\<rparr>)
         else if length dq < BURST_THRESHOLD \<and> h \<in> set (ts_active st) \<and> length dq < BURST_THRESHOLD div 2
         then (False, burst_cleanup now (st1\<lparr>ts_active := removeAll h (ts_active st)\<rparr>))
         else (False, burst_cleanup now st1))"

definition get_active_bursts :: "tpl_state \<Rightarrow> int \<Rightarrow> (string \<times> nat) list \<times> tpl_state" where
  "get_active_bursts st now =
     (let count = (\<lambda>h. length (filter (\<lambda>t. t \<ge> now - BURST_WINDOW) (dget_or (ts_bursts st) h [])));
          known = filter (\<lambda>h. dget_or (ts_bursts st) h [] \<noteq> []) (ts_active st);
          over = filter (\<lambda>h. count h \<ge> BURST_THRESHOLD div 2) known
      in (map (\<lambda>h. (h, count h)) over,
          st\<lparr>ts_active := filter (\<lambda>h. h \<notin> set known \<or> h \<in> set over) (ts_active st)\<rparr>))"

record mined =
  mi_template :: string
  mi_hash :: string
  mi_tags :: "string list"

record message_verdict =
  ve_new :: bool
  ve_noise :: int
  ve_burst :: bool

definition quick_noise :: "bool \<Rightarrow> bool \<Rightarrow> bool \<Rightarrow> int \<Rightarrow> int option \<Rightarrow> int" where
  "quick_noise is_new is_burst cached count severity =
     (let noise = (if is_new then 10 else if is_burst then 85 else if cached \<and> count > 100 then 80 else 50) in
      case severity of None \<Rightarrow> noise | Some s \<Rightarrow> if s \<le> 3 then max 0 (noise - 20) else noise)"

definition process_message :: "mined \<Rightarrow> string \<Rightarrow> int option \<Rightarrow> int \<Rightarrow> tpl_state \<Rightarrow> message_verdict \<times> tpl_state" where
  "process_message m message severity now st =
     (let h = mi_hash m; is_new = (dget (ts_cache st) h = None \<and> dget (ts_new st) h = None);
          st1 = st\<lparr>ts_counts := dset (ts_counts st) h (dget_or (ts_counts st) h 0 + 1),
                   ts_new := (if is_new then dset (ts_new st) h (mi_template m, message, mi_tags m) else ts_new st)\<rparr>;
          st2 = snd (check_burst st1 h now); is_burst = (h \<in> set (ts_active st2))
      in (\<lparr>ve_new = is_new, ve_noise = quick_noise is_new is_burst (dget (ts_cache st2) h \<noteq> None) (dget_or (ts_counts st2) h 0) severity,
           ve_burst = is_burst\<rparr>, st2))"

section \<open>Flush\<close>

record tpl_row =
  tr_id :: int
  tr_template :: string
  tr_example :: string
  tr_count :: int
  tr_first :: datetime
  tr_last :: datetime
  tr_tags :: string
  tr_noise :: int

type_synonym tpl_table = "(string, tpl_row) dict"

type_synonym flush_batch = "(string, int) dict \<times> (string, string \<times> string \<times> string list) dict"

definition upsert_new :: "datetime \<Rightarrow> (string, int) dict \<Rightarrow> string \<times> string \<times> string \<times> string list \<Rightarrow> int \<times> tpl_table \<Rightarrow> int \<times> tpl_table" where
  "upsert_new now counts n s =
     (case (n, s) of ((h, template, example, tags), (next_id, table)) \<Rightarrow>
        (case dget table h of
           None \<Rightarrow> (next_id + 1, dset table h \<lparr>tr_id = next_id, tr_template = template, tr_example = example, tr_count = dget_or counts h 1,
                     tr_first = now, tr_last = now, tr_tags = text_take 256 (join '','' tags), tr_noise = 10\<rparr>)
         | Some r \<Rightarrow> (next_id, dset table h (r\<lparr>tr_count := tr_count r + dget_or counts h 1, tr_last := max (tr_last r) now\<rparr>))))"

definition update_known :: "datetime \<Rightarrow> string \<times> int \<Rightarrow> tpl_table \<Rightarrow> tpl_table" where
  "update_known now hc table =
     (case dget table (fst hc) of None \<Rightarrow> table
      | Some r \<Rightarrow> dset table (fst hc) (r\<lparr>tr_count := tr_count r + snd hc, tr_last := now\<rparr>))"

definition write_template_batch :: "datetime \<Rightarrow> flush_batch \<Rightarrow> int \<times> tpl_table \<Rightarrow> int \<times> tpl_table" where
  "write_template_batch now b s =
     (let (next_id, table) = fold (upsert_new now (fst b)) (snd b) s in
      (next_id, fold (update_known now) (filter (\<lambda>(h, _). dget (snd b) h = None) (fst b)) table))"

text \<open>The ids of the new templates go into the cache as the rows are written, before the commit.\<close>

definition cache_ids :: "tpl_table \<Rightarrow> string list \<Rightarrow> (string, int) dict \<Rightarrow> (string, int) dict" where
  "cache_ids table hashes cache = fold (\<lambda>h c. case dget table h of None \<Rightarrow> c | Some r \<Rightarrow> dset c h (tr_id r)) hashes cache"

definition add_back :: "(string, int) dict \<Rightarrow> (string, int) dict \<Rightarrow> (string, int) dict" where
  "add_back counts pending = fold (\<lambda>(h, c) d. dset d h (dget_or d h 0 + c)) counts pending"

definition set_missing :: "('k, 'v) dict \<Rightarrow> ('k, 'v) dict \<Rightarrow> ('k, 'v) dict" where
  "set_missing xs d = fold (\<lambda>(k, v) d. if dget d k = None then dset d k v else d) xs d"

text \<open>
  One tenant: the in-process state, the table with its next id, and the flush that is under way. \<open>templates_take\<close> is
  \<open>flush_templates\<close> up to its first await, \<open>templates_done\<close> the rest: committed, or failed after the ids of some of the new
  templates were cached.
\<close>

record tenant_logs =
  tl_state :: tpl_state
  tl_next :: int
  tl_table :: tpl_table
  tl_flight :: "flush_batch option"

definition templates_take :: "tenant_logs \<Rightarrow> tenant_logs" where
  "templates_take t =
     (let st = tl_state t in
      if tl_flight t \<noteq> None \<or> ts_counts st = [] \<and> ts_new st = [] then t
      else t\<lparr>tl_flight := Some (ts_counts st, ts_new st), tl_state := st\<lparr>ts_counts := [], ts_new := []\<rparr>\<rparr>)"

definition templates_done :: "datetime \<Rightarrow> string list option \<Rightarrow> tenant_logs \<Rightarrow> tenant_logs" where
  "templates_done now failed t =
     (case tl_flight t of
        None \<Rightarrow> t
      | Some (counts, new_tpls) \<Rightarrow>
          (let st = tl_state t; (next_id, table) = write_template_batch now (counts, new_tpls) (tl_next t, tl_table t) in
           case failed of
             None \<Rightarrow> t\<lparr>tl_flight := None, tl_next := next_id, tl_table := table,
                       tl_state := st\<lparr>ts_cache := cache_ids table (dkeys new_tpls) (ts_cache st)\<rparr>\<rparr>
           | Some cached \<Rightarrow> t\<lparr>tl_flight := None,
                       tl_state := st\<lparr>ts_cache := cache_ids table (filter (\<lambda>h. h \<in> set (dkeys new_tpls)) cached) (ts_cache st),
                                      ts_counts := add_back counts (ts_counts st), ts_new := set_missing new_tpls (ts_new st)\<rparr>\<rparr>))"

definition load_template_cache :: "tenant_logs \<Rightarrow> tenant_logs" where
  "load_template_cache t = t\<lparr>tl_state := (tl_state t)\<lparr>ts_cache := map (\<lambda>(h, r). (h, tr_id r)) (tl_table t)\<rparr>\<rparr>"

text \<open>\<open>cleanup_log_templates\<close>; \<open>protected\<close> are the templates of learned precursors.\<close>

definition expired :: "datetime \<Rightarrow> int \<Rightarrow> int \<Rightarrow> tpl_row \<Rightarrow> bool" where
  "expired now retention_days singleton_days r \<longleftrightarrow>
     tr_last r < now - days retention_days \<or> singleton_days > 0 \<and> tr_count r \<le> 1 \<and> tr_last r < now - days singleton_days"

definition cleanup_log_templates :: "datetime \<Rightarrow> int \<Rightarrow> int \<Rightarrow> int list \<Rightarrow> tpl_table \<Rightarrow> tpl_table" where
  "cleanup_log_templates now retention_days singleton_days protected table =
     (if retention_days \<le> 0 then table
      else filter (\<lambda>(_, r). \<not> (expired now retention_days singleton_days r \<and> tr_id r \<notin> set protected)) table)"

section \<open>Scores\<close>

text \<open>\<open>compute_noise_score\<close> adds up what speaks for and against noise and stays within a percentage.\<close>

definition rate_points :: "rat \<Rightarrow> int" where
  "rate_points rate = (if rate > 100 then 30 else if rate > 50 then 20 else if rate > 10 then 10 else if rate < 1 then - 10 else 0)"

definition severity_points :: "int option \<Rightarrow> int" where
  "severity_points severity = (case severity of
     None \<Rightarrow> 0
   | Some s \<Rightarrow> if s \<le> 2 then - 30 else if s = 3 then - 15 else if s = 4 then - 5 else if s \<ge> 6 then 10 else 0)"

definition tag_points :: "string list \<Rightarrow> int" where
  "tag_points tags =
     (if list_ex (\<lambda>t. t \<in> set tags) [''security'', ''hardware'', ''kernel''] then - 15 else 0)
     + (if ''database'' \<in> set tags then - 10 else 0)
     + (if ''service'' \<in> set tags \<and> \<not> list_ex (contains ''started'') tags then - 5 else 0)
     + (if ''cron'' \<in> set tags then 5 else 0)
     + (if length tags \<ge> 3 then - 10 else 0)"

definition age_points :: "rat \<Rightarrow> int" where
  "age_points age_hours = (if age_hours < 1 then - 25 else if age_hours < 24 then - 10 else 0)"

definition hours_between :: "datetime \<Rightarrow> datetime \<Rightarrow> rat" where
  "hours_between a b = total_seconds (b - a) / 3600"

definition compute_noise_score :: "int \<Rightarrow> rat \<Rightarrow> datetime \<Rightarrow> datetime \<Rightarrow> int option \<Rightarrow> string list \<Rightarrow> bool \<Rightarrow> int" where
  "compute_noise_score count hours_active first_seen now severity tags is_precursor =
     max 0 (min 100 (50 + rate_points (of_int count / max hours_active (1 / 10)) + severity_points severity
       + (if tags = [] then 0 else tag_points tags) + age_points (hours_between first_seen now) + (if is_precursor then - 30 else 0)))"

text \<open>\<open>refresh_noise_scores\<close>: the rows whose score or rate changed, with the new values.\<close>

definition refresh_noise_row :: "datetime \<Rightarrow> int list \<Rightarrow> tpl_row \<Rightarrow> rat \<Rightarrow> (int \<times> int \<times> rat) option" where
  "refresh_noise_row now precursor_ids r old_rate =
     (let hours = max (1 / 10) (hours_between (tr_first r) now);
          score = compute_noise_score (tr_count r) hours (tr_first r) now None (if tr_tags r = [] then [] else split_on CHR '','' (tr_tags r)) (tr_id r \<in> set precursor_ids);
          rate = of_int (tr_count r) / hours
      in if score = tr_noise r \<and> \<bar>rate - old_rate\<bar> < 1 / 100 then None else Some (tr_id r, score, rate))"

text \<open>\<open>trend_from_counts\<close>: the slope of the least-squares line, relative to the mean.\<close>

definition slope :: "int list \<Rightarrow> rat" where
  "slope counts =
     (let n = int (length counts); xs = [0..n - 1]; sum_x = sum_list xs; sum_y = sum_list counts;
          sum_xy = sum_list (map (\<lambda>(x, y). x * y) (zip xs counts)); sum_xx = sum_list (map (\<lambda>x. x * x) xs);
          denom = n * sum_xx - sum_x * sum_x
      in if denom = 0 then 0 else of_int (n * sum_xy - sum_x * sum_y) / of_int denom)"

definition trend_from_counts :: "int list \<Rightarrow> string \<times> rat" where
  "trend_from_counts counts =
     (let avg = (if counts = [] then 1 else of_int (sum_list counts) / of_nat (length counts)); rel = slope counts / max avg 1 in
      (if rel > 5 / 100 then ''rising'' else if rel < - 5 / 100 then ''falling'' else ''stable'', rel))"

section \<open>No message is lost from the counts\<close>

datatype log_event = Message mined string "int option" int | Take | Done datetime "string list option"

fun logs_step :: "log_event \<Rightarrow> tenant_logs \<Rightarrow> tenant_logs" where
  "logs_step (Message m message severity now) t = t\<lparr>tl_state := snd (process_message m message severity now (tl_state t))\<rparr>"
| "logs_step Take t = templates_take t"
| "logs_step (Done now failed) t = templates_done now failed t"

definition tcount :: "tpl_table \<Rightarrow> string \<Rightarrow> int" where
  "tcount table h = (case dget table h of None \<Rightarrow> 0 | Some r \<Rightarrow> tr_count r)"

definition has :: "('k, 'v) dict \<Rightarrow> 'k \<Rightarrow> bool" where
  "has d k \<longleftrightarrow> dget d k \<noteq> None"

lemma has_simps [simp]:
  "\<not> has [] k" "has ((k', v) # d) k \<longleftrightarrow> k' = k \<or> has d k" "has (dset d k' v) k \<longleftrightarrow> k = k' \<or> has d k" "dget_or [] k x = x"
  by (simp_all add: has_def dget_Cons dict_simps dget_or_def)

lemma not_has: "dget d k = None \<longleftrightarrow> \<not> has d k"
  by (simp add: has_def)

lemma hasD: "has d k \<Longrightarrow> \<exists>v. dget d k = Some v"
  by (simp add: has_def)

lemma has_dkeys: "k \<in> set (dkeys d) \<longleftrightarrow> has d k"
  by (simp add: has_def dget_eq_None_iff)

lemma dget_or_absent: "\<not> has d k \<Longrightarrow> dget_or d k x = x"
  by (simp add: has_def dget_or_def)

lemma dget_or_Cons: "dget_or ((k', v) # d) k x = (if k' = k then v else dget_or d k x)"
  by (simp add: dget_or_def dget_Cons)

lemma dict_ok_Cons: "dict_ok ((k, v) # d) \<longleftrightarrow> \<not> has d k \<and> dict_ok d"
  by (simp add: dict_ok_def dkeys_def has_def dget_eq_None_iff)


lemma upsert_effect:
  assumes "upsert_new now c (h, x) (n, tb) = (n', tb')"
  shows "tcount tb' h' = tcount tb h' + (if h' = h then dget_or c h 1 else 0)" and "has tb' h' \<longleftrightarrow> has tb h' \<or> h' = h"
  using assms by (auto simp: upsert_new_def tcount_def has_def dict_simps split: option.splits prod.splits)

lemma upserts_effect:
  "dict_ok nw \<Longrightarrow> fold (upsert_new now c) nw (n, tb) = (n', tb') \<Longrightarrow>
   tcount tb' h = tcount tb h + (if has nw h then dget_or c h 1 else 0) \<and> (has tb' h \<longleftrightarrow> has tb h \<or> has nw h)"
proof (induction nw arbitrary: n tb)
  case (Cons x nw)
  obtain k v where x: "x = (k, v)" by (cases x)
  obtain n1 tb1 where u: "upsert_new now c (k, v) (n, tb) = (n1, tb1)" by fastforce
  from Cons.IH [of n1 tb1] Cons.prems x u upsert_effect [OF u, of h] show ?case
    by (auto simp: dict_ok_Cons)
qed simp

lemma update_effect:
  "tcount (update_known now (k, c) tb) h = tcount tb h + (if h = k \<and> has tb k then c else 0)" "has (update_known now (k, c) tb) h \<longleftrightarrow> has tb h"
  by (auto simp: update_known_def tcount_def has_def dict_simps split: option.splits)

lemma updates_effect:
  "dict_ok xs \<Longrightarrow> tcount (fold (update_known now) xs tb) h = tcount tb h + (if has tb h then dget_or xs h 0 else 0) \<and>
    (has (fold (update_known now) xs tb) h \<longleftrightarrow> has tb h)"
proof (induction xs arbitrary: tb)
  case (Cons x xs)
  obtain k v where x: "x = (k, v)" by (cases x)
  from Cons.IH [of "update_known now (k, v) tb"] Cons.prems x show ?case
    by (auto simp: update_effect dict_ok_Cons dget_or_Cons dget_or_absent)
qed simp

lemma write_effect:
  assumes "dict_ok c" "dict_ok nw" "\<And>h. has nw h \<Longrightarrow> has c h" "\<And>h. has c h \<Longrightarrow> has nw h \<or> has tb h"
    and "write_template_batch now (c, nw) (n, tb) = (n', tb')"
  shows "tcount tb' h = tcount tb h + dget_or c h 0" and "has tb' h \<longleftrightarrow> has tb h \<or> has nw h"
proof -
  let ?known = "filter (\<lambda>(h, _). dget nw h = None) c"
  obtain n1 tb1 where u: "fold (upsert_new now c) nw (n, tb) = (n1, tb1)" by fastforce
  have tb': "tb' = fold (update_known now) ?known tb1" using assms(5) u by (simp add: write_template_batch_def)
  note e = upserts_effect [OF assms(2) u, of h] and f = updates_effect [OF dict_ok_filter [OF assms(1)], of now "\<lambda>(h, _). dget nw h = None" tb1 h]
  have k: "dget_or ?known h 0 = (if has nw h then 0 else dget_or c h 0)" by (simp add: dget_or_def dget_filter not_has)
  have d: "dget_or c h 1 = dget_or c h 0" if "has c h" using hasD [OF that] by (auto simp: dget_or_def)
  show "tcount tb' h = tcount tb h + dget_or c h 0" "has tb' h \<longleftrightarrow> has tb h \<or> has nw h"
    using f e k d assms(3,4) [of h] dget_or_absent [of c h 0] unfolding tb' by auto
qed

lemma add_back_effect:
  "dict_ok c \<Longrightarrow> dget_or (add_back c p) h 0 = dget_or p h 0 + dget_or c h 0 \<and> (has (add_back c p) h \<longleftrightarrow> has p h \<or> has c h) \<and> (dict_ok p \<longrightarrow> dict_ok (add_back c p))"
proof (induction c arbitrary: p)
  case (Cons x c)
  obtain k v where x: "x = (k, v)" by (cases x)
  from Cons.IH [of "dset p k (dget_or p k 0 + v)"] Cons.prems x show ?case
    by (auto simp: add_back_def dict_simps dict_ok_Cons dget_or_Cons dget_or_absent)
qed (simp add: add_back_def)

lemma set_missing_effect:
  "(has (set_missing xs d) h \<longleftrightarrow> has d h \<or> has xs h) \<and> (dict_ok d \<longrightarrow> dict_ok (set_missing xs d))"
proof (induction xs arbitrary: d)
  case (Cons x xs)
  obtain k v where x: "x = (k, v)" by (cases x)
  from Cons.IH [of "if dget d k = None then dset d k v else d"] x show ?case
    by (auto simp: set_missing_def not_has split: if_splits)
qed (simp add: set_missing_def)

lemma cache_ids_effect: "has (cache_ids tb hs c) h \<longleftrightarrow> has c h \<or> h \<in> set hs \<and> has tb h"
  by (induction hs arbitrary: c) (auto simp: cache_ids_def has_def dict_simps split: option.splits)

text \<open>Bursts touch neither the cache nor the counts.\<close>

lemma check_burst_fields:
  "ts_cache (snd (check_burst st h now)) = ts_cache st" "ts_counts (snd (check_burst st h now)) = ts_counts st"
  "ts_new (snd (check_burst st h now)) = ts_new st"
  by (simp_all add: check_burst_def burst_cleanup_def Let_def)

definition flight_counts :: "tenant_logs \<Rightarrow> (string, int) dict" where
  "flight_counts t = (case tl_flight t of None \<Rightarrow> [] | Some b \<Rightarrow> fst b)"

definition flight_new :: "tenant_logs \<Rightarrow> (string, string \<times> string \<times> string list) dict" where
  "flight_new t = (case tl_flight t of None \<Rightarrow> [] | Some b \<Rightarrow> snd b)"

text \<open>A template is covered if its row exists or will be written.\<close>

definition covered :: "tenant_logs \<Rightarrow> string \<Rightarrow> bool" where
  "covered t h \<longleftrightarrow> has (tl_table t) h \<or> has (ts_new (tl_state t)) h \<or> has (flight_new t) h"

definition logs_ok :: "tenant_logs \<Rightarrow> bool" where
  "logs_ok t \<longleftrightarrow>
     dict_ok (ts_counts (tl_state t)) \<and> dict_ok (ts_new (tl_state t)) \<and> dict_ok (flight_counts t) \<and> dict_ok (flight_new t) \<and>
     (\<forall>h. has (ts_cache (tl_state t)) h \<or> has (ts_counts (tl_state t)) h \<longrightarrow> covered t h) \<and>
     (\<forall>h. has (ts_new (tl_state t)) h \<longrightarrow> has (ts_counts (tl_state t)) h) \<and>
     (\<forall>h. has (flight_new t) h \<longrightarrow> has (flight_counts t) h) \<and>
     (\<forall>h. has (flight_counts t) h \<longrightarrow> has (flight_new t) h \<or> has (tl_table t) h)"

text \<open>Stored, being written or waiting.\<close>

definition total :: "tenant_logs \<Rightarrow> string \<Rightarrow> int" where
  "total t h = tcount (tl_table t) h + dget_or (flight_counts t) h 0 + dget_or (ts_counts (tl_state t)) h 0"

definition seen :: "log_event \<Rightarrow> string \<Rightarrow> int" where
  "seen ev h = (case ev of Message m _ _ _ \<Rightarrow> if mi_hash m = h then 1 else 0 | _ \<Rightarrow> 0)"

lemma message_step:
  assumes "logs_ok t"
  shows "logs_ok (logs_step (Message m message severity now) t) \<and>
    total (logs_step (Message m message severity now) t) h = total t h + seen (Message m message severity now) h"
  using assms
  by (auto simp: logs_ok_def total_def seen_def covered_def flight_counts_def flight_new_def process_message_def Let_def check_burst_fields dict_simps
      not_has split: if_splits)

lemma take_step:
  assumes "logs_ok t"
  shows "logs_ok (templates_take t) \<and> total (templates_take t) h = total t h"
proof (cases "tl_flight t")
  case None
  then show ?thesis
    using assms by (auto simp: templates_take_def Let_def logs_ok_def total_def covered_def flight_counts_def flight_new_def)
qed (use assms in \<open>simp add: templates_take_def Let_def\<close>)

lemma done_step:
  assumes "logs_ok t"
  shows "logs_ok (templates_done now failed t) \<and> total (templates_done now failed t) h = total t h"
proof (cases "tl_flight t")
  case (Some b)
  obtain c nw where b: "b = (c, nw)" by fastforce
  obtain n' tb' where w: "write_template_batch now (c, nw) (tl_next t, tl_table t) = (n', tb')" by fastforce
  have F: "flight_counts t = c" "flight_new t = nw" using Some b by (simp_all add: flight_counts_def flight_new_def)
  have ok: "dict_ok c" "dict_ok nw" "\<And>h. has nw h \<Longrightarrow> has c h" "\<And>h. has c h \<Longrightarrow> has nw h \<or> has (tl_table t) h"
    using assms F unfolding logs_ok_def by auto
  note e = write_effect [OF ok w]
  show ?thesis
  proof (cases failed)
    case None
    have d: "templates_done now failed t = t\<lparr>tl_flight := None, tl_next := n', tl_table := tb',
      tl_state := (tl_state t)\<lparr>ts_cache := cache_ids tb' (dkeys nw) (ts_cache (tl_state t))\<rparr>\<rparr>"
      using Some b w None by (simp add: templates_done_def Let_def)
    have "total (templates_done now failed t) h = total t h"
      unfolding d using e(1) [of h] F by (simp add: total_def flight_counts_def)
    moreover have "logs_ok (templates_done now failed t)"
      using assms F unfolding d logs_ok_def covered_def
      by (auto simp: flight_counts_def flight_new_def cache_ids_effect e has_dkeys)
    ultimately show ?thesis by simp
  next
    case (Some cached)
    have d: "templates_done now failed t = t\<lparr>tl_flight := None,
      tl_state := (tl_state t)\<lparr>ts_cache := cache_ids tb' (filter (\<lambda>h. h \<in> set (dkeys nw)) cached) (ts_cache (tl_state t)),
        ts_counts := add_back c (ts_counts (tl_state t)), ts_new := set_missing nw (ts_new (tl_state t))\<rparr>\<rparr>"
      using \<open>tl_flight t = Some b\<close> b w Some by (simp add: templates_done_def Let_def)
    note a = add_back_effect [OF ok(1), of "ts_counts (tl_state t)"] and s = set_missing_effect [of nw "ts_new (tl_state t)"]
    have "total (templates_done now failed t) h = total t h"
      unfolding d using a [of h] F by (simp add: total_def flight_counts_def)
    moreover have "logs_ok (templates_done now failed t)"
      using assms F a s ok unfolding d logs_ok_def covered_def
      by (auto simp: flight_counts_def flight_new_def cache_ids_effect has_dkeys)
    ultimately show ?thesis by simp
  qed
qed (use assms in \<open>simp add: templates_done_def\<close>)

lemma logs_step_ok: "logs_ok t \<Longrightarrow> logs_ok (logs_step ev t) \<and> total (logs_step ev t) h = total t h + seen ev h"
proof (cases ev)
  case (Message m message severity now)
  assume "logs_ok t"
  from message_step [OF this] Message show ?thesis by simp
qed (auto simp: take_step done_step seen_def)

interpretation template_flow: step_system logs_step logs_ok
  by unfold_locales (simp add: logs_step_ok)

lemma totals_run: "logs_ok t \<Longrightarrow> total (fold logs_step evs t) h = total t h + sum_list (map (\<lambda>ev. seen ev h) evs)"
  by (induction evs arbitrary: t) (auto simp: logs_step_ok)

definition fresh_logs :: "int \<Rightarrow> tpl_table \<Rightarrow> tenant_logs" where
  "fresh_logs next_id table = load_template_cache \<lparr>tl_state = new_state, tl_next = next_id, tl_table = table, tl_flight = None\<rparr>"

lemma has_loaded: "has (map (\<lambda>(h, r). (h, f r)) d) h \<longleftrightarrow> has d h"
  by (induction d) auto

lemma fresh_ok: "logs_ok (fresh_logs next_id table)"
  by (simp add: logs_ok_def fresh_logs_def load_template_cache_def new_state_def covered_def flight_counts_def flight_new_def has_loaded)

text \<open>C17. Over every interleaving of messages with flushes that succeed or fail, after any part of the new templates was
  cached: for every template the stored count, the count being written and the count waiting add up to what the table
  held at the start and the messages seen since. A failed flush delays counts and loses none.\<close>

theorem template_counts_conserved:
  "total (fold logs_step evs (fresh_logs next_id table)) h =
     tcount table h + int (length (filter (\<lambda>ev. case ev of Message m _ _ _ \<Rightarrow> mi_hash m = h | _ \<Rightarrow> False) evs))"
proof -
  have "total (fresh_logs next_id table) h = tcount table h"
    by (simp add: total_def fresh_logs_def load_template_cache_def new_state_def flight_counts_def)
  moreover have "sum_list (map (\<lambda>ev. seen ev h) evs) =
      int (length (filter (\<lambda>ev. case ev of Message m _ _ _ \<Rightarrow> mi_hash m = h | _ \<Rightarrow> False) evs))"
    by (induction evs) (auto simp: seen_def split: log_event.splits)
  ultimately show ?thesis using totals_run [OF fresh_ok, of evs next_id table h] by simp
qed

text \<open>Once everything is written, the table has it all.\<close>

lemma flushed_counts:
  assumes "tl_flight (fold logs_step evs (fresh_logs n table)) = None" "ts_counts (tl_state (fold logs_step evs (fresh_logs n table))) = []"
  shows "tcount (tl_table (fold logs_step evs (fresh_logs n table))) h =
    tcount table h + sum_list (map (\<lambda>ev. seen ev h) evs)"
  using totals_run [OF fresh_ok, of evs n table h] assms
  by (simp add: total_def flight_counts_def fresh_logs_def load_template_cache_def new_state_def)

section \<open>Scores within bounds\<close>

lemma points_range:
  "rate_points q \<in> {- 10..30}" "severity_points s \<in> {- 30..10}" "tag_points tags \<in> {- 40..5}" "age_points a \<in> {- 25..0}"
  by (auto simp: rate_points_def severity_points_def tag_points_def age_points_def split: option.splits)

text \<open>A noise score is a percentage; a template that announces failures never reaches the score from which fleet-wide
  patterns are ignored, and a template is never more noise for being new.\<close>

theorem noise_score_bounds:
  "compute_noise_score count hours first_seen now severity tags precursor \<in> {0..100} \<and>
   compute_noise_score count hours first_seen now severity tags True < 70 \<and>
   (first_seen \<le> first_seen' \<longrightarrow> compute_noise_score count hours first_seen' now severity tags precursor \<le>
      compute_noise_score count hours first_seen now severity tags precursor)"
proof (intro conjI impI)
  have t: "(if tags = [] then 0 else tag_points tags) \<le> 5" using points_range(3) [of tags] by simp
  show "compute_noise_score count hours first_seen now severity tags True < 70"
    using t points_range(1) [of "of_int count / max hours (1 / 10)"] points_range(2) [of severity] points_range(4) [of "hours_between first_seen now"]
    unfolding compute_noise_score_def by auto
  have "age_points a \<le> age_points b" if "a \<le> b" for a b using that by (auto simp: age_points_def)
  moreover assume "first_seen \<le> first_seen'"
  then have "hours_between first_seen' now \<le> hours_between first_seen now"
    by (simp add: hours_between_def total_seconds_def divide_right_mono)
  ultimately show "compute_noise_score count hours first_seen' now severity tags precursor \<le>
      compute_noise_score count hours first_seen now severity tags precursor"
    unfolding compute_noise_score_def by (intro max.mono min.mono add_mono) auto
qed (simp add: compute_noise_score_def)

theorem noise_score_bounds_witness:
  "compute_noise_score 500 2 (days 1) (days 2) None [''cron''] False = 85 \<and> compute_noise_score 500 2 (days 1) (days 2) None [''cron''] True < 70 \<and>
   compute_noise_score 500 2 (days 1 + minutes 5) (days 2) None [''cron''] False \<le> compute_noise_score 500 2 (days 1) (days 2) None [''cron''] False"
proof -
  have "compute_noise_score 500 2 (days 1) (days 2) None [''cron''] False = 85" by code_simp
  moreover have "days 1 \<le> days 1 + minutes 5" by (simp add: minutes_def)
  ultimately show ?thesis using noise_score_bounds [of 500 2 "days 1" "days 2" None "[''cron'']" False "days 1 + minutes 5"] by simp
qed

end
