(* ===== verification/Log_Anomalies.thy ===== *)
theory Log_Anomalies
  imports Log_Baselines Log_Templates
begin

text \<open>
  The passes over the log templates that tell the correlation engine what changed (\<^verbatim>\<open>backend/services/log_intelligence.py\<close>):
  trends of the templates, and hosts that suddenly send templates they never sent. The answers of ClickHouse are
  arguments.
\<close>

section \<open>Trends\<close>

definition TREND_MIN_TEMPLATE_COUNT :: int where "TREND_MIN_TEMPLATE_COUNT = 5"

record trend_row =
  tw_id :: int
  tw_hash :: string
  tw_count :: int
  tw_direction :: string
  tw_score :: rat
  tw_severity :: "int option"

text \<open>A point is an hour with messages: its start, the number of messages and their mean severity.\<close>

type_synonym point = "datetime \<times> int \<times> rat option"

definition hourly_counts :: "point list \<Rightarrow> int list" where
  "hourly_counts points = map (\<lambda>(_, n, _). n) (sort_key fst points)"

definition severities :: "point list \<Rightarrow> rat list" where
  "severities points = List.map_filter (\<lambda>(_, _, s). s) (sort_key fst points)"

definition trend_change :: "point list \<Rightarrow> trend_row \<Rightarrow> trend_row" where
  "trend_change points w =
     (let (direction, rel_slope) = trend_from_counts (hourly_counts points); sevs = severities points;
          w' = w\<lparr>tw_direction := direction, tw_score := of_int (round_half_even (rel_slope * 10000)) / 10000\<rparr>
      in if sevs = [] then w' else w'\<lparr>tw_severity := Some (round_half_even (sum_list sevs / of_nat (length sevs)))\<rparr>)"

definition eligible :: "(string, point list) dict \<Rightarrow> trend_row \<Rightarrow> point list option" where
  "eligible points_by_hash w =
     (case dget points_by_hash (tw_hash w) of
        None \<Rightarrow> None
      | Some ps \<Rightarrow> if ps \<noteq> [] \<and> tw_count w \<ge> TREND_MIN_TEMPLATE_COUNT then Some ps else None)"

text \<open>Rows that are not trended this time and are not stable are reset.\<close>

definition compute_severity_trends :: "(string, point list) dict \<Rightarrow> trend_row list \<Rightarrow> trend_row list" where
  "compute_severity_trends points_by_hash rows =
     map (\<lambda>w. case eligible points_by_hash w of
            Some ps \<Rightarrow> trend_change ps w
          | None \<Rightarrow> if tw_direction w \<noteq> ''stable'' then w\<lparr>tw_direction := ''stable'', tw_score := 0\<rparr> else w) rows"

section \<open>Content anomalies\<close>

definition SEVERITY_UPGRADE_NORMAL_MIN :: int where "SEVERITY_UPGRADE_NORMAL_MIN = 5"

definition stable_hosts :: "(slot, baseline) dict \<Rightarrow> datetime \<Rightarrow> (string, baseline) dict" where
  "stable_hosts rows now = filter (\<lambda>(_, b). bl_tavg b < 10 \<and> bl_tstd b < 3) (load_effective_baselines True rows now)"

definition diversity_band :: "baseline \<Rightarrow> real" where
  "diversity_band b = 3 * max (bl_tstd b) 1"

definition diversity_candidates :: "(string, baseline) dict \<Rightarrow> (string \<times> int) list \<Rightarrow> (string, int) dict" where
  "diversity_candidates hosts found =
     fold (\<lambda>(key, d) c. case dget hosts key of
             None \<Rightarrow> c
           | Some b \<Rightarrow> if real_of_int d > bl_tavg b + diversity_band b \<and> d > 5 then dset c key d else c) found []"

definition key_host_id :: "string \<Rightarrow> int option" where
  "key_host_id key =
     (let part = (if startswith key ''host:'' then drop 5 key else []) in
      if part \<noteq> [] \<and> list_all is_digit part then parse_int part else None)"

datatype content_anomaly =
    Diversity_spike (ca_source: string) (ca_host: "int option") (ca_current: int) (ca_new: int) (ca_baseline: real)
  | Severity_upgrade (ca_hash: string) (ca_template: string) (ca_normal: int) (ca_severity: int) (ca_count: int)

text \<open>\<open>novel\<close> is asked only for the candidates; the baseline of an anomaly is shown rounded to one decimal, here it is exact.\<close>

definition diversity_spikes :: "(string, baseline) dict \<Rightarrow> (string, int) dict \<Rightarrow> (string, int) dict \<Rightarrow> content_anomaly list" where
  "diversity_spikes hosts candidates novel =
     List.map_filter (\<lambda>(key, d). case dget hosts key of
         None \<Rightarrow> None
       | Some b \<Rightarrow> (let new = dget_or novel key 0 in
           if real_of_int new \<le> diversity_band b then None
           else Some (Diversity_spike key (key_host_id key) d new (bl_tavg b)))) candidates"

text \<open>Templates that appeared at error level, and what their rows say is normal.\<close>

definition severity_upgrades :: "(string, int \<times> int) dict \<Rightarrow> (string \<times> string option \<times> int option) list \<Rightarrow> content_anomaly list" where
  "severity_upgrades hits templates =
     List.map_filter (\<lambda>(h, text, mode). case (dget hits h, mode) of
         (Some (min_sev, cnt), Some m) \<Rightarrow>
           (if m \<ge> SEVERITY_UPGRADE_NORMAL_MIN
            then Some (Severity_upgrade h (text_take 100 (case text of None \<Rightarrow> [] | Some s \<Rightarrow> s)) m min_sev cnt) else None)
       | _ \<Rightarrow> None) templates"

definition detect_content_anomalies ::
    "(slot, baseline) dict \<Rightarrow> datetime \<Rightarrow> (string \<times> int) list \<Rightarrow> (string, int) dict \<Rightarrow> (string, int \<times> int) dict \<Rightarrow>
     (string \<times> string option \<times> int option) list \<Rightarrow> content_anomaly list" where
  "detect_content_anomalies rows now found novel hits templates =
     (let hosts = stable_hosts rows now in diversity_spikes hosts (diversity_candidates hosts found) novel)
     @ severity_upgrades hits templates"

section \<open>Properties\<close>

text \<open>After a trend pass a template is marked as rising only if this pass found enough messages of it whose hourly counts
  rise; whatever mark it had before does not matter.\<close>

theorem rising_is_current:
  assumes "w' \<in> set (compute_severity_trends points_by_hash rows)" and "tw_direction w' = ''rising''"
  shows "tw_count w' \<ge> TREND_MIN_TEMPLATE_COUNT \<and>
    (\<exists>ps. dget points_by_hash (tw_hash w') = Some ps \<and> fst (trend_from_counts (hourly_counts ps)) = ''rising'')"
  using assms by (fastforce simp: compute_severity_trends_def eligible_def trend_change_def Let_def split: option.splits if_splits prod.splits)

text \<open>Only the order of the hours counts, not the hours: a gap between two active hours does not change a trend.\<close>

lemma trend_ignores_gaps:
  assumes "sorted (map fst ps)" "sorted (map fst qs)" "map (fst \<circ> snd) ps = map (fst \<circ> snd) qs"
  shows "trend_from_counts (hourly_counts ps) = trend_from_counts (hourly_counts qs)"
proof -
  have "sort_key fst xs = xs" if "sorted (map fst xs)" for xs :: "point list" using that by (induction xs) (auto simp: insort_is_Cons)
  then show ?thesis using assms by (simp add: hourly_counts_def comp_def case_prod_unfold)
qed

theorem rising_is_current_witness:
  "let ps = [(0, 1, None), (us_per_hour, 2, None), (2 * us_per_hour, 3, None), (3 * us_per_hour, 9, Some 3)];
       w = \<lparr>tw_id = 1, tw_hash = ''aa'', tw_count = 15, tw_direction = ''stable'', tw_score = 0, tw_severity = None\<rparr>
   in tw_direction (hd (compute_severity_trends [(''aa'', ps)] [w])) = ''rising'' \<and> fst (trend_from_counts (hourly_counts ps)) = ''rising''"
proof -
  let ?ps = "[(0, 1, None), (us_per_hour, 2, None), (2 * us_per_hour, 3, None), (3 * us_per_hour, 9, Some 3)] :: point list"
  let ?w = "\<lparr>tw_id = 1, tw_hash = ''aa'', tw_count = 15, tw_direction = ''stable'', tw_score = 0, tw_severity = None\<rparr> :: trend_row"
  have d: "tw_direction (hd (compute_severity_trends [(''aa'', ?ps)] [?w])) = ''rising''" by code_simp
  have m: "hd (compute_severity_trends [(''aa'', ?ps)] [?w]) \<in> set (compute_severity_trends [(''aa'', ?ps)] [?w])"
    by (simp add: compute_severity_trends_def)
  have "tw_hash (hd (compute_severity_trends [(''aa'', ?ps)] [?w])) = ''aa''" by code_simp
  then have "fst (trend_from_counts (hourly_counts ?ps)) = ''rising''"
    using rising_is_current [OF m d] by (auto simp: dget_Cons)
  with d show ?thesis by (simp only: Let_def simp_thms)
qed

end
