(* ===== verification/Predictor_Config.thy ===== *)
theory Predictor_Config
  imports Json_Print
begin

text \<open>
  The settings of the precursor predictor (\<^verbatim>\<open>backend/services/predictor_config.py\<close>): two thresholds and the blacklist of
  templates, a JSON array of regular expressions kept in one setting. The argument \<open>raw\<close> is the setting's text (empty when
  it is not set). \<^verbatim>\<open>re.compile\<close> is the parameter \<open>compile\<close>: the search function of a pattern, or \<open>None\<close> where it raises
  \<^verbatim>\<open>re.error\<close>.
\<close>

section \<open>Thresholds\<close>

definition DEFAULT_MIN_CONFIDENCE :: rat where "DEFAULT_MIN_CONFIDENCE = 85 / 100"
definition DEFAULT_MIN_OCCURRENCES :: int where "DEFAULT_MIN_OCCURRENCES = 20"

definition get_min_confidence :: "string \<Rightarrow> rat" where
  "get_min_confidence raw =
     (if raw = [] then DEFAULT_MIN_CONFIDENCE
      else case parse_float raw of
        Some (Fin v) \<Rightarrow> (if 0 < v \<and> v \<le> 1 then v else DEFAULT_MIN_CONFIDENCE)
      | _ \<Rightarrow> DEFAULT_MIN_CONFIDENCE)"

definition get_min_occurrences :: "string \<Rightarrow> int" where
  "get_min_occurrences raw =
     (if raw = [] then DEFAULT_MIN_OCCURRENCES
      else case parse_int raw of
        Some v \<Rightarrow> (if v < 1 then DEFAULT_MIN_OCCURRENCES else v)
      | None \<Rightarrow> DEFAULT_MIN_OCCURRENCES)"

section \<open>The blacklist\<close>

definition DEFAULT_BLACKLIST_PATTERNS :: "string list" where
  "DEFAULT_BLACKLIST_PATTERNS =
     [''udhcpc'' @ [CHR 0x5C] @ ''['',
      ''dhclient'' @ [CHR 0x5C] @ ''b'',
      ''systemd-timesyncd'',
      ''chronyd.*(synchronised|Selected source)'',
      ''CRON'' @ [CHR 0x5C] @ ''['' @ [CHR 0x5C] @ ''d+'' @ [CHR 0x5C] @ '']'',
      ''logrotate'',
      ''session-'' @ [CHR 0x5C] @ ''d+'' @ [CHR 0x5C] @ ''.scope'',
      ''pam_unix.*session opened'',
      ''ntpd.*bad address'',
      ''wlan_objmgr_iterate_log_del_obj'',
      ''MCA: compress failed'',
      ''hostapd.*FT: RRB wpa_auth is null'',
      ''wpa_supplicant.*bgscan.*Failed to enable signal strength'',
      ''mcad.*teleport.*Failed to get teleport clients'',
      ''qos_sta_control'',
      ''trace'' @ [CHR 0x5C] @ ''.put_trace'',
      ''ace_reporter'' @ [CHR 0x5C] @ ''.reporter_fail'']"

fun str_of :: "json \<Rightarrow> string option" where
  "str_of (JStr s) = Some s"
| "str_of _ = None"

text \<open>The list both readers start from: the stored one, or the defaults when it is missing or malformed.\<close>

definition stored_patterns :: "string \<Rightarrow> string list" where
  "stored_patterns raw =
     (if raw = [] then DEFAULT_BLACKLIST_PATTERNS
      else case loads raw of
        Some (JList xs) \<Rightarrow> (if list_all (\<lambda>x. str_of x \<noteq> None) xs then List.map_filter str_of xs else DEFAULT_BLACKLIST_PATTERNS)
      | _ \<Rightarrow> DEFAULT_BLACKLIST_PATTERNS)"

definition get_blacklist_regexes :: "(string \<Rightarrow> (string \<Rightarrow> bool) option) \<Rightarrow> string \<Rightarrow> (string \<Rightarrow> bool) list" where
  "get_blacklist_regexes compile raw = List.map_filter compile (stored_patterns raw)"

definition is_template_blacklisted :: "string \<Rightarrow> (string \<Rightarrow> bool) list \<Rightarrow> bool" where
  "is_template_blacklisted template_text regexes \<longleftrightarrow> template_text \<noteq> [] \<and> list_ex (\<lambda>rx. rx template_text) regexes"

datatype regex_error = ReError

text \<open>The setting afterwards. There are no floats in it, so their text does not matter.\<close>

definition add_to_blacklist :: "(string \<Rightarrow> (string \<Rightarrow> bool) option) \<Rightarrow> string \<Rightarrow> string \<Rightarrow> regex_error + string" where
  "add_to_blacklist compile pattern raw =
     (if pattern = [] then Inr raw
      else case compile pattern of
        None \<Rightarrow> Inl ReError
      | Some _ \<Rightarrow>
          (if pattern \<in> set (stored_patterns raw) then Inr raw
           else Inr (dumps (\<lambda>_. []) (JList (map JStr (stored_patterns raw @ [pattern]))))))"

section \<open>Properties\<close>

lemma stored_dumps:
  assumes "list_all text_ok ps"
  shows "stored_patterns (dumps frepr (JList (map JStr ps))) = ps"
proof -
  have "loads (dumps frepr (JList (map JStr ps))) = Some (JList (map JStr ps))"
    using assms by (intro loads_dumps) (auto simp: list_all_iff)
  moreover have "dumps frepr (JList (map JStr ps)) \<noteq> []" by simp
  moreover have "List.map_filter str_of (map JStr ps) = ps" by (induction ps) (simp_all add: map_filter_simps)
  ultimately show ?thesis by (simp add: stored_patterns_def list_all_iff)
qed

lemma default_patterns_text: "list_all text_ok DEFAULT_BLACKLIST_PATTERNS"
  unfolding DEFAULT_BLACKLIST_PATTERNS_def by (simp add: ascii_text_ok)

lemma list_ex_map_filter: "list_ex P (List.map_filter f xs) \<longleftrightarrow> list_ex (\<lambda>x. case f x of None \<Rightarrow> False | Some y \<Rightarrow> P y) xs"
  by (induction xs) (simp_all add: map_filter_simps split: option.split)

lemma blacklisted_iff:
  "is_template_blacklisted tpl (get_blacklist_regexes compile raw) \<longleftrightarrow>
     tpl \<noteq> [] \<and> (\<exists>p \<in> set (stored_patterns raw). case compile p of None \<Rightarrow> False | Some rx \<Rightarrow> rx tpl)"
  by (simp add: is_template_blacklisted_def get_blacklist_regexes_def list_ex_map_filter) (simp add: list_ex_iff)

lemma add_new_pattern:
  assumes "pattern \<noteq> []" "compile pattern \<noteq> None" "list_all text_ok (stored_patterns raw)" "text_ok pattern"
  shows "\<exists>raw'. add_to_blacklist compile pattern raw = Inr raw' \<and> set (stored_patterns raw') = insert pattern (set (stored_patterns raw))"
proof (cases "pattern \<in> set (stored_patterns raw)")
  case True
  then show ?thesis using assms(1,2) by (auto simp: add_to_blacklist_def)
next
  case False
  let ?raw = "dumps (\<lambda>_. []) (JList (map JStr (stored_patterns raw @ [pattern])))"
  have "stored_patterns ?raw = stored_patterns raw @ [pattern]" using assms by (intro stored_dumps) simp
  moreover have "add_to_blacklist compile pattern raw = Inr ?raw" using assms(1,2) False by (auto simp: add_to_blacklist_def simp del: dumps.simps)
  ultimately show ?thesis by (auto simp del: dumps.simps)
qed

text \<open>Adding a pattern that compiles to the blacklist, whatever the setting held (nothing, a list, malformed text):
  afterwards a template is blacklisted exactly if it was before or the pattern is found in it, and adding the pattern once
  more changes nothing.\<close>

theorem blacklist_add_exact:
  assumes "pattern \<noteq> []" "compile pattern = Some rx" "list_all text_ok (stored_patterns raw)" "text_ok pattern"
  shows "\<exists>raw'. add_to_blacklist compile pattern raw = Inr raw' \<and>
    (\<forall>tpl. is_template_blacklisted tpl (get_blacklist_regexes compile raw') \<longleftrightarrow>
       is_template_blacklisted tpl (get_blacklist_regexes compile raw) \<or> tpl \<noteq> [] \<and> rx tpl) \<and>
    add_to_blacklist compile pattern raw' = Inr raw'"
proof -
  obtain raw' where r: "add_to_blacklist compile pattern raw = Inr raw'" and
      s: "set (stored_patterns raw') = insert pattern (set (stored_patterns raw))"
    using add_new_pattern [of pattern compile raw] assms by auto
  have "add_to_blacklist compile pattern raw' = Inr raw'" using assms(1,2) s by (simp add: add_to_blacklist_def)
  moreover have "is_template_blacklisted tpl (get_blacklist_regexes compile raw') \<longleftrightarrow>
      is_template_blacklisted tpl (get_blacklist_regexes compile raw) \<or> tpl \<noteq> [] \<and> rx tpl" for tpl
    using assms(2) by (simp add: blacklisted_iff s disj_commute conj_disj_distribL)
  ultimately show ?thesis using r by blast
qed

theorem blacklist_add_exact_witness:
  "\<exists>raw'. add_to_blacklist (\<lambda>p. Some (\<lambda>t. t = p)) ''kernel'' ''{}'' = Inr raw' \<and>
    (\<forall>tpl. is_template_blacklisted tpl (get_blacklist_regexes (\<lambda>p. Some (\<lambda>t. t = p)) raw') \<longleftrightarrow>
       is_template_blacklisted tpl (get_blacklist_regexes (\<lambda>p. Some (\<lambda>t. t = p)) ''{}'') \<or> tpl \<noteq> [] \<and> tpl = ''kernel'') \<and>
    add_to_blacklist (\<lambda>p. Some (\<lambda>t. t = p)) ''kernel'' raw' = Inr raw'"
proof -
  have "loads ''{}'' = Some (JDict [])" by code_simp
  then have "stored_patterns ''{}'' = DEFAULT_BLACKLIST_PATTERNS" by (simp add: stored_patterns_def)
  then show ?thesis
    by (intro blacklist_add_exact [of "''kernel''" "\<lambda>p. Some (\<lambda>t. t = p)" "\<lambda>t. t = ''kernel''" "''{}''"])
       (simp_all add: default_patterns_text ascii_text_ok)
qed

text \<open>The thresholds in force are always usable ones.\<close>

lemma thresholds_in_range: "0 < get_min_confidence raw" "get_min_confidence raw \<le> 1" "1 \<le> get_min_occurrences raw'"
  by (auto simp: get_min_confidence_def get_min_occurrences_def DEFAULT_MIN_CONFIDENCE_def DEFAULT_MIN_OCCURRENCES_def
      split: option.splits pyfloat.splits)

end
