(* ===== verification/Precursors.thy ===== *)
theory Precursors
  imports Predictor_Config
begin

text \<open>
  Learning which log templates come before failures (\<^verbatim>\<open>backend/services/log_intelligence.py\<close>, \<^verbatim>\<open>backend/services/_stats.py\<close>): the
  merged look-back windows that are queried, the windows of the events, the counts and lead times per template, and the
  confidence of a pattern. Times are naive UTC. The answers of ClickHouse are the parameter \<open>ch_query\<close> (a query for the host
  windows or for the fleet-wide ones; \<open>None\<close> where it raises); the template hash of a message is the parameter \<open>hash_of\<close>.
  Confidences are real numbers, lead times are kept in microseconds.
\<close>

section \<open>Windows\<close>

definition PRECURSOR_WINDOW :: int where "PRECURSOR_WINDOW = 5 * us_per_minute"
definition PRECURSOR_MSGS_PER_EVENT :: nat where "PRECURSOR_MSGS_PER_EVENT = 50"

text \<open>The ranges so far, the last one first.\<close>

fun merge_stamp :: "datetime \<Rightarrow> (datetime \<times> datetime) list \<Rightarrow> (datetime \<times> datetime) list" where
  "merge_stamp ts [] = [(ts - PRECURSOR_WINDOW, ts)]"
| "merge_stamp ts ((s, e) # ranges) =
     (if ts - PRECURSOR_WINDOW \<le> e then (s, max e ts) # ranges else (ts - PRECURSOR_WINDOW, ts) # (s, e) # ranges)"

definition merge_ranges :: "datetime list \<Rightarrow> (datetime \<times> datetime) list" where
  "merge_ranges stamps = rev (fold merge_stamp (sort stamps) [])"

definition stamps_of :: "(int \<times> datetime) list \<Rightarrow> int \<Rightarrow> datetime list" where
  "stamps_of events hid = map snd (filter (\<lambda>e. fst e = hid) events)"

definition merge_precursor_windows :: "(int \<times> datetime) list \<Rightarrow> (int, (datetime \<times> datetime) list) dict" where
  "merge_precursor_windows events =
     map (\<lambda>hid. (hid, merge_ranges (stamps_of events hid))) (rev (remdups (rev (map fst events))))"

section \<open>Candidate messages\<close>

definition PRECURSOR_WINDOWS_PER_QUERY :: nat where "PRECURSOR_WINDOWS_PER_QUERY = 100"

function chunks :: "nat \<Rightarrow> 'a list \<Rightarrow> 'a list list" where
  "chunks n xs = (if xs = [] \<or> n = 0 then [] else take n xs # chunks n (drop n xs))"
  by auto
termination by (relation "measure (\<lambda>(n, xs). length xs)") auto

declare chunks.simps [simp del]

definition host_windows :: "(int, (datetime \<times> datetime) list) dict \<Rightarrow> (int \<times> datetime \<times> datetime) list" where
  "host_windows windows = concat (map (\<lambda>(hid, rs). if hid \<noteq> 0 then map (\<lambda>(s, e). (hid, s, e)) rs else []) windows)"

definition fleet_windows :: "(int, (datetime \<times> datetime) list) dict \<Rightarrow> (int \<times> datetime \<times> datetime) list" where
  "fleet_windows windows = map (\<lambda>(s, e). (0, s, e)) (dget_or windows 0 [])"

record msg_row =
  mr_host :: "int option"
  mr_message :: "string option"
  mr_time :: "datetime option"

definition add_row :: "bool \<Rightarrow> msg_row \<Rightarrow> (int, (datetime \<times> string) list) dict \<Rightarrow> (int, (datetime \<times> string) list) dict" where
  "add_row fleet r out =
     (case mr_time r of
        None \<Rightarrow> out
      | Some ts \<Rightarrow>
          (let key = if fleet then 0 else (case mr_host r of None \<Rightarrow> 0 | Some h \<Rightarrow> h);
               message = (case mr_message r of None \<Rightarrow> [] | Some m \<Rightarrow> m)
           in dset out key (dget_or out key [] @ [(ts, message)])))"

fun fetch_chunks ::
    "(bool \<Rightarrow> (int \<times> datetime \<times> datetime) list \<Rightarrow> msg_row list option) \<Rightarrow> bool \<Rightarrow> (int \<times> datetime \<times> datetime) list list \<Rightarrow>
     (int, (datetime \<times> string) list) dict \<Rightarrow> (int, (datetime \<times> string) list) dict option" where
  "fetch_chunks ch_query fleet [] out = Some out"
| "fetch_chunks ch_query fleet (chunk # rest) out =
     (case ch_query fleet chunk of
        None \<Rightarrow> None
      | Some rows \<Rightarrow> fetch_chunks ch_query fleet rest (fold (add_row fleet) rows out))"

definition fetch_precursor_messages ::
    "(bool \<Rightarrow> (int \<times> datetime \<times> datetime) list \<Rightarrow> msg_row list option) \<Rightarrow> (int \<times> datetime) list \<Rightarrow> (int, (datetime \<times> string) list) dict option" where
  "fetch_precursor_messages ch_query events =
     (let windows = merge_precursor_windows events in
      case fetch_chunks ch_query False (chunks PRECURSOR_WINDOWS_PER_QUERY (host_windows windows)) [] of
        None \<Rightarrow> None
      | Some out \<Rightarrow>
          (case fetch_chunks ch_query True (chunks PRECURSOR_WINDOWS_PER_QUERY (fleet_windows windows)) out of
             None \<Rightarrow> None
           | Some out' \<Rightarrow> Some (map (\<lambda>(hid, msgs). (hid, sort_key fst msgs)) out')))"

definition bisect_left :: "datetime list \<Rightarrow> datetime \<Rightarrow> nat" where
  "bisect_left stamps x = length (takeWhile (\<lambda>t. t < x) stamps)"

definition bisect_right :: "datetime list \<Rightarrow> datetime \<Rightarrow> nat" where
  "bisect_right stamps x = length (takeWhile (\<lambda>t. t \<le> x) stamps)"

definition event_window :: "(datetime \<times> string) list \<Rightarrow> datetime \<Rightarrow> (datetime \<times> string) list" where
  "event_window msgs event_ts =
     (let stamps = map fst msgs; lo = bisect_left stamps (event_ts - PRECURSOR_WINDOW); hi = bisect_right stamps event_ts in
      take PRECURSOR_MSGS_PER_EVENT (drop lo (take hi msgs)))"

section \<open>Learning\<close>

record learned =
  le_events :: int
  le_before :: "(int, int) dict"
  le_leads :: "(int, int list) dict"

text \<open>One message of a window: its template counts once per event; its lead time is kept if it is positive.\<close>

definition note_message :: "(string \<Rightarrow> int option) \<Rightarrow> datetime \<Rightarrow> datetime \<times> string \<Rightarrow> int list \<times> learned \<Rightarrow> int list \<times> learned" where
  "note_message tpl_of event_ts m s =
     (case tpl_of (snd m) of
        None \<Rightarrow> s
      | Some tpl \<Rightarrow>
          (if tpl = 0 \<or> tpl \<in> set (fst s) then s
           else (let l = snd s; delta = event_ts - fst m; l1 = l\<lparr>le_before := dset (le_before l) tpl (dget_or (le_before l) tpl 0 + 1)\<rparr> in
                 (tpl # fst s,
                  if 0 < delta \<and> delta \<le> PRECURSOR_WINDOW then l1\<lparr>le_leads := dset (le_leads l1) tpl (dget_or (le_leads l1) tpl [] @ [delta])\<rparr> else l1))))"

definition learn_event :: "(string \<Rightarrow> int option) \<Rightarrow> (int, (datetime \<times> string) list) dict \<Rightarrow> int \<times> datetime \<Rightarrow> learned \<Rightarrow> learned" where
  "learn_event tpl_of candidates ev l =
     (let window = event_window (dget_or candidates (fst ev) []) (snd ev) in
      if window = [] then l
      else snd (fold (note_message tpl_of (snd ev)) window ([], l\<lparr>le_events := le_events l + 1\<rparr>)))"

definition learn_events :: "(string \<Rightarrow> int option) \<Rightarrow> (int, (datetime \<times> string) list) dict \<Rightarrow> (int \<times> datetime) list \<Rightarrow> learned" where
  "learn_events tpl_of candidates events = fold (learn_event tpl_of candidates) events \<lparr>le_events = 0, le_before = [], le_leads = []\<rparr>"

definition wilson_lower_bound :: "int \<Rightarrow> int \<Rightarrow> real \<Rightarrow> real" where
  "wilson_lower_bound successes trials z =
     (if trials \<le> 0 then 0
      else (let n = real_of_int trials; p = real_of_int successes / n; z2 = z * z; denominator = 1 + z2 / n; center = p + z2 / (2 * n);
                spread = z * sqrt (p * (1 - p) / n + z2 / (4 * n * n))
            in max 0 ((center - spread) / denominator)))"

definition WILSON_Z :: real where "WILSON_Z = 196 / 100"

record pattern =
  pa_confidence :: real
  pa_avg :: int
  pa_min :: int
  pa_max :: int
  pa_occurred :: int
  pa_checked :: int
  pa_updated :: datetime

text \<open>Lead times are microseconds here; \<^verbatim>\<open>int\<close> of a positive number of seconds rounds down.\<close>

definition lead_stats :: "int list \<Rightarrow> int \<times> int \<times> int" where
  "lead_stats deltas =
     (if deltas = [] then (150, 0, 300)
      else (sum_list deltas div (int (length deltas) * us_per_second), Min (set deltas) div us_per_second, Max (set deltas) div us_per_second))"

text \<open>Patterns are rows keyed by the event they precede and the template.\<close>

type_synonym patterns = "(string \<times> int, pattern) dict"

definition learn_pattern ::
    "(int \<Rightarrow> string option) \<Rightarrow> (string \<Rightarrow> bool) list \<Rightarrow> string \<Rightarrow> datetime \<Rightarrow> learned \<Rightarrow> int \<times> int \<Rightarrow> patterns \<Rightarrow> patterns" where
  "learn_pattern text_of blacklist event_type now l tb patterns =
     (case tb of (tpl, before) \<Rightarrow>
        (let confidence = wilson_lower_bound before (le_events l) WILSON_Z;
             tpl_text = (case text_of tpl of None \<Rightarrow> [] | Some s \<Rightarrow> s) in
         if is_template_blacklisted tpl_text blacklist \<or> confidence < 3 / 10 then patterns
         else (case lead_stats (dget_or (le_leads l) tpl []) of (a, mi, ma) \<Rightarrow>
                 dset patterns (event_type, tpl) \<lparr>pa_confidence = confidence, pa_avg = a, pa_min = mi, pa_max = ma, pa_occurred = before,
                   pa_checked = le_events l, pa_updated = now\<rparr>)))"

text \<open>What a pass reads: ClickHouse, the template hash, the template cache, the texts of the template rows, the blacklist.\<close>

record precursor_env =
  pe_query :: "bool \<Rightarrow> (int \<times> datetime \<times> datetime) list \<Rightarrow> msg_row list option"
  pe_hash :: "string \<Rightarrow> string"
  pe_cache :: "(string, int) dict"
  pe_text :: "int \<Rightarrow> string option"
  pe_blacklist :: "(string \<Rightarrow> bool) list"

definition learn_precursors_for_event ::
    "precursor_env \<Rightarrow> string \<Rightarrow> (int \<times> datetime) list \<Rightarrow> datetime \<Rightarrow> patterns \<Rightarrow> patterns option" where
  "learn_precursors_for_event env event_type events now patterns =
     (case fetch_precursor_messages (pe_query env) events of
        None \<Rightarrow> None
      | Some candidates \<Rightarrow>
          (let l = learn_events (\<lambda>m. dget (pe_cache env) (pe_hash env m)) candidates events in
           if le_events l = 0 then Some patterns
           else Some (fold (learn_pattern (pe_text env) (pe_blacklist env) event_type now l) (le_before l) patterns)))"

text \<open>\<open>cleanup_precursor_patterns\<close>: only patterns whose template still has a row are looked at.\<close>

definition rescore :: "pattern \<Rightarrow> pattern" where
  "rescore p =
     (let c = wilson_lower_bound (pa_occurred p) (pa_checked p) WILSON_Z in
      if pa_checked p > 0 \<and> \<bar>pa_confidence p - c\<bar> > 1 / 1000000 then p\<lparr>pa_confidence := c\<rparr> else p)"

definition cleanup_row :: "(int \<Rightarrow> string option) \<Rightarrow> (string \<Rightarrow> bool) list \<Rightarrow> (string \<times> int) \<times> pattern \<Rightarrow> ((string \<times> int) \<times> pattern) option" where
  "cleanup_row text_of blacklist kp =
     (case text_of (snd (fst kp)) of
        None \<Rightarrow> Some kp
      | Some tpl_text \<Rightarrow> (if is_template_blacklisted tpl_text blacklist then None else Some (fst kp, rescore (snd kp))))"

definition cleanup_precursor_patterns :: "(int \<Rightarrow> string option) \<Rightarrow> (string \<Rightarrow> bool) list \<Rightarrow> patterns \<Rightarrow> patterns" where
  "cleanup_precursor_patterns text_of blacklist patterns = List.map_filter (cleanup_row text_of blacklist) patterns"

text \<open>The second and third kinds of event are guarded: an exception leaves the patterns as they were. An exception in the first
  ends the pass before the commit. \<open>fail_stamps\<close> and \<open>incident_stamps\<close> are \<open>None\<close> where their query raises.\<close>

definition guarded_learning :: "precursor_env \<Rightarrow> string \<Rightarrow> datetime list option \<Rightarrow> datetime \<Rightarrow> patterns \<Rightarrow> patterns" where
  "guarded_learning env event_type stamps now patterns =
     (case stamps of
        None \<Rightarrow> patterns
      | Some ts \<Rightarrow>
          (if ts = [] then patterns
           else case learn_precursors_for_event env event_type (map (\<lambda>t. (0, t)) ts) now patterns of
                  None \<Rightarrow> patterns
                | Some ps \<Rightarrow> ps))"

definition learn_precursors ::
    "precursor_env \<Rightarrow> (int \<times> datetime) list option \<Rightarrow> datetime list option \<Rightarrow> datetime list option \<Rightarrow> datetime \<Rightarrow> patterns \<Rightarrow> patterns option" where
  "learn_precursors env down_events fail_stamps incident_stamps now patterns =
     (let ps = cleanup_precursor_patterns (pe_text env) (pe_blacklist env) patterns in
      case down_events of
        None \<Rightarrow> None
      | Some downs \<Rightarrow>
          (case (if downs = [] then Some ps else learn_precursors_for_event env ''host_down'' downs now ps) of
             None \<Rightarrow> None
           | Some ps1 \<Rightarrow>
               Some (guarded_learning env ''incident'' incident_stamps now
                      (guarded_learning env ''integration_fail'' fail_stamps now ps1))))"

section \<open>The merged windows\<close>

definition in_ranges :: "datetime \<Rightarrow> (datetime \<times> datetime) list \<Rightarrow> bool" where
  "in_ranges x ranges \<longleftrightarrow> list_ex (\<lambda>(s, e). s \<le> x \<and> x \<le> e) ranges"

text \<open>Ranges built from sorted stamps, the latest first: each at least one window long, no two of them touching.\<close>

fun apart :: "(datetime \<times> datetime) list \<Rightarrow> bool" where
  "apart ((s, e) # (s', e') # rs) \<longleftrightarrow> s + PRECURSOR_WINDOW \<le> e \<and> e' < s \<and> apart ((s', e') # rs)"
| "apart [(s, e)] \<longleftrightarrow> s + PRECURSOR_WINDOW \<le> e"
| "apart [] \<longleftrightarrow> True"

lemma merge_stamp_apart:
  assumes "apart rs" "\<forall>(s, e) \<in> set rs. e \<le> ts"
  shows "apart (merge_stamp ts rs) \<and> (\<forall>(s, e) \<in> set (merge_stamp ts rs). e \<le> ts) \<and>
    (in_ranges x (merge_stamp ts rs) \<longleftrightarrow> in_ranges x rs \<or> ts - PRECURSOR_WINDOW \<le> x \<and> x \<le> ts)"
proof (cases rs)
  case (Cons r rs')
  obtain s e where r: "r = (s, e)" by (cases r)
  have se: "s + PRECURSOR_WINDOW \<le> e" "e \<le> ts" using assms Cons r by (cases rs'; auto)+
  show ?thesis
  proof (cases rs')
    case Nil
    then show ?thesis using assms Cons r se by (auto simp: in_ranges_def PRECURSOR_WINDOW_def)
  next
    case (Cons r' rs'')
    obtain s' e' where "r' = (s', e')" by (cases r')
    then show ?thesis using assms \<open>rs = r # rs'\<close> Cons r se by (auto simp: in_ranges_def PRECURSOR_WINDOW_def)
  qed
qed (auto simp: in_ranges_def PRECURSOR_WINDOW_def)

lemma merge_stamps:
  assumes "sorted stamps" "apart rs" "\<forall>(s, e) \<in> set rs. \<forall>ts \<in> set stamps. e \<le> ts"
  shows "apart (fold merge_stamp stamps rs) \<and>
    (in_ranges x (fold merge_stamp stamps rs) \<longleftrightarrow> in_ranges x rs \<or> (\<exists>ts \<in> set stamps. ts - PRECURSOR_WINDOW \<le> x \<and> x \<le> ts))"
  using assms
proof (induction stamps arbitrary: rs)
  case (Cons ts stamps)
  have m: "apart (merge_stamp ts rs) \<and> (\<forall>(s, e) \<in> set (merge_stamp ts rs). e \<le> ts) \<and>
    (in_ranges x (merge_stamp ts rs) \<longleftrightarrow> in_ranges x rs \<or> ts - PRECURSOR_WINDOW \<le> x \<and> x \<le> ts)"
    using Cons.prems by (intro merge_stamp_apart) auto
  have "\<forall>(s, e) \<in> set (merge_stamp ts rs). \<forall>t \<in> set stamps. e \<le> t" using m Cons.prems(1) by fastforce
  from Cons.IH [OF _ _ this] m Cons.prems(1) show ?case by auto
qed simp

lemma in_ranges_rev [simp]: "in_ranges x (rev rs) = in_ranges x rs"
  by (simp add: in_ranges_def list_ex_iff)

text \<open>The merged look-back windows of a host cover exactly the five minutes before each of its events, and no two of
  them touch.\<close>

theorem merged_windows_exact:
  "in_ranges x (merge_ranges stamps) = (\<exists>ts \<in> set stamps. ts - PRECURSOR_WINDOW \<le> x \<and> x \<le> ts) \<and> apart (rev (merge_ranges stamps))"
  using merge_stamps [of "sort stamps" "[]" x] by (simp add: merge_ranges_def in_ranges_def [of x "[]"])

section \<open>Confidence\<close>

lemma wilson_le_ratio:
  assumes "0 \<le> k" "k \<le> n" "0 < n" "0 \<le> z"
  shows "wilson_lower_bound k n z \<le> real_of_int k / real_of_int n"
proof -
  define p N where "p = real_of_int k / real_of_int n" and "N = real_of_int n"
  have N: "0 < N" "0 \<le> p" "p \<le> 1" using assms by (auto simp: p_def N_def)
  let ?y = "p * (1 - p) / N + z * z / (4 * N * N)"
  have pp: "0 \<le> p * (1 - p)" using N by simp
  have "(z * z / (2 * N) * (1 - 2 * p))\<^sup>2 \<le> z * z * ?y"
  proof -
    have "z * z * ?y - (z * z / (2 * N) * (1 - 2 * p))\<^sup>2 = z * z * (p * (1 - p)) / N + z * z * (z * z) * (p * (1 - p)) / (N * N)"
      using N by (simp add: field_simps power2_eq_square)
    moreover have "0 \<le> \<dots>" using N pp by (intro add_nonneg_nonneg divide_nonneg_nonneg mult_nonneg_nonneg [of "z * z"] mult_nonneg_nonneg [of "z * z * (z * z)"]) auto
    ultimately show ?thesis by linarith
  qed
  then have "z * z / (2 * N) * (1 - 2 * p) \<le> sqrt (z * z * ?y)" by (rule real_le_rsqrt)
  also have "\<dots> = z * sqrt ?y" using assms(4) by (simp add: real_sqrt_mult)
  finally have le: "z * z / (2 * N) * (1 - 2 * p) \<le> z * sqrt ?y" .
  have "p + z * z / (2 * N) - p * (1 + z * z / N) = z * z / (2 * N) * (1 - 2 * p)" using N by (simp add: field_simps)
  with le have "p + z * z / (2 * N) - z * sqrt ?y \<le> p * (1 + z * z / N)" by linarith
  then have "(p + z * z / (2 * N) - z * sqrt ?y) / (1 + z * z / N) \<le> p"
    using N by (subst pos_divide_le_eq) (auto intro: add_pos_nonneg)
  then show ?thesis using N assms(3) by (simp add: wilson_lower_bound_def Let_def p_def N_def)
qed

lemma wilson_nonneg [simp]: "0 \<le> wilson_lower_bound k n z"
  by (simp add: wilson_lower_bound_def Let_def)

lemma wilson_le_1:
  assumes "0 \<le> k" "k \<le> n"
  shows "wilson_lower_bound k n WILSON_Z \<le> 1"
proof (cases "0 < n")
  case True
  then have "real_of_int k / real_of_int n \<le> 1" using assms by simp
  then show ?thesis using wilson_le_ratio [OF assms True, of WILSON_Z] by (simp add: WILSON_Z_def)
qed (simp add: wilson_lower_bound_def)

section \<open>Counts and lead times\<close>

definition leads_ok :: "(int, int list) dict \<Rightarrow> bool" where
  "leads_ok leads \<longleftrightarrow> (\<forall>tpl. \<forall>d \<in> set (dget_or leads tpl []). 0 < d \<and> d \<le> PRECURSOR_WINDOW)"

text \<open>While a window is scanned, a template seen in it has been counted for the event, one not yet seen has not.\<close>

definition counts_ok :: "int list \<Rightarrow> int \<Rightarrow> (int, int) dict \<Rightarrow> bool" where
  "counts_ok seen n before \<longleftrightarrow> dict_ok before \<and>
     (\<forall>tpl c. dget before tpl = Some c \<longrightarrow> 0 < c \<and> c \<le> n \<and> (tpl \<notin> set seen \<longrightarrow> c < n))"

definition scan_ok :: "int list \<times> learned \<Rightarrow> bool" where
  "scan_ok s \<longleftrightarrow> leads_ok (le_leads (snd s)) \<and> counts_ok (fst s) (le_events (snd s)) (le_before (snd s))"

definition learned_ok :: "learned \<Rightarrow> bool" where
  "learned_ok l \<longleftrightarrow> 0 \<le> le_events l \<and> dict_ok (le_before l) \<and> leads_ok (le_leads l) \<and>
     (\<forall>tpl c. dget (le_before l) tpl = Some c \<longrightarrow> 0 < c \<and> c \<le> le_events l)"

lemma leads_ok_add:
  assumes "leads_ok leads" "0 < d" "d \<le> PRECURSOR_WINDOW"
  shows "leads_ok (dset leads tpl (dget_or leads tpl [] @ [d]))"
  using assms unfolding leads_ok_def by (auto simp: dict_simps)

lemma counts_ok_add:
  assumes "counts_ok seen n before" "tpl \<notin> set seen" "0 < n"
  shows "counts_ok (tpl # seen) n (dset before tpl (dget_or before tpl 0 + 1))"
proof -
  have "0 < dget_or before tpl 0 + 1 \<and> dget_or before tpl 0 + 1 \<le> n"
    using assms by (fastforce simp: counts_ok_def dget_or_def split: option.split)
  then show ?thesis using assms(1) by (auto simp: counts_ok_def dget_dset)
qed

lemma note_message_ok:
  assumes "scan_ok s" "0 < le_events (snd s)"
  shows "scan_ok (note_message tpl_of ts m s) \<and> le_events (snd (note_message tpl_of ts m s)) = le_events (snd s)"
proof (cases "tpl_of (snd m)")
  case (Some tpl)
  show ?thesis
  proof (cases "tpl = 0 \<or> tpl \<in> set (fst s)")
    case False
    let ?d = "ts - fst m"
    have "counts_ok (tpl # fst s) (le_events (snd s)) (dset (le_before (snd s)) tpl (dget_or (le_before (snd s)) tpl 0 + 1))"
      using assms False by (intro counts_ok_add) (auto simp: scan_ok_def)
    moreover have "leads_ok (dset (le_leads (snd s)) tpl (dget_or (le_leads (snd s)) tpl [] @ [?d]))" if "0 < ?d" "?d \<le> PRECURSOR_WINDOW"
      using leads_ok_add [OF _ that] assms(1) by (simp add: scan_ok_def)
    ultimately show ?thesis using assms False Some by (simp add: note_message_def scan_ok_def Let_def)
  qed (use assms Some in \<open>auto simp: note_message_def\<close>)
qed (use assms in \<open>simp add: note_message_def\<close>)

lemma learn_event_ok:
  assumes "learned_ok l"
  shows "learned_ok (learn_event tpl_of candidates ev l) \<and> le_events (learn_event tpl_of candidates ev l) \<le> le_events l + 1"
proof -
  have scan: "scan_ok (fold (note_message tpl_of ts) ms s) \<and> le_events (snd (fold (note_message tpl_of ts) ms s)) = le_events (snd s)"
    if "scan_ok s" "0 < le_events (snd s)" for ts ms s
    using that
  proof (induction ms arbitrary: s)
    case (Cons m ms)
    from Cons.IH [of "note_message tpl_of ts m s"] note_message_ok [OF Cons.prems, of tpl_of ts m] Cons.prems(2) show ?case by simp
  qed simp
  have "scan_ok ([], l\<lparr>le_events := le_events l + 1\<rparr>)" using assms by (fastforce simp: scan_ok_def counts_ok_def learned_ok_def)
  from scan [OF this, of "snd ev" "event_window (dget_or candidates (fst ev) []) (snd ev)"] assms show ?thesis
    by (auto simp: learn_event_def Let_def learned_ok_def scan_ok_def counts_ok_def)
qed

lemma learn_events_ok: "learned_ok (learn_events tpl_of candidates events)"
proof -
  have keep: "learned_ok (fold (learn_event tpl_of candidates) events l)" if "learned_ok l" for l
    using that
  proof (induction events arbitrary: l)
    case (Cons ev events)
    show ?case using Cons.IH [OF conjunct1 [OF learn_event_ok [OF Cons.prems, of tpl_of candidates ev]]] by simp
  qed simp
  show ?thesis unfolding learn_events_def by (rule keep) (simp add: learned_ok_def leads_ok_def dget_or_def)
qed

lemma sum_list_bounds:
  assumes "\<forall>x \<in> set xs. lo \<le> x \<and> x \<le> (hi :: int)"
  shows "int (length xs) * lo \<le> sum_list xs \<and> sum_list xs \<le> int (length xs) * hi"
  using assms by (induction xs) (auto simp: algebra_simps)

lemma mean_between:
  assumes "xs \<noteq> []" "(0 :: int) < u"
  shows "Min (set xs) div u \<le> sum_list xs div (int (length xs) * u) \<and> sum_list xs div (int (length xs) * u) \<le> Max (set xs) div u"
proof -
  have b: "int (length xs) * Min (set xs) \<le> sum_list xs \<and> sum_list xs \<le> int (length xs) * Max (set xs)"
    by (rule sum_list_bounds) simp
  have n: "0 < int (length xs)" using assms(1) by simp
  have "int (length xs) * m div (int (length xs) * u) = m div u" for m using n by simp
  then show ?thesis using zdiv_mono1 [of "int (length xs) * Min (set xs)" "sum_list xs" "int (length xs) * u"]
      zdiv_mono1 [of "sum_list xs" "int (length xs) * Max (set xs)" "int (length xs) * u"] b n assms(2) by simp
qed

lemma lead_stats_ok:
  assumes "\<forall>d \<in> set ds. 0 < d \<and> d \<le> PRECURSOR_WINDOW" "lead_stats ds = (a, mi, ma)"
  shows "0 \<le> mi \<and> mi \<le> a \<and> a \<le> ma \<and> ma \<le> 300"
proof (cases "ds = []")
  case False
  have "0 \<le> Min (set ds)" "Max (set ds) \<le> 300 * us_per_second"
    using assms(1) False by (auto simp: PRECURSOR_WINDOW_def dest: less_imp_le)
  then have "0 \<le> Min (set ds) div us_per_second" "Max (set ds) div us_per_second \<le> 300"
    using zdiv_mono1 [of "Max (set ds)" "300 * us_per_second" us_per_second] by (simp_all add: pos_imp_zdiv_nonneg_iff)
  then show ?thesis using assms(2) mean_between [OF False, of us_per_second] False by (auto simp: lead_stats_def)
qed (use assms in \<open>auto simp: lead_stats_def\<close>)

section \<open>The stored patterns\<close>

definition pattern_ok :: "pattern \<Rightarrow> bool" where
  "pattern_ok p \<longleftrightarrow> 0 \<le> pa_occurred p \<and> pa_occurred p \<le> pa_checked p \<and> 0 \<le> pa_confidence p \<and> pa_confidence p \<le> 1 \<and>
     0 \<le> pa_min p \<and> pa_min p \<le> pa_avg p \<and> pa_avg p \<le> pa_max p \<and> pa_max p \<le> 300"

definition scored :: "pattern \<Rightarrow> bool" where
  "scored p \<longleftrightarrow> 0 < pa_checked p \<longrightarrow> \<bar>pa_confidence p - wilson_lower_bound (pa_occurred p) (pa_checked p) WILSON_Z\<bar> \<le> 1 / 1000000"

text \<open>A row is fit to be used: its numbers are in range, and if its template has a row, the confidence is the Wilson bound and the
  template is not blacklisted.\<close>

definition row_ok :: "precursor_env \<Rightarrow> (string \<times> int) \<times> pattern \<Rightarrow> bool" where
  "row_ok env kp \<longleftrightarrow> pattern_ok (snd kp) \<and>
     (case pe_text env (snd (fst kp)) of
        None \<Rightarrow> True
      | Some tpl_text \<Rightarrow> scored (snd kp) \<and> \<not> is_template_blacklisted tpl_text (pe_blacklist env))"

lemma rescore_ok: "pattern_ok p \<Longrightarrow> pattern_ok (rescore p) \<and> scored (rescore p)"
  by (auto simp: pattern_ok_def rescore_def scored_def Let_def wilson_le_1)

lemma cleanup_rows_ok:
  assumes "\<forall>kp \<in> set patterns. pattern_ok (snd kp)"
  shows "\<forall>kp \<in> set (cleanup_precursor_patterns (pe_text env) (pe_blacklist env) patterns). row_ok env kp"
  using assms unfolding cleanup_precursor_patterns_def
  by (induction patterns) (auto simp: map_filter_simps cleanup_row_def row_ok_def rescore_ok split: option.splits if_splits)

lemma dict_ok_dget: "dict_ok d \<Longrightarrow> (k, v) \<in> set d \<Longrightarrow> dget d k = Some v"
  by (simp add: dict_ok_def dkeys_def dget_def)

lemma learn_pattern_ok:
  assumes "learned_ok l" "0 < le_events l" "(tpl, before) \<in> set (le_before l)" "\<forall>kp \<in> set patterns. row_ok env kp"
  shows "\<forall>kp \<in> set (learn_pattern (pe_text env) (pe_blacklist env) event_type now l (tpl, before) patterns). row_ok env kp"
proof -
  obtain a mi ma where st: "lead_stats (dget_or (le_leads l) tpl []) = (a, mi, ma)" by (metis prod_cases3)
  have b: "0 < before" "before \<le> le_events l" using assms(1) dict_ok_dget [OF _ assms(3)] by (simp_all add: learned_ok_def)
  have "0 \<le> mi \<and> mi \<le> a \<and> a \<le> ma \<and> ma \<le> 300"
    by (rule lead_stats_ok [OF _ st]) (use assms(1) in \<open>auto simp: learned_ok_def leads_ok_def\<close>)
  then show ?thesis using assms(4) b st wilson_le_1 [of before "le_events l"]
    by (auto simp: learn_pattern_def Let_def row_ok_def pattern_ok_def scored_def split: option.splits dest!: subsetD [OF set_dset])
qed

lemma learn_patterns_ok:
  assumes "learned_ok l" "0 < le_events l" "set tbs \<subseteq> set (le_before l)" "\<forall>kp \<in> set patterns. row_ok env kp"
  shows "\<forall>kp \<in> set (fold (learn_pattern (pe_text env) (pe_blacklist env) event_type now l) tbs patterns). row_ok env kp"
  using assms(3,4)
proof (induction tbs arbitrary: patterns)
  case (Cons tb tbs)
  obtain tpl before where tb: "tb = (tpl, before)" by (cases tb)
  have "\<forall>kp \<in> set (learn_pattern (pe_text env) (pe_blacklist env) event_type now l tb patterns). row_ok env kp"
    unfolding tb using Cons.prems tb by (intro learn_pattern_ok [OF assms(1,2)]) auto
  with Cons.IH [OF _ this] Cons.prems(1) show ?case by simp
qed simp

lemma learn_for_event_ok:
  assumes "learn_precursors_for_event env event_type events now patterns = Some ps" "\<forall>kp \<in> set patterns. row_ok env kp"
  shows "\<forall>kp \<in> set ps. row_ok env kp"
proof (cases "fetch_precursor_messages (pe_query env) events")
  case (Some candidates)
  define l where "l = learn_events (\<lambda>m. dget (pe_cache env) (pe_hash env m)) candidates events"
  have ok: "learned_ok l" unfolding l_def by (rule learn_events_ok)
  have ps: "(if le_events l = 0 then patterns
      else fold (learn_pattern (pe_text env) (pe_blacklist env) event_type now l) (le_before l) patterns) = ps"
    using assms(1) Some unfolding learn_precursors_for_event_def l_def by (simp only: Let_def option.case option.inject simp_thms refl split: if_splits)
  show ?thesis
  proof (cases "le_events l = 0")
    case False
    then have "0 < le_events l" using ok by (simp add: learned_ok_def)
    from learn_patterns_ok [OF ok this order_refl assms(2), of event_type now] ps False show ?thesis by simp
  qed (use ps assms(2) in simp)
qed (use assms in \<open>simp add: learn_precursors_for_event_def\<close>)

lemma guarded_ok: "\<forall>kp \<in> set patterns. row_ok env kp \<Longrightarrow> \<forall>kp \<in> set (guarded_learning env event_type stamps now patterns). row_ok env kp"
  by (simp add: guarded_learning_def split: option.split) (use learn_for_event_ok in blast)

text \<open>After a learning pass that completes, started from stored patterns with numbers in range and whatever confidences,
  every stored pattern has a count of at most the events looked at, lead times that satisfy
  \<^verbatim>\<open>0 <= min <= avg <= max <= 300\<close> and a confidence between 0 and 1; and if its template still has a row, its
  confidence is the Wilson bound of its counts (to within a millionth) and the template is not blacklisted.\<close>

theorem learned_patterns_sound:
  assumes "\<forall>kp \<in> set patterns. pattern_ok (snd kp)"
    and "learn_precursors env downs fails incidents now patterns = Some patterns'"
  shows "list_all (row_ok env) patterns'"
proof -
  let ?ps = "cleanup_precursor_patterns (pe_text env) (pe_blacklist env) patterns"
  have clean: "\<forall>kp \<in> set ?ps. row_ok env kp" by (rule cleanup_rows_ok [OF assms(1)])
  obtain ds ps1 where p1: "(if ds = [] then Some ?ps else learn_precursors_for_event env ''host_down'' ds now ?ps) = Some ps1"
      and p: "patterns' = guarded_learning env ''incident'' incidents now (guarded_learning env ''integration_fail'' fails now ps1)"
    using assms(2) by (auto simp: learn_precursors_def Let_def split: option.splits)
  have "\<forall>kp \<in> set ps1. row_ok env kp"
  proof (cases "ds = []")
    case False
    with p1 show ?thesis by (intro learn_for_event_ok [OF _ clean]) simp
  qed (use p1 clean in simp)
  then have "\<forall>kp \<in> set patterns'. row_ok env kp" unfolding p by (intro guarded_ok)
  then show ?thesis by (simp add: list_all_iff)
qed

text \<open>A stored pattern with a naive confidence of 1 from three observations, and no new events: it is rescored.\<close>

definition naive_pattern :: pattern where
  "naive_pattern = \<lparr>pa_confidence = 1, pa_avg = 20, pa_min = 5, pa_max = 60, pa_occurred = 3, pa_checked = 3, pa_updated = 0\<rparr>"

definition quiet_env :: precursor_env where
  "quiet_env = \<lparr>pe_query = (\<lambda>_ _. Some []), pe_hash = (\<lambda>m. m), pe_cache = [], pe_text = (\<lambda>_. Some ''link down''), pe_blacklist = []\<rparr>"

theorem learned_patterns_sound_witness:
  "list_all (row_ok quiet_env) [((''host_down'', 7), rescore naive_pattern)]"
proof -
  have "learn_precursors quiet_env (Some []) None (Some []) 0 [((''host_down'', 7), naive_pattern)] =
      Some [((''host_down'', 7), rescore naive_pattern)]"
    by (simp add: learn_precursors_def cleanup_precursor_patterns_def cleanup_row_def guarded_learning_def quiet_env_def map_filter_simps
        is_template_blacklisted_def)
  from learned_patterns_sound [OF _ this] show ?thesis by (simp add: pattern_ok_def naive_pattern_def)
qed

end
