(* ===== verification/Fleet_Patterns.thy ===== *)
theory Fleet_Patterns
  imports Correlation_Rules Predictor_Config Interfaces
begin

text \<open>
  Templates seen on several hosts at once (\<^verbatim>\<open>detect_fleet_patterns\<close> in \<^verbatim>\<open>backend/services/log_intelligence.py\<close>) and what
  the streak counters of the correlation engine make of them. The rows ClickHouse returns, its count for yesterday
  (\<open>Inl\<close> where the query raises) and the blacklist are arguments.
\<close>

section \<open>One pass\<close>

definition FLEET_NOISE_MAX :: int where "FLEET_NOISE_MAX = 70"

record fleet_pattern =
  fp_hash :: string
  fp_host_count :: int
  fp_sources :: string
  fp_first :: datetime
  fp_checked :: datetime
  fp_active :: bool

text \<open>\<open>fe_meta\<close> is what the table of templates has for a hash: text and noise score.\<close>

record fleet_env =
  fe_rows :: "fleet_issue list"
  fe_meta :: "string \<Rightarrow> (string option \<times> int option) option"
  fe_blacklist :: "(string \<Rightarrow> bool) list"
  fe_yesterday :: "string \<Rightarrow> int result"
  fe_now :: datetime

definition tpl_meta :: "fleet_env \<Rightarrow> string \<Rightarrow> string \<times> int" where
  "tpl_meta i th = (case fe_meta i th of
     None \<Rightarrow> ([], 50)
   | Some (text, score) \<Rightarrow> (case text of None \<Rightarrow> [] | Some s \<Rightarrow> s, case score of None \<Rightarrow> 50 | Some n \<Rightarrow> n))"

definition fleet_skip :: "fleet_env \<Rightarrow> string \<Rightarrow> bool" where
  "fleet_skip i th \<longleftrightarrow> (case tpl_meta i th of (tpl_text, noise_score) \<Rightarrow>
     is_template_blacklisted tpl_text (fe_blacklist i) \<or> noise_score \<ge> FLEET_NOISE_MAX)"

definition active_rows :: "string \<Rightarrow> fleet_pattern list \<Rightarrow> fleet_pattern list" where
  "active_rows th ps = filter (\<lambda>p. fp_hash p = th \<and> fp_active p) ps"

definition refresh_pattern :: "datetime \<Rightarrow> fleet_issue \<Rightarrow> fleet_pattern \<Rightarrow> fleet_pattern" where
  "refresh_pattern now r p =
     (if fp_hash p = fi_hash r \<and> fp_active p
      then p\<lparr>fp_host_count := fi_host_count r, fp_sources := join '','' (take 20 (fi_hosts r)), fp_checked := now\<rparr> else p)"

definition new_pattern :: "datetime \<Rightarrow> fleet_issue \<Rightarrow> fleet_pattern" where
  "new_pattern now r = \<lparr>fp_hash = fi_hash r, fp_host_count = fi_host_count r, fp_sources = join '','' (take 20 (fi_hosts r)),
     fp_first = now, fp_checked = now, fp_active = True\<rparr>"

text \<open>One row of the answer. \<^verbatim>\<open>scalar_one_or_none\<close> raises when more than one pattern of the template is active.\<close>

definition fleet_row :: "fleet_env \<Rightarrow> fleet_issue \<Rightarrow> fleet_issue list \<times> fleet_pattern list \<Rightarrow> (fleet_issue list \<times> fleet_pattern list) result" where
  "fleet_row i r s =
     (let th = fi_hash r in
      if fleet_skip i th then Inr s
      else case active_rows th (snd s) of
        [] \<Rightarrow> bind_result (fe_yesterday i th) (\<lambda>cnt.
               if cnt \<ge> 3 then Inr s
               else Inr (fst s @ [r\<lparr>fi_hosts := take 10 (fi_hosts r)\<rparr>], snd s @ [new_pattern (fe_now i) r]))
      | [_] \<Rightarrow> Inr (fst s, map (refresh_pattern (fe_now i) r) (snd s))
      | _ \<Rightarrow> Inl (RuntimeError ''MultipleResultsFound''))"

definition resolve_stale :: "datetime \<Rightarrow> fleet_pattern \<Rightarrow> fleet_pattern" where
  "resolve_stale now p = (if fp_active p \<and> fp_checked p < now - minutes 15 then p\<lparr>fp_active := False\<rparr> else p)"

definition detect_fleet_patterns :: "fleet_env \<Rightarrow> fleet_pattern list \<Rightarrow> (fleet_issue list \<times> fleet_pattern list) result" where
  "detect_fleet_patterns i ps =
     (if fe_rows i = [] then Inr ([], ps)
      else bind_result (fold_result (fleet_row i) (fe_rows i) ([], ps)) (\<lambda>s. Inr (fst s, map (resolve_stale (fe_now i)) (snd s))))"

section \<open>At most one active pattern per template\<close>

definition one_active :: "fleet_pattern list \<Rightarrow> bool" where
  "one_active ps \<longleftrightarrow> distinct (map fp_hash (filter fp_active ps))"

lemma active_rows_filter: "active_rows th ps = filter (\<lambda>p. fp_hash p = th) (filter fp_active ps)"
  by (simp add: active_rows_def conj_commute)

lemma one_active_rows: "one_active ps \<Longrightarrow> length (active_rows th ps) \<le> 1"
proof -
  have "length (filter (\<lambda>p. fp_hash p = th) qs) \<le> 1" if "distinct (map fp_hash qs)" for qs
    using that
  proof (induction qs)
    case (Cons a qs)
    show ?case
    proof (cases "fp_hash a = th")
      case True
      then have "\<forall>q \<in> set qs. fp_hash q \<noteq> th" using Cons.prems by (metis distinct.simps(2) image_eqI list.simps(9) list.set_map)
      with True show ?thesis by (simp add: filter_empty_conv)
    qed (use Cons in simp)
  qed simp
  then show "one_active ps \<Longrightarrow> length (active_rows th ps) \<le> 1" unfolding one_active_def active_rows_filter .
qed

lemma one_active_refresh: "one_active (map (refresh_pattern now r) ps) = one_active ps"
proof -
  have "map fp_hash (filter fp_active (map (refresh_pattern now r) ps)) = map fp_hash (filter fp_active ps)"
    by (induction ps) (auto simp: refresh_pattern_def)
  then show ?thesis by (simp add: one_active_def)
qed

lemma one_active_resolve: "one_active ps \<Longrightarrow> one_active (map (resolve_stale now) ps)"
proof -
  have "map fp_hash (filter fp_active (map (resolve_stale now) ps)) = map fp_hash (filter (\<lambda>p. fp_active (resolve_stale now p)) ps)"
    by (induction ps) (auto simp: resolve_stale_def)
  also have "\<dots> = map fp_hash (filter (\<lambda>p. fp_active (resolve_stale now p)) (filter fp_active ps))"
    by (induction ps) (auto simp: resolve_stale_def)
  finally show "one_active ps \<Longrightarrow> one_active (map (resolve_stale now) ps)" 
    unfolding one_active_def by (simp only: distinct_map_filter)
qed

lemma fleet_row_ok:
  assumes "one_active (snd s)" "is_ok (fe_yesterday i (fi_hash r))"
  shows "\<exists>s'. fleet_row i r s = Inr s' \<and> one_active (snd s')"
proof (cases "active_rows (fi_hash r) (snd s)")
  case Nil
  obtain cnt where c: "fe_yesterday i (fi_hash r) = Inr cnt" using assms(2) by (cases "fe_yesterday i (fi_hash r)") auto
  have "one_active (snd s @ [new_pattern now r])" for now
    using assms(1) Nil by (auto simp: one_active_def new_pattern_def active_rows_filter filter_empty_conv)
  then show ?thesis using Nil c assms(1) by (cases "3 \<le> cnt") (cases s; simp add: fleet_row_def Let_def)+
next
  case (Cons p qs)
  then have "qs = []" using one_active_rows [OF assms(1), of "fi_hash r"] by simp
  then show ?thesis using Cons assms(1) by (cases s) (simp add: fleet_row_def Let_def one_active_refresh)
qed

lemma fleet_rows_ok:
  assumes "one_active (snd s)" "\<forall>th. is_ok (fe_yesterday i th)"
  shows "\<exists>s'. fold_result (fleet_row i) rs s = Inr s' \<and> one_active (snd s')"
  using assms(1)
proof (induction rs arbitrary: s)
  case (Cons r rs)
  obtain s1 where "fleet_row i r s = Inr s1" "one_active (snd s1)" using fleet_row_ok [OF Cons.prems] assms(2) by blast
  with Cons.IH [of s1] show ?case by simp
qed simp

lemma detect_ok:
  assumes "one_active ps" "\<forall>th. is_ok (fe_yesterday i th)"
  shows "\<exists>issues ps'. detect_fleet_patterns i ps = Inr (issues, ps') \<and> one_active ps'"
proof -
  obtain s where s: "fold_result (fleet_row i) (fe_rows i) ([], ps) = Inr s" "one_active (snd s)"
    using fleet_rows_ok [of "([], ps)" i "fe_rows i"] assms by auto
  then show ?thesis using assms(1) one_active_resolve by (cases "fe_rows i = []") (auto simp: detect_fleet_patterns_def)
qed

section \<open>A template is not reported twice in a row\<close>

definition active_in :: "fleet_pattern list \<Rightarrow> string \<Rightarrow> bool" where
  "active_in ps th \<longleftrightarrow> (\<exists>p \<in> set ps. fp_hash p = th \<and> fp_active p)"

definition fresh_in :: "datetime \<Rightarrow> fleet_pattern list \<Rightarrow> string \<Rightarrow> bool" where
  "fresh_in now ps th \<longleftrightarrow> (\<exists>p \<in> set ps. fp_hash p = th \<and> fp_active p \<and> now - minutes 15 \<le> fp_checked p)"

lemma active_rows_iff: "active_rows th ps = [] \<longleftrightarrow> \<not> active_in ps th"
  by (auto simp: active_rows_def active_in_def filter_empty_conv)

lemma minutes_pos: "0 \<le> minutes 15"
  by (simp add: minutes_def)

lemma refresh_keeps [simp]:
  "fp_hash (refresh_pattern now r p) = fp_hash p" "fp_active (refresh_pattern now r p) = fp_active p"
  by (simp_all add: refresh_pattern_def)

lemma refresh_checked: "now - minutes 15 \<le> fp_checked p \<Longrightarrow> now - minutes 15 \<le> fp_checked (refresh_pattern now r p)"
  using minutes_pos by (simp add: refresh_pattern_def)

lemma kept_by_refresh:
  "active_in ps th \<Longrightarrow> active_in (map (refresh_pattern now r) ps) th"
  "fresh_in now ps th \<Longrightarrow> fresh_in now (map (refresh_pattern now r) ps) th"
  by (auto simp: active_in_def fresh_in_def intro: refresh_checked)

lemma kept_by_append:
  "active_in ps th \<Longrightarrow> active_in (ps @ qs) th" "fresh_in now ps th \<Longrightarrow> fresh_in now (ps @ qs) th"
  by (auto simp: active_in_def fresh_in_def)

lemma fresh_new: "fresh_in now (ps @ [new_pattern now r]) (fi_hash r)"
  using minutes_pos by (simp add: fresh_in_def new_pattern_def)

lemma fresh_active: "fresh_in now ps th \<Longrightarrow> active_in ps th"
  by (auto simp: active_in_def fresh_in_def)

lemma fresh_survives: "fresh_in now ps th \<Longrightarrow> active_in (map (resolve_stale now) ps) th"
  by (force simp: active_in_def fresh_in_def resolve_stale_def)

text \<open>What the issues collected so far have in common, for a pass that started from \<open>ps\<close>.\<close>

definition pass_inv :: "datetime \<Rightarrow> fleet_pattern list \<Rightarrow> fleet_issue list \<times> fleet_pattern list \<Rightarrow> bool" where
  "pass_inv now ps s \<longleftrightarrow> distinct (map fi_hash (fst s)) \<and>
     (\<forall>th \<in> set (map fi_hash (fst s)). fresh_in now (snd s) th \<and> \<not> active_in ps th) \<and> (\<forall>th. active_in ps th \<longrightarrow> active_in (snd s) th)"

lemma fleet_row_cases:
  assumes "fleet_row i r s = Inr s'"
  shows "s' = s \<or> s' = (fst s, map (refresh_pattern (fe_now i) r) (snd s)) \<or>
    \<not> active_in (snd s) (fi_hash r) \<and> s' = (fst s @ [r\<lparr>fi_hosts := take 10 (fi_hosts r)\<rparr>], snd s @ [new_pattern (fe_now i) r])"
proof (cases "active_rows (fi_hash r) (snd s)")
  case Nil
  then have "\<not> active_in (snd s) (fi_hash r)" by (simp add: active_rows_iff)
  then show ?thesis using assms Nil by (cases "fe_yesterday i (fi_hash r)") (auto simp: fleet_row_def Let_def split: if_splits)
next
  case (Cons p qs)
  then show ?thesis using assms by (auto simp: fleet_row_def Let_def split: if_splits list.splits)
qed

lemma pass_inv_row:
  assumes "pass_inv (fe_now i) ps s" "fleet_row i r s = Inr s'"
  shows "pass_inv (fe_now i) ps s'"
  using fleet_row_cases [OF assms(2)] assms(1) fresh_active [of "fe_now i" "snd s"]
  by (elim disjE conjE) (auto simp: pass_inv_def kept_by_refresh kept_by_append fresh_new)

lemma detect_reports:
  assumes "detect_fleet_patterns i ps = Inr (issues, ps')"
  shows "distinct (map fi_hash issues)" and "th \<in> set (map fi_hash issues) \<Longrightarrow> \<not> active_in ps th \<and> active_in ps' th"
proof -
  have "pass_inv (fe_now i) ps s" if "fold_result (fleet_row i) (fe_rows i) ([], ps) = Inr s" for s
    using that by (rule fold_result_invariant [of _ _ _ _ "pass_inv (fe_now i) ps"]) (simp add: pass_inv_def, rule pass_inv_row)
  then have "issues = [] \<or> (\<exists>s. pass_inv (fe_now i) ps s \<and> issues = fst s \<and> ps' = map (resolve_stale (fe_now i)) (snd s))"
    using assms by (auto simp: detect_fleet_patterns_def bind_result_Inr_iff split: if_splits)
  then show "distinct (map fi_hash issues)" "th \<in> set (map fi_hash issues) \<Longrightarrow> \<not> active_in ps th \<and> active_in ps' th"
    by (auto simp: pass_inv_def dest: fresh_survives)
qed

text \<open>The hashes a tenant's successive passes report, if none of them fails.\<close>

fun fleet_reports :: "fleet_env list \<Rightarrow> fleet_pattern list \<Rightarrow> string list list option" where
  "fleet_reports [] ps = Some []"
| "fleet_reports (i # is) ps =
     (case detect_fleet_patterns i ps of
        Inl _ \<Rightarrow> None
      | Inr (issues, ps') \<Rightarrow> map_option (\<lambda>hss. map fi_hash issues # hss) (fleet_reports is ps'))"

text \<open>The counter key of the fleet-wide rule, and a complete cycle in which it hits.\<close>

definition fleet_key :: "(string \<Rightarrow> string) \<Rightarrow> string \<Rightarrow> string \<times> string" where
  "fleet_key sha th = (''fleet_wide_issue_'' @ take 8 th, hash_host_ids sha [0])"

definition fleet_cycle :: "(string \<Rightarrow> string) \<Rightarrow> int \<Rightarrow> string list \<Rightarrow> cycle" where
  "fleet_cycle sha t hs = \<lparr>cyc_tenant = t, cyc_keys = map (fleet_key sha) hs, cyc_complete = True\<rparr>"

abbreviation alternating :: "string list list \<Rightarrow> bool" where
  "alternating \<equiv> successively (\<lambda>a b. set a \<inter> set b = {})"

lemma reports_alternate:
  assumes "fleet_reports is ps = Some hss"
  shows "alternating hss \<and> list_all distinct hss \<and> (hss \<noteq> [] \<longrightarrow> (\<forall>th \<in> set (hd hss). \<not> active_in ps th))"
  using assms
proof (induction "is" arbitrary: ps hss)
  case (Cons i "is")
  obtain issues ps' rest where d: "detect_fleet_patterns i ps = Inr (issues, ps')" and r: "fleet_reports is ps' = Some rest"
      and h: "hss = map fi_hash issues # rest"
    using Cons.prems by (auto split: sum.splits)
  note dr = detect_reports [OF d]
  show ?case using Cons.IH [OF r] dr h by (cases rest) (auto simp del: set_map)
qed simp

lemma fleet_key_eq: "fleet_key sha a = fleet_key sha b \<longleftrightarrow> take 8 a = take 8 b"
  by (simp add: fleet_key_def)

lemma streak_le_1:
  assumes "successively (\<lambda>a b. \<not> (k \<in> set (cyc_keys a) \<and> k \<in> set (cyc_keys b))) cs"
    and "\<forall>c \<in> set cs. cyc_tenant c = t \<and> cyc_complete c"
  shows "streak t k cs \<le> 1"
proof (cases cs)
  case (Cons c older)
  then show ?thesis using assms by (cases older) auto
qed simp

lemma streak_alternating:
  assumes "alternating hss" "inj_on (take 8) (\<Union> (set ` set hss))"
  shows "streak t (fleet_key sha th) (rev (map (fleet_cycle sha t) hss)) \<le> 1"
proof (rule streak_le_1)
  have "\<not> (fleet_key sha th \<in> set (cyc_keys (fleet_cycle sha t a)) \<and> fleet_key sha th \<in> set (cyc_keys (fleet_cycle sha t b)))"
    if "a \<in> set hss" "b \<in> set hss" "set a \<inter> set b = {}" for a b
  proof
    assume "fleet_key sha th \<in> set (cyc_keys (fleet_cycle sha t a)) \<and> fleet_key sha th \<in> set (cyc_keys (fleet_cycle sha t b))"
    then obtain x y where xy: "x \<in> set a" "y \<in> set b" "take 8 th = take 8 x" "take 8 th = take 8 y"
      by (auto simp: fleet_cycle_def fleet_key_eq)
    then have "x = y" using inj_onD [OF assms(2), of x y] that(1,2) by auto
    with xy that(3) show False by auto
  qed
  then have "successively (\<lambda>a b. \<not> (fleet_key sha th \<in> set (cyc_keys (fleet_cycle sha t a)) \<and>
      fleet_key sha th \<in> set (cyc_keys (fleet_cycle sha t b)))) hss"
    by (rule successively_mono [OF assms(1)])
  then have "successively (\<lambda>a b. \<not> (fleet_key sha th \<in> set (cyc_keys a) \<and> fleet_key sha th \<in> set (cyc_keys b)))
      (map (fleet_cycle sha t) hss)"
    by (simp only: successively_map)
  then show "successively (\<lambda>a b. \<not> (fleet_key sha th \<in> set (cyc_keys a) \<and> fleet_key sha th \<in> set (cyc_keys b)))
      (rev (map (fleet_cycle sha t) hss))"
    by (simp only: successively_rev conj_commute)
qed (auto simp: fleet_cycle_def)

text \<open>C26. The fleet-wide rule asks for a template in two cycles in a row, but a template that was reported is known in the next
  cycle and not reported again. So over any complete cycles of a tenant, whatever ClickHouse answers, no counter of the
  rule ever exceeds one (the first eight characters of the reported hashes being distinct): with the default of two
  cycles the rule never opens an incident.\<close>

theorem fleet_rule_never_due:
  assumes "fleet_reports inputs ps = Some hss" and "inj_on (take 8) (\<Union> (set ` set hss))"
  shows "dget_or (hit_counts (fold run_cycle (map (fleet_cycle sha t) hss) no_hits)) (Some t, fleet_key sha th) 0 \<le> 1"
proof -
  have r: "alternating hss" "list_all distinct hss" using reports_alternate [OF assms(1)] by auto
  have "distinct (map (fleet_key sha) hs)" if "hs \<in> set hss" for hs
    using that r(2) assms(2) by (auto simp: distinct_map list_all_iff inj_on_def fleet_key_eq)
  then have "\<forall>c \<in> set (map (fleet_cycle sha t) hss). distinct (cyc_keys c)" by (auto simp: fleet_cycle_def)
  from streak_refines [OF this, of t "fleet_key sha th"] streak_alternating [OF r(1) assms(2), of t sha th] show ?thesis by simp
qed

text \<open>A template on four hosts in two successive cycles: reported in the first one only.\<close>

definition four_hosts :: "datetime \<Rightarrow> fleet_env" where
  "four_hosts now = \<lparr>fe_rows = [\<lparr>fi_hash = ''a1b2c3d4e5'', fi_host_count = 4, fi_hosts = [''10.0.0.1'', ''10.0.0.2'', ''10.0.0.3'', ''10.0.0.4'']\<rparr>],
     fe_meta = (\<lambda>_. None), fe_blacklist = [], fe_yesterday = (\<lambda>_. Inr 0), fe_now = now\<rparr>"

lemma four_hosts_reports: "fleet_reports [four_hosts 0, four_hosts us_per_minute] [] = Some [[''a1b2c3d4e5''], []]"
  by (simp add: four_hosts_def detect_fleet_patterns_def fleet_row_def fleet_skip_def tpl_meta_def is_template_blacklisted_def FLEET_NOISE_MAX_def
      active_rows_def new_pattern_def refresh_pattern_def resolve_stale_def minutes_def)

theorem fleet_rule_never_due_witness:
  "dget_or (hit_counts (fold run_cycle (map (fleet_cycle (\<lambda>s. s) 1) [[''a1b2c3d4e5''], []]) no_hits)) (Some 1, fleet_key (\<lambda>s. s) ''a1b2c3d4e5'') 0 \<le> 1"
  by (rule fleet_rule_never_due [OF four_hosts_reports]) simp

text \<open>When no template is on three hosts, the pass returns before it resolves old patterns: after any number of such passes
  over any time an active pattern is still active, and when its template comes back on many hosts, however much later, it is
  not reported.\<close>

theorem quiet_passes_keep_pattern:
  assumes "active_in ps th" and "\<forall>i \<in> set quiet. fe_rows i = []" and "fleet_reports (quiet @ [i]) ps = Some hss"
  shows "th \<notin> set (last hss)"
proof -
  have "fleet_reports (quiet @ [i]) ps = map_option (\<lambda>hss. replicate (length quiet) [] @ hss) (fleet_reports [i] ps)"
    using assms(2)
  proof (induction quiet)
    case (Cons q quiet)
    then show ?case by (cases "fleet_reports [i] ps") (auto simp: detect_fleet_patterns_def [of q] simp del: fleet_reports.simps(2)
        simp add: fleet_reports.simps(2) [of q])
  qed (cases "fleet_reports [i] ps"; simp)
  then obtain h where "fleet_reports [i] ps = Some h" "hss = replicate (length quiet) [] @ h"
    using assms(3) by (cases "fleet_reports [i] ps") (simp_all del: fleet_reports.simps)
  moreover from this(1) obtain hs where "h = [hs]" by (auto split: sum.splits)
  ultimately show ?thesis using reports_alternate [of "[i]" ps h] assms(1) by auto
qed

theorem quiet_passes_keep_pattern_witness:
  "\<exists>hss. fleet_reports ([(four_hosts (days 1))\<lparr>fe_rows := []\<rparr>] @ [four_hosts (days 30)]) [new_pattern 0 (hd (fe_rows (four_hosts 0)))] = Some hss \<and>
    ''a1b2c3d4e5'' \<notin> set (last hss)"
proof -
  have "fleet_reports ([(four_hosts (days 1))\<lparr>fe_rows := []\<rparr>] @ [four_hosts (days 30)]) [new_pattern 0 (hd (fe_rows (four_hosts 0)))] = Some [[], []]"
    by (simp add: four_hosts_def detect_fleet_patterns_def fleet_row_def fleet_skip_def tpl_meta_def is_template_blacklisted_def FLEET_NOISE_MAX_def
        active_rows_def new_pattern_def Let_def)
  with quiet_passes_keep_pattern [OF _ _ this, of "''a1b2c3d4e5''"] show ?thesis by (auto simp: active_in_def new_pattern_def four_hosts_def)
qed

section \<open>The lookup of the active pattern never fails\<close>

definition fleet_step :: "fleet_env \<Rightarrow> fleet_pattern list \<Rightarrow> fleet_pattern list" where
  "fleet_step i ps = (case detect_fleet_patterns i ps of Inl _ \<Rightarrow> ps | Inr (_, ps') \<Rightarrow> ps')"

lemma one_active_new: "one_active ps \<Longrightarrow> \<not> active_in ps (fi_hash r) \<Longrightarrow> one_active (ps @ [new_pattern now r])"
  by (auto simp: one_active_def new_pattern_def active_in_def)

lemma detect_one_active:
  assumes "detect_fleet_patterns i ps = Inr (issues, ps')" "one_active ps"
  shows "one_active ps'"
proof -
  have "one_active (snd s')" if "one_active (snd s)" "fleet_row i r s = Inr s'" for r s s'
    using fleet_row_cases [OF that(2)] that(1) by (elim disjE conjE) (simp_all add: one_active_refresh one_active_new)
  then have "one_active (snd s)" if "fold_result (fleet_row i) (fe_rows i) ([], ps) = Inr s" for s
    using fold_result_invariant [OF that, of "\<lambda>s. one_active (snd s)"] assms(2) by simp
  then show ?thesis using assms one_active_resolve by (auto simp: detect_fleet_patterns_def bind_result_Inr_iff split: if_splits)
qed

interpretation fleet_passes: step_system fleet_step one_active
  by unfold_locales (auto simp: fleet_step_def split: sum.splits dest: detect_one_active)

text \<open>Whatever passes ran before on an empty table, with whatever answers and failures, a pass whose queries are answered
  completes: two active patterns of one template, on which the lookup would raise, never exist.\<close>

theorem fleet_pass_completes:
  assumes "\<forall>th. is_ok (fe_yesterday i th)"
  shows "is_ok (detect_fleet_patterns i (fold fleet_step is []))"
proof -
  have "one_active (fold fleet_step is [])" by (rule fleet_passes.run_good) (simp add: one_active_def)
  from detect_ok [OF this assms] show ?thesis by auto
qed

theorem fleet_pass_completes_witness:
  "is_ok (detect_fleet_patterns (four_hosts us_per_minute) (fold fleet_step [four_hosts 0] []))"
  by (rule fleet_pass_completes) (simp add: four_hosts_def)

end
