(* ===== verification/Predictions.thy ===== *)
theory Predictions
  imports Json Interfaces
begin

text \<open>
  Disk-full predictions (\<^verbatim>\<open>backend/services/predictions.py\<close>, \<^verbatim>\<open>backend/services/_sampling.py\<close>): which snapshots are loaded, the
  series of fill levels they hold, the least-squares line through a series, and the cache the request paths read.
  Fill levels are exact rationals, times are naive UTC. \<open>frepr\<close> is the text of a float, \<open>label_of\<close> the label of an
  integration type; the snapshots are arguments.
\<close>

section \<open>Sampling\<close>

text \<open>\<^verbatim>\<open>int(i * step)\<close> with \<^verbatim>\<open>step = tail_start / remaining\<close>, without the rounding of the quotient.\<close>

definition head_index :: "nat \<Rightarrow> nat \<Rightarrow> nat \<Rightarrow> nat" where
  "head_index tail_start remaining i = min (i * tail_start div remaining) (tail_start - 1)"

definition select_sample_indices :: "nat \<Rightarrow> nat \<Rightarrow> nat \<Rightarrow> nat list" where
  "select_sample_indices len budget keep_newest =
     (if len = 0 then []
      else if len \<le> budget then [0..<len]
      else (let keep = min keep_newest len; tail_start = len - keep; remaining = budget - keep in
            sort (remdups ((if remaining > 0 \<and> tail_start > 0 then map (head_index tail_start remaining) [0..<remaining] else [])
                           @ [tail_start..<len]))))"

section \<open>The line through a series\<close>

record prediction =
  pr_current :: rat
  pr_slope :: rat
  pr_days :: "int option"
  pr_r_squared :: rat

definition round_to :: "nat \<Rightarrow> rat \<Rightarrow> rat" where
  "round_to d q = of_int (round_half_even (q * 10 ^ d)) / 10 ^ d"

definition days_axis :: "(rat \<times> rat) list \<Rightarrow> (rat \<times> rat) list" where
  "days_axis series = map (\<lambda>(t, pct). ((t - fst (hd series)) / 86400, pct)) series"

definition sum_of :: "('a \<Rightarrow> rat) \<Rightarrow> 'a list \<Rightarrow> rat" where
  "sum_of f ps = sum_list (map f ps)"

definition fit_denom :: "(rat \<times> rat) list \<Rightarrow> rat" where
  "fit_denom ps = of_nat (length ps) * sum_of (\<lambda>(x, _). x * x) ps - sum_of fst ps * sum_of fst ps"

definition fit_slope :: "(rat \<times> rat) list \<Rightarrow> rat" where
  "fit_slope ps = (of_nat (length ps) * sum_of (\<lambda>(x, y). x * y) ps - sum_of fst ps * sum_of snd ps) / fit_denom ps"

definition fit_intercept :: "(rat \<times> rat) list \<Rightarrow> rat" where
  "fit_intercept ps = (sum_of snd ps - fit_slope ps * sum_of fst ps) / of_nat (length ps)"

text \<open>The squared distances of the points from a line.\<close>

definition residual :: "rat \<Rightarrow> rat \<Rightarrow> (rat \<times> rat) list \<Rightarrow> rat" where
  "residual slope intercept ps = sum_of (\<lambda>(x, y). (y - (slope * x + intercept))\<^sup>2) ps"

definition spread :: "(rat \<times> rat) list \<Rightarrow> rat" where
  "spread ps = (let mean_y = sum_of snd ps / of_nat (length ps) in sum_of (\<lambda>(_, y). (y - mean_y)\<^sup>2) ps)"

definition r_squared :: "(rat \<times> rat) list \<Rightarrow> rat" where
  "r_squared ps = (if spread ps > 0 then 1 - residual (fit_slope ps) (fit_intercept ps) ps / spread ps else 0)"

definition days_until_full :: "rat \<Rightarrow> rat \<Rightarrow> int option" where
  "days_until_full slope current_pct = (if slope \<le> 1 / 1000 then None else Some (max 0 (round_half_even ((100 - current_pct) / slope))))"

definition linear_predict :: "(rat \<times> rat) list \<Rightarrow> prediction option" where
  "linear_predict series =
     (if length series < 3 then None
      else (let ps = days_axis series; current_pct = snd (last ps) in
            if \<bar>fit_denom ps\<bar> < 1 / 10 ^ 10 then None
            else Some \<lparr>pr_current = round_to 1 current_pct, pr_slope = round_to 4 (fit_slope ps),
                   pr_days = days_until_full (fit_slope ps) current_pct, pr_r_squared = round_to 3 (max 0 (r_squared ps))\<rparr>))"

text \<open>
  A level can be infinite or NaN in JSON. Then the slope is NaN, the comparison with 0.001 fails and \<^verbatim>\<open>round\<close> raises; only
  the times decide whether the slope is computed at all.
\<close>

fun finite_level :: "rat \<times> pyfloat \<Rightarrow> (rat \<times> rat) option" where
  "finite_level (t, Fin q) = Some (t, q)"
| "finite_level _ = None"

definition predict_series :: "((rat \<times> rat) list \<Rightarrow> (rat \<times> rat) list) \<Rightarrow> (rat \<times> pyfloat) list \<Rightarrow> prediction option result" where
  "predict_series order series =
     (if length series < 3 then Inr None
      else if list_all (\<lambda>p. finite_level p \<noteq> None) series then Inr (linear_predict (order (List.map_filter finite_level series)))
      else if \<bar>fit_denom (days_axis (map (\<lambda>(t, _). (t, 0)) series))\<bar> < 1 / 10 ^ 10 then Inr None
      else Inl (ValueError ''cannot convert float NaN to integer''))"

section \<open>Series from snapshots\<close>

definition float_of :: "json \<Rightarrow> pyfloat result" where
  "float_of v = (case to_float v of Some f \<Rightarrow> Inr f | None \<Rightarrow> Inl (case v of JStr s \<Rightarrow> ValueError s | _ \<Rightarrow> TypeError))"

text \<open>\<^verbatim>\<open>v > bound\<close>: only numbers compare.\<close>

fun num_gt :: "json \<Rightarrow> rat \<Rightarrow> bool result" where
  "num_gt (JInt i) b = Inr (of_int i > b)"
| "num_gt (JFloat f) b = Inr (flt_less (Fin b) f)"
| "num_gt (JBool v) b = Inr ((if v then 1 else 0) > b)"
| "num_gt _ b = Inl TypeError"

text \<open>A name is a dictionary key: a list or a dict cannot be one.\<close>

fun hashable :: "json \<Rightarrow> bool" where
  "hashable (JList _) = False"
| "hashable (JDict _) = False"
| "hashable _ = True"

type_synonym series = "(json, (rat \<times> pyfloat) list) dict"

definition add_point :: "rat \<Rightarrow> json \<Rightarrow> json \<Rightarrow> series \<Rightarrow> series result" where
  "add_point ts name pct s =
     (if \<not> hashable name then Inl TypeError
      else bind_result (float_of pct) (\<lambda>v. Inr (dset s name (dget_or s name [] @ [(ts, v)]))))"

definition pool_point :: "rat \<Rightarrow> json \<Rightarrow> series \<Rightarrow> series result" where
  "pool_point ts pool s =
     bind_result (jget pool ''name'' (JStr ''?'')) (\<lambda>name. bind_result (jget pool ''pct'' JNull) (\<lambda>pct.
       if pct = JNull then Inr s else add_point ts name pct s))"

definition node_point :: "rat \<Rightarrow> json \<Rightarrow> series \<Rightarrow> series result" where
  "node_point ts node s =
     bind_result (jget node ''name'' (JStr ''?'')) (\<lambda>name. bind_result (jget node ''disk_pct'' JNull) (\<lambda>pct.
       if pct = JNull then Inr s
       else bind_result (jget node ''disk_total_gb'' (JInt 0)) (\<lambda>total. bind_result (num_gt total 0) (\<lambda>sized.
         if sized then add_point ts name pct s else Inr s))))"

definition each_entry :: "json \<Rightarrow> string \<Rightarrow> (json \<Rightarrow> 's \<Rightarrow> 's result) \<Rightarrow> 's \<Rightarrow> 's result" where
  "each_entry data key f s = bind_result (jget data key (JList [])) (\<lambda>v. bind_result (json_iter v) (\<lambda>xs. fold_result f xs s))"

definition seconds_of :: "datetime \<Rightarrow> rat" where
  "seconds_of t = of_int t / 1000000"

definition snapshot_points :: "bool \<Rightarrow> datetime \<times> string option \<Rightarrow> series \<Rightarrow> series result" where
  "snapshot_points node_disks snap s =
     (case snd snap of
        None \<Rightarrow> Inr s
      | Some text \<Rightarrow>
          (if text = [] then Inr s
           else case loads text of
             None \<Rightarrow> Inr s
           | Some data \<Rightarrow>
               bind_result (each_entry data ''storage_pools'' (pool_point (seconds_of (fst snap))) s) (\<lambda>s1.
                 if node_disks then each_entry data ''nodes'' (node_point (seconds_of (fst snap))) s1 else Inr s1)))"

section \<open>Predictions of the integrations\<close>

definition PREDICTION_SAMPLE_BUDGET :: nat where "PREDICTION_SAMPLE_BUDGET = 200"
definition PREDICTION_KEEP_NEWEST :: nat where "PREDICTION_KEEP_NEWEST = 10"

definition STORAGE_TYPES :: "string list" where "STORAGE_TYPES = [''truenas'', ''unas'', ''synology'']"
definition NODE_DISK_TYPES :: "string list" where "NODE_DISK_TYPES = [''proxmox'']"

record storage_cfg =
  sc_id :: int
  sc_name :: string
  sc_type :: string
  sc_enabled :: bool

record pool_snapshot =
  sn_id :: int
  sn_time :: datetime
  sn_data :: "string option"

text \<open>The good snapshots of the window in time order, thinned out. The second query may find fewer of them.\<close>

definition sampled :: "pool_snapshot list \<Rightarrow> pool_snapshot list" where
  "sampled rows = (let idx = select_sample_indices (length rows) PREDICTION_SAMPLE_BUDGET PREDICTION_KEEP_NEWEST in map ((!) rows) idx)"

record disk_prediction =
  dp_config :: int
  dp_config_name :: string
  dp_pool :: json
  dp_source :: string
  dp_prediction :: prediction
  dp_points :: nat

definition predict_pool ::
    "(pyfloat \<Rightarrow> string) \<Rightarrow> string \<Rightarrow> storage_cfg \<Rightarrow> json \<times> (rat \<times> pyfloat) list \<Rightarrow> (string, disk_prediction) dict \<Rightarrow> (string, disk_prediction) dict result" where
  "predict_pool frepr label cfg ns preds =
     (case ns of (name, s) \<Rightarrow>
        bind_result (predict_series (\<lambda>x. x) s) (\<lambda>p. case p of
            None \<Rightarrow> Inr preds
          | Some pr \<Rightarrow>
              (let prefix = (if sc_type cfg \<in> set NODE_DISK_TYPES then ''px-'' else []);
                   key = prefix @ show_int (sc_id cfg) @ '':'' @ py_str frepr name
               in Inr (dset preds key \<lparr>dp_config = sc_id cfg, dp_config_name = sc_name cfg, dp_pool = name, dp_source = label,
                         dp_prediction = pr, dp_points = length s\<rparr>))))"

definition predict_config ::
    "(pyfloat \<Rightarrow> string) \<Rightarrow> (string \<Rightarrow> string) \<Rightarrow> (storage_cfg \<Rightarrow> pool_snapshot list) \<Rightarrow> storage_cfg \<Rightarrow> (string, disk_prediction) dict \<Rightarrow> (string, disk_prediction) dict result" where
  "predict_config frepr label_of history cfg preds =
     (let rows = history cfg in
      if length rows < 3 then Inr preds
      else (let snapshots = sampled rows in
            if length snapshots < 3 then Inr preds
            else bind_result
              (fold_result (\<lambda>r. snapshot_points (sc_type cfg \<in> set NODE_DISK_TYPES) (sn_time r, sn_data r)) snapshots [])
              (\<lambda>pools. fold_result (predict_pool frepr (label_of (sc_type cfg) @ '': '' @ sc_name cfg) cfg) pools preds)))"

definition predict_disk_full ::
    "(pyfloat \<Rightarrow> string) \<Rightarrow> (string \<Rightarrow> string) \<Rightarrow> (storage_cfg \<Rightarrow> pool_snapshot list) \<Rightarrow> storage_cfg list \<Rightarrow> (string, disk_prediction) dict result" where
  "predict_disk_full frepr label_of history configs =
     fold_result (predict_config frepr label_of history)
       (filter (\<lambda>c. sc_enabled c \<and> sc_type c \<in> set (STORAGE_TYPES @ NODE_DISK_TYPES)) configs) []"

section \<open>Predictions of the agents\<close>

record agent_row =
  ag_id :: int
  ag_name :: string
  ag_hostname :: "string option"
  ag_enabled :: bool

record mount_state =
  ms_series :: series
  ms_meta :: "(json, json \<times> json) dict"

definition disk_point :: "rat \<Rightarrow> json \<Rightarrow> mount_state \<Rightarrow> mount_state result" where
  "disk_point ts disk s =
     bind_result (jget disk ''mount'' (JStr ''/'')) (\<lambda>mount. bind_result (jget disk ''pct'' JNull) (\<lambda>pct.
     bind_result (jget disk ''total_gb'' (JInt 0)) (\<lambda>total.
       if pct = JNull then Inr s
       else bind_result (num_gt total (1 / 2)) (\<lambda>sized.
         if \<not> sized then Inr s
         else bind_result (add_point ts mount pct (ms_series s)) (\<lambda>series. bind_result (jget disk ''used_gb'' JNull) (\<lambda>used.
           Inr \<lparr>ms_series = series, ms_meta = dset (ms_meta s) mount (total, used)\<rparr>))))))"

text \<open>A row of \<^verbatim>\<open>agent_metrics\<close>: its time, when it is one, and the payload.\<close>

definition metric_points :: "datetime option \<times> string option \<Rightarrow> mount_state \<Rightarrow> mount_state result" where
  "metric_points snap s =
     (case snap of
        (Some t, Some text) \<Rightarrow>
          (if text = [] then Inr s
           else case loads text of None \<Rightarrow> Inr s | Some data \<Rightarrow> each_entry data ''disks'' (disk_point (seconds_of t)) s)
      | _ \<Rightarrow> Inr s)"

record agent_prediction =
  ap_agent :: int
  ap_name :: string
  ap_hostname :: "string option"
  ap_mount :: json
  ap_source :: string
  ap_prediction :: prediction
  ap_points :: nat
  ap_meta :: "(json \<times> json) option"

text \<open>\<^verbatim>\<open>series.sort()\<close>: by time, then by level.\<close>

definition by_time_level :: "(rat \<times> rat) list \<Rightarrow> (rat \<times> rat) list" where
  "by_time_level s = sort_key fst (sort_key snd s)"

definition predict_mount ::
    "(pyfloat \<Rightarrow> string) \<Rightarrow> agent_row \<Rightarrow> (json, json \<times> json) dict \<Rightarrow> json \<times> (rat \<times> pyfloat) list \<Rightarrow> (string, agent_prediction) dict \<Rightarrow> (string, agent_prediction) dict result" where
  "predict_mount frepr agent meta ms preds =
     (case ms of (mount, s) \<Rightarrow>
        bind_result (predict_series by_time_level s) (\<lambda>p. case p of
            None \<Rightarrow> Inr preds
          | Some pr \<Rightarrow>
              Inr (dset preds (''agent-'' @ show_int (ag_id agent) @ '':'' @ py_str frepr mount)
                \<lparr>ap_agent = ag_id agent, ap_name = ag_name agent, ap_hostname = ag_hostname agent, ap_mount = mount,
                 ap_source = ''Agent: '' @ (case ag_hostname agent of Some h \<Rightarrow> (if h = [] then ag_name agent else h) | None \<Rightarrow> ag_name agent),
                 ap_prediction = pr, ap_points = length s, ap_meta = dget meta mount\<rparr>)))"

definition predict_agent ::
    "(pyfloat \<Rightarrow> string) \<Rightarrow> (int \<Rightarrow> (datetime option \<times> string option) list) \<Rightarrow> agent_row \<Rightarrow> (string, agent_prediction) dict \<Rightarrow> (string, agent_prediction) dict result" where
  "predict_agent frepr history agent preds =
     (let snapshots = history (ag_id agent) in
      if length snapshots < 3 then Inr preds
      else bind_result (fold_result metric_points snapshots \<lparr>ms_series = [], ms_meta = []\<rparr>)
        (\<lambda>s. fold_result (predict_mount frepr agent (ms_meta s)) (ms_series s) preds))"

definition predict_agent_disks ::
    "(pyfloat \<Rightarrow> string) \<Rightarrow> (int \<Rightarrow> (datetime option \<times> string option) list) \<Rightarrow> agent_row list \<Rightarrow> (string, agent_prediction) dict result" where
  "predict_agent_disks frepr history agents = fold_result (predict_agent frepr history) (filter ag_enabled agents) []"

section \<open>The cache\<close>

definition INTEGRATION_CACHE_TTL :: rat where "INTEGRATION_CACHE_TTL = 300"
definition AGENT_CACHE_TTL :: rat where "AGENT_CACHE_TTL = 3600"

type_synonym 'd pred_cache = "(int \<times> string, 'd \<times> rat) dict"

definition kind_of :: "string \<Rightarrow> string" where
  "kind_of kind = (if kind = ''agent'' then ''agent'' else ''integration'')"

definition cached_predictions :: "rat \<Rightarrow> string \<Rightarrow> rat \<Rightarrow> int \<Rightarrow> 'd pred_cache \<Rightarrow> 'd option" where
  "cached_predictions now kind max_age tid cache =
     (case dget cache (tid, kind_of kind) of
        None \<Rightarrow> None
      | Some hit \<Rightarrow> if now - snd hit < max_age then Some (fst hit) else None)"

definition store_predictions :: "rat \<Rightarrow> string \<Rightarrow> 'd \<Rightarrow> int \<Rightarrow> 'd pred_cache \<Rightarrow> 'd pred_cache" where
  "store_predictions now kind data tid cache = dset cache (tid, kind_of kind) (data, now)"

text \<open>\<open>compute\<close> is \<open>predict_disk_full\<close> on the tenant's database.\<close>

definition integration_predictions :: "rat \<Rightarrow> int \<Rightarrow> 'd result \<Rightarrow> 'd pred_cache \<Rightarrow> ('d \<times> 'd pred_cache) result" where
  "integration_predictions now tid compute cache =
     (case cached_predictions now ''integration'' INTEGRATION_CACHE_TTL tid cache of
        Some hit \<Rightarrow> Inr (hit, cache)
      | None \<Rightarrow> bind_result compute (\<lambda>data. Inr (data, store_predictions now ''integration'' data tid cache)))"

definition refresh_cache :: "rat \<Rightarrow> int \<Rightarrow> 'd result \<Rightarrow> 'd result \<Rightarrow> 'd pred_cache \<Rightarrow> py_error option \<times> 'd pred_cache" where
  "refresh_cache now tid disks agents cache =
     (case disks of
        Inl e \<Rightarrow> (Some e, cache)
      | Inr d \<Rightarrow>
          (let c1 = store_predictions now ''integration'' d tid cache in
           case agents of Inl e \<Rightarrow> (Some e, c1) | Inr a \<Rightarrow> (None, store_predictions now ''agent'' a tid c1)))"

section \<open>The sample\<close>

lemma head_index_near:
  assumes "j < tail_start" "0 < remaining"
  shows "\<exists>i < remaining. head_index tail_start remaining i \<le> j \<and> j \<le> head_index tail_start remaining i + tail_start div remaining + 1"
proof -
  define m where "m = j * remaining div tail_start"
  have T: "0 < tail_start" using assms(1) by simp
  have m: "m * tail_start \<le> j * remaining" "j * remaining < (m + 1) * tail_start"
    using T dividend_less_times_div [of tail_start "j * remaining"] unfolding m_def by (simp_all add: algebra_simps)
  have "m * tail_start < remaining * tail_start" using m(1) assms by (metis le_less_trans mult.commute mult_less_mono1)
  then have lt: "m < remaining" by simp
  have "m * tail_start div remaining \<le> j * remaining div remaining" using m(1) by (rule div_le_mono)
  then have le: "m * tail_start div remaining \<le> j" using assms(2) by simp
  then have h: "head_index tail_start remaining m = m * tail_start div remaining" using assms(1) by (simp add: head_index_def)
  have "m * tail_start < (m * tail_start div remaining + 1) * remaining" "tail_start < (tail_start div remaining + 1) * remaining"
    using assms(2) dividend_less_times_div [of remaining "m * tail_start"] dividend_less_times_div [of remaining tail_start]
    by (simp_all add: algebra_simps)
  then have "j * remaining < (m * tail_start div remaining + tail_start div remaining + 2) * remaining"
    using m(2) by (simp add: algebra_simps)
  then have "j < m * tail_start div remaining + tail_start div remaining + 2" by (simp only: mult_less_cancel2)
  then show ?thesis using lt le h by (intro exI [of _ m]) simp
qed

text \<open>The rows that are loaded for a series: at most the budget (or the number of newest rows asked for, if that is more), in
  time order and each once; the newest ones are all there; and when the budget leaves room for older rows, no row of
  the window is further from a loaded one before it than the even spacing and one.\<close>

theorem sample_covers_window:
  assumes "budget < len" and "keep_newest \<le> len"
  defines "idx \<equiv> select_sample_indices len budget keep_newest"
  shows "sorted_wrt (<) idx \<and> (\<forall>i \<in> set idx. i < len) \<and> length idx \<le> max budget keep_newest \<and> {len - keep_newest..<len} \<subseteq> set idx \<and>
    (keep_newest < budget \<longrightarrow> (\<forall>j < len. \<exists>i \<in> set idx. i \<le> j \<and> j \<le> i + (len - keep_newest) div (budget - keep_newest) + 1))"
proof -
  define head where "head = (if 0 < budget - keep_newest \<and> 0 < len - keep_newest
    then map (head_index (len - keep_newest) (budget - keep_newest)) [0..<budget - keep_newest] else [])"
  have idx: "idx = sort (remdups (head @ [len - keep_newest..<len]))"
    using assms(1,2) by (simp add: idx_def select_sample_indices_def head_def Let_def min_def)
  have s: "set idx = set head \<union> {len - keep_newest..<len}" by (simp add: idx)
  have "sorted_wrt (<) idx" unfolding idx by (simp add: strict_sorted_iff)
  moreover have "\<forall>i \<in> set idx. i < len" using assms(1,2) by (auto simp: s head_def head_index_def split: if_splits)
  moreover have "length idx \<le> length head + keep_newest"
    using assms(2) length_remdups_leq [of "head @ [len - keep_newest..<len]"] by (simp add: idx del: remdups_append)
  moreover have "length head \<le> budget - keep_newest" by (simp add: head_def)
  moreover have "\<exists>i \<in> set idx. i \<le> j \<and> j \<le> i + (len - keep_newest) div (budget - keep_newest) + 1" if "keep_newest < budget" "j < len" for j
  proof (cases "j < len - keep_newest")
    case True
    with head_index_near [OF True, of "budget - keep_newest"] that(1) show ?thesis by (fastforce simp: s head_def)
  next
    case False
    then show ?thesis using that(2) by (intro bexI [of _ j]) (auto simp: s)
  qed
  ultimately show ?thesis by (auto simp: s max_def)
qed

theorem sample_covers_window_witness:
  "length (select_sample_indices 1000 200 10) \<le> 200 \<and> 999 \<in> set (select_sample_indices 1000 200 10)"
  using sample_covers_window [of 200 1000 10] by auto

section \<open>The fit\<close>

lemma sum_of_simps [simp]: "sum_of f [] = 0" "sum_of f (p # ps) = f p + sum_of f ps"
  by (simp_all add: sum_of_def)

lemma residual_moments:
  "residual a b ps = sum_of (\<lambda>(_, y). y * y) ps - 2 * a * sum_of (\<lambda>(x, y). x * y) ps - 2 * b * sum_of snd ps
     + a * a * sum_of (\<lambda>(x, _). x * x) ps + 2 * a * b * sum_of fst ps + b * b * of_nat (length ps)"
  unfolding residual_def by (induction ps) (auto simp: algebra_simps power2_eq_square)

lemma residual_nonneg: "0 \<le> residual a b ps"
  unfolding residual_def sum_of_def by (intro sum_list_nonneg) auto

text \<open>The normal equations.\<close>

lemma fit_normal:
  assumes "fit_denom ps \<noteq> 0" "ps \<noteq> []"
  shows "fit_slope ps * sum_of fst ps + fit_intercept ps * of_nat (length ps) = sum_of snd ps"
    and "fit_slope ps * sum_of (\<lambda>(x, _). x * x) ps + fit_intercept ps * sum_of fst ps = sum_of (\<lambda>(x, y). x * y) ps"
proof -
  have n: "(of_nat (length ps) :: rat) \<noteq> 0" using assms(2) by simp
  show 1: "fit_slope ps * sum_of fst ps + fit_intercept ps * of_nat (length ps) = sum_of snd ps"
    using n by (simp add: fit_intercept_def)
  have D: "fit_slope ps * fit_denom ps = of_nat (length ps) * sum_of (\<lambda>(x, y). x * y) ps - sum_of fst ps * sum_of snd ps"
    using assms(1) by (simp add: fit_slope_def)
  have "of_nat (length ps) * (fit_slope ps * sum_of (\<lambda>(x, _). x * x) ps + fit_intercept ps * sum_of fst ps) =
      of_nat (length ps) * sum_of (\<lambda>(x, y). x * y) ps"
    using D 1 unfolding fit_denom_def by algebra
  with n show "fit_slope ps * sum_of (\<lambda>(x, _). x * x) ps + fit_intercept ps * sum_of fst ps = sum_of (\<lambda>(x, y). x * y) ps" by simp
qed

lemma normal_difference:
  fixes s i a b n Sx Sy Sxx Sxy Syy :: rat
  assumes "s * Sx + i * n = Sy" "s * Sxx + i * Sx = Sxy"
  shows "(Syy - 2 * a * Sxy - 2 * b * Sy + a * a * Sxx + 2 * a * b * Sx + b * b * n) -
      (Syy - 2 * s * Sxy - 2 * i * Sy + s * s * Sxx + 2 * s * i * Sx + i * i * n) =
    (a - s) * (a - s) * Sxx + 2 * (a - s) * (b - i) * Sx + (b - i) * (b - i) * n"
  unfolding assms [symmetric] by (simp add: algebra_simps)

lemma fit_minimal:
  assumes "fit_denom ps \<noteq> 0" "ps \<noteq> []"
  shows "residual (fit_slope ps) (fit_intercept ps) ps \<le> residual a b ps"
proof -
  define d e where "d = a - fit_slope ps" and "e = b - fit_intercept ps"
  have "residual a b ps - residual (fit_slope ps) (fit_intercept ps) ps = residual d e (map (\<lambda>(x, _). (x, 0)) ps)"
  proof -
    have z: "sum_of f (map (\<lambda>(x, _). (x, 0)) ps) = sum_of (\<lambda>(x, _). f (x, 0)) ps" for f :: "rat \<times> rat \<Rightarrow> rat"
      by (induction ps) auto
    have f: "sum_of (\<lambda>(x, _). x) ps = sum_of fst ps" by (induction ps) auto
    have o: "sum_of (\<lambda>(x, _). 0) ps = 0" by (induction ps) auto
    show ?thesis
      using normal_difference [OF fit_normal [OF assms], of "sum_of (\<lambda>(_, y). y * y) ps" a b] unfolding residual_moments d_def e_def
      by (simp add: z f o)
  qed
  then show ?thesis using residual_nonneg [of d e "map (\<lambda>(x, _). (x, 0)) ps"] by linarith
qed

lemma spread_residual: "spread ps = residual 0 (sum_of snd ps / of_nat (length ps)) ps"
  by (simp add: spread_def residual_def Let_def)

lemma r_squared_range:
  assumes "fit_denom ps \<noteq> 0" "ps \<noteq> []"
  shows "0 \<le> r_squared ps \<and> r_squared ps \<le> 1"
proof (cases "spread ps > 0")
  case True
  have "residual (fit_slope ps) (fit_intercept ps) ps \<le> spread ps" unfolding spread_residual by (rule fit_minimal [OF assms])
  then show ?thesis using True residual_nonneg [of "fit_slope ps" "fit_intercept ps" ps] by (simp add: r_squared_def)
qed (simp add: r_squared_def)

text \<open>The line a prediction rests on is the least-squares line: no other line through the points has a smaller sum of squared
  distances, and its coefficient of determination, which is shown as the confidence, is between 0 and 1.\<close>

theorem fit_least_squares:
  assumes "linear_predict series = Some p"
  shows "residual (fit_slope (days_axis series)) (fit_intercept (days_axis series)) (days_axis series) \<le> residual a b (days_axis series) \<and>
    0 \<le> r_squared (days_axis series) \<and> r_squared (days_axis series) \<le> 1"
proof -
  have l: "\<not> length series < 3" and d: "\<not> \<bar>fit_denom (days_axis series)\<bar> < 1 / 10 ^ 10"
    using assms by (auto simp: linear_predict_def Let_def split: if_splits)
  have "days_axis series \<noteq> []" using l by (auto simp: days_axis_def)
  moreover have "fit_denom (days_axis series) \<noteq> 0" using d by auto
  ultimately show ?thesis using fit_minimal r_squared_range by blast
qed

theorem fit_least_squares_witness:
  "let ps = days_axis [(0, 10), (86400, 20), (172800, 60)] in residual (fit_slope ps) (fit_intercept ps) ps \<le> residual 20 10 ps"
proof -
  have "linear_predict [(0, 10), (86400, 20), (172800, 60)] \<noteq> None" by code_simp
  then obtain p where "linear_predict [(0, 10), (86400, 20), (172800, 60)] = Some p" by blast
  from fit_least_squares [OF this, of 20 10] show ?thesis by (simp only: Let_def simp_thms)
qed

text \<open>A pool that fills along a line.\<close>

lemma fit_of_line:
  assumes "\<forall>(x, y) \<in> set ps. y = a * x + b" "fit_denom ps \<noteq> 0" "ps \<noteq> []"
  shows "fit_slope ps = a \<and> fit_intercept ps = b"
proof -
  have "sum_of (\<lambda>(x, y). x * y) ps = a * sum_of (\<lambda>(x, _). x * x) ps + b * sum_of fst ps \<and>
      sum_of snd ps = a * sum_of fst ps + b * of_nat (length ps)"
    using assms(1) by (induction ps) (auto simp: algebra_simps)
  then have "of_nat (length ps) * sum_of (\<lambda>(x, y). x * y) ps - sum_of fst ps * sum_of snd ps = a * fit_denom ps"
      and s: "sum_of snd ps = a * sum_of fst ps + b * of_nat (length ps)"
    by (simp_all add: fit_denom_def algebra_simps)
  then have "fit_slope ps = a" using assms(2) by (simp add: fit_slope_def)
  then show ?thesis using s assms(3) by (simp add: fit_intercept_def)
qed

lemma residual_of_line: "\<forall>(x, y) \<in> set ps. y = a * x + b \<Longrightarrow> residual a b ps = 0"
  unfolding residual_def by (induction ps) auto

text \<open>A pool whose fill level grows along a line, by more than a thousandth of a percent a day: the prediction has the pool's
  own growth (to four decimals), full confidence, and the day on which the line reaches 100 percent (rounded, never
  negative).\<close>

theorem linear_growth_predicted:
  assumes "3 \<le> length series" and "\<forall>(t, pct) \<in> set series. pct = a * ((t - fst (hd series)) / 86400) + b"
    and "1 / 1000 < a" and "1 / 10 ^ 10 \<le> \<bar>fit_denom (days_axis series)\<bar>" and "0 < spread (days_axis series)"
  shows "linear_predict series = Some \<lparr>pr_current = round_to 1 (snd (last series)), pr_slope = round_to 4 a,
    pr_days = Some (max 0 (round_half_even ((100 - snd (last series)) / a))), pr_r_squared = 1\<rparr>"
proof -
  let ?ps = "days_axis series"
  have ne: "?ps \<noteq> []" "series \<noteq> []" using assms(1) by (auto simp: days_axis_def)
  have line: "\<forall>(x, y) \<in> set ?ps. y = a * x + b" using assms(2) by (auto simp: days_axis_def)
  have "fit_denom ?ps \<noteq> 0" using assms(4) by auto
  note fit = fit_of_line [OF line this ne(1)]
  have "residual a b ?ps = 0" using line by (rule residual_of_line)
  then have "r_squared ?ps = 1" using fit assms(5) by (simp add: r_squared_def)
  moreover have "snd (last ?ps) = snd (last series)" using ne by (simp add: days_axis_def last_map case_prod_unfold)
  moreover have "round_to 3 (max 0 1) = 1" by code_simp
  ultimately show ?thesis using assms(1,3,4) fit by (simp add: linear_predict_def Let_def days_until_full_def)
qed

theorem linear_growth_predicted_witness:
  "linear_predict [(0, 70), (86400, 72), (172800, 74)] =
    Some \<lparr>pr_current = 74, pr_slope = 2, pr_days = Some 13, pr_r_squared = 1\<rparr>"
proof -
  have "linear_predict [(0, 70), (86400, 72), (172800, 74)] = Some \<lparr>pr_current = round_to 1 (snd (last [(0 :: rat, 70), (86400, 72), (172800, 74)])),
      pr_slope = round_to 4 2, pr_days = Some (max 0 (round_half_even ((100 - snd (last [(0 :: rat, 70), (86400, 72), (172800, 74)])) / 2))),
      pr_r_squared = 1\<rparr>"
  proof (rule linear_growth_predicted [of "[(0, 70), (86400, 72), (172800, 74)]" 2 70])
    show "1 / 10 ^ 10 \<le> \<bar>fit_denom (days_axis [(0, 70), (86400, 72), (172800, 74)])\<bar>" by code_simp
    show "0 < spread (days_axis [(0, 70), (86400, 72), (172800, 74)])" by code_simp
  qed simp_all
  moreover have "round_to 1 74 = 74" "round_to 4 2 = 2" "round_half_even (26 / 2) = 13" by code_simp+
  ultimately show ?thesis by simp
qed

section \<open>Tenants do not see each other's predictions\<close>

text \<open>The cache as the request paths see it: a write with its time, and the answer for a tenant and kind.\<close>

definition pred_store :: "'d pred_cache \<Rightarrow> int \<times> string \<Rightarrow> 'd \<times> rat \<Rightarrow> 'd pred_cache" where
  "pred_store cache k e = store_predictions (snd e) (snd k) (fst e) (fst k) cache"

definition pred_run :: "((int \<times> string) \<times> ('d \<times> rat)) list \<Rightarrow> 'd pred_cache" where
  "pred_run ws = foldl (\<lambda>c (k, e). pred_store c k e) [] ws"

interpretation pcache: keyed_cache "\<lambda>c k. dget c k" "\<lambda>c k e. dset c k e" "\<lambda>_. True"
  by unfold_locales (auto simp: dget_dset split: if_splits)

text \<open>Whatever predictions were stored for whatever tenants and kinds, a tenant that asks for a kind gets only data that was
  stored for that tenant and kind, less than the maximum age ago.\<close>

theorem predictions_of_own_tenant:
  assumes "cached_predictions now kind max_age tid (pred_run ws) = Some data"
  shows "\<exists>kind' time. ((tid, kind'), (data, time)) \<in> set ws \<and> kind_of kind' = kind_of kind \<and> now - time < max_age"
proof -
  obtain time where d: "dget (pred_run ws) (tid, kind_of kind) = Some (data, time)" and age: "now - time < max_age"
    using assms by (auto simp: cached_predictions_def split: option.splits if_splits)
  have "pred_run ws = foldl (\<lambda>c (k, e). dset c k e) [] (map (\<lambda>(k, e). ((fst k, kind_of (snd k)), e)) ws)"
  proof -
    have "foldl (\<lambda>c (k, e). pred_store c k e) c ws = foldl (\<lambda>c (k, e). dset c k e) c (map (\<lambda>(k, e). ((fst k, kind_of (snd k)), e)) ws)" for c
      by (induction ws arbitrary: c) (auto simp: pred_store_def store_predictions_def)
    then show ?thesis by (simp add: pred_run_def)
  qed
  with d pcache.no_foreign_answer [of "[]" "map (\<lambda>(k, e). ((fst k, kind_of (snd k)), e)) ws"]
  have "((tid, kind_of kind), (data, time)) \<in> set (map (\<lambda>(k, e). ((fst k, kind_of (snd k)), e)) ws)" by simp
  then obtain kind' where "((tid, kind'), (data, time)) \<in> set ws" "kind_of kind' = kind_of kind" by auto
  with age show ?thesis by blast
qed

theorem predictions_of_own_tenant_witness:
  "\<exists>kind' time. ((1 :: int, kind'), ([''nas''], time)) \<in> set [((2, ''agent''), ([''other''], 5)), ((1, ''agent''), ([''nas''], 10 :: rat))] \<and>
    kind_of kind' = kind_of ''agent'' \<and> 100 - time < 3600"
  by (rule predictions_of_own_tenant) (simp add: cached_predictions_def pred_run_def pred_store_def store_predictions_def kind_of_def dict_simps dget_Cons)

end
