(* ===== verification/Fair_Share.thy ===== *)
theory Fair_Share
  imports Interfaces
begin

text \<open>
  The fair-share limiter in front of the expensive work of the scheduler (\<^verbatim>\<open>FairShareLimiter\<close> in
  \<^verbatim>\<open>backend/services/tenant_jobs.py\<close>): a semaphore whose free slots go round-robin to the tenants that wait. A waiter is
  a number (its future); \<open>lm_done\<close> are the waiters that were cancelled while they waited. The caps of the tenants are
  the argument \<open>cap_for\<close> (0 for none).
\<close>

section \<open>The limiter\<close>

record limiter =
  lm_total :: nat
  lm_in_use :: nat
  lm_held :: "(int, nat) dict"
  lm_waiters :: "(int, nat list) dict"
  lm_order :: "int list"
  lm_done :: "nat set"
  lm_next :: nat

definition new_limiter :: "int \<Rightarrow> limiter" where
  "new_limiter n = \<lparr>lm_total = nat (max 1 n), lm_in_use = 0, lm_held = [], lm_waiters = [], lm_order = [], lm_done = {}, lm_next = 0\<rparr>"

definition cap :: "(int \<Rightarrow> nat) \<Rightarrow> limiter \<Rightarrow> int \<Rightarrow> nat" where
  "cap cap_for l t = (if cap_for t > 0 then min (lm_total l) (cap_for t) else lm_total l)"

definition held :: "limiter \<Rightarrow> int \<Rightarrow> nat" where
  "held l t = dget_or (lm_held l) t 0"

text \<open>The queue of a tenant without the cancelled waiters at its front.\<close>

definition live_queue :: "limiter \<Rightarrow> int \<Rightarrow> nat list" where
  "live_queue l t = dropWhile (\<lambda>f. f \<in> lm_done l) (dget_or (lm_waiters l) t [])"

definition grant :: "limiter \<Rightarrow> int \<Rightarrow> nat list \<Rightarrow> int list \<Rightarrow> limiter" where
  "grant l t queue rest = l\<lparr>lm_in_use := lm_in_use l + 1, lm_held := dset (lm_held l) t (held l t + 1),
     lm_waiters := (if tl queue = [] then ddel (lm_waiters l) t else dset (lm_waiters l) t (tl queue)),
     lm_order := (if tl queue = [] then rest else rest @ [t])\<rparr>"

text \<open>The loop over the waiting tenants: who gets the slot, if anybody can.\<close>

fun scan :: "(int \<Rightarrow> nat) \<Rightarrow> nat \<Rightarrow> limiter \<Rightarrow> limiter \<times> (int \<times> nat) option" where
  "scan cap_for 0 l = (l, None)"
| "scan cap_for (Suc n) l =
     (case lm_order l of
        [] \<Rightarrow> (l, None)
      | t # rest \<Rightarrow>
          (let queue = live_queue l t in
           if queue = [] then scan cap_for n (l\<lparr>lm_order := rest, lm_waiters := ddel (lm_waiters l) t\<rparr>)
           else if held l t \<ge> cap cap_for l t
           then scan cap_for n (l\<lparr>lm_order := rest @ [t], lm_waiters := dset (lm_waiters l) t queue\<rparr>)
           else (grant l t queue rest, Some (t, hd queue))))"

lemma scan_counts:
  "scan cap_for n l = (l', r) \<Longrightarrow> lm_total l' = lm_total l \<and> lm_in_use l' = lm_in_use l + (if r = None then 0 else 1)"
  by (induction cap_for n l rule: scan.induct) (auto simp: grant_def Let_def split: list.splits if_splits)

text \<open>\<open>dispatch\<close> also returns the waiters it woke, in order.\<close>

function dispatch :: "(int \<Rightarrow> nat) \<Rightarrow> limiter \<Rightarrow> limiter \<times> (int \<times> nat) list" where
  "dispatch cap_for l =
     (if lm_in_use l < lm_total l \<and> lm_order l \<noteq> []
      then (case scan cap_for (length (lm_order l)) l of
              (l', None) \<Rightarrow> (l', [])
            | (l', Some g) \<Rightarrow> (case dispatch cap_for l' of (l'', gs) \<Rightarrow> (l'', g # gs)))
      else (l, []))"
  by pat_completeness auto
termination
  by (relation "measure (\<lambda>(_, l). lm_total l - lm_in_use l)") (auto dest: scan_counts [OF sym])

declare dispatch.simps [simp del]

definition acquire :: "(int \<Rightarrow> nat) \<Rightarrow> int \<Rightarrow> limiter \<Rightarrow> limiter \<times> (int \<times> nat) list" where
  "acquire cap_for t l =
     (let f = lm_next l; q = dget (lm_waiters l) t in
      dispatch cap_for (l\<lparr>lm_next := f + 1, lm_waiters := dset (lm_waiters l) t (dget_or (lm_waiters l) t [] @ [f]),
        lm_order := (if q = None then lm_order l @ [t] else lm_order l)\<rparr>))"

definition release :: "(int \<Rightarrow> nat) \<Rightarrow> int \<Rightarrow> limiter \<Rightarrow> limiter \<times> (int \<times> nat) list" where
  "release cap_for t l =
     dispatch cap_for (l\<lparr>lm_in_use := lm_in_use l - 1,
       lm_held := (if held l t - 1 > 0 then dset (lm_held l) t (held l t - 1) else ddel (lm_held l) t)\<rparr>)"

text \<open>
  What the users of \<open>slot\<close> do: ask for a slot, cancel a waiter that was not woken (a woken one that is cancelled releases its
  slot), give a held slot back. The context manager never releases what it does not hold.
\<close>

datatype lim_event = Acquire int | Cancel nat | Release int

fun lim_step :: "(int \<Rightarrow> nat) \<Rightarrow> lim_event \<Rightarrow> limiter \<Rightarrow> limiter \<times> (int \<times> nat) list" where
  "lim_step cap_for (Acquire t) l = acquire cap_for t l"
| "lim_step cap_for (Cancel f) l = (l\<lparr>lm_done := insert f (lm_done l)\<rparr>, [])"
| "lim_step cap_for (Release t) l = (if held l t > 0 then release cap_for t l else (l, []))"

section \<open>Invariant\<close>

definition slots_held :: "limiter \<Rightarrow> nat" where
  "slots_held l = sum_list (map snd (lm_held l))"

definition lim_ok :: "(int \<Rightarrow> nat) \<Rightarrow> limiter \<Rightarrow> bool" where
  "lim_ok cap_for l \<longleftrightarrow> lm_in_use l = slots_held l \<and> lm_in_use l \<le> lm_total l \<and> dict_ok (lm_held l) \<and> dict_ok (lm_waiters l) \<and>
     (\<forall>t. held l t \<le> cap cap_for l t) \<and> distinct (lm_order l) \<and> set (lm_order l) = set (dkeys (lm_waiters l))"

lemma sum_dset: "dict_ok d \<Longrightarrow> sum_list (map snd (dset d k v)) + dget_or d k 0 = sum_list (map snd d) + (v :: nat)"
  by (induction d k v rule: dset.induct) (auto simp: dget_or_def dget_Cons dict_ok_def dkeys_def)

lemma sum_ddel: "dict_ok d \<Longrightarrow> sum_list (map snd (ddel d k)) + dget_or d k (0 :: nat) = sum_list (map snd d)"
proof (induction d)
  case (Cons p d)
  obtain k' v where p: "p = (k', v)" by (cases p)
  show ?case
  proof (cases "k' = k")
    case True
    then have "ddel d k = d" using Cons.prems p by (auto simp: ddel_def dict_ok_def dkeys_def filter_id_conv image_iff)
    then show ?thesis using True p by (simp add: ddel_def dget_or_def dget_Cons)
  qed (use Cons p in \<open>auto simp: ddel_def dget_or_def dget_Cons dict_ok_def dkeys_def\<close>)
qed (simp add: ddel_def dget_or_def)

lemma cap_le: "cap cap_for l t \<le> lm_total l"
  by (simp add: cap_def)

lemma held_le: "lim_ok cap_for l \<Longrightarrow> held l t \<le> lm_in_use l"
  using sum_ddel [of "lm_held l" t] by (simp add: lim_ok_def slots_held_def held_def)

lemma cap_upd [simp]:
  "cap c (l\<lparr>lm_order := x\<rparr>) t = cap c l t" "cap c (l\<lparr>lm_waiters := w\<rparr>) t = cap c l t" "cap c (l\<lparr>lm_next := n\<rparr>) t = cap c l t"
  "cap c (l\<lparr>lm_done := d\<rparr>) t = cap c l t" "cap c (l\<lparr>lm_in_use := n\<rparr>) t = cap c l t" "cap c (l\<lparr>lm_held := h\<rparr>) t = cap c l t"
  by (simp_all add: cap_def)

lemma held_upd [simp]:
  "held (l\<lparr>lm_order := x\<rparr>) t = held l t" "held (l\<lparr>lm_waiters := w\<rparr>) t = held l t" "held (l\<lparr>lm_next := n\<rparr>) t = held l t"
  "held (l\<lparr>lm_done := d\<rparr>) t = held l t" "held (l\<lparr>lm_in_use := n\<rparr>) t = held l t"
  by (simp_all add: held_def)

lemma slots_held_upd [simp]:
  "slots_held (l\<lparr>lm_order := x\<rparr>) = slots_held l" "slots_held (l\<lparr>lm_waiters := w\<rparr>) = slots_held l"
  "slots_held (l\<lparr>lm_next := n\<rparr>) = slots_held l" "slots_held (l\<lparr>lm_done := d\<rparr>) = slots_held l" "slots_held (l\<lparr>lm_in_use := n\<rparr>) = slots_held l"
  by (simp_all add: slots_held_def)

lemma pop_ok:
  assumes "lim_ok cap_for l" "lm_order l = t # rest"
  shows "lim_ok cap_for (l\<lparr>lm_order := rest, lm_waiters := ddel (lm_waiters l) t\<rparr>)"
proof -
  have "set rest = set (dkeys (lm_waiters l)) - {t}" using assms by (auto simp: lim_ok_def)
  then show ?thesis using assms by (auto simp: lim_ok_def set_dkeys_ddel dict_ok_ddel)
qed

lemma rotate_ok:
  assumes "lim_ok cap_for l" "lm_order l = t # rest"
  shows "lim_ok cap_for (l\<lparr>lm_order := rest @ [t], lm_waiters := dset (lm_waiters l) t q\<rparr>)"
proof -
  have "t \<in> set (dkeys (lm_waiters l))" using assms by (auto simp: lim_ok_def)
  then show ?thesis using assms by (auto simp: lim_ok_def dict_simps dict_ok_dset)
qed

lemma grant_ok:
  assumes "lim_ok cap_for l" "lm_order l = t # rest" "lm_in_use l < lm_total l" "held l t < cap cap_for l t"
  shows "lim_ok cap_for (grant l t q rest)"
proof -
  have s: "sum_list (map snd (dset (lm_held l) t (held l t + 1))) = lm_in_use l + 1"
    using sum_dset [of "lm_held l" t "held l t + 1"] assms(1) by (simp add: lim_ok_def slots_held_def held_def)
  have w: "distinct (lm_order (grant l t q rest)) \<and> set (lm_order (grant l t q rest)) = set (dkeys (lm_waiters (grant l t q rest)))"
    using assms(1,2) by (auto simp: lim_ok_def grant_def dict_simps)
  have h: "held (grant l t q rest) u \<le> cap cap_for (grant l t q rest) u" for u
  proof (cases "u = t")
    case True
    then show ?thesis using assms(4) by (simp add: grant_def) (simp add: held_def dict_simps)
  next
    case False
    then have "held (grant l t q rest) u = held l u" by (simp add: held_def grant_def dict_simps)
    then show ?thesis using assms(1) by (simp add: lim_ok_def grant_def)
  qed
  show ?thesis using s w h assms(1,3) by (auto simp: lim_ok_def slots_held_def grant_def dict_ok_dset dict_ok_ddel)
qed

lemma scan_ok: "scan cap_for n l = (l', r) \<Longrightarrow> lim_ok cap_for l \<Longrightarrow> lm_in_use l < lm_total l \<Longrightarrow> lim_ok cap_for l'"
  by (induction cap_for n l rule: scan.induct) (auto simp: Let_def pop_ok rotate_ok grant_ok split: list.splits if_splits)

lemma dispatch_ok: "dispatch cap_for l = (l', gs) \<Longrightarrow> lim_ok cap_for l \<Longrightarrow> lim_ok cap_for l'"
proof (induction cap_for l arbitrary: l' gs rule: dispatch.induct)
  case (1 cap_for l)
  show ?case
  proof (cases "lm_in_use l < lm_total l \<and> lm_order l \<noteq> []")
    case True
    obtain l1 r where s: "scan cap_for (length (lm_order l)) l = (l1, r)" by fastforce
    have ok: "lim_ok cap_for l1" using scan_ok [OF s 1(3)] True by simp
    show ?thesis
    proof (cases r)
      case None
      then show ?thesis using 1(2) True s ok by (simp add: dispatch.simps [of cap_for l])
    next
      case (Some g)
      obtain l2 gs' where d: "dispatch cap_for l1 = (l2, gs')" by fastforce
      then show ?thesis using 1(1) [OF True s [symmetric] Some d ok] 1(2) True s Some by (simp add: dispatch.simps [of cap_for l])
    qed
  next
    case False
    then show ?thesis using 1(2,3) by (subst (asm) dispatch.simps) (simp split: if_splits)
  qed
qed

lemma queued_ok:
  assumes "lim_ok cap_for l"
  shows "lim_ok cap_for (l\<lparr>lm_next := lm_next l + 1, lm_waiters := dset (lm_waiters l) t (dget_or (lm_waiters l) t [] @ [lm_next l]),
    lm_order := (if dget (lm_waiters l) t = None then lm_order l @ [t] else lm_order l)\<rparr>)"
  using assms by (auto simp: lim_ok_def dict_simps dict_ok_dset dget_eq_None_iff)

lemma returned_ok:
  assumes "lim_ok cap_for l" "held l t > 0"
  shows "lim_ok cap_for (l\<lparr>lm_in_use := lm_in_use l - 1,
       lm_held := (if held l t - 1 > 0 then dset (lm_held l) t (held l t - 1) else ddel (lm_held l) t)\<rparr>)" (is "lim_ok cap_for ?l")
proof -
  have "slots_held ?l = lm_in_use l - 1"
    using assms sum_dset [of "lm_held l" t "held l t - 1"] sum_ddel [of "lm_held l" t] by (auto simp: lim_ok_def slots_held_def held_def)
  moreover have "held ?l u \<le> cap cap_for ?l u" for u
  proof -
    have "held ?l u \<le> held l u" by (auto simp: held_def dget_or_def dict_simps split: option.splits)
    also have "\<dots> \<le> cap cap_for l u" using assms by (simp add: lim_ok_def)
    finally show ?thesis by simp
  qed
  ultimately show ?thesis using assms unfolding lim_ok_def by (auto simp: dict_ok_dset dict_ok_ddel)
qed

lemma lim_step_ok:
  assumes "lim_ok cap_for l"
  shows "lim_ok cap_for (fst (lim_step cap_for ev l))"
proof (cases ev)
  case (Acquire t)
  obtain l' gs where d: "acquire cap_for t l = (l', gs)" by fastforce
  show ?thesis using dispatch_ok [OF d [unfolded acquire_def Let_def] queued_ok [OF assms]] Acquire d by simp
next
  case (Release t)
  show ?thesis
  proof (cases "held l t > 0")
    case True
    obtain l' gs where d: "release cap_for t l = (l', gs)" by fastforce
    show ?thesis using dispatch_ok [OF d [unfolded release_def] returned_ok [OF assms True]] Release True d by simp
  qed (use assms Release in simp)
qed (use assms in \<open>auto simp: lim_ok_def\<close>)

section \<open>No slot stays free while somebody may take it\<close>

definition blocked :: "(int \<Rightarrow> nat) \<Rightarrow> limiter \<Rightarrow> int \<Rightarrow> bool" where
  "blocked cap_for l t \<longleftrightarrow> live_queue l t = [] \<or> held l t \<ge> cap cap_for l t"

definition quiet :: "(int \<Rightarrow> nat) \<Rightarrow> limiter \<Rightarrow> bool" where
  "quiet cap_for l \<longleftrightarrow> lm_in_use l < lm_total l \<longrightarrow> (\<forall>t. blocked cap_for l t)"

lemma live_queue_upd [simp]:
  "live_queue (l\<lparr>lm_order := x\<rparr>) t = live_queue l t"
  "live_queue (l\<lparr>lm_waiters := ddel (lm_waiters l) u\<rparr>) t = (if t = u then [] else live_queue l t)"
  "live_queue (l\<lparr>lm_waiters := dset (lm_waiters l) u (live_queue l u)\<rparr>) t = live_queue l t"
  by (auto simp: live_queue_def dget_or_def dict_simps)

lemma live_queue_upd2 [simp]:
  "live_queue (l\<lparr>lm_order := x, lm_waiters := w\<rparr>) t = live_queue (l\<lparr>lm_waiters := w\<rparr>) t"
  by (simp add: live_queue_def)

lemma scan_none_blocks:
  assumes "scan cap_for n l = (l', None)" "length (lm_order l) \<le> n + k" "\<forall>t \<in> set (drop n (lm_order l)). blocked cap_for l t"
    "\<forall>t. t \<notin> set (lm_order l) \<longrightarrow> blocked cap_for l t"
  shows "\<forall>t. blocked cap_for l' t"
  using assms
proof (induction n arbitrary: l k)
  case 0
  then show ?case by auto
next
  case (Suc n)
  show ?case
  proof (cases "lm_order l")
    case Nil
    then show ?thesis using Suc.prems by auto
  next
    case (Cons t rest)
    consider "live_queue l t = []" | "live_queue l t \<noteq> []" "held l t \<ge> cap cap_for l t"
      using Suc.prems(1) Cons by (auto simp: Let_def split: if_splits)
    then show ?thesis
    proof cases
      case 1
      let ?l = "l\<lparr>lm_order := rest, lm_waiters := ddel (lm_waiters l) t\<rparr>"
      have b: "blocked cap_for ?l u" if "u = t \<or> blocked cap_for l u" for u using that by (auto simp: blocked_def)
      have "scan cap_for n ?l = (l', None)" using Suc.prems(1) Cons 1 by simp
      then show ?thesis using Suc.prems Cons b by (intro Suc.IH [of ?l k]) auto
    next
      case 2
      let ?l = "l\<lparr>lm_order := rest @ [t], lm_waiters := dset (lm_waiters l) t (live_queue l t)\<rparr>"
      have b: "blocked cap_for ?l u" if "u = t \<or> blocked cap_for l u" for u using that 2 by (auto simp: blocked_def)
      have "scan cap_for n ?l = (l', None)" using Suc.prems(1) Cons 2 by simp
      moreover have "blocked cap_for ?l u" if "u \<in> set (drop n (rest @ [t]))" for u
        using that Suc.prems(3) Cons b [of u] by (auto split: if_splits dest: in_set_dropD)
      ultimately show ?thesis using Suc.prems Cons b by (intro Suc.IH [of ?l "Suc k"]) auto
    qed
  qed
qed

lemma no_queue_blocked: "lim_ok cap_for l \<Longrightarrow> t \<notin> set (lm_order l) \<Longrightarrow> blocked cap_for l t"
  using dget_eq_None_iff [of "lm_waiters l" t] by (auto simp: lim_ok_def blocked_def live_queue_def dget_or_def)

lemma dispatch_quiet: "dispatch cap_for l = (l', gs) \<Longrightarrow> lim_ok cap_for l \<Longrightarrow> quiet cap_for l'"
proof (induction cap_for l arbitrary: l' gs rule: dispatch.induct)
  case (1 cap_for l)
  show ?case
  proof (cases "lm_in_use l < lm_total l \<and> lm_order l \<noteq> []")
    case True
    obtain l1 r where s: "scan cap_for (length (lm_order l)) l = (l1, r)" by fastforce
    show ?thesis
    proof (cases r)
      case None
      have "\<forall>t. blocked cap_for l1 t"
        using s None no_queue_blocked [OF 1(3)] by (intro scan_none_blocks [of cap_for "length (lm_order l)" l l1 0]) auto
      then show ?thesis using 1(2) True s None by (simp add: dispatch.simps [of cap_for l] quiet_def)
    next
      case (Some g)
      obtain l2 gs' where d: "dispatch cap_for l1 = (l2, gs')" by fastforce
      have "lim_ok cap_for l1" using scan_ok [OF s 1(3)] True by simp
      then show ?thesis using 1(1) [OF True s [symmetric] Some d] 1(2) True s Some d by (simp add: dispatch.simps [of cap_for l])
    qed
  next
    case False
    then have "l' = l" using 1(2) by (subst (asm) dispatch.simps) (simp split: if_splits)
    then show ?thesis using False no_queue_blocked [OF 1(3)] by (auto simp: quiet_def)
  qed
qed

lemma lim_step_quiet:
  assumes "lim_ok cap_for l" "quiet cap_for l"
  shows "quiet cap_for (fst (lim_step cap_for ev l))"
proof (cases ev)
  case (Cancel f)
  have "live_queue (l\<lparr>lm_done := insert f (lm_done l)\<rparr>) t = []" if "live_queue l t = []" for t
    using that by (auto simp: live_queue_def dropWhile_eq_Nil_conv)
  then show ?thesis using assms(2) Cancel by (auto simp: quiet_def blocked_def)
next
  case (Acquire t)
  obtain l' gs where d: "acquire cap_for t l = (l', gs)" by fastforce
  show ?thesis using dispatch_quiet [OF d [unfolded acquire_def Let_def] queued_ok [OF assms(1)]] Acquire d by simp
next
  case (Release t)
  show ?thesis
  proof (cases "held l t > 0")
    case True
    obtain l' gs where d: "release cap_for t l = (l', gs)" by fastforce
    show ?thesis using dispatch_quiet [OF d [unfolded release_def] returned_ok [OF assms(1) True]] Release True d by simp
  qed (use assms Release in simp)
qed

interpretation fair_share: step_system "\<lambda>ev l. fst (lim_step cap_for ev l)" "\<lambda>l. lim_ok cap_for l \<and> quiet cap_for l" for cap_for
  by unfold_locales (simp add: lim_step_ok lim_step_quiet)

lemma new_limiter_ok: "lim_ok cap_for (new_limiter n) \<and> quiet cap_for (new_limiter n)"
  by (auto simp: lim_ok_def quiet_def blocked_def new_limiter_def slots_held_def held_def live_queue_def dget_or_def dkeys_def)

text \<open>C24. The limiter keeps its promises: whatever is acquired, cancelled and released in whatever order, the slots in use are the
  slots held, never more than there are, no tenant holds more than its cap; and a slot is free only if every tenant
  with a waiter is at its cap, so without caps nobody waits while a slot is free.\<close>

theorem limiter_safe_and_busy:
  defines "final \<equiv> \<lambda>cap_for n evs. fold (\<lambda>ev l. fst (lim_step cap_for ev l)) evs (new_limiter n)"
  shows "lim_ok cap_for (final cap_for n evs) \<and> quiet cap_for (final cap_for n evs)"
  unfolding final_def by (rule fair_share.run_good [OF new_limiter_ok])

section \<open>Nobody is passed over\<close>

text \<open>How many waiting tenants are in front of a tenant.\<close>

definition pos :: "limiter \<Rightarrow> int \<Rightarrow> nat" where
  "pos l t = length (takeWhile (\<lambda>u. u \<noteq> t) (lm_order l))"

definition waits :: "limiter \<Rightarrow> int \<Rightarrow> nat \<Rightarrow> bool" where
  "waits l t f \<longleftrightarrow> f \<in> set (dget_or (lm_waiters l) t []) \<and> f \<notin> lm_done l"

lemma waits_live: "waits l t f \<Longrightarrow> live_queue l t \<noteq> []"
  by (auto simp: waits_def live_queue_def dropWhile_eq_Nil_conv)

lemma waits_in_order: "lim_ok cap_for l \<Longrightarrow> waits l t f \<Longrightarrow> t \<in> set (lm_order l)"
  using dget_eq_None_iff [of "lm_waiters l" t] by (auto simp: lim_ok_def waits_def dget_or_def)

lemma waits_live_queue: "waits l t f \<Longrightarrow> f \<in> set (live_queue l t)"
  by (auto simp: waits_def live_queue_def) (metis Un_iff set_append set_takeWhileD takeWhile_dropWhile_id)

lemma pos_rotate: "u \<noteq> t \<Longrightarrow> t \<in> set rest \<Longrightarrow> length (takeWhile (\<lambda>v. v \<noteq> t) (rest @ xs)) < length (takeWhile (\<lambda>v. v \<noteq> t) (u # rest))"
  by (auto simp: takeWhile_append1)

text \<open>A scan with a waiting tenant below its cap wakes somebody; if it is somebody else, the tenant moves forward.\<close>

lemma scan_forward:
  assumes "scan cap_for n l = (l', r)" "t \<in> set (lm_order l)" "pos l t < n" "waits l t f" "held l t < cap cap_for l t"
  shows "\<exists>u g. r = Some (u, g) \<and> (u = t \<or> pos l' t < pos l t \<and> t \<in> set (lm_order l') \<and> waits l' t f)"
  using assms
proof (induction cap_for n l rule: scan.induct)
  case (2 cap_for n l)
  obtain u rest where o: "lm_order l = u # rest" using 2(4) by (cases "lm_order l") auto
  show ?case
  proof (cases "u = t")
    case True
    then show ?thesis using 2(3,7) o waits_live [OF 2(6)] by (auto simp: Let_def)
  next
    case False
    then have t: "t \<in> set rest" and p: "pos l t = Suc (length (takeWhile (\<lambda>v. v \<noteq> t) rest))" using 2(4) o by (auto simp: pos_def)
    consider "live_queue l u = []" | "live_queue l u \<noteq> []" "held l u \<ge> cap cap_for l u" | "live_queue l u \<noteq> []" "\<not> held l u \<ge> cap cap_for l u" by blast
    then show ?thesis
    proof cases
      case 1
      let ?l = "l\<lparr>lm_order := rest, lm_waiters := ddel (lm_waiters l) u\<rparr>"
      have w: "waits ?l t f" using 2(6) False by (simp add: waits_def dget_or_def dict_simps)
      have q: "pos ?l t < pos l t" using p by (simp add: pos_def)
      have "scan cap_for n ?l = (l', r)" using 2(3) o 1 by simp
      from 2(1) [OF o refl 1 this _ _ w] t q 2(5,7) show ?thesis by fastforce
    next
      case 2: 2
      let ?l = "l\<lparr>lm_order := rest @ [u], lm_waiters := dset (lm_waiters l) u (live_queue l u)\<rparr>"
      have w: "waits ?l t f" using "2.prems"(4) False by (simp add: waits_def dget_or_def dict_simps)
      have q: "pos ?l t < pos l t" using p t by (simp add: pos_def takeWhile_append1)
      have "scan cap_for n ?l = (l', r)" using "2.prems"(1) o 2 by simp
      from "2.IH"(2) [OF o refl 2(1,2) this _ _ w] t q "2.prems"(3,5) show ?thesis by fastforce
    next
      case 3
      have "pos (grant l u (live_queue l u) rest) t < pos l t" using p t by (simp add: pos_def grant_def takeWhile_append1)
      moreover have "waits (grant l u (live_queue l u) rest) t f" using 2(6) False by (simp add: waits_def grant_def dget_or_def dict_simps)
      ultimately show ?thesis using 2(3) o 3 t by (auto simp: Let_def grant_def)
    qed
  qed
qed simp

lemma pos_less: "t \<in> set (lm_order l) \<Longrightarrow> pos l t < length (lm_order l)"
proof -
  have "t \<in> set xs \<Longrightarrow> length (takeWhile (\<lambda>u. u \<noteq> t) xs) < length xs" for xs by (induction xs) auto
  then show "t \<in> set (lm_order l) \<Longrightarrow> pos l t < length (lm_order l)" unfolding pos_def .
qed

text \<open>Each grant to another tenant moves a waiting tenant without a cap forward.\<close>

lemma dispatch_forward:
  "dispatch cap_for l = (l', gs) \<Longrightarrow> lim_ok cap_for l \<Longrightarrow> waits l t f \<Longrightarrow> cap_for t = 0 \<Longrightarrow> t \<notin> fst ` set gs \<Longrightarrow>
     length gs + pos l' t \<le> pos l t \<and> waits l' t f"
proof (induction cap_for l arbitrary: l' gs rule: dispatch.induct)
  case (1 cap_for l)
  show ?case
  proof (cases "lm_in_use l < lm_total l \<and> lm_order l \<noteq> []")
    case True
    obtain l1 r where s: "scan cap_for (length (lm_order l)) l = (l1, r)" by fastforce
    have t: "t \<in> set (lm_order l)" by (rule waits_in_order [OF 1(3,4)])
    have h: "held l t < cap cap_for l t" using held_le [OF 1(3), of t] True 1(5) by (simp add: cap_def)
    obtain u g where r: "r = Some (u, g)" and fw: "u = t \<or> pos l1 t < pos l t \<and> waits l1 t f"
      using scan_forward [OF s t pos_less [OF t] 1(4) h] by auto
    obtain l2 gs' where d: "dispatch cap_for l1 = (l2, gs')" by fastforce
    have e: "l' = l2" "gs = (u, g) # gs'" using 1(2) True s r d by (simp_all add: dispatch.simps [of cap_for l])
    have ok: "lim_ok cap_for l1" using scan_ok [OF s 1(3)] True by simp
    have "pos l1 t < pos l t \<and> waits l1 t f" using fw e(2) 1(6) by auto
    moreover from this have "length gs' + pos l2 t \<le> pos l1 t \<and> waits l2 t f"
      using 1(1) [OF True s [symmetric] r d ok _ 1(5)] 1(6) e(2) by auto
    ultimately show ?thesis using e by simp
  next
    case False
    then show ?thesis using 1(2,4) by (subst (asm) dispatch.simps) (simp split: if_splits)
  qed
qed

fun lim_run :: "(int \<Rightarrow> nat) \<Rightarrow> lim_event list \<Rightarrow> limiter \<Rightarrow> limiter \<times> (int \<times> nat) list" where
  "lim_run cap_for [] l = (l, [])"
| "lim_run cap_for (ev # evs) l =
     (case lim_step cap_for ev l of (l1, gs) \<Rightarrow> (case lim_run cap_for evs l1 of (l2, gs') \<Rightarrow> (l2, gs @ gs')))"

lemma step_forward:
  assumes "lim_step cap_for ev l = (l', gs)" "lim_ok cap_for l" "waits l t f" "cap_for t = 0" "ev \<noteq> Cancel f" "t \<notin> fst ` set gs"
  shows "length gs + pos l' t \<le> pos l t \<and> waits l' t f"
proof (cases ev)
  case (Acquire u)
  let ?l = "l\<lparr>lm_next := lm_next l + 1, lm_waiters := dset (lm_waiters l) u (dget_or (lm_waiters l) u [] @ [lm_next l]),
    lm_order := (if dget (lm_waiters l) u = None then lm_order l @ [u] else lm_order l)\<rparr>"
  have "waits ?l t f" using assms(3) by (auto simp: waits_def dget_or_def dict_simps)
  moreover have "pos ?l t = pos l t" using waits_in_order [OF assms(2,3)] by (simp add: pos_def takeWhile_append1)
  ultimately show ?thesis
    using dispatch_forward [OF _ queued_ok [OF assms(2), of u] _ assms(4,6)] assms(1) Acquire by (simp add: acquire_def Let_def)
next
  case (Release u)
  show ?thesis
  proof (cases "held l u > 0")
    case True
    let ?l = "l\<lparr>lm_in_use := lm_in_use l - 1,
       lm_held := (if held l u - 1 > 0 then dset (lm_held l) u (held l u - 1) else ddel (lm_held l) u)\<rparr>"
    have "waits ?l t f" "pos ?l t = pos l t" using assms(3) by (simp_all add: waits_def pos_def)
    then show ?thesis
      using dispatch_forward [OF _ returned_ok [OF assms(2) True] _ assms(4,6)] assms(1) Release True by (simp add: release_def)
  qed (use assms Release in auto)
qed (use assms in \<open>auto simp: waits_def pos_def\<close>)

text \<open>C23. No tenant is passed over: a tenant without a cap that waits, with \<open>n\<close> waiting tenants in front of it, gets a slot before
  more than \<open>n\<close> slots have gone to others, however many requests the others make and in whatever order slots are asked
  for, cancelled and released.\<close>

theorem fair_share_bound:
  assumes "lim_ok cap_for l" and "waits l t f" and "cap_for t = 0" and "Cancel f \<notin> set evs" and "lim_run cap_for evs l = (l', gs)"
    and "pos l t < length gs"
  shows "t \<in> fst ` set gs"
proof (rule ccontr)
  assume n: "t \<notin> fst ` set gs"
  have "length gs + pos l' t \<le> pos l t" using assms(1,2,4,5) n
  proof (induction evs arbitrary: l gs)
    case (Cons ev evs)
    obtain l1 gs1 where s: "lim_step cap_for ev l = (l1, gs1)" by fastforce
    obtain gs2 where r: "lim_run cap_for evs l1 = (l', gs2)" and g: "gs = gs1 @ gs2" using Cons.prems(4) s by (auto split: prod.splits)
    have "length gs1 + pos l1 t \<le> pos l t \<and> waits l1 t f"
      using step_forward [OF s Cons.prems(1,2) assms(3)] Cons.prems(3,5) g by auto
    moreover have "lim_ok cap_for l1" using lim_step_ok [OF Cons.prems(1), of ev] s by simp
    ultimately show ?case using Cons.IH [of l1 gs2] Cons.prems(3,5) r g by (auto simp: image_Un)
  qed simp
  then show False using assms(6) by simp
qed

text \<open>Two slots, both held by tenant 1, which also has ten more requests; then tenant 2 asks. The second slot given back goes to it.\<close>

definition busy_limiter :: limiter where
  "busy_limiter = fst (lim_run (\<lambda>_. 0) (replicate 12 (Acquire 1) @ [Acquire 2]) (new_limiter 2))"

theorem fair_share_bound_witness:
  "2 \<in> fst ` set (snd (lim_run (\<lambda>_. 0) [Release 1, Release 1] busy_limiter))"
proof -
  have "lim_ok (\<lambda>_. 0) busy_limiter"
  proof -
    have e: "fst (lim_run c evs l) = fold (\<lambda>ev l. fst (lim_step c ev l)) evs l" for c evs l
    proof (induction evs arbitrary: l)
      case (Cons ev evs)
      obtain l1 gs where "lim_step c ev l = (l1, gs)" by fastforce
      then show ?case using Cons.IH [of l1] by (simp add: case_prod_unfold)
    qed simp
    show ?thesis unfolding busy_limiter_def e by (rule conjunct1 [OF fair_share.run_good [OF new_limiter_ok]])
  qed
  moreover have "waits busy_limiter 2 12" by code_simp
  moreover have "pos busy_limiter 2 < length (snd (lim_run (\<lambda>_. 0) [Release 1, Release 1] busy_limiter))" by code_simp
  ultimately show ?thesis
    by (intro fair_share_bound [of "\<lambda>_. 0" busy_limiter 2 12 "[Release 1, Release 1]" "fst (lim_run (\<lambda>_. 0) [Release 1, Release 1] busy_limiter)"]) simp_all
qed

end
