(* ===== verification/Tenant_Jobs.thy ===== *)
theory Tenant_Jobs
  imports Fair_Share "HOL-Library.Extended_Nat"
begin

text \<open>
  Per-tenant scheduling (\<^verbatim>\<open>backend/services/tenant_jobs.py\<close>): the loop of a job over the tenants with rotation, the gate of a
  parallel pass, time budgets and iterations left in the background; the cadence of a tenant; the cap of its retention;
  schedules in the tenant's time zone. How long an iteration takes (possibly for ever) and what it raises are part of the
  environment of a pass; when it gets its turn, and whether it ends in the budget, is computed.
\<close>

section \<open>Rotation\<close>

definition rotated :: "nat \<Rightarrow> int list \<Rightarrow> int list \<times> nat" where
  "rotated rot tenant_ids =
     (if length tenant_ids < 2 then (tenant_ids, rot)
      else (let offset = rot mod length tenant_ids in (drop offset tenant_ids @ take offset tenant_ids, offset + 1)))"

text \<open>The orders of \<open>n\<close> successive runs over the same tenants.\<close>

fun rotations :: "nat \<Rightarrow> nat \<Rightarrow> int list \<Rightarrow> int list list" where
  "rotations 0 rot ts = []"
| "rotations (Suc n) rot ts = (case rotated rot ts of (order, rot') \<Rightarrow> order # rotations n rot' ts)"

section \<open>One pass over the tenants\<close>

record job_stat =
  js_runs :: nat
  js_failures :: nat
  js_skipped :: nat
  js_over :: nat
  js_in_flight :: bool

definition no_stat :: job_stat where
  "no_stat = \<lparr>js_runs = 0, js_failures = 0, js_skipped = 0, js_over = 0, js_in_flight = False\<rparr>"

text \<open>\<open>jb_open\<close> is not in the code: the iterations of a job and tenant that have started and not ended.\<close>

record jobs =
  jb_rotation :: "(string, nat) dict"
  jb_inflight :: "(string \<times> int) list"
  jb_stats :: "(string \<times> int, job_stat) dict"
  jb_open :: "string \<times> int \<Rightarrow> nat"

definition upd_stat :: "(job_stat \<Rightarrow> job_stat) \<Rightarrow> string \<times> int \<Rightarrow> jobs \<Rightarrow> jobs" where
  "upd_stat f k s = s\<lparr>jb_stats := dset (jb_stats s) k (f (dget_or (jb_stats s) k no_stat))\<rparr>"

definition record_run :: "py_error option \<Rightarrow> job_stat \<Rightarrow> job_stat" where
  "record_run err st = st\<lparr>js_runs := js_runs st + 1, js_failures := js_failures st + (if err = None then 0 else 1)\<rparr>"

definition start_iteration :: "string \<times> int \<Rightarrow> jobs \<Rightarrow> jobs" where
  "start_iteration k s = s\<lparr>jb_open := (jb_open s)(k := jb_open s k + 1)\<rparr>"

definition end_iteration :: "py_error option \<Rightarrow> string \<times> int \<Rightarrow> jobs \<Rightarrow> jobs" where
  "end_iteration err k s = upd_stat (record_run err) k (s\<lparr>jb_open := (jb_open s)(k := jb_open s k - 1)\<rparr>)"

definition leave_in_background :: "string \<times> int \<Rightarrow> jobs \<Rightarrow> jobs" where
  "leave_in_background k s =
     (upd_stat (\<lambda>st. st\<lparr>js_over := js_over st + 1, js_in_flight := True\<rparr>) k s)\<lparr>jb_inflight := k # removeAll k (jb_inflight s)\<rparr>"

definition background_done :: "py_error option \<Rightarrow> string \<times> int \<Rightarrow> jobs \<Rightarrow> jobs" where
  "background_done err k s =
     (if k \<in> set (jb_inflight s)
      then (let s1 = end_iteration err k s in
            (upd_stat (\<lambda>st. st\<lparr>js_in_flight := False\<rparr>) k s1)\<lparr>jb_inflight := removeAll k (jb_inflight s1)\<rparr>)
      else s)"

text \<open>
  The environment of a pass, times in microseconds: the tenants at a time and the budget; for each tenant how long its
  iteration takes and what it raises, and the end of an earlier iteration of it that was in the background, if that comes
  while a sequential pass waits for the tenants in front.
\<close>

record pass_env =
  pe_parallel :: nat
  pe_budget :: nat
  pe_duration :: "int \<Rightarrow> enat"
  pe_error :: "int \<Rightarrow> py_error option"
  pe_freed :: "int \<Rightarrow> py_error option option"

definition sequential :: "pass_env \<Rightarrow> bool" where
  "sequential e \<longleftrightarrow> pe_parallel e \<le> 1"

text \<open>A parallel pass creates its tasks without waiting, so nothing in the background ends in between.\<close>

definition wait_turn :: "pass_env \<Rightarrow> string \<Rightarrow> int \<Rightarrow> jobs \<Rightarrow> jobs" where
  "wait_turn e job t s =
     (case (if sequential e then pe_freed e t else None) of None \<Rightarrow> s | Some err \<Rightarrow> background_done err (job, t) s)"

definition skip_tenant :: "string \<times> int \<Rightarrow> jobs \<Rightarrow> jobs" where
  "skip_tenant k s = upd_stat (\<lambda>st. st\<lparr>js_skipped := js_skipped st + 1\<rparr>) k s"

text \<open>
  The gate of a parallel pass: when each of its slots is next free, in order, measured from the start of the pass. Tasks get
  a slot in the order of their creation. The clock of a sequential iteration starts with its task.
\<close>

definition done_at :: "pass_env \<Rightarrow> int \<Rightarrow> enat list \<Rightarrow> enat" where
  "done_at e t gate = (if sequential e then 0 else hd gate) + pe_duration e t"

definition gate_after :: "pass_env \<Rightarrow> int \<Rightarrow> enat list \<Rightarrow> enat list" where
  "gate_after e t gate = (if sequential e then gate else insort (done_at e t gate) (tl gate))"

text \<open>
  The tenants one by one. The result lists the iterations that ended in the budget, with their errors, in the order of their
  creation. \<open>jb_open\<close> counts a task from its creation, also while it waits for a slot.
\<close>

fun tenant_pass :: "pass_env \<Rightarrow> string \<Rightarrow> int list \<Rightarrow> enat list \<Rightarrow> jobs \<Rightarrow> (int \<times> py_error option) list \<times> jobs" where
  "tenant_pass e job [] gate s = ([], s)"
| "tenant_pass e job (t # ts) gate s =
     (let s1 = wait_turn e job t s; s2 = start_iteration (job, t) s1 in
      if (job, t) \<in> set (jb_inflight s1) then tenant_pass e job ts gate (skip_tenant (job, t) s1)
      else if done_at e t gate \<le> enat (pe_budget e)
      then (case tenant_pass e job ts (gate_after e t gate) (end_iteration (pe_error e t) (job, t) s2) of
              (ended, s') \<Rightarrow> ((t, pe_error e t) # ended, s'))
      else tenant_pass e job ts (gate_after e t gate) (leave_in_background (job, t) s2))"

definition first_error :: "(int \<times> py_error option) list \<Rightarrow> py_error option" where
  "first_error ended = (case filter (\<lambda>e. snd e \<noteq> None) ended of [] \<Rightarrow> None | e # _ \<Rightarrow> snd e)"

definition run_for_tenants :: "pass_env \<Rightarrow> string \<Rightarrow> int list \<Rightarrow> jobs \<Rightarrow> py_error option \<times> jobs" where
  "run_for_tenants e job tenant_ids s =
     (case rotated (dget_or (jb_rotation s) job 0) tenant_ids of (order, rot) \<Rightarrow>
        (let s1 = (if length tenant_ids < 2 then s else s\<lparr>jb_rotation := dset (jb_rotation s) job rot\<rparr>);
             (ended, s2) = tenant_pass e job order (replicate (pe_parallel e) 0) s1
         in (first_error ended, s2)))"

text \<open>The plain call for one tenant: no task and no budget; \<open>None\<close> if it never returns.\<close>

definition run_single :: "pass_env \<Rightarrow> string \<Rightarrow> int \<Rightarrow> jobs \<Rightarrow> (py_error option \<times> jobs) option" where
  "run_single e job t s =
     (if pe_duration e t = \<infinity> then None
      else Some (pe_error e t, end_iteration (pe_error e t) (job, t) (start_iteration (job, t) s)))"

text \<open>In a tenant's scope the job is the undecorated call, which is not recorded.\<close>

definition run_in_scope :: "pass_env \<Rightarrow> int \<Rightarrow> 's \<Rightarrow> (py_error option \<times> 's) option" where
  "run_in_scope e t s = (if pe_duration e t = \<infinity> then None else Some (pe_error e t, s))"

definition per_tenant_job :: "int option \<Rightarrow> pass_env \<Rightarrow> string \<Rightarrow> int list \<Rightarrow> jobs \<Rightarrow> (py_error option \<times> jobs) option" where
  "per_tenant_job scope e job tenant_ids s =
     (case scope of
        Some t \<Rightarrow> run_in_scope e t s
      | None \<Rightarrow> (case tenant_ids of
                   [t] \<Rightarrow> run_single e job t s
                 | _ \<Rightarrow> Some (run_for_tenants (e\<lparr>pe_parallel := 1\<rparr>) job tenant_ids s)))"

section \<open>Cadence\<close>

text \<open>Seconds of a monotonic clock.\<close>

definition CADENCE_JITTER :: rat where "CADENCE_JITTER = 2"

definition cadence_due :: "rat option \<Rightarrow> rat \<Rightarrow> rat \<Rightarrow> rat \<Rightarrow> bool" where
  "cadence_due last_run interval tick now =
     (case last_run of None \<Rightarrow> True | Some l \<Rightarrow> now - l \<ge> interval - min CADENCE_JITTER (tick / 2))"

record cadence_spec =
  cs_default :: int
  cs_ceiling :: int

text \<open>\<^verbatim>\<open>int(float(value))\<close>: what does not parse and NaN give the default; an infinity raises OverflowError, which is not caught.\<close>

definition clamp_interval :: "string \<Rightarrow> int \<Rightarrow> cadence_spec \<Rightarrow> int result" where
  "clamp_interval value floor_s spec =
     (let clamp = (\<lambda>v. Inr (max floor_s (min (cs_ceiling spec) v))) in
      case parse_float value of
        Some (Fin q) \<Rightarrow> clamp (trunc q)
      | Some PosInf \<Rightarrow> Inl OverflowError
      | Some NegInf \<Rightarrow> Inl OverflowError
      | _ \<Rightarrow> clamp (cs_default spec))"

definition interval_floor :: "string \<Rightarrow> int" where
  "interval_floor raw = (case parse_int raw of Some v \<Rightarrow> max 1 v | None \<Rightarrow> 10)"

definition tenant_intervals :: "cadence_spec \<Rightarrow> int \<Rightarrow> string \<Rightarrow> (int, string) dict \<Rightarrow> int list \<Rightarrow> (int, int) dict result" where
  "tenant_intervals spec floor_s dflt rows tenant_ids =
     map_result (\<lambda>t. bind_result (clamp_interval (dget_or rows t dflt) floor_s spec) (\<lambda>i. Inr (t, i))) tenant_ids"

definition job_tick :: "cadence_spec \<Rightarrow> (int, int) dict \<Rightarrow> int" where
  "job_tick spec intervals = (if intervals = [] then cs_default spec else Min (set (map snd intervals)))"

text \<open>
  \<open>fleet_job\<close>: the tenants that are due are marked and run. \<open>spec\<close> is the cadence of the job, if it has one, \<open>ticks\<close> the tick it
  was scheduled at; the budget is the declared one, else 80 percent of the tick, at least 10 seconds.
\<close>

type_synonym marks = "(string \<times> int, rat) dict"

definition due_tenants :: "string \<Rightarrow> (int, int) dict \<Rightarrow> int \<Rightarrow> rat \<Rightarrow> marks \<Rightarrow> int list" where
  "due_tenants job intervals tick now m =
     map fst (filter (\<lambda>(t, i). cadence_due (dget m (job, t)) (of_int i) (of_int tick) now) intervals)"

definition mark_tenants :: "string \<Rightarrow> rat \<Rightarrow> int list \<Rightarrow> marks \<Rightarrow> marks" where
  "mark_tenants job now ts m = fold (\<lambda>t m. dset m (job, t) now) ts m"

definition fleet_budget :: "nat option \<Rightarrow> nat \<Rightarrow> int option \<Rightarrow> nat" where
  "fleet_budget budget job_budget tick =
     (case budget of
        Some b \<Rightarrow> b
      | None \<Rightarrow> (case tick of
                   Some k \<Rightarrow> (if k = 0 then job_budget else nat (max 10000000 (800000 * k)))
                 | None \<Rightarrow> job_budget))"

definition fleet_job ::
    "int option \<Rightarrow> nat option \<Rightarrow> pass_env \<Rightarrow> string \<Rightarrow> cadence_spec option \<Rightarrow> int list \<Rightarrow> (int, int) dict \<Rightarrow> (string, int) dict \<Rightarrow> rat
     \<Rightarrow> marks \<times> jobs \<Rightarrow> (py_error option \<times> marks \<times> jobs) option" where
  "fleet_job scope budget e job spec tenant_ids intervals ticks now s =
     (case s of (m, js) \<Rightarrow>
        (case scope of
           Some t \<Rightarrow> run_in_scope e t s
         | None \<Rightarrow>
             (case tenant_ids of
                [t] \<Rightarrow> map_option (\<lambda>(err, js'). (err, if spec = None then m else mark_tenants job now [t] m, js')) (run_single e job t js)
              | _ \<Rightarrow>
                  (let set_tick = (case dget ticks job of Some k \<Rightarrow> (if k = 0 then None else Some k) | None \<Rightarrow> None);
                       (tick, due, m') =
                         (case spec of
                            None \<Rightarrow> (set_tick, tenant_ids, m)
                          | Some sp \<Rightarrow>
                              (let k = (case set_tick of Some k \<Rightarrow> k | None \<Rightarrow> job_tick sp intervals);
                                   due = due_tenants job intervals k now m
                               in (Some k, due, mark_tenants job now due m)))
                   in if due = [] then Some (None, m', js)
                      else (case run_for_tenants (e\<lparr>pe_budget := fleet_budget budget (pe_budget e) tick\<rparr>) job due js of
                              (err, js') \<Rightarrow> Some (err, m', js'))))))"

section \<open>Retention\<close>

text \<open>\<open>policy\<close> is the registered policy's answer for the tenant: none registered, a failure, or its cap.\<close>

datatype policy_answer = No_policy | Policy_fails | Policy_cap "int option"

definition installation_cap :: "string \<Rightarrow> int option" where
  "installation_cap raw_cap = (case parse_int raw_cap of Some c \<Rightarrow> (if c \<le> 0 then None else Some c) | None \<Rightarrow> None)"

definition retention_cap :: "bool \<Rightarrow> policy_answer \<Rightarrow> string \<Rightarrow> int option result" where
  "retention_cap strict policy raw_cap =
     (let c = (if raw_cap = [] then None else installation_cap raw_cap) in
      case policy of
        No_policy \<Rightarrow> Inr c
      | Policy_fails \<Rightarrow> (if strict then Inl (RuntimeError ''retention policy'') else Inr c)
      | Policy_cap plan \<Rightarrow>
          Inr (case plan of
                 Some p \<Rightarrow> (if p > 0 then Some (case c of None \<Rightarrow> p | Some x \<Rightarrow> min x p) else c)
               | None \<Rightarrow> c))"

definition apply_retention_cap :: "int \<Rightarrow> int option \<Rightarrow> int" where
  "apply_retention_cap v c = (case c of None \<Rightarrow> v | Some x \<Rightarrow> if x \<le> 0 then v else if v \<le> 0 then x else min v x)"

definition retention_days :: "policy_answer \<Rightarrow> string \<Rightarrow> string \<Rightarrow> int \<Rightarrow> int result" where
  "retention_days policy raw_cap raw dflt =
     bind_result (retention_cap False policy raw_cap) (\<lambda>c. Inr (apply_retention_cap (case parse_int raw of Some v \<Rightarrow> v | None \<Rightarrow> dflt) c))"

section \<open>Schedules in the tenant's zone\<close>

text \<open>A zone: the local time of an instant, whether it is the second of two equal local times, and the instant of a local time.\<close>

record zone =
  zn_local :: "datetime \<Rightarrow> datetime"
  zn_fold :: "datetime \<Rightarrow> bool"
  zn_instant :: "bool \<Rightarrow> datetime \<Rightarrow> datetime"

definition last_slot :: "zone \<Rightarrow> datetime \<Rightarrow> int \<Rightarrow> int option \<Rightarrow> datetime" where
  "last_slot z now_utc hour wd =
     (let l = zn_local z now_utc; s0 = day_of l * us_per_day + hour * 3600000000;
          (s1, f1) = (if s0 > l then (s0 - us_per_day, False) else (s0, zn_fold z now_utc));
          (s2, f2) = (case wd of None \<Rightarrow> (s1, f1) | Some w \<Rightarrow> (s1 - (weekday (day_of s1) - w) mod 7 * us_per_day, False))
      in zn_instant z f2 s2)"

definition slot_due :: "zone \<Rightarrow> datetime \<Rightarrow> int \<Rightarrow> int option \<Rightarrow> int \<Rightarrow> datetime option \<Rightarrow> bool" where
  "slot_due z now_utc hour wd grace_seconds last_sent =
     (let slot = last_slot z now_utc hour wd in
      now_utc - slot < grace_seconds * us_per_second \<and> (case last_sent of None \<Rightarrow> True | Some t \<Rightarrow> t < slot))"

section \<open>Every tenant has its turn\<close>

lemma set_rotated: "set (fst (rotated rot ts)) = set ts"
proof -
  have "set (drop n ts @ take n ts) = set ts" for n by (metis append_take_drop_id set_append Un_commute)
  then show ?thesis by (simp add: rotated_def Let_def del: set_append)
qed

lemma distinct_rotated: "distinct ts \<Longrightarrow> distinct (fst (rotated rot ts))"
  by (auto simp: rotated_def Let_def set_take_disj_set_drop_if_distinct dest: set_take_disj_set_drop_if_distinct [of ts "rot mod length ts" "rot mod length ts"])

lemma hd_rotated: "2 \<le> length ts \<Longrightarrow> hd (fst (rotated rot ts)) = ts ! (rot mod length ts) \<and> snd (rotated rot ts) = rot mod length ts + 1"
proof -
  assume "2 \<le> length ts"
  moreover from this have "rot mod length ts < length ts" by (intro mod_less_divisor) linarith
  ultimately show ?thesis by (auto simp: rotated_def Let_def hd_append hd_drop_conv_nth)
qed

lemma hd_rotations: "2 \<le> length ts \<Longrightarrow> map hd (rotations n rot ts) = map (\<lambda>k. ts ! ((rot + k) mod length ts)) [0..<n]"
proof (induction n arbitrary: rot)
  case (Suc n)
  have "map hd (rotations n (rot mod length ts + 1) ts) = map (\<lambda>k. ts ! ((rot + Suc k) mod length ts)) [0..<n]"
  proof -
    have "(rot mod length ts + 1 + k) mod length ts = (rot + Suc k) mod length ts" for k
      using mod_add_left_eq [of rot "length ts" "Suc k"] by simp
    then show ?thesis unfolding Suc.IH [OF Suc.prems] by (simp only:)
  qed
  moreover have "map (\<lambda>k. ts ! ((rot + k) mod length ts)) [0..<Suc n] =
      ts ! (rot mod length ts) # map (\<lambda>k. ts ! ((rot + Suc k) mod length ts)) [0..<n]"
    by (subst upt_conv_Cons) (simp_all add: map_Suc_upt [symmetric] del: upt_Suc)
  ultimately show ?case using hd_rotated [OF Suc.prems, of rot] by (simp add: case_prod_unfold del: upt_Suc)
qed simp

text \<open>Over as many successive runs as there are tenants, whatever the rotation stands at, each tenant is the first one once.\<close>

theorem each_tenant_first:
  assumes "2 \<le> length ts"
  shows "set (map hd (rotations (length ts) rot ts)) = set ts"
proof -
  have n: "0 < length ts" using assms by linarith
  have "(\<lambda>k. (rot + k) mod length ts) ` {0..<length ts} = {0..<length ts}"
  proof
    show "{0..<length ts} \<subseteq> (\<lambda>k. (rot + k) mod length ts) ` {0..<length ts}"
    proof
      fix j assume j: "j \<in> {0..<length ts}"
      let ?k = "(j + (length ts - rot mod length ts)) mod length ts"
      have "(rot + ?k) mod length ts = (rot mod length ts + (j + (length ts - rot mod length ts))) mod length ts" by (simp add: mod_simps)
      also have "rot mod length ts + (j + (length ts - rot mod length ts)) = j + length ts"
      proof -
        have "rot mod length ts < length ts" using assms by (intro mod_less_divisor) linarith
        then show ?thesis by linarith
      qed
      finally have "(rot + ?k) mod length ts = j" using j by simp
      then show "j \<in> (\<lambda>k. (rot + k) mod length ts) ` {0..<length ts}" using mod_less_divisor [of "length ts" "j + (length ts - rot mod length ts)"] n
        by (intro image_eqI [of _ _ ?k]) simp_all
    qed
  qed (use n in auto)
  then have "(\<lambda>i. ts ! i) ` (\<lambda>k. (rot + k) mod length ts) ` {0..<length ts} = set ts"
    using nth_image [of "length ts" ts] by (simp add: atLeast0LessThan)
  then show ?thesis unfolding hd_rotations [OF assms] by (simp add: image_image)
qed

theorem each_tenant_first_witness: "set (map hd (rotations 3 5 [7, 8, 9])) = {7, 8, 9}"
proof -
  have "length [7, 8, 9 :: int] = 3" by simp
  from each_tenant_first [of "[7, 8, 9]" 5, unfolded this] show ?thesis by simp
qed

section \<open>One tenant does not hold up another\<close>

lemma upd_stat_simps [simp]:
  "jb_inflight (upd_stat f k s) = jb_inflight s" "jb_open (upd_stat f k s) = jb_open s" "jb_rotation (upd_stat f k s) = jb_rotation s"
  by (simp_all add: upd_stat_def)

lemma iteration_simps [simp]:
  "jb_inflight (start_iteration k s) = jb_inflight s" "jb_inflight (end_iteration err k s) = jb_inflight s"
  "jb_open (start_iteration k s) = (jb_open s)(k := jb_open s k + 1)" "jb_open (end_iteration err k s) = (jb_open s)(k := jb_open s k - 1)"
  "jb_inflight (leave_in_background k s) = k # removeAll k (jb_inflight s)" "jb_open (leave_in_background k s) = jb_open s"
  by (simp_all add: start_iteration_def end_iteration_def leave_in_background_def)

text \<open>An iteration is open exactly while it is in flight, and only one per job and tenant.\<close>

definition jobs_ok :: "jobs \<Rightarrow> bool" where
  "jobs_ok s \<longleftrightarrow> distinct (jb_inflight s) \<and> (\<forall>k. jb_open s k = (if k \<in> set (jb_inflight s) then 1 else 0))"

lemma background_ok: "jobs_ok s \<Longrightarrow> jobs_ok (background_done err k s)"
  by (auto simp: background_done_def Let_def jobs_ok_def distinct_removeAll)

abbreviation stat :: "jobs \<Rightarrow> string \<times> int \<Rightarrow> job_stat" where
  "stat s k \<equiv> dget_or (jb_stats s) k no_stat"

lemma stat_upd: "stat (upd_stat f k s) k' = (if k' = k then f (stat s k) else stat s k')"
  by (simp add: upd_stat_def dget_or_dset)

lemma stat_iteration:
  "stat (start_iteration k s) k' = stat s k'" "stat (end_iteration err k s) k' = (if k' = k then record_run err (stat s k) else stat s k')"
  "k' \<noteq> k \<Longrightarrow> stat (leave_in_background k s) k' = stat s k'"
  by (simp_all add: start_iteration_def end_iteration_def leave_in_background_def stat_upd)

text \<open>What a job's state says of one tenant: its counters, and whether an iteration of it is in flight.\<close>

definition view :: "jobs \<Rightarrow> string \<times> int \<Rightarrow> job_stat \<times> bool" where
  "view s k = (stat s k, k \<in> set (jb_inflight s))"

definition over_budget :: "job_stat \<Rightarrow> job_stat" where
  "over_budget st = st\<lparr>js_over := js_over st + 1, js_in_flight := True\<rparr>"

lemma view_own:
  "view (start_iteration k s) k = view s k" "view (end_iteration err k s) k = (record_run err (stat s k), snd (view s k))"
  "view (leave_in_background k s) k = (over_budget (stat s k), True)"
  "view (skip_tenant k s) k = ((stat s k)\<lparr>js_skipped := js_skipped (stat s k) + 1\<rparr>, snd (view s k))"
  by (simp_all add: view_def start_iteration_def end_iteration_def leave_in_background_def skip_tenant_def stat_upd over_budget_def)

lemma view_background:
  "view (background_done err k s) k = (if snd (view s k) then ((record_run err (stat s k))\<lparr>js_in_flight := False\<rparr>, False) else view s k)"
  by (simp add: view_def background_done_def Let_def stat_upd stat_iteration)

lemma view_other:
  assumes "k' \<noteq> k"
  shows "view (start_iteration k s) k' = view s k'" "view (end_iteration err k s) k' = view s k'"
    "view (leave_in_background k s) k' = view s k'" "view (skip_tenant k s) k' = view s k'" "view (background_done err k s) k' = view s k'"
  using assms by (auto simp: view_def stat_iteration skip_tenant_def stat_upd background_done_def Let_def)

lemma wait_other: "t \<noteq> u \<Longrightarrow> view (wait_turn e job u s) (job, t) = view s (job, t)"
  by (auto simp: wait_turn_def view_other split: option.split)

lemma wait_same: "view s k = view s' k \<Longrightarrow> k = (job, t) \<Longrightarrow> view (wait_turn e job t s) k = view (wait_turn e job t s') k"
  by (auto simp: wait_turn_def view_background split: option.split) (simp_all add: view_def)

text \<open>A tenant gets its turn unless an earlier iteration of it is still in flight then; \<open>ahead\<close> are those who got theirs before.\<close>

definition has_turn :: "pass_env \<Rightarrow> string \<Rightarrow> jobs \<Rightarrow> int \<Rightarrow> bool" where
  "has_turn e job s t \<longleftrightarrow> \<not> snd (view (wait_turn e job t s) (job, t))"

definition ahead :: "pass_env \<Rightarrow> string \<Rightarrow> jobs \<Rightarrow> int list \<Rightarrow> int \<Rightarrow> int list" where
  "ahead e job s order t = filter (has_turn e job s) (takeWhile (\<lambda>u. u \<noteq> t) order)"

definition done_in_pass :: "pass_env \<Rightarrow> string \<Rightarrow> jobs \<Rightarrow> int list \<Rightarrow> enat list \<Rightarrow> int \<Rightarrow> enat" where
  "done_in_pass e job s order gate t = done_at e t (fold (gate_after e) (ahead e job s order t) gate)"

lemma has_turn_cong: "view s (job, t) = view s' (job, t) \<Longrightarrow> has_turn e job s t = has_turn e job s' t"
  using wait_same [of s "(job, t)" s' job t e] by (simp add: has_turn_def)

lemma ahead_cong: "(\<And>u. u \<in> set order \<Longrightarrow> view s (job, u) = view s' (job, u)) \<Longrightarrow> ahead e job s order t = ahead e job s' order t"
  unfolding ahead_def by (rule filter_cong [OF refl], rule has_turn_cong) (blast dest: set_takeWhileD)

lemma ahead_Cons: "ahead e job s (u # order) t = (if u = t then [] else (if has_turn e job s u then [u] else []) @ ahead e job s order t)"
  by (simp add: ahead_def)

text \<open>One turn: the iteration that ended in it, the gate and the state after it.\<close>

definition turn :: "pass_env \<Rightarrow> string \<Rightarrow> int \<Rightarrow> enat list \<Rightarrow> jobs \<Rightarrow> (int \<times> py_error option) list \<times> enat list \<times> jobs" where
  "turn e job t gate s =
     (let s1 = wait_turn e job t s; s2 = start_iteration (job, t) s1 in
      if \<not> has_turn e job s t then ([], gate, skip_tenant (job, t) s1)
      else if done_at e t gate \<le> enat (pe_budget e)
      then ([(t, pe_error e t)], gate_after e t gate, end_iteration (pe_error e t) (job, t) s2)
      else ([], gate_after e t gate, leave_in_background (job, t) s2))"

lemma tenant_pass_Cons:
  "tenant_pass e job (t # ts) gate s =
     (case turn e job t gate s of (x, gate', s') \<Rightarrow> (x @ fst (tenant_pass e job ts gate' s'), snd (tenant_pass e job ts gate' s')))"
  by (simp add: turn_def has_turn_def view_def Let_def case_prod_unfold)

lemma turn_other: "turn e job u gate s = (x, gate', s') \<Longrightarrow> t \<noteq> u \<Longrightarrow> view s' (job, t) = view s (job, t)"
  by (auto simp: turn_def Let_def view_other wait_other split: if_splits)

lemma turn_gate: "turn e job u gate s = (x, gate', s') \<Longrightarrow> gate' = fold (gate_after e) (if has_turn e job s u then [u] else []) gate"
  by (auto simp: turn_def Let_def split: if_splits)

lemma pass_other: "t \<notin> set ts \<Longrightarrow> view (snd (tenant_pass e job ts gate s)) (job, t) = view s (job, t)"
proof (induction ts arbitrary: gate s)
  case (Cons u ts)
  obtain x gate' s' where u: "turn e job u gate s = (x, gate', s')" by (metis prod_cases3)
  show ?case using Cons turn_other [OF u] unfolding tenant_pass_Cons u by simp
qed simp

text \<open>What a pass does to a tenant: the effect of its own turn, at the gate the tenants ahead leave.\<close>

definition turn_effect :: "pass_env \<Rightarrow> int \<Rightarrow> bool \<Rightarrow> enat \<Rightarrow> job_stat \<Rightarrow> job_stat \<times> bool" where
  "turn_effect e t r d v =
     (if \<not> r then (v\<lparr>js_skipped := js_skipped v + 1\<rparr>, True)
      else if d \<le> enat (pe_budget e) then (record_run (pe_error e t) v, False) else (over_budget v, True))"

lemma turn_own:
  assumes "turn e job t gate s = (x, gate', s')"
  shows "view s' (job, t) = turn_effect e t (has_turn e job s t) (done_at e t gate) (fst (view (wait_turn e job t s) (job, t)))"
    and "x = (if has_turn e job s t \<and> done_at e t gate \<le> enat (pe_budget e) then [(t, pe_error e t)] else [])"
  using assms by (auto simp: turn_effect_def turn_def Let_def view_own has_turn_def split: if_splits) (simp_all add: view_def stat_iteration)

lemma pass_ended_sub: "fst ` set (fst (tenant_pass e job ts gate s)) \<subseteq> set ts"
  by (induction ts arbitrary: gate s) (auto simp: Let_def case_prod_unfold split: if_splits)

lemma pass_own:
  assumes "distinct ts" "t \<in> set ts"
  shows "view (snd (tenant_pass e job ts gate s)) (job, t) =
      turn_effect e t (has_turn e job s t) (done_in_pass e job s ts gate t) (fst (view (wait_turn e job t s) (job, t))) \<and>
    ((t, err) \<in> set (fst (tenant_pass e job ts gate s)) \<longleftrightarrow>
      has_turn e job s t \<and> done_in_pass e job s ts gate t \<le> enat (pe_budget e) \<and> err = pe_error e t)"
  using assms
proof (induction ts arbitrary: gate s)
  case (Cons u ts)
  obtain x gate' s' where u: "turn e job u gate s = (x, gate', s')" by (metis prod_cases3)
  have pass: "fst (tenant_pass e job (u # ts) gate s) = x @ fst (tenant_pass e job ts gate' s')"
    "snd (tenant_pass e job (u # ts) gate s) = snd (tenant_pass e job ts gate' s')"
    by (simp_all only: tenant_pass_Cons u prod.case fst_conv snd_conv)
  show ?case
  proof (cases "u = t")
    case True
    then have "t \<notin> set ts" using Cons.prems by simp
    then have "view (snd (tenant_pass e job ts gate' s')) (job, t) = view s' (job, t)" "(t, err) \<notin> set (fst (tenant_pass e job ts gate' s'))"
      using pass_other pass_ended_sub [of e job ts gate' s'] by (blast, force)
    then show ?thesis using turn_own [OF u] True unfolding pass done_in_pass_def ahead_Cons by auto
  next
    case False
    have d: "distinct ts" "t \<in> set ts" using Cons.prems False by auto
    have v: "view s' (job, v) = view s (job, v)" if "v \<in> set ts" for v using turn_other [OF u, of v] Cons.prems(1) that by (cases "v = u") auto
    have nx: "(t, err) \<notin> set x" using turn_own(2) [OF u] False by auto
    have w: "view (wait_turn e job t s') (job, t) = view (wait_turn e job t s) (job, t)" using v [OF d(2)] by (rule wait_same) simp
    have h: "has_turn e job s' t = has_turn e job s t" using v [OF d(2)] by (rule has_turn_cong)
    have a: "ahead e job s' ts t = ahead e job s ts t" using v by (rule ahead_cong)
    have "done_in_pass e job s' ts gate' t = done_in_pass e job s (u # ts) gate t"
      using False by (simp add: done_in_pass_def a ahead_Cons turn_gate [OF u])
    then show ?thesis using Cons.IH [OF d, of gate' s'] nx unfolding pass w h by simp
  qed
qed simp

text \<open>
  The gate. While fewer of its slots than it has are with the tenants of \<open>S\<close>, however long these take, another slot is free
  no later than the time the other tenants ahead take together.
\<close>

lemma filter_insort_length: "length (filter P (insort x xs)) = length (filter P xs) + (if P x then 1 else 0)"
  by (induction xs) auto

lemma hd_le_of_filter:
  assumes "sorted (g :: enat list)" "filter (\<lambda>x. x \<le> d) g \<noteq> []"
  shows "hd g \<le> d"
proof -
  obtain x where x: "x \<in> set g" "x \<le> d" using assms(2) by (auto simp: filter_empty_conv)
  then show ?thesis using assms(1) by (cases g) auto
qed

lemma gate_kept: "sorted g \<Longrightarrow> length g = pe_parallel e \<Longrightarrow> sorted (gate_after e u g) \<and> length (gate_after e u g) = pe_parallel e"
  by (cases g) (auto simp: gate_after_def sequential_def sorted_insort)

lemma gate_step:
  assumes "\<not> sequential e" "sorted g" "length g = pe_parallel e" "k < pe_parallel e" "pe_parallel e \<le> k + length (filter (\<lambda>x. x \<le> d) g)"
  shows "pe_parallel e \<le> Suc k + length (filter (\<lambda>x. x \<le> d) (gate_after e u g))"
    and "pe_parallel e \<le> k + length (filter (\<lambda>x. x \<le> d + pe_duration e u) (gate_after e u g))"
proof -
  have ne: "filter (\<lambda>x. x \<le> d) g \<noteq> []" using assms(4,5) by auto
  then obtain a g' where g: "g = a # g'" by (cases g) auto
  have a: "a \<le> d" using hd_le_of_filter [OF assms(2) ne] g by simp
  have m: "length (filter (\<lambda>x. x \<le> d) g') \<le> length (filter (\<lambda>x. x \<le> d + pe_duration e u) g')"
    by (induction g') (auto intro: order_trans [OF _ le_iff_add [THEN iffD2]])
  show "pe_parallel e \<le> Suc k + length (filter (\<lambda>x. x \<le> d) (gate_after e u g))"
    using assms(1,5) a g by (simp add: gate_after_def filter_insort_length)
  have "done_at e u g \<le> d + pe_duration e u" using assms(1) a g by (simp add: done_at_def add_right_mono)
  then show "pe_parallel e \<le> k + length (filter (\<lambda>x. x \<le> d + pe_duration e u) (gate_after e u g))"
    using assms(1,5) a g m by (simp add: gate_after_def filter_insort_length)
qed

lemma gate_free:
  assumes "\<not> sequential e" "sorted g" "length g = pe_parallel e"
    and "k + length (filter (\<lambda>u. u \<in> S) us) < pe_parallel e" "pe_parallel e \<le> k + length (filter (\<lambda>x. x \<le> d) g)"
  shows "hd (fold (gate_after e) us g) \<le> d + sum_list (map (pe_duration e) (filter (\<lambda>u. u \<notin> S) us))"
  using assms(2-)
proof (induction us arbitrary: g k d)
  case Nil
  then show ?case by (simp, intro hd_le_of_filter) auto
next
  case (Cons u us)
  note gk = gate_kept [OF Cons.prems(1,2), of u]
  note st = gate_step [OF assms(1) Cons.prems(1,2) _ Cons.prems(4), of u]
  show ?case
  proof (cases "u \<in> S")
    case True
    then show ?thesis using Cons.IH [of "gate_after e u g" "Suc k" d] gk st(1) Cons.prems(3) by simp
  next
    case False
    then show ?thesis using Cons.IH [of "gate_after e u g" k "d + pe_duration e u"] gk st(2) Cons.prems(3) by (simp add: add.assoc)
  qed
qed

lemma first_error_iff: "first_error ended = None \<longleftrightarrow> (\<forall>(t, e) \<in> set ended. e = None)"
proof (cases "filter (\<lambda>e. snd e \<noteq> None) ended")
  case (Cons p ps)
  then have "p \<in> set ended \<and> snd p \<noteq> None" using filter_eq_ConsD [OF Cons] by auto
  then show ?thesis using Cons by (auto simp: first_error_def case_prod_unfold)
qed (auto simp: first_error_def filter_empty_conv)

text \<open>
  C27. What a pass does to a tenant \<open>t\<close>, whatever the others raise. It is skipped exactly if an earlier iteration of it is
  still running at its turn. Otherwise either its run is recorded, with its error, or it is left in flight. A sequential pass
  records it exactly if it takes no longer than the budget, however long the others take. A parallel pass has a gate, and a
  budget that includes the wait for a slot: it records the run if the iterations ahead of it, all but fewer than the gate has
  slots, and its own take no longer than the budget together, however long the excepted ones take. The pass raises an error
  exactly if an iteration that ended in the budget failed.
\<close>

theorem tenants_isolated:
  fixes e :: pass_env and job :: string and s :: jobs
  assumes "distinct tenant_ids" and "t \<in> set tenant_ids" and "run_for_tenants e job tenant_ids s = (err, s')"
  defines "order \<equiv> fst (rotated (dget_or (jb_rotation s) job 0) tenant_ids)"
    and "before \<equiv> stat (wait_turn e job t s) (job, t)"
  shows "(\<not> has_turn e job s t \<longrightarrow> view s' (job, t) = (before\<lparr>js_skipped := js_skipped before + 1\<rparr>, True)) \<and>
    (has_turn e job s t \<longrightarrow>
      view s' (job, t) = (record_run (pe_error e t) before, False) \<or> view s' (job, t) = (over_budget before, True)) \<and>
    (has_turn e job s t \<and> pe_parallel e \<le> 1 \<longrightarrow>
      (view s' (job, t) = (record_run (pe_error e t) before, False) \<longleftrightarrow> pe_duration e t \<le> enat (pe_budget e))) \<and>
    (\<forall>S. has_turn e job s t \<and> 1 < pe_parallel e \<and>
        length (filter (\<lambda>u. u \<in> S) (ahead e job s order t)) < pe_parallel e \<and>
        sum_list (map (pe_duration e) (filter (\<lambda>u. u \<notin> S) (ahead e job s order t))) + pe_duration e t \<le> enat (pe_budget e) \<longrightarrow>
      view s' (job, t) = (record_run (pe_error e t) before, False)) \<and>
    (err \<noteq> None \<longleftrightarrow> (\<exists>u \<in> set tenant_ids. has_turn e job s u \<and> (job, u) \<notin> set (jb_inflight s') \<and> pe_error e u \<noteq> None))"
proof -
  define rot where "rot = dget_or (jb_rotation s) job 0"
  define s1 where "s1 = (if length tenant_ids < 2 then s else s\<lparr>jb_rotation := dset (jb_rotation s) job (snd (rotated rot tenant_ids))\<rparr>)"
  define gate :: "enat list" where "gate = replicate (pe_parallel e) 0"
  have o: "set order = set tenant_ids" "distinct order" using set_rotated distinct_rotated assms(1) by (auto simp: order_def)
  have v1: "view s1 k = view s k" for k by (simp add: s1_def view_def)
  have r: "err = first_error (fst (tenant_pass e job order gate s1))" "s' = snd (tenant_pass e job order gate s1)"
    using assms(3) by (auto simp: run_for_tenants_def order_def rot_def s1_def gate_def Let_def case_prod_unfold)
  have h: "has_turn e job s1 u = has_turn e job s u" for u by (rule has_turn_cong) (rule v1)
  have w: "view (wait_turn e job u s1) (job, u) = view (wait_turn e job u s) (job, u)" for u by (rule wait_same) (simp_all add: v1)
  have a: "ahead e job s1 order u = ahead e job s order u" for u by (rule ahead_cong) (rule v1)
  define d where "d = (\<lambda>u. done_at e u (fold (gate_after e) (ahead e job s order u) gate))"
  have own: "view s' (job, u) = turn_effect e u (has_turn e job s u) (d u) (stat (wait_turn e job u s) (job, u))"
    "(u, x) \<in> set (fst (tenant_pass e job order gate s1)) \<longleftrightarrow> has_turn e job s u \<and> d u \<le> enat (pe_budget e) \<and> x = pe_error e u"
    if "u \<in> set tenant_ids" for u x
    using pass_own [OF o(2), of u e job gate s1 x] that w [of u] unfolding o(1) r(2) h done_in_pass_def a d_def by (auto simp: view_def)
  have seq: "d t = pe_duration e t" if "pe_parallel e \<le> 1" using that by (simp add: d_def done_at_def sequential_def)
  have par: "d t \<le> sum_list (map (pe_duration e) (filter (\<lambda>u. u \<notin> S) (ahead e job s order t))) + pe_duration e t"
    if "1 < pe_parallel e" "length (filter (\<lambda>u. u \<in> S) (ahead e job s order t)) < pe_parallel e" for S
    using gate_free [of e gate 0 S "ahead e job s order t" 0] that by (simp add: d_def done_at_def sequential_def gate_def add_right_mono)
  have "err \<noteq> None \<longleftrightarrow> (\<exists>u x. (u, Some x) \<in> set (fst (tenant_pass e job order gate s1)))" unfolding r(1) first_error_iff by auto
  also have "\<dots> \<longleftrightarrow> (\<exists>u \<in> set tenant_ids. has_turn e job s u \<and> d u \<le> enat (pe_budget e) \<and> pe_error e u \<noteq> None)"
  proof -
    have sub: "u \<in> set tenant_ids" if "(u, x) \<in> set (fst (tenant_pass e job order gate s1))" for u x
      using pass_ended_sub [of e job order gate s1] o(1) imageI [OF that, of fst] by auto
    have "(\<exists>x. (u, Some x) \<in> set (fst (tenant_pass e job order gate s1))) \<longleftrightarrow>
        u \<in> set tenant_ids \<and> has_turn e job s u \<and> d u \<le> enat (pe_budget e) \<and> pe_error e u \<noteq> None" for u
      using own(2) [of u] sub [of u] by (cases "u \<in> set tenant_ids"; cases "pe_error e u") auto
    then show ?thesis by blast
  qed
  also have "\<dots> \<longleftrightarrow> (\<exists>u \<in> set tenant_ids. has_turn e job s u \<and> (job, u) \<notin> set (jb_inflight s') \<and> pe_error e u \<noteq> None)"
  proof (rule bex_cong [OF refl])
    fix u assume "u \<in> set tenant_ids"
    from own(1) [OF this] have "(job, u) \<in> set (jb_inflight s') \<longleftrightarrow> snd (turn_effect e u (has_turn e job s u) (d u) (stat (wait_turn e job u s) (job, u)))"
      by (metis view_def snd_conv)
    then show "(has_turn e job s u \<and> d u \<le> enat (pe_budget e) \<and> pe_error e u \<noteq> None) =
        (has_turn e job s u \<and> (job, u) \<notin> set (jb_inflight s') \<and> pe_error e u \<noteq> None)"
      by (simp add: turn_effect_def split: if_splits)
  qed
  finally have er: "err \<noteq> None \<longleftrightarrow> \<dots>" .
  note own_t = own(1) [OF assms(2), folded before_def, unfolded turn_effect_def]
  show ?thesis
  proof (intro conjI allI impI)
    fix S
    assume p: "has_turn e job s t \<and> 1 < pe_parallel e \<and> length (filter (\<lambda>u. u \<in> S) (ahead e job s order t)) < pe_parallel e \<and>
      sum_list (map (pe_duration e) (filter (\<lambda>u. u \<notin> S) (ahead e job s order t))) + pe_duration e t \<le> enat (pe_budget e)"
    then have "d t \<le> enat (pe_budget e)" using par [of S] by (blast intro: order_trans)
    then show "view s' (job, t) = (record_run (pe_error e t) before, False)" using own_t p by simp
  next
    show "err \<noteq> None \<longleftrightarrow> (\<exists>u \<in> set tenant_ids. has_turn e job s u \<and> (job, u) \<notin> set (jb_inflight s') \<and> pe_error e u \<noteq> None)" by (rule er)
  qed (use own_t seq in \<open>auto split: if_splits\<close>)
qed

definition no_jobs :: jobs where
  "no_jobs = \<lparr>jb_rotation = [], jb_inflight = [], jb_stats = [], jb_open = (\<lambda>_. 0)\<rparr>"

definition stuck_env :: "nat \<Rightarrow> int list \<Rightarrow> pass_env" where
  "stuck_env n stuck = \<lparr>pe_parallel = n, pe_budget = 1000, pe_duration = (\<lambda>t. if t \<in> set stuck then \<infinity> else 100), pe_error = (\<lambda>_. None),
     pe_freed = (\<lambda>_. None)\<rparr>"

theorem tenants_isolated_witness:
  "view (snd (run_for_tenants (stuck_env 2 [1]) ''ping'' [1, 2, 3] no_jobs)) (''ping'', 3) =
     (record_run None no_stat, False) \<and>
   view (snd (run_for_tenants (stuck_env 1 [1, 2]) ''ping'' [1, 2, 3] no_jobs)) (''ping'', 3) =
     (record_run None no_stat, False)"
proof -
  have h: "has_turn (stuck_env n ts) ''ping'' no_jobs t" "stat (wait_turn (stuck_env n ts) ''ping'' t no_jobs) (''ping'', t) = no_stat" for n ts t
    by (simp_all add: has_turn_def wait_turn_def stuck_env_def no_jobs_def view_def dget_or_def)
  have o: "fst (rotated (dget_or (jb_rotation no_jobs) ''ping'' 0) [1, 2, 3]) = [1, 2, 3]" by (simp add: rotated_def no_jobs_def dget_or_def)
  have a: "ahead (stuck_env n ts) ''ping'' no_jobs [1, 2, 3] 3 = [1, 2]" for n ts by (simp add: ahead_def h)
  note th = tenants_isolated [of "[1, 2, 3]" 3 _ "''ping''" no_jobs, OF _ _ prod.collapse [symmetric], unfolded h o a]
  have e: "pe_parallel (stuck_env n ts) = n" "pe_duration (stuck_env n ts) u = (if u \<in> set ts then \<infinity> else 100)"
    "pe_error (stuck_env n ts) u = None" "pe_budget (stuck_env n ts) = 1000" for n ts u by (simp_all add: stuck_env_def)
  have 1: "view (snd (run_for_tenants (stuck_env 2 [1]) ''ping'' [1, 2, 3] no_jobs)) (''ping'', 3) = (record_run None no_stat, False)"
    using th [of "stuck_env 2 [1]", THEN conjunct2, THEN conjunct2, THEN conjunct2, THEN conjunct1, THEN spec, of "{1}"]
    by (simp add: h e a numeral_eq_enat)
  have 2: "view (snd (run_for_tenants (stuck_env 1 [1, 2]) ''ping'' [1, 2, 3] no_jobs)) (''ping'', 3) = (record_run None no_stat, False)"
    using th [of "stuck_env 1 [1, 2]", THEN conjunct2, THEN conjunct2, THEN conjunct1] by (simp add: h e numeral_eq_enat)
  show ?thesis using 1 2 by blast
qed

text \<open>With as many iterations stuck as the gate has slots, a tenant behind them never gets a slot: it is left in flight without
  having started, and later passes skip it.\<close>

lemma gate_starves:
  "let s = snd (run_for_tenants (stuck_env 2 [1, 2]) ''ping'' [1, 2, 3] no_jobs); s' = snd (run_for_tenants (stuck_env 2 []) ''ping'' [1, 2, 3] s) in
   js_runs (stat s (''ping'', 3)) = 0 \<and> (''ping'', 3) \<in> set (jb_inflight s) \<and>
   js_runs (stat s' (''ping'', 3)) = 0 \<and> js_skipped (stat s' (''ping'', 3)) = 1"
  by code_simp

section \<open>Iterations do not overlap\<close>

datatype job_event = Pass string pass_env "int list" | Background string int "py_error option"

fun job_step :: "job_event \<Rightarrow> jobs \<Rightarrow> jobs" where
  "job_step (Pass job e ts) s = snd (run_for_tenants e job ts s)"
| "job_step (Background job t err) s = background_done err (job, t) s"

lemma turn_ok: "jobs_ok s \<Longrightarrow> turn e job t gate s = (x, gate', s') \<Longrightarrow> jobs_ok s'"
proof -
  assume "jobs_ok s" and t: "turn e job t gate s = (x, gate', s')"
  then have ok: "jobs_ok (wait_turn e job t s)" by (simp add: wait_turn_def background_ok split: option.split)
  have "jobs_ok (leave_in_background (job, t) (start_iteration (job, t) r))" if "(job, t) \<notin> set (jb_inflight r)" "jobs_ok r" for r
    using that by (auto simp: jobs_ok_def distinct_removeAll)
  moreover have "jobs_ok (end_iteration err (job, t) (start_iteration (job, t) r))" if "jobs_ok r" for r err
    using that by (simp add: jobs_ok_def)
  moreover have "jobs_ok (skip_tenant k r)" if "jobs_ok r" for k r using that by (simp add: jobs_ok_def skip_tenant_def)
  ultimately show ?thesis using t ok by (auto simp: turn_def Let_def has_turn_def view_def split: if_splits)
qed

lemma tenant_pass_ok: "jobs_ok s \<Longrightarrow> jobs_ok (snd (tenant_pass e job ts gate s))"
proof (induction ts arbitrary: gate s)
  case (Cons t ts)
  obtain x gate' s' where t: "turn e job t gate s = (x, gate', s')" by (metis prod_cases3)
  show ?case using Cons.IH [OF turn_ok [OF Cons.prems t]] by (simp only: tenant_pass_Cons t prod.case snd_conv)
qed simp

lemma job_step_ok: "jobs_ok s \<Longrightarrow> jobs_ok (job_step ev s)"
proof (cases ev)
  case (Pass job e ts)
  assume "jobs_ok s"
  then have "jobs_ok (s\<lparr>jb_rotation := r\<rparr>)" for r by (simp add: jobs_ok_def)
  then show ?thesis using Pass \<open>jobs_ok s\<close> by (auto simp: run_for_tenants_def Let_def case_prod_unfold tenant_pass_ok)
qed (simp add: background_ok)

interpretation job_passes: step_system job_step jobs_ok
  by unfold_locales (rule job_step_ok)

text \<open>Over any passes of any jobs over several tenants, with iterations left in the background that end whenever they do, a
  job never runs twice at the same time for one tenant.\<close>

theorem iterations_do_not_overlap: "jb_open (fold job_step evs no_jobs) k \<le> 1"
proof -
  have "jobs_ok no_jobs" by (simp add: jobs_ok_def no_jobs_def)
  from job_passes.run_good [OF this, of evs] show ?thesis unfolding jobs_ok_def by (metis le_numeral_extra(4) zero_le_one)
qed

text \<open>The plain call for a single tenant does not look at the iterations in flight. When the other tenants are gone while an
  iteration of the last one is still in the background, the job runs twice for it at the same time.\<close>

lemma single_tenant_overlaps:
  "let s = snd (run_for_tenants (stuck_env 1 [1]) ''correlation'' [1, 2] no_jobs)
   in jb_open (start_iteration (''correlation'', 1) s) (''correlation'', 1) = 2 \<and>
      per_tenant_job None (stuck_env 1 []) ''correlation'' [1] s =
        Some (None, end_iteration None (''correlation'', 1) (start_iteration (''correlation'', 1) s))"
  unfolding Let_def
proof
  have "jb_open (snd (run_for_tenants (stuck_env 1 [1]) ''correlation'' [1, 2] no_jobs)) (''correlation'', 1) = 1" by code_simp
  then show "jb_open (start_iteration (''correlation'', 1) (snd (run_for_tenants (stuck_env 1 [1]) ''correlation'' [1, 2] no_jobs)))
      (''correlation'', 1) = 2" by simp
qed (simp add: per_tenant_job_def run_single_def stuck_env_def)

section \<open>Cadence, retention and schedules\<close>

text \<open>The times at which a tenant is due, of the times of the passes.\<close>

fun due_times :: "rat \<Rightarrow> rat \<Rightarrow> rat option \<Rightarrow> rat list \<Rightarrow> rat list" where
  "due_times interval tick l [] = []"
| "due_times interval tick l (now # rest) =
     (if cadence_due l interval tick now then now # due_times interval tick (Some now) rest else due_times interval tick l rest)"

lemma due_times_head: "due_times interval tick (Some l) nows = x # xs \<Longrightarrow> x - l \<ge> interval - CADENCE_JITTER"
  by (induction nows) (auto simp: cadence_due_def split: if_splits)

text \<open>Two successive runs of a tenant are never closer than its interval less the tolerance of two seconds, whatever the times
  of the passes.\<close>

theorem cadence_never_faster:
  "successively (\<lambda>a b. b - a \<ge> interval - CADENCE_JITTER) (due_times interval tick l nows)"
proof (induction nows arbitrary: l)
  case (Cons now nows)
  show ?case using Cons.IH [of l] Cons.IH [of "Some now"] due_times_head [of interval tick now nows]
    by (cases "due_times interval tick (Some now) nows") auto
qed simp

text \<open>An interval of 61 seconds at a tick of 60 runs on every tick, a second faster than configured.\<close>

lemma faster_than_configured: "due_times 61 60 None [0, 60, 120, 180] = [0, 60, 120, 180]"
  by (simp add: cadence_due_def CADENCE_JITTER_def min_def)

text \<open>A retention in force never exceeds the installation's cap nor the tenant's plan, also when the stored value is 0 (keep
  forever) or does not parse, and when the plan cannot be read the installation's cap still holds.\<close>

theorem retention_within_caps:
  "\<exists>d. retention_days policy raw_cap raw dflt = Inr d \<and>
     (\<forall>c. raw_cap \<noteq> [] \<and> installation_cap raw_cap = Some c \<longrightarrow> 0 < d \<and> d \<le> c) \<and>
     (\<forall>p. policy = Policy_cap (Some p) \<and> 0 < p \<longrightarrow> 0 < d \<and> d \<le> p)"
proof -
  have c: "0 < c" if "installation_cap r = Some c" for r c using that by (auto simp: installation_cap_def split: option.splits if_splits)
  show ?thesis
    by (cases policy) (auto simp: retention_days_def retention_cap_def apply_retention_cap_def Let_def dest: c split: option.splits)
qed

theorem retention_within_caps_witness:
  "\<exists>d. retention_days (Policy_cap (Some 30)) ''90'' ''0'' 7 = Inr d \<and> 0 < d \<and> d \<le> 30"
  using retention_within_caps [of "Policy_cap (Some 30)" "''90''" "''0''" 7] by auto

definition fixed_offset :: "int \<Rightarrow> zone" where
  "fixed_offset off = \<lparr>zn_local = (\<lambda>t. t + off), zn_fold = (\<lambda>_. False), zn_instant = (\<lambda>_ l. l - off)\<rparr>"

lemma weekday_back:
  assumes "0 \<le> w" "w < 7"
  shows "weekday (d - (weekday d - w) mod 7) = w"
proof -
  have "weekday (d - (weekday d - w) mod 7) = (d + 3 - (weekday d - w) mod 7) mod 7" by (simp add: weekday_def algebra_simps)
  also have "\<dots> = (d + 3 - ((d + 3) mod 7 - w)) mod 7" unfolding weekday_def by (rule mod_diff_right_eq)
  also have "\<dots> = (w + (d + 3 - (d + 3) mod 7)) mod 7" by (simp add: algebra_simps)
  also have "d + 3 - (d + 3) mod 7 = 7 * ((d + 3) div 7)" by (rule minus_mod_eq_mult_div)
  finally show ?thesis using assms by simp
qed

text \<open>In a zone with a fixed offset the slot of a tenant-local schedule is the latest one: it is not in the future, the next one
  (a day or a week later) is, and it is at the full hour of the right weekday in the tenant's time.\<close>

theorem last_slot_latest:
  fixes now off hour :: int
  assumes "0 \<le> hour" "hour < 24" "\<forall>w. wd = Some w \<longrightarrow> 0 \<le> w \<and> w < 7"
  defines "slot \<equiv> last_slot (fixed_offset off) now hour wd"
  shows "slot \<le> now \<and> now < slot + (case wd of None \<Rightarrow> 1 | Some _ \<Rightarrow> 7) * us_per_day \<and> tod_of (slot + off) = hour * 3600000000 \<and>
    (\<forall>w. wd = Some w \<longrightarrow> weekday (day_of (slot + off)) = w)"
proof -
  define l where "l = now + off"
  define s0 where "s0 = day_of l * us_per_day + hour * 3600000000"
  define s1 where "s1 = (if s0 > l then s0 - us_per_day else s0)"
  have d: "day_of l * us_per_day \<le> l" "l < day_of l * us_per_day + us_per_day"
    using div_mult_mod_eq [of l us_per_day] pos_mod_bound [of us_per_day l] pos_mod_sign [of us_per_day l] unfolding day_of_def by linarith+
  have s1: "s1 \<le> l" "l < s1 + us_per_day" using d assms(1,2) by (auto simp: s1_def s0_def)
  have tod: "tod_of (s1 - k * us_per_day) = hour * 3600000000" for k
  proof -
    have "s1 - k * us_per_day = hour * 3600000000 + us_per_day * (day_of l - k - (if s0 > l then 1 else 0))"
      by (simp add: s1_def s0_def algebra_simps)
    then have "tod_of (s1 - k * us_per_day) = hour * 3600000000 mod us_per_day" unfolding tod_of_def by (simp only: mod_mult_self2)
    then show ?thesis using assms(1,2) by (simp add: mod_pos_pos_trivial)
  qed
  have day: "day_of (s1 - k * us_per_day) = day_of s1 - k" for k unfolding day_of_def by simp
  show ?thesis
  proof (cases wd)
    case None
    then have "slot + off = s1" by (simp add: slot_def last_slot_def fixed_offset_def Let_def l_def s1_def s0_def)
    then show ?thesis using s1 tod [of 0] None by (simp add: l_def)
  next
    case (Some w)
    let ?k = "(weekday (day_of s1) - w) mod 7"
    have e: "slot + off = s1 - ?k * us_per_day"
      using Some by (simp add: slot_def last_slot_def fixed_offset_def Let_def l_def s1_def s0_def)
    have k: "0 \<le> ?k" "?k \<le> 6" using pos_mod_bound [of 7 "weekday (day_of s1) - w"] by auto
    have "weekday (day_of s1 - ?k) = w" using assms(3) Some by (intro weekday_back) auto
    then show ?thesis using s1 tod [of ?k] day [of ?k] k Some e by (simp add: l_def)
  qed
qed

theorem last_slot_latest_witness:
  "let slot = last_slot (fixed_offset 7200000000) 0 8 (Some 0) in slot \<le> 0 \<and> weekday (day_of (slot + 7200000000)) = 0"
  using last_slot_latest [of 8 "Some 0" 7200000000 0] by (simp add: Let_def)

text \<open>A digest that was sent in its slot is not sent again before the next slot.\<close>

lemma slot_sent_once: "last_slot z now hour wd \<le> sent \<Longrightarrow> \<not> slot_due z now hour wd grace (Some sent)"
  by (simp add: slot_due_def Let_def)

end
