(* ===== verification/Incident_View.thy ===== *)
theory Incident_View
  imports Incidents Host_State
begin

text \<open>
  How incidents are filtered and shown (\<^verbatim>\<open>backend/services/incident_view.py\<close>): the filter by host works on the text of the
  recorded host ids, with \<^verbatim>\<open>LIKE\<close> patterns.
\<close>

section \<open>SQL patterns\<close>

text \<open>\<^verbatim>\<open>LIKE\<close> with the percent sign only: any text.\<close>

fun like :: "string \<Rightarrow> string \<Rightarrow> bool" where
  "like [] s = (s = [])"
| "like (p # ps) s =
     (if p = CHR 0x25 then like ps s \<or> (case s of [] \<Rightarrow> False | _ # s' \<Rightarrow> like (p # ps) s')
      else (case s of [] \<Rightarrow> False | c # s' \<Rightarrow> p = c \<and> like ps s'))"

definition host_id_condition :: "int \<Rightarrow> string \<Rightarrow> bool" where
  "host_id_condition hid col =
     (let h = show_int hid in
      col = ''['' @ h @ '']'' \<or>
      like (''['' @ h @ '','' @ [CHR 0x25]) col \<or>
      like ([CHR 0x25] @ '','' @ h @ '','' @ [CHR 0x25]) col \<or>
      like ([CHR 0x25] @ '','' @ h @ '']'') col \<or>
      like ([CHR 0x25] @ '', '' @ h @ '','' @ [CHR 0x25]) col \<or>
      like ([CHR 0x25] @ '', '' @ h @ '']'') col)"

lemma like_plain: "CHR 0x25 \<notin> set p \<Longrightarrow> like (p @ q) s \<longleftrightarrow> (\<exists>r. s = p @ r \<and> like q r)"
proof (induction p arbitrary: s)
  case (Cons c p)
  then show ?case by (cases s) auto
qed simp

lemma like_any: "like [CHR 0x25] s"
  by (induction s) auto

lemma like_percent: "like (CHR 0x25 # ps) s \<longleftrightarrow> (\<exists>u v. s = u @ v \<and> like ps v)"
proof (induction s)
  case (Cons c s)
  have "(\<exists>u v. c # s = u @ v \<and> like ps v) \<longleftrightarrow> like ps (c # s) \<or> (\<exists>u v. s = u @ v \<and> like ps v)"
    by (metis append_Cons append_Nil list.exhaust_sel list.sel(1) list.sel(3))
  then show ?case using Cons by simp
qed simp

declare like.simps(2) [simp del]

lemma like_prefix: "CHR 0x25 \<notin> set p \<Longrightarrow> like (p @ [CHR 0x25]) s \<longleftrightarrow> (\<exists>v. s = p @ v)"
  by (simp add: like_plain like_any)

lemma like_infix: "CHR 0x25 \<notin> set p \<Longrightarrow> like (CHR 0x25 # p @ [CHR 0x25]) s \<longleftrightarrow> (\<exists>u v. s = u @ p @ v)"
  by (simp add: like_percent like_plain like_any) blast

lemma like_suffix: "CHR 0x25 \<notin> set p \<Longrightarrow> like (CHR 0x25 # p) s \<longleftrightarrow> (\<exists>u. s = u @ p)"
  using like_plain [of p "[]"] by (simp add: like_percent)

section \<open>Hosts of an incident\<close>

definition MAX_HOSTS_PER_ITEM :: nat where "MAX_HOSTS_PER_ITEM = 20"

record host_summary =
  su_id :: int
  su_name :: "string option"
  su_hostname :: "string option"
  su_state :: "string option"
  su_reason :: "string option"

definition host_item :: "ping_host list \<Rightarrow> (int, host_state) dict \<Rightarrow> int \<Rightarrow> host_summary" where
  "host_item hosts states hid =
     (case find (\<lambda>h. host_id h = hid) hosts of
        None \<Rightarrow> \<lparr>su_id = hid, su_name = None, su_hostname = None, su_state = None, su_reason = Some ''Host deleted''\<rparr>
      | Some h \<Rightarrow> \<lparr>su_id = hid, su_name = Some (host_name h), su_hostname = Some (hostname h),
                   su_state = map_option hs_state (dget states hid), su_reason = map_option hs_reason (dget states hid)\<rparr>)"

text \<open>The hosts of the table and their states are arguments; \<open>limit_per_item\<close> is \<open>None\<close> for all hosts.\<close>

definition summary_of ::
    "nat option \<Rightarrow> ping_host list \<Rightarrow> (int, host_state) dict \<Rightarrow> incident \<Rightarrow> (int, host_summary list) dict \<Rightarrow> (int, host_summary list) dict result" where
  "summary_of limit_per_item hosts states inc out =
     bind_result (incident_host_ids (inc_host_ids inc)) (\<lambda>ids. Inr (case ids of
         None \<Rightarrow> out
       | Some xs \<Rightarrow> dset out (inc_id inc) (map (host_item hosts states) (case limit_per_item of None \<Rightarrow> xs | Some n \<Rightarrow> take n xs))))"

definition host_summaries ::
    "nat option \<Rightarrow> ping_host list \<Rightarrow> (int, host_state) dict \<Rightarrow> incident list \<Rightarrow> (int, host_summary list) dict result" where
  "host_summaries limit_per_item hosts states incidents = fold_result (summary_of limit_per_item hosts states) incidents []"

definition incident_host_fields :: "incident \<Rightarrow> (int, host_summary list) dict \<Rightarrow> (int list option \<times> nat option \<times> host_summary list option) result" where
  "incident_host_fields inc summaries =
     bind_result (incident_host_ids (inc_host_ids inc)) (\<lambda>ids.
       Inr (ids, map_option length ids, if ids = None then None else dget summaries (inc_id inc)))"

section \<open>The filter by host finds exactly the host\<close>

text \<open>A list of tokens between commas.\<close>

definition between :: "string list \<Rightarrow> string" where
  "between toks = concat (map (\<lambda>x. CHR '','' # x) toks) @ '',''"

lemma between_join: "toks \<noteq> [] \<Longrightarrow> between toks = '','' @ join '','' toks @ '',''"
  by (induction "'',''" toks rule: join.induct) (auto simp: between_def)

lemma comma_split:
  assumes "CHR '','' \<notin> set x" "CHR '','' \<notin> set w" "x @ CHR '','' # r = w @ CHR '','' # v"
  shows "x = w \<and> r = v"
proof -
  have t: "takeWhile (\<lambda>c. c \<noteq> CHR '','') (y @ CHR '','' # s) = y" if "CHR '','' \<notin> set y" for y s
    using that by (subst takeWhile_append2) auto
  have "x = w" using t [OF assms(1), of r] t [OF assms(2), of v] assms(3) by metis
  then show ?thesis using assms(3) by simp
qed

lemma comma_between: "\<exists>r. between toks = CHR '','' # r"
  by (cases toks) (auto simp: between_def)

lemma token_infix:
  assumes "\<forall>x \<in> set toks. CHR '','' \<notin> set x" "CHR '','' \<notin> set w"
  shows "(\<exists>u v. between toks = u @ CHR '','' # w @ CHR '','' # v) \<longleftrightarrow> w \<in> set toks"
  using assms(1)
proof (induction toks)
  case Nil
  have False if "[CHR '',''] = u @ CHR '','' # w @ CHR '','' # v" for u v
    using arg_cong [OF that, of length] by simp
  then show ?case by (auto simp: between_def)
next
  case (Cons x toks)
  obtain r where r: "between toks = CHR '','' # r" using comma_between by blast
  have b: "between (x # toks) = CHR '','' # x @ between toks" by (simp add: between_def)
  show ?case
  proof
    assume "\<exists>u v. between (x # toks) = u @ CHR '','' # w @ CHR '','' # v"
    then obtain u v where uv: "between (x # toks) = u @ CHR '','' # w @ CHR '','' # v" by blast
    show "w \<in> set (x # toks)"
    proof (cases u)
      case Nil
      then have "x = w" using uv b r comma_split [of x w r v] Cons.prems assms(2) by simp
      then show ?thesis by simp
    next
      case (Cons c u')
      then have e: "x @ between toks = u' @ CHR '','' # w @ CHR '','' # v" using uv b by simp
      then obtain y where "u' = x @ y \<and> between toks = y @ CHR '','' # w @ CHR '','' # v \<or>
          x = u' @ y \<and> y @ between toks = CHR '','' # w @ CHR '','' # v" by (auto simp: append_eq_append_conv2)
      moreover have "y = []" if "x = u' @ y" "y @ between toks = CHR '','' # w @ CHR '','' # v"
        using that Cons.prems by (cases y) auto
      ultimately have "\<exists>y. between toks = y @ CHR '','' # w @ CHR '','' # v" by (metis append_Nil)
      then show ?thesis using Cons.IH Cons.prems by auto
    qed
  next
    assume "w \<in> set (x # toks)"
    then consider "w = x" | "w \<in> set toks" by auto
    then show "\<exists>u v. between (x # toks) = u @ CHR '','' # w @ CHR '','' # v"
    proof cases
      case 1
      then have "between (x # toks) = [] @ CHR '','' # w @ CHR '','' # r" using b r by simp
      then show ?thesis by blast
    next
      case 2
      then obtain u v where "between toks = u @ CHR '','' # w @ CHR '','' # v" using Cons.IH Cons.prems by auto
      then have "between (x # toks) = (CHR '','' # x @ u) @ CHR '','' # w @ CHR '','' # v" using b by simp
      then show ?thesis by blast
    qed
  qed
qed

text \<open>The four shapes of an element in a bracketed list: the only one, the first, one in the middle, the last.\<close>

lemma element_shapes:
  assumes "J = join '','' toks" "toks \<noteq> []" "\<forall>x \<in> set toks. CHR '','' \<notin> set x" "CHR '','' \<notin> set w"
  shows "w \<in> set toks \<longleftrightarrow> J = w \<or> (\<exists>v. J = w @ '','' @ v) \<or> (\<exists>u v. J = u @ '','' @ w @ '','' @ v) \<or> (\<exists>u. J = u @ '','' @ w)"
proof -
  have "w \<in> set toks \<longleftrightarrow> (\<exists>u v. CHR '','' # J @ '','' = u @ CHR '','' # w @ CHR '','' # v)"
    using token_infix [OF assms(3,4)] between_join [OF assms(2)] assms(1) by simp
  also have "\<dots> \<longleftrightarrow> (\<exists>v. J @ '','' = w @ CHR '','' # v) \<or> (\<exists>u v. J @ '','' = u @ CHR '','' # w @ CHR '','' # v)"
  proof
    assume "\<exists>u v. CHR '','' # J @ '','' = u @ CHR '','' # w @ CHR '','' # v"
    then obtain u v where "CHR '','' # J @ '','' = u @ CHR '','' # w @ CHR '','' # v" by blast
    then show "(\<exists>v. J @ '','' = w @ CHR '','' # v) \<or> (\<exists>u v. J @ '','' = u @ CHR '','' # w @ CHR '','' # v)" by (cases u) auto
  next
    assume "(\<exists>v. J @ '','' = w @ CHR '','' # v) \<or> (\<exists>u v. J @ '','' = u @ CHR '','' # w @ CHR '','' # v)"
    then show "\<exists>u v. CHR '','' # J @ '','' = u @ CHR '','' # w @ CHR '','' # v" by (metis append_Cons append_Nil)
  qed
  also have "(\<exists>v. J @ '','' = w @ CHR '','' # v) \<longleftrightarrow> J = w \<or> (\<exists>v. J = w @ '','' @ v)"
  proof
    assume "\<exists>v. J @ '','' = w @ CHR '','' # v"
    then obtain v where "J @ '','' = w @ CHR '','' # v" by blast
    then show "J = w \<or> (\<exists>v. J = w @ '','' @ v)" by (cases v rule: rev_cases) auto
  qed auto
  also have "(\<exists>u v. J @ '','' = u @ CHR '','' # w @ CHR '','' # v) \<longleftrightarrow> (\<exists>u. J = u @ '','' @ w) \<or> (\<exists>u v. J = u @ '','' @ w @ '','' @ v)"
  proof
    assume "\<exists>u v. J @ '','' = u @ CHR '','' # w @ CHR '','' # v"
    then obtain u v where "J @ '','' = u @ CHR '','' # w @ CHR '','' # v" by blast
    then show "(\<exists>u. J = u @ '','' @ w) \<or> (\<exists>u v. J = u @ '','' @ w @ '','' @ v)" by (cases v rule: rev_cases) auto
  next
    assume "(\<exists>u. J = u @ '','' @ w) \<or> (\<exists>u v. J = u @ '','' @ w @ '','' @ v)"
    then obtain u v where "J @ '','' = u @ CHR '','' # w @ CHR '','' # v" by fastforce
    then show "\<exists>u v. J @ '','' = u @ CHR '','' # w @ CHR '','' # v" by blast
  qed
  finally show ?thesis by blast
qed

definition id_char :: "char \<Rightarrow> bool" where
  "id_char c \<longleftrightarrow> is_digit c \<or> c = CHR ''-''"

lemma show_int_chars: "c \<in> set (show_int i) \<Longrightarrow> id_char c"
  using show_nat_digits [of "nat \<bar>i\<bar>"] by (auto simp: show_int_def id_char_def list_all_iff split: if_splits)

lemma show_int_free:
  "CHR '','' \<notin> set (show_int i)" "CHR ''['' \<notin> set (show_int i)" "CHR '']'' \<notin> set (show_int i)" "CHR '' '' \<notin> set (show_int i)"
  "CHR 0x25 \<notin> set (show_int i)"
  by (auto dest!: show_int_chars simp: id_char_def is_digit_def)

text \<open>Brackets around the list do not touch its commas.\<close>

lemma bracket_shapes:
  assumes "CHR ''['' \<notin> set w" "CHR '']'' \<notin> set w"
  shows "''['' @ J @ '']'' = ''['' @ w @ '']'' \<longleftrightarrow> J = w"
    and "(\<exists>v. ''['' @ J @ '']'' = ''['' @ w @ '','' @ v) \<longleftrightarrow> (\<exists>v. J = w @ '','' @ v)"
    and "(\<exists>u v. ''['' @ J @ '']'' = u @ '','' @ w @ '','' @ v) \<longleftrightarrow> (\<exists>u v. J = u @ '','' @ w @ '','' @ v)"
    and "(\<exists>u. ''['' @ J @ '']'' = u @ '','' @ w @ '']'') \<longleftrightarrow> (\<exists>u. J = u @ '','' @ w)"
proof -
  show "''['' @ J @ '']'' = ''['' @ w @ '']'' \<longleftrightarrow> J = w" by simp
  show "(\<exists>v. ''['' @ J @ '']'' = ''['' @ w @ '','' @ v) \<longleftrightarrow> (\<exists>v. J = w @ '','' @ v)"
  proof
    assume "\<exists>v. ''['' @ J @ '']'' = ''['' @ w @ '','' @ v"
    then obtain v where "J @ '']'' = w @ '','' @ v" by auto
    then show "\<exists>v. J = w @ '','' @ v" by (cases v rule: rev_cases) auto
  qed auto
  show "(\<exists>u v. ''['' @ J @ '']'' = u @ '','' @ w @ '','' @ v) \<longleftrightarrow> (\<exists>u v. J = u @ '','' @ w @ '','' @ v)"
  proof
    assume "\<exists>u v. ''['' @ J @ '']'' = u @ '','' @ w @ '','' @ v"
    then obtain u v where "''['' @ J @ '']'' = u @ '','' @ w @ '','' @ v" by blast
    then show "\<exists>u v. J = u @ '','' @ w @ '','' @ v" by (cases u; cases v rule: rev_cases) auto
  next
    assume "\<exists>u v. J = u @ '','' @ w @ '','' @ v"
    then obtain u v where "J = u @ '','' @ w @ '','' @ v" by blast
    then have "''['' @ J @ '']'' = (''['' @ u) @ '','' @ w @ '','' @ (v @ '']'')" by simp
    then show "\<exists>u v. ''['' @ J @ '']'' = u @ '','' @ w @ '','' @ v" by blast
  qed
  show "(\<exists>u. ''['' @ J @ '']'' = u @ '','' @ w @ '']'') \<longleftrightarrow> (\<exists>u. J = u @ '','' @ w)"
  proof
    assume "\<exists>u. ''['' @ J @ '']'' = u @ '','' @ w @ '']''"
    then obtain u where "''['' @ J @ '']'' = u @ '','' @ w @ '']''" by blast
    then show "\<exists>u. J = u @ '','' @ w" by (cases u) auto
  next
    assume "\<exists>u. J = u @ '','' @ w"
    then obtain u where "J = u @ '','' @ w" by blast
    then have "''['' @ J @ '']'' = (''['' @ u) @ '','' @ w @ '']''" by simp
    then show "\<exists>u. ''['' @ J @ '']'' = u @ '','' @ w @ '']''" by blast
  qed
qed

lemma filter_shapes:
  assumes "h = show_int hid" "J = join '','' toks" "toks \<noteq> []" "\<forall>x \<in> set toks. CHR '','' \<notin> set x" "\<forall>r. hd toks \<noteq> CHR '' '' # r"
  shows "host_id_condition hid (''['' @ J @ '']'') \<longleftrightarrow> h \<in> set toks \<or> (CHR '' '' # h) \<in> set toks"
proof -
  let ?s = "CHR '' '' # h"
  have f: "CHR '','' \<notin> set h" "CHR ''['' \<notin> set h" "CHR '']'' \<notin> set h" "CHR 0x25 \<notin> set h" using assms(1) show_int_free by auto
  have s: "CHR '','' \<notin> set ?s" "CHR ''['' \<notin> set ?s" "CHR '']'' \<notin> set ?s" using f by auto
  have first: "\<not> (J = ?s \<or> (\<exists>v. J = ?s @ '','' @ v))"
  proof -
    obtain x xs where x: "toks = x # xs" using assms(3) by (cases toks) auto
    have "\<exists>r. J = x @ r" using assms(2) x by (cases xs) auto
    then show ?thesis using assms(2,4,5) x by (cases x; cases xs) auto
  qed
  have "host_id_condition hid (''['' @ J @ '']'') \<longleftrightarrow>
      (J = h \<or> (\<exists>v. J = h @ '','' @ v) \<or> (\<exists>u v. J = u @ '','' @ h @ '','' @ v) \<or> (\<exists>u. J = u @ '','' @ h)) \<or>
      (\<exists>u v. J = u @ '','' @ ?s @ '','' @ v) \<or> (\<exists>u. J = u @ '','' @ ?s)"
    unfolding host_id_condition_def Let_def assms(1) [symmetric]
    using like_prefix [of "''['' @ h @ '',''" "''['' @ J @ '']''"] like_infix [of "'','' @ h @ '',''" "''['' @ J @ '']''"]
      like_suffix [of "'','' @ h @ '']''" "''['' @ J @ '']''"] like_infix [of "'','' @ ?s @ '',''" "''['' @ J @ '']''"]
      like_suffix [of "'','' @ ?s @ '']''" "''['' @ J @ '']''"] bracket_shapes [OF f(2,3), of J] bracket_shapes [OF s(2,3), of J] f(4)
    by simp
  then show ?thesis using element_shapes [OF assms(2,3,4) f(1)] element_shapes [OF assms(2,3,4) s(1)] first by blast
qed

lemma inj_show_int: "show_int a = show_int b \<longleftrightarrow> a = b"
  using parse_int_show_int by (metis option.inject)

text \<open>The text \<^verbatim>\<open>json.dumps\<close> writes with a blank after the comma.\<close>

lemma join_blank: "join '', '' (x # xs) = join '','' (x # map (\<lambda>y. CHR '' '' # y) xs)"
proof (induction xs arbitrary: x)
  case (Cons y ys)
  have "join '','' ((c # z) # zs) = c # join '','' (z # zs)" for c z zs by (cases zs) auto
  then show ?case using Cons.IH [of y] by simp
qed simp

text \<open>C39. The filter by host, four comparisons of text with \<^verbatim>\<open>LIKE\<close> and two for lists written with blanks, finds an incident
  exactly if the host is in its recorded list, however the list was written; host 1 is not found in a list with 17.\<close>

theorem host_filter_exact:
  "host_id_condition hid (dumps_ints '','' ids) = (hid \<in> set ids) \<and> host_id_condition hid (dumps_ints '', '' ids) = (hid \<in> set ids)"
proof (cases ids)
  case Nil
  have no: "\<not> like (CHR 0x25 # p @ q) ''[]''" if p: "CHR 0x25 \<notin> set p" "CHR '','' \<in> set p" for p q
  proof
    assume "like (CHR 0x25 # p @ q) ''[]''"
    then obtain u v where uv: "''[]'' = u @ v" "like (p @ q) v" by (auto simp: like_percent)
    then obtain r where "v = p @ r" using like_plain [OF p(1), of q v] by blast
    then have e: "''[]'' = u @ p @ r" using uv(1) by simp
    have "CHR '','' \<in> set ''[]''" unfolding e using p(2) by simp
    then show False by simp
  qed
  from no [of "'','' @ show_int hid @ '',''" "[CHR 0x25]"] no [of "'','' @ show_int hid @ '']''" "[]"]
    no [of "'', '' @ show_int hid @ '',''" "[CHR 0x25]"] no [of "'', '' @ show_int hid @ '']''" "[]"]
    like_prefix [of "''['' @ show_int hid @ '',''" "''[]''"]
  show ?thesis using Nil show_int_ne [of hid] show_int_free [of hid] by (auto simp: host_id_condition_def dumps_ints_def Let_def Cons_eq_append_conv)
next
  case (Cons i js)
  let ?toks = "map show_int ids" and ?blank = "show_int i # map (\<lambda>j. CHR '' '' # show_int j) js"
  have hd: "\<forall>r. show_int i \<noteq> CHR '' '' # r" using show_int_free(4) [of i] by (metis list.set_intros(1))
  have "host_id_condition hid (''['' @ join '','' ?toks @ '']'') \<longleftrightarrow> show_int hid \<in> set ?toks \<or> (CHR '' '' # show_int hid) \<in> set ?toks"
    by (rule filter_shapes) (use Cons hd show_int_free in auto)
  also have "\<dots> \<longleftrightarrow> hid \<in> set ids"
  proof -
    have "CHR '' '' # show_int hid \<noteq> show_int j" for j using show_int_free(4) [of j] by (metis list.set_intros(1))
    then show ?thesis by (auto simp: inj_show_int image_iff)
  qed
  finally have 1: "host_id_condition hid (dumps_ints '','' ids) = (hid \<in> set ids)" by (simp add: dumps_ints_def)
  have "host_id_condition hid (''['' @ join '','' ?blank @ '']'') \<longleftrightarrow> show_int hid \<in> set ?blank \<or> (CHR '' '' # show_int hid) \<in> set ?blank"
    by (rule filter_shapes) (use hd show_int_free in auto)
  also have "\<dots> \<longleftrightarrow> hid \<in> set ids"
  proof -
    have "show_int hid \<noteq> CHR '' '' # show_int j" "CHR '' '' # show_int hid \<noteq> show_int j" for j
      using show_int_free(4) [of hid] show_int_free(4) [of j] by (metis list.set_intros(1))+
    then show ?thesis using Cons by (auto simp: inj_show_int image_iff)
  qed
  finally have "host_id_condition hid (dumps_ints '', '' ids) = (hid \<in> set ids)"
    using join_blank [of "show_int i" "map show_int js"] Cons by (simp add: dumps_ints_def comp_def)
  with 1 show ?thesis by simp
qed

end
