(* ===== verification/Backup_Monitor.thy ===== *)
theory Backup_Monitor
  imports Json_Print Syslog_Parse Models
begin

text \<open>
  The backup monitor (\<^verbatim>\<open>backend/services/backup_monitor.py\<close>, \<^verbatim>\<open>backend/routers/backups.py\<close>): backup jobs and
  their history are derived from the backup files and tasks of a Proxmox snapshot and from the datasets of a UNAS
  snapshot, then checked for overdue and failed backups. The entries of a snapshot have the types
  \<^verbatim>\<open>integrations/proxmox.py\<close> gives them: an absent key is \<open>None\<close>. A sync that raises keeps what it had written, because
  the caller catches the exception and commits, so a step returns its state and the exception.
\<close>

section \<open>Tables\<close>

record backup_job =
  bj_id :: int
  bj_name :: string
  bj_source_type :: string
  bj_source_config_id :: "int option"
  bj_target_name :: string
  bj_target_vmid :: "int option"
  bj_storage_name :: "string option"
  bj_last_run_at :: "datetime option"
  bj_last_status :: string
  bj_last_duration_sec :: "int option"
  bj_last_size_bytes :: "int option"
  bj_last_error :: "string option"
  bj_expected_frequency_hours :: int
  bj_enabled :: bool

record backup_history =
  bh_id :: int
  bh_job_id :: int
  bh_timestamp :: datetime
  bh_status :: string
  bh_duration_sec :: "int option"
  bh_size_bytes :: "int option"
  bh_error :: "string option"
  bh_details :: "string option"

record backup_db =
  bd_jobs :: "backup_job list"
  bd_history :: "backup_history list"
  bd_next_job :: int
  bd_next_history :: int

text \<open>The counters of a sync beside the tables.\<close>

record backup_sync =
  sy_db :: backup_db
  sy_created :: nat
  sy_updated :: nat
  sy_history_added :: nat

section \<open>Snapshots\<close>

record px_guest =
  pg_id :: "int option"
  pg_name :: "string option"

record px_file =
  pf_vmid :: "int option"
  pf_ctime :: "int option"
  pf_size :: "int option"
  pf_volid :: "string option"

record px_task =
  pt_type :: string
  pt_id :: string
  pt_status :: "string option"
  pt_ok :: "bool option"
  pt_starttime :: "string option"
  pt_node :: string
  pt_user :: string

text \<open>\<open>px_backups\<close> is \<open>None\<close> where the collector stored null, because no storage list could be read.\<close>

record proxmox_data =
  px_vms :: "px_guest list"
  px_containers :: "px_guest list"
  px_backups :: "(string, px_file list) dict option"
  px_tasks :: "px_task list"

text \<open>A snapshot of a dataset is a dict of texts.\<close>

record unas_dataset =
  ud_name :: string
  ud_snapshots :: "(string, string) dict list"

section \<open>Jobs\<close>

definition put_job :: "backup_job \<Rightarrow> backup_db \<Rightarrow> backup_db" where
  "put_job j db = db\<lparr>bd_jobs := map (\<lambda>k. if bj_id k = bj_id j then j else k) (bd_jobs db)\<rparr>"

definition job_matches :: "string \<Rightarrow> int \<Rightarrow> int option \<Rightarrow> string \<Rightarrow> backup_job \<Rightarrow> bool" where
  "job_matches src config_id target_vmid target_name j \<longleftrightarrow>
     bj_source_type j = src \<and> bj_source_config_id j = Some config_id \<and>
     (case target_vmid of Some v \<Rightarrow> bj_target_vmid j = Some v | None \<Rightarrow> bj_target_name j = target_name)"

text \<open>The callers always give the defaults \<open>name\<close> and \<open>target_name\<close>. The result: the tables, the job, and whether it is new.\<close>

definition get_or_create_job ::
    "string \<Rightarrow> int \<Rightarrow> int option \<Rightarrow> string \<Rightarrow> string \<Rightarrow> string option \<Rightarrow> backup_db \<Rightarrow> backup_db \<times> backup_job \<times> bool" where
  "get_or_create_job src config_id target_vmid dname target_name storage_name db =
     (case find (job_matches src config_id target_vmid target_name) (bd_jobs db) of
        Some j \<Rightarrow>
          (let j' = (if target_name = [] then j else j\<lparr>bj_target_name := target_name\<rparr>) in (put_job j' db, j', False))
      | None \<Rightarrow>
          (let j = \<lparr>bj_id = bd_next_job db, bj_name = dname, bj_source_type = src, bj_source_config_id = Some config_id,
                    bj_target_name = target_name, bj_target_vmid = target_vmid, bj_storage_name = storage_name,
                    bj_last_run_at = None, bj_last_status = ''unknown'', bj_last_duration_sec = None, bj_last_size_bytes = None,
                    bj_last_error = None, bj_expected_frequency_hours = 24, bj_enabled = True\<rparr>
           in (db\<lparr>bd_jobs := bd_jobs db @ [j], bd_next_job := bd_next_job db + 1\<rparr>, j, True)))"

text \<open>A history row, unless the job has one of that time. The flag: whether it was added.\<close>

definition add_history ::
    "int \<Rightarrow> datetime \<Rightarrow> string \<Rightarrow> int option \<Rightarrow> string option \<Rightarrow> json \<Rightarrow> backup_db \<Rightarrow> backup_db \<times> bool" where
  "add_history job_id run_dt status sz err details db =
     (if \<exists>h \<in> set (bd_history db). bh_job_id h = job_id \<and> bh_timestamp h = run_dt then (db, False)
      else (db\<lparr>bd_history := bd_history db @
                 [\<lparr>bh_id = bd_next_history db, bh_job_id = job_id, bh_timestamp = run_dt, bh_status = status, bh_duration_sec = None,
                   bh_size_bytes = sz, bh_error = err, bh_details = Some (dumps (\<lambda>_. []) details)\<rparr>],
               bd_next_history := bd_next_history db + 1\<rparr>, True))"

text \<open>A loop whose body may raise: the state at the exception is kept.\<close>

fun fold_try :: "('x \<Rightarrow> 's \<Rightarrow> 's \<times> py_error option) \<Rightarrow> 'x list \<Rightarrow> 's \<Rightarrow> 's \<times> py_error option" where
  "fold_try f [] s = (s, None)"
| "fold_try f (x # xs) s = (case f x s of (s', None) \<Rightarrow> fold_try f xs s' | (s', Some e) \<Rightarrow> (s', Some e))"

section \<open>Proxmox\<close>

definition guest_default :: "int \<Rightarrow> string" where
  "guest_default gid = ''guest-'' @ show_int gid"

definition vmid_names :: "px_guest list \<Rightarrow> (int, string) dict" where
  "vmid_names guests =
     foldl (\<lambda>d g. case pg_id g of
                    None \<Rightarrow> d
                  | Some i \<Rightarrow> if i = 0 then d else dset d i (case pg_name g of None \<Rightarrow> guest_default i | Some n \<Rightarrow> n)) [] guests"

definition ctime_of :: "px_file \<Rightarrow> int" where
  "ctime_of f = (case pf_ctime f of None \<Rightarrow> 0 | Some c \<Rightarrow> c)"

definition file_latest :: "string \<Rightarrow> px_file \<Rightarrow> (int \<times> string, px_file) dict \<Rightarrow> (int \<times> string, px_file) dict" where
  "file_latest storage f best =
     (case pf_vmid f of
        None \<Rightarrow> best
      | Some v \<Rightarrow> (case dget best (v, storage) of
                     None \<Rightarrow> dset best (v, storage) f
                   | Some g \<Rightarrow> if ctime_of f > ctime_of g then dset best (v, storage) f else best))"

definition guest_latest :: "(string, px_file list) dict \<Rightarrow> (int \<times> string, px_file) dict" where
  "guest_latest backups = fold (\<lambda>(storage, files). fold (file_latest storage) files) backups []"

text \<open>\<^verbatim>\<open>datetime.utcfromtimestamp\<close> of whole seconds raises outside the calendar.\<close>

definition utcfromtimestamp :: "int \<Rightarrow> datetime option" where
  "utcfromtimestamp c =
     (if day_of_civil 1 1 1 * us_per_day \<le> seconds c \<and> seconds c < day_of_civil 10000 1 1 * us_per_day then Some (seconds c) else None)"

definition sync_file ::
    "int \<Rightarrow> (int, string) dict \<Rightarrow> (int \<times> string) \<times> px_file \<Rightarrow> backup_sync \<Rightarrow> backup_sync \<times> py_error option" where
  "sync_file config_id names entry s =
     (case entry of ((vmid, storage), info) \<Rightarrow>
        (let guest_name = dget_or names vmid (guest_default vmid);
             job_name = ''vzdump-'' @ show_int vmid @ ''-'' @ guest_name in
         case get_or_create_job ''proxmox'' config_id (Some vmid) job_name guest_name (Some storage) (sy_db s) of
           (db, job, fresh) \<Rightarrow>
             (let s1 = s\<lparr>sy_db := db, sy_created := sy_created s + (if fresh then 1 else 0), sy_updated := sy_updated s + (if fresh then 0 else 1)\<rparr>;
                  ctime = ctime_of info; sz = (case pf_size info of None \<Rightarrow> 0 | Some n \<Rightarrow> n) in
              if ctime = 0 then (s1, None)
              else (case utcfromtimestamp ctime of
                      None \<Rightarrow> (s1, Some (ValueError ''year is out of range''))
                    | Some run_dt \<Rightarrow>
                        (let job' = job\<lparr>bj_last_run_at := Some run_dt, bj_last_size_bytes := Some sz, bj_last_status := ''ok'',
                                        bj_last_error := None, bj_storage_name := Some storage\<rparr> in
                         case add_history (bj_id job') run_dt ''ok'' (Some sz) None
                                (JDict [(''volid'', JStr (case pf_volid info of None \<Rightarrow> [] | Some v \<Rightarrow> v))]) (put_job job' db) of
                           (db', added) \<Rightarrow>
                             (s1\<lparr>sy_db := db', sy_history_added := sy_history_added s1 + (if added then 1 else 0)\<rparr>, None))))))"

definition is_backup_task :: "px_task \<Rightarrow> bool" where
  "is_backup_task t \<longleftrightarrow> contains ''vzdump'' (pt_type t) \<or> contains ''backup'' (str_lower (pt_type t))"

definition parse_vmid_from_task :: "string \<Rightarrow> int option" where
  "parse_vmid_from_task task_id =
     (case parse_int task_id of
        Some v \<Rightarrow> Some v
      | None \<Rightarrow> (let ds = takeWhile is_digit (dropWhile (\<lambda>c. \<not> is_digit c) task_id) in
                 if ds = [] then None else Some (int (nat_of_digits ds))))"

text \<open>\<^verbatim>\<open>datetime.strptime(s, "%Y-%m-%d %H:%M:%S")\<close>: one or two digits per field, any white space before the hour.\<close>

definition strptime_field :: "string \<Rightarrow> (int \<times> string) option" where
  "strptime_field s =
     (let ds = takeWhile is_digit s in if ds = [] \<or> length ds > 2 then None else Some (int (nat_of_digits ds), dropWhile is_digit s))"

definition strptime_day :: "string \<Rightarrow> (int \<times> string) option" where
  "strptime_day s =
     (case s of
        c # d # r \<Rightarrow> if c = CHR '' '' \<and> is_digit d then (if takeWhile is_digit (d # r) = [d] then strptime_field (d # r) else None)
                    else strptime_field s
      | _ \<Rightarrow> strptime_field s)"

definition expect :: "char \<Rightarrow> string \<Rightarrow> string option" where
  "expect c s = (case s of d # r \<Rightarrow> if d = c then Some r else None | [] \<Rightarrow> None)"

definition strptime_start :: "string \<Rightarrow> datetime option" where
  "strptime_start s =
     (let ys = takeWhile is_digit s in
      if length ys \<noteq> 4 then None
      else Option.bind (expect (CHR ''-'') (dropWhile is_digit s)) (\<lambda>r1.
        Option.bind (strptime_field r1) (\<lambda>(mo, r2). Option.bind (expect (CHR ''-'') r2) (\<lambda>r3.
        Option.bind (strptime_day r3) (\<lambda>(d, r4).
        if r4 = [] \<or> \<not> is_space (hd r4) then None
        else Option.bind (strptime_field (dropWhile is_space r4)) (\<lambda>(h, r5). Option.bind (expect (CHR '':'') r5) (\<lambda>r6.
          Option.bind (strptime_field r6) (\<lambda>(mi, r7). Option.bind (expect (CHR '':'') r7) (\<lambda>r8.
          Option.bind (strptime_field r8) (\<lambda>(sec, r9).
          if r9 \<noteq> [] then None else mk_datetime (int (nat_of_digits ys)) mo d h mi sec 0))))))))))"

definition task_status :: "px_task \<Rightarrow> string" where
  "task_status t = (case pt_status t of None \<Rightarrow> ''running'' | Some x \<Rightarrow> x)"

definition mapped_status :: "px_task \<Rightarrow> string" where
  "mapped_status t =
     (if task_status t = ''running'' then ''running''
      else if pt_ok t = Some True \<or> task_status t = ''OK'' then ''ok''
      else if pt_ok t = Some False \<or> contains ''error'' (str_lower (task_status t)) \<or> contains ''WARNINGS'' (task_status t)
        then (if pt_ok t = Some False then ''failed'' else ''warning'')
      else ''unknown'')"

text \<open>The guest and the start of a task that counts.\<close>

definition task_run :: "px_task \<Rightarrow> (int \<times> datetime) option" where
  "task_run t =
     (if \<not> is_backup_task t then None
      else (case parse_vmid_from_task (pt_id t) of
              None \<Rightarrow> None
            | Some v \<Rightarrow> (case pt_starttime t of
                          None \<Rightarrow> None
                        | Some st \<Rightarrow> if st = [] then None else map_option (Pair v) (strptime_start st))))"

definition task_job :: "px_task \<Rightarrow> datetime \<Rightarrow> backup_job \<Rightarrow> backup_job" where
  "task_job t run_dt job =
     (if (case bj_last_run_at job of None \<Rightarrow> True | Some l \<Rightarrow> run_dt \<ge> l)
      then job\<lparr>bj_last_run_at := Some run_dt, bj_last_status := mapped_status t,
               bj_last_error := (if mapped_status t = ''failed'' then Some (task_status t)
                                 else if mapped_status t \<in> {''ok'', ''running''} then None else bj_last_error job)\<rparr>
      else job)"

definition sync_task :: "int \<Rightarrow> (int, string) dict \<Rightarrow> px_task \<Rightarrow> backup_sync \<Rightarrow> backup_sync" where
  "sync_task config_id names t s =
     (case task_run t of
        None \<Rightarrow> s
      | Some (vmid, run_dt) \<Rightarrow>
          (let guest_name = dget_or names vmid (guest_default vmid);
               job_name = ''vzdump-'' @ show_int vmid @ ''-'' @ guest_name in
           case get_or_create_job ''proxmox'' config_id (Some vmid) job_name guest_name None (sy_db s) of
             (db, job, fresh) \<Rightarrow>
               (let job' = task_job t run_dt job;
                    s1 = s\<lparr>sy_db := put_job job' db, sy_created := sy_created s + (if fresh then 1 else 0)\<rparr> in
                if mapped_status t = ''running'' then s1
                else (case add_history (bj_id job') run_dt (mapped_status t) None
                             (if mapped_status t = ''failed'' then Some (task_status t) else None)
                             (JDict [(''node'', JStr (pt_node t)), (''user'', JStr (pt_user t))]) (sy_db s1) of
                        (db', added) \<Rightarrow>
                          s1\<lparr>sy_db := db', sy_history_added := sy_history_added s1 + (if added then 1 else 0)\<rparr>))))"

definition sync_start :: "backup_db \<Rightarrow> backup_sync" where
  "sync_start db = \<lparr>sy_db = db, sy_created = 0, sy_updated = 0, sy_history_added = 0\<rparr>"

text \<open>\<^verbatim>\<open>None.items()\<close> raises before anything is written.\<close>

definition sync_proxmox_backups :: "int \<Rightarrow> proxmox_data \<Rightarrow> backup_db \<Rightarrow> backup_sync \<times> py_error option" where
  "sync_proxmox_backups config_id data db =
     (let names = vmid_names (px_vms data @ px_containers data) in
      case px_backups data of
        None \<Rightarrow> (sync_start db, Some AttributeError)
      | Some backups \<Rightarrow>
          (case fold_try (sync_file config_id names) (guest_latest backups) (sync_start db) of
             (s, Some e) \<Rightarrow> (s, Some e)
           | (s, None) \<Rightarrow> (fold (sync_task config_id names) (px_tasks data) s, None)))"

section \<open>UNAS\<close>

fun text_less :: "string \<Rightarrow> string \<Rightarrow> bool" where
  "text_less [] t = (t \<noteq> [])"
| "text_less (a # s) [] = False"
| "text_less (a # s) (b # t) = ((of_char a :: nat) < of_char b \<or> a = b \<and> text_less s t)"

text \<open>\<^verbatim>\<open>max(snapshots, key=...)\<close>: the first of the greatest; the list is not empty.\<close>

definition newest_snapshot :: "(string, string) dict list \<Rightarrow> (string, string) dict" where
  "newest_snapshot snaps =
     fold (\<lambda>x best. if text_less (dget_or best ''created'' []) (dget_or x ''created'' []) then x else best) (tl snaps) (hd snaps)"

text \<open>\<open>fromiso\<close> is \<^verbatim>\<open>datetime.fromisoformat\<close>: the local time and its offset to UTC; the offset is dropped.\<close>

definition snap_time :: "(string \<Rightarrow> (datetime \<times> int option) option) \<Rightarrow> (string, string) dict \<Rightarrow> datetime option" where
  "snap_time fromiso x =
     (case dget x ''created'' of None \<Rightarrow> None | Some c \<Rightarrow> map_option fst (fromiso (str_replace ''Z'' ''+00:00'' c)))"

definition sync_dataset :: "(string \<Rightarrow> (datetime \<times> int option) option) \<Rightarrow> int \<Rightarrow> unas_dataset \<Rightarrow> backup_sync \<Rightarrow> backup_sync" where
  "sync_dataset fromiso config_id ds s =
     (if ud_name ds = [] \<or> ud_snapshots ds = [] then s
      else (case get_or_create_job ''unas'' config_id None (''snapshot-'' @ ud_name ds) (ud_name ds) None (sy_db s) of
              (db, job, fresh) \<Rightarrow>
                (let latest = newest_snapshot (ud_snapshots ds);
                     job' = (if latest = [] then job
                             else case snap_time fromiso latest of
                                    None \<Rightarrow> job
                                  | Some t \<Rightarrow> job\<lparr>bj_last_run_at := Some t, bj_last_status := ''ok'', bj_last_error := None\<rparr>) in
                 s\<lparr>sy_db := put_job job' db, sy_created := sy_created s + (if fresh then 1 else 0),
                   sy_updated := sy_updated s + (if fresh then 0 else 1)\<rparr>)))"

definition sync_unas_backups :: "(string \<Rightarrow> (datetime \<times> int option) option) \<Rightarrow> int \<Rightarrow> unas_dataset list \<Rightarrow> backup_db \<Rightarrow> backup_sync" where
  "sync_unas_backups fromiso config_id datasets db = fold (sync_dataset fromiso config_id) datasets (sync_start db)"

section \<open>All sources\<close>

datatype sync_result = Sync_ok nat nat "nat option" | Sync_error py_error

text \<open>
  \<open>px_snap\<close> and \<open>unas_snap\<close> give the decoded data of the latest snapshot of a configuration: \<open>Inr None\<close> without data, and
  \<open>Inl\<close> where \<^verbatim>\<open>json.loads\<close> raises, which is outside the guarded part. The tables are those committed at the end.
\<close>

definition proxmox_source ::
    "(int \<Rightarrow> proxmox_data option result) \<Rightarrow> integration_config \<Rightarrow> backup_db \<times> (string, sync_result) dict
       \<Rightarrow> (backup_db \<times> (string, sync_result) dict) result" where
  "proxmox_source px_snap cfg s =
     bind_result (px_snap (cfg_id cfg)) (\<lambda>data. Inr (case data of
         None \<Rightarrow> s
       | Some d \<Rightarrow> (case sync_proxmox_backups (cfg_id cfg) d (fst s) of
                      (r, e) \<Rightarrow> (sy_db r, dset (snd s) (''proxmox/'' @ cfg_name cfg)
                                 (case e of None \<Rightarrow> Sync_ok (sy_created r) (sy_updated r) (Some (sy_history_added r)) | Some x \<Rightarrow> Sync_error x)))))"

definition unas_source ::
    "(string \<Rightarrow> (datetime \<times> int option) option) \<Rightarrow> (int \<Rightarrow> unas_dataset list option result) \<Rightarrow> integration_config
       \<Rightarrow> backup_db \<times> (string, sync_result) dict \<Rightarrow> (backup_db \<times> (string, sync_result) dict) result" where
  "unas_source fromiso unas_snap cfg s =
     bind_result (unas_snap (cfg_id cfg)) (\<lambda>data. Inr (case data of
         None \<Rightarrow> s
       | Some d \<Rightarrow> (let r = sync_unas_backups fromiso (cfg_id cfg) d (fst s) in
                    (sy_db r, dset (snd s) (''unas/'' @ cfg_name cfg) (Sync_ok (sy_created r) (sy_updated r) None)))))"

definition sync_all_sources ::
    "(string \<Rightarrow> (datetime \<times> int option) option) \<Rightarrow> (int \<Rightarrow> proxmox_data option result) \<Rightarrow> (int \<Rightarrow> unas_dataset list option result)
       \<Rightarrow> integration_config list \<Rightarrow> backup_db \<Rightarrow> (backup_db \<times> (string, sync_result) dict) result" where
  "sync_all_sources fromiso px_snap unas_snap configs db =
     bind_result (fold_result (proxmox_source px_snap) (filter (\<lambda>c. cfg_type c = ''proxmox'' \<and> cfg_enabled c) configs) (db, []))
       (fold_result (unas_source fromiso unas_snap) (filter (\<lambda>c. cfg_type c = ''unas'' \<and> cfg_enabled c) configs))"

section \<open>Compliance and summary\<close>

definition hours_passed :: "datetime \<Rightarrow> datetime \<Rightarrow> rat" where
  "hours_passed now run_at = total_seconds (now - run_at) / 3600"

definition round_tenth :: "rat \<Rightarrow> rat" where
  "round_tenth q = of_int (round_half_even (q * 10)) / 10"

datatype backup_issue =
    Failed_backup int "string option" "datetime option"
  | Overdue_backup int rat int datetime
  | Never_run int

definition job_issues :: "datetime \<Rightarrow> backup_job \<Rightarrow> backup_issue list" where
  "job_issues now j =
     (if bj_last_status j = ''failed'' then [Failed_backup (bj_id j) (bj_last_error j) (bj_last_run_at j)] else []) @
     (case bj_last_run_at j of
        Some l \<Rightarrow> (if hours_passed now l > of_int (bj_expected_frequency_hours j)
                    then [Overdue_backup (bj_id j) (round_tenth (hours_passed now l)) (bj_expected_frequency_hours j) l] else [])
      | None \<Rightarrow> if bj_last_status j = ''unknown'' then [Never_run (bj_id j)] else [])"

definition check_backup_compliance :: "datetime \<Rightarrow> backup_db \<Rightarrow> backup_issue list" where
  "check_backup_compliance now db = concat (map (job_issues now) (filter bj_enabled (bd_jobs db)))"

text \<open>The hours and the flag of the summary and of the detail view.\<close>

definition hours_since :: "datetime \<Rightarrow> backup_job \<Rightarrow> rat option" where
  "hours_since now j = map_option (\<lambda>l. round_tenth (hours_passed now l)) (bj_last_run_at j)"

definition is_overdue :: "datetime \<Rightarrow> backup_job \<Rightarrow> bool" where
  "is_overdue now j = (case hours_since now j of None \<Rightarrow> False | Some h \<Rightarrow> h > of_int (bj_expected_frequency_hours j))"

definition effective_status :: "datetime \<Rightarrow> backup_job \<Rightarrow> string" where
  "effective_status now j = (if bj_last_status j = ''ok'' \<and> is_overdue now j then ''warning'' else bj_last_status j)"

record backup_entry =
  be_job :: backup_job
  be_status :: string
  be_hours :: "rat option"
  be_overdue :: bool

record backup_summary =
  bs_total :: nat
  bs_healthy :: nat
  bs_warning :: nat
  bs_failed :: nat
  bs_unknown :: nat
  bs_overdue :: "backup_entry list"
  bs_jobs :: "backup_entry list"

definition count_status :: "string \<Rightarrow> backup_summary \<Rightarrow> backup_summary" where
  "count_status st s =
     (if st = ''ok'' then s\<lparr>bs_healthy := bs_healthy s + 1\<rparr>
      else if st \<in> {''warning'', ''running''} then s\<lparr>bs_warning := bs_warning s + 1\<rparr>
      else if st = ''failed'' then s\<lparr>bs_failed := bs_failed s + 1\<rparr>
      else s\<lparr>bs_unknown := bs_unknown s + 1\<rparr>)"

definition summary_step :: "datetime \<Rightarrow> backup_job \<Rightarrow> backup_summary \<Rightarrow> backup_summary" where
  "summary_step now j s =
     (let e = \<lparr>be_job = j, be_status = effective_status now j, be_hours = hours_since now j, be_overdue = is_overdue now j\<rparr>;
          s1 = count_status (effective_status now j) s;
          s2 = s1\<lparr>bs_jobs := bs_jobs s1 @ [e]\<rparr>
      in if is_overdue now j then s2\<lparr>bs_overdue := bs_overdue s2 @ [e]\<rparr> else s2)"

text \<open>\<open>jobs\<close>: the rows in the order of the query, by source and name.\<close>

definition get_backup_summary :: "datetime \<Rightarrow> backup_job list \<Rightarrow> backup_summary" where
  "get_backup_summary now jobs =
     fold (summary_step now) jobs
       \<lparr>bs_total = length jobs, bs_healthy = 0, bs_warning = 0, bs_failed = 0, bs_unknown = 0, bs_overdue = [], bs_jobs = []\<rparr>"

definition get_job_detail :: "datetime \<Rightarrow> int \<Rightarrow> backup_db \<Rightarrow> (backup_job \<times> rat option \<times> bool) option" where
  "get_job_detail now job_id db =
     map_option (\<lambda>j. (j, hours_since now j, is_overdue now j)) (find (\<lambda>j. bj_id j = job_id) (bd_jobs db))"

text \<open>A row of the history with its decoded details; \<open>LIMIT\<close> is refused by the database where it is negative.\<close>

definition history_entry :: "backup_history \<Rightarrow> (backup_history \<times> json option) result" where
  "history_entry h =
     (case bh_details h of
        None \<Rightarrow> Inr (h, None)
      | Some x \<Rightarrow> if x = [] then Inr (h, None)
                  else (case loads x of None \<Rightarrow> Inl (ValueError ''invalid JSON'') | Some v \<Rightarrow> Inr (h, Some v)))"

definition get_job_history :: "int \<Rightarrow> int \<Rightarrow> backup_db \<Rightarrow> (backup_history \<times> json option) list result" where
  "get_job_history job_id limit db =
     (if limit < 0 then Inl (RuntimeError ''LIMIT must not be negative'')
      else map_result history_entry
             (take (nat limit) (sort_key (\<lambda>h. - bh_timestamp h) (filter (\<lambda>h. bh_job_id h = job_id) (bd_history db)))))"

definition cleanup_old_history :: "datetime \<Rightarrow> int \<Rightarrow> backup_db \<Rightarrow> backup_db \<times> nat" where
  "cleanup_old_history now ds db =
     (let old = (\<lambda>h. bh_timestamp h < now - days ds) in
      (db\<lparr>bd_history := filter (\<lambda>h. \<not> old h) (bd_history db)\<rparr>, length (filter old (bd_history db))))"

section \<open>Settings of a job\<close>

datatype settings_reply = Settings_saved | Settings_not_found | Settings_bad

text \<open>\<^verbatim>\<open>isinstance(val, int)\<close>: a bool is an int.\<close>

fun frequency_of :: "json \<Rightarrow> int option" where
  "frequency_of (JInt i) = (if i > 0 then Some i else None)"
| "frequency_of (JBool b) = (if b then Some 1 else None)"
| "frequency_of _ = None"

definition update_job_settings :: "int \<Rightarrow> (string, json) dict \<Rightarrow> backup_db \<Rightarrow> backup_db \<times> settings_reply" where
  "update_job_settings job_id body db =
     (case find (\<lambda>j. bj_id j = job_id) (bd_jobs db) of
        None \<Rightarrow> (db, Settings_not_found)
      | Some j \<Rightarrow>
          (let set_enabled = (\<lambda>j. case dget body ''enabled'' of None \<Rightarrow> j | Some v \<Rightarrow> j\<lparr>bj_enabled := truthy v\<rparr>) in
           case dget body ''expected_frequency_hours'' of
             None \<Rightarrow> (put_job (set_enabled j) db, Settings_saved)
           | Some v \<Rightarrow> (case frequency_of v of
                          None \<Rightarrow> (db, Settings_bad)
                        | Some n \<Rightarrow> (put_job (set_enabled (j\<lparr>bj_expected_frequency_hours := n\<rparr>)) db, Settings_saved))))"

section \<open>The tables as maps\<close>

text \<open>The guest, or for a source without guest ids the name, identifies a job of a source.\<close>

definition job_key :: "backup_job \<Rightarrow> string \<times> int option \<times> (int + string)" where
  "job_key j = (bj_source_type j, bj_source_config_id j, case bj_target_vmid j of Some v \<Rightarrow> Inl v | None \<Rightarrow> Inr (bj_target_name j))"

lemma job_key_update [simp]:
  "job_key (bj_last_run_at_update f j) = job_key j" "job_key (bj_last_status_update g j) = job_key j"
  "job_key (bj_last_error_update h j) = job_key j" "job_key (bj_last_size_bytes_update s j) = job_key j"
  "job_key (bj_storage_name_update n j) = job_key j" "job_key (bj_expected_frequency_hours_update q j) = job_key j"
  "job_key (bj_enabled_update e j) = job_key j"
  by (auto simp: job_key_def split: option.split)

definition jobs_of :: "backup_db \<Rightarrow> string \<times> int option \<times> (int + string) \<rightharpoonup> backup_job" where
  "jobs_of db = map_of (map (\<lambda>j. (job_key j, j)) (bd_jobs db))"

definition backup_ok :: "backup_db \<Rightarrow> bool" where
  "backup_ok db \<longleftrightarrow>
     distinct (map bj_id (bd_jobs db)) \<and> distinct (map job_key (bd_jobs db)) \<and> (\<forall>j \<in> set (bd_jobs db). bj_id j < bd_next_job db) \<and>
     distinct (map (\<lambda>h. (bh_job_id h, bh_timestamp h)) (bd_history db)) \<and>
     distinct (map bh_id (bd_history db)) \<and> (\<forall>h \<in> set (bd_history db). bh_id h < bd_next_history db) \<and>
     bh_job_id ` set (bd_history db) \<subseteq> bj_id ` set (bd_jobs db)"

lemma jobs_of_iff: "backup_ok db \<Longrightarrow> jobs_of db k = Some j \<longleftrightarrow> j \<in> set (bd_jobs db) \<and> job_key j = k"
  unfolding jobs_of_def backup_ok_def by (subst map_of_eq_Some_iff) (auto simp: comp_def)

lemma job_ids_inj: "backup_ok db \<Longrightarrow> i \<in> set (bd_jobs db) \<Longrightarrow> j \<in> set (bd_jobs db) \<Longrightarrow> bj_id i = bj_id j \<Longrightarrow> i = j"
  by (auto simp: backup_ok_def distinct_map inj_on_def)

lemma map_replace:
  assumes "backup_ok db" "k \<in> set (bd_jobs db)" "bj_id k = bj_id j" "f k = f j"
  shows "map f (map (\<lambda>x. if bj_id x = bj_id j then j else x) (bd_jobs db)) = map f (bd_jobs db)"
  using assms(4) job_ids_inj [OF assms(1) _ assms(2)] assms(3) by auto

text \<open>Replacing a row by one of the same id and the same key updates the map.\<close>

lemma put_job_ok:
  assumes "backup_ok db" "k \<in> set (bd_jobs db)" "bj_id k = bj_id j" "job_key k = job_key j"
  shows "backup_ok (put_job j db)"
proof -
  define r where "r = map (\<lambda>x. if bj_id x = bj_id j then j else x) (bd_jobs db)"
  have m: "map bj_id r = map bj_id (bd_jobs db)" "map job_key r = map job_key (bd_jobs db)"
    unfolding r_def using map_replace [OF assms(1-3), of bj_id] map_replace [OF assms(1-3), of job_key] assms(3,4) by auto
  have s: "bj_id ` set r = bj_id ` set (bd_jobs db)" by (metis m(1) list.set_map)
  have "\<forall>x \<in> set r. bj_id x < bd_next_job db" using s assms(1) unfolding backup_ok_def by (metis (no_types, lifting) imageE imageI)
  then show ?thesis using assms(1) m s unfolding backup_ok_def put_job_def r_def [symmetric] by simp
qed

lemma put_job_rows:
  assumes "backup_ok db" "k \<in> set (bd_jobs db)" "bj_id k = bj_id j"
  shows "set (bd_jobs (put_job j db)) = insert j (set (bd_jobs db) - {k})"
proof -
  have "bj_id x = bj_id j \<longleftrightarrow> x = k" if "x \<in> set (bd_jobs db)" for x
    using job_ids_inj [OF assms(1) that assms(2)] assms(3) by auto
  then show ?thesis using assms(2) unfolding put_job_def by force
qed

lemma jobs_of_put:
  assumes "backup_ok db" "k \<in> set (bd_jobs db)" "bj_id k = bj_id j" "job_key k = job_key j"
  shows "jobs_of (put_job j db) = (jobs_of db)(job_key j \<mapsto> j)"
proof (rule ext)
  fix q
  note iff = jobs_of_iff [OF put_job_ok [OF assms]] jobs_of_iff [OF assms(1)]
  note rows = put_job_rows [OF assms(1-3)]
  show "jobs_of (put_job j db) q = ((jobs_of db)(job_key j \<mapsto> j)) q"
  proof (cases "q = job_key j")
    case True
    then show ?thesis using rows iff by simp
  next
    case False
    then have "jobs_of (put_job j db) q = Some x \<longleftrightarrow> jobs_of db q = Some x" for x using iff rows assms(4) by auto
    then show ?thesis using False by (metis fun_upd_apply not_Some_eq)
  qed
qed

lemma put_job_keeps [simp]:
  "bd_history (put_job j db) = bd_history db" "bd_next_job (put_job j db) = bd_next_job db" "bd_next_history (put_job j db) = bd_next_history db"
  by (simp_all add: put_job_def)

section \<open>Jobs are found or created\<close>

definition found_key :: "string \<Rightarrow> int \<Rightarrow> int option \<Rightarrow> string \<Rightarrow> string \<times> int option \<times> (int + string)" where
  "found_key src config_id target_vmid target_name =
     (src, Some config_id, case target_vmid of Some v \<Rightarrow> Inl v | None \<Rightarrow> Inr target_name)"

lemma key_matches: "job_key j = found_key src cfg tv name \<Longrightarrow> job_matches src cfg tv name j"
  by (auto simp: job_key_def found_key_def job_matches_def split: option.splits)

lemma matches_vmid: "job_matches src cfg (Some v) name j \<longleftrightarrow> job_key j = found_key src cfg (Some v) name"
  by (auto simp: job_key_def found_key_def job_matches_def split: option.splits)

lemma get_or_create_ok:
  assumes "backup_ok db" "get_or_create_job src cfg tv dname name storage db = (db', j, fresh)"
  shows "backup_ok db' \<and> j \<in> set (bd_jobs db') \<and> jobs_of db' = (jobs_of db)(job_key j \<mapsto> j) \<and>
    (fresh \<longrightarrow> jobs_of db (found_key src cfg tv name) = None \<and> bj_last_run_at j = None \<and> job_key j = found_key src cfg tv name) \<and>
    (tv \<noteq> None \<longrightarrow> job_key j = found_key src cfg tv name) \<and>
    (\<not> fresh \<longrightarrow> (\<exists>k. jobs_of db (job_key j) = Some k \<and> bj_last_run_at k = bj_last_run_at j))"
proof (cases "find (job_matches src cfg tv name) (bd_jobs db)")
  case None
  then have no: "\<not> job_matches src cfg tv name x" if "x \<in> set (bd_jobs db)" for x using that by (auto simp: find_None_iff)
  have db': "db' = db\<lparr>bd_jobs := bd_jobs db @ [j], bd_next_job := bd_next_job db + 1\<rparr>" and fresh: fresh
    and j: "job_key j = found_key src cfg tv name" "bj_last_run_at j = None" "bj_id j = bd_next_job db"
    using None assms(2) by (auto simp: get_or_create_job_def Let_def job_key_def found_key_def split: option.split)
  have new: "job_key j \<notin> job_key ` set (bd_jobs db)" using no key_matches j(1) by force
  then have jn: "jobs_of db (job_key j) = None" by (auto simp: jobs_of_def map_of_eq_None_iff image_image)
  have ok: "backup_ok db'" using assms(1) new j(3) unfolding backup_ok_def db' by force
  have "jobs_of db' = (jobs_of db)(job_key j \<mapsto> j)"
  proof (rule ext)
    fix q
    show "jobs_of db' q = ((jobs_of db)(job_key j \<mapsto> j)) q"
      using jn by (auto simp: jobs_of_def db' map_add_def split: option.split)
  qed
  then show ?thesis using ok jn j fresh by (simp add: db')
next
  case (Some k)
  then have k: "k \<in> set (bd_jobs db)" "job_matches src cfg tv name k" by (auto simp: find_Some_iff)
  have j: "j = (if name = [] then k else k\<lparr>bj_target_name := name\<rparr>)" and db': "db' = put_job j db" and f: "\<not> fresh"
    using Some assms(2) by (auto simp: get_or_create_job_def Let_def)
  have kj: "bj_id k = bj_id j" "job_key k = job_key j" "bj_last_run_at k = bj_last_run_at j"
    using k(2) by (auto simp: j job_key_def job_matches_def split: option.splits)
  have "j \<in> set (bd_jobs db')" using put_job_rows [OF assms(1) k(1) kj(1)] by (simp add: db')
  moreover have "job_key j = found_key src cfg tv name" if "tv \<noteq> None" using that k(2) kj(2) matches_vmid by fastforce
  moreover have "jobs_of db (job_key j) = Some k" using k(1) kj(2) jobs_of_iff [OF assms(1)] by simp
  ultimately show ?thesis using put_job_ok [OF assms(1) k(1) kj(1,2)] jobs_of_put [OF assms(1) k(1) kj(1,2)] kj(3) f by (simp add: db')
qed

lemma add_history_ok:
  assumes "backup_ok db" "job_id \<in> bj_id ` set (bd_jobs db)" "add_history job_id t st sz err d db = (db', added)"
  shows "backup_ok db' \<and> jobs_of db' = jobs_of db \<and> bd_jobs db' = bd_jobs db"
proof (cases "\<exists>h \<in> set (bd_history db). bh_job_id h = job_id \<and> bh_timestamp h = t")
  case True
  then show ?thesis using assms by (simp add: add_history_def)
next
  case False
  then have "(job_id, t) \<notin> (\<lambda>h. (bh_job_id h, bh_timestamp h)) ` set (bd_history db)" by auto
  moreover have "bd_next_history db \<notin> bh_id ` set (bd_history db)" using assms(1) by (auto simp: backup_ok_def)
  moreover have "\<forall>h \<in> set (bd_history db). bh_id h < bd_next_history db + 1" using assms(1) by (force simp: backup_ok_def)
  moreover obtain h where h: "bh_id h = bd_next_history db" "bh_job_id h = job_id" "bh_timestamp h = t"
    "db' = db\<lparr>bd_history := bd_history db @ [h], bd_next_history := bd_next_history db + 1\<rparr>"
    using assms(3) False by (simp add: add_history_def del: bex_simps) (metis backup_history.select_convs(1-3))
  ultimately show ?thesis using assms(1,2) unfolding backup_ok_def jobs_of_def h(4) by (simp add: h)
qed

section \<open>Every operation keeps the tables\<close>

lemma fold_try_invariant:
  assumes "P s" "\<And>x s. x \<in> set xs \<Longrightarrow> P s \<Longrightarrow> P (fst (f x s))"
  shows "P (fst (fold_try f xs s))"
  using assms
proof (induction xs arbitrary: s)
  case (Cons x xs)
  have "P (fst (f x s))" using Cons.prems by simp
  then show ?case using Cons.IH Cons.prems(2) by (auto split: prod.split option.split)
qed simp

text \<open>The run of a job, and what one file or task does to the runs.\<close>

definition run_of :: "int \<Rightarrow> int \<Rightarrow> backup_db \<Rightarrow> datetime option" where
  "run_of cfg v db = Option.bind (jobs_of db (''proxmox'', Some cfg, Inl v)) bj_last_run_at"

lemma sync_file_step:
  assumes "backup_ok (sy_db s)" "sync_file cfg names ((v, storage), f) s = (s', e)"
  shows "backup_ok (sy_db s')"
    and "e = None \<Longrightarrow> run_of cfg w (sy_db s') = (if w = v \<and> ctime_of f \<noteq> 0 then Some (seconds (ctime_of f)) else run_of cfg w (sy_db s))"
proof -
  let ?n = "dget_or names v (guest_default v)"
  obtain db j fresh where g: "get_or_create_job ''proxmox'' cfg (Some v) (''vzdump-'' @ show_int v @ ''-'' @ ?n) ?n (Some storage) (sy_db s) = (db, j, fresh)"
    by (metis prod_cases3)
  note ok = get_or_create_ok [OF assms(1) g]
  have key: "job_key j = (''proxmox'', Some cfg, Inl v)" using ok by (simp add: found_key_def)
  have same: "run_of cfg w db = run_of cfg w (sy_db s)" for w
    using ok by (cases fresh) (auto simp: run_of_def key found_key_def)
  have "backup_ok (sy_db s') \<and> (e = None \<longrightarrow> run_of cfg w (sy_db s') = (if w = v \<and> ctime_of f \<noteq> 0 then Some (seconds (ctime_of f)) else run_of cfg w (sy_db s)))"
  proof (cases "ctime_of f = 0 \<or> utcfromtimestamp (ctime_of f) = None")
    case True
    then have "sy_db s' = db \<and> (e = None \<longrightarrow> ctime_of f = 0)" using assms(2) g by (auto simp: sync_file_def Let_def split: if_splits)
    then show ?thesis using ok same by simp
  next
    case False
    then have u: "utcfromtimestamp (ctime_of f) = Some (seconds (ctime_of f))" by (auto simp: utcfromtimestamp_def split: if_splits)
    define sz where "sz = (case pf_size f of None \<Rightarrow> 0 | Some n \<Rightarrow> n)"
    define j' where "j' = j\<lparr>bj_last_run_at := Some (seconds (ctime_of f)), bj_last_size_bytes := Some sz, bj_last_status := ''ok'',
      bj_last_error := None, bj_storage_name := Some storage\<rparr>"
    define d where "d = JDict [(''volid'', JStr (case pf_volid f of None \<Rightarrow> [] | Some v \<Rightarrow> v))]"
    obtain db' added where h: "add_history (bj_id j') (seconds (ctime_of f)) ''ok'' (Some sz) None d (put_job j' db) = (db', added)" by fastforce
    have j': "bj_id j' = bj_id j" "job_key j' = job_key j" "bj_last_run_at j' = Some (seconds (ctime_of f))"
      by (simp_all add: j'_def)
    have s': "sy_db s' = db'" using assms(2) g False u h by (auto simp: sync_file_def Let_def j'_def sz_def d_def)
    have jd: "j \<in> set (bd_jobs db)" using ok by simp
    note put = put_job_ok [OF _ jd j'(1,2) [symmetric]] jobs_of_put [OF _ jd j'(1,2) [symmetric]] put_job_rows [OF _ jd j'(1) [symmetric]]
    have "bj_id j' \<in> bj_id ` set (bd_jobs (put_job j' db))" using put(3) ok by simp
    from add_history_ok [OF _ this h] put(1,2) ok have "backup_ok db' \<and> jobs_of db' = (jobs_of db)(job_key j' \<mapsto> j')" by simp
    then show ?thesis using same [of w] j' key False by (simp add: s' run_of_def)
  qed
  then show "backup_ok (sy_db s')"
    and "e = None \<Longrightarrow> run_of cfg w (sy_db s') = (if w = v \<and> ctime_of f \<noteq> 0 then Some (seconds (ctime_of f)) else run_of cfg w (sy_db s))" by blast+
qed

lemma task_job_keeps [simp]: "bj_id (task_job t r j) = bj_id j" "job_key (task_job t r j) = job_key j"
  by (simp_all add: task_job_def)

definition later :: "datetime option \<Rightarrow> datetime \<Rightarrow> datetime option" where
  "later a t = Some (case a of None \<Rightarrow> t | Some l \<Rightarrow> max l t)"

lemma task_job_run: "bj_last_run_at (task_job t r j) = later (bj_last_run_at j) r"
  by (auto simp: task_job_def later_def split: option.splits)

lemma sync_task_step:
  assumes "backup_ok (sy_db s)"
  shows "backup_ok (sy_db (sync_task cfg names t s))"
    and "run_of cfg w (sy_db (sync_task cfg names t s)) =
      (case task_run t of Some (v, r) \<Rightarrow> if v = w then later (run_of cfg w (sy_db s)) r else run_of cfg w (sy_db s)
       | None \<Rightarrow> run_of cfg w (sy_db s))"
proof -
  let ?s = "sync_task cfg names t s"
  have "backup_ok (sy_db ?s) \<and> run_of cfg w (sy_db ?s) =
      (case task_run t of Some (v, r) \<Rightarrow> if v = w then later (run_of cfg w (sy_db s)) r else run_of cfg w (sy_db s)
       | None \<Rightarrow> run_of cfg w (sy_db s))"
  proof (cases "task_run t")
    case None
    then show ?thesis using assms by (simp add: sync_task_def)
  next
    case (Some vr)
    obtain v r where vr: "vr = (v, r)" by fastforce
    let ?n = "dget_or names v (guest_default v)"
    obtain db j fresh where g: "get_or_create_job ''proxmox'' cfg (Some v) (''vzdump-'' @ show_int v @ ''-'' @ ?n) ?n None (sy_db s) = (db, j, fresh)"
      by (metis prod_cases3)
    note ok = get_or_create_ok [OF assms g]
    have key: "job_key j = (''proxmox'', Some cfg, Inl v)" using ok by (simp add: found_key_def)
    have same: "run_of cfg w db = run_of cfg w (sy_db s)" "run_of cfg v (sy_db s) = bj_last_run_at j"
      using ok by (cases fresh; auto simp: run_of_def key found_key_def)+
    let ?j = "task_job t r j" and ?db = "put_job (task_job t r j) db"
    have jd: "j \<in> set (bd_jobs db)" using ok by simp
    have put: "backup_ok ?db" "jobs_of ?db = (jobs_of db)(job_key ?j \<mapsto> ?j)" "bj_id ?j \<in> bj_id ` set (bd_jobs ?db)"
      using put_job_ok [OF _ jd, of ?j] jobs_of_put [OF _ jd, of ?j] put_job_rows [OF _ jd, of ?j] ok by simp_all
    have "sy_db ?s = ?db \<or> (\<exists>st sz err d added. add_history (bj_id ?j) r st sz err d ?db = (sy_db ?s, added))"
      using Some vr g by (auto simp: sync_task_def Let_def split: prod.splits if_splits)
    then have "backup_ok (sy_db ?s) \<and> jobs_of (sy_db ?s) = jobs_of ?db" using add_history_ok [OF put(1,3)] put(1) by metis
    then show ?thesis using same Some vr key by (auto simp: run_of_def put(2) task_job_run)
  qed
  then show "backup_ok (sy_db ?s)" and "run_of cfg w (sy_db ?s) =
      (case task_run t of Some (v, r) \<Rightarrow> if v = w then later (run_of cfg w (sy_db s)) r else run_of cfg w (sy_db s)
       | None \<Rightarrow> run_of cfg w (sy_db s))" by blast+
qed

lemma sync_proxmox_ok:
  assumes "backup_ok db"
  shows "backup_ok (sy_db (fst (sync_proxmox_backups cfg data db)))"
proof (cases "px_backups data")
  case None
  then show ?thesis using assms by (simp add: sync_proxmox_backups_def sync_start_def)
next
  case (Some backups)
  let ?names = "vmid_names (px_vms data @ px_containers data)"
  let ?r = "fold_try (sync_file cfg ?names) (guest_latest backups) (sync_start db)"
  have "backup_ok (sy_db (fst ?r))"
    by (rule fold_try_invariant) (use assms in \<open>auto simp: sync_start_def dest: sync_file_step(1) [OF _ prod.collapse [symmetric]]\<close>)
  moreover have "backup_ok (sy_db (fold (sync_task cfg ?names) ts s))" if "backup_ok (sy_db s)" for ts s
    using that by (induction ts arbitrary: s) (simp_all add: sync_task_step(1))
  ultimately show ?thesis using Some by (auto simp: sync_proxmox_backups_def Let_def split: prod.split option.split)
qed

lemma sync_dataset_ok:
  assumes "backup_ok (sy_db s)"
  shows "backup_ok (sy_db (sync_dataset fromiso cfg ds s))"
proof (cases "ud_name ds = [] \<or> ud_snapshots ds = []")
  case True
  then show ?thesis using assms by (simp add: sync_dataset_def)
next
  case False
  obtain db j fresh where g: "get_or_create_job ''unas'' cfg None (''snapshot-'' @ ud_name ds) (ud_name ds) None (sy_db s) = (db, j, fresh)"
    by (metis prod_cases3)
  note ok = get_or_create_ok [OF assms g]
  show ?thesis using False g ok by (auto simp: sync_dataset_def Let_def split: option.split intro: put_job_ok)
qed

lemma sync_unas_ok: "backup_ok db \<Longrightarrow> backup_ok (sy_db (sync_unas_backups fromiso cfg datasets db))"
proof -
  have "backup_ok (sy_db (fold (sync_dataset fromiso cfg) datasets s))" if "backup_ok (sy_db s)" for s
    using that by (induction datasets arbitrary: s) (simp_all add: sync_dataset_ok)
  then show "backup_ok db \<Longrightarrow> ?thesis" by (simp add: sync_unas_backups_def sync_start_def)
qed

lemma proxmox_source_ok: "proxmox_source px_snap c s = Inr s' \<Longrightarrow> backup_ok (fst s) \<Longrightarrow> backup_ok (fst s')"
proof -
  assume p: "proxmox_source px_snap c s = Inr s'" and ok: "backup_ok (fst s)"
  obtain d where d: "px_snap (cfg_id c) = Inr d" using p by (auto simp: proxmox_source_def bind_result_Inr_iff)
  show ?thesis
  proof (cases d)
    case (Some data)
    then have "fst s' = sy_db (fst (sync_proxmox_backups (cfg_id c) data (fst s)))"
      using p d by (auto simp: proxmox_source_def case_prod_unfold)
    then show ?thesis using sync_proxmox_ok [OF ok] by simp
  qed (use p d ok in \<open>simp add: proxmox_source_def\<close>)
qed

lemma unas_source_ok: "unas_source fromiso unas_snap c s = Inr s' \<Longrightarrow> backup_ok (fst s) \<Longrightarrow> backup_ok (fst s')"
  by (auto simp: unas_source_def bind_result_Inr_iff Let_def sync_unas_ok split: option.splits)

lemma sync_all_ok:
  assumes "backup_ok db" "sync_all_sources fromiso px_snap unas_snap configs db = Inr r"
  shows "backup_ok (fst r)"
proof -
  obtain m where m: "fold_result (proxmox_source px_snap) (filter (\<lambda>c. cfg_type c = ''proxmox'' \<and> cfg_enabled c) configs) (db, []) = Inr m"
    and e: "fold_result (unas_source fromiso unas_snap) (filter (\<lambda>c. cfg_type c = ''unas'' \<and> cfg_enabled c) configs) m = Inr r"
    using assms(2) by (auto simp: sync_all_sources_def bind_result_Inr_iff)
  have "backup_ok (fst m)" using fold_result_invariant [OF m, of "\<lambda>s. backup_ok (fst s)"] assms(1) proxmox_source_ok by simp
  then show ?thesis using fold_result_invariant [OF e, of "\<lambda>s. backup_ok (fst s)"] unas_source_ok by blast
qed

lemma settings_ok: "backup_ok db \<Longrightarrow> backup_ok (fst (update_job_settings i body db))"
proof (cases "find (\<lambda>j. bj_id j = i) (bd_jobs db)")
  case (Some j)
  assume ok: "backup_ok db"
  have "j \<in> set (bd_jobs db)" using Some by (auto simp: find_Some_iff)
  then show ?thesis using Some ok by (auto simp: update_job_settings_def Let_def split: option.splits intro: put_job_ok)
qed (simp add: update_job_settings_def)

lemma cleanup_ok: "backup_ok db \<Longrightarrow> backup_ok (fst (cleanup_old_history now n db))"
  by (auto simp: backup_ok_def cleanup_old_history_def Let_def distinct_map_filter)

text \<open>What happens to the tables: a snapshot is ingested, all sources are synced, a setting is changed, history is pruned.\<close>

datatype backup_op =
    Ingest_proxmox int proxmox_data
  | Sync_sources "string \<Rightarrow> (datetime \<times> int option) option" "int \<Rightarrow> proxmox_data option result" "int \<Rightarrow> unas_dataset list option result"
      "integration_config list"
  | Change_settings int "(string, json) dict"
  | Prune_history datetime int

text \<open>A sync of all sources that raises is rolled back.\<close>

fun backup_step :: "backup_op \<Rightarrow> backup_db \<Rightarrow> backup_db" where
  "backup_step (Ingest_proxmox cfg data) db = sy_db (fst (sync_proxmox_backups cfg data db))"
| "backup_step (Sync_sources fromiso px unas configs) db =
     (case sync_all_sources fromiso px unas configs db of Inr r \<Rightarrow> fst r | Inl e \<Rightarrow> db)"
| "backup_step (Change_settings i body) db = fst (update_job_settings i body db)"
| "backup_step (Prune_history now n) db = fst (cleanup_old_history now n db)"

lemma backup_step_ok: "backup_ok db \<Longrightarrow> backup_ok (backup_step op db)"
  by (cases op) (auto simp: sync_proxmox_ok settings_ok cleanup_ok dest: sync_all_ok split: sum.split)

definition empty_backups :: backup_db where
  "empty_backups = \<lparr>bd_jobs = [], bd_history = [], bd_next_job = 1, bd_next_history = 1\<rparr>"

lemma empty_backups_ok: "backup_ok empty_backups"
  by (simp add: empty_backups_def backup_ok_def)

text \<open>
  C21. Whatever is synced, in whatever order and with whatever failures, there is one job per guest or dataset of a source, one
  history row per job and time of run, and no history row without its job.
\<close>

theorem backups_stay_unique:
  fixes ops :: "backup_op list"
  defines "db \<equiv> fold backup_step ops empty_backups"
  shows "distinct (map job_key (bd_jobs db)) \<and> distinct (map bj_id (bd_jobs db)) \<and>
    distinct (map (\<lambda>h. (bh_job_id h, bh_timestamp h)) (bd_history db)) \<and>
    bh_job_id ` set (bd_history db) \<subseteq> bj_id ` set (bd_jobs db)"
proof -
  have "backup_ok (fold backup_step ops s)" if "backup_ok s" for s
    using that by (induction ops arbitrary: s) (simp_all add: backup_step_ok)
  then show ?thesis using empty_backups_ok unfolding db_def backup_ok_def by blast
qed

section \<open>The last run of a guest\<close>

definition all_files :: "(string, px_file list) dict \<Rightarrow> (string \<times> px_file) list" where
  "all_files backups = concat (map (\<lambda>(st, fs). map (Pair st) fs) backups)"

definition is_latest :: "(string \<times> px_file) set \<Rightarrow> int \<Rightarrow> string \<Rightarrow> px_file \<Rightarrow> bool" where
  "is_latest L v st g \<longleftrightarrow> (st, g) \<in> L \<and> pf_vmid g = Some v \<and> (\<forall>f. (st, f) \<in> L \<and> pf_vmid f = Some v \<longrightarrow> ctime_of f \<le> ctime_of g)"

lemma guest_latest_flat: "guest_latest backups = fold (\<lambda>(st, f). file_latest st f) (all_files backups) []"
proof -
  have "fold (\<lambda>(storage, files). fold (file_latest storage) files) bs d = fold (\<lambda>(st, f). file_latest st f) (all_files bs) d" for bs d
    by (induction bs arbitrary: d) (auto simp: all_files_def fold_map comp_def)
  then show ?thesis by (simp add: guest_latest_def)
qed

text \<open>What one file does to the best file of one guest on one storage.\<close>

lemma file_latest_get:
  "dget (file_latest s f d) (v, st) =
     (if pf_vmid f = Some v \<and> s = st
      then (case dget d (v, st) of None \<Rightarrow> Some f | Some g \<Rightarrow> Some (if ctime_of f > ctime_of g then f else g))
      else dget d (v, st))"
  by (auto simp: file_latest_def dict_simps split: option.split)

lemma file_latest_dict: "dict_ok d \<Longrightarrow> dict_ok (file_latest s f d)"
  by (auto simp: file_latest_def split: option.split)

definition best_file :: "(string \<times> px_file) set \<Rightarrow> int \<Rightarrow> string \<Rightarrow> px_file option \<Rightarrow> bool" where
  "best_file L v st b \<longleftrightarrow> (case b of None \<Rightarrow> \<forall>f. (st, f) \<in> L \<longrightarrow> pf_vmid f \<noteq> Some v | Some g \<Rightarrow> is_latest L v st g)"

lemma best_file_step:
  assumes "best_file L v st (dget d (v, st))"
  shows "best_file (insert (s, f) L) v st (dget (file_latest s f d) (v, st))"
  using assms unfolding file_latest_get
  by (cases "dget d (v, st)"; cases "pf_vmid f = Some v \<and> s = st") (auto simp: best_file_def is_latest_def)

lemma latest_exact:
  fixes L :: "(string \<times> px_file) list"
  defines "d \<equiv> fold (\<lambda>(st, f). file_latest st f) L []"
  shows "dict_ok d" and "best_file (set L) v st (dget d (v, st))"
  unfolding d_def
proof (induction L rule: rev_induct)
  case Nil
  { case 1 show ?case by simp }
  { case 2 show ?case by (simp add: best_file_def) }
next
  case (snoc x L)
  { case 1 show ?case using snoc(1) by (simp add: case_prod_unfold file_latest_dict) }
  { case 2 show ?case using best_file_step [OF snoc(2), of "fst x" "snd x"] by (simp add: case_prod_unfold) }
qed

lemma guest_latest_entry:
  assumes "((v, st), g) \<in> set (guest_latest backups)"
  shows "is_latest (set (all_files backups)) v st g"
proof -
  have "dget (guest_latest backups) (v, st) = Some g"
    using assms latest_exact(1) [of "all_files backups"] by (simp add: guest_latest_flat dget_def dict_ok_def dkeys_def)
  then show ?thesis using latest_exact(2) [where L = "all_files backups" and v = v and st = st] by (simp add: guest_latest_flat best_file_def)
qed

lemma guest_latest_present:
  assumes "(st, f) \<in> set (all_files backups)" "pf_vmid f = Some v"
  shows "\<exists>g. ((v, st), g) \<in> set (guest_latest backups)"
proof -
  have "dget (guest_latest backups) (v, st) \<noteq> None"
    using assms latest_exact(2) [where L = "all_files backups" and v = v and st = st] by (auto simp: guest_latest_flat best_file_def split: option.splits)
  then show ?thesis by (auto simp: dget_def dest: map_of_SomeD)
qed

lemma files_run:
  assumes "fold_try (sync_file cfg names) L s = (s', None)" "backup_ok (sy_db s)"
    and "\<And>st' g'. ((v, st'), g') \<in> set L \<Longrightarrow> (st', g') = (st, g)" "ctime_of g \<noteq> 0"
  shows "run_of cfg v (sy_db s') = (if ((v, st), g) \<in> set L then Some (seconds (ctime_of g)) else run_of cfg v (sy_db s))
    \<and> backup_ok (sy_db s')"
  using assms(1-3)
proof (induction L arbitrary: s)
  case (Cons x L)
  obtain w st' g' where x: "x = ((w, st'), g')" by (metis prod.exhaust)
  obtain s1 where s1: "sync_file cfg names x s = (s1, None)" "fold_try (sync_file cfg names) L s1 = (s', None)"
    using Cons.prems(1) by (auto split: prod.splits option.splits)
  note step = sync_file_step(1) [OF Cons.prems(2) s1(1) [unfolded x]] sync_file_step(2) [OF Cons.prems(2) s1(1) [unfolded x], of v]
  have own: "w = v \<Longrightarrow> (st', g') = (st, g)" using Cons.prems(3) [of st' g'] x by simp
  have "\<And>st' g'. ((v, st'), g') \<in> set L \<Longrightarrow> (st', g') = (st, g)" using Cons.prems(3) by (meson list.set_intros(2))
  from Cons.IH [OF s1(2) step(1) this]
  have ih: "run_of cfg v (sy_db s') = (if ((v, st), g) \<in> set L then Some (seconds (ctime_of g)) else run_of cfg v (sy_db s1))" "backup_ok (sy_db s')"
    by blast+
  show ?case
  proof (cases "w = v")
    case True
    then show ?thesis using ih step(2) own assms(4) x by simp
  next
    case False
    then show ?thesis using ih step(2) x by simp
  qed
qed simp

definition task_times :: "px_task list \<Rightarrow> int \<Rightarrow> datetime set" where
  "task_times tasks v = {r. \<exists>t \<in> set tasks. task_run t = Some (v, r)}"

lemma task_times_Cons:
  "task_times (t # ts) v = (case task_run t of Some (w, r) \<Rightarrow> if w = v then {r} else {} | None \<Rightarrow> {}) \<union> task_times ts v"
  by (auto simp: task_times_def split: option.splits prod.splits)

lemma finite_task_times: "finite (task_times ts v)"
  by (induction ts) (auto simp: task_times_Cons task_times_def [of "[]"] split: option.splits)

lemma tasks_run:
  assumes "backup_ok (sy_db s)" "run_of cfg v (sy_db s) = Some a"
  shows "run_of cfg v (sy_db (fold (sync_task cfg names) ts s)) = Some (Max (insert a (task_times ts v)))
    \<and> backup_ok (sy_db (fold (sync_task cfg names) ts s))"
  using assms
proof (induction ts arbitrary: s a)
  case Nil
  then show ?case by (simp add: task_times_def)
next
  case (Cons t ts)
  have fin: "finite (task_times ts v)" by (rule finite_task_times)
  show ?case
  proof (cases "\<exists>r. task_run t = Some (v, r)")
    case True
    then obtain r where r: "task_run t = Some (v, r)" by blast
    have "run_of cfg v (sy_db (sync_task cfg names t s)) = Some (max a r)"
      using sync_task_step(2) [OF Cons.prems(1), of cfg v names t] Cons.prems(2) r by (simp add: later_def)
    then show ?thesis using Cons.IH [OF sync_task_step(1) [OF Cons.prems(1)]] r fin
      by (cases "task_times ts v = {}") (simp_all add: task_times_Cons max.assoc)
  next
    case False
    then have "run_of cfg v (sy_db (sync_task cfg names t s)) = Some a" "task_times (t # ts) v = task_times ts v"
      using sync_task_step(2) [OF Cons.prems(1), of cfg v names t] Cons.prems(2) by (auto simp: task_times_Cons split: option.splits)
    then show ?thesis using Cons.IH [OF sync_task_step(1) [OF Cons.prems(1)]] by simp
  qed
qed

definition file_times :: "(string, px_file list) dict \<Rightarrow> int \<Rightarrow> datetime set" where
  "file_times backups v = (\<lambda>(st, f). seconds (ctime_of f)) ` {x \<in> set (all_files backups). pf_vmid (snd x) = Some v}"

text \<open>
  C15. A guest whose backups are all on one storage: after a sync that succeeds its job has the time of the newest backup file or
  backup task.
\<close>

theorem newest_run_recorded:
  assumes "backup_ok db" "px_backups data = Some backups" "sync_proxmox_backups cfg data db = (s, None)"
    and "(st, f) \<in> set (all_files backups)" "pf_vmid f = Some v" "0 < ctime_of f"
    and "\<forall>x \<in> set (all_files backups). pf_vmid (snd x) = Some v \<longrightarrow> fst x = st"
  shows "\<exists>j \<in> set (bd_jobs (sy_db s)). job_matches ''proxmox'' cfg (Some v) [] j \<and>
    bj_last_run_at j = Some (Max (file_times backups v \<union> task_times (px_tasks data) v))"
proof -
  let ?names = "vmid_names (px_vms data @ px_containers data)"
  obtain g where g: "((v, st), g) \<in> set (guest_latest backups)" using guest_latest_present [OF assms(4,5)] by blast
  have latest: "is_latest (set (all_files backups)) v st g" by (rule guest_latest_entry [OF g])
  then have pos: "ctime_of g \<noteq> 0" using assms(4-6) by (force simp: is_latest_def)
  have only: "(st', g') = (st, g)" if "((v, st'), g') \<in> set (guest_latest backups)" for st' g'
  proof -
    have st: "st' = st" using guest_latest_entry [OF that] assms(7) by (force simp: is_latest_def)
    have "dict_ok (guest_latest backups)" using latest_exact(1) [of "all_files backups"] by (simp add: guest_latest_flat)
    then show ?thesis using that g st by (auto simp: dict_ok_def dkeys_def dest: eq_key_imp_eq_value)
  qed
  obtain s1 where s1: "fold_try (sync_file cfg ?names) (guest_latest backups) (sync_start db) = (s1, None)"
    and s: "s = fold (sync_task cfg ?names) (px_tasks data) s1"
    using assms(2,3) by (auto simp: sync_proxmox_backups_def Let_def split: prod.splits option.splits)
  have "run_of cfg v (sy_db s1) = Some (seconds (ctime_of g)) \<and> backup_ok (sy_db s1)"
    using files_run [OF s1 _ only pos] assms(1) g by (simp add: sync_start_def)
  with tasks_run [of s1 cfg v _ ?names "px_tasks data"]
  have run: "run_of cfg v (sy_db s) = Some (Max (insert (seconds (ctime_of g)) (task_times (px_tasks data) v)))" and ok: "backup_ok (sy_db s)"
    by (auto simp: s)
  have top: "seconds (ctime_of g) \<in> file_times backups v" "\<forall>t \<in> file_times backups v. t \<le> seconds (ctime_of g)" "finite (file_times backups v)"
    using latest assms(7) by (force simp: file_times_def is_latest_def seconds_def)+
  have "Max (insert (seconds (ctime_of g)) (task_times (px_tasks data) v)) = Max (file_times backups v \<union> task_times (px_tasks data) v)"
  proof -
    have "Max (file_times backups v) = seconds (ctime_of g)" using top by (intro Max_eqI) auto
    then show ?thesis using top finite_task_times [of "px_tasks data" v]
      by (cases "task_times (px_tasks data) v = {}") (simp, metis Max_Un Max_insert empty_iff)
  qed
  with run ok show ?thesis
    by (auto simp: run_of_def matches_vmid found_key_def jobs_of_iff split: bind_splits)
qed

definition demo_file :: "int \<Rightarrow> int \<Rightarrow> px_file" where
  "demo_file v c = \<lparr>pf_vmid = Some v, pf_ctime = Some c, pf_size = Some 10, pf_volid = Some ''vol''\<rparr>"

definition demo_px :: "(string, px_file list) dict \<Rightarrow> proxmox_data" where
  "demo_px backups = \<lparr>px_vms = [\<lparr>pg_id = Some 100, pg_name = Some ''web''\<rparr>], px_containers = [], px_backups = Some backups,
     px_tasks = [\<lparr>pt_type = ''vzdump'', pt_id = ''100'', pt_status = Some ''OK'', pt_ok = Some True,
                  pt_starttime = Some ''1970-01-01 00:10:00'', pt_node = ''n'', pt_user = ''root''\<rparr>]\<rparr>"

lemma demo_px_syncs: "snd (sync_proxmox_backups 1 (demo_px [(''local'', [demo_file 100 60, demo_file 100 500])]) empty_backups) = None"
  by code_simp

theorem newest_run_recorded_witness:
  "\<exists>j \<in> set (bd_jobs (sy_db (fst (sync_proxmox_backups 1 (demo_px [(''local'', [demo_file 100 60, demo_file 100 500])]) empty_backups)))).
     job_matches ''proxmox'' 1 (Some 100) [] j \<and>
     bj_last_run_at j = Some (Max (file_times [(''local'', [demo_file 100 60, demo_file 100 500])] 100 \<union>
       task_times (px_tasks (demo_px [(''local'', [demo_file 100 60, demo_file 100 500])])) 100))"
  by (rule newest_run_recorded [where db = empty_backups and st = "''local''" and f = "demo_file 100 500"])
    (use demo_px_syncs in \<open>simp_all add: empty_backups_ok prod_eq_iff, simp_all add: demo_px_def all_files_def demo_file_def ctime_of_def\<close>)

text \<open>With backups on two storages the storage listed last decides, although its newest backup is older.\<close>

lemma older_storage_wins:
  "map bj_last_run_at (bd_jobs (sy_db (fst (sync_proxmox_backups 1
      ((demo_px [(''pbs'', [demo_file 100 90000]), (''usb'', [demo_file 100 500])])\<lparr>px_tasks := []\<rparr>) empty_backups)))) = [Some (seconds 500)]"
  by code_simp

section \<open>What the operator sees\<close>

lemma summary_fold:
  "bs_total (fold (summary_step now) jobs s) = bs_total s \<and>
   bs_healthy (fold (summary_step now) jobs s) + bs_warning (fold (summary_step now) jobs s) + bs_failed (fold (summary_step now) jobs s) +
     bs_unknown (fold (summary_step now) jobs s) = bs_healthy s + bs_warning s + bs_failed s + bs_unknown s + length jobs \<and>
   map be_job (bs_jobs (fold (summary_step now) jobs s)) = map be_job (bs_jobs s) @ jobs \<and>
   map be_job (bs_overdue (fold (summary_step now) jobs s)) = map be_job (bs_overdue s) @ filter (is_overdue now) jobs"
  by (induction jobs arbitrary: s) (auto simp: summary_step_def Let_def count_status_def)

lemma round_tenth_bounds:
  "round_tenth q > of_int n \<Longrightarrow> q > of_int n" "q > of_int n + 1 / 20 \<Longrightarrow> round_tenth q > of_int n"
proof -
  show "q > of_int n" if "round_tenth q > of_int n"
  proof (rule ccontr)
    assume "\<not> q > of_int n"
    then have "round_half_even (q * 10) \<le> n * 10" by (intro round_half_even_le) simp
    then have "(of_int (round_half_even (q * 10)) :: rat) \<le> of_int (n * 10)" by (rule of_int_le_iff [THEN iffD2])
    then show False using that by (simp add: round_tenth_def)
  qed
  show "round_tenth q > of_int n" if "q > of_int n + 1 / 20"
  proof -
    have "n * 10 < round_half_even (q * 10)" by (rule round_half_even_gt) (use that in \<open>simp add: field_simps\<close>)
    then have "(of_int (n * 10) :: rat) < of_int (round_half_even (q * 10))" by (rule of_int_less_iff [THEN iffD2])
    then show ?thesis by (simp add: round_tenth_def)
  qed
qed

definition reported_overdue :: "datetime \<Rightarrow> backup_job \<Rightarrow> bool" where
  "reported_overdue now j \<longleftrightarrow> (\<exists>h n l. Overdue_backup (bj_id j) h n l \<in> set (job_issues now j))"

lemma reported_overdue_iff:
  "reported_overdue now j \<longleftrightarrow> (\<exists>l. bj_last_run_at j = Some l \<and> hours_passed now l > of_int (bj_expected_frequency_hours j))"
  by (auto simp: reported_overdue_def job_issues_def split: option.split if_splits)

text \<open>
  The summary counts every job once and lists exactly the jobs it flags as overdue. A job it flags is also reported by the
  compliance check, and a job that is late by more than three minutes (a twentieth of an hour) is flagged.
\<close>

theorem summary_exact:
  fixes now :: datetime and jobs :: "backup_job list"
  defines "s \<equiv> get_backup_summary now jobs"
  shows "bs_healthy s + bs_warning s + bs_failed s + bs_unknown s = bs_total s \<and> bs_total s = length jobs \<and>
    map be_job (bs_jobs s) = jobs \<and> map be_job (bs_overdue s) = filter (is_overdue now) jobs \<and>
    {j. is_overdue now j} \<subseteq> {j. reported_overdue now j} \<and>
    {j. \<exists>l. bj_last_run_at j = Some l \<and> hours_passed now l > of_int (bj_expected_frequency_hours j) + 1 / 20} \<subseteq> {j. is_overdue now j}"
proof -
  have "{j. is_overdue now j} \<subseteq> {j. reported_overdue now j}"
    by (auto simp: is_overdue_def hours_since_def reported_overdue_iff split: option.splits dest: round_tenth_bounds(1))
  moreover have "{j. \<exists>l. bj_last_run_at j = Some l \<and> hours_passed now l > of_int (bj_expected_frequency_hours j) + 1 / 20} \<subseteq> {j. is_overdue now j}"
    by (auto simp: is_overdue_def hours_since_def dest: round_tenth_bounds(2))
  ultimately show ?thesis unfolding s_def get_backup_summary_def using summary_fold [of now jobs] by simp
qed

text \<open>Between the two, the compliance check reports a job the summary shows as healthy.\<close>

lemma views_disagree:
  fixes j :: backup_job
  defines "k \<equiv> j\<lparr>bj_last_run_at := Some 0, bj_last_status := ''ok'', bj_expected_frequency_hours := 24\<rparr>"
  shows "reported_overdue (seconds 86520) k \<and> effective_status (seconds 86520) k = ''ok''"
proof -
  have "\<lfloor>721 / 3 :: rat\<rfloor> = 240" by (simp add: floor_eq_iff)
  then show ?thesis unfolding reported_overdue_iff
    by (simp add: k_def effective_status_def is_overdue_def hours_since_def hours_passed_def total_seconds_def seconds_def round_tenth_def
        round_half_even_def Let_def)
qed

section \<open>The history of a job\<close>

lemma map_result_rows: "map_result history_entry hs = Inr es \<Longrightarrow> map fst es = hs"
  by (induction hs arbitrary: es) (auto simp: bind_result_Inr_iff history_entry_def split: option.splits if_splits)

lemma sorted_desc: "sorted (map (\<lambda>h. - bh_timestamp h) (sort_key (\<lambda>h. - bh_timestamp h) hs))"
  by simp

text \<open>
  The history of a job is listed strictly from the newest to the oldest run, and a run that is left out because of the limit is
  older than every run that is shown.
\<close>

theorem history_newest_first:
  assumes "backup_ok db" "get_job_history job_id limit db = Inr es"
  shows "sorted_wrt (\<lambda>a b. bh_timestamp (fst a) > bh_timestamp (fst b)) es \<and> length es \<le> nat limit \<and>
    (\<forall>h \<in> set (bd_history db). bh_job_id h = job_id \<longrightarrow> h \<in> fst ` set es \<or>
       (length es = nat limit \<and> (\<forall>e \<in> set es. bh_timestamp h < bh_timestamp (fst e))))"
proof -
  let ?own = "filter (\<lambda>h. bh_job_id h = job_id) (bd_history db)"
  let ?key = "\<lambda>h. - bh_timestamp h"
  define srt where "srt = sort_key ?key ?own"
  have es: "map fst es = take (nat limit) srt"
    using assms(2) map_result_rows unfolding get_job_history_def srt_def by (simp split: if_splits)
  have "inj_on bh_timestamp (set ?own)" "distinct ?own"
    using assms(1) by (auto simp: backup_ok_def inj_on_def distinct_map)
  then have d: "distinct (map ?key srt)" unfolding srt_def distinct_map by (auto simp: inj_on_def)
  then have strict: "sorted_wrt (<) (map ?key srt)" using sorted_desc [of ?own] unfolding srt_def by (simp add: strict_sorted_iff)
  then have st: "sorted_wrt (\<lambda>a b. bh_timestamp a > bh_timestamp b) srt" by (simp add: sorted_wrt_map)
  have 1: "sorted_wrt (\<lambda>a b. bh_timestamp a > bh_timestamp b) (map fst es)" unfolding es using st by (simp add: sorted_wrt_take)
  have split: "srt = map fst es @ drop (nat limit) srt" by (simp add: es)
  have older: "\<forall>a \<in> set (map fst es). \<forall>b \<in> set (drop (nat limit) srt). bh_timestamp b < bh_timestamp a"
    using st by (subst (asm) split) (simp add: sorted_wrt_append)
  have len: "length es = nat limit" if "drop (nat limit) srt \<noteq> []" using that es by (metis length_map length_take drop_all linorder_not_le min.absorb2 min.commute less_imp_le)
  have "h \<in> fst ` set es \<or> length es = nat limit \<and> (\<forall>e \<in> set es. bh_timestamp h < bh_timestamp (fst e))"
    if "h \<in> set (bd_history db)" "bh_job_id h = job_id" for h
  proof -
    have "h \<in> set srt" using that by (simp add: srt_def)
    then consider "h \<in> set (map fst es)" | "h \<in> set (drop (nat limit) srt)" by (subst (asm) split) auto
    then show ?thesis
    proof cases
      case 2
      then have "length es = nat limit" using len by (cases "drop (nat limit) srt") auto
      then show ?thesis using older 2 by simp
    qed simp
  qed
  moreover have "length es \<le> nat limit" using arg_cong [OF es, of length] by simp
  ultimately show ?thesis using 1 by (simp add: sorted_wrt_map)
qed

end
