(* ===== verification/Self_Check.thy ===== *)
theory Self_Check
  imports Incidents Probes
begin

text \<open>
  Nodeglow watching itself (\<^verbatim>\<open>backend/services/self_check.py\<close>): streams that went quiet, silent probes and jobs that
  stopped completing become problems, and the problems of a run become incidents of the rule \<open>self_check\<close>. The answers of the
  databases, of the scheduler and of the metrics registry are arguments, each an error where the query raises.
\<close>

section \<open>Problems\<close>

definition JOB_GRACE_FACTOR :: rat where "JOB_GRACE_FACTOR = 3"
definition SELF_CHECK_RULE :: string where "SELF_CHECK_RULE = ''self_check''"
definition AGENT_ACTIVE_DAYS :: int where "AGENT_ACTIVE_DAYS = 7"

record data_source =
  src_key :: string
  src_label :: string
  src_max_age :: int

record self_problem = problem +
  pb_hosts :: "int list"

definition mk_problem :: "string \<Rightarrow> string \<Rightarrow> string \<Rightarrow> self_problem" where
  "mk_problem key title summary =
     \<lparr>pb_key = key, pb_title = title, pb_severity = ''critical'', pb_summary = summary, pb_hosts = []\<rparr>"

definition JOB_ID_PREFIXES :: "string list" where "JOB_ID_PREFIXES = [''src:'']"

definition metric_name_for :: "string \<Rightarrow> string" where
  "metric_name_for job_id =
     (case find (\<lambda>p. startswith job_id p) JOB_ID_PREFIXES of None \<Rightarrow> job_id | Some p \<Rightarrow> drop (length p) job_id)"

text \<open>A job of the scheduler: the interval of an interval trigger and the label of an instrumented function.\<close>

record sched_job =
  sj_id :: string
  sj_interval :: "rat option"
  sj_metric :: "string option"

definition metric_name_of_job :: "sched_job \<Rightarrow> string" where
  "metric_name_of_job j = (case sj_metric j of Some m \<Rightarrow> if m \<noteq> [] then m else metric_name_for (sj_id j) | None \<Rightarrow> metric_name_for (sj_id j))"

definition humanise :: "rat \<Rightarrow> string" where
  "humanise t =
     (let s = trunc t in
      if s < 60 then show_int s @ ''s''
      else if s < 3600 then show_int (s div 60) @ ''m''
      else if s < 86400 then show_int (s div 3600) @ ''h''
      else show_int (s div 86400) @ ''d'')"

definition evaluate_freshness :: "data_source \<Rightarrow> rat option \<Rightarrow> rat \<Rightarrow> bool \<Rightarrow> self_problem option" where
  "evaluate_freshness s newest now active =
     (if \<not> active then None
      else (case newest of
              None \<Rightarrow> Some (mk_problem (src_key s) (src_label s @ '': no data recorded'')
                 (src_label s @ '' has no data at all, but the feature is in use. Collection is not reaching storage.''))
            | Some t \<Rightarrow>
                (if now - t > of_int (src_max_age s)
                 then Some (mk_problem (src_key s) (src_label s @ '': data is stale'')
                   (''Last '' @ str_lower (src_label s) @ '' datapoint is '' @ humanise (now - t) @ '' old (expected within ''
                      @ humanise (of_int (src_max_age s)) @ '').''))
                 else None)))"

definition evaluate_job :: "string \<Rightarrow> rat option \<Rightarrow> rat \<Rightarrow> rat \<Rightarrow> rat \<Rightarrow> rat \<Rightarrow> self_problem option" where
  "evaluate_job name last_success now interval process_start grace_factor =
     (let deadline = interval * grace_factor in
      if now - process_start < deadline then None
      else (let ok = (case last_success of None \<Rightarrow> None | Some t \<Rightarrow> if t = 0 then None else Some t);
                age = now - (case ok of None \<Rightarrow> process_start | Some t \<Rightarrow> t) in
            if age \<le> deadline then None
            else Some (mk_problem (''job:'' @ name) (''Scheduled job not completing: '' @ name)
              (case ok of
                 None \<Rightarrow> ''Job '' @ quoted name @ '' has not completed successfully since startup ('' @ humanise age
                   @ '' ago), although it runs every '' @ humanise interval @ ''.''
               | Some _ \<Rightarrow> ''Job '' @ quoted name @ '' last succeeded '' @ humanise age @ '' ago, but runs every '' @ humanise interval @ ''.''))))"

section \<open>Collecting\<close>

definition DATA_SOURCES :: "data_source list" where
  "DATA_SOURCES =
     [\<lparr>src_key = ''ping_checks'', src_label = ''Ping checks'', src_max_age = 600\<rparr>,
      \<lparr>src_key = ''agent_metrics'', src_label = ''Agent metrics'', src_max_age = 1800\<rparr>,
      \<lparr>src_key = ''syslog_messages'', src_label = ''Syslog messages'', src_max_age = 3600\<rparr>]"

definition JOB_CHECK_EXCLUDE :: "string list" where
  "JOB_CHECK_EXCLUDE = [''weekly_digest'', ''daily_ai_summary'', ''geoip_update'', ''legacy_api_key_cleanup'']"

text \<open>
  What a run sees: the enabled hosts and the agents' last reports (\<open>Inl\<close> where the query raises), the number of syslog messages of the
  last seven days, the newest time stamp of a stream, the probes, the jobs, and the samples of the metrics registry.
\<close>

record self_env =
  se_now :: rat
  se_start :: rat
  se_clock :: datetime
  se_posix :: "datetime \<Rightarrow> rat"
  se_hosts :: "ping_host list result"
  se_agents :: "datetime option list result"
  se_syslog :: "int option result"
  se_newest :: "string \<Rightarrow> int option result"
  se_probes :: "probe_agent list result"
  se_jobs :: "sched_job list result"
  se_runs :: "string \<Rightarrow> string \<Rightarrow> rat option"
  se_success :: "string \<Rightarrow> rat option"

definition job_intervals :: "sched_job list \<Rightarrow> (string, rat) dict" where
  "job_intervals jobs = foldl (\<lambda>d j. case sj_interval j of None \<Rightarrow> d | Some i \<Rightarrow> dset d (sj_id j) i) [] jobs"

definition last_seen_of :: "self_env \<Rightarrow> string \<Rightarrow> rat option result" where
  "last_seen_of e key =
     bind_result (se_newest e key) (\<lambda>v. Inr (case v of None \<Rightarrow> None | Some n \<Rightarrow> if n = 0 then None else Some (of_int n)))"

definition active_sources :: "self_env \<Rightarrow> (string, bool) dict result" where
  "active_sources e =
     bind_result (se_hosts e) (\<lambda>hosts. bind_result (se_agents e) (\<lambda>agents.
       Inr [(''ping_checks'', filter enabled hosts \<noteq> []),
            (''agent_metrics'', \<exists>l \<in> set agents. (case l of None \<Rightarrow> False | Some t \<Rightarrow> t \<ge> se_clock e - days AGENT_ACTIVE_DAYS)),
            (''syslog_messages'', (case se_syslog e of Inl _ \<Rightarrow> False | Inr None \<Rightarrow> False | Inr (Some n) \<Rightarrow> n \<noteq> 0))]))"

definition hosts_by_probe :: "ping_host list \<Rightarrow> (int, int list) dict" where
  "hosts_by_probe hosts =
     foldl (\<lambda>d h. case probe_id h of None \<Rightarrow> d | Some p \<Rightarrow> if enabled h then dset d p (dget_or d p [] @ [host_id h]) else d) [] hosts"

text \<open>The problem of a probe with the hosts it watches: the id is read back from the key.\<close>

definition probe_self_problem :: "(int, int list) dict \<Rightarrow> problem \<Rightarrow> self_problem" where
  "probe_self_problem by_probe p =
     \<lparr>pb_key = pb_key p, pb_title = pb_title p, pb_severity = pb_severity p, pb_summary = pb_summary p,
      pb_hosts = sort (case parse_int (drop (length ''probe:'') (pb_key p)) of None \<Rightarrow> [] | Some i \<Rightarrow> dget_or by_probe i [])\<rparr>"

definition probe_problems :: "self_env \<Rightarrow> self_problem list result" where
  "probe_problems e =
     bind_result (se_probes e) (\<lambda>rows.
       if rows = [] then Inr []
       else bind_result (se_hosts e) (\<lambda>hosts.
         (let by_probe = hosts_by_probe hosts; counts = map (\<lambda>(p, ids). (p, int (length ids))) by_probe in
          Inr (map (probe_self_problem by_probe) (problems_for (map (agent_probe (se_posix e)) rows) counts (se_now e))))))"

definition freshness_problem :: "self_env \<Rightarrow> (string, bool) dict \<Rightarrow> data_source \<Rightarrow> self_problem list" where
  "freshness_problem e active s =
     (if dget active (src_key s) \<noteq> Some True then []
      else (case last_seen_of e (src_key s) of
              Inl _ \<Rightarrow> []
            | Inr l \<Rightarrow> (case evaluate_freshness s l (se_now e) True of None \<Rightarrow> [] | Some p \<Rightarrow> [p])))"

definition instrumented :: "self_env \<Rightarrow> string \<Rightarrow> bool" where
  "instrumented e name \<longleftrightarrow>
     (\<exists>st \<in> {''success'', ''failure'', ''degraded''}. (case se_runs e name st of None \<Rightarrow> False | Some n \<Rightarrow> n \<noteq> 0))"

text \<open>\<open>jobs_by_id[job_id]\<close>: the last job of that id.\<close>

definition job_problem :: "self_env \<Rightarrow> sched_job list \<Rightarrow> string \<times> rat \<Rightarrow> self_problem list" where
  "job_problem e jobs entry =
     (case find (\<lambda>j. sj_id j = fst entry) (rev jobs) of
        None \<Rightarrow> []
      | Some j \<Rightarrow>
          (let name = metric_name_of_job j in
           if name \<in> set JOB_CHECK_EXCLUDE \<or> \<not> instrumented e name then []
           else (case evaluate_job name (se_success e name) (se_now e) (snd entry) (se_start e) JOB_GRACE_FACTOR of
                   None \<Rightarrow> [] | Some p \<Rightarrow> [p])))"

definition collect_problems :: "self_env \<Rightarrow> self_problem list" where
  "collect_problems e =
     (let active = (case active_sources e of Inl _ \<Rightarrow> [] | Inr a \<Rightarrow> a) in
      concat (map (freshness_problem e active) DATA_SOURCES) @
      (case probe_problems e of Inl _ \<Rightarrow> [] | Inr ps \<Rightarrow> ps) @
      (case se_jobs e of Inl _ \<Rightarrow> [] | Inr jobs \<Rightarrow> concat (map (job_problem e jobs) (job_intervals jobs))))"

section \<open>Incidents\<close>

definition self_spec :: "self_problem \<Rightarrow> incident_spec" where
  "self_spec p =
     (host_incident SELF_CHECK_RULE (pb_title p) (pb_severity p) [] ''self_check'' (pb_summary p))\<lparr>sp_affected := Some (pb_hosts p)\<rparr>"

definition raise_problem ::
    "(string \<Rightarrow> string) \<Rightarrow> datetime \<Rightarrow> self_problem \<Rightarrow> store \<times> notice list \<Rightarrow> (store \<times> notice list) result" where
  "raise_problem sha now p s =
     bind_result (find_or_create_incident sha now (self_spec p) (fst s)) (\<lambda>(st, _, ns). Inr (st, snd s @ ns))"

definition self_open :: "store \<Rightarrow> incident list" where
  "self_open st = filter (\<lambda>i. inc_rule i = SELF_CHECK_RULE \<and> is_open i) (st_incidents st)"

text \<open>A problem that is gone: the row is resolved without an event.\<close>

definition clear_incident :: "datetime \<Rightarrow> incident \<Rightarrow> store \<Rightarrow> store" where
  "clear_incident now i =
     update_incident (inc_id i) (\<lambda>i. i\<lparr>inc_status := ''resolved'', resolved_at := Some now, updated_at := now\<rparr>)"

definition raise_and_clear :: "(string \<Rightarrow> string) \<Rightarrow> datetime \<Rightarrow> self_problem list \<Rightarrow> store \<Rightarrow> (store \<times> notice list) result" where
  "raise_and_clear sha now problems st =
     bind_result (fold_result (raise_problem sha now) problems (st, [])) (\<lambda>(st', ns).
       Inr (fold (clear_incident now) (filter (\<lambda>i. inc_title i \<notin> pb_title ` set problems) (self_open st')) st', ns))"

definition run_self_check ::
    "(string \<Rightarrow> string) \<Rightarrow> self_env \<Rightarrow> store \<Rightarrow> (store \<times> notice list) result" where
  "run_self_check sha e st = raise_and_clear sha (se_clock e) (collect_problems e) st"

section \<open>One incident for all problems\<close>

text \<open>
  Every problem is raised with an empty list of hosts, so all problems have one dedup key. The abstract view of the store: the titles of the
  open self-check incidents.
\<close>

definition self_key :: "(string \<Rightarrow> string) \<Rightarrow> string" where
  "self_key sha = hash_host_ids sha []"

definition open_titles :: "store \<Rightarrow> string list" where
  "open_titles st = map inc_title (self_open st)"

definition self_ok :: "(string \<Rightarrow> string) \<Rightarrow> store \<Rightarrow> bool" where
  "self_ok sha st \<longleftrightarrow> store_ok st \<and> (\<forall>i \<in> set (self_open st). host_ids_hash i = Some (self_key sha))"

lemma self_open_matches: "self_ok sha st \<Longrightarrow> self_open st = open_matches SELF_CHECK_RULE (self_key sha) st"
  unfolding self_open_def open_matches_def by (rule filter_cong) (auto simp: self_ok_def self_open_def)

lemma self_spec_fields [simp]:
  "sp_rule (self_spec p) = SELF_CHECK_RULE" "dedup_key sha (self_spec p) = self_key sha" "sp_title (self_spec p) = pb_title p" "sp_notify (self_spec p)"
  by (simp_all add: self_spec_def host_incident_def dedup_key_def self_key_def)

definition incident_title :: "self_problem \<Rightarrow> string" where
  "incident_title p = red_circle @ '' Incident: '' @ pb_title p"

lemma raise_problem_exact:
  assumes "self_ok sha st"
  obtains st' ns' where "raise_problem sha now p (st, ns) = Inr (st', ns @ ns')" "self_ok sha st'"
    "open_titles st' = (if open_titles st = [] then [pb_title p] else open_titles st)"
    "map n_title ns' = (if open_titles st = [] then [incident_title p] else [])"
proof -
  have ok: "store_ok st" using assms by (simp add: self_ok_def)
  show thesis
    using ok
  proof (cases rule: find_or_create_cases [where sp = "self_spec p" and sha = sha and now = now])
    case created
    let ?i = "new_incident sha now (self_spec p) st"
    have none: "self_open st = []" using created(1) self_open_matches [OF assms] by simp
    obtain st' n where st': "find_or_create_incident sha now (self_spec p) st = Inr (st', next_incident st, [n])"
      "st_incidents st' = st_incidents st @ [?i]" "n_title n = incident_title p" using created(2) by (auto simp: incident_title_def)
    have "store_ok st'" using find_or_create_ok [OF ok, of sha now "self_spec p"] st'(1) by auto
    moreover have so: "self_open st' = [?i]" using none unfolding self_open_def st'(2) by (simp add: new_incident_def is_open_def)
    ultimately show thesis
      by (intro that [of st' "[n]"]) (use none st'(1,3) in \<open>simp_all add: raise_problem_def self_ok_def open_titles_def new_incident_def\<close>)
  next
    case (extended i)
    let ?f = "extend_incident (recorded_hosts (self_spec p)) now"
    obtain st' where st': "find_or_create_incident sha now (self_spec p) st = Inr (st', inc_id i, [])"
      "st_incidents st' = st_incidents (update_incident (inc_id i) ?f st)" using extended(2) by auto
    have "store_ok st'" using find_or_create_ok [OF ok, of sha now "self_spec p"] st'(1) by auto
    define g where "g j = (if inc_id j = inc_id i then ?f j else j)" for j
    have g: "inc_rule (g j) = inc_rule j" "is_open (g j) = is_open j" "host_ids_hash (g j) = host_ids_hash j" "inc_title (g j) = inc_title j" for j
      by (simp_all add: g_def extend_incident_def is_open_def)
    have so: "self_open st' = map g (self_open st)"
      by (simp add: self_open_def st'(2) update_incident_def g_def [symmetric] filter_map comp_def g)
    have "self_open st \<noteq> []" using extended(1) self_open_matches [OF assms] by simp
    then show thesis
      by (intro that [of st' "[]"]) (use \<open>store_ok st'\<close> so assms st'(1) in \<open>auto simp: raise_problem_def self_ok_def open_titles_def g\<close>)
  qed
qed

lemma raise_all_exact:
  assumes "self_ok sha st"
  shows "\<exists>st' ns'. fold_result (raise_problem sha now) ps (st, ns) = Inr (st', ns @ ns') \<and> self_ok sha st' \<and>
    open_titles st' = (if open_titles st = [] then map pb_title (take 1 ps) else open_titles st) \<and>
    map n_title ns' = (if open_titles st = [] then map incident_title (take 1 ps) else [])"
  using assms
proof (induction ps arbitrary: st ns)
  case (Cons p ps)
  obtain st1 ns1 where s1: "raise_problem sha now p (st, ns) = Inr (st1, ns @ ns1)" "self_ok sha st1"
    "open_titles st1 = (if open_titles st = [] then [pb_title p] else open_titles st)"
    "map n_title ns1 = (if open_titles st = [] then [incident_title p] else [])"
    using raise_problem_exact [OF Cons.prems] by metis
  obtain st2 ns2 where s2: "fold_result (raise_problem sha now) ps (st1, ns @ ns1) = Inr (st2, (ns @ ns1) @ ns2)" "self_ok sha st2"
    "open_titles st2 = (if open_titles st1 = [] then map pb_title (take 1 ps) else open_titles st1)"
    "map n_title ns2 = (if open_titles st1 = [] then map incident_title (take 1 ps) else [])"
    using Cons.IH [OF s1(2)] by blast
  have ne: "open_titles st1 \<noteq> []" using s1(3) by simp
  then have "ns2 = []" using s2(4) by simp
  then show ?case using s1 s2 ne by (intro exI [of _ st2] exI [of _ ns1]) simp
qed simp

lemma clear_one:
  assumes "self_ok sha st" "i \<in> set (self_open st)"
  shows "self_ok sha (clear_incident now i st)" "self_open (clear_incident now i st) = filter (\<lambda>j. inc_id j \<noteq> inc_id i) (self_open st)"
proof -
  define g where "g j = (if inc_id j = inc_id i then j\<lparr>inc_status := ''resolved'', resolved_at := Some now, updated_at := now\<rparr> else j)" for j :: incident
  have g: "inc_rule (g j) = inc_rule j" "is_open (g j) \<longleftrightarrow> is_open j \<and> inc_id j \<noteq> inc_id i" "inc_id j \<noteq> inc_id i \<Longrightarrow> g j = j" for j
    by (auto simp: g_def is_open_def)
  have "self_open (clear_incident now i st) = map g (filter (\<lambda>j. inc_id j \<noteq> inc_id i) (self_open st))"
    by (simp add: self_open_def clear_incident_def update_incident_def g_def [symmetric] filter_map comp_def g conj_ac)
  also have "\<dots> = filter (\<lambda>j. inc_id j \<noteq> inc_id i) (self_open st)" by (rule map_idI) (simp add: g(3))
  finally show so: "self_open (clear_incident now i st) = filter (\<lambda>j. inc_id j \<noteq> inc_id i) (self_open st)" .
  show "self_ok sha (clear_incident now i st)"
    using assms(1) so store_ok_update [OF _ row_update_resolve] unfolding self_ok_def clear_incident_def by auto
qed

lemma self_open_le_one: "self_ok sha st \<Longrightarrow> self_open st = [] \<or> (\<exists>i. self_open st = [i])"
  using self_open_matches [of sha st] open_matches_le_one [of st] by (metis self_ok_def)

lemma clear_all:
  assumes "self_ok sha st"
  shows "self_ok sha (fold (clear_incident now) (filter P (self_open st)) st) \<and>
    self_open (fold (clear_incident now) (filter P (self_open st)) st) = filter (\<lambda>i. \<not> P i) (self_open st)"
  using self_open_le_one [OF assms] clear_one [OF assms] assms by (auto split: if_splits)

text \<open>
  C11. The exact effect of a run on the operator's view. Without an open self-check incident the first problem opens one and is notified; with an
  open one nothing is opened or notified, and the incident stays open as long as its own title is among the problems.
\<close>

theorem self_check_exact:
  assumes "self_ok sha st"
  shows "\<exists>st' ns. run_self_check sha e st = Inr (st', ns) \<and> self_ok sha st' \<and>
    open_titles st' = (if open_titles st = [] then map pb_title (take 1 (collect_problems e))
                       else filter (\<lambda>t. t \<in> pb_title ` set (collect_problems e)) (open_titles st)) \<and>
    map n_title ns = (if open_titles st = [] then map incident_title (take 1 (collect_problems e)) else [])"
proof -
  let ?ps = "collect_problems e" and ?t = "se_clock e"
  obtain st1 ns where r: "fold_result (raise_problem sha ?t) ?ps (st, []) = Inr (st1, ns)" "self_ok sha st1"
    "open_titles st1 = (if open_titles st = [] then map pb_title (take 1 ?ps) else open_titles st)"
    "map n_title ns = (if open_titles st = [] then map incident_title (take 1 ?ps) else [])"
    using raise_all_exact [OF assms, of ?t ?ps "[]"] by auto
  let ?st = "fold (clear_incident ?t) (filter (\<lambda>i. inc_title i \<notin> pb_title ` set ?ps) (self_open st1)) st1"
  have c: "self_ok sha ?st" "open_titles ?st = filter (\<lambda>t. t \<in> pb_title ` set ?ps) (open_titles st1)"
    using clear_all [OF r(2)] by (simp_all add: open_titles_def filter_map comp_def)
  have "set (take 1 ?ps) \<subseteq> set ?ps" by (rule set_take_subset)
  then have "filter (\<lambda>t. t \<in> pb_title ` set ?ps) (map pb_title (take 1 ?ps)) = map pb_title (take 1 ?ps)"
    by (auto simp: filter_id_conv)
  then show ?thesis using r c by (simp add: run_self_check_def raise_and_clear_def del: filter.simps take.simps)
qed

definition two_problems :: self_env where
  "two_problems = \<lparr>se_now = 100000, se_start = 0, se_clock = seconds 100000, se_posix = (\<lambda>t. of_int t / 1000000),
     se_hosts = Inr [plain_host 1 ''a''], se_agents = Inr [Some (seconds 99000)], se_syslog = Inr (Some 0),
     se_newest = (\<lambda>_. Inr (Some 10)), se_probes = Inr [], se_jobs = Inr [], se_runs = (\<lambda>_ _. None), se_success = (\<lambda>_. None)\<rparr>"

lemma two_problems_active:
  "active_sources two_problems = Inr [(''ping_checks'', True), (''agent_metrics'', True), (''syslog_messages'', False)]"
  by (simp add: active_sources_def two_problems_def plain_host_def AGENT_ACTIVE_DAYS_def seconds_def days_def)

lemma stale_titles:
  assumes "dget a (src_key s) = Some True" "se_newest e (src_key s) = Inr (Some n)" "n \<noteq> 0" "se_now e - of_int n > of_int (src_max_age s)"
  shows "map pb_title (freshness_problem e a s) = [src_label s @ '': data is stale'']"
  using assms by (simp add: freshness_problem_def last_seen_of_def evaluate_freshness_def mk_problem_def)

lemma sources_concat:
  "concat (map F DATA_SOURCES) = F (DATA_SOURCES ! 0) @ F (DATA_SOURCES ! 1) @ F (DATA_SOURCES ! 2)"
  by (simp add: DATA_SOURCES_def)

lemma two_problems_titles: "map pb_title (collect_problems two_problems) = [''Ping checks: data is stale'', ''Agent metrics: data is stale'']"
proof -
  let ?a = "[(''ping_checks'', True), (''agent_metrics'', True), (''syslog_messages'', False)]"
  have f: "se_newest two_problems k = Inr (Some 10)" "se_now two_problems = 100000" "se_probes two_problems = Inr []" "se_jobs two_problems = Inr []" for k
    by (simp_all add: two_problems_def)
  have "map pb_title (freshness_problem two_problems ?a (DATA_SOURCES ! 0)) = [''Ping checks: data is stale'']"
    using stale_titles [of ?a "DATA_SOURCES ! 0" two_problems 10] by (simp add: DATA_SOURCES_def dget_def f)
  moreover have "map pb_title (freshness_problem two_problems ?a (DATA_SOURCES ! 1)) = [''Agent metrics: data is stale'']"
    using stale_titles [of ?a "DATA_SOURCES ! 1" two_problems 10] by (simp add: DATA_SOURCES_def dget_def f)
  moreover have "freshness_problem two_problems ?a (DATA_SOURCES ! 2) = []" by (simp add: freshness_problem_def DATA_SOURCES_def dget_def)
  moreover have "collect_problems two_problems = concat (map (freshness_problem two_problems ?a) DATA_SOURCES)"
    unfolding collect_problems_def two_problems_active probe_problems_def f by (simp add: job_intervals_def)
  ultimately show ?thesis unfolding sources_concat by simp
qed

lemma self_ok_empty: "self_ok sha (empty_store t)"
  by (simp add: self_ok_def self_open_def empty_store_def store_ok_empty [unfolded empty_store_def])

theorem self_check_exact_witness:
  "\<exists>st' ns. run_self_check id two_problems (empty_store 1) = Inr (st', ns) \<and> self_ok id st' \<and>
     open_titles st' = [''Ping checks: data is stale''] \<and> length ns = 1"
proof -
  let ?ps = "collect_problems two_problems"
  have one: "map pb_title (take 1 ?ps) = [''Ping checks: data is stale'']"
    using arg_cong [OF two_problems_titles, of "take 1"] by (simp add: take_map)
  have e: "open_titles (empty_store 1) = []" by (simp add: open_titles_def self_open_def empty_store_def)
  obtain st' ns where r: "run_self_check id two_problems (empty_store 1) = Inr (st', ns)" "self_ok id st'"
    "open_titles st' = map pb_title (take 1 ?ps)" "map n_title ns = map incident_title (take 1 ?ps)"
    using self_check_exact [OF self_ok_empty [of id 1], where e = two_problems] e by auto
  have "length ns = 1" using arg_cong [OF r(4), of length] arg_cong [OF one, of length] by simp
  then show ?thesis using r(1,2) r(3) [unfolded one] by blast
qed

text \<open>While an incident is open for one problem, a second problem has neither an incident nor a notification.\<close>

lemma second_problem_masked:
  assumes "self_ok sha st" "open_titles st = [t]" "p \<in> set (collect_problems e)" "pb_title p \<noteq> t"
  shows "\<exists>st'. run_self_check sha e st = Inr (st', []) \<and> pb_title p \<notin> set (open_titles st')"
  using self_check_exact [OF assms(1), of e] assms(2,4) by (auto split: if_splits)

text \<open>A stream whose newest datapoint cannot be queried counts as healthy: its open incident is resolved.\<close>

lemma failed_queries_clear:
  assumes "self_ok sha st" "\<forall>k. is_ok (se_newest e k) = False" "se_probes e = Inr []" "se_jobs e = Inr []"
  shows "\<exists>st' ns. run_self_check sha e st = Inr (st', ns) \<and> open_titles st' = []"
proof -
  have l: "\<exists>x. last_seen_of e k = Inl x" for k
    using assms(2) [rule_format, of k] by (cases "se_newest e k") (auto simp: last_seen_of_def)
  have "freshness_problem e a s = []" for a s using l [of "src_key s"] by (auto simp: freshness_problem_def)
  then have "collect_problems e = []" using assms(3,4) by (simp add: collect_problems_def probe_problems_def DATA_SOURCES_def job_intervals_def)
  then show ?thesis using self_check_exact [OF assms(1), of e] by auto
qed

text \<open>Once syslog has been silent for seven days the stream no longer counts as in use.\<close>

lemma long_silence_not_reported:
  assumes "se_syslog e = Inr (Some 0)" "active_sources e = Inr a"
  shows "freshness_problem e a \<lparr>src_key = ''syslog_messages'', src_label = l, src_max_age = m\<rparr> = []"
  using assms by (auto simp: active_sources_def bind_result_Inr_iff freshness_problem_def dget_def)

section \<open>Jobs\<close>

text \<open>
  A job that is instrumented and not excluded is reported exactly if neither the process start nor its last success lies within three of its
  intervals.
\<close>

lemma evaluate_job_iff:
  "evaluate_job name ls now iv start g \<noteq> None \<longleftrightarrow>
     now - start \<ge> iv * g \<and> now - (case ls of Some t \<Rightarrow> if t = 0 then start else t | None \<Rightarrow> start) > iv * g"
  by (auto simp: evaluate_job_def Let_def split: option.split)

lemma job_intervals_entry:
  assumes "distinct (map sj_id jobs)" "j \<in> set jobs" "sj_interval j = Some iv"
  shows "(sj_id j, iv) \<in> set (job_intervals jobs)"
proof -
  have "dget (job_intervals jobs) (sj_id j) = Some iv"
    using assms unfolding job_intervals_def
  proof (induction jobs rule: rev_induct)
    case (snoc x xs)
    then show ?case by (cases "j = x") (auto simp: dict_simps image_iff split: option.splits)
  qed simp
  then show ?thesis by (auto simp: dget_def dest: map_of_SomeD)
qed

lemma find_job: "distinct (map sj_id jobs) \<Longrightarrow> j \<in> set jobs \<Longrightarrow> find (\<lambda>k. sj_id k = sj_id j) (rev jobs) = Some j"
proof (induction jobs rule: rev_induct)
  case (snoc x xs)
  then show ?case by (cases "j = x") (auto simp: image_iff)
qed simp

theorem job_reported_exact:
  assumes "se_jobs e = Inr jobs" "distinct (map sj_id jobs)" "j \<in> set jobs" "sj_interval j = Some iv" "n = metric_name_of_job j"
    and "n \<notin> set JOB_CHECK_EXCLUDE" "instrumented e n"
    and "se_now e - se_start e > 3 * iv" "case se_success e n of None \<Rightarrow> True | Some t \<Rightarrow> t = 0 \<or> se_now e - t > 3 * iv"
  shows "\<exists>p \<in> set (collect_problems e). pb_key p = ''job:'' @ n"
proof -
  have "evaluate_job n (se_success e n) (se_now e) iv (se_start e) JOB_GRACE_FACTOR \<noteq> None"
    unfolding evaluate_job_iff JOB_GRACE_FACTOR_def using assms(8,9) by (auto simp: mult.commute split: option.splits)
  then obtain p where p: "evaluate_job n (se_success e n) (se_now e) iv (se_start e) JOB_GRACE_FACTOR = Some p" by blast
  then have "p \<in> set (job_problem e jobs (sj_id j, iv))"
    using find_job [OF assms(2,3)] assms(5-7) by (simp add: job_problem_def)
  then have "p \<in> set (collect_problems e)"
    using job_intervals_entry [OF assms(2-4)] assms(1) unfolding collect_problems_def by auto
  moreover have "pb_key p = ''job:'' @ n" using p by (auto simp: evaluate_job_def Let_def mk_problem_def split: if_splits option.splits)
  ultimately show ?thesis by blast
qed

end
