(* ===== verification/Float_Round.thy ===== *)
theory Float_Round
  imports Prelude "HOL-Library.Log_Nat"
begin

text \<open>
  Python's floats where their rounding matters: a finite float is the rational number it stands for, and every operation gives the exact result rounded
  to the nearest number with 53 significant bits, ties to the even one (IEEE 754 binary64). Numbers so large that they overflow, or so small
  that they lose bits, do not occur where this is used.
\<close>

definition binade :: "rat \<Rightarrow> int" where
  "binade q =
     (case quotient_of q of (n, d) \<Rightarrow>
        (let l = int (floorlog 2 (nat n)) - int (floorlog 2 (nat d)) in if 2 powi l \<le> q then l else l - 1))"

definition fl :: "rat \<Rightarrow> rat" where
  "fl q = (if q = 0 then 0 else (let u = 2 powi (binade \<bar>q\<bar> - 52) in sgn q * (of_int (round_half_even (\<bar>q\<bar> / u)) * u)))"

lemma floorlog_rat:
  assumes "0 < n"
  shows "2 powi (int (floorlog 2 (nat n)) - 1) \<le> (of_int n :: rat)" and "(of_int n :: rat) < 2 powi int (floorlog 2 (nat n))"
proof -
  let ?k = "floorlog 2 (nat n)"
  have "2 ^ (?k - 1) \<le> nat n \<and> nat n < 2 ^ ?k" using floorlog_bounds [of "nat n" 2] assms by simp
  then have b: "(2 :: int) ^ (?k - 1) \<le> n" "n < 2 ^ ?k"
    using assms by (metis nat_0_le of_nat_le_iff of_nat_numeral of_nat_power order_less_imp_le, metis nat_less_iff nat_0_le of_nat_less_iff of_nat_numeral of_nat_power order_less_imp_le)
  have "0 < ?k" using assms by (simp add: floorlog_def)
  then have k: "int ?k - 1 = int (?k - 1)" by simp
  have "(of_int (2 ^ (?k - 1)) :: rat) \<le> of_int n" "(of_int n :: rat) < of_int (2 ^ ?k)" using b by (simp_all only: of_int_le_iff of_int_less_iff)
  then show "2 powi (int ?k - 1) \<le> (of_int n :: rat)" "(of_int n :: rat) < 2 powi int ?k" unfolding k by simp_all
qed

lemma binade_bounds:
  assumes "0 < q"
  shows "2 powi binade q \<le> q" and "q < 2 powi (binade q + 1)"
proof -
  obtain n d where nd: "quotient_of q = (n, d)" by fastforce
  have q: "q = of_int n / of_int d" and d: "0 < d" using quotient_of_div [OF nd] quotient_of_denom_pos [OF nd] by auto
  have n: "0 < n" using assms d unfolding q by (simp add: zero_less_divide_iff)
  let ?a = "int (floorlog 2 (nat n))" and ?b = "int (floorlog 2 (nat d))"
  note A = floorlog_rat [OF n] and B = floorlog_rat [OF d]
  have dp: "(0 :: rat) < of_int d" using d by simp
  have "q < 2 powi ?a / 2 powi (?b - 1)"
    unfolding q by (rule frac_less) (use A B n in simp_all)
  moreover have "2 powi ?a / 2 powi (?b - 1) = (2 :: rat) powi (?a - (?b - 1))" by (rule power_int_diff [symmetric]) simp
  moreover have "?a - (?b - 1) = ?a - ?b + 1" by simp
  ultimately have up: "q < 2 powi (?a - ?b + 1)" by (simp only:)
  have "2 powi (?a - 1) / 2 powi ?b < q"
    unfolding q by (rule frac_less2) (use A B d in \<open>simp_all\<close>)
  moreover have "2 powi (?a - 1) / 2 powi ?b = (2 :: rat) powi (?a - 1 - ?b)" by (rule power_int_diff [symmetric]) simp
  moreover have "?a - 1 - ?b = ?a - ?b - 1" by simp
  ultimately have lo: "2 powi (?a - ?b - 1) < q" by (simp only:)
  show "2 powi binade q \<le> q" "q < 2 powi (binade q + 1)"
    using up lo by (auto simp: binade_def nd Let_def not_le)
qed

lemma round_half_even_near: "\<bar>of_int (round_half_even x) - x\<bar> \<le> 1 / 2"
proof -
  have near: "\<bar>f - x\<bar> \<le> 1 / 2" if "f \<le> x" "x - f \<le> 1 / 2" for f :: rat using that by linarith
  have near': "\<bar>f + 1 - x\<bar> \<le> 1 / 2" if "1 / 2 \<le> x - f" "x < f + 1" for f :: rat using that by linarith
  have f: "of_int \<lfloor>x\<rfloor> \<le> x" "x < of_int \<lfloor>x\<rfloor> + 1" by linarith+
  consider "x - of_int \<lfloor>x\<rfloor> < 1 / 2" | "1 / 2 < x - of_int \<lfloor>x\<rfloor>" | "x - of_int \<lfloor>x\<rfloor> = 1 / 2" by linarith
  then show ?thesis
  proof cases
    case 1
    then have "round_half_even x = \<lfloor>x\<rfloor>" by (simp add: round_half_even_def Let_def)
    then show ?thesis using near [OF f(1)] 1 by simp
  next
    case 2
    then have "round_half_even x = \<lfloor>x\<rfloor> + 1" by (simp add: round_half_even_def Let_def)
    then show ?thesis using near' [OF _ f(2)] 2 by simp
  next
    case 3
    then have "round_half_even x = \<lfloor>x\<rfloor> \<or> round_half_even x = \<lfloor>x\<rfloor> + 1" by (simp add: round_half_even_def Let_def)
    then show ?thesis using near [OF f(1)] near' [OF _ f(2)] 3 by auto
  qed
qed

lemma fl_pos_error:
  assumes "0 < q"
  shows "\<bar>fl q - q\<bar> \<le> q / 2 ^ 53" and "0 < fl q"
proof -
  let ?u = "2 powi (binade q - 52) :: rat"
  have u: "0 < ?u" by simp
  have f: "fl q = of_int (round_half_even (q / ?u)) * ?u" using assms by (simp add: fl_def Let_def)
  have b: "2 powi binade q = ?u * 2 ^ 52" by (simp add: power_int_diff)
  have "fl q - q = (of_int (round_half_even (q / ?u)) - q / ?u) * ?u" unfolding f using u by (simp add: left_diff_distrib)
  then have "\<bar>fl q - q\<bar> = \<bar>of_int (round_half_even (q / ?u)) - q / ?u\<bar> * ?u" using u by (simp only: abs_mult abs_of_pos)
  also have "\<dots> \<le> 1 / 2 * ?u" by (rule mult_right_mono [OF round_half_even_near]) simp
  also have "\<dots> \<le> q / 2 ^ 53" using binade_bounds(1) [OF assms] unfolding b by simp
  finally show "\<bar>fl q - q\<bar> \<le> q / 2 ^ 53" .
  have "2 ^ 52 \<le> q / ?u" using binade_bounds(1) [OF assms] unfolding b using u by (simp add: pos_le_divide_eq mult.commute)
  then have "2 ^ 52 \<le> round_half_even (q / ?u)" by (intro round_half_even_ge) simp
  then have "0 < round_half_even (q / ?u)" by simp
  then show "0 < fl q" unfolding f using u by simp
qed

lemma fl_zero [simp]: "fl 0 = 0"
  by (simp add: fl_def)

lemma fl_neg: "q < 0 \<Longrightarrow> fl q < 0"
proof -
  assume "q < 0"
  then have "fl q = - fl (- q)" by (simp add: fl_def Let_def)
  then show ?thesis using fl_pos_error(2) [of "- q"] \<open>q < 0\<close> by simp
qed

lemma fl_sign [simp]: "0 < fl q \<longleftrightarrow> 0 < q" "fl q \<le> 0 \<longleftrightarrow> q \<le> 0"
proof -
  consider "q < 0" "fl q < 0" | "q = 0" "fl q = 0" | "0 < q" "0 < fl q" using fl_neg [of q] fl_pos_error(2) [of q] fl_zero by fastforce
  then show "0 < fl q \<longleftrightarrow> 0 < q" "fl q \<le> 0 \<longleftrightarrow> q \<le> 0" by (cases; linarith)+
qed

lemma near_bounds: "\<bar>a - q\<bar> \<le> e \<Longrightarrow> q - e \<le> a" "\<bar>a - q\<bar> \<le> e \<Longrightarrow> a \<le> q + e" for a :: rat
  by linarith+

lemma fl_bounds:
  assumes "0 \<le> q"
  shows "q * (1 - 1 / 2 ^ 53) \<le> fl q" and "fl q \<le> q * (1 + 1 / 2 ^ 53)"
proof -
  have e: "\<bar>fl q - q\<bar> \<le> q / 2 ^ 53" using fl_pos_error(1) [of q] assms by (cases "q = 0") simp_all
  have d: "q * (1 - 1 / 2 ^ 53) = q - q / 2 ^ 53" "q * (1 + 1 / 2 ^ 53) = q + q / 2 ^ 53"
    by (simp_all only: right_diff_distrib distrib_left mult_1_right times_divide_eq_right)
  show "q * (1 - 1 / 2 ^ 53) \<le> fl q" "fl q \<le> q * (1 + 1 / 2 ^ 53)" unfolding d by (rule near_bounds [OF e])+
qed

text \<open>The quotient of two rounded numbers, rounded: three roundings.\<close>

lemma fl_quotient_bounds:
  assumes "0 \<le> b" "0 < s"
  shows "b / s * (1 - 1 / 2 ^ 51) \<le> fl (fl b / fl s)" and "fl (fl b / fl s) \<le> b / s * (1 + 1 / 2 ^ 51)"
proof -
  let ?e = "1 / 2 ^ 53 :: rat"
  have s: "0 < fl s" "s * (1 - ?e) \<le> fl s" "fl s \<le> s * (1 + ?e)" using fl_bounds [of s] assms(2) by simp_all
  have b: "b * (1 - ?e) \<le> fl b" "fl b \<le> b * (1 + ?e)" using fl_bounds [OF assms(1)] by simp_all
  have fb: "0 \<le> fl b" by (rule order_trans [OF _ b(1)]) (use assms(1) in simp)
  have x: "0 \<le> b / s" using assms by simp
  have "fl b / fl s \<le> b * (1 + ?e) / (s * (1 - ?e))" by (rule frac_le) (use assms b s in simp_all)
  also have "\<dots> = b / s * ((1 + ?e) / (1 - ?e))" by simp
  finally have up: "fl b / fl s \<le> b / s * ((1 + ?e) / (1 - ?e))" .
  have "b / s * ((1 - ?e) / (1 + ?e)) = b * (1 - ?e) / (s * (1 + ?e))" by simp
  also have "\<dots> \<le> fl b / fl s" by (rule frac_le) (use assms b s fb in simp_all)
  finally have lo: "b / s * ((1 - ?e) / (1 + ?e)) \<le> fl b / fl s" .
  have q: "0 \<le> fl b / fl s" using fb s by simp
  have "fl (fl b / fl s) \<le> fl b / fl s * (1 + ?e)" by (rule fl_bounds(2) [OF q])
  also have "\<dots> \<le> b / s * ((1 + ?e) / (1 - ?e)) * (1 + ?e)" by (rule mult_right_mono [OF up]) simp
  also have "\<dots> = b / s * ((1 + ?e) / (1 - ?e) * (1 + ?e))" by simp
  also have "\<dots> \<le> b / s * (1 + 1 / 2 ^ 51)" by (rule mult_left_mono [OF _ x]) simp
  finally show "fl (fl b / fl s) \<le> b / s * (1 + 1 / 2 ^ 51)" .
  have "b / s * (1 - 1 / 2 ^ 51) \<le> b / s * ((1 - ?e) / (1 + ?e) * (1 - ?e))" by (rule mult_left_mono [OF _ x]) simp
  also have "\<dots> = b / s * ((1 - ?e) / (1 + ?e)) * (1 - ?e)" by simp
  also have "\<dots> \<le> fl b / fl s * (1 - ?e)" by (rule mult_right_mono [OF lo]) simp
  also have "\<dots> \<le> fl (fl b / fl s)" by (rule fl_bounds(1) [OF q])
  finally show "b / s * (1 - 1 / 2 ^ 51) \<le> fl (fl b / fl s)" .
qed

text \<open>Evaluation: a number of the binade \<open>k\<close>, and integers of at most 53 bits, which are exact.\<close>

lemma powi_less: "(2 :: rat) powi a < 2 powi b \<Longrightarrow> a < b"
  using power_int_increasing [of b a "2 :: rat"] by (cases "a < b") (auto simp: not_less)

lemma binade_unique:
  assumes "2 powi k \<le> q" "q < 2 powi (k + 1)"
  shows "binade q = k"
proof -
  have "(0 :: rat) < 2 powi k" by simp
  then have q: "0 < q" using assms(1) by (rule order_less_le_trans)
  note b = binade_bounds [OF q]
  have "(2 :: rat) powi binade q < 2 powi (k + 1)" "(2 :: rat) powi k < 2 powi (binade q + 1)" using b assms by (meson order_le_less_trans)+
  from this [THEN powi_less] show ?thesis by simp
qed

lemma fl_at: "2 powi k \<le> q \<Longrightarrow> q < 2 powi (k + 1) \<Longrightarrow> fl q = of_int (round_half_even (q / 2 powi (k - 52))) * 2 powi (k - 52)"
proof -
  assume k: "2 powi k \<le> q" "q < 2 powi (k + 1)"
  have "(0 :: rat) < 2 powi k" by simp
  then have "0 < q" using k(1) by (rule order_less_le_trans)
  then show ?thesis using binade_unique [OF k] by (simp add: fl_def Let_def)
qed

lemma round_half_even_eq:
  assumes "\<bar>x - of_int m\<bar> < 1 / 2"
  shows "round_half_even x = m"
proof -
  have "\<bar>of_int (round_half_even x) - (of_int m :: rat)\<bar> < 1" using assms round_half_even_near [of x] by linarith
  then have "\<bar>of_int (round_half_even x - m) :: rat\<bar> < of_int 1" by simp
  then have "\<bar>round_half_even x - m\<bar> < 1" by (simp only: of_int_abs [symmetric] of_int_less_iff)
  then show ?thesis by simp
qed

lemma fl_value:
  assumes "2 powi k \<le> q" "q < 2 powi (k + 1)" "\<bar>q * 2 powi (52 - k) - of_int m\<bar> < 1 / 2"
  shows "fl q = of_int m / 2 powi (52 - k)"
proof -
  have "(2 :: rat) powi (k - 52) = inverse (2 powi (52 - k))" using power_int_minus [of "2 :: rat" "52 - k"] by simp
  then have u: "q / 2 powi (k - 52) = q * 2 powi (52 - k)" "x * 2 powi (k - 52) = x / 2 powi (52 - k)" for x :: rat
    by (simp_all add: divide_inverse)
  show ?thesis unfolding fl_at [OF assms(1,2)] u using round_half_even_eq [OF assms(3)] by simp
qed

lemma round_half_even_int: "round_half_even (of_int n) = n"
  by (simp add: round_half_even_def)

lemma fl_nat:
  assumes "0 < n" "n < 2 ^ 53"
  shows "fl (of_int n) = of_int n"
proof -
  let ?k = "binade (of_int n)"
  have n: "(0 :: rat) < of_int n" using assms by simp
  have "(2 :: rat) powi ?k \<le> of_int n" by (rule binade_bounds(1) [OF n])
  also have "(of_int n :: rat) < of_int (2 ^ 53)" using assms(2) by (simp only: of_int_less_iff)
  also have "(of_int (2 ^ 53) :: rat) = 2 powi 53" by simp
  finally have "?k < 53" by (rule powi_less)
  then have "(2 :: rat) powi (52 - ?k) = of_int (2 ^ nat (52 - ?k))" by (simp add: power_int_def)
  moreover have "of_int n / 2 powi (?k - 52) = of_int n * (2 :: rat) powi (52 - ?k)"
    using power_int_minus [of "2 :: rat" "?k - 52"] by (simp add: field_simps)
  ultimately have "of_int n / 2 powi (?k - 52) = (of_int (n * 2 ^ nat (52 - ?k)) :: rat)" by simp
  then have "of_int (round_half_even (of_int n / 2 powi (?k - 52))) = (of_int n :: rat) / 2 powi (?k - 52)" by (simp only: round_half_even_int)
  then show ?thesis using n by (simp add: fl_def Let_def)
qed

end
