(* ===== verification/Bandwidth.thy ===== *)
theory Bandwidth
  imports Float_Round "HOL-Library.Multiset"
begin

text \<open>
  Bandwidth (\<^verbatim>\<open>backend/services/bandwidth.py\<close> and its readers in \<^verbatim>\<open>backend/services/clickhouse_client.py\<close>): interface counters of
  agents and Proxmox nodes become rates against the previous sample, UniFi reports rates itself, and the dashboard reads totals and top
  talkers from the latest sample of each interface. The table \<open>bandwidth_metrics\<close> is a list of rows in the order of insertion; an absent
  key of a payload is \<open>None\<close>. Seconds and quotients are rounded as floats are. The table keeps milliseconds; that it forgets rows after seven
  days is left out.
\<close>

section \<open>Samples\<close>

record bw_row =
  bw_tenant :: int
  bw_timestamp :: datetime
  bw_source_type :: string
  bw_source_id :: string
  bw_source_name :: string
  bw_interface :: string
  bw_rx_bytes :: int
  bw_tx_bytes :: int
  bw_rx_rate :: int
  bw_tx_rate :: int

definition calc_rate_bps :: "int option \<Rightarrow> int option \<Rightarrow> rat \<Rightarrow> int" where
  "calc_rate_bps prev_bytes curr_bytes delta_seconds =
     (case prev_bytes of
        None \<Rightarrow> 0
      | Some p \<Rightarrow> (case curr_bytes of
                    None \<Rightarrow> 0
                  | Some c \<Rightarrow> if delta_seconds \<le> 0 \<or> c - p < 0 then 0 else trunc (fl (fl (of_int ((c - p) * 8)) / delta_seconds))))"

text \<open>\<open>tenant_clause\<close>: the rows of the current tenant, or all of them in a system scope (\<open>None\<close>).\<close>

definition visible :: "int option \<Rightarrow> bw_row \<Rightarrow> bool" where
  "visible ctx r \<longleftrightarrow> (case ctx of None \<Rightarrow> True | Some t \<Rightarrow> bw_tenant r = t)"

definition of_interface :: "string \<Rightarrow> string \<Rightarrow> string \<Rightarrow> bw_row \<Rightarrow> bool" where
  "of_interface st sid iface r \<longleftrightarrow> bw_source_type r = st \<and> bw_source_id r = sid \<and> bw_interface r = iface"

text \<open>\<^verbatim>\<open>ORDER BY timestamp DESC LIMIT 1\<close>; among rows of one time the database chooses, here the first.\<close>

definition newest_row :: "bw_row list \<Rightarrow> bw_row option" where
  "newest_row rs = (case sort_key (\<lambda>r. - bw_timestamp r) rs of [] \<Rightarrow> None | r # _ \<Rightarrow> Some r)"

definition get_previous_bandwidth_sample :: "int option \<Rightarrow> string \<Rightarrow> string \<Rightarrow> string \<Rightarrow> bw_row list \<Rightarrow> bw_row option" where
  "get_previous_bandwidth_sample ctx st sid iface table = newest_row (filter (\<lambda>r. visible ctx r \<and> of_interface st sid iface r) table)"

text \<open>\<open>up\<close>: whether the database answers.\<close>

definition rate_from_history ::
    "bool \<Rightarrow> int option \<Rightarrow> string \<Rightarrow> string \<Rightarrow> string \<Rightarrow> int \<Rightarrow> int \<Rightarrow> datetime \<Rightarrow> bw_row list \<Rightarrow> int \<times> int" where
  "rate_from_history up ctx st sid iface curr_rx curr_tx ts table =
     (if \<not> up then (0, 0)
      else (case get_previous_bandwidth_sample ctx st sid iface table of
              None \<Rightarrow> (0, 0)
            | Some p \<Rightarrow> (let delta = fl (total_seconds (ts - bw_timestamp p)) in
                         (calc_rate_bps (Some (bw_rx_bytes p)) (Some curr_rx) delta, calc_rate_bps (Some (bw_tx_bytes p)) (Some curr_tx) delta))))"

section \<open>Extraction\<close>

text \<open>What the extractions share: the source, its tenant, the time, and the database.\<close>

record bw_source =
  sr_tenant :: int
  sr_type :: string
  sr_id :: string
  sr_name :: string
  sr_time :: datetime

definition counter_row :: "bool \<Rightarrow> int option \<Rightarrow> bw_source \<Rightarrow> bw_row list \<Rightarrow> string \<times> int option \<times> int option \<Rightarrow> bw_row list" where
  "counter_row up ctx s table c =
     (case c of (iface, rx, tx) \<Rightarrow>
        if rx = None \<and> tx = None then []
        else (let r = (case rx of None \<Rightarrow> 0 | Some n \<Rightarrow> n); t = (case tx of None \<Rightarrow> 0 | Some n \<Rightarrow> n);
                  (rx_rate, tx_rate) = rate_from_history up ctx (sr_type s) (sr_id s) iface r t (sr_time s) table
              in [\<lparr>bw_tenant = sr_tenant s, bw_timestamp = sr_time s, bw_source_type = sr_type s, bw_source_id = sr_id s, bw_source_name = sr_name s,
                   bw_interface = iface, bw_rx_bytes = r, bw_tx_bytes = t, bw_rx_rate = rx_rate, bw_tx_rate = tx_rate\<rparr>]))"

text \<open>The column is \<^verbatim>\<open>DateTime64(3)\<close>. A failed insert is logged: the count is returned all the same.\<close>

definition to_milliseconds :: "datetime \<Rightarrow> datetime" where
  "to_milliseconds t = t div 1000 * 1000"

definition insert_rows :: "bool \<Rightarrow> bw_row list \<Rightarrow> bw_row list \<Rightarrow> bw_row list \<times> nat" where
  "insert_rows up rows table = (if up then table @ map (\<lambda>r. r\<lparr>bw_timestamp := to_milliseconds (bw_timestamp r)\<rparr>) rows else table, length rows)"

record agent_iface =
  ai_name :: "string option"
  ai_interface :: "string option"
  ai_rx :: "int option"
  ai_tx :: "int option"

definition iface_name :: "agent_iface \<Rightarrow> string" where
  "iface_name i =
     (let alt = (case ai_interface i of None \<Rightarrow> ''unknown'' | Some n \<Rightarrow> n) in
      case ai_name i of None \<Rightarrow> alt | Some n \<Rightarrow> if n = [] then alt else n)"

definition agent_source :: "int \<Rightarrow> int \<Rightarrow> string \<Rightarrow> datetime \<Rightarrow> bw_source" where
  "agent_source tenant agent_id name ts =
     \<lparr>sr_tenant = tenant, sr_type = ''agent'', sr_id = show_int agent_id, sr_name = name, sr_time = ts\<rparr>"

definition extract_agent_bandwidth ::
    "bool \<Rightarrow> int option \<Rightarrow> int \<Rightarrow> int \<Rightarrow> string \<Rightarrow> datetime \<Rightarrow> agent_iface list \<Rightarrow> bw_row list \<Rightarrow> bw_row list \<times> nat" where
  "extract_agent_bandwidth up ctx tenant agent_id name ts ifaces table =
     insert_rows up (concat (map (\<lambda>i. counter_row up ctx (agent_source tenant agent_id name ts) table (iface_name i, ai_rx i, ai_tx i)) ifaces)) table"

record px_node =
  pn_node :: "string option"
  pn_name :: "string option"
  pn_netin :: "int option"
  pn_netout :: "int option"

record px_vm =
  pv_vmid :: "string option"
  pv_id :: "string option"
  pv_name :: "string option"
  pv_netin :: "int option"
  pv_netout :: "int option"

definition node_label :: "px_node \<Rightarrow> string" where
  "node_label n = (case pn_node n of Some x \<Rightarrow> x | None \<Rightarrow> (case pn_name n of Some x \<Rightarrow> x | None \<Rightarrow> ''unknown''))"

definition vm_label :: "string \<Rightarrow> px_vm \<Rightarrow> string" where
  "vm_label vm_type v =
     (let vmid = (case pv_vmid v of Some x \<Rightarrow> x | None \<Rightarrow> (case pv_id v of Some x \<Rightarrow> x | None \<Rightarrow> ''?''));
          name = (case pv_name v of Some x \<Rightarrow> x | None \<Rightarrow> vm_type @ ''-'' @ vmid)
      in vm_type @ ''/'' @ vmid @ ''-'' @ name)"

text \<open>The lists under the keys \<open>nodes\<close>, \<open>qemu\<close> and \<open>lxc\<close> of the snapshot.\<close>

definition extract_proxmox_bandwidth ::
    "bool \<Rightarrow> int option \<Rightarrow> int \<Rightarrow> int \<Rightarrow> string \<Rightarrow> datetime \<Rightarrow> px_node list \<Rightarrow> px_vm list \<Rightarrow> px_vm list \<Rightarrow> bw_row list \<Rightarrow> bw_row list \<times> nat" where
  "extract_proxmox_bandwidth up ctx tenant config_id name ts nodes qemu lxc table =
     (let s = \<lparr>sr_tenant = tenant, sr_type = ''proxmox'', sr_id = show_int config_id, sr_name = name, sr_time = ts\<rparr>;
          vms = (\<lambda>ty vs. concat (map (\<lambda>v. counter_row up ctx s table (vm_label ty v, pv_netin v, pv_netout v)) vs))
      in insert_rows up
           (concat (map (\<lambda>n. counter_row up ctx s table (''node/'' @ node_label n, pn_netin n, pn_netout n)) nodes) @ vms ''qemu'' qemu @ vms ''lxc'' lxc) table)"

text \<open>A UniFi device or port: the rates under the names with an underscore and with a hyphen.\<close>

record unifi_rates =
  ur_rx :: "int option"
  ur_rx_alt :: "int option"
  ur_tx :: "int option"
  ur_tx_alt :: "int option"

record unifi_port =
  up_idx :: "string option"
  up_name :: "string option"
  up_rates :: unifi_rates

record unifi_device =
  ud_mac :: "string option"
  ud_id :: "string option"
  ud_dev_name :: "string option"
  ud_rates :: unifi_rates
  ud_ports :: "unifi_port list"

text \<open>\<^verbatim>\<open>a or b\<close>: a rate of 0 gives way to the alternative.\<close>

definition rate_or :: "int option \<Rightarrow> int option \<Rightarrow> int option" where
  "rate_or a b = (case a of None \<Rightarrow> b | Some n \<Rightarrow> if n = 0 then b else a)"

definition rate_row :: "bw_source \<Rightarrow> string \<Rightarrow> unifi_rates \<Rightarrow> bw_row list" where
  "rate_row s iface u =
     (let rx = rate_or (ur_rx u) (ur_rx_alt u); tx = rate_or (ur_tx u) (ur_tx_alt u); v = (\<lambda>r. case r of None \<Rightarrow> 0 | Some n \<Rightarrow> n) in
      if rx = None \<and> tx = None then []
      else [\<lparr>bw_tenant = sr_tenant s, bw_timestamp = sr_time s, bw_source_type = sr_type s, bw_source_id = sr_id s, bw_source_name = sr_name s,
             bw_interface = iface, bw_rx_bytes = 0, bw_tx_bytes = 0, bw_rx_rate = v rx * 8, bw_tx_rate = v tx * 8\<rparr>])"

definition device_label :: "unifi_device \<Rightarrow> string" where
  "device_label d =
     (case ud_dev_name d of
        Some n \<Rightarrow> n
      | None \<Rightarrow> (case ud_mac d of Some m \<Rightarrow> m | None \<Rightarrow> (case ud_id d of Some i \<Rightarrow> i | None \<Rightarrow> ''unknown'')))"

definition port_label :: "unifi_port \<Rightarrow> string" where
  "port_label p =
     (case up_name p of Some n \<Rightarrow> n | None \<Rightarrow> ''port'' @ (case up_idx p of Some i \<Rightarrow> i | None \<Rightarrow> ''?''))"

definition extract_unifi_bandwidth ::
    "bool \<Rightarrow> int \<Rightarrow> int \<Rightarrow> string \<Rightarrow> datetime \<Rightarrow> unifi_device list \<Rightarrow> bw_row list \<Rightarrow> bw_row list \<times> nat" where
  "extract_unifi_bandwidth up tenant config_id name ts devices table =
     (let s = \<lparr>sr_tenant = tenant, sr_type = ''unifi'', sr_id = show_int config_id, sr_name = name, sr_time = ts\<rparr> in
      insert_rows up
        (concat (map (\<lambda>d. rate_row s (''device/'' @ device_label d) (ud_rates d) @
                          concat (map (\<lambda>p. rate_row s (''device/'' @ device_label d @ ''/'' @ port_label p) (up_rates p)) (ud_ports d))) devices)) table)"

section \<open>Reading\<close>

definition hours :: "int \<Rightarrow> int" where "hours n = n * 3600 * us_per_second"

definition given :: "string option \<Rightarrow> string \<Rightarrow> bool" where
  "given f v \<longleftrightarrow> (case f of None \<Rightarrow> True | Some x \<Rightarrow> x = [] \<or> v = x)"

definition get_bandwidth_history ::
    "int option \<Rightarrow> datetime \<Rightarrow> string option \<Rightarrow> string option \<Rightarrow> string option \<Rightarrow> int \<Rightarrow> nat \<Rightarrow> bw_row list \<Rightarrow> bw_row list" where
  "get_bandwidth_history ctx now st sid iface hs limit table =
     take limit (sort_key bw_timestamp (filter (\<lambda>r. visible ctx r \<and> bw_timestamp r \<ge> now - hours hs \<and>
        given st (bw_source_type r) \<and> given sid (bw_source_id r) \<and> given iface (bw_interface r)) table))"

text \<open>The key of the group; \<^verbatim>\<open>argMax\<close> takes the newest row of a group.\<close>

definition bw_key :: "bw_row \<Rightarrow> string \<times> string \<times> string" where
  "bw_key r = (bw_source_type r, bw_source_id r, bw_interface r)"

definition get_latest_bandwidth_per_iface :: "int option \<Rightarrow> datetime \<Rightarrow> int \<Rightarrow> bw_row list \<Rightarrow> bw_row list" where
  "get_latest_bandwidth_per_iface ctx now since_hours table =
     (let rows = filter (\<lambda>r. visible ctx r \<and> bw_timestamp r \<ge> now - hours since_hours) table in
      concat (map (\<lambda>k. case newest_row (filter (\<lambda>r. bw_key r = k) rows) of None \<Rightarrow> [] | Some r \<Rightarrow> [r]) (remdups (map bw_key rows))))"

definition total_rate :: "bw_row \<Rightarrow> int" where
  "total_rate r = bw_rx_rate r + bw_tx_rate r"

text \<open>\<^verbatim>\<open>sorted(..., reverse=True)\<close> keeps the order of equal elements.\<close>

definition by_rate :: "bw_row list \<Rightarrow> bw_row list" where
  "by_rate rows = sort_key (\<lambda>r. - total_rate r) rows"

record bw_bucket =
  bb_type :: string
  bb_id :: string
  bb_rx :: int
  bb_tx :: int
  bb_count :: nat

definition bucket_step :: "bw_row \<Rightarrow> (string, bw_bucket) dict \<Rightarrow> (string, bw_bucket) dict" where
  "bucket_step r d =
     (let k = bw_source_type r @ '':'' @ bw_source_id r;
          b = dget_or d k \<lparr>bb_type = bw_source_type r, bb_id = bw_source_id r, bb_rx = 0, bb_tx = 0, bb_count = 0\<rparr> in
      dset d k (b\<lparr>bb_rx := bb_rx b + bw_rx_rate r, bb_tx := bb_tx b + bw_tx_rate r, bb_count := bb_count b + 1\<rparr>))"

record bw_summary =
  bm_total_rx :: int
  bm_total_tx :: int
  bm_interfaces :: nat
  bm_top :: "bw_row list"
  bm_by_source :: "bw_bucket list"

definition iface_label :: "string \<Rightarrow> string" where
  "iface_label name = (if startswith name ''device/'' then drop 7 name else name)"

definition top_entry :: "bw_row \<Rightarrow> bw_row" where
  "top_entry r = r\<lparr>bw_source_name := (if bw_source_name r = [] then bw_source_id r else bw_source_name r), bw_interface := iface_label (bw_interface r)\<rparr>"

definition get_bandwidth_summary :: "int option \<Rightarrow> datetime \<Rightarrow> bw_row list \<Rightarrow> bw_summary" where
  "get_bandwidth_summary ctx now table =
     (let latest = get_latest_bandwidth_per_iface ctx now 1 table in
      \<lparr>bm_total_rx = sum_list (map bw_rx_rate latest), bm_total_tx = sum_list (map bw_tx_rate latest), bm_interfaces = length latest,
       bm_top = map top_entry (take 20 (by_rate latest)), bm_by_source = map snd (fold bucket_step latest [])\<rparr>)"

definition display_name :: "bw_row \<Rightarrow> string" where
  "display_name r =
     (let name = (if bw_source_name r = [] then bw_source_id r else bw_source_name r) in
      if bw_source_type r = ''agent'' then name @ '' ('' @ str_replace ''total'' ''all'' (bw_interface r) @ '')''
      else name @ '' / '' @ bw_interface r)"

definition get_bandwidth_interfaces :: "int option \<Rightarrow> datetime \<Rightarrow> bw_row list \<Rightarrow> (bw_row \<times> string) list" where
  "get_bandwidth_interfaces ctx now table =
     map (\<lambda>r. (r, display_name r)) (by_rate (get_latest_bandwidth_per_iface ctx now 1 table))"

section \<open>Rates\<close>










lemma small_fl [simp]: "fl 4800 = 4800" "fl 60 = 60" "fl 80 = 80"
  using fl_nat [of 4800] fl_nat [of 60] fl_nat [of 80] by simp_all


text \<open>29952 bytes in 29.952 seconds are 8000 bits per second; the rounding loses one of them.\<close>

lemma rounding_loses_one: "calc_rate_bps (Some 0) (Some 29952) (fl (total_seconds 29952000)) = 7999"
proof -
  have s: "total_seconds 29952000 = 29952 / 1000" by code_simp
  have d: "fl (29952 / 1000) = 8430738502437569 / 281474976710656"
    using fl_value [of 4 "29952 / 1000" 8430738502437569] by simp
  have b: "fl 239616 = 239616" using fl_nat [of 239616] by simp
  have q: "fl (239616 / (8430738502437569 / 281474976710656)) = 8796093022207999 / 1099511627776"
    using fl_value [of 12 "239616 / (8430738502437569 / 281474976710656)" 8796093022207999] by simp
  have "calc_rate_bps (Some 0) (Some 29952) (fl (total_seconds 29952000)) = trunc (fl (fl 239616 / fl (29952 / 1000)))"
    unfolding calc_rate_bps_def s by simp
  moreover have "\<lfloor>8796093022207999 / 1099511627776 :: rat\<rfloor> = 7999" by (rule floor_unique) simp_all
  ultimately show ?thesis unfolding b d q by (simp add: trunc_def)
qed

section \<open>The dashboard\<close>

lemma sum_field_dset:
  "dict_ok d \<Longrightarrow> sum_list (map f (map snd (dset d k v))) = sum_list (map f (map snd d)) - (case dget d k of None \<Rightarrow> 0 | Some w \<Rightarrow> f w) + (f v :: int)"
proof (induction d k v rule: dset.induct)
  case (2 k' v' d k v)
  then show ?case by (auto simp: dget_Cons dict_ok_def dkeys_def)
qed simp

lemma buckets_sum:
  assumes "dict_ok d"
  shows "dict_ok (fold bucket_step rows d) \<and>
    sum_list (map bb_rx (map snd (fold bucket_step rows d))) = sum_list (map bb_rx (map snd d)) + sum_list (map bw_rx_rate rows) \<and>
    sum_list (map bb_tx (map snd (fold bucket_step rows d))) = sum_list (map bb_tx (map snd d)) + sum_list (map bw_tx_rate rows) \<and>
    sum_list (map (int \<circ> bb_count) (map snd (fold bucket_step rows d))) = sum_list (map (int \<circ> bb_count) (map snd d)) + int (length rows)"
  using assms
proof (induction rows arbitrary: d)
  case (Cons r rows)
  have ok: "dict_ok (bucket_step r d)" using Cons.prems by (auto simp: bucket_step_def Let_def)
  have "sum_list (map bb_rx (map snd (bucket_step r d))) = sum_list (map bb_rx (map snd d)) + bw_rx_rate r"
    "sum_list (map bb_tx (map snd (bucket_step r d))) = sum_list (map bb_tx (map snd d)) + bw_tx_rate r"
    "sum_list (map (int \<circ> bb_count) (map snd (bucket_step r d))) = sum_list (map (int \<circ> bb_count) (map snd d)) + 1"
    using Cons.prems unfolding bucket_step_def Let_def by (subst sum_field_dset; simp add: dget_or_def split: option.split)+
  then show ?case using Cons.IH [OF ok] by (simp add: comp_def)
qed simp

lemma sorted_take_top:
  assumes "x \<in> set (drop n (by_rate rows))" "y \<in> set (take n (by_rate rows))"
  shows "total_rate x \<le> total_rate y"
proof -
  have "sorted (map (\<lambda>r. - total_rate r) (take n (by_rate rows) @ drop n (by_rate rows)))" by (simp add: by_rate_def)
  then show ?thesis using assms unfolding map_append sorted_append by auto
qed

text \<open>
  The totals of the dashboard are the sums over its sources, every interface is counted once, and no interface that is left out of the top
  talkers is faster than one that is shown.
\<close>

theorem summary_consistent:
  fixes ctx :: "int option" and now :: datetime and table :: "bw_row list"
  defines "s \<equiv> get_bandwidth_summary ctx now table" and "latest \<equiv> get_latest_bandwidth_per_iface ctx now 1 table"
  shows "sum_list (map bb_rx (bm_by_source s)) = bm_total_rx s \<and> sum_list (map bb_tx (bm_by_source s)) = bm_total_tx s \<and>
    sum_list (map (int \<circ> bb_count) (bm_by_source s)) = int (bm_interfaces s) \<and>
    length (bm_top s) = min 20 (length latest) \<and>
    (\<exists>shown rest. mset latest = mset shown + mset rest \<and> bm_top s = map top_entry shown \<and>
       {(x, y). x \<in> set rest \<and> y \<in> set shown} \<subseteq> {(x, y). total_rate x \<le> total_rate y})"
proof -
  have b: "sum_list (map bb_rx (bm_by_source s)) = bm_total_rx s" "sum_list (map bb_tx (bm_by_source s)) = bm_total_tx s"
    "sum_list (map (int \<circ> bb_count) (bm_by_source s)) = int (bm_interfaces s)"
    using buckets_sum [of "[]" latest] unfolding s_def get_bandwidth_summary_def Let_def latest_def by (simp_all add: comp_def)
  have "mset latest = mset (take 20 (by_rate latest)) + mset (drop 20 (by_rate latest))"
    by (metis append_take_drop_id by_rate_def mset_append mset_sort)
  moreover have "bm_top s = map top_entry (take 20 (by_rate latest))" by (simp add: s_def get_bandwidth_summary_def Let_def latest_def)
  moreover have "length (by_rate latest) = length latest" by (simp add: by_rate_def)
  ultimately show ?thesis using b sorted_take_top [of _ 20 latest] by (intro conjI exI [of _ "take 20 (by_rate latest)"] exI [of _ "drop 20 (by_rate latest)"]) auto
qed

text \<open>An idle UniFi port writes no sample, so its last rate stays the latest one for an hour.\<close>

lemma idle_port_not_recorded:
  "rate_row s iface \<lparr>ur_rx = Some 0, ur_rx_alt = None, ur_tx = Some 0, ur_tx_alt = None\<rparr> = []"
  by (simp add: rate_row_def rate_or_def)

text \<open>A chart with more samples than the limit shows the oldest ones and not the current traffic.\<close>

lemma history_drops_newest:
  assumes "x \<in> set (get_bandwidth_history ctx now st sid iface hs limit table)" "y \<in> set table"
    "visible ctx y" "bw_timestamp y \<ge> now - hours hs" "given st (bw_source_type y)" "given sid (bw_source_id y)" "given iface (bw_interface y)"
    "y \<notin> set (get_bandwidth_history ctx now st sid iface hs limit table)"
  shows "bw_timestamp x \<le> bw_timestamp y"
proof -
  define f where "f = filter (\<lambda>r. visible ctx r \<and> bw_timestamp r \<ge> now - hours hs \<and>
        given st (bw_source_type r) \<and> given sid (bw_source_id r) \<and> given iface (bw_interface r)) table"
  define s where "s = sort_key bw_timestamp f"
  have h: "get_bandwidth_history ctx now st sid iface hs limit table = take limit s" by (simp only: get_bandwidth_history_def s_def f_def)
  have "y \<in> set f" unfolding f_def using assms(2-7) by simp
  then have "y \<in> set (take limit s @ drop limit s)" by (simp only: append_take_drop_id s_def set_sort)
  then have "y \<in> set (drop limit s)" using assms(8) unfolding h set_append by blast
  moreover have "sorted (map bw_timestamp (take limit s) @ map bw_timestamp (drop limit s))"
    by (simp only: map_append [symmetric] append_take_drop_id s_def sorted_sort_key)
  ultimately show ?thesis using assms(1) unfolding h sorted_append set_map by blast
qed

end
