(* ===== verification/Ping_Cycle.thy ===== *)
theory Ping_Cycle
  imports Maintenance Probes Json_Print Interfaces "HOL-Library.List_Lexorder"
begin

text \<open>
  One cycle of the ping checks (\<^verbatim>\<open>run_ping_checks\<close> of \<^verbatim>\<open>backend/scheduler.py\<close>): expired maintenance is cleared, hosts in maintenance or
  behind a probe are left out, hosts of an agent are judged by its last report, the others are checked, the error flag of their service checks is
  latched with hysteresis, and outages and recoveries are notified after a grace period. The memory of the process is explicit state. What a check of
  a host returns, the previous results and the setting are arguments; the hosts do not change under a cycle.
\<close>

section \<open>State\<close>

record check_target = ping_host +
  ct_tenant :: int
  ct_source :: string

record check_result =
  cr_online :: bool
  cr_port_error :: bool
  cr_latency :: "pyfloat option"
  cr_detail :: "(string, json) dict"
  cr_errors :: "(string, json) dict"

record ping_mem =
  pm_fail :: "(int, nat) dict"
  pm_pass :: "(int, nat) dict"
  pm_offline :: "(int, datetime) dict"
  pm_notified :: "int list"

record ping_row =
  pr_tenant :: int
  pr_time :: datetime
  pr_host :: int
  pr_host_name :: string
  pr_success :: bool
  pr_latency :: "pyfloat option"

record ping_notice =
  pn_title :: string
  pn_body :: string
  pn_severity :: string

text \<open>What a cycle sees. \<open>pv_prev\<close>: the last recorded result per host, an error where the lookup raises.\<close>

record ping_env =
  pv_start :: datetime
  pv_tz :: tzdb
  pv_windows :: "window_spec list"
  pv_agents :: "(string option \<times> datetime option) list"
  pv_agent_time :: datetime
  pv_prev :: "(int, bool) dict result"
  pv_check :: "check_target \<Rightarrow> check_result"
  pv_now :: datetime
  pv_grace :: string
  pv_frepr :: "pyfloat \<Rightarrow> string"

section \<open>Which hosts are checked\<close>

definition clear_expired :: "datetime \<Rightarrow> check_target \<Rightarrow> check_target" where
  "clear_expired now h =
     (if maintenance h \<and> (case maintenance_until h of None \<Rightarrow> False | Some t \<Rightarrow> t \<le> now)
      then h\<lparr>maintenance := False, maintenance_until := None\<rparr> else h)"

definition host_part :: "check_target \<Rightarrow> ping_host" where
  "host_part h = ping_host.truncate h"

definition checked_targets :: "ping_env \<Rightarrow> check_target list \<Rightarrow> check_target list" where
  "checked_targets e hosts =
     (let hs = filter enabled hosts; skip = maintenance_ids (pv_tz e) (map host_part hs) (pv_start e) (pv_windows e) in
      filter (\<lambda>h. probe_id h = None) (filter (\<lambda>h. host_id h \<notin> skip) hs))"

section \<open>Hosts of an agent\<close>

definition note_seen :: "string option \<times> datetime option \<Rightarrow> (string, datetime) dict \<Rightarrow> (string, datetime) dict" where
  "note_seen a d =
     (case snd a of
        None \<Rightarrow> d
      | Some t \<Rightarrow> (let key = str_lower (case fst a of None \<Rightarrow> [] | Some n \<Rightarrow> n) in
                   case dget d key of None \<Rightarrow> dset d key t | Some u \<Rightarrow> if t > u then dset d key t else d))"

definition last_seen_by_name :: "string set \<Rightarrow> (string option \<times> datetime option) list \<Rightarrow> (string, datetime) dict" where
  "last_seen_by_name names agents =
     fold note_seen (filter (\<lambda>a. case fst a of None \<Rightarrow> False | Some n \<Rightarrow> str_lower n \<in> names) agents) []"

definition agent_ping_row :: "datetime \<Rightarrow> (string, datetime) dict \<Rightarrow> check_target \<Rightarrow> ping_row" where
  "agent_ping_row now seen h =
     (let up = (case dget seen (str_lower (host_name h)) of None \<Rightarrow> False | Some t \<Rightarrow> total_seconds (now - t) < 120) in
      \<lparr>pr_tenant = ct_tenant h, pr_time = now, pr_host = host_id h, pr_host_name = host_name h, pr_success = up,
       pr_latency = (if up then Some (Fin 0) else None)\<rparr>)"

section \<open>The error flag\<close>

definition PORT_ERROR_SET_THRESHOLD :: nat where "PORT_ERROR_SET_THRESHOLD = 3"
definition PORT_ERROR_CLEAR_THRESHOLD :: nat where "PORT_ERROR_CLEAR_THRESHOLD = 2"

definition reset_port_error_state :: "int \<Rightarrow> ping_mem \<Rightarrow> ping_mem" where
  "reset_port_error_state hid m = m\<lparr>pm_fail := ddel (pm_fail m) hid, pm_pass := ddel (pm_pass m) hid\<rparr>"

definition has_service_check :: "check_result \<Rightarrow> bool" where
  "has_service_check r \<longleftrightarrow> (\<exists>k \<in> set (dkeys (cr_detail r)). k \<noteq> ''icmp'')"

definition count_port :: "int \<Rightarrow> check_result \<Rightarrow> ping_mem \<Rightarrow> ping_mem" where
  "count_port hid r m =
     (if \<not> cr_online r then m
      else if cr_port_error r then m\<lparr>pm_pass := ddel (pm_pass m) hid, pm_fail := dset (pm_fail m) hid (dget_or (pm_fail m) hid 0 + 1)\<rparr>
      else m\<lparr>pm_fail := ddel (pm_fail m) hid, pm_pass := dset (pm_pass m) hid (dget_or (pm_pass m) hid 0 + 1)\<rparr>)"

definition latch_port :: "int \<Rightarrow> check_result \<Rightarrow> bool \<Rightarrow> ping_mem \<Rightarrow> bool \<times> ping_mem" where
  "latch_port hid r latched m =
     (if \<not> has_service_check r then (False, reset_port_error_state hid m)
      else (let m' = count_port hid r m in
            (if \<not> latched \<and> dget_or (pm_fail m') hid 0 \<ge> PORT_ERROR_SET_THRESHOLD then True
             else if latched \<and> dget_or (pm_pass m') hid 0 \<ge> PORT_ERROR_CLEAR_THRESHOLD then False
             else latched, m')))"

text \<open>\<open>sort_keys=True\<close>.\<close>

definition sort_fields :: "(string, json) dict \<Rightarrow> (string, json) dict" where
  "sort_fields d = sort_key (\<lambda>e. map (of_char :: char \<Rightarrow> nat) (fst e)) d"

definition store_result :: "(pyfloat \<Rightarrow> string) \<Rightarrow> check_result \<Rightarrow> bool \<Rightarrow> check_target \<Rightarrow> check_target" where
  "store_result frepr r latched h =
     h\<lparr>port_error := latched,
       check_detail := (if cr_detail r = [] then None else Some (dumps frepr (JDict (cr_detail r)))),
       check_errors := (if cr_errors r = [] then None else Some (dumps frepr (JDict (sort_fields (cr_errors r)))))\<rparr>"

section \<open>Outages\<close>

definition track_outage :: "datetime \<Rightarrow> (int, bool) dict \<Rightarrow> check_target \<times> check_result \<Rightarrow> ping_mem \<times> check_target list \<Rightarrow> ping_mem \<times> check_target list" where
  "track_outage now prev x s =
     (let hid = host_id (fst x); m = fst s in
      if \<not> cr_online (snd x)
      then (if dget (pm_offline m) hid = None then (m\<lparr>pm_offline := dset (pm_offline m) hid now\<rparr>, snd s) else s)
      else (m\<lparr>pm_offline := ddel (pm_offline m) hid, pm_notified := filter (\<lambda>i. i \<noteq> hid) (pm_notified m)\<rparr>,
            if dget prev hid = Some False \<and> hid \<in> set (pm_notified m) then snd s @ [fst x] else snd s))"

definition notify_outage :: "datetime \<Rightarrow> int \<Rightarrow> check_target \<times> check_result \<Rightarrow> ping_mem \<times> check_target list \<Rightarrow> ping_mem \<times> check_target list" where
  "notify_outage now grace x s =
     (let hid = host_id (fst x); m = fst s in
      case dget (pm_offline m) hid of
        None \<Rightarrow> s
      | Some t \<Rightarrow>
          (if \<not> cr_online (snd x) \<and> hid \<notin> set (pm_notified m) \<and> total_seconds (now - t) / 60 \<ge> of_int grace
           then (m\<lparr>pm_notified := pm_notified m @ [hid]\<rparr>, snd s @ [fst x]) else s))"

definition grace_minutes :: "string \<Rightarrow> int" where
  "grace_minutes s = (case parse_int s of None \<Rightarrow> 5 | Some n \<Rightarrow> max 0 n)"

text \<open>One message per direction.\<close>

definition batch_notice :: "string \<Rightarrow> string \<Rightarrow> string \<Rightarrow> check_target list \<Rightarrow> ping_notice list" where
  "batch_notice one many severity hs =
     (if hs = [] then []
      else [\<lparr>pn_title = (if length hs = 1 then one @ host_name (hd hs) else show_nat (length hs) @ many), pn_body = join '', '' (map host_name hs),
             pn_severity = severity\<rparr>])"

section \<open>The cycle\<close>

definition check_host_step :: "ping_env \<Rightarrow> (int, bool) dict \<Rightarrow> check_target \<times> check_result
    \<Rightarrow> check_target list \<times> ping_mem \<times> check_target list \<Rightarrow> check_target list \<times> ping_mem \<times> check_target list" where
  "check_host_step e prev x s =
     (case s of (hosts, m, came) \<Rightarrow>
        (let hid = host_id (fst x);
             (hosts', m') = (case find (\<lambda>h. host_id h = hid) hosts of
                None \<Rightarrow> (hosts, m)
              | Some row \<Rightarrow> (case latch_port hid (snd x) (port_error row) m of
                  (latched, m1) \<Rightarrow> (map (\<lambda>h. if host_id h = hid then store_result (pv_frepr e) (snd x) latched h else h) hosts, m1)))
         in (hosts', track_outage (pv_now e) prev x (m', came))))"

record ping_out =
  po_rows :: "ping_row list"
  po_offline :: "check_target list"
  po_online :: "check_target list"
  po_notices :: "ping_notice list"

definition icmp_row :: "datetime \<Rightarrow> check_target \<times> check_result \<Rightarrow> ping_row" where
  "icmp_row now x = \<lparr>pr_tenant = ct_tenant (fst x), pr_time = now, pr_host = host_id (fst x), pr_host_name = host_name (fst x),
     pr_success = cr_online (snd x), pr_latency = cr_latency (snd x)\<rparr>"

definition cycle_results :: "ping_env \<Rightarrow> check_target list \<Rightarrow> (check_target \<times> check_result) list" where
  "cycle_results e hosts = map (\<lambda>h. (h, pv_check e h)) (filter (\<lambda>h. ct_source h \<noteq> ''agent'') (checked_targets e hosts))"

definition cleared_hosts :: "ping_env \<Rightarrow> check_target list \<Rightarrow> check_target list" where
  "cleared_hosts e hosts = map (\<lambda>h. if enabled h then clear_expired (pv_start e) h else h) hosts"

definition run_ping_checks :: "ping_env \<Rightarrow> check_target list \<times> ping_mem \<Rightarrow> (check_target list \<times> ping_mem) \<times> ping_out" where
  "run_ping_checks e s =
     (let hosts0 = cleared_hosts e (fst s);
          active = checked_targets e hosts0;
          agent_hosts = filter (\<lambda>h. ct_source h = ''agent'') active;
          seen = last_seen_by_name (str_lower ` host_name ` set agent_hosts) (pv_agents e);
          results = cycle_results e hosts0;
          prev = (case pv_prev e of Inl _ \<Rightarrow> [] | Inr p \<Rightarrow> p);
          (hosts1, m1, came) = fold (check_host_step e prev) results (hosts0, snd s, []);
          (m2, went) = fold (notify_outage (pv_now e) (grace_minutes (pv_grace e))) results (m1, [])
      in ((hosts1, m2),
          \<lparr>po_rows = map (agent_ping_row (pv_agent_time e) seen) agent_hosts @ map (icmp_row (pv_now e)) results, po_offline = went, po_online = came,
           po_notices = batch_notice ''Host offline: '' '' hosts went offline'' ''critical'' went @
                        batch_notice ''Host back online: '' '' hosts back online'' ''info'' came\<rparr>))"

section \<open>The flag follows its specification\<close>

text \<open>Three failures in a row that no two passes in a row have followed.\<close>

definition flagged :: "bool list \<Rightarrow> bool" where
  "flagged bs \<longleftrightarrow> (\<exists>us vs. bs = us @ [True, True, True] @ vs \<and> \<not> (\<exists>a b. vs = a @ [False, False] @ b))"

lemma gap_free_butlast: "\<not> (\<exists>a b. ws @ ys = a @ [False, False] @ b) \<Longrightarrow> \<not> (\<exists>a b. ws = a @ [False, False] @ b)"
proof
  assume n: "\<not> (\<exists>a b. ws @ ys = a @ [False, False] @ b)" and "\<exists>a b. ws = a @ [False, False] @ b"
  then obtain a b where "ws @ ys = a @ [False, False] @ (b @ ys)" by auto
  then show False using n by blast
qed

definition run_length :: "bool \<Rightarrow> bool list \<Rightarrow> nat" where
  "run_length v bs = length (takeWhile (\<lambda>b. b = v) (rev bs))"

lemma run_length_snoc [simp]: "run_length v (bs @ [b]) = (if b = v then run_length v bs + 1 else 0)"
  by (simp add: run_length_def)

lemma run_length_ge:
  "n \<le> run_length v bs \<Longrightarrow> \<exists>us. bs = us @ replicate n v"
proof (induction n arbitrary: bs)
  case (Suc n)
  then obtain b bs' where bs: "bs = bs' @ [b]" by (cases bs rule: rev_cases) (auto simp: run_length_def)
  with Suc.prems have "b = v" "n \<le> run_length v bs'" by (auto split: if_splits)
  with Suc.IH obtain us where "bs' = us @ replicate n v" by blast
  then show ?case using bs \<open>b = v\<close> by (intro exI [of _ us]) (simp add: replicate_append_same)
qed simp

lemma run_length_ends: "bs = us @ replicate n v \<Longrightarrow> n \<le> run_length v bs"
proof (induction n arbitrary: bs)
  case (Suc n)
  have "bs = (us @ replicate n v) @ [v]" using Suc.prems by (simp add: replicate_append_same)
  moreover have "n \<le> run_length v (us @ replicate n v)" by (rule Suc.IH) simp
  ultimately show ?case using run_length_snoc [of v "us @ replicate n v" v] by (simp del: append_assoc run_length_snoc)
qed simp

lemma flagged_snoc_True: "flagged (bs @ [True]) \<longleftrightarrow> flagged bs \<or> run_length True bs \<ge> 2"
proof
  assume "flagged (bs @ [True])"
  then obtain us vs where e: "bs @ [True] = us @ [True, True, True] @ vs" and n: "\<not> (\<exists>a b. vs = a @ [False, False] @ b)"
    by (auto simp: flagged_def)
  show "flagged bs \<or> run_length True bs \<ge> 2"
  proof (cases vs rule: rev_cases)
    case Nil
    then have "bs = us @ replicate 2 True" using e by (simp add: numeral_2_eq_2)
    then show ?thesis using run_length_ends by blast
  next
    case (snoc ws w)
    then have "bs = us @ [True, True, True] @ ws" using e by simp
    moreover have "\<not> (\<exists>a b. ws = a @ [False, False] @ b)" using n unfolding snoc by (rule gap_free_butlast)
    ultimately show ?thesis unfolding flagged_def by blast
  qed
next
  assume "flagged bs \<or> run_length True bs \<ge> 2"
  then show "flagged (bs @ [True])"
  proof
    assume "flagged bs"
    then obtain us vs where e: "bs = us @ [True, True, True] @ vs" and n: "\<not> (\<exists>a b. vs = a @ [False, False] @ b)" by (auto simp: flagged_def)
    have "\<not> (\<exists>a b. vs @ [True] = a @ [False, False] @ b)"
    proof
      assume "\<exists>a b. vs @ [True] = a @ [False, False] @ b"
      then obtain a b where ab: "vs @ [True] = a @ [False, False] @ b" by blast
      then show False using n by (cases b rule: rev_cases) auto
    qed
    then show ?thesis unfolding flagged_def using e by (intro exI [of _ us] exI [of _ "vs @ [True]"]) simp
  next
    assume "run_length True bs \<ge> 2"
    then obtain us where "bs = us @ replicate 2 True" using run_length_ge by blast
    then show ?thesis unfolding flagged_def by (intro exI [of _ us] exI [of _ "[]"]) (simp add: numeral_2_eq_2)
  qed
qed

lemma flagged_snoc_False: "flagged (bs @ [False]) \<longleftrightarrow> flagged bs \<and> run_length False bs = 0"
proof
  assume "flagged (bs @ [False])"
  then obtain us vs where e: "bs @ [False] = us @ [True, True, True] @ vs" and n: "\<not> (\<exists>a b. vs = a @ [False, False] @ b)"
    by (auto simp: flagged_def)
  obtain ws where ws: "vs = ws @ [False]" using e by (cases vs rule: rev_cases) auto
  then have bs: "bs = us @ [True, True, True] @ ws" using e by simp
  have "\<not> (\<exists>a b. ws = a @ [False, False] @ b)" using n unfolding ws by (rule gap_free_butlast)
  then have "flagged bs" unfolding flagged_def using bs by blast
  moreover have "run_length False bs = 0"
  proof (cases ws rule: rev_cases)
    case Nil
    then have "bs = (us @ [True, True]) @ [True]" using bs by simp
    then show ?thesis by (metis run_length_snoc)
  next
    case (snoc xs x)
    then have "x = True" using n ws by (cases x) auto
    then have "bs = (us @ [True, True, True] @ xs) @ [True]" using bs snoc by simp
    then show ?thesis by (metis run_length_snoc)
  qed
  ultimately show "flagged bs \<and> run_length False bs = 0" ..
next
  assume r: "flagged bs \<and> run_length False bs = 0"
  then obtain us vs where e: "bs = us @ [True, True, True] @ vs" and n: "\<not> (\<exists>a b. vs = a @ [False, False] @ b)" by (auto simp: flagged_def)
  have "\<not> (\<exists>a b. vs @ [False] = a @ [False, False] @ b)"
  proof
    assume "\<exists>a b. vs @ [False] = a @ [False, False] @ b"
    then obtain a b where ab: "vs @ [False] = a @ [False, False] @ b" by blast
    show False
    proof (cases b rule: rev_cases)
      case Nil
      then have "bs = (us @ [True, True, True] @ a) @ [False]" using ab e by simp
      then have "run_length False bs > 0" by (metis run_length_snoc add_gr_0 zero_less_one)
      then show ?thesis using r by simp
    next
      case (snoc c x)
      then show ?thesis using ab n by auto
    qed
  qed
  then show "flagged (bs @ [False])" unfolding flagged_def using e by (intro exI [of _ us] exI [of _ "vs @ [False]"]) simp
qed

text \<open>The flag and the memory after the checks of one host.\<close>

definition latch_all :: "int \<Rightarrow> check_result list \<Rightarrow> bool \<times> ping_mem \<Rightarrow> bool \<times> ping_mem" where
  "latch_all hid rs s = fold (\<lambda>r (l, m). latch_port hid r l m) rs s"

definition no_memory :: ping_mem where
  "no_memory = \<lparr>pm_fail = [], pm_pass = [], pm_offline = [], pm_notified = []\<rparr>"

text \<open>The cycles since the last one in which no service check ran; a flag that was stored before them counts as three failures.\<close>

definition recent_checks :: "check_result list \<Rightarrow> check_result list" where
  "recent_checks rs = rev (takeWhile has_service_check (rev rs))"

definition counted_checks :: "bool \<Rightarrow> check_result list \<Rightarrow> bool list" where
  "counted_checks stored rs =
     (if stored \<and> recent_checks rs = rs then [True, True, True] else []) @ map cr_port_error (filter cr_online (recent_checks rs))"

lemma run_length_after: "run_length b (xs @ ys) = (if \<forall>y \<in> set ys. y = b then run_length b xs + length ys else run_length b ys)"
  unfolding run_length_def rev_append takeWhile_append set_rev
  unfolding if_distrib [of length] length_append length_rev by (rule if_cong) (rule refl, rule add.commute, rule refl)

lemma flagged_three:
  assumes "\<forall>b \<in> set bs. b"
  shows "flagged ([True, True, True] @ bs)"
proof -
  have "False \<notin> set bs" using assms by blast
  then have "\<not> (\<exists>a b. bs = a @ [False, False] @ b)" by (metis in_set_conv_decomp append_Cons)
  then show ?thesis unfolding flagged_def by (intro exI [of _ "[]"] exI [of _ bs] conjI) (rule append_Nil [symmetric], assumption)
qed

lemma latch_state:
  fixes hid :: int and stored :: bool
  assumes "\<forall>r \<in> set rs. has_service_check r" "dget_or (pm_fail m) hid 0 = 0" "dget_or (pm_pass m) hid 0 = 0"
  defines "s \<equiv> latch_all hid rs (stored, m)" and "bs \<equiv> map cr_port_error (filter cr_online rs)" and "pre \<equiv> (if stored then [True, True, True] else [])"
  shows "fst s = flagged (pre @ bs) \<and> dget_or (pm_fail (snd s)) hid 0 = run_length True bs \<and> dget_or (pm_pass (snd s)) hid 0 = run_length False bs"
  using assms(1) unfolding s_def bs_def
proof (induction rs rule: rev_induct)
  case Nil
  have "flagged pre = stored"
    unfolding pre_def flagged_def by (auto intro!: exI [of _ "[]"])
  then show ?case using assms(2,3) by (simp add: latch_all_def run_length_def)
next
  case (snoc r rs)
  let ?s = "latch_all hid rs (stored, m)" and ?bs = "map cr_port_error (filter cr_online rs)"
  have step: "latch_all hid (rs @ [r]) (stored, m) = latch_port hid r (fst ?s) (snd ?s)" by (simp add: latch_all_def case_prod_unfold)
  have ih: "fst ?s = flagged (pre @ ?bs)" "dget_or (pm_fail (snd ?s)) hid 0 = run_length True ?bs" "dget_or (pm_pass (snd ?s)) hid 0 = run_length False ?bs"
    using snoc by auto
  have zero: "run_length True ?bs = 0 \<or> run_length False ?bs = 0" by (cases ?bs rule: rev_cases) (auto simp: run_length_def)
  have sc: "has_service_check r" using snoc.prems by simp
  have passes: "run_length False (pre @ ?bs) = run_length False ?bs"
  proof -
    have "run_length False pre = 0" by (simp add: pre_def run_length_def)
    moreover have "run_length False ?bs = length ?bs" if "\<forall>y \<in> set ?bs. y = False"
      using run_length_after [of False "[]" ?bs] that by (simp add: run_length_def)
    ultimately show ?thesis unfolding run_length_after [of False pre] by simp
  qed
  have fails: "run_length True (pre @ ?bs) = run_length True ?bs" if "\<not> flagged (pre @ ?bs)"
  proof (cases stored)
    case True
    then have "\<exists>b \<in> set ?bs. \<not> b" using that flagged_three [of ?bs] unfolding pre_def by (metis (full_types))
    then show ?thesis unfolding run_length_after by auto
  qed (simp add: pre_def)
  show ?case
  proof (cases "cr_online r")
    case False
    have "flagged (pre @ ?bs) \<or> run_length True ?bs < 3"
    proof (rule ccontr)
      assume a: "\<not> (flagged (pre @ ?bs) \<or> run_length True ?bs < 3)"
      then obtain us where "?bs = us @ replicate 3 True" using run_length_ge [of 3 True ?bs] by auto
      then have "flagged (pre @ ?bs)" unfolding flagged_def by (intro exI [of _ "pre @ us"] exI [of _ "[]"]) (simp add: numeral_3_eq_3)
      then show False using a by simp
    qed
    moreover have "\<not> (flagged (pre @ ?bs) \<and> run_length False ?bs \<ge> 2)"
    proof
      assume a: "flagged (pre @ ?bs) \<and> run_length False ?bs \<ge> 2"
      then obtain us where us: "?bs = us @ replicate 2 False" using run_length_ge by blast
      then have "pre @ ?bs = ((pre @ us) @ [False]) @ [False]" by (simp add: numeral_2_eq_2)
      then have "run_length False ((pre @ us) @ [False]) = 0" using a flagged_snoc_False by metis
      then show False by (simp del: append_assoc)
    qed
    ultimately show ?thesis unfolding step using False ih sc
      by (simp add: latch_port_def count_port_def Let_def PORT_ERROR_SET_THRESHOLD_def PORT_ERROR_CLEAR_THRESHOLD_def not_le not_less)
  next
    case True
    show ?thesis
    proof (cases "cr_port_error r")
      case True
      have "flagged (pre @ ?bs @ [True]) \<longleftrightarrow> flagged (pre @ ?bs) \<or> run_length True ?bs \<ge> 2"
        using flagged_snoc_True [of "pre @ ?bs"] fails by (cases "flagged (pre @ ?bs)") simp_all
      then show ?thesis unfolding step using ih sc zero True \<open>cr_online r\<close>
        by (auto simp: latch_port_def count_port_def Let_def PORT_ERROR_SET_THRESHOLD_def PORT_ERROR_CLEAR_THRESHOLD_def dict_simps dget_or_def)
    next
      case False
      have "flagged (pre @ ?bs @ [False]) \<longleftrightarrow> flagged (pre @ ?bs) \<and> run_length False ?bs = 0"
        using flagged_snoc_False [of "pre @ ?bs"] passes by auto
      then show ?thesis unfolding step using ih sc zero False \<open>cr_online r\<close>
        by (auto simp: latch_port_def count_port_def Let_def PORT_ERROR_SET_THRESHOLD_def PORT_ERROR_CLEAR_THRESHOLD_def dict_simps dget_or_def)
    qed
  qed
qed

lemma recent_after: "\<forall>r \<in> set rs. has_service_check r \<Longrightarrow> \<not> has_service_check q \<Longrightarrow> recent_checks (as @ q # rs) = rs"
  unfolding recent_checks_def rev_append rev.simps append_assoc by (subst takeWhile_append2) simp_all

lemma recent_all: "\<forall>r \<in> set rs. has_service_check r \<Longrightarrow> recent_checks rs = rs"
  by (simp add: recent_checks_def takeWhile_eq_all_conv [THEN iffD2])

text \<open>
  C8. From a fresh process, whatever flag is stored: after any sequence of cycles the flag is set exactly if, among the cycles since the last one without
  a service check in which the host answered, three failures in a row were not yet followed by two passes in a row, where a flag stored before
  counts as three failures.
\<close>

theorem port_flag_exact: "fst (latch_all hid rs (stored, no_memory)) = flagged (counted_checks stored rs)"
proof (cases "\<forall>r \<in> set rs. has_service_check r")
  case True
  then show ?thesis using latch_state [OF True, of no_memory hid stored]
    by (simp add: counted_checks_def recent_all no_memory_def dget_or_def)
next
  case False
  then obtain as q bs where rs: "rs = as @ q # bs" "\<not> has_service_check q" "\<forall>r \<in> set bs. has_service_check r"
    using split_list_last_prop [of rs "\<lambda>r. \<not> has_service_check r"] by blast
  let ?m = "reset_port_error_state hid (snd (latch_all hid as (stored, no_memory)))"
  have "latch_all hid rs (stored, no_memory) = latch_all hid bs (False, ?m)"
    unfolding rs(1) using rs(2) by (simp add: latch_all_def case_prod_unfold latch_port_def)
  moreover have "dget_or (pm_fail ?m) hid 0 = 0" "dget_or (pm_pass ?m) hid 0 = 0"
    by (simp_all add: reset_port_error_state_def dget_or_def dict_simps)
  moreover have "recent_checks rs = bs" "bs \<noteq> rs" using recent_after [OF rs(3,2)] rs(1) by auto
  ultimately show ?thesis using latch_state [OF rs(3), of ?m hid False] by (simp add: counted_checks_def)
qed

section \<open>Outages are notified once, after the grace period\<close>

text \<open>A check of one host as far as outages are concerned.\<close>

record host_check =
  hc_now :: datetime
  hc_online :: bool
  hc_grace :: int

text \<open>The checks of the current outage, the newest first; when it began; whether one of them found it to have lasted for the grace period.\<close>

definition current_outage :: "host_check list \<Rightarrow> host_check list" where
  "current_outage hist = takeWhile (\<lambda>c. \<not> hc_online c) (rev hist)"

definition since :: "host_check list \<Rightarrow> datetime option" where
  "since hist = (if current_outage hist = [] then None else Some (hc_now (last (current_outage hist))))"

definition lasted :: "datetime \<Rightarrow> host_check \<Rightarrow> bool" where
  "lasted t c \<longleftrightarrow> total_seconds (hc_now c - t) / 60 \<ge> of_int (hc_grace c)"

definition told :: "host_check list \<Rightarrow> bool" where
  "told hist \<longleftrightarrow> (\<exists>c \<in> set (current_outage hist). lasted (hc_now (last (current_outage hist))) c)"

text \<open>What the memory holds about one host, and the effect of one check on it.\<close>

definition memory_of :: "int \<Rightarrow> ping_mem \<Rightarrow> datetime option \<times> bool" where
  "memory_of h m = (dget (pm_offline m) h, h \<in> set (pm_notified m))"

definition note_check :: "datetime \<Rightarrow> bool \<Rightarrow> datetime option \<times> bool \<Rightarrow> datetime option \<times> bool" where
  "note_check now up p = (if up then (None, False) else (case fst p of None \<Rightarrow> Some now | Some t \<Rightarrow> Some t, snd p))"

definition note_grace :: "host_check \<Rightarrow> datetime option \<times> bool \<Rightarrow> datetime option \<times> bool" where
  "note_grace c p = (case fst p of None \<Rightarrow> p | Some t \<Rightarrow> (fst p, snd p \<or> \<not> hc_online c \<and> lasted t c))"

lemma outage_step: "(since (hist @ [c]), told (hist @ [c])) = note_grace c (note_check (hc_now c) (hc_online c) (since hist, told hist))"
  by (cases "hc_online c"; cases "current_outage hist")
    (auto simp: since_def told_def note_check_def note_grace_def current_outage_def)

lemma track_outage_memory:
  "memory_of h (fst (track_outage now prev x s)) =
     (if host_id (fst x) = h then note_check now (cr_online (snd x)) (memory_of h (fst s)) else memory_of h (fst s))"
  by (auto simp: track_outage_def memory_of_def note_check_def Let_def dict_simps split: option.split)

lemma latch_keeps_memory: "memory_of h (snd (latch_port hid r l m)) = memory_of h m"
  by (auto simp: latch_port_def memory_of_def count_port_def reset_port_error_state_def Let_def)

lemma step_memory:
  "memory_of h (fst (snd (check_host_step e prev x s))) =
     (if host_id (fst x) = h then note_check (pv_now e) (cr_online (snd x)) (memory_of h (fst (snd s))) else memory_of h (fst (snd s)))"
  using latch_keeps_memory [of h "host_id (fst x)" "snd x"]
  by (auto simp: check_host_step_def Let_def track_outage_memory case_prod_unfold split: option.split)

lemma find_distinct_tail: "distinct (map (f \<circ> fst) (x # xs)) \<Longrightarrow> find (\<lambda>y. f (fst y) = f (fst x)) xs = None"
  by (induction xs) (auto simp: image_iff)

lemma steps_memory:
  assumes "distinct (map (host_id \<circ> fst) results)"
  shows "memory_of h (fst (snd (fold (check_host_step e prev) results s))) =
    (case find (\<lambda>x. host_id (fst x) = h) results of
       None \<Rightarrow> memory_of h (fst (snd s)) | Some x \<Rightarrow> note_check (pv_now e) (cr_online (snd x)) (memory_of h (fst (snd s))))"
  using assms
proof (induction results arbitrary: s)
  case (Cons x xs)
  have "find (\<lambda>y. host_id (fst y) = h) xs = None" if "host_id (fst x) = h" using find_distinct_tail [OF Cons.prems] that by simp
  then show ?case using Cons by (simp add: step_memory split: option.split)
qed simp

text \<open>Who is reported back online.\<close>

lemma step_came:
  "snd (snd (check_host_step e prev x s)) = snd (snd s) @
     (if cr_online (snd x) \<and> dget prev (host_id (fst x)) = Some False \<and> snd (memory_of (host_id (fst x)) (fst (snd s))) then [fst x] else [])"
  using latch_keeps_memory [of "host_id (fst x)" "host_id (fst x)" "snd x"]
  by (auto simp: check_host_step_def track_outage_def Let_def memory_of_def case_prod_unfold split: option.split)

lemma steps_came:
  assumes "distinct (map (host_id \<circ> fst) results)"
  shows "snd (snd (fold (check_host_step e prev) results s)) = snd (snd s) @ map fst
    (filter (\<lambda>x. cr_online (snd x) \<and> dget prev (host_id (fst x)) = Some False \<and> snd (memory_of (host_id (fst x)) (fst (snd s)))) results)"
  using assms
proof (induction results arbitrary: s)
  case (Cons x xs)
  have same: "memory_of (host_id (fst y)) (fst (snd (check_host_step e prev x s))) = memory_of (host_id (fst y)) (fst (snd s))" if "y \<in> set xs" for y
    using Cons.prems that by (auto simp: step_memory image_iff)
  have "filter (\<lambda>y. cr_online (snd y) \<and> dget prev (host_id (fst y)) = Some False \<and>
        snd (memory_of (host_id (fst y)) (fst (snd (check_host_step e prev x s))))) xs =
      filter (\<lambda>y. cr_online (snd y) \<and> dget prev (host_id (fst y)) = Some False \<and> snd (memory_of (host_id (fst y)) (fst (snd s)))) xs"
    by (rule filter_cong) (simp_all add: same)
  then show ?case using Cons by (simp add: step_came)
qed simp

definition grace_check :: "datetime \<Rightarrow> int \<Rightarrow> check_target \<times> check_result \<Rightarrow> host_check" where
  "grace_check now grace x = \<lparr>hc_now = now, hc_online = cr_online (snd x), hc_grace = grace\<rparr>"

lemma notify_step:
  "memory_of h (fst (notify_outage now grace x s)) =
     (if host_id (fst x) = h then note_grace (grace_check now grace x) (memory_of h (fst s)) else memory_of h (fst s))"
  "snd (notify_outage now grace x s) = snd s @
     (if \<not> snd (memory_of (host_id (fst x)) (fst s)) \<and> snd (note_grace (grace_check now grace x) (memory_of (host_id (fst x)) (fst s))) then [fst x] else [])"
  by (auto simp: notify_outage_def memory_of_def note_grace_def grace_check_def lasted_def Let_def split: option.split)

lemma notify_all:
  assumes "distinct (map (host_id \<circ> fst) results)"
  shows "memory_of h (fst (fold (notify_outage now grace) results s)) =
      (case find (\<lambda>x. host_id (fst x) = h) results of None \<Rightarrow> memory_of h (fst s) | Some x \<Rightarrow> note_grace (grace_check now grace x) (memory_of h (fst s)))"
    and "snd (fold (notify_outage now grace) results s) = snd s @ map fst (filter (\<lambda>x. \<not> snd (memory_of (host_id (fst x)) (fst s)) \<and>
      snd (note_grace (grace_check now grace x) (memory_of (host_id (fst x)) (fst s)))) results)"
  using assms
proof (induction results arbitrary: s)
  case (Cons x xs)
  { case 1
    have "find (\<lambda>y. host_id (fst y) = h) xs = None" if "host_id (fst x) = h" using find_distinct_tail [OF 1] that by simp
    then show ?case using Cons.IH(1) 1 by (simp add: notify_step(1) split: option.split) }
  { case 2
    have same: "memory_of (host_id (fst y)) (fst (notify_outage now grace x s)) = memory_of (host_id (fst y)) (fst s)" if "y \<in> set xs" for y
      using 2 that by (auto simp: notify_step(1) image_iff)
    have "filter (\<lambda>y. \<not> snd (memory_of (host_id (fst y)) (fst (notify_outage now grace x s))) \<and>
          snd (note_grace (grace_check now grace y) (memory_of (host_id (fst y)) (fst (notify_outage now grace x s))))) xs =
        filter (\<lambda>y. \<not> snd (memory_of (host_id (fst y)) (fst s)) \<and> snd (note_grace (grace_check now grace y) (memory_of (host_id (fst y)) (fst s)))) xs"
      by (rule filter_cong) (simp_all add: same)
    then show ?case using Cons.IH(2) 2 by (simp add: notify_step(2)) }
qed simp_all

section \<open>A run of cycles\<close>

text \<open>The check of one host in one cycle, if the cycle checks it, and its checks in a sequence of cycles.\<close>

definition check_of :: "int \<Rightarrow> ping_env \<Rightarrow> check_target list \<Rightarrow> host_check list" where
  "check_of h e hosts =
     (case find (\<lambda>x. host_id (fst x) = h) (cycle_results e (cleared_hosts e hosts)) of
        None \<Rightarrow> [] | Some x \<Rightarrow> [grace_check (pv_now e) (grace_minutes (pv_grace e)) x])"

definition run_cycles :: "ping_env list \<Rightarrow> check_target list \<times> ping_mem \<Rightarrow> check_target list \<times> ping_mem" where
  "run_cycles es s = fold (\<lambda>e s. fst (run_ping_checks e s)) es s"

fun checks_of :: "int \<Rightarrow> ping_env list \<Rightarrow> check_target list \<times> ping_mem \<Rightarrow> host_check list" where
  "checks_of h [] s = []"
| "checks_of h (e # es) s = check_of h e (fst s) @ checks_of h es (fst (run_ping_checks e s))"

lemma checks_of_snoc: "checks_of h (es @ [e]) s = checks_of h es s @ check_of h e (fst (run_cycles es s))"
  by (induction es arbitrary: s) (auto simp: run_cycles_def)

lemma cleared_ids [simp]: "map host_id (cleared_hosts e hosts) = map host_id hosts"
  by (simp add: cleared_hosts_def clear_expired_def)

lemma step_ids: "map host_id (fst (check_host_step e prev x s)) = map host_id (fst s)"
  by (auto simp: check_host_step_def Let_def store_result_def case_prod_unfold split: option.split)

lemma steps_ids: "map host_id (fst (fold (check_host_step e prev) xs s)) = map host_id (fst s)"
  by (induction xs arbitrary: s) (simp_all add: step_ids)

lemma run_ids: "map host_id (fst (fst (run_ping_checks e s))) = map host_id (fst s)"
  by (simp add: run_ping_checks_def Let_def case_prod_unfold steps_ids)

lemma cycles_ids: "map host_id (fst (run_cycles es s)) = map host_id (fst s)"
  by (induction es arbitrary: s) (simp_all add: run_cycles_def run_ids)

lemma results_distinct:
  assumes "distinct (map host_id hosts)"
  shows "distinct (map (host_id \<circ> fst) (cycle_results e (cleared_hosts e hosts)))"
proof -
  have "distinct (map host_id (cleared_hosts e hosts))" using assms by simp
  then have "distinct (map host_id (checked_targets e (cleared_hosts e hosts)))"
    by (simp add: checked_targets_def Let_def distinct_map_filter)
  then show ?thesis by (simp add: cycle_results_def comp_def distinct_map_filter)
qed

lemma find_distinct:
  "distinct (map f xs) \<Longrightarrow> find (\<lambda>y. f y = k) xs = Some x \<longleftrightarrow> x \<in> set xs \<and> f x = k"
  by (induction xs) (auto simp: image_iff)

lemma cycle_memory:
  assumes "distinct (map host_id (fst s))"
  shows "memory_of h (snd (fst (run_ping_checks e s))) =
    fold (\<lambda>c. note_grace c \<circ> note_check (hc_now c) (hc_online c)) (check_of h e (fst s)) (memory_of h (snd s))"
  using steps_memory [OF results_distinct [OF assms], of h] notify_all(1) [OF results_distinct [OF assms], of h]
  by (simp add: run_ping_checks_def Let_def case_prod_unfold check_of_def grace_check_def split: option.split)

lemma run_memory:
  assumes "distinct (map host_id (fst s))" and "snd s = no_memory"
  shows "memory_of h (snd (run_cycles es s)) = (since (checks_of h es s), told (checks_of h es s))"
proof (induction es rule: rev_induct)
  case Nil
  then show ?case by (simp add: run_cycles_def assms no_memory_def memory_of_def since_def told_def current_outage_def)
next
  case (snoc e es)
  let ?s = "run_cycles es s"
  have d: "distinct (map host_id (fst ?s))" using assms by (simp add: cycles_ids)
  have r: "run_cycles (es @ [e]) s = fst (run_ping_checks e ?s)" by (simp add: run_cycles_def)
  have "check_of h e (fst ?s) = [] \<or> (\<exists>c. check_of h e (fst ?s) = [c])" by (auto simp: check_of_def split: option.split)
  then show ?case using snoc by (auto simp: r cycle_memory [OF d] checks_of_snoc outage_step)
qed

lemma result_found:
  assumes "distinct (map host_id hosts)"
  shows "find (\<lambda>y. host_id (fst y) = h) (cycle_results e (cleared_hosts e hosts)) = Some x \<longleftrightarrow>
    x \<in> set (cycle_results e (cleared_hosts e hosts)) \<and> host_id (fst x) = h"
  using find_distinct [of "host_id \<circ> fst" "cycle_results e (cleared_hosts e hosts)" h x] results_distinct [OF assms] by simp

lemma check_of_ex:
  assumes "distinct (map host_id hosts)"
  shows "(\<exists>c. check_of h e hosts = [c] \<and> P c) \<longleftrightarrow> (\<exists>x \<in> set (cycle_results e (cleared_hosts e hosts)).
    host_id (fst x) = h \<and> P (grace_check (pv_now e) (grace_minutes (pv_grace e)) x))" (is "_ \<longleftrightarrow> (\<exists>x \<in> set ?r. _ x)")
proof (cases "find (\<lambda>y. host_id (fst y) = h) ?r")
  case None
  then have "\<forall>x \<in> set ?r. host_id (fst x) \<noteq> h" by (auto simp: find_None_iff)
  then show ?thesis using None by (simp add: check_of_def)
next
  case (Some z)
  have "x \<in> set ?r \<and> host_id (fst x) = h \<longleftrightarrow> x = z" for x using result_found [OF assms, of h e x] Some by auto
  then have "(\<exists>x \<in> set ?r. host_id (fst x) = h \<and> Q x) \<longleftrightarrow> Q z" for Q unfolding Bex_def conj_assoc [symmetric] by simp
  then show ?thesis using Some by (simp add: check_of_def)
qed

lemma checked_memory:
  assumes "distinct (map host_id hosts)" and "x \<in> set (cycle_results e (cleared_hosts e hosts))"
  shows "memory_of (host_id (fst x)) (fst (snd (fold (check_host_step e p) (cycle_results e (cleared_hosts e hosts)) (hs, m, [])))) =
    note_check (pv_now e) (cr_online (snd x)) (memory_of (host_id (fst x)) m)"
  using steps_memory [OF results_distinct [OF assms(1)], where h = "host_id (fst x)" and e = e and prev = p and s = "(hs, m, [])"] assms
  by (simp add: result_found [THEN iffD2])

lemma mem_reported: "k \<in> f ` set (map fst (filter P xs)) \<longleftrightarrow> (\<exists>x \<in> set xs. f (fst x) = k \<and> P x)"
  by force

lemma offline_notices:
  assumes "distinct (map host_id (fst s))"
  shows "h \<in> host_id ` set (po_offline (snd (run_ping_checks e s))) \<longleftrightarrow>
    (\<exists>c. check_of h e (fst s) = [c] \<and> \<not> snd (note_check (hc_now c) (hc_online c) (memory_of h (snd s))) \<and>
      snd (note_grace c (note_check (hc_now c) (hc_online c) (memory_of h (snd s)))))"
proof -
  let ?m = "fst (snd (fold (check_host_step e (case pv_prev e of Inl _ \<Rightarrow> [] | Inr p \<Rightarrow> p)) (cycle_results e (cleared_hosts e (fst s)))
    (cleared_hosts e (fst s), snd s, [])))" and ?c = "grace_check (pv_now e) (grace_minutes (pv_grace e))"
  have off: "po_offline (snd (run_ping_checks e s)) = map fst (filter (\<lambda>x. \<not> snd (memory_of (host_id (fst x)) ?m) \<and>
      snd (note_grace (?c x) (memory_of (host_id (fst x)) ?m))) (cycle_results e (cleared_hosts e (fst s))))"
    using notify_all(2) [OF results_distinct [OF assms]] by (simp add: run_ping_checks_def Let_def case_prod_unfold)
  show ?thesis unfolding check_of_ex [OF assms] off mem_reported
    by (rule bex_cong [OF refl]) (auto simp: checked_memory [OF assms] grace_check_def)
qed

lemma online_notices:
  assumes "distinct (map host_id (fst s))"
  shows "h \<in> host_id ` set (po_online (snd (run_ping_checks e s))) \<longleftrightarrow>
    (\<exists>c. check_of h e (fst s) = [c] \<and> hc_online c \<and> pv_prev e \<in> range Inr \<and> dget (projr (pv_prev e)) h = Some False \<and>
      snd (memory_of h (snd s)))"
proof -
  let ?p = "case pv_prev e of Inl _ \<Rightarrow> [] | Inr p \<Rightarrow> p"
  have on: "po_online (snd (run_ping_checks e s)) = map fst (filter (\<lambda>x. cr_online (snd x) \<and> dget ?p (host_id (fst x)) = Some False \<and>
      snd (memory_of (host_id (fst x)) (snd s))) (cycle_results e (cleared_hosts e (fst s))))"
    using steps_came [OF results_distinct [OF assms]] by (simp add: run_ping_checks_def Let_def case_prod_unfold)
  show ?thesis unfolding check_of_ex [OF assms] on mem_reported
    by (rule bex_cong [OF refl]) (auto simp: grace_check_def dget_def split: sum.splits)
qed

lemma told_iff: "\<not> snd (note_check (hc_now c) (hc_online c) (since hist, told hist)) \<and>
    snd (note_grace c (note_check (hc_now c) (hc_online c) (since hist, told hist))) \<longleftrightarrow> \<not> told hist \<and> told (hist @ [c])"
proof -
  have "told (hist @ [c]) = snd (note_grace c (note_check (hc_now c) (hc_online c) (since hist, told hist)))" using outage_step [of hist c] by (simp add: prod_eq_iff)
  then show ?thesis by (auto simp: note_check_def note_grace_def split: option.splits if_splits)
qed

text \<open>
  C5. In any run from a fresh process over hosts with distinct ids, the next cycle reports a host offline exactly if its check makes the current outage
  notifiable for the first time: it is the first check of the outage to find it lasting for the grace period then configured. It reports a host back
  online exactly if the check finds it online, the recorded result before was a failure and the outage it ends had been reported.
\<close>

theorem outages_notified_once:
  assumes "distinct (map host_id hosts)"
  shows "(h \<in> host_id ` set (po_offline (snd (run_ping_checks e (run_cycles es (hosts, no_memory))))) \<longleftrightarrow>
      (\<exists>c. check_of h e (fst (run_cycles es (hosts, no_memory))) = [c] \<and>
        \<not> told (checks_of h es (hosts, no_memory)) \<and> told (checks_of h es (hosts, no_memory) @ [c]))) \<and>
    (h \<in> host_id ` set (po_online (snd (run_ping_checks e (run_cycles es (hosts, no_memory))))) \<longleftrightarrow>
      (\<exists>c. check_of h e (fst (run_cycles es (hosts, no_memory))) = [c] \<and> hc_online c \<and>
        pv_prev e \<in> range Inr \<and> dget (projr (pv_prev e)) h = Some False \<and> told (checks_of h es (hosts, no_memory))))"
proof -
  have d: "distinct (map host_id (fst (run_cycles es (hosts, no_memory))))" using assms by (simp add: cycles_ids)
  have m: "memory_of h (snd (run_cycles es (hosts, no_memory))) = (since (checks_of h es (hosts, no_memory)), told (checks_of h es (hosts, no_memory)))"
    by (rule run_memory) (simp_all add: assms)
  show ?thesis unfolding offline_notices [OF d] online_notices [OF d] m told_iff snd_conv by blast
qed

text \<open>A host that fails three cycles in a row, a minute apart, with a grace period of two minutes, and then answers.\<close>

definition web_target :: check_target where
  "web_target = \<lparr>host_id = 1, host_name = ''web'', hostname = ''web'', enabled = True, latency_threshold_ms = None, maintenance = False,
     maintenance_until = None, port_error = False, check_detail = None, check_errors = None, mac_address = None, parent_id = None, probe_id = None,
     ct_tenant = 1, ct_source = ''manual''\<rparr>"

definition answer :: "bool \<Rightarrow> bool \<Rightarrow> check_result" where
  "answer up bad = \<lparr>cr_online = up, cr_port_error = bad, cr_latency = None, cr_detail = [(''http'', JBool (\<not> bad))], cr_errors = []\<rparr>"

definition minute_env :: "int \<Rightarrow> bool \<Rightarrow> ping_env" where
  "minute_env k up = \<lparr>pv_start = seconds (60 * k), pv_tz = \<lparr>zone_exists = (\<lambda>_. False), local_date = (\<lambda>_ _. 0), to_utc = (\<lambda>_ _ _. 0)\<rparr>, pv_windows = [], pv_agents = [], pv_agent_time = seconds (60 * k),
     pv_prev = Inr [(1, k \<le> 0)], pv_check = (\<lambda>_. answer up False), pv_now = seconds (60 * k), pv_grace = ''2'', pv_frepr = (\<lambda>_. ''0'')\<rparr>"

theorem outages_notified_once_witness:
  "1 \<in> host_id ` set (po_offline (snd (run_ping_checks (minute_env 2 False) (run_cycles [minute_env 0 False, minute_env 1 False] ([web_target], no_memory))))) \<and>
   1 \<in> host_id ` set (po_online (snd (run_ping_checks (minute_env 3 True)
     (run_cycles [minute_env 0 False, minute_env 1 False, minute_env 2 False] ([web_target], no_memory)))))"
proof -
  have d: "distinct (map host_id [web_target])" by simp
  show ?thesis
    unfolding outages_notified_once [OF d, THEN conjunct1] outages_notified_once [OF d, THEN conjunct2]
  proof (intro conjI exI)
    show "check_of 1 (minute_env 2 False) (fst (run_cycles [minute_env 0 False, minute_env 1 False] ([web_target], no_memory))) =
        [\<lparr>hc_now = seconds 120, hc_online = False, hc_grace = 2\<rparr>]"
      and "check_of 1 (minute_env 3 True) (fst (run_cycles [minute_env 0 False, minute_env 1 False, minute_env 2 False] ([web_target], no_memory))) =
        [\<lparr>hc_now = seconds 180, hc_online = True, hc_grace = 2\<rparr>]" by code_simp+
    show "pv_prev (minute_env 3 True) \<in> range Inr" by (simp add: minute_env_def)
  qed code_simp+
qed

end
