(* ===== verification/Integration_Policy.thy ===== *)
theory Integration_Policy
  imports Ingest
begin

text \<open>
  Rules of the integrations that are not their collection: how often one is polled (\<^verbatim>\<open>backend/services/integration_schedule.py\<close>), the limits its
  alerts compare against and a tenant's changes of them (\<^verbatim>\<open>backend/services/integration_thresholds.py\<close>, \<^verbatim>\<open>BaseIntegration.threshold\<close>), and the
  health score of the dashboard (\<^verbatim>\<open>backend/services/health.py\<close>).
\<close>

section \<open>Polling\<close>

definition DEFAULT_INTERVAL_SECONDS :: int where "DEFAULT_INTERVAL_SECONDS = 60"
definition MIN_INTERVAL_SECONDS :: int where "MIN_INTERVAL_SECONDS = 10"

text \<open>\<open>class_default\<close>: the attribute of the class where it is an integer. \<^verbatim>\<open>int\<close> of an infinite number raises an error that is not caught.\<close>

definition effective_interval :: "int option \<Rightarrow> (string, json) dict option \<Rightarrow> int \<Rightarrow> int result" where
  "effective_interval class_default config global_default =
     (let configured = dget_or (case config of None \<Rightarrow> [] | Some c \<Rightarrow> c) ''poll_interval_seconds'' JNull;
          fallback = (case class_default of
                        Some d \<Rightarrow> if d > 0 then max d MIN_INTERVAL_SECONDS else max global_default MIN_INTERVAL_SECONDS
                      | None \<Rightarrow> max global_default MIN_INTERVAL_SECONDS) in
      if configured \<in> {JFloat PosInf, JFloat NegInf} then Inl OverflowError
      else (case to_int configured of
              Some v \<Rightarrow> if v > 0 then Inr (max v MIN_INTERVAL_SECONDS) else Inr fallback
            | None \<Rightarrow> Inr fallback))"

definition is_due :: "datetime option \<Rightarrow> datetime \<Rightarrow> int \<Rightarrow> bool" where
  "is_due last_run now interval =
     (case last_run of
        None \<Rightarrow> True
      | Some l \<Rightarrow> l > now \<or> total_seconds (now - l) \<ge> of_int interval)"

text \<open>The collections of one integration: at each tick that finds it due it is collected and the time of the snapshot is the new last run.\<close>

fun collections :: "int \<Rightarrow> datetime option \<Rightarrow> datetime list \<Rightarrow> datetime list" where
  "collections iv last_run [] = []"
| "collections iv last_run (t # ts) = (if is_due last_run t iv then t # collections iv (Some t) ts else collections iv last_run ts)"

lemma effective_interval_min: "effective_interval c cfg g = Inr i \<Longrightarrow> MIN_INTERVAL_SECONDS \<le> i"
  by (auto simp: effective_interval_def Let_def split: if_splits option.splits)

lemma due_gap: "is_due (Some l) t iv \<Longrightarrow> l \<le> t \<Longrightarrow> t - l \<ge> seconds iv"
proof -
  assume "is_due (Some l) t iv" "l \<le> t"
  then have "(of_int iv :: rat) * 1000000 \<le> of_int (t - l)" by (auto simp: is_due_def total_seconds_def le_divide_eq)
  then have "(of_int (iv * 1000000) :: rat) \<le> of_int (t - l)" by simp
  then show ?thesis unfolding of_int_le_iff by (simp add: seconds_def)
qed

lemma collections_from:
  assumes "sorted ts" "last_run = Some l" "\<forall>t \<in> set ts. l \<le> t" "seconds iv \<ge> 0"
  shows "sorted_wrt (\<lambda>a b. b - a \<ge> seconds iv) (l # collections iv last_run ts)"
  using assms(1-3)
proof (induction ts arbitrary: last_run l)
  case (Cons t ts)
  show ?case
  proof (cases "is_due last_run t iv")
    case True
    have ih: "sorted_wrt (\<lambda>a b. b - a \<ge> seconds iv) (t # collections iv (Some t) ts)" using Cons.IH Cons.prems(1) by simp
    have gap: "t - l \<ge> seconds iv" using due_gap [of l t iv] True Cons.prems(2,3) by simp
    then have "\<forall>x \<in> set (collections iv (Some t) ts). x - l \<ge> seconds iv" using ih assms(4) by fastforce
    then show ?thesis using True ih gap by simp
  next
    case False
    then show ?thesis using Cons by simp
  qed
qed simp

text \<open>
  With a clock that does not go back, two collections of an integration are at least its interval apart, and that is at least ten seconds; a tick
  that finds the interval over collects.
\<close>

theorem polls_spaced:
  assumes "sorted ts" "effective_interval c cfg g = Inr iv"
  shows "sorted_wrt (\<lambda>a b. b - a \<ge> seconds iv) (collections iv None ts) \<and> seconds 10 \<le> seconds iv \<and>
    (\<forall>l t. l \<le> t - seconds iv \<longrightarrow> is_due (Some l) t iv)"
proof -
  have iv: "10 \<le> iv" using effective_interval_min [OF assms(2)] by (simp add: MIN_INTERVAL_SECONDS_def)
  have "sorted_wrt (\<lambda>a b. b - a \<ge> seconds iv) (collections iv None ts)"
  proof (cases ts)
    case (Cons t ts')
    then show ?thesis using collections_from [of ts' "Some t" t iv] assms(1) iv by (simp add: is_due_def seconds_def)
  qed simp
  moreover have "is_due (Some l) t iv" if "l \<le> t - seconds iv" for l t
  proof -
    have "(of_int (seconds iv) :: rat) \<le> of_int (t - l)" using that by (simp only: of_int_le_iff)
    then show ?thesis by (simp add: is_due_def total_seconds_def seconds_def le_divide_eq)
  qed
  ultimately show ?thesis using iv by (auto simp: seconds_def)
qed

theorem polls_spaced_witness:
  "sorted_wrt (\<lambda>a b. b - a \<ge> seconds 10) (collections 10 None [0, seconds 5, seconds 12]) \<and> is_due (Some 0) (seconds 12) 10"
proof -
  have s: "sorted [0, seconds 5, seconds 12]" by (simp add: seconds_def)
  have i: "effective_interval None (Some [(''poll_interval_seconds'', JInt 3)]) 60 = Inr 10"
    by (simp add: effective_interval_def dget_or_def dget_def MIN_INTERVAL_SECONDS_def)
  have "0 \<le> seconds 12 - seconds 10" by (simp add: seconds_def)
  then show ?thesis using polls_spaced [OF s i] by blast
qed

section \<open>Alert limits\<close>

record limit =
  th_key :: string
  th_label :: string
  th_default :: pyfloat
  th_unit :: string
  th_minimum :: pyfloat
  th_maximum :: "pyfloat option"
  th_zero_disables :: bool

text \<open>The registry: the integrations by name, each with its display name and its limits.\<close>

type_synonym registry = "(string, string \<times> limit list) dict"

text \<open>The registry is given sorted by name.\<close>

definition declared :: "registry \<Rightarrow> (string, string \<times> limit) dict" where
  "declared reg =
     foldl (\<lambda>d (name, display, limits).
       foldl (\<lambda>d t. dset d (name @ ''.'' @ th_key t) (if display = [] then name else display, t)) d limits) [] reg"

text \<open>A number that is no bool, as a float.\<close>

fun number :: "json \<Rightarrow> pyfloat option" where
  "number (JInt i) = Some (Fin (of_int i))"
| "number (JFloat f) = Some f"
| "number _ = None"

definition load_limits :: "registry \<Rightarrow> string option \<Rightarrow> (string, pyfloat) dict" where
  "load_limits reg raw =
     (case loads (case raw of None \<Rightarrow> ''{}'' | Some r \<Rightarrow> if r = [] then ''{}'' else r) of
        Some (JDict d) \<Rightarrow>
          concat (map (\<lambda>(k, v). case number v of Some f \<Rightarrow> if dget (declared reg) k \<noteq> None then [(k, f)] else [] | None \<Rightarrow> []) d)
      | _ \<Rightarrow> [])"

definition overrides_for :: "registry \<Rightarrow> string option \<Rightarrow> string \<Rightarrow> (string, pyfloat) dict" where
  "overrides_for reg raw ty =
     map (\<lambda>(k, v). (drop (length ty + 1) k, v)) (filter (\<lambda>(k, v). startswith k (ty @ ''.'')) (load_limits reg raw))"

text \<open>\<open>BaseIntegration.threshold\<close>.\<close>

definition threshold_value :: "limit list \<Rightarrow> (string, pyfloat) dict \<Rightarrow> string \<Rightarrow> pyfloat result" where
  "threshold_value limits overrides key =
     (case dget overrides key of
        Some v \<Rightarrow> Inr v
      | None \<Rightarrow> (case find (\<lambda>t. th_key t = key) limits of Some t \<Rightarrow> Inr (th_default t) | None \<Rightarrow> Inl (KeyError key)))"

record limit_row =
  lr_id :: string
  lr_type :: string
  lr_label :: string
  lr_limit :: limit
  lr_value :: pyfloat

definition catalogue :: "registry \<Rightarrow> string option \<Rightarrow> string list option \<Rightarrow> limit_row list" where
  "catalogue reg raw types =
     (let stored = load_limits reg raw in
      concat (map (\<lambda>(full, display, t).
        let ty = takeWhile (\<lambda>c. c \<noteq> CHR ''.'') full in
        if (case types of None \<Rightarrow> False | Some ts \<Rightarrow> ty \<notin> set ts) then []
        else [\<lparr>lr_id = full, lr_type = ty, lr_label = display, lr_limit = t, lr_value = dget_or stored full (th_default t)\<rparr>]) (declared reg)))"

definition out_of_range :: "limit \<Rightarrow> pyfloat \<Rightarrow> bool" where
  "out_of_range t v \<longleftrightarrow> flt_less v (th_minimum t) \<or> (case th_maximum t of None \<Rightarrow> False | Some m \<Rightarrow> flt_less m v)"

text \<open>Python's \<^verbatim>\<open>!=\<close> on floats: NaN differs from everything.\<close>

definition flt_ne :: "pyfloat \<Rightarrow> pyfloat \<Rightarrow> bool" where
  "flt_ne a b \<longleftrightarrow> a = NaN \<or> b = NaN \<or> a \<noteq> b"

definition validate_one ::
    "registry \<Rightarrow> string \<times> json \<Rightarrow> (string, pyfloat) dict \<times> string list \<Rightarrow> (string, pyfloat) dict \<times> string list" where
  "validate_one reg e s =
     (case dget (declared reg) (fst e) of
        None \<Rightarrow> (fst s, snd s @ [fst e])
      | Some (_, t) \<Rightarrow> (case number (snd e) of
                          None \<Rightarrow> (fst s, snd s @ [fst e])
                        | Some v \<Rightarrow> if out_of_range t v then (fst s, snd s @ [fst e])
                                    else if flt_ne v (th_default t) then (dset (fst s) (fst e) v, snd s) else s))"

definition validate :: "registry \<Rightarrow> (string, json) dict \<Rightarrow> (string, pyfloat) dict \<times> string list" where
  "validate reg vals = fold (validate_one reg) vals ([], [])"

text \<open>\<open>sort_keys=True\<close> is the parameter \<open>order\<close>: the entries in the order of their keys. The result: the stored text and the refused ids.\<close>

definition save_limits ::
    "(pyfloat \<Rightarrow> string) \<Rightarrow> ((string \<times> json) list \<Rightarrow> (string \<times> json) list) \<Rightarrow> registry \<Rightarrow> (string, json) dict \<Rightarrow> string option
       \<Rightarrow> string option \<times> string list" where
  "save_limits frepr order reg vals raw =
     (case validate reg vals of (keep, refused) \<Rightarrow>
        if refused \<noteq> [] then (raw, refused)
        else (Some (dumps frepr (JDict (order (map (\<lambda>(k, v). (k, JFloat v)) keep)))), []))"

text \<open>NaN passes both bounds: it is stored, and no measurement ever exceeds it.\<close>

lemma nan_limit_accepted: "\<not> out_of_range t NaN"
  by (auto simp: out_of_range_def split: option.split)

lemma validate_one_simps:
  "snd (validate_one reg e s) = snd s @
     (if (\<exists>x t f. dget (declared reg) (fst e) = Some (x, t) \<and> number (snd e) = Some f \<and> \<not> out_of_range t f) then [] else [fst e])"
  by (auto simp: validate_one_def split: option.splits prod.splits)

lemma validate_refused: "snd (fold (validate_one reg) vs s) = [] \<Longrightarrow> snd s = []"
proof (induction vs arbitrary: s)
  case (Cons e vs)
  then have "snd (validate_one reg e s) = []" by simp
  then show ?case by (simp add: validate_one_simps)
qed simp

lemma validate_exact:
  assumes "dict_ok vs" "snd (fold (validate_one reg) vs s) = []"
  shows "dget (fst (fold (validate_one reg) vs s)) k =
      (case dget vs k of
         None \<Rightarrow> dget (fst s) k
       | Some v \<Rightarrow> (case number v of Some f \<Rightarrow> if flt_ne f (th_default (snd (the (dget (declared reg) k)))) then Some f else dget (fst s) k
                    | None \<Rightarrow> dget (fst s) k))"
    and "k \<in> set (dkeys vs) \<Longrightarrow> dget (declared reg) k \<noteq> None \<and> number (the (dget vs k)) \<noteq> None"
  using assms
proof (induction vs arbitrary: s)
  case (Cons e vs)
  obtain k' v where e: "e = (k', v)" by fastforce
  { case 1
    let ?s = "validate_one reg e s"
    have rest: "snd (fold (validate_one reg) vs ?s) = []" "dict_ok vs" "dget vs k' = None"
      using 1 by (auto simp: e dict_ok_def dkeys_def dget_eq_None_iff)
    have "snd ?s = []" using validate_refused [OF rest(1)] .
    then obtain x t f where f: "dget (declared reg) k' = Some (x, t)" "number v = Some f" "\<not> out_of_range t f"
      by (auto simp: validate_one_simps e split: if_splits)
    then have "fst ?s = (if flt_ne f (th_default t) then dset (fst s) k' f else fst s)" by (simp add: validate_one_def e)
    then show ?case using Cons.IH(1) [OF rest(2,1)] f rest(3) by (auto simp: e dget_Cons dict_simps split: option.split) }
  { case 2
    let ?s = "validate_one reg e s"
    have rest: "snd (fold (validate_one reg) vs ?s) = []" "dict_ok vs" using 2 by (auto simp: dict_ok_def dkeys_def)
    have "snd ?s = []" using validate_refused [OF rest(1)] .
    then show ?case using Cons.IH(2) [OF _ rest(2,1)] 2(1) by (auto simp: validate_one_simps e dget_Cons dkeys_def split: if_splits) }
qed (simp_all add: dkeys_def)

lemma validate_dict: "dict_ok (fst s) \<Longrightarrow> dict_ok (fst (fold (validate_one reg) vs s))"
proof (induction vs arbitrary: s)
  case (Cons e vs)
  have "dict_ok (fst (validate_one reg e s))" using Cons.prems by (auto simp: validate_one_def split: option.split prod.split)
  then show ?case using Cons.IH by simp
qed simp

lemma kept_declared:
  "\<forall>k \<in> set (dkeys (fst s)). dget (declared reg) k \<noteq> None \<Longrightarrow> k \<in> set (dkeys (fst (fold (validate_one reg) vs s))) \<Longrightarrow> dget (declared reg) k \<noteq> None"
proof (induction vs arbitrary: s)
  case (Cons e vs)
  have "\<forall>k \<in> set (dkeys (fst (validate_one reg e s))). dget (declared reg) k \<noteq> None"
    using Cons.prems(1) by (auto simp: validate_one_def dict_simps split: option.splits prod.splits)
  then show ?case using Cons.IH Cons.prems(2) by simp
qed simp

lemma limits_stored:
  assumes "loads r = Some (JDict (map (\<lambda>(k, v). (k, JFloat v)) keep))" "\<forall>k \<in> set (dkeys keep). dget (declared reg) k \<noteq> None" "r \<noteq> []"
  shows "load_limits reg (Some r) = keep"
proof -
  have "concat (map (\<lambda>(k, v). case number v of Some f \<Rightarrow> if dget (declared reg) k \<noteq> None then [(k, f)] else [] | None \<Rightarrow> [])
      (map (\<lambda>(k, v). (k, JFloat v)) keep)) = keep"
    using assms(2) by (induction keep) (auto simp: dkeys_def)
  then show ?thesis using assms(1,3) by (simp add: load_limits_def)
qed

lemma startswith_append: "startswith s p \<longleftrightarrow> (\<exists>r. s = p @ r)"
  by (induction s p rule: startswith.induct) auto

lemma overrides_get: "dget (overrides_for reg raw ty) key = dget (load_limits reg raw) (ty @ ''.'' @ key)"
proof -
  have "dget (map (\<lambda>(k, v). (drop (length ty + 1) k, v)) (filter (\<lambda>(k, v). startswith k (ty @ ''.'')) d)) key = dget d (ty @ ''.'' @ key)" for d
  proof (induction d)
    case (Cons e d)
    obtain k v where e: "e = (k, v)" by fastforce
    show ?case
    proof (cases "startswith k (ty @ ''.'')")
      case True
      then obtain r where "k = ty @ ''.'' @ r" by (auto simp: startswith_append)
      then show ?thesis using Cons True by (simp add: e dget_Cons)
    next
      case False
      then have "k \<noteq> ty @ ''.'' @ key" by (auto simp: startswith_append)
      then show ?thesis using Cons False by (simp add: e dget_Cons)
    qed
  qed simp
  then show ?thesis by (simp add: overrides_for_def)
qed

text \<open>
  C25. A saved set of limits is what the integrations compare against afterwards: a limit named in the request has the requested value, every other one its
  default. The hypothesis on \<open>json\<close> is that decoding the stored text gives the entries that were encoded, in some order.
\<close>

theorem saved_limits_apply:
  assumes "dict_ok vals" "save_limits frepr order reg vals raw = (Some r, [])"
    and "\<exists>es. loads r = Some (JDict (map (\<lambda>(k, v). (k, JFloat v)) es)) \<and> dict_ok es \<and> set es = set (fst (validate reg vals))" "r \<noteq> []"
    and "dget (declared reg) (ty @ ''.'' @ key) = Some (label, t)" "find (\<lambda>t. th_key t = key) limits = Some t"
  shows "threshold_value limits (overrides_for reg (Some r) ty) key =
    Inr (case dget vals (ty @ ''.'' @ key) of None \<Rightarrow> th_default t | Some v \<Rightarrow> the (number v))"
proof -
  let ?k = "ty @ ''.'' @ key" and ?keep = "fst (validate reg vals)"
  have ok: "snd (fold (validate_one reg) vals ([], [])) = []"
    using assms(2) by (auto simp: save_limits_def validate_def split: prod.splits if_splits)
  obtain es where es: "loads r = Some (JDict (map (\<lambda>(k, v). (k, JFloat v)) es))" "dict_ok es" "set es = set ?keep" using assms(3) by blast
  have dk: "dict_ok ?keep" using validate_dict [of "([], [])" reg vals] by (simp add: validate_def)
  have "set (dkeys es) = set (dkeys ?keep)" using es(3) by (simp add: dkeys_def)
  then have "\<forall>k \<in> set (dkeys es). dget (declared reg) k \<noteq> None"
    using kept_declared [of "([], [])" reg _ vals] by (auto simp: validate_def dkeys_def)
  then have "load_limits reg (Some r) = es" by (rule limits_stored [OF es(1) _ assms(4)])
  moreover have "dget es ?k = dget ?keep ?k"
    using map_of_inject_set [of es ?keep] es(2,3) dk by (simp add: dget_def dict_ok_def dkeys_def)
  ultimately have get: "dget (overrides_for reg (Some r) ty) key = dget ?keep ?k" by (simp add: overrides_get)
  have "dget ?keep ?k = (case dget vals ?k of None \<Rightarrow> None | Some v \<Rightarrow> (case number v of Some f \<Rightarrow> if flt_ne f (th_default t) then Some f else None | None \<Rightarrow> None))"
    using validate_exact(1) [OF assms(1) ok, of ?k] assms(5) by (simp add: validate_def split: option.split)
  moreover have "\<exists>f. number v = Some f" if "dget vals ?k = Some v" for v
  proof -
    have "?k \<in> set (dkeys vals)" using that dget_eq_None_iff [of vals ?k] by simp
    then show ?thesis using validate_exact(2) [OF assms(1) ok, of ?k] that by auto
  qed
  ultimately show ?thesis using get assms(6) by (auto simp: threshold_value_def flt_ne_def split: option.splits if_splits)
qed

definition cpu_limit :: limit where
  "cpu_limit = \<lparr>th_key = ''cpu'', th_label = ''CPU'', th_default = Fin 95, th_unit = ''%'', th_minimum = Fin 1, th_maximum = Some (Fin 100), th_zero_disables = False\<rparr>"

definition whole_float :: "pyfloat \<Rightarrow> string" where
  "whole_float f = (case f of Fin q \<Rightarrow> show_int \<lfloor>q\<rfloor> @ ''.0'' | _ \<Rightarrow> [])"

definition px_registry :: registry where
  "px_registry = [(''proxmox'', ''Proxmox VE'', [cpu_limit])]"

lemma px_save: "save_limits whole_float id px_registry [(''proxmox.cpu'', JInt 80)] None = (Some (dumps whole_float (JDict [(''proxmox.cpu'', JFloat (Fin 80))])), [])"
  by (simp add: save_limits_def validate_def validate_one_def declared_def px_registry_def cpu_limit_def dget_def out_of_range_def flt_ne_def)

lemma px_kept: "validate px_registry [(''proxmox.cpu'', JInt 80)] = ([(''proxmox.cpu'', Fin 80)], [])"
  by (simp add: validate_def validate_one_def declared_def px_registry_def cpu_limit_def dget_def out_of_range_def flt_ne_def)

lemma px_loads: "loads (dumps whole_float (JDict [(''proxmox.cpu'', JFloat (Fin 80))])) = Some (JDict [(''proxmox.cpu'', JFloat (Fin 80))])"
  by code_simp

theorem saved_limits_apply_witness:
  "threshold_value [cpu_limit] (overrides_for px_registry (Some (dumps whole_float (JDict [(''proxmox.cpu'', JFloat (Fin 80))]))) ''proxmox'') ''cpu'' =
   Inr (Fin 80)"
proof -
  let ?r = "dumps whole_float (JDict [(''proxmox.cpu'', JFloat (Fin 80))])"
  have "\<exists>es. loads ?r = Some (JDict (map (\<lambda>(k, v). (k, JFloat v)) es)) \<and> dict_ok es \<and> set es = set (fst (validate px_registry [(''proxmox.cpu'', JInt 80)]))"
    unfolding px_loads px_kept by (rule exI [of _ "[(''proxmox.cpu'', Fin 80)]"]) (simp add: dict_ok_def dkeys_def)
  moreover have "dget (declared px_registry) (''proxmox'' @ ''.'' @ ''cpu'') = Some (''Proxmox VE'', cpu_limit)"
    by (simp add: declared_def px_registry_def cpu_limit_def dget_def)
  moreover have "find (\<lambda>t. th_key t = ''cpu'') [cpu_limit] = Some cpu_limit" by (simp add: cpu_limit_def)
  ultimately have "threshold_value [cpu_limit] (overrides_for px_registry (Some ?r) ''proxmox'') ''cpu'' =
      Inr (case dget [(''proxmox.cpu'', JInt 80)] (''proxmox'' @ ''.'' @ ''cpu'') of None \<Rightarrow> th_default cpu_limit | Some v \<Rightarrow> the (number v))"
    by (intro saved_limits_apply [OF _ px_save]) (simp_all add: dict_ok_def dkeys_def)
  then show ?thesis by (simp add: dget_def)
qed

section \<open>Health of an integration\<close>

definition HEALTH_STORAGE_TYPES :: "string list" where "HEALTH_STORAGE_TYPES = [''truenas'', ''unas'', ''synology'']"

text \<open>The latest snapshot of a configuration: the one of the highest id.\<close>

definition latest_snap :: "string \<Rightarrow> int \<Rightarrow> snap_table \<Rightarrow> snap option" where
  "latest_snap ty i tb =
     (case filter (\<lambda>r. sn_type r = ty \<and> sn_entity r = i) (tb_rows tb) of [] \<Rightarrow> None | rs \<Rightarrow> Some (hd (sort_key (\<lambda>r. - sn_id r) rs)))"

definition success_counts :: "datetime \<Rightarrow> string \<Rightarrow> int \<Rightarrow> snap_table \<Rightarrow> nat \<times> nat" where
  "success_counts now ty i tb =
     (let rs = filter (\<lambda>r. sn_type r = ty \<and> sn_entity r = i \<and> sn_time r \<ge> now - days 1) (tb_rows tb) in (length (filter sn_ok rs), length rs))"

text \<open>A comparison of the percentage with a number raises for a value that is none.\<close>

definition pct_ge :: "json \<Rightarrow> rat \<Rightarrow> bool result" where
  "pct_ge v q = (case v of JInt i \<Rightarrow> Inr (of_int i \<ge> q) | JFloat f \<Rightarrow> Inr (flt_le (Fin q) f) | JBool b \<Rightarrow> Inr ((if b then 1 else 0) \<ge> q) | _ \<Rightarrow> Inl TypeError)"

text \<open>The first pool at 90 percent or more decides.\<close>

fun pools_score :: "json list \<Rightarrow> rat result" where
  "pools_score [] = Inr 0"
| "pools_score (p # ps) = bind_result (jget p ''pct'' (JInt 0)) (\<lambda>v. bind_result (pct_ge v 95) (\<lambda>full.
     if full then Inr (15 / 100) else bind_result (pct_ge v 90) (\<lambda>high. if high then Inr (10 / 100) else pools_score ps)))"

text \<open>Text that is no JSON and a wrong type of a percentage are caught, an attribute error is not.\<close>

definition storage_score :: "string \<Rightarrow> snap \<Rightarrow> rat result" where
  "storage_score ty sn =
     (if \<not> sn_ok sn \<or> sn_data sn \<in> {None, Some []} \<or> ty \<notin> set HEALTH_STORAGE_TYPES then Inr 0
      else (case loads (the (sn_data sn)) of
              None \<Rightarrow> Inr 0
            | Some data \<Rightarrow>
                (case bind_result (jget data ''storage_pools'' (JList [])) (\<lambda>ps. bind_result (json_iter ps) pools_score) of
                   Inr q \<Rightarrow> Inr q
                 | Inl e \<Rightarrow> if e = TypeError then Inr 0 else Inl e)))"

definition latest_score :: "snap option \<Rightarrow> rat" where
  "latest_score sn = (case sn of None \<Rightarrow> 40 / 100 | Some s \<Rightarrow> if sn_ok s then 0 else 40 / 100)"

definition rate_score :: "snap option \<Rightarrow> nat \<times> nat \<Rightarrow> rat" where
  "rate_score sn c =
     (if snd c > 0 then (1 - of_nat (fst c) / of_nat (snd c)) * (25 / 100)
      else if sn = None then 0 else 10 / 100)"

definition stale_score :: "datetime \<Rightarrow> snap option \<Rightarrow> rat" where
  "stale_score now sn =
     (case sn of
        None \<Rightarrow> 0
      | Some s \<Rightarrow> (let age = total_seconds (now - sn_time s) / 60 in if age > 10 then min (20 / 100) (age / 60 * (5 / 100)) else 0))"

definition health_score :: "datetime \<Rightarrow> snap_table \<Rightarrow> integration_config \<Rightarrow> rat result" where
  "health_score now tb cfg =
     (let sn = latest_snap (cfg_type cfg) (cfg_id cfg) tb;
          base = latest_score sn + rate_score sn (success_counts now (cfg_type cfg) (cfg_id cfg) tb) + stale_score now sn in
      bind_result (case sn of None \<Rightarrow> Inr 0 | Some s \<Rightarrow> storage_score (cfg_type cfg) s)
        (\<lambda>q. Inr (of_int (round_half_even (min (base + q) 1 * 1000)) / 1000)))"

definition compute_integration_health :: "datetime \<Rightarrow> snap_table \<Rightarrow> integration_config list \<Rightarrow> (int, rat) dict result" where
  "compute_integration_health now tb configs =
     fold_result (\<lambda>cfg out. bind_result (health_score now tb cfg) (\<lambda>q. Inr (dset out (cfg_id cfg) q))) (filter cfg_enabled configs) []"

lemma pools_score_bounds: "pools_score ps = Inr q \<Longrightarrow> 0 \<le> q \<and> q \<le> 15 / 100"
  by (induction ps arbitrary: q) (auto simp: bind_result_Inr_iff split: if_splits)

lemma storage_score_bounds: "storage_score ty sn = Inr q \<Longrightarrow> 0 \<le> q \<and> q \<le> 15 / 100"
  by (auto simp: storage_score_def bind_result_Inr_iff dest: pools_score_bounds split: if_splits option.splits sum.splits)

lemma rate_score_bounds: "fst c \<le> snd c \<Longrightarrow> 0 \<le> rate_score sn c \<and> rate_score sn c \<le> 25 / 100"
  by (auto simp: rate_score_def field_simps)

lemma stale_score_bounds: "0 \<le> stale_score now sn \<and> stale_score now sn \<le> 20 / 100"
  by (auto simp: stale_score_def Let_def split: option.split)

lemma counts_le: "fst (success_counts now ty i tb) \<le> snd (success_counts now ty i tb)"
  unfolding success_counts_def Let_def fst_conv snd_conv by (rule length_filter_le)

text \<open>A score is between 0 and 1, in steps of a thousandth.\<close>

theorem health_score_bounds:
  assumes "health_score now tb cfg = Inr h"
  shows "0 \<le> h \<and> h \<le> 1 \<and> (\<exists>n. h = of_int n / 1000)"
proof -
  let ?sn = "latest_snap (cfg_type cfg) (cfg_id cfg) tb" and ?c = "success_counts now (cfg_type cfg) (cfg_id cfg) tb"
  define base where "base = latest_score ?sn + rate_score ?sn ?c + stale_score now ?sn"
  obtain q where q: "(case ?sn of None \<Rightarrow> Inr 0 | Some s \<Rightarrow> storage_score (cfg_type cfg) s) = Inr q"
    "h = of_int (round_half_even (min (base + q) 1 * 1000)) / 1000"
    using assms unfolding health_score_def Let_def bind_result_Inr_iff base_def [symmetric] by blast
  have "0 \<le> q" using q(1) by (auto dest: storage_score_bounds split: option.splits)
  moreover have "0 \<le> latest_score ?sn" by (simp add: latest_score_def split: option.split)
  ultimately have "0 \<le> min (base + q) 1" unfolding base_def
    using rate_score_bounds [where c = ?c and sn = ?sn] counts_le [of now "cfg_type cfg" "cfg_id cfg" tb] stale_score_bounds [of now ?sn] by simp
  then have "0 \<le> round_half_even (min (base + q) 1 * 1000)" "round_half_even (min (base + q) 1 * 1000) \<le> 1000"
    by (auto intro!: round_half_even_ge round_half_even_le)
  then have "0 \<le> (of_int (round_half_even (min (base + q) 1 * 1000)) :: rat)" "(of_int (round_half_even (min (base + q) 1 * 1000)) :: rat) \<le> of_int 1000"
    by (simp_all only: of_int_le_iff of_int_0_le_iff)
  then show ?thesis unfolding q(2) by (intro conjI exI [of _ "round_half_even (min (base + q) 1 * 1000)"]) (simp_all add: divide_le_eq)
qed

text \<open>The first pool above 90 percent hides a fuller one behind it.\<close>

lemma fuller_pool_hidden:
  "pools_score [JDict [(''pct'', JInt 91)], JDict [(''pct'', JInt 99)]] = Inr (10 / 100) \<and>
   pools_score [JDict [(''pct'', JInt 99)], JDict [(''pct'', JInt 91)]] = Inr (15 / 100)"
  by (simp add: pct_ge_def dget_or_def dget_def)

end
