(* ===== verification/Collection_Cycle.thy ===== *)
theory Collection_Cycle
  imports Integration_Policy "HOL-Library.Multiset"
begin

text \<open>
  The collection of the integrations of one tenant (\<^verbatim>\<open>run_integration_checks\<close> and \<^verbatim>\<open>_run_unit\<close> of \<^verbatim>\<open>backend/scheduler.py\<close>): a pass decides which
  configurations are due, the members of a cluster group are one unit, units are collected concurrently and may outlive their pass, and the
  results go through \<open>ingest\<close>. A run is any order of the events: a pass decides, its units start, a unit ends, somebody changes the configurations.
  Several passes may have decided before one of them starts its units, because a configuration counts as being collected only from then on. The
  decision of a pass is one step. The answers of the collectors, the decryption and the clock are arguments; the configurations of other tenants
  have other ids.
\<close>

section \<open>State\<close>

record due_config =
  dc_id :: int
  dc_name :: string
  dc_group :: "string option"
  dc_config :: "(string, json) dict"
  dc_stamp :: collect_stamp

record collect_unit =
  un_type :: string
  un_members :: "due_config list"

text \<open>The registry gives the default interval of each class; \<open>de_interval\<close> is the tenant's cadence.\<close>

record decide_env =
  de_registry :: "(string, int option) dict"
  de_decrypt :: "ingest_config \<Rightarrow> string + (string, json) dict"
  de_interval :: int
  de_now :: "int \<Rightarrow> datetime"
  de_frepr :: "pyfloat \<Rightarrow> string"

text \<open>\<open>co_decided\<close>: the passes that have decided and not yet started their units. Running units carry the number of their pass, whose units share
  the set of the groups that have a primary.\<close>

record collector_state =
  co_db :: db
  co_inflight :: "int list"
  co_decided :: "collect_unit list list"
  co_running :: "(nat \<times> collect_unit) list"
  co_owners :: "(nat, (string \<times> string) list) dict"
  co_pass :: nat
  co_sent :: "notice list"

section \<open>Which configurations are due\<close>

definition id_rows :: "db \<Rightarrow> (int \<times> string) list" where
  "id_rows d =
     map (\<lambda>(i, c). (i, cfg_type c)) (sort_key fst (filter (\<lambda>(i, c). cfg_enabled c \<and> cfg_collector c = Some COLLECTOR_CORE) (db_configs d)))"

text \<open>\<^verbatim>\<open>setdefault(k, []).append(x)\<close>.\<close>

definition add_to :: "'k \<Rightarrow> 'v \<Rightarrow> ('k, 'v list) dict \<Rightarrow> ('k, 'v list) dict" where
  "add_to k x d = dset d k (dget_or d k [] @ [x])"

definition by_type :: "(int \<times> string) list \<Rightarrow> (string, int list) dict" where
  "by_type rows = fold (\<lambda>(i, t). add_to t i) rows []"

definition due_of :: "ingest_config \<Rightarrow> int \<Rightarrow> (string, json) dict \<Rightarrow> due_config" where
  "due_of cfg i conf = \<lparr>dc_id = i, dc_name = cfg_name cfg, dc_group = cfg_cluster_group cfg, dc_config = conf, dc_stamp = stamp_of cfg\<rparr>"

type_synonym decide_acc = "collect_unit list \<times> (string, due_config list) dict \<times> snap_table"

definition add_due :: "string \<Rightarrow> due_config \<Rightarrow> decide_acc \<Rightarrow> decide_acc" where
  "add_due ty m acc =
     (case acc of (units, groups, tb) \<Rightarrow>
        (case dc_group m of
           None \<Rightarrow> (units @ [\<lparr>un_type = ty, un_members = [m]\<rparr>], groups, tb)
         | Some g \<Rightarrow> if g = [] then (units @ [\<lparr>un_type = ty, un_members = [m]\<rparr>], groups, tb) else (units, add_to g m groups, tb)))"

definition decide_config :: "decide_env \<Rightarrow> db \<Rightarrow> int list \<Rightarrow> string \<Rightarrow> int option \<Rightarrow> int \<Rightarrow> decide_acc \<Rightarrow> decide_acc result" where
  "decide_config e d inflight ty cls i acc =
     (if i \<in> set inflight then Inr acc
      else (case dget (db_configs d) i of
         None \<Rightarrow> Inr acc
       | Some cfg \<Rightarrow>
           if \<not> cfg_enabled cfg \<or> cfg_collector cfg \<noteq> Some COLLECTOR_CORE then Inr acc
           else (case de_decrypt e cfg of
              Inl err \<Rightarrow> (case acc of (units, groups, tb) \<Rightarrow>
                Inr (units, groups, save (de_frepr e) (de_now e i) ty i False JNull (Some (''Decryption failed: '' @ err)) None None tb))
            | Inr conf \<Rightarrow> bind_result (effective_interval cls (Some conf) (de_interval e)) (\<lambda>iv.
                Inr (if is_due (last_timestamp ty i (snd (snd acc))) (de_now e i) iv then add_due ty (due_of cfg i conf) acc else acc)))))"

definition decide_type :: "decide_env \<Rightarrow> db \<Rightarrow> int list \<Rightarrow> string \<times> int list \<Rightarrow> collect_unit list \<times> snap_table \<Rightarrow> (collect_unit list \<times> snap_table) result" where
  "decide_type e d inflight x acc =
     (case dget (de_registry e) (fst x) of
        None \<Rightarrow> Inr acc
      | Some cls \<Rightarrow> bind_result (fold_result (decide_config e d inflight (fst x) cls) (snd x) (fst acc, [], snd acc)) (\<lambda>(units, groups, tb).
          Inr (units @ map (\<lambda>(g, ms). \<lparr>un_type = fst x, un_members = ms\<rparr>) groups, tb)))"

definition decide_units :: "decide_env \<Rightarrow> db \<Rightarrow> int list \<Rightarrow> (collect_unit list \<times> snap_table) result" where
  "decide_units e d inflight = fold_result (decide_type e d inflight) (by_type (id_rows d)) ([], db_snaps d)"

section \<open>One collection\<close>

text \<open>A limit of the class counts where it is a positive number; the limits per type and the general one come from the environment.\<close>

definition collect_timeout_for :: "(string, pyfloat) dict \<Rightarrow> pyfloat \<Rightarrow> json option \<Rightarrow> string \<Rightarrow> pyfloat" where
  "collect_timeout_for per_type general explicit ty =
     (case Option.bind explicit number of
        Some q \<Rightarrow> if flt_less (Fin 0) q then q else dget_or per_type ty general
      | None \<Rightarrow> dget_or per_type ty general)"

datatype attempt = Answered collected | Timeout | Crashed string

definition collect_one :: "(pyfloat \<Rightarrow> string) \<Rightarrow> pyfloat \<Rightarrow> attempt \<Rightarrow> collected" where
  "collect_one whole timeout a =
     (case a of
        Answered c \<Rightarrow> c
      | Timeout \<Rightarrow> Failure (Some (''collect timed out after '' @ whole timeout @ ''s''))
      | Crashed e \<Rightarrow> Raised e)"

text \<open>
  How a unit ends: what the collection of each member came to, the limits on its time (of the class, per type, general), the surroundings of its
  ingest, and after how many members writing raises, if it does.
\<close>

record unit_end =
  ue_env :: "due_config \<Rightarrow> ingest_env"
  ue_attempt :: "due_config \<Rightarrow> attempt"
  ue_explicit :: "json option"
  ue_per_type :: "(string, pyfloat) dict"
  ue_general :: pyfloat
  ue_whole :: "pyfloat \<Rightarrow> string"
  ue_raises :: "nat option"

definition apply_result :: "unit_end \<Rightarrow> string \<Rightarrow> due_config \<Rightarrow> (string \<times> string) list \<times> db \<Rightarrow> (string \<times> string) list \<times> db" where
  "apply_result r ty m s =
     (let timeout = collect_timeout_for (ue_per_type r) (ue_general r) (ue_explicit r) ty in
      case ingest (ue_env r m) ty (dc_id m) (dc_stamp m) (collect_one (ue_whole r) timeout (ue_attempt r m)) (dc_config m) None (fst s) (snd s) of
        (_, owners, d, _) \<Rightarrow> (owners, d))"

text \<open>
  The members are written in their order and committed together; an exception takes the rows back, while the streaks and the set of groups are in
  memory and keep what was done.
\<close>

definition write_unit :: "unit_end \<Rightarrow> collect_unit \<Rightarrow> (string \<times> string) list \<times> db \<Rightarrow> (string \<times> string) list \<times> db \<times> notice list" where
  "write_unit r u s =
     (case ue_raises r of
        None \<Rightarrow> (let (owners, d) = fold (apply_result r (un_type u)) (un_members u) s; (notes, session') = take_notifications (db_session d) in
                 (owners, d\<lparr>db_session := session'\<rparr>, notes))
      | Some n \<Rightarrow> (let (owners, d) = fold (apply_result r (un_type u)) (take n (un_members u)) s in
                   (owners, (snd s)\<lparr>db_session := (db_session (snd s))\<lparr>ss_streaks := ss_streaks (db_session d)\<rparr>\<rparr>, [])))"

section \<open>Events\<close>

datatype collect_event =
    Decide decide_env
  | Launch nat
  | Finish nat unit_end
  | Edit int "ingest_config option"

definition unit_ids :: "collect_unit \<Rightarrow> int list" where
  "unit_ids u = map dc_id (un_members u)"

text \<open>An administrator stores or deletes a configuration (\<open>Edit\<close>). An exception while deciding ends the pass without a commit; a pass that
  takes nothing ends.\<close>

definition decide_step :: "decide_env \<Rightarrow> collector_state \<Rightarrow> collector_state" where
  "decide_step e s =
     (case decide_units e (co_db s) (co_inflight s) of
        Inl _ \<Rightarrow> s
      | Inr (units, tb) \<Rightarrow>
          s\<lparr>co_db := (co_db s)\<lparr>db_snaps := tb\<rparr>, co_decided := (if units = [] then co_decided s else co_decided s @ [units])\<rparr>)"

definition launch_step :: "nat \<Rightarrow> collector_state \<Rightarrow> collector_state" where
  "launch_step k s =
     (if k < length (co_decided s)
      then (let units = co_decided s ! k in
            s\<lparr>co_inflight := fold (\<lambda>i fl. if i \<in> set fl then fl else fl @ [i]) (concat (map unit_ids units)) (co_inflight s),
              co_decided := take k (co_decided s) @ drop (k + 1) (co_decided s), co_running := co_running s @ map (Pair (co_pass s)) units,
              co_owners := dset (co_owners s) (co_pass s) [], co_pass := co_pass s + 1\<rparr>)
      else s)"

definition finish_step :: "nat \<Rightarrow> unit_end \<Rightarrow> collector_state \<Rightarrow> collector_state" where
  "finish_step k r s =
     (if k < length (co_running s)
      then (let (p, u) = co_running s ! k; (owners, d, notes) = write_unit r u (dget_or (co_owners s) p [], co_db s) in
            s\<lparr>co_db := d, co_inflight := filter (\<lambda>i. i \<notin> set (unit_ids u)) (co_inflight s),
              co_running := take k (co_running s) @ drop (k + 1) (co_running s), co_owners := dset (co_owners s) p owners,
              co_sent := co_sent s @ notes\<rparr>)
      else s)"

definition collect_step :: "collect_event \<Rightarrow> collector_state \<Rightarrow> collector_state" where
  "collect_step ev s =
     (case ev of
        Decide e \<Rightarrow> decide_step e s
      | Launch k \<Rightarrow> launch_step k s
      | Finish k r \<Rightarrow> finish_step k r s
      | Edit i cfg \<Rightarrow> s\<lparr>co_db := (co_db s)\<lparr>db_configs :=
          (case cfg of None \<Rightarrow> ddel (db_configs (co_db s)) i | Some c \<Rightarrow> dset (db_configs (co_db s)) i c)\<rparr>\<rparr>)"

section \<open>A pass takes exactly what is due\<close>

lemma dget_iff_entry: "dict_ok d \<Longrightarrow> dget d k = Some v \<longleftrightarrow> (k, v) \<in> set d"
  by (induction d) (force simp: dget_def dict_ok_def dkeys_def)+

lemma add_to_members: "mset (concat (map snd (add_to k x d))) = mset (concat (map snd d)) + {#x#}"
proof -
  have "mset (concat (map snd (dset d k (xs @ [x])))) = mset (concat (map snd d)) + {#x#}" if "dget d k = Some xs" for xs
    using that by (induction d) (auto simp: dget_Cons split: if_splits)
  moreover have "mset (concat (map snd (dset d k [x]))) = mset (concat (map snd d)) + {#x#}" if "dget d k = None"
    using that by (induction d) (auto simp: dget_Cons split: if_splits)
  ultimately show ?thesis by (cases "dget d k") (auto simp: add_to_def dget_or_def)
qed

lemma add_to_dict [simp]: "dict_ok d \<Longrightarrow> dict_ok (add_to k x d)"
  unfolding add_to_def by (rule dict_ok_dset)

lemma add_to_entries:
  assumes "dict_ok d"
  shows "(\<exists>xs. dget (add_to k x d) k' = Some xs \<and> y \<in> set xs) \<longleftrightarrow> (k', y) = (k, x) \<or> (\<exists>xs. dget d k' = Some xs \<and> y \<in> set xs)"
  by (auto simp: add_to_def dict_simps dget_or_def split: option.splits)

lemma by_type_ids: "mset (concat (map snd (by_type rows))) = mset (map fst rows)"
proof -
  have "mset (concat (map snd (fold (\<lambda>(i, t). add_to t i) rows d))) = mset (concat (map snd d)) + mset (map fst rows)" for d
    by (induction rows arbitrary: d) (auto simp: add_to_members)
  then show ?thesis by (simp add: by_type_def)
qed

lemma by_type_entries:
  "dict_ok (by_type rows) \<and> ((\<exists>xs. dget (by_type rows) t = Some xs \<and> i \<in> set xs) \<longleftrightarrow> (i, t) \<in> set rows)"
proof -
  have "dict_ok d \<Longrightarrow> dict_ok (fold (\<lambda>(i, t). add_to t i) rows d) \<and>
      ((\<exists>xs. dget (fold (\<lambda>(i, t). add_to t i) rows d) t = Some xs \<and> i \<in> set xs) \<longleftrightarrow> (i, t) \<in> set rows \<or> (\<exists>xs. dget d t = Some xs \<and> i \<in> set xs))" for d
  proof (induction rows arbitrary: d)
    case (Cons r rows)
    then show ?case using add_to_entries [of d "snd r" "fst r" t i] by (auto simp: case_prod_unfold)
  qed simp
  from this [of "[]"] show ?thesis by (simp add: by_type_def)
qed

definition due_now :: "decide_env \<Rightarrow> db \<Rightarrow> int list \<Rightarrow> snap_table \<Rightarrow> string \<Rightarrow> int option \<Rightarrow> int \<Rightarrow> bool" where
  "due_now e d inflight tb ty cls i \<longleftrightarrow> i \<notin> set inflight \<and>
     (\<exists>cfg conf iv. dget (db_configs d) i = Some cfg \<and> cfg_enabled cfg \<and> cfg_collector cfg = Some COLLECTOR_CORE \<and> de_decrypt e cfg = Inr conf \<and>
        effective_interval cls (Some conf) (de_interval e) = Inr iv \<and> is_due (last_timestamp ty i tb) (de_now e i) iv)"

definition acc_ids :: "decide_acc \<Rightarrow> int list" where
  "acc_ids acc = concat (map unit_ids (fst acc)) @ map dc_id (concat (map snd (fst (snd acc))))"

lemma add_due_ids: "mset (acc_ids (add_due ty m acc)) = mset (acc_ids acc) + {#dc_id m#}"
proof -
  have "mset (map dc_id (concat (map snd (add_to g m gs)))) = mset (map dc_id (concat (map snd gs))) + {#dc_id m#}" for g gs
    by (simp only: mset_map add_to_members image_mset_union image_mset_single)
  then show ?thesis by (cases acc) (auto simp: add_due_def acc_ids_def unit_ids_def simp del: map_concat split: option.split)
qed

lemma add_due_changes: "add_due ty m acc \<noteq> acc"
proof
  assume "add_due ty m acc = acc"
  then show False using add_due_ids [of ty m acc] by simp
qed

lemma save_rows: "(t, c) \<noteq> (ty, i) \<Longrightarrow> rows_of t c (save f now ty i ok dt err when by tb) = rows_of t c tb"
  by (auto simp: save_def rows_of_def)

lemma add_due_table [simp]: "snd (snd (add_due ty m acc)) = snd (snd acc)"
  by (cases acc) (auto simp: add_due_def split: option.split)

lemma decide_config_step:
  assumes "decide_config e d fl ty cls i acc = Inr acc'"
  shows "mset (acc_ids acc') = mset (acc_ids acc) + (if due_now e d fl (snd (snd acc)) ty cls i then {#i#} else {#})"
    and "(t, c) \<noteq> (ty, i) \<Longrightarrow> rows_of t c (snd (snd acc')) = rows_of t c (snd (snd acc))"
  using assms
  by (auto simp: decide_config_def due_now_def add_due_ids add_due_changes due_of_def bind_result_Inr_iff save_rows split: if_splits option.splits sum.splits prod.splits)
    (simp_all add: acc_ids_def)

lemma last_timestamp_cong: "rows_of ty i tb = rows_of ty i tb' \<Longrightarrow> due_now e d fl tb ty cls i = due_now e d fl tb' ty cls i"
  by (simp add: due_now_def last_timestamp_def)

lemma decide_configs:
  assumes "fold_result (decide_config e d fl ty cls) ids acc = Inr acc'" "distinct ids" "\<forall>i \<in> set ids. rows_of ty i (snd (snd acc)) = rows_of ty i tb"
  shows "mset (acc_ids acc') = mset (acc_ids acc) + mset (filter (due_now e d fl tb ty cls) ids)"
    and "(t, c) \<notin> {ty} \<times> set ids \<Longrightarrow> rows_of t c (snd (snd acc')) = rows_of t c (snd (snd acc))"
  using assms
proof (induction ids arbitrary: acc)
  case (Cons i ids)
  { case 1
    then obtain a where a: "decide_config e d fl ty cls i acc = Inr a" "fold_result (decide_config e d fl ty cls) ids a = Inr acc'"
      by (auto simp: bind_result_Inr_iff)
    have r: "\<forall>j \<in> set ids. rows_of ty j (snd (snd a)) = rows_of ty j tb"
    proof
      fix j assume j: "j \<in> set ids"
      then have "j \<noteq> i" using 1 by auto
      then show "rows_of ty j (snd (snd a)) = rows_of ty j tb" using 1 j decide_config_step(2) [OF a(1), of ty j] by simp
    qed
    have "mset (acc_ids a) = mset (acc_ids acc) + (if due_now e d fl tb ty cls i then {#i#} else {#})"
      using decide_config_step(1) [OF a(1)] last_timestamp_cong [of ty i "snd (snd acc)" tb] 1 by simp
    then show ?case using Cons.IH(1) [OF a(2) _ r] 1 by simp }
  { case 2
    then obtain a where a: "decide_config e d fl ty cls i acc = Inr a" "fold_result (decide_config e d fl ty cls) ids a = Inr acc'"
      by (auto simp: bind_result_Inr_iff)
    have r: "\<forall>j \<in> set ids. rows_of ty j (snd (snd a)) = rows_of ty j tb"
    proof
      fix j assume j: "j \<in> set ids"
      then have "j \<noteq> i" using 2 by auto
      then show "rows_of ty j (snd (snd a)) = rows_of ty j tb" using 2 j decide_config_step(2) [OF a(1), of ty j] by simp
    qed
    have "rows_of t c (snd (snd acc')) = rows_of t c (snd (snd a))" by (rule Cons.IH(2) [OF _ a(2) _ r]) (use 2 in auto)
    then show ?case using decide_config_step(2) [OF a(1), of t c] 2(1) by simp }
qed simp_all

definition taken :: "decide_env \<Rightarrow> db \<Rightarrow> int list \<Rightarrow> snap_table \<Rightarrow> string \<times> int list \<Rightarrow> int list" where
  "taken e d fl tb x = (case dget (de_registry e) (fst x) of None \<Rightarrow> [] | Some cls \<Rightarrow> filter (due_now e d fl tb (fst x) cls) (snd x))"

lemma decide_type_ids:
  assumes "decide_type e d fl x acc = Inr acc'" "distinct (snd x)" "\<forall>i \<in> set (snd x). rows_of (fst x) i (snd acc) = rows_of (fst x) i tb"
  shows "mset (concat (map unit_ids (fst acc'))) = mset (concat (map unit_ids (fst acc))) + mset (taken e d fl tb x)"
    and "t \<noteq> fst x \<Longrightarrow> rows_of t c (snd acc') = rows_of t c (snd acc)"
proof -
  have "mset (concat (map unit_ids (fst acc'))) = mset (concat (map unit_ids (fst acc))) + mset (taken e d fl tb x) \<and>
      (t \<noteq> fst x \<longrightarrow> rows_of t c (snd acc') = rows_of t c (snd acc))"
  proof (cases "dget (de_registry e) (fst x)")
    case None
    then show ?thesis using assms(1) by (simp add: decide_type_def taken_def)
  next
    case (Some cls)
    then obtain units groups tb' where f: "fold_result (decide_config e d fl (fst x) cls) (snd x) (fst acc, [], snd acc) = Inr (units, groups, tb')"
      and acc': "acc' = (units @ map (\<lambda>(g, ms). \<lparr>un_type = fst x, un_members = ms\<rparr>) groups, tb')"
      using assms(1) by (auto simp: decide_type_def bind_result_Inr_iff)
    have "concat (map unit_ids (map (\<lambda>(g, ms). \<lparr>un_type = fst x, un_members = ms\<rparr>) groups)) = map dc_id (concat (map snd groups))"
      by (induction groups) (auto simp: unit_ids_def)
    then show ?thesis using decide_configs(1) [OF f assms(2)] decide_configs(2) [OF f assms(2), of tb t c] assms(3) Some
      by (auto simp: acc' acc_ids_def taken_def)
  qed
  then show "mset (concat (map unit_ids (fst acc'))) = mset (concat (map unit_ids (fst acc))) + mset (taken e d fl tb x)"
    and "t \<noteq> fst x \<Longrightarrow> rows_of t c (snd acc') = rows_of t c (snd acc)" by blast+
qed

lemma decide_types_ids:
  assumes "fold_result (decide_type e d fl) xs acc = Inr acc'" "distinct (map fst xs)" "distinct (concat (map snd xs))"
    "\<forall>x \<in> set xs. \<forall>i. rows_of (fst x) i (snd acc) = rows_of (fst x) i tb"
  shows "mset (concat (map unit_ids (fst acc'))) = mset (concat (map unit_ids (fst acc))) + mset (concat (map (taken e d fl tb) xs))"
  using assms
proof (induction xs arbitrary: acc)
  case (Cons x xs)
  then obtain a where a: "decide_type e d fl x acc = Inr a" "fold_result (decide_type e d fl) xs a = Inr acc'" by (auto simp: bind_result_Inr_iff)
  have x: "distinct (snd x)" "\<forall>i \<in> set (snd x). rows_of (fst x) i (snd acc) = rows_of (fst x) i tb" using Cons.prems by auto
  have "\<forall>y \<in> set xs. \<forall>i. rows_of (fst y) i (snd a) = rows_of (fst y) i tb"
  proof (intro ballI allI)
    fix y i assume y: "y \<in> set xs"
    have "fst y \<in> set (map fst xs)" "fst x \<notin> set (map fst xs)" using Cons.prems(2) y by simp_all
    then have "fst y \<noteq> fst x" by metis
    then show "rows_of (fst y) i (snd a) = rows_of (fst y) i tb" using decide_type_ids(2) [OF a(1) x] Cons.prems(4) y by simp
  qed
  then show ?case using Cons.IH [OF a(2)] Cons.prems decide_type_ids(1) [OF a(1) x] by simp
qed simp

text \<open>What a pass should take: the enabled configurations of the core whose class exists, that decrypt, are due and are not being collected.\<close>

definition takes_now :: "decide_env \<Rightarrow> db \<Rightarrow> int list \<Rightarrow> int \<Rightarrow> bool" where
  "takes_now e d inflight i \<longleftrightarrow>
     (\<exists>cfg cls. dget (db_configs d) i = Some cfg \<and> dget (de_registry e) (cfg_type cfg) = Some cls \<and> due_now e d inflight (db_snaps d) (cfg_type cfg) cls i)"

lemma id_rows_set: "dict_ok (db_configs d) \<Longrightarrow> (i, t) \<in> set (id_rows d) \<longleftrightarrow>
    (\<exists>c. dget (db_configs d) i = Some c \<and> cfg_type c = t \<and> cfg_enabled c \<and> cfg_collector c = Some COLLECTOR_CORE)"
  by (auto simp: id_rows_def dget_iff_entry image_iff)

lemma id_rows_distinct: "dict_ok (db_configs d) \<Longrightarrow> distinct (map fst (id_rows d))"
  by (simp add: id_rows_def dict_ok_def dkeys_def case_prod_unfold comp_def distinct_map_filter distinct_map inj_on_def)

lemma decide_exact:
  assumes "decide_units e d fl = Inr (units, tb)" "dict_ok (db_configs d)"
  shows "distinct (concat (map unit_ids units)) \<and> (i \<in> set (concat (map unit_ids units)) \<longleftrightarrow> takes_now e d fl i)"
proof -
  let ?b = "by_type (id_rows d)"
  have ok: "dict_ok ?b" using by_type_entries by blast
  have dist: "distinct (concat (map snd ?b))"
    using by_type_ids [of "id_rows d"] id_rows_distinct [OF assms(2)] by (metis mset_eq_imp_distinct_iff)
  have m: "mset (concat (map unit_ids units)) = mset (concat (map (taken e d fl (db_snaps d)) ?b))"
    using decide_types_ids [of e d fl ?b "([], db_snaps d)" "(units, tb)" "db_snaps d"] assms(1) ok dist
    by (simp add: decide_units_def dict_ok_def dkeys_def)
  have "distinct (concat (map (taken e d fl (db_snaps d)) xs))" if "distinct (concat (map snd xs))" for xs
    using that by (induction xs) (auto simp: taken_def split: option.split)
  then have "distinct (concat (map unit_ids units))" using m dist by (metis mset_eq_imp_distinct_iff)
  moreover have "i \<in> set (concat (map unit_ids units)) \<longleftrightarrow> (\<exists>x \<in> set ?b. i \<in> set (taken e d fl (db_snaps d) x))"
    using mset_eq_setD [OF m] by auto
  moreover have "(\<exists>x \<in> set ?b. i \<in> set (taken e d fl (db_snaps d) x)) \<longleftrightarrow>
      (\<exists>t cls. (\<exists>xs. dget ?b t = Some xs \<and> i \<in> set xs) \<and> dget (de_registry e) t = Some cls \<and> due_now e d fl (db_snaps d) t cls i)"
    using ok by (force simp: taken_def dget_iff_entry split: option.splits)
  ultimately show ?thesis using by_type_entries [of "id_rows d"] id_rows_set [OF assms(2)] by (auto simp: takes_now_def due_now_def)
qed

section \<open>A unit is one configuration or one cluster group\<close>

definition grouped :: "due_config \<Rightarrow> bool" where
  "grouped m \<longleftrightarrow> dc_group m \<notin> {None, Some []}"

definition coherent :: "collect_unit \<Rightarrow> bool" where
  "coherent u \<longleftrightarrow> (\<exists>m. un_members u = [m] \<and> \<not> grouped m) \<or> (\<exists>g. g \<noteq> [] \<and> un_members u \<noteq> [] \<and> (\<forall>m \<in> set (un_members u). dc_group m = Some g))"

definition group_units :: "collect_unit list \<Rightarrow> (string \<times> string option) list" where
  "group_units us = map (\<lambda>u. (un_type u, dc_group (hd (un_members u)))) (filter (\<lambda>u. grouped (hd (un_members u))) us)"

definition acc_ok :: "string \<Rightarrow> collect_unit list \<Rightarrow> decide_acc \<Rightarrow> bool" where
  "acc_ok ty units0 acc \<longleftrightarrow>
     (\<exists>singles. fst acc = units0 @ singles \<and> (\<forall>u \<in> set singles. un_type u = ty \<and> coherent u \<and> \<not> grouped (hd (un_members u)))) \<and>
     dict_ok (fst (snd acc)) \<and> (\<forall>g ms. dget (fst (snd acc)) g = Some ms \<longrightarrow> g \<noteq> [] \<and> ms \<noteq> [] \<and> (\<forall>m \<in> set ms. dc_group m = Some g))"

lemma add_due_ok:
  assumes "acc_ok ty units0 acc"
  shows "acc_ok ty units0 (add_due ty m acc)"
proof -
  obtain units groups tb where acc: "acc = (units, groups, tb)" by (cases acc)
  obtain singles where s: "units = units0 @ singles" "\<forall>u \<in> set singles. un_type u = ty \<and> coherent u \<and> \<not> grouped (hd (un_members u))"
    and ok: "dict_ok groups" "\<And>g ms. dget groups g = Some ms \<Longrightarrow> g \<noteq> [] \<and> ms \<noteq> [] \<and> (\<forall>m \<in> set ms. dc_group m = Some g)"
    using assms by (auto simp: acc_ok_def acc)
  show ?thesis
  proof (cases "grouped m")
    case True
    then obtain g where g: "dc_group m = Some g" "g \<noteq> []" by (auto simp: grouped_def)
    have "acc_ok ty units0 (units, add_to g m groups, tb)" unfolding acc_ok_def fst_conv snd_conv
    proof (intro conjI)
      show "dict_ok (add_to g m groups)" using ok(1) by simp
      show "\<forall>g' ms. dget (add_to g m groups) g' = Some ms \<longrightarrow> g' \<noteq> [] \<and> ms \<noteq> [] \<and> (\<forall>m \<in> set ms. dc_group m = Some g')"
        using g ok(2) by (cases "dget groups g") (auto simp: add_to_def dict_simps dget_or_def)
    qed (use s in blast)
    then show ?thesis using g by (simp add: add_due_def acc)
  next
    case False
    have "acc_ok ty units0 (units @ [\<lparr>un_type = ty, un_members = [m]\<rparr>], groups, tb)" unfolding acc_ok_def fst_conv snd_conv
    proof (intro conjI)
      show "\<exists>singles. units @ [\<lparr>un_type = ty, un_members = [m]\<rparr>] = units0 @ singles \<and>
          (\<forall>u \<in> set singles. un_type u = ty \<and> coherent u \<and> \<not> grouped (hd (un_members u)))"
        using s False by (intro exI [of _ "singles @ [\<lparr>un_type = ty, un_members = [m]\<rparr>]"]) (auto simp: coherent_def)
    qed (use ok in blast)+
    then show ?thesis using False by (auto simp: add_due_def acc grouped_def split: option.split)
  qed
qed

lemma acc_ok_table: "acc_ok ty units0 (units, groups, tb) \<Longrightarrow> acc_ok ty units0 (units, groups, tb')"
  by (simp add: acc_ok_def)

lemma decide_config_ok: "acc_ok ty units0 acc \<Longrightarrow> decide_config e d fl ty cls i acc = Inr acc' \<Longrightarrow> acc_ok ty units0 acc'"
  by (auto simp: decide_config_def bind_result_Inr_iff add_due_ok acc_ok_table split: if_splits option.splits sum.splits prod.splits)

lemma group_units_append: "group_units (us @ vs) = group_units us @ group_units vs"
  by (simp add: group_units_def)

lemma group_units_entries:
  assumes "\<forall>x \<in> set gs. fst x \<noteq> [] \<and> snd x \<noteq> [] \<and> (\<forall>m \<in> set (snd x). dc_group m = Some (fst x))"
  shows "group_units (map (\<lambda>(g, ms). \<lparr>un_type = ty, un_members = ms\<rparr>) gs) = map (\<lambda>g. (ty, Some g)) (map fst gs)"
  using assms
proof (induction gs)
  case (Cons x gs)
  obtain g ms where x: "x = (g, ms)" by (cases x)
  have "dc_group (hd ms) = Some g" "g \<noteq> []" using Cons.prems by (simp_all add: x)
  then show ?case using Cons by (simp add: x group_units_def grouped_def)
qed (simp add: group_units_def)

lemma decide_type_acc:
  assumes "fold_result (decide_config e d fl ty cls) ids (units, [], tb) = Inr (us, groups, tb')"
  shows "acc_ok ty units (us, groups, tb')"
proof (rule fold_result_invariant [OF assms])
  show "acc_ok ty units (units, [], tb)" by (simp add: acc_ok_def)
qed (rule decide_config_ok)

lemma decide_type_groups:
  assumes "decide_type e d fl x (units, tb) = Inr (units', tb')"
  obtains new where "units' = units @ new" "\<forall>u \<in> set new. un_type u = fst x \<and> coherent u" "distinct (group_units new)"
proof (cases "dget (de_registry e) (fst x)")
  case None
  then show ?thesis using assms that [of "[]"] by (simp add: decide_type_def group_units_def)
next
  case (Some cls)
  then obtain us groups where f: "fold_result (decide_config e d fl (fst x) cls) (snd x) (units, [], tb) = Inr (us, groups, tb')"
    and u': "units' = us @ map (\<lambda>(g, ms). \<lparr>un_type = fst x, un_members = ms\<rparr>) groups"
    using assms by (auto simp: decide_type_def bind_result_Inr_iff)
  obtain singles where s: "us = units @ singles" "\<forall>u \<in> set singles. un_type u = fst x \<and> coherent u \<and> \<not> grouped (hd (un_members u))"
    and ok: "dict_ok groups" "\<forall>g ms. dget groups g = Some ms \<longrightarrow> g \<noteq> [] \<and> ms \<noteq> [] \<and> (\<forall>m \<in> set ms. dc_group m = Some g)"
    using decide_type_acc [OF f] unfolding acc_ok_def fst_conv snd_conv by blast
  have ent: "\<forall>x \<in> set groups. fst x \<noteq> [] \<and> snd x \<noteq> [] \<and> (\<forall>m \<in> set (snd x). dc_group m = Some (fst x))"
    using ok(2) unfolding dget_iff_entry [OF ok(1)] by (metis prod.collapse)
  let ?grp = "map (\<lambda>(g, ms). \<lparr>un_type = fst x, un_members = ms\<rparr>) groups"
  have "group_units singles = []" using s(2) by (simp add: group_units_def filter_empty_conv)
  then have "distinct (group_units (singles @ ?grp))"
    using ok(1) by (simp add: group_units_append group_units_entries [OF ent] dict_ok_def dkeys_def distinct_map inj_on_def comp_def)
  moreover have "\<forall>u \<in> set ?grp. un_type u = fst x \<and> coherent u"
  proof
    fix u assume "u \<in> set ?grp"
    then obtain g ms where u: "u = \<lparr>un_type = fst x, un_members = ms\<rparr>" "(g, ms) \<in> set groups" by auto
    then show "un_type u = fst x \<and> coherent u" using bspec [OF ent u(2)] unfolding coherent_def u(1) by auto
  qed
  ultimately show ?thesis using that [of "singles @ ?grp"] s u' by auto
qed

lemma decide_types_groups:
  assumes "fold_result (decide_type e d fl) xs acc = Inr acc'" "distinct (map fst xs)"
    "\<forall>u \<in> set (fst acc). coherent u \<and> un_type u \<notin> fst ` set xs" "distinct (group_units (fst acc))"
  shows "(\<forall>u \<in> set (fst acc'). coherent u) \<and> distinct (group_units (fst acc'))"
  using assms
proof (induction xs arbitrary: acc)
  case (Cons x xs)
  then obtain a where a: "decide_type e d fl x acc = Inr a" "fold_result (decide_type e d fl) xs a = Inr acc'" by (auto simp: bind_result_Inr_iff)
  obtain new where new: "fst a = fst acc @ new" "\<forall>u \<in> set new. un_type u = fst x \<and> coherent u" "distinct (group_units new)"
    by (rule decide_type_groups [of e d fl x "fst acc" "snd acc" "fst a" "snd a"]) (simp_all add: a)
  have "distinct (group_units (fst a))" using new Cons.prems(3,4) by (auto simp: new(1) group_units_def)
  moreover have "\<forall>u \<in> set (fst a). coherent u \<and> un_type u \<notin> fst ` set xs"
    using new(2) Cons.prems(2,3) unfolding new(1) set_append by (metis Un_iff distinct.simps(2) image_insert insertCI list.simps(15) list.simps(9) set_map)
  ultimately show ?case using Cons.IH [OF a(2)] Cons.prems(2) by simp
qed simp

lemma decide_groups:
  assumes "decide_units e d fl = Inr (units, tb)"
  shows "(\<forall>u \<in> set units. coherent u) \<and> distinct (group_units units)"
  using decide_types_groups [of e d fl "by_type (id_rows d)" "([], db_snaps d)" "(units, tb)"] assms by_type_entries [of "id_rows d"]
  by (simp add: decide_units_def group_units_def dict_ok_def dkeys_def)

section \<open>No configuration is collected twice at once\<close>

definition running_ids :: "collector_state \<Rightarrow> int list" where
  "running_ids s = concat (map (\<lambda>x. unit_ids (snd x)) (co_running s))"

definition decided_ids :: "collector_state \<Rightarrow> int list" where
  "decided_ids s = concat (map unit_ids (concat (co_decided s)))"

text \<open>In every run the ids in memory belong to running units.\<close>

definition collector_ok :: "collector_state \<Rightarrow> bool" where
  "collector_ok s \<longleftrightarrow> dict_ok (db_configs (co_db s)) \<and> set (co_inflight s) \<subseteq> set (running_ids s)"

text \<open>As long as a pass decides only when no other one is between deciding and starting its units, more holds.\<close>

definition collector_apart :: "collector_state \<Rightarrow> bool" where
  "collector_apart s \<longleftrightarrow> dict_ok (db_configs (co_db s)) \<and> distinct (running_ids s @ decided_ids s) \<and> set (co_inflight s) = set (running_ids s)"

fun passes_apart :: "collect_event list \<Rightarrow> collector_state \<Rightarrow> bool" where
  "passes_apart [] s \<longleftrightarrow> True"
| "passes_apart (ev # evs) s \<longleftrightarrow>
     (case ev of Decide e \<Rightarrow> co_decided s = [] | _ \<Rightarrow> True) \<and> passes_apart evs (collect_step ev s)"

lemma add_all_set: "set (fold (\<lambda>i fl. if i \<in> set fl then fl else fl @ [i]) is fl) = set fl \<union> set is"
  by (induction "is" arbitrary: fl) auto

lemma decide_fields:
  "co_running (decide_step e s) = co_running s" "co_inflight (decide_step e s) = co_inflight s" "db_configs (co_db (decide_step e s)) = db_configs (co_db s)"
  by (auto simp: decide_step_def split: sum.split)

lemma launch_fields:
  assumes "k < length (co_decided s)"
  shows "running_ids (launch_step k s) = running_ids s @ concat (map unit_ids (co_decided s ! k))"
    and "set (co_inflight (launch_step k s)) = set (co_inflight s) \<union> set (concat (map unit_ids (co_decided s ! k)))"
    and "co_db (launch_step k s) = co_db s"
    and "mset (decided_ids s) = mset (decided_ids (launch_step k s)) + mset (concat (map unit_ids (co_decided s ! k)))"
proof -
  have split: "co_decided s = take k (co_decided s) @ co_decided s ! k # drop (k + 1) (co_decided s)" using id_take_nth_drop [OF assms] by simp
  have "decided_ids s = concat (map unit_ids (concat (take k (co_decided s)))) @ concat (map unit_ids (co_decided s ! k)) @
      concat (map unit_ids (concat (drop (k + 1) (co_decided s))))" unfolding decided_ids_def by (subst split) simp
  then show "mset (decided_ids s) = mset (decided_ids (launch_step k s)) + mset (concat (map unit_ids (co_decided s ! k)))"
    using assms by (simp add: launch_step_def decided_ids_def Let_def)
qed (use assms in \<open>simp_all add: launch_step_def running_ids_def add_all_set comp_def Let_def\<close>)

lemma apply_keeps_dict: "dict_ok (db_configs (snd s)) \<Longrightarrow> dict_ok (db_configs (snd (apply_result r ty m s)))"
  by (auto simp: apply_result_def ingest_def with_failure_def Let_def split: option.split collected.split)

lemma applies_keep_dict: "dict_ok (db_configs (snd s)) \<Longrightarrow> dict_ok (db_configs (snd (fold (apply_result r ty) ms s)))"
  by (induction ms arbitrary: s) (simp_all add: apply_keeps_dict)

lemma write_keeps_dict: "dict_ok (db_configs (snd s)) \<Longrightarrow> dict_ok (db_configs (fst (snd (write_unit r u s))))"
  by (simp add: write_unit_def Let_def case_prod_unfold applies_keep_dict split: option.split)

lemma finish_fields:
  assumes "k < length (co_running s)"
  obtains A B where "running_ids s = A @ unit_ids (snd (co_running s ! k)) @ B" "running_ids (finish_step k r s) = A @ B"
    "co_inflight (finish_step k r s) = filter (\<lambda>i. i \<notin> set (unit_ids (snd (co_running s ! k)))) (co_inflight s)"
    "co_decided (finish_step k r s) = co_decided s" "dict_ok (db_configs (co_db s)) \<Longrightarrow> dict_ok (db_configs (co_db (finish_step k r s)))"
proof -
  let ?x = "co_running s ! k" and ?ids = "\<lambda>rs. concat (map (\<lambda>x. unit_ids (snd x)) rs)" and ?s = "finish_step k r s"
  have f: "co_running ?s = take k (co_running s) @ drop (k + 1) (co_running s)"
    "co_inflight ?s = filter (\<lambda>i. i \<notin> set (unit_ids (snd ?x))) (co_inflight s)" "co_decided ?s = co_decided s"
    "co_db ?s = fst (snd (write_unit r (snd ?x) (dget_or (co_owners s) (fst ?x) [], co_db s)))"
    using assms by (simp_all add: finish_step_def Let_def case_prod_unfold)
  have split: "co_running s = take k (co_running s) @ ?x # drop (k + 1) (co_running s)" using id_take_nth_drop [OF assms] by simp
  then have "running_ids s = ?ids (take k (co_running s)) @ unit_ids (snd ?x) @ ?ids (drop (k + 1) (co_running s))"
    unfolding running_ids_def by (metis (no_types, lifting) concat.simps(2) concat_append list.simps(9) map_append)
  moreover have "running_ids ?s = ?ids (take k (co_running s)) @ ?ids (drop (k + 1) (co_running s))" by (simp add: running_ids_def f)
  ultimately show ?thesis using that f(2,3,4) by (simp add: write_keeps_dict)
qed

lemma collect_keeps: "collector_ok s \<Longrightarrow> collector_ok (collect_step ev s)"
proof (cases ev)
  case (Decide e)
  assume "collector_ok s"
  then show ?thesis using Decide by (simp add: collect_step_def collector_ok_def running_ids_def decide_fields)
next
  case (Launch k)
  assume "collector_ok s"
  then show ?thesis using Launch launch_fields [of k s]
    by (cases "k < length (co_decided s)") (auto simp: collect_step_def collector_ok_def launch_step_def [of k s])
next
  case (Finish k r)
  assume ok: "collector_ok s"
  show ?thesis
  proof (cases "k < length (co_running s)")
    case True
    then show ?thesis
      by (rule finish_fields [of k s r]) (use ok Finish in \<open>auto simp: collect_step_def collector_ok_def\<close>)
  qed (use ok Finish in \<open>simp add: collect_step_def finish_step_def\<close>)
next
  case (Edit i cfg)
  then show "collector_ok s \<Longrightarrow> ?thesis"
    by (auto simp: collect_step_def collector_ok_def running_ids_def split: option.split)
qed

interpretation collecting: step_system collect_step collector_ok
  by unfold_locales (rule collect_keeps)

lemma decide_apart:
  assumes "collector_apart s" "co_decided s = []"
  shows "collector_apart (decide_step e s)"
proof (cases "decide_units e (co_db s) (co_inflight s)")
  case (Inr x)
  obtain units tb where u: "decide_units e (co_db s) (co_inflight s) = Inr (units, tb)" using Inr by (cases x) auto
  have d: "dict_ok (db_configs (co_db s))" using assms(1) by (simp add: collector_apart_def)
  have "set (concat (map unit_ids units)) \<inter> set (running_ids s) = {}"
    using decide_exact [OF u d] assms(1) by (auto simp: takes_now_def due_now_def collector_apart_def)
  moreover have "distinct (concat (map unit_ids units))" using decide_exact [OF u d] by blast
  moreover have "decided_ids (decide_step e s) = concat (map unit_ids units)" using u assms(2) by (simp add: decide_step_def decided_ids_def)
  ultimately show ?thesis using assms(1)
    unfolding collector_apart_def running_ids_def decide_fields by (auto simp: running_ids_def)
next
  case (Inl err)
  then show ?thesis using assms(1) by (simp add: decide_step_def)
qed

lemma apart_keeps:
  assumes "collector_apart s" "case ev of Decide e \<Rightarrow> co_decided s = [] | _ \<Rightarrow> True"
  shows "collector_apart (collect_step ev s)"
proof (cases ev)
  case (Launch k)
  show ?thesis
  proof (cases "k < length (co_decided s)")
    case True
    note l = launch_fields [OF True]
    have "mset (running_ids (launch_step k s) @ decided_ids (launch_step k s)) = mset (running_ids s @ decided_ids s)"
      using l(1,4) by simp
    then have "distinct (running_ids (launch_step k s) @ decided_ids (launch_step k s))"
      using assms(1) mset_eq_imp_distinct_iff unfolding collector_apart_def by blast
    then show ?thesis using assms(1) l(1,2,3) Launch by (auto simp: collect_step_def collector_apart_def)
  qed (use assms(1) Launch in \<open>simp add: collect_step_def launch_step_def\<close>)
next
  case (Finish k r)
  show ?thesis
  proof (cases "k < length (co_running s)")
    case True
    then show ?thesis
      by (rule finish_fields [of k s r]) (use assms(1) Finish in \<open>auto simp: collect_step_def collector_apart_def decided_ids_def\<close>)
  qed (use assms(1) Finish in \<open>simp add: collect_step_def finish_step_def\<close>)
next
  case (Edit i cfg)
  then show ?thesis using assms(1)
    by (auto simp: collect_step_def collector_apart_def running_ids_def decided_ids_def split: option.split)
qed (use assms in \<open>simp add: collect_step_def decide_apart\<close>)

lemma passes_apart_run: "collector_apart s \<Longrightarrow> passes_apart evs s \<Longrightarrow> collector_apart (fold collect_step evs s)"
  by (induction evs arbitrary: s) (simp_all add: apart_keeps)

definition idle :: "db \<Rightarrow> collector_state" where
  "idle d = \<lparr>co_db = d, co_inflight = [], co_decided = [], co_running = [], co_owners = [], co_pass = 0, co_sent = []\<rparr>"

text \<open>
  C13. Whatever the order of passes, also overlapping ones, slow and failing units and changes of the configurations: the ids in memory are those of
  running units, and a pass that decides takes exactly the configurations that are enabled, assigned to the core, decryptable, due and not in
  memory; each unit it forms is a single configuration or all of a cluster group that it takes. As long as no pass decides while another one is
  between its decision and the start of its units, no two running units share a configuration and the ids in memory are all that run.
\<close>

theorem collected_once:
  assumes "dict_ok (db_configs d)"
  defines "s \<equiv> \<lambda>evs. fold collect_step evs (idle d)"
  shows "set (co_inflight (s evs)) \<subseteq> set (running_ids (s evs)) \<and>
    (\<forall>e units tb. decide_units e (co_db (s evs)) (co_inflight (s evs)) = Inr (units, tb) \<longrightarrow>
       distinct (concat (map unit_ids units)) \<and> set (concat (map unit_ids units)) = {i. takes_now e (co_db (s evs)) (co_inflight (s evs)) i} \<and>
       (\<forall>u \<in> set units. coherent u) \<and> distinct (group_units units)) \<and>
    (passes_apart evs (idle d) \<longrightarrow> distinct (running_ids (s evs)) \<and> set (co_inflight (s evs)) = set (running_ids (s evs)))"
proof (intro conjI allI impI)
  have "collector_ok (idle d)" using assms(1) by (simp add: idle_def collector_ok_def)
  then have ok: "collector_ok (s evs)" unfolding s_def by (rule collecting.run_good)
  then show "set (co_inflight (s evs)) \<subseteq> set (running_ids (s evs))" by (simp add: collector_ok_def)
  have d: "dict_ok (db_configs (co_db (s evs)))" using ok by (simp add: collector_ok_def)
  fix e units tb assume u: "decide_units e (co_db (s evs)) (co_inflight (s evs)) = Inr (units, tb)"
  show "distinct (concat (map unit_ids units))" "set (concat (map unit_ids units)) = {i. takes_now e (co_db (s evs)) (co_inflight (s evs)) i}"
    using decide_exact [OF u d] by blast+
  show "\<forall>u \<in> set units. coherent u" "distinct (group_units units)" using decide_groups [OF u] by blast+
next
  assume "passes_apart evs (idle d)"
  moreover have "collector_apart (idle d)" using assms(1) by (simp add: idle_def collector_apart_def running_ids_def decided_ids_def)
  ultimately have "collector_apart (s evs)" unfolding s_def by (intro passes_apart_run)
  then show "distinct (running_ids (s evs))" "set (co_inflight (s evs)) = set (running_ids (s evs))" by (auto simp: collector_apart_def)
qed

text \<open>
  A configuration due every minute: the pass at the start takes it; a pass a minute later skips it while it is being collected, and one after its
  end takes it again.
\<close>

definition minute_pass :: "int \<Rightarrow> decide_env" where
  "minute_pass k = \<lparr>de_registry = [(''truenas'', Some 60)], de_decrypt = (\<lambda>_. Inr []), de_interval = 60, de_now = (\<lambda>_. seconds (60 * k)), de_frepr = (\<lambda>_. [])\<rparr>"

definition one_config :: db where
  "one_config = demo_db\<lparr>db_configs := [(3, demo_ingest\<lparr>cfg_type := ''truenas'', cfg_enabled := True\<rparr>)]\<rparr>"

theorem collected_once_witness:
  "running_ids (fold collect_step [Decide (minute_pass 0), Launch 0] (idle one_config)) = [3] \<and>
   set (co_inflight (fold collect_step [Decide (minute_pass 0), Launch 0] (idle one_config))) = {3} \<and>
   takes_now (minute_pass 0) one_config [] 3"
proof -
  have d: "dict_ok (db_configs one_config)" by (simp add: one_config_def dict_ok_def dkeys_def)
  have r: "running_ids (fold collect_step [Decide (minute_pass 0), Launch 0] (idle one_config)) = [3]" by code_simp
  have "passes_apart [Decide (minute_pass 0), Launch 0] (idle one_config)" by (simp add: idle_def)
  then have i: "set (co_inflight (fold collect_step [Decide (minute_pass 0), Launch 0] (idle one_config))) = {3}"
    using collected_once [OF d, of "[Decide (minute_pass 0), Launch 0]"] unfolding r by simp
  have "map unit_ids (fst (projr (decide_units (minute_pass 0) one_config []))) = [[3]] \<and> \<not> isl (decide_units (minute_pass 0) one_config [])" by code_simp
  then obtain units tb where u: "decide_units (minute_pass 0) one_config [] = Inr (units, tb)" "map unit_ids units = [[3]]"
    by (cases "decide_units (minute_pass 0) one_config []") auto
  let ?s = "fold collect_step [] (idle one_config)"
  have "decide_units (minute_pass 0) (co_db ?s) (co_inflight ?s) = Inr (units, tb)" by (simp add: idle_def u(1))
  then have "set (concat (map unit_ids units)) = {i. takes_now (minute_pass 0) (co_db ?s) (co_inflight ?s) i}"
    using collected_once [OF d, of "[]"] by blast
  then have "3 \<in> {i. takes_now (minute_pass 0) (co_db ?s) (co_inflight ?s) i}" unfolding u(2) by auto
  then show ?thesis using r i by (simp add: idle_def)
qed

text \<open>Two passes of a tenant that overlap (the scheduler can start them, see \<open>Tenant_Jobs\<close>) collect a configuration twice at once, and when
  the first of the two ends, the memory no longer knows of the second.\<close>

lemma overlapping_passes_collect_twice:
  "running_ids (fold collect_step [Decide (minute_pass 0), Decide (minute_pass 0), Launch 0, Launch 0] (idle one_config)) = [3, 3]"
  by code_simp

end
