(* ===== verification/User_Accounts.thy ===== *)
theory User_Accounts
  imports Interfaces
begin

text \<open>
  Who may work in which tenant (\<^verbatim>\<open>backend/services/memberships.py\<close>, the access part of \<^verbatim>\<open>services/tenancy.py\<close>) and the user administration of a
  tenant (\<^verbatim>\<open>routers/users.py\<close>). Users are global, memberships are per tenant. The state is the tables of users, memberships, provider members
  and sessions; hashing and checking of a password are arguments. A handler either refuses and leaves the tables as they were, or commits.
\<close>

section \<open>Tables\<close>

definition DEFAULT_TENANT_ID :: int where "DEFAULT_TENANT_ID = 1"
definition VALID_ROLES :: "string list" where "VALID_ROLES = [''admin'', ''editor'', ''readonly'']"

record account =
  ac_username :: string
  ac_hash :: string
  ac_role :: "string option"
  ac_source :: "string option"
  ac_created :: datetime
  ac_operator :: bool

text \<open>Memberships by user and tenant; \<open>at_providers\<close> are the users with a provider membership; sessions are pairs of a token and a user.\<close>

record account_tables =
  at_users :: "(int, account) dict"
  at_members :: "(int \<times> int, string) dict"
  at_status :: "(int, string) dict"
  at_providers :: "int list"
  at_sessions :: "(string \<times> int) list"
  at_next :: int

section \<open>Memberships\<close>

definition normalise_role :: "string option \<Rightarrow> string \<Rightarrow> string" where
  "normalise_role r dflt = (case r of None \<Rightarrow> dflt | Some x \<Rightarrow> if x \<in> set VALID_ROLES then x else dflt)"

definition membership :: "account_tables \<Rightarrow> int \<Rightarrow> int \<Rightarrow> string option" where
  "membership d u t = dget (at_members d) (u, t)"

definition memberships_for :: "bool \<Rightarrow> account_tables \<Rightarrow> int \<Rightarrow> (int, string) dict" where
  "memberships_for active_only d u =
     map (\<lambda>((_, t), r). (t, normalise_role (Some r) ''readonly''))
       (filter (\<lambda>((v, t), _). v = u \<and> (\<not> active_only \<or> dget (at_status d) t = Some ''active'')) (at_members d))"

definition mirror_role :: "int \<Rightarrow> int \<Rightarrow> string \<Rightarrow> account_tables \<Rightarrow> account_tables" where
  "mirror_role u t role d =
     (if t = DEFAULT_TENANT_ID
      then (case dget (at_users d) u of
              None \<Rightarrow> d
            | Some a \<Rightarrow> d\<lparr>at_users := dset (at_users d) u (a\<lparr>ac_role := Some role, ac_operator := (role = ''admin'')\<rparr>)\<rparr>)
      else d)"

definition grant_membership :: "int \<Rightarrow> int \<Rightarrow> string \<Rightarrow> account_tables \<Rightarrow> account_tables" where
  "grant_membership u t role d =
     (let r = normalise_role (Some role) ''readonly'' in mirror_role u t r (d\<lparr>at_members := dset (at_members d) (u, t) r\<rparr>))"

definition revoke :: "int \<Rightarrow> int \<Rightarrow> account_tables \<Rightarrow> bool \<times> account_tables" where
  "revoke u t d =
     (case membership d u t of None \<Rightarrow> (False, d) | Some _ \<Rightarrow> (True, d\<lparr>at_members := ddel (at_members d) (u, t)\<rparr>))"

definition tenant_members :: "account_tables \<Rightarrow> int \<Rightarrow> (int \<times> account \<times> string) list" where
  "tenant_members d t =
     sort_key (\<lambda>(u, a, _). ac_created a) (sort_key fst (concat (map (\<lambda>(u, a). case membership d u t of
       None \<Rightarrow> [] | Some r \<Rightarrow> [(u, a, normalise_role (Some r) ''readonly'')]) (at_users d))))"

definition admin_count :: "account_tables \<Rightarrow> int \<Rightarrow> nat" where
  "admin_count d t = length (filter (\<lambda>((_, t'), r). t' = t \<and> r = ''admin'') (at_members d))"

text \<open>\<^verbatim>\<open>u.role or "admin"\<close>.\<close>

definition legacy_role :: "account \<Rightarrow> string" where
  "legacy_role a = normalise_role (case ac_role a of None \<Rightarrow> Some ''admin'' | Some r \<Rightarrow> if r = [] then Some ''admin'' else Some r) ''admin''"

definition sync_user :: "int \<Rightarrow> int \<times> account \<Rightarrow> account_tables \<times> nat \<Rightarrow> account_tables \<times> nat" where
  "sync_user t x s =
     (case (x, s) of ((u, a), (d, n)) \<Rightarrow>
        (let role = legacy_role a;
             d1 = (if membership d u t = Some role then d else d\<lparr>at_members := dset (at_members d) (u, t) role\<rparr>)
         in (if t = DEFAULT_TENANT_ID then d1\<lparr>at_users := dset (at_users d1) u (a\<lparr>ac_operator := (role = ''admin'')\<rparr>)\<rparr> else d1,
             if membership d u t = Some role then n else n + 1)))"

definition sync_from_users_role :: "int \<Rightarrow> account_tables \<Rightarrow> account_tables \<times> nat" where
  "sync_from_users_role t d = fold (sync_user t) (at_users d) (d, 0)"

definition backfill_memberships :: "int \<Rightarrow> account_tables \<Rightarrow> account_tables \<times> nat" where
  "backfill_memberships t d =
     (let users = filter (\<lambda>(u, a). \<not> (\<exists>((v, _), _) \<in> set (at_members d). v = u)) (at_users d) in
      (d\<lparr>at_members := fold (\<lambda>(u, a) m. dset m (u, t) (legacy_role a)) users (at_members d)\<rparr>, length users))"

section \<open>Access of a request\<close>

text \<open>\<open>None\<close>: no tenant asked for; an unusable header gives an id that no membership has.\<close>

definition INVALID_TENANT :: int where "INVALID_TENANT = -1"

definition requested_tenant :: "string option \<Rightarrow> string option \<Rightarrow> int option" where
  "requested_tenant header query =
     (case (case header of None \<Rightarrow> query | Some h \<Rightarrow> Some h) of
        None \<Rightarrow> None
      | Some raw \<Rightarrow> if raw = [] then None
                    else (case parse_int raw of None \<Rightarrow> Some INVALID_TENANT | Some v \<Rightarrow> if v > 0 then Some v else Some INVALID_TENANT))"

definition resolve_access :: "account_tables \<Rightarrow> int option \<Rightarrow> int option \<Rightarrow> int option \<Rightarrow> (int \<times> string) option" where
  "resolve_access d user requested session_tenant =
     Option.bind user (\<lambda>u.
       let ms = memberships_for True d u in
       case (case requested of None \<Rightarrow> session_tenant | Some t \<Rightarrow> Some t) of
         Some t \<Rightarrow> map_option (Pair t) (dget ms t)
       | None \<Rightarrow> (case ms of [m] \<Rightarrow> Some m | _ \<Rightarrow> None))"

record tenant_request =
  rq_user :: "int option"
  rq_tenant :: int
  rq_role :: "string option"
  rq_support :: bool
  rq_ee :: bool

definition request_is_admin :: "tenant_request \<Rightarrow> bool" where
  "request_is_admin q \<longleftrightarrow> rq_role q = Some ''admin''"

definition core_is_operator :: "tenant_request \<Rightarrow> bool" where
  "core_is_operator q \<longleftrightarrow> \<not> rq_support q \<and> rq_tenant q = DEFAULT_TENANT_ID \<and> rq_role q = Some ''admin''"

text \<open>The enterprise backend also takes the flag of the user (\<open>rq_ee\<close>).\<close>

definition request_is_operator :: "account_tables \<Rightarrow> tenant_request \<Rightarrow> bool" where
  "request_is_operator d q \<longleftrightarrow>
     (case rq_user q of
        None \<Rightarrow> False
      | Some u \<Rightarrow> rq_ee q \<and> (case dget (at_users d) u of None \<Rightarrow> False | Some a \<Rightarrow> ac_operator a) \<or> core_is_operator q)"

section \<open>The user administration\<close>

datatype refusal =
    AdminRequired | SupportAccess | FieldsMissing | WeakPassword string | UsernameExists | DeleteSelf | UserNotFound | LastAdmin
  | ForeignIdentity | InvalidRole | CurrentPasswordWrong | NotLoggedIn

definition refuse_change :: "tenant_request \<Rightarrow> refusal option" where
  "refuse_change q =
     (if rq_user q = None \<or> \<not> request_is_admin q then Some AdminRequired else if rq_support q then Some SupportAccess else None)"

definition reach_operator :: "account \<Rightarrow> bool" where "reach_operator a \<longleftrightarrow> ac_operator a"
definition reach_tenant :: "account_tables \<Rightarrow> tenant_request \<Rightarrow> int \<Rightarrow> bool" where
  "reach_tenant d q u \<longleftrightarrow> (\<exists>((v, t), _) \<in> set (at_members d). v = u \<and> t \<noteq> rq_tenant q)"
definition reach_provider :: "account_tables \<Rightarrow> int \<Rightarrow> bool" where "reach_provider d u \<longleftrightarrow> u \<in> set (at_providers d)"

definition may_set_credentials :: "account_tables \<Rightarrow> tenant_request \<Rightarrow> int \<Rightarrow> account \<Rightarrow> bool" where
  "may_set_credentials d q u a \<longleftrightarrow> request_is_operator d q \<or> \<not> (reach_operator a \<or> reach_tenant d q u \<or> reach_provider d u)"

definition member :: "account_tables \<Rightarrow> tenant_request \<Rightarrow> int \<Rightarrow> (account \<times> string) option" where
  "member d q u =
     (case dget (at_users d) u of
        None \<Rightarrow> None
      | Some a \<Rightarrow> map_option (\<lambda>r. (a, normalise_role (Some r) ''readonly'')) (membership d u (rq_tenant q)))"

definition is_last_admin :: "account_tables \<Rightarrow> tenant_request \<Rightarrow> string \<Rightarrow> bool" where
  "is_last_admin d q role \<longleftrightarrow> role = ''admin'' \<and> admin_count d (rq_tenant q) \<le> 1"

definition remove_from_tenant :: "tenant_request \<Rightarrow> int \<Rightarrow> account \<Rightarrow> account_tables \<Rightarrow> account_tables" where
  "remove_from_tenant q u a d =
     (let keep = (reach_provider d u \<or> reach_operator a \<and> \<not> request_is_operator d q);
          d1 = snd (revoke u (rq_tenant q) d)
      in if \<not> (\<exists>((v, _), _) \<in> set (at_members d1). v = u) \<and> \<not> keep
         then d1\<lparr>at_sessions := filter (\<lambda>(_, v). v \<noteq> u) (at_sessions d1), at_users := ddel (at_users d1) u\<rparr> else d1)"

definition validate_password :: "string \<Rightarrow> string option" where
  "validate_password p =
     (if text_len p < 8 then Some ''Password must be at least 8 characters''
      else if \<not> (\<exists>c \<in> set p. is_upper c) then Some ''Password must contain at least one uppercase letter''
      else if \<not> (\<exists>c \<in> set p. is_lower c) then Some ''Password must contain at least one lowercase letter''
      else if \<not> (\<exists>c \<in> set p. is_digit c) then Some ''Password must contain at least one digit'' else None)"

record password_env =
  pe_hash :: "string \<Rightarrow> string"
  pe_verify :: "string \<Rightarrow> string \<Rightarrow> bool"
  pe_now :: datetime

definition verify_own :: "password_env \<Rightarrow> account \<Rightarrow> string \<Rightarrow> bool" where
  "verify_own e a candidate \<longleftrightarrow>
     candidate \<noteq> [] \<and> ac_source a \<noteq> Some ''ldap'' \<and> pe_verify e candidate (ac_hash a)"

definition set_password :: "password_env \<Rightarrow> int \<Rightarrow> account \<Rightarrow> string \<Rightarrow> account_tables \<Rightarrow> account_tables" where
  "set_password e u a p d =
     d\<lparr>at_users := dset (at_users d) u (a\<lparr>ac_hash := pe_hash e p\<rparr>), at_sessions := filter (\<lambda>(_, v). v \<noteq> u) (at_sessions d)\<rparr>"

definition insert_user :: "password_env \<Rightarrow> tenant_request \<Rightarrow> string \<Rightarrow> string \<Rightarrow> string \<Rightarrow> account_tables \<Rightarrow> account_tables" where
  "insert_user e q name p role d =
     (let u = at_next d; r = (if role \<in> set VALID_ROLES then role else ''readonly'');
          a = \<lparr>ac_username = name, ac_hash = pe_hash e p, ac_role = Some r, ac_source = Some ''local'', ac_created = pe_now e, ac_operator = False\<rparr>
      in grant_membership u (rq_tenant q) r (d\<lparr>at_users := dset (at_users d) u a, at_next := u + 1\<rparr>))"

definition username_taken :: "account_tables \<Rightarrow> string \<Rightarrow> bool" where
  "username_taken d name \<longleftrightarrow> (\<exists>(_, a) \<in> set (at_users d). ac_username a = name)"

definition create_user_api :: "password_env \<Rightarrow> tenant_request \<Rightarrow> string \<Rightarrow> string \<Rightarrow> string \<Rightarrow> account_tables \<Rightarrow> refusal + account_tables" where
  "create_user_api e q name p role d =
     (case refuse_change q of
        Some r \<Rightarrow> Inl r
      | None \<Rightarrow>
          (let n = strip name in
           if n = [] \<or> p = [] then Inl FieldsMissing
           else (case validate_password p of
              Some m \<Rightarrow> Inl (WeakPassword m)
            | None \<Rightarrow> if username_taken d n then Inl UsernameExists else Inr (insert_user e q n p role d))))"

definition add_user :: "password_env \<Rightarrow> tenant_request \<Rightarrow> string \<Rightarrow> string \<Rightarrow> string \<Rightarrow> account_tables \<Rightarrow> refusal + account_tables" where
  "add_user e q name p role d =
     (case refuse_change q of
        Some r \<Rightarrow> Inl r
      | None \<Rightarrow> (case validate_password p of
           Some m \<Rightarrow> Inl (WeakPassword m)
         | None \<Rightarrow> if username_taken d (strip name) then Inl UsernameExists else Inr (insert_user e q (strip name) p role d)))"

definition delete_user :: "tenant_request \<Rightarrow> int \<Rightarrow> account_tables \<Rightarrow> refusal + account_tables" where
  "delete_user q u d =
     (case refuse_change q of
        Some r \<Rightarrow> Inl r
      | None \<Rightarrow>
          if rq_user q = Some u then Inl DeleteSelf
          else (case member d q u of
             None \<Rightarrow> Inl UserNotFound
           | Some (a, role) \<Rightarrow> if is_last_admin d q role then Inl LastAdmin else Inr (remove_from_tenant q u a d)))"

definition change_role :: "tenant_request \<Rightarrow> int \<Rightarrow> string \<Rightarrow> string \<Rightarrow> account_tables \<Rightarrow> refusal + account_tables" where
  "change_role q u current new d =
     (if new \<noteq> ''admin'' \<and> is_last_admin d q current then Inl LastAdmin else Inr (grant_membership u (rq_tenant q) new d))"

definition role_step :: "tenant_request \<Rightarrow> int \<Rightarrow> string option \<Rightarrow> string \<Rightarrow> account_tables \<Rightarrow> refusal + account_tables" where
  "role_step q u role old d =
     (case role of None \<Rightarrow> Inr d | Some r \<Rightarrow> if r \<notin> set VALID_ROLES then Inl InvalidRole else change_role q u old r d)"

text \<open>The password step of \<open>update_user_api\<close>, on the tables after the change of the role.\<close>

definition update_password :: "password_env \<Rightarrow> tenant_request \<Rightarrow> int \<Rightarrow> string \<Rightarrow> string \<Rightarrow> account_tables \<Rightarrow> refusal + account_tables" where
  "update_password e q u p current d =
     (case dget (at_users d) u of
        None \<Rightarrow> Inr d
      | Some a \<Rightarrow>
          if rq_user q = Some u \<and> \<not> verify_own e a current then Inl CurrentPasswordWrong
          else (case validate_password p of Some m \<Rightarrow> Inl (WeakPassword m) | None \<Rightarrow> Inr (set_password e u a p d)))"

definition update_user_api ::
    "password_env \<Rightarrow> tenant_request \<Rightarrow> int \<Rightarrow> string option \<Rightarrow> string option \<Rightarrow> string \<Rightarrow> account_tables \<Rightarrow> refusal + account_tables" where
  "update_user_api e q u role p current d =
     (case refuse_change q of
        Some r \<Rightarrow> Inl r
      | None \<Rightarrow> (case member d q u of
           None \<Rightarrow> Inl UserNotFound
         | Some (a, old) \<Rightarrow>
             (let wants = (case p of None \<Rightarrow> False | Some x \<Rightarrow> x \<noteq> []) in
              if wants \<and> rq_user q \<noteq> Some u \<and> \<not> may_set_credentials d q u a then Inl ForeignIdentity
              else (case role_step q u role old d of
                      Inl r \<Rightarrow> Inl r
                    | Inr d1 \<Rightarrow> if wants then update_password e q u (the p) current d1 else Inr d1))))"

definition update_role :: "tenant_request \<Rightarrow> int \<Rightarrow> string \<Rightarrow> account_tables \<Rightarrow> refusal + account_tables" where
  "update_role q u role d =
     (case refuse_change q of
        Some r \<Rightarrow> Inl r
      | None \<Rightarrow>
          if role \<notin> set VALID_ROLES then Inl InvalidRole
          else (case member d q u of None \<Rightarrow> Inl UserNotFound | Some (_, old) \<Rightarrow> change_role q u old role d))"

definition reset_password :: "password_env \<Rightarrow> tenant_request \<Rightarrow> int \<Rightarrow> string \<Rightarrow> account_tables \<Rightarrow> refusal + account_tables" where
  "reset_password e q u p d =
     (case refuse_change q of
        Some r \<Rightarrow> Inl r
      | None \<Rightarrow> (case validate_password p of
           Some m \<Rightarrow> Inl (WeakPassword m)
         | None \<Rightarrow> (case member d q u of
              None \<Rightarrow> Inl UserNotFound
            | Some (a, _) \<Rightarrow>
                if rq_user q \<noteq> Some u \<and> \<not> may_set_credentials d q u a then Inl ForeignIdentity
                else Inr (set_password e u a p d))))"

text \<open>The sessions that stay are those of the tokens given: the hashes of the caller's cookie; without a cookie all stay.\<close>

definition change_own_password :: "password_env \<Rightarrow> tenant_request \<Rightarrow> string \<Rightarrow> string \<Rightarrow> string list option \<Rightarrow> account_tables \<Rightarrow> refusal + account_tables" where
  "change_own_password e q p current tokens d =
     (case rq_user q of
        None \<Rightarrow> Inl NotLoggedIn
      | Some u \<Rightarrow> (case dget (at_users d) u of
           None \<Rightarrow> Inl CurrentPasswordWrong
         | Some a \<Rightarrow>
             if \<not> verify_own e a current then Inl CurrentPasswordWrong
             else (case validate_password p of
                Some m \<Rightarrow> Inl (WeakPassword m)
              | None \<Rightarrow> Inr (d\<lparr>at_users := dset (at_users d) u (a\<lparr>ac_hash := pe_hash e p\<rparr>),
                  at_sessions := (case tokens of None \<Rightarrow> at_sessions d | Some ts \<Rightarrow> filter (\<lambda>(k, v). v \<noteq> u \<or> k \<in> set ts) (at_sessions d))\<rparr>))))"

datatype account_action =
    CreateUser string string string
  | AddUser string string string
  | DeleteUser int
  | UpdateUser int "string option" "string option" string
  | UpdateRole int string
  | ResetPassword int string
  | ChangeOwnPassword string string "string list option"

fun handle :: "password_env \<Rightarrow> tenant_request \<Rightarrow> account_action \<Rightarrow> account_tables \<Rightarrow> refusal + account_tables" where
  "handle e q (CreateUser n p r) d = create_user_api e q n p r d"
| "handle e q (AddUser n p r) d = add_user e q n p r d"
| "handle e q (DeleteUser u) d = delete_user q u d"
| "handle e q (UpdateUser u r p c) d = update_user_api e q u r p c d"
| "handle e q (UpdateRole u r) d = update_role q u r d"
| "handle e q (ResetPassword u p) d = reset_password e q u p d"
| "handle e q (ChangeOwnPassword p c ts) d = change_own_password e q p c ts d"

definition account_step :: "password_env \<times> tenant_request \<times> account_action \<Rightarrow> account_tables \<Rightarrow> account_tables" where
  "account_step x d = (case x of (e, q, act) \<Rightarrow> (case handle e q act d of Inl _ \<Rightarrow> d | Inr d' \<Rightarrow> d'))"

section \<open>A tenant keeps an admin\<close>

definition accounts_ok :: "account_tables \<Rightarrow> bool" where
  "accounts_ok d \<longleftrightarrow> dict_ok (at_users d) \<and> dict_ok (at_members d) \<and> (\<forall>u \<in> set (dkeys (at_users d)). u < at_next d) \<and>
     (\<forall>k \<in> set (dkeys (at_members d)). fst k < at_next d)"

lemma count_dset:
  "dict_ok m \<Longrightarrow> int (length (filter P (dset m k v))) =
     int (length (filter P m)) - (case dget m k of None \<Rightarrow> 0 | Some w \<Rightarrow> of_bool (P (k, w))) + of_bool (P (k, v))"
proof (induction m k v rule: dset.induct)
  case (2 k' v' d k v)
  then show ?case by (auto simp: dget_Cons dict_ok_def dkeys_def)
qed simp

lemma count_ddel:
  "dict_ok m \<Longrightarrow> int (length (filter P (ddel m k))) = int (length (filter P m)) - (case dget m k of None \<Rightarrow> 0 | Some w \<Rightarrow> of_bool (P (k, w)))"
proof (induction m)
  case (Cons x m)
  obtain k' w where x: "x = (k', w)" by (cases x)
  show ?case
  proof (cases "k' = k")
    case True
    then have "ddel m k = m" using Cons.prems by (auto simp: x ddel_def dict_ok_def dkeys_def filter_id_conv)
    moreover have "dget m k = None" using Cons.prems True by (simp add: x dget_eq_None_iff dict_ok_def dkeys_def)
    ultimately show ?thesis using True by (simp add: x ddel_def dget_Cons)
  next
    case False
    then show ?thesis using Cons by (simp add: x ddel_def dget_Cons dict_ok_def dkeys_def)
  qed
qed (simp add: ddel_def)

lemma normalise_admin [simp]: "normalise_role (Some r) ''readonly'' = ''admin'' \<longleftrightarrow> r = ''admin''"
  by (auto simp: normalise_role_def VALID_ROLES_def)

lemma mirror_tables [simp]: "at_members (mirror_role u t r d) = at_members d" "at_next (mirror_role u t r d) = at_next d"
  "at_providers (mirror_role u t r d) = at_providers d" "at_sessions (mirror_role u t r d) = at_sessions d"
  by (simp_all add: mirror_role_def split: option.split)

lemma grant_members [simp]: "at_members (grant_membership u t r d) = dset (at_members d) (u, t) (normalise_role (Some r) ''readonly'')"
  "at_next (grant_membership u t r d) = at_next d" "at_providers (grant_membership u t r d) = at_providers d" "at_sessions (grant_membership u t r d) = at_sessions d"
  by (simp_all add: grant_membership_def Let_def)

lemma grant_users: "dget (at_users (grant_membership u t r d)) v =
    (case dget (at_users d) v of
       None \<Rightarrow> None
     | Some a \<Rightarrow> Some (if v = u \<and> t = DEFAULT_TENANT_ID
         then a\<lparr>ac_role := Some (normalise_role (Some r) ''readonly''), ac_operator := (r = ''admin'')\<rparr> else a))"
  by (auto simp: grant_membership_def mirror_role_def Let_def dict_simps split: option.split)

lemma dget_known: "dget d k = Some v \<Longrightarrow> k \<in> set (dkeys d)"
  using dget_eq_None_iff [of d k] by auto

lemma grant_keys: "dict_ok (at_users d) \<Longrightarrow> dict_ok (at_users (grant_membership u t r d)) \<and> set (dkeys (at_users (grant_membership u t r d))) = set (dkeys (at_users d))"
  by (auto simp: grant_membership_def mirror_role_def Let_def dict_simps dget_known split: option.split)

lemma grant_membership_ok: "accounts_ok d \<Longrightarrow> u < at_next d \<Longrightarrow> accounts_ok (grant_membership u t r d)"
  using grant_keys [of d u t r] by (auto simp: accounts_ok_def dict_simps)

lemma grant_count:
  assumes "accounts_ok d"
  shows "int (admin_count (grant_membership u t r d) t') = int (admin_count d t') +
    (if t' = t then of_bool (r = ''admin'') - of_bool (membership d u t = Some ''admin'') else 0)"
proof -
  have "dict_ok (at_members d)" using assms by (simp add: accounts_ok_def)
  from count_dset [OF this, of "\<lambda>((_, t''), r). t'' = t' \<and> r = ''admin''" "(u, t)"] show ?thesis
    by (auto simp: admin_count_def membership_def split: option.split)
qed

lemma revoke_count:
  assumes "accounts_ok d"
  shows "int (admin_count (snd (revoke u t d)) t') = int (admin_count d t') - (if t' = t then of_bool (membership d u t = Some ''admin'') else 0)"
proof -
  have "dict_ok (at_members d)" using assms by (simp add: accounts_ok_def)
  from count_ddel [OF this, of "\<lambda>((_, t''), r). t'' = t' \<and> r = ''admin''" "(u, t)"] show ?thesis
    by (auto simp: admin_count_def membership_def revoke_def split: option.split)
qed

lemma revoke_tables [simp]: "at_users (snd (revoke u t d)) = at_users d" "at_next (snd (revoke u t d)) = at_next d"
  "at_providers (snd (revoke u t d)) = at_providers d" "at_sessions (snd (revoke u t d)) = at_sessions d"
  by (simp_all add: revoke_def split: option.split)

lemma revoke_members: "dget (at_members (snd (revoke u t d))) k = (if k = (u, t) then None else dget (at_members d) k)"
  by (auto simp: revoke_def membership_def dict_simps split: option.split)

lemma revoke_ok: "accounts_ok d \<Longrightarrow> accounts_ok (snd (revoke u t d))"
  by (auto simp: accounts_ok_def revoke_def dict_simps split: option.split)

definition admins_in :: "int set \<Rightarrow> account_tables \<Rightarrow> bool" where
  "admins_in ts d \<longleftrightarrow> accounts_ok d \<and> (\<forall>t \<in> ts. 0 < admin_count d t)"

lemma grant_admins:
  assumes "admins_in ts d" "u < at_next d" "r = ''admin'' \<or> membership d u t \<noteq> Some ''admin'' \<or> 1 < admin_count d t"
  shows "admins_in ts (grant_membership u t r d)"
proof -
  have "0 < admin_count (grant_membership u t r d) t'" if "t' \<in> ts" for t'
  proof -
    have "0 < admin_count d t'" using assms(1) that by (simp add: admins_in_def)
    then have "0 < int (admin_count (grant_membership u t r d) t')"
      using grant_count [of d u t r t'] assms by (cases "t' = t"; cases "r = ''admin''") (auto simp: admins_in_def of_bool_def)
    then show ?thesis by simp
  qed
  then show ?thesis using assms grant_membership_ok by (auto simp: admins_in_def)
qed

lemma member_known: "member d q u = Some (a, role) \<Longrightarrow> accounts_ok d \<Longrightarrow> u < at_next d \<and> dget (at_users d) u = Some a \<and>
    (\<exists>r. membership d u (rq_tenant q) = Some r \<and> role = normalise_role (Some r) ''readonly'')"
proof -
  assume "member d q u = Some (a, role)" "accounts_ok d"
  moreover from this have "u \<in> set (dkeys (at_users d))" by (auto simp: member_def dget_known split: option.splits)
  ultimately show ?thesis by (auto simp: member_def accounts_ok_def split: option.splits)
qed

lemma change_role_admins:
  assumes "admins_in ts d" "member d q u = Some (a, old)" "change_role q u old r d = Inr d'"
  shows "admins_in ts d'"
proof -
  note m = member_known [OF assms(2)]
  have "r = ''admin'' \<or> membership d u (rq_tenant q) \<noteq> Some ''admin'' \<or> 1 < admin_count d (rq_tenant q)"
    using assms(3) m assms(1) by (auto simp: change_role_def is_last_admin_def admins_in_def split: if_splits)
  then show ?thesis using grant_admins [OF assms(1)] m assms by (auto simp: change_role_def admins_in_def split: if_splits)
qed

lemma new_hash_admins:
  assumes "admins_in ts d" "dget (at_users d) u = Some a"
  shows "admins_in ts (d\<lparr>at_users := dset (at_users d) u b, at_sessions := ss\<rparr>)" and "admins_in ts (d\<lparr>at_users := dset (at_users d) u b\<rparr>)"
proof -
  have "set (dkeys (dset (at_users d) u b)) = set (dkeys (at_users d))" using dget_known [OF assms(2)] by (auto simp: dict_simps)
  then show "admins_in ts (d\<lparr>at_users := dset (at_users d) u b, at_sessions := ss\<rparr>)" and "admins_in ts (d\<lparr>at_users := dset (at_users d) u b\<rparr>)"
    using assms(1) unfolding admins_in_def accounts_ok_def admin_count_def by (simp_all add: dict_ok_dset)
qed

lemma set_password_admins: "admins_in ts d \<Longrightarrow> dget (at_users d) u = Some a \<Longrightarrow> admins_in ts (set_password e u a p d)"
  by (simp add: set_password_def new_hash_admins)

lemma insert_user_admins: "admins_in ts d \<Longrightarrow> admins_in ts (insert_user e q n p r d)"
proof -
  assume ok: "admins_in ts d"
  define d0 where "d0 a = d\<lparr>at_users := dset (at_users d) (at_next d) a, at_next := at_next d + 1\<rparr>" for a
  have "admins_in ts (d0 a)" for a using ok by (fastforce simp: d0_def admins_in_def accounts_ok_def admin_count_def dict_simps)
  moreover have "membership (d0 a) (at_next d) t = None" for a t
    using ok by (auto simp: d0_def membership_def dget_eq_None_iff admins_in_def accounts_ok_def)
  ultimately show ?thesis unfolding insert_user_def Let_def d0_def by (intro grant_admins) simp_all
qed

lemma remove_admins:
  assumes "admins_in ts d" "member d q u = Some (a, role)" "\<not> is_last_admin d q role"
  shows "admins_in ts (remove_from_tenant q u a d)"
proof -
  have ok: "accounts_ok d" using assms(1) by (simp add: admins_in_def)
  have "0 < admin_count (snd (revoke u (rq_tenant q) d)) t" if "t \<in> ts" for t
  proof -
    have "membership d u (rq_tenant q) = Some ''admin'' \<longrightarrow> 1 < admin_count d (rq_tenant q)"
      using member_known [OF assms(2) ok] assms(3) by (auto simp: is_last_admin_def)
    moreover have "0 < admin_count d t" using assms(1) that by (simp add: admins_in_def)
    ultimately have "0 < int (admin_count (snd (revoke u (rq_tenant q) d)) t)"
      using revoke_count [OF ok, of u "rq_tenant q" t] by (cases "t = rq_tenant q") (auto simp: of_bool_def)
    then show ?thesis by simp
  qed
  then have "admins_in ts (snd (revoke u (rq_tenant q) d))" using revoke_ok [OF ok] by (simp add: admins_in_def)
  then show ?thesis by (auto simp: remove_from_tenant_def Let_def admins_in_def accounts_ok_def admin_count_def dict_simps)
qed

lemma update_password_admins: "admins_in ts d \<Longrightarrow> update_password e q u p c d = Inr d' \<Longrightarrow> admins_in ts d'"
  by (auto simp: update_password_def set_password_admins split: option.splits if_splits)

lemma own_password_admins: "admins_in ts d \<Longrightarrow> change_own_password e q p c tk d = Inr d' \<Longrightarrow> admins_in ts d'"
  by (auto simp: change_own_password_def intro: new_hash_admins split: option.splits if_splits)

lemma role_step_admins:
  "admins_in ts d \<Longrightarrow> member d q u = Some (a, old) \<Longrightarrow> role_step q u r old d = Inr d' \<Longrightarrow> admins_in ts d'"
  by (auto simp: role_step_def intro: change_role_admins split: option.splits if_splits)

lemma reset_admins: "admins_in ts d \<Longrightarrow> reset_password e q u p d = Inr d' \<Longrightarrow> admins_in ts d'"
  by (auto simp: reset_password_def member_def intro!: set_password_admins split: option.splits if_splits)

text \<open>An accepted change of a user: the caller may change the credentials if a password is given, the role step succeeds, then the password step.\<close>

lemma update_user_accepted:
  assumes "update_user_api e q u r p c d = Inr d'"
  obtains a old d1 where "refuse_change q = None" "member d q u = Some (a, old)" "role_step q u r old d = Inr d1"
    "d' = d1 \<or> (rq_user q = Some u \<or> may_set_credentials d q u a) \<and> update_password e q u (the p) c d1 = Inr d'"
proof -
  have f: "refuse_change q = None" using assms by (simp add: update_user_api_def split: option.splits)
  then obtain a old where m: "member d q u = Some (a, old)" using assms by (auto simp: update_user_api_def split: option.splits)
  let ?w = "case p of None \<Rightarrow> False | Some x \<Rightarrow> x \<noteq> []"
  have c: "\<not> (?w \<and> rq_user q \<noteq> Some u \<and> \<not> may_set_credentials d q u a)" using assms f m unfolding update_user_api_def by (simp add: Let_def split: if_splits)
  then obtain d1 where "role_step q u r old d = Inr d1" "(if ?w then update_password e q u (the p) c d1 else Inr d1) = Inr d'"
    using assms f m unfolding update_user_api_def by (cases "role_step q u r old d") (simp_all add: Let_def split: if_splits)
  then show ?thesis using that f m c by (auto split: if_splits)
qed

lemma update_user_admins:
  assumes "admins_in ts d" "update_user_api e q u r p c d = Inr d'"
  shows "admins_in ts d'"
  using assms(2)
proof (rule update_user_accepted)
  fix a old d1
  assume "member d q u = Some (a, old)" "role_step q u r old d = Inr d1"
    and p: "d' = d1 \<or> (rq_user q = Some u \<or> may_set_credentials d q u a) \<and> update_password e q u (the p) c d1 = Inr d'"
  then have "admins_in ts d1" using role_step_admins [OF assms(1)] by blast
  then show ?thesis using p update_password_admins by blast
qed

text \<open>What the other handlers did when they accepted.\<close>

lemma create_accepted: "create_user_api e q n p r d = Inr d' \<Longrightarrow> refuse_change q = None \<and> d' = insert_user e q (strip n) p r d"
  by (auto simp: create_user_api_def Let_def split: option.splits if_splits)

lemma add_accepted: "add_user e q n p r d = Inr d' \<Longrightarrow> refuse_change q = None \<and> d' = insert_user e q (strip n) p r d"
  by (auto simp: add_user_def split: option.splits if_splits)

lemma delete_accepted:
  "delete_user q u d = Inr d' \<Longrightarrow> refuse_change q = None \<and>
     (\<exists>a role. member d q u = Some (a, role) \<and> \<not> is_last_admin d q role \<and> d' = remove_from_tenant q u a d)"
  by (auto simp: delete_user_def split: option.splits if_splits)

lemma role_accepted:
  "update_role q u r d = Inr d' \<Longrightarrow> refuse_change q = None \<and> (\<exists>a old. member d q u = Some (a, old) \<and> change_role q u old r d = Inr d')"
  by (auto simp: update_role_def split: option.splits if_splits)

lemma handle_admins:
  assumes "admins_in ts d" "handle e q act d = Inr d'"
  shows "admins_in ts d'"
proof (cases act)
  case (CreateUser n p r)
  then have "d' = insert_user e q (strip n) p r d" using assms(2) create_accepted by simp
  then show ?thesis using insert_user_admins [OF assms(1)] by simp
next
  case (AddUser n p r)
  then have "d' = insert_user e q (strip n) p r d" using assms(2) add_accepted by simp
  then show ?thesis using insert_user_admins [OF assms(1)] by simp
next
  case (DeleteUser u)
  then have "delete_user q u d = Inr d'" using assms(2) by simp
  then show ?thesis using delete_accepted remove_admins [OF assms(1)] by blast
next
  case (UpdateUser u r p c)
  then show ?thesis using assms(2) update_user_admins [OF assms(1)] by simp
next
  case (UpdateRole u r)
  then have "update_role q u r d = Inr d'" using assms(2) by simp
  then show ?thesis using role_accepted change_role_admins [OF assms(1)] by blast
next
  case (ResetPassword u p)
  then show ?thesis using assms(2) reset_admins [OF assms(1)] by simp
next
  case (ChangeOwnPassword p c tk)
  then show ?thesis using assms(2) own_password_admins [OF assms(1)] by simp
qed

interpretation accounts: step_system account_step "admins_in ts" for ts
  by unfold_locales (auto simp: account_step_def split: sum.split intro: handle_admins)

text \<open>
  C7. Whatever requests are handled in whatever order, a tenant that has an admin keeps one: no sequence of creations, removals and changes of roles
  leaves it without.
\<close>

theorem tenant_keeps_admin:
  assumes "accounts_ok d" "0 < admin_count d t"
  shows "0 < admin_count (fold account_step xs d) t"
  using accounts.run_good [of "{t}" d xs] assms by (simp add: admins_in_def)

section \<open>A tenant's admin reaches no further than the tenant\<close>

definition sessions_of :: "account_tables \<Rightarrow> int \<Rightarrow> string list" where
  "sessions_of d u = map fst (filter (\<lambda>(_, v). v = u) (at_sessions d))"

definition reaches_further :: "account_tables \<Rightarrow> tenant_request \<Rightarrow> int \<Rightarrow> account \<Rightarrow> bool" where
  "reaches_further d q u a \<longleftrightarrow> reach_operator a \<or> reach_tenant d q u \<or> reach_provider d u"

text \<open>
  The tables before and after: memberships of other tenants are the same, nobody became an operator, and whoever reaches further than the tenant of
  the request, other than the caller, still exists with the same password and sessions.
\<close>

definition confined :: "tenant_request \<Rightarrow> account_tables \<Rightarrow> account_tables \<Rightarrow> bool" where
  "confined q d d' \<longleftrightarrow>
     (\<forall>v t. t \<noteq> rq_tenant q \<longrightarrow> membership d' v t = membership d v t) \<and>
     (\<forall>v a'. dget (at_users d') v = Some a' \<and> ac_operator a' \<longrightarrow> (\<exists>a. dget (at_users d) v = Some a \<and> ac_operator a)) \<and>
     (\<forall>v a. dget (at_users d) v = Some a \<and> rq_user q \<noteq> Some v \<and> reaches_further d q v a \<longrightarrow>
        (\<exists>a'. dget (at_users d') v = Some a' \<and> ac_hash a' = ac_hash a \<and> ac_operator a' = ac_operator a) \<and> sessions_of d' v = sessions_of d v)"

lemma confined_refl: "confined q d d"
  by (auto simp: confined_def)

lemma accepted_tenant: "refuse_change q = None \<Longrightarrow> \<not> request_is_operator d q \<Longrightarrow> rq_tenant q \<noteq> DEFAULT_TENANT_ID"
  by (auto simp: refuse_change_def request_is_operator_def core_is_operator_def request_is_admin_def split: if_splits)

lemma grant_same_users: "t \<noteq> DEFAULT_TENANT_ID \<Longrightarrow> at_users (grant_membership u t r d) = at_users d"
  by (simp add: grant_membership_def mirror_role_def Let_def)

lemma grant_confined: "rq_tenant q \<noteq> DEFAULT_TENANT_ID \<Longrightarrow> confined q d (grant_membership u (rq_tenant q) r d)"
  by (auto simp: confined_def grant_same_users membership_def dict_simps sessions_of_def)

lemma set_password_confined:
  assumes "confined q d d1" "at_users d1 = at_users d" "dget (at_users d) u = Some a" "rq_user q = Some u \<or> \<not> reaches_further d q u a"
  shows "confined q d (set_password e u a p d1)"
proof -
  have "sessions_of (set_password e u a p d1) v = sessions_of d1 v" if "v \<noteq> u" for v
    using that by (auto simp: sessions_of_def set_password_def intro!: arg_cong [where f = "map fst"] filter_cong)
  then show ?thesis using assms by (auto simp: confined_def set_password_def membership_def dict_simps)
qed

lemma insert_confined:
  assumes "accounts_ok d" "rq_tenant q \<noteq> DEFAULT_TENANT_ID"
  shows "confined q d (insert_user e q n p r d)"
proof -
  have "dget (at_users d) (at_next d) = None" using assms(1) by (auto simp: accounts_ok_def dget_eq_None_iff)
  then show ?thesis using assms(2)
    by (auto simp: confined_def insert_user_def Let_def grant_same_users membership_def dict_simps sessions_of_def)
qed

lemma remove_confined:
  assumes "\<not> request_is_operator d q" "dget (at_users d) u = Some a"
  shows "confined q d (remove_from_tenant q u a d)"
proof -
  let ?d1 = "snd (revoke u (rq_tenant q) d)"
  have other: "membership ?d1 v t = membership d v t" if "t \<noteq> rq_tenant q" for v t using that by (simp add: membership_def revoke_members)
  have "\<exists>((v, _), _) \<in> set (at_members ?d1). v = u" if r: "reach_tenant d q u"
  proof -
    obtain t r where r: "((u, t), r) \<in> set (at_members d)" "t \<noteq> rq_tenant q" using r unfolding reach_tenant_def by force
    then have "((u, t), r) \<in> set (at_members ?d1)" by (auto simp: revoke_def ddel_def split: option.split)
    then show ?thesis by force
  qed
  then have kept: "remove_from_tenant q u a d = ?d1" if "reaches_further d q u a"
    using that assms(1) by (auto simp: reaches_further_def remove_from_tenant_def Let_def)
  have sess: "sessions_of (remove_from_tenant q u a d) v = sessions_of d v" if "v \<noteq> u" for v
    using that by (auto simp: sessions_of_def remove_from_tenant_def Let_def intro!: arg_cong [where f = "map fst"] filter_cong)
  have user: "dget (at_users (remove_from_tenant q u a d)) v = dget (at_users d) v \<or> v = u \<and> dget (at_users (remove_from_tenant q u a d)) v = None" for v
    by (auto simp: remove_from_tenant_def Let_def dict_simps)
  have memb: "membership (remove_from_tenant q u a d) v t = membership d v t" if "t \<noteq> rq_tenant q" for v t
    using other [OF that, of v] by (simp add: remove_from_tenant_def Let_def membership_def)
  show ?thesis unfolding confined_def
  proof (intro conjI allI impI)
    fix v a' assume "dget (at_users (remove_from_tenant q u a d)) v = Some a' \<and> ac_operator a'"
    then show "\<exists>a. dget (at_users d) v = Some a \<and> ac_operator a" using user [of v] by (intro exI [of _ a']) auto
  next
    fix v b assume b: "dget (at_users d) v = Some b \<and> rq_user q \<noteq> Some v \<and> reaches_further d q v b"
    have same: "dget (at_users (remove_from_tenant q u a d)) v = Some b \<and> sessions_of (remove_from_tenant q u a d) v = sessions_of d v"
    proof (cases "v = u")
      case True
      then show ?thesis using kept b assms(2) by (simp add: sessions_of_def)
    next
      case False
      then show ?thesis using user [of v] sess b by auto
    qed
    then show "\<exists>a'. dget (at_users (remove_from_tenant q u a d)) v = Some a' \<and> ac_hash a' = ac_hash b \<and> ac_operator a' = ac_operator b"
      and "sessions_of (remove_from_tenant q u a d) v = sessions_of d v" by simp_all
  qed (rule memb)
qed

lemma change_role_confined: "change_role q u old r d = Inr d' \<Longrightarrow> rq_tenant q \<noteq> DEFAULT_TENANT_ID \<Longrightarrow> confined q d d' \<and> at_users d' = at_users d"
  by (auto simp: change_role_def grant_confined grant_same_users split: if_splits)

lemma role_step_confined: "role_step q u r old d = Inr d' \<Longrightarrow> rq_tenant q \<noteq> DEFAULT_TENANT_ID \<Longrightarrow> confined q d d' \<and> at_users d' = at_users d"
  by (auto simp: role_step_def confined_refl change_role_confined split: option.splits if_splits)

lemma credentials_confined:
  assumes "\<not> request_is_operator d q" "rq_user q = Some u \<or> may_set_credentials d q u a"
  shows "rq_user q = Some u \<or> \<not> reaches_further d q u a"
  using assms by (auto simp: may_set_credentials_def reaches_further_def)

lemma update_user_confined:
  assumes "\<not> request_is_operator d q" "update_user_api e q u r p c d = Inr d'"
  shows "confined q d d'"
  using assms(2)
proof (rule update_user_accepted)
  fix a old d1
  assume f: "refuse_change q = None" and m: "member d q u = Some (a, old)" and s: "role_step q u r old d = Inr d1"
    and p: "d' = d1 \<or> (rq_user q = Some u \<or> may_set_credentials d q u a) \<and> update_password e q u (the p) c d1 = Inr d'"
  have d1: "confined q d d1" "at_users d1 = at_users d" using role_step_confined [OF s] accepted_tenant [OF f assms(1)] by auto
  have a: "dget (at_users d) u = Some a" using m by (auto simp: member_def split: option.splits)
  show ?thesis
  proof (cases "d' = d1")
    case False
    then have cr: "rq_user q = Some u \<or> \<not> reaches_further d q u a" and "update_password e q u (the p) c d1 = Inr d'"
      using p credentials_confined [OF assms(1)] by blast+
    then have "d' = set_password e u a (the p) d1" using a d1(2) by (auto simp: update_password_def split: if_splits option.splits)
    then show ?thesis using set_password_confined [OF d1 a cr] by simp
  qed (use d1 in simp)
qed

lemma reset_confined:
  assumes "\<not> request_is_operator d q" "reset_password e q u p d = Inr d'"
  shows "confined q d d'"
proof -
  obtain a where a: "dget (at_users d) u = Some a" "rq_user q = Some u \<or> may_set_credentials d q u a" "d' = set_password e u a p d"
    using assms(2) by (auto simp: reset_password_def member_def split: option.splits if_splits)
  then show ?thesis using set_password_confined [OF confined_refl refl a(1)] credentials_confined [OF assms(1)] by blast
qed

lemma own_password_confined:
  assumes "change_own_password e q p c tk d = Inr d'"
  shows "confined q d d'"
proof -
  obtain u a ss where u: "rq_user q = Some u" "dget (at_users d) u = Some a" "at_members d' = at_members d"
    "at_users d' = dset (at_users d) u (a\<lparr>ac_hash := pe_hash e p\<rparr>)" "at_sessions d' = filter (\<lambda>(k, v). v \<noteq> u \<or> k \<in> ss) (at_sessions d)"
  proof -
    fix u a ss
    assume that: "\<And>u a ss. rq_user q = Some u \<Longrightarrow> dget (at_users d) u = Some a \<Longrightarrow> at_members d' = at_members d \<Longrightarrow>
      at_users d' = dset (at_users d) u (a\<lparr>ac_hash := pe_hash e p\<rparr>) \<Longrightarrow> at_sessions d' = filter (\<lambda>(k, v). v \<noteq> u \<or> k \<in> ss) (at_sessions d) \<Longrightarrow> thesis"
    show thesis using assms that [where ss = UNIV] that [where ss = "set (the tk)"]
      by (auto simp: change_own_password_def case_prod_unfold split: option.splits if_splits)
  qed
  have "sessions_of d' v = sessions_of d v" if "v \<noteq> u" for v
    using that by (auto simp: sessions_of_def u(5) intro!: arg_cong [where f = "map fst"] filter_cong)
  then show ?thesis using u(1-3) by (auto simp: confined_def u(4) membership_def dict_simps)
qed

text \<open>
  C2. A request that is not an installation operator's, whatever it does to the users, changes memberships of its own tenant only, makes nobody an
  operator, and leaves every account that reaches further than the tenant (an operator, a provider's member, a member of another tenant) in place
  with its password and sessions; only the caller's own account is excepted.
\<close>

theorem tenant_admin_confined:
  assumes "accounts_ok d" "\<not> request_is_operator d q"
  shows "confined q d (account_step (e, q, act) d)"
proof (cases "handle e q act d")
  case (Inr d')
  have "confined q d d'"
  proof (cases act)
    case (CreateUser n p r)
    then have "refuse_change q = None \<and> d' = insert_user e q (strip n) p r d" using Inr create_accepted by simp
    then show ?thesis using insert_confined [OF assms(1)] accepted_tenant assms(2) by blast
  next
    case (AddUser n p r)
    then have "refuse_change q = None \<and> d' = insert_user e q (strip n) p r d" using Inr add_accepted by simp
    then show ?thesis using insert_confined [OF assms(1)] accepted_tenant assms(2) by blast
  next
    case (DeleteUser u)
    then obtain a role where "member d q u = Some (a, role)" "d' = remove_from_tenant q u a d" using Inr delete_accepted by fastforce
    then show ?thesis using remove_confined [OF assms(2)] by (auto simp: member_def split: option.splits)
  next
    case (UpdateUser u r p c)
    then show ?thesis using Inr update_user_confined [OF assms(2)] by simp
  next
    case (UpdateRole u r)
    then show ?thesis using Inr role_accepted change_role_confined accepted_tenant [OF _ assms(2)] by fastforce
  next
    case (ResetPassword u p)
    then show ?thesis using Inr reset_confined [OF assms(2)] by simp
  next
    case (ChangeOwnPassword p c tk)
    then show ?thesis using Inr own_password_confined by simp
  qed
  then show ?thesis using Inr by (simp add: account_step_def)
qed (simp add: account_step_def confined_refl)

section \<open>Examples and limits\<close>

definition demo_account :: "string \<Rightarrow> bool \<Rightarrow> account" where
  "demo_account n operator = \<lparr>ac_username = n, ac_hash = n, ac_role = Some ''admin'', ac_source = Some ''local'', ac_created = 0, ac_operator = operator\<rparr>"

text \<open>Tenant 1 has the operators 1 and 4, tenant 2 the admin 2; user 3 works in both, as does 4.\<close>

definition demo_accounts :: account_tables where
  "demo_accounts = \<lparr>at_users = [(1, demo_account ''root'' True), (2, demo_account ''bob'' False), (3, demo_account ''eve'' False), (4, demo_account ''dan'' True)],
     at_members = [((1, 1), ''admin''), ((2, 2), ''admin''), ((3, 1), ''editor''), ((3, 2), ''readonly''), ((4, 1), ''admin''), ((4, 2), ''readonly'')],
     at_status = [(1, ''active''), (2, ''active'')], at_providers = [], at_sessions = [(''t'', 3)], at_next = 5\<rparr>"

definition demo_request :: "int \<Rightarrow> int \<Rightarrow> tenant_request" where
  "demo_request u t = \<lparr>rq_user = Some u, rq_tenant = t, rq_role = membership demo_accounts u t, rq_support = False, rq_ee = True\<rparr>"

definition demo_passwords :: password_env where
  "demo_passwords = \<lparr>pe_hash = (\<lambda>p. p), pe_verify = (\<lambda>p h. p = h), pe_now = 0\<rparr>"

lemma demo_accounts_ok: "accounts_ok demo_accounts"
  by (simp add: accounts_ok_def demo_accounts_def dict_ok_def dkeys_def)

theorem tenant_keeps_admin_witness:
  "0 < admin_count (fold account_step [(demo_passwords, demo_request 1 1, DeleteUser 4), (demo_passwords, demo_request 1 1, UpdateRole 1 ''editor'')] demo_accounts) 1"
proof -
  have "0 < admin_count demo_accounts 1" by code_simp
  then show ?thesis by (rule tenant_keeps_admin [OF demo_accounts_ok])
qed

theorem tenant_admin_confined_witness:
  "confined (demo_request 2 2) demo_accounts (account_step (demo_passwords, demo_request 2 2, DeleteUser 3) demo_accounts) \<and>
   membership (account_step (demo_passwords, demo_request 2 2, DeleteUser 3) demo_accounts) 3 1 = Some ''editor'' \<and>
   membership (account_step (demo_passwords, demo_request 2 2, DeleteUser 3) demo_accounts) 3 2 = None"
proof -
  have "\<not> request_is_operator demo_accounts (demo_request 2 2)" by code_simp
  then have "confined (demo_request 2 2) demo_accounts (account_step (demo_passwords, demo_request 2 2, DeleteUser 3) demo_accounts)"
    by (rule tenant_admin_confined [OF demo_accounts_ok])
  moreover have "membership (account_step (demo_passwords, demo_request 2 2, DeleteUser 3) demo_accounts) 3 1 = Some ''editor'' \<and>
      membership (account_step (demo_passwords, demo_request 2 2, DeleteUser 3) demo_accounts) 3 2 = None" by code_simp
  ultimately show ?thesis by blast
qed

text \<open>An admin who is removed from the default tenant keeps the flag of an operator, which the enterprise backend goes by.\<close>

lemma removed_operator_stays:
  "membership (account_step (demo_passwords, demo_request 1 1, DeleteUser 4) demo_accounts) 4 1 = None \<and>
   request_is_operator (account_step (demo_passwords, demo_request 1 1, DeleteUser 4) demo_accounts) (demo_request 4 2)"
  by code_simp

text \<open>The form that resets a password does not ask for the old one when an admin resets their own.\<close>

lemma own_reset_unchecked:
  assumes "refuse_change q = None" "rq_user q = Some u" "member d q u = Some (a, r)" "validate_password p = None"
  shows "reset_password e q u p d = Inr (set_password e u a p d)"
  using assms by (simp add: reset_password_def)

text \<open>The form that adds a user takes a name of blanks, which the API refuses.\<close>

lemma blank_name_added:
  assumes "refuse_change q = None" "validate_password p = None" "\<not> username_taken d []"
  shows "add_user e q '' '' p r d = Inr (insert_user e q [] p r d)" and "create_user_api e q '' '' p r d = Inl FieldsMissing"
  using assms by (simp_all add: add_user_def create_user_api_def strip_def rstrip_def lstrip_def is_space_def)

text \<open>With an admin role in the default tenant goes the flag, and it goes with the role.\<close>

lemma operator_follows_role:
  "dget (at_users d) u = Some a \<Longrightarrow> map_option ac_operator (dget (at_users (grant_membership u DEFAULT_TENANT_ID r d)) u) = Some (r = ''admin'')"
  by (simp add: grant_users)

end
