(* ===== verification/Port_Discovery.thy ===== *)
theory Port_Discovery
  imports Maintenance Probes
begin

text \<open>
  Discovery of open ports (\<^verbatim>\<open>backend/services/port_discovery.py\<close>): what is read out of a certificate, what a scan of a host reports, and what
  it does to the table \<open>discovered_ports\<close>. Whether a port answers, the output of \<^verbatim>\<open>openssl\<close> and the parser of its dates are arguments.
\<close>

section \<open>Certificates\<close>

definition COMMON_PORTS :: "(int \<times> string) list" where
  "COMMON_PORTS =
     [(21, ''ftp''), (22, ''ssh''), (23, ''telnet''), (25, ''smtp''), (53, ''dns''), (80, ''http''), (110, ''pop3''), (143, ''imap''),
      (443, ''https''), (465, ''smtps''), (587, ''submission''), (993, ''imaps''), (995, ''pop3s''), (3306, ''mysql''), (5432, ''postgresql''),
      (6379, ''redis''), (8080, ''http-alt''), (8443, ''https-alt''), (8006, ''proxmox''), (8096, ''jellyfin''), (8123, ''hass''),
      (9090, ''prometheus''), (3000, ''grafana''), (5000, ''registry''), (9443, ''portainer'')]"

definition SSL_PORTS :: "int list" where "SSL_PORTS = [443, 465, 636, 993, 995, 8443, 8006, 9443]"

record cert_brief =
  cb_expiry_raw :: "string option"
  cb_issuer :: "string option"
  cb_subject :: "string option"
  cb_issuer_cn :: "string option"
  cb_subject_cn :: "string option"
  cb_days :: "int option"
  cb_date :: "string option"

definition no_cert :: cert_brief where
  "no_cert = \<lparr>cb_expiry_raw = None, cb_issuer = None, cb_subject = None, cb_issuer_cn = None, cb_subject_cn = None, cb_days = None, cb_date = None\<rparr>"

text \<open>\<^verbatim>\<open>partition("=")\<close>: the text before the first sign and after it.\<close>

definition key_value :: "string \<Rightarrow> string \<times> string" where
  "key_value line = (takeWhile (\<lambda>c. c \<noteq> CHR ''='') line, drop 1 (dropWhile (\<lambda>c. c \<noteq> CHR ''='') line))"

definition read_line :: "string \<Rightarrow> cert_brief \<Rightarrow> cert_brief" where
  "read_line line b =
     (if CHR ''='' \<notin> set line then b
      else (let (k, v) = key_value line; key = str_lower (strip k); val = strip v in
            if key = ''notafter'' then b\<lparr>cb_expiry_raw := Some val\<rparr>
            else if key = ''issuer'' then b\<lparr>cb_issuer := Some val\<rparr>
            else if key = ''subject'' then b\<lparr>cb_subject := Some val\<rparr> else b))"

definition common_name :: "string \<Rightarrow> string option" where
  "common_name raw = map_option (\<lambda>p. strip (snd (key_value p))) (find (\<lambda>p. startswith (str_upper p) ''CN'') (map strip (split_on CHR '','' raw)))"

text \<open>An end date that does not parse raises, and the caller gets nothing. Days are rounded down and never negative.\<close>

definition parse_brief :: "(string \<Rightarrow> datetime option) \<Rightarrow> datetime \<Rightarrow> string \<Rightarrow> cert_brief option" where
  "parse_brief strptime now out =
     (let b = fold read_line (split_on CHR 0x0A (strip out)) no_cert;
          cn = (\<lambda>r. common_name (case r of None \<Rightarrow> [] | Some s \<Rightarrow> s));
          b1 = b\<lparr>cb_issuer_cn := cn (cb_issuer b), cb_subject_cn := cn (cb_subject b)\<rparr>
      in case cb_expiry_raw b1 of
           None \<Rightarrow> Some b1
         | Some raw \<Rightarrow> map_option (\<lambda>t. b1\<lparr>cb_days := Some (max 0 ((t - now) div us_per_day)), cb_date := Some (iso_date (day_of t))\<rparr>) (strptime raw))"

section \<open>The scan of a host\<close>

record open_port =
  op_port :: int
  op_service :: string
  op_has_ssl :: bool
  op_issuer :: "string option"
  op_subject :: "string option"
  op_days :: "int option"
  op_date :: "string option"

definition first_text :: "string option \<Rightarrow> string option \<Rightarrow> string" where
  "first_text a b = (case a of Some x \<Rightarrow> x | None \<Rightarrow> (case b of Some y \<Rightarrow> y | None \<Rightarrow> []))"

text \<open>A certificate counts where something could be read out of it.\<close>

definition port_entry :: "(int \<Rightarrow> cert_brief option) \<Rightarrow> int \<times> string \<Rightarrow> open_port" where
  "port_entry cert ps =
     (let plain = \<lparr>op_port = fst ps, op_service = snd ps, op_has_ssl = False, op_issuer = None, op_subject = None, op_days = None, op_date = None\<rparr> in
      if fst ps \<in> set SSL_PORTS
      then (case cert (fst ps) of
              None \<Rightarrow> plain
            | Some b \<Rightarrow>
                if b = no_cert then plain
                else plain\<lparr>op_has_ssl := True, op_issuer := Some (first_text (cb_issuer_cn b) (cb_issuer b)),
                           op_subject := Some (first_text (cb_subject_cn b) (cb_subject b)), op_days := cb_days b, op_date := cb_date b\<rparr>)
      else plain)"

definition scan_host_ports :: "(int \<Rightarrow> bool) \<Rightarrow> (int \<Rightarrow> cert_brief option) \<Rightarrow> open_port list" where
  "scan_host_ports answers cert = map (port_entry cert) (filter (\<lambda>ps. answers (fst ps)) COMMON_PORTS)"

definition strip_prefix :: "string \<Rightarrow> string \<Rightarrow> string" where
  "strip_prefix p s = (if startswith s p then drop (length p) s else s)"

definition scan_target :: "string \<Rightarrow> string" where
  "scan_target s =
     hd (split_on CHR '':'' (hd (split_on CHR ''/'' (strip_prefix ''http://'' (strip_prefix ''https://'' s)))))"

section \<open>The table\<close>

record port_row =
  pd_host :: int
  pd_port :: int
  pd_service :: "string option"
  pd_status :: string
  pd_has_ssl :: bool
  pd_issuer :: "string option"
  pd_subject :: "string option"
  pd_days :: "int option"
  pd_date :: "string option"
  pd_ssl_status :: string
  pd_first :: datetime
  pd_last :: datetime
  pd_open :: bool

definition seen_again :: "datetime \<Rightarrow> open_port \<Rightarrow> port_row \<Rightarrow> port_row" where
  "seen_again now op r =
     (let r1 = r\<lparr>pd_last := now, pd_open := True, pd_service := Some (op_service op)\<rparr> in
      if op_has_ssl op
      then r1\<lparr>pd_has_ssl := True, pd_issuer := op_issuer op, pd_subject := op_subject op, pd_days := op_days op, pd_date := op_date op\<rparr> else r1)"

definition new_port :: "int \<Rightarrow> datetime \<Rightarrow> open_port \<Rightarrow> port_row" where
  "new_port hid now op =
     \<lparr>pd_host = hid, pd_port = op_port op, pd_service = Some (op_service op), pd_status = ''new'', pd_has_ssl = op_has_ssl op,
      pd_issuer = op_issuer op, pd_subject = op_subject op, pd_days = op_days op, pd_date = op_date op, pd_ssl_status = ''new'',
      pd_first = now, pd_last = now, pd_open = True\<rparr>"

text \<open>One port of the scan; the second part are the stored ports of the host that were not found yet.\<close>

definition upsert_port :: "int \<Rightarrow> datetime \<Rightarrow> open_port \<Rightarrow> port_row list \<times> int list \<Rightarrow> port_row list \<times> int list" where
  "upsert_port hid now op s =
     (if op_port op \<in> set (snd s)
      then (map (\<lambda>r. if pd_host r = hid \<and> pd_port r = op_port op then seen_again now op r else r) (fst s), removeAll (op_port op) (snd s))
      else (fst s @ [new_port hid now op], snd s))"

definition upsert_discovered_ports :: "int \<Rightarrow> datetime \<Rightarrow> open_port list \<Rightarrow> port_row list \<Rightarrow> port_row list" where
  "upsert_discovered_ports hid now ops tab =
     (let (tab', missing) = fold (upsert_port hid now) ops (tab, map pd_port (filter (\<lambda>r. pd_host r = hid) tab)) in
      map (\<lambda>r. if pd_host r = hid \<and> pd_port r \<in> set missing then r\<lparr>pd_open := False\<rparr> else r) tab')"

text \<open>A pass over the enabled hosts outside maintenance: what the scan of a host found, nothing where it or its storing raises; each host is stored by itself.\<close>

definition discovery_targets :: "tzdb \<Rightarrow> datetime \<Rightarrow> window_spec list \<Rightarrow> ping_host list \<Rightarrow> (int \<times> string) list" where
  "discovery_targets db now ws hosts = map (\<lambda>h. (host_id h, scan_target (hostname h))) (without_maintenance db (filter enabled hosts) now ws)"

definition run_port_discovery ::
    "tzdb \<Rightarrow> window_spec list \<Rightarrow> (int \<Rightarrow> string \<Rightarrow> open_port list option) \<Rightarrow> datetime \<Rightarrow> (int \<Rightarrow> datetime) \<Rightarrow> ping_host list \<Rightarrow> port_row list \<Rightarrow> port_row list" where
  "run_port_discovery db ws scan now stored_at hosts tab =
     fold (\<lambda>(hid, target) tab. case scan hid target of None \<Rightarrow> tab | Some ops \<Rightarrow> upsert_discovered_ports hid (stored_at hid) ops tab)
       (discovery_targets db now ws hosts) tab"

section \<open>What a scan leaves in the table\<close>

definition port_keys :: "port_row list \<Rightarrow> (int \<times> int) list" where
  "port_keys tab = map (\<lambda>r. (pd_host r, pd_port r)) tab"

definition port_row_of :: "int \<Rightarrow> int \<Rightarrow> port_row list \<Rightarrow> port_row option" where
  "port_row_of h p tab = find (\<lambda>r. pd_host r = h \<and> pd_port r = p) tab"

text \<open>The specification, for one stored port and what the scan found of it.\<close>

definition scanned_row :: "int \<Rightarrow> datetime \<Rightarrow> open_port option \<Rightarrow> port_row option \<Rightarrow> port_row option" where
  "scanned_row hid now found stored =
     (case (found, stored) of
        (None, r) \<Rightarrow> map_option (\<lambda>r. r\<lparr>pd_open := False\<rparr>) r
      | (Some op, None) \<Rightarrow> Some (new_port hid now op)
      | (Some op, Some r) \<Rightarrow> Some (seen_again now op r))"

lemma seen_again_key [simp]: "pd_host (seen_again now op r) = pd_host r" "pd_port (seen_again now op r) = pd_port r"
  by (simp_all add: seen_again_def Let_def)

lemma find_map_key:
  "(\<And>r. pd_host (f r) = pd_host r \<and> pd_port (f r) = pd_port r) \<Longrightarrow> port_row_of h p (map f tab) = map_option f (port_row_of h p tab)"
  by (induction tab) (simp_all add: port_row_of_def)

lemma port_row_key: "port_row_of h p tab = Some r \<Longrightarrow> pd_host r = h \<and> pd_port r = p"
  by (induction tab) (auto simp: port_row_of_def split: if_splits)

lemma port_row_None: "port_row_of h p tab = None \<longleftrightarrow> (h, p) \<notin> set (port_keys tab)"
  by (induction tab) (auto simp: port_row_of_def port_keys_def)

lemma port_row_append: "port_row_of h p (tab @ [r]) = (case port_row_of h p tab of None \<Rightarrow> if pd_host r = h \<and> pd_port r = p then Some r else None | Some x \<Rightarrow> Some x)"
  by (induction tab) (auto simp: port_row_of_def)

text \<open>The table while the ports of a scan are stored: \<open>todo\<close> are the ports still to come.\<close>

lemma upsert_port_row:
  assumes "op_port op \<in> set (snd s) \<longleftrightarrow> port_row_of hid (op_port op) (fst s) \<noteq> None"
  shows "port_row_of h p (fst (upsert_port hid now op s)) =
      (if h = hid \<and> p = op_port op then scanned_row hid now (Some op) (port_row_of h p (fst s)) else port_row_of h p (fst s))"
    and "set (snd (upsert_port hid now op s)) = set (snd s) - {op_port op}"
proof -
  show "port_row_of h p (fst (upsert_port hid now op s)) =
      (if h = hid \<and> p = op_port op then scanned_row hid now (Some op) (port_row_of h p (fst s)) else port_row_of h p (fst s))"
  proof (cases "op_port op \<in> set (snd s)")
    case True
    have "port_row_of h p (fst (upsert_port hid now op s)) =
        map_option (\<lambda>r. if pd_host r = hid \<and> pd_port r = op_port op then seen_again now op r else r) (port_row_of h p (fst s))"
      using True by (simp add: upsert_port_def find_map_key)
    then show ?thesis using assms True by (cases "port_row_of h p (fst s)") (auto simp: scanned_row_def dest: port_row_key)
  next
    case False
    then show ?thesis using assms by (auto simp: upsert_port_def port_row_append scanned_row_def new_port_def split: option.split)
  qed
qed (auto simp: upsert_port_def)

lemma upsert_all:
  assumes "distinct (map op_port ops)"
    and "\<forall>p. p \<in> set (snd s) \<longrightarrow> port_row_of hid p (fst s) \<noteq> None"
    and "\<forall>op \<in> set ops. op_port op \<in> set (snd s) \<longleftrightarrow> port_row_of hid (op_port op) (fst s) \<noteq> None"
  shows "port_row_of h p (fst (fold (upsert_port hid now) ops s)) =
      (case find (\<lambda>op. op_port op = p) ops of
         None \<Rightarrow> port_row_of h p (fst s)
       | Some op \<Rightarrow> if h = hid then scanned_row hid now (Some op) (port_row_of h p (fst s)) else port_row_of h p (fst s))"
    and "set (snd (fold (upsert_port hid now) ops s)) = set (snd s) - op_port ` set ops"
  using assms
proof (induction ops arbitrary: s)
  case (Cons op ops)
  { case 1
    let ?s = "upsert_port hid now op s"
    have first: "op_port op \<in> set (snd s) \<longleftrightarrow> port_row_of hid (op_port op) (fst s) \<noteq> None" using 1(3) by simp
    note f = upsert_port_row [OF first]
    have notin: "find (\<lambda>o'. op_port o' = op_port op) ops = None" using 1(1) unfolding find_None_iff by (metis distinct.simps(2) image_eqI list.simps(9) set_map)
    have "port_row_of h p (fst (fold (upsert_port hid now) ops ?s)) =
        (case find (\<lambda>op. op_port op = p) ops of
           None \<Rightarrow> port_row_of h p (fst ?s)
         | Some op \<Rightarrow> if h = hid then scanned_row hid now (Some op) (port_row_of h p (fst ?s)) else port_row_of h p (fst ?s))"
      by (rule Cons.IH(1)) (use 1 f in \<open>auto simp: image_iff scanned_row_def split: option.splits\<close>)
    then show ?case using f notin by (auto split: option.split) }
  { case 2
    let ?s = "upsert_port hid now op s"
    have first: "op_port op \<in> set (snd s) \<longleftrightarrow> port_row_of hid (op_port op) (fst s) \<noteq> None" using 2(3) by simp
    note f = upsert_port_row [OF first]
    have "set (snd (fold (upsert_port hid now) ops ?s)) = set (snd ?s) - op_port ` set ops"
      by (rule Cons.IH(2)) (use 2 f in \<open>auto simp: image_iff scanned_row_def split: option.splits\<close>)
    then show ?case using f by auto }
qed simp_all

text \<open>
  The exact effect of storing a scan: rows of other hosts stay as they are, a port found for the first time gets a new row, a stored one that is
  found again is open, seen now, and has the certificate of the scan if there is one, and a stored one that was not found is closed; its first
  sighting and the decisions of the operator are never touched.
\<close>

theorem scan_recorded:
  assumes "distinct (map op_port ops)"
  shows "port_row_of h p (upsert_discovered_ports hid now ops tab) =
    (if h = hid then scanned_row hid now (find (\<lambda>op. op_port op = p) ops) (port_row_of h p tab) else port_row_of h p tab)"
proof -
  let ?s = "(tab, map pd_port (filter (\<lambda>r. pd_host r = hid) tab))"
  have stored: "q \<in> set (snd ?s) \<longleftrightarrow> port_row_of hid q (fst ?s) \<noteq> None" for q
    by (force simp: port_row_None port_keys_def)
  have row: "port_row_of h p (fst (fold (upsert_port hid now) ops ?s)) =
      (case find (\<lambda>op. op_port op = p) ops of
         None \<Rightarrow> port_row_of h p tab
       | Some op \<Rightarrow> if h = hid then scanned_row hid now (Some op) (port_row_of h p tab) else port_row_of h p tab)"
    using upsert_all(1) [OF assms, of ?s hid h p now] stored unfolding fst_conv snd_conv by blast
  have missing: "q \<in> set (snd (fold (upsert_port hid now) ops ?s)) \<longleftrightarrow> port_row_of hid q tab \<noteq> None \<and> find (\<lambda>op. op_port op = q) ops = None" for q
    using upsert_all(2) [OF assms, of ?s hid now] stored [of q] stored by (auto simp: find_None_iff)
  let ?m = "snd (fold (upsert_port hid now) ops ?s)"
  have "port_row_of h p (upsert_discovered_ports hid now ops tab) =
      map_option (\<lambda>r. if pd_host r = hid \<and> pd_port r \<in> set ?m then r\<lparr>pd_open := False\<rparr> else r) (port_row_of h p (fst (fold (upsert_port hid now) ops ?s)))"
    by (simp add: upsert_discovered_ports_def Let_def case_prod_unfold find_map_key)
  also have "\<dots> = map_option (\<lambda>r. if h = hid \<and> p \<in> set ?m then r\<lparr>pd_open := False\<rparr> else r) (port_row_of h p (fst (fold (upsert_port hid now) ops ?s)))"
    by (cases "port_row_of h p (fst (fold (upsert_port hid now) ops ?s))") (auto dest: port_row_key)
  finally have lastly: "port_row_of h p (upsert_discovered_ports hid now ops tab) = \<dots>" .
  show ?thesis
  proof (cases "find (\<lambda>op. op_port op = p) ops")
    case None
    then show ?thesis unfolding lastly row using missing [of p] by (cases "port_row_of h p tab") (auto simp: scanned_row_def)
  next
    case (Some op)
    then have "p \<notin> set ?m" using missing [of p] by simp
    then show ?thesis unfolding lastly row using Some by (simp add: option.map_ident)
  qed
qed

lemma unique_ports_kept:
  assumes "distinct (map op_port ops)" "distinct (port_keys tab)"
  shows "distinct (port_keys (upsert_discovered_ports hid now ops tab))"
proof -
  have same: "port_keys (map (\<lambda>r. if P r then seen_again now op r else r) t) = port_keys t" for P op t
    by (simp add: port_keys_def)
  have "distinct (port_keys (fst (fold (upsert_port hid now) ops s)))"
    if "distinct (map op_port ops)" "distinct (port_keys (fst s))" "\<forall>op \<in> set ops. (hid, op_port op) \<in> set (port_keys (fst s)) \<longrightarrow> op_port op \<in> set (snd s)" for s
    using that
  proof (induction ops arbitrary: s)
    case (Cons op ops)
    have step: "port_keys (fst (upsert_port hid now op s)) = port_keys (fst s) @ (if op_port op \<in> set (snd s) then [] else [(hid, op_port op)])"
      by (simp add: upsert_port_def same) (simp add: port_keys_def new_port_def)
    have "distinct (port_keys (fst (upsert_port hid now op s)))" using Cons.prems(2,3) by (auto simp: step)
    moreover have "(hid, op_port o') \<in> set (port_keys (fst (upsert_port hid now op s))) \<longrightarrow> op_port o' \<in> set (snd (upsert_port hid now op s))"
      if "o' \<in> set ops" for o'
    proof -
      have "op_port o' \<noteq> op_port op" using Cons.prems(1) that by (metis distinct.simps(2) image_eqI list.simps(9) set_map)
      then show ?thesis using Cons.prems(3) that unfolding step by (auto simp: upsert_port_def)
    qed
    ultimately show ?case using Cons by simp
  qed simp
  from this [OF assms(1), of "(tab, map pd_port (filter (\<lambda>r. pd_host r = hid) tab))"] assms(2)
  have "distinct (port_keys (fst (fold (upsert_port hid now) ops (tab, map pd_port (filter (\<lambda>r. pd_host r = hid) tab)))))"
    by (force simp: port_keys_def)
  moreover have "port_keys (map (\<lambda>r. if P r then r\<lparr>pd_open := False\<rparr> else r) t) = port_keys t" for P t by (simp add: port_keys_def)
  ultimately show ?thesis by (simp add: upsert_discovered_ports_def Let_def case_prod_unfold)
qed

text \<open>A scan reports a port once.\<close>

lemma port_entry_port [simp]: "op_port (port_entry cert ps) = fst ps"
  by (simp add: port_entry_def Let_def split: option.split)

lemma scan_ports_distinct: "distinct (map op_port (scan_host_ports answers cert))"
proof -
  have "map op_port (scan_host_ports answers cert) = map fst (filter (\<lambda>ps. answers (fst ps)) COMMON_PORTS)"
    by (simp add: scan_host_ports_def)
  moreover have "distinct (map fst COMMON_PORTS)" by (simp add: COMMON_PORTS_def)
  ultimately show ?thesis by (simp add: distinct_map_filter)
qed

definition demo_port :: port_row where
  "demo_port = \<lparr>pd_host = 1, pd_port = 22, pd_service = Some ''ssh'', pd_status = ''monitored'', pd_has_ssl = False, pd_issuer = None, pd_subject = None,
     pd_days = None, pd_date = None, pd_ssl_status = ''new'', pd_first = 5, pd_last = 5, pd_open = True\<rparr>"

theorem scan_recorded_witness:
  "port_row_of 1 22 (upsert_discovered_ports 1 9 (scan_host_ports (\<lambda>p. p = 80) (\<lambda>_. None)) [demo_port]) = Some (demo_port\<lparr>pd_open := False\<rparr>) \<and>
   map_option pd_first (port_row_of 1 80 (upsert_discovered_ports 1 9 (scan_host_ports (\<lambda>p. p = 80) (\<lambda>_. None)) [demo_port])) = Some 9"
  unfolding scan_recorded [OF scan_ports_distinct]
  by (simp add: scan_host_ports_def COMMON_PORTS_def port_entry_def SSL_PORTS_def port_row_of_def demo_port_def scanned_row_def new_port_def Let_def)

section \<open>Limits\<close>

text \<open>A port that no longer offers a certificate keeps the old one.\<close>

lemma old_certificate_kept: "\<not> op_has_ssl op \<Longrightarrow> pd_has_ssl (seen_again now op r) = pd_has_ssl r \<and> pd_days (seen_again now op r) = pd_days r"
  by (simp add: seen_again_def Let_def)

text \<open>An IPv6 address is cut at its first colon.\<close>

lemma ipv6_target_cut: "scan_target ''fd00::5'' = ''fd00''" "scan_target ''::1'' = []"
  by code_simp+

text \<open>Port 636 is marked for a certificate and never scanned.\<close>

lemma ldaps_never_scanned: "636 \<in> set SSL_PORTS \<and> 636 \<notin> op_port ` set (scan_host_ports answers cert)"
proof -
  have "op_port ` set (scan_host_ports answers cert) \<subseteq> fst ` set COMMON_PORTS" by (force simp: scan_host_ports_def)
  then show ?thesis by (auto simp: SSL_PORTS_def COMMON_PORTS_def)
qed

text \<open>The hosts of a probe are scanned too, from the network of the core.\<close>

lemma probe_hosts_scanned:
  assumes "h \<in> set hosts" "enabled h" "host_id h \<notin> maintenance_ids db (filter enabled hosts) now ws"
  shows "(host_id h, scan_target (hostname h)) \<in> set (discovery_targets db now ws hosts)"
  using assms by (auto simp: discovery_targets_def without_maintenance_def)

end
