(* ===== verification/Changes_Feed.thy ===== *)
theory Changes_Feed
  imports Maintenance Probes "HOL-Library.Multiset"
begin

text \<open>
  The feed of changes (\<^verbatim>\<open>backend/services/changes.py\<close>): every table that records a fact is read only as deep as the page needs, the results are merged
  newest first and the page is cut out. Tables are lists of rows; the answer of the query for the windows is an argument.
\<close>

section \<open>Rows and items\<close>

record inc_change =
  ci_id :: int
  ci_title :: string
  ci_severity :: string
  ci_rule :: string
  ci_status :: string
  ci_created :: datetime
  ci_resolved :: "datetime option"

record ack_change =
  ce_incident :: int
  ce_title :: string
  ce_type :: string
  ce_time :: datetime
  ce_summary :: "string option"

record host_change =
  ch_id :: int
  ch_name :: string
  ch_source :: "string option"
  ch_source_detail :: "string option"
  ch_created :: datetime

record port_change =
  cp_host :: int
  cp_host_name :: string
  cp_port :: int
  cp_protocol :: string
  cp_service :: "string option"
  cp_status :: string
  cp_seen :: datetime

record agent_change = probe_agent +
  ca_platform :: "string option"
  ca_created :: "datetime option"
  ca_is_probe :: bool

record audit_change =
  cu_time :: datetime
  cu_action :: string
  cu_target_type :: "string option"
  cu_target_id :: "int option"
  cu_target_name :: "string option"
  cu_details :: "string option"
  cu_username :: "string option"

record change_tables =
  ct_incidents :: "inc_change list"
  ct_events :: "ack_change list"
  ct_hosts :: "host_change list"
  ct_ports :: "port_change list"
  ct_agents :: "agent_change list"
  ct_audit :: "audit_change list"
  ct_windows :: "window_spec list"

record change_item =
  it_type :: string
  it_at :: datetime
  it_title :: string
  it_kind :: string
  it_id :: json
  it_name :: json
  it_detail :: "(string, json) dict option"

definition CHANGE_TYPES :: "string list" where
  "CHANGE_TYPES = [''incident_opened'', ''incident_resolved'', ''incident_acknowledged'', ''host_added'', ''port_discovered'', ''agent_enrolled'',
     ''agent_updated'', ''maintenance_started'', ''probe_silent'', ''config_change'']"

definition ADMIN_ONLY_TYPES :: "string list" where "ADMIN_ONLY_TYPES = [''config_change'']"
definition MAX_WINDOW_DAYS :: int where "MAX_WINDOW_DAYS = 31"
definition MAX_OFFSET :: nat where "MAX_OFFSET = 5000"
definition AUDIT_EXCLUDED :: "string list" where
  "AUDIT_EXCLUDED = [''auth.login'', ''auth.logout'', ''agent.version_change'', ''maintenance.toggle'']"

definition iso_z :: "datetime \<Rightarrow> json" where "iso_z t = JStr (isoformat t @ ''Z'')"
definition opt_text :: "string option \<Rightarrow> json" where "opt_text s = (case s of None \<Rightarrow> JNull | Some x \<Rightarrow> JStr x)"
definition shown :: "string option \<Rightarrow> string" where "shown s = (case s of None \<Rightarrow> ''None'' | Some x \<Rightarrow> x)"
definition opt_id :: "int option \<Rightarrow> json" where "opt_id i = (case i of None \<Rightarrow> JNull | Some n \<Rightarrow> JInt n)"

definition change_item_of :: "string \<Rightarrow> datetime \<Rightarrow> string \<Rightarrow> string \<Rightarrow> json \<Rightarrow> json \<Rightarrow> (string, json) dict \<Rightarrow> change_item" where
  "change_item_of ty t title kind i name detail =
     (let d = filter (\<lambda>(_, v). v \<noteq> JNull) detail in
      \<lparr>it_type = ty, it_at = t, it_title = title, it_kind = kind, it_id = i, it_name = name, it_detail = (if d = [] then None else Some d)\<rparr>)"

definition inc_title_of :: "int \<Rightarrow> string \<Rightarrow> string" where "inc_title_of i title = ''#'' @ show_int i @ '' '' @ title"

definition opened_item :: "inc_change \<Rightarrow> change_item" where
  "opened_item r = change_item_of ''incident_opened'' (ci_created r) (inc_title_of (ci_id r) (ci_title r)) ''incident'' (JInt (ci_id r)) (JStr (ci_title r))
     [(''severity'', JStr (ci_severity r)), (''rule'', JStr (ci_rule r)), (''status'', JStr (ci_status r))]"

definition ci_resolved_at :: "inc_change \<Rightarrow> datetime" where "ci_resolved_at r = (case ci_resolved r of None \<Rightarrow> 0 | Some t \<Rightarrow> t)"

definition resolved_item :: "inc_change \<Rightarrow> change_item" where
  "resolved_item r = change_item_of ''incident_resolved'' (ci_resolved_at r) (inc_title_of (ci_id r) (ci_title r)) ''incident'' (JInt (ci_id r)) (JStr (ci_title r))
     [(''severity'', JStr (ci_severity r)), (''opened_at'', iso_z (ci_created r)),
      (''duration_seconds'', JInt (trunc (total_seconds (ci_resolved_at r - ci_created r))))]"

definition ack_item :: "ack_change \<Rightarrow> change_item" where
  "ack_item r = change_item_of ''incident_acknowledged'' (ce_time r) (inc_title_of (ce_incident r) (ce_title r)) ''incident'' (JInt (ce_incident r))
     (JStr (ce_title r)) [(''summary'', opt_text (ce_summary r))]"

definition added_host_item :: "host_change \<Rightarrow> change_item" where
  "added_host_item h =
     (let source = (case ch_source h of None \<Rightarrow> ''manual'' | Some s \<Rightarrow> if s = [] then ''manual'' else s); found = (source \<noteq> ''manual'') in
      change_item_of ''host_added'' (ch_created h) ((if found then ''New host discovered: '' else ''Host added: '') @ ch_name h) ''host'' (JInt (ch_id h))
        (JStr (ch_name h)) [(''source'', JStr source), (''discovered'', JBool found), (''source_detail'', opt_text (ch_source_detail h))])"

definition port_item :: "port_change \<Rightarrow> change_item" where
  "port_item p = change_item_of ''port_discovered'' (cp_seen p) (cp_host_name p @ '': port '' @ show_int (cp_port p) @ ''/'' @ cp_protocol p @ '' open'') ''host''
     (JInt (cp_host p)) (JStr (cp_host_name p)) [(''port'', JInt (cp_port p)), (''service'', opt_text (cp_service p)), (''status'', JStr (cp_status p))]"

definition agent_created :: "agent_change \<Rightarrow> datetime" where "agent_created a = (case ca_created a of None \<Rightarrow> 0 | Some t \<Rightarrow> t)"

definition agent_item :: "agent_change \<Rightarrow> change_item" where
  "agent_item a = change_item_of ''agent_enrolled'' (agent_created a) (''Agent enrolled: '' @ shown (agent_name a)) ''agent'' (JInt (agent_id a))
     (opt_text (agent_name a)) [(''platform'', opt_text (ca_platform a))]"

definition audit_dict :: "string option \<Rightarrow> (string, json) dict" where
  "audit_dict raw =
     (case raw of None \<Rightarrow> [] | Some s \<Rightarrow> if s = [] then [] else (case loads s of Some (JDict d) \<Rightarrow> d | _ \<Rightarrow> []))"

text \<open>\<open>text_of\<close>: \<^verbatim>\<open>str\<close> of a decoded value.\<close>

definition updated_item :: "(json \<Rightarrow> string) \<Rightarrow> audit_change \<Rightarrow> change_item" where
  "updated_item text_of u =
     (let d = audit_dict (cu_details u) in
      change_item_of ''agent_updated'' (cu_time u) (''Agent '' @ shown (cu_target_name u) @ '' updated to '' @ text_of (dget_or d ''to'' (JStr ''?''))) ''agent''
        (opt_id (cu_target_id u)) (opt_text (cu_target_name u)) [(''from'', dget_or d ''from'' JNull), (''to'', dget_or d ''to'' JNull)])"

text \<open>\<^verbatim>\<open>a or b or ''\<close>.\<close>

definition or_else_text :: "string option \<Rightarrow> string \<Rightarrow> string" where
  "or_else_text a b = (case a of None \<Rightarrow> b | Some x \<Rightarrow> if x = [] then b else x)"

definition config_item :: "audit_change \<Rightarrow> change_item" where
  "config_item u = change_item_of ''config_change'' (cu_time u)
     (strip (cu_action u @ '': '' @ or_else_text (cu_target_name u) (or_else_text (cu_target_type u) []))) (or_else_text (cu_target_type u) ''setting'')
     (opt_id (cu_target_id u)) (opt_text (cu_target_name u)) [(''action'', JStr (cu_action u)), (''by'', opt_text (cu_username u))]"

definition window_item :: "window_spec \<Rightarrow> datetime \<times> datetime \<Rightarrow> change_item" where
  "window_item w o' = change_item_of ''maintenance_started'' (fst o') (''Maintenance started: '' @ w_name w) ''maintenance_window'' (JInt (w_id w)) (JStr (w_name w))
     [(''ends_at'', iso_z (snd o')), (''scope'', JStr (if w_all_hosts w then ''all hosts'' else show_nat (card (w_host_ids w)) @ '' host(s)'')),
      (''host_ids'', if w_all_hosts w then JNull else JList (map JInt (sorted_list_of_set (w_host_ids w))))]"

definition toggle_item :: "audit_change \<Rightarrow> change_item" where
  "toggle_item u = change_item_of ''maintenance_started'' (cu_time u) (''Maintenance toggled: '' @ shown (cu_target_name u)) ''host'' (opt_id (cu_target_id u))
     (opt_text (cu_target_name u)) [(''manual'', JBool True), (''by'', opt_text (cu_username u))]"

section \<open>Sources\<close>

text \<open>\<^verbatim>\<open>WHERE ... ORDER BY at DESC LIMIT depth\<close>, and \<^verbatim>\<open>count\<close> with the same condition.\<close>

definition newest_rows :: "nat \<Rightarrow> ('r \<Rightarrow> bool) \<Rightarrow> ('r \<Rightarrow> datetime) \<Rightarrow> 'r list \<Rightarrow> 'r list" where
  "newest_rows depth p t rows = take depth (sort_key (\<lambda>r. - t r) (filter p rows))"

definition in_feed_window :: "datetime \<Rightarrow> datetime \<Rightarrow> datetime \<Rightarrow> bool" where "in_feed_window since until t \<longleftrightarrow> since \<le> t \<and> t < until"

type_synonym change_source = "string \<times> nat \<times> change_item list"

definition table_source :: "string \<Rightarrow> nat \<Rightarrow> ('r \<Rightarrow> bool) \<Rightarrow> ('r \<Rightarrow> datetime) \<Rightarrow> ('r \<Rightarrow> change_item) \<Rightarrow> 'r list \<Rightarrow> change_source" where
  "table_source ty depth p t item rows = (ty, length (filter p rows), map item (newest_rows depth p t rows))"

definition maintenance_source :: "tzdb \<Rightarrow> nat \<Rightarrow> datetime \<Rightarrow> datetime \<Rightarrow> change_tables \<Rightarrow> change_source" where
  "maintenance_source db depth since until d =
     (let planned = concat (map (\<lambda>w. map (window_item w) (occurrences_between db w since until)) (ct_windows d));
          toggled = (\<lambda>u. in_feed_window since until (cu_time u) \<and> cu_action u = ''maintenance.toggle'')
      in (''maintenance_started'', length planned + length (filter toggled (ct_audit d)), planned @ map toggle_item (newest_rows depth toggled cu_time (ct_audit d))))"

definition silent_item :: "datetime \<Rightarrow> datetime \<Rightarrow> agent_change \<Rightarrow> change_item option" where
  "silent_item since until a =
     (let st = agent_probe total_seconds (probe_agent.truncate a);
          at_title = (case last_seen a of
             Some t \<Rightarrow> (Some (t + trunc (staleness_window (probe_interval_seconds a) * 1000000)), ''Probe went silent: '' @ ps_name st)
           | None \<Rightarrow> (ca_created a, ''Probe never reported: '' @ ps_name st))
      in if \<not> ca_is_probe a \<or> \<not> is_stale st (total_seconds until) then None
         else (case fst at_title of
            None \<Rightarrow> None
          | Some t \<Rightarrow> if in_feed_window since until t
                      then Some (change_item_of ''probe_silent'' t (snd at_title) ''probe'' (JInt (agent_id a)) (JStr (ps_name st))
                                   [(''last_report'', case last_seen a of None \<Rightarrow> JNull | Some s \<Rightarrow> iso_z s)])
                      else None))"

definition silent_source :: "datetime \<Rightarrow> datetime \<Rightarrow> change_tables \<Rightarrow> change_source" where
  "silent_source since until d =
     (let found = concat (map (\<lambda>a. case silent_item since until a of None \<Rightarrow> [] | Some i \<Rightarrow> [i]) (ct_agents d)) in
      (''probe_silent'', length found, found))"

definition sources :: "tzdb \<Rightarrow> (json \<Rightarrow> string) \<Rightarrow> nat \<Rightarrow> datetime \<Rightarrow> datetime \<Rightarrow> string set \<Rightarrow> change_tables \<Rightarrow> change_source list" where
  "sources db text_of depth since until wanted d =
     (let w = in_feed_window since until in
      filter (\<lambda>s. fst s \<in> wanted)
        [table_source ''incident_opened'' depth (\<lambda>r. w (ci_created r)) ci_created opened_item (ct_incidents d),
         table_source ''incident_resolved'' depth (\<lambda>r. ci_resolved r \<noteq> None \<and> w (ci_resolved_at r)) ci_resolved_at resolved_item (ct_incidents d),
         table_source ''incident_acknowledged'' depth (\<lambda>r. ce_type r = ''acknowledged'' \<and> w (ce_time r)) ce_time ack_item (ct_events d),
         table_source ''host_added'' depth (\<lambda>r. w (ch_created r)) ch_created added_host_item (ct_hosts d),
         table_source ''port_discovered'' depth (\<lambda>r. w (cp_seen r)) cp_seen port_item (ct_ports d),
         table_source ''agent_enrolled'' depth (\<lambda>r. ca_created r \<noteq> None \<and> w (agent_created r)) agent_created agent_item (ct_agents d),
         table_source ''agent_updated'' depth (\<lambda>r. w (cu_time r) \<and> cu_action r = ''agent.version_change'') cu_time (updated_item text_of) (ct_audit d),
         table_source ''config_change'' depth (\<lambda>r. w (cu_time r) \<and> cu_action r \<notin> set AUDIT_EXCLUDED) cu_time config_item (ct_audit d),
         maintenance_source db depth since until d,
         silent_source since until d])"

section \<open>The page\<close>

record feed =
  fe_since :: datetime
  fe_until :: datetime
  fe_total :: nat
  fe_counts :: "(string \<times> nat) list"
  fe_limit :: nat
  fe_offset :: nat
  fe_has_more :: bool
  fe_items :: "change_item list"

text \<open>\<^verbatim>\<open>sort(reverse=True)\<close> keeps the order of equal elements.\<close>

definition merged :: "change_source list \<Rightarrow> change_item list" where
  "merged ss = sort_key (\<lambda>i. - it_at i) (concat (map (snd \<circ> snd) ss))"

definition wanted_types :: "string set option \<Rightarrow> bool \<Rightarrow> string set" where
  "wanted_types types is_admin =
     (let ts = (case types of None \<Rightarrow> set CHANGE_TYPES | Some s \<Rightarrow> if s = {} then set CHANGE_TYPES else s) in
      if is_admin then ts else ts - set ADMIN_ONLY_TYPES)"

definition collect ::
    "tzdb \<Rightarrow> (json \<Rightarrow> string) \<Rightarrow> datetime \<Rightarrow> datetime \<Rightarrow> nat \<Rightarrow> int \<Rightarrow> string set option \<Rightarrow> bool \<Rightarrow> change_tables \<Rightarrow> feed" where
  "collect db text_of since0 until limit offset0 types is_admin d =
     (let since = max since0 (until - days MAX_WINDOW_DAYS);
          offset = min (nat offset0) MAX_OFFSET;
          wanted = wanted_types types is_admin;
          ss = sources db text_of (offset + limit) since until wanted d;
          page = take limit (drop offset (merged ss));
          total = sum_list (map (fst \<circ> snd) ss)
      in \<lparr>fe_since = since, fe_until = until, fe_total = total,
          fe_counts = map (\<lambda>t. (t, case dget ss t of None \<Rightarrow> 0 | Some s \<Rightarrow> fst s)) (filter (\<lambda>t. t \<in> wanted) CHANGE_TYPES),
          fe_limit = limit, fe_offset = offset, fe_has_more = offset + length page < total, fe_items = page\<rparr>)"

section \<open>Reading deeper does not change the page\<close>

text \<open>Where an element goes in a stable sort.\<close>

lemma three_ways:
  fixes a b :: "'k :: linorder"
  obtains "a < b" "a \<le> b" "a \<noteq> b" "\<not> b < a" "\<not> b \<le> a" | "a = b"
    | "b < a" "b \<le> a" "a \<noteq> b" "\<not> a < b" "\<not> a \<le> b"
  by (cases a b rule: linorder_cases) (simp_all add: not_le not_less)

definition sorted_before :: "('a \<Rightarrow> 'k :: linorder) \<Rightarrow> 'k \<Rightarrow> 'a list \<Rightarrow> 'a list \<Rightarrow> 'a list" where
  "sorted_before k v us vs = sort_key k (filter (\<lambda>x. k x \<le> v) us @ filter (\<lambda>x. k x < v) vs)"

definition sorted_after :: "('a \<Rightarrow> 'k :: linorder) \<Rightarrow> 'k \<Rightarrow> 'a list \<Rightarrow> 'a list \<Rightarrow> 'a list" where
  "sorted_after k v us vs = sort_key k (filter (\<lambda>x. v < k x) us @ filter (\<lambda>x. v \<le> k x) vs)"

lemma filter_same: "filter (\<lambda>x. k x = y \<and> Q (k x)) xs = (if Q y then filter (\<lambda>x. k x = y) xs else [])"
  by (induction xs) auto

lemma filter_before:
  "filter (\<lambda>x. k x = y) (sorted_before k v us vs) = (if y \<le> v then filter (\<lambda>x. k x = y) us else []) @ (if y < v then filter (\<lambda>x. k x = y) vs else [])"
  unfolding sorted_before_def sort_key_stable filter_append filter_filter using filter_same [of k y "\<lambda>u. u \<le> v"] filter_same [of k y "\<lambda>u. u < v"]
  by (simp add: conj_commute)

lemma filter_after_it:
  "filter (\<lambda>x. k x = y) (sorted_after k v us vs) = (if v < y then filter (\<lambda>x. k x = y) us else []) @ (if v \<le> y then filter (\<lambda>x. k x = y) vs else [])"
  unfolding sorted_after_def sort_key_stable filter_append filter_filter using filter_same [of k y "\<lambda>u. v < u"] filter_same [of k y "\<lambda>u. v \<le> u"]
  by (simp add: conj_commute)

lemma mset_parts: "mset (sorted_before k v us vs) + mset (sorted_after k v us vs) = mset us + mset vs"
proof -
  have "mset us = filter_mset (\<lambda>x. k x \<le> v) (mset us) + filter_mset (\<lambda>x. v < k x) (mset us)"
    "mset vs = filter_mset (\<lambda>x. k x < v) (mset vs) + filter_mset (\<lambda>x. v \<le> k x) (mset vs)"
    using multiset_partition [of "mset us" "\<lambda>x. k x \<le> v"] multiset_partition [of "mset vs" "\<lambda>x. k x < v"] by (simp_all add: not_le not_less)
  then have "mset us + mset vs = (filter_mset (\<lambda>x. k x \<le> v) (mset us) + filter_mset (\<lambda>x. v < k x) (mset us)) +
      (filter_mset (\<lambda>x. k x < v) (mset vs) + filter_mset (\<lambda>x. v \<le> k x) (mset vs))" by (rule arg_cong2 [where f = "(+)"])
  then show ?thesis by (simp add: sorted_before_def sorted_after_def ac_simps)
qed

lemma part_bounds:
  shows "x \<in> set (sorted_before k v us vs) \<Longrightarrow> k x \<le> v" and "x \<in> set (sorted_after k v us vs) \<Longrightarrow> v \<le> k x"
    and "sorted (map k (sorted_before k v us vs))" and "sorted (map k (sorted_after k v us vs))"
  by (auto simp: sorted_before_def sorted_after_def)

lemma parts_ordered: "x \<in> set (sorted_before k v us vs) \<Longrightarrow> y \<in> set (sorted_after k v us vs) \<Longrightarrow> k x \<le> k y"
  by (rule order_trans [OF part_bounds(1) part_bounds(2)])

lemma sort_key_around: "sort_key k (us @ z # vs) = sorted_before k (k z) us vs @ z # sorted_after k (k z) us vs"
proof (rule properties_for_sort_key)
  show "mset (sorted_before k (k z) us vs @ z # sorted_after k (k z) us vs) = mset (us @ z # vs)"
    using mset_parts [of k "k z" us vs] by simp
  show "filter (\<lambda>x. k y = k x) (sorted_before k (k z) us vs @ z # sorted_after k (k z) us vs) = filter (\<lambda>x. k y = k x) (us @ z # vs)" for y
    unfolding eq_commute [of "k y"] filter_append filter.simps filter_before filter_after_it
    by (rule three_ways [of "k y" "k z"]) simp_all
  show "sorted (map k (sorted_before k (k z) us vs @ z # sorted_after k (k z) us vs))"
    by (simp add: sorted_append part_bounds parts_ordered)
qed

lemma sort_key_without: "sort_key k (us @ vs) = sorted_before k v us vs @ sorted_after k v us vs"
proof (rule properties_for_sort_key)
  show "mset (sorted_before k v us vs @ sorted_after k v us vs) = mset (us @ vs)" using mset_parts [of k v us vs] by simp
  show "filter (\<lambda>x. k y = k x) (sorted_before k v us vs @ sorted_after k v us vs) = filter (\<lambda>x. k y = k x) (us @ vs)" for y
    unfolding eq_commute [of "k y"] filter_append filter_before filter_after_it
    by (rule three_ways [of "k y" v]) simp_all
  show "sorted (map k (sorted_before k v us vs @ sorted_after k v us vs))" by (simp add: sorted_append part_bounds parts_ordered)
qed

lemma late_element:
  assumes "n \<le> length (filter (\<lambda>x. k x \<le> k z) us)"
  shows "take n (sort_key k (us @ z # vs)) = take n (sort_key k (us @ vs))"
  using assms unfolding sort_key_around sort_key_without [of k us vs "k z"] by (simp add: sorted_before_def)

lemma late_elements:
  assumes "\<forall>z \<in> set zs. n \<le> length (filter (\<lambda>x. k x \<le> k z) us)"
  shows "take n (sort_key k (us @ zs @ vs)) = take n (sort_key k (us @ vs))"
  using assms by (induction zs) (simp_all add: late_element)

lemma deeper_block:
  assumes "sorted (map k ys)"
  shows "take n (sort_key k (us @ take n ys @ vs)) = take n (sort_key k (us @ ys @ vs))"
proof (cases "n < length ys")
  case True
  have "n \<le> length (filter (\<lambda>x. k x \<le> k z) (us @ take n ys))" if "z \<in> set (drop n ys)" for z
  proof -
    have "sorted (map k (take n ys @ drop n ys))" using assms by simp
    then have "\<forall>x \<in> set (take n ys). k x \<le> k z" using that unfolding map_append sorted_append by auto
    then have "filter (\<lambda>x. k x \<le> k z) (take n ys) = take n ys" by (simp add: filter_id_conv)
    then show ?thesis using True by simp
  qed
  then show ?thesis using late_elements [of "drop n ys" n k "us @ take n ys" vs] by (metis append_assoc append_take_drop_id)
qed simp

text \<open>Blocks of a shallow and of a deep reading: the shallow one has the first elements of a sorted end.\<close>

definition deeper :: "nat \<Rightarrow> change_item list \<Rightarrow> change_item list \<Rightarrow> bool" where
  "deeper n xs ys \<longleftrightarrow> (\<exists>zs vs. xs = zs @ take n vs \<and> ys = zs @ vs \<and> sorted (map (\<lambda>i. - it_at i) vs))"

lemma deeper_concat:
  "list_all2 (deeper n) xss yss \<Longrightarrow>
     take n (sort_key (\<lambda>i. - it_at i) (us @ concat xss)) = take n (sort_key (\<lambda>i. - it_at i) (us @ concat yss))"
proof (induction xss yss arbitrary: us rule: list_all2_induct)
  case (Cons xs xss ys yss)
  then obtain zs vs where b: "xs = zs @ take n vs" "ys = zs @ vs" "sorted (map (\<lambda>i. - it_at i) vs)" by (auto simp: deeper_def)
  show ?case using deeper_block [OF b(3), of n "us @ zs" "concat xss"] Cons.IH [of "us @ zs @ vs"] by (simp add: b(1,2))
qed simp

lemma deeper_table:
  assumes "n \<le> m" "\<And>r. it_at (item r) = t r"
  shows "deeper n (map item (newest_rows n p t rows)) (map item (newest_rows m p t rows))"
proof -
  have "map item (newest_rows n p t rows) = take n (map item (newest_rows m p t rows))" using assms(1) by (simp add: newest_rows_def take_map min_def)
  moreover have "sorted (map (\<lambda>i. - it_at i) (map item (newest_rows m p t rows)))"
    using sorted_wrt_take [of "(\<le>)" "map (\<lambda>r. - t r) (sort_key (\<lambda>r. - t r) (filter p rows))" m] by (simp add: newest_rows_def comp_def assms(2) take_map)
  ultimately show ?thesis unfolding deeper_def by (metis append_Nil)
qed

lemma item_at [simp]: "it_at (change_item_of ty t title kind i name detail) = t"
  by (simp add: change_item_of_def Let_def)

lemma item_times [simp]: "it_at (opened_item r) = ci_created r" "it_at (resolved_item r) = ci_resolved_at r" "it_at (ack_item a) = ce_time a"
  "it_at (added_host_item h) = ch_created h" "it_at (port_item p) = cp_seen p" "it_at (agent_item g) = agent_created g" "it_at (updated_item f u) = cu_time u"
  "it_at (config_item u) = cu_time u" "it_at (toggle_item u) = cu_time u"
  by (simp_all add: opened_item_def resolved_item_def ack_item_def added_host_item_def port_item_def agent_item_def updated_item_def config_item_def toggle_item_def Let_def)

lemma deeper_maintenance: "n \<le> m \<Longrightarrow> deeper n (snd (snd (maintenance_source db n since until d))) (snd (snd (maintenance_source db m since until d)))"
proof -
  assume nm: "n \<le> m"
  let ?p = "\<lambda>u. in_feed_window since until (cu_time u) \<and> cu_action u = ''maintenance.toggle''"
  obtain zs vs where "map toggle_item (newest_rows n ?p cu_time (ct_audit d)) = zs @ take n vs" "map toggle_item (newest_rows m ?p cu_time (ct_audit d)) = zs @ vs"
    "sorted (map (\<lambda>i. - it_at i) vs)" using deeper_table [OF nm, of toggle_item cu_time ?p "ct_audit d"] by (auto simp: deeper_def)
  then show ?thesis unfolding deeper_def maintenance_source_def Let_def snd_conv
    by (intro exI [of _ "concat (map (\<lambda>w. map (window_item w) (occurrences_between db w since until)) (ct_windows d)) @ zs"] exI [of _ vs]) simp
qed

lemma deeper_refl: "deeper n xs xs"
  unfolding deeper_def by (rule exI [of _ xs], rule exI [of _ "[]"]) simp

lemma deeper_sources:
  assumes "n \<le> m"
  shows "list_all2 (deeper n) (map (snd \<circ> snd) (sources db text_of n since until wanted d)) (map (snd \<circ> snd) (sources db text_of m since until wanted d))"
proof -
  have keep: "list_all2 (deeper n) (map (snd \<circ> snd) (filter (\<lambda>s. fst s \<in> wanted) xs)) (map (snd \<circ> snd) (filter (\<lambda>s. fst s \<in> wanted) ys))"
    if "list_all2 (\<lambda>x y. fst x = fst y \<and> deeper n (snd (snd x)) (snd (snd y))) xs ys" for xs ys :: "change_source list"
    using that by (induction rule: list_all2_induct) auto
  have table: "fst (table_source ty n p t item rows) = fst (table_source ty m p t item rows)"
    "(\<And>r. it_at (item r) = t r) \<Longrightarrow> deeper n (snd (snd (table_source ty n p t item rows))) (snd (snd (table_source ty m p t item rows)))"
    for ty p t rows and item :: "'r \<Rightarrow> change_item" by (simp_all add: table_source_def deeper_table [OF assms])
  show ?thesis unfolding sources_def Let_def
    by (rule keep) (simp add: table deeper_maintenance [OF assms] deeper_refl, simp add: table_source_def maintenance_source_def Let_def)
qed

lemma page_of_history:
  assumes "min (nat offset0) MAX_OFFSET + limit \<le> m"
  shows "fe_items (collect db text_of since0 until limit offset0 types is_admin d) =
    take limit (drop (min (nat offset0) MAX_OFFSET)
      (merged (sources db text_of m (max since0 (until - days MAX_WINDOW_DAYS)) until (wanted_types types is_admin) d)))"
proof -
  let ?o = "min (nat offset0) MAX_OFFSET"
  let ?s = "\<lambda>n. merged (sources db text_of n (max since0 (until - days MAX_WINDOW_DAYS)) until (wanted_types types is_admin) d)"
  have "take (?o + limit) (?s (?o + limit)) = take (?o + limit) (?s m)"
    using deeper_concat [OF deeper_sources [OF assms], of "[]"] unfolding merged_def by simp
  then have "take limit (drop ?o (?s (?o + limit))) = take limit (drop ?o (?s m))" by (metis add_diff_cancel_left' drop_take)
  then show ?thesis by (simp add: collect_def Let_def)
qed

text \<open>
  C40. The page is exactly the page of the whole history: however much deeper every table were read, merging everything and cutting the same page gives
  the same items in the same order.
\<close>

theorem feed_page_exact:
  assumes "fe_offset (collect db text_of since0 until limit offset0 types is_admin d) + limit \<le> m"
  shows "fe_items (collect db text_of since0 until limit offset0 types is_admin d) =
    take limit (drop (min (nat offset0) MAX_OFFSET)
      (merged (sources db text_of m (max since0 (until - days MAX_WINDOW_DAYS)) until (wanted_types types is_admin) d)))"
proof (rule page_of_history)
  show "min (nat offset0) MAX_OFFSET + limit \<le> m" using assms by (simp add: collect_def Let_def)
qed

text \<open>The total is the number of all changes, so there is more exactly if the page is not the end of the history.\<close>

lemma table_total: "length rows \<le> m \<Longrightarrow> fst (snd (table_source ty n p t item rows)) = length (snd (snd (table_source ty m p t item rows)))"
  by (simp add: table_source_def newest_rows_def min_absorb1 order_trans [OF length_filter_le])

lemma maintenance_total:
  "length (ct_audit d) \<le> m \<Longrightarrow> fst (snd (maintenance_source db n since until d)) = length (snd (snd (maintenance_source db m since until d)))"
  by (simp add: maintenance_source_def newest_rows_def Let_def min_absorb1 order_trans [OF length_filter_le])

lemma feed_total:
  assumes "\<forall>k \<in> {length (ct_incidents d), length (ct_events d), length (ct_hosts d), length (ct_ports d), length (ct_agents d), length (ct_audit d)}. k \<le> m"
  shows "fe_total (collect db text_of since0 until limit offset0 types is_admin d) =
    length (merged (sources db text_of m (max since0 (until - days MAX_WINDOW_DAYS)) until (wanted_types types is_admin) d))"
proof -
  have keep: "sum_list (map (fst \<circ> snd) (filter (\<lambda>s. fst s \<in> wanted) xs)) = length (concat (map (snd \<circ> snd) (filter (\<lambda>s. fst s \<in> wanted) ys)))"
    if "list_all2 (\<lambda>x y. fst x = fst y \<and> fst (snd x) = length (snd (snd y))) xs ys" for xs ys :: "change_source list" and wanted
    using that by (induction rule: list_all2_induct) auto
  have name: "fst (table_source ty n p t item rows) = ty" for ty n p t rows and item :: "'r \<Rightarrow> change_item" by (simp add: table_source_def)
  have "sum_list (map (fst \<circ> snd) (sources db text_of n since until w d)) = length (concat (map (snd \<circ> snd) (sources db text_of m since until w d)))" for n since w
    unfolding sources_def Let_def using assms
    by (intro keep) (simp add: name table_total maintenance_total, simp add: maintenance_source_def silent_source_def Let_def)
  then show ?thesis by (simp add: collect_def Let_def merged_def)
qed

text \<open>Two hosts and an incident; the page of two items is cut from tables read two rows deep.\<close>

definition demo_changes :: change_tables where
  "demo_changes = \<lparr>ct_incidents = [\<lparr>ci_id = 7, ci_title = ''down'', ci_severity = ''critical'', ci_rule = ''r'', ci_status = ''open'', ci_created = 20, ci_resolved = None\<rparr>],
     ct_events = [], ct_hosts = map (\<lambda>i. \<lparr>ch_id = i, ch_name = ''web'', ch_source = None, ch_source_detail = None, ch_created = 10 * i\<rparr>) [1, 3, 4],
     ct_ports = [], ct_agents = [], ct_audit = [], ct_windows = []\<rparr>"

definition feed_no_zones :: tzdb where
  "feed_no_zones = \<lparr>zone_exists = (\<lambda>_. False), local_date = (\<lambda>_ _. 0), to_utc = (\<lambda>_ _ _. 0)\<rparr>"

theorem feed_page_exact_witness:
  "fe_items (collect feed_no_zones (\<lambda>_. []) 0 100 2 1 None False demo_changes) =
     take 2 (drop 1 (merged (sources feed_no_zones (\<lambda>_. []) 9 0 100 (wanted_types None False) demo_changes))) \<and>
   map it_at (fe_items (collect feed_no_zones (\<lambda>_. []) 0 100 2 1 None False demo_changes)) = [30, 20]"
proof -
  have "fe_offset (collect feed_no_zones (\<lambda>_. []) 0 100 2 1 None False demo_changes) + 2 \<le> 9" by (simp add: collect_def Let_def MAX_OFFSET_def)
  moreover have "map it_at (fe_items (collect feed_no_zones (\<lambda>_. []) 0 100 2 1 None False demo_changes)) = [30, 20]" by code_simp
  ultimately show ?thesis using feed_page_exact [of feed_no_zones "\<lambda>_. []" 0 100 2 1 None False demo_changes 9]
    by (simp add: MAX_OFFSET_def MAX_WINDOW_DAYS_def days_def)
qed

section \<open>Pages, limits and what a reader may see\<close>

text \<open>The pages follow each other without a gap or a repetition, as far as the limit of the offset reaches.\<close>

lemma chunks_concat: "concat (map (\<lambda>i. take l (drop (i * l) xs)) [0..<n]) = take (n * l) xs"
  by (induction n) (simp_all add: take_add [symmetric] add.commute)

lemma pages_cover:
  assumes "n * limit \<le> MAX_OFFSET" "(n + 1) * limit \<le> m"
  shows "concat (map (\<lambda>i. fe_items (collect db text_of since0 until limit (int (i * limit)) types is_admin d)) [0..<Suc n]) =
    take (Suc n * limit) (merged (sources db text_of m (max since0 (until - days MAX_WINDOW_DAYS)) until (wanted_types types is_admin) d))"
proof -
  have page: "fe_items (collect db text_of since0 until limit (int (i * limit)) types is_admin d) =
      take limit (drop (i * limit) (merged (sources db text_of m (max since0 (until - days MAX_WINDOW_DAYS)) until (wanted_types types is_admin) d)))"
    if "i < Suc n" for i
  proof -
    have "i * limit \<le> n * limit" using that by (intro mult_le_mono1) simp
    moreover have "n * limit + limit \<le> m" using assms(2) by simp
    ultimately have "i * limit \<le> MAX_OFFSET" "i * limit + limit \<le> m" using assms(1) by linarith+
    then show ?thesis using page_of_history [of "int (i * limit)" limit m db text_of since0 until types is_admin d]
      unfolding nat_int by (simp add: min_absorb1 del: of_nat_mult)
  qed
  have "map (\<lambda>i. fe_items (collect db text_of since0 until limit (int (i * limit)) types is_admin d)) [0..<Suc n] =
      map (\<lambda>i. take limit (drop (i * limit) (merged (sources db text_of m (max since0 (until - days MAX_WINDOW_DAYS)) until (wanted_types types is_admin) d)))) [0..<Suc n]"
    by (intro map_cong refl page) (simp only: set_upt atLeastLessThan_iff)
  then show ?thesis by (simp only: chunks_concat)
qed

text \<open>An offset above the limit gives the page at the limit.\<close>

lemma offset_clamped:
  "int MAX_OFFSET \<le> offset0 \<Longrightarrow> collect db text_of since0 until limit offset0 types is_admin d =
     collect db text_of since0 until limit (int MAX_OFFSET) types is_admin d"
  by (simp add: collect_def Let_def min_absorb2 nat_le_iff le_nat_iff)

text \<open>Every item has a wanted type, so only an admin sees changes of the configuration.\<close>

lemma item_types [simp]: "it_type (change_item_of ty t title kind i name detail) = ty"
  by (simp add: change_item_of_def Let_def)

lemma newest_items: "x \<in> set (map item (newest_rows n p t rows)) \<Longrightarrow> \<exists>r. x = item r"
  by auto

lemma source_types:
  assumes "s \<in> set (sources db text_of n since until wanted d)" "i \<in> set (snd (snd s))"
  shows "it_type i = fst s" and "fst s \<in> wanted"
proof -
  have silent: "silent_item since until a = Some i \<Longrightarrow> it_type i = ''probe_silent''" for a i
    by (auto simp: silent_item_def Let_def split: if_splits option.splits)
  show "it_type i = fst s" using assms unfolding sources_def Let_def set_filter mem_Collect_eq
    by (auto simp: table_source_def maintenance_source_def silent_source_def Let_def opened_item_def resolved_item_def ack_item_def added_host_item_def
      port_item_def agent_item_def updated_item_def config_item_def toggle_item_def window_item_def dest: silent silent [OF sym] split: option.splits)
  show "fst s \<in> wanted" using assms(1) unfolding sources_def Let_def set_filter mem_Collect_eq by blast
qed

lemma feed_types: "i \<in> set (fe_items (collect db text_of since0 until limit offset0 types is_admin d)) \<Longrightarrow> it_type i \<in> wanted_types types is_admin"
proof -
  assume "i \<in> set (fe_items (collect db text_of since0 until limit offset0 types is_admin d))"
  then obtain s where s: "s \<in> set (sources db text_of (min (nat offset0) MAX_OFFSET + limit) (max since0 (until - days MAX_WINDOW_DAYS)) until
      (wanted_types types is_admin) d)" "i \<in> set (snd (snd s))"
    by (auto simp: collect_def Let_def merged_def dest!: in_set_takeD in_set_dropD)
  show ?thesis using source_types [OF s] by simp
qed

lemma config_hidden: "i \<in> set (fe_items (collect db text_of since0 until limit offset0 types False d)) \<Longrightarrow> it_type i \<noteq> ''config_change''"
  using feed_types [of i db text_of since0 until limit offset0 types False d] by (auto simp: wanted_types_def ADMIN_ONLY_TYPES_def Let_def)

end
