(* ===== verification/Spec2Isabelle.thy ===== *)
theory Spec2Isabelle
  imports Correlation Alert_Rules Agent_Services Rate_Limit Notifications Ingest Leader_Election Net_Safety
    Syslog_Pipeline Log_Anomalies Precursors Fleet_Patterns Predictions Tenant_Jobs Incident_View Backup_Monitor
    Self_Check Bandwidth Ping_Cycle Collection_Cycle User_Accounts Port_Discovery Changes_Feed
begin

text \<open>
  Nodeglow: verification of the monitoring core.

  \<^bold>\<open>The program.\<close> Nodeglow watches hosts, integrations, agents and logs of several tenants. The scheduler
  runs jobs per tenant: the ping cycle of \<^verbatim>\<open>scheduler.py\<close> checks the hosts and notifies outages, integrations deliver snapshots, agents and
  remote probes send heartbeats. From these rows \<^verbatim>\<open>services/host_state.py\<close> decides the one state of every host,
  with \<^verbatim>\<open>services/maintenance.py\<close> (is the host in maintenance), \<^verbatim>\<open>services/probes.py\<close> (is what a probe saw
  still current) and \<^verbatim>\<open>services/topology.py\<close> (which host is behind which). Every minute
  \<^verbatim>\<open>services/correlation.py\<close> runs ten rules over the offline hosts, the integrations and the logs, opens
  incidents after a rule held for several cycles, and resolves incidents whose cause is gone.
  \<^verbatim>\<open>services/integration_alerts.py\<close> does the same for the alerts of one integration snapshot,
  \<^verbatim>\<open>services/agent_services.py\<close> for the services an agent reports, \<^verbatim>\<open>services/rules.py\<close> for the rules a user
  wrote. What they open is sent out by \<^verbatim>\<open>notifications.py\<close> and \<^verbatim>\<open>notification_channels.py\<close>. Requests pass the
  limiter of \<^verbatim>\<open>ratelimit.py\<close>, which counts in \<^verbatim>\<open>services/shared_state.py\<close>; requests to addresses a user chose pass
  \<^verbatim>\<open>utils/net_safety.py\<close>. \<^verbatim>\<open>services/syslog.py\<close> receives log messages, attributes them to hosts and writes them in
  batches; \<^verbatim>\<open>services/log_intelligence.py\<close> counts their templates, learns what is normal and what precedes failures;
  \<^verbatim>\<open>services/predictions.py\<close> says when disks will be full. \<^verbatim>\<open>services/backup_monitor.py\<close> reads the runs of backup jobs out of the snapshots,
  \<^verbatim>\<open>services/bandwidth.py\<close> the traffic of interfaces, \<^verbatim>\<open>services/health.py\<close> scores the integrations, and \<^verbatim>\<open>services/self_check.py\<close>
  raises incidents about the monitoring itself. Of several instances one leads
  (\<^verbatim>\<open>src/ee/backend/nodeglow_ee/ha/coordinator.py\<close>) and runs the jobs, tenant by tenant (\<^verbatim>\<open>services/tenant_jobs.py\<close>).
  The other paths are under \<^verbatim>\<open>src/backend\<close>.

  \<^bold>\<open>The theories.\<close>
  \<^item> \<open>Prelude\<close>: Python's strings (UTF-8 bytes), integers, floats (rationals with the infinities and NaN),
    dictionaries (association lists that keep insertion order), datetimes (microseconds), and results: a
    raise is \<open>Inl\<close> of an error, a value \<open>Inr\<close>.
  \<^item> \<open>Json\<close>, \<open>Json_Print\<close>: \<^verbatim>\<open>json.loads\<close> and \<^verbatim>\<open>json.dumps\<close> on text, and that the second is read back by the first.
  \<^item> \<open>Models\<close>: the rows of \<^verbatim>\<open>models/\<close> that the services read and write.
  \<^item> \<open>Interfaces\<close>: two contracts as locales. \<open>keyed_cache\<close> is interpreted on the tenant-keyed caches of
    \<open>Topology\<close> and \<open>Predictions\<close>; \<open>step_system\<close>, reachability and invariants of a step function, on the correlation
    cycles, the ingest of snapshots, the syslog pipeline, the template counts, the baseline passes, the fleet patterns, the
    fair-share limiter, the passes over the tenants, the collection of the integrations and the user administration. \<open>Leader_Election\<close> has a contract of its own, \<open>lease\<close>.
  \<^item> \<open>Topology\<close>: parent lookup (manual, Proxmox, UniFi), ancestors and descendants, the split of offline hosts
    into primary and cascaded ones, the cache. Shown: the walks terminate and are the transitive closure of the
    parent relation, also with cycles; every cascaded host of an acyclic topology has a primary one above it; a
    cached answer is never another tenant's; with a cycle the primary failure is lost.
  \<^item> \<open>Maintenance\<close>: windows that occur once or weekly, in local time. Shown: what is reported as a running occurrence is one, in a zone
    whose offset does not change between the start and now none is missed, with a constant offset the next occurrence is the earliest, rows
    that do not parse become windows that are never active, and the ways to ask for a host agree; the tail of a window across a clock
    change can be missed.
  \<^item> \<open>Probes\<close>, \<open>Host_State\<close>: the decision table for the state of a host. Shown: a host is never green without a fresh
    successful check, the first matching row decides, an upstream failure only explains and never creates a failure.
  \<^item> \<open>Incidents\<close>, \<open>Streaks\<close>, \<open>Correlation_Rules\<close>, \<open>Correlation\<close>: the incident table with find-or-create, the counters of
    the hits on a key, the ten rules and the cycle with auto-resolution. The engine state is a record of the store, the
    counters and the topology cache; queries that may fail return results. Shown: at most one open incident per rule
    and key over any run; a counter is the number of hits on its key since the last complete cycle without one, and so the length of a
    streak exactly while no cycle hits the key twice (one rule can, and then needs fewer cycles than it asks for); when the offline
    hosts are unknown a cycle resolves nothing but integration incidents without an enabled configuration; the single-host
    incidents a cycle opens are about enabled hosts outside maintenance; and which incidents a pass of the auto-resolution leaves open.
  \<^item> \<open>Incident_View\<close>: the filter of the incidents by host, patterns on the text of a list, finds exactly the lists with the host.
  \<^item> \<open>Integration_Alerts\<close>, \<open>Agent_Services\<close>: other sources of incidents, each with a specification the operations
    refine (which alerts are open after a snapshot, streaks and open incidents after a heartbeat).
  \<^item> \<open>Alert_Rules\<close>: the rules a user wrote. Shown: an evaluation is one step of a small machine per rule, and which rules fire; of the
    other rules only a failure of the database matters, as they share a session that nothing rolls back; a rule whose notification raises
    never gets its cooldown.
  \<^item> \<open>Rate_Limit\<close>: sliding windows in memory under any sequence of calls. Shown: no key is admitted more often than its limit, as long as no
    call has a window of less than half of the key's; otherwise the periodic cleanup forgets failed logins.
  \<^item> \<open>Notifications\<close>: a dispatch sends to exactly the channels that are due, unless a mail is due and the stored port is not a number: then it
    raises before anything is sent. The errors of the webhook channels do not show the address.

  \<^item> \<open>Ingest\<close>: an integration snapshot becomes rows, alerts and status; it refines a specification of the tables it may
    write (when no database error interrupts it), and at most one integration of a cluster is primary.
  \<^item> \<open>Leader_Election\<close>: the lease and the loops of the instances. Shown: two instances run the jobs at once only if one of them last
    got the lease a time to live ago, and a standby takes over; a leader that cannot reach the lock keeps running its jobs beside the
    next one.
  \<^item> \<open>Ip_Address\<close>, \<open>Net_Safety\<close>: addresses with the special ranges of the standard library, and the guard in front of
    outbound requests, checked against every address a name resolves to, and again at connect time by \<^verbatim>\<open>connect_tcp\<close>; the webhook
    channels of \<^verbatim>\<open>notification_channels.py\<close> use a plain client, to which only the first check applies.
  \<^item> \<open>Syslog_Hosts\<close>, \<open>Syslog_Parse\<close>, \<open>Syslog_Rate\<close>, \<open>Syslog_Pipeline\<close>: attribution of a message to a host of its own
    tenant, the message formats (what the sender wrote in RFC 5424 is read back), the limit per source, and the
    buffer: while the server runs, every accepted message is stored, in flight, buffered or counted as dropped, under any order of
    arrivals, flushes and failures. A failed insert is taken to store nothing, and stopping the server is not an event: it can lose the batch
    that is being written, which is shown separately.
  \<^item> \<open>Log_Templates\<close>, \<open>Log_Baselines\<close>, \<open>Log_Anomalies\<close>: template counts (none is lost by a failing flush), bursts, noise
    scores, trends; the message rates per source, hour and weekday (each completed hour is folded in once, a pass of an instance being one
    step; the first samples give the exact mean and deviation), and the anomalies against them.
  \<^item> \<open>Predictor_Config\<close>, \<open>Precursors\<close>, \<open>Fleet_Patterns\<close>: templates that come before failures, their confidence (a Wilson
    bound) and lead times, the blacklist; templates on many hosts at once. The rule for the latter never fires
    with its default of two cycles.
  \<^item> \<open>Predictions\<close>: the sample of a series, the least-squares line through it, and the cache of the results per tenant.
  \<^item> \<open>Fair_Share\<close>: the slots for expensive work are within the caps, never idle while somebody may take one, and no tenant is
    passed over.
  \<^item> \<open>Tenant_Jobs\<close>: the pass of a job over the tenants, cadence, retention caps, local schedules. A pass is given how long each iteration
    takes, possibly for ever; when it starts is computed from the gate of a parallel pass. Shown: in a sequential pass a tenant's run depends on
    its own iteration only; in a parallel one it is not held up by fewer stuck iterations than the gate has slots, while as many of them starve the
    tenants behind; over passes that do not overlap each other no tenant has two iterations of a job at once. The plain call for a
    single tenant does not look at the iterations in flight and can overlap one.

  \<^item> \<open>Ping_Cycle\<close>: a cycle of the checks over the hosts and the memory of the process (streaks of service failures, begin of outages, who was
    notified). Shown: a host is reported offline exactly by the first check that finds its outage lasting for the grace period, back online only
    after that, and the latched service error is the three-failures, two-passes hysteresis of its checks since the last cycle without one.
  \<^item> \<open>Backup_Monitor\<close>: the runs of backup jobs found in the snapshots of the integrations, when one is overdue, and the summary. Shown: a
    job has one row, and the counts of the summary are those of the effective states; with all backups of a guest on one storage the row is the
    newest run, with several storages the one that is listed last decides.
  \<^item> \<open>Self_Check\<close>: stale streams, silent probes and late jobs, and the incident about them. Shown: a run refines an update of the open titles;
    a second problem is masked by the first.
  \<^item> \<open>Float_Round\<close>, \<open>Bandwidth\<close>: rounding to binary64; counters to rates, and the dashboard over the latest samples. Shown: the rate is the
    number of bits since the tenant's newest sample per second, up to the truncation and the rounding of three operations, and 0 after a
    reset; the totals are the sums over the sources.
  \<^item> \<open>Integration_Policy\<close>: polling intervals, alert limits with a tenant's changes, health scores. Shown: collections keep their distance, a
    saved limit is the one compared against, a score is between 0 and 1.
  \<^item> \<open>Collection_Cycle\<close>: the passes that collect the integrations of a tenant, as events: a pass decides, its units start, a unit ends and is
    ingested, a configuration changes. Shown: a pass takes exactly what is due and not being collected, and no configuration is collected twice
    at once unless a pass decides while another one is between its decision and the start of its units; then it can be.
  \<^item> \<open>User_Accounts\<close>: memberships, the access of a request, and the user administration of a tenant. Shown: a tenant's admin changes no memberships of
    other tenants and no account that reaches further (other than their own), a tenant keeps an admin; an operator who is removed from the default
    tenant stays one.
  \<^item> \<open>Port_Discovery\<close>: what a scan of a host reports and leaves in the table of ports. \<open>Changes_Feed\<close>: the feed of changes. Shown: a page that is
    cut from tables read only as deep as needed is the page of the whole history.

  \<^bold>\<open>Parameters.\<close> SHA-256, the hashing of passwords, the formatting of a float, the time zone database, the tenant cipher, the answers of
  ClickHouse, Redis, the name service and remote web servers, compiled regular expressions (so the extraction of a
  template and its tags), the GeoIP lookup and the parser of ISO dates are arguments of the definitions that use them. Where a theorem needs more
  than totality of such an argument (that the digest is injective, for example) it is a hypothesis of that theorem.

  \<^bold>\<open>Bounds.\<close> No definition uses fuel. Loops that are not structural have a termination proof: walks over the
  topology by the hosts not yet seen, parsers by the length of the rest, the retry loop of a delivery by its
  attempts left, the JSON walks by the size of the value, the hours of a baseline pass by the hours left, the dispatch of
  slots by the free ones. Baselines and confidences are real numbers, because they need square roots; fill levels and
  trends are rationals.

  \<^bold>\<open>Not modelled.\<close> Most request handlers (those of the user administration are), SQL and the ORM session beyond the order of reads and
  writes and the failures named above, the scheduler's timing, ClickHouse, SNMP, the integration clients, the agents, tenancy enforcement in
  the database, the AI features and the enterprise extensions other than the leader election: they are I/O or calls of libraries around the
  rules above. Case mapping and white space are those of ASCII, and floating-point numbers do not round, except in the rates of \<open>Bandwidth\<close>. The
  sockets of the syslog receiver and the event loop appear as sequences of events. The cleanup of old log templates is a definition but no event
  of the flow of counts, and neither that flow nor a pass over the tenants is cancelled in the middle. The results of the network checks of a
  host are arguments of the ping cycle; its metrics and the broadcast to browsers are left out. The scoring of past predictions and the
  dashboard's summaries are left out.
\<close>

end
